(* ===== verification/JsPrelude.thy ===== *)
theory JsPrelude
  imports Main "HOL-Library.Word"
begin

text \<open>
  Shared ground of the development: the JavaScript operators the code uses on Numbers,
  the types its strings and typed arrays are modelled by, results of code that may throw,
  and the lemmas about them that several components need.

  A JavaScript Number that holds an integer is an \<open>int\<close>. The bitwise operators convert
  their operands by ToInt32 (for \<open>>>>\<close>: ToUint32) and give back such an integer; the
  definitions below write the conversions out as ECMA-262 does. A JavaScript string is a
  list of 16-bit code units, a \<open>Uint8Array\<close> a list of 8-bit bytes.
\<close>

unbundle bit_operations_syntax

named_theorems js_arith \<open>bitwise operators as arithmetic, on operands in range\<close>
named_theorems js_word \<open>bitwise operators as operations on 32-bit words\<close>
named_theorems res_simps \<open>results that may be errors\<close>

type_synonym byte = "8 word"
type_synonym jschar = "16 word"
type_synonym jsstr = "jschar list"

abbreviation w32 :: "int \<Rightarrow> 32 word" where
  "w32 x \<equiv> word_of_int x"

section \<open>Number conversions and bitwise operators\<close>

definition ToInt32 :: "int \<Rightarrow> int" where
  "ToInt32 x = (let m = x mod 2 ^ 32 in if 2 ^ 31 \<le> m then m - 2 ^ 32 else m)"

definition ToUint32 :: "int \<Rightarrow> int" where
  "ToUint32 x = x mod 2 ^ 32"

definition js_and :: "int \<Rightarrow> int \<Rightarrow> int" where
  "js_and a b = ToInt32 a AND ToInt32 b"

definition js_or :: "int \<Rightarrow> int \<Rightarrow> int" where
  "js_or a b = ToInt32 a OR ToInt32 b"

definition js_xor :: "int \<Rightarrow> int \<Rightarrow> int" where
  "js_xor a b = ToInt32 a XOR ToInt32 b"

definition js_not :: "int \<Rightarrow> int" where
  "js_not a = - ToInt32 a - 1"

definition js_shl :: "int \<Rightarrow> nat \<Rightarrow> int" where
  "js_shl a n = ToInt32 (ToInt32 a * 2 ^ (n mod 32))"

definition js_shr :: "int \<Rightarrow> nat \<Rightarrow> int" where
  "js_shr a n = ToInt32 a div 2 ^ (n mod 32)"

definition js_ushr :: "int \<Rightarrow> nat \<Rightarrow> int" where
  "js_ushr a n = ToUint32 a div 2 ^ (n mod 32)"

lemma ToUint32_take_bit: "ToUint32 x = take_bit 32 x"
  by (simp add: ToUint32_def take_bit_eq_mod)

lemma mod_shift_half:
  fixes m N :: int
  assumes "0 \<le> m" and "m < 2 * N"
  shows "(m + N) mod (2 * N) - N = (if N \<le> m then m - 2 * N else m)"
proof (cases "N \<le> m")
  case True
  have "m + N = (m - N) + 2 * N" by simp
  then have "(m + N) mod (2 * N) = ((m - N) + 2 * N) mod (2 * N)" by (rule arg_cong)
  also have "\<dots> = (m - N) mod (2 * N)" by (rule mod_add_self2)
  also have "\<dots> = m - N" using assms True by (intro mod_pos_pos_trivial) auto
  finally show ?thesis using True by simp
next
  case False
  then have "(m + N) mod (2 * N) = m + N"
    using assms by (intro mod_pos_pos_trivial) auto
  then show ?thesis using False by simp
qed

lemma ToInt32_sint: "ToInt32 x = sint (w32 x)"
proof -
  have "sint (w32 x) = (x + 2 ^ 31) mod (2 * 2 ^ 31) - 2 ^ 31"
    by (simp add: int_word_sint)
  also have "\<dots> = (x mod (2 * 2 ^ 31) + 2 ^ 31) mod (2 * 2 ^ 31) - 2 ^ 31"
    by (simp only: mod_add_left_eq)
  also have "\<dots> = ToInt32 x"
    by (subst mod_shift_half) (simp_all add: ToInt32_def Let_def)
  finally show ?thesis by simp
qed

lemma ToInt32_signed_take_bit: "ToInt32 x = signed_take_bit 31 x"
  by (simp add: ToInt32_sint signed_of_int)

lemma ToUint32_uint: "ToUint32 x = uint (w32 x)"
  by (simp add: ToUint32_take_bit unsigned_of_int)

lemma w32_ToInt32 [simp]: "w32 (ToInt32 x) = w32 x"
  by (simp add: ToInt32_sint)

lemma w32_ToUint32 [simp]: "w32 (ToUint32 x) = w32 x"
  by (simp add: ToUint32_uint)

lemma ToInt32_id [js_arith]: "- 2147483648 \<le> x \<Longrightarrow> x < 2147483648 \<Longrightarrow> ToInt32 x = x"
  by (simp add: ToInt32_signed_take_bit signed_take_bit_int_eq_self)

lemma ToUint32_id [js_arith]: "0 \<le> x \<Longrightarrow> x < 4294967296 \<Longrightarrow> ToUint32 x = x"
  by (simp add: ToUint32_take_bit take_bit_int_eq_self)

lemma ToInt32_range: "- 2147483648 \<le> ToInt32 x" "ToInt32 x < 2147483648"
  using signed_take_bit_int_greater_eq_minus_exp [of 31 x]
    signed_take_bit_int_less_exp [of 31 x]
  by (simp_all add: ToInt32_signed_take_bit)

lemma ToUint32_range: "0 \<le> ToUint32 x" "ToUint32 x < 4294967296"
  by (simp_all add: ToUint32_def)

lemma ToInt32_idem [simp]: "ToInt32 (ToInt32 x) = ToInt32 x"
  by (simp add: ToInt32_id ToInt32_range)

lemma sint_w32_eq_iff: "w32 x = w32 y \<longleftrightarrow> ToInt32 x = ToInt32 y"
  by (simp add: ToInt32_sint word_eq_iff_signed)

subsection \<open>The operators as operations on 32-bit words\<close>

lemma w32_js_and [js_word]: "w32 (js_and a b) = w32 a AND w32 b"
  by (simp add: js_and_def of_int_and_eq)

lemma w32_js_or [js_word]: "w32 (js_or a b) = w32 a OR w32 b"
  by (simp add: js_or_def of_int_or_eq)

lemma w32_js_xor [js_word]: "w32 (js_xor a b) = w32 a XOR w32 b"
  by (simp add: js_xor_def of_int_xor_eq)

lemma w32_js_not [js_word]: "w32 (js_not a) = NOT (w32 a)"
  by (simp add: js_not_def not_eq_complement)

lemma w32_js_shl [js_word]: "w32 (js_shl a n) = push_bit (n mod 32) (w32 a)"
  by (simp add: js_shl_def push_bit_eq_mult)

lemma w32_js_ushr [js_word]: "w32 (js_ushr a n) = drop_bit (n mod 32) (w32 a)"
proof -
  have "js_ushr a n = uint (drop_bit (n mod 32) (w32 a))"
    by (simp add: js_ushr_def ToUint32_uint drop_bit_eq_div [symmetric] unsigned_drop_bit_eq
        bintr_uint)
  then show ?thesis by simp
qed

lemma js_xor_sint: "js_xor a b = sint (w32 a XOR w32 b)"
  by (simp add: js_xor_def ToInt32_sint signed_xor_eq)

lemma js_or_sint: "js_or a b = sint (w32 a OR w32 b)"
  by (simp add: js_or_def ToInt32_sint signed_or_eq)

lemma js_and_sint: "js_and a b = sint (w32 a AND w32 b)"
  by (simp add: js_and_def ToInt32_sint signed_and_eq)

lemma word_xor_right_cancel: "x XOR k = y XOR k \<longleftrightarrow> x = (y :: 'a::len word)"
proof
  assume "x XOR k = y XOR k"
  then have "(x XOR k) XOR k = (y XOR k) XOR k" by simp
  then show "x = y" by (simp add: xor.assoc)
qed simp

subsection \<open>The operators as arithmetic\<close>

lemma mul_add_div_mod:
  fixes a b m :: int
  assumes "0 \<le> b" "b < m"
  shows "(a * m + b) div m = a" "(a * m + b) mod m = b"
  using assms by (simp_all add: div_pos_pos_trivial mod_pos_pos_trivial)

lemma div_bounds:
  fixes c d k :: int
  assumes "0 \<le> c" "c < k * d" "0 < d"
  shows "0 \<le> c div d" "c div d < k"
proof -
  show "0 \<le> c div d" using assms by (simp add: pos_imp_zdiv_nonneg_iff)
  have "c div d * d \<le> c" using assms pos_mod_sign [of d c] div_mult_mod_eq [of c d] by linarith
  then have "c div d * d < k * d" using assms(2) by (rule le_less_trans)
  then show "c div d < k" using assms(3) by (simp add: mult_less_cancel_right)
qed

lemma div_upto:
  fixes c d k m :: int
  shows "0 \<le> c \<Longrightarrow> c < m \<Longrightarrow> m = k * d \<Longrightarrow> 0 < d \<Longrightarrow> c div d < k"
  using div_bounds(2) [of c k d] by simp

lemma div_nonneg:
  fixes c d :: int
  shows "0 \<le> c \<Longrightarrow> 0 < d \<Longrightarrow> 0 \<le> c div d"
  by (simp add: pos_imp_zdiv_nonneg_iff)

lemma js_and_mask: "k \<le> 31 \<Longrightarrow> js_and a (2 ^ k - 1) = a mod 2 ^ k"
proof -
  assume k: "k \<le> 31"
  have "(2::int) ^ k \<le> 2147483648" using power_increasing [of k 31 "2::int"] k by simp
  moreover have "(1::int) \<le> 2 ^ k" by simp
  ultimately have "ToInt32 (2 ^ k - 1) = 2 ^ k - 1" by (intro ToInt32_id) linarith+
  then have r: "ToInt32 (2 ^ k - 1) = mask k"
    by (simp add: mask_eq_exp_minus_1)
  have "js_and a (2 ^ k - 1) = take_bit k (ToInt32 a)"
    by (simp add: js_and_def r take_bit_eq_mask)
  also have "\<dots> = take_bit k a"
    using k by (simp add: ToInt32_signed_take_bit take_bit_signed_take_bit)
  finally show ?thesis by (simp add: take_bit_eq_mod)
qed

lemmas js_and_masks [js_arith] =
  js_and_mask [of 1, simplified] js_and_mask [of 2, simplified] js_and_mask [of 3, simplified]
  js_and_mask [of 4, simplified] js_and_mask [of 5, simplified] js_and_mask [of 6, simplified]
  js_and_mask [of 7, simplified] js_and_mask [of 8, simplified] js_and_mask [of 10, simplified]
  js_and_mask [of 16, simplified]

lemma js_ushr_div [js_arith]:
  "0 \<le> a \<Longrightarrow> a < 4294967296 \<Longrightarrow> n < 32 \<Longrightarrow> js_ushr a n = a div 2 ^ n"
  by (simp add: js_ushr_def ToUint32_id)

lemma js_shr_div [js_arith]:
  "- 2147483648 \<le> a \<Longrightarrow> a < 2147483648 \<Longrightarrow> n < 32 \<Longrightarrow> js_shr a n = a div 2 ^ n"
  by (simp add: js_shr_def ToInt32_id)

lemma js_shl_mult:
  "0 \<le> a \<Longrightarrow> a * 2 ^ n < 2147483648 \<Longrightarrow> n < 32 \<Longrightarrow> js_shl a n = a * 2 ^ n"
proof -
  assume a: "0 \<le> a" "a * 2 ^ n < 2147483648" "n < 32"
  have "a * 1 \<le> a * 2 ^ n" using a(1) by (intro mult_left_mono) auto
  then have "ToInt32 a = a" using a by (intro ToInt32_id) linarith+
  moreover have "ToInt32 (a * 2 ^ n) = a * 2 ^ n"
    using a \<open>a * 1 \<le> a * 2 ^ n\<close> by (intro ToInt32_id) linarith+
  ultimately show ?thesis using a by (simp add: js_shl_def)
qed

text \<open>An OR of a shifted value with one that fits below the shift is an addition.\<close>

lemma int_or_disjoint:
  fixes a b :: int
  assumes "0 \<le> b" and "b < 2 ^ n"
  shows "a * 2 ^ n OR b = a * 2 ^ n + b"
proof -
  have b: "take_bit n b = b" using assms by (simp add: take_bit_int_eq_self)
  have "push_bit n a AND take_bit n b = 0"
    by (rule bit_eqI) (auto simp: bit_simps)
  then have "push_bit n a + take_bit n b = push_bit n a OR take_bit n b"
    by (simp add: disjunctive_add_eq_or)
  then show ?thesis by (simp add: b push_bit_eq_mult)
qed

lemma js_or_disjoint:
  assumes "0 \<le> b" "b < 2 ^ n" "0 \<le> a" "a * 2 ^ n + b < 2147483648"
  shows "js_or (a * 2 ^ n) b = a * 2 ^ n + b"
proof -
  have "0 \<le> a * 2 ^ n" using assms by simp
  then have "ToInt32 (a * 2 ^ n) = a * 2 ^ n" "ToInt32 b = b"
    using assms by (intro ToInt32_id; linarith)+
  then show ?thesis by (simp add: js_or_def int_or_disjoint assms)
qed

lemma js_shl_or:
  assumes "0 \<le> b" "b < 2 ^ n" "0 \<le> a" "a * 2 ^ n + b < 2147483648" "n < 32"
  shows "js_or (js_shl a n) b = a * 2 ^ n + b"
  using assms by (simp add: js_shl_mult js_or_disjoint)

lemma div_eq_iff_bounds:
  fixes a m q :: int
  assumes "0 < m"
  shows "a div m = q \<longleftrightarrow> q * m \<le> a \<and> a < (q + 1) * m"
proof
  assume "a div m = q"
  then have "a = q * m + a mod m" using div_mult_mod_eq [of a m] by simp
  moreover have "0 \<le> a mod m" "a mod m < m" using assms by simp_all
  ultimately show "q * m \<le> a \<and> a < (q + 1) * m" by (simp add: algebra_simps)
next
  assume b: "q * m \<le> a \<and> a < (q + 1) * m"
  then have "0 \<le> a - q * m" "a - q * m < m" by (simp_all add: algebra_simps)
  from mul_add_div_mod(1) [OF this, of q] show "a div m = q" by simp
qed

text \<open>A mask of \<open>j\<close> ones above \<open>k\<close> zeros.\<close>

lemma and_high_mask:
  fixes a :: int
  shows "a AND (2 ^ k * (2 ^ j - 1)) = a div 2 ^ k mod 2 ^ j * 2 ^ k"
proof -
  have m: "2 ^ k * (2 ^ j - 1) = push_bit k (mask j :: int)"
    by (simp add: push_bit_eq_mult mask_eq_exp_minus_1 mult.commute)
  have "a AND push_bit k (mask j) = push_bit k (take_bit j (drop_bit k a))"
    by (rule bit_eqI) (auto simp: bit_simps)
  then show ?thesis by (simp only: m push_bit_eq_mult take_bit_eq_mod drop_bit_eq_div)
qed

lemma js_and_high:
  assumes "0 \<le> a" "a < 2147483648" "k + j \<le> 31"
  shows "js_and a (2 ^ k * (2 ^ j - 1)) = a div 2 ^ k mod 2 ^ j * 2 ^ k"
proof -
  have "(1::int) \<le> 2 ^ j" by simp
  then have "0 \<le> (2::int) ^ k * (2 ^ j - 1)" by simp
  moreover have "(2::int) ^ k * (2 ^ j - 1) < 2 ^ k * 2 ^ j" by simp
  moreover have "(2::int) ^ k * 2 ^ j \<le> 2147483648"
    using power_increasing [of "k + j" 31 "2::int"] assms by (simp add: power_add)
  ultimately have "ToInt32 (2 ^ k * (2 ^ j - 1)) = 2 ^ k * (2 ^ j - 1)"
    by (intro ToInt32_id) linarith+
  moreover have "ToInt32 a = a" using assms by (intro ToInt32_id) linarith+
  ultimately show ?thesis by (simp only: js_and_def and_high_mask)
qed

text \<open>Quotient and remainder by a power of two, put back together.\<close>

lemma js_shl_or_div_mod:
  assumes "0 \<le> c" "c < 2147483648" "n < 32"
  shows "js_or (js_shl (c div 2 ^ n) n) (c mod 2 ^ n) = c"
proof -
  have "0 \<le> c mod 2 ^ n" "c mod 2 ^ n < 2 ^ n" "0 \<le> c div 2 ^ n"
    using assms by (simp_all add: pos_imp_zdiv_nonneg_iff)
  then show ?thesis
    using js_shl_or [of "c mod 2 ^ n" n "c div 2 ^ n"] assms by (simp only: div_mult_mod_eq)
qed

lemma js_or_small:
  assumes "0 \<le> a" "a < 2 ^ k" "0 \<le> b" "b < 2 ^ k" "k \<le> 31"
  shows "0 \<le> js_or a b" "js_or a b < 2 ^ k"
proof -
  have k: "(2::int) ^ k \<le> 2147483648" using power_increasing [of k 31 "2::int"] assms by simp
  have "ToInt32 a = a" "ToInt32 b = b"
    using assms k by (intro ToInt32_id; linarith)+
  then have "js_or a b = a OR b" by (simp add: js_or_def)
  moreover have "take_bit k (a OR b) = a OR b"
    using assms by (simp add: take_bit_or take_bit_int_eq_self)
  ultimately have "js_or a b = take_bit k (a OR b)" by simp
  then show "0 \<le> js_or a b" "js_or a b < 2 ^ k"
    by (simp_all only: take_bit_nonnegative take_bit_int_less_exp)
qed

section \<open>Results that may be errors\<close>

text \<open>
  Code that may throw returns \<open>Inl\<close> of the error or \<open>Inr\<close> of its value; \<open>rbind\<close>
  is what follows a statement that may throw.
\<close>

definition rbind :: "'e + 'a \<Rightarrow> ('a \<Rightarrow> 'e + 'b) \<Rightarrow> 'e + 'b" where
  "rbind m f = (case m of Inl e \<Rightarrow> Inl e | Inr x \<Rightarrow> f x)"

lemma rbind_Inl [simp, res_simps]: "rbind (Inl e) f = Inl e"
  by (simp add: rbind_def)

lemma rbind_Inr [simp, res_simps]: "rbind (Inr x) f = f x"
  by (simp add: rbind_def)

lemma rbind_eq_Inr [res_simps]: "rbind m f = Inr y \<longleftrightarrow> (\<exists>x. m = Inr x \<and> f x = Inr y)"
  by (cases m) (simp_all add: rbind_def)

lemma rbind_eq_Inl [res_simps]:
  "rbind m f = Inl e \<longleftrightarrow> m = Inl e \<or> (\<exists>x. m = Inr x \<and> f x = Inl e)"
  by (cases m) (simp_all add: rbind_def)

lemma rbind_assoc: "rbind (rbind m f) g = rbind m (\<lambda>x. rbind (f x) g)"
  by (cases m) simp_all

lemma rbind_cong [fundef_cong]:
  "m = m' \<Longrightarrow> (\<And>x. m' = Inr x \<Longrightarrow> f x = f' x) \<Longrightarrow> rbind m f = rbind m' f'"
  by (cases m') simp_all

section \<open>Strings and arrays\<close>

text \<open>A literal of the source as a string of code units.\<close>

definition js :: "string \<Rightarrow> jsstr" where
  "js s = map of_char s"

text \<open>\<open>s.charAt(i)\<close>: a string of length one, or the empty string out of range.\<close>

definition charAt :: "jsstr \<Rightarrow> int \<Rightarrow> jsstr" where
  "charAt s i = (if 0 \<le> i \<and> i < int (length s) then [s ! nat i] else [])"

text \<open>\<open>s.indexOf(c)\<close> of a one-character string: its first position or -1.\<close>

fun char_index_from :: "int \<Rightarrow> jschar \<Rightarrow> jsstr \<Rightarrow> int" where
  "char_index_from i c [] = - 1"
| "char_index_from i c (x # xs) = (if x = c then i else char_index_from (i + 1) c xs)"

definition js_indexOf :: "jsstr \<Rightarrow> jsstr \<Rightarrow> int" where
  "js_indexOf s t = (case t of [] \<Rightarrow> 0 | c # _ \<Rightarrow> char_index_from 0 c s)"

text \<open>Bytes as the characters of a binary string, and back by the mask \<open>0xFF\<close>.\<close>

definition binstr :: "byte list \<Rightarrow> jsstr" where
  "binstr bs = map ucast bs"

definition str_bytes :: "jsstr \<Rightarrow> byte list" where
  "str_bytes s = map (\<lambda>c. word_of_int (js_and (uint c) 255)) s"

lemma ucast_char_mask: "(word_of_int (js_and (uint (c :: jschar)) 255) :: byte) = ucast c"
  by (simp add: js_and_masks uint_word_of_int_eq [symmetric] word_uint_eq_iff uint_word_of_int
      unsigned_ucast_eq take_bit_eq_mod)

lemma str_bytes_ucast: "str_bytes s = map ucast s"
  by (simp add: str_bytes_def ucast_char_mask)

lemma str_bytes_binstr [simp]: "str_bytes (binstr bs) = bs"
proof -
  have "(ucast (ucast b :: jschar) :: byte) = b" for b :: byte
    by (simp add: word_uint_eq_iff unsigned_ucast_eq take_bit_word_eq_self)
  then show ?thesis by (simp add: str_bytes_ucast binstr_def comp_def)
qed

lemma length_binstr [simp]: "length (binstr bs) = length bs"
  by (simp add: binstr_def)

lemma length_str_bytes [simp]: "length (str_bytes s) = length s"
  by (simp add: str_bytes_def)

lemma binstr_append [simp]: "binstr (a @ b) = binstr a @ binstr b"
  by (simp add: binstr_def)

lemma str_bytes_append [simp]: "str_bytes (a @ b) = str_bytes a @ str_bytes b"
  by (simp add: str_bytes_def)

lemma byte_range: "0 \<le> uint (b :: byte)" "uint b < 256"
  using uint_lt2p [of b] by simp_all

end
