(* ===== verification/Base64.thy ===== *)
theory Base64
  imports JsPrelude
begin

text \<open>
  \<open>lib/base64\<close> of JSZip (jszip.js): \<open>encode\<close> over the character codes of a string
  or the elements of an array, \<open>decode\<close> into a typed array or, on platforms without
  typed arrays, into an ordinary one. The main results are the round trip and the exact
  condition under which \<open>decode\<close> throws.
\<close>

section \<open>The alphabet\<close>

definition keyStr :: jsstr where
  "keyStr = js ''ABCDEFGHIJKLMNOPQRSTUVWXYZabcdefghijklmnopqrstuvwxyz0123456789+/=''"

section \<open>Encoding\<close>

text \<open>\<open>i < len ? input[i++] : 0\<close>, on the part of the input still to be read.\<close>

fun next_or_zero :: "int list \<Rightarrow> int \<times> int list" where
  "next_or_zero [] = (0, [])"
| "next_or_zero (x # xs) = (x, xs)"

lemma next_or_zero_length: "length (snd (next_or_zero xs)) \<le> length xs"
  by (cases xs) auto

definition b64_group :: "nat \<Rightarrow> int \<Rightarrow> int \<Rightarrow> int \<Rightarrow> jsstr" where
  "b64_group remainingBytes chr1 chr2 chr3 =
     (let enc1 = js_shr chr1 2;
          enc2 = js_or (js_shl (js_and chr1 3) 4) (js_shr chr2 4);
          enc3 = (if remainingBytes > 1
                  then js_or (js_shl (js_and chr2 15) 2) (js_shr chr3 6) else 64);
          enc4 = (if remainingBytes > 2 then js_and chr3 63 else 64)
      in charAt keyStr enc1 @ charAt keyStr enc2 @ charAt keyStr enc3 @ charAt keyStr enc4)"

function b64_encode_loop :: "int list \<Rightarrow> jsstr" where
  "b64_encode_loop [] = []"
| "b64_encode_loop (chr1 # r1) =
     (let (chr2, r2) = next_or_zero r1; (chr3, r3) = next_or_zero r2
      in b64_group (length (chr1 # r1)) chr1 chr2 chr3 @ b64_encode_loop r3)"
  by pat_completeness auto
termination
proof (relation "measure length")
  fix chr1 r1 x chr2 r2 y chr3 r3
  assume "x = next_or_zero r1" "(chr2, r2) = x" "y = next_or_zero r2" "(chr3, r3) = y"
  then have "length r3 \<le> length r1"
    using next_or_zero_length [of r1] next_or_zero_length [of r2] by (metis le_trans snd_conv)
  then show "(r3, chr1 # r1) \<in> measure length" by simp
qed simp

text \<open>The input is a string (read by \<open>charCodeAt\<close>) or an array of numbers.\<close>

datatype b64_input = B64String jsstr | B64Array "int list"

fun base64_encode :: "b64_input \<Rightarrow> jsstr" where
  "base64_encode (B64String s) = b64_encode_loop (map uint s)"
| "base64_encode (B64Array xs) = b64_encode_loop xs"

section \<open>Decoding\<close>

datatype b64_error = LooksLikeDataUrl | BadContentLength

text \<open>A typed array of bytes, or an ordinary array, in which \<open>None\<close> is a hole.\<close>

datatype b64_output = TypedOut "byte list" | ArrayOut "int option list"

definition b64_filter :: "jsstr \<Rightarrow> jsstr" where
  "b64_filter s = filter (\<lambda>c. c \<in> set keyStr) s"

fun next_char :: "jsstr \<Rightarrow> jsstr \<times> jsstr" where
  "next_char [] = ([], [])"
| "next_char (c # cs) = ([c], cs)"

lemma next_char_length: "length (snd (next_char s)) \<le> length s"
  by (cases s) auto

definition b64_ungroup :: "int \<Rightarrow> int \<Rightarrow> int \<Rightarrow> int \<Rightarrow> int list" where
  "b64_ungroup enc1 enc2 enc3 enc4 =
     (let chr1 = js_or (js_shl enc1 2) (js_shr enc2 4);
          chr2 = js_or (js_shl (js_and enc2 15) 4) (js_shr enc3 2);
          chr3 = js_or (js_shl (js_and enc3 3) 6) enc4
      in [chr1] @ (if enc3 \<noteq> 64 then [chr2] else []) @ (if enc4 \<noteq> 64 then [chr3] else []))"

function b64_decode_loop :: "jsstr \<Rightarrow> int list" where
  "b64_decode_loop [] = []"
| "b64_decode_loop (c1 # r1) =
     (let (c2, r2) = next_char r1; (c3, r3) = next_char r2; (c4, r4) = next_char r3
      in b64_ungroup (js_indexOf keyStr [c1]) (js_indexOf keyStr c2)
           (js_indexOf keyStr c3) (js_indexOf keyStr c4) @ b64_decode_loop r4)"
  by pat_completeness auto
termination
proof (relation "measure length")
  fix c1 r1 x c2 r2 y c3 r3 z c4 r4
  assume "x = next_char r1" "(c2, r2) = x" "y = next_char r2" "(c3, r3) = y"
    "z = next_char r3" "(c4, r4) = z"
  then have "length r4 \<le> length r1"
    using next_char_length [of r1] next_char_length [of r2] next_char_length [of r3]
    by (metis le_trans snd_conv)
  then show "(r4, c1 # r1) \<in> measure length" by simp
qed simp

text \<open>
  \<open>totalLength\<close> is a quotient by 4 that need not be an integer, so the model keeps four
  times its value: \<open>totalLength % 1 !== 0\<close> says that 4 does not divide it.
\<close>

definition b64_total4 :: "jsstr \<Rightarrow> int" where
  "b64_total4 input =
     int (length input) * 3
       - (if charAt input (int (length input) - 1) = charAt keyStr 64 then 4 else 0)
       - (if charAt input (int (length input) - 2) = charAt keyStr 64 then 4 else 0)"

text \<open>
  Writes at successive indices of a \<open>Uint8Array(n)\<close> (out of its bounds they are
  dropped, missing ones leave 0) and of an \<open>Array(n)\<close> (which grows, missing ones are
  holes).
\<close>

definition typed_fill :: "nat \<Rightarrow> int list \<Rightarrow> byte list" where
  "typed_fill n ws = take n (map word_of_int ws @ replicate (n - length ws) 0)"

definition array_fill :: "nat \<Rightarrow> int list \<Rightarrow> int option list" where
  "array_fill n ws = map Some ws @ replicate (n - length ws) None"

definition base64_decode :: "bool \<Rightarrow> jsstr \<Rightarrow> b64_error + b64_output" where
  "base64_decode has_uint8array input =
     (if take 5 input = js ''data:'' then Inl LooksLikeDataUrl
      else let input = b64_filter input; total4 = b64_total4 input
           in if total4 mod 4 \<noteq> 0 then Inl BadContentLength
              else let n = nat (total4 div 4); ws = b64_decode_loop input
                   in Inr (if has_uint8array then TypedOut (typed_fill n ws)
                           else ArrayOut (array_fill n ws)))"

section \<open>The alphabet as a bijection\<close>

lemma char_index_from_nth:
  "distinct xs \<Longrightarrow> k < length xs \<Longrightarrow> char_index_from b (xs ! k) xs = b + int k"
proof (induction xs arbitrary: b k)
  case (Cons x xs)
  show ?case
  proof (cases k)
    case (Suc k')
    with Cons.prems have "k' < length xs" "x \<noteq> xs ! k'" by auto
    with Suc Cons show ?thesis by auto
  qed simp
qed simp

lemma keyStr_distinct: "distinct keyStr"
  by (simp add: keyStr_def js_def)

lemma keyStr_length: "length keyStr = 65"
  by (simp add: keyStr_def js_def)

lemma charAt_keyStr: "0 \<le> k \<Longrightarrow> k \<le> 64 \<Longrightarrow> charAt keyStr k = [keyStr ! nat k]"
  by (simp add: charAt_def keyStr_length)

lemma indexOf_keyStr [simp]:
  "0 \<le> k \<Longrightarrow> k \<le> 64 \<Longrightarrow> js_indexOf keyStr [keyStr ! nat k] = k"
  by (simp add: js_indexOf_def char_index_from_nth keyStr_distinct keyStr_length)

lemma indexOf_keyStr_64 [simp]: "js_indexOf keyStr [keyStr ! 64] = 64"
  using indexOf_keyStr [of 64] by simp

lemma keyStr_64_mem: "keyStr ! 64 \<in> set keyStr"
  by (simp add: keyStr_length)

lemma keyStr_nth_eq_iff:
  "0 \<le> k \<Longrightarrow> k \<le> 64 \<Longrightarrow> 0 \<le> j \<Longrightarrow> j \<le> 64 \<Longrightarrow> keyStr ! nat k = keyStr ! nat j \<longleftrightarrow> k = j"
  using nth_eq_iff_index_eq [OF keyStr_distinct, of "nat k" "nat j"]
  by (simp add: keyStr_length eq_nat_nat_iff)

section \<open>A group of three bytes\<close>

definition enc1 :: "int \<Rightarrow> int" where "enc1 c1 = c1 div 4"
definition enc2 :: "int \<Rightarrow> int \<Rightarrow> int" where "enc2 c1 c2 = c1 mod 4 * 16 + c2 div 16"
definition enc3 :: "int \<Rightarrow> int \<Rightarrow> int" where "enc3 c2 c3 = c2 mod 16 * 4 + c3 div 64"

lemma byte_quot:
  fixes c :: int
  assumes "0 \<le> c" "c < 256"
  shows "0 \<le> c div 4" "c div 4 < 64" "0 \<le> c div 16" "c div 16 < 16" "0 \<le> c div 64" "c div 64 < 4"
  by (rule div_bounds(1) [OF assms(1), of 64] div_bounds(1) [OF assms(1), of 16]
      div_bounds(1) [OF assms(1), of 4] div_bounds(2) [OF assms(1)]; simp add: assms)+

lemma enc_range:
  assumes "0 \<le> c1" "c1 < 256" "0 \<le> c2" "c2 < 256" "0 \<le> c3" "c3 < 256"
  shows "0 \<le> enc1 c1" "enc1 c1 < 64" "0 \<le> enc2 c1 c2" "enc2 c1 c2 < 64"
    "0 \<le> enc3 c2 c3" "enc3 c2 c3 < 64"
proof -
  have "0 \<le> c2 div 16" "c2 div 16 < 16" "0 \<le> c3 div 64" "c3 div 64 < 4"
    "0 \<le> c1 div 4" "c1 div 4 < 64"
    using assms by (simp_all add: byte_quot)
  moreover have "0 \<le> c1 mod 4" "c1 mod 4 < 4" "0 \<le> c2 mod 16" "c2 mod 16 < 16" by simp_all
  ultimately show "0 \<le> enc1 c1" "enc1 c1 < 64" "0 \<le> enc2 c1 c2" "enc2 c1 c2 < 64"
    "0 \<le> enc3 c2 c3" "enc3 c2 c3 < 64"
    unfolding enc1_def enc2_def enc3_def by linarith+
qed

lemma byte_shr:
  assumes "0 \<le> c" "c < 256"
  shows "js_shr c 2 = c div 4" "js_shr c 4 = c div 16" "js_shr c 6 = c div 64"
  by (subst js_shr_div; use assms in simp)+

lemma b64_group_eq:
  assumes "0 \<le> c1" "c1 < 256" "0 \<le> c2" "c2 < 256" "0 \<le> c3" "c3 < 256"
  shows "b64_group n c1 c2 c3 =
    [keyStr ! nat (enc1 c1), keyStr ! nat (enc2 c1 c2),
     keyStr ! nat (if n > 1 then enc3 c2 c3 else 64),
     keyStr ! nat (if n > 2 then c3 mod 64 else 64)]"
proof -
  have b: "0 \<le> c2 div 16" "c2 div 16 < 16" "0 \<le> c3 div 64" "c3 div 64 < 4"
    using assms by (simp_all add: byte_quot)
  have m: "0 \<le> c1 mod 4" "c1 mod 4 < 4" "0 \<le> c2 mod 16" "c2 mod 16 < 16"
    "0 \<le> c3 mod 64" "c3 mod 64 < 64" by simp_all
  have o2: "js_or (js_shl (c1 mod 4) 4) (c2 div 16) = enc2 c1 c2"
    using js_shl_or [of "c2 div 16" 4 "c1 mod 4"] b m by (simp add: enc2_def)
  have o3: "js_or (js_shl (c2 mod 16) 2) (c3 div 64) = enc3 c2 c3"
    using js_shl_or [of "c3 div 64" 2 "c2 mod 16"] b m by (simp add: enc3_def)
  note sh = byte_shr [OF assms(1,2)] byte_shr [OF assms(3,4)] byte_shr [OF assms(5,6)]
  have ch: "charAt keyStr (enc1 c1) = [keyStr ! nat (enc1 c1)]"
    "charAt keyStr (enc2 c1 c2) = [keyStr ! nat (enc2 c1 c2)]"
    "charAt keyStr (enc3 c2 c3) = [keyStr ! nat (enc3 c2 c3)]"
    "charAt keyStr (c3 mod 64) = [keyStr ! nat (c3 mod 64)]"
    "charAt keyStr 64 = [keyStr ! nat 64]"
    using m enc_range [OF assms] by (intro charAt_keyStr; linarith)+
  show ?thesis
    by (cases "n > 1"; cases "n > 2")
      (simp_all only: b64_group_def Let_def js_and_masks o2 o3 sh ch enc1_def [symmetric]
        if_True if_False append.simps)
qed

lemma b64_ungroup_group:
  assumes "0 \<le> c1" "c1 < 256" "0 \<le> c2" "c2 < 256" "0 \<le> c3" "c3 < 256"
  shows "b64_ungroup (enc1 c1) (enc2 c1 c2) (enc3 c2 c3) (c3 mod 64) = [c1, c2, c3]"
    and "b64_ungroup (enc1 c1) (enc2 c1 c2) (enc3 c2 0) 64 = [c1, c2]"
    and "b64_ungroup (enc1 c1) (enc2 c1 0) 64 64 = [c1]"
proof -
  note r = enc_range [OF assms]
  have b: "0 \<le> c2 div 16" "c2 div 16 < 16" "0 \<le> c3 div 64" "c3 div 64 < 4"
    using assms by (simp_all add: byte_quot)
  have z: "c1 mod 4 * 16 div 16 = c1 mod 4" "c2 mod 16 * 4 div 4 = c2 mod 16" by simp_all
  have e2: "enc2 c1 c2 div 16 = c1 mod 4" "enc2 c1 c2 mod 16 = c2 div 16"
    "enc2 c1 0 div 16 = c1 mod 4"
    by (simp_all only: enc2_def mul_add_div_mod [OF b(1,2)] z div_0 add_0_right)
  have e3: "enc3 c2 c3 div 4 = c2 mod 16" "enc3 c2 c3 mod 4 = c3 div 64"
    "enc3 c2 0 div 4 = c2 mod 16"
    by (simp_all only: enc3_def mul_add_div_mod [OF b(3,4)] z div_0 add_0_right)
  have m: "0 \<le> c1 mod 4" "c1 mod 4 < 4" "0 \<le> c2 mod 16" "c2 mod 16 < 16"
    "0 \<le> c3 mod 64" "c3 mod 64 < 64" by simp_all
  have 1: "js_or (js_shl (enc1 c1) 2) (c1 mod 4) = c1"
    using js_shl_or_div_mod [of c1 2] assms(1,2) by (simp add: enc1_def)
  have 2: "js_or (js_shl (c2 div 16) 4) (c2 mod 16) = c2"
    using js_shl_or_div_mod [of c2 4] assms(3,4) by simp
  have 3: "js_or (js_shl (c3 div 64) 6) (c3 mod 64) = c3"
    using js_shl_or_div_mod [of c3 6] assms(5,6) by simp
  have e20: "0 \<le> enc2 c1 0" "enc2 c1 0 < 64" "0 \<le> enc3 c2 0" "enc3 c2 0 < 64"
    using enc_range [of c1 0 0] enc_range [of 0 c2 0] assms by auto
  have lt: "enc2 c1 c2 < 256" "enc2 c1 0 < 256" "enc3 c2 c3 < 256" "enc3 c2 0 < 256"
    and ne: "enc3 c2 c3 \<noteq> 64" "enc3 c2 0 \<noteq> 64" using r e20 by simp_all
  have ne3: "c3 mod 64 \<noteq> 64" using m(6) by auto
  have sh: "js_shr (enc2 c1 c2) 4 = c1 mod 4" "js_shr (enc2 c1 0) 4 = c1 mod 4"
    "js_shr (enc3 c2 c3) 2 = c2 mod 16" "js_shr (enc3 c2 0) 2 = c2 mod 16"
    by (simp_all only: byte_shr [OF r(3) lt(1)] byte_shr [OF e20(1) lt(2)]
        byte_shr [OF r(5) lt(3)] byte_shr [OF e20(3) lt(4)] e2 e3)
  show "b64_ungroup (enc1 c1) (enc2 c1 c2) (enc3 c2 c3) (c3 mod 64) = [c1, c2, c3]"
    by (simp only: b64_ungroup_def Let_def js_and_masks sh e2 e3 1 2 3 ne ne3 not_False_eq_True
        if_True append.simps)
  show "b64_ungroup (enc1 c1) (enc2 c1 c2) (enc3 c2 0) 64 = [c1, c2]"
    by (simp only: b64_ungroup_def Let_def js_and_masks sh e2 e3 1 2 ne not_False_eq_True
        if_True if_False append.simps simp_thms)
  show "b64_ungroup (enc1 c1) (enc2 c1 0) 64 64 = [c1]"
    by (simp only: b64_ungroup_def Let_def js_and_masks sh 1 if_False append.simps simp_thms)
qed

section \<open>Encoding, group by group\<close>

abbreviation byte_ints :: "int list \<Rightarrow> bool" where
  "byte_ints xs \<equiv> \<forall>x \<in> set xs. 0 \<le> x \<and> x < 256"

lemma b64_group_length: "byte_ints [c1, c2, c3] \<Longrightarrow> length (b64_group n c1 c2 c3) = 4"
  by (simp add: b64_group_eq)

lemma b64_encode_loop_unfold:
  "b64_encode_loop [c1] = b64_group 1 c1 0 0"
  "b64_encode_loop [c1, c2] = b64_group 2 c1 c2 0"
  "b64_encode_loop (c1 # c2 # c3 # r) = b64_group (length r + 3) c1 c2 c3 @ b64_encode_loop r"
  by (simp_all add: numeral_2_eq_2 numeral_3_eq_3)

declare b64_encode_loop.simps(2) [simp del]

text \<open>Induction three elements at a time, as the loop reads its input.\<close>

lemma list3_induct [case_names Nil One Two More]:
  assumes "P []" "\<And>a. P [a]" "\<And>a b. P [a, b]" "\<And>a b c r. P r \<Longrightarrow> P (a # b # c # r)"
  shows "P xs"
proof (induction xs rule: length_induct)
  case (1 xs)
  show ?case
  proof (cases xs)
    case (Cons a ys)
    show ?thesis
    proof (cases ys)
      case (Cons b zs)
      with \<open>xs = a # ys\<close> 1 assms show ?thesis by (cases zs) auto
    qed (use Cons assms in simp)
  qed (use assms in simp)
qed

lemma b64_decode_group:
  assumes "byte_ints [c1, c2, c3]"
  shows "b64_decode_loop (b64_group n c1 c2 c3 @ s) =
    b64_ungroup (enc1 c1) (enc2 c1 c2) (if n > 1 then enc3 c2 c3 else 64)
      (if n > 2 then c3 mod 64 else 64) @ b64_decode_loop s"
proof -
  note r = enc_range [of c1 c2 c3]
  have "0 \<le> c3 mod 64" "c3 mod 64 < 64" by simp_all
  with assms r show ?thesis by (simp add: b64_group_eq)
qed

lemma b64_loop_roundtrip: "byte_ints xs \<Longrightarrow> b64_decode_loop (b64_encode_loop xs) = xs"
proof (induction xs rule: list3_induct)
  case (One a)
  then show ?case
    using b64_decode_group [of a 0 0 1 "[]"] b64_ungroup_group(3) [of a 0 0]
    by (simp add: b64_encode_loop_unfold)
next
  case (Two a b)
  then show ?case
    using b64_decode_group [of a b 0 2 "[]"] b64_ungroup_group(2) [of a b 0]
    by (simp add: b64_encode_loop_unfold)
next
  case (More a b c r)
  then show ?case
    using b64_decode_group [of a b c "length r + 3" "b64_encode_loop r"]
      b64_ungroup_group(1) [of a b c]
    by (simp add: b64_encode_loop_unfold)
qed simp

lemma b64_encode_length: "byte_ints xs \<Longrightarrow> length (b64_encode_loop xs) = 4 * ((length xs + 2) div 3)"
proof (induction xs rule: list3_induct)
  case (More a b c r)
  have "(length r + 3 + 2) div 3 = (length r + 2) div 3 + 1" by simp
  with More show ?case by (simp add: b64_encode_loop_unfold b64_group_length)
qed (simp_all add: b64_encode_loop_unfold b64_group_length)

lemma b64_group_set: "byte_ints [c1, c2, c3] \<Longrightarrow> set (b64_group n c1 c2 c3) \<subseteq> set keyStr"
proof -
  assume a: "byte_ints [c1, c2, c3]"
  have "keyStr ! nat k \<in> set keyStr" if "0 \<le> k" "k \<le> 64" for k
    using that by (simp add: keyStr_length)
  moreover have "0 \<le> c3 mod 64" "c3 mod 64 < 64" by simp_all
  ultimately show ?thesis using a enc_range [of c1 c2 c3] keyStr_64_mem by (simp add: b64_group_eq)
qed

lemma b64_encode_set: "byte_ints xs \<Longrightarrow> set (b64_encode_loop xs) \<subseteq> set keyStr"
proof (induction xs rule: list3_induct)
  case (More a b c r)
  then show ?case
    using b64_group_set [of a b c "length r + 3"] by (simp add: b64_encode_loop_unfold)
qed (simp_all add: b64_encode_loop_unfold b64_group_set)

section \<open>The length that decode computes\<close>

lemma charAt_append_end:
  assumes "0 < k" "k \<le> int (length s)"
  shows "charAt (g @ s) (int (length g) + int (length s) - k) = charAt s (int (length s) - k)"
proof -
  have "nat (int (length g) + int (length s) - k) = length g + nat (int (length s) - k)"
    using assms by simp
  then show ?thesis using assms by (simp add: charAt_def)
qed

lemma b64_total4_append:
  "2 \<le> length s \<Longrightarrow> b64_total4 (g @ s) = 3 * int (length g) + b64_total4 s"
  using charAt_append_end [of 1 s g] charAt_append_end [of 2 s g] by (simp add: b64_total4_def)

lemma b64_total4_group:
  assumes "byte_ints [c1, c2, c3]"
  shows "b64_total4 (b64_group n c1 c2 c3) = (if n > 2 then 12 else if n = 2 then 8 else 4)"
proof -
  note r = enc_range [of c1 c2 c3]
  have m: "0 \<le> c3 mod 64" "c3 mod 64 < 64" by simp_all
  have "keyStr ! nat (c3 mod 64) \<noteq> keyStr ! nat 64"
    using keyStr_nth_eq_iff [of "c3 mod 64" 64] m by linarith
  moreover have "keyStr ! nat (enc3 c2 c3) \<noteq> keyStr ! nat 64"
    using keyStr_nth_eq_iff [of "enc3 c2 c3" 64] r assms by auto
  ultimately show ?thesis
    using assms charAt_keyStr [of 64] by (simp add: b64_group_eq b64_total4_def charAt_def)
qed

lemma b64_total4_encode: "byte_ints xs \<Longrightarrow> b64_total4 (b64_encode_loop xs) = 4 * int (length xs)"
proof (induction xs rule: list3_induct)
  case (More a b c r)
  show ?case
  proof (cases r)
    case Nil
    with More show ?thesis by (simp add: b64_encode_loop_unfold b64_total4_group)
  next
    case (Cons x r')
    then have "2 \<le> length (b64_encode_loop r)" using More by (simp add: b64_encode_length)
    with More show ?thesis
      by (simp add: b64_encode_loop_unfold b64_total4_append b64_group_length)
  qed
next
  case Nil
  show ?case by (simp add: b64_total4_def charAt_def keyStr_length)
next
  case (One a)
  then show ?case by (simp add: b64_encode_loop_unfold b64_total4_group)
next
  case (Two a b)
  then show ?case by (simp add: b64_encode_loop_unfold b64_total4_group)
qed

lemma b64_filter_id: "set s \<subseteq> set keyStr \<Longrightarrow> b64_filter s = s"
  by (auto simp: b64_filter_def filter_id_conv)

lemma colon_not_in_keyStr: "(58 :: jschar) \<notin> set keyStr"
  by (simp add: keyStr_def js_def)

lemma data_prefix: "take 5 s = js ''data:'' \<Longrightarrow> (58 :: jschar) \<in> set s"
proof -
  assume "take 5 s = js ''data:''"
  then have "(58 :: jschar) \<in> set (take 5 s)" by (simp add: js_def)
  then show ?thesis by (rule in_set_takeD)
qed

lemma encode_no_data_url: "byte_ints xs \<Longrightarrow> take 5 (b64_encode_loop xs) \<noteq> js ''data:''"
  using data_prefix b64_encode_set colon_not_in_keyStr by blast

lemma map_word_of_uint: "map (word_of_int \<circ> uint) bs = (bs :: byte list)"
  by (simp add: comp_def)

lemma byte_ints_uint: "byte_ints (map uint (bs :: byte list))"
  using byte_range by auto

section \<open>Results\<close>

text \<open>
  Property C18. Round trip: decoding what \<open>encode\<close> made of an array of bytes gives these bytes
  back, as a typed array of exactly their number, whatever that number is modulo 3.
\<close>

theorem base64_roundtrip:
  "base64_decode True (base64_encode (B64Array (map uint bs))) = Inr (TypedOut bs)"
proof -
  note b = byte_ints_uint [of bs]
  have "typed_fill (length bs) (map uint bs) = bs"
    by (simp add: typed_fill_def map_word_of_uint)
  then show ?thesis
    using encode_no_data_url [OF b] b64_total4_encode [OF b] b64_loop_roundtrip [OF b]
      b64_filter_id [OF b64_encode_set [OF b]]
    by (simp add: base64_decode_def Let_def)
qed

lemma b64_total4_mod: "b64_total4 s mod 4 = 0 \<longleftrightarrow> 4 dvd length s"
proof -
  define n where "n = int (length s)"
  have "4 dvd n * 3 - 4 * k \<longleftrightarrow> 4 dvd n" for k by presburger
  then have "4 dvd n * 3 \<longleftrightarrow> 4 dvd n" "4 dvd n * 3 - 4 \<longleftrightarrow> 4 dvd n" "4 dvd n * 3 - 8 \<longleftrightarrow> 4 dvd n"
    by (metis mult_zero_right diff_zero, metis mult_1_right, metis mult_2_right numeral_Bit0)
  then have "4 dvd b64_total4 s \<longleftrightarrow> 4 dvd n"
    by (simp add: b64_total4_def n_def)
  then show ?thesis by (simp add: n_def int_dvd_int_iff [of 4, simplified] mod_eq_0_iff_dvd)
qed

text \<open>
  Property C30. When \<open>decode\<close> throws: on a string that starts with \<open>data:\<close>, and otherwise
  exactly when the characters of the alphabet in it are not a multiple of four in number;
  the test of \<open>totalLength % 1\<close> says that and nothing about where the padding is.
\<close>

theorem base64_decode_errors:
  "base64_decode u s =
     (if take 5 s = js ''data:'' then Inl LooksLikeDataUrl
      else if 4 dvd length (b64_filter s)
      then Inr (if u then TypedOut (typed_fill (nat (b64_total4 (b64_filter s) div 4))
                                     (b64_decode_loop (b64_filter s)))
                else ArrayOut (array_fill (nat (b64_total4 (b64_filter s) div 4))
                                     (b64_decode_loop (b64_filter s))))
      else Inl BadContentLength)"
  using b64_total4_mod [of "b64_filter s"] by (simp add: base64_decode_def Let_def)

end
