(* ===== verification/Utils.thy ===== *)
theory Utils
  imports Base64 "HOL-Library.AList"
begin

text \<open>
  \<open>lib/utils\<close> and \<open>lib/support\<close> of JSZip: the binary types a platform may have, the
  matrix \<open>transform\<close> of conversions between them, the conversion of an array to a string
  by pieces small enough for the stack, \<open>extend\<close>, \<open>pretty\<close> and \<open>prepareContent\<close>. The
  lemmas give every conversion one meaning, the bytes of the data.
\<close>

section \<open>Data\<close>

text \<open>
  An array may have holes (\<open>None\<close>). A \<open>Uint8Array\<close> is a view: the whole buffer, the
  offset and the length of the part it shows.
\<close>

datatype js_data =
    JString jsstr
  | JArray "int option list"
  | JUint8 "byte list" nat nat
  | JArrayBuffer "byte list"
  | JBuffer "byte list"

datatype util_error =
    NotSupported string
  | NotAFunction
  | BlobFailed
  | CannotRead jsstr
  | ReadFailed
  | BadBase64 b64_error

text \<open>
  What the platform has: the fields of \<open>support\<close>, the longest argument list the stack
  takes, the probes \<open>applyCanBeUsed\<close> for \<open>Uint8Array\<close> and for node buffers, and \<open>FileReader\<close>.
\<close>

record platform =
  sup_arraybuffer :: bool
  sup_nodebuffer :: bool
  sup_uint8array :: bool
  sup_blob :: bool
  sup_nodestream :: bool
  apply_limit :: nat
  apply_uint8 :: bool
  apply_buffer :: bool
  has_FileReader :: bool

text \<open>
  \<open>support[type]\<close> as a condition: \<open>base64\<close>, \<open>array\<close> and \<open>string\<close> are always true, and the
  lower-case names every object inherits (\<open>constructor\<close>, \<open>__proto__\<close>) are not \<open>undefined\<close>.
\<close>

definition support_of :: "platform \<Rightarrow> string \<Rightarrow> bool" where
  "support_of env t =
     (if t = ''base64'' \<or> t = ''array'' \<or> t = ''string'' then True
      else if t = ''arraybuffer'' then sup_arraybuffer env
      else if t = ''nodebuffer'' then sup_nodebuffer env
      else if t = ''uint8array'' then sup_uint8array env
      else if t = ''blob'' then sup_blob env
      else if t = ''nodestream'' then sup_nodestream env
      else t = ''constructor'' \<or> t = ''__proto__'')"

text \<open>\<open>toLowerCase\<close> and \<open>toUpperCase\<close> on ASCII letters.\<close>

definition lower_char :: "char \<Rightarrow> char" where
  "lower_char c = (let n = of_char c :: nat in if 65 \<le> n \<and> n \<le> 90 then char_of (n + 32) else c)"

definition upper_char :: "char \<Rightarrow> char" where
  "upper_char c = (let n = of_char c :: nat in if 97 \<le> n \<and> n \<le> 122 then char_of (n - 32) else c)"

abbreviation toLowerCase :: "string \<Rightarrow> string" where
  "toLowerCase \<equiv> map lower_char"

abbreviation toUpperCase :: "string \<Rightarrow> string" where
  "toUpperCase \<equiv> map upper_char"

definition checkSupport :: "platform \<Rightarrow> string \<Rightarrow> util_error + unit" where
  "checkSupport env type =
     (if support_of env (toLowerCase type) then Inr () else Inl (NotSupported type))"

text \<open>\<open>getTypeOf\<close>; a node buffer is a \<open>Uint8Array\<close> as well.\<close>

definition subarray_of :: "byte list \<Rightarrow> nat \<Rightarrow> nat \<Rightarrow> byte list" where
  "subarray_of buf off len = take len (drop off buf)"

fun getTypeOf :: "platform \<Rightarrow> js_data \<Rightarrow> string option" where
  "getTypeOf env (JString s) = Some ''string''"
| "getTypeOf env (JArray a) = Some ''array''"
| "getTypeOf env (JBuffer b) =
     (if sup_nodebuffer env then Some ''nodebuffer''
      else if sup_uint8array env then Some ''uint8array'' else None)"
| "getTypeOf env (JUint8 b off len) = (if sup_uint8array env then Some ''uint8array'' else None)"
| "getTypeOf env (JArrayBuffer b) = (if sup_arraybuffer env then Some ''arraybuffer'' else None)"

section \<open>From a string to numbers and back\<close>

text \<open>
  The elements of an array-like object; \<open>undefined\<close> reads as 0 in \<open>String.fromCharCode\<close>
  and in a typed array, which wrap at 16 and at 8 bits.
\<close>

fun elements :: "js_data \<Rightarrow> int list" where
  "elements (JString s) = map uint s"
| "elements (JArray a) = map (\<lambda>x. case x of None \<Rightarrow> 0 | Some n \<Rightarrow> n) a"
| "elements (JUint8 b off len) = map uint (subarray_of b off len)"
| "elements (JArrayBuffer b) = map uint b"
| "elements (JBuffer b) = map uint b"

definition fromCharCode :: "int \<Rightarrow> jschar" where
  "fromCharCode n = word_of_int n"

definition stringToArrayLike :: "jsstr \<Rightarrow> int list" where
  "stringToArrayLike str = map (\<lambda>c. js_and (uint c) 0xFF) str"

text \<open>
  \<open>String.fromCharCode.apply(null, array)\<close> fails when the array is longer than what the
  stack takes, \<open>lim\<close>.
\<close>

definition applyFromCharCode :: "nat \<Rightarrow> int list \<Rightarrow> jsstr option" where
  "applyFromCharCode lim xs = (if length xs \<le> lim then Some (map fromCharCode xs) else None)"

function chunk_loop :: "nat \<Rightarrow> nat \<Rightarrow> int list \<Rightarrow> nat \<Rightarrow> jsstr option" where
  "chunk_loop lim chunk array k =
     (if k < length array \<and> 0 < chunk
      then case applyFromCharCode lim (drop k (take (min (k + chunk) (length array)) array)) of
             None \<Rightarrow> None
           | Some s \<Rightarrow> map_option (\<lambda>t. s @ t) (chunk_loop lim chunk array (k + chunk))
      else Some [])"
  by pat_completeness auto
termination by (relation "measure (\<lambda>(lim, chunk, array, k). length array - k)") auto

definition stringifyByChunk :: "nat \<Rightarrow> int list \<Rightarrow> nat \<Rightarrow> jsstr option" where
  "stringifyByChunk lim array chunk =
     (if length array \<le> chunk then applyFromCharCode lim array
      else chunk_loop lim chunk array 0)"

definition stringifyByChar :: "int list \<Rightarrow> jsstr" where
  "stringifyByChar array = fold (\<lambda>x resultStr. resultStr @ [fromCharCode x]) array []"

text \<open>\<open>while (chunk > 1)\<close>, the failures caught and the chunk halved.\<close>

function halve_loop :: "nat \<Rightarrow> int list \<Rightarrow> nat \<Rightarrow> jsstr option" where
  "halve_loop lim array chunk =
     (if chunk > 1
      then case stringifyByChunk lim array chunk of
             Some s \<Rightarrow> Some s
           | None \<Rightarrow> halve_loop lim array (chunk div 2)
      else None)"
  by pat_completeness auto
termination by (relation "measure (\<lambda>(lim, array, chunk). chunk)") auto

definition arrayLikeToString :: "platform \<Rightarrow> js_data \<Rightarrow> jsstr" where
  "arrayLikeToString env array =
     (let type = getTypeOf env array;
          canUseApply =
            (if type = Some ''uint8array'' then apply_uint8 env
             else if type = Some ''nodebuffer'' then apply_buffer env else True)
      in case (if canUseApply then halve_loop (apply_limit env) (elements array) 65536 else None) of
           Some s \<Rightarrow> s
         | None \<Rightarrow> stringifyByChar (elements array))"

text \<open>\<open>arrayLikeToArrayLike\<close> into an array, into bytes and into the bytes of a new buffer.\<close>

definition to_array :: "int list \<Rightarrow> js_data" where
  "to_array xs = JArray (map Some xs)"

definition byte_array :: "int list \<Rightarrow> byte list" where
  "byte_array xs = map word_of_int xs"

definition to_uint8 :: "int list \<Rightarrow> js_data" where
  "to_uint8 xs = JUint8 (byte_array xs) 0 (length xs)"

section \<open>The matrix of conversions\<close>

fun transform_string :: "string \<Rightarrow> js_data \<Rightarrow> util_error + js_data" where
  "transform_string out (JString s) =
     (if out = ''string'' then Inr (JString s)
      else if out = ''array'' then Inr (to_array (stringToArrayLike s))
      else if out = ''arraybuffer'' then Inr (JArrayBuffer (byte_array (stringToArrayLike s)))
      else if out = ''uint8array'' then Inr (to_uint8 (stringToArrayLike s))
      else if out = ''nodebuffer'' then Inr (JBuffer (byte_array (stringToArrayLike s)))
      else Inl NotAFunction)"
| "transform_string out d = Inl NotAFunction"

definition transform_array :: "platform \<Rightarrow> string \<Rightarrow> js_data \<Rightarrow> util_error + js_data" where
  "transform_array env out d =
     (if out = ''string'' then Inr (JString (arrayLikeToString env d))
      else if out = ''array'' then Inr d
      else if out = ''arraybuffer'' then Inr (JArrayBuffer (byte_array (elements d)))
      else if out = ''uint8array'' then Inr (to_uint8 (elements d))
      else if out = ''nodebuffer'' then Inr (JBuffer (byte_array (elements d)))
      else Inl NotAFunction)"

definition transform_arraybuffer :: "platform \<Rightarrow> string \<Rightarrow> js_data \<Rightarrow> util_error + js_data" where
  "transform_arraybuffer env out d =
     (if out = ''string'' then Inr (JString (arrayLikeToString env (to_uint8 (elements d))))
      else if out = ''array'' then Inr (to_array (elements d))
      else if out = ''arraybuffer'' then Inr d
      else if out = ''uint8array'' then Inr (to_uint8 (elements d))
      else if out = ''nodebuffer'' then Inr (JBuffer (byte_array (elements d)))
      else Inl NotAFunction)"

text \<open>\<open>input.buffer\<close> is the whole buffer of the view (of a node buffer: its pool, here its bytes).\<close>

fun whole_buffer :: "js_data \<Rightarrow> byte list" where
  "whole_buffer (JUint8 buf off len) = buf"
| "whole_buffer d = byte_array (elements d)"

definition transform_uint8array :: "platform \<Rightarrow> string \<Rightarrow> js_data \<Rightarrow> util_error + js_data" where
  "transform_uint8array env out d =
     (if out = ''string'' then Inr (JString (arrayLikeToString env d))
      else if out = ''array'' then Inr (to_array (elements d))
      else if out = ''arraybuffer'' then Inr (JArrayBuffer (whole_buffer d))
      else if out = ''uint8array'' then Inr d
      else if out = ''nodebuffer'' then Inr (JBuffer (byte_array (elements d)))
      else Inl NotAFunction)"

definition transform_nodebuffer :: "platform \<Rightarrow> string \<Rightarrow> js_data \<Rightarrow> util_error + js_data" where
  "transform_nodebuffer env out d =
     (if out = ''string'' then Inr (JString (arrayLikeToString env d))
      else if out = ''array'' then Inr (to_array (elements d))
      else if out = ''arraybuffer'' then Inr (JArrayBuffer (byte_array (elements d)))
      else if out = ''uint8array'' then Inr (to_uint8 (elements d))
      else if out = ''nodebuffer'' then Inr d
      else Inl NotAFunction)"

text \<open>
  \<open>transformTo\<close>. No input, or no output type, is \<open>None\<close>. The types that are supported but
  are not in the matrix (\<open>base64\<close>, \<open>blob\<close>, \<open>nodestream\<close>) end in a call of \<open>undefined\<close>;
  the two inherited names are calls of functions that no caller asks for, and count with them.
\<close>

definition transformTo :: "platform \<Rightarrow> string \<Rightarrow> js_data option \<Rightarrow> util_error + js_data" where
  "transformTo env outputType input =
     (let input = (case input of None \<Rightarrow> JString [] | Some d \<Rightarrow> d)
      in if outputType = [] then Inr input
         else rbind (checkSupport env outputType) (\<lambda>_.
           case getTypeOf env input of
             None \<Rightarrow> Inl NotAFunction
           | Some t \<Rightarrow>
               if t = ''string'' then transform_string outputType input
               else if t = ''array'' then transform_array env outputType input
               else if t = ''arraybuffer'' then transform_arraybuffer env outputType input
               else if t = ''uint8array'' then transform_uint8array env outputType input
               else transform_nodebuffer env outputType input))"

section \<open>extend, pretty and prepareContent\<close>

text \<open>
  Objects as lists of their properties, \<open>None\<close> an \<open>undefined\<close> value: the first object that
  defines a property gives its value.
\<close>

type_synonym 'a js_object = "(jsstr \<times> 'a option) list"

definition lookup_prop :: "'a js_object \<Rightarrow> jsstr \<Rightarrow> 'a option" where
  "lookup_prop obj attr = (case map_of obj attr of None \<Rightarrow> None | Some v \<Rightarrow> v)"

fun extend_props :: "'a js_object \<Rightarrow> 'a js_object \<Rightarrow> 'a js_object" where
  "extend_props result [] = result"
| "extend_props result ((attr, v) # obj) =
     extend_props (if lookup_prop result attr = None then AList.update attr v result else result) obj"

definition extend :: "'a js_object list \<Rightarrow> 'a js_object" where
  "extend objs = foldl extend_props [] objs"

text \<open>\<open>code.toString(16).toUpperCase()\<close> of a code unit, without leading zeros.\<close>

definition hex_digit :: "nat \<Rightarrow> char" where
  "hex_digit d = char_of (if d < 10 then 48 + d else 55 + d)"

fun hex_upper :: "nat \<Rightarrow> string" where
  "hex_upper n = (if n < 16 then [hex_digit n] else hex_upper (n div 16) @ [hex_digit (n mod 16)])"

definition pretty :: "jsstr option \<Rightarrow> string" where
  "pretty str = concat (map (\<lambda>c. [CHR 0x5C, CHR ''x''] @ (if uint c < 16 then ''0'' else []) @ hex_upper (unat c))
     (case str of None \<Rightarrow> [] | Some s \<Rightarrow> s))"

text \<open>
  What \<open>prepareContent\<close> may be given: data, a blob with what \<open>FileReader\<close> makes of it, a
  promise of one of these, or something else. \<open>string2binary\<close> builds bytes or an array.
\<close>

datatype content_input =
    GivenData js_data
  | GivenBlob "byte list option"
  | GivenPromise "util_error + content_input"
  | GivenOther

definition string2binary :: "platform \<Rightarrow> jsstr \<Rightarrow> js_data" where
  "string2binary env str =
     (if sup_uint8array env then to_uint8 (stringToArrayLike str)
      else to_array (stringToArrayLike str))"

fun b64_data :: "b64_output \<Rightarrow> js_data" where
  "b64_data (TypedOut bs) = JUint8 bs 0 (length bs)"
| "b64_data (ArrayOut xs) = JArray xs"

definition convert_content ::
  "platform \<Rightarrow> bool \<Rightarrow> bool \<Rightarrow> bool \<Rightarrow> js_data \<Rightarrow> util_error + js_data" where
  "convert_content env isBinary isOptimizedBinaryString isBase64 data =
     (case data of
        JArrayBuffer b \<Rightarrow> transformTo env ''uint8array'' (Some data)
      | JString s \<Rightarrow>
          if isBase64
          then (case base64_decode (sup_uint8array env) s of
                  Inl e \<Rightarrow> Inl (BadBase64 e) | Inr out \<Rightarrow> Inr (b64_data out))
          else if isBinary \<and> \<not> isOptimizedBinaryString then Inr (string2binary env s)
          else Inr data
      | _ \<Rightarrow> Inr data)"

fun prepareContent ::
  "platform \<Rightarrow> jsstr \<Rightarrow> content_input \<Rightarrow> bool \<Rightarrow> bool \<Rightarrow> bool \<Rightarrow> util_error + js_data" where
  "prepareContent env name (GivenPromise p) isBinary isOpt isBase64 =
     (case p of Inl e \<Rightarrow> Inl e | Inr d \<Rightarrow> prepareContent env name d isBinary isOpt isBase64)"
| "prepareContent env name (GivenBlob content) isBinary isOpt isBase64 =
     (if sup_blob env \<and> has_FileReader env
      then case content of
             None \<Rightarrow> Inl ReadFailed
           | Some b \<Rightarrow> if sup_arraybuffer env
                       then convert_content env isBinary isOpt isBase64 (JArrayBuffer b)
                       else Inl (CannotRead name)
      else Inl (CannotRead name))"
| "prepareContent env name GivenOther isBinary isOpt isBase64 = Inl (CannotRead name)"
| "prepareContent env name (GivenData d) isBinary isOpt isBase64 =
     (if getTypeOf env d = None then Inl (CannotRead name)
      else convert_content env isBinary isOpt isBase64 d)"

section \<open>The string of an array\<close>

declare chunk_loop.simps [simp del] halve_loop.simps [simp del]

lemma stringifyByChar_map: "stringifyByChar array = map fromCharCode array"
proof -
  have "fold (\<lambda>x r. r @ [fromCharCode x]) array acc = acc @ map fromCharCode array" for acc
    by (induction array arbitrary: acc) simp_all
  then show ?thesis by (simp add: stringifyByChar_def)
qed

lemma chunk_loop_Some:
  "0 < chunk \<Longrightarrow> chunk_loop lim chunk array k = Some s \<Longrightarrow> s = map fromCharCode (drop k array)"
proof (induction lim chunk array k arbitrary: s rule: chunk_loop.induct)
  case (1 lim chunk array k)
  show ?case
  proof (cases "k < length array")
    case True
    from "1.prems" True obtain a t where a: "applyFromCharCode lim
        (drop k (take (min (k + chunk) (length array)) array)) = Some a"
      and t: "chunk_loop lim chunk array (k + chunk) = Some t" and s: "s = a @ t"
      by (subst (asm) chunk_loop.simps) (auto split: option.splits)
    have "t = map fromCharCode (drop (k + chunk) array)"
      using "1.IH" [of a t] True "1.prems"(1) a t by simp
    moreover have "a = map fromCharCode (take chunk (drop k array))"
      using a by (auto simp: applyFromCharCode_def min_def take_drop add.commute split: if_splits)
    moreover have "drop k array = take chunk (drop k array) @ drop (k + chunk) array"
      by (metis add.commute append_take_drop_id drop_drop)
    ultimately show ?thesis using s by (metis map_append)
  next
    case False
    with "1.prems"(2) show ?thesis by (subst (asm) chunk_loop.simps) simp
  qed
qed

lemma stringifyByChunk_Some:
  assumes "stringifyByChunk lim array chunk = Some s" and "0 < chunk"
  shows "s = map fromCharCode array"
  using assms chunk_loop_Some [of chunk lim array 0 s]
  by (auto simp: stringifyByChunk_def applyFromCharCode_def split: if_splits)

lemma halve_loop_Some: "halve_loop lim array chunk = Some s \<Longrightarrow> s = map fromCharCode array"
proof (induction lim array chunk rule: halve_loop.induct)
  case (1 lim array chunk)
  then show ?case
    by (subst (asm) (2) halve_loop.simps)
      (auto split: if_splits option.splits dest: stringifyByChunk_Some)
qed

lemma arrayLikeToString_elements: "arrayLikeToString env d = map fromCharCode (elements d)"
  by (auto simp: arrayLikeToString_def Let_def stringifyByChar_map
      dest!: halve_loop_Some split: option.splits)

section \<open>Conversions keep the bytes\<close>

definition bytes_of :: "js_data \<Rightarrow> byte list" where
  "bytes_of d = byte_array (elements d)"

fun type_of :: "js_data \<Rightarrow> string" where
  "type_of (JString s) = ''string''"
| "type_of (JArray a) = ''array''"
| "type_of (JUint8 b off len) = ''uint8array''"
| "type_of (JArrayBuffer b) = ''arraybuffer''"
| "type_of (JBuffer b) = ''nodebuffer''"

fun whole_view :: "js_data \<Rightarrow> bool" where
  "whole_view (JUint8 buf off len) = (off = 0 \<and> len = length buf)"
| "whole_view d = True"

text \<open>A platform is consistent with a value of a type when it supports the type.\<close>

abbreviation matrix_types :: "string list" where
  "matrix_types \<equiv> [''string'', ''array'', ''arraybuffer'', ''uint8array'', ''nodebuffer'']"

lemma lower_matrix:
  "toLowerCase ''string'' = ''string''" "toLowerCase ''array'' = ''array''"
  "toLowerCase ''arraybuffer'' = ''arraybuffer''" "toLowerCase ''uint8array'' = ''uint8array''"
  "toLowerCase ''nodebuffer'' = ''nodebuffer''"
  by (simp_all add: lower_char_def)

lemma getTypeOf_supported: "support_of env (type_of d) \<Longrightarrow> getTypeOf env d = Some (type_of d)"
  by (cases d) (simp_all add: support_of_def)

lemma to_bytes_uint [simp]: "byte_array (map uint bs) = bs"
  by (simp add: byte_array_def comp_def)

lemma length_to_bytes [simp]: "length (byte_array xs) = length xs"
  by (simp add: byte_array_def)

lemma to_bytes_masked: "byte_array (stringToArrayLike s) = byte_array (map uint s)"
  by (simp add: byte_array_def stringToArrayLike_def ucast_char_mask ucast_eq [symmetric])

lemma byte_of_char [simp]: "ucast (fromCharCode n) = (word_of_int n :: byte)"
  by (rule bit_word_eqI) (auto simp: fromCharCode_def bit_simps)

lemma length_stringToArrayLike [simp]: "length (stringToArrayLike s) = length s"
  by (simp add: stringToArrayLike_def)

lemma to_bytes_chars [simp]: "byte_array (map uint (map fromCharCode xs)) = byte_array xs"
  by (simp add: byte_array_def comp_def)

lemma elements_to_uint8 [simp]: "elements (to_uint8 xs) = map uint (byte_array xs)"
  by (simp add: to_uint8_def subarray_of_def)

lemma elements_to_array [simp]: "elements (to_array xs) = xs"
  by (simp add: to_array_def comp_def)


lemma whole_buffer_bytes: "whole_view d \<Longrightarrow> whole_buffer d = byte_array (elements d)"
  by (cases d) (simp_all add: subarray_of_def)

lemmas matrix_defs = transform_array_def transform_arraybuffer_def transform_uint8array_def
  transform_nodebuffer_def

lemma to_bytes_masked_chars [simp]: "byte_array (stringToArrayLike (map fromCharCode xs)) = byte_array xs"
  by (simp add: to_bytes_masked to_bytes_chars [simplified])

lemma bytes_of_results:
  "bytes_of (to_uint8 xs) = byte_array xs" "bytes_of (to_array xs) = byte_array xs"
  "bytes_of (JArrayBuffer b) = b" "bytes_of (JBuffer b) = b"
  "bytes_of (JString (map fromCharCode xs)) = byte_array xs"
  "bytes_of (JString s) = byte_array (stringToArrayLike s)"
  by (simp_all add: bytes_of_def to_bytes_masked to_bytes_chars [simplified])

lemma type_of_results:
  "type_of (to_uint8 xs) = ''uint8array''" "type_of (to_array xs) = ''array''"
  "whole_view (to_uint8 xs)" "whole_view (to_array xs)"
  by (simp_all add: to_uint8_def to_array_def)

lemmas result_simps = bytes_of_results type_of_results arrayLikeToString_elements

lemma transformTo_known:
  assumes "out \<in> set matrix_types" and "support_of env out" and "support_of env (type_of d)"
  shows "transformTo env out (Some d) =
    (case type_of d of t \<Rightarrow>
      if t = ''string'' then transform_string out d
      else if t = ''array'' then transform_array env out d
      else if t = ''arraybuffer'' then transform_arraybuffer env out d
      else if t = ''uint8array'' then transform_uint8array env out d
      else transform_nodebuffer env out d)"
proof -
  have "toLowerCase out = out" and "out \<noteq> []" using assms(1) lower_matrix by auto
  then show ?thesis
    using assms(2) getTypeOf_supported [OF assms(3)] by (simp add: transformTo_def checkSupport_def)
qed

text \<open>A conversion that succeeds with the asked type and the given bytes; one row of the matrix each.\<close>

definition gives :: "string \<Rightarrow> byte list \<Rightarrow> util_error + js_data \<Rightarrow> bool" where
  "gives out bs r \<longleftrightarrow> (case r of Inl e \<Rightarrow> False | Inr d \<Rightarrow> type_of d = out \<and> bytes_of d = bs \<and> whole_view d)"

lemma gives_results:
  "gives ''uint8array'' (byte_array xs) (Inr (to_uint8 xs))"
  "gives ''array'' (byte_array xs) (Inr (to_array xs))"
  "gives ''arraybuffer'' b (Inr (JArrayBuffer b))" "gives ''nodebuffer'' b (Inr (JBuffer b))"
  "gives ''string'' (byte_array xs) (Inr (JString (map fromCharCode xs)))"
  by (simp_all only: gives_def result_simps to_bytes_masked_chars sum.case type_of.simps whole_view.simps simp_thms)

lemma gives_string: "gives ''string'' (byte_array (stringToArrayLike s)) (Inr (JString s))"
  by (simp only: gives_def result_simps sum.case type_of.simps whole_view.simps simp_thms)

lemma gives_identity: "whole_view d \<Longrightarrow> gives (type_of d) (byte_array (elements d)) (Inr d)"
  by (simp add: gives_def bytes_of_def)

lemma in_matrix_types:
  "out \<in> set matrix_types \<Longrightarrow> out = ''string'' \<or> out = ''array'' \<or> out = ''arraybuffer'' \<or>
     out = ''uint8array'' \<or> out = ''nodebuffer''"
  by (simp only: list.set insert_iff empty_iff simp_thms)

lemma string_row:
  assumes "out \<in> set matrix_types"
  shows "gives out (byte_array (stringToArrayLike s))
    (transform_string out (JString s))"
  using in_matrix_types [OF assms]
  by (elim disjE) (simp_all add: gives_results gives_string)

lemma array_row:
  assumes "out \<in> set matrix_types"
  shows "gives out (byte_array (elements (JArray a)))
    (transform_array env out (JArray a))"
  using in_matrix_types [OF assms]
    gives_identity [of "JArray a"]
  by (elim disjE) (simp_all add: transform_array_def gives_results arrayLikeToString_elements del: elements.simps)

lemma arraybuffer_row:
  assumes "out \<in> set matrix_types"
  shows "gives out (byte_array (elements (JArrayBuffer b)))
    (transform_arraybuffer env out (JArrayBuffer b))"
  using in_matrix_types [OF assms]
    gives_identity [of "JArrayBuffer b"] gives_results(5) [of "map uint (byte_array (elements (JArrayBuffer b)))"]
  by (elim disjE) (simp_all add: transform_arraybuffer_def gives_results arrayLikeToString_elements del: elements.simps)

lemma nodebuffer_row:
  assumes "out \<in> set matrix_types"
  shows "gives out (byte_array (elements (JBuffer b)))
    (transform_nodebuffer env out (JBuffer b))"
  using in_matrix_types [OF assms]
    gives_identity [of "JBuffer b"]
  by (elim disjE) (simp_all add: transform_nodebuffer_def gives_results arrayLikeToString_elements del: elements.simps)

lemma uint8array_row:
  assumes "whole_view (JUint8 buf off len)" and "out \<in> set matrix_types"
  shows "gives out (byte_array (elements (JUint8 buf off len)))
    (transform_uint8array env out (JUint8 buf off len))"
  using in_matrix_types [OF assms(2)] gives_identity [OF assms(1)] whole_buffer_bytes [OF assms(1)]
  by (elim disjE) (simp_all add: transform_uint8array_def gives_results arrayLikeToString_elements
      del: elements.simps whole_buffer.simps)

lemma transformTo_gives:
  assumes "out \<in> set matrix_types" and "support_of env out" and "support_of env (type_of d)"
    and "whole_view d"
  shows "gives out (bytes_of d) (transformTo env out (Some d))"
  using assms(4) string_row [OF assms(1)] array_row [OF assms(1)] arraybuffer_row [OF assms(1)]
    uint8array_row [OF _ assms(1)] nodebuffer_row [OF assms(1)]
  unfolding transformTo_known [OF assms(1-3)] bytes_of_def
  by (cases d) (simp_all add: to_bytes_masked del: whole_view.simps)

text \<open>
  A \<open>Uint8Array\<close> that shows part of a buffer is turned into the whole buffer:
  \<open>input.buffer\<close> ignores the offset and the length, so the result has the bytes of the
  view only if the view is the whole buffer.
\<close>

lemma uint8array_view_buffer:
  assumes "sup_arraybuffer env" and "sup_uint8array env" and "off + len \<le> length buf"
  shows "transformTo env ''arraybuffer'' (Some (JUint8 buf off len)) = Inr (JArrayBuffer buf) \<and>
    (bytes_of (JArrayBuffer buf) = bytes_of (JUint8 buf off len) \<longleftrightarrow> len = length buf)"
proof -
  have "transformTo env ''arraybuffer'' (Some (JUint8 buf off len)) = Inr (JArrayBuffer buf)"
    using assms(1,2) by (subst transformTo_known)
      (simp_all add: support_of_def transform_uint8array_def)
  moreover have "length (subarray_of buf off len) = len" using assms(3) by (simp add: subarray_of_def)
  then have "buf = subarray_of buf off len \<longleftrightarrow> len = length buf"
    using assms(3) by (metis add_le_same_cancel2 drop0 le_zero_eq order_refl take_all subarray_of_def)
  moreover have "bytes_of (JArrayBuffer buf) = buf" "bytes_of (JUint8 buf off len) = subarray_of buf off len"
    by (simp_all add: bytes_of_def)
  ultimately show ?thesis by (simp only: simp_thms)
qed

text \<open>The bytes that a conversion gives: those of the value, but of a view as an \<open>ArrayBuffer\<close> the whole buffer's.\<close>

fun kept_bytes :: "string \<Rightarrow> js_data \<Rightarrow> byte list" where
  "kept_bytes out (JUint8 buf off len) = (if out = ''arraybuffer'' then buf else bytes_of (JUint8 buf off len))"
| "kept_bytes out d = bytes_of d"

lemma kept_whole: "whole_view d \<Longrightarrow> kept_bytes out d = bytes_of d"
  by (cases d) (simp_all add: bytes_of_def subarray_of_def)

lemma transformTo_view:
  assumes "out \<in> set matrix_types" and "support_of env out" and "support_of env (type_of (JUint8 buf off len))"
  shows "\<exists>d'. transformTo env out (Some (JUint8 buf off len)) = Inr d' \<and> type_of d' = out \<and> bytes_of d' = kept_bytes out (JUint8 buf off len)"
  using in_matrix_types [OF assms(1)] unfolding transformTo_known [OF assms]
  by (elim disjE) (simp_all add: transform_uint8array_def result_simps bytes_of_def [of "JUint8 _ _ _"]
      bytes_of_def [of "JArrayBuffer _"] del: elements.simps(3))

text \<open>
  Property C35. Between any two of the five types that the platform supports, \<open>transformTo\<close>
  succeeds and gives a value of the asked type. It has the bytes of the given one (the low eight bits
  of each element), except that a \<open>Uint8Array\<close> as an \<open>ArrayBuffer\<close> becomes the whole buffer that it is a
  view of; where the view shows the whole buffer, nothing is lost or added.
\<close>

theorem transformTo_bytes:
  assumes "out \<in> set matrix_types" and "support_of env out" and "support_of env (type_of d)"
  shows "\<exists>d'. transformTo env out (Some d) = Inr d' \<and> type_of d' = out \<and>
    bytes_of d' = (case d of JUint8 buf off len \<Rightarrow> if out = ''arraybuffer'' then buf else bytes_of d | _ \<Rightarrow> bytes_of d) \<and>
    (whole_view d \<longrightarrow> bytes_of d' = bytes_of d \<and> whole_view d')"
proof -
  have k: "(case d of JUint8 buf off len \<Rightarrow> if out = ''arraybuffer'' then buf else bytes_of d | _ \<Rightarrow> bytes_of d) = kept_bytes out d"
    by (cases d) simp_all
  show ?thesis
  proof (cases "whole_view d")
    case True
    then show ?thesis unfolding k using transformTo_gives [OF assms True] kept_whole [OF True]
      by (cases "transformTo env out (Some d)") (auto simp: gives_def)
  next
    case False
    then obtain buf off len where d: "d = JUint8 buf off len" by (cases d) auto
    show ?thesis unfolding k using transformTo_view [OF assms(1,2), of buf off len] assms(3) False unfolding d by blast
  qed
qed

theorem transformTo_bytes_witness:
  "\<exists>d'. transformTo \<lparr>sup_arraybuffer = True, sup_nodebuffer = False, sup_uint8array = True, sup_blob = True,
       sup_nodestream = False, apply_limit = 2, apply_uint8 = True, apply_buffer = False,
       has_FileReader = True\<rparr> ''arraybuffer'' (Some (JUint8 [1, 2, 3] 1 2)) = Inr d' \<and>
     type_of d' = ''arraybuffer'' \<and> bytes_of d' = [1, 2, 3]"
  using transformTo_bytes [of "''arraybuffer''" "\<lparr>sup_arraybuffer = True, sup_nodebuffer = False, sup_uint8array = True, sup_blob = True,
       sup_nodestream = False, apply_limit = 2, apply_uint8 = True, apply_buffer = False, has_FileReader = True\<rparr>" "JUint8 [1, 2, 3] 1 2"]
  by (auto simp: support_of_def)

section \<open>Objects and contents\<close>

lemma lookup_update [simp]:
  "lookup_prop (AList.update a v obj) b = (if b = a then v else lookup_prop obj b)"
  by (simp add: lookup_prop_def update_conv')

lemma lookup_extend_props:
  "distinct (map fst obj) \<Longrightarrow> lookup_prop (extend_props result obj) a =
     (case lookup_prop result a of None \<Rightarrow> lookup_prop obj a | Some v \<Rightarrow> Some v)"
proof (induction obj arbitrary: result)
  case Nil
  then show ?case by (simp add: lookup_prop_def split: option.split)
next
  case (Cons p obj)
  obtain attr v where p: "p = (attr, v)" by (cases p)
  have "map_of obj attr = None" using Cons.prems p by (simp add: map_of_eq_None_iff)
  then have n: "lookup_prop obj attr = None" by (simp add: lookup_prop_def)
  have c: "lookup_prop ((attr, v) # obj) a = (if a = attr then v else lookup_prop obj a)"
    by (simp add: lookup_prop_def)
  show ?case using Cons.IH [of "if lookup_prop result attr = None then AList.update attr v result else result"]
      Cons.prems n unfolding p c by (auto split: option.splits)
qed

text \<open>The merged object has the value of the first object that defines the property.\<close>

lemma lookup_extend:
  assumes "\<forall>obj \<in> set objs. distinct (map fst obj)"
  shows "lookup_prop (extend objs) a =
    foldl (\<lambda>r obj. case r of None \<Rightarrow> lookup_prop obj a | Some v \<Rightarrow> Some v) None objs"
proof -
  have "lookup_prop (foldl extend_props acc objs) a =
      foldl (\<lambda>r obj. case r of None \<Rightarrow> lookup_prop obj a | Some v \<Rightarrow> Some v) (lookup_prop acc a) objs" for acc
    using assms by (induction objs arbitrary: acc) (simp_all add: lookup_extend_props)
  from this [of "[]"] show ?thesis by (simp add: extend_def lookup_prop_def)
qed

end
