(* ===== verification/JsDate.thy ===== *)
theory JsDate
  imports JsPrelude
begin

text \<open>
  The \<open>Date\<close> objects the ZIP code uses, as ECMA-262 time values (milliseconds since
  1970-01-01 UTC, an \<open>int\<close>): \<open>Date.UTC\<close> and the UTC getters, and on top of them the
  packing of a date into the two 16-bit DOS fields of a ZIP header
  (\<open>generateZipParts\<close>) and its reading back (\<open>DataReader.readDate\<close>).
\<close>

section \<open>Time values\<close>

definition DayFromYear :: "int \<Rightarrow> int" where
  "DayFromYear y = 365 * (y - 1970) + (y - 1969) div 4 - (y - 1901) div 100 + (y - 1601) div 400"

definition InLeapYear :: "int \<Rightarrow> bool" where
  "InLeapYear y \<longleftrightarrow> (4 dvd y \<and> \<not> 100 dvd y) \<or> 400 dvd y"

text \<open>Days of the year before a month; the month counts from 0.\<close>

definition month_start :: "bool \<Rightarrow> nat \<Rightarrow> int" where
  "month_start leap m =
     [0, 31, 59, 90, 120, 151, 181, 212, 243, 273, 304, 334] ! m + (if leap \<and> 2 \<le> m then 1 else 0)"

definition MakeDay :: "int \<Rightarrow> int \<Rightarrow> int \<Rightarrow> int" where
  "MakeDay year month date =
     (let ym = year + month div 12; mn = nat (month mod 12)
      in DayFromYear ym + month_start (InLeapYear ym) mn + date - 1)"

definition MakeTime :: "int \<Rightarrow> int \<Rightarrow> int \<Rightarrow> int" where
  "MakeTime hour mins sec = hour * 3600000 + mins * 60000 + sec * 1000"

text \<open>The year is never below 100 where the code calls it, so it is taken as it is.\<close>

definition Date_UTC :: "int \<Rightarrow> int \<Rightarrow> int \<Rightarrow> int \<Rightarrow> int \<Rightarrow> int \<Rightarrow> int" where
  "Date_UTC year month date hour mins sec =
     MakeDay year month date * 86400000 + MakeTime hour mins sec"

definition Day :: "int \<Rightarrow> int" where "Day t = t div 86400000"
definition TimeWithinDay :: "int \<Rightarrow> int" where "TimeWithinDay t = t mod 86400000"

lemma div_succ:
  fixes a n :: int
  assumes "0 < n"
  shows "(a + 1) div n - a div n = (if n dvd a + 1 then 1 else 0)"
proof -
  have r: "a = a div n * n + a mod n" "0 \<le> a mod n" "a mod n < n" using assms by simp_all
  show ?thesis
  proof (cases "a mod n = n - 1")
    case True
    then have e: "a + 1 = (a div n + 1) * n" using r(1) unfolding distrib_right by linarith
    then have "n dvd a + 1" by (metis dvd_triv_right)
    moreover have "(a + 1) div n = a div n + 1" using e assms by (metis nonzero_mult_div_cancel_right less_irrefl)
    ultimately show ?thesis by simp
  next
    case False
    then have b: "0 \<le> a mod n + 1" "a mod n + 1 < n" using r by simp_all
    have e: "a + 1 = a div n * n + (a mod n + 1)" using r(1) by simp
    have d: "(a + 1) div n = a div n" and m: "(a + 1) mod n = a mod n + 1"
      using mul_add_div_mod [OF b, of "a div n"] by (simp_all only: e [symmetric])
    have "\<not> n dvd a + 1" unfolding dvd_eq_mod_eq_0 m using r(2) by linarith
    then show ?thesis unfolding d by simp
  qed
qed

lemma DayFromYear_Suc: "DayFromYear (y + 1) = DayFromYear y + (if InLeapYear y then 366 else 365)"
proof -
  have m: "4 dvd (y - 1969) + 1 \<longleftrightarrow> 4 dvd y" "100 dvd (y - 1901) + 1 \<longleftrightarrow> 100 dvd y"
    "400 dvd (y - 1601) + 1 \<longleftrightarrow> 400 dvd y"
    using dvd_add_left_iff [of 4 "- 1968" y] dvd_add_left_iff [of 100 "- 1900" y]
      dvd_add_left_iff [of 400 "- 1600" y] by (simp_all add: algebra_simps)
  have i: "400 dvd y \<Longrightarrow> 100 dvd y" "100 dvd y \<Longrightarrow> 4 dvd y"
    by (rule dvd_trans [rotated], assumption, simp)+
  define a b c where "a = (y - 1969) div 4" and "b = (y - 1901) div 100" and "c = (y - 1601) div 400"
  have s: "(y + 1 - 1969) div 4 = a + (if 4 dvd y then 1 else 0)"
    "(y + 1 - 1901) div 100 = b + (if 100 dvd y then 1 else 0)"
    "(y + 1 - 1601) div 400 = c + (if 400 dvd y then 1 else 0)"
    using div_succ [of 4 "y - 1969"] div_succ [of 100 "y - 1901"] div_succ [of 400 "y - 1601"]
    unfolding m by (simp_all add: a_def b_def c_def algebra_simps)
  show ?thesis
    unfolding DayFromYear_def s a_def [symmetric] b_def [symmetric] c_def [symmetric] InLeapYear_def
    using i by auto
qed

lemma DayFromYear_less: "DayFromYear y < DayFromYear (y + 1)"
  by (simp add: DayFromYear_Suc)

text \<open>The year of a day: search upwards from a year that is not too late.\<close>

function year_up :: "int \<Rightarrow> int \<Rightarrow> int" where
  "year_up y d = (if DayFromYear (y + 1) \<le> d then year_up (y + 1) d else y)"
  by pat_completeness auto
termination
  by (relation "measure (\<lambda>(y, d). nat (d - DayFromYear y))") (auto simp: DayFromYear_Suc split: if_splits)

declare year_up.simps [simp del]

definition YearFromDay :: "int \<Rightarrow> int" where
  "YearFromDay d = year_up (1970 + (if 0 \<le> d then d div 366 else d div 365)) d"

definition getUTCFullYear :: "int \<Rightarrow> int" where
  "getUTCFullYear t = YearFromDay (Day t)"

definition DayWithinYear :: "int \<Rightarrow> int" where
  "DayWithinYear t = Day t - DayFromYear (getUTCFullYear t)"

definition month_of :: "bool \<Rightarrow> int \<Rightarrow> nat" where
  "month_of leap dy = length (filter (\<lambda>m. month_start leap m \<le> dy) [1..<12])"

definition getUTCMonth :: "int \<Rightarrow> int" where
  "getUTCMonth t = int (month_of (InLeapYear (getUTCFullYear t)) (DayWithinYear t))"

definition getUTCDate :: "int \<Rightarrow> int" where
  "getUTCDate t = DayWithinYear t -
     month_start (InLeapYear (getUTCFullYear t)) (nat (getUTCMonth t)) + 1"

definition getUTCHours :: "int \<Rightarrow> int" where "getUTCHours t = TimeWithinDay t div 3600000"
definition getUTCMinutes :: "int \<Rightarrow> int" where "getUTCMinutes t = TimeWithinDay t div 60000 mod 60"
definition getUTCSeconds :: "int \<Rightarrow> int" where "getUTCSeconds t = TimeWithinDay t div 1000 mod 60"

lemma year_up_correct:
  "DayFromYear y \<le> d \<Longrightarrow>
    DayFromYear (year_up y d) \<le> d \<and> d < DayFromYear (year_up y d + 1)"
proof (induction y d rule: year_up.induct)
  case (1 y d)
  then show ?case by (cases "DayFromYear (y + 1) \<le> d") (simp_all add: year_up.simps [of y d])
qed

lemma DayFromYear_le_366: "DayFromYear (1970 + int n) \<le> 366 * int n"
proof (induction n)
  case (Suc n)
  have "DayFromYear (1970 + int (Suc n)) = DayFromYear ((1970 + int n) + 1)" by (simp add: algebra_simps)
  also have "\<dots> \<le> DayFromYear (1970 + int n) + 366" unfolding DayFromYear_Suc by simp
  finally show ?case using Suc by simp
qed (simp add: DayFromYear_def)

lemma DayFromYear_le_365: "DayFromYear (1970 - int n) \<le> 365 * - int n"
proof (induction n)
  case (Suc n)
  have "DayFromYear (1970 - int n) = DayFromYear ((1970 - int (Suc n)) + 1)" by simp
  also have "\<dots> \<ge> DayFromYear (1970 - int (Suc n)) + 365" unfolding DayFromYear_Suc by simp
  finally show ?case using Suc by simp
qed (simp add: DayFromYear_def)

text \<open>The year found is the year of the day.\<close>

lemma YearFromDay_correct:
  "DayFromYear (YearFromDay d) \<le> d" "d < DayFromYear (YearFromDay d + 1)"
proof -
  have "DayFromYear (1970 + (if 0 \<le> d then d div 366 else d div 365)) \<le> d"
  proof (cases "0 \<le> d")
    case True
    then have "0 \<le> d div 366" by (rule div_nonneg) simp
    then have "DayFromYear (1970 + d div 366) \<le> 366 * (d div 366)"
      using DayFromYear_le_366 [of "nat (d div 366)"] by simp
    also have "\<dots> \<le> d" using mult_div_mod_eq [of 366 d] pos_mod_sign [of 366 d] by linarith
    finally show ?thesis using True by simp
  next
    case False
    then have n: "d div 365 < 0" by (simp add: neg_imp_zdiv_neg_iff)
    have "DayFromYear (1970 + d div 365) \<le> 365 * (d div 365)"
      using DayFromYear_le_365 [of "nat (- (d div 365))"] n by simp
    also have "\<dots> \<le> d" using mult_div_mod_eq [of 365 d] pos_mod_sign [of 365 d] by linarith
    finally show ?thesis using False by simp
  qed
  from year_up_correct [OF this]
  show "DayFromYear (YearFromDay d) \<le> d" "d < DayFromYear (YearFromDay d + 1)"
    by (simp_all only: YearFromDay_def)
qed

text \<open>The month found, and the bounds of the day within it.\<close>

lemma month_of_cases:
  assumes "0 \<le> dy" "dy < (if leap then 366 else 365)"
  shows "month_of leap dy < 12" "0 \<le> dy - month_start leap (month_of leap dy)"
    "dy - month_start leap (month_of leap dy) < 31"
proof -
  have u: "[1..<12] = [1, 2, 3, 4, 5, 6, 7, 8, 9, 10, 11 :: nat]" by (simp add: upt_rec)
  have "month_of leap dy < 12 \<and> 0 \<le> dy - month_start leap (month_of leap dy) \<and>
      dy - month_start leap (month_of leap dy) < 31"
    using assms unfolding month_of_def u
    by (cases leap) (simp_all add: month_start_def split: if_split)
  then show "month_of leap dy < 12" "0 \<le> dy - month_start leap (month_of leap dy)"
    "dy - month_start leap (month_of leap dy) < 31" by simp_all
qed

lemma DayWithinYear_range:
  "0 \<le> DayWithinYear t" "DayWithinYear t < (if InLeapYear (getUTCFullYear t) then 366 else 365)"
  using YearFromDay_correct [of "Day t"]
  by (simp_all add: DayWithinYear_def getUTCFullYear_def DayFromYear_Suc)

lemma date_ranges:
  "0 \<le> getUTCMonth t" "getUTCMonth t < 12" "1 \<le> getUTCDate t" "getUTCDate t \<le> 31"
  using month_of_cases [OF DayWithinYear_range, of t]
  by (simp_all add: getUTCMonth_def getUTCDate_def)

lemma TimeWithinDay_range: "0 \<le> TimeWithinDay t" "TimeWithinDay t < 86400000"
  by (simp_all add: TimeWithinDay_def)

lemma time_ranges:
  "0 \<le> getUTCHours t" "getUTCHours t < 24" "0 \<le> getUTCMinutes t" "getUTCMinutes t < 60"
  "0 \<le> getUTCSeconds t" "getUTCSeconds t < 60"
  using div_nonneg [OF TimeWithinDay_range(1), of 3600000 t]
    div_upto [OF TimeWithinDay_range(1) TimeWithinDay_range(2), of 24 3600000 t]
  by (simp_all add: getUTCHours_def getUTCMinutes_def getUTCSeconds_def)

text \<open>The getters take a time value apart; \<open>Date_UTC\<close> puts it together.\<close>

lemma MakeDay_getters:
  "MakeDay (getUTCFullYear t) (getUTCMonth t) (getUTCDate t) = Day t"
proof -
  have "getUTCMonth t div 12 = 0" "getUTCMonth t mod 12 = getUTCMonth t"
    using date_ranges [of t] by (simp_all add: div_pos_pos_trivial mod_pos_pos_trivial)
  then show ?thesis
    by (simp add: MakeDay_def Let_def getUTCDate_def DayWithinYear_def)
qed

lemma split_time_vars:
  fixes w a b r x1 x2 x3 :: int
  shows "w = a * 1000 + r \<Longrightarrow> a = b * 60 + x3 \<Longrightarrow> b = x1 * 60 + x2 \<Longrightarrow>
    w = x1 * 3600000 + x2 * 60000 + x3 * 1000 + r"
  by simp

lemma split_time:
  fixes w :: int
  shows "w = w div 3600000 * 3600000 + w div 60000 mod 60 * 60000 + w div 1000 mod 60 * 1000 + w mod 1000"
proof -
  have e: "w div 60000 = w div 1000 div 60" "w div 3600000 = w div 1000 div 60 div 60"
    by (simp_all add: zdiv_zmult2_eq [symmetric])
  show ?thesis unfolding e
    by (rule split_time_vars [where a = "w div 1000" and b = "w div 1000 div 60"])
      (simp_all only: div_mult_mod_eq)
qed

lemma Date_UTC_getters:
  "Date_UTC (getUTCFullYear t) (getUTCMonth t) (getUTCDate t)
     (getUTCHours t) (getUTCMinutes t) (getUTCSeconds t) = t - t mod 1000"
proof -
  define w where "w = TimeWithinDay t"
  have m: "w mod 1000 = t mod 1000"
    unfolding w_def TimeWithinDay_def by (rule mod_mod_cancel) simp
  have t: "t = Day t * 86400000 + w" unfolding w_def TimeWithinDay_def Day_def by simp
  have s: "w = MakeTime (getUTCHours t) (getUTCMinutes t) (getUTCSeconds t) + w mod 1000"
    unfolding MakeTime_def getUTCHours_def getUTCMinutes_def getUTCSeconds_def w_def [symmetric]
    by (rule split_time)
  show ?thesis unfolding Date_UTC_def MakeDay_getters m [symmetric] using t s by linarith
qed

section \<open>DOS dates\<close>

text \<open>
  \<open>dosTime\<close> and \<open>dosDate\<close> of \<open>generateZipParts\<close>. The seconds are halved to a Number
  that may have a fraction, which the bitwise OR drops.
\<close>

definition dos_time :: "int \<Rightarrow> int" where
  "dos_time date = js_or (js_shl (js_or (js_shl (getUTCHours date) 6) (getUTCMinutes date)) 5)
     (getUTCSeconds date div 2)"

definition dos_date :: "int \<Rightarrow> int" where
  "dos_date date = js_or (js_shl (js_or (js_shl (getUTCFullYear date - 1980) 4)
     (getUTCMonth date + 1)) 5) (getUTCDate date)"

text \<open>What \<open>readDate\<close> makes of the four bytes it has read.\<close>

definition date_of_dos :: "int \<Rightarrow> int" where
  "date_of_dos dostime = Date_UTC
     (js_and (js_shr dostime 25) 0x7f + 1980)
     (js_and (js_shr dostime 21) 0x0f - 1)
     (js_and (js_shr dostime 16) 0x1f)
     (js_and (js_shr dostime 11) 0x1f)
     (js_and (js_shr dostime 5) 0x3f)
     (js_shl (js_and dostime 0x1f) 1)"

lemma dos_time_fields:
  "dos_time t = (getUTCHours t * 64 + getUTCMinutes t) * 32 + getUTCSeconds t div 2"
proof -
  define h m s where "h = getUTCHours t" and "m = getUTCMinutes t" and "s = getUTCSeconds t div 2"
  have r: "0 \<le> h" "h < 24" "0 \<le> m" "m < 60" "0 \<le> s" "s < 30"
    using time_ranges [of t] by (simp_all add: h_def m_def s_def)
  have "js_or (js_shl h 6) m = h * 64 + m" using js_shl_or [of m 6 h] r by simp
  moreover have "js_or (js_shl (h * 64 + m) 5) s = (h * 64 + m) * 32 + s"
    using js_shl_or [of s 5 "h * 64 + m"] r by simp
  ultimately show ?thesis by (simp add: dos_time_def h_def m_def s_def)
qed

definition dos_year_ok :: "int \<Rightarrow> bool" where
  "dos_year_ok t \<longleftrightarrow> 1980 \<le> getUTCFullYear t \<and> getUTCFullYear t < 2108"

lemma dos_date_fields:
  assumes "dos_year_ok t"
  shows "dos_date t = ((getUTCFullYear t - 1980) * 16 + (getUTCMonth t + 1)) * 32 + getUTCDate t"
proof -
  define y m d where "y = getUTCFullYear t - 1980" and "m = getUTCMonth t + 1" and "d = getUTCDate t"
  have r: "0 \<le> y" "y < 128" "0 \<le> m" "m < 16" "0 \<le> d" "d < 32"
    using date_ranges [of t] assms by (simp_all add: y_def m_def d_def dos_year_ok_def)
  have "js_or (js_shl y 4) m = y * 16 + m" using js_shl_or [of m 4 y] r by simp
  moreover have "js_or (js_shl (y * 16 + m) 5) d = (y * 16 + m) * 32 + d"
    using js_shl_or [of d 5 "y * 16 + m"] r by simp
  ultimately show ?thesis by (simp add: dos_date_def y_def m_def d_def)
qed

lemma dos_fields_range:
  assumes "dos_year_ok t"
  shows "0 \<le> dos_time t" "dos_time t < 65536" "0 \<le> dos_date t" "dos_date t < 65536"
proof -
  define h m s where "h = getUTCHours t" and "m = getUTCMinutes t" and "s = getUTCSeconds t div 2"
  have r: "0 \<le> h" "h < 24" "0 \<le> m" "m < 60" "0 \<le> s" "s < 30"
    using time_ranges [of t] by (simp_all add: h_def m_def s_def)
  then show "0 \<le> dos_time t" "dos_time t < 65536"
    unfolding dos_time_fields h_def [symmetric] m_def [symmetric] s_def [symmetric] by simp_all
  show "0 \<le> dos_date t" "dos_date t < 65536"
    using assms date_ranges [of t] unfolding dos_date_fields [OF assms] dos_year_ok_def by simp_all
qed

text \<open>Six fields packed in a 32-bit number, read back by shifting and masking.\<close>

lemma signed_field:
  assumes "n + k \<le> 32" "k \<le> 31" "n < 32"
  shows "js_and (js_shr (ToInt32 x) n) (2 ^ k - 1) = x div 2 ^ n mod 2 ^ k"
proof -
  have "js_shr (ToInt32 x) n = drop_bit n (signed_take_bit 31 x)"
    using assms by (simp add: js_shr_def drop_bit_eq_div ToInt32_signed_take_bit)
  then have "js_and (js_shr (ToInt32 x) n) (2 ^ k - 1) = take_bit k (drop_bit n (signed_take_bit 31 x))"
    using assms by (simp add: js_and_mask take_bit_eq_mod)
  also have "\<dots> = take_bit k (drop_bit n x)"
  proof (rule bit_eqI)
    fix i
    show "bit (take_bit k (drop_bit n (signed_take_bit 31 x))) i = bit (take_bit k (drop_bit n x)) i"
      using assms by (cases "n + i = 31") (auto simp: bit_simps min_def)
  qed
  finally show ?thesis by (simp add: take_bit_eq_mod drop_bit_eq_div)
qed

definition pack_dos :: "int \<Rightarrow> int \<Rightarrow> int \<Rightarrow> int \<Rightarrow> int \<Rightarrow> int \<Rightarrow> int" where
  "pack_dos y mo d h mi s2 = ((((y * 16 + mo) * 32 + d) * 32 + h) * 64 + mi) * 32 + s2"

lemma pack_dos_fields:
  fixes y mo d h mi s2 :: int
  assumes "0 \<le> mo" "mo < 16" "0 \<le> d" "d < 32" "0 \<le> h" "h < 32" "0 \<le> mi" "mi < 64" "0 \<le> s2" "s2 < 32"
  defines "x \<equiv> pack_dos y mo d h mi s2"
  shows "x mod 32 = s2" "x div 32 mod 64 = mi" "x div 2048 mod 32 = h"
    "x div 65536 mod 32 = d" "x div 2097152 mod 16 = mo" "x div 33554432 = y"
proof -
  have d2: "x div 2048 = x div 32 div 64" "x div 65536 = x div 2048 div 32"
    "x div 2097152 = x div 65536 div 32" "x div 33554432 = x div 2097152 div 16"
    by (simp_all add: zdiv_zmult2_eq [symmetric])
  define x1 where "x1 = ((y * 16 + mo) * 32 + d) * 32 + h"
  define x2 where "x2 = (y * 16 + mo) * 32 + d"
  define x3 where "x3 = y * 16 + mo"
  have e: "x = (x1 * 64 + mi) * 32 + s2" by (simp only: x_def pack_dos_def x1_def)
  have q1: "x div 32 = x1 * 64 + mi" "x mod 32 = s2"
    unfolding e using mul_add_div_mod [OF assms(9,10)] by (simp_all only:)
  have q2: "x div 2048 = x1" "x div 32 mod 64 = mi"
    unfolding d2 q1 using mul_add_div_mod [OF assms(7,8)] by (simp_all only:)
  have e1: "x1 = x2 * 32 + h" by (simp only: x1_def x2_def)
  have q3: "x div 65536 = x2" "x div 2048 mod 32 = h"
    unfolding d2(2) q2 e1 using mul_add_div_mod [OF assms(5,6)] by (simp_all only:)
  have e2: "x2 = x3 * 32 + d" by (simp only: x2_def x3_def)
  have q4: "x div 2097152 = x3" "x div 65536 mod 32 = d"
    unfolding d2(3) q3 e2 using mul_add_div_mod [OF assms(3,4)] by (simp_all only:)
  have q5: "x div 33554432 = y" "x div 2097152 mod 16 = mo"
    unfolding d2(4) q4 x3_def using mul_add_div_mod [OF assms(1,2)] by (simp_all only:)
  show "x mod 32 = s2" "x div 32 mod 64 = mi" "x div 2048 mod 32 = h"
    "x div 65536 mod 32 = d" "x div 2097152 mod 16 = mo" "x div 33554432 = y"
    by (rule q1 q2 q3 q4 q5)+
qed

lemma date_of_dos_fields:
  "date_of_dos (ToInt32 x) = Date_UTC (x div 33554432 mod 128 + 1980) (x div 2097152 mod 16 - 1)
     (x div 65536 mod 32) (x div 2048 mod 32) (x div 32 mod 64) (x mod 32 * 2)"
proof -
  have m: "js_and (ToInt32 x) 0x1f = x mod 32"
    using signed_field [of 0 5 x] by (simp add: js_shr_def ToInt32_range)
  have "js_shl (x mod 32) 1 = x mod 32 * 2"
  proof -
    define r where "r = x mod 32"
    have "0 \<le> r" "r < 32" by (simp_all add: r_def)
    then show ?thesis unfolding r_def [symmetric] using js_shl_mult [of r 1] by simp
  qed
  moreover have "js_and (js_shr (ToInt32 x) 25) 0x7f = x div 33554432 mod 128"
    "js_and (js_shr (ToInt32 x) 21) 0x0f = x div 2097152 mod 16"
    "js_and (js_shr (ToInt32 x) 16) 0x1f = x div 65536 mod 32"
    "js_and (js_shr (ToInt32 x) 11) 0x1f = x div 2048 mod 32"
    "js_and (js_shr (ToInt32 x) 5) 0x3f = x div 32 mod 64"
    by (rule signed_field [of 25 7 x, simplified] signed_field [of 21 4 x, simplified]
        signed_field [of 16 5 x, simplified] signed_field [of 11 5 x, simplified]
        signed_field [of 5 6 x, simplified])+
  ultimately show ?thesis by (simp only: date_of_dos_def m)
qed

lemma year_mod: "0 \<le> y \<Longrightarrow> y < 128 \<Longrightarrow> y mod 128 = (y :: int)"
  by simp

lemma date_of_dos_of_date:
  assumes "dos_year_ok t"
  shows "date_of_dos (ToInt32 (dos_time t + dos_date t * 65536)) = t - t mod 2000"
proof -
  define s2 where "s2 = getUTCSeconds t div 2"
  have s2: "0 \<le> s2" "s2 < 32" using time_ranges [of t] by (simp_all add: s2_def)
  let ?x = "pack_dos (getUTCFullYear t - 1980) (getUTCMonth t + 1) (getUTCDate t)
    (getUTCHours t) (getUTCMinutes t) s2"
  have x: "dos_time t + dos_date t * 65536 = ?x"
    unfolding dos_time_fields dos_date_fields [OF assms] pack_dos_def s2_def by simp
  note r = date_ranges [of t] time_ranges [of t]
  have f: "?x mod 32 = s2" "?x div 32 mod 64 = getUTCMinutes t" "?x div 2048 mod 32 = getUTCHours t"
    "?x div 65536 mod 32 = getUTCDate t" "?x div 2097152 mod 16 = getUTCMonth t + 1"
    "?x div 33554432 = getUTCFullYear t - 1980"
    using r s2 by (intro pack_dos_fields; linarith)+
  have y: "(getUTCFullYear t - 1980) mod 128 = getUTCFullYear t - 1980"
    using assms by (intro year_mod) (simp_all add: dos_year_ok_def)
  have "date_of_dos (ToInt32 (dos_time t + dos_date t * 65536)) =
      Date_UTC (getUTCFullYear t) (getUTCMonth t) (getUTCDate t) (getUTCHours t) (getUTCMinutes t) (s2 * 2)"
    unfolding x date_of_dos_fields f y by simp
  also have "\<dots> = t - t mod 1000 - (getUTCSeconds t - s2 * 2) * 1000"
    using Date_UTC_getters [of t] unfolding Date_UTC_def MakeTime_def by simp
  also have "\<dots> = t - t mod 2000"
  proof -
    have g: "getUTCSeconds t - s2 * 2 = t div 1000 mod 2"
    proof -
      have "t div 1000 = Day t * 86400 + TimeWithinDay t div 1000"
      proof -
        have "t = TimeWithinDay t + Day t * 86400 * 1000" by (simp add: Day_def TimeWithinDay_def)
        then have "t div 1000 = (TimeWithinDay t + Day t * 86400 * 1000) div 1000" by (rule arg_cong)
        also have "\<dots> = Day t * 86400 + TimeWithinDay t div 1000" by (rule div_mult_self1) simp
        finally show ?thesis .
      qed
      then have "t div 1000 mod 2 = TimeWithinDay t div 1000 mod 2"
        by (simp add: mod_add_eq [symmetric] mod_mult_eq [symmetric])
      also have "\<dots> = getUTCSeconds t mod 2"
        unfolding getUTCSeconds_def by (rule mod_mod_cancel [symmetric]) simp
      also have "\<dots> = getUTCSeconds t - s2 * 2" by (simp add: s2_def minus_div_mult_eq_mod)
      finally show ?thesis by simp
    qed
    have "t mod 2000 = t mod 1000 + (t div 1000 mod 2) * 1000"
      using zmod_zmult2_eq [of 2 t 1000] by simp
    then show ?thesis unfolding g by simp
  qed
  finally show ?thesis .
qed

text \<open>
  Property C33. A date of the years 1980 to 2107 survives the two DOS fields of a ZIP
  header up to its two-second resolution: what \<open>readDate\<close> makes of the four bytes that
  \<open>generateZipParts\<close> wrote is the date rounded down to an even second. Both fields fit
  in 16 bits.
\<close>

theorem dos_date_roundtrip:
  assumes "1980 \<le> getUTCFullYear date" "getUTCFullYear date < 2108"
  shows "date_of_dos (ToInt32 (dos_time date + dos_date date * 65536)) = date - date mod 2000 \<and>
    0 \<le> dos_time date \<and> dos_time date < 65536 \<and> 0 \<le> dos_date date \<and> dos_date date < 65536"
  using date_of_dos_of_date [of date] dos_fields_range [of date] assms by (simp add: dos_year_ok_def)

theorem dos_date_roundtrip_witness:
  "date_of_dos (ToInt32 (dos_time 1500000001999 + dos_date 1500000001999 * 65536)) = 1500000000000"
proof -
  have y: "getUTCFullYear 1500000001999 = 2017"
    by (simp add: getUTCFullYear_def YearFromDay_def Day_def year_up.simps DayFromYear_def)
  show ?thesis using dos_date_roundtrip [of 1500000001999] by (simp add: y)
qed

end
