(* ===== verification/DataReader.thy ===== *)
theory DataReader
  imports JsDate
begin

text \<open>
  \<open>lib/reader\<close> of JSZip: \<open>DataReader\<close> and its four providers \<open>ArrayReader\<close>,
  \<open>StringReader\<close>, \<open>Uint8ArrayReader\<close> and \<open>NodeBufferReader\<close>. A reader is a record
  of its fields; the data is the list of its elements (bytes, or the codes of the
  characters of a string). What throws in the code returns \<open>Inl\<close>.

  The methods every provider has are a locale, \<open>data_reader\<close>, with the laws the rest of
  the reading code relies on; the inherited methods (\<open>readInt\<close>) are analysed once in it,
  and each provider is an interpretation.
\<close>

datatype reader_kind = ArrayReader | StringReader | Uint8ArrayReader | NodeBufferReader

record reader =
  rkind :: reader_kind
  rdata :: "int list"
  rlength :: int
  rindex :: int
  rzero :: int

text \<open>Everything the code that reads a ZIP may throw; the message is the constructor.\<close>

datatype zip_error =
    EndOfData int int
  | UnexpectedSignature jsstr jsstr
  | Zip64LocatorMissing
  | Zip64EndMissing
  | MultiVolume
  | RecordsMissing int int
  | NotAZip
  | EndOfCentralMissing
  | MissingBytes int
  | Encrypted
  | SizesUnknown
  | UnknownCompression jsstr jsstr

text \<open>Constructors; only the array readers mask their elements.\<close>

definition newReader :: "reader_kind \<Rightarrow> int list \<Rightarrow> reader" where
  "newReader k d =
     \<lparr>rkind = k, rdata = (if k = StringReader then d else map (\<lambda>x. js_and x 0xFF) d),
      rlength = int (length d), rindex = 0, rzero = 0\<rparr>"

definition checkIndex :: "int \<Rightarrow> reader \<Rightarrow> zip_error + unit" where
  "checkIndex newIndex r =
     (if rlength r < rzero r + newIndex \<or> newIndex < 0
      then Inl (EndOfData (rlength r) newIndex) else Inr ())"

definition checkOffset :: "int \<Rightarrow> reader \<Rightarrow> zip_error + unit" where
  "checkOffset offset r = checkIndex (rindex r + offset) r"

definition setIndex :: "int \<Rightarrow> reader \<Rightarrow> zip_error + reader" where
  "setIndex newIndex r = rbind (checkIndex newIndex r) (\<lambda>_. Inr (r\<lparr>rindex := newIndex\<rparr>))"

definition skip :: "int \<Rightarrow> reader \<Rightarrow> zip_error + reader" where
  "skip n r = setIndex (rindex r + n) r"

text \<open>
  \<open>slice\<close> and \<open>subarray\<close>: indices below 0 count from the end, both are cut to the length.
\<close>

definition slice_index :: "int \<Rightarrow> int \<Rightarrow> int" where
  "slice_index len i = (if i < 0 then max (len + i) 0 else min i len)"

definition js_slice :: "'a list \<Rightarrow> int \<Rightarrow> int \<Rightarrow> 'a list" where
  "js_slice xs b e =
     (let b = slice_index (int (length xs)) b; e = slice_index (int (length xs)) e
      in take (nat (e - b)) (drop (nat b) xs))"

text \<open>An element outside the data would be \<open>undefined\<close>; the checks exclude it.\<close>

definition array_byteAt :: "reader \<Rightarrow> int \<Rightarrow> int" where
  "array_byteAt r i = rdata r ! nat (rzero r + i)"

definition string_byteAt :: "reader \<Rightarrow> int \<Rightarrow> int" where
  "string_byteAt r i = rdata r ! nat (rzero r + i)"

definition array_readData :: "int \<Rightarrow> reader \<Rightarrow> zip_error + int list \<times> reader" where
  "array_readData sz r = rbind (checkOffset sz r) (\<lambda>_.
     if sz = 0 then Inr ([], r)
     else Inr (js_slice (rdata r) (rzero r + rindex r) (rzero r + rindex r + sz),
               r\<lparr>rindex := rindex r + sz\<rparr>))"

definition uint8_readData :: "int \<Rightarrow> reader \<Rightarrow> zip_error + int list \<times> reader" where
  "uint8_readData sz r = rbind (checkOffset sz r) (\<lambda>_.
     if sz = 0 then Inr ([], r)
     else Inr (js_slice (rdata r) (rzero r + rindex r) (rzero r + rindex r + sz),
               r\<lparr>rindex := rindex r + sz\<rparr>))"

definition string_readData :: "int \<Rightarrow> reader \<Rightarrow> zip_error + int list \<times> reader" where
  "string_readData sz r = rbind (checkOffset sz r) (\<lambda>_.
     Inr (js_slice (rdata r) (rzero r + rindex r) (rzero r + rindex r + sz),
          r\<lparr>rindex := rindex r + sz\<rparr>))"

definition node_readData :: "int \<Rightarrow> reader \<Rightarrow> zip_error + int list \<times> reader" where
  "node_readData sz r = rbind (checkOffset sz r) (\<lambda>_.
     Inr (js_slice (rdata r) (rzero r + rindex r) (rzero r + rindex r + sz),
          r\<lparr>rindex := rindex r + sz\<rparr>))"

text \<open>A signature has four characters; the array readers take them apart.\<close>

definition sig_codes :: "jsstr \<Rightarrow> int list" where
  "sig_codes sig = map uint sig"

definition sig_at :: "int list \<Rightarrow> int list \<Rightarrow> nat \<Rightarrow> bool" where
  "sig_at d s i \<longleftrightarrow> d ! i = s ! 0 \<and> d ! (i + 1) = s ! 1 \<and> d ! (i + 2) = s ! 2 \<and> d ! (i + 3) = s ! 3"

text \<open>\<open>for (i = this.length - 4; i >= 0; --i)\<close>, over the number of positions left.\<close>

fun sig_scan :: "int list \<Rightarrow> int list \<Rightarrow> nat \<Rightarrow> int" where
  "sig_scan d s 0 = - 1"
| "sig_scan d s (Suc i) = (if sig_at d s i then int i else sig_scan d s i)"

definition array_lastIndexOfSignature :: "jsstr \<Rightarrow> reader \<Rightarrow> int" where
  "array_lastIndexOfSignature sig r =
     (let i = sig_scan (rdata r) (sig_codes sig) (nat (rlength r - 3))
      in if i \<ge> 0 then i - rzero r else - 1)"

text \<open>\<open>String.prototype.lastIndexOf\<close>: the last position where the string occurs, or -1.\<close>

fun last_occurrence :: "int list \<Rightarrow> int list \<Rightarrow> nat \<Rightarrow> int" where
  "last_occurrence d s 0 = - 1"
| "last_occurrence d s (Suc i) =
     (if take (length s) (drop i d) = s then int i else last_occurrence d s i)"

definition string_lastIndexOfSignature :: "jsstr \<Rightarrow> reader \<Rightarrow> int" where
  "string_lastIndexOfSignature sig r =
     last_occurrence (rdata r) (sig_codes sig) (length (rdata r) + 1) - rzero r"

text \<open>
  The comparison of four elements. An element the read did not give is \<open>undefined\<close> and
  equals no character.
\<close>

definition same_four :: "int list \<Rightarrow> int list \<Rightarrow> bool" where
  "same_four s d \<longleftrightarrow> 4 \<le> length d \<and> s ! 0 = d ! 0 \<and> s ! 1 = d ! 1 \<and> s ! 2 = d ! 2 \<and> s ! 3 = d ! 3"

text \<open>The method of \<open>ArrayReader\<close> calls the \<open>readData\<close> of its subclass.\<close>

definition array_readAndCheckSignature ::
  "(int \<Rightarrow> reader \<Rightarrow> zip_error + int list \<times> reader) \<Rightarrow> jsstr \<Rightarrow> reader \<Rightarrow> zip_error + bool \<times> reader" where
  "array_readAndCheckSignature rd sig r =
     rbind (rd 4 r) (\<lambda>(data, r). Inr (same_four (sig_codes sig) data, r))"

definition string_readAndCheckSignature :: "jsstr \<Rightarrow> reader \<Rightarrow> zip_error + bool \<times> reader" where
  "string_readAndCheckSignature sig r =
     rbind (string_readData 4 r) (\<lambda>(data, r). Inr (sig_codes sig = data, r))"

text \<open>The inherited methods, over the \<open>byteAt\<close> of the provider.\<close>

fun int_loop :: "(int \<Rightarrow> int) \<Rightarrow> int \<Rightarrow> nat \<Rightarrow> int \<Rightarrow> int" where
  "int_loop at index 0 result = result"
| "int_loop at index (Suc k) result = int_loop at index k (js_shl result 8 + at (index + int k))"

definition readInt_with ::
  "(reader \<Rightarrow> int \<Rightarrow> int) \<Rightarrow> nat \<Rightarrow> reader \<Rightarrow> zip_error + int \<times> reader" where
  "readInt_with at sz r = rbind (checkOffset (int sz) r) (\<lambda>_.
     Inr (int_loop (at r) (rindex r) sz 0, r\<lparr>rindex := rindex r + int sz\<rparr>))"

section \<open>Method calls on a reader\<close>

definition byteAt :: "reader \<Rightarrow> int \<Rightarrow> int" where
  "byteAt r = (case rkind r of StringReader \<Rightarrow> string_byteAt r | _ \<Rightarrow> array_byteAt r)"

definition readData :: "int \<Rightarrow> reader \<Rightarrow> zip_error + int list \<times> reader" where
  "readData sz r = (case rkind r of
      ArrayReader \<Rightarrow> array_readData sz r
    | StringReader \<Rightarrow> string_readData sz r
    | Uint8ArrayReader \<Rightarrow> uint8_readData sz r
    | NodeBufferReader \<Rightarrow> node_readData sz r)"

definition readAndCheckSignature :: "jsstr \<Rightarrow> reader \<Rightarrow> zip_error + bool \<times> reader" where
  "readAndCheckSignature sig r = (case rkind r of
      StringReader \<Rightarrow> string_readAndCheckSignature sig r
    | ArrayReader \<Rightarrow> array_readAndCheckSignature array_readData sig r
    | Uint8ArrayReader \<Rightarrow> array_readAndCheckSignature uint8_readData sig r
    | NodeBufferReader \<Rightarrow> array_readAndCheckSignature node_readData sig r)"

definition lastIndexOfSignature :: "jsstr \<Rightarrow> reader \<Rightarrow> int" where
  "lastIndexOfSignature sig r = (case rkind r of
      StringReader \<Rightarrow> string_lastIndexOfSignature sig r | _ \<Rightarrow> array_lastIndexOfSignature sig r)"

definition readInt :: "nat \<Rightarrow> reader \<Rightarrow> zip_error + int \<times> reader" where
  "readInt sz r = readInt_with byteAt sz r"

definition readString :: "int \<Rightarrow> reader \<Rightarrow> zip_error + jsstr \<times> reader" where
  "readString sz r = rbind (readData sz r) (\<lambda>(d, r). Inr (map word_of_int d, r))"

definition readDate :: "reader \<Rightarrow> zip_error + int \<times> reader" where
  "readDate r = rbind (readInt 4 r) (\<lambda>(dostime, r). Inr (date_of_dos dostime, r))"

text \<open>\<open>readerFor\<close>, on the type of the data and \<open>support.uint8array\<close>.\<close>

datatype data_type = TString | TArray | TUint8 | TArrayBuffer | TNodeBuffer

definition readerFor :: "bool \<Rightarrow> data_type \<Rightarrow> int list \<Rightarrow> reader" where
  "readerFor uint8array type d =
     (if type = TString \<and> \<not> uint8array then newReader StringReader d
      else if type = TNodeBuffer then newReader NodeBufferReader d
      else if uint8array then newReader Uint8ArrayReader d
      else newReader ArrayReader d)"


section \<open>Readers in range\<close>

definition reader_ok :: "reader \<Rightarrow> bool" where
  "reader_ok r \<longleftrightarrow> rlength r = int (length (rdata r)) \<and> 0 \<le> rzero r \<and> 0 \<le> rindex r \<and>
     rzero r + rindex r \<le> rlength r"

text \<open>What is left to read.\<close>

definition remaining :: "reader \<Rightarrow> int list" where
  "remaining r = drop (nat (rzero r + rindex r)) (rdata r)"

definition advance :: "reader \<Rightarrow> int \<Rightarrow> reader" where
  "advance r n = r\<lparr>rindex := rindex r + n\<rparr>"

lemma advance_simps [simp]:
  "rkind (advance r n) = rkind r" "rdata (advance r n) = rdata r" "rlength (advance r n) = rlength r"
  "rzero (advance r n) = rzero r" "rindex (advance r n) = rindex r + n" "advance r 0 = r"
  "advance (advance r m) n = advance r (m + n)"
  by (simp_all add: advance_def algebra_simps)

lemma remaining_advance:
  "reader_ok r \<Longrightarrow> 0 \<le> n \<Longrightarrow> remaining (advance r n) = drop (nat n) (remaining r)"
  by (simp add: remaining_def reader_ok_def nat_add_distrib algebra_simps)

lemma length_remaining: "reader_ok r \<Longrightarrow> int (length (remaining r)) = rlength r - rzero r - rindex r"
  by (simp add: remaining_def reader_ok_def of_nat_diff nat_le_iff)

lemma advance_ok: "reader_ok r \<Longrightarrow> 0 \<le> n \<Longrightarrow> n \<le> int (length (remaining r)) \<Longrightarrow> reader_ok (advance r n)"
  using length_remaining [of r] by (simp add: reader_ok_def)

lemma js_slice_nonneg:
  "0 \<le> b \<Longrightarrow> b \<le> e \<Longrightarrow> e \<le> int (length xs) \<Longrightarrow> js_slice xs b e = take (nat (e - b)) (drop (nat b) xs)"
  by (simp add: js_slice_def slice_index_def min_def)

lemma slice_remaining:
  "reader_ok r \<Longrightarrow> 0 \<le> n \<Longrightarrow> n \<le> int (length (remaining r)) \<Longrightarrow>
    js_slice (rdata r) (rzero r + rindex r) (rzero r + rindex r + n) = take (nat n) (remaining r)"
  using length_remaining [of r] by (simp add: reader_ok_def js_slice_nonneg remaining_def)

lemma checkOffset_in:
  "reader_ok r \<Longrightarrow> 0 \<le> n \<Longrightarrow> n \<le> int (length (remaining r)) \<Longrightarrow> checkOffset n r = Inr ()"
  using length_remaining [of r] by (simp add: checkOffset_def checkIndex_def reader_ok_def)

lemma checkOffset_out:
  "reader_ok r \<Longrightarrow> int (length (remaining r)) < n \<Longrightarrow>
    checkOffset n r = Inl (EndOfData (rlength r) (rindex r + n))"
  using length_remaining [of r] by (simp add: checkOffset_def checkIndex_def)

text \<open>Little-endian numbers.\<close>

fun le_value :: "int list \<Rightarrow> int" where
  "le_value [] = 0"
| "le_value (b # bs) = b + 256 * le_value bs"

lemma le_value_append: "le_value (xs @ ys) = le_value xs + 256 ^ length xs * le_value ys"
  by (induction xs) (simp_all add: algebra_simps)

lemma le_value_range:
  "\<forall>b \<in> set bs. 0 \<le> b \<and> b < 256 \<Longrightarrow> 0 \<le> le_value bs \<and> le_value bs < 256 ^ length bs"
proof (induction bs)
  case (Cons b bs)
  then have "0 \<le> b" "b < 256" "0 \<le> le_value bs" "le_value bs \<le> 256 ^ length bs - 1" by auto
  then show ?case by (simp add: algebra_simps)
qed simp

text \<open>
  The loop of \<open>readInt\<close>: a shift drops all but 32 bits, so the result is the
  low 32 bits of the little-endian number, read as a signed integer.
\<close>

lemma ToInt32_cong: "x mod 4294967296 = y mod 4294967296 \<Longrightarrow> ToInt32 x = ToInt32 y"
  by (simp add: ToInt32_def)

lemma shl8_add:
  assumes "0 \<le> b" "b < 256"
  shows "js_shl x 8 + b = ToInt32 (x * 256 + b)"
proof -
  have e: "js_shl x 8 = ToInt32 (x * 256)"
    by (simp add: js_shl_def sint_w32_eq_iff [symmetric])
  obtain q where q: "ToInt32 (x * 256) = q * 256" "- 8388608 \<le> q" "q < 8388608"
  proof -
    have d: "(256 :: int) dvd x * 256 mod 4294967296" by (intro dvd_mod) simp_all
    then have "(256 :: int) dvd ToInt32 (x * 256)"
      by (simp add: ToInt32_def Let_def dvd_diff)
    then obtain q where "ToInt32 (x * 256) = 256 * q" by blast
    with ToInt32_range [of "x * 256"] that [of q] show ?thesis by simp
  qed
  have "ToInt32 (q * 256 + b) = q * 256 + b" using q(2,3) assms by (intro ToInt32_id) simp_all
  moreover have "ToInt32 (x * 256 + b) = ToInt32 (ToInt32 (x * 256) + b)"
    by (simp add: sint_w32_eq_iff [symmetric])
  ultimately show ?thesis by (simp add: e q(1))
qed

lemma int_loop_value:
  assumes "\<forall>b \<in> set bs. 0 \<le> b \<and> b < 256"
    and "\<And>k. k < length bs \<Longrightarrow> at (index + int k) = bs ! k"
  shows "int_loop at index (length bs) x = ToInt32 (le_value bs + 256 ^ length bs * x) \<or>
    (bs = [] \<and> int_loop at index (length bs) x = x)"
  using assms
proof (induction bs arbitrary: x rule: rev_induct)
  case (snoc b bs)
  have b: "0 \<le> b" "b < 256" using snoc.prems(1) by auto
  have at: "at (index + int (length bs)) = b" using snoc.prems(2) [of "length bs"] by simp
  have IH: "int_loop at index (length bs) y = ToInt32 (le_value bs + 256 ^ length bs * y) \<or>
      (bs = [] \<and> int_loop at index (length bs) y = y)" for y
    by (rule snoc.IH) (use snoc.prems in \<open>auto simp: nth_append\<close>)
  have s: "js_shl x 8 + b = ToInt32 (x * 256 + b)" by (rule shl8_add [OF b])
  have w: "w32 (le_value bs + 256 ^ length bs * ToInt32 (x * 256 + b)) =
      w32 (le_value (bs @ [b]) + 256 ^ length (bs @ [b]) * x)"
  proof -
    have "w32 (le_value bs + 256 ^ length bs * ToInt32 (x * 256 + b)) =
        w32 (le_value bs) + w32 (256 ^ length bs) * w32 (ToInt32 (x * 256 + b))"
      by (simp only: of_int_add of_int_mult)
    also have "\<dots> = w32 (le_value bs + 256 ^ length bs * (x * 256 + b))"
      by (simp only: w32_ToInt32 of_int_add of_int_mult)
    finally show ?thesis by (simp add: le_value_append algebra_simps)
  qed
  have "int_loop at index (length (bs @ [b])) x = int_loop at index (length bs) (ToInt32 (x * 256 + b))"
    by (simp only: length_append list.size add_0 One_nat_def [symmetric] Suc_eq_plus1 [symmetric]
        int_loop.simps(2) at s)
  also have "\<dots> = ToInt32 (le_value bs + 256 ^ length bs * ToInt32 (x * 256 + b))"
    using IH [of "ToInt32 (x * 256 + b)"] by auto
  also have "\<dots> = ToInt32 (le_value (bs @ [b]) + 256 ^ length (bs @ [b]) * x)"
    using w by (simp only: sint_w32_eq_iff)
  finally show ?case by simp
qed simp

lemma int_loop_le:
  assumes "\<forall>b \<in> set bs. 0 \<le> b \<and> b < 256"
    and "\<And>k. k < length bs \<Longrightarrow> at (index + int k) = bs ! k"
  shows "int_loop at index (length bs) 0 = ToInt32 (le_value bs)"
  using int_loop_value [OF assms, of 0] by (auto simp: ToInt32_def)

text \<open>A number too small for the sign to matter is read as it is.\<close>

lemma ToInt32_le_value_small:
  "\<forall>b \<in> set bs. 0 \<le> b \<and> b < 256 \<Longrightarrow> length bs < 4 \<Longrightarrow> ToInt32 (le_value bs) = le_value bs"
proof -
  assume a: "\<forall>b \<in> set bs. 0 \<le> b \<and> b < 256" "length bs < 4"
  then have "(256 :: int) ^ length bs \<le> 256 ^ 3" by (intro power_increasing) simp_all
  then show ?thesis using le_value_range [OF a(1)] by (intro ToInt32_id) simp_all
qed

section \<open>The interface of a reader\<close>

text \<open>
  What every provider promises about a reader in range: its four methods, in terms of the
  data and of what is left to read.
\<close>

locale data_reader =
  fixes at :: "reader \<Rightarrow> int \<Rightarrow> int"
    and rd :: "int \<Rightarrow> reader \<Rightarrow> zip_error + int list \<times> reader"
    and rdsig :: "jsstr \<Rightarrow> reader \<Rightarrow> zip_error + bool \<times> reader"
    and lastsig :: "jsstr \<Rightarrow> reader \<Rightarrow> int"
  assumes at_law: "reader_ok r \<Longrightarrow> 0 \<le> i \<Longrightarrow> rzero r + i < rlength r \<Longrightarrow>
      at r i = rdata r ! nat (rzero r + i)"
    and rd_in: "reader_ok r \<Longrightarrow> 0 \<le> n \<Longrightarrow> n \<le> int (length (remaining r)) \<Longrightarrow>
      rd n r = Inr (take (nat n) (remaining r), advance r n)"
    and rd_out: "reader_ok r \<Longrightarrow> int (length (remaining r)) < n \<Longrightarrow>
      rd n r = Inl (EndOfData (rlength r) (rindex r + n))"
    and rdsig_law: "reader_ok r \<Longrightarrow> length sig = 4 \<Longrightarrow> 4 \<le> length (remaining r) \<Longrightarrow>
      rdsig sig r = Inr (take 4 (remaining r) = sig_codes sig, advance r 4)"
    and lastsig_found: "reader_ok r \<Longrightarrow> length sig = 4 \<Longrightarrow> rzero r = 0 \<Longrightarrow>
      0 \<le> lastsig sig r \<Longrightarrow>
      take 4 (drop (nat (lastsig sig r)) (rdata r)) = sig_codes sig \<and>
      (\<forall>j. lastsig sig r < int j \<longrightarrow> take 4 (drop j (rdata r)) \<noteq> sig_codes sig)"
    and lastsig_none: "reader_ok r \<Longrightarrow> length sig = 4 \<Longrightarrow> rzero r = 0 \<Longrightarrow>
      lastsig sig r < 0 \<Longrightarrow> take 4 (drop j (rdata r)) \<noteq> sig_codes sig"
begin

lemma int_in:
  assumes "reader_ok r" "n \<le> length (remaining r)"
    and bytes: "\<forall>b \<in> set (take n (remaining r)). 0 \<le> b \<and> b < 256"
  shows "readInt_with at n r = Inr (ToInt32 (le_value (take n (remaining r))), advance r (int n))"
proof -
  have l: "length (take n (remaining r)) = n" using assms(2) by simp
  have "at r (rindex r + int k) = take n (remaining r) ! k" if "k < n" for k
  proof -
    have "rzero r + (rindex r + int k) < rlength r"
      using assms(1,2) that length_remaining [of r] by simp
    moreover have "nat (rzero r + (rindex r + int k)) = nat (rzero r + rindex r) + k"
      using assms(1) by (simp add: reader_ok_def nat_add_distrib add.assoc [symmetric])
    moreover have "nat (rzero r + rindex r) + k \<le> length (rdata r)"
      using calculation assms(1) by (simp add: reader_ok_def)
    ultimately show ?thesis
      using at_law [of r "rindex r + int k"] assms that by (simp add: reader_ok_def remaining_def)
  qed
  then have "int_loop (at r) (rindex r) n 0 = ToInt32 (le_value (take n (remaining r)))"
    using int_loop_le [OF bytes, of "at r" "rindex r"] l by simp
  then show ?thesis
    using checkOffset_in [of r "int n"] assms by (simp add: readInt_with_def advance_def)
qed

lemma int_out:
  "reader_ok r \<Longrightarrow> length (remaining r) < n \<Longrightarrow>
    readInt_with at n r = Inl (EndOfData (rlength r) (rindex r + int n))"
  by (simp add: readInt_with_def checkOffset_out)

text \<open>Whatever a read gives, the reader stays in range.\<close>

lemma rd_ok:
  assumes "reader_ok r" "0 \<le> n" "rd n r = Inr (d, r')"
  shows "reader_ok r'" "int (length d) = n" "remaining r = d @ remaining r'"
proof -
  have n: "n \<le> int (length (remaining r))"
    using rd_out [OF assms(1), of n] assms(3) by (metis Inl_Inr_False not_le)
  then have e: "d = take (nat n) (remaining r)" "r' = advance r n"
    using rd_in [OF assms(1,2)] assms(3) by auto
  show "reader_ok r'" using advance_ok [OF assms(1,2) n] e by simp
  show "int (length d) = n" using e n assms(2) by simp
  show "remaining r = d @ remaining r'" using e remaining_advance [OF assms(1,2)] by simp
qed

end

section \<open>The four providers\<close>

lemma four_eq:
  assumes "length s = 4" "length d = 4"
  shows "s ! 0 = d ! 0 \<and> s ! 1 = d ! 1 \<and> s ! 2 = d ! 2 \<and> s ! 3 = d ! 3 \<longleftrightarrow> d = s"
proof -
  have "(\<forall>i < 4. s ! i = d ! i) \<longleftrightarrow> s ! 0 = d ! 0 \<and> s ! 1 = d ! 1 \<and> s ! 2 = d ! 2 \<and> s ! 3 = d ! 3"
    by (simp add: numeral_eq_Suc All_less_Suc2)
  then show ?thesis using assms by (auto simp: list_eq_iff_nth_eq)
qed

lemma sig_at_iff:
  assumes "length s = 4" "i + 3 < length d"
  shows "sig_at d s i \<longleftrightarrow> take 4 (drop i d) = s"
proof -
  have l: "length (take 4 (drop i d)) = 4" using assms by simp
  have "take 4 (drop i d) ! k = d ! (i + k)" if "k < 4" for k
    using that assms by simp
  then show ?thesis
    using four_eq [OF assms(1) l] by (auto simp: sig_at_def)
qed

lemma short_no_sig: "length s = 4 \<Longrightarrow> length d < j + 4 \<Longrightarrow> take 4 (drop j d) \<noteq> s"
  by (auto dest: arg_cong [of _ _ length])

lemma sig_scan_cases:
  "(sig_scan d s n = - 1 \<and> (\<forall>j < n. \<not> sig_at d s j)) \<or>
   (\<exists>i < n. sig_scan d s n = int i \<and> sig_at d s i \<and> (\<forall>j < n. i < j \<longrightarrow> \<not> sig_at d s j))"
proof (induction n)
  case (Suc n)
  then show ?case by (cases "sig_at d s n") (auto simp: less_Suc_eq)
qed simp

lemma last_occurrence_cases:
  "(last_occurrence d s n = - 1 \<and> (\<forall>j < n. take (length s) (drop j d) \<noteq> s)) \<or>
   (\<exists>i < n. last_occurrence d s n = int i \<and> take (length s) (drop i d) = s \<and>
      (\<forall>j < n. i < j \<longrightarrow> take (length s) (drop j d) \<noteq> s))"
proof (induction n)
  case (Suc n)
  then show ?case by (cases "take (length s) (drop n d) = s") (auto simp: less_Suc_eq)
qed simp

lemma array_lastsig:
  assumes "reader_ok r" "length sig = 4" "rzero r = 0"
  defines "i \<equiv> array_lastIndexOfSignature sig r"
  shows "(i = - 1 \<and> (\<forall>j. take 4 (drop j (rdata r)) \<noteq> sig_codes sig)) \<or>
    (0 \<le> i \<and> take 4 (drop (nat i) (rdata r)) = sig_codes sig \<and>
      (\<forall>j. i < int j \<longrightarrow> take 4 (drop j (rdata r)) \<noteq> sig_codes sig))"
proof -
  let ?d = "rdata r" and ?s = "sig_codes sig" and ?n = "length (rdata r) - 3"
  have s: "length ?s = 4" using assms(2) by (simp add: sig_codes_def)
  have n: "nat (rlength r - 3) = ?n" using assms(1) by (simp add: reader_ok_def)
  have i: "i = sig_scan ?d ?s ?n" if "0 \<le> sig_scan ?d ?s ?n"
    using that assms(3) by (simp add: i_def array_lastIndexOfSignature_def n Let_def)
  have at: "sig_at ?d ?s j \<longleftrightarrow> take 4 (drop j ?d) = ?s" if "j < ?n" for j
    using sig_at_iff [OF s, of j ?d] that by simp
  have out: "take 4 (drop j ?d) \<noteq> ?s" if "\<not> j < ?n" for j
    by (rule short_no_sig [OF s]) (use that in simp)
  from sig_scan_cases [of ?d ?s ?n] show ?thesis
  proof (elim disjE)
    assume "sig_scan ?d ?s ?n = - 1 \<and> (\<forall>j < ?n. \<not> sig_at ?d ?s j)"
    moreover from this have "i = - 1"
      by (simp add: i_def array_lastIndexOfSignature_def n Let_def)
    ultimately show ?thesis using at out by blast
  next
    assume "\<exists>i < ?n. sig_scan ?d ?s ?n = int i \<and> sig_at ?d ?s i \<and>
      (\<forall>j < ?n. i < j \<longrightarrow> \<not> sig_at ?d ?s j)"
    then obtain k where k: "k < ?n" "sig_scan ?d ?s ?n = int k" "sig_at ?d ?s k"
      "\<forall>j < ?n. k < j \<longrightarrow> \<not> sig_at ?d ?s j" by blast
    then have "i = int k" using i by simp
    then show ?thesis using k at out by (metis nat_int of_nat_0_le_iff of_nat_less_iff)
  qed
qed

lemma string_lastsig:
  assumes "reader_ok r" "length sig = 4" "rzero r = 0"
  defines "i \<equiv> string_lastIndexOfSignature sig r"
  shows "(i = - 1 \<and> (\<forall>j. take 4 (drop j (rdata r)) \<noteq> sig_codes sig)) \<or>
    (0 \<le> i \<and> take 4 (drop (nat i) (rdata r)) = sig_codes sig \<and>
      (\<forall>j. i < int j \<longrightarrow> take 4 (drop j (rdata r)) \<noteq> sig_codes sig))"
proof -
  let ?d = "rdata r" and ?s = "sig_codes sig" and ?n = "length (rdata r) + 1"
  have s: "length ?s = 4" using assms(2) by (simp add: sig_codes_def)
  have i: "i = last_occurrence ?d ?s ?n"
    using assms(3) by (simp add: i_def string_lastIndexOfSignature_def)
  have out: "take 4 (drop j ?d) \<noteq> ?s" if "\<not> j < ?n" for j
    by (rule short_no_sig [OF s]) (use that in simp)
  from last_occurrence_cases [of ?d ?s ?n] out show ?thesis
    unfolding s i by (metis nat_int of_nat_0_le_iff of_nat_less_iff)
qed

lemma array_sig:
  assumes "reader_ok r" "length sig = 4" "4 \<le> length (remaining r)"
    and "rd 4 r = Inr (take 4 (remaining r), advance r 4)"
  shows "array_readAndCheckSignature rd sig r =
    Inr (take 4 (remaining r) = sig_codes sig, advance r 4)"
proof -
  have "length (take 4 (remaining r)) = 4" "length (sig_codes sig) = 4"
    using assms by (simp_all add: sig_codes_def)
  then have "same_four (sig_codes sig) (take 4 (remaining r)) \<longleftrightarrow> take 4 (remaining r) = sig_codes sig"
    using four_eq unfolding same_four_def by (metis order_refl)
  then show ?thesis using assms(4) by (simp add: array_readAndCheckSignature_def)
qed

lemma array_readData_in:
  "reader_ok r \<Longrightarrow> 0 \<le> n \<Longrightarrow> n \<le> int (length (remaining r)) \<Longrightarrow>
    array_readData n r = Inr (take (nat n) (remaining r), advance r n)"
  and uint8_readData_in:
  "reader_ok r \<Longrightarrow> 0 \<le> n \<Longrightarrow> n \<le> int (length (remaining r)) \<Longrightarrow>
    uint8_readData n r = Inr (take (nat n) (remaining r), advance r n)"
  and string_readData_in:
  "reader_ok r \<Longrightarrow> 0 \<le> n \<Longrightarrow> n \<le> int (length (remaining r)) \<Longrightarrow>
    string_readData n r = Inr (take (nat n) (remaining r), advance r n)"
  and node_readData_in:
  "reader_ok r \<Longrightarrow> 0 \<le> n \<Longrightarrow> n \<le> int (length (remaining r)) \<Longrightarrow>
    node_readData n r = Inr (take (nat n) (remaining r), advance r n)"
  by (auto simp: array_readData_def uint8_readData_def string_readData_def node_readData_def
      checkOffset_in slice_remaining advance_def)

lemma readData_out:
  assumes "reader_ok r" "int (length (remaining r)) < n"
  shows "array_readData n r = Inl (EndOfData (rlength r) (rindex r + n))"
    "uint8_readData n r = Inl (EndOfData (rlength r) (rindex r + n))"
    "string_readData n r = Inl (EndOfData (rlength r) (rindex r + n))"
    "node_readData n r = Inl (EndOfData (rlength r) (rindex r + n))"
  using checkOffset_out [OF assms]
  by (simp_all add: array_readData_def uint8_readData_def string_readData_def node_readData_def)

lemma array_lastsig_found:
  assumes "reader_ok r" "length sig = 4" "rzero r = 0" "0 \<le> array_lastIndexOfSignature sig r"
  shows "take 4 (drop (nat (array_lastIndexOfSignature sig r)) (rdata r)) = sig_codes sig \<and>
      (\<forall>j. array_lastIndexOfSignature sig r < int j \<longrightarrow> take 4 (drop j (rdata r)) \<noteq> sig_codes sig)"
  using array_lastsig [OF assms(1-3)] assms(4) by auto

lemma string_lastsig_found:
  assumes "reader_ok r" "length sig = 4" "rzero r = 0" "0 \<le> string_lastIndexOfSignature sig r"
  shows "take 4 (drop (nat (string_lastIndexOfSignature sig r)) (rdata r)) = sig_codes sig \<and>
      (\<forall>j. string_lastIndexOfSignature sig r < int j \<longrightarrow> take 4 (drop j (rdata r)) \<noteq> sig_codes sig)"
  using string_lastsig [OF assms(1-3)] assms(4) by auto

lemma lastsig_none:
  assumes "reader_ok r" "length sig = 4" "rzero r = 0"
  shows "array_lastIndexOfSignature sig r < 0 \<Longrightarrow> take 4 (drop j (rdata r)) \<noteq> sig_codes sig"
    "string_lastIndexOfSignature sig r < 0 \<Longrightarrow> take 4 (drop j (rdata r)) \<noteq> sig_codes sig"
  using array_lastsig [OF assms] string_lastsig [OF assms] by (meson not_le)+

interpretation array_rd: data_reader array_byteAt array_readData
  "array_readAndCheckSignature array_readData" array_lastIndexOfSignature
  by unfold_locales
    (simp_all add: array_byteAt_def array_readData_in readData_out array_sig
      array_lastsig_found lastsig_none)

interpretation uint8_rd: data_reader array_byteAt uint8_readData
  "array_readAndCheckSignature uint8_readData" array_lastIndexOfSignature
  by unfold_locales
    (simp_all add: array_byteAt_def uint8_readData_in readData_out array_sig
      array_lastsig_found lastsig_none)

interpretation node_rd: data_reader array_byteAt node_readData
  "array_readAndCheckSignature node_readData" array_lastIndexOfSignature
  by unfold_locales
    (simp_all add: array_byteAt_def node_readData_in readData_out array_sig
      array_lastsig_found lastsig_none)

lemma string_sig:
  "reader_ok r \<Longrightarrow> length sig = 4 \<Longrightarrow> 4 \<le> length (remaining r) \<Longrightarrow>
    string_readAndCheckSignature sig r = Inr (take 4 (remaining r) = sig_codes sig, advance r 4)"
  by (auto simp: string_readAndCheckSignature_def string_readData_in)

interpretation string_rd: data_reader string_byteAt string_readData
  string_readAndCheckSignature string_lastIndexOfSignature
  by unfold_locales
    (simp_all add: string_byteAt_def string_readData_in readData_out string_sig
      string_lastsig_found lastsig_none)

section \<open>Calls, whatever the provider\<close>

lemma readData_in:
  "reader_ok r \<Longrightarrow> 0 \<le> n \<Longrightarrow> n \<le> int (length (remaining r)) \<Longrightarrow>
    readData n r = Inr (take (nat n) (remaining r), advance r n)"
  by (cases "rkind r") (simp_all add: readData_def array_rd.rd_in string_rd.rd_in uint8_rd.rd_in
      node_rd.rd_in)

lemma readData_out':
  "reader_ok r \<Longrightarrow> int (length (remaining r)) < n \<Longrightarrow>
    readData n r = Inl (EndOfData (rlength r) (rindex r + n))"
  by (cases "rkind r") (simp_all add: readData_def array_rd.rd_out string_rd.rd_out uint8_rd.rd_out
      node_rd.rd_out)

lemma readAndCheckSignature_in:
  "reader_ok r \<Longrightarrow> length sig = 4 \<Longrightarrow> 4 \<le> length (remaining r) \<Longrightarrow>
    readAndCheckSignature sig r = Inr (take 4 (remaining r) = sig_codes sig, advance r 4)"
  by (cases "rkind r") (simp_all add: readAndCheckSignature_def array_rd.rdsig_law
      string_rd.rdsig_law uint8_rd.rdsig_law node_rd.rdsig_law)

lemma lastIndexOfSignature_found:
  "reader_ok r \<Longrightarrow> length sig = 4 \<Longrightarrow> rzero r = 0 \<Longrightarrow> 0 \<le> lastIndexOfSignature sig r \<Longrightarrow>
    take 4 (drop (nat (lastIndexOfSignature sig r)) (rdata r)) = sig_codes sig \<and>
    (\<forall>j. lastIndexOfSignature sig r < int j \<longrightarrow> take 4 (drop j (rdata r)) \<noteq> sig_codes sig)"
  by (cases "rkind r") (auto simp: lastIndexOfSignature_def dest: array_rd.lastsig_found
      string_rd.lastsig_found)

lemma lastIndexOfSignature_none:
  "reader_ok r \<Longrightarrow> length sig = 4 \<Longrightarrow> rzero r = 0 \<Longrightarrow> lastIndexOfSignature sig r < 0 \<Longrightarrow>
    take 4 (drop j (rdata r)) \<noteq> sig_codes sig"
  by (cases "rkind r") (auto simp: lastIndexOfSignature_def array_rd.lastsig_none
      string_rd.lastsig_none)

lemma readInt_with_byteAt:
  "readInt n r = readInt_with (if rkind r = StringReader then string_byteAt else array_byteAt) n r"
proof -
  have "byteAt r = (if rkind r = StringReader then string_byteAt else array_byteAt) r"
    by (cases "rkind r") (simp_all add: byteAt_def)
  then show ?thesis by (simp add: readInt_def readInt_with_def)
qed

definition bytes_ok :: "int list \<Rightarrow> bool" where
  "bytes_ok d \<longleftrightarrow> (\<forall>b \<in> set d. 0 \<le> b \<and> b < 256)"

lemma readInt_in:
  assumes "reader_ok r" "n \<le> length (remaining r)" "bytes_ok (take n (remaining r))"
  shows "readInt n r = Inr (ToInt32 (le_value (take n (remaining r))), advance r (int n))"
  using array_rd.int_in [OF assms(1,2)] string_rd.int_in [OF assms(1,2)] assms(3)
  by (simp add: readInt_with_byteAt bytes_ok_def)

lemma readInt_out:
  "reader_ok r \<Longrightarrow> length (remaining r) < n \<Longrightarrow>
    readInt n r = Inl (EndOfData (rlength r) (rindex r + int n))"
  by (simp add: readInt_with_byteAt array_rd.int_out string_rd.int_out)

text \<open>
  Property C34. Within the data every reader reads the same: \<open>readInt\<close> of any size is the
  low 32 bits of the little-endian number, as a signed integer (so eight bytes lose their
  upper half and four bytes may turn negative), and the index moves past the bytes; beyond
  the end it throws.
\<close>

theorem readInt_value:
  assumes "reader_ok r" "bytes_ok (rdata r)"
  shows "readInt n r =
    (if n \<le> length (remaining r)
     then Inr (ToInt32 (le_value (take n (remaining r))), r\<lparr>rindex := rindex r + int n\<rparr>)
     else Inl (EndOfData (rlength r) (rindex r + int n)))"
proof -
  have "bytes_ok (take n (remaining r))"
    using assms(2) by (auto simp: bytes_ok_def remaining_def dest!: in_set_takeD in_set_dropD)
  then show ?thesis using readInt_in [OF assms(1), of n] readInt_out [OF assms(1), of n]
    by (simp add: advance_def)
qed

theorem readInt_value_witness:
  "readInt 8 (newReader Uint8ArrayReader [1, 0, 0, 128, 5, 0, 0, 0]) =
     Inr (- 2147483647, (newReader Uint8ArrayReader [1, 0, 0, 128, 5, 0, 0, 0])\<lparr>rindex := 8\<rparr>)"
  using readInt_value [of "newReader Uint8ArrayReader [1, 0, 0, 128, 5, 0, 0, 0]" 8]
  by (simp add: newReader_def reader_ok_def bytes_ok_def js_and_masks remaining_def ToInt32_def)

end
