(* ===== verification/Crc32.thy ===== *)
theory Crc32
  imports JsPrelude
begin

text \<open>
  \<open>lib/crc32\<close> of JSZip: the table, the two loops (arrays and strings), the wrapper that
  the rest of the code calls, and \<open>Crc32Probe\<close>, which feeds it chunk by chunk. The
  specification is the CRC register shifted bit by bit; the results are that the table
  loop computes it, that it detects every burst of up to 32 bits, and how the probe's
  running value relates to the CRC of the whole stream.
\<close>

section \<open>The code\<close>

text \<open>The inner loop of \<open>makeTable\<close>, \<open>k\<close> rounds of it.\<close>

fun table_rounds :: "nat \<Rightarrow> int \<Rightarrow> int" where
  "table_rounds 0 c = c"
| "table_rounds (Suc k) c =
     table_rounds k (if js_and c 1 \<noteq> 0 then js_xor 0xEDB88320 (js_ushr c 1) else js_ushr c 1)"

definition makeTable :: "int list" where
  "makeTable = map (\<lambda>n. table_rounds 8 (int n)) [0..<256]"

definition crc_step :: "int \<Rightarrow> int \<Rightarrow> int" where
  "crc_step crc b = js_xor (js_ushr crc 8) (makeTable ! nat (js_and (js_xor crc b) 255))"

text \<open>\<open>for (i = pos; i < end; i++)\<close> over an array, and over a string by \<open>charCodeAt\<close>.\<close>

definition crc32 :: "int \<Rightarrow> int list \<Rightarrow> nat \<Rightarrow> nat \<Rightarrow> int" where
  "crc32 crc buf len pos =
     js_xor (foldl (\<lambda>c i. crc_step c (buf ! i)) (js_xor crc (- 1)) [pos..<pos + len]) (- 1)"

definition crc32str :: "int \<Rightarrow> jsstr \<Rightarrow> nat \<Rightarrow> nat \<Rightarrow> int" where
  "crc32str crc str len pos =
     js_xor (foldl (\<lambda>c i. crc_step c (uint (str ! i))) (js_xor crc (- 1)) [pos..<pos + len]) (- 1)"

datatype crc_input = CrcUndefined | CrcString jsstr | CrcArray "int list"

text \<open>The second argument may be missing; \<open>crc|0\<close> makes that 0.\<close>

definition crc_or_zero :: "int option \<Rightarrow> int" where
  "crc_or_zero crc = (case crc of None \<Rightarrow> 0 | Some c \<Rightarrow> js_or c 0)"

fun crc32wrapper :: "crc_input \<Rightarrow> int option \<Rightarrow> int" where
  "crc32wrapper CrcUndefined crc = 0"
| "crc32wrapper (CrcString s) crc =
     (if length s = 0 then 0 else crc32str (crc_or_zero crc) s (length s) 0)"
| "crc32wrapper (CrcArray xs) crc =
     (if length xs = 0 then 0 else crc32 (crc_or_zero crc) xs (length xs) 0)"

text \<open>\<open>Crc32Probe.processChunk\<close> over the chunks of a stream, from \<open>streamInfo.crc32 = 0\<close>.\<close>

definition crc_probe_chunk :: "int \<Rightarrow> crc_input \<Rightarrow> int" where
  "crc_probe_chunk crc chunk = crc32wrapper chunk (Some crc)"

definition crc_probe :: "crc_input list \<Rightarrow> int" where
  "crc_probe chunks = foldl crc_probe_chunk 0 chunks"

section \<open>The specification: a shift register over GF(2)\<close>

definition crc_bit :: "32 word \<Rightarrow> 32 word" where
  "crc_bit c = drop_bit 1 c XOR (if bit c 0 then 0xEDB88320 else 0)"

definition crc_byte :: "32 word \<Rightarrow> byte \<Rightarrow> 32 word" where
  "crc_byte c b = (crc_bit ^^ 8) (c XOR ucast b)"

definition crc_spec :: "32 word \<Rightarrow> byte list \<Rightarrow> 32 word" where
  "crc_spec c bs = NOT (foldl crc_byte (NOT c) bs)"

lemma crc_bit_xor: "crc_bit (x XOR y) = crc_bit x XOR crc_bit y"
  by (simp add: crc_bit_def bit_xor_iff drop_bit_xor ac_simps)

lemma crc_bits_xor: "(crc_bit ^^ k) (x XOR y) = (crc_bit ^^ k) x XOR (crc_bit ^^ k) y"
  by (induction k) (simp_all add: crc_bit_xor)

lemma crc_bits_clear: "take_bit k x = 0 \<Longrightarrow> (crc_bit ^^ k) x = drop_bit k x"
proof (induction k)
  case (Suc k)
  have "take_bit k x = take_bit k (take_bit (Suc k) x)" by (simp add: take_bit_take_bit)
  with Suc have t: "take_bit k x = 0" by simp
  have "bit (take_bit (Suc k) x) k \<longleftrightarrow> bit x k" by (simp add: bit_take_bit_iff)
  with Suc have b: "\<not> bit x k" by simp
  have "(crc_bit ^^ Suc k) x = crc_bit (drop_bit k x)" using Suc.IH [OF t] by simp
  also have "\<dots> = drop_bit 1 (drop_bit k x)"
    using b by (simp add: crc_bit_def bit_drop_bit_eq del: bit_0)
  finally show ?case by simp
qed simp

lemma crc_bits_split:
  "(crc_bit ^^ k) x = drop_bit k x XOR (crc_bit ^^ k) (take_bit k x)"
proof -
  have "x = (x XOR take_bit k x) XOR take_bit k x" by (simp add: xor.assoc)
  then have "(crc_bit ^^ k) x =
      (crc_bit ^^ k) (x XOR take_bit k x) XOR (crc_bit ^^ k) (take_bit k x)"
    by (metis crc_bits_xor)
  moreover have "take_bit k (x XOR take_bit k x) = 0" by (simp add: take_bit_xor)
  moreover have "drop_bit k (x XOR take_bit k x) = drop_bit k x"
    by (simp add: drop_bit_xor drop_bit_take_bit)
  ultimately show ?thesis by (simp add: crc_bits_clear)
qed

section \<open>The table loop computes the specification\<close>

lemma w32_table_round:
  "w32 (if js_and c 1 \<noteq> 0 then js_xor 0xEDB88320 (js_ushr c 1) else js_ushr c 1) = crc_bit (w32 c)"
proof -
  have "bit (w32 c) 0 \<longleftrightarrow> bit c 0"
    by (simp only: bit_word_of_int_iff) simp
  then have "js_and c 1 \<noteq> 0 \<longleftrightarrow> bit (w32 c) 0"
    by (simp add: js_and_masks bit_0 odd_iff_mod_2_eq_one)
  then show ?thesis by (auto simp: crc_bit_def js_word xor.commute)
qed

lemma w32_table_rounds: "w32 (table_rounds k c) = (crc_bit ^^ k) (w32 c)"
proof (induction k arbitrary: c)
  case (Suc k)
  then show ?case
    by (simp only: table_rounds.simps w32_table_round funpow_Suc_right comp_apply)
qed simp

lemma w32_crc_step: "w32 (crc_step c b) = crc_byte (w32 c) (word_of_int b)"
proof -
  let ?x = "w32 c XOR w32 b"
  let ?k = "js_and (js_xor c b) 255"
  have k: "0 \<le> ?k" "?k < 256" by (simp_all add: js_and_masks)
  have "w32 ?k = take_bit 8 ?x"
    using w32_js_and [of "js_xor c b" 255] by (simp add: js_word take_bit_eq_mask mask_eq_exp_minus_1)
  then have t: "w32 (makeTable ! nat ?k) = (crc_bit ^^ 8) (take_bit 8 ?x)"
    using k by (simp add: makeTable_def w32_table_rounds nat_less_iff nth_upt)
  have u: "ucast (word_of_int b :: byte) = take_bit 8 (w32 b)"
    by (rule bit_word_eqI) (auto simp: bit_simps bit_word_of_int_iff)
  have "crc_byte (w32 c) (word_of_int b) =
      drop_bit 8 (w32 c XOR take_bit 8 (w32 b)) XOR (crc_bit ^^ 8) (take_bit 8 ?x)"
    unfolding crc_byte_def u by (subst crc_bits_split) (simp add: take_bit_xor)
  also have "\<dots> = drop_bit 8 (w32 c) XOR (crc_bit ^^ 8) (take_bit 8 ?x)"
    by (simp add: drop_bit_xor drop_bit_take_bit)
  finally show ?thesis by (simp add: crc_step_def w32_js_xor w32_js_ushr t)
qed

lemma w32_crc_loop:
  "w32 (foldl (\<lambda>c i. crc_step c (xs ! i)) c [0..<length xs]) = foldl crc_byte (w32 c) (map word_of_int xs)"
proof (induction xs rule: rev_induct)
  case (snoc x xs)
  have "foldl (\<lambda>c i. crc_step c ((xs @ [x]) ! i)) c [0..<length xs] =
      foldl (\<lambda>c i. crc_step c (xs ! i)) c [0..<length xs]"
    by (rule foldl_cong) (auto simp: nth_append)
  then show ?case using snoc by (simp add: w32_crc_step)
qed simp

lemma w32_minus_1: "w32 (js_xor x (- 1)) = NOT (w32 x)"
  by (simp add: js_word)

lemma w32_crc32: "w32 (crc32 c xs (length xs) 0) = crc_spec (w32 c) (map word_of_int xs)"
  by (simp add: crc32_def crc_spec_def w32_crc_loop w32_minus_1 del: upt_Suc)

lemma foldl_upt_nth:
  "foldl (\<lambda>c i. f c (g (xs ! i))) c [0..<length xs] = foldl f c (map g xs)"
proof (induction xs rule: rev_induct)
  case (snoc x xs)
  have "foldl (\<lambda>c i. f c (g ((xs @ [x]) ! i))) c [0..<length xs] =
      foldl (\<lambda>c i. f c (g (xs ! i))) c [0..<length xs]"
    by (rule foldl_cong) (auto simp: nth_append)
  then show ?case using snoc by simp
qed simp

lemma crc32str_crc32: "crc32str c s (length s) 0 = crc32 c (map uint s) (length s) 0"
  using foldl_upt_nth [of crc_step uint s] foldl_upt_nth [of crc_step id "map uint s"]
  by (simp add: crc32_def crc32str_def)

lemma crc32_sint: "crc32 c xs (length xs) 0 = sint (crc_spec (w32 c) (map word_of_int xs))"
proof -
  have "crc32 c xs (length xs) 0 = sint (w32 (crc32 c xs (length xs) 0))"
    by (simp add: crc32_def js_xor_sint)
  then show ?thesis by (simp only: w32_crc32)
qed

text \<open>The bytes that the wrapper's input stands for, and when it counts as empty.\<close>

fun crc_bytes :: "crc_input \<Rightarrow> byte list" where
  "crc_bytes CrcUndefined = []"
| "crc_bytes (CrcString s) = map (\<lambda>c. word_of_int (uint c)) s"
| "crc_bytes (CrcArray xs) = map word_of_int xs"

lemma w32_crc_or_zero: "w32 (crc_or_zero c) = (case c of None \<Rightarrow> 0 | Some c \<Rightarrow> w32 c)"
  by (simp add: crc_or_zero_def w32_js_or split: option.split)

lemma crc32wrapper_spec:
  "crc32wrapper i c =
     (if crc_bytes i = [] then 0
      else sint (crc_spec (case c of None \<Rightarrow> 0 | Some c \<Rightarrow> w32 c) (crc_bytes i)))"
proof (cases i)
  case (CrcString s)
  then show ?thesis
    using crc32_sint [of _ "map uint s"]
    by (simp add: crc32str_crc32 w32_crc_or_zero comp_def)
next
  case (CrcArray xs)
  then show ?thesis by (simp add: crc32_sint w32_crc_or_zero)
qed simp

lemma crc_spec_append: "crc_spec c (a @ b) = crc_spec (crc_spec c a) b"
  by (simp add: crc_spec_def)

lemma crc_probe_chunk_spec:
  "crc_bytes i \<noteq> [] \<Longrightarrow> crc_probe_chunk c i = sint (crc_spec (w32 c) (crc_bytes i))"
  by (simp add: crc_probe_chunk_def crc32wrapper_spec)

lemma crc_probe_nonempty:
  "\<forall>i \<in> set is. crc_bytes i \<noteq> [] \<Longrightarrow>
   foldl crc_probe_chunk (sint c) is = sint (crc_spec c (concat (map crc_bytes is)))"
proof (induction "is" arbitrary: c)
  case (Cons i "is")
  have "w32 (sint c) = c" by simp
  with Cons show ?case by (simp add: crc_probe_chunk_spec crc_spec_append)
qed (simp add: crc_spec_def)

section \<open>Error detection\<close>

lemma crc_bit_inj: "crc_bit x = crc_bit y \<Longrightarrow> x = y"
proof (rule bit_word_eqI)
  assume e: "crc_bit x = crc_bit y"
  have top: "bit (crc_bit z) 31 \<longleftrightarrow> bit z 0" for z
    by (auto simp: crc_bit_def bit_xor_iff bit_drop_bit_eq bit_numeral_rec dest: bit_imp_le_length)
  from e top have b0: "bit x 0 \<longleftrightarrow> bit y 0" by metis
  with e have d: "drop_bit 1 x = drop_bit 1 y"
    by (simp add: crc_bit_def word_xor_right_cancel)
  fix n
  show "bit x n \<longleftrightarrow> bit y n"
  proof (cases n)
    case (Suc m)
    then show ?thesis using d by (metis Suc_eq_plus1_left bit_drop_bit_eq comp_apply)
  qed (use b0 in simp)
qed

lemma crc_bits_inj: "(crc_bit ^^ k) x = (crc_bit ^^ k) y \<Longrightarrow> x = y"
  by (induction k) (auto dest: crc_bit_inj)

text \<open>Four bytes fed one by one act as one 32-bit word, low byte first.\<close>

primrec le_word :: "byte list \<Rightarrow> 32 word" where
  "le_word [] = 0"
| "le_word (b # bs) = ucast b XOR push_bit 8 (le_word bs)"

lemma bit_byte: "bit (b :: byte) n \<Longrightarrow> n < 8"
  by (auto dest: bit_imp_le_length)

lemma bit_ucast_byte: "bit (ucast (b :: byte) :: 32 word) n \<Longrightarrow> n < 8"
  by (auto simp: bit_ucast_iff dest: bit_byte)

lemma bit_le_word: "bit (le_word bs) n \<Longrightarrow> n < 8 * length bs"
proof (induction bs arbitrary: n)
  case (Cons b bs)
  show ?case
  proof (cases "n < 8")
    case False
    then have "\<not> bit (ucast b :: 32 word) n" using bit_ucast_byte by blast
    then have "bit (push_bit 8 (le_word bs)) n" using Cons.prems by (simp add: bit_xor_iff)
    then have "bit (le_word bs) (n - 8)" by (simp add: bit_push_bit_iff)
    then have "n - 8 < 8 * length bs" by (rule Cons.IH)
    then show ?thesis by simp
  qed simp
qed simp

lemma drop_push_le_word: "length bs \<le> 3 \<Longrightarrow> drop_bit 8 (push_bit 8 (le_word bs)) = le_word bs"
proof (rule bit_word_eqI)
  fix n assume "length bs \<le> 3"
  then show "bit (drop_bit 8 (push_bit 8 (le_word bs))) n \<longleftrightarrow> bit (le_word bs) n"
    using bit_le_word [of bs n] by (auto simp: bit_simps)
qed

lemma take_push_8: "take_bit 8 (push_bit 8 (w :: 32 word)) = 0"
  by (rule bit_word_eqI) (auto simp: bit_simps)

lemma drop_ucast_8: "drop_bit 8 (ucast (b :: byte) :: 32 word) = 0"
  by (intro bit_word_eqI) (auto simp: bit_simps dest: bit_byte)

lemma le_word_inj:
  "length as = length bs \<Longrightarrow> length bs \<le> 4 \<Longrightarrow> le_word as = le_word bs \<Longrightarrow> as = bs"
proof (induction as bs rule: list_induct2)
  case (Cons a as b bs)
  have d: "drop_bit 8 (le_word (a # as)) = le_word as" "drop_bit 8 (le_word (b # bs)) = le_word bs"
    using Cons.hyps Cons.prems(1) by (simp_all add: drop_bit_xor drop_ucast_8 drop_push_le_word)
  have 1: "le_word as = le_word bs" by (simp only: d(1) [symmetric] Cons.prems(2) d(2))
  then have "(ucast a :: 32 word) = ucast b"
    using Cons.prems by (simp add: word_xor_right_cancel)
  then have "uint (ucast a :: 32 word) = uint (ucast b :: 32 word)" by simp
  then have "a = b" by (simp add: unsigned_ucast_eq bintr_uint word_uint_eq_iff)
  then show ?case using Cons.IH Cons.prems 1 by simp
qed simp

lemma crc_foldl_le_word:
  "length bs \<le> 4 \<Longrightarrow> foldl crc_byte c bs = (crc_bit ^^ (8 * length bs)) (c XOR le_word bs)"
proof (induction bs arbitrary: c)
  case (Cons b bs)
  have "(crc_bit ^^ 8) (push_bit 8 (le_word bs)) = le_word bs"
    using Cons.prems drop_push_le_word [of bs] by (simp add: crc_bits_clear take_push_8)
  then have e: "crc_byte c b XOR le_word bs = (crc_bit ^^ 8) (c XOR le_word (b # bs))"
    by (simp add: crc_byte_def crc_bits_xor xor.assoc)
  have "foldl crc_byte c (b # bs) = (crc_bit ^^ (8 * length bs)) (crc_byte c b XOR le_word bs)"
    using Cons by simp
  also have "\<dots> = (crc_bit ^^ (8 * length bs + 8)) (c XOR le_word (b # bs))"
    by (simp only: e funpow_add comp_apply)
  finally show ?case by (simp add: add.commute)
qed simp

lemma crc_byte_inj: "crc_byte c b = crc_byte d b \<Longrightarrow> c = d"
  using crc_bits_inj word_xor_right_cancel unfolding crc_byte_def by blast

lemma crc_foldl_inj: "foldl crc_byte c bs = foldl crc_byte d bs \<Longrightarrow> c = d"
  by (induction bs arbitrary: c d) (auto dest: crc_byte_inj)

lemma crc_spec_burst:
  assumes "length d = length e" "length e \<le> 4" "d \<noteq> e"
  shows "crc_spec c (pre @ d @ suf) \<noteq> crc_spec c (pre @ e @ suf)"
proof
  let ?c = "foldl crc_byte (NOT c) pre"
  assume "crc_spec c (pre @ d @ suf) = crc_spec c (pre @ e @ suf)"
  then have "foldl crc_byte (foldl crc_byte ?c d) suf = foldl crc_byte (foldl crc_byte ?c e) suf"
    by (simp add: crc_spec_def)
  then have "foldl crc_byte ?c d = foldl crc_byte ?c e" by (rule crc_foldl_inj)
  then have "?c XOR le_word d = ?c XOR le_word e"
    using assms by (auto simp: crc_foldl_le_word dest: crc_bits_inj)
  then have "le_word d = le_word e" by (simp add: xor.commute [of ?c] word_xor_right_cancel)
  then show False using assms le_word_inj by blast
qed

section \<open>Results\<close>

text \<open>
  Property C19. The table-driven loop computes the bitwise CRC-32 (reflected polynomial
  \<open>0xEDB88320\<close>, register and result complemented), read as a signed 32-bit integer.
\<close>

theorem crc32_table_correct:
  "crc32 c (map uint bs) (length bs) 0 = sint (crc_spec (w32 c) bs)"
  using crc32_sint [of c "map uint bs"] by (simp add: comp_def)

text \<open>
  Property C20. What the CRC check detects: two contents of the same length that differ only inside
  a window of at most four bytes never have the same \<open>crc32\<close>.
\<close>

theorem crc32_detects_bursts:
  fixes d e pre suf :: "byte list"
  assumes "length d = length e" and "length e \<le> 4" and "d \<noteq> e"
  shows "crc32wrapper (CrcArray (map uint (pre @ d @ suf))) None
       \<noteq> crc32wrapper (CrcArray (map uint (pre @ e @ suf))) None"
proof -
  have "d \<noteq> []" "e \<noteq> []" using assms by auto
  then show ?thesis
    using crc_spec_burst [OF assms, of 0 pre suf]
    by (simp add: crc32wrapper_spec comp_def word_eq_iff_signed [symmetric])
qed

theorem crc32_detects_bursts_witness:
  "crc32wrapper (CrcArray (map uint ([1] @ [2, 3] @ [4 :: byte]))) None
     \<noteq> crc32wrapper (CrcArray (map uint ([1] @ [2, 7] @ [4 :: byte]))) None"
  by (rule crc32_detects_bursts) simp_all

text \<open>
  Property C31. \<open>Crc32Probe\<close> over a stream of non-empty chunks ends with the CRC of the whole
  content, however it was cut.
\<close>

theorem crc_probe_whole:
  assumes "\<forall>i \<in> set chunks. crc_bytes i \<noteq> []"
  shows "crc_probe chunks = sint (crc_spec 0 (concat (map crc_bytes chunks)))"
  using crc_probe_nonempty [OF assms, of 0] by (simp add: crc_probe_def)

theorem crc_probe_whole_witness:
  "crc_probe [CrcArray [49, 50], CrcString (js ''3'')] = sint (crc_spec 0 [49, 50, 51])"
  using crc_probe_whole [of "[CrcArray [49, 50], CrcString (js ''3'')]"] by (simp add: js_def)

text \<open>
  An empty chunk does not leave the running value alone: the wrapper answers 0 for it,
  so the probe forgets everything before the last empty chunk.
\<close>

lemma crc_probe_empty_resets:
  assumes "crc_bytes i = []"
  shows "crc_probe (before @ [i] @ after) = crc_probe after"
  using assms by (simp add: crc_probe_def crc_probe_chunk_def crc32wrapper_spec)

lemma crc_bit_numeral:
  "crc_bit (numeral n) = drop_bit 1 (numeral n) XOR (if bit (numeral n :: 32 word) 0 then 0xEDB88320 else 0)"
  "crc_bit (- numeral n) = drop_bit 1 (- numeral n) XOR (if bit (- numeral n :: 32 word) 0 then 0xEDB88320 else 0)"
  by (simp_all only: crc_bit_def)

lemma crc_bits_8: "(crc_bit ^^ 8) c = crc_bit (crc_bit (crc_bit (crc_bit (crc_bit (crc_bit (crc_bit (crc_bit c)))))))"
  by (simp add: numeral_eq_Suc)

lemma crc32_check_value: "crc32wrapper (CrcString (js ''123456789'')) None = - 873187034"
  by (simp add: crc32wrapper_spec js_def crc_spec_def crc_byte_def crc_bits_8 crc_bit_numeral)

end
