(* ===== verification/Utf8.thy ===== *)
theory Utf8
  imports JsPrelude
begin

text \<open>
  \<open>lib/utf8\<close> of JSZip: \<open>string2buf\<close> and \<open>buf2string\<close> between UTF-16 strings and
  UTF-8 bytes, \<open>utf8border\<close>, and \<open>Utf8DecodeWorker\<close>, which decodes a stream of
  chunks. The platform is a browser: \<open>support.uint8array\<close> holds and
  \<open>support.nodebuffer\<close> does not, so \<open>utf8encode\<close> is \<open>string2buf\<close> and
  \<open>utf8decode\<close> is \<open>buf2string\<close> (Node's \<open>Buffer\<close> is not under src/).
\<close>

section \<open>Encoding\<close>

text \<open>One turn of the loops over the string: the code point at \<open>m_pos\<close> and what follows.\<close>

fun next_cp :: "jsstr \<Rightarrow> int \<times> jsstr" where
  "next_cp [] = (0, [])"
| "next_cp [u] = (uint u, [])"
| "next_cp (u # u2 # r) =
     (let c = uint u; c2 = uint u2
      in if js_and c 0xfc00 = 0xd800 \<and> js_and c2 0xfc00 = 0xdc00
         then (0x10000 + js_shl (c - 0xd800) 10 + (c2 - 0xdc00), r)
         else (c, u2 # r))"

lemma next_cp_length: "s \<noteq> [] \<Longrightarrow> length (snd (next_cp s)) < length s"
  by (induction s rule: next_cp.induct) (auto simp: Let_def)

definition cp_len :: "int \<Rightarrow> nat" where
  "cp_len c = (if c < 0x80 then 1 else if c < 0x800 then 2 else if c < 0x10000 then 3 else 4)"

function count_binary_size :: "jsstr \<Rightarrow> nat" where
  "count_binary_size s =
     (if s = [] then 0 else cp_len (fst (next_cp s)) + count_binary_size (snd (next_cp s)))"
  by pat_completeness auto
termination by (relation "measure length") (auto simp: next_cp_length)

definition cp_bytes :: "int \<Rightarrow> int list" where
  "cp_bytes c =
     (if c < 0x80 then [c]
      else if c < 0x800 then
        [js_or 0xC0 (js_ushr c 6), js_or 0x80 (js_and c 0x3f)]
      else if c < 0x10000 then
        [js_or 0xE0 (js_ushr c 12), js_or 0x80 (js_and (js_ushr c 6) 0x3f),
         js_or 0x80 (js_and c 0x3f)]
      else
        [js_or 0xf0 (js_ushr c 18), js_or 0x80 (js_and (js_ushr c 12) 0x3f),
         js_or 0x80 (js_and (js_ushr c 6) 0x3f), js_or 0x80 (js_and c 0x3f)])"

text \<open>The second loop runs until \<open>buf_len\<close> bytes are written.\<close>

function convert_loop :: "nat \<Rightarrow> nat \<Rightarrow> jsstr \<Rightarrow> int list" where
  "convert_loop buf_len i s =
     (if i < buf_len \<and> s \<noteq> []
      then let bs = cp_bytes (fst (next_cp s))
           in bs @ convert_loop buf_len (i + length bs) (snd (next_cp s))
      else [])"
  by pat_completeness auto
termination by (relation "measure (\<lambda>(n, i, s). length s)") (auto simp: next_cp_length)

definition string2buf :: "jsstr \<Rightarrow> byte list" where
  "string2buf str = map word_of_int (convert_loop (count_binary_size str) 0 str)"

definition utf8encode :: "jsstr \<Rightarrow> byte list" where
  "utf8encode str = string2buf str"

section \<open>Decoding\<close>

definition utf8len_table :: "nat list" where
  "utf8len_table =
     (map (\<lambda>i. if i \<ge> 252 then 6 else if i \<ge> 248 then 5 else if i \<ge> 240 then 4
               else if i \<ge> 224 then 3 else if i \<ge> 192 then 2 else 1) [0..<256])[254 := 1]"

definition utf8len :: "byte \<Rightarrow> nat" where
  "utf8len b = utf8len_table ! unat b"

text \<open>\<open>while (c_len > 1 && i < len)\<close>: join the rest of a sequence.\<close>

fun join_rest :: "nat \<Rightarrow> int \<Rightarrow> byte list \<Rightarrow> nat \<times> int \<times> byte list" where
  "join_rest c_len c [] = (c_len, c, [])"
| "join_rest c_len c (b # bs) =
     (if c_len > 1 then join_rest (c_len - 1) (js_or (js_shl c 6) (js_and (uint b) 0x3f)) bs
      else (c_len, c, b # bs))"

lemma join_rest_length: "length (snd (snd (join_rest n c bs))) \<le> length bs"
  by (induction n c bs rule: join_rest.induct) auto

definition lead_mask :: "nat \<Rightarrow> int" where
  "lead_mask c_len = (if c_len = 2 then 0x1f else if c_len = 3 then 0x0f else 0x07)"

definition utf16_of :: "int \<Rightarrow> int list" where
  "utf16_of c =
     (if c < 0x10000 then [c]
      else let c = c - 0x10000
           in [js_or 0xd800 (js_and (js_shr c 10) 0x3ff), js_or 0xdc00 (js_and c 0x3ff)])"

function decode_loop :: "byte list \<Rightarrow> int list" where
  "decode_loop [] = []"
| "decode_loop (b # bs) =
     (if uint b < 0x80 then uint b # decode_loop bs
      else let c_len = utf8len b
           in if c_len > 4 then 0xfffd # decode_loop (drop (c_len - 1) bs)
              else let r = join_rest c_len (js_and (uint b) (lead_mask c_len)) bs
                   in (if fst r > 1 then [0xfffd] else utf16_of (fst (snd r)))
                        @ decode_loop (snd (snd r)))"
  by pat_completeness auto
termination
  by (relation "measure length") (auto simp: join_rest_length le_imp_less_Suc)

text \<open>\<open>String.fromCharCode\<close> keeps the low 16 bits.\<close>

definition buf2string :: "byte list \<Rightarrow> jsstr" where
  "buf2string buf = map word_of_int (decode_loop buf)"

definition utf8decode :: "byte list \<Rightarrow> jsstr" where
  "utf8decode buf = buf2string buf"

section \<open>Cutting a stream\<close>

fun border_scan :: "byte list \<Rightarrow> nat \<Rightarrow> int" where
  "border_scan buf 0 = - 1"
| "border_scan buf (Suc pos) =
     (if js_and (uint (buf ! pos)) 0xC0 = 0x80 then border_scan buf pos else int pos)"

text \<open>The second argument may be missing (or 0), and is then the length of the buffer.\<close>

definition utf8border :: "byte list \<Rightarrow> nat \<Rightarrow> nat" where
  "utf8border buf max0 =
     (let max1 = (if max0 = 0 then length buf else max0);
          max2 = (if max1 > length buf then length buf else max1);
          pos = border_scan buf max2
      in if pos < 0 then max2
         else if pos = 0 then max2
         else if nat pos + utf8len (buf ! nat pos) > max2 then nat pos else max2)"

text \<open>The worker's state is \<open>leftOver\<close>; a chunk gives the next state and the text pushed.\<close>

definition decode_worker_chunk :: "byte list option \<Rightarrow> byte list \<Rightarrow> byte list option \<times> jsstr" where
  "decode_worker_chunk leftOver chunk =
     (let data = (case leftOver of None \<Rightarrow> chunk | Some l \<Rightarrow> if l = [] then chunk else l @ chunk);
          leftOver = (case leftOver of None \<Rightarrow> None | Some l \<Rightarrow> if l = [] then Some l else None);
          nextBoundary = utf8border data 0
      in if nextBoundary \<noteq> length data
         then (Some (drop nextBoundary data), utf8decode (take nextBoundary data))
         else (leftOver, utf8decode data))"

definition decode_worker_flush :: "byte list option \<Rightarrow> jsstr" where
  "decode_worker_flush leftOver =
     (case leftOver of None \<Rightarrow> [] | Some l \<Rightarrow> if l = [] then [] else utf8decode l)"

fun decode_worker :: "byte list option \<Rightarrow> byte list list \<Rightarrow> jsstr" where
  "decode_worker leftOver [] = decode_worker_flush leftOver"
| "decode_worker leftOver (chunk # chunks) =
     (let (leftOver', text) = decode_worker_chunk leftOver chunk
      in text @ decode_worker leftOver' chunks)"

text \<open>\<open>Utf8EncodeWorker\<close> keeps no state: it encodes each chunk alone.\<close>

definition encode_worker_chunk :: "jsstr \<Rightarrow> byte list" where
  "encode_worker_chunk chunk = utf8encode chunk"

definition encode_worker :: "jsstr list \<Rightarrow> byte list" where
  "encode_worker chunks = concat (map encode_worker_chunk chunks)"

declare count_binary_size.simps [simp del] convert_loop.simps [simp del]

section \<open>Tests on the leading bits\<close>

lemma char_range: "0 \<le> uint (u :: jschar)" "uint u < 65536"
  using uint_lt2p [of u] by simp_all

lemma high_surrogate_iff:
  "0 \<le> c \<Longrightarrow> c < 65536 \<Longrightarrow> js_and c 0xfc00 = 0xd800 \<longleftrightarrow> 0xd800 \<le> c \<and> c < 0xdc00"
  and low_surrogate_iff:
  "0 \<le> c \<Longrightarrow> c < 65536 \<Longrightarrow> js_and c 0xfc00 = 0xdc00 \<longleftrightarrow> 0xdc00 \<le> c \<and> c < 0xe000"
proof -
  assume c: "0 \<le> c" "c < 65536"
  have "0 \<le> c div 1024" "c div 1024 < 64" using c div_bounds [of c 64 1024] by auto
  then have "c div 1024 mod 64 = c div 1024" by (rule mod_pos_pos_trivial)
  then have j: "js_and c 0xfc00 = c div 1024 * 1024"
    using js_and_high [of c 10 6] c by simp
  show "js_and c 0xfc00 = 0xd800 \<longleftrightarrow> 0xd800 \<le> c \<and> c < 0xdc00"
    using div_eq_iff_bounds [of 1024 c 54] unfolding j by auto
  show "js_and c 0xfc00 = 0xdc00 \<longleftrightarrow> 0xdc00 \<le> c \<and> c < 0xe000"
    using div_eq_iff_bounds [of 1024 c 55] unfolding j by auto
qed

lemma continuation_iff:
  "0 \<le> b \<Longrightarrow> b < 256 \<Longrightarrow> js_and b 0xC0 = 0x80 \<longleftrightarrow> 0x80 \<le> b \<and> b < 0xC0"
proof -
  assume b: "0 \<le> b" "b < 256"
  have "0 \<le> b div 64" "b div 64 < 4" using b div_bounds [of b 4 64] by auto
  then have "b div 64 mod 4 = b div 64" by (rule mod_pos_pos_trivial)
  then have j: "js_and b 0xC0 = b div 64 * 64"
    using js_and_high [of b 6 2] b by simp
  show ?thesis using div_eq_iff_bounds [of 64 b 2] unfolding j by auto
qed

lemma utf8len_cases:
  "uint b < 0xC0 \<Longrightarrow> utf8len b = 1"
  "0xC0 \<le> uint b \<Longrightarrow> uint b < 0xE0 \<Longrightarrow> utf8len b = 2"
  "0xE0 \<le> uint b \<Longrightarrow> uint b < 0xF0 \<Longrightarrow> utf8len b = 3"
  "0xF0 \<le> uint b \<Longrightarrow> uint b < 0xF8 \<Longrightarrow> utf8len b = 4"
proof -
  define n where "n = unat b"
  have n: "n < 256" using unsigned_less [of b, where ?'a = nat] by (simp add: n_def)
  have u: "uint b = int n" by (simp add: n_def)
  have "utf8len b = (if n = 254 then 1 else if n \<ge> 252 then 6
      else if n \<ge> 248 then 5 else if n \<ge> 240 then 4 else if n \<ge> 224 then 3
      else if n \<ge> 192 then 2 else 1)"
    unfolding utf8len_def utf8len_table_def n_def [symmetric]
    by (subst nth_list_update) (use n in \<open>simp_all del: upt_rec_numeral\<close>)
  then show "uint b < 0xC0 \<Longrightarrow> utf8len b = 1"
    "0xC0 \<le> uint b \<Longrightarrow> uint b < 0xE0 \<Longrightarrow> utf8len b = 2"
    "0xE0 \<le> uint b \<Longrightarrow> uint b < 0xF0 \<Longrightarrow> utf8len b = 3"
    "0xF0 \<le> uint b \<Longrightarrow> uint b < 0xF8 \<Longrightarrow> utf8len b = 4"
    unfolding u by simp_all
qed

section \<open>Code points and their bytes\<close>

text \<open>A byte sequence built from six-bit groups, and that it is read back.\<close>

definition seq2 :: "int \<Rightarrow> int \<Rightarrow> int list" where
  "seq2 q1 q2 = [192 + q1, 128 + q2]"
definition seq3 :: "int \<Rightarrow> int \<Rightarrow> int \<Rightarrow> int list" where
  "seq3 q1 q2 q3 = [224 + q1, 128 + q2, 128 + q3]"
definition seq4 :: "int \<Rightarrow> int \<Rightarrow> int \<Rightarrow> int \<Rightarrow> int list" where
  "seq4 q1 q2 q3 q4 = [240 + q1, 128 + q2, 128 + q3, 128 + q4]"

lemma prefix_bits:
  "0 \<le> q \<Longrightarrow> q < 64 \<Longrightarrow> js_or 0x80 q = 128 + q"
  "0 \<le> q \<Longrightarrow> q < 64 \<Longrightarrow> js_or 0xC0 q = 192 + q"
  "0 \<le> q \<Longrightarrow> q < 16 \<Longrightarrow> js_or 0xE0 q = 224 + q"
  "0 \<le> q \<Longrightarrow> q < 8 \<Longrightarrow> js_or 0xf0 q = 240 + q"
  "0 \<le> q \<Longrightarrow> q < 1024 \<Longrightarrow> js_or 0xd800 q = 0xd800 + q"
  "0 \<le> q \<Longrightarrow> q < 1024 \<Longrightarrow> js_or 0xdc00 q = 0xdc00 + q"
  using js_or_disjoint [of q 6 2] js_or_disjoint [of q 6 3] js_or_disjoint [of q 4 14]
    js_or_disjoint [of q 3 30] js_or_disjoint [of q 10 54] js_or_disjoint [of q 10 55]
  by simp_all

lemma six_bits: "0 \<le> c mod 64" "c mod (64 :: int) < 64" by simp_all

lemma cp_bytes_branches:
  "0x80 \<le> c \<Longrightarrow> c < 0x800 \<Longrightarrow>
     cp_bytes c = [js_or 0xC0 (js_ushr c 6), js_or 0x80 (js_and c 0x3f)]"
  "0x800 \<le> c \<Longrightarrow> c < 0x10000 \<Longrightarrow>
     cp_bytes c = [js_or 0xE0 (js_ushr c 12), js_or 0x80 (js_and (js_ushr c 6) 0x3f),
       js_or 0x80 (js_and c 0x3f)]"
  "0x10000 \<le> c \<Longrightarrow>
     cp_bytes c = [js_or 0xf0 (js_ushr c 18), js_or 0x80 (js_and (js_ushr c 12) 0x3f),
       js_or 0x80 (js_and (js_ushr c 6) 0x3f), js_or 0x80 (js_and c 0x3f)]"
  by (simp_all add: cp_bytes_def)

lemma cp_bytes_seq:
  assumes "0 \<le> c" "c < 0x110000"
  shows "c < 0x80 \<Longrightarrow> cp_bytes c = [c]"
    "0x80 \<le> c \<Longrightarrow> c < 0x800 \<Longrightarrow> cp_bytes c = seq2 (c div 64) (c mod 64)"
    "0x800 \<le> c \<Longrightarrow> c < 0x10000 \<Longrightarrow>
       cp_bytes c = seq3 (c div 64 div 64) (c div 64 mod 64) (c mod 64)"
    "0x10000 \<le> c \<Longrightarrow>
       cp_bytes c = seq4 (c div 64 div 64 div 64) (c div 64 div 64 mod 64) (c div 64 mod 64) (c mod 64)"
proof -
  have u: "js_ushr c 6 = c div 64" "js_ushr c 12 = c div 64 div 64"
    "js_ushr c 18 = c div 64 div 64 div 64"
    using js_ushr_div [of c 6] js_ushr_div [of c 12] js_ushr_div [of c 18] assms
    by (simp_all add: div_mult2_eq [symmetric])
  note p = prefix_bits(1) [OF six_bits]
  have n: "0 \<le> c div 64" "0 \<le> c div 64 div 64" "0 \<le> c div 64 div 64 div 64"
    by (intro div_nonneg; simp add: assms)+
  show "c < 0x80 \<Longrightarrow> cp_bytes c = [c]" by (simp add: cp_bytes_def)
  show "cp_bytes c = seq2 (c div 64) (c mod 64)" if "0x80 \<le> c" "c < 0x800"
  proof -
    have "c div 64 < 64" by (rule div_upto [OF assms(1) less_trans [OF that(2)]]) simp_all
    from prefix_bits(2) [OF n(1) this] show ?thesis
      by (simp only: cp_bytes_branches(1) [OF that] seq2_def u js_and_masks p)
  qed
  show "cp_bytes c = seq3 (c div 64 div 64) (c div 64 mod 64) (c mod 64)"
    if "0x800 \<le> c" "c < 0x10000"
  proof -
    have "c div 64 < 1024" by (rule div_upto [OF assms(1) that(2)]) simp_all
    then have "c div 64 div 64 < 16" by (rule div_upto [OF n(1)]) simp_all
    from prefix_bits(3) [OF n(2) this] show ?thesis
      by (simp only: cp_bytes_branches(2) [OF that] seq3_def u js_and_masks p)
  qed
  show "cp_bytes c = seq4 (c div 64 div 64 div 64) (c div 64 div 64 mod 64) (c div 64 mod 64) (c mod 64)"
    if "0x10000 \<le> c"
  proof -
    have "c div 64 < 17408" by (rule div_upto [OF assms]) simp_all
    then have "c div 64 div 64 < 272" by (rule div_upto [OF n(1)]) simp_all
    then have "c div 64 div 64 div 64 < 8" by (rule div_upto [OF n(2) less_trans]) simp_all
    from prefix_bits(4) [OF n(3) this] show ?thesis
      by (simp only: cp_bytes_branches(3) [OF that] seq4_def u js_and_masks p)
  qed
qed

text \<open>Reading such a sequence back, whatever follows it.\<close>

lemma byte_of_int: "0 \<le> x \<Longrightarrow> x < 256 \<Longrightarrow> uint (word_of_int x :: byte) = x"
  by (simp add: uint_word_of_int)

lemma decode_ascii:
  "0 \<le> c \<Longrightarrow> c < 0x80 \<Longrightarrow> decode_loop (word_of_int c # r) = c # decode_loop r"
  by (simp add: byte_of_int)

lemma continuation_bits: "0 \<le> q \<Longrightarrow> q < 64 \<Longrightarrow> js_and (128 + q) 63 = q"
  using mul_add_div_mod(2) [of q 64 2] by (simp add: js_and_masks)

lemma join_step:
  assumes "1 < n" "uint b = 128 + q" "0 \<le> q" "q < 64" "0 \<le> c" "c < 65536"
  shows "join_rest n c (b # r) = join_rest (n - 1) (c * 64 + q) r"
proof -
  have "js_or (js_shl c 6) q = c * 64 + q" using assms js_shl_or [of q 6 c] by simp
  then show ?thesis using assms by (simp add: continuation_bits)
qed

lemma join_done: "join_rest (Suc 0) c r = (Suc 0, c, r)"
  by (cases r) simp_all

lemma lead_bits:
  "0 \<le> q \<Longrightarrow> q < 32 \<Longrightarrow> js_and (192 + q) (lead_mask 2) = q"
  "0 \<le> q \<Longrightarrow> q < 16 \<Longrightarrow> js_and (224 + q) (lead_mask 3) = q"
  "0 \<le> q \<Longrightarrow> q < 8 \<Longrightarrow> js_and (240 + q) (lead_mask 4) = q"
  using mul_add_div_mod(2) [of q 32 6] mul_add_div_mod(2) [of q 16 14]
    mul_add_div_mod(2) [of q 8 30]
  by (simp_all add: lead_mask_def js_and_masks)

declare decode_loop.simps(2) [simp del]

lemma decode_lead:
  assumes "128 \<le> uint b" "utf8len b = n" "n \<le> 4"
    and "join_rest n (js_and (uint b) (lead_mask n)) bs = (1, c, r)"
  shows "decode_loop (b # bs) = utf16_of c @ decode_loop r"
  using assms by (simp add: decode_loop.simps(2) Let_def)

lemma decode_seq2:
  assumes "uint b1 = 192 + q1" "uint b2 = 128 + q2" "0 \<le> q1" "q1 < 32" "0 \<le> q2" "q2 < 64"
  shows "decode_loop (b1 # b2 # r) = utf16_of (q1 * 64 + q2) @ decode_loop r"
proof (rule decode_lead)
  show "utf8len b1 = 2" using assms utf8len_cases(2) [of b1] by simp
  have "join_rest 2 q1 (b2 # r) = (1, q1 * 64 + q2, r)"
    using join_step [of 2 b2 q2 q1 r] assms by (simp add: join_done)
  then show "join_rest 2 (js_and (uint b1) (lead_mask 2)) (b2 # r) = (1, q1 * 64 + q2, r)"
    by (simp only: assms(1) lead_bits(1) [OF assms(3,4)])
qed (use assms in simp_all)

lemma decode_seq3:
  assumes "uint b1 = 224 + q1" "uint b2 = 128 + q2" "uint b3 = 128 + q3"
    "0 \<le> q1" "q1 < 16" "0 \<le> q2" "q2 < 64" "0 \<le> q3" "q3 < 64"
  shows "decode_loop (b1 # b2 # b3 # r) = utf16_of ((q1 * 64 + q2) * 64 + q3) @ decode_loop r"
proof (rule decode_lead)
  show "utf8len b1 = 3" using assms utf8len_cases(3) [of b1] by simp
  have "0 \<le> q1 * 64 + q2" "q1 * 64 + q2 < 65536" using assms by simp_all
  then have "join_rest 3 q1 (b2 # b3 # r) = (1, (q1 * 64 + q2) * 64 + q3, r)"
    using join_step [of 3 b2 q2 q1 "b3 # r"] join_step [of 2 b3 q3 "q1 * 64 + q2" r] assms
    by (simp add: join_done)
  then show "join_rest 3 (js_and (uint b1) (lead_mask 3)) (b2 # b3 # r) =
      (1, (q1 * 64 + q2) * 64 + q3, r)"
    by (simp only: assms(1) lead_bits(2) [OF assms(4,5)])
qed (use assms in simp_all)

lemma decode_seq4:
  assumes "uint b1 = 240 + q1" "uint b2 = 128 + q2" "uint b3 = 128 + q3" "uint b4 = 128 + q4"
    "0 \<le> q1" "q1 < 8" "0 \<le> q2" "q2 < 64" "0 \<le> q3" "q3 < 64" "0 \<le> q4" "q4 < 64"
  shows "decode_loop (b1 # b2 # b3 # b4 # r) =
    utf16_of (((q1 * 64 + q2) * 64 + q3) * 64 + q4) @ decode_loop r"
proof (rule decode_lead)
  show "utf8len b1 = 4" using assms utf8len_cases(4) [of b1] by simp
  have "0 \<le> q1 * 64 + q2" "q1 * 64 + q2 < 65536"
    "0 \<le> (q1 * 64 + q2) * 64 + q3" "(q1 * 64 + q2) * 64 + q3 < 65536" using assms by simp_all
  then have "join_rest 4 q1 (b2 # b3 # b4 # r) = (1, ((q1 * 64 + q2) * 64 + q3) * 64 + q4, r)"
    using join_step [of 4 b2 q2 q1 "b3 # b4 # r"] join_step [of 3 b3 q3 "q1 * 64 + q2" "b4 # r"]
      join_step [of 2 b4 q4 "(q1 * 64 + q2) * 64 + q3" r] assms
    by (simp add: join_done)
  then show "join_rest 4 (js_and (uint b1) (lead_mask 4)) (b2 # b3 # b4 # r) =
      (1, ((q1 * 64 + q2) * 64 + q3) * 64 + q4, r)"
    by (simp only: assms(1) lead_bits(3) [OF assms(5,6)])
qed (use assms in simp_all)

lemma decode_map_seq2:
  assumes "0 \<le> q1" "q1 < 32" "0 \<le> q2" "q2 < 64"
  shows "decode_loop (map word_of_int (seq2 q1 q2) @ r) = utf16_of (q1 * 64 + q2) @ decode_loop r"
  unfolding seq2_def list.map append.simps
  by (rule decode_seq2 [OF byte_of_int byte_of_int assms]) (use assms in simp_all)

lemma decode_map_seq3:
  assumes "0 \<le> q1" "q1 < 16" "0 \<le> q2" "q2 < 64" "0 \<le> q3" "q3 < 64"
  shows "decode_loop (map word_of_int (seq3 q1 q2 q3) @ r) =
    utf16_of ((q1 * 64 + q2) * 64 + q3) @ decode_loop r"
  unfolding seq3_def list.map append.simps
  by (rule decode_seq3 [OF byte_of_int byte_of_int byte_of_int assms]) (use assms in simp_all)

lemma decode_map_seq4:
  assumes "0 \<le> q1" "q1 < 8" "0 \<le> q2" "q2 < 64" "0 \<le> q3" "q3 < 64" "0 \<le> q4" "q4 < 64"
  shows "decode_loop (map word_of_int (seq4 q1 q2 q3 q4) @ r) =
    utf16_of (((q1 * 64 + q2) * 64 + q3) * 64 + q4) @ decode_loop r"
  unfolding seq4_def list.map append.simps
  by (rule decode_seq4 [OF byte_of_int byte_of_int byte_of_int byte_of_int assms])
    (use assms in simp_all)

text \<open>The bytes of a code point are read back as its UTF-16 code units.\<close>

definition cp_buf :: "int \<Rightarrow> byte list" where
  "cp_buf c = map word_of_int (cp_bytes c)"

lemma decode_cp:
  assumes "0 \<le> c" "c < 0x110000"
  shows "decode_loop (cp_buf c @ r) = utf16_of c @ decode_loop r"
proof -
  have nn: "0 \<le> c div 64" "0 \<le> c div 64 div 64" "0 \<le> c div 64 div 64 div 64"
    by (intro div_nonneg; simp add: assms)+
  consider (1) "c < 0x80" | (2) "0x80 \<le> c" "c < 0x800" | (3) "0x800 \<le> c" "c < 0x10000"
    | (4) "0x10000 \<le> c" by linarith
  then show ?thesis
  proof cases
    case 1
    then show ?thesis
      using assms by (simp add: cp_buf_def cp_bytes_seq(1) decode_ascii utf16_of_def)
  next
    case 2
    have b: "c div 64 < 32" by (rule div_upto [OF assms(1) 2(2)]) simp_all
    show ?thesis
      using decode_map_seq2 [OF nn(1) b six_bits [of c], of r]
      by (simp only: cp_buf_def cp_bytes_seq(2) [OF assms 2] div_mult_mod_eq)
  next
    case 3
    have "c div 64 < 1024" by (rule div_upto [OF assms(1) 3(2)]) simp_all
    then have b: "c div 64 div 64 < 16" by (rule div_upto [OF nn(1)]) simp_all
    show ?thesis
      using decode_map_seq3 [OF nn(2) b six_bits [of "c div 64"] six_bits [of c], of r]
      by (simp only: cp_buf_def cp_bytes_seq(3) [OF assms 3] div_mult_mod_eq)
  next
    case 4
    have "c div 64 < 17408" by (rule div_upto [OF assms]) simp_all
    then have "c div 64 div 64 < 272" by (rule div_upto [OF nn(1)]) simp_all
    then have b: "c div 64 div 64 div 64 < 8" by (rule div_upto [OF nn(2) less_trans]) simp_all
    show ?thesis
      using decode_map_seq4 [OF nn(3) b six_bits [of "c div 64 div 64"] six_bits [of "c div 64"]
          six_bits [of c], of r]
      by (simp only: cp_buf_def cp_bytes_seq(4) [OF assms 4] div_mult_mod_eq)
  qed
qed

section \<open>A string and its code points\<close>

function cps :: "jsstr \<Rightarrow> int list" where
  "cps s = (if s = [] then [] else fst (next_cp s) # cps (snd (next_cp s)))"
  by pat_completeness auto
termination by (relation "measure length") (auto simp: next_cp_length)

declare cps.simps [simp del]

lemma next_cp_utf16:
  assumes "s \<noteq> []"
  shows "0 \<le> fst (next_cp s) \<and> fst (next_cp s) < 0x110000 \<and>
    map word_of_int (utf16_of (fst (next_cp s))) @ snd (next_cp s) = s"
  using assms
proof (induction s rule: next_cp.induct)
  case (2 u)
  then show ?case using char_range [of u] by (simp add: utf16_of_def)
next
  case (3 u u2 r)
  note u = char_range [of u] and u2 = char_range [of u2]
  show ?case
  proof (cases "js_and (uint u) 0xfc00 = 0xd800 \<and> js_and (uint u2) 0xfc00 = 0xdc00")
    case False
    then show ?thesis using u by (auto simp: Let_def utf16_of_def)
  next
    case True
    define a where "a = uint u - 0xd800"
    define b where "b = uint u2 - 0xdc00"
    have ab: "0 \<le> a" "a < 1024" "0 \<le> b" "b < 1024"
      using True high_surrogate_iff [OF u] low_surrogate_iff [OF u2]
      by (simp_all add: a_def b_def)
    have n: "next_cp (u # u2 # r) = (0x10000 + (a * 1024 + b), r)"
      using True js_shl_mult [of a 10] ab by (simp add: a_def b_def)
    have "js_shr (a * 1024 + b) 10 = a" "js_and (a * 1024 + b) 0x3ff = b"
      using mul_add_div_mod [OF ab(3,4), of a] js_shr_div [of "a * 1024 + b" 10] ab
      by (simp_all add: js_and_masks)
    moreover have "js_and a 0x3ff = a" using ab by (simp add: js_and_masks)
    ultimately have "utf16_of (0x10000 + (a * 1024 + b)) = [0xd800 + a, 0xdc00 + b]"
      using ab prefix_bits(5) [of a] prefix_bits(6) [of b] by (simp add: utf16_of_def Let_def)
    moreover have "0xd800 + a = uint u" "0xdc00 + b = uint u2" by (simp_all add: a_def b_def)
    moreover have "a * 1024 + b < 0x100000" "0 \<le> a * 1024 + b" using ab by simp_all
    ultimately show ?thesis by (simp only: n fst_conv snd_conv) simp
  qed
qed simp

lemma cp_len_bytes: "0 \<le> c \<Longrightarrow> c < 0x110000 \<Longrightarrow> length (cp_bytes c) = cp_len c"
  by (simp add: cp_bytes_def cp_len_def)

lemma cp_len_pos: "0 < cp_len c"
  by (simp add: cp_len_def)

lemma cps_Nil [simp]: "cps [] = []"
  by (simp add: cps.simps)

lemma next_cp_range: "s \<noteq> [] \<Longrightarrow> 0 \<le> fst (next_cp s)" "s \<noteq> [] \<Longrightarrow> fst (next_cp s) < 0x110000"
  using next_cp_utf16 by blast+

lemma cps_range: "c \<in> set (cps s) \<Longrightarrow> 0 \<le> c \<and> c < 0x110000"
proof (induction s rule: cps.induct)
  case (1 s)
  show ?case
  proof (cases "s = []")
    case True
    then show ?thesis using "1.prems" by simp
  next
    case False
    then have "c = fst (next_cp s) \<or> c \<in> set (cps (snd (next_cp s)))"
      using "1.prems" by (simp add: cps.simps [of s])
    then show ?thesis using "1.IH" False next_cp_range by blast
  qed
qed

lemma utf16_cps: "concat (map (\<lambda>c. map word_of_int (utf16_of c)) (cps s)) = s"
proof (induction s rule: cps.induct)
  case (1 s)
  then show ?case using next_cp_utf16 [of s]
    by (cases "s = []") (simp_all add: cps.simps [of s])
qed

lemma convert_loop_cps:
  "convert_loop (i + count_binary_size s) i s = concat (map cp_bytes (cps s))"
proof (induction s arbitrary: i rule: cps.induct)
  case (1 s)
  show ?case
  proof (cases "s = []")
    case True
    then show ?thesis by (simp add: convert_loop.simps)
  next
    case False
    let ?c = "fst (next_cp s)" and ?r = "snd (next_cp s)"
    have l: "length (cp_bytes ?c) = cp_len ?c" using cp_len_bytes next_cp_range False by blast
    have "convert_loop (i + count_binary_size s) i s =
        cp_bytes ?c @ convert_loop ((i + cp_len ?c) + count_binary_size ?r) (i + cp_len ?c) ?r"
      using False cp_len_pos [of ?c]
      by (simp add: convert_loop.simps [of _ i s] count_binary_size.simps [of s] l Let_def ac_simps)
    also have "\<dots> = concat (map cp_bytes (cps s))"
      using "1.IH" [OF False, of "i + cp_len ?c"] False by (simp add: cps.simps [of s])
    finally show ?thesis .
  qed
qed

lemma string2buf_cps: "string2buf s = concat (map cp_buf (cps s))"
  using convert_loop_cps [of 0 s] by (simp add: string2buf_def map_concat comp_def cp_buf_def [abs_def])

lemma decode_cp_bufs:
  "(\<And>c. c \<in> set cs \<Longrightarrow> 0 \<le> c \<and> c < 0x110000) \<Longrightarrow>
    decode_loop (concat (map cp_buf cs) @ r) = concat (map utf16_of cs) @ decode_loop r"
  by (induction cs) (simp_all add: decode_cp)

lemma buf2string_string2buf_append:
  "buf2string (string2buf s @ r) = s @ buf2string r"
proof -
  have "decode_loop (string2buf s @ r) = concat (map utf16_of (cps s)) @ decode_loop r"
    unfolding string2buf_cps by (rule decode_cp_bufs) (rule cps_range)
  then show ?thesis
    using utf16_cps [of s] by (simp add: buf2string_def map_concat comp_def)
qed

lemma length_utf8encode: "length (utf8encode s) = count_binary_size s"
proof (induction s rule: cps.induct)
  case (1 s)
  show ?case
  proof (cases "s = []")
    case False
    then have "length (cp_bytes (fst (next_cp s))) = cp_len (fst (next_cp s))"
      by (intro cp_len_bytes next_cp_range)
    then show ?thesis using False "1.IH"
      by (simp add: utf8encode_def string2buf_cps cps.simps [of s]
          count_binary_size.simps [of s] cp_buf_def)
  qed (simp add: count_binary_size.simps utf8encode_def string2buf_cps)
qed

text \<open>
  Property C17. The UTF-8 functions are inverse on every string, lone surrogates included:
  whatever UTF-16 string the encoder is given, \<open>count_binary_size\<close> allocates exactly the
  bytes the second loop writes, and decoding them gives the string back.
\<close>

theorem utf8_roundtrip:
  "utf8decode (utf8encode s) = s \<and> length (utf8encode s) = count_binary_size s"
proof
  show "utf8decode (utf8encode s) = s"
    using buf2string_string2buf_append [of s "[]"]
    by (simp add: utf8encode_def utf8decode_def buf2string_def)
  show "length (utf8encode s) = count_binary_size s" by (rule length_utf8encode)
qed

section \<open>Streams of chunks\<close>

definition continuation :: "byte \<Rightarrow> bool" where
  "continuation b \<longleftrightarrow> 0x80 \<le> uint b \<and> uint b < 0xC0"

lemma continuation_test: "js_and (uint b) 0xC0 = 0x80 \<longleftrightarrow> continuation b"
  using continuation_iff [of "uint b"] byte_range [of b] by (simp add: continuation_def)

lemma continuation_byte:
  "0 \<le> q \<Longrightarrow> q < 64 \<Longrightarrow> continuation (word_of_int (128 + q))"
  unfolding continuation_def by (subst (1 2) byte_of_int) simp_all

text \<open>A lead byte announces the length of its sequence; only continuations follow it.\<close>

definition cp_shape :: "byte list \<Rightarrow> bool" where
  "cp_shape bs \<longleftrightarrow> bs \<noteq> [] \<and> utf8len (hd bs) = length bs \<and> length bs \<le> 4 \<and>
     \<not> continuation (hd bs) \<and> list_all continuation (tl bs)"

lemma lead_byte_ranges:
  "0xC0 \<le> uint b \<Longrightarrow> uint b < 0xE0 \<Longrightarrow> utf8len b = 2 \<and> \<not> continuation b"
  "0xE0 \<le> uint b \<Longrightarrow> uint b < 0xF0 \<Longrightarrow> utf8len b = 3 \<and> \<not> continuation b"
  "0xF0 \<le> uint b \<Longrightarrow> uint b < 0xF8 \<Longrightarrow> utf8len b = 4 \<and> \<not> continuation b"
  "uint b < 0x80 \<Longrightarrow> utf8len b = 1 \<and> \<not> continuation b"
  by (simp_all add: utf8len_cases continuation_def)

lemma lead_byte:
  "0 \<le> q \<Longrightarrow> q < 32 \<Longrightarrow> utf8len (word_of_int (192 + q)) = 2 \<and> \<not> continuation (word_of_int (192 + q))"
  "0 \<le> q \<Longrightarrow> q < 16 \<Longrightarrow> utf8len (word_of_int (224 + q)) = 3 \<and> \<not> continuation (word_of_int (224 + q))"
  "0 \<le> q \<Longrightarrow> q < 8 \<Longrightarrow> utf8len (word_of_int (240 + q)) = 4 \<and> \<not> continuation (word_of_int (240 + q))"
  "0 \<le> q \<Longrightarrow> q < 128 \<Longrightarrow> utf8len (word_of_int q) = 1 \<and> \<not> continuation (word_of_int q)"
  by (rule lead_byte_ranges; subst byte_of_int; simp)+

lemma cp_buf_shape:
  assumes "0 \<le> c" "c < 0x110000"
  shows "cp_shape (cp_buf c)"
proof -
  have nn: "0 \<le> c div 64" "0 \<le> c div 64 div 64" "0 \<le> c div 64 div 64 div 64"
    by (intro div_nonneg; simp add: assms)+
  note t = continuation_byte [OF six_bits]
  consider (1) "c < 0x80" | (2) "0x80 \<le> c" "c < 0x800" | (3) "0x800 \<le> c" "c < 0x10000"
    | (4) "0x10000 \<le> c" by linarith
  then show ?thesis
  proof cases
    case 1
    then show ?thesis using assms lead_byte(4) [of c]
      by (simp add: cp_shape_def cp_buf_def cp_bytes_seq(1))
  next
    case 2
    have b: "c div 64 < 32" by (rule div_upto [OF assms(1) 2(2)]) simp_all
    show ?thesis
      by (simp only: cp_shape_def cp_buf_def cp_bytes_seq(2) [OF assms 2] seq2_def list.map list.sel
          lead_byte(1) [OF nn(1) b] t list.pred_inject) simp
  next
    case 3
    have "c div 64 < 1024" by (rule div_upto [OF assms(1) 3(2)]) simp_all
    then have b: "c div 64 div 64 < 16" by (rule div_upto [OF nn(1)]) simp_all
    show ?thesis
      by (simp only: cp_shape_def cp_buf_def cp_bytes_seq(3) [OF assms 3] seq3_def list.map list.sel
          lead_byte(2) [OF nn(2) b] t list.pred_inject) simp
  next
    case 4
    have "c div 64 < 17408" by (rule div_upto [OF assms]) simp_all
    then have "c div 64 div 64 < 272" by (rule div_upto [OF nn(1)]) simp_all
    then have b: "c div 64 div 64 div 64 < 8" by (rule div_upto [OF nn(2) less_trans]) simp_all
    show ?thesis
      by (simp only: cp_shape_def cp_buf_def cp_bytes_seq(4) [OF assms 4] seq4_def list.map list.sel
          lead_byte(3) [OF nn(3) b] t list.pred_inject) simp
  qed
qed

lemma border_scan_skip:
  "list_all continuation ys \<Longrightarrow> \<not> continuation b \<Longrightarrow>
    border_scan (xs @ b # ys @ zs) (length xs + 1 + length ys) = int (length xs)"
proof (induction ys arbitrary: zs rule: rev_induct)
  case (snoc y ys)
  have n: "(xs @ b # (ys @ [y]) @ zs) ! (length xs + 1 + length ys) = y"
    by (simp add: nth_append)
  show ?case using snoc.IH [of "y # zs"] snoc.prems n
    by (simp add: continuation_test)
qed (simp add: continuation_test nth_append)

lemma utf8border_last:
  assumes "list_all continuation ys" "\<not> continuation b"
  shows "utf8border (xs @ b # ys) 0 =
    (if xs = [] \<or> length xs + utf8len b \<le> length (xs @ b # ys)
     then length (xs @ b # ys) else length xs)"
  using border_scan_skip [OF assms, of xs "[]"] by (auto simp: utf8border_def Let_def)

text \<open>A prefix of the bytes of some code points ends within one of them.\<close>

lemma prefix_of_cps:
  assumes "D @ R = concat (map cp_buf cs)" "D \<noteq> []"
  shows "\<exists>cs1 c cs2 p q. cs = cs1 @ c # cs2 \<and> cp_buf c = p @ q \<and> p \<noteq> [] \<and>
    D = concat (map cp_buf cs1) @ p \<and> R = q @ concat (map cp_buf cs2)"
  using assms
proof (induction cs arbitrary: D)
  case (Cons c cs)
  then have e: "D @ R = cp_buf c @ concat (map cp_buf cs)" by simp
  show ?case
  proof (cases "length D \<le> length (cp_buf c)")
    case True
    then obtain q where "cp_buf c = D @ q" "R = q @ concat (map cp_buf cs)"
      using e by (auto simp: append_eq_append_conv2 dest: sym)
    with Cons.prems(2) show ?thesis
      by (intro exI [of _ "[]"] exI [of _ c] exI [of _ cs] exI [of _ D] exI [of _ q]) simp
  next
    case False
    then obtain D' where D': "D = cp_buf c @ D'" "D' @ R = concat (map cp_buf cs)" "D' \<noteq> []"
      using e False by (auto simp: append_eq_append_conv2 dest!: arg_cong [of "D @ _" _ length])
    from Cons.IH [OF D'(2,3)] obtain cs1 c' cs2 p q where
      "cs = cs1 @ c' # cs2 \<and> cp_buf c' = p @ q \<and> p \<noteq> [] \<and>
        D' = concat (map cp_buf cs1) @ p \<and> R = q @ concat (map cp_buf cs2)" by blast
    then show ?thesis using D'(1)
      by (intro exI [of _ "c # cs1"] exI [of _ c'] exI [of _ cs2] exI [of _ p] exI [of _ q]) simp
  qed
qed simp

definition cps_ok :: "int list \<Rightarrow> bool" where
  "cps_ok cs \<longleftrightarrow> (\<forall>c \<in> set cs. 0 \<le> c \<and> c < 0x110000)"

lemma utf8border_aligned:
  assumes "D @ R = concat (map cp_buf cs)" "cps_ok cs" "R = [] \<or> 4 \<le> length D"
  shows "\<exists>cs1 cs2. cs = cs1 @ cs2 \<and> take (utf8border D 0) D = concat (map cp_buf cs1) \<and>
    drop (utf8border D 0) D @ R = concat (map cp_buf cs2)"
proof (cases "D = []")
  case True
  then show ?thesis using assms by (intro exI [of _ "[]"] exI [of _ cs]) simp
next
  case False
  from prefix_of_cps [OF assms(1) this] obtain cs1 c cs2 p q where
    d: "cs = cs1 @ c # cs2" "cp_buf c = p @ q" "p \<noteq> []" "D = concat (map cp_buf cs1) @ p"
      "R = q @ concat (map cp_buf cs2)" by blast
  obtain b ys where p: "p = b # ys" using d(3) by (cases p) auto
  have sh: "cp_shape (p @ q)" using cp_buf_shape [of c] assms(2) d(1,2) by (simp add: cps_ok_def)
  let ?A = "concat (map cp_buf cs1)"
  have B: "utf8border D 0 = (if ?A = [] \<or> length ?A + utf8len b \<le> length D then length D else length ?A)"
    using utf8border_last [of ys b ?A] sh by (simp add: cp_shape_def p d(4))
  have l: "utf8len b = length p + length q" "length p + length q \<le> 4"
    using sh by (simp_all add: cp_shape_def p)
  show ?thesis
  proof (cases "q = []")
    case True
    then have "utf8border D 0 = length D" using B l by (simp add: d(4))
    then show ?thesis using d True by (intro exI [of _ "cs1 @ [c]"] exI [of _ cs2]) simp
  next
    case q: False
    have "length p < 4" "R \<noteq> []" using q l d(5) by (auto simp: length_greater_0_conv [symmetric] simp del: length_greater_0_conv)
    then have "?A \<noteq> []" using assms(3) d(4) by (auto simp del: concat_eq_Nil_conv)
    then have "utf8border D 0 = length ?A" using B l q by (simp add: d(4) del: concat_eq_Nil_conv)
    then show ?thesis using d by (intro exI [of _ cs1] exI [of _ "c # cs2"]) simp
  qed
qed

lemma border_scan_less: "border_scan D n < int n \<or> border_scan D n = - 1"
  by (induction n) auto

lemma utf8border_le: "utf8border D 0 \<le> length D"
  using border_scan_less [of D "length D"] by (auto simp: utf8border_def Let_def nat_le_iff)

lemma utf8decode_cps:
  "cps_ok cs \<Longrightarrow> utf8decode (concat (map cp_buf cs)) = concat (map (\<lambda>c. map word_of_int (utf16_of c)) cs)"
  using decode_cp_bufs [of cs "[]"]
  by (simp add: utf8decode_def buf2string_def cps_ok_def map_concat comp_def)

definition left_bytes :: "byte list option \<Rightarrow> byte list" where
  "left_bytes l = (case l of None \<Rightarrow> [] | Some l \<Rightarrow> l)"

lemma decode_worker_chunk_data:
  "decode_worker_chunk l chunk =
    (let data = left_bytes l @ chunk; n = utf8border data 0
     in (if n \<noteq> length data then Some (drop n data) else if left_bytes l = [] then l else None,
         utf8decode (take n data)))"
  by (cases l) (auto simp: decode_worker_chunk_def left_bytes_def Let_def)

lemma decode_worker_cps:
  "left_bytes l @ concat chunks = concat (map cp_buf cs) \<Longrightarrow> cps_ok cs \<Longrightarrow>
    (\<forall>c \<in> set (butlast chunks). 4 \<le> length c) \<Longrightarrow>
    decode_worker l chunks = concat (map (\<lambda>c. map word_of_int (utf16_of c)) cs)"
proof (induction chunks arbitrary: l cs)
  case Nil
  have "decode_worker l [] = utf8decode (left_bytes l)"
    by (cases l) (simp_all add: decode_worker_flush_def left_bytes_def utf8decode_def buf2string_def)
  then show ?case using Nil utf8decode_cps [of cs] by simp
next
  case (Cons chunk chunks)
  let ?D = "left_bytes l @ chunk"
  let ?n = "utf8border ?D 0"
  have "concat chunks = [] \<or> 4 \<le> length ?D"
    using Cons.prems(3) by (cases chunks) auto
  then obtain cs1 cs2 where c: "cs = cs1 @ cs2" "take ?n ?D = concat (map cp_buf cs1)"
    "drop ?n ?D @ concat chunks = concat (map cp_buf cs2)"
    using utf8border_aligned [of ?D "concat chunks" cs] Cons.prems(1,2) by auto
  define l' where "l' = fst (decode_worker_chunk l chunk)"
  have l': "left_bytes l' = drop ?n ?D"
    using utf8border_le [of ?D]
    by (cases l) (auto simp: l'_def decode_worker_chunk_data Let_def left_bytes_def)
  have "decode_worker l' chunks = concat (map (\<lambda>c. map word_of_int (utf16_of c)) cs2)"
    using Cons.prems(2,3) c
    by (intro Cons.IH) (auto simp: l' cps_ok_def split: if_splits)
  moreover have "snd (decode_worker_chunk l chunk) = concat (map (\<lambda>c. map word_of_int (utf16_of c)) cs1)"
    using utf8decode_cps [of cs1] Cons.prems(2) c
    by (simp add: decode_worker_chunk_data Let_def cps_ok_def)
  ultimately show ?case using c(1) by (simp add: case_prod_beta Let_def l'_def)
qed

text \<open>
  Property C16. Decoding a stream of chunks gives the text of the whole, wherever the
  chunks cut the bytes of a character, as long as every chunk but the last has at least
  four bytes (the length of the longest sequence).
\<close>

theorem utf8_decode_stream:
  assumes "concat chunks = utf8encode s"
    and "\<forall>c \<in> set (butlast chunks). 4 \<le> length c"
  shows "decode_worker None chunks = s"
  using decode_worker_cps [of None chunks "cps s"] assms cps_range [of _ s] utf16_cps [of s]
  by (simp add: left_bytes_def utf8encode_def string2buf_cps cps_ok_def)

theorem utf8_decode_stream_witness:
  "decode_worker None [take 4 (utf8encode ([0x20AC, 0x20AC])), drop 4 (utf8encode ([0x20AC, 0x20AC]))]
     = [0x20AC, 0x20AC]"
proof (rule utf8_decode_stream)
  have "4 \<le> length (utf8encode ([0x20AC, 0x20AC]))"
    by (simp add: length_utf8encode count_binary_size.simps cp_len_def Let_def)
  then show "\<forall>c \<in> set (butlast [take 4 (utf8encode ([0x20AC, 0x20AC])),
      drop 4 (utf8encode ([0x20AC, 0x20AC]))]). 4 \<le> length c" by simp
qed simp

section \<open>Encoding a text in chunks\<close>

text \<open>A cut between the two units of a surrogate pair.\<close>

definition pair_cut :: "jsstr \<Rightarrow> jsstr \<Rightarrow> bool" where
  "pair_cut a b \<longleftrightarrow> a \<noteq> [] \<and> b \<noteq> [] \<and>
     js_and (uint (last a)) 0xfc00 = 0xd800 \<and> js_and (uint (hd b)) 0xfc00 = 0xdc00"

lemma pair_cut_simps [simp]:
  "\<not> pair_cut [] b" "\<not> pair_cut a []"
  "a \<noteq> [] \<Longrightarrow> pair_cut (u # a) b \<longleftrightarrow> pair_cut a b"
  by (simp_all add: pair_cut_def)

lemma string2buf_step:
  "s \<noteq> [] \<Longrightarrow> string2buf s = cp_buf (fst (next_cp s)) @ string2buf (snd (next_cp s))"
  by (simp add: string2buf_cps cps.simps [of s])

lemma string2buf_Nil [simp]: "string2buf [] = []"
  by (simp add: string2buf_cps)

lemma surrogates_apart: "js_and (uint (u :: jschar)) 0xfc00 = 0xdc00 \<Longrightarrow> js_and (uint u) 0xfc00 \<noteq> 0xd800"
  by simp

lemma next_cp_append:
  "2 \<le> length a \<Longrightarrow> fst (next_cp (a @ b)) = fst (next_cp a) \<and> snd (next_cp (a @ b)) = snd (next_cp a) @ b"
  by (cases a; cases "tl a") (auto simp: Let_def)

lemma next_cp_pair_cut:
  "2 \<le> length a \<Longrightarrow> pair_cut (snd (next_cp a)) b \<longleftrightarrow> pair_cut a b"
  by (cases a; cases "tl a"; cases "tl (tl a)") (auto simp: Let_def pair_cut_def)

lemma string2buf_append:
  "\<not> pair_cut a b \<Longrightarrow> string2buf (a @ b) = string2buf a @ string2buf b"
proof (induction a rule: cps.induct)
  case (1 a)
  consider "a = []" | u where "a = [u]" | "2 \<le> length a"
    by (cases a; cases "tl a") auto
  then show ?case
  proof cases
    case 2
    then have "next_cp (u # b) = (uint u, b)"
      using 1(2) by (cases b) (auto simp: pair_cut_def Let_def)
    then show ?thesis by (simp add: 2 string2buf_step)
  next
    case 3
    then have ne: "a \<noteq> []" by auto
    then show ?thesis
      using 1 3 next_cp_append [OF 3, of b] next_cp_pair_cut [OF 3, of b]
      by (simp add: string2buf_step [of a] string2buf_step [of "a @ b"])
  qed simp
qed

lemma cp_buf_length: "s \<noteq> [] \<Longrightarrow> length (cp_buf (fst (next_cp s))) = cp_len (fst (next_cp s))"
  by (simp add: cp_buf_def cp_len_bytes next_cp_range)

lemma string2buf_cut:
  "pair_cut a b \<Longrightarrow> length (string2buf (a @ b)) < length (string2buf a @ string2buf b)"
proof (induction a rule: cps.induct)
  case (1 a)
  then have ne: "a \<noteq> []" "b \<noteq> []" by auto
  consider u where "a = [u]" | "2 \<le> length a"
    using ne by (cases a; cases "tl a") auto
  then show ?case
  proof cases
    case 1
    obtain u2 r where b: "b = u2 # r" using ne by (cases b) auto
    have u: "js_and (uint u) 0xfc00 = 0xd800" "js_and (uint u2) 0xfc00 = 0xdc00"
      using \<open>pair_cut a b\<close> by (simp_all add: pair_cut_def 1 b)
    then have r: "0xd800 \<le> uint u" "0xdc00 \<le> uint u2" "uint u < 65536" "uint u2 < 65536"
      "uint u2 < 0xe000"
      using high_surrogate_iff [OF char_range] low_surrogate_iff [OF char_range] char_range
      by simp_all
    have n: "snd (next_cp (a @ b)) = r"
      "fst (next_cp b) = uint u2 \<and> snd (next_cp b) = r"
      using u surrogates_apart [OF u(2)] by (cases r; simp add: 1 b Let_def)+
    have "cp_len (fst (next_cp (a @ b))) \<le> 4" by (simp add: cp_len_def)
    moreover have "length (cp_buf (fst (next_cp [u]))) = 3" "length (cp_buf (fst (next_cp b))) = 3"
      using cp_buf_length [of "[u]"] cp_buf_length [OF ne(2)] r n(2) by (simp_all add: cp_len_def)
    ultimately show ?thesis
      using string2buf_step [of a] string2buf_step [of b] string2buf_step [of "a @ b"] ne n
        cp_buf_length [of "a @ b"] 1 by simp
  next
    case 2
    then show ?thesis
      using "1.IH" [OF ne(1)] "1.prems" ne next_cp_append [OF 2, of b] next_cp_pair_cut [OF 2, of b]
      by (simp add: string2buf_step [of a] string2buf_step [of "a @ b"])
  qed
qed

text \<open>
  Property C32. Encoding a text chunk by chunk gives the UTF-8 encoding of the text exactly
  when the cut does not separate a surrogate pair; wherever it falls, decoding gives the
  text back. (When a pair is cut, each half becomes three bytes that are not UTF-8.)
\<close>

theorem utf8_encode_stream:
  "(encode_worker [a, b] = utf8encode (a @ b) \<longleftrightarrow> \<not> pair_cut a b) \<and>
   utf8decode (encode_worker [a, b]) = a @ b"
proof
  show "encode_worker [a, b] = utf8encode (a @ b) \<longleftrightarrow> \<not> pair_cut a b"
    using string2buf_append [of a b] string2buf_cut [of a b]
    by (simp add: encode_worker_def encode_worker_chunk_def utf8encode_def) (metis less_irrefl length_append)
  have "buf2string (string2buf b) = b"
    using buf2string_string2buf_append [of b "[]"] by (simp add: buf2string_def)
  then show "utf8decode (encode_worker [a, b]) = a @ b"
    by (simp add: encode_worker_def encode_worker_chunk_def utf8encode_def utf8decode_def
        buf2string_string2buf_append)
qed

end
