(* ===== verification/ZipWriter.thy ===== *)
theory ZipWriter
  imports Complex_Main Crc32 Utf8 JsDate
begin

text \<open>
  \<open>lib/generate\<close> of JSZip: the records of a ZIP file (\<open>generateZipParts\<close>,
  \<open>generateCentralDirectoryEnd\<close>, \<open>generateDataDescriptors\<close>) and \<open>ZipFileWorker\<close>,
  the worker that concatenates the streams of the entries into one ZIP stream. The
  specification of the worker is the layout of a ZIP file as a function of the entries;
  the refinement theorem says that the worker emits it, however its sources are cut into
  chunks.
\<close>

section \<open>The records\<close>

text \<open>\<open>lib/signature\<close>\<close>

definition LOCAL_FILE_HEADER :: jsstr where "LOCAL_FILE_HEADER = [0x50, 0x4B, 3, 4]"
definition CENTRAL_FILE_HEADER :: jsstr where "CENTRAL_FILE_HEADER = [0x50, 0x4B, 1, 2]"
definition CENTRAL_DIRECTORY_END :: jsstr where "CENTRAL_DIRECTORY_END = [0x50, 0x4B, 5, 6]"
definition ZIP64_CENTRAL_DIRECTORY_LOCATOR :: jsstr where
  "ZIP64_CENTRAL_DIRECTORY_LOCATOR = [0x50, 0x4B, 6, 7]"
definition ZIP64_CENTRAL_DIRECTORY_END :: jsstr where
  "ZIP64_CENTRAL_DIRECTORY_END = [0x50, 0x4B, 6, 6]"
definition DATA_DESCRIPTOR :: jsstr where "DATA_DESCRIPTOR = [0x50, 0x4B, 7, 8]"

text \<open>\<open>lib/compressions\<close>: the methods and their magic numbers.\<close>

datatype compression = STORE | DEFLATE

definition magic :: "compression \<Rightarrow> jsstr" where
  "magic c = (case c of STORE \<Rightarrow> [0, 0] | DEFLATE \<Rightarrow> [8, 0])"

fun decToHex :: "int \<Rightarrow> nat \<Rightarrow> jsstr" where
  "decToHex dec 0 = []"
| "decToHex dec (Suc bytes) = word_of_int (js_and dec 0xff) # decToHex (js_ushr dec 8) bytes"

text \<open>Permissions are missing, null (both \<open>None\<close>) or a number; 0 counts as missing.\<close>

definition generateUnixExternalFileAttr :: "int option \<Rightarrow> bool \<Rightarrow> int" where
  "generateUnixExternalFileAttr unixPermissions isDir =
     (let result = (case unixPermissions of
          Some p \<Rightarrow> if p \<noteq> 0 then p else if isDir then 0x41fd else 0x81b4
        | None \<Rightarrow> if isDir then 0x41fd else 0x81b4)
      in js_shl (js_and result 0xFFFF) 16)"

definition generateDosExternalFileAttr :: "int option \<Rightarrow> bool \<Rightarrow> int" where
  "generateDosExternalFileAttr dosPermissions isDir =
     js_and (case dosPermissions of Some p \<Rightarrow> p | None \<Rightarrow> 0) 0x3F"

record file_info =
  fi_name :: jsstr
  fi_dir :: bool
  fi_date :: int
  fi_comment :: jsstr
  fi_unixPermissions :: "int option"
  fi_dosPermissions :: "int option"

record stream_info =
  si_file :: file_info
  si_compression :: compression
  si_crc32 :: int
  si_compressedSize :: int
  si_uncompressedSize :: int

text \<open>\<open>encodeFileName\<close>: the default, which the code recognises by identity, or the user's.\<close>

datatype name_encoder = Utf8Encode | CustomEncode "jsstr \<Rightarrow> byte list"

definition encode_name :: "name_encoder \<Rightarrow> jsstr \<Rightarrow> byte list" where
  "encode_name e = (case e of Utf8Encode \<Rightarrow> utf8encode | CustomEncode f \<Rightarrow> f)"

record zip_parts =
  fileRecord :: jsstr
  dirRecord :: jsstr

text \<open>The two Info-ZIP extra fields (unicode path, unicode comment).\<close>

definition unicode_extra :: "jsstr \<Rightarrow> jsstr \<Rightarrow> jsstr \<Rightarrow> jsstr" where
  "unicode_extra fieldId encoded utfEncoded =
     (let field = decToHex 1 1 @ decToHex (crc32wrapper (CrcString encoded) None) 4 @ utfEncoded
      in fieldId @ decToHex (int (length field)) 2 @ field)"

definition bit_flag :: "bool \<Rightarrow> bool \<Rightarrow> bool \<Rightarrow> int" where
  "bit_flag streamedContent useCustomEncoding useUTF8 =
     (let bitflag = 0;
          bitflag = (if streamedContent then js_or bitflag 0x0008 else bitflag)
      in if \<not> useCustomEncoding \<and> useUTF8 then js_or bitflag 0x0800 else bitflag)"

definition version_and_attr :: "file_info \<Rightarrow> jsstr \<Rightarrow> int \<times> int" where
  "version_and_attr file platform =
     (let extFileAttr = (if fi_dir file then js_or 0 0x00010 else 0)
      in if platform = js ''UNIX''
         then (0x031E, js_or extFileAttr
                 (generateUnixExternalFileAttr (fi_unixPermissions file) (fi_dir file)))
         else (0x0014, js_or extFileAttr
                 (generateDosExternalFileAttr (fi_dosPermissions file) (fi_dir file))))"

definition generateZipParts ::
  "stream_info \<Rightarrow> bool \<Rightarrow> bool \<Rightarrow> int \<Rightarrow> jsstr \<Rightarrow> name_encoder \<Rightarrow> zip_parts" where
  "generateZipParts streamInfo streamedContent streamingEnded offset platform encodeFileName =
     (let file = si_file streamInfo;
          useCustomEncoding = (encodeFileName \<noteq> Utf8Encode);
          encodedFileName = binstr (encode_name encodeFileName (fi_name file));
          utfEncodedFileName = binstr (utf8encode (fi_name file));
          comment = fi_comment file;
          encodedComment = binstr (encode_name encodeFileName comment);
          utfEncodedComment = binstr (utf8encode comment);
          useUTF8ForFileName = (length utfEncodedFileName \<noteq> length (fi_name file));
          useUTF8ForComment = (length utfEncodedComment \<noteq> length comment);
          known = (\<not> streamedContent \<or> streamingEnded);
          crc = (if known then si_crc32 streamInfo else 0);
          compressedSize = (if known then si_compressedSize streamInfo else 0);
          uncompressedSize = (if known then si_uncompressedSize streamInfo else 0);
          bitflag = bit_flag streamedContent useCustomEncoding
            (useUTF8ForFileName \<or> useUTF8ForComment);
          (versionMadeBy, extFileAttr) = version_and_attr file platform;
          extraFields =
            (if useUTF8ForFileName
             then unicode_extra [0x75, 0x70] encodedFileName utfEncodedFileName else []) @
            (if useUTF8ForComment
             then unicode_extra [0x75, 0x63] encodedComment utfEncodedComment else []);
          header =
            [0x0A, 0] @ decToHex bitflag 2 @ magic (si_compression streamInfo) @
            decToHex (dos_time (fi_date file)) 2 @ decToHex (dos_date (fi_date file)) 2 @
            decToHex crc 4 @ decToHex compressedSize 4 @ decToHex uncompressedSize 4 @
            decToHex (int (length encodedFileName)) 2 @ decToHex (int (length extraFields)) 2
      in \<lparr>fileRecord = LOCAL_FILE_HEADER @ header @ encodedFileName @ extraFields,
          dirRecord = CENTRAL_FILE_HEADER @ decToHex versionMadeBy 2 @ header @
            decToHex (int (length encodedComment)) 2 @ [0, 0] @ [0, 0] @
            decToHex extFileAttr 4 @ decToHex offset 4 @
            encodedFileName @ extraFields @ encodedComment\<rparr>)"

definition generateCentralDirectoryEnd ::
  "int \<Rightarrow> int \<Rightarrow> int \<Rightarrow> jsstr \<Rightarrow> name_encoder \<Rightarrow> jsstr" where
  "generateCentralDirectoryEnd entriesCount centralDirLength localDirLength comment encodeFileName =
     (let encodedComment = binstr (encode_name encodeFileName comment)
      in CENTRAL_DIRECTORY_END @ [0, 0] @ [0, 0] @ decToHex entriesCount 2 @
         decToHex entriesCount 2 @ decToHex centralDirLength 4 @ decToHex localDirLength 4 @
         decToHex (int (length encodedComment)) 2 @ encodedComment)"

definition generateDataDescriptors :: "stream_info \<Rightarrow> jsstr" where
  "generateDataDescriptors streamInfo =
     DATA_DESCRIPTOR @ decToHex (si_crc32 streamInfo) 4 @
     decToHex (si_compressedSize streamInfo) 4 @ decToHex (si_uncompressedSize streamInfo) 4"

section \<open>The worker\<close>

text \<open>The data of a chunk: a (binary) string or a byte array; and what a chunk becomes.\<close>

datatype cdata = StrData jsstr | ByteData "byte list"

fun cdata_length :: "cdata \<Rightarrow> nat" where
  "cdata_length (StrData s) = length s"
| "cdata_length (ByteData b) = length b"

fun cdata_bytes :: "cdata \<Rightarrow> byte list" where
  "cdata_bytes (StrData s) = str_bytes s"
| "cdata_bytes (ByteData b) = b"

record chunk =
  ch_data :: cdata
  ch_percent :: "rat option"

record out_chunk =
  oc_data :: cdata
  oc_currentFile :: "jsstr option"
  oc_percent :: rat

text \<open>
  A source: its \<open>streamInfo\<close> when it is opened, the chunks it sends, and its
  \<open>streamInfo\<close> when it ends (the probes have then counted and summed its content).
\<close>

record source =
  src_opened :: stream_info
  src_chunks :: "chunk list"
  src_closed :: stream_info

text \<open>The fields of \<open>ZipFileWorker\<close>; \<open>zout\<close> is what it has emitted.\<close>

record zip_worker =
  bytesWritten :: int
  zipComment :: jsstr
  zipPlatform :: jsstr
  encodeFileName :: name_encoder
  streamFiles :: bool
  accumulate :: bool
  contentBuffer :: "chunk list"
  dirRecords :: "jsstr list"
  currentSourceOffset :: int
  entriesCount :: nat
  currentFile :: "jsstr option"
  zsources :: "source list"
  zout :: "out_chunk list"

definition newZipFileWorker :: "bool \<Rightarrow> jsstr \<Rightarrow> jsstr \<Rightarrow> name_encoder \<Rightarrow> zip_worker" where
  "newZipFileWorker stream comment platform encoder =
     \<lparr>bytesWritten = 0, zipComment = comment, zipPlatform = platform, encodeFileName = encoder,
      streamFiles = stream, accumulate = False, contentBuffer = [], dirRecords = [],
      currentSourceOffset = 0, entriesCount = 0, currentFile = None, zsources = [], zout = []\<rparr>"

definition overall_percent :: "nat \<Rightarrow> nat \<Rightarrow> rat \<Rightarrow> rat" where
  "overall_percent entries remainingFiles currentFilePercent =
     (if entries \<noteq> 0
      then (currentFilePercent + 100 * (of_nat entries - of_nat remainingFiles - 1)) / of_nat entries
      else 100)"

definition zw_push :: "chunk \<Rightarrow> zip_worker \<Rightarrow> zip_worker" where
  "zw_push c w =
     (let currentFilePercent = (case ch_percent c of Some p \<Rightarrow> p | None \<Rightarrow> 0)
      in if accumulate w then w\<lparr>contentBuffer := contentBuffer w @ [c]\<rparr>
         else w\<lparr>bytesWritten := bytesWritten w + int (cdata_length (ch_data c)),
                zout := zout w @ [\<lparr>oc_data = ch_data c, oc_currentFile = currentFile w,
                  oc_percent = overall_percent (entriesCount w) (length (zsources w))
                    currentFilePercent\<rparr>]\<rparr>)"

definition str_chunk :: "jsstr \<Rightarrow> rat \<Rightarrow> chunk" where
  "str_chunk s p = \<lparr>ch_data = StrData s, ch_percent = Some p\<rparr>"

lemma str_chunk_simps [simp]: "ch_data (str_chunk s p) = StrData s" "ch_percent (str_chunk s p) = Some p"
  by (simp_all add: str_chunk_def)

definition streamed :: "zip_worker \<Rightarrow> stream_info \<Rightarrow> bool" where
  "streamed w info \<longleftrightarrow> streamFiles w \<and> \<not> fi_dir (si_file info)"

definition openedSource :: "stream_info \<Rightarrow> zip_worker \<Rightarrow> zip_worker" where
  "openedSource streamInfo w =
     (let w = w\<lparr>currentSourceOffset := bytesWritten w,
                currentFile := Some (fi_name (si_file streamInfo))\<rparr>;
          streamedContent = streamed w streamInfo
      in if streamedContent
         then zw_push (str_chunk (fileRecord (generateZipParts streamInfo streamedContent False
                (currentSourceOffset w) (zipPlatform w) (encodeFileName w))) 0) w
         else w\<lparr>accumulate := True\<rparr>)"

text \<open>\<open>while (this.contentBuffer.length) this.push(this.contentBuffer.shift())\<close>\<close>

fun push_buffer :: "chunk list \<Rightarrow> zip_worker \<Rightarrow> zip_worker" where
  "push_buffer [] w = w\<lparr>contentBuffer := []\<rparr>"
| "push_buffer (c # cs) w = push_buffer cs (zw_push c (w\<lparr>contentBuffer := cs\<rparr>))"

definition closedSource :: "stream_info \<Rightarrow> zip_worker \<Rightarrow> zip_worker" where
  "closedSource streamInfo w =
     (let w = w\<lparr>accumulate := False\<rparr>;
          streamedContent = streamed w streamInfo;
          parts = generateZipParts streamInfo streamedContent True (currentSourceOffset w)
            (zipPlatform w) (encodeFileName w);
          w = w\<lparr>dirRecords := dirRecords w @ [dirRecord parts]\<rparr>;
          w = (if streamedContent
               then zw_push (str_chunk (generateDataDescriptors streamInfo) 100) w
               else let w = zw_push (str_chunk (fileRecord parts) 0) w
                    in push_buffer (contentBuffer w) w)
      in w\<lparr>currentFile := None\<rparr>)"

definition zw_flush :: "zip_worker \<Rightarrow> zip_worker" where
  "zw_flush w =
     (let localDirLength = bytesWritten w;
          w = fold (\<lambda>d. zw_push (str_chunk d 100)) (dirRecords w) w;
          centralDirLength = bytesWritten w - localDirLength;
          dirEnd = generateCentralDirectoryEnd (int (length (dirRecords w))) centralDirLength
            localDirLength (zipComment w) (encodeFileName w)
      in zw_push (str_chunk dirEnd 100) w)"

text \<open>
  One source from \<open>prepareNextSource\<close> (which shifts it off \<open>_sources\<close>) to its \<open>end\<close>
  event; \<open>registerPrevious\<close> queues a source; the whole run, ending with \<open>flush\<close>.
\<close>

definition registerSource :: "source \<Rightarrow> zip_worker \<Rightarrow> zip_worker" where
  "registerSource s w = w\<lparr>zsources := zsources w @ [s]\<rparr>"

definition run_source :: "source \<Rightarrow> zip_worker \<Rightarrow> zip_worker" where
  "run_source s w =
     closedSource (src_closed s) (fold zw_push (src_chunks s) (openedSource (src_opened s) w))"

fun run_sources :: "source list \<Rightarrow> zip_worker \<Rightarrow> zip_worker" where
  "run_sources [] w = zw_flush w"
| "run_sources (s # ss) w = run_sources ss (run_source s (w\<lparr>zsources := ss\<rparr>))"

definition zw_run :: "zip_worker \<Rightarrow> zip_worker" where
  "zw_run w = run_sources (zsources w) w"

definition zip_output :: "zip_worker \<Rightarrow> byte list" where
  "zip_output w = concat (map (cdata_bytes \<circ> oc_data) (zout w))"

section \<open>The layout of a ZIP file\<close>

text \<open>
  What the worker promises: each entry is its local header, its content and, when
  streamed, a data descriptor; then come the directory records, each with the offset of
  its local header, and the end record.
\<close>

record zip_config =
  zc_stream :: bool
  zc_platform :: jsstr
  zc_encoder :: name_encoder

definition config :: "zip_worker \<Rightarrow> zip_config" where
  "config w = \<lparr>zc_stream = streamFiles w, zc_platform = zipPlatform w, zc_encoder = encodeFileName w\<rparr>"

definition source_content :: "source \<Rightarrow> byte list" where
  "source_content s = concat (map (cdata_bytes \<circ> ch_data) (src_chunks s))"

definition entry_streamed :: "zip_config \<Rightarrow> source \<Rightarrow> bool" where
  "entry_streamed c s \<longleftrightarrow> zc_stream c \<and> \<not> fi_dir (si_file (src_closed s))"

definition entry_parts :: "zip_config \<Rightarrow> int \<Rightarrow> source \<Rightarrow> zip_parts" where
  "entry_parts c off s =
     generateZipParts (src_closed s) (entry_streamed c s) True off (zc_platform c) (zc_encoder c)"

definition entry_local :: "zip_config \<Rightarrow> int \<Rightarrow> source \<Rightarrow> byte list" where
  "entry_local c off s =
     (if entry_streamed c s
      then str_bytes (fileRecord (generateZipParts (src_opened s) True False off
             (zc_platform c) (zc_encoder c))) @
           source_content s @ str_bytes (generateDataDescriptors (src_closed s))
      else str_bytes (fileRecord (entry_parts c off s)) @ source_content s)"

fun local_area :: "zip_config \<Rightarrow> int \<Rightarrow> source list \<Rightarrow> byte list" where
  "local_area c off [] = []"
| "local_area c off (s # ss) =
     entry_local c off s @ local_area c (off + int (length (entry_local c off s))) ss"

fun dir_records :: "zip_config \<Rightarrow> int \<Rightarrow> source list \<Rightarrow> jsstr list" where
  "dir_records c off [] = []"
| "dir_records c off (s # ss) =
     dirRecord (entry_parts c off s) #
       dir_records c (off + int (length (entry_local c off s))) ss"

definition zip_layout :: "zip_config \<Rightarrow> jsstr \<Rightarrow> source list \<Rightarrow> byte list" where
  "zip_layout c comment ss =
     (let locals = local_area c 0 ss; dirs = concat (map str_bytes (dir_records c 0 ss))
      in locals @ dirs @ str_bytes (generateCentralDirectoryEnd (int (length ss))
           (int (length dirs)) (int (length locals)) comment (zc_encoder c)))"

section \<open>The worker emits this layout\<close>

lemma length_cdata_bytes [simp]: "length (cdata_bytes d) = cdata_length d"
  by (cases d) simp_all

definition written_ok :: "zip_worker \<Rightarrow> bool" where
  "written_ok w \<longleftrightarrow> bytesWritten w = int (length (zip_output w))"

definition fixed_part :: "zip_worker \<Rightarrow> zip_config \<times> jsstr \<times> nat" where
  "fixed_part w = (config w, zipComment w, entriesCount w)"

lemma zw_push_open:
  assumes "\<not> accumulate w"
  shows "zip_output (zw_push c w) = zip_output w @ cdata_bytes (ch_data c)"
    "written_ok w \<Longrightarrow> written_ok (zw_push c w)" "\<not> accumulate (zw_push c w)"
    "contentBuffer (zw_push c w) = contentBuffer w" "dirRecords (zw_push c w) = dirRecords w"
    "currentSourceOffset (zw_push c w) = currentSourceOffset w"
    "fixed_part (zw_push c w) = fixed_part w" "currentFile (zw_push c w) = currentFile w"
    "zsources (zw_push c w) = zsources w"
  using assms by (simp_all add: zw_push_def zip_output_def written_ok_def fixed_part_def config_def)

lemma zw_push_accumulate:
  "accumulate w \<Longrightarrow> zw_push c w = w\<lparr>contentBuffer := contentBuffer w @ [c]\<rparr>"
  by (simp add: zw_push_def)

lemma fold_push_accumulate:
  "accumulate w \<Longrightarrow> fold zw_push cs w = w\<lparr>contentBuffer := contentBuffer w @ cs\<rparr>"
  by (induction cs arbitrary: w) (simp_all add: zw_push_accumulate)

definition chunks_bytes :: "chunk list \<Rightarrow> byte list" where
  "chunks_bytes cs = concat (map (cdata_bytes \<circ> ch_data) cs)"

lemma fold_push_open:
  assumes "\<not> accumulate w"
  shows "zip_output (fold zw_push cs w) = zip_output w @ chunks_bytes cs \<and>
    (written_ok w \<longrightarrow> written_ok (fold zw_push cs w)) \<and> \<not> accumulate (fold zw_push cs w) \<and>
    contentBuffer (fold zw_push cs w) = contentBuffer w \<and>
    dirRecords (fold zw_push cs w) = dirRecords w \<and>
    currentSourceOffset (fold zw_push cs w) = currentSourceOffset w \<and>
    fixed_part (fold zw_push cs w) = fixed_part w"
  using assms by (induction cs arbitrary: w) (simp_all add: zw_push_open chunks_bytes_def)

lemma written_ok_buffer [simp]:
  "written_ok (w\<lparr>contentBuffer := b\<rparr>) = written_ok w" "zip_output (w\<lparr>contentBuffer := b\<rparr>) = zip_output w"
  "fixed_part (w\<lparr>contentBuffer := b\<rparr>) = fixed_part w"
  "written_ok (w\<lparr>dirRecords := d\<rparr>) = written_ok w" "zip_output (w\<lparr>dirRecords := d\<rparr>) = zip_output w"
  "fixed_part (w\<lparr>dirRecords := d\<rparr>) = fixed_part w"
  "written_ok (w\<lparr>accumulate := a\<rparr>) = written_ok w" "zip_output (w\<lparr>accumulate := a\<rparr>) = zip_output w"
  "fixed_part (w\<lparr>accumulate := a\<rparr>) = fixed_part w"
  "written_ok (w\<lparr>currentFile := f\<rparr>) = written_ok w" "zip_output (w\<lparr>currentFile := f\<rparr>) = zip_output w"
  "fixed_part (w\<lparr>currentFile := f\<rparr>) = fixed_part w"
  "written_ok (w\<lparr>currentSourceOffset := n\<rparr>) = written_ok w"
  "zip_output (w\<lparr>currentSourceOffset := n\<rparr>) = zip_output w"
  "fixed_part (w\<lparr>currentSourceOffset := n\<rparr>) = fixed_part w"
  "written_ok (w\<lparr>zsources := q\<rparr>) = written_ok w" "zip_output (w\<lparr>zsources := q\<rparr>) = zip_output w"
  "fixed_part (w\<lparr>zsources := q\<rparr>) = fixed_part w"
  by (simp_all add: written_ok_def zip_output_def fixed_part_def config_def)

lemma push_buffer_open:
  assumes "\<not> accumulate w"
  shows "zip_output (push_buffer cs w) = zip_output w @ chunks_bytes cs \<and>
    (written_ok w \<longrightarrow> written_ok (push_buffer cs w)) \<and> \<not> accumulate (push_buffer cs w) \<and>
    contentBuffer (push_buffer cs w) = [] \<and>
    dirRecords (push_buffer cs w) = dirRecords w \<and>
    fixed_part (push_buffer cs w) = fixed_part w"
  using assms by (induction cs arbitrary: w) (simp_all add: zw_push_open chunks_bytes_def)

definition source_ok :: "source \<Rightarrow> bool" where
  "source_ok s \<longleftrightarrow> si_file (src_opened s) = si_file (src_closed s)"

definition between_sources :: "zip_worker \<Rightarrow> bool" where
  "between_sources w \<longleftrightarrow> \<not> accumulate w \<and> contentBuffer w = [] \<and> written_ok w"

lemma streamed_config: "source_ok s \<Longrightarrow> streamed w (src_closed s) = entry_streamed (config w) s"
  "source_ok s \<Longrightarrow> streamed w (src_opened s) = entry_streamed (config w) s"
  by (simp_all add: streamed_def entry_streamed_def config_def source_ok_def)

lemma config_fields:
  "streamFiles w = zc_stream (config w)" "zipPlatform w = zc_platform (config w)"
  "encodeFileName w = zc_encoder (config w)"
  by (simp_all add: config_def)

lemma config_fixed: "config w = fst (fixed_part w)" "zipComment w = fst (snd (fixed_part w))"
  by (simp_all add: fixed_part_def)

lemma run_source_effect:
  assumes "between_sources w" "source_ok s"
  shows "zip_output (run_source s w) = zip_output w @ entry_local (config w) (bytesWritten w) s \<and>
    dirRecords (run_source s w) = dirRecords w @ [dirRecord (entry_parts (config w) (bytesWritten w) s)] \<and>
    between_sources (run_source s w) \<and> fixed_part (run_source s w) = fixed_part w"
proof -
  define w1 where "w1 = w\<lparr>currentSourceOffset := bytesWritten w,
    currentFile := Some (fi_name (si_file (src_opened s)))\<rparr>"
  have w1: "\<not> accumulate w1" "contentBuffer w1 = []" "written_ok w1" "zip_output w1 = zip_output w"
    "dirRecords w1 = dirRecords w" "fixed_part w1 = fixed_part w" "config w1 = config w"
    "currentSourceOffset w1 = bytesWritten w" "bytesWritten w1 = bytesWritten w"
    using assms by (simp_all add: w1_def between_sources_def config_def)
  have op: "openedSource (src_opened s) w =
    (if entry_streamed (config w) s
     then zw_push (str_chunk (fileRecord (generateZipParts (src_opened s) True False (bytesWritten w)
            (zc_platform (config w)) (zc_encoder (config w)))) 0) w1
     else w1\<lparr>accumulate := True\<rparr>)"
    using assms(2) w1 by (simp add: openedSource_def w1_def [symmetric] Let_def streamed_config config_fields)
  show ?thesis
  proof (cases "entry_streamed (config w) s")
    case True
    define w2 where "w2 = openedSource (src_opened s) w"
    define w3 where "w3 = fold zw_push (src_chunks s) w2"
    have w2: "zip_output w2 = zip_output w @ str_bytes (fileRecord (generateZipParts (src_opened s) True False
        (bytesWritten w) (zc_platform (config w)) (zc_encoder (config w))))"
      "written_ok w2" "\<not> accumulate w2" "contentBuffer w2 = []" "dirRecords w2 = dirRecords w"
      "fixed_part w2 = fixed_part w" "currentSourceOffset w2 = bytesWritten w"
      using True w1 by (simp_all add: w2_def op zw_push_open str_chunk_def)
    have w3: "zip_output w3 = zip_output w2 @ source_content s" "written_ok w3" "\<not> accumulate w3"
      "contentBuffer w3 = []" "dirRecords w3 = dirRecords w" "fixed_part w3 = fixed_part w"
      "currentSourceOffset w3 = bytesWritten w"
      using fold_push_open [OF w2(3), of "src_chunks s"] w2
      by (simp_all add: w3_def source_content_def chunks_bytes_def)
    have c: "config (w3\<lparr>accumulate := False\<rparr>) = config w" using w3(6) by (simp add: config_fixed)
    show ?thesis
      using w3 w2(1) True assms(2) c
      by (simp add: run_source_def w2_def [symmetric] w3_def [symmetric] closedSource_def Let_def
          streamed_config config_fields zw_push_open between_sources_def entry_parts_def
          entry_local_def str_chunk_def)
  next
    case False
    define w3 where "w3 = fold zw_push (src_chunks s) (w1\<lparr>accumulate := True\<rparr>)"
    have w3: "w3 = w1\<lparr>accumulate := True, contentBuffer := src_chunks s\<rparr>"
      using w1(2) by (simp add: w3_def fold_push_accumulate)
    have c: "config (w3\<lparr>accumulate := False\<rparr>) = config w"
      using w1(6) by (simp add: config_fixed w3)
    let ?r = "fileRecord (entry_parts (config w) (bytesWritten w) s)"
    define w4 where "w4 = zw_push (str_chunk ?r 0)
      (w3\<lparr>accumulate := False, dirRecords := dirRecords w @ [dirRecord (entry_parts (config w) (bytesWritten w) s)]\<rparr>)"
    have w4: "zip_output w4 = zip_output w @ str_bytes ?r" "written_ok w4" "\<not> accumulate w4"
      "contentBuffer w4 = src_chunks s"
      "dirRecords w4 = dirRecords w @ [dirRecord (entry_parts (config w) (bytesWritten w) s)]"
      "fixed_part w4 = fixed_part w"
      using w1 by (simp_all add: w4_def w3 zw_push_open str_chunk_def)
    have "run_source s w = (push_buffer (contentBuffer w4) w4)\<lparr>currentFile := None\<rparr>"
      using False assms(2) c w1(5,8)
      by (simp add: run_source_def op w3_def [symmetric] closedSource_def Let_def streamed_config
          config_fields entry_parts_def w4_def) (simp add: w3)
    then show ?thesis
      using push_buffer_open [OF w4(3), of "contentBuffer w4"] w4 False
      by (simp add: between_sources_def entry_local_def source_content_def chunks_bytes_def)
  qed
qed

lemma chunks_bytes_records:
  "chunks_bytes (map (\<lambda>d. str_chunk d p) ds) = concat (map str_bytes ds)"
  by (induction ds) (simp_all add: chunks_bytes_def str_chunk_def)

lemma zw_flush_effect:
  assumes "between_sources w"
  shows "zip_output (zw_flush w) = zip_output w @ concat (map str_bytes (dirRecords w)) @
    str_bytes (generateCentralDirectoryEnd (int (length (dirRecords w)))
      (int (length (concat (map str_bytes (dirRecords w))))) (bytesWritten w) (zipComment w)
      (zc_encoder (config w)))"
proof -
  define w1 where "w1 = fold (\<lambda>d. zw_push (str_chunk d 100)) (dirRecords w) w"
  have f: "w1 = fold zw_push (map (\<lambda>d. str_chunk d 100) (dirRecords w)) w"
    by (simp add: w1_def fold_map comp_def)
  have w1: "zip_output w1 = zip_output w @ concat (map str_bytes (dirRecords w))" "written_ok w1"
    "\<not> accumulate w1" "dirRecords w1 = dirRecords w" "fixed_part w1 = fixed_part w"
    using fold_push_open [of w "map (\<lambda>d. str_chunk d 100) (dirRecords w)"] assms
    by (simp_all add: f between_sources_def chunks_bytes_records)
  have "bytesWritten w1 - bytesWritten w = int (length (concat (map str_bytes (dirRecords w))))"
    using w1(1,2) assms by (simp add: written_ok_def between_sources_def del: length_concat)
  then show ?thesis
    using w1 by (simp add: zw_flush_def w1_def [symmetric] Let_def zw_push_open
        config_fields config_fixed del: length_concat)
qed

lemma run_sources_effect:
  assumes "between_sources w" "list_all source_ok ss"
  shows "zip_output (run_sources ss w) =
    (let locals = local_area (config w) (bytesWritten w) ss;
         dirs = dirRecords w @ dir_records (config w) (bytesWritten w) ss;
         d = concat (map str_bytes dirs)
     in zip_output w @ locals @ d @ str_bytes (generateCentralDirectoryEnd (int (length dirs))
          (int (length d)) (bytesWritten w + int (length locals)) (zipComment w) (zc_encoder (config w))))"
  using assms
proof (induction ss arbitrary: w)
  case Nil
  then show ?case by (simp add: zw_flush_effect Let_def)
next
  case (Cons s ss)
  define w' where "w' = w\<lparr>zsources := ss\<rparr>"
  define v where "v = run_source s w'"
  have w': "between_sources w'" "config w' = config w" "bytesWritten w' = bytesWritten w"
    "zip_output w' = zip_output w" "dirRecords w' = dirRecords w" "fixed_part w' = fixed_part w"
    using Cons.prems by (simp_all add: w'_def between_sources_def config_def)
  have v: "zip_output v = zip_output w @ entry_local (config w) (bytesWritten w) s"
    "dirRecords v = dirRecords w @ [dirRecord (entry_parts (config w) (bytesWritten w) s)]"
    "between_sources v" "fixed_part v = fixed_part w"
    using run_source_effect [OF w'(1), of s] Cons.prems w' by (simp_all add: v_def)
  have c: "config v = config w" "zipComment v = zipComment w" using v(4) by (simp_all add: config_fixed)
  have b: "bytesWritten v = bytesWritten w + int (length (entry_local (config w) (bytesWritten w) s))"
    using v(1,3) Cons.prems(1) by (simp add: between_sources_def written_ok_def)
  have "list_all source_ok ss" using Cons.prems(2) by simp
  from Cons.IH [OF v(3) this] show ?case
    by (simp add: w'_def [symmetric] v_def [symmetric] Let_def c b v(1,2) add.assoc del: length_concat)
qed

lemma length_dir_records: "length (dir_records c off ss) = length ss"
  by (induction ss arbitrary: off) simp_all

lemma fold_registerSource:
  "fold registerSource ss w = w\<lparr>zsources := zsources w @ ss\<rparr>"
  by (induction ss arbitrary: w) (simp_all add: registerSource_def)

lemma worker_layout:
  assumes "list_all source_ok ss"
  shows "zip_output (zw_run (fold registerSource ss (newZipFileWorker stream comment platform encoder))) =
    zip_layout \<lparr>zc_stream = stream, zc_platform = platform, zc_encoder = encoder\<rparr> comment ss"
proof -
  let ?w = "(newZipFileWorker stream comment platform encoder)\<lparr>zsources := ss\<rparr>"
  have w: "between_sources ?w" "bytesWritten ?w = 0" "dirRecords ?w = []" "zip_output ?w = []"
    "zsources ?w = ss" "zipComment ?w = comment"
    "config ?w = \<lparr>zc_stream = stream, zc_platform = platform, zc_encoder = encoder\<rparr>"
    by (simp_all add: newZipFileWorker_def between_sources_def written_ok_def zip_output_def config_def)
  have "fold registerSource ss (newZipFileWorker stream comment platform encoder) = ?w"
    by (simp add: fold_registerSource newZipFileWorker_def)
  then show ?thesis
    using run_sources_effect [OF w(1) assms] w
    by (simp add: zw_run_def zip_layout_def Let_def length_dir_records del: length_concat)
qed

text \<open>
  Property C9. \<open>ZipFileWorker\<close> implements the layout: whatever the entries and however
  their content is cut into chunks, streamed or accumulated, what it emits is each local
  record with its content, then the directory records, each with the offset at which its
  local record was emitted, then the end record with the two lengths.
\<close>

theorem zip_worker_refines_layout:
  assumes "list_all source_ok ss"
  shows "zip_output (zw_run (fold registerSource ss (newZipFileWorker stream comment platform encoder))) =
    zip_layout \<lparr>zc_stream = stream, zc_platform = platform, zc_encoder = encoder\<rparr> comment ss"
  using assms by (rule worker_layout)

definition demo_info :: "stream_info" where
  "demo_info = \<lparr>si_file = \<lparr>fi_name = [0x61], fi_dir = False, fi_date = 1500000000000,
     fi_comment = [], fi_unixPermissions = None, fi_dosPermissions = None\<rparr>,
     si_compression = STORE, si_crc32 = 0, si_compressedSize = 0, si_uncompressedSize = 0\<rparr>"

definition demo_source :: source where
  "demo_source = \<lparr>src_opened = demo_info,
     src_chunks = [\<lparr>ch_data = ByteData [1, 2], ch_percent = Some 40\<rparr>,
                   \<lparr>ch_data = ByteData [3], ch_percent = None\<rparr>],
     src_closed = demo_info\<lparr>si_crc32 := 1438416925, si_compressedSize := 3, si_uncompressedSize := 3\<rparr>\<rparr>"

theorem zip_worker_refines_layout_witness:
  "zip_output (zw_run (fold registerSource [demo_source]
      (newZipFileWorker True [] (js ''DOS'') Utf8Encode))) =
    zip_layout \<lparr>zc_stream = True, zc_platform = js ''DOS'', zc_encoder = Utf8Encode\<rparr> [] [demo_source]"
  by (rule zip_worker_refines_layout) (simp add: source_ok_def demo_source_def)

section \<open>Progress\<close>

text \<open>
  The percentage of a chunk: with \<open>n\<close> entries, the part of the current one is between
  \<open>100 * k / n\<close> and \<open>100 * (k + 1) / n\<close> when \<open>k\<close> entries are done.
\<close>

definition percent_ok :: "chunk \<Rightarrow> bool" where
  "percent_ok c \<longleftrightarrow> (case ch_percent c of None \<Rightarrow> True | Some p \<Rightarrow> 0 \<le> p \<and> p \<le> 100)"

definition progress_ok :: "zip_worker \<Rightarrow> bool" where
  "progress_ok w \<longleftrightarrow> (\<forall>c \<in> set (zout w). 0 \<le> oc_percent c \<and> oc_percent c \<le> 100) \<and>
     (\<forall>c \<in> set (contentBuffer w). percent_ok c) \<and>
     (entriesCount w = 0 \<or> length (zsources w) < entriesCount w)"

lemma overall_percent_range:
  assumes "0 \<le> p" "p \<le> 100" "n = 0 \<or> r < n"
  shows "0 \<le> overall_percent n r p" "overall_percent n r p \<le> 100"
proof -
  have "0 \<le> p + 100 * (of_nat n - of_nat r - 1)" "p + 100 * (of_nat n - of_nat r - 1) \<le> 100 * of_nat n"
    if "r < n"
  proof -
    have "(of_nat r :: rat) + 1 \<le> of_nat n" using that by (metis Suc_leI of_nat_Suc of_nat_le_iff add.commute)
    moreover have "(0 :: rat) \<le> of_nat r" by simp
    ultimately show "0 \<le> p + 100 * (of_nat n - of_nat r - 1)"
      "p + 100 * (of_nat n - of_nat r - 1) \<le> 100 * of_nat n"
      using assms(1,2) by (simp_all add: algebra_simps)
  qed
  then show "0 \<le> overall_percent n r p" "overall_percent n r p \<le> 100"
    using assms(3) by (auto simp: overall_percent_def divide_le_eq)
qed

lemma zw_push_progress: "progress_ok w \<Longrightarrow> percent_ok c \<Longrightarrow> progress_ok (zw_push c w)"
  using overall_percent_range [of "case ch_percent c of Some p \<Rightarrow> p | None \<Rightarrow> 0" "entriesCount w" "length (zsources w)"]
  by (auto simp: zw_push_def progress_ok_def percent_ok_def Let_def split: option.splits)

lemma fold_push_progress:
  "progress_ok w \<Longrightarrow> list_all percent_ok cs \<Longrightarrow> progress_ok (fold zw_push cs w)"
  by (induction cs arbitrary: w) (simp_all add: zw_push_progress)

lemma push_buffer_progress:
  "progress_ok w \<Longrightarrow> \<forall>c \<in> set cs. percent_ok c \<Longrightarrow> progress_ok (push_buffer cs w)"
proof (induction cs arbitrary: w)
  case (Cons c cs)
  have "progress_ok (w\<lparr>contentBuffer := cs\<rparr>)" using Cons.prems by (simp add: progress_ok_def)
  then show ?case using Cons zw_push_progress by simp
qed (simp add: progress_ok_def)

lemma str_chunk_percent: "0 \<le> p \<Longrightarrow> p \<le> 100 \<Longrightarrow> percent_ok (str_chunk d p)"
  by (simp add: percent_ok_def str_chunk_def)

lemma progress_ok_fields:
  "progress_ok (w\<lparr>accumulate := a\<rparr>) = progress_ok w" "progress_ok (w\<lparr>dirRecords := d\<rparr>) = progress_ok w"
  "progress_ok (w\<lparr>currentFile := f\<rparr>) = progress_ok w"
  "progress_ok (w\<lparr>currentSourceOffset := n\<rparr>) = progress_ok w"
  by (simp_all add: progress_ok_def)

lemma openedSource_progress: "progress_ok w \<Longrightarrow> progress_ok (openedSource i w)"
  by (simp add: openedSource_def Let_def zw_push_progress str_chunk_percent progress_ok_fields)

lemma closedSource_progress:
  assumes "progress_ok w"
  shows "progress_ok (closedSource i w)"
proof -
  have b: "progress_ok v \<Longrightarrow> progress_ok (push_buffer (contentBuffer v) v)" for v
    by (rule push_buffer_progress) (simp_all add: progress_ok_def)
  show ?thesis using assms
    by (simp add: closedSource_def Let_def zw_push_progress str_chunk_percent progress_ok_fields b)
qed

lemma run_source_progress:
  "progress_ok w \<Longrightarrow> list_all percent_ok (src_chunks s) \<Longrightarrow> progress_ok (run_source s w)"
  by (simp add: run_source_def closedSource_progress fold_push_progress openedSource_progress)

lemma zw_flush_progress: "progress_ok w \<Longrightarrow> progress_ok (zw_flush w)"
proof -
  assume "progress_ok w"
  then have "progress_ok (fold (\<lambda>d. zw_push (str_chunk d 100)) ds w)" for ds
    by (induction ds arbitrary: w) (simp_all add: zw_push_progress str_chunk_percent)
  then show ?thesis by (simp add: zw_flush_def Let_def zw_push_progress str_chunk_percent)
qed

lemma zw_push_entries [simp]: "entriesCount (zw_push c w) = entriesCount w"
  by (simp add: zw_push_def Let_def)

lemma fold_push_entries [simp]: "entriesCount (fold zw_push cs w) = entriesCount w"
  by (induction cs arbitrary: w) simp_all

lemma push_buffer_entries [simp]: "entriesCount (push_buffer cs w) = entriesCount w"
  by (induction cs arbitrary: w) simp_all

lemma run_source_entries [simp]: "entriesCount (run_source s w) = entriesCount w"
  by (simp add: run_source_def closedSource_def openedSource_def Let_def)

lemma run_sources_progress:
  "progress_ok w \<Longrightarrow> entriesCount w = 0 \<or> length ss \<le> entriesCount w \<Longrightarrow>
    list_all (\<lambda>s. list_all percent_ok (src_chunks s)) ss \<Longrightarrow> progress_ok (run_sources ss w)"
proof (induction ss arbitrary: w)
  case (Cons s ss)
  let ?w = "w\<lparr>zsources := ss\<rparr>"
  have "progress_ok ?w" using Cons.prems by (auto simp: progress_ok_def)
  then show ?case using Cons.prems by (auto intro!: Cons.IH run_source_progress)
qed (simp add: zw_flush_progress)

text \<open>
  Property C29. Progress is a percentage: when every source reports percentages (or none)
  and \<open>entriesCount\<close> is the number of sources, every chunk the worker emits carries a
  percentage between 0 and 100.
\<close>

theorem zip_worker_progress:
  assumes "list_all (\<lambda>s. list_all percent_ok (src_chunks s)) ss"
  shows "list_all (\<lambda>c. 0 \<le> oc_percent c \<and> oc_percent c \<le> 100)
    (zout (zw_run ((fold registerSource ss
       (newZipFileWorker stream comment platform encoder))\<lparr>entriesCount := length ss\<rparr>)))"
proof -
  let ?w = "(newZipFileWorker stream comment platform encoder)\<lparr>entriesCount := length ss\<rparr>"
  have r: "run_sources ss (?w\<lparr>zsources := ss\<rparr>) = run_sources ss ?w" if "ss \<noteq> []"
    using that by (cases ss) (simp_all add: newZipFileWorker_def)
  have p: "progress_ok (run_sources ss ?w)"
  proof (cases "ss = []")
    case True
    have "progress_ok ?w" by (simp add: progress_ok_def newZipFileWorker_def)
    then show ?thesis by (simp add: True zw_flush_progress)
  next
    case False
    then show ?thesis using assms(1)
      by (intro run_sources_progress) (simp_all add: progress_ok_def newZipFileWorker_def)
  qed
  have "zw_run ((fold registerSource ss (newZipFileWorker stream comment platform encoder))\<lparr>entriesCount := length ss\<rparr>)
      = run_sources ss (?w\<lparr>zsources := ss\<rparr>)"
    by (simp add: zw_run_def fold_registerSource newZipFileWorker_def)
  also have "\<dots> = run_sources ss ?w"
    using r by (cases "ss = []") (simp_all add: newZipFileWorker_def)
  finally show ?thesis using p by (simp add: progress_ok_def list_all_iff)
qed

theorem zip_worker_progress_witness:
  "list_all (\<lambda>c. 0 \<le> oc_percent c \<and> oc_percent c \<le> 100)
    (zout (zw_run ((fold registerSource [demo_source]
       (newZipFileWorker True [] (js ''DOS'') Utf8Encode))\<lparr>entriesCount := length [demo_source]\<rparr>)))"
  by (rule zip_worker_progress) (simp add: demo_source_def percent_ok_def)

end
