(* ===== verification/ZipReader.thy ===== *)
theory ZipReader
  imports DataReader ZipWriter
begin

text \<open>
  \<open>lib/zipEntries\<close> and \<open>lib/zipEntry\<close> of JSZip: reading the end of the central
  directory (with its ZIP64 variant), the central directory, and the local parts.

  Two loops of this code may fail to end on a corrupt file, so the functions that
  contain a loop return an option: \<open>None\<close> is a run that never returns,
  \<open>Some (Inl e)\<close> one that throws and \<open>Some (Inr x)\<close> one that returns.
\<close>

type_synonym 'a zres = "(zip_error + 'a) option"

definition obind :: "'a zres \<Rightarrow> ('a \<Rightarrow> 'b zres) \<Rightarrow> 'b zres" where
  "obind m f = Option.bind m (\<lambda>s. case s of Inl e \<Rightarrow> Some (Inl e) | Inr x \<Rightarrow> f x)"

lemma obind_simps [simp]:
  "obind None f = None" "obind (Some (Inl e)) f = Some (Inl e)" "obind (Some (Inr x)) f = f x"
  by (simp_all add: obind_def)

lemma obind_mono [partial_function_mono]:
  assumes "mono_option B" "\<And>y. mono_option (C y)"
  shows "mono_option (\<lambda>f. obind (B f) (\<lambda>y. C y f))"
proof -
  have "mono_option (\<lambda>f. case s of Inl e \<Rightarrow> Some (Inl e) | Inr x \<Rightarrow> C x f)" for s
    using assms(2) by (cases s) (simp_all add: option.const_mono)
  then show ?thesis unfolding obind_def using assms(1) by (intro bind_mono) auto
qed

section \<open>Entries\<close>

record extra_field =
  ef_id :: int
  ef_length :: int
  ef_value :: "int list"

record compressed_object =
  co_compressedSize :: int
  co_uncompressedSize :: int
  co_crc32 :: int
  co_compression :: compression
  co_content :: "int list"

record zip_entry =
  versionMadeBy :: int
  bitFlag :: int
  compressionMethod :: jsstr
  entry_date :: int
  entry_crc32 :: int
  compressedSize :: int
  uncompressedSize :: int
  extraFieldsLength :: int
  fileCommentLength :: int
  diskNumberStart :: int
  internalFileAttributes :: int
  externalFileAttributes :: int
  localHeaderOffset :: int
  extraFields :: "int \<rightharpoonup> extra_field"
  fileComment :: "int list"
  fileNameLength :: int
  fileName :: "int list"
  decompressed :: "compressed_object option"
  fileNameStr :: jsstr
  fileCommentStr :: jsstr
  entry_unixPermissions :: "int option"
  entry_dosPermissions :: "int option"
  entry_dir :: bool

text \<open>\<open>new ZipEntry\<close>: no field is set yet.\<close>

definition newZipEntry :: zip_entry where
  "newZipEntry = \<lparr>versionMadeBy = 0, bitFlag = 0, compressionMethod = [], entry_date = 0,
     entry_crc32 = 0, compressedSize = 0, uncompressedSize = 0, extraFieldsLength = 0,
     fileCommentLength = 0, diskNumberStart = 0, internalFileAttributes = 0,
     externalFileAttributes = 0, localHeaderOffset = 0, extraFields = Map.empty, fileComment = [],
     fileNameLength = 0, fileName = [], decompressed = None, fileNameStr = [], fileCommentStr = [],
     entry_unixPermissions = None, entry_dosPermissions = None, entry_dir = False\<rparr>"

definition MAX_VALUE_16BITS :: int where "MAX_VALUE_16BITS = 65535"
definition MAX_VALUE_32BITS :: int where "MAX_VALUE_32BITS = - 1"

definition findCompression :: "jsstr \<Rightarrow> compression option" where
  "findCompression method =
     (if magic STORE = method then Some STORE
      else if magic DEFLATE = method then Some DEFLATE else None)"

definition isEncrypted :: "zip_entry \<Rightarrow> bool" where
  "isEncrypted e \<longleftrightarrow> js_and (bitFlag e) 0x0001 = 0x0001"

definition useUTF8 :: "zip_entry \<Rightarrow> bool" where
  "useUTF8 e \<longleftrightarrow> js_and (bitFlag e) 0x0800 = 0x0800"

text \<open>\<open>while (reader.index < end)\<close> of \<open>readExtraFields\<close>.\<close>

partial_function (option) extra_fields_loop ::
  "int \<Rightarrow> (int \<rightharpoonup> extra_field) \<Rightarrow> reader \<Rightarrow> ((int \<rightharpoonup> extra_field) \<times> reader) zres" where
  "extra_fields_loop stop fs r =
     (if rindex r < stop
      then obind (Some (readInt 2 r)) (\<lambda>(fieldId, r).
           obind (Some (readInt 2 r)) (\<lambda>(len, r).
           obind (Some (readData len r)) (\<lambda>(val, r).
           extra_fields_loop stop
             (fs(fieldId \<mapsto> \<lparr>ef_id = fieldId, ef_length = len, ef_value = val\<rparr>)) r)))
      else Some (Inr (fs, r)))"

definition readExtraFields :: "reader \<Rightarrow> zip_entry \<Rightarrow> (zip_entry \<times> reader) zres" where
  "readExtraFields r e =
     obind (extra_fields_loop (rindex r + extraFieldsLength e) (extraFields e) r) (\<lambda>(fs, r).
       Some (Inr (e\<lparr>extraFields := fs\<rparr>, r)))"

text \<open>
  \<open>parseZIP64ExtraField\<close>; the reader made for a value is of the kind that gave the
  value. A field is replaced only when the record said it does not fit.
\<close>

definition zip64_value :: "bool \<Rightarrow> nat \<Rightarrow> int \<Rightarrow> reader \<Rightarrow> zip_error + int \<times> reader" where
  "zip64_value needed n old r = (if needed then readInt n r else Inr (old, r))"

definition parseZIP64ExtraField :: "reader_kind \<Rightarrow> zip_entry \<Rightarrow> zip_error + zip_entry" where
  "parseZIP64ExtraField k e =
     (case extraFields e 1 of None \<Rightarrow> Inr e
      | Some f \<Rightarrow>
          rbind (zip64_value (uncompressedSize e = MAX_VALUE_32BITS) 8 (uncompressedSize e)
                   (newReader k (ef_value f))) (\<lambda>(us, x).
          rbind (zip64_value (compressedSize e = MAX_VALUE_32BITS) 8 (compressedSize e) x) (\<lambda>(cs, x).
          rbind (zip64_value (localHeaderOffset e = MAX_VALUE_32BITS) 8 (localHeaderOffset e) x) (\<lambda>(off, x).
          rbind (zip64_value (diskNumberStart e = MAX_VALUE_32BITS) 4 (diskNumberStart e) x) (\<lambda>(dn, x).
          Inr (e\<lparr>uncompressedSize := us, compressedSize := cs, localHeaderOffset := off,
                 diskNumberStart := dn\<rparr>))))))"

text \<open>The fixed part of a central record, up to the test for encryption.\<close>

definition readCentralHeader :: "reader \<Rightarrow> zip_entry \<Rightarrow> zip_error + int \<times> zip_entry \<times> reader" where
  "readCentralHeader r e =
     rbind (readInt 2 r) (\<lambda>(v, r).
     rbind (skip 2 r) (\<lambda>r.
     rbind (readInt 2 r) (\<lambda>(flag, r).
     rbind (readString 2 r) (\<lambda>(method, r).
     rbind (readDate r) (\<lambda>(date, r).
     rbind (readInt 4 r) (\<lambda>(crc, r).
     rbind (readInt 4 r) (\<lambda>(cs, r).
     rbind (readInt 4 r) (\<lambda>(us, r).
     rbind (readInt 2 r) (\<lambda>(nameLength, r).
     rbind (readInt 2 r) (\<lambda>(extraLength, r).
     rbind (readInt 2 r) (\<lambda>(commentLength, r).
     rbind (readInt 2 r) (\<lambda>(disk, r).
     rbind (readInt 2 r) (\<lambda>(internal, r).
     rbind (readInt 4 r) (\<lambda>(external, r).
     rbind (readInt 4 r) (\<lambda>(off, r).
       let e = e\<lparr>versionMadeBy := v, bitFlag := flag, compressionMethod := method,
                 entry_date := date, entry_crc32 := crc, compressedSize := cs,
                 uncompressedSize := us, extraFieldsLength := extraLength,
                 fileCommentLength := commentLength, diskNumberStart := disk,
                 internalFileAttributes := internal, externalFileAttributes := external,
                 localHeaderOffset := off\<rparr>
       in if isEncrypted e then Inl Encrypted else Inr (nameLength, e, r))))))))))))))))"

definition readCentralPart :: "reader \<Rightarrow> zip_entry \<Rightarrow> (zip_entry \<times> reader) zres" where
  "readCentralPart r e =
     obind (Some (readCentralHeader r e)) (\<lambda>(nameLength, e, r).
     obind (Some (skip nameLength r)) (\<lambda>r.
     obind (readExtraFields r e) (\<lambda>(e, r).
     obind (Some (parseZIP64ExtraField (rkind r) e)) (\<lambda>e.
     obind (Some (readData (fileCommentLength e) r)) (\<lambda>(comment, r).
     Some (Inr (e\<lparr>fileComment := comment\<rparr>, r)))))))"

definition readLocalPart :: "reader \<Rightarrow> zip_entry \<Rightarrow> zip_error + zip_entry \<times> reader" where
  "readLocalPart r e =
     rbind (skip 22 r) (\<lambda>r.
     rbind (readInt 2 r) (\<lambda>(nameLength, r).
     rbind (readInt 2 r) (\<lambda>(localExtraFieldsLength, r).
     rbind (readData nameLength r) (\<lambda>(name, r).
     rbind (skip localExtraFieldsLength r) (\<lambda>r.
       if compressedSize e = - 1 \<or> uncompressedSize e = - 1 then Inl SizesUnknown
       else case findCompression (compressionMethod e) of
           None \<Rightarrow> Inl (UnknownCompression (compressionMethod e) (map word_of_int name))
         | Some c \<Rightarrow>
             rbind (readData (compressedSize e) r) (\<lambda>(content, r).
             Inr (e\<lparr>fileNameLength := nameLength, fileName := name,
                    decompressed := Some \<lparr>co_compressedSize = compressedSize e,
                      co_uncompressedSize = uncompressedSize e, co_crc32 = entry_crc32 e,
                      co_compression = c, co_content = content\<rparr>\<rparr>, r)))))))"

text \<open>\<open>utils.transformTo\<close> to a byte array, and \<open>crc32fn\<close> on what a reader gave.\<close>

definition to_bytes :: "int list \<Rightarrow> byte list" where
  "to_bytes d = map word_of_int d"

definition crc_of_data :: "reader_kind \<Rightarrow> int list \<Rightarrow> int" where
  "crc_of_data k d =
     crc32wrapper (if k = StringReader then CrcString (map word_of_int d) else CrcArray d) None"

text \<open>
  \<open>findExtraFieldUnicodePath\<close> and \<open>findExtraFieldUnicodeComment\<close>: version 1, the
  checksum of the raw bytes, then the UTF-8 text.
\<close>

definition unicode_text :: "reader_kind \<Rightarrow> int list \<Rightarrow> extra_field \<Rightarrow> zip_error + jsstr option" where
  "unicode_text k raw f =
     rbind (readInt 1 (newReader k (ef_value f))) (\<lambda>(version, x).
     if version \<noteq> 1 then Inr None
     else rbind (readInt 4 x) (\<lambda>(crc, x).
       if crc_of_data k raw \<noteq> crc then Inr None
       else rbind (readData (ef_length f - 5) x) (\<lambda>(d, x).
         Inr (Some (utf8decode (to_bytes d))))))"

definition findExtraFieldUnicodePath :: "reader_kind \<Rightarrow> zip_entry \<Rightarrow> zip_error + jsstr option" where
  "findExtraFieldUnicodePath k e =
     (case extraFields e 0x7075 of None \<Rightarrow> Inr None | Some f \<Rightarrow> unicode_text k (fileName e) f)"

definition findExtraFieldUnicodeComment :: "reader_kind \<Rightarrow> zip_entry \<Rightarrow> zip_error + jsstr option" where
  "findExtraFieldUnicodeComment k e =
     (case extraFields e 0x6375 of None \<Rightarrow> Inr None | Some f \<Rightarrow> unicode_text k (fileComment e) f)"

definition handleUTF8 ::
  "(byte list \<Rightarrow> jsstr) \<Rightarrow> reader_kind \<Rightarrow> zip_entry \<Rightarrow> zip_error + zip_entry" where
  "handleUTF8 decodeFileName k e =
     (if useUTF8 e
      then Inr (e\<lparr>fileNameStr := utf8decode (to_bytes (fileName e)),
                  fileCommentStr := utf8decode (to_bytes (fileComment e))\<rparr>)
      else rbind (findExtraFieldUnicodePath k e) (\<lambda>upath.
           let e = e\<lparr>fileNameStr := (case upath of Some s \<Rightarrow> s
                       | None \<Rightarrow> decodeFileName (to_bytes (fileName e)))\<rparr>
           in rbind (findExtraFieldUnicodeComment k e) (\<lambda>ucomment.
              Inr (e\<lparr>fileCommentStr := (case ucomment of Some s \<Rightarrow> s
                       | None \<Rightarrow> decodeFileName (to_bytes (fileComment e)))\<rparr>))))"

definition processAttributes :: "zip_entry \<Rightarrow> zip_entry" where
  "processAttributes e =
     (let madeBy = js_shr (versionMadeBy e) 8;
          isDir = (js_and (externalFileAttributes e) 0x0010 \<noteq> 0)
      in e\<lparr>entry_dosPermissions :=
             (if madeBy = 0x00 then Some (js_and (externalFileAttributes e) 0x3F) else None),
           entry_unixPermissions :=
             (if madeBy = 0x03 then Some (js_and (js_shr (externalFileAttributes e) 16) 0xFFFF) else None),
           entry_dir := isDir \<or> (fileNameStr e \<noteq> [] \<and> last (fileNameStr e) = 0x2F)\<rparr>)"

section \<open>Entries of a file\<close>

record zip_entries =
  ze_reader :: reader
  ze_files :: "zip_entry list"
  diskNumber :: int
  diskWithCentralDirStart :: int
  centralDirRecordsOnThisDisk :: int
  centralDirRecords :: int
  centralDirSize :: int
  centralDirOffset :: int
  zipCommentLength :: int
  ze_zipComment :: jsstr
  zip64 :: bool
  zip64EndOfCentralSize :: int
  diskWithZip64CentralDirStart :: int
  relativeOffsetEndOfZip64CentralDir :: int
  disksCount :: int
  zip64ExtensibleData :: "int \<rightharpoonup> extra_field"

text \<open>\<open>new ZipEntries\<close> and \<open>prepareReader\<close>.\<close>

definition newZipEntries :: "bool \<Rightarrow> data_type \<Rightarrow> int list \<Rightarrow> zip_entries" where
  "newZipEntries uint8array type d = \<lparr>ze_reader = readerFor uint8array type d, ze_files = [],
     diskNumber = 0, diskWithCentralDirStart = 0, centralDirRecordsOnThisDisk = 0,
     centralDirRecords = 0, centralDirSize = 0, centralDirOffset = 0, zipCommentLength = 0,
     ze_zipComment = [], zip64 = False, zip64EndOfCentralSize = 0,
     diskWithZip64CentralDirStart = 0, relativeOffsetEndOfZip64CentralDir = 0, disksCount = 0,
     zip64ExtensibleData = Map.empty\<rparr>"

text \<open>After a mismatch the signature is read again, for the message.\<close>

definition checkSignature :: "jsstr \<Rightarrow> reader \<Rightarrow> zip_error + reader" where
  "checkSignature expected r =
     rbind (readAndCheckSignature expected r) (\<lambda>(ok, r).
       if \<not> ok
       then rbind (readString 4 (r\<lparr>rindex := rindex r - 4\<rparr>)) (\<lambda>(signature, r).
              Inl (UnexpectedSignature signature expected))
       else Inr r)"

definition isSignature :: "int \<Rightarrow> jsstr \<Rightarrow> reader \<Rightarrow> zip_error + bool \<times> reader" where
  "isSignature askedIndex expected r =
     (let currentIndex = rindex r
      in rbind (setIndex askedIndex r) (\<lambda>r.
         rbind (readString 4 r) (\<lambda>(signature, r).
         rbind (setIndex currentIndex r) (\<lambda>r.
         Inr (signature = expected, r)))))"

definition readBlockEndOfCentral ::
  "(byte list \<Rightarrow> jsstr) \<Rightarrow> zip_entries \<Rightarrow> zip_error + zip_entries" where
  "readBlockEndOfCentral decodeFileName z =
     rbind (readInt 2 (ze_reader z)) (\<lambda>(disk, r).
     rbind (readInt 2 r) (\<lambda>(diskStart, r).
     rbind (readInt 2 r) (\<lambda>(onDisk, r).
     rbind (readInt 2 r) (\<lambda>(records, r).
     rbind (readInt 4 r) (\<lambda>(dirSize, r).
     rbind (readInt 4 r) (\<lambda>(off, r).
     rbind (readInt 2 r) (\<lambda>(commentLength, r).
     rbind (readData commentLength r) (\<lambda>(comment, r).
     Inr (z\<lparr>ze_reader := r, diskNumber := disk, diskWithCentralDirStart := diskStart,
            centralDirRecordsOnThisDisk := onDisk, centralDirRecords := records,
            centralDirSize := dirSize, centralDirOffset := off, zipCommentLength := commentLength,
            ze_zipComment := decodeFileName (to_bytes comment)\<rparr>)))))))))"

text \<open>
  The loop of \<open>readBlockZip64EndOfCentral\<close>. Its \<open>index\<close> is tested but never changed.
\<close>

partial_function (option) zip64_data_loop ::
  "int \<Rightarrow> int \<Rightarrow> (int \<rightharpoonup> extra_field) \<Rightarrow> reader \<Rightarrow> ((int \<rightharpoonup> extra_field) \<times> reader) zres" where
  "zip64_data_loop index extraDataSize fs r =
     (if index < extraDataSize
      then obind (Some (readInt 2 r)) (\<lambda>(fieldId, r).
           obind (Some (readInt 4 r)) (\<lambda>(len, r).
           obind (Some (readData len r)) (\<lambda>(val, r).
           zip64_data_loop index extraDataSize
             (fs(fieldId \<mapsto> \<lparr>ef_id = fieldId, ef_length = len, ef_value = val\<rparr>)) r)))
      else Some (Inr (fs, r)))"

definition readBlockZip64EndOfCentral :: "zip_entries \<Rightarrow> zip_entries zres" where
  "readBlockZip64EndOfCentral z =
     obind (Some (readInt 8 (ze_reader z))) (\<lambda>(endSize, r).
     obind (Some (skip 4 r)) (\<lambda>r.
     obind (Some (readInt 4 r)) (\<lambda>(disk, r).
     obind (Some (readInt 4 r)) (\<lambda>(diskStart, r).
     obind (Some (readInt 8 r)) (\<lambda>(onDisk, r).
     obind (Some (readInt 8 r)) (\<lambda>(records, r).
     obind (Some (readInt 8 r)) (\<lambda>(dirSize, r).
     obind (Some (readInt 8 r)) (\<lambda>(off, r).
     obind (zip64_data_loop 0 (endSize - 44) Map.empty r) (\<lambda>(fs, r).
     Some (Inr (z\<lparr>ze_reader := r, zip64EndOfCentralSize := endSize, diskNumber := disk,
                  diskWithCentralDirStart := diskStart, centralDirRecordsOnThisDisk := onDisk,
                  centralDirRecords := records, centralDirSize := dirSize,
                  centralDirOffset := off, zip64ExtensibleData := fs\<rparr>)))))))))))"

definition readBlockZip64EndOfCentralLocator :: "zip_entries \<Rightarrow> zip_error + zip_entries" where
  "readBlockZip64EndOfCentralLocator z =
     rbind (readInt 4 (ze_reader z)) (\<lambda>(disk, r).
     rbind (readInt 8 r) (\<lambda>(off, r).
     rbind (readInt 4 r) (\<lambda>(disks, r).
     if disks > 1 then Inl MultiVolume
     else Inr (z\<lparr>ze_reader := r, diskWithZip64CentralDirStart := disk,
                 relativeOffsetEndOfZip64CentralDir := off, disksCount := disks\<rparr>))))"

definition needs_zip64 :: "zip_entries \<Rightarrow> bool" where
  "needs_zip64 z \<longleftrightarrow>
     diskNumber z = MAX_VALUE_16BITS \<or> diskWithCentralDirStart z = MAX_VALUE_16BITS \<or>
     centralDirRecordsOnThisDisk z = MAX_VALUE_16BITS \<or> centralDirRecords z = MAX_VALUE_16BITS \<or>
     centralDirSize z = MAX_VALUE_32BITS \<or> centralDirOffset z = MAX_VALUE_32BITS"

definition at_reader :: "reader \<Rightarrow> zip_entries \<Rightarrow> zip_entries" where
  "at_reader r z = z\<lparr>ze_reader := r\<rparr>"

text \<open>The ZIP64 branch of \<open>readEndOfCentral\<close>.\<close>

definition readZip64End :: "zip_entries \<Rightarrow> zip_entries zres" where
  "readZip64End z =
     (let z = z\<lparr>zip64 := True\<rparr>;
          offset = lastIndexOfSignature ZIP64_CENTRAL_DIRECTORY_LOCATOR (ze_reader z)
      in if offset < 0 then Some (Inl Zip64LocatorMissing)
         else
           obind (Some (setIndex offset (ze_reader z))) (\<lambda>r.
           obind (Some (checkSignature ZIP64_CENTRAL_DIRECTORY_LOCATOR r)) (\<lambda>r.
           obind (Some (readBlockZip64EndOfCentralLocator (at_reader r z))) (\<lambda>z.
           obind (Some (isSignature (relativeOffsetEndOfZip64CentralDir z)
                          ZIP64_CENTRAL_DIRECTORY_END (ze_reader z))) (\<lambda>(found, r).
           let z = at_reader r z;
               z = (if found then z else z\<lparr>relativeOffsetEndOfZip64CentralDir :=
                      lastIndexOfSignature ZIP64_CENTRAL_DIRECTORY_END r\<rparr>)
           in if \<not> found \<and> relativeOffsetEndOfZip64CentralDir z < 0 then Some (Inl Zip64EndMissing)
              else
                obind (Some (setIndex (relativeOffsetEndOfZip64CentralDir z) r)) (\<lambda>r.
                obind (Some (checkSignature ZIP64_CENTRAL_DIRECTORY_END r)) (\<lambda>r.
                readBlockZip64EndOfCentral (at_reader r z))))))))"

text \<open>The check of the offsets, which sets \<open>zero\<close> when something precedes the ZIP data.\<close>

definition expected_end_offset :: "zip_entries \<Rightarrow> int" where
  "expected_end_offset z =
     (let expected = centralDirOffset z + centralDirSize z
      in if zip64 z then expected + 20 + (12 + zip64EndOfCentralSize z) else expected)"

definition adjust_zero :: "int \<Rightarrow> zip_entries \<Rightarrow> zip_error + zip_entries" where
  "adjust_zero endOfCentralDirOffset z =
     (let extraBytes = endOfCentralDirOffset - expected_end_offset z
      in if extraBytes > 0
         then rbind (isSignature endOfCentralDirOffset CENTRAL_FILE_HEADER (ze_reader z)) (\<lambda>(found, r).
                if found then Inr (at_reader r z)
                else Inr (at_reader (r\<lparr>rzero := extraBytes\<rparr>) z))
         else if extraBytes < 0 then Inl (MissingBytes (\<bar>extraBytes\<bar>))
         else Inr z)"

definition readEndOfCentral :: "(byte list \<Rightarrow> jsstr) \<Rightarrow> zip_entries \<Rightarrow> zip_entries zres" where
  "readEndOfCentral decodeFileName z =
     (let offset = lastIndexOfSignature CENTRAL_DIRECTORY_END (ze_reader z)
      in if offset < 0
         then obind (Some (isSignature 0 LOCAL_FILE_HEADER (ze_reader z))) (\<lambda>(isZip, r).
                Some (Inl (if \<not> isZip then NotAZip else EndOfCentralMissing)))
         else
           obind (Some (setIndex offset (ze_reader z))) (\<lambda>r.
           obind (Some (checkSignature CENTRAL_DIRECTORY_END r)) (\<lambda>r.
           obind (Some (readBlockEndOfCentral decodeFileName (at_reader r z))) (\<lambda>z.
           obind (if needs_zip64 z then readZip64End z else Some (Inr z)) (\<lambda>z.
           Some (adjust_zero offset z))))))"

text \<open>\<open>while (this.reader.readAndCheckSignature(sig.CENTRAL_FILE_HEADER))\<close>.\<close>

partial_function (option) central_dir_loop ::
  "reader \<Rightarrow> zip_entry list \<Rightarrow> (zip_entry list \<times> reader) zres" where
  "central_dir_loop r files =
     obind (Some (readAndCheckSignature CENTRAL_FILE_HEADER r)) (\<lambda>(found, r).
     if found
     then obind (readCentralPart r newZipEntry) (\<lambda>(file, r). central_dir_loop r (files @ [file]))
     else Some (Inr (files, r)))"

definition readCentralDir :: "zip_entries \<Rightarrow> zip_entries zres" where
  "readCentralDir z =
     obind (Some (setIndex (centralDirOffset z) (ze_reader z))) (\<lambda>r.
     obind (central_dir_loop r (ze_files z)) (\<lambda>(files, r).
     if centralDirRecords z \<noteq> int (length files) \<and> centralDirRecords z \<noteq> 0 \<and> files = []
     then Some (Inl (RecordsMissing (centralDirRecords z) (int (length files))))
     else Some (Inr (z\<lparr>ze_reader := r, ze_files := files\<rparr>))))"

definition readLocalFile ::
  "(byte list \<Rightarrow> jsstr) \<Rightarrow> reader \<Rightarrow> zip_entry \<Rightarrow> zip_error + zip_entry \<times> reader" where
  "readLocalFile decodeFileName r file =
     rbind (setIndex (localHeaderOffset file) r) (\<lambda>r.
     rbind (checkSignature LOCAL_FILE_HEADER r) (\<lambda>r.
     rbind (readLocalPart r file) (\<lambda>(file, r).
     rbind (handleUTF8 decodeFileName (rkind r) file) (\<lambda>file.
     Inr (processAttributes file, r)))))"

fun read_files ::
  "(byte list \<Rightarrow> jsstr) \<Rightarrow> reader \<Rightarrow> zip_entry list \<Rightarrow> zip_error + zip_entry list \<times> reader" where
  "read_files dec r [] = Inr ([], r)"
| "read_files dec r (file # files) =
     rbind (readLocalFile dec r file) (\<lambda>(file, r).
     rbind (read_files dec r files) (\<lambda>(files, r). Inr (file # files, r)))"

definition readLocalFiles :: "(byte list \<Rightarrow> jsstr) \<Rightarrow> zip_entries \<Rightarrow> zip_error + zip_entries" where
  "readLocalFiles dec z =
     rbind (read_files dec (ze_reader z) (ze_files z)) (\<lambda>(files, r).
     Inr (z\<lparr>ze_reader := r, ze_files := files\<rparr>))"

definition load ::
  "(byte list \<Rightarrow> jsstr) \<Rightarrow> bool \<Rightarrow> data_type \<Rightarrow> int list \<Rightarrow> zip_entries zres" where
  "load decodeFileName uint8array type d =
     obind (readEndOfCentral decodeFileName (newZipEntries uint8array type d)) (\<lambda>z.
     obind (readCentralDir z) (\<lambda>z.
     Some (readLocalFiles decodeFileName z)))"

end
