(* ===== verification/ObjectStore.thy ===== *)
theory ObjectStore
  imports Utils ZipReader "HOL-Library.Sublist"
begin

text \<open>
  \<open>lib/object\<close> and \<open>lib/zipObject\<close> of JSZip: the table \<open>files\<close> that a \<open>JSZip\<close> object and all
  its folders share, and the operations on it (\<open>file\<close>, \<open>folder\<close>, \<open>remove\<close>, \<open>forEach\<close>,
  \<open>filter\<close>). The table is a plain JavaScript object, so what it inherits from
  \<open>Object.prototype\<close> and the order of \<open>for in\<close> are part of the model. A folder handle is its
  \<open>dir_root\<close>, the prefix of its names; the table itself is passed and returned.
\<close>

section \<open>Objects in the table\<close>

definition SLASH :: jschar where "SLASH = 0x2F"

text \<open>The content of a file: compressed data from an archive, a worker, or a promise of data.\<close>

datatype zip_content =
    CompressedContent compressed_object
  | WorkerContent nat
  | DataContent "util_error + js_data"

record zip_object =
  zo_name :: jsstr
  zo_dir :: bool
  zo_date :: int
  zo_comment :: "jsstr option"
  zo_unixPermissions :: "int option"
  zo_dosPermissions :: "int option"
  zo_data :: zip_content
  zo_dataBinary :: bool
  zo_compression :: "string option"
  zo_compressionOptions :: "int option"

text \<open>
  The table: its own properties in the order they were created, and its prototype, which is
  \<open>Object.prototype\<close> (\<open>None\<close>) until a property called \<open>__proto__\<close> is assigned.
\<close>

record files =
  own :: "(jsstr \<times> zip_object) list"
  proto :: "zip_object option"

definition no_files :: files where
  "no_files = \<lparr>own = [], proto = None\<rparr>"

definition PROTO :: jsstr where "PROTO = js ''__proto__''"

definition object_prototype :: "jsstr list" where
  "object_prototype = map js [''constructor'', ''__defineGetter__'', ''__defineSetter__'',
     ''hasOwnProperty'', ''__lookupGetter__'', ''__lookupSetter__'', ''isPrototypeOf'',
     ''propertyIsEnumerable'', ''toString'', ''valueOf'', ''__proto__'', ''toLocaleString'']"

text \<open>The properties of a \<open>ZipObject\<close> and of its prototype that are not false, null or empty.\<close>

definition zip_object_methods :: "jsstr list" where
  "zip_object_methods = map js [''internalStream'', ''async'', ''nodeStream'', ''_compressWorker'',
     ''_decompressWorker'', ''asText'', ''asBinary'', ''asNodeBuffer'', ''asUint8Array'',
     ''asArrayBuffer'']"

definition zip_object_truthy :: "zip_object \<Rightarrow> jsstr \<Rightarrow> bool" where
  "zip_object_truthy z p \<longleftrightarrow>
     p \<in> set object_prototype \<or> p \<in> set zip_object_methods \<or>
     p = js ''name'' \<and> zo_name z \<noteq> [] \<or> p = js ''dir'' \<and> zo_dir z \<or> p = js ''date'' \<or>
     p = js ''comment'' \<and> zo_comment z \<notin> {None, Some []} \<or>
     p = js ''unixPermissions'' \<and> zo_unixPermissions z \<notin> {None, Some 0} \<or>
     p = js ''dosPermissions'' \<and> zo_dosPermissions z \<notin> {None, Some 0} \<or>
     p = js ''_data'' \<or> p = js ''_dataBinary'' \<and> zo_dataBinary z \<or> p = js ''options''"

text \<open>
  \<open>this.files[name]\<close>: an object of the table, something inherited that counts as true and
  has no \<open>dir\<close>, or something that counts as false.
\<close>

datatype found = Entry zip_object | Inherited | Missing

definition files_get :: "files \<Rightarrow> jsstr \<Rightarrow> found" where
  "files_get fs name =
     (case map_of (own fs) name of
        Some z \<Rightarrow> Entry z
      | None \<Rightarrow>
          (case proto fs of
             None \<Rightarrow> if name \<in> set object_prototype then Inherited else Missing
           | Some z \<Rightarrow>
               if name = PROTO then Entry z
               else if zip_object_truthy z name then Inherited else Missing))"

text \<open>\<open>this.files[name] = object\<close> and \<open>delete this.files[name]\<close>.\<close>

definition files_set :: "jsstr \<Rightarrow> zip_object \<Rightarrow> files \<Rightarrow> files" where
  "files_set name z fs =
     (if name = PROTO then fs\<lparr>proto := Some z\<rparr> else fs\<lparr>own := AList.update name z (own fs)\<rparr>)"

definition files_delete :: "jsstr \<Rightarrow> files \<Rightarrow> files" where
  "files_delete name fs = fs\<lparr>own := AList.delete name (own fs)\<rparr>"

section \<open>Names\<close>

definition ends_with_slash :: "jsstr \<Rightarrow> bool" where
  "ends_with_slash path \<longleftrightarrow> path \<noteq> [] \<and> last path = SLASH"

definition forceTrailingSlash :: "jsstr \<Rightarrow> jsstr" where
  "forceTrailingSlash path = (if ends_with_slash path then path else path @ [SLASH])"

definition lastSlashIndex :: "jsstr \<Rightarrow> int" where
  "lastSlashIndex path =
     int (length path) - 1 - int (length (takeWhile (\<lambda>c. c \<noteq> SLASH) (rev path)))"

definition parentFolder :: "jsstr \<Rightarrow> jsstr" where
  "parentFolder path =
     (let path = (if ends_with_slash path then butlast path else path);
          lastSlash = lastSlashIndex path
      in if lastSlash > 0 then take (nat lastSlash) path else [])"

text \<open>
  The options of a file as the caller gives them; \<open>None\<close> is \<open>undefined\<close> (or \<open>null\<close>, where
  the default is \<open>null\<close>).
\<close>

datatype permissions = PermString string | PermNumber int

record file_options =
  fo_base64 :: "bool option"
  fo_binary :: "bool option"
  fo_dir :: "bool option"
  fo_createFolders :: "bool option"
  fo_optimizedBinaryString :: "bool option"
  fo_date :: "int option"
  fo_compression :: "string option"
  fo_compressionOptions :: "int option"
  fo_comment :: "jsstr option"
  fo_unixPermissions :: "permissions option"
  fo_dosPermissions :: "int option"

definition no_options :: file_options where
  "no_options = \<lparr>fo_base64 = None, fo_binary = None, fo_dir = None, fo_createFolders = None,
     fo_optimizedBinaryString = None, fo_date = None, fo_compression = None,
     fo_compressionOptions = None, fo_comment = None, fo_unixPermissions = None,
     fo_dosPermissions = None\<rparr>"

text \<open>\<open>parseInt(s, 8)\<close>: blanks, a sign, and the longest prefix of octal digits; \<open>None\<close> is NaN.\<close>

definition is_octal :: "char \<Rightarrow> bool" where
  "is_octal c \<longleftrightarrow> 48 \<le> (of_char c :: nat) \<and> (of_char c :: nat) \<le> 55"

definition parse_octal :: "string \<Rightarrow> int option" where
  "parse_octal s =
     (let s = dropWhile (\<lambda>c. c \<in> {CHR '' '', CHR 0x09, CHR 0x0A, CHR 0x0B, CHR 0x0C, CHR 0x0D}) s;
          neg = (s \<noteq> [] \<and> hd s = CHR ''-'');
          s = (if s \<noteq> [] \<and> (hd s = CHR ''-'' \<or> hd s = CHR ''+'') then tl s else s);
          ds = takeWhile is_octal s;
          n = foldl (\<lambda>n c. 8 * n + (of_char c - 48)) 0 ds
      in if ds = [] then None else Some (if neg then - n else n))"

section \<open>Adding\<close>

text \<open>What the caller gives as data; \<open>NoData\<close> is \<open>undefined\<close> or \<open>null\<close>.\<close>

datatype file_data =
    NoData
  | CompressedObj compressed_object
  | WorkerObj nat
  | NodeStream nat
  | PlainData content_input

text \<open>\<open>!data || data.length === 0\<close>; an \<open>ArrayBuffer\<close> has no \<open>length\<close>.\<close>

fun no_content :: "file_data \<Rightarrow> bool" where
  "no_content NoData = True"
| "no_content (PlainData (GivenData (JString s))) = (s = [])"
| "no_content (PlainData (GivenData (JArray a))) = (a = [])"
| "no_content (PlainData (GivenData (JUint8 buf off len))) = (len = 0)"
| "no_content (PlainData (GivenData (JBuffer b))) = (b = [])"
| "no_content d = False"

fun is_string_data :: "file_data \<Rightarrow> bool" where
  "is_string_data (PlainData (GivenData (JString s))) = True"
| "is_string_data d = False"

text \<open>The options with their defaults, and with the flags the permissions imply.\<close>

record full_options =
  op_base64 :: bool
  op_binary :: bool
  op_dir :: bool
  op_createFolders :: bool
  op_optimizedBinaryString :: bool
  op_date :: int
  op_compression :: "string option"
  op_compressionOptions :: "int option"
  op_comment :: "jsstr option"
  op_unixPermissions :: "int option"
  op_dosPermissions :: "int option"

definition default :: "'a option \<Rightarrow> 'a \<Rightarrow> 'a" where
  "default v d = (case v of None \<Rightarrow> d | Some x \<Rightarrow> x)"

definition file_permissions :: "permissions option \<Rightarrow> int option" where
  "file_permissions p =
     (case p of None \<Rightarrow> None | Some (PermString s) \<Rightarrow> parse_octal s | Some (PermNumber n) \<Rightarrow> Some n)"

definition resolve_options :: "int \<Rightarrow> file_options option \<Rightarrow> full_options" where
  "resolve_options now originalOptions =
     (let opt = default originalOptions no_options;
          unix = file_permissions (fo_unixPermissions opt);
          unixDir = (case unix of None \<Rightarrow> False | Some p \<Rightarrow> js_and p 0x4000 \<noteq> 0);
          dosDir = (case fo_dosPermissions opt of None \<Rightarrow> False | Some p \<Rightarrow> js_and p 0x0010 \<noteq> 0)
      in \<lparr>op_base64 = default (fo_base64 opt) False, op_binary = default (fo_binary opt) False,
          op_dir = default (fo_dir opt) False \<or> unixDir \<or> dosDir,
          op_createFolders = default (fo_createFolders opt) True,
          op_optimizedBinaryString = default (fo_optimizedBinaryString opt) False,
          op_date = default (fo_date opt) now,
          op_compression = map_option toUpperCase (fo_compression opt),
          op_compressionOptions = fo_compressionOptions opt, op_comment = fo_comment opt,
          op_unixPermissions = unix, op_dosPermissions = fo_dosPermissions opt\<rparr>)"

text \<open>The rest of \<open>fileAdd\<close>: the corrections for the data, the content, \<open>new ZipObject\<close>.\<close>

definition correct_options ::
  "file_options option \<Rightarrow> file_data \<Rightarrow> full_options \<Rightarrow> file_data \<times> full_options" where
  "correct_options originalOptions data opt =
     (let isUnicodeString = (is_string_data data \<and> \<not> op_binary opt \<and> \<not> op_base64 opt);
          binaryGiven = (case originalOptions of None \<Rightarrow> False | Some g \<Rightarrow> fo_binary g \<noteq> None);
          opt = (if binaryGiven then opt else opt\<lparr>op_binary := \<not> isUnicodeString\<rparr>);
          isCompressedEmpty = (case data of CompressedObj c \<Rightarrow> co_uncompressedSize c = 0 | _ \<Rightarrow> False)
      in if isCompressedEmpty \<or> op_dir opt \<or> no_content data
         then (PlainData (GivenData (JString [])),
               opt\<lparr>op_base64 := False, op_binary := True, op_compression := Some ''STORE''\<rparr>)
         else (data, opt))"

definition file_content :: "platform \<Rightarrow> jsstr \<Rightarrow> file_data \<Rightarrow> full_options \<Rightarrow> zip_content" where
  "file_content env name data opt =
     (let prepared = (\<lambda>d. DataContent
            (prepareContent env name d (op_binary opt) (op_optimizedBinaryString opt) (op_base64 opt)))
      in case data of
           CompressedObj c \<Rightarrow> CompressedContent c
         | WorkerObj w \<Rightarrow> WorkerContent w
         | NodeStream w \<Rightarrow> if sup_nodebuffer env then WorkerContent w else prepared GivenOther
         | NoData \<Rightarrow> prepared GivenOther
         | PlainData d \<Rightarrow> prepared d)"

definition newZipObject :: "jsstr \<Rightarrow> zip_content \<Rightarrow> full_options \<Rightarrow> zip_object" where
  "newZipObject name data opt =
     \<lparr>zo_name = name, zo_dir = op_dir opt, zo_date = op_date opt, zo_comment = op_comment opt,
      zo_unixPermissions = op_unixPermissions opt, zo_dosPermissions = op_dosPermissions opt,
      zo_data = data, zo_dataBinary = op_binary opt, zo_compression = op_compression opt,
      zo_compressionOptions = op_compressionOptions opt\<rparr>"

definition file_object ::
  "platform \<Rightarrow> jsstr \<Rightarrow> file_data \<Rightarrow> file_options option \<Rightarrow> full_options \<Rightarrow> zip_object" where
  "file_object env name data originalOptions opt =
     (let (data, opt) = correct_options originalOptions data opt
      in newZipObject name (file_content env name data opt) opt)"

text \<open>\<open>fileAdd\<close> and \<open>folderAdd\<close> call each other, on ever shorter names.\<close>

definition folder_options :: "bool \<Rightarrow> file_options" where
  "folder_options createFolders =
     no_options\<lparr>fo_dir := Some True, fo_createFolders := Some createFolders\<rparr>"

lemma lastSlashIndex_less: "lastSlashIndex path < int (length path)"
  by (simp add: lastSlashIndex_def)

lemma lastSlashIndex_last:
  assumes "path \<noteq> []" and "last path \<noteq> SLASH"
  shows "lastSlashIndex path < int (length path) - 1"
proof -
  obtain q c where q: "path = q @ [c]" using assms(1) by (cases path rule: rev_cases) auto
  then show ?thesis using assms(2) by (simp add: lastSlashIndex_def)
qed

lemma length_parentFolder:
  assumes "parentFolder path \<noteq> []"
  shows "length (parentFolder path) + 2 \<le> length path"
proof (cases "ends_with_slash path")
  case True
  then show ?thesis using assms lastSlashIndex_less [of "butlast path"]
    by (auto simp: parentFolder_def ends_with_slash_def Let_def min_def split: if_splits)
next
  case False
  then have "path \<noteq> []" "last path \<noteq> SLASH" using assms
    by (auto simp: parentFolder_def ends_with_slash_def lastSlashIndex_def split: if_splits)
  then show ?thesis using False assms lastSlashIndex_last [of path]
    by (auto simp: parentFolder_def Let_def min_def split: if_splits)
qed

lemma length_forceTrailingSlash: "length (forceTrailingSlash path) \<le> length path + 1"
  by (simp add: forceTrailingSlash_def)

lemma length_parent_forced:
  assumes "parentFolder (forceTrailingSlash path) \<noteq> []"
  shows "length (parentFolder (forceTrailingSlash path)) + 2 \<le> length path"
proof (cases "ends_with_slash path")
  case True
  then show ?thesis using length_parentFolder [OF assms] by (simp add: forceTrailingSlash_def)
next
  case False
  have p: "parentFolder (path @ [SLASH]) =
      (if lastSlashIndex path > 0 then take (nat (lastSlashIndex path)) path else [])"
    by (simp add: parentFolder_def ends_with_slash_def Let_def)
  then have "path \<noteq> []" "last path \<noteq> SLASH" using assms False
    by (auto simp: forceTrailingSlash_def ends_with_slash_def lastSlashIndex_def split: if_splits)
  then show ?thesis using p False assms lastSlashIndex_last [of path]
    by (auto simp: forceTrailingSlash_def min_def split: if_splits)
qed

function (sequential) fileAdd ::
  "platform \<Rightarrow> int \<Rightarrow> jsstr \<Rightarrow> file_data \<Rightarrow> file_options option \<Rightarrow> files \<Rightarrow> files"
and folderAdd :: "platform \<Rightarrow> int \<Rightarrow> jsstr \<Rightarrow> bool \<Rightarrow> files \<Rightarrow> files" where
  "fileAdd env now name data originalOptions fs =
     (let opt = resolve_options now originalOptions;
          name' = (if op_dir opt then forceTrailingSlash name else name);
          parent = parentFolder name';
          fs' = (if op_createFolders opt \<and> parent \<noteq> [] then folderAdd env now parent True fs else fs)
      in files_set name' (file_object env name' data originalOptions opt) fs')"
| "folderAdd env now name createFolders fs =
     (let name' = forceTrailingSlash name
      in if files_get fs name' = Missing
         then fileAdd env now name' NoData (Some (folder_options createFolders)) fs
         else fs)"
  by pat_completeness auto
termination
proof (relation "measure (\<lambda>x. case x of
      Inl (env, now, name, data, opts, fs) \<Rightarrow> 2 * length name
    | Inr (env, now, name, create, fs) \<Rightarrow> 2 * length (forceTrailingSlash name) + 1)", goal_cases)
  case (2 env now name data opts fs opt n p)
  then have "length p + 2 \<le> length name"
    using length_parentFolder [of name] length_parent_forced [of name] by (auto split: if_splits)
  then show ?case using length_forceTrailingSlash [of p] by simp
qed auto

section \<open>The operations of a folder handle\<close>

text \<open>
  \<open>for (filename in this.files)\<close> gives the names that are array indices in increasing order,
  then the others as they were created. A file called \<open>hasOwnProperty\<close> hides the method that
  \<open>forEach\<close> calls: the call throws.
\<close>

datatype store_error = NotCallable | RemovedMethod

fun decimal :: "nat \<Rightarrow> jsstr" where
  "decimal n = (if n < 10 then [of_nat (48 + n)] else decimal (n div 10) @ [of_nat (48 + n mod 10)])"

definition index_value :: "jsstr \<Rightarrow> nat" where
  "index_value name = foldl (\<lambda>n c. 10 * n + (unat c - 48)) 0 name"

definition is_index :: "jsstr \<Rightarrow> bool" where
  "is_index name \<longleftrightarrow> length name \<le> 10 \<and> index_value name < 2 ^ 32 - 1 \<and> decimal (index_value name) = name"

definition for_in :: "(jsstr \<times> zip_object) list \<Rightarrow> (jsstr \<times> zip_object) list" where
  "for_in ps = sort_key (index_value \<circ> fst) (filter (is_index \<circ> fst) ps) @
     filter (Not \<circ> is_index \<circ> fst) ps"

definition relative_entry :: "jsstr \<Rightarrow> jsstr \<times> zip_object \<Rightarrow> (jsstr \<times> zip_object) option" where
  "relative_entry dir_root p =
     (let relativePath = drop (length dir_root) (fst p)
      in if relativePath \<noteq> [] \<and> take (length dir_root) (fst p) = dir_root
         then Some (relativePath, snd p) else None)"

text \<open>\<open>forEach\<close> as the list of the calls of its callback.\<close>

definition forEach :: "jsstr \<Rightarrow> files \<Rightarrow> store_error + (jsstr \<times> zip_object) list" where
  "forEach dir_root fs =
     (if js ''hasOwnProperty'' \<in> fst ` set (own fs) then Inl NotCallable
      else Inr (List.map_filter (relative_entry dir_root) (for_in (own fs))))"

definition zip_filter ::
  "(jsstr \<Rightarrow> zip_object \<Rightarrow> bool) \<Rightarrow> jsstr \<Rightarrow> files \<Rightarrow> store_error + zip_object list" where
  "zip_filter search dir_root fs =
     rbind (forEach dir_root fs) (\<lambda>calls.
       Inr (map snd (filter (\<lambda>(relativePath, file). search relativePath file) calls)))"

text \<open>
  \<open>file(name)\<close>, \<open>file(regexp)\<close> (with what \<open>test\<close> answers) and \<open>file(name, data, opt)\<close>; the same
  for \<open>folder\<close>, whose result is a new handle.
\<close>

definition file_find :: "jsstr \<Rightarrow> jsstr \<Rightarrow> files \<Rightarrow> found" where
  "file_find dir_root name fs =
     (case files_get fs (dir_root @ name) of
        Entry z \<Rightarrow> if zo_dir z then Missing else Entry z
      | Inherited \<Rightarrow> Inherited
      | Missing \<Rightarrow> Missing)"

definition file_match ::
  "(jsstr \<Rightarrow> bool) \<Rightarrow> jsstr \<Rightarrow> files \<Rightarrow> store_error + zip_object list" where
  "file_match test = zip_filter (\<lambda>relativePath file. \<not> zo_dir file \<and> test relativePath)"

definition file_add ::
  "platform \<Rightarrow> int \<Rightarrow> jsstr \<Rightarrow> jsstr \<Rightarrow> file_data \<Rightarrow> file_options option \<Rightarrow> files \<Rightarrow> files" where
  "file_add env now dir_root name data opt fs = fileAdd env now (dir_root @ name) data opt fs"

definition folder_match ::
  "(jsstr \<Rightarrow> bool) \<Rightarrow> jsstr \<Rightarrow> files \<Rightarrow> store_error + zip_object list" where
  "folder_match test = zip_filter (\<lambda>relativePath file. zo_dir file \<and> test relativePath)"

definition folder :: "platform \<Rightarrow> int \<Rightarrow> jsstr \<Rightarrow> jsstr \<Rightarrow> files \<Rightarrow> jsstr \<times> files" where
  "folder env now dir_root name fs =
     (if name = [] then (dir_root, fs)
      else let fs' = folderAdd env now (dir_root @ name) True fs
           in case files_get fs' (forceTrailingSlash (dir_root @ name)) of
                Entry z \<Rightarrow> (zo_name z, fs')
              | _ \<Rightarrow> (dir_root, fs'))"

definition remove :: "jsstr \<Rightarrow> jsstr \<Rightarrow> files \<Rightarrow> store_error + files" where
  "remove dir_root name fs =
     (let name = dir_root @ name;
          name' = (if files_get fs name = Missing then forceTrailingSlash name else name);
          file = files_get fs name'
      in if file = Inherited \<or> (\<exists>z. file = Entry z \<and> \<not> zo_dir z)
         then Inr (files_delete name' fs)
         else rbind (zip_filter (\<lambda>relativePath file. take (length name') (zo_name file) = name') dir_root fs)
           (\<lambda>kids. Inr (fold (\<lambda>k. files_delete (zo_name k)) kids fs)))"

text \<open>\<open>load\<close> and \<open>generate\<close> of version 2 are kept as methods that throw.\<close>

definition removed_method :: "store_error + unit" where
  "removed_method = Inl RemovedMethod"

section \<open>Lookups and updates\<close>

declare fileAdd.simps [simp del] folderAdd.simps [simp del]

lemma ends_forceTrailingSlash [simp]: "ends_with_slash (forceTrailingSlash path)"
  by (simp add: forceTrailingSlash_def ends_with_slash_def)

lemma forceTrailingSlash_id [simp]: "ends_with_slash path \<Longrightarrow> forceTrailingSlash path = path"
  by (simp add: forceTrailingSlash_def)

lemma no_slash_names:
  "p \<in> set object_prototype \<Longrightarrow> \<not> ends_with_slash p" "p \<in> set zip_object_methods \<Longrightarrow> \<not> ends_with_slash p"
  by (auto simp: object_prototype_def zip_object_methods_def js_def ends_with_slash_def SLASH_def)

lemma no_slash_PROTO [simp]: "\<not> ends_with_slash PROTO"
  by (simp add: PROTO_def js_def ends_with_slash_def SLASH_def)

lemma forced_not_PROTO [simp]: "forceTrailingSlash p \<noteq> PROTO"
  using ends_forceTrailingSlash [of p] no_slash_PROTO by metis

lemma no_slash_truthy: "zip_object_truthy z p \<Longrightarrow> \<not> ends_with_slash p"
  unfolding zip_object_truthy_def
  by (elim disjE) (auto dest: no_slash_names simp: js_def ends_with_slash_def SLASH_def)

text \<open>A name that ends with a slash is never inherited.\<close>

lemma files_get_slash:
  assumes "ends_with_slash name"
  shows "files_get fs name = (case map_of (own fs) name of Some z \<Rightarrow> Entry z | None \<Rightarrow> Missing)"
  using assms no_slash_names(1) [of name] no_slash_truthy [of _ name]
  by (auto simp: files_get_def split: option.split)

lemma own_files_set [simp]:
  "name \<noteq> PROTO \<Longrightarrow> own (files_set name z fs) = AList.update name z (own fs)"
  "own (files_set PROTO z fs) = own fs"
  by (simp_all add: files_set_def)

lemma proto_files_set: "proto (files_set name z fs) = (if name = PROTO then Some z else proto fs)"
  by (simp add: files_set_def)

lemma map_of_files_set:
  "map_of (own (files_set name z fs)) k =
     (if k = name \<and> name \<noteq> PROTO then Some z else map_of (own fs) k)"
  by (simp add: files_set_def update_conv')

lemma own_files_delete: "own (files_delete name fs) = filter (\<lambda>p. fst p \<noteq> name) (own fs)"
  by (auto simp: files_delete_def AList.delete_eq intro: filter_cong)

lemma proto_files_delete [simp]: "proto (files_delete name fs) = proto fs"
  by (simp add: files_delete_def)

lemma own_delete_kids:
  "own (fold (\<lambda>k. files_delete (zo_name k)) kids fs) = filter (\<lambda>p. fst p \<notin> zo_name ` set kids) (own fs)"
  "proto (fold (\<lambda>k. files_delete (zo_name k)) kids fs) = proto fs"
  by (induction kids arbitrary: fs) (auto simp: own_files_delete intro: filter_cong)

section \<open>The invariant of the table\<close>

text \<open>
  Every object is filed under its name, once; a directory's name ends with a slash, and it
  is stored, binary and empty.
\<close>

definition empty_content :: "zip_content \<Rightarrow> bool" where
  "empty_content c \<longleftrightarrow> (\<exists>d. c = DataContent (Inr d) \<and> elements d = [])"

definition object_ok :: "jsstr \<Rightarrow> zip_object \<Rightarrow> bool" where
  "object_ok k z \<longleftrightarrow> zo_name z = k \<and>
     (zo_dir z \<longrightarrow> ends_with_slash k \<and> zo_compression z = Some ''STORE'' \<and> zo_dataBinary z \<and>
        empty_content (zo_data z))"

definition store_wf :: "files \<Rightarrow> bool" where
  "store_wf fs \<longleftrightarrow> distinct (map fst (own fs)) \<and> (\<forall>k z. map_of (own fs) k = Some z \<longrightarrow> object_ok k z) \<and>
     map_of (own fs) PROTO = None \<and> (\<forall>z. proto fs = Some z \<longrightarrow> object_ok PROTO z)"

lemma prepare_empty:
  "prepareContent env name (GivenData (JString [])) True opt False =
     Inr (if opt then JString [] else string2binary env [])"
  by (simp add: convert_content_def)

lemma elements_string2binary_Nil [simp]: "elements (string2binary env []) = []"
  by (simp add: string2binary_def stringToArrayLike_def byte_array_def)

lemma prepare_empty_elements:
  "\<exists>d. prepareContent env name (GivenData (JString [])) True opt False = Inr d \<and> elements d = []"
  unfolding prepare_empty by (cases opt) simp_all

lemma file_object_ok:
  assumes "op_dir opt \<Longrightarrow> ends_with_slash name"
  shows "object_ok name (file_object env name data originalOptions opt)"
proof -
  obtain data' opt' where c: "correct_options originalOptions data opt = (data', opt')" by fastforce
  then have d: "op_dir opt' = op_dir opt" and "op_dir opt \<Longrightarrow> op_binary opt' \<and> \<not> op_base64 opt' \<and>
      op_compression opt' = Some ''STORE'' \<and> data' = PlainData (GivenData (JString []))"
    by (auto simp: correct_options_def Let_def split: if_splits)
  then show ?thesis using assms
    by (auto simp: object_ok_def file_object_def c newZipObject_def file_content_def empty_content_def
        prepare_empty_elements simp del: prepareContent.simps)
qed

lemma zo_dir_file_object [simp]: "zo_dir (file_object env name data originalOptions opt) = op_dir opt"
  by (simp add: file_object_def newZipObject_def correct_options_def Let_def split: prod.split)

lemma store_wf_set: "store_wf fs \<Longrightarrow> object_ok name z \<Longrightarrow> store_wf (files_set name z fs)"
  by (cases "name = PROTO")
    (auto simp: store_wf_def proto_files_set distinct_update update_conv')

lemma store_wf_add:
  "store_wf fs \<Longrightarrow> store_wf (fileAdd env now name data originalOptions fs)"
  "store_wf fs \<Longrightarrow> store_wf (folderAdd env now name createFolders fs)"
proof (induction env now name data originalOptions fs and env now name createFolders fs
    rule: fileAdd_folderAdd.induct)
  case (1 env now name data originalOptions fs)
  then show ?case
    by (subst fileAdd.simps) (auto simp: Let_def intro!: store_wf_set file_object_ok)
next
  case (2 env now name createFolders fs)
  then show ?case by (subst folderAdd.simps) (simp add: Let_def)
qed

text \<open>Removal deletes one name, or the names under a folder.\<close>

lemma relative_entry_Some:
  "relative_entry dir_root p = Some (r, z) \<longleftrightarrow> z = snd p \<and> fst p = dir_root @ r \<and> r \<noteq> []"
  by (auto simp: relative_entry_def Let_def) (metis append_take_drop_id)+

lemma set_for_in [simp]: "set (for_in ps) = set ps"
  by (auto simp: for_in_def)

lemma in_map_filter: "x \<in> set (List.map_filter f ps) \<longleftrightarrow> (\<exists>p \<in> set ps. f p = Some x)"
  by (induction ps) (auto simp: map_filter_simps split: option.split)

lemma in_map_filter_relative:
  "(r, z) \<in> set (List.map_filter (relative_entry dir_root) ps) \<longleftrightarrow> (dir_root @ r, z) \<in> set ps \<and> r \<noteq> []"
  unfolding in_map_filter relative_entry_Some by (metis fst_conv prod.collapse snd_conv)

lemma in_zip_filter:
  assumes "zip_filter search dir_root fs = Inr zs"
  shows "z \<in> set zs \<longleftrightarrow> (\<exists>r. (dir_root @ r, z) \<in> set (own fs) \<and> r \<noteq> [] \<and> search r z)"
proof -
  from assms have "zs = map snd (filter (\<lambda>(r, file). search r file)
      (List.map_filter (relative_entry dir_root) (for_in (own fs))))"
    by (simp add: zip_filter_def forEach_def split: if_splits)
  then have "z \<in> set zs \<longleftrightarrow> (\<exists>r. (r, z) \<in> set (List.map_filter (relative_entry dir_root) (for_in (own fs))) \<and>
      search r z)" by force
  then show ?thesis by (simp add: in_map_filter_relative conj_assoc)
qed

definition removed_name :: "jsstr \<Rightarrow> jsstr \<Rightarrow> files \<Rightarrow> jsstr" where
  "removed_name dir_root name fs =
     (if files_get fs (dir_root @ name) = Missing then forceTrailingSlash (dir_root @ name) else dir_root @ name)"

definition removed_keys :: "jsstr \<Rightarrow> jsstr \<Rightarrow> files \<Rightarrow> jsstr set" where
  "removed_keys dir_root name fs =
     (let n = removed_name dir_root name fs; file = files_get fs n
      in if file = Inherited \<or> (\<exists>z. file = Entry z \<and> \<not> zo_dir z) then {n}
         else {k. prefix n k \<and> strict_prefix dir_root k})"

lemma take_eq_prefix: "take (length n) k = n \<longleftrightarrow> prefix n k"
  by (metis append_eq_conv_conj prefix_def take_is_prefix)

lemma remove_own:
  assumes "store_wf fs" and "remove dir_root name fs = Inr fs'"
  shows "own fs' = filter (\<lambda>p. fst p \<notin> removed_keys dir_root name fs) (own fs) \<and> proto fs' = proto fs"
proof -
  let ?n = "removed_name dir_root name fs"
  let ?file = "files_get fs ?n"
  have r: "remove dir_root name fs = (if ?file = Inherited \<or> (\<exists>z. ?file = Entry z \<and> \<not> zo_dir z)
      then Inr (files_delete ?n fs)
      else rbind (zip_filter (\<lambda>relativePath file. take (length ?n) (zo_name file) = ?n) dir_root fs)
           (\<lambda>kids. Inr (fold (\<lambda>k. files_delete (zo_name k)) kids fs)))"
    by (simp only: remove_def removed_name_def Let_def)
  have dist: "distinct (map fst (own fs))" and ok: "\<And>k z. (k, z) \<in> set (own fs) \<Longrightarrow> zo_name z = k"
    using assms(1) by (auto simp: store_wf_def object_ok_def)
  show ?thesis
  proof (cases "?file = Inherited \<or> (\<exists>z. ?file = Entry z \<and> \<not> zo_dir z)")
    case True
    then show ?thesis using assms(2) unfolding r by (auto simp: own_files_delete removed_keys_def Let_def)
  next
    case False
    then obtain kids where k: "zip_filter (\<lambda>relativePath file. take (length ?n) (zo_name file) = ?n) dir_root fs = Inr kids"
      and fs': "fs' = fold (\<lambda>k. files_delete (zo_name k)) kids fs"
      using assms(2) unfolding r if_not_P [OF False] rbind_eq_Inr by auto
    have "zo_name ` set kids = {k. k \<in> fst ` set (own fs) \<and> prefix ?n k \<and> strict_prefix dir_root k}"
    proof (intro set_eqI iffI)
      fix x assume "x \<in> zo_name ` set kids"
      then show "x \<in> {k. k \<in> fst ` set (own fs) \<and> prefix ?n k \<and> strict_prefix dir_root k}"
        unfolding image_iff Bex_def in_zip_filter [OF k] take_eq_prefix
        by (fastforce simp: strict_prefix_def image_iff dest: ok)
    next
      fix x assume "x \<in> {k. k \<in> fst ` set (own fs) \<and> prefix ?n k \<and> strict_prefix dir_root k}"
      then obtain r z where "(x, z) \<in> set (own fs)" "x = dir_root @ r" "r \<noteq> []" "prefix ?n x"
        by (auto elim!: strict_prefixE')
      then show "x \<in> zo_name ` set kids"
        unfolding image_iff Bex_def in_zip_filter [OF k] take_eq_prefix using ok by metis
    qed
    then show ?thesis using False unfolding fs' own_delete_kids removed_keys_def Let_def
      by (auto intro!: filter_cong)
  qed
qed

lemma map_of_filter_keys: "map_of (filter (\<lambda>p. fst p \<notin> D) ps) k = (if k \<in> D then None else map_of ps k)"
  by (induction ps) auto

lemma store_wf_remove: "store_wf fs \<Longrightarrow> remove dir_root name fs = Inr fs' \<Longrightarrow> store_wf fs'"
  using remove_own [of fs dir_root name fs']
  by (auto simp: store_wf_def map_of_filter_keys distinct_map_filter)

section \<open>Reachable tables\<close>

inductive store_step :: "files \<Rightarrow> files \<Rightarrow> bool" where
  step_file: "store_step fs (file_add env now dir_root name data opts fs)"
| step_folder: "store_step fs (snd (folder env now dir_root name fs))"
| step_remove: "remove dir_root name fs = Inr fs' \<Longrightarrow> store_step fs fs'"

inductive store_reach :: "files \<Rightarrow> bool" where
  reach_init: "store_reach no_files"
| reach_step: "store_reach fs \<Longrightarrow> store_step fs fs' \<Longrightarrow> store_reach fs'"

inductive_cases store_stepE: "store_step fs fs'"

lemma snd_folder:
  "snd (folder env now dir_root name fs) =
     (if name = [] then fs else folderAdd env now (dir_root @ name) True fs)"
  by (simp add: folder_def Let_def split: found.split)

lemma store_wf_step: "store_step fs fs' \<Longrightarrow> store_wf fs \<Longrightarrow> store_wf fs'"
  by (elim store_stepE) (auto simp: file_add_def snd_folder store_wf_add dest: store_wf_remove)

text \<open>
  Property C13. Whatever files are added, folders made and names removed through any handle,
  every object of the table is filed once, under its own name; a directory's name ends with a
  slash and its content is stored, binary and empty; and \<open>__proto__\<close> is never a name of the table.
\<close>

theorem store_invariant:
  assumes "store_reach fs"
  shows "store_wf fs"
  using assms by induction (auto simp: store_wf_def no_files_def dest: store_wf_step)

text \<open>A table with a folder, made, filled and emptied.\<close>

definition demo_platform :: platform where
  "demo_platform = \<lparr>sup_arraybuffer = True, sup_nodebuffer = False, sup_uint8array = True,
     sup_blob = True, sup_nodestream = False, apply_limit = 65536, apply_uint8 = True,
     apply_buffer = False, has_FileReader = True\<rparr>"

definition demo_files :: files where
  "demo_files = file_add demo_platform 0 [] (js ''a/b'') (PlainData (GivenData (JString (js ''x'')))) None no_files"

theorem store_invariant_witness: "store_wf demo_files"
  by (rule store_invariant) (auto simp: demo_files_def intro: store_reach.intros store_step.intros)

section \<open>What adding does\<close>

lemma strict_prefix_parent:
  assumes "parentFolder path \<noteq> []"
  shows "prefix (forceTrailingSlash (parentFolder path)) path" "path \<noteq> forceTrailingSlash (parentFolder path)"
proof -
  let ?p = "if ends_with_slash path then butlast path else path"
  let ?i = "nat (lastSlashIndex ?p)"
  have i: "lastSlashIndex ?p > 0" and parent: "parentFolder path = take ?i ?p"
    using assms by (auto simp: parentFolder_def Let_def split: if_splits)
  have len: "?i < length ?p" using i lastSlashIndex_less [of ?p] by linarith
  have at: "?p ! ?i = SLASH"
  proof -
    let ?t = "takeWhile (\<lambda>c. c \<noteq> SLASH) (rev ?p)"
    have "length ?t < length ?p" using i by (simp add: lastSlashIndex_def)
    then have "rev ?p ! length ?t = SLASH" using nth_length_takeWhile [of "\<lambda>c. c \<noteq> SLASH" "rev ?p"] by simp
    moreover have "?i = length ?p - Suc (length ?t)" using i by (simp add: lastSlashIndex_def)
    ultimately show ?thesis using \<open>length ?t < length ?p\<close> by (simp add: rev_nth)
  qed
  have "take (Suc ?i) ?p = parentFolder path @ [SLASH]"
    using len at by (simp add: parent take_Suc_conv_app_nth)
  then have "prefix (parentFolder path @ [SLASH]) ?p" by (metis take_is_prefix)
  moreover have "prefix ?p path" by (simp add: prefixeq_butlast)
  ultimately have pre: "prefix (parentFolder path @ [SLASH]) path" by (rule prefix_order.trans)
  then show "prefix (forceTrailingSlash (parentFolder path)) path"
    by (auto simp: forceTrailingSlash_def elim: append_prefixD)
  show "path \<noteq> forceTrailingSlash (parentFolder path)"
    using length_parentFolder [OF assms] length_forceTrailingSlash [of "parentFolder path"] by auto
qed

text \<open>The name under which \<open>fileAdd\<close> files the object.\<close>

definition filed_name :: "jsstr \<Rightarrow> full_options \<Rightarrow> jsstr" where
  "filed_name name opt = (if op_dir opt then forceTrailingSlash name else name)"

lemma op_dir_folder [simp]: "op_dir (resolve_options now (Some (folder_options c)))"
  by (simp add: resolve_options_def folder_options_def default_def Let_def)

text \<open>Names other than the one that is filed are kept, or are new folders above it.\<close>

definition kept_or_above :: "jsstr \<Rightarrow> files \<Rightarrow> files \<Rightarrow> bool" where
  "kept_or_above name fs fs' \<longleftrightarrow> (\<forall>k. k \<noteq> name \<longrightarrow>
     map_of (own fs') k = map_of (own fs) k \<or>
     map_of (own fs) k = None \<and> strict_prefix k name \<and> ends_with_slash k \<and>
       (\<exists>z. map_of (own fs') k = Some z \<and> zo_dir z))"

lemma kept_refl: "kept_or_above name fs fs"
  by (simp add: kept_or_above_def)

lemma map_of_fileAdd:
  fixes opts :: "file_options option" and now :: int
  defines "opt \<equiv> resolve_options now opts"
  shows "map_of (own (fileAdd env now name data opts fs)) k =
    (if k = filed_name name opt \<and> k \<noteq> PROTO
     then Some (file_object env (filed_name name opt) data opts opt)
     else map_of (own (if op_createFolders opt \<and> parentFolder (filed_name name opt) \<noteq> []
       then folderAdd env now (parentFolder (filed_name name opt)) True fs else fs)) k)"
  unfolding opt_def fileAdd.simps [of env now name] Let_def filed_name_def [symmetric] map_of_files_set
  by (rule if_cong) auto

lemma map_of_folderAdd:
  "map_of (own (folderAdd env now name createFolders fs)) =
    (case map_of (own fs) (forceTrailingSlash name) of
       Some z \<Rightarrow> map_of (own fs)
     | None \<Rightarrow> map_of (own (fileAdd env now (forceTrailingSlash name) NoData
         (Some (folder_options createFolders)) fs)))"
  by (subst folderAdd.simps) (simp add: Let_def files_get_slash split: option.split)

lemma add_kept:
  "kept_or_above (filed_name name (resolve_options now opts)) fs (fileAdd env now name data opts fs)"
  "kept_or_above (forceTrailingSlash name) fs (folderAdd env now name createFolders fs) \<and>
     (map_of (own fs) (forceTrailingSlash name) = None \<longrightarrow>
      (\<exists>z. map_of (own (folderAdd env now name createFolders fs)) (forceTrailingSlash name) = Some z \<and> zo_dir z)) \<and>
     (\<forall>z. map_of (own fs) (forceTrailingSlash name) = Some z \<longrightarrow>
      map_of (own (folderAdd env now name createFolders fs)) (forceTrailingSlash name) = Some z)"
proof (induction env now name data opts fs and env now name createFolders fs
    rule: fileAdd_folderAdd.induct)
  case (1 env now name data opts fs)
  let ?o = "resolve_options now opts"
  let ?n = "filed_name name ?o"
  show ?case
  proof (cases "op_createFolders ?o \<and> parentFolder ?n \<noteq> []")
    case True
    note IH = "1.IH" [OF refl, unfolded filed_name_def [symmetric], OF refl refl True]
    note p = strict_prefix_parent [of ?n]
    show ?thesis unfolding kept_or_above_def
    proof (intro allI impI)
      fix k assume k: "k \<noteq> ?n"
      let ?p = "forceTrailingSlash (parentFolder ?n)"
      let ?fs = "folderAdd env now (parentFolder ?n) True fs"
      have m: "map_of (own (fileAdd env now name data opts fs)) k = map_of (own ?fs) k"
        using k True by (simp add: map_of_fileAdd)
      have pre: "strict_prefix ?p ?n" using p True by (auto simp: strict_prefix_def)
      show "map_of (own (fileAdd env now name data opts fs)) k = map_of (own fs) k \<or>
        map_of (own fs) k = None \<and> strict_prefix k ?n \<and> ends_with_slash k \<and>
        (\<exists>z. map_of (own (fileAdd env now name data opts fs)) k = Some z \<and> zo_dir z)"
      proof (cases "k = ?p")
        case True
        then show ?thesis using IH m pre by (cases "map_of (own fs) ?p") auto
      next
        case False
        have "kept_or_above ?p fs ?fs" using IH by simp
        then have "map_of (own ?fs) k = map_of (own fs) k \<or>
            map_of (own fs) k = None \<and> strict_prefix k ?p \<and> ends_with_slash k \<and>
            (\<exists>z. map_of (own ?fs) k = Some z \<and> zo_dir z)"
          using False unfolding kept_or_above_def by blast
        then show ?thesis unfolding m using prefix_order.less_trans [OF _ pre, of k] by blast
      qed
    qed
  next
    case False
    then show ?thesis by (auto simp: kept_or_above_def map_of_fileAdd)
  qed
next
  case (2 env now name createFolders fs)
  let ?n = "forceTrailingSlash name"
  have f: "filed_name ?n (resolve_options now (Some (folder_options createFolders))) = ?n"
    by (simp add: filed_name_def)
  have nP: "?n \<noteq> PROTO" by simp
  show ?case
  proof (cases "map_of (own fs) ?n")
    case None
    then have "files_get fs ?n = Missing" by (simp add: files_get_slash)
    note IH = "2.IH" [OF refl this, unfolded f]
    then show ?thesis using None nP
      by (simp add: map_of_folderAdd map_of_fileAdd f kept_or_above_def)
  next
    case (Some z)
    then show ?thesis by (simp add: map_of_folderAdd kept_or_above_def)
  qed
qed

text \<open>
  Property C36. \<open>file(name, data, o)\<close> files exactly the object made of the data under the full
  name (with a slash for a directory), so that it is found again; every other object stays as
  it is, and what is new beside it are the folders above the name.
\<close>

theorem file_add_spec:
  assumes "dir_root @ name \<noteq> PROTO"
  shows "let opt = resolve_options now opts; n = filed_name (dir_root @ name) opt;
       fs' = file_add env now dir_root name data opts fs in
     files_get fs' n = Entry (file_object env n data opts opt) \<and> kept_or_above n fs fs'"
proof -
  let ?o = "resolve_options now opts"
  let ?n = "filed_name (dir_root @ name) ?o"
  have "?n \<noteq> PROTO" using assms by (simp add: filed_name_def)
  then have "map_of (own (fileAdd env now (dir_root @ name) data opts fs)) ?n =
      Some (file_object env ?n data opts ?o)" by (simp add: map_of_fileAdd)
  then show ?thesis using add_kept(1) [of "dir_root @ name" now opts fs env data]
    by (simp add: Let_def file_add_def files_get_def)
qed

theorem file_add_spec_witness:
  "let opt = resolve_options 0 None; n = filed_name ([] @ js ''a/b'') opt;
       fs' = file_add demo_platform 0 [] (js ''a/b'') NoData None no_files in
     files_get fs' n = Entry (file_object demo_platform n NoData None opt) \<and> kept_or_above n no_files fs'"
  by (rule file_add_spec) (simp add: js_def PROTO_def)

section \<open>Folders stay closed\<close>

text \<open>
  Every name's parent folder is an entry and a directory, and the names that end with a slash
  are the directories. Files are added with \<open>createFolders\<close> (the default) and not under a name
  that ends with a slash.
\<close>

definition tidy :: "files \<Rightarrow> bool" where
  "tidy fs \<longleftrightarrow> (\<forall>k z. map_of (own fs) k = Some z \<longrightarrow> (zo_dir z \<longleftrightarrow> ends_with_slash k) \<and>
     (parentFolder k \<noteq> [] \<longrightarrow> map_of (own fs) (forceTrailingSlash (parentFolder k)) \<noteq> None))"

inductive tidy_step :: "files \<Rightarrow> files \<Rightarrow> bool" where
  tidy_file: "op_createFolders (resolve_options now opts) \<Longrightarrow>
     op_dir (resolve_options now opts) \<or> \<not> ends_with_slash (dir_root @ name) \<Longrightarrow>
     tidy_step fs (file_add env now dir_root name data opts fs)"
| tidy_folder: "tidy_step fs (snd (folder env now dir_root name fs))"
| tidy_remove: "remove dir_root name fs = Inr fs' \<Longrightarrow> tidy_step fs fs'"

inductive tidy_reach :: "files \<Rightarrow> bool" where
  tidy_init: "tidy_reach no_files"
| tidy_next: "tidy_reach fs \<Longrightarrow> tidy_step fs fs' \<Longrightarrow> tidy_reach fs'"

inductive_cases tidy_stepE: "tidy_step fs fs'"

lemma tidyD:
  assumes "tidy fs" and "map_of (own fs) k = Some z"
  shows "zo_dir z \<longleftrightarrow> ends_with_slash k"
    and "parentFolder k \<noteq> [] \<Longrightarrow> map_of (own fs) (forceTrailingSlash (parentFolder k)) \<noteq> None"
  using assms unfolding tidy_def by blast+

lemma tidy_cong: "map_of (own fs) = map_of (own fs') \<Longrightarrow> tidy fs \<longleftrightarrow> tidy fs'"
  unfolding tidy_def by simp

lemma tidyI:
  assumes "\<And>k z. map_of (own fs) k = Some z \<Longrightarrow> zo_dir z \<longleftrightarrow> ends_with_slash k"
    and "\<And>k z. map_of (own fs) k = Some z \<Longrightarrow> parentFolder k \<noteq> [] \<Longrightarrow>
      map_of (own fs) (forceTrailingSlash (parentFolder k)) \<noteq> None"
  shows "tidy fs"
  using assms unfolding tidy_def by blast

text \<open>Adding one name whose parent is there.\<close>

lemma tidy_update:
  assumes "tidy fs" and "map_of (own fs') = (map_of (own fs))(n \<mapsto> z)"
    and "zo_dir z \<longleftrightarrow> ends_with_slash n"
    and "parentFolder n \<noteq> [] \<Longrightarrow> map_of (own fs) (forceTrailingSlash (parentFolder n)) \<noteq> None"
  shows "tidy fs'"
proof (rule tidyI)
  fix k y assume "map_of (own fs') k = Some y"
  then show "zo_dir y \<longleftrightarrow> ends_with_slash k"
    using assms(2,3) tidyD(1) [OF assms(1)] by (auto split: if_splits)
next
  fix k y assume "map_of (own fs') k = Some y" and "parentFolder k \<noteq> []"
  then show "map_of (own fs') (forceTrailingSlash (parentFolder k)) \<noteq> None"
    using assms(2,4) tidyD(2) [OF assms(1)] by (auto split: if_splits)
qed

lemma op_createFolders_folder [simp]: "op_createFolders (resolve_options now (Some (folder_options c))) = c"
  by (simp add: resolve_options_def folder_options_def default_def Let_def)

lemma tidy_add:
  "tidy fs \<Longrightarrow> op_createFolders (resolve_options now opts) \<Longrightarrow>
     op_dir (resolve_options now opts) \<or> \<not> ends_with_slash name \<Longrightarrow>
     tidy (fileAdd env now name data opts fs)"
  "tidy fs \<Longrightarrow> createFolders \<Longrightarrow> tidy (folderAdd env now name createFolders fs)"
proof (induction env now name data opts fs and env now name createFolders fs
    rule: fileAdd_folderAdd.induct)
  case (1 env now name data opts fs)
  let ?o = "resolve_options now opts"
  let ?n = "filed_name name ?o"
  let ?fs = "if parentFolder ?n \<noteq> [] then folderAdd env now (parentFolder ?n) True fs else fs"
  have "parentFolder ?n \<noteq> [] \<Longrightarrow> tidy (folderAdd env now (parentFolder ?n) True fs)"
    using "1.IH" [OF refl, unfolded filed_name_def [symmetric], OF refl refl] "1.prems" by simp
  then have t: "tidy ?fs" using "1.prems"(1) by simp
  have parent: "parentFolder ?n \<noteq> [] \<Longrightarrow> map_of (own ?fs) (forceTrailingSlash (parentFolder ?n)) \<noteq> None"
    using add_kept(2) [of "parentFolder ?n" fs env now True]
    by (cases "map_of (own fs) (forceTrailingSlash (parentFolder ?n))") auto
  show ?case
  proof (cases "?n = PROTO")
    case True
    then have "map_of (own (fileAdd env now name data opts fs)) = map_of (own ?fs)"
      using "1.prems"(2) by (intro ext) (simp add: map_of_fileAdd)
    then show ?thesis using t tidy_cong by blast
  next
    case False
    then have "map_of (own (fileAdd env now name data opts fs)) =
        (map_of (own ?fs))(?n \<mapsto> file_object env ?n data opts ?o)"
      using "1.prems"(2) by (intro ext) (simp add: map_of_fileAdd)
    moreover have "op_dir ?o \<longleftrightarrow> ends_with_slash ?n" using "1.prems"(3) by (auto simp: filed_name_def)
    ultimately show ?thesis using tidy_update [OF t _ _ parent] by simp
  qed
next
  case (2 env now name createFolders fs)
  show ?case
  proof (cases "map_of (own fs) (forceTrailingSlash name)")
    case None
    then have "files_get fs (forceTrailingSlash name) = Missing" by (simp add: files_get_slash)
    note IH = "2.IH" [OF refl this]
    have "map_of (own (folderAdd env now name createFolders fs)) = map_of (own (fileAdd env now
        (forceTrailingSlash name) NoData (Some (folder_options createFolders)) fs))"
      using None by (simp add: map_of_folderAdd)
    from tidy_cong [OF this] show ?thesis using IH "2.prems" by simp
  next
    case (Some z)
    then have "map_of (own (folderAdd env now name createFolders fs)) = map_of (own fs)"
      by (simp add: map_of_folderAdd)
    from tidy_cong [OF this] show ?thesis using "2.prems" by simp
  qed
qed

lemma tidy_removal:
  assumes "store_wf fs" and "tidy fs" and "remove dir_root name fs = Inr fs'"
  shows "tidy fs'"
proof -
  let ?D = "removed_keys dir_root name fs"
  let ?n = "removed_name dir_root name fs"
  have m: "map_of (own fs') k = (if k \<in> ?D then None else map_of (own fs) k)" for k
    using remove_own [OF assms(1,3)] by (simp add: map_of_filter_keys)
  show ?thesis
  proof (rule tidyI)
    fix k z assume "map_of (own fs') k = Some z"
    then show "zo_dir z \<longleftrightarrow> ends_with_slash k" using tidyD(1) [OF assms(2)] by (auto simp: m split: if_splits)
  next
    fix k z assume k: "map_of (own fs') k = Some z" and p: "parentFolder k \<noteq> []"
    let ?p = "forceTrailingSlash (parentFolder k)"
    from k have "map_of (own fs) ?p \<noteq> None" and kD: "k \<notin> ?D"
      using tidyD(2) [OF assms(2) _ p] by (auto simp: m split: if_splits)
    then obtain y where y: "map_of (own fs) ?p = Some y" "zo_dir y"
      using tidyD(1) [OF assms(2)] by fastforce
    have "?p \<notin> ?D"
    proof
      assume pD: "?p \<in> ?D"
      show False
      proof (cases "files_get fs ?n = Inherited \<or> (\<exists>z. files_get fs ?n = Entry z \<and> \<not> zo_dir z)")
        case True
        then have "?p = ?n" using pD by (simp add: removed_keys_def Let_def split: if_splits)
        then show False using True y by (simp add: files_get_slash flip: \<open>?p = ?n\<close>)
      next
        case False
        then have "prefix ?n ?p" "strict_prefix dir_root ?p"
          using pD unfolding removed_keys_def Let_def if_not_P [OF False] by auto
        then have "prefix ?n k" "strict_prefix dir_root k" using strict_prefix_parent(1) [OF p]
          by (blast intro: prefix_order.trans prefix_order.less_le_trans)+
        then show False using kD unfolding removed_keys_def Let_def if_not_P [OF False] by blast
      qed
    qed
    then show "map_of (own fs') ?p \<noteq> None" using y by (simp add: m)
  qed
qed

lemma tidy_step_store_step: "tidy_step fs fs' \<Longrightarrow> store_step fs fs'"
  by (elim tidy_stepE) (auto intro: store_step.intros)

lemma tidy_step_tidy: "tidy_step fs fs' \<Longrightarrow> store_wf fs \<Longrightarrow> tidy fs \<Longrightarrow> tidy fs'"
  by (elim tidy_stepE)
    (auto simp: file_add_def snd_folder intro: tidy_add dest: tidy_removal)

text \<open>
  Property C14. As long as files are added with their folders and not under names that end with a
  slash, every entry's parent folder is an entry, and the entries whose names end with a slash are
  exactly the directories: no sequence of additions, new folders and removals leaves an orphan.
\<close>

theorem folders_closed:
  assumes "tidy_reach fs"
  shows "tidy fs"
proof -
  have "store_wf fs \<and> tidy fs" using assms
  proof induction
    case tidy_init
    then show ?case by (simp add: store_wf_def tidy_def no_files_def)
  next
    case (tidy_next fs fs')
    then show ?case by (blast intro: tidy_step_tidy store_wf_step tidy_step_store_step)
  qed
  then show ?thesis ..
qed

lemma demo_files_reach: "tidy_reach demo_files"
  unfolding demo_files_def
  by (rule tidy_next [OF tidy_init], rule tidy_file)
    (simp_all add: resolve_options_def default_def no_options_def Let_def js_def ends_with_slash_def SLASH_def)

theorem folders_closed_witness: "tidy demo_files"
  by (rule folders_closed) (rule demo_files_reach)

section \<open>Removing a folder, and names that are inherited\<close>

lemma strict_prefix_forced: "name \<noteq> [] \<Longrightarrow> strict_prefix dir_root (forceTrailingSlash (dir_root @ name))"
  by (auto simp: forceTrailingSlash_def strict_prefix_def)

text \<open>
  Property C37. Removing a folder, named with or without its slash, deletes the folder and
  everything under it and nothing else, in one call.
\<close>

theorem remove_folder:
  assumes "store_wf fs" and "map_of (own fs) (forceTrailingSlash (dir_root @ name)) = Some z" and "zo_dir z"
    and "name \<noteq> []" and "ends_with_slash name \<or> files_get fs (dir_root @ name) = Missing"
    and "js ''hasOwnProperty'' \<notin> fst ` set (own fs)"
  shows "\<exists>fs'. remove dir_root name fs = Inr fs' \<and>
    own fs' = filter (\<lambda>p. \<not> prefix (forceTrailingSlash (dir_root @ name)) (fst p)) (own fs)"
proof -
  let ?n = "forceTrailingSlash (dir_root @ name)"
  have n: "removed_name dir_root name fs = ?n"
    using assms(4,5) by (auto simp: removed_name_def ends_with_slash_def forceTrailingSlash_def)
  have g: "files_get fs ?n = Entry z" using assms(2) by (simp add: files_get_slash)
  then have "\<exists>fs'. remove dir_root name fs = Inr fs'"
    using n assms(3,6) unfolding remove_def removed_name_def [symmetric] Let_def
    by (simp add: zip_filter_def forEach_def)
  then obtain fs' where r: "remove dir_root name fs = Inr fs'" ..
  have "removed_keys dir_root name fs = {k. prefix ?n k}"
    using g assms(3) strict_prefix_forced [OF assms(4)]
    by (auto simp: removed_keys_def Let_def n intro: prefix_order.less_le_trans)
  then show ?thesis using r remove_own [OF assms(1) r] by simp
qed

definition demo_folder :: files where
  "demo_folder = folderAdd demo_platform 0 (js ''a'') True no_files"

lemma demo_folder_wf: "store_wf demo_folder"
  unfolding demo_folder_def by (rule store_wf_add) (simp add: store_wf_def no_files_def)

lemma slash_names: "ends_with_slash (js ''a/'')" "forceTrailingSlash (js ''a'') = js ''a/''"
  "parentFolder (js ''a/'') = []" "js ''a/'' \<noteq> PROTO"
  by (simp_all add: js_def ends_with_slash_def SLASH_def forceTrailingSlash_def parentFolder_def Let_def
      lastSlashIndex_def PROTO_def)

lemma demo_folder_own: "\<exists>z. own demo_folder = [(js ''a/'', z)] \<and> zo_dir z"
proof -
  let ?o = "resolve_options 0 (Some (folder_options True))"
  have "demo_folder = fileAdd demo_platform 0 (js ''a/'') NoData (Some (folder_options True)) no_files"
    unfolding demo_folder_def folderAdd.simps [of _ _ "js ''a''"] slash_names Let_def
    by (simp add: files_get_slash slash_names no_files_def)
  also have "\<dots> = files_set (js ''a/'') (file_object demo_platform (js ''a/'') NoData (Some (folder_options True)) ?o) no_files"
    unfolding fileAdd.simps [of _ _ "js ''a/''"] Let_def by (simp add: slash_names)
  finally have e: "demo_folder = \<dots>" .
  show ?thesis unfolding e by (simp add: slash_names no_files_def)
qed

theorem remove_folder_witness:
  "\<exists>fs'. remove [] (js ''a/'') demo_folder = Inr fs' \<and>
     own fs' = filter (\<lambda>p. \<not> prefix (forceTrailingSlash ([] @ js ''a/'')) (fst p)) (own demo_folder)"
proof -
  obtain z where d: "own demo_folder = [(js ''a/'', z)]" "zo_dir z"
    using demo_folder_own by blast
  have f: "forceTrailingSlash ([] @ js ''a/'') = js ''a/''" by (simp add: slash_names)
  show ?thesis
  proof (rule remove_folder [OF demo_folder_wf])
    show "map_of (own demo_folder) (forceTrailingSlash ([] @ js ''a/'')) = Some z"
      unfolding f d(1) by simp
    show "js ''hasOwnProperty'' \<notin> fst ` set (own demo_folder)" unfolding d(1) by (simp add: js_def)
    show "ends_with_slash (js ''a/'') \<or> files_get demo_folder ([] @ js ''a/'') = Missing"
      by (simp add: slash_names)
  qed (use d in \<open>simp_all add: js_def\<close>)
qed

text \<open>
  Property C38. Names that every object inherits do not behave as names of files. Looking one up in
  an empty table finds something that is not a file; a file added as \<open>__proto__\<close> is never listed;
  and after a file called \<open>hasOwnProperty\<close> is added, every \<open>forEach\<close>, and so \<open>filter\<close>, a search by
  regular expression and the removal of any folder, throws.
\<close>

theorem inherited_names:
  "list_all (\<lambda>p. file_find [] p no_files = Inherited) object_prototype \<and>
   own (file_add env now [] PROTO data None fs) = own fs \<and>
   forEach dir_root (file_add env now [] (js ''hasOwnProperty'') data None fs) = Inl NotCallable \<and>
   zip_filter search dir_root (file_add env now [] (js ''hasOwnProperty'') data None fs) = Inl NotCallable"
proof -
  let ?h = "js ''hasOwnProperty''"
  have h: "parentFolder ?h = []" "\<not> ends_with_slash ?h" "?h \<noteq> PROTO" and p: "parentFolder PROTO = []"
    by (simp_all add: parentFolder_def lastSlashIndex_def js_def PROTO_def ends_with_slash_def SLASH_def Let_def)
  have o: "\<not> op_dir (resolve_options now None)"
    by (simp add: resolve_options_def default_def no_options_def Let_def file_permissions_def)
  have "list_all (\<lambda>p. file_find [] p no_files = Inherited) object_prototype"
    by (simp add: list_all_iff file_find_def files_get_def no_files_def)
  moreover have "own (file_add env now [] PROTO data None fs) = own fs"
    by (simp add: file_add_def fileAdd.simps Let_def o p)
  moreover have f: "forEach dir_root (file_add env now [] ?h data None fs) = Inl NotCallable"
    by (simp add: file_add_def fileAdd.simps Let_def o h forEach_def) (simp add: update_conv' dom_update image_iff)
  ultimately show ?thesis by (simp add: zip_filter_def)
qed

end
