(* ===== verification/Streams.thy ===== *)
theory Streams
  imports ObjectStore Crc32 Utf8
begin

text \<open>
  \<open>lib/stream\<close> of JSZip: \<open>GenericWorker\<close>, \<open>DataWorker\<close>, the probes, \<open>ConvertWorker\<close>, the UTF-8
  workers, \<open>CompressedObject\<close> and \<open>StreamHelper\<close>. Workers are piped into a chain whose first one,
  a \<open>DataWorker\<close>, cuts its content into chunks at every tick of the event loop; events run down
  the chain as nested calls, pauses and resumptions run up. A chain is a record; what the
  listeners of its last worker have received is its log.

  What is proved: however ticks, pauses and resumptions interleave, the log is that of the run
  without pauses; a resumed chain ends; errors reach every worker of the chain.
\<close>

section \<open>Workers\<close>

datatype stream_error =
    Util util_error
  | SizeMismatch
  | AlreadyUsed
  | NotAString
  | NoOutputType

record wchunk =
  wc_data :: js_data
  wc_percent :: "rat option"

datatype event = DataEvent wchunk | EndEvent | ErrorEvent stream_error

text \<open>
  The workers by what their \<open>processChunk\<close> and \<open>flush\<close> do. The length probe of a compressed
  object also has the \<open>end\<close> listener of \<open>getContentWorker\<close>, with the size it expects.
\<close>

datatype worker_kind =
    DataSource
  | Generic
  | Crc32Probe
  | DataLengthProbe string "int option"
  | ConvertWorker string
  | Utf8Decode "byte list option"
  | Utf8Encode

record worker =
  wkind :: worker_kind
  isPaused :: bool
  isFinished :: bool
  isLocked :: bool
  generatedError :: "stream_error option"

definition newWorker :: "worker_kind \<Rightarrow> worker" where
  "newWorker k = \<lparr>wkind = k, isPaused = True, isFinished = False, isLocked = False, generatedError = None\<rparr>"

type_synonym info = "string \<rightharpoonup> int"

definition info_or_zero :: "info \<Rightarrow> string \<Rightarrow> int" where
  "info_or_zero info p = (case info p of None \<Rightarrow> 0 | Some n \<Rightarrow> n)"

fun crc_of_data :: "js_data \<Rightarrow> crc_input" where
  "crc_of_data (JString s) = CrcString s"
| "crc_of_data d = CrcArray (elements d)"

definition data_bytes :: "js_data \<Rightarrow> byte list" where
  "data_bytes d = byte_array (elements d)"

text \<open>
  \<open>processChunk\<close> of each worker: its next state, the shared \<open>streamInfo\<close> and the chunk it pushes.
\<close>

type_synonym processed = "stream_error + worker_kind \<times> info \<times> wchunk"

definition crc_processChunk :: "info \<Rightarrow> wchunk \<Rightarrow> processed" where
  "crc_processChunk info c =
     Inr (Crc32Probe, info(''crc32'' \<mapsto> crc32wrapper (crc_of_data (wc_data c)) (Some (info_or_zero info ''crc32''))), c)"

definition length_processChunk :: "string \<Rightarrow> int option \<Rightarrow> info \<Rightarrow> wchunk \<Rightarrow> processed" where
  "length_processChunk p sz info c =
     Inr (DataLengthProbe p sz, info(p \<mapsto> info_or_zero info p + int (length (elements (wc_data c)))), c)"

definition convert_processChunk :: "platform \<Rightarrow> string \<Rightarrow> info \<Rightarrow> wchunk \<Rightarrow> processed" where
  "convert_processChunk env t info c =
     (case transformTo env t (Some (wc_data c)) of
        Inl e \<Rightarrow> Inl (Util e) | Inr d \<Rightarrow> Inr (ConvertWorker t, info, c\<lparr>wc_data := d\<rparr>))"

definition decode_processChunk :: "platform \<Rightarrow> byte list option \<Rightarrow> info \<Rightarrow> wchunk \<Rightarrow> processed" where
  "decode_processChunk env leftOver info c =
     (case transformTo env (if sup_uint8array env then ''uint8array'' else ''array'') (Some (wc_data c)) of
        Inl e \<Rightarrow> Inl (Util e)
      | Inr d \<Rightarrow> let (leftOver', text) = decode_worker_chunk leftOver (data_bytes d)
                 in Inr (Utf8Decode leftOver', info, c\<lparr>wc_data := JString text\<rparr>))"

text \<open>
  The array that \<open>utf8encode\<close> gives. On node it is a \<open>Buffer\<close> with the bytes that node's encoder gives,
  which differ from these only for surrogates that are alone.
\<close>

definition utf8_array :: "platform \<Rightarrow> jsstr \<Rightarrow> js_data" where
  "utf8_array env s =
     (let bs = encode_worker_chunk s
      in if sup_nodebuffer env then JBuffer bs
         else if sup_uint8array env then JUint8 bs 0 (length bs) else to_array (map uint bs))"

lemma utf8_array_bytes: "elements (utf8_array env s) = map uint (encode_worker_chunk s)" "whole_view (utf8_array env s)"
  "type_of (utf8_array env s) \<in> {''nodebuffer'', ''uint8array'', ''array''}" "support_of env (type_of (utf8_array env s))"
  by (simp_all add: utf8_array_def to_array_def Let_def subarray_of_def support_of_def comp_def)

definition encode_processChunk :: "platform \<Rightarrow> info \<Rightarrow> wchunk \<Rightarrow> processed" where
  "encode_processChunk env info c =
     (case wc_data c of
        JString s \<Rightarrow> Inr (Utf8Encode, info, c\<lparr>wc_data := utf8_array env s\<rparr>)
      | _ \<Rightarrow> Inl NotAString)"

definition processChunk :: "platform \<Rightarrow> worker_kind \<Rightarrow> info \<Rightarrow> wchunk \<Rightarrow> processed" where
  "processChunk env k info c =
     (case k of
        Crc32Probe \<Rightarrow> crc_processChunk info c
      | DataLengthProbe p sz \<Rightarrow> length_processChunk p sz info c
      | ConvertWorker t \<Rightarrow> convert_processChunk env t info c
      | Utf8Decode leftOver \<Rightarrow> decode_processChunk env leftOver info c
      | Utf8Encode \<Rightarrow> encode_processChunk env info c
      | k \<Rightarrow> Inr (k, info, c))"

lemma processChunk_simps [simp]:
  "processChunk env Generic info c = Inr (Generic, info, c)"
  "processChunk env DataSource info c = Inr (DataSource, info, c)"
  "processChunk env Crc32Probe info c = crc_processChunk info c"
  "processChunk env (DataLengthProbe p sz) info c = length_processChunk p sz info c"
  "processChunk env (ConvertWorker t) info c = convert_processChunk env t info c"
  "processChunk env (Utf8Decode l) info c = decode_processChunk env l info c"
  "processChunk env Utf8Encode info c = encode_processChunk env info c"
  by (simp_all add: processChunk_def)

fun worker_flush :: "worker_kind \<Rightarrow> worker_kind \<times> wchunk option" where
  "worker_flush (Utf8Decode (Some l)) =
     (if l = [] then (Utf8Decode (Some l), None)
      else (Utf8Decode None, Some \<lparr>wc_data = JString (decode_worker_flush (Some l)), wc_percent = None\<rparr>))"
| "worker_flush k = (k, None)"

text \<open>The \<open>end\<close> listener of \<open>getContentWorker\<close>.\<close>

fun end_listener :: "worker_kind \<Rightarrow> info \<Rightarrow> stream_error option" where
  "end_listener (DataLengthProbe p (Some expected)) info =
     (if info p \<noteq> Some expected then Some SizeMismatch else None)"
| "end_listener k info = None"

section \<open>Events down the chain\<close>

text \<open>
  \<open>push\<close> of a worker emits to the next one, \<open>[]\<close> being the listeners at the end of the chain.
  The last component is an exception that is under way. A finished worker has no listeners.
\<close>

type_synonym flow = "worker list \<times> info \<times> event list \<times> stream_error option"

fun deliver :: "platform \<Rightarrow> worker list \<Rightarrow> info \<Rightarrow> event list \<Rightarrow> wchunk \<Rightarrow> flow" where
  "deliver env [] info evs c = ([], info, evs @ [DataEvent c], None)"
| "deliver env (w # ws) info evs c =
     (if isFinished w then (w # ws, info, evs, None)
      else case processChunk env (wkind w) info c of
        Inl e \<Rightarrow> (w # ws, info, evs, Some e)
      | Inr (k, info', c') \<Rightarrow>
          let (ws', info'', evs', ex) = deliver env ws info' evs c'
          in (w\<lparr>wkind := k\<rparr> # ws', info'', evs', ex))"

definition finish :: "worker \<Rightarrow> worker" where
  "finish w = w\<lparr>isFinished := True, generatedError := None\<rparr>"

text \<open>
  \<open>error\<close> emits downwards until a worker is finished or paused (which keeps the error for later),
  then tells the previous workers upwards, nearest first, under the same conditions; each
  worker's own emission and notification find the other side finished.
\<close>

fun error_down :: "stream_error \<Rightarrow> worker list \<Rightarrow> event list \<Rightarrow> worker list \<times> event list" where
  "error_down e [] evs = ([], evs @ [ErrorEvent e])"
| "error_down e (w # ws) evs =
     (if isFinished w then (w # ws, evs)
      else if isPaused w then (w\<lparr>generatedError := Some e\<rparr> # ws, evs)
      else let (ws', evs') = error_down e ws evs in (finish w # ws', evs'))"

fun error_up :: "stream_error \<Rightarrow> worker list \<Rightarrow> worker list" where
  "error_up e [] = []"
| "error_up e (w # ws) =
     (if isFinished w then w # ws
      else if isPaused w then w\<lparr>generatedError := Some e\<rparr> # ws
      else finish w # error_up e ws)"

definition active :: "worker \<Rightarrow> bool" where
  "active w \<longleftrightarrow> \<not> isFinished w \<and> \<not> isPaused w"

text \<open>
  \<open>end\<close>: \<open>flush\<close>, then the \<open>end\<close> event (first to the worker's own listener), then \<open>cleanUp\<close>. An
  exception of the listeners is caught and sent down as an error, which comes back up to this
  worker when the next one was active.
\<close>

lemma length_deliver [simp]: "length (fst (deliver env ws info evs c)) = length ws"
  by (induction env ws info evs c rule: deliver.induct) (auto split: sum.split prod.split)

function (sequential) end_flow :: "platform \<Rightarrow> worker list \<Rightarrow> info \<Rightarrow> event list \<Rightarrow> flow" where
  "end_flow env [] info evs = ([], info, evs @ [EndEvent], None)"
| "end_flow env (w # ws) info evs =
     (if isFinished w then (w # ws, info, evs, None)
      else let (k, chunk) = worker_flush (wkind w); w = w\<lparr>wkind := k\<rparr>;
               (ws, info, evs, ex) = (case chunk of None \<Rightarrow> (ws, info, evs, None) | Some c \<Rightarrow> deliver env ws info evs c)
           in if ex \<noteq> None then (w # ws, info, evs, ex)
              else let (ws, info, evs, ex) =
                         (case end_listener k info of
                            Some e \<Rightarrow> (ws, info, evs, Some e)
                          | None \<Rightarrow> end_flow env ws info evs)
                   in case ex of
                        None \<Rightarrow> (finish w # ws, info, evs, None)
                      | Some e \<Rightarrow>
                          let called_back = (ws \<noteq> [] \<and> active (hd ws)); (ws, evs) = error_down e ws evs
                          in ((if \<not> called_back then w
                               else if isPaused w then w\<lparr>generatedError := Some e\<rparr> else finish w) # ws,
                              info, evs, None))"
  by pat_completeness auto
termination
proof (relation "measure (\<lambda>(env, ws, info, evs). length ws)", goal_cases)
  case (2 env w ws info evs x k chunk wa y ws' z info' z' evs' ex)
  have "length ws' \<le> length ws"
  proof (cases chunk)
    case (Some a)
    then have "(ws', z) = deliver env ws info evs a" using 2 by simp
    then have "ws' = fst (deliver env ws info evs a)" by (metis fst_conv)
    then show ?thesis by simp
  qed (use 2 in simp)
  then show ?case by simp
qed simp

declare end_flow.simps [simp del]

section \<open>A chain\<close>

text \<open>
  The fields of the \<open>DataWorker\<close> are those of the chain's source; \<open>pending\<close> counts the scheduled
  calls of \<open>_tickAndRepeat\<close>. The first worker of \<open>workers\<close> is the source.
\<close>

record chain =
  dataIsReady :: bool
  dw_index :: nat
  dw_max :: nat
  dw_data :: js_data
  tickScheduled :: bool
  pending :: nat
  workers :: "worker list"
  stream_info :: info
  event_log :: "event list"

definition DEFAULT_BLOCK_SIZE :: nat where "DEFAULT_BLOCK_SIZE = 16 * 1024"

definition newDataWorker :: chain where
  "newDataWorker = \<lparr>dataIsReady = False, dw_index = 0, dw_max = 0, dw_data = JString [], tickScheduled = False,
     pending = 0, workers = [newWorker DataSource], stream_info = Map.empty, event_log = []\<rparr>"

text \<open>
  \<open>pipe\<close>, that is \<open>next.registerPrevious(this)\<close>: only the next worker's lock is looked at. The
  chain's \<open>streamInfo\<close> becomes the next worker's, with what its constructor asked to add.
\<close>

fun extraStreamInfo :: "worker_kind \<Rightarrow> info" where
  "extraStreamInfo Crc32Probe = [''crc32'' \<mapsto> 0]"
| "extraStreamInfo (DataLengthProbe p sz) = [p \<mapsto> 0]"
| "extraStreamInfo k = Map.empty"

definition pipe :: "worker \<Rightarrow> chain \<Rightarrow> stream_error + chain" where
  "pipe w c = (if isLocked w then Inl AlreadyUsed
     else Inr (c\<lparr>workers := workers c @ [w], stream_info := stream_info c ++ extraStreamInfo (wkind w)\<rparr>))"

definition withStreamInfo :: "string \<Rightarrow> int \<Rightarrow> chain \<Rightarrow> chain" where
  "withStreamInfo p v c = c\<lparr>stream_info := (stream_info c)(p \<mapsto> v)\<rparr>"

text \<open>\<open>lock\<close> of the last worker locks it and then the previous ones, and throws at a locked one.\<close>

fun lock_up :: "worker list \<Rightarrow> worker list \<times> bool" where
  "lock_up [] = ([], True)"
| "lock_up (w # ws) =
     (if isLocked w then (w # ws, False)
      else let (ws', ok) = lock_up ws in (w\<lparr>isLocked := True\<rparr> # ws', ok))"

definition lock :: "chain \<Rightarrow> chain \<times> stream_error option" where
  "lock c = (let (ws, ok) = lock_up (rev (workers c))
     in (c\<lparr>workers := rev ws\<rparr>, if ok then None else Some AlreadyUsed))"

fun pause_up :: "worker list \<Rightarrow> worker list" where
  "pause_up [] = []"
| "pause_up (w # ws) = (if isPaused w \<or> isFinished w then w # ws else w\<lparr>isPaused := True\<rparr> # pause_up ws)"

definition pause :: "chain \<Rightarrow> chain" where
  "pause c = c\<lparr>workers := rev (pause_up (rev (workers c)))\<rparr>"

text \<open>\<open>error\<close> of the worker at a position.\<close>

definition error_at :: "nat \<Rightarrow> stream_error \<Rightarrow> chain \<Rightarrow> chain" where
  "error_at i e c =
     (let up = take i (workers c); (down, evs) = error_down e (drop i (workers c)) (event_log c)
      in c\<lparr>workers := (if active (workers c ! i) then rev (error_up e (rev up)) else up) @ down,
           event_log := evs\<rparr>)"

text \<open>\<open>resume\<close> of the worker at a position; its result is whether the worker was resumed.\<close>

definition schedule :: "chain \<Rightarrow> chain" where
  "schedule c = c\<lparr>tickScheduled := True, pending := pending c + 1\<rparr>"

fun resume_at :: "nat \<Rightarrow> chain \<Rightarrow> chain" where
  "resume_at i c =
     (let w = workers c ! i
      in if \<not> isPaused w \<or> isFinished w then c
         else let c = c\<lparr>workers := (workers c)[i := w\<lparr>isPaused := False\<rparr>]\<rparr>;
                  c = (case generatedError w of Some e \<Rightarrow> error_at i e c | None \<Rightarrow> c)
              in case i of
                   Suc j \<Rightarrow> resume_at j c
                 | 0 \<Rightarrow> if generatedError w = None \<and> \<not> tickScheduled c \<and> dataIsReady c then schedule c else c)"

declare resume_at.simps [simp del]

definition resume :: "chain \<Rightarrow> chain" where
  "resume c = resume_at (length (workers c) - 1) c"

section \<open>The ticks of the source\<close>

fun data_slice :: "js_data \<Rightarrow> nat \<Rightarrow> nat \<Rightarrow> js_data" where
  "data_slice (JString s) i j = JString (take (j - i) (drop i s))"
| "data_slice (JUint8 buf off len) i j = JUint8 buf (off + i) (j - i)"
| "data_slice (JArray a) i j = JArray (take (j - i) (drop i a))"
| "data_slice (JBuffer b) i j = JBuffer (take (j - i) (drop i b))"
| "data_slice (JArrayBuffer b) i j = JArrayBuffer b"

text \<open>\<open>data.length || 0\<close>\<close>

fun data_length :: "js_data \<Rightarrow> nat" where
  "data_length (JString s) = length s"
| "data_length (JUint8 buf off len) = len"
| "data_length (JArray a) = length a"
| "data_length (JBuffer b) = length b"
| "data_length (JArrayBuffer b) = 0"

text \<open>\<open>_tick\<close>; \<open>end\<close> of the source is the end of the whole chain.\<close>

definition tick :: "platform \<Rightarrow> chain \<Rightarrow> chain \<times> stream_error option" where
  "tick env c =
     (let w = hd (workers c)
      in if isPaused w \<or> isFinished w then (c, None)
         else if dw_index c \<ge> dw_max c
         then let (ws, info, evs, ex) = end_flow env (workers c) (stream_info c) (event_log c)
              in (c\<lparr>workers := ws, stream_info := info, event_log := evs\<rparr>, ex)
         else let nextIndex = min (dw_max c) (dw_index c + DEFAULT_BLOCK_SIZE);
                  data = data_slice (dw_data c) (dw_index c) nextIndex;
                  percent = of_nat nextIndex / of_nat (dw_max c) * 100;
                  (ws, info, evs, ex) = deliver env (tl (workers c)) (stream_info c) (event_log c)
                    \<lparr>wc_data = data, wc_percent = Some percent\<rparr>
              in (c\<lparr>dw_index := nextIndex, workers := w # ws, stream_info := info, event_log := evs\<rparr>, ex))"

definition tickAndRepeat :: "platform \<Rightarrow> chain \<Rightarrow> chain \<times> stream_error option" where
  "tickAndRepeat env c =
     (let c = c\<lparr>tickScheduled := False\<rparr>; w = hd (workers c)
      in if isPaused w \<or> isFinished w then (c, None)
         else let (c, ex) = tick env c
              in if ex \<noteq> None then (c, ex)
                 else (if isFinished (hd (workers c)) then c else schedule c, None))"

text \<open>A scheduled call runs; the promise of the data is kept, or broken.\<close>

definition run_pending :: "platform \<Rightarrow> chain \<Rightarrow> chain \<times> stream_error option" where
  "run_pending env c = tickAndRepeat env (c\<lparr>pending := pending c - 1\<rparr>)"

definition data_ready :: "platform \<Rightarrow> js_data \<Rightarrow> chain \<Rightarrow> chain \<times> stream_error option" where
  "data_ready env d c =
     (let c = c\<lparr>dataIsReady := True, dw_data := d, dw_max := data_length d\<rparr>
      in if isPaused (hd (workers c)) then (c, None) else tickAndRepeat env c)"

definition data_failed :: "stream_error \<Rightarrow> chain \<Rightarrow> chain" where
  "data_failed e c = error_at 0 e c"

section \<open>The run without pauses\<close>

text \<open>The chunks of a content from an index on, and what becomes of them in a chain.\<close>

function content_chunks :: "js_data \<Rightarrow> nat \<Rightarrow> wchunk list" where
  "content_chunks d i =
     (if data_length d \<le> i then []
      else let j = min (data_length d) (i + DEFAULT_BLOCK_SIZE)
           in \<lparr>wc_data = data_slice d i j, wc_percent = Some (of_nat j / of_nat (data_length d) * 100)\<rparr>
              # content_chunks d j)"
  by pat_completeness auto
termination by (relation "measure (\<lambda>(d, i). data_length d - i)") (auto simp: DEFAULT_BLOCK_SIZE_def)

declare content_chunks.simps [simp del]

fun feed :: "platform \<Rightarrow> worker list \<Rightarrow> info \<Rightarrow> event list \<Rightarrow> wchunk list \<Rightarrow> flow" where
  "feed env ws info evs [] = (ws, info, evs, None)"
| "feed env ws info evs (c # cs) =
     (let (ws', info', evs', ex) = deliver env ws info evs c
      in if ex = None then feed env ws' info' evs' cs else (ws', info', evs', ex))"

definition set_paused :: "bool \<Rightarrow> worker \<Rightarrow> worker" where
  "set_paused p w = w\<lparr>isPaused := p\<rparr>"

lemma set_paused_simps [simp]:
  "isPaused (set_paused p w) = p" "isFinished (set_paused p w) = isFinished w"
  "generatedError (set_paused p w) = generatedError w" "wkind (set_paused p w) = wkind w"
  "isLocked (set_paused p w) = isLocked w" "set_paused p (set_paused q w) = set_paused p w"
  "(set_paused p w)\<lparr>isPaused := q\<rparr> = set_paused q w" "(set_paused p w)\<lparr>wkind := k\<rparr> = set_paused p (w\<lparr>wkind := k\<rparr>)"
  by (simp_all add: set_paused_def)

definition full_run :: "platform \<Rightarrow> chain \<Rightarrow> js_data \<Rightarrow> flow" where
  "full_run env c d =
     (let ws = map (set_paused False) (workers c);
          (ws', info, evs, ex) = feed env (tl ws) (stream_info c) (event_log c) (content_chunks d 0)
      in if ex = None then end_flow env (hd ws # ws') info evs else (hd ws # ws', info, evs, ex))"

text \<open>Pausing commutes with delivering; delivering keeps the flags.\<close>

lemma deliver_paused:
  "deliver env (map (set_paused p) ws) info evs c =
     (let (ws', r) = deliver env ws info evs c in (map (set_paused p) ws', r))"
  by (induction env ws info evs c rule: deliver.induct) (auto split: sum.split prod.split)

definition fresh :: "worker \<Rightarrow> bool" where
  "fresh w \<longleftrightarrow> \<not> isFinished w \<and> generatedError w = None"

lemma fresh_simps [simp]: "fresh (set_paused p w) = fresh w" "fresh (w\<lparr>wkind := k\<rparr>) = fresh w"
  by (simp_all add: fresh_def)

lemma deliver_flags:
  "deliver env ws info evs c = (ws', r) \<Longrightarrow> list_all fresh ws \<Longrightarrow> list_all (\<lambda>w. isPaused w = p) ws \<Longrightarrow>
     list_all fresh ws' \<and> list_all (\<lambda>w. isPaused w = p) ws'"
  by (induction env ws info evs c arbitrary: ws' r rule: deliver.induct)
    (auto split: sum.splits prod.splits if_splits)

lemma feed_flags:
  "feed env ws info evs cs = (ws', r) \<Longrightarrow> list_all fresh ws \<Longrightarrow> list_all (\<lambda>w. isPaused w = p) ws \<Longrightarrow>
     list_all fresh ws' \<and> list_all (\<lambda>w. isPaused w = p) ws'"
  by (induction env ws info evs cs arbitrary: ws' r rule: feed.induct)
    (auto split: prod.splits if_splits dest!: deliver_flags)

lemma feed_append:
  "feed env ws info evs (cs @ ds) =
     (let (ws', info', evs', ex) = feed env ws info evs cs
      in if ex = None then feed env ws' info' evs' ds else (ws', info', evs', ex))"
  by (induction env ws info evs cs rule: feed.induct) (auto split: prod.split)

lemma feed_prefix:
  assumes "feed env ws info evs (cs @ ds) = (ws', info', evs', None)"
  obtains ws1 info1 evs1 where "feed env ws info evs cs = (ws1, info1, evs1, None)"
    and "feed env ws1 info1 evs1 ds = (ws', info', evs', None)"
  using assms unfolding feed_append by (auto split: prod.splits if_splits)

text \<open>The chunks that remain.\<close>

lemma content_chunks_drop:
  "k \<le> length (content_chunks d i) \<Longrightarrow>
     drop k (content_chunks d i) = content_chunks d (min (i + k * DEFAULT_BLOCK_SIZE) (max i (data_length d)))"
proof (induction k arbitrary: i)
  case 0
  then show ?case by simp
next
  case (Suc k)
  then have i: "i < data_length d" by (subst (asm) content_chunks.simps) (auto split: if_splits)
  let ?j = "min (data_length d) (i + DEFAULT_BLOCK_SIZE)"
  obtain c where c: "content_chunks d i = c # content_chunks d ?j"
    using i content_chunks.simps [of d i] by (simp add: Let_def)
  have "min (?j + k * DEFAULT_BLOCK_SIZE) (max ?j (data_length d)) =
      min (i + Suc k * DEFAULT_BLOCK_SIZE) (max i (data_length d))"
    using i by (simp add: min_def max_def)
  then show ?case using Suc.IH [of ?j] Suc.prems unfolding c by simp
qed

section \<open>Pausing and resuming\<close>

definition no_errors :: "chain \<Rightarrow> bool" where
  "no_errors c \<longleftrightarrow> list_all (\<lambda>w. generatedError w = None) (workers c)"

fun resume_up :: "worker list \<Rightarrow> worker list" where
  "resume_up [] = []"
| "resume_up (w # ws) =
     (if \<not> isPaused w \<or> isFinished w then w # ws else w\<lparr>isPaused := False\<rparr> # resume_up ws)"

definition resumable :: "worker \<Rightarrow> bool" where
  "resumable w \<longleftrightarrow> isPaused w \<and> \<not> isFinished w"

text \<open>Without stored errors, \<open>resume\<close> wakes the workers upwards and schedules a tick at the source.\<close>

lemma resume_at_no_errors:
  "no_errors c \<Longrightarrow> i < length (workers c) \<Longrightarrow>
     resume_at i c =
       (let ws = workers c; c' = c\<lparr>workers := rev (resume_up (rev (take (Suc i) ws))) @ drop (Suc i) ws\<rparr>
        in if list_all resumable (take (Suc i) ws) \<and> \<not> tickScheduled c \<and> dataIsReady c then schedule c' else c')"
proof (induction i arbitrary: c)
  case 0
  then obtain w ws where w: "workers c = w # ws" by (cases "workers c") auto
  have "generatedError w = None" using 0 w by (simp add: no_errors_def)
  then show ?case by (subst resume_at.simps) (auto simp: w resumable_def Let_def)
next
  case (Suc i)
  let ?ws = "workers c" and ?w = "workers c ! Suc i"
  have g: "generatedError ?w = None" using Suc.prems by (simp add: no_errors_def list_all_length)
  have t: "take (Suc (Suc i)) ?ws = take (Suc i) ?ws @ [?w]"
    using Suc.prems(2) by (simp add: take_Suc_conv_app_nth)
  have d: "drop (Suc i) ?ws = ?w # drop (Suc (Suc i)) ?ws"
    using Suc.prems(2) by (simp add: Cons_nth_drop_Suc)
  show ?case
  proof (cases "resumable ?w")
    case False
    then show ?thesis using t d by (subst resume_at.simps) (auto simp: Let_def resumable_def simp flip: d)
  next
    case True
    let ?c = "c\<lparr>workers := ?ws[Suc i := ?w\<lparr>isPaused := False\<rparr>]\<rparr>"
    have r: "resume_at (Suc i) c = resume_at i ?c"
      using True g by (subst resume_at.simps) (simp add: Let_def resumable_def)
    have n: "no_errors ?c" using Suc.prems g by (auto simp: no_errors_def list_all_length nth_list_update)
    have dd: "drop (Suc i) (?ws[Suc i := ?w\<lparr>isPaused := False\<rparr>]) = ?w\<lparr>isPaused := False\<rparr> # drop (Suc (Suc i)) ?ws"
      using Suc.prems(2) by (simp add: drop_update_swap d)
    show ?thesis unfolding r using True t
      by (subst Suc.IH [OF n]) (use Suc.prems in \<open>auto simp: Let_def dd resumable_def\<close>)
  qed
qed

lemma pause_up_paused: "list_all (\<lambda>w. isPaused w \<or> isFinished w) ws \<Longrightarrow> pause_up ws = ws"
  by (cases ws) auto

lemma pause_up_fresh:
  "list_all fresh ws \<Longrightarrow> list_all (\<lambda>w. isPaused w = p) ws \<Longrightarrow> pause_up ws = map (set_paused True) ws"
proof (induction ws)
  case (Cons w ws)
  then show ?case
  proof (cases p)
    case True
    have "set_paused True v = v" if "v \<in> set (w # ws)" for v
      using Cons.prems(2) that True by (auto simp: list_all_iff set_paused_def)
    then have "map (set_paused True) (w # ws) = w # ws" by (simp add: map_idI)
    then show ?thesis using Cons.prems(2) True by simp
  qed (use Cons in \<open>auto simp: fresh_def set_paused_def\<close>)
qed simp

lemma resume_up_fresh:
  "list_all fresh ws \<Longrightarrow> list_all (\<lambda>w. isPaused w = p) ws \<Longrightarrow> resume_up ws = map (set_paused False) ws"
proof (induction ws)
  case (Cons w ws)
  then show ?case
  proof (cases p)
    case False
    have "set_paused False v = v" if "v \<in> set (w # ws)" for v
      using Cons.prems(2) that False by (auto simp: list_all_iff set_paused_def)
    then have "map (set_paused False) (w # ws) = w # ws" by (simp add: map_idI)
    then show ?thesis using Cons.prems(2) False by simp
  qed (use Cons in \<open>auto simp: fresh_def set_paused_def\<close>)
qed simp

section \<open>Every interleaving\<close>

text \<open>
  What the event loop and the user may do to a chain that waits for the content \<open>d\<close>.
\<close>

inductive chain_step :: "platform \<Rightarrow> js_data \<Rightarrow> chain \<Rightarrow> chain \<Rightarrow> bool" for env d where
  step_pause: "chain_step env d c (pause c)"
| step_resume: "chain_step env d c (resume c)"
| step_ready: "\<not> dataIsReady c \<Longrightarrow> data_ready env d c = (c', ex) \<Longrightarrow> chain_step env d c c'"
| step_tick: "0 < pending c \<Longrightarrow> run_pending env c = (c', ex) \<Longrightarrow> chain_step env d c c'"

inductive_cases chain_stepE: "chain_step env d c c'"

inductive chain_reach :: "platform \<Rightarrow> js_data \<Rightarrow> chain \<Rightarrow> chain \<Rightarrow> bool" for env d c0 where
  chain_init: "chain_reach env d c0 c0"
| chain_next: "chain_reach env d c0 c \<Longrightarrow> chain_step env d c c' \<Longrightarrow> chain_reach env d c0 c'"

text \<open>A chain as it is built: a source and workers, paused, nothing read.\<close>

definition new_chain :: "chain \<Rightarrow> bool" where
  "new_chain c \<longleftrightarrow> workers c \<noteq> [] \<and> wkind (hd (workers c)) = DataSource \<and> list_all fresh (workers c) \<and>
     list_all isPaused (workers c) \<and> \<not> dataIsReady c \<and> dw_index c = 0 \<and> \<not> tickScheduled c \<and> pending c = 0"

definition fed :: "platform \<Rightarrow> js_data \<Rightarrow> chain \<Rightarrow> nat \<Rightarrow> bool \<Rightarrow> chain \<Rightarrow> bool" where
  "fed env d c0 k p c \<longleftrightarrow>
     (\<exists>ws. feed env (map (set_paused False) (tl (workers c0))) (stream_info c0) (event_log c0)
          (take k (content_chunks d 0)) = (ws, stream_info c, event_log c, None) \<and>
        workers c = map (set_paused p) (hd (workers c0) # ws)) \<and>
     k \<le> length (content_chunks d 0) \<and> dw_index c = min (k * DEFAULT_BLOCK_SIZE) (data_length d)"

definition running :: "platform \<Rightarrow> js_data \<Rightarrow> chain \<Rightarrow> nat \<Rightarrow> bool \<Rightarrow> chain \<Rightarrow> bool" where
  "running env d c0 k p c \<longleftrightarrow> fed env d c0 k p c \<and>
     (tickScheduled c \<longrightarrow> 0 < pending c) \<and> (dataIsReady c \<longrightarrow> dw_data c = d \<and> dw_max c = data_length d) \<and>
     (dataIsReady c \<and> \<not> p \<longrightarrow> 0 < pending c) \<and> (\<not> dataIsReady c \<longrightarrow> k = 0 \<and> pending c = 0)"

definition ended :: "platform \<Rightarrow> js_data \<Rightarrow> chain \<Rightarrow> chain \<Rightarrow> bool" where
  "ended env d c0 c \<longleftrightarrow> dataIsReady c \<and> workers c \<noteq> [] \<and> isFinished (hd (workers c)) \<and> no_errors c \<and>
     event_log c = fst (snd (snd (full_run env c0 d)))"

text \<open>The run without pauses throws nothing that is not caught.\<close>

definition no_exception :: "platform \<Rightarrow> chain \<Rightarrow> js_data \<Rightarrow> bool" where
  "no_exception env c d \<longleftrightarrow> snd (snd (snd (full_run env c d))) = None"

lemma fed_workers:
  assumes "fed env d c0 k p c" and "new_chain c0"
  shows "workers c \<noteq> []" "list_all fresh (workers c)" "list_all (\<lambda>w. isPaused w = p) (workers c)"
    "wkind (hd (workers c)) = DataSource" "no_errors c" "isPaused (hd (workers c)) = p" "\<not> isFinished (hd (workers c))"
proof -
  obtain ws where f: "feed env (map (set_paused False) (tl (workers c0))) (stream_info c0) (event_log c0)
          (take k (content_chunks d 0)) = (ws, stream_info c, event_log c, None)"
    and w: "workers c = map (set_paused p) (hd (workers c0) # ws)"
    using assms(1) unfolding fed_def by blast
  obtain h t where c0: "workers c0 = h # t" "fresh h" "list_all fresh t" "wkind h = DataSource"
    using assms(2) by (cases "workers c0") (auto simp: new_chain_def)
  have "list_all fresh (map (set_paused False) (tl (workers c0)))" using c0 by (simp add: list.pred_map comp_def)
  then have "list_all fresh ws" using feed_flags [OF f, of False] by (simp add: list.pred_map comp_def list.pred_True)
  then show "workers c \<noteq> []" "list_all fresh (workers c)" "list_all (\<lambda>w. isPaused w = p) (workers c)"
    "wkind (hd (workers c)) = DataSource" "no_errors c" "isPaused (hd (workers c)) = p" "\<not> isFinished (hd (workers c))"
    using w c0 by (auto simp: no_errors_def list.pred_map comp_def list_all_iff fresh_def)
qed

lemma running_fed: "running env d c0 k p c \<Longrightarrow> fed env d c0 k p c"
  by (simp add: running_def)

lemma running_pause:
  assumes "running env d c0 k p c" and "new_chain c0"
  shows "running env d c0 k True (pause c)"
proof -
  note w = fed_workers [OF running_fed [OF assms(1)] assms(2)]
  have "pause_up (rev (workers c)) = map (set_paused True) (rev (workers c))"
    by (rule pause_up_fresh [where p = p]) (use w in \<open>auto simp: list_all_iff\<close>)
  then have "workers (pause c) = map (set_paused True) (workers c)"
    by (simp add: pause_def rev_map)
  then show ?thesis using assms(1) by (auto simp: running_def fed_def pause_def comp_def)
qed

lemma resume_no_errors:
  assumes "no_errors c" and "workers c \<noteq> []"
  shows "resume c =
    (let c' = c\<lparr>workers := rev (resume_up (rev (workers c)))\<rparr>
     in if list_all resumable (workers c) \<and> \<not> tickScheduled c \<and> dataIsReady c then schedule c' else c')"
  using resume_at_no_errors [OF assms(1), of "length (workers c) - 1"] assms(2)
  by (simp add: resume_def Let_def)

lemma running_resume:
  assumes "running env d c0 k p c" and "new_chain c0"
  shows "running env d c0 k False (resume c)"
proof -
  note w = fed_workers [OF running_fed [OF assms(1)] assms(2)]
  have "resume_up (rev (workers c)) = map (set_paused False) (rev (workers c))"
    by (rule resume_up_fresh [where p = p]) (use w in \<open>auto simp: list_all_iff\<close>)
  then have r: "rev (resume_up (rev (workers c))) = map (set_paused False) (workers c)" by (simp add: rev_map)
  have l: "list_all resumable (workers c) = p"
    using w by (cases "workers c") (auto simp: list_all_iff resumable_def fresh_def)
  show ?thesis
  proof (cases "p \<and> \<not> tickScheduled c \<and> dataIsReady c")
    case True
    then have "resume c = schedule (c\<lparr>workers := map (set_paused False) (workers c)\<rparr>)"
      using resume_no_errors [OF w(5,1)] r l by simp
    then show ?thesis using assms(1) True by (auto simp: running_def fed_def schedule_def comp_def)
  next
    case False
    then have "resume c = c\<lparr>workers := map (set_paused False) (workers c)\<rparr>"
      using resume_no_errors [OF w(5,1)] r l by auto
    then show ?thesis using assms(1) False by (auto simp: running_def fed_def comp_def)
  qed
qed

text \<open>One call of \<open>_tickAndRepeat\<close> while the content is read, and the one at its end.\<close>

lemma fed_chunks:
  assumes "fed env d c0 k p c"
  shows "drop k (content_chunks d 0) = content_chunks d (dw_index c)"
  using assms content_chunks_drop [of k d 0] by (simp add: fed_def)

lemma tick_chunk:
  assumes f: "fed env d c0 k False c" and new: "new_chain c0" and ne: "no_exception env c0 d"
    and d: "dw_data c = d" "dw_max c = data_length d" and k: "k < length (content_chunks d 0)"
  shows "\<exists>c'. tickAndRepeat env c = (schedule (c'\<lparr>tickScheduled := False, pending := pending c\<rparr>), None) \<and>
    fed env d c0 (Suc k) False c' \<and> dataIsReady c' = dataIsReady c \<and> dw_data c' = d \<and> dw_max c' = data_length d"
proof -
  note w = fed_workers [OF f new]
  let ?i = "dw_index c"
  let ?j = "min (data_length d) (?i + DEFAULT_BLOCK_SIZE)"
  let ?ch = "\<lparr>wc_data = data_slice d ?i ?j, wc_percent = Some (of_nat ?j / of_nat (data_length d) * 100)\<rparr> :: wchunk"
  let ?ws0 = "map (set_paused False) (tl (workers c0))"
  have cs: "content_chunks d ?i \<noteq> []" using fed_chunks [OF f] k by (metis drop_eq_Nil not_le)
  then have i: "?i < data_length d" by (subst (asm) content_chunks.simps) (auto split: if_splits)
  have dk: "drop k (content_chunks d 0) = ?ch # content_chunks d ?j"
    unfolding fed_chunks [OF f] using i content_chunks.simps [of d ?i] by (simp add: Let_def)
  have tk: "take (Suc k) (content_chunks d 0) = take k (content_chunks d 0) @ [?ch]"
    using k dk by (metis hd_drop_conv_nth list.sel(1) take_Suc_conv_app_nth)
  obtain ws where fe: "feed env ?ws0 (stream_info c0) (event_log c0) (take k (content_chunks d 0)) =
      (ws, stream_info c, event_log c, None)" and wc: "workers c = map (set_paused False) (hd (workers c0) # ws)"
    using f unfolding fed_def by blast
  have wsF: "map (set_paused False) ws = ws"
  proof (rule map_idI)
    fix v assume "v \<in> set ws"
    have "list_all fresh ?ws0 \<and> list_all (\<lambda>w. isPaused w = False) ?ws0"
      using new by (cases "workers c0") (auto simp: new_chain_def list.pred_map comp_def list.pred_True)
    then have "list_all (\<lambda>w. isPaused w = False) ws" using feed_flags [OF fe, of False] by blast
    then show "set_paused False v = v" using \<open>v \<in> set ws\<close> by (auto simp: list_all_iff set_paused_def)
  qed
  obtain ws' info evs ex where dl: "deliver env ws (stream_info c) (event_log c) ?ch = (ws', info, evs, ex)"
    by (metis prod_cases4)
  have fe': "feed env ?ws0 (stream_info c0) (event_log c0) (take (Suc k) (content_chunks d 0)) = (ws', info, evs, ex)"
    unfolding tk feed_append fe using dl by (auto simp: Let_def)
  have "ex = None"
  proof (rule ccontr)
    assume "ex \<noteq> None"
    have "content_chunks d 0 = take (Suc k) (content_chunks d 0) @ drop (Suc k) (content_chunks d 0)" by simp
    then have "feed env ?ws0 (stream_info c0) (event_log c0) (content_chunks d 0) = (ws', info, evs, ex)"
      using feed_append [of env ?ws0 "stream_info c0" "event_log c0" "take (Suc k) (content_chunks d 0)"
          "drop (Suc k) (content_chunks d 0)"] \<open>ex \<noteq> None\<close> unfolding fe' by simp
    then have "snd (snd (snd (full_run env c0 d))) = ex" using \<open>ex \<noteq> None\<close> by (auto simp: full_run_def map_tl Let_def)
    then show False using ne \<open>ex \<noteq> None\<close> by (simp add: no_exception_def)
  qed
  note fe' = fe' [unfolded this] and dl = dl [unfolded this]
  let ?c = "c\<lparr>dw_index := ?j, workers := hd (workers c) # ws', stream_info := info, event_log := evs\<rparr>"
  have eq: "c\<lparr>tickScheduled := False, dw_index := j, workers := v, stream_info := a, event_log := b\<rparr> =
      c\<lparr>dw_index := j, workers := v, stream_info := a, event_log := b, tickScheduled := False\<rparr>" for j v a b
    by (cases c) simp
  have "tickAndRepeat env c = (schedule (?c\<lparr>tickScheduled := False\<rparr>), None)"
    using w(6,7) d i dl wc unfolding tickAndRepeat_def tick_def by (simp add: Let_def not_le wsF comp_def eq)
  moreover have "fed env d c0 (Suc k) False ?c"
  proof -
    have "list_all fresh ws'" and "map (set_paused False) ws' = ws'"
    proof -
      have "list_all fresh ?ws0 \<and> list_all (\<lambda>w. isPaused w = False) ?ws0"
        using new by (cases "workers c0") (auto simp: new_chain_def list.pred_map comp_def list.pred_True)
      then have "list_all fresh ws' \<and> list_all (\<lambda>w. isPaused w = False) ws'" using feed_flags [OF fe', of False] by blast
      then show "list_all fresh ws'" "map (set_paused False) ws' = ws'"
        by (auto simp: list_all_iff set_paused_def intro!: map_idI)
    qed
    moreover have "?j = min (Suc k * DEFAULT_BLOCK_SIZE) (data_length d)"
      using f i by (auto simp: fed_def min_def)
    ultimately show ?thesis using fe' k wc unfolding fed_def by (auto simp: wsF comp_def)
  qed
  ultimately show ?thesis using d by (intro exI [of _ ?c]) simp
qed

definition awake :: "worker \<Rightarrow> bool" where
  "awake w \<longleftrightarrow> \<not> isPaused w \<and> generatedError w = None"

lemma awake_simps [simp]: "awake (w\<lparr>wkind := k\<rparr>) = awake w" "awake w \<Longrightarrow> awake (finish w)"
  "isPaused (finish w) = isPaused w" "isFinished (finish w)"
  "generatedError (finish w) = None"
  by (simp_all add: awake_def finish_def)

lemma deliver_awake: "deliver env ws info evs c = (ws', r) \<Longrightarrow> list_all awake ws \<Longrightarrow> list_all awake ws'"
  by (induction env ws info evs c arbitrary: ws' r rule: deliver.induct)
    (auto split: sum.splits prod.splits if_splits)

lemma length_delivered: "deliver env ws info evs c = (ws', r) \<Longrightarrow> length ws' = length ws"
  using length_deliver [of env ws info evs c] by simp

lemma error_down_awake: "error_down e ws evs = (ws', evs') \<Longrightarrow> list_all awake ws \<Longrightarrow> list_all awake ws'"
  by (induction e ws evs arbitrary: ws' evs' rule: error_down.induct)
    (auto simp: awake_def split: prod.splits if_splits)

lemma length_error_down: "error_down e ws evs = (ws', evs') \<Longrightarrow> length ws' = length ws"
  by (induction e ws evs arbitrary: ws' evs' rule: error_down.induct) (auto split: prod.splits if_splits)

text \<open>The two ways in which \<open>end\<close> comes back.\<close>

lemma end_flow_Cons:
  "end_flow env (w # ws) info evs = (ws', info', evs', ex) \<Longrightarrow> isFinished w \<Longrightarrow>
     ws' = w # ws \<and> ex = None"
  by (simp add: end_flow.simps)

lemma end_flow_awake:
  "end_flow env ws info evs = (ws', info', evs', ex) \<Longrightarrow> list_all awake ws \<Longrightarrow>
     list_all awake ws' \<and> length ws' = length ws \<and>
     (ex \<noteq> None \<longrightarrow> ws' \<noteq> [] \<and> active (hd ws')) \<and>
     (ex = None \<and> ws \<noteq> [] \<and> wkind (hd ws) = DataSource \<longrightarrow> isFinished (hd ws'))"
proof (induction env ws info evs arbitrary: ws' info' evs' ex rule: end_flow.induct)
  case (1 env info evs)
  then show ?case by (simp add: end_flow.simps)
next
  case (2 env w ws info evs)
  show ?case
  proof (cases "isFinished w")
    case True
    then show ?thesis using "2.prems" by (auto simp: end_flow.simps)
  next
    case nf: False
    obtain k chunk where k: "worker_flush (wkind w) = (k, chunk)" by fastforce
    obtain ws1 info1 evs1 ex1 where c: "(case chunk of None \<Rightarrow> (ws, info, evs, None) | Some c \<Rightarrow> deliver env ws info evs c)
        = (ws1, info1, evs1, ex1)" by (metis prod_cases4)
    have a: "awake w" "list_all awake ws1" "length ws1 = length ws"
      using "2.prems"(2) c deliver_awake [of env ws info evs] length_delivered [of env ws info evs]
      by (auto split: option.splits)
    have ds: "wkind w = DataSource \<Longrightarrow> k = DataSource" using k by auto
    show ?thesis
    proof (cases "ex1 = None")
      case False
      then have "ws' = w\<lparr>wkind := k\<rparr> # ws1" "ex = ex1" using "2.prems"(1) nf k c by (auto simp: end_flow.simps)
      then show ?thesis using a nf False awake_def [of w] by (auto simp: active_def)
    next
      case e1: True
      note IH = "2.IH" [OF nf refl k [symmetric] refl refl c [symmetric] refl refl]
      obtain ws2 info2 evs2 ex2 where d: "(case end_listener k info1 of Some e \<Rightarrow> (ws1, info1, evs1, Some e)
          | None \<Rightarrow> end_flow env ws1 info1 evs1) = (ws2, info2, evs2, ex2)" by (metis prod_cases4)
      have b: "list_all awake ws2" "length ws2 = length ws"
        "k = DataSource \<Longrightarrow> ex2 \<noteq> None \<Longrightarrow> ws2 \<noteq> [] \<and> active (hd ws2)"
        using d a IH e1 by (auto split: option.splits)
      show ?thesis
      proof (cases ex2)
        case None
        then have "ws' = finish (w\<lparr>wkind := k\<rparr>) # ws2" "ex = None"
          using "2.prems"(1) nf k c d e1 by (auto simp: end_flow.simps)
        then show ?thesis using a b by simp
      next
        case (Some e)
        obtain ws3 evs3 where g: "error_down e ws2 evs2 = (ws3, evs3)" by fastforce
        have "ex = None" and ws': "ws' = (if \<not> (ws2 \<noteq> [] \<and> active (hd ws2)) then w\<lparr>wkind := k\<rparr>
            else if isPaused w then w\<lparr>wkind := k, generatedError := Some e\<rparr> else finish (w\<lparr>wkind := k\<rparr>)) # ws3"
          using "2.prems"(1) nf k c d e1 Some g by (auto simp: end_flow.simps Let_def)
        moreover have "\<not> isPaused w" using a(1) by (simp add: awake_def)
        moreover have "list_all awake ws3" "length ws3 = length ws"
          using error_down_awake [OF g b(1)] length_error_down [OF g] b(2) by auto
        ultimately show ?thesis using a b(3) ds Some by auto
      qed
    qed
  qed
qed

lemma tick_end:
  assumes f: "fed env d c0 k False c" and new: "new_chain c0" and ne: "no_exception env c0 d"
    and d: "dw_max c = data_length d" "dataIsReady c" and k: "k = length (content_chunks d 0)"
  shows "\<exists>c'. tickAndRepeat env c = (c', None) \<and> ended env d c0 c'"
proof -
  note w = fed_workers [OF f new]
  have "content_chunks d (dw_index c) = []" using fed_chunks [OF f] k by simp
  then have i: "data_length d \<le> dw_index c" by (subst (asm) content_chunks.simps) (auto simp: Let_def split: if_splits)
  obtain ws where fe: "feed env (map (set_paused False) (tl (workers c0))) (stream_info c0) (event_log c0)
        (content_chunks d 0) = (ws, stream_info c, event_log c, None)"
    and wc: "workers c = map (set_paused False) (hd (workers c0) # ws)"
    using f k unfolding fed_def by auto
  have "list_all fresh (map (set_paused False) (tl (workers c0)))"
    using new by (cases "workers c0") (auto simp: new_chain_def list.pred_map comp_def)
  then have "list_all (\<lambda>w. isPaused w = False) ws" using feed_flags [OF fe, of False] by (simp add: list.pred_map comp_def list.pred_True)
  then have "map (set_paused False) ws = ws" by (auto simp: list_all_iff set_paused_def intro!: map_idI)
  then have full: "full_run env c0 d = end_flow env (workers c) (stream_info c) (event_log c)"
    using fe wc new by (simp add: full_run_def map_tl hd_map new_chain_def)
  obtain ws' info evs ex where e: "end_flow env (workers c) (stream_info c) (event_log c) = (ws', info, evs, ex)"
    by (metis prod_cases4)
  have "ex = None" using ne full e by (simp add: no_exception_def)
  note e = e [unfolded this]
  have "list_all awake (workers c)" using w by (auto simp: list_all_iff awake_def no_errors_def)
  from end_flow_awake [OF e this] have r: "list_all awake ws'" "ws' \<noteq> []" "isFinished (hd ws')"
    using w(1,4) by auto
  have "tickAndRepeat env c = (c\<lparr>tickScheduled := False, workers := ws', stream_info := info, event_log := evs\<rparr>, None)"
    using w(6,7) d i e r unfolding tickAndRepeat_def tick_def by (simp add: Let_def)
  moreover have "ended env d c0 (c\<lparr>tickScheduled := False, workers := ws', stream_info := info, event_log := evs\<rparr>)"
    using r d full e by (auto simp: ended_def no_errors_def list_all_iff awake_def)
  ultimately show ?thesis by blast
qed

text \<open>What a scheduled call does to a running chain, and to one that has ended.\<close>

lemma fed_tick_fields:
  "fed env d c0 k p (c\<lparr>tickScheduled := b\<rparr>) = fed env d c0 k p c"
  "fed env d c0 k p (c\<lparr>pending := n\<rparr>) = fed env d c0 k p c"
  "fed env d c0 k p (c\<lparr>dataIsReady := b, dw_data := e, dw_max := m\<rparr>) = fed env d c0 k p c"
  "fed env d c0 k p (schedule c) = fed env d c0 k p c"
  by (simp_all add: fed_def schedule_def)

lemma ended_tick_fields:
  "ended env d c0 (c\<lparr>pending := n\<rparr>) = ended env d c0 c"
  "ended env d c0 (c\<lparr>tickScheduled := b\<rparr>) = ended env d c0 c"
  by (simp_all add: ended_def no_errors_def)

lemma tick_running:
  assumes f: "fed env d c0 k p c" and new: "new_chain c0" and ne: "no_exception env c0 d"
    and d: "dw_data c = d" "dw_max c = data_length d" "dataIsReady c"
    and t: "tickAndRepeat env c = (c', ex)"
  shows "ex = None \<and> (if p then running env d c0 k True c' \<and> pending c' = pending c
    else if k < length (content_chunks d 0) then running env d c0 (Suc k) False c'
    else ended env d c0 c')"
proof (cases p)
  case True
  then have "tickAndRepeat env c = (c\<lparr>tickScheduled := False\<rparr>, None)"
    using fed_workers(6,7) [OF f new] by (simp add: tickAndRepeat_def Let_def)
  then show ?thesis using True t f d by (auto simp: running_def fed_tick_fields)
next
  case False
  then have f': "fed env d c0 k False c" using f by simp
  have kl: "k \<le> length (content_chunks d 0)" using f by (simp add: fed_def)
  show ?thesis
  proof (cases "k < length (content_chunks d 0)")
    case True
    from tick_chunk [OF f' new ne d(1,2) True] obtain c1 where
      "tickAndRepeat env c = (schedule (c1\<lparr>tickScheduled := False, pending := pending c\<rparr>), None)"
      "fed env d c0 (Suc k) False c1" "dataIsReady c1 = dataIsReady c" "dw_data c1 = d" "dw_max c1 = data_length d"
      by blast
    then show ?thesis using False True t d(3)
      by (auto simp: running_def fed_tick_fields) (auto simp: schedule_def)
  next
    case k: False
    then have "k = length (content_chunks d 0)" using kl by simp
    from tick_end [OF f' new ne d(2,3) this] show ?thesis
      using False k t by auto
  qed
qed

lemma ended_steps:
  assumes "ended env d c0 c"
  shows "ended env d c0 (pause c)" "ended env d c0 (resume c)" "tickAndRepeat env c = (c\<lparr>tickScheduled := False\<rparr>, None)"
proof -
  obtain h t where w: "workers c = h # t" "isFinished h" using assms by (cases "workers c") (auto simp: ended_def)
  have p: "list_all (\<lambda>w. generatedError w = None) (pause_up ws) = list_all (\<lambda>w. generatedError w = None) ws"
    "list_all (\<lambda>w. generatedError w = None) (resume_up ws) = list_all (\<lambda>w. generatedError w = None) ws" for ws
    by (induction ws) auto
  have last: "\<exists>q. pause_up (ws @ [h]) = q @ [h]" "\<exists>q. resume_up (ws @ [h]) = q @ [h]" for ws
    using w(2) by (induction ws) auto
  have "hd (rev (pause_up (rev (workers c)))) = h" "rev (pause_up (rev (workers c))) \<noteq> []"
    using last(1) [of "rev t"] w(1) by auto
  then show "ended env d c0 (pause c)" using assms w(2) p(1) [of "rev (workers c)"]
    by (simp add: ended_def pause_def no_errors_def)
  have "hd (rev (resume_up (rev (workers c)))) = h" "rev (resume_up (rev (workers c))) \<noteq> []"
    using last(2) [of "rev t"] w(1) by auto
  then show "ended env d c0 (resume c)" using assms w p(2) [of "rev (workers c)"]
    by (subst resume_no_errors) (auto simp: ended_def no_errors_def resumable_def Let_def)
  show "tickAndRepeat env c = (c\<lparr>tickScheduled := False\<rparr>, None)"
    using w by (simp add: tickAndRepeat_def Let_def)
qed

text \<open>The invariant of every interleaving.\<close>

definition chain_inv :: "platform \<Rightarrow> js_data \<Rightarrow> chain \<Rightarrow> chain \<Rightarrow> bool" where
  "chain_inv env d c0 c \<longleftrightarrow> (\<exists>k p. running env d c0 k p c) \<or> ended env d c0 c"

lemma chain_inv_init:
  assumes "new_chain c0"
  shows "chain_inv env d c0 c0"
proof -
  have "map (set_paused True) (workers c0) = workers c0"
    using assms by (auto simp: new_chain_def list_all_iff set_paused_def intro!: map_idI)
  then have "workers c0 = map (set_paused True) (hd (workers c0) # map (set_paused False) (tl (workers c0)))"
    using assms by (cases "workers c0") (auto simp: new_chain_def comp_def)
  then have "running env d c0 0 True c0" using assms by (auto simp: running_def fed_def new_chain_def)
  then show ?thesis unfolding chain_inv_def by blast
qed

lemma chain_inv_step:
  assumes "chain_step env d c c'" and "chain_inv env d c0 c" and new: "new_chain c0" and ne: "no_exception env c0 d"
  shows "chain_inv env d c0 c'"
  using assms(1)
proof cases
  case step_pause
  then show ?thesis using assms(2) running_pause [OF _ new] ended_steps(1) unfolding chain_inv_def by blast
next
  case step_resume
  then show ?thesis using assms(2) running_resume [OF _ new] ended_steps(2) unfolding chain_inv_def by blast
next
  case (step_ready ex)
  then obtain k p where r: "running env d c0 k p c" using assms(2) by (auto simp: chain_inv_def ended_def)
  let ?c = "c\<lparr>dataIsReady := True, dw_data := d, dw_max := data_length d\<rparr>"
  have f: "fed env d c0 k p ?c" using running_fed [OF r] by (simp add: fed_tick_fields)
  note w = fed_workers [OF f new]
  show ?thesis
  proof (cases p)
    case True
    then have "c' = ?c" using step_ready(2) w(6) by (simp add: data_ready_def Let_def)
    then have "running env d c0 k True c'" using f r True by (auto simp: running_def)
    then show ?thesis unfolding chain_inv_def by blast
  next
    case False
    then have "tickAndRepeat env ?c = (c', ex)" using step_ready(2) w(6) by (simp add: data_ready_def Let_def)
    from tick_running [OF f new ne _ _ _ this] show ?thesis
      unfolding chain_inv_def by (auto split: if_splits)
  qed
next
  case (step_tick ex)
  show ?thesis using assms(2) unfolding chain_inv_def
  proof (elim disjE exE)
    fix k p assume r: "running env d c0 k p c"
    then have "dataIsReady c" using step_tick(1) by (auto simp: running_def)
    moreover have "fed env d c0 k p (c\<lparr>pending := pending c - 1\<rparr>)" using running_fed [OF r] by (simp add: fed_tick_fields)
    moreover have "dw_data (c\<lparr>pending := pending c - 1\<rparr>) = d" "dw_max (c\<lparr>pending := pending c - 1\<rparr>) = data_length d"
      using r \<open>dataIsReady c\<close> by (simp_all add: running_def)
    ultimately have "if p then running env d c0 k True c' \<and> pending c' = pending c - 1
        else if k < length (content_chunks d 0) then running env d c0 (Suc k) False c' else ended env d c0 c'"
      using tick_running [OF _ new ne _ _ _ step_tick(2) [unfolded run_pending_def]] by simp
    then show "(\<exists>k p. running env d c0 k p c') \<or> ended env d c0 c'"
      by (cases p; cases "k < length (content_chunks d 0)") auto
  next
    assume e: "ended env d c0 c"
    then show "(\<exists>k p. running env d c0 k p c') \<or> ended env d c0 c'"
      using step_tick(2) ended_steps(3) [of env d c0 "c\<lparr>pending := pending c - 1\<rparr>"]
      by (auto simp: run_pending_def ended_tick_fields)
  qed
qed

lemma chain_inv_reach:
  "chain_reach env d c0 c \<Longrightarrow> new_chain c0 \<Longrightarrow> no_exception env c0 d \<Longrightarrow> chain_inv env d c0 c"
  by (induction rule: chain_reach.induct) (auto intro: chain_inv_init chain_inv_step)

section \<open>What the listeners see\<close>

lemma deliver_appends: "deliver env ws info evs c = (ws', info', evs', ex) \<Longrightarrow> prefix evs evs'"
  by (induction env ws info evs c arbitrary: ws' info' evs' ex rule: deliver.induct)
    (auto split: sum.splits prod.splits if_splits)

lemma error_down_appends: "error_down e ws evs = (ws', evs') \<Longrightarrow> prefix evs evs'"
  by (induction e ws evs arbitrary: ws' evs' rule: error_down.induct) (auto split: prod.splits if_splits)

lemma feed_appends: "feed env ws info evs cs = (ws', info', evs', ex) \<Longrightarrow> prefix evs evs'"
  by (induction env ws info evs cs arbitrary: ws' info' evs' ex rule: feed.induct)
    (auto split: prod.splits if_splits dest: deliver_appends intro: prefix_order.trans)

lemma end_flow_appends: "end_flow env ws info evs = (ws', info', evs', ex) \<Longrightarrow> prefix evs evs'"
proof (induction env ws info evs arbitrary: ws' info' evs' ex rule: end_flow.induct)
  case (1 env info evs)
  then show ?case by (auto simp: end_flow.simps)
next
  case (2 env w ws info evs)
  show ?case
  proof (cases "isFinished w")
    case True
    then show ?thesis using "2.prems" by (auto simp: end_flow.simps)
  next
    case nf: False
    obtain k chunk where k: "worker_flush (wkind w) = (k, chunk)" by fastforce
    obtain ws1 info1 evs1 ex1 where c: "(case chunk of None \<Rightarrow> (ws, info, evs, None) | Some c \<Rightarrow> deliver env ws info evs c)
        = (ws1, info1, evs1, ex1)" by (metis prod_cases4)
    have p1: "prefix evs evs1" using c deliver_appends by (auto split: option.splits)
    show ?thesis
    proof (cases "ex1 = None")
      case False
      then have "evs' = evs1" using "2.prems" nf k c by (auto simp: end_flow.simps)
      then show ?thesis using p1 by simp
    next
      case e1: True
      note IH = "2.IH" [OF nf refl k [symmetric] refl refl c [symmetric] refl refl]
      obtain ws2 info2 evs2 ex2 where d: "(case end_listener k info1 of Some e \<Rightarrow> (ws1, info1, evs1, Some e)
          | None \<Rightarrow> end_flow env ws1 info1 evs1) = (ws2, info2, evs2, ex2)" by (metis prod_cases4)
      have p2: "prefix evs1 evs2" using d IH e1 by (auto split: option.splits)
      obtain ws3 evs3 where g: "error_down (the ex2) ws2 evs2 = (ws3, evs3)" by fastforce
      have "evs' = evs2 \<or> evs' = evs3" using "2.prems" nf k c d e1 g
        by (cases ex2) (auto simp: end_flow.simps Let_def)
      then show ?thesis using p1 p2 error_down_appends [OF g] by (auto intro: prefix_order.trans)
    qed
  qed
qed

lemma fed_log_prefix:
  assumes "fed env d c0 k p c" and "new_chain c0"
  shows "prefix (event_log c) (fst (snd (snd (full_run env c0 d))))"
proof -
  let ?ws0 = "map (set_paused False) (tl (workers c0))"
  obtain ws where fe: "feed env ?ws0 (stream_info c0) (event_log c0) (take k (content_chunks d 0)) =
      (ws, stream_info c, event_log c, None)" using assms(1) unfolding fed_def by blast
  obtain ws1 info1 evs1 ex1 where f1: "feed env ws (stream_info c) (event_log c) (drop k (content_chunks d 0)) =
      (ws1, info1, evs1, ex1)" by (metis prod_cases4)
  have "feed env ?ws0 (stream_info c0) (event_log c0) (content_chunks d 0) = (ws1, info1, evs1, ex1)"
    using feed_append [of env ?ws0 "stream_info c0" "event_log c0" "take k (content_chunks d 0)" "drop k (content_chunks d 0)"]
    by (simp add: fe f1)
  then have "prefix evs1 (fst (snd (snd (full_run env c0 d))))"
    by (cases ex1; cases "end_flow env (hd (map (set_paused False) (workers c0)) # ws1) info1 evs1")
      (auto simp: full_run_def map_tl Let_def dest: end_flow_appends)
  then show ?thesis using feed_appends [OF f1] by (rule prefix_order.trans [rotated])
qed

text \<open>
  Property C12. Pauses cannot be seen. However the user pauses and resumes, whenever the data
  arrives and in whatever order the scheduled calls run, even when several are pending, the
  listeners have received a prefix of the events of the run without pauses, and all of
  them, the end included, once the source has finished.
\<close>

theorem pauses_invisible:
  assumes "new_chain c0" and "no_exception env c0 d" and "chain_reach env d c0 c"
  shows "prefix (event_log c) (fst (snd (snd (full_run env c0 d)))) \<and>
    (isFinished (hd (workers c)) \<longrightarrow> event_log c = fst (snd (snd (full_run env c0 d))))"
  using chain_inv_reach [OF assms(3,1,2)] unfolding chain_inv_def
proof (elim disjE exE)
  fix k p assume "running env d c0 k p c"
  then show ?thesis using fed_log_prefix [OF running_fed assms(1)] fed_workers(7) [OF running_fed assms(1)] by blast
qed (simp add: ended_def)

text \<open>A chain with one worker, for the witnesses.\<close>

definition demo_chain :: chain where
  "demo_chain = newDataWorker\<lparr>workers := [newWorker DataSource, newWorker Generic]\<rparr>"

definition demo_text :: js_data where "demo_text = JString (js ''abc'')"

lemma demo_chain_new: "new_chain demo_chain"
  by (simp add: demo_chain_def newDataWorker_def new_chain_def newWorker_def fresh_def)

lemma demo_chunks: "content_chunks demo_text 0 = [\<lparr>wc_data = demo_text, wc_percent = Some 100\<rparr>]"
  by (simp add: content_chunks.simps demo_text_def js_def DEFAULT_BLOCK_SIZE_def)

lemma demo_full_run:
  "full_run demo_platform demo_chain demo_text =
     (map (finish \<circ> set_paused False) (workers demo_chain), Map.empty,
      [DataEvent \<lparr>wc_data = demo_text, wc_percent = Some 100\<rparr>, EndEvent], None)"
  unfolding full_run_def demo_chunks
  by (simp add: demo_chain_def newDataWorker_def newWorker_def set_paused_def end_flow.simps finish_def)

theorem pauses_invisible_witness:
  "event_log (pause demo_chain) = [] \<and>
   prefix (event_log (pause demo_chain)) (fst (snd (snd (full_run demo_platform demo_chain demo_text))))"
proof -
  have "chain_reach demo_platform demo_text demo_chain (pause demo_chain)"
    by (rule chain_next [OF chain_init step_pause])
  from pauses_invisible [OF demo_chain_new _ this] show ?thesis
    by (simp add: no_exception_def demo_full_run) (simp add: pause_def demo_chain_def newDataWorker_def)
qed

definition tick_next :: "platform \<Rightarrow> chain \<Rightarrow> chain" where
  "tick_next env c = fst (run_pending env c)"

lemma ticks_to_end:
  assumes "running env d c0 k False c" and "dataIsReady c" and new: "new_chain c0" and ne: "no_exception env c0 d"
  shows "\<exists>n \<le> Suc (length (content_chunks d 0)). ended env d c0 ((tick_next env ^^ n) c) \<and>
    (\<forall>m < n. 0 < pending ((tick_next env ^^ m) c))"
proof -
  have "\<exists>n. n = Suc (length (content_chunks d 0) - k) \<and> ended env d c0 ((tick_next env ^^ n) c) \<and>
    (\<forall>m < n. 0 < pending ((tick_next env ^^ m) c))"
    using assms(1,2)
  proof (induction "length (content_chunks d 0) - k" arbitrary: k c)
    case 0
    have f: "fed env d c0 k False (c\<lparr>pending := pending c - 1\<rparr>)"
      using running_fed [OF "0.prems"(1)] by (simp add: fed_tick_fields)
    have "snd (run_pending env c) = None \<and> ended env d c0 (fst (run_pending env c))"
      using tick_running [OF f new ne, of "fst (run_pending env c)" "snd (run_pending env c)"] 0
      by (simp add: run_pending_def running_def)
    then show ?case using 0 by (simp add: tick_next_def running_def)
  next
    case (Suc x)
    have f: "fed env d c0 k False (c\<lparr>pending := pending c - 1\<rparr>)"
      using running_fed [OF Suc.prems(1)] by (simp add: fed_tick_fields)
    have k: "k < length (content_chunks d 0)" using Suc.hyps(2) by simp
    then have r: "running env d c0 (Suc k) False (tick_next env c)"
      using tick_running [OF f new ne, of "fst (run_pending env c)" "snd (run_pending env c)"] Suc.prems
      by (simp add: run_pending_def running_def tick_next_def)
    have p: "0 < pending c" using Suc.prems by (simp add: running_def)
    have "k < length (content_chunks d 0) \<Longrightarrow> dataIsReady (tick_next env c)"
    proof (rule ccontr)
      assume "\<not> dataIsReady (tick_next env c)"
      then have "Suc k = 0" using r unfolding running_def by blast
      then show False by simp
    qed
    then have dr: "dataIsReady (tick_next env c)" using k by blast
    have x: "x = length (content_chunks d 0) - Suc k" using Suc.hyps(2) by simp
    from Suc.hyps(1) [OF x r dr] obtain n where n: "n = Suc (length (content_chunks d 0) - Suc k)"
      "ended env d c0 ((tick_next env ^^ n) (tick_next env c))"
      "\<forall>m < n. 0 < pending ((tick_next env ^^ m) (tick_next env c))" by blast
    have "Suc n = Suc (length (content_chunks d 0) - k)" using n(1) Suc.hyps(2) by simp
    moreover have "ended env d c0 ((tick_next env ^^ Suc n) c)" using n(2) by (simp add: funpow_swap1)
    moreover have "\<forall>m < Suc n. 0 < pending ((tick_next env ^^ m) c)"
    proof (intro allI impI)
      fix m assume "m < Suc n"
      then show "0 < pending ((tick_next env ^^ m) c)"
        using n(3) p by (cases m) (simp_all add: funpow_swap1)
    qed
    ultimately show ?case by blast
  qed
  then show ?thesis by (metis diff_le_self Suc_le_mono)
qed

text \<open>
  Property C26. A resumed stream ends: from every reachable state in which the data is there,
  \<open>resume\<close> and then at most one scheduled call per chunk of the content, and one for its
  end, lead to the end of the source, and as long as it has not ended a call is scheduled.
\<close>

theorem stream_ends:
  assumes "new_chain c0" and "no_exception env c0 d" and "chain_reach env d c0 c" and "dataIsReady c"
  shows "\<exists>n \<le> Suc (length (content_chunks d 0)). isFinished (hd (workers ((tick_next env ^^ n) (resume c)))) \<and>
    event_log ((tick_next env ^^ n) (resume c)) = fst (snd (snd (full_run env c0 d))) \<and>
    (\<forall>m < n. 0 < pending ((tick_next env ^^ m) (resume c)))"
  using chain_inv_reach [OF assms(3,1,2)] unfolding chain_inv_def
proof (elim disjE exE)
  fix k p assume r: "running env d c0 k p c"
  then have "running env d c0 k False (resume c)" using assms(1) by (rule running_resume)
  moreover have "dataIsReady (resume c)"
    using resume_no_errors [of c] fed_workers(1,5) [OF running_fed [OF r] assms(1)] assms(4)
    by (simp add: Let_def schedule_def split: if_splits)
  ultimately show ?thesis using ticks_to_end [OF _ _ assms(1,2)] unfolding ended_def by blast
next
  assume "ended env d c0 c"
  then have "ended env d c0 (resume c)" by (rule ended_steps(2))
  then show ?thesis by (intro exI [of _ 0]) (simp add: ended_def)
qed

theorem stream_ends_witness:
  "\<exists>n \<le> 2. isFinished (hd (workers ((tick_next demo_platform ^^ n)
     (resume (fst (data_ready demo_platform demo_text demo_chain))))))"
proof -
  let ?c = "fst (data_ready demo_platform demo_text demo_chain)"
  have c: "?c = demo_chain\<lparr>dataIsReady := True, dw_data := demo_text, dw_max := data_length demo_text\<rparr>"
    by (simp add: data_ready_def demo_chain_def newDataWorker_def newWorker_def)
  have "chain_step demo_platform demo_text demo_chain ?c"
    by (rule step_ready [of _ _ _ _ "snd (data_ready demo_platform demo_text demo_chain)"])
      (simp_all add: demo_chain_def newDataWorker_def)
  then have "chain_reach demo_platform demo_text demo_chain ?c" by (rule chain_next [OF chain_init])
  from stream_ends [OF demo_chain_new _ this] show ?thesis
    using c by (auto simp: no_exception_def demo_full_run demo_chunks numeral_2_eq_2)
qed

section \<open>Errors and locks\<close>

lemma error_down_active:
  "list_all active ws \<Longrightarrow> error_down e ws evs = (map finish ws, evs @ [ErrorEvent e])"
  by (induction ws) (auto simp: active_def)

lemma error_up_active: "list_all active ws \<Longrightarrow> error_up e ws = map finish ws"
  by (induction ws) (auto simp: active_def)

lemma error_at_active:
  assumes "list_all active (workers c)" and "i < length (workers c)"
  shows "error_at i e c = c\<lparr>workers := map finish (workers c), event_log := event_log c @ [ErrorEvent e]\<rparr>"
proof -
  have "list_all active (take i (workers c))" "list_all active (drop i (workers c))" "active (workers c ! i)"
    using assms by (auto simp: list_all_iff dest: in_set_takeD in_set_dropD)
  then show ?thesis
    by (simp add: error_at_def error_down_active error_up_active rev_map drop_map take_map flip: map_append)
qed

text \<open>Resuming a paused chain whose source has stored an error.\<close>

lemma resume_at_source_error:
  assumes "workers c = h\<lparr>generatedError := Some e\<rparr> # map (set_paused True) us @ map (set_paused False) vs"
    and "resumable h" and "list_all fresh (us @ vs)"
  shows "workers (resume_at (length us) c) = map finish (set_paused False h # map (set_paused False) (us @ vs)) \<and>
    event_log (resume_at (length us) c) = event_log c @ [ErrorEvent e]"
  using assms
proof (induction us arbitrary: c vs rule: rev_induct)
  case Nil
  let ?c = "c\<lparr>workers := h\<lparr>generatedError := Some e, isPaused := False\<rparr> # map (set_paused False) vs\<rparr>"
  have a: "list_all active (workers ?c)"
    using Nil by (auto simp: resumable_def active_def list.pred_map comp_def fresh_def list_all_iff)
  have "workers (resume_at 0 c) = workers (error_at 0 e ?c)" "event_log (resume_at 0 c) = event_log (error_at 0 e ?c)"
    using Nil by (subst resume_at.simps, simp add: Let_def resumable_def)+
  then show ?case using error_at_active [OF a, of 0 e]
    by (simp add: finish_def set_paused_def comp_def)
next
  case (snoc u us)
  let ?i = "length (us @ [u])"
  let ?c = "c\<lparr>workers := (workers c)[?i := set_paused False u]\<rparr>"
  have n: "workers c ! ?i = set_paused True u" using snoc.prems(1) by (simp add: nth_append)
  have "resume_at ?i c = resume_at (length us) ?c"
    using n snoc.prems(3) by (subst resume_at.simps) (simp add: Let_def fresh_def)
  moreover have "workers ?c = h\<lparr>generatedError := Some e\<rparr> # map (set_paused True) us @ map (set_paused False) (u # vs)"
    using snoc.prems(1) by (simp add: list_update_append)
  ultimately show ?case using snoc.IH [of ?c "u # vs"] snoc.prems by simp
qed

text \<open>
  Property C25. An error reaches everybody. Raised by any worker of a flowing chain, it finishes every
  worker of the chain, above and below, and the listeners receive exactly one error event; raised by the
  source of a paused chain (the promise of the data is broken), nothing happens until \<open>resume\<close>,
  which then does the same.
\<close>

theorem errors_reach_all:
  assumes "list_all fresh (workers c)" and "i < length (workers c)"
    and "list_all (\<lambda>w. isPaused w = p) (workers c)"
  shows "if p then
      event_log (data_failed e c) = event_log c \<and>
      list_all isFinished (workers (resume (data_failed e c))) \<and>
      event_log (resume (data_failed e c)) = event_log c @ [ErrorEvent e]
    else list_all isFinished (workers (error_at i e c)) \<and> event_log (error_at i e c) = event_log c @ [ErrorEvent e]"
proof (cases p)
  case True
  obtain h t where w: "workers c = h # t" using assms(2) by (cases "workers c") auto
  have h: "resumable h" and t: "map (set_paused True) t = t" and f: "list_all fresh t"
    using assms(1,3) w True by (auto simp: resumable_def fresh_def list_all_iff set_paused_def intro!: map_idI)
  have d: "data_failed e c = c\<lparr>workers := h\<lparr>generatedError := Some e\<rparr> # t\<rparr>"
    using h by (simp add: data_failed_def error_at_def w resumable_def active_def Let_def)
  from resume_at_source_error [of "data_failed e c" e h t "[]"] h t f
  have "workers (resume (data_failed e c)) = map finish (set_paused False h # map (set_paused False) t)"
    "event_log (resume (data_failed e c)) = event_log c @ [ErrorEvent e]"
    by (simp_all add: resume_def d)
  then show ?thesis using True d by (simp add: list.pred_map comp_def list.pred_True)
next
  case False
  then have "list_all active (workers c)" using assms(1,3) by (auto simp: active_def fresh_def list_all_iff)
  then show ?thesis using error_at_active [OF _ assms(2)] False by (simp add: list.pred_map comp_def list.pred_True)
qed

theorem errors_reach_all_witness:
  "event_log (data_failed NotAString demo_chain) = [] \<and>
   list_all isFinished (workers (resume (data_failed NotAString demo_chain))) \<and>
   event_log (resume (data_failed NotAString demo_chain)) = [ErrorEvent NotAString]"
  using errors_reach_all [of demo_chain 0 True NotAString]
  by (simp add: demo_chain_def newDataWorker_def newWorker_def fresh_def)

lemma lock_up_unlocked: "list_all (Not \<circ> isLocked) ws \<Longrightarrow> lock_up ws = (map (\<lambda>w. w\<lparr>isLocked := True\<rparr>) ws, True)"
  by (induction ws) auto

text \<open>
  Locking the last worker of an unlocked chain locks every worker, and locking it again
  throws; but a worker can still be piped after a locked chain, because \<open>pipe\<close> looks at the lock of
  the worker it adds, not of the one it is called on.
\<close>

lemma lock_once:
  assumes "workers c \<noteq> []" and "list_all (Not \<circ> isLocked) (workers c)"
  shows "snd (lock c) = None \<and> list_all isLocked (workers (fst (lock c))) \<and>
    snd (lock (fst (lock c))) = Some AlreadyUsed \<and>
    (\<exists>c'. pipe (newWorker k) (fst (lock c)) = Inr c' \<and> length (workers c') = Suc (length (workers c)))"
proof -
  have l: "lock c = (c\<lparr>workers := map (\<lambda>w. w\<lparr>isLocked := True\<rparr>) (workers c)\<rparr>, None)"
    using lock_up_unlocked [of "rev (workers c)"] assms(2) by (simp add: lock_def rev_map)
  obtain ws w where w: "workers c = ws @ [w]" using assms(1) by (cases "workers c" rule: rev_cases) auto
  show ?thesis unfolding l
    by (simp add: list.pred_map comp_def list.pred_True lock_def w pipe_def newWorker_def)
qed

end
