(* ===== verification/Contents.thy ===== *)
theory Contents
  imports Streams
begin

text \<open>
  The contents of files as streams: \<open>CompressedObject\<close>, the worker methods of \<open>ZipObject\<close>,
  and \<open>StreamHelper\<close> with \<open>accumulate\<close>. By the theorems on chains every interleaving of a stream
  gives the events of its run without pauses, so a content is studied through that run. The only
  compression here is \<open>STORE\<close>; the workers of \<open>lib/flate\<close> are a parameter.
\<close>

section \<open>Building the chains\<close>

definition pipe_new :: "worker_kind \<Rightarrow> chain \<Rightarrow> chain" where
  "pipe_new k c = (case pipe (newWorker k) c of Inl e \<Rightarrow> c | Inr c' \<Rightarrow> c')"

text \<open>A stream is a chain with the promise of its content, already settled.\<close>

type_synonym stream = "chain \<times> (util_error + js_data)"

definition pipe_stream :: "worker_kind \<Rightarrow> stream \<Rightarrow> stream" where
  "pipe_stream k s = (pipe_new k (fst s), snd s)"

text \<open>\<open>compressions[method].compressWorker\<close> and \<open>uncompressWorker\<close>, with the flate workers given.\<close>

definition uncompressWorker :: "worker_kind \<Rightarrow> compression \<Rightarrow> worker_kind" where
  "uncompressWorker inflate c = (case c of STORE \<Rightarrow> Generic | DEFLATE \<Rightarrow> inflate)"

definition compressWorker :: "worker_kind \<Rightarrow> compression \<Rightarrow> worker_kind" where
  "compressWorker deflate c = (case c of STORE \<Rightarrow> Generic | DEFLATE \<Rightarrow> deflate)"

definition getContentWorker :: "worker_kind \<Rightarrow> compressed_object \<Rightarrow> stream" where
  "getContentWorker inflate co =
     pipe_stream (DataLengthProbe ''data_length'' (Some (co_uncompressedSize co)))
       (pipe_stream (uncompressWorker inflate (co_compression co))
          (newDataWorker, Inr (to_uint8 (co_content co))))"

text \<open>
  The \<open>compression\<close> of the \<open>streamInfo\<close> is not a number like the rest of it; it is kept beside the
  stream.
\<close>

type_synonym compressed_stream = "stream \<times> compression"

definition getCompressedWorker :: "compressed_object \<Rightarrow> compressed_stream" where
  "getCompressedWorker co =
     ((withStreamInfo ''crc32'' (co_crc32 co)
        (withStreamInfo ''uncompressedSize'' (co_uncompressedSize co)
          (withStreamInfo ''compressedSize'' (co_compressedSize co) newDataWorker)),
      Inr (to_uint8 (co_content co))), co_compression co)"

definition createWorkerFrom :: "worker_kind \<Rightarrow> stream \<Rightarrow> compression \<Rightarrow> compressed_stream" where
  "createWorkerFrom deflate s c =
     (pipe_stream (DataLengthProbe ''compressedSize'' None)
       (pipe_stream (compressWorker deflate c)
         (pipe_stream (DataLengthProbe ''uncompressedSize'' None) (pipe_stream Crc32Probe s))), c)"

text \<open>
  The worker methods of \<open>ZipObject\<close>. A content that is a worker of the caller gives \<open>None\<close>: its
  chunks are not the program's.
\<close>

definition decompressWorker :: "worker_kind \<Rightarrow> zip_object \<Rightarrow> stream option" where
  "decompressWorker inflate z =
     (case zo_data z of
        CompressedContent co \<Rightarrow> Some (getContentWorker inflate co)
      | WorkerContent w \<Rightarrow> None
      | DataContent p \<Rightarrow> Some (newDataWorker, p))"

definition zo_compressWorker :: "worker_kind \<Rightarrow> worker_kind \<Rightarrow> zip_object \<Rightarrow> compression \<Rightarrow> compressed_stream option" where
  "zo_compressWorker inflate deflate z c =
     (case zo_data z of
        CompressedContent co \<Rightarrow>
          if magic (co_compression co) = magic c then Some (getCompressedWorker co)
          else Some (createWorkerFrom deflate
            (if zo_dataBinary z then getContentWorker inflate co
             else pipe_stream Utf8Encode (getContentWorker inflate co)) c)
      | _ \<Rightarrow> (case decompressWorker inflate z of
          None \<Rightarrow> None
        | Some s \<Rightarrow> Some (createWorkerFrom deflate
            (if zo_dataBinary z then s else pipe_stream Utf8Encode s) c)))"

section \<open>StreamHelper\<close>

datatype output_data = OutData js_data | OutBlob "byte list" string | OutBase64 jsstr

definition internal_type :: "string \<Rightarrow> string" where
  "internal_type outputType =
     (if outputType = ''blob'' \<or> outputType = ''arraybuffer'' then ''uint8array''
      else if outputType = ''base64'' then ''string'' else outputType)"

definition newStreamHelper :: "platform \<Rightarrow> string \<Rightarrow> stream \<Rightarrow> stream_error + stream" where
  "newStreamHelper env outputType s =
     (case checkSupport env (internal_type outputType) of
        Inl e \<Rightarrow> Inl (Util e)
      | Inr u \<Rightarrow> (let c = pipe_new (ConvertWorker (internal_type outputType)) (fst s)
          in case lock (c\<lparr>workers := butlast (workers c)\<rparr>) of
               (c', Some e) \<Rightarrow> Inl e
             | (c', None) \<Rightarrow> Inr (c'\<lparr>workers := workers c' @ [last (workers c)]\<rparr>, snd s)))"

text \<open>\<open>concat\<close> of the chunks, by their type.\<close>

definition concat_data :: "string \<Rightarrow> js_data list \<Rightarrow> stream_error + js_data" where
  "concat_data type ds =
     (if type = ''string'' then Inr (JString (concat (map (\<lambda>d. map fromCharCode (elements d)) ds)))
      else if type = ''array'' then Inr (to_array (concat (map elements ds)))
      else if type = ''uint8array'' then Inr (to_uint8 (concat (map elements ds)))
      else if type = ''nodebuffer'' then Inr (JBuffer (byte_array (concat (map elements ds))))
      else Inl (Util (NotSupported type)))"

fun base64_of :: "js_data \<Rightarrow> jsstr" where
  "base64_of (JString s) = base64_encode (B64String s)"
| "base64_of d = base64_encode (B64Array (elements d))"

definition transformZipOutput :: "platform \<Rightarrow> string \<Rightarrow> js_data \<Rightarrow> string \<Rightarrow> stream_error + output_data" where
  "transformZipOutput env type content mimeType =
     (if type = ''blob''
      then (case transformTo env ''arraybuffer'' (Some content) of
              Inl e \<Rightarrow> Inl (Util e)
            | Inr d \<Rightarrow> if sup_blob env then Inr (OutBlob (byte_array (elements d)) mimeType) else Inl (Util (NotSupported ''blob'')))
      else if type = ''base64'' then Inr (OutBase64 (base64_of content))
      else (case transformTo env type (Some content) of Inl e \<Rightarrow> Inl (Util e) | Inr d \<Rightarrow> Inr (OutData d)))"

text \<open>\<open>accumulate\<close>: the promise is settled by the first error or the end.\<close>

fun helper_accumulate :: "platform \<Rightarrow> string \<Rightarrow> string \<Rightarrow> js_data list \<Rightarrow> event list \<Rightarrow> (stream_error + output_data) option" where
  "helper_accumulate env type mimeType ds [] = None"
| "helper_accumulate env type mimeType ds (DataEvent c # evs) = helper_accumulate env type mimeType (ds @ [wc_data c]) evs"
| "helper_accumulate env type mimeType ds (ErrorEvent e # evs) = Some (Inl e)"
| "helper_accumulate env type mimeType ds (EndEvent # evs) =
     Some (rbind (concat_data (internal_type type) ds) (\<lambda>d. transformZipOutput env type d mimeType))"

text \<open>The events of a stream: those of the run without pauses, or the error of the promise.\<close>

definition stream_events :: "platform \<Rightarrow> stream \<Rightarrow> event list" where
  "stream_events env s =
     (case snd s of
        Inr d \<Rightarrow> fst (snd (snd (full_run env (fst s) d)))
      | Inl e \<Rightarrow> event_log (resume (data_failed (Util e) (fst s))))"

definition stream_final_info :: "platform \<Rightarrow> stream \<Rightarrow> info" where
  "stream_final_info env s =
     (case snd s of Inr d \<Rightarrow> fst (snd (full_run env (fst s) d)) | Inl e \<Rightarrow> stream_info (fst s))"

text \<open>\<open>internalStream\<close> and \<open>async\<close> of a \<open>ZipObject\<close>.\<close>

definition internalStream :: "platform \<Rightarrow> worker_kind \<Rightarrow> zip_object \<Rightarrow> string \<Rightarrow> (string \<times> (stream_error + stream)) option" where
  "internalStream env inflate z type =
     (if type = [] then Some (''string'', Inl NoOutputType)
      else let outputType = toLowerCase type;
               askUnicodeString = (outputType = ''string'' \<or> outputType = ''text'');
               outputType = (if outputType = ''binarystring'' \<or> outputType = ''text'' then ''string'' else outputType);
               isUnicodeString = (\<not> zo_dataBinary z)
           in map_option (\<lambda>s.
                let s = (if isUnicodeString \<and> \<not> askUnicodeString then pipe_stream Utf8Encode s else s);
                    s = (if \<not> isUnicodeString \<and> askUnicodeString then pipe_stream (Utf8Decode None) s else s)
                in (outputType, newStreamHelper env outputType s))
              (decompressWorker inflate z))"

definition async :: "platform \<Rightarrow> worker_kind \<Rightarrow> zip_object \<Rightarrow> string \<Rightarrow> (stream_error + output_data) option" where
  "async env inflate z type =
     (case internalStream env inflate z type of
        None \<Rightarrow> None
      | Some (outputType, Inl e) \<Rightarrow> Some (Inl e)
      | Some (outputType, Inr s) \<Rightarrow> helper_accumulate env outputType [] [] (stream_events env s))"

section \<open>Chunks of a content\<close>

fun valid_data :: "js_data \<Rightarrow> bool" where
  "valid_data (JUint8 buf off len) = (off + len \<le> length buf)"
| "valid_data (JArrayBuffer b) = False"
| "valid_data d = True"

lemma length_elements: "valid_data d \<Longrightarrow> length (elements d) = data_length d"
  by (cases d) (simp_all add: subarray_of_def)

lemma type_data_slice [simp]: "type_of (data_slice d i j) = type_of d"
  by (cases d) simp_all

lemma elements_data_slice:
  "valid_data d \<Longrightarrow> i \<le> j \<Longrightarrow> j \<le> data_length d \<Longrightarrow>
     elements (data_slice d i j) = take (j - i) (drop i (elements d))"
  by (cases d) (simp_all add: subarray_of_def take_map drop_map drop_take add.commute min_def)

lemma string_data_slice: "d = JString s \<Longrightarrow> data_slice d i j = JString (take (j - i) (drop i s))"
  by simp

text \<open>The chunks are the content cut at multiples of the block size.\<close>

function blocks :: "'a list \<Rightarrow> 'a list list" where
  "blocks xs = (if xs = [] then [] else take DEFAULT_BLOCK_SIZE xs # blocks (drop DEFAULT_BLOCK_SIZE xs))"
  by pat_completeness auto
termination by (relation "measure length") (auto simp: DEFAULT_BLOCK_SIZE_def)

declare blocks.simps [simp del]

lemma blocks_Nil [simp]: "blocks [] = []"
  by (simp add: blocks.simps)

lemma concat_blocks: "concat (blocks xs) = xs"
  by (induction xs rule: blocks.induct) (subst blocks.simps, simp)

lemma blocks_sizes: "\<forall>b \<in> set (butlast (blocks xs)). length b = DEFAULT_BLOCK_SIZE"
proof (induction xs rule: blocks.induct)
  case (1 xs)
  show ?case
  proof (cases "xs = []")
    case False
    have "length (take DEFAULT_BLOCK_SIZE xs) = DEFAULT_BLOCK_SIZE" if "blocks (drop DEFAULT_BLOCK_SIZE xs) \<noteq> []"
      using that by (cases "length xs \<le> DEFAULT_BLOCK_SIZE") auto
    then show ?thesis using 1 False by (subst blocks.simps) auto
  qed simp
qed

lemma chunk_elements:
  "valid_data d \<Longrightarrow> map (elements \<circ> wc_data) (content_chunks d i) = blocks (drop i (elements d))"
proof (induction d i rule: content_chunks.induct)
  case (1 d i)
  show ?case
  proof (cases "data_length d \<le> i")
    case True
    then show ?thesis using length_elements [OF "1.prems"] by (subst content_chunks.simps) (simp add: blocks.simps)
  next
    case False
    let ?j = "min (data_length d) (i + DEFAULT_BLOCK_SIZE)"
    let ?es = "drop i (elements d)"
    have l: "length (elements d) = data_length d" using "1.prems" by (rule length_elements)
    have ne: "?es \<noteq> []" using False l by simp
    have IH: "map (elements \<circ> wc_data) (content_chunks d ?j) = blocks (drop ?j (elements d))"
      using "1.IH" [OF _ refl] False "1.prems" by (simp add: comp_def)
    have "drop ?j (elements d) = drop DEFAULT_BLOCK_SIZE ?es" using l by (simp add: min_def add.commute)
    moreover have "elements (data_slice d i ?j) = take DEFAULT_BLOCK_SIZE ?es"
      using elements_data_slice [OF "1.prems", of i ?j] False l by (simp add: min_def)
    moreover have "content_chunks d i = \<lparr>wc_data = data_slice d i ?j,
        wc_percent = Some (of_nat ?j / of_nat (data_length d) * 100)\<rparr> # content_chunks d ?j"
      using False content_chunks.simps [of d i] by (simp add: Let_def)
    moreover have "blocks ?es = take DEFAULT_BLOCK_SIZE ?es # blocks (drop DEFAULT_BLOCK_SIZE ?es)"
      using ne blocks.simps [of ?es] by simp
    ultimately show ?thesis using IH by (simp add: comp_def)
  qed
qed

text \<open>Conversion of a chunk to a type in which streams run.\<close>

abbreviation chunk_types :: "string list" where
  "chunk_types \<equiv> [''string'', ''array'', ''uint8array'', ''nodebuffer'']"

lemma in_chunk_types:
  "t \<in> set chunk_types \<Longrightarrow> t = ''string'' \<or> t = ''array'' \<or> t = ''uint8array'' \<or> t = ''nodebuffer''"
  by (simp only: list.set insert_iff empty_iff simp_thms)

lemma chunk_types_matrix: "t \<in> set chunk_types \<Longrightarrow> t \<in> set matrix_types"
  by (drule in_chunk_types, elim disjE) (simp_all only: list.set insert_iff empty_iff simp_thms)

definition converted :: "string \<Rightarrow> js_data \<Rightarrow> js_data \<Rightarrow> bool" where
  "converted t d d' \<longleftrightarrow> type_of d' = t \<and> bytes_of d' = bytes_of d"

lemma gives_converted: "gives t (bytes_of d) r \<Longrightarrow> \<exists>d'. r = Inr d' \<and> converted t d d'"
  by (cases r) (auto simp: gives_def converted_def)

lemma convert_chunk:
  assumes t: "t \<in> set chunk_types" and "support_of env t" and "support_of env (type_of d)"
  shows "\<exists>d'. transformTo env t (Some d) = Inr d' \<and> converted t d d'"
proof (cases "whole_view d")
  case True
  then show ?thesis using transformTo_gives [OF chunk_types_matrix [OF t] assms(2,3)] gives_converted by blast
next
  case False
  then obtain buf off len where d: "d = JUint8 buf off len" by (cases d) auto
  have "transformTo env t (Some d) = transform_uint8array env t d"
    using transformTo_known [OF chunk_types_matrix [OF t] assms(2,3)] by (simp add: d)
  moreover have "\<exists>d'. transform_uint8array env t d = Inr d' \<and> converted t d d'"
    using in_chunk_types [OF t]
    by (elim disjE) (simp_all add: transform_uint8array_def converted_def result_simps d bytes_of_def [of "JUint8 _ _ _"]
        del: elements.simps)
  ultimately show ?thesis by simp
qed

lemma convert_string: "transformTo env ''string'' (Some (JString s)) = Inr (JString s)"
  by (subst transformTo_known) (simp_all add: support_of_def)

text \<open>What a chain of converters delivers.\<close>

definition conv :: "platform \<Rightarrow> string \<Rightarrow> js_data \<Rightarrow> js_data" where
  "conv env t d = projr (transformTo env t (Some d))"

lemma feed_convert:
  assumes "list_all (\<lambda>c. \<exists>d'. transformTo env t (Some (wc_data c)) = Inr d') cs"
    and "wkind w = ConvertWorker t" "\<not> isFinished w"
  shows "feed env [w] info evs cs =
    ([w], info, evs @ map (\<lambda>c. DataEvent (c\<lparr>wc_data := conv env t (wc_data c)\<rparr>)) cs, None)"
  using assms
proof (induction cs arbitrary: evs)
  case (Cons c cs)
  then obtain d' where "transformTo env t (Some (wc_data c)) = Inr d'" by auto
  then have "deliver env [w] info evs c = ([w], info, evs @ [DataEvent (c\<lparr>wc_data := conv env t (wc_data c)\<rparr>)], None)"
    using Cons.prems by (simp add: convert_processChunk_def conv_def)
  then show ?case using Cons by simp
qed simp

lemma end_convert:
  assumes "wkind w = ConvertWorker t" "\<not> isFinished w" "wkind h = DataSource" "\<not> isFinished h"
  shows "end_flow env [h, w] info evs = ([finish h, finish w], info, evs @ [EndEvent], None)"
  using assms by (cases h; cases w) (simp add: end_flow.simps)

lemma accumulate_data:
  "helper_accumulate env type m ds (map DataEvent cs @ evs) = helper_accumulate env type m (ds @ map wc_data cs) evs"
  by (induction cs arbitrary: ds) auto

text \<open>The chunks of a converted content put together.\<close>

lemma byte_array_append [simp]: "byte_array (xs @ ys) = byte_array xs @ byte_array ys"
  by (simp add: byte_array_def)

lemma byte_array_concat: "byte_array (concat xss) = concat (map byte_array xss)"
  by (induction xss) (simp_all add: byte_array_def)

lemma concat_data_bytes:
  assumes "t \<in> set chunk_types"
  shows "\<exists>d. concat_data t ds = Inr d \<and> type_of d = t \<and> whole_view d \<and> bytes_of d = concat (map bytes_of ds)"
proof -
  have b: "concat (map bytes_of ds) = byte_array (concat (map elements ds))"
    by (simp add: byte_array_concat bytes_of_def [abs_def] comp_def)
  have s: "concat (map (\<lambda>d. map fromCharCode (elements d)) ds) = map fromCharCode (concat (map elements ds))"
    by (simp add: map_concat comp_def)
  show ?thesis unfolding b using in_chunk_types [OF assms]
    by (elim disjE) (simp_all add: concat_data_def s result_simps)
qed

lemma bytes_of_chunks:
  assumes "valid_data d"
  shows "concat (map (bytes_of \<circ> wc_data) (content_chunks d 0)) = bytes_of d"
proof -
  have "concat (map (bytes_of \<circ> wc_data) (content_chunks d 0)) =
      byte_array (concat (map (elements \<circ> wc_data) (content_chunks d 0)))"
    by (simp add: byte_array_concat bytes_of_def [abs_def] comp_def)
  also have "\<dots> = bytes_of d" using chunk_elements [OF assms, of 0] by (simp add: concat_blocks bytes_of_def)
  finally show ?thesis .
qed

lemma worker_kind_id: "wkind w = k \<Longrightarrow> w\<lparr>wkind := k\<rparr> = w"
  by (cases w) simp

text \<open>An encoder in front of a chain.\<close>

definition encoded_chunk :: "platform \<Rightarrow> wchunk \<Rightarrow> wchunk" where
  "encoded_chunk env c = (case wc_data c of JString s \<Rightarrow> c\<lparr>wc_data := utf8_array env s\<rparr> | _ \<Rightarrow> c)"

lemma feed_encode:
  assumes "list_all (\<lambda>c. type_of (wc_data c) = ''string'') cs" and "wkind e = Utf8Encode" "\<not> isFinished e"
  shows "feed env (e # ws) info evs cs =
    (let (ws', r) = feed env ws info evs (map (encoded_chunk env) cs) in (e # ws', r))"
  using assms
proof (induction cs arbitrary: ws info evs)
  case (Cons c cs)
  then obtain s where "wc_data c = JString s" by (cases "wc_data c") auto
  then have "deliver env (e # ws) info evs c = (let (ws', r) = deliver env ws info evs (encoded_chunk env c) in (e # ws', r))"
    using Cons.prems by (simp add: encode_processChunk_def encoded_chunk_def worker_kind_id split: prod.split)
  then show ?case using Cons by (auto simp: Let_def split: prod.split)
qed simp

lemma chunk_texts:
  "map wc_data (content_chunks (JString s) i) = map JString (blocks (drop i s))"
proof (induction "JString s" i rule: content_chunks.induct)
  case (1 i)
  show ?case
  proof (cases "length s \<le> i")
    case False
    let ?j = "min (length s) (i + DEFAULT_BLOCK_SIZE)"
    have IH: "map wc_data (content_chunks (JString s) ?j) = map JString (blocks (drop ?j s))"
      using "1.hyps" [of ?j] False by simp
    have "drop ?j s = drop DEFAULT_BLOCK_SIZE (drop i s)" by (simp add: min_def add.commute)
    moreover have "take (?j - i) (drop i s) = take DEFAULT_BLOCK_SIZE (drop i s)"
      using False by (simp add: min_def)
    ultimately show ?thesis using IH False content_chunks.simps [of "JString s" i] blocks.simps [of "drop i s"]
      by (simp add: Let_def)
  qed (simp add: content_chunks.simps)
qed

lemma encoded_bytes: "wc_data c = JString s \<Longrightarrow> bytes_of (wc_data (encoded_chunk env c)) = encode_worker_chunk s"
  by (simp add: encoded_chunk_def bytes_of_def utf8_array_bytes)

section \<open>What async returns\<close>

text \<open>The chain of a helper with the converter alone, and with a decoder before it.\<close>

lemma newStreamHelper_ok:
  assumes "checkSupport env (internal_type t) = Inr ()" and "list_all (Not \<circ> isLocked) (workers c)"
  shows "newStreamHelper env t (c, p) =
    Inr (c\<lparr>workers := map (\<lambda>w. w\<lparr>isLocked := True\<rparr>) (workers c) @ [newWorker (ConvertWorker (internal_type t))]\<rparr>, p)"
  using assms lock_up_unlocked [of "rev (workers c)"]
  by (simp add: newStreamHelper_def pipe_new_def pipe_def newWorker_def lock_def rev_map)

lemma support_lower: "t \<in> set chunk_types \<Longrightarrow> support_of env t \<Longrightarrow> checkSupport env t = Inr ()"
  using lower_matrix by (drule_tac in_chunk_types, elim disjE) (simp_all add: checkSupport_def)

lemma chunk_type: "ch \<in> set (content_chunks d i) \<Longrightarrow> type_of (wc_data ch) = type_of d"
proof (induction d i rule: content_chunks.induct)
  case (1 d i)
  then show ?case using content_chunks.simps [of d i] by (auto simp: Let_def split: if_splits)
qed

lemma full_run_convert:
  assumes t: "t \<in> set chunk_types" "support_of env t" "support_of env (type_of d)"
    and w: "workers c = [h, w]" "wkind h = DataSource" "wkind w = ConvertWorker t" "fresh h" "fresh w" "event_log c = []"
  shows "fst (snd (snd (full_run env c d))) =
    map DataEvent (map (\<lambda>c. c\<lparr>wc_data := conv env t (wc_data c)\<rparr>) (content_chunks d 0)) @ [EndEvent]"
proof -
  have "list_all (\<lambda>c. \<exists>d'. transformTo env t (Some (wc_data c)) = Inr d') (content_chunks d 0)"
    unfolding list_all_iff
  proof
    fix ch assume "ch \<in> set (content_chunks d 0)"
    then have "support_of env (type_of (wc_data ch))" using chunk_type t(3) by simp
    from convert_chunk [OF t(1,2) this] show "\<exists>d'. transformTo env t (Some (wc_data ch)) = Inr d'" by blast
  qed
  from feed_convert [OF this, of "set_paused False w" "stream_info c" "[]"] w
  have f: "feed env [set_paused False w] (stream_info c) [] (content_chunks d 0) = ([set_paused False w], stream_info c,
      map (\<lambda>c. DataEvent (c\<lparr>wc_data := conv env t (wc_data c)\<rparr>)) (content_chunks d 0), None)"
    by (simp add: fresh_def)
  show ?thesis using w f
    by (simp add: full_run_def end_convert [of _ t] fresh_def comp_def)
qed

lemma convert_supported:
  assumes "t \<in> set chunk_types" "support_of env t" and "\<forall>c \<in> set cs. support_of env (type_of (wc_data c))"
  shows "list_all (\<lambda>c. \<exists>d'. transformTo env t (Some (wc_data c)) = Inr d') cs"
  unfolding list_all_iff using convert_chunk [OF assms(1,2)] assms(3) by blast

lemma end_encode:
  assumes "wkind h = DataSource" "wkind e = Utf8Encode" "wkind w = ConvertWorker t"
    and "\<not> isFinished h" "\<not> isFinished e" "\<not> isFinished w"
  shows "end_flow env [h, e, w] info evs = ([finish h, finish e, finish w], info, evs @ [EndEvent], None)"
  using assms by (cases h; cases e; cases w) (simp add: end_flow.simps)

lemma encoded_supported:
  "type_of (wc_data c) = ''string'' \<Longrightarrow> support_of env (type_of (wc_data (encoded_chunk env c)))"
  by (cases "wc_data c") (simp_all add: encoded_chunk_def utf8_array_bytes(4))

lemma full_run_encode:
  assumes t: "t \<in> set chunk_types" "support_of env t"
    and w: "workers c = [h, e, w]" "wkind h = DataSource" "wkind e = Utf8Encode" "wkind w = ConvertWorker t"
      "list_all fresh [h, e, w]" "event_log c = []"
  shows "fst (snd (snd (full_run env c (JString s)))) = map DataEvent (map (\<lambda>c. c\<lparr>wc_data := conv env t (wc_data c)\<rparr>)
    (map (encoded_chunk env) (content_chunks (JString s) 0))) @ [EndEvent]"
proof -
  let ?cs = "content_chunks (JString s) 0"
  have s: "list_all (\<lambda>c. type_of (wc_data c) = ''string'') ?cs" using chunk_type by (fastforce simp: list_all_iff)
  then have "\<forall>c \<in> set (map (encoded_chunk env) ?cs). support_of env (type_of (wc_data c))"
    using encoded_supported by (auto simp: list_all_iff)
  from feed_convert [OF convert_supported [OF t this], of "set_paused False w" "stream_info c" "[]"] w
  have f: "feed env [set_paused False w] (stream_info c) [] (map (encoded_chunk env) ?cs) = ([set_paused False w], stream_info c,
      map DataEvent (map (\<lambda>c. c\<lparr>wc_data := conv env t (wc_data c)\<rparr>) (map (encoded_chunk env) ?cs)), None)"
    by (simp add: fresh_def comp_def)
  from feed_encode [OF s, of "set_paused False e" env "[set_paused False w]" "stream_info c" "[]"] f w
  have "feed env [set_paused False e, set_paused False w] (stream_info c) [] ?cs =
      ([set_paused False e, set_paused False w], stream_info c,
       map DataEvent (map (\<lambda>c. c\<lparr>wc_data := conv env t (wc_data c)\<rparr>) (map (encoded_chunk env) ?cs)), None)"
    by (simp add: fresh_def)
  then show ?thesis using w by (simp add: full_run_def end_encode [of _ _ _ t] fresh_def)
qed

text \<open>Text chunks, decoded from the bytes of the chunks.\<close>

lemma feed_decode:
  assumes "list_all (\<lambda>c. support_of env (type_of (wc_data c))) cs"
    and "support_of env (if sup_uint8array env then ''uint8array'' else ''array'')"
    and "wkind u = Utf8Decode l" "\<not> isFinished u" "wkind w = ConvertWorker ''string''" "\<not> isFinished w"
  shows "\<exists>l' ts. feed env [u, w] info evs cs = ([u\<lparr>wkind := Utf8Decode l'\<rparr>, w], info, evs @ map DataEvent ts, None) \<and>
    list_all (\<lambda>c. \<exists>s. wc_data c = JString s) ts \<and>
    concat (map (\<lambda>c. elements (wc_data c)) ts) @ map uint (decode_worker_flush l') =
      map uint (decode_worker l (map (\<lambda>c. bytes_of (wc_data c)) cs))"
  using assms
proof (induction cs arbitrary: l u evs)
  case Nil
  then have "u = u\<lparr>wkind := Utf8Decode l\<rparr>" by (cases u) simp
  then show ?case by (intro exI [of _ l] exI [of _ "[]"]) simp
next
  case (Cons c cs)
  let ?t = "if sup_uint8array env then ''uint8array'' else ''array''"
  have "?t \<in> set chunk_types" by (simp only: list.set insert_iff empty_iff simp_thms split: if_split)
  from convert_chunk [OF this Cons.prems(2)] Cons.prems(1) obtain d' where
    d': "transformTo env ?t (Some (wc_data c)) = Inr d'" "bytes_of d' = bytes_of (wc_data c)"
    by (auto simp: converted_def)
  obtain l' str where t: "decode_worker_chunk l (bytes_of (wc_data c)) = (l', str)" by fastforce
  have u: "(u\<lparr>wkind := Utf8Decode l'\<rparr>)\<lparr>wkind := k\<rparr> = u\<lparr>wkind := k\<rparr>" for k by simp
  have w: "w\<lparr>wkind := ConvertWorker ''string''\<rparr> = w" using Cons.prems(5) by (cases w) simp
  have "data_bytes d' = bytes_of (wc_data c)" using d'(2) by (simp add: data_bytes_def bytes_of_def)
  then have dl: "deliver env [u, w] info evs c =
      ([u\<lparr>wkind := Utf8Decode l'\<rparr>, w], info, evs @ [DataEvent (c\<lparr>wc_data := JString str\<rparr>)], None)"
    using Cons.prems d' t w by (simp add: decode_processChunk_def convert_processChunk_def convert_string)
  let ?evs = "evs @ [DataEvent (c\<lparr>wc_data := JString str\<rparr>)]"
  have "\<exists>l'' ts. feed env [u\<lparr>wkind := Utf8Decode l'\<rparr>, w] info ?evs cs =
      ([u\<lparr>wkind := Utf8Decode l''\<rparr>, w], info, ?evs @ map DataEvent ts, None) \<and>
    list_all (\<lambda>c. \<exists>s. wc_data c = JString s) ts \<and>
    concat (map (\<lambda>c. elements (wc_data c)) ts) @ map uint (decode_worker_flush l'') =
      map uint (decode_worker l' (map (\<lambda>c. bytes_of (wc_data c)) cs))"
    using Cons.IH [of "u\<lparr>wkind := Utf8Decode l'\<rparr>" l' ?evs] Cons.prems unfolding u by simp
  then obtain l'' ts where r: "feed env [u\<lparr>wkind := Utf8Decode l'\<rparr>, w] info ?evs cs =
      ([u\<lparr>wkind := Utf8Decode l''\<rparr>, w], info, ?evs @ map DataEvent ts, None)"
    "list_all (\<lambda>c. \<exists>s. wc_data c = JString s) ts"
    "concat (map (\<lambda>c. elements (wc_data c)) ts) @ map uint (decode_worker_flush l'') =
      map uint (decode_worker l' (map (\<lambda>c. bytes_of (wc_data c)) cs))"
    by blast
  show ?case
    by (rule exI [of _ l''], rule exI [of _ "c\<lparr>wc_data := JString str\<rparr> # ts"])
      (use r dl t in \<open>simp add: comp_def\<close>)
qed

lemma finish_wkind [simp]: "wkind (finish w) = wkind w"
  by (simp add: finish_def)

lemma end_decode:
  assumes "wkind h = DataSource" "wkind u = Utf8Decode l" "wkind w = ConvertWorker ''string''"
    and "\<not> isFinished h" "\<not> isFinished u" "\<not> isFinished w"
  shows "\<exists>ts ws. end_flow env [h, u, w] info evs = (ws, info, evs @ map DataEvent ts @ [EndEvent], None) \<and>
    list_all (\<lambda>c. \<exists>s. wc_data c = JString s) ts \<and>
    concat (map (\<lambda>c. elements (wc_data c)) ts) = map uint (decode_worker_flush l)"
proof (cases l)
  case None
  then show ?thesis using assms
    by (rule_tac exI [of _ "[]"]) (simp add: end_flow.simps decode_worker_flush_def)
next
  case (Some bs)
  have w: "w\<lparr>wkind := ConvertWorker ''string''\<rparr> = w" using assms(3) by (cases w) simp
  show ?thesis
  proof (cases "bs = []")
    case True
    then show ?thesis using assms Some
      by (rule_tac exI [of _ "[]"]) (simp add: end_flow.simps decode_worker_flush_def)
  next
    case False
    let ?c = "\<lparr>wc_data = JString (decode_worker_flush (Some bs)), wc_percent = None\<rparr> :: wchunk"
    show ?thesis using assms Some False w
      by (rule_tac exI [of _ "[?c]"]) (simp add: end_flow.simps convert_processChunk_def convert_string)
  qed
qed

lemma full_run_decode:
  assumes "support_of env (if sup_uint8array env then ''uint8array'' else ''array'')" "support_of env (type_of d)"
    and w: "workers c = [h, u, w]" "wkind h = DataSource" "wkind u = Utf8Decode None" "wkind w = ConvertWorker ''string''"
      "list_all fresh [h, u, w]" "event_log c = []"
  shows "\<exists>ts. fst (snd (snd (full_run env c d))) = map DataEvent ts @ [EndEvent] \<and>
    list_all (\<lambda>c. \<exists>s. wc_data c = JString s) ts \<and>
    concat (map (\<lambda>c. elements (wc_data c)) ts) =
      map uint (decode_worker None (map (\<lambda>c. bytes_of (wc_data c)) (content_chunks d 0)))"
proof -
  have "list_all (\<lambda>c. support_of env (type_of (wc_data c))) (content_chunks d 0)"
    unfolding list_all_iff using chunk_type assms(2) by fastforce
  from feed_decode [OF this assms(1), of "set_paused False u" None "set_paused False w" "stream_info c" "[]"] w
  obtain l ts where f: "feed env [set_paused False u, set_paused False w] (stream_info c) [] (content_chunks d 0) =
      ([(set_paused False u)\<lparr>wkind := Utf8Decode l\<rparr>, set_paused False w], stream_info c, map DataEvent ts, None)"
    "list_all (\<lambda>c. \<exists>s. wc_data c = JString s) ts"
    "concat (map (\<lambda>c. elements (wc_data c)) ts) @ map uint (decode_worker_flush l) =
      map uint (decode_worker None (map (\<lambda>c. bytes_of (wc_data c)) (content_chunks d 0)))"
    by (auto simp: fresh_def)
  from end_decode [of "set_paused False h" "(set_paused False u)\<lparr>wkind := Utf8Decode l\<rparr>" l "set_paused False w"
      env "stream_info c" "map DataEvent ts"] w
  obtain us ws where e: "end_flow env [set_paused False h, (set_paused False u)\<lparr>wkind := Utf8Decode l\<rparr>, set_paused False w]
      (stream_info c) (map DataEvent ts) = (ws, stream_info c, map DataEvent ts @ map DataEvent us @ [EndEvent], None)"
    "list_all (\<lambda>c. \<exists>s. wc_data c = JString s) us"
    "concat (map (\<lambda>c. elements (wc_data c)) us) = map uint (decode_worker_flush l)"
    by (auto simp: fresh_def)
  have "fst (snd (snd (full_run env c d))) = map DataEvent (ts @ us) @ [EndEvent]"
    using w f(1) e(1) by (simp add: full_run_def)
  then show ?thesis using f e by (intro exI [of _ "ts @ us"]) simp
qed

lemma workers_newDataWorker: "workers newDataWorker = [newWorker DataSource]" "event_log newDataWorker = []"
  by (simp_all add: newDataWorker_def)

lemma unlocked_new [simp]: "isLocked (newWorker k) = False" "fresh (newWorker k)" "wkind (newWorker k) = k"
  by (simp_all add: newWorker_def fresh_def)

lemma fresh_locked [simp]: "fresh (w\<lparr>isLocked := b\<rparr>) = fresh w" "wkind (w\<lparr>isLocked := b\<rparr>) = wkind w"
  by (simp_all add: fresh_def)

lemma fromCharCode_uint [simp]: "map (fromCharCode \<circ> uint) s = s" "fromCharCode (uint c) = c"
  by (simp_all add: fromCharCode_def comp_def)

text \<open>A stream of the content itself in a chunk type: the bytes, and for a text the text.\<close>

lemma convert_stream:
  assumes t: "t \<in> set chunk_types" "support_of env t" "support_of env (type_of d)" and v: "valid_data d"
    and w: "workers c = [h, w]" "wkind h = DataSource" "wkind w = ConvertWorker t" "fresh h" "fresh w" "event_log c = []"
  shows "\<exists>ds. fst (snd (snd (full_run env c d))) = map DataEvent ds @ [EndEvent] \<and>
    concat (map (\<lambda>c. bytes_of (wc_data c)) ds) = bytes_of d \<and>
    (t = ''string'' \<longrightarrow> type_of d = ''string'' \<longrightarrow>
       concat (map (\<lambda>c. elements (wc_data c)) ds) = elements d)"
proof -
  let ?cs = "content_chunks d 0"
  let ?ds = "map (\<lambda>c. c\<lparr>wc_data := conv env t (wc_data c)\<rparr>) ?cs"
  have r: "fst (snd (snd (full_run env c d))) = map DataEvent ?ds @ [EndEvent]"
    by (rule full_run_convert [OF t w])
  have "bytes_of (conv env t (wc_data ch)) = bytes_of (wc_data ch)" if "ch \<in> set ?cs" for ch
  proof -
    have "support_of env (type_of (wc_data ch))" using chunk_type [OF that] t(3) by simp
    from convert_chunk [OF t(1,2) this] show ?thesis by (auto simp: conv_def converted_def)
  qed
  then have e: "map (\<lambda>c. bytes_of (conv env t (wc_data c))) ?cs = map (\<lambda>c. bytes_of (wc_data c)) ?cs" by simp
  have "concat (map (\<lambda>c. bytes_of (wc_data c)) ?ds) = concat (map (\<lambda>c. bytes_of (conv env t (wc_data c))) ?cs)"
    by (simp add: comp_def)
  also have "\<dots> = bytes_of d" unfolding e using bytes_of_chunks [OF v] by (simp add: comp_def)
  finally have b: "concat (map (\<lambda>c. bytes_of (wc_data c)) ?ds) = bytes_of d" .
  have "concat (map (\<lambda>c. elements (wc_data c)) ?ds) = elements d" if "t = ''string''" "type_of d = ''string''"
  proof -
    have "elements (conv env t (wc_data ch)) = elements (wc_data ch)" if ch: "ch \<in> set ?cs" for ch
    proof -
      obtain s where "wc_data ch = JString s"
        using chunk_type [OF ch] \<open>type_of d = ''string''\<close> by (cases "wc_data ch") simp_all
      then show ?thesis using \<open>t = ''string''\<close> by (simp add: conv_def convert_string)
    qed
    then have e: "map (\<lambda>c. elements (conv env t (wc_data c))) ?cs = map (\<lambda>c. elements (wc_data c)) ?cs" by simp
    have "concat (map (\<lambda>c. elements (wc_data c)) ?ds) = concat (map (\<lambda>c. elements (conv env t (wc_data c))) ?cs)"
      by (simp add: comp_def)
    also have "\<dots> = elements d"
      unfolding e using chunk_elements [OF v, of 0] by (simp add: comp_def concat_blocks)
    finally show ?thesis .
  qed
  then show ?thesis using r b by blast
qed

section \<open>What async promises\<close>

lemma concat_strings:
  "concat_data ''string'' ds = Inr (JString (map fromCharCode (concat (map elements ds))))"
  by (simp add: concat_data_def map_concat comp_def)

lemma fromCharCode_elements: "map fromCharCode (map uint s) = s"
  by (simp add: comp_def)

lemma out_string: "transformZipOutput env ''string'' (JString s) m = Inr (OutData (JString s))"
  by (simp add: transformZipOutput_def convert_string)

lemma internal_chunk: "t \<in> set chunk_types \<Longrightarrow> internal_type t = t"
  by (drule in_chunk_types, elim disjE) (simp_all add: internal_type_def)

lemma lower_chunk: "t \<in> set chunk_types \<Longrightarrow> toLowerCase t = t"
  using lower_matrix by (drule_tac in_chunk_types) auto

lemma support_string: "support_of env ''string''" "support_of env ''array''"
  by (simp_all add: support_of_def)

lemma new_stream: "newStreamHelper env t (newDataWorker, p) =
    (case checkSupport env (internal_type t) of Inl e \<Rightarrow> Inl (Util e)
     | Inr u \<Rightarrow> Inr (newDataWorker\<lparr>workers := [(newWorker DataSource)\<lparr>isLocked := True\<rparr>,
         newWorker (ConvertWorker (internal_type t))]\<rparr>, p))"
proof (cases "checkSupport env (internal_type t)")
  case (Inl e)
  then show ?thesis by (simp add: newStreamHelper_def)
next
  case (Inr u)
  then show ?thesis using newStreamHelper_ok [of env t newDataWorker p] by (simp add: workers_newDataWorker)
qed

lemma accumulate_events:
  "helper_accumulate env type m [] (map DataEvent cs @ [EndEvent]) =
     Some (rbind (concat_data (internal_type type) (map wc_data cs)) (\<lambda>d. transformZipOutput env type d m))"
  using accumulate_data [of env type m "[]" cs "[EndEvent]"] by simp

lemma async_text:
  assumes "zo_data z = DataContent (Inr (JString s))" and "\<not> zo_dataBinary z"
  shows "async env inflate z ''string'' = Some (Inr (OutData (JString s)))"
proof -
  let ?c = "newDataWorker\<lparr>workers := [(newWorker DataSource)\<lparr>isLocked := True\<rparr>, newWorker (ConvertWorker ''string'')]\<rparr>"
  have i: "internalStream env inflate z ''string'' = Some (''string'', Inr (?c, Inr (JString s)))"
    using assms support_lower [of "''string''" env] lower_matrix
    by (simp add: internalStream_def decompressWorker_def new_stream internal_type_def support_string Let_def)
  obtain ds where "fst (snd (snd (full_run env ?c (JString s)))) = map DataEvent ds @ [EndEvent]"
    "concat (map (\<lambda>c. elements (wc_data c)) ds) = map uint s"
    using convert_stream [of "''string''" env "JString s" ?c "(newWorker DataSource)\<lparr>isLocked := True\<rparr>"
        "newWorker (ConvertWorker ''string'')"] by (auto simp: support_string workers_newDataWorker)
  then show ?thesis
    by (simp add: async_def i stream_events_def accumulate_events concat_strings comp_def internal_type_def
        out_string fromCharCode_elements [unfolded map_map comp_def])
qed

lemma async_unicode: "t \<in> {''string'', ''text''} \<Longrightarrow> async env inflate z t = async env inflate z ''string''"
  by (auto simp: async_def internalStream_def lower_char_def)

lemma async_decoded:
  assumes "zo_data z = DataContent (Inr d)" and "zo_dataBinary z" and "valid_data d" and "bytes_of d = utf8encode s"
    and "support_of env (type_of d)" and "sup_uint8array env"
  shows "async env inflate z ''string'' = Some (Inr (OutData (JString s)))"
proof -
  let ?c = "newDataWorker\<lparr>workers := [(newWorker DataSource)\<lparr>isLocked := True\<rparr>,
      (newWorker (Utf8Decode None))\<lparr>isLocked := True\<rparr>, newWorker (ConvertWorker ''string'')]\<rparr>"
  let ?n = "newDataWorker\<lparr>workers := [newWorker DataSource, newWorker (Utf8Decode None)]\<rparr>"
  have p: "pipe_stream (Utf8Decode None) (newDataWorker, Inr d) = (?n, Inr d)"
    by (simp add: pipe_stream_def pipe_new_def pipe_def workers_newDataWorker)
  have i: "internalStream env inflate z ''string'' = Some (''string'', Inr (?c, Inr d))"
    using assms(1,2) support_lower [of "''string''" env] lower_matrix newStreamHelper_ok [of env "''string''" ?n "Inr d"]
    by (simp add: internalStream_def decompressWorker_def p internal_type_def support_string Let_def)
  let ?bs = "map (\<lambda>c. bytes_of (wc_data c)) (content_chunks d 0)"
  obtain ts where e: "fst (snd (snd (full_run env ?c d))) = map DataEvent ts @ [EndEvent]"
    "concat (map (\<lambda>c. elements (wc_data c)) ts) = map uint (decode_worker None ?bs)"
    using full_run_decode [of env d ?c "(newWorker DataSource)\<lparr>isLocked := True\<rparr>"
        "(newWorker (Utf8Decode None))\<lparr>isLocked := True\<rparr>" "newWorker (ConvertWorker ''string'')"] assms(5,6)
    by (auto simp: support_of_def workers_newDataWorker)
  have "concat ?bs = utf8encode s" using bytes_of_chunks [OF assms(3)] assms(4) by (simp add: comp_def)
  moreover have "\<forall>c \<in> set (butlast ?bs). 4 \<le> length c"
  proof -
    have "map length ?bs = map length (blocks (elements d))"
      using arg_cong [OF chunk_elements [OF assms(3), of 0], of "map length"]
      by (simp add: comp_def bytes_of_def)
    then have "map length (butlast ?bs) = map length (butlast (blocks (elements d)))" by (metis map_butlast)
    moreover have "\<forall>n \<in> set (map length (butlast (blocks (elements d)))). 4 \<le> n"
      using blocks_sizes [of "elements d"] by (simp add: DEFAULT_BLOCK_SIZE_def)
    ultimately show ?thesis by (metis (no_types, lifting) in_set_conv_nth length_map nth_map nth_mem)
  qed
  ultimately have "decode_worker None ?bs = s"
    using decode_worker_cps [of None ?bs "cps s"] cps_range [of _ s] utf16_cps [of s]
    by (simp add: left_bytes_def utf8encode_def string2buf_cps cps_ok_def)
  then show ?thesis using e
    by (simp add: async_def i stream_events_def accumulate_events concat_strings comp_def internal_type_def
        out_string fromCharCode_elements [unfolded map_map comp_def])
qed

text \<open>Every output type: what a promise gives for the bytes that the stream carries.\<close>

definition output_types :: "platform \<Rightarrow> string list" where
  "output_types env =
     [''binarystring'', ''array'', ''base64''] @ (if sup_nodebuffer env then [''nodebuffer''] else []) @
     (if sup_uint8array env
      then ''uint8array'' # (if sup_arraybuffer env then ''arraybuffer'' # (if sup_blob env then [''blob''] else []) else [])
      else [])"

fun output_is :: "string \<Rightarrow> byte list \<Rightarrow> output_data \<Rightarrow> bool" where
  "output_is t bs (OutData d) \<longleftrightarrow>
     t \<noteq> ''blob'' \<and> t \<noteq> ''base64'' \<and> type_of d = (if t = ''binarystring'' then ''string'' else t) \<and> bytes_of d = bs"
| "output_is t bs (OutBlob b mime) \<longleftrightarrow> t = ''blob'' \<and> b = bs \<and> mime = []"
| "output_is t bs (OutBase64 s) \<longleftrightarrow> t = ''base64'' \<and> s = base64_encode (B64Array (map uint bs))"

definition out_type :: "string \<Rightarrow> string" where
  "out_type t = (if t = ''binarystring'' \<or> t = ''text'' then ''string'' else t)"

lemma convert_to_string:
  assumes "support_of env (type_of d)"
  shows "transformTo env ''string'' (Some d) = Inr (JString (map fromCharCode (elements d)))"
proof -
  have "transformTo env ''string'' (Some d) =
    (case type_of d of t \<Rightarrow>
      if t = ''string'' then transform_string ''string'' d
      else if t = ''array'' then transform_array env ''string'' d
      else if t = ''arraybuffer'' then transform_arraybuffer env ''string'' d
      else if t = ''uint8array'' then transform_uint8array env ''string'' d
      else transform_nodebuffer env ''string'' d)"
    by (rule transformTo_known) (use assms in \<open>simp_all add: support_of_def\<close>)
  then show ?thesis by (cases d) (simp_all add: matrix_defs arrayLikeToString_elements comp_def)
qed

lemma fromCharCode_byte: "0 \<le> x \<Longrightarrow> x < 256 \<Longrightarrow> uint (fromCharCode x) = x"
  by (simp add: fromCharCode_def uint_word_of_int)

definition byte_elements :: "js_data \<Rightarrow> bool" where
  "byte_elements d \<longleftrightarrow> (\<forall>x \<in> set (elements d). 0 \<le> x \<and> x < 256)"

lemma byte_elements_bytes: "byte_elements d \<Longrightarrow> elements d = map uint (bytes_of d)"
  unfolding byte_elements_def bytes_of_def byte_array_def map_map
  by (rule sym, rule map_idI) (simp add: uint_word_of_int)

lemma converted_string_elements:
  assumes "\<forall>c \<in> set cs. support_of env (type_of (wc_data c)) \<and> byte_elements (wc_data c)"
  shows "concat (map (elements \<circ> wc_data) (map (\<lambda>c. c\<lparr>wc_data := conv env ''string'' (wc_data c)\<rparr>) cs)) =
    map uint (concat (map (bytes_of \<circ> wc_data) cs))"
proof -
  have "elements (conv env ''string'' (wc_data c)) = map uint (bytes_of (wc_data c))" if "c \<in> set cs" for c
  proof -
    have "elements (conv env ''string'' (wc_data c)) = map (uint \<circ> fromCharCode) (elements (wc_data c))"
      using assms that by (simp add: conv_def convert_to_string)
    also have "\<dots> = elements (wc_data c)"
      using assms that by (intro map_idI) (auto simp: byte_elements_def fromCharCode_byte)
    also have "\<dots> = map uint (bytes_of (wc_data c))" using byte_elements_bytes assms that by blast
    finally show ?thesis .
  qed
  then show ?thesis by (simp add: map_concat comp_def cong: map_cong)
qed

lemma output_internal:
  assumes "t \<in> set (output_types env)"
  shows "internal_type (out_type t) \<in> set chunk_types" "support_of env (internal_type (out_type t))"
    "toLowerCase t = t" "t \<noteq> []" "t \<noteq> ''string''" "t \<noteq> ''text''"
  using assms by (auto simp: output_types_def out_type_def internal_type_def support_of_def lower_char_def split: if_splits)

lemma transform_output:
  assumes t: "t \<in> set (output_types env)"
    and d: "type_of d = internal_type (out_type t)" "whole_view d" "bytes_of d = bs"
    and b: "t = ''base64'' \<Longrightarrow> byte_elements d"
  shows "\<exists>r. transformZipOutput env (out_type t) d [] = Inr r \<and> output_is t bs r"
proof -
  have i: "support_of env (type_of d)" using output_internal(2) [OF t] d(1) by simp
  have g: "\<exists>d'. transformTo env u (Some d) = Inr d' \<and> type_of d' = u \<and> bytes_of d' = bs"
    if u: "u \<in> set matrix_types" "support_of env u" for u
    using gives_converted [OF transformTo_gives [OF u i d(2)]] d(3) by (simp add: converted_def)
  consider "t = ''base64''" | "t = ''blob''" | "t = ''binarystring''" | "t \<in> set matrix_types" "t \<noteq> ''string''" "support_of env t"
    using t by (auto simp: output_types_def support_of_def split: if_splits)
  then show ?thesis
  proof cases
    case 1
    then obtain s where s: "d = JString s" using d(1) by (cases d) (simp_all add: out_type_def internal_type_def)
    have "map uint s = map uint bs" using byte_elements_bytes [OF b [OF 1]] s d(3) by simp
    then show ?thesis using 1 s by (simp add: transformZipOutput_def out_type_def)
  next
    case 2
    then have "sup_arraybuffer env" "sup_blob env" using t by (auto simp: output_types_def split: if_splits)
    moreover obtain d' where d': "transformTo env ''arraybuffer'' (Some d) = Inr d'" "bytes_of d' = bs"
      using g [of "''arraybuffer''"] calculation by (auto simp: support_of_def)
    ultimately show ?thesis using 2 by (simp add: transformZipOutput_def out_type_def bytes_of_def)
  next
    case 3
    then show ?thesis using g [of "''string''"] by (auto simp: transformZipOutput_def out_type_def support_of_def)
  next
    case 4
    have ne: "t \<noteq> ''blob''" "t \<noteq> ''base64''" "t \<noteq> ''binarystring''" "t \<noteq> ''text''" using 4(1) by auto
    then have o: "out_type t = t" by (simp add: out_type_def)
    show ?thesis using g [OF 4(1,3)] ne by (auto simp: transformZipOutput_def o)
  qed
qed

lemma accumulated_output:
  assumes t: "t \<in> set (output_types env)"
    and s: "\<forall>c \<in> set cs. support_of env (type_of (wc_data c)) \<and> (t = ''base64'' \<longrightarrow> byte_elements (wc_data c))"
  shows "\<exists>r. helper_accumulate env (out_type t) [] [] (map DataEvent (map (\<lambda>c. c\<lparr>wc_data :=
        conv env (internal_type (out_type t)) (wc_data c)\<rparr>) cs) @ [EndEvent]) = Some (Inr r) \<and>
      output_is t (concat (map (bytes_of \<circ> wc_data) cs)) r"
proof -
  let ?i = "internal_type (out_type t)"
  let ?ds = "map (\<lambda>c. c\<lparr>wc_data := conv env ?i (wc_data c)\<rparr>) cs"
  obtain d where d: "concat_data ?i (map wc_data ?ds) = Inr d" "type_of d = ?i" "whole_view d"
    "bytes_of d = concat (map bytes_of (map wc_data ?ds))"
    using concat_data_bytes [OF output_internal(1) [OF t]] by blast
  have "bytes_of (conv env ?i (wc_data c)) = bytes_of (wc_data c)" if "c \<in> set cs" for c
    using convert_chunk [OF output_internal(1,2) [OF t], of "wc_data c"] s that by (auto simp: conv_def converted_def)
  then have b: "bytes_of d = concat (map (bytes_of \<circ> wc_data) cs)" using d(4) by (simp add: comp_def cong: map_cong)
  have "byte_elements d" if "t = ''base64''"
  proof -
    have i: "?i = ''string''" using that by (simp add: out_type_def internal_type_def)
    have "d = JString (map fromCharCode (concat (map (elements \<circ> wc_data) ?ds)))"
      using d(1) concat_strings [of "map wc_data ?ds"] by (simp add: i comp_assoc)
    also have "\<dots> = JString (map fromCharCode (map uint (concat (map (bytes_of \<circ> wc_data) cs))))"
      using converted_string_elements [of cs env] s that i by simp
    finally show ?thesis by (auto simp: byte_elements_def fromCharCode_byte byte_range(2))
  qed
  then obtain r where "transformZipOutput env (out_type t) d [] = Inr r" "output_is t (bytes_of d) r"
    using transform_output [OF t d(2,3) refl] by blast
  then show ?thesis using d(1) b accumulate_events [of env "out_type t" "[]" ?ds] by simp
qed
lemma internalStream_output:
  assumes "zo_data z = DataContent p" and t: "t \<in> set (output_types env)"
  shows "internalStream env inflate z t =
    Some (out_type t, Inr ((newDataWorker\<lparr>workers := map (\<lambda>w. w\<lparr>isLocked := True\<rparr>)
      (newWorker DataSource # (if zo_dataBinary z then [] else [newWorker Utf8Encode])) @
        [newWorker (ConvertWorker (internal_type (out_type t)))]\<rparr>), p))"
proof -
  let ?c = "newDataWorker\<lparr>workers := [newWorker DataSource, newWorker Utf8Encode]\<rparr>"
  have p: "pipe_stream Utf8Encode (newDataWorker, p) = (?c, p)"
    by (simp add: pipe_stream_def pipe_new_def pipe_def workers_newDataWorker)
  have "checkSupport env (internal_type (out_type t)) = Inr ()"
    using support_lower output_internal(1,2) [OF t] by blast
  note n = newStreamHelper_ok [OF this, unfolded comp_def]
  have i: "internalStream env inflate z t = Some (out_type t, newStreamHelper env (out_type t)
      (if zo_dataBinary z then newDataWorker else ?c, p))"
    using assms(1) output_internal(3-6) [OF t] p
    by (auto simp: internalStream_def decompressWorker_def Let_def out_type_def)
  show ?thesis
  proof (cases "zo_dataBinary z")
    case True
    then show ?thesis using n [of newDataWorker p] by (simp add: i workers_newDataWorker)
  next
    case False
    then show ?thesis using n [of ?c p] by (simp add: i)
  qed
qed

lemma chunk_bytes_elements:
  assumes "valid_data d" "byte_elements d" "c \<in> set (content_chunks d 0)"
  shows "byte_elements (wc_data c)"
proof -
  have "elements (wc_data c) \<in> set (blocks (elements d))"
    using chunk_elements [OF assms(1), of 0] assms(3) by (metis comp_apply drop_0 image_eqI list.set_map)
  then have "set (elements (wc_data c)) \<subseteq> set (concat (blocks (elements d)))" by auto
  then show ?thesis using assms(2) by (auto simp: byte_elements_def concat_blocks)
qed

lemma async_binary:
  assumes "zo_data z = DataContent (Inr d)" and "zo_dataBinary z" and v: "valid_data d"
    and t: "t \<in> set (output_types env)" "support_of env (type_of d)" "t = ''base64'' \<longrightarrow> byte_elements d"
  shows "\<exists>r. async env inflate z t = Some (Inr r) \<and> output_is t (bytes_of d) r"
proof -
  let ?i = "internal_type (out_type t)"
  let ?c = "newDataWorker\<lparr>workers := [(newWorker DataSource)\<lparr>isLocked := True\<rparr>, newWorker (ConvertWorker ?i)]\<rparr>"
  have e: "fst (snd (snd (full_run env ?c d))) =
      map DataEvent (map (\<lambda>c. c\<lparr>wc_data := conv env ?i (wc_data c)\<rparr>) (content_chunks d 0)) @ [EndEvent]"
    by (rule full_run_convert [OF output_internal(1,2) [OF t(1)] t(2), where h = "(newWorker DataSource)\<lparr>isLocked := True\<rparr>"
      and w = "newWorker (ConvertWorker ?i)"]) (simp_all add: workers_newDataWorker)
  have "\<forall>c \<in> set (content_chunks d 0). support_of env (type_of (wc_data c)) \<and> (t = ''base64'' \<longrightarrow> byte_elements (wc_data c))"
    using chunk_type chunk_bytes_elements [OF v] t(2,3) by metis
  from accumulated_output [OF t(1) this] show ?thesis
    using internalStream_output [OF assms(1) t(1)] assms(2) e bytes_of_chunks [OF v]
    by (simp add: async_def stream_events_def)
qed

lemma async_encoded:
  assumes "zo_data z = DataContent (Inr (JString s))" and "\<not> zo_dataBinary z" and t: "t \<in> set (output_types env)"
  shows "\<exists>r. async env inflate z t = Some (Inr r) \<and> output_is t (encode_worker (blocks s)) r"
proof -
  let ?i = "internal_type (out_type t)"
  let ?c = "newDataWorker\<lparr>workers := [(newWorker DataSource)\<lparr>isLocked := True\<rparr>,
    (newWorker Utf8Encode)\<lparr>isLocked := True\<rparr>, newWorker (ConvertWorker ?i)]\<rparr>"
  let ?cs = "map (encoded_chunk env) (content_chunks (JString s) 0)"
  have e: "fst (snd (snd (full_run env ?c (JString s)))) =
      map DataEvent (map (\<lambda>c. c\<lparr>wc_data := conv env ?i (wc_data c)\<rparr>) ?cs) @ [EndEvent]"
    by (rule full_run_encode [OF output_internal(1,2) [OF t], where h = "(newWorker DataSource)\<lparr>isLocked := True\<rparr>"
      and e = "(newWorker Utf8Encode)\<lparr>isLocked := True\<rparr>" and w = "newWorker (ConvertWorker ?i)"]) (simp_all add: workers_newDataWorker)
  have k: "\<exists>s. wc_data c = JString s" if "c \<in> set (content_chunks (JString s) 0)" for c
    using chunk_type [OF that] by (cases "wc_data c") auto
  have "byte_elements (wc_data (encoded_chunk env c))" if "c \<in> set (content_chunks (JString s) 0)" for c
    using k [OF that] by (auto simp: encoded_chunk_def byte_elements_def utf8_array_bytes byte_range(2))
  moreover have "support_of env (type_of (wc_data (encoded_chunk env c)))" if "c \<in> set (content_chunks (JString s) 0)" for c
    using k [OF that] encoded_supported by fastforce
  ultimately have "\<forall>c \<in> set ?cs. support_of env (type_of (wc_data c)) \<and> (t = ''base64'' \<longrightarrow> byte_elements (wc_data c))" by simp
  note r = accumulated_output [OF t this]
  have "map (bytes_of \<circ> wc_data) ?cs = map encode_worker_chunk (blocks s)"
  proof -
    have "map (bytes_of \<circ> wc_data) ?cs = map ((\<lambda>d. case d of JString s \<Rightarrow> encode_worker_chunk s | _ \<Rightarrow> []) \<circ> wc_data)
        (content_chunks (JString s) 0)"
      unfolding map_map map_eq_conv using k encoded_bytes by fastforce
    also have "\<dots> = map (\<lambda>d. case d of JString s \<Rightarrow> encode_worker_chunk s | _ \<Rightarrow> []) (map JString (blocks s))"
      using chunk_texts [of s 0] by (metis drop_0 map_map)
    finally show ?thesis by (simp add: comp_def)
  qed
  then show ?thesis using r internalStream_output [OF assms(1) t] assms(2) e
    by (simp add: async_def stream_events_def encode_worker_def)
qed

text \<open>
  Property C24. \<open>async\<close> gives back what was added, through all the chunks. As text (\<open>string\<close> or
  \<open>text\<close>): the text of a text file, and the text whose UTF-8 encoding a binary file holds. In every
  other type that the platform supports: exactly the bytes of a binary file, and for a text file
  the UTF-8 encoding of its blocks, as data of that type, as a blob, or in base64 (for which a
  binary content must consist of bytes). Where UTF-8 is involved the platform is not node, whose
  decoder and encoder are not the program's.
\<close>

theorem async_content:
  assumes "zo_data z = DataContent (Inr d)" and "valid_data d" and "support_of env (type_of d)"
    and "sup_uint8array env"
  shows "(t \<in> {''string'', ''text''} \<and>
       (d = JString s \<and> \<not> zo_dataBinary z \<or> bytes_of d = utf8encode s \<and> zo_dataBinary z \<and> \<not> sup_nodebuffer env) \<longrightarrow>
         async env inflate z t = Some (Inr (OutData (JString s)))) \<and>
    (t \<in> set (output_types env) \<and> zo_dataBinary z \<and> (t = ''base64'' \<longrightarrow> byte_elements d) \<longrightarrow>
       (\<exists>r. async env inflate z t = Some (Inr r) \<and> output_is t (bytes_of d) r)) \<and>
    (t \<in> set (output_types env) \<and> d = JString s \<and> \<not> zo_dataBinary z \<and> \<not> sup_nodebuffer env \<longrightarrow>
       (\<exists>r. async env inflate z t = Some (Inr r) \<and> output_is t (encode_worker (blocks s)) r))"
proof (intro conjI impI)
  assume a: "t \<in> {''string'', ''text''} \<and>
    (d = JString s \<and> \<not> zo_dataBinary z \<or> bytes_of d = utf8encode s \<and> zo_dataBinary z \<and> \<not> sup_nodebuffer env)"
  then have "async env inflate z t = async env inflate z ''string''" using async_unicode by blast
  moreover have "async env inflate z ''string'' = Some (Inr (OutData (JString s)))"
    using a async_text [of z s env] async_decoded [OF assms(1) _ assms(2) _ assms(3,4)] assms(1) by blast
  ultimately show "async env inflate z t = Some (Inr (OutData (JString s)))" by simp
next
  assume "t \<in> set (output_types env) \<and> zo_dataBinary z \<and> (t = ''base64'' \<longrightarrow> byte_elements d)"
  then show "\<exists>r. async env inflate z t = Some (Inr r) \<and> output_is t (bytes_of d) r"
    using async_binary [OF assms(1) _ assms(2)] assms(3) by blast
next
  assume "t \<in> set (output_types env) \<and> d = JString s \<and> \<not> zo_dataBinary z \<and> \<not> sup_nodebuffer env"
  then show "\<exists>r. async env inflate z t = Some (Inr r) \<and> output_is t (encode_worker (blocks s)) r"
    using async_encoded assms(1) by blast
qed

definition demo_object :: zip_object where
  "demo_object = file_object demo_platform (js ''a'') (PlainData (GivenData (JUint8 [0x48] 0 1))) None
     (resolve_options 0 None)"

definition demo_text :: zip_object where
  "demo_text = demo_object\<lparr>zo_data := DataContent (Inr (JString [0x48])), zo_dataBinary := False\<rparr>"

theorem async_content_witness:
  "async demo_platform Generic demo_object ''text'' = Some (Inr (OutData (JString [0x48]))) \<and>
   (\<exists>r. async demo_platform Generic demo_object ''base64'' = Some (Inr r) \<and> output_is ''base64'' [0x48] r) \<and>
   (\<exists>r. async demo_platform Generic demo_text ''blob'' = Some (Inr r) \<and> output_is ''blob'' [0x48] r)"
proof (intro conjI)
  have d: "zo_data demo_object = DataContent (Inr (JUint8 [0x48] 0 1))" and b: "zo_dataBinary demo_object"
    by (simp_all add: demo_object_def file_object_def correct_options_def resolve_options_def default_def no_options_def
        newZipObject_def file_content_def file_permissions_def Let_def demo_platform_def convert_content_def)
  have c: "zo_data demo_text = DataContent (Inr (JString [0x48]))" "\<not> zo_dataBinary demo_text"
    by (simp_all add: demo_text_def d)
  have u: "utf8encode [0x48] = [0x48]"
    by (simp add: utf8encode_def string2buf_def count_binary_size.simps convert_loop.simps cp_len_def
        cp_bytes_def Let_def js_arith)
  have p: "sup_uint8array demo_platform" "\<not> sup_nodebuffer demo_platform" "sup_arraybuffer demo_platform" "sup_blob demo_platform"
    by (simp_all add: demo_platform_def)
  note s = support_of_def byte_elements_def subarray_of_def output_types_def
  show "async demo_platform Generic demo_object ''text'' = Some (Inr (OutData (JString [0x48])))"
    using async_content [OF d, of demo_platform "''text''" "[0x48]" Generic] b u p
    by (simp add: bytes_of_def byte_array_def s)
  show "\<exists>r. async demo_platform Generic demo_object ''base64'' = Some (Inr r) \<and> output_is ''base64'' [0x48] r"
    using async_content [OF d, of demo_platform "''base64''" "[]" Generic] b p
    by (simp add: bytes_of_def byte_array_def s)
  have "encode_worker (blocks [0x48]) = [0x48]"
    by (simp add: blocks.simps [of "[0x48]"] DEFAULT_BLOCK_SIZE_def encode_worker_def encode_worker_chunk_def u)
  then show "\<exists>r. async demo_platform Generic demo_text ''blob'' = Some (Inr r) \<and> output_is ''blob'' [0x48] r"
    using async_content [OF c(1), of demo_platform "''blob''" "[0x48]" Generic] c(2) p by (simp add: s)
qed

end
