(* ===== verification/ZipRoundtrip.thy ===== *)
theory ZipRoundtrip
  imports ZipReader
begin

text \<open>
  Reading back what \<open>ZipFileWorker\<close> wrote: the records of the writer are parsed by the
  reader field by field, and \<open>ZipEntries.load\<close> of a whole file gives the entries, also
  when other data precedes it.
\<close>

section \<open>A reader in the middle of its data\<close>

text \<open>A reader after \<open>pre\<close> and before \<open>rest\<close>, with \<open>junk\<close> in front of its zero.\<close>

definition mk :: "reader_kind \<Rightarrow> int list \<Rightarrow> int list \<Rightarrow> int list \<Rightarrow> reader" where
  "mk k junk pre rest = \<lparr>rkind = k, rdata = junk @ pre @ rest,
     rlength = int (length (junk @ pre @ rest)), rindex = int (length pre), rzero = int (length junk)\<rparr>"

lemma mk_ok [simp]: "reader_ok (mk k junk pre rest)"
  by (simp add: mk_def reader_ok_def)

lemma mk_fields [simp]:
  "rkind (mk k junk pre rest) = k" "rindex (mk k junk pre rest) = int (length pre)"
  "rzero (mk k junk pre rest) = int (length junk)" "rdata (mk k junk pre rest) = junk @ pre @ rest"
  by (simp_all add: mk_def)

lemma remaining_mk [simp]: "remaining (mk k junk pre rest) = rest"
  by (simp add: mk_def remaining_def nat_int_add)

lemma advance_mk: "advance (mk k junk pre (bs @ rest)) (int (length bs)) = mk k junk (pre @ bs) rest"
  by (simp add: mk_def advance_def)

lemma readInt_mk:
  assumes "bytes_ok bs" "length bs = n"
  shows "readInt n (mk k junk pre (bs @ rest)) = Inr (ToInt32 (le_value bs), mk k junk (pre @ bs) rest)"
  using readInt_in [of "mk k junk pre (bs @ rest)" n] advance_mk [of k junk pre bs rest] assms by simp

lemma readData_mk:
  assumes "n = int (length bs)"
  shows "readData n (mk k junk pre (bs @ rest)) = Inr (bs, mk k junk (pre @ bs) rest)"
  using readData_in [of "mk k junk pre (bs @ rest)" n] advance_mk [of k junk pre bs rest] assms by simp

lemma readString_mk:
  assumes "n = int (length bs)"
  shows "readString n (mk k junk pre (bs @ rest)) = Inr (map word_of_int bs, mk k junk (pre @ bs) rest)"
  using readData_mk [OF assms, of k junk pre rest] by (simp add: readString_def)

lemma setIndex_mk:
  assumes "n = int (length pre')" "pre @ rest = pre' @ rest'"
  shows "setIndex n (mk k junk pre rest) = Inr (mk k junk pre' rest')"
proof -
  have "length (pre @ rest) = length (pre' @ rest')" using assms(2) by simp
  then show ?thesis using assms by (simp add: setIndex_def checkIndex_def mk_def)
qed

lemma skip_mk:
  assumes "n = int (length bs)"
  shows "skip n (mk k junk pre (bs @ rest)) = Inr (mk k junk (pre @ bs) rest)"
  using setIndex_mk [of "int (length pre) + n" "pre @ bs" pre "bs @ rest" rest k junk] assms
  by (simp add: skip_def)

lemma readAndCheckSignature_mk:
  assumes "length sig = 4" "length s = 4"
  shows "readAndCheckSignature sig (mk k junk pre (s @ rest)) =
    Inr (s = sig_codes sig, mk k junk (pre @ s) rest)"
  using readAndCheckSignature_in [of "mk k junk pre (s @ rest)" sig] advance_mk [of k junk pre s rest] assms
  by simp

lemma checkSignature_mk:
  assumes "length sig = 4" "s = sig_codes sig"
  shows "checkSignature sig (mk k junk pre (s @ rest)) = Inr (mk k junk (pre @ s) rest)"
  using readAndCheckSignature_mk [OF assms(1), of s] assms by (simp add: checkSignature_def sig_codes_def)

section \<open>Binary strings as data\<close>

text \<open>What the characters of a binary string are for a reader.\<close>

definition codes :: "jsstr \<Rightarrow> int list" where
  "codes s = map uint (str_bytes s)"

lemma codes_append [simp]: "codes (a @ b) = codes a @ codes b"
  by (simp add: codes_def)

lemma codes_Nil [simp]: "codes [] = []"
  by (simp add: codes_def str_bytes_def)

lemma length_codes [simp]: "length (codes s) = length s"
  by (simp add: codes_def)

lemma codes_binstr [simp]: "codes (binstr b) = map uint b"
  by (simp add: codes_def)

lemma bytes_ok_map_uint [simp]: "bytes_ok (map uint (b :: byte list))"
  using byte_range by (auto simp: bytes_ok_def)

lemma bytes_ok_codes [simp]: "bytes_ok (codes s)"
  unfolding codes_def by (rule bytes_ok_map_uint)

lemma bytes_ok_append [simp]: "bytes_ok (a @ b) \<longleftrightarrow> bytes_ok a \<and> bytes_ok b"
  by (auto simp: bytes_ok_def)

lemma length_decToHex [simp]: "length (decToHex x n) = n"
  by (induction n arbitrary: x) simp_all

lemma codes_Cons: "codes (c # s) = uint c mod 256 # codes s"
  by (simp add: codes_def str_bytes_def js_and_masks uint_word_of_int)

lemma le_value_decToHex: "le_value (codes (decToHex x n)) = x mod 4294967296 mod 256 ^ n"
proof (induction n arbitrary: x)
  case (Suc n)
  let ?y = "x mod 4294967296"
  have h: "uint (word_of_int (js_and x 255) :: jschar) mod 256 = ?y mod 256"
  proof -
    have "js_and x 255 = x mod 256" by (simp add: js_and_masks)
    moreover have "uint (word_of_int (x mod 256) :: jschar) = x mod 256 mod 65536"
      by (simp add: uint_word_of_int)
    moreover have "x mod 256 mod 65536 = x mod 256" by (rule mod_pos_pos_trivial) (simp_all add: less_trans [OF pos_mod_bound])
    moreover have "?y mod 256 = x mod 256" by (rule mod_mod_cancel) simp
    ultimately show ?thesis by simp
  qed
  have y: "0 \<le> ?y" "?y < 4294967296" by simp_all
  have u: "js_ushr x 8 = ?y div 256" by (simp add: js_ushr_def ToUint32_def)
  have d: "?y div 256 mod 4294967296 = ?y div 256"
    by (intro mod_pos_pos_trivial div_nonneg order_less_trans [OF div_upto [OF y, of 16777216 256]])
      simp_all
  show ?case
    unfolding decToHex.simps codes_Cons le_value.simps Suc u h d power_Suc
    by (simp add: zmod_zmult2_eq)
qed simp

lemma readInt_dec:
  assumes "n \<le> 4"
  shows "readInt n (mk k junk pre (codes (decToHex x n) @ rest)) =
    Inr (ToInt32 (x mod 4294967296 mod 256 ^ n), mk k junk (pre @ codes (decToHex x n)) rest)"
  using readInt_mk [of "codes (decToHex x n)" n] by (simp add: le_value_decToHex)

lemma readInt_dec2:
  assumes "0 \<le> x" "x < 65536"
  shows "readInt 2 (mk k junk pre (codes (decToHex x 2) @ rest)) =
    Inr (x, mk k junk (pre @ codes (decToHex x 2)) rest)"
  using readInt_dec [of 2 k junk pre x rest] assms by (simp add: ToInt32_id)

lemma readInt_dec1:
  assumes "0 \<le> x" "x < 256"
  shows "readInt 1 (mk k junk pre (codes (decToHex x 1) @ rest)) =
    Inr (x, mk k junk (pre @ codes (decToHex x 1)) rest)"
  using readInt_dec [of 1 k junk pre x rest] assms by (simp add: ToInt32_id)

lemma readInt_dec4:
  assumes "- 2147483648 \<le> x" "x < 2147483648"
  shows "readInt 4 (mk k junk pre (codes (decToHex x 4) @ rest)) =
    Inr (x, mk k junk (pre @ codes (decToHex x 4)) rest)"
proof -
  have "ToInt32 (x mod 4294967296) = x"
    using ToInt32_cong [of "x mod 4294967296" x] ToInt32_id [OF assms] by simp
  then show ?thesis using readInt_dec [of 4 k junk pre x rest] by simp
qed

lemma readDate_dec:
  assumes "dos_year_ok t"
  shows "readDate (mk k junk pre (codes (decToHex (dos_time t) 2) @ codes (decToHex (dos_date t) 2) @ rest)) =
    Inr (t - t mod 2000, mk k junk (pre @ codes (decToHex (dos_time t) 2) @ codes (decToHex (dos_date t) 2)) rest)"
proof -
  let ?b = "codes (decToHex (dos_time t) 2) @ codes (decToHex (dos_date t) 2)"
  have "le_value ?b = dos_time t + dos_date t * 65536"
    using dos_fields_range [OF assms] by (simp add: le_value_append le_value_decToHex)
  then show ?thesis
    using readInt_mk [of ?b 4 k junk pre rest] date_of_dos_of_date [OF assms]
    by (simp add: readDate_def)
qed

section \<open>The parts of a record\<close>

definition enc_name :: "zip_config \<Rightarrow> stream_info \<Rightarrow> jsstr" where
  "enc_name c i = binstr (encode_name (zc_encoder c) (fi_name (si_file i)))"

definition enc_comment :: "zip_config \<Rightarrow> stream_info \<Rightarrow> jsstr" where
  "enc_comment c i = binstr (encode_name (zc_encoder c) (fi_comment (si_file i)))"

definition needs_utf8 :: "jsstr \<Rightarrow> bool" where
  "needs_utf8 s \<longleftrightarrow> length (utf8encode s) \<noteq> length s"

definition name_field :: "zip_config \<Rightarrow> stream_info \<Rightarrow> jsstr" where
  "name_field c i = (if needs_utf8 (fi_name (si_file i))
     then unicode_extra [0x75, 0x70] (enc_name c i) (binstr (utf8encode (fi_name (si_file i)))) else [])"

definition comment_field :: "zip_config \<Rightarrow> stream_info \<Rightarrow> jsstr" where
  "comment_field c i = (if needs_utf8 (fi_comment (si_file i))
     then unicode_extra [0x75, 0x63] (enc_comment c i) (binstr (utf8encode (fi_comment (si_file i)))) else [])"

definition extras :: "zip_config \<Rightarrow> stream_info \<Rightarrow> jsstr" where
  "extras c i = name_field c i @ comment_field c i"

definition flag_of :: "zip_config \<Rightarrow> bool \<Rightarrow> stream_info \<Rightarrow> int" where
  "flag_of c st i = bit_flag st (zc_encoder c \<noteq> Utf8Encode)
     (needs_utf8 (fi_name (si_file i)) \<or> needs_utf8 (fi_comment (si_file i)))"

definition header_of :: "zip_config \<Rightarrow> bool \<Rightarrow> int \<Rightarrow> int \<Rightarrow> int \<Rightarrow> stream_info \<Rightarrow> jsstr" where
  "header_of c st crc cs us i =
     [0x0A, 0] @ decToHex (flag_of c st i) 2 @ magic (si_compression i) @
     decToHex (dos_time (fi_date (si_file i))) 2 @ decToHex (dos_date (fi_date (si_file i))) 2 @
     decToHex crc 4 @ decToHex cs 4 @ decToHex us 4 @
     decToHex (int (length (enc_name c i))) 2 @ decToHex (int (length (extras c i))) 2"

lemma generateZipParts_parts:
  "fileRecord (generateZipParts i st ended off (zc_platform c) (zc_encoder c)) =
     LOCAL_FILE_HEADER @
     (if st \<and> \<not> ended then header_of c st 0 0 0 i
      else header_of c st (si_crc32 i) (si_compressedSize i) (si_uncompressedSize i) i) @
     enc_name c i @ extras c i"
  "dirRecord (generateZipParts i st True off (zc_platform c) (zc_encoder c)) =
     CENTRAL_FILE_HEADER @ decToHex (fst (version_and_attr (si_file i) (zc_platform c))) 2 @
     header_of c st (si_crc32 i) (si_compressedSize i) (si_uncompressedSize i) i @
     decToHex (int (length (enc_comment c i))) 2 @ [0, 0] @ [0, 0] @
     decToHex (snd (version_and_attr (si_file i) (zc_platform c))) 4 @ decToHex off 4 @
     enc_name c i @ extras c i @ enc_comment c i"
  by (auto simp: generateZipParts_def Let_def case_prod_beta header_of_def extras_def name_field_def
      comment_field_def needs_utf8_def enc_name_def enc_comment_def flag_of_def)

text \<open>What an entry needs for its fields to fit.\<close>

definition fits31 :: "int \<Rightarrow> bool" where
  "fits31 x \<longleftrightarrow> 0 \<le> x \<and> x < 2147483648"

definition entry_fits :: "zip_config \<Rightarrow> stream_info \<Rightarrow> bool" where
  "entry_fits c i \<longleftrightarrow> dos_year_ok (fi_date (si_file i)) \<and>
     length (enc_name c i) < 65536 \<and> length (extras c i) < 65536 \<and>
     length (enc_comment c i) < 65536 \<and>
     - 2147483648 \<le> si_crc32 i \<and> si_crc32 i < 2147483648 \<and>
     fits31 (si_compressedSize i) \<and> fits31 (si_uncompressedSize i)"

lemma js_or_range: "- 2147483648 \<le> js_or a b" "js_or a b < 2147483648"
  using ToInt32_range [of "js_or a b"]
  by (simp_all add: js_or_sint ToInt32_sint)

lemma version_and_attr_range:
  "fst (version_and_attr f p) \<in> {0x031E, 0x0014}"
  "- 2147483648 \<le> snd (version_and_attr f p)" "snd (version_and_attr f p) < 2147483648"
  using js_or_range by (auto simp: version_and_attr_def Let_def)

lemma flag_of_range: "flag_of c st i \<in> {0, 8, 0x800, 0x808}"
  by (auto simp: flag_of_def bit_flag_def js_or_def ToInt32_def)

lemma sint_range32: "- 2147483648 \<le> sint (w :: 32 word)" "sint (w :: 32 word) < 2147483648"
  using ToInt32_range [of "sint w"] by (simp_all add: ToInt32_sint)

lemma crc_range: "- 2147483648 \<le> crc32wrapper x None" "crc32wrapper x None < 2147483648"
  by (simp_all add: crc32wrapper_spec sint_range32)

section \<open>Extra fields\<close>

definition unicode_value :: "jsstr \<Rightarrow> jsstr \<Rightarrow> int list" where
  "unicode_value enc utf = codes (decToHex 1 1) @ codes (decToHex (crc32wrapper (CrcString enc) None) 4) @ codes utf"

lemma extra_fields_step:
  assumes "length fid = 2" "int (length pre) < stop" "length (unicode_extra fid enc utf) < 65536"
  defines "v \<equiv> unicode_value enc utf" and "n \<equiv> le_value (codes fid)"
  shows "extra_fields_loop stop fs (mk k junk pre (codes (unicode_extra fid enc utf) @ rest)) =
    extra_fields_loop stop (fs(n \<mapsto> \<lparr>ef_id = n, ef_length = int (length v), ef_value = v\<rparr>))
      (mk k junk (pre @ codes (unicode_extra fid enc utf)) rest)"
proof -
  have u: "codes (unicode_extra fid enc utf) = codes fid @ codes (decToHex (int (length v)) 2) @ v"
    by (simp only: unicode_extra_def Let_def v_def unicode_value_def codes_append length_append length_codes append_assoc)
  have l: "length v < 65536" using assms(3) arg_cong [OF u, of length] by simp
  have n: "ToInt32 (le_value (codes fid)) = n"
    using ToInt32_le_value_small [of "codes fid"] assms(1) bytes_ok_codes [of fid]
    by (simp add: bytes_ok_def n_def)
  have 1: "readInt 2 (mk k junk pre (codes fid @ x)) = Inr (n, mk k junk (pre @ codes fid) x)" for x
    using readInt_mk [of "codes fid" 2] assms(1) n by simp
  show ?thesis
    unfolding u append_assoc
    by (subst extra_fields_loop.simps)
      (use assms(2) l in \<open>simp add: 1 readInt_dec2 readData_mk\<close>)
qed

lemma extra_fields_done:
  "extra_fields_loop (int (length pre)) fs (mk k junk pre rest) = Some (Inr (fs, mk k junk pre rest))"
  by (subst extra_fields_loop.simps) simp

definition field_of :: "int \<Rightarrow> bool \<Rightarrow> int list \<Rightarrow> (int \<rightharpoonup> extra_field) \<Rightarrow> (int \<rightharpoonup> extra_field)" where
  "field_of n present v fs =
     (if present then fs(n \<mapsto> \<lparr>ef_id = n, ef_length = int (length v), ef_value = v\<rparr>) else fs)"

definition entry_fields :: "zip_config \<Rightarrow> stream_info \<Rightarrow> int \<rightharpoonup> extra_field" where
  "entry_fields c i = field_of 0x6375 (needs_utf8 (fi_comment (si_file i)))
     (unicode_value (enc_comment c i) (binstr (utf8encode (fi_comment (si_file i)))))
     (field_of 0x7075 (needs_utf8 (fi_name (si_file i)))
       (unicode_value (enc_name c i) (binstr (utf8encode (fi_name (si_file i))))) Map.empty)"

lemma length_unicode_extra: "0 < length (unicode_extra fid enc utf)"
  by (simp add: unicode_extra_def Let_def)

lemma field_codes: "le_value (codes [0x75, 0x70]) = 0x7075" "le_value (codes [0x75, 0x63]) = 0x6375"
  by (simp_all add: codes_Cons)

lemma extra_fields_of_entry:
  assumes "length (extras c i) < 65536"
  shows "extra_fields_loop (int (length pre) + int (length (extras c i))) Map.empty
      (mk k junk pre (codes (extras c i) @ rest)) =
    Some (Inr (entry_fields c i, mk k junk (pre @ codes (extras c i)) rest))"
proof -
  let ?stop = "int (length pre) + int (length (extras c i))"
  let ?f1 = "field_of 0x7075 (needs_utf8 (fi_name (si_file i)))
       (unicode_value (enc_name c i) (binstr (utf8encode (fi_name (si_file i))))) Map.empty"
  have l: "length (name_field c i) < 65536" "length (comment_field c i) < 65536"
    "?stop = int (length (pre @ codes (name_field c i) @ codes (comment_field c i)))"
    using assms by (simp_all add: extras_def)
  have a: "extra_fields_loop ?stop Map.empty
      (mk k junk pre (codes (name_field c i) @ codes (comment_field c i) @ rest)) =
    extra_fields_loop ?stop ?f1
      (mk k junk (pre @ codes (name_field c i)) (codes (comment_field c i) @ rest))"
  proof (cases "needs_utf8 (fi_name (si_file i))")
    case True
    then have "0 < length (name_field c i)" unfolding name_field_def by (simp only: length_unicode_extra if_True)
    then have "int (length pre) < ?stop" by (simp add: extras_def add_pos_nonneg del: length_greater_0_conv)
    from extra_fields_step [OF _ this] l(1) show ?thesis
      using True by (simp add: name_field_def field_of_def field_codes)
  qed (simp add: name_field_def field_of_def)
  have b: "extra_fields_loop ?stop ?f1
      (mk k junk (pre @ codes (name_field c i)) (codes (comment_field c i) @ rest)) =
    extra_fields_loop ?stop (entry_fields c i)
      (mk k junk ((pre @ codes (name_field c i)) @ codes (comment_field c i)) rest)"
  proof (cases "needs_utf8 (fi_comment (si_file i))")
    case True
    then have "0 < length (comment_field c i)" unfolding comment_field_def by (simp only: length_unicode_extra if_True)
    then have "int (length (pre @ codes (name_field c i))) < ?stop"
      by (simp add: extras_def del: length_greater_0_conv)
    from extra_fields_step [OF _ this] l(2) show ?thesis
      using True by (simp add: comment_field_def field_of_def field_codes entry_fields_def)
  qed (simp add: comment_field_def field_of_def entry_fields_def)
  show ?thesis
    using a b extra_fields_done [of "(pre @ codes (name_field c i)) @ codes (comment_field c i)"]
    by (simp add: l(3) extras_def)
qed

section \<open>A central record\<close>

definition central_tail :: "zip_config \<Rightarrow> bool \<Rightarrow> int \<Rightarrow> stream_info \<Rightarrow> jsstr" where
  "central_tail c st off i =
     decToHex (fst (version_and_attr (si_file i) (zc_platform c))) 2 @
     header_of c st (si_crc32 i) (si_compressedSize i) (si_uncompressedSize i) i @
     decToHex (int (length (enc_comment c i))) 2 @ [0, 0] @ [0, 0] @
     decToHex (snd (version_and_attr (si_file i) (zc_platform c))) 4 @ decToHex off 4 @
     enc_name c i @ extras c i @ enc_comment c i"

definition central_entry :: "zip_config \<Rightarrow> bool \<Rightarrow> int \<Rightarrow> stream_info \<Rightarrow> zip_entry" where
  "central_entry c st off i = newZipEntry\<lparr>
     versionMadeBy := fst (version_and_attr (si_file i) (zc_platform c)),
     bitFlag := flag_of c st i, compressionMethod := magic (si_compression i),
     entry_date := fi_date (si_file i) - fi_date (si_file i) mod 2000,
     entry_crc32 := si_crc32 i, compressedSize := si_compressedSize i,
     uncompressedSize := si_uncompressedSize i, extraFieldsLength := int (length (extras c i)),
     fileCommentLength := int (length (enc_comment c i)), diskNumberStart := 0,
     internalFileAttributes := 0,
     externalFileAttributes := snd (version_and_attr (si_file i) (zc_platform c)),
     localHeaderOffset := off\<rparr>"

lemma codes_const: "codes [0x0A, 0] = [10, 0]" "codes [0, 0] = [0, 0]"
  by (simp_all add: codes_Cons)

lemma codes_magic: "map word_of_int (codes (magic m)) = magic m" "length (magic m) = 2"
  by (cases m; simp add: magic_def codes_Cons)+

lemma zeros_dec: "codes [0, 0] = codes (decToHex 0 2)"
  by (simp add: numeral_2_eq_2 js_and_def js_ushr_def ToInt32_def ToUint32_def)

lemma not_encrypted: "f \<in> {0, 8, 0x800, 0x808} \<Longrightarrow> js_and f 1 \<noteq> 1"
  by (auto simp: js_and_def ToInt32_def)

lemma read_central_header:
  assumes "entry_fits c i" "fits31 off"
  shows "readCentralHeader (mk k junk pre (codes (central_tail c st off i) @ rest)) newZipEntry =
    Inr (int (length (enc_name c i)), central_entry c st off i,
      mk k junk (pre @ codes (decToHex (fst (version_and_attr (si_file i) (zc_platform c))) 2 @
          header_of c st (si_crc32 i) (si_compressedSize i) (si_uncompressedSize i) i @
          decToHex (int (length (enc_comment c i))) 2 @ [0, 0] @ [0, 0] @
          decToHex (snd (version_and_attr (si_file i) (zc_platform c))) 4 @ decToHex off 4))
        (codes (enc_name c i) @ codes (extras c i) @ codes (enc_comment c i) @ rest))"
proof -
  define v a f t where "v = fst (version_and_attr (si_file i) (zc_platform c))"
    and "a = snd (version_and_attr (si_file i) (zc_platform c))" and "f = flag_of c st i"
    and "t = fi_date (si_file i)"
  define nl xl cl where "nl = int (length (enc_name c i))" and "xl = int (length (extras c i))"
    and "cl = int (length (enc_comment c i))"
  have v: "0 \<le> v" "v < 65536" and a: "- 2147483648 \<le> a" "a < 2147483648"
    using version_and_attr_range [of "si_file i" "zc_platform c"] by (auto simp: v_def a_def)
  have f: "0 \<le> f" "f < 65536" and ne: "js_and f 1 \<noteq> 1"
    using flag_of_range [of c st i] not_encrypted [of f] by (auto simp: f_def)
  have l: "0 \<le> nl" "nl < 65536" "0 \<le> xl" "xl < 65536" "0 \<le> cl" "cl < 65536"
    using assms(1) by (simp_all add: entry_fits_def nl_def xl_def cl_def)
  have d: "dos_year_ok t" using assms(1) by (simp add: entry_fits_def t_def)
  have n: "- 2147483648 \<le> si_crc32 i" "si_crc32 i < 2147483648"
    "- 2147483648 \<le> si_compressedSize i" "si_compressedSize i < 2147483648"
    "- 2147483648 \<le> si_uncompressedSize i" "si_uncompressedSize i < 2147483648"
    "- 2147483648 \<le> off" "off < 2147483648"
    using assms by (simp_all add: entry_fits_def fits31_def)
  have m: "length (codes (magic (si_compression i))) = 2" by (simp add: codes_magic)
  have s2: "skip 2 (mk k junk p (codes [0x0A, 0] @ r)) = Inr (mk k junk (p @ codes [0x0A, 0]) r)" for p r
    by (rule skip_mk) simp
  have m2: "readString 2 (mk k junk p (codes (magic (si_compression i)) @ r)) =
    Inr (magic (si_compression i), mk k junk (p @ codes (magic (si_compression i))) r)" for p r
    using readString_mk [of 2 "codes (magic (si_compression i))"] m by (simp add: codes_magic)
  show ?thesis
    unfolding readCentralHeader_def central_tail_def header_of_def v_def [symmetric] a_def [symmetric]
      f_def [symmetric] t_def [symmetric] nl_def [symmetric] xl_def [symmetric] cl_def [symmetric]
      zeros_dec codes_append append_assoc
    using ne by (simp only: readInt_dec2 [OF v] readInt_dec2 [OF f] readInt_dec2 [OF l(1,2)]
        readInt_dec2 [OF l(3,4)] readInt_dec2 [OF l(5,6)] readInt_dec2 [of 0] readInt_dec4 [OF a]
        readInt_dec4 [OF n(1,2)] readInt_dec4 [OF n(3,4)] readInt_dec4 [OF n(5,6)]
        readInt_dec4 [OF n(7,8)] readDate_dec [OF d] s2 m2 rbind_Inr split_conv Let_def
        append_assoc order_refl zero_less_numeral)
      (simp add: central_entry_def isEncrypted_def v_def a_def f_def t_def nl_def xl_def cl_def)
qed

definition read_entry :: "zip_config \<Rightarrow> bool \<Rightarrow> int \<Rightarrow> stream_info \<Rightarrow> zip_entry" where
  "read_entry c st off i = (central_entry c st off i)\<lparr>extraFields := entry_fields c i,
     fileComment := codes (enc_comment c i)\<rparr>"

lemma entry_fields_no_zip64: "entry_fields c i 1 = None"
  by (simp add: entry_fields_def field_of_def)

lemma central_tail_split:
  "codes (central_tail c st off i) = codes (decToHex (fst (version_and_attr (si_file i) (zc_platform c))) 2 @
          header_of c st (si_crc32 i) (si_compressedSize i) (si_uncompressedSize i) i @
          decToHex (int (length (enc_comment c i))) 2 @ [0, 0] @ [0, 0] @
          decToHex (snd (version_and_attr (si_file i) (zc_platform c))) 4 @ decToHex off 4) @
     codes (enc_name c i) @ codes (extras c i) @ codes (enc_comment c i)"
  by (simp only: central_tail_def codes_append append_assoc)

lemma read_central_part:
  assumes "entry_fits c i" "fits31 off"
  shows "readCentralPart (mk k junk pre (codes (central_tail c st off i) @ rest)) newZipEntry =
    Some (Inr (read_entry c st off i, mk k junk (pre @ codes (central_tail c st off i)) rest))"
proof -
  define h where "h = codes (decToHex (fst (version_and_attr (si_file i) (zc_platform c))) 2 @
          header_of c st (si_crc32 i) (si_compressedSize i) (si_uncompressedSize i) i @
          decToHex (int (length (enc_comment c i))) 2 @ [0, 0] @ [0, 0] @
          decToHex (snd (version_and_attr (si_file i) (zc_platform c))) 4 @ decToHex off 4)"
  let ?n = "codes (enc_name c i)" and ?x = "codes (extras c i)" and ?m = "codes (enc_comment c i)"
  have x: "length (extras c i) < 65536" using assms(1) by (simp add: entry_fits_def)
  have 1: "readCentralHeader (mk k junk pre (codes (central_tail c st off i) @ rest)) newZipEntry =
      Inr (int (length (enc_name c i)), central_entry c st off i,
        mk k junk (pre @ h) (?n @ ?x @ ?m @ rest))"
    unfolding h_def by (rule read_central_header [OF assms])
  have 2: "skip (int (length (enc_name c i))) (mk k junk (pre @ h) (?n @ ?x @ ?m @ rest)) =
      Inr (mk k junk ((pre @ h) @ ?n) (?x @ ?m @ rest))"
    by (rule skip_mk) simp
  have 3: "readExtraFields (mk k junk ((pre @ h) @ ?n) (?x @ ?m @ rest)) (central_entry c st off i) =
      Some (Inr ((central_entry c st off i)\<lparr>extraFields := entry_fields c i\<rparr>,
        mk k junk (((pre @ h) @ ?n) @ ?x) (?m @ rest)))"
    using extra_fields_of_entry [OF x, of "(pre @ h) @ ?n" k junk "?m @ rest"]
    by (simp add: readExtraFields_def central_entry_def newZipEntry_def)
  have 4: "parseZIP64ExtraField k ((central_entry c st off i)\<lparr>extraFields := entry_fields c i\<rparr>) =
      Inr ((central_entry c st off i)\<lparr>extraFields := entry_fields c i\<rparr>)"
    by (simp add: parseZIP64ExtraField_def entry_fields_no_zip64)
  have 5: "readData (int (length (enc_comment c i))) (mk k junk (((pre @ h) @ ?n) @ ?x) (?m @ rest)) =
      Inr (?m, mk k junk ((((pre @ h) @ ?n) @ ?x) @ ?m) rest)"
    by (rule readData_mk) simp
  have c: "fileCommentLength ((central_entry c st off i)\<lparr>extraFields := f\<rparr>) = int (length (enc_comment c i))" for f
    by (simp add: central_entry_def)
  show ?thesis
    unfolding readCentralPart_def 1
    by (simp only: obind_simps split_conv 2 3 4 mk_fields c 5)
      (simp add: read_entry_def central_tail_split h_def)
qed

section \<open>The central directory\<close>

text \<open>The sources with the offsets of their local records.\<close>

fun with_offsets :: "zip_config \<Rightarrow> int \<Rightarrow> source list \<Rightarrow> (int \<times> source) list" where
  "with_offsets c off [] = []"
| "with_offsets c off (s # ss) =
     (off, s) # with_offsets c (off + int (length (entry_local c off s))) ss"

lemma dir_records_offsets:
  "dir_records c off ss = map (\<lambda>(o', s). dirRecord (entry_parts c o' s)) (with_offsets c off ss)"
  by (induction ss arbitrary: off) simp_all

definition source_entry :: "zip_config \<Rightarrow> int \<times> source \<Rightarrow> zip_entry" where
  "source_entry c os = read_entry c (entry_streamed c (snd os)) (fst os) (src_closed (snd os))"

definition source_fits :: "zip_config \<Rightarrow> int \<times> source \<Rightarrow> bool" where
  "source_fits c os \<longleftrightarrow> entry_fits c (src_closed (snd os)) \<and> fits31 (fst os)"

lemma dirRecord_codes:
  "codes (dirRecord (entry_parts c off s)) =
     codes CENTRAL_FILE_HEADER @ codes (central_tail c (entry_streamed c s) off (src_closed s))"
  by (simp add: entry_parts_def generateZipParts_parts central_tail_def)

lemma length_sig_codes [simp]: "length (sig_codes s) = length s"
  by (simp add: sig_codes_def)

lemma sig_codes_consts:
  "codes LOCAL_FILE_HEADER = sig_codes LOCAL_FILE_HEADER" "length LOCAL_FILE_HEADER = 4"
  "codes CENTRAL_FILE_HEADER = sig_codes CENTRAL_FILE_HEADER" "length CENTRAL_FILE_HEADER = 4"
  "codes CENTRAL_DIRECTORY_END = sig_codes CENTRAL_DIRECTORY_END" "length CENTRAL_DIRECTORY_END = 4"
  "sig_codes CENTRAL_DIRECTORY_END \<noteq> sig_codes CENTRAL_FILE_HEADER"
  by (simp_all add: LOCAL_FILE_HEADER_def CENTRAL_FILE_HEADER_def CENTRAL_DIRECTORY_END_def
      sig_codes_def codes_Cons)

definition dirs_codes :: "zip_config \<Rightarrow> (int \<times> source) list \<Rightarrow> int list" where
  "dirs_codes c oss = concat (map (\<lambda>os. codes (dirRecord (entry_parts c (fst os) (snd os)))) oss)"

lemma dirs_codes_simps:
  "dirs_codes c [] = []"
  "dirs_codes c (os # oss) = codes CENTRAL_FILE_HEADER @
     codes (central_tail c (entry_streamed c (snd os)) (fst os) (src_closed (snd os))) @ dirs_codes c oss"
  by (simp_all add: dirs_codes_def dirRecord_codes)

lemma central_dir_loop_entries:
  assumes "list_all (source_fits c) oss"
  shows "central_dir_loop (mk k junk pre
      (dirs_codes c oss @
         codes CENTRAL_DIRECTORY_END @ rest)) files =
    Some (Inr (files @ map (source_entry c) oss,
      mk k junk (pre @ dirs_codes c oss @
        codes CENTRAL_DIRECTORY_END) rest))"
  using assms
proof (induction oss arbitrary: pre files)
  case Nil
  have "readAndCheckSignature CENTRAL_FILE_HEADER (mk k junk pre (codes CENTRAL_DIRECTORY_END @ rest)) =
      Inr (False, mk k junk (pre @ codes CENTRAL_DIRECTORY_END) rest)"
    using readAndCheckSignature_mk [of CENTRAL_FILE_HEADER "codes CENTRAL_DIRECTORY_END"]
    by (simp add: sig_codes_consts)
  then show ?case by (subst central_dir_loop.simps) (simp add: dirs_codes_simps)
next
  case (Cons os oss)
  let ?t = "codes (central_tail c (entry_streamed c (snd os)) (fst os) (src_closed (snd os)))"
  let ?r = "dirs_codes c oss @
      codes CENTRAL_DIRECTORY_END @ rest"
  have f: "entry_fits c (src_closed (snd os))" "fits31 (fst os)" "list_all (source_fits c) oss"
    using Cons.prems source_fits_def [of c os] by simp_all
  have 1: "readAndCheckSignature CENTRAL_FILE_HEADER (mk k junk pre (codes CENTRAL_FILE_HEADER @ ?t @ ?r)) =
      Inr (True, mk k junk (pre @ codes CENTRAL_FILE_HEADER) (?t @ ?r))"
    using readAndCheckSignature_mk [of CENTRAL_FILE_HEADER "codes CENTRAL_FILE_HEADER"]
    by (simp add: sig_codes_consts)
  note 2 = read_central_part [OF f(1,2)]
  show ?case
    by (subst central_dir_loop.simps)
      (simp add: dirs_codes_simps 1 2 Cons.IH [OF f(3)] source_entry_def)
qed

section \<open>A local record\<close>

definition local_entry :: "zip_config \<Rightarrow> stream_info \<Rightarrow> int list \<Rightarrow> zip_entry \<Rightarrow> zip_entry" where
  "local_entry c i content e = e\<lparr>fileNameLength := int (length (enc_name c i)),
     fileName := codes (enc_name c i),
     decompressed := Some \<lparr>co_compressedSize = si_compressedSize i,
       co_uncompressedSize = si_uncompressedSize i, co_crc32 = si_crc32 i,
       co_compression = si_compression i, co_content = content\<rparr>\<rparr>"

lemma findCompression_magic: "findCompression (magic m) = Some m"
  by (cases m) (simp_all add: findCompression_def magic_def)

lemma read_local_part:
  assumes "entry_fits c i" "int (length content) = si_compressedSize i"
    and crc: "si_file j = si_file i"
  shows "readLocalPart (mk k junk pre (codes (header_of c st x y z j @ enc_name c j @ extras c j) @ content @ rest))
      (read_entry c st' off i) =
    Inr (local_entry c i content (read_entry c st' off i),
      mk k junk (pre @ codes (header_of c st x y z j @ enc_name c j @ extras c j) @ content) rest)"
proof -
  define nl xl where "nl = int (length (enc_name c i))" and "xl = int (length (extras c i))"
  have l: "0 \<le> nl" "nl < 65536" "0 \<le> xl" "xl < 65536"
    using assms(1) by (simp_all add: entry_fits_def nl_def xl_def)
  have j: "enc_name c j = enc_name c i" "extras c j = extras c i"
    using crc by (simp_all add: enc_name_def extras_def name_field_def comment_field_def enc_comment_def)
  define h where "h = codes ([0x0A, 0] @ decToHex (flag_of c st j) 2 @ magic (si_compression j) @
     decToHex (dos_time (fi_date (si_file j))) 2 @ decToHex (dos_date (fi_date (si_file j))) 2 @
     decToHex x 4 @ decToHex y 4 @ decToHex z 4)"
  have lh: "length h = 22" by (simp add: h_def codes_magic)
  have d: "codes (header_of c st x y z j @ enc_name c j @ extras c j) =
      h @ codes (decToHex nl 2) @ codes (decToHex xl 2) @ codes (enc_name c i) @ codes (extras c i)"
    by (simp only: header_of_def h_def nl_def xl_def j codes_append append_assoc)
  have 1: "skip 22 (mk k junk pre (h @ q)) = Inr (mk k junk (pre @ h) q)" for q
    by (rule skip_mk) (simp add: lh)
  have 2: "readData nl (mk k junk p (codes (enc_name c i) @ q)) =
      Inr (codes (enc_name c i), mk k junk (p @ codes (enc_name c i)) q)" for p q
    by (rule readData_mk) (simp add: nl_def)
  have 3: "skip xl (mk k junk p (codes (extras c i) @ q)) = Inr (mk k junk (p @ codes (extras c i)) q)" for p q
    by (rule skip_mk) (simp add: xl_def)
  have 4: "readData (si_compressedSize i) (mk k junk p (content @ q)) = Inr (content, mk k junk (p @ content) q)" for p q
    by (rule readData_mk) (simp add: assms(2))
  have 5: "compressedSize (read_entry c st' off i) = si_compressedSize i"
    "uncompressedSize (read_entry c st' off i) = si_uncompressedSize i"
    "compressionMethod (read_entry c st' off i) = magic (si_compression i)"
    "entry_crc32 (read_entry c st' off i) = si_crc32 i"
    by (simp_all add: read_entry_def central_entry_def)
  have 6: "si_compressedSize i \<noteq> - 1" "si_uncompressedSize i \<noteq> - 1"
    using assms(1) by (auto simp: entry_fits_def fits31_def)
  show ?thesis
    unfolding d readLocalPart_def append_assoc
    by (simp only: 1 readInt_dec2 [OF l(1,2)] readInt_dec2 [OF l(3,4)] 2 3 4 5 6 rbind_Inr split_conv
        append_assoc simp_thms if_False findCompression_magic option.case)
      (simp add: local_entry_def nl_def)
qed

text \<open>What the names and comments become: the strings the writer was given.\<close>

definition codec_ok :: "name_encoder \<Rightarrow> (byte list \<Rightarrow> jsstr) \<Rightarrow> stream_info \<Rightarrow> bool" where
  "codec_ok enc dec i \<longleftrightarrow>
     (\<not> needs_utf8 (fi_name (si_file i)) \<longrightarrow> dec (encode_name enc (fi_name (si_file i))) = fi_name (si_file i)) \<and>
     (\<not> needs_utf8 (fi_comment (si_file i)) \<longrightarrow>
        dec (encode_name enc (fi_comment (si_file i))) = fi_comment (si_file i))"

lemma to_bytes_map_uint [simp]: "to_bytes (map uint b) = b"
  by (simp add: to_bytes_def comp_def)

lemma codes_enc: "codes (enc_name c i) = map uint (encode_name (zc_encoder c) (fi_name (si_file i)))"
  "codes (enc_comment c i) = map uint (encode_name (zc_encoder c) (fi_comment (si_file i)))"
  by (simp_all add: enc_name_def enc_comment_def)

lemma newReader_value: "bytes_ok v \<Longrightarrow> newReader k v = mk k [] [] v"
proof -
  assume "bytes_ok v"
  then have "map (\<lambda>x. js_and x 255) v = v"
    by (intro map_idI) (simp add: bytes_ok_def js_and_masks)
  then show ?thesis by (simp add: newReader_def mk_def)
qed

lemma crc_of_binstr:
  "crc_of_data k (map uint b) = crc32wrapper (CrcString (binstr b)) None"
proof -
  have "(word_of_int (uint (ucast x :: jschar)) :: byte) = x" for x :: byte
  proof -
    have "uint x mod 65536 = uint x" "uint x mod 256 = uint x"
      using byte_range [of x] by (simp_all add: mod_pos_pos_trivial)
    then show ?thesis
      by (simp add: word_uint_eq_iff uint_word_of_int_eq unsigned_ucast_eq take_bit_eq_mod)
  qed
  then show ?thesis
    by (simp add: crc_of_data_def crc32wrapper_spec binstr_def comp_def)
qed

lemma utf8_back: "utf8decode (utf8encode s) = s"
  using buf2string_string2buf_append [of s "[]"]
  by (simp add: utf8encode_def utf8decode_def buf2string_def)

lemma read_unicode_field:
  assumes "v = unicode_value (binstr b) (binstr (utf8encode s))"
  shows "unicode_text k (map uint b) \<lparr>ef_id = n, ef_length = int (length v), ef_value = v\<rparr> = Inr (Some s)"
proof -
  have "bytes_ok v" by (simp add: assms unicode_value_def)
  then have n: "newReader k v = mk k [] [] (codes (decToHex 1 1) @
      codes (decToHex (crc32wrapper (CrcString (binstr b)) None) 4) @ map uint (utf8encode s) @ [])"
    by (simp only: newReader_value) (simp only: assms unicode_value_def codes_binstr append_Nil2)
  have l: "int (length v) - 5 = int (length (map uint (utf8encode s)))"
    by (simp add: assms unicode_value_def length_codes del: decToHex.simps)
  show ?thesis
    by (simp only: unicode_text_def extra_field.simps n readInt_dec1 [of 1] readInt_dec4 [OF crc_range] readData_mk [OF l] crc_of_binstr
        rbind_Inr split_conv simp_thms if_False to_bytes_map_uint utf8_back zero_le_one order_refl)
qed

definition final_entry :: "zip_config \<Rightarrow> stream_info \<Rightarrow> zip_entry \<Rightarrow> zip_entry" where
  "final_entry c i e = processAttributes (e\<lparr>fileNameStr := fi_name (si_file i),
     fileCommentStr := fi_comment (si_file i)\<rparr>)"

lemma ascii_utf8encode: "\<not> needs_utf8 s \<Longrightarrow> length (utf8encode s) = length s"
  by (simp add: needs_utf8_def)

lemma useUTF8_flag:
  "useUTF8 e \<longleftrightarrow> zc_encoder c = Utf8Encode \<and>
     (needs_utf8 (fi_name (si_file i)) \<or> needs_utf8 (fi_comment (si_file i)))"
  if "bitFlag e = flag_of c st i"
  using that by (auto simp: useUTF8_def flag_of_def bit_flag_def js_or_def js_and_def ToInt32_def)

lemma handleUTF8_entry:
  assumes "codec_ok (zc_encoder c) dec i"
  shows "handleUTF8 dec k (local_entry c i content (read_entry c st off i)) =
    Inr ((local_entry c i content (read_entry c st off i))\<lparr>fileNameStr := fi_name (si_file i),
      fileCommentStr := fi_comment (si_file i)\<rparr>)"
proof -
  let ?e = "local_entry c i content (read_entry c st off i)"
  let ?nm = "fi_name (si_file i)" and ?cm = "fi_comment (si_file i)"
  have e: "bitFlag ?e = flag_of c st i" "fileName ?e = codes (enc_name c i)"
    "fileComment ?e = codes (enc_comment c i)" "extraFields ?e = entry_fields c i"
    by (simp_all add: local_entry_def read_entry_def central_entry_def)
  show ?thesis
  proof (cases "useUTF8 ?e")
    case True
    then have "zc_encoder c = Utf8Encode" using useUTF8_flag [OF e(1)] by blast
    then show ?thesis using True e
      by (simp add: handleUTF8_def codes_enc encode_name_def utf8_back)
  next
    case False
    have f1: "needs_utf8 ?nm \<Longrightarrow> entry_fields c i 0x7075 = Some \<lparr>ef_id = 0x7075,
        ef_length = int (length (unicode_value (enc_name c i) (binstr (utf8encode ?nm)))),
        ef_value = unicode_value (enc_name c i) (binstr (utf8encode ?nm))\<rparr>"
      and f2: "\<not> needs_utf8 ?nm \<Longrightarrow> entry_fields c i 0x7075 = None"
      and f3: "needs_utf8 ?cm \<Longrightarrow> entry_fields c i 0x6375 = Some \<lparr>ef_id = 0x6375,
        ef_length = int (length (unicode_value (enc_comment c i) (binstr (utf8encode ?cm)))),
        ef_value = unicode_value (enc_comment c i) (binstr (utf8encode ?cm))\<rparr>"
      and f4: "\<not> needs_utf8 ?cm \<Longrightarrow> entry_fields c i 0x6375 = None"
      by (simp_all add: entry_fields_def field_of_def)
    have n: "findExtraFieldUnicodePath k ?e = Inr (if needs_utf8 ?nm then Some ?nm else None)"
      using f1 f2 read_unicode_field [of "unicode_value (enc_name c i) (binstr (utf8encode ?nm))"
          "encode_name (zc_encoder c) ?nm" ?nm k "0x7075"]
      by (cases "needs_utf8 ?nm") (simp_all add: findExtraFieldUnicodePath_def e codes_enc enc_name_def)
    have m: "findExtraFieldUnicodeComment k (?e\<lparr>fileNameStr := x\<rparr>) =
        Inr (if needs_utf8 ?cm then Some ?cm else None)" for x
      using f3 f4 read_unicode_field [of "unicode_value (enc_comment c i) (binstr (utf8encode ?cm))"
          "encode_name (zc_encoder c) ?cm" ?cm k "0x6375"]
      by (cases "needs_utf8 ?cm") (simp_all add: findExtraFieldUnicodeComment_def e codes_enc enc_comment_def)
    have "dec (to_bytes (codes (enc_name c i))) = ?nm" if "\<not> needs_utf8 ?nm"
      using assms that by (simp add: codec_ok_def codes_enc)
    moreover have "dec (to_bytes (codes (enc_comment c i))) = ?cm" if "\<not> needs_utf8 ?cm"
      using assms that by (simp add: codec_ok_def codes_enc)
    ultimately show ?thesis
      using False n m by (simp add: handleUTF8_def e Let_def)
  qed
qed

text \<open>A whole local record, where the directory says it is.\<close>

lemma entry_local_codes:
  assumes "source_ok s"
  obtains x y z j tl where
    "map uint (entry_local c off s) = codes LOCAL_FILE_HEADER @
       codes (header_of c (entry_streamed c s) x y z j @ enc_name c j @ extras c j) @
       map uint (source_content s) @ tl"
    "si_file j = si_file (src_closed s)"
    "j = src_opened s \<or> j = src_closed s"
proof (cases "entry_streamed c s")
  case True
  show ?thesis
    by (rule that [of 0 0 0 "src_opened s" "codes (generateDataDescriptors (src_closed s))"])
      (use True assms in \<open>simp_all add: entry_local_def generateZipParts_parts codes_def [symmetric] source_ok_def\<close>)
next
  case False
  show ?thesis
    by (rule that [of "si_crc32 (src_closed s)" "si_compressedSize (src_closed s)"
          "si_uncompressedSize (src_closed s)" "src_closed s" "[]"])
      (use False in \<open>simp_all add: entry_local_def entry_parts_def generateZipParts_parts codes_def [symmetric]\<close>)
qed

section \<open>The local files\<close>

definition loaded_entry :: "zip_config \<Rightarrow> int \<times> source \<Rightarrow> zip_entry" where
  "loaded_entry c os = (let i = src_closed (snd os) in
     final_entry c i (local_entry c i (map uint (source_content (snd os))) (source_entry c os)))"

definition source_content_ok :: "zip_config \<Rightarrow> (byte list \<Rightarrow> jsstr) \<Rightarrow> source \<Rightarrow> bool" where
  "source_content_ok c dec s \<longleftrightarrow> source_ok s \<and>
     int (length (source_content s)) = si_compressedSize (src_closed s) \<and>
     entry_fits c (src_closed s) \<and> codec_ok (zc_encoder c) dec (src_closed s)"

lemma readLocalFile_entry:
  assumes "pre @ rest = A @ map uint (entry_local c off s) @ B" "int (length A) = off"
    and ok: "source_content_ok c dec s"
  obtains pre' rest' where
    "readLocalFile dec (mk k junk pre rest) (source_entry c (off, s)) =
       Inr (loaded_entry c (off, s), mk k junk pre' rest')"
    "pre' @ rest' = pre @ rest"
proof -
  have sok: "source_ok s" using ok by (simp add: source_content_ok_def)
  obtain x y z j tl where l: "map uint (entry_local c off s) = codes LOCAL_FILE_HEADER @
       codes (header_of c (entry_streamed c s) x y z j @ enc_name c j @ extras c j) @
       map uint (source_content s) @ tl" and j: "si_file j = si_file (src_closed s)"
    using entry_local_codes [OF sok] by metis
  let ?h = "codes (header_of c (entry_streamed c s) x y z j @ enc_name c j @ extras c j)"
  let ?c = "map uint (source_content s)" and ?i = "src_closed s"
  have 1: "setIndex (localHeaderOffset (source_entry c (off, s))) (mk k junk pre rest) =
      Inr (mk k junk A (codes LOCAL_FILE_HEADER @ ?h @ ?c @ tl @ B))"
    by (rule setIndex_mk) (simp_all add: source_entry_def read_entry_def central_entry_def assms l)
  have 2: "checkSignature LOCAL_FILE_HEADER (mk k junk A (codes LOCAL_FILE_HEADER @ ?h @ ?c @ tl @ B)) =
      Inr (mk k junk (A @ codes LOCAL_FILE_HEADER) (?h @ ?c @ tl @ B))"
    by (rule checkSignature_mk) (simp_all add: sig_codes_consts)
  have 3: "readLocalPart (mk k junk (A @ codes LOCAL_FILE_HEADER) (?h @ ?c @ tl @ B)) (source_entry c (off, s)) =
      Inr (local_entry c ?i ?c (source_entry c (off, s)),
        mk k junk ((A @ codes LOCAL_FILE_HEADER) @ ?h @ ?c) (tl @ B))"
    using read_local_part [of c ?i ?c j k junk "A @ codes LOCAL_FILE_HEADER" _ x y z "tl @ B"] ok j
    by (simp add: source_content_ok_def source_entry_def)
  have 4: "handleUTF8 dec k (local_entry c ?i ?c (source_entry c (off, s))) =
      Inr ((local_entry c ?i ?c (source_entry c (off, s)))\<lparr>fileNameStr := fi_name (si_file ?i),
        fileCommentStr := fi_comment (si_file ?i)\<rparr>)"
    using handleUTF8_entry [of c dec ?i] ok by (simp add: source_content_ok_def source_entry_def)
  have "readLocalFile dec (mk k junk pre rest) (source_entry c (off, s)) =
      Inr (loaded_entry c (off, s), mk k junk ((A @ codes LOCAL_FILE_HEADER) @ ?h @ ?c) (tl @ B))"
    unfolding readLocalFile_def
    by (simp only: 1 2 3 4 rbind_Inr split_conv mk_fields loaded_entry_def Let_def final_entry_def snd_conv)
  moreover have "((A @ codes LOCAL_FILE_HEADER) @ ?h @ ?c) @ (tl @ B) = pre @ rest"
    using assms(1) by (simp add: l)
  ultimately show ?thesis by (rule that)
qed

lemma local_area_split:
  "os \<in> set (with_offsets c off ss) \<Longrightarrow>
    \<exists>A B. local_area c off ss = A @ entry_local c (fst os) (snd os) @ B \<and> int (length A) = fst os - off"
proof (induction ss arbitrary: off)
  case (Cons s ss)
  let ?l = "entry_local c off s"
  consider "os = (off, s)" | "os \<in> set (with_offsets c (off + int (length ?l)) ss)"
    using Cons.prems by auto
  then show ?case
  proof cases
    case 1
    then show ?thesis
      by (intro exI [of _ "[]"] exI [of _ "local_area c (off + int (length ?l)) ss"]) simp
  next
    case 2
    from Cons.IH [OF this] obtain A B where
      "local_area c (off + int (length ?l)) ss = A @ entry_local c (fst os) (snd os) @ B"
      "int (length A) = fst os - (off + int (length ?l))" by blast
    then show ?thesis by (intro exI [of _ "?l @ A"] exI [of _ B]) simp
  qed
qed simp

lemma with_offsets_sources: "map snd (with_offsets c off ss) = ss"
  by (induction ss arbitrary: off) simp_all

lemma with_offsets_mem: "os \<in> set (with_offsets c off ss) \<Longrightarrow> snd os \<in> set ss"
  by (metis with_offsets_sources image_eqI set_map)

lemma read_files_entries:
  assumes "\<forall>os \<in> set oss. source_content_ok c dec (snd os) \<and>
      (\<exists>A B. pre @ rest = A @ map uint (entry_local c (fst os) (snd os)) @ B \<and> int (length A) = fst os)"
  shows "\<exists>r. read_files dec (mk k junk pre rest) (map (source_entry c) oss) =
    Inr (map (loaded_entry c) oss, r)"
  using assms
proof (induction oss arbitrary: pre rest)
  case (Cons os oss)
  obtain off s where os: "os = (off, s)" by (cases os)
  from Cons.prems os obtain A B where
    a: "pre @ rest = A @ map uint (entry_local c off s) @ B" "int (length A) = off"
    and ok: "source_content_ok c dec s" by auto
  obtain pre' rest' where r: "readLocalFile dec (mk k junk pre rest) (source_entry c (off, s)) =
       Inr (loaded_entry c (off, s), mk k junk pre' rest')" "pre' @ rest' = pre @ rest"
    using readLocalFile_entry [OF a ok] by blast
  have "\<exists>r. read_files dec (mk k junk pre' rest') (map (source_entry c) oss) =
    Inr (map (loaded_entry c) oss, r)"
    using Cons.prems by (intro Cons.IH) (simp add: r(2))
  then show ?case using r(1) by (auto simp: os)
qed simp

section \<open>The end of the central directory\<close>

definition end_tail :: "zip_config \<Rightarrow> int \<Rightarrow> int \<Rightarrow> int \<Rightarrow> jsstr \<Rightarrow> jsstr" where
  "end_tail c n dl ll comment = [0, 0] @ [0, 0] @ decToHex n 2 @ decToHex n 2 @ decToHex dl 4 @
     decToHex ll 4 @ decToHex (int (length (encode_name (zc_encoder c) comment))) 2 @
     binstr (encode_name (zc_encoder c) comment)"

lemma end_record: "generateCentralDirectoryEnd n dl ll comment (zc_encoder c) =
    CENTRAL_DIRECTORY_END @ end_tail c n dl ll comment"
  by (simp add: generateCentralDirectoryEnd_def end_tail_def Let_def)

lemma read_end:
  assumes "0 \<le> n" "n < 65535" "fits31 dl" "fits31 ll"
    and "length (encode_name (zc_encoder c) comment) < 65536"
    and "dec (encode_name (zc_encoder c) comment) = comment"
    and z: "ze_reader z = mk k junk pre (codes (end_tail c n dl ll comment) @ rest)"
  shows "readBlockEndOfCentral dec z = Inr (z\<lparr>
      ze_reader := mk k junk (pre @ codes (end_tail c n dl ll comment)) rest,
      diskNumber := 0, diskWithCentralDirStart := 0, centralDirRecordsOnThisDisk := n,
      centralDirRecords := n, centralDirSize := dl, centralDirOffset := ll,
      zipCommentLength := int (length (encode_name (zc_encoder c) comment)),
      ze_zipComment := comment\<rparr>)"
proof -
  define m where "m = int (length (encode_name (zc_encoder c) comment))"
  have n: "n < 65536" and m: "0 \<le> m" "m < 65536" and d: "- 2147483648 \<le> dl" "dl < 2147483648"
    "- 2147483648 \<le> ll" "ll < 2147483648"
    using assms by (simp_all add: m_def fits31_def)
  have r: "readData m (mk k junk p (map uint (encode_name (zc_encoder c) comment) @ q)) =
      Inr (map uint (encode_name (zc_encoder c) comment),
        mk k junk (p @ map uint (encode_name (zc_encoder c) comment)) q)" for p q
    by (rule readData_mk) (simp add: m_def)
  show ?thesis
    unfolding readBlockEndOfCentral_def z end_tail_def m_def [symmetric] zeros_dec codes_append
      append_assoc codes_binstr
    by (simp only: readInt_dec2 [of 0] readInt_dec2 [OF assms(1) n] readInt_dec4 [OF d(1,2)]
        readInt_dec4 [OF d(3,4)] readInt_dec2 [OF m] r rbind_Inr split_conv append_assoc
        order_refl zero_less_numeral to_bytes_map_uint assms(6))
qed

text \<open>The end signature occurs once, at the start of the end record.\<close>

definition end_unique :: "int list \<Rightarrow> bool" where
  "end_unique e \<longleftrightarrow> (\<forall>j \<in> set [1..<length e]. take 4 (drop j e) \<noteq> sig_codes CENTRAL_DIRECTORY_END)"

lemma last_end:
  assumes "end_unique (codes CENTRAL_DIRECTORY_END @ t)"
  shows "lastIndexOfSignature CENTRAL_DIRECTORY_END (mk k [] [] (D @ codes CENTRAL_DIRECTORY_END @ t)) =
    int (length D)"
proof -
  let ?E = "codes CENTRAL_DIRECTORY_END @ t"
  let ?r = "mk k [] [] (D @ ?E)"
  let ?i = "lastIndexOfSignature CENTRAL_DIRECTORY_END ?r"
  have at: "take 4 (drop (length D) (D @ ?E)) = sig_codes CENTRAL_DIRECTORY_END"
    by (simp add: sig_codes_consts)
  have no: "take 4 (drop j (D @ ?E)) \<noteq> sig_codes CENTRAL_DIRECTORY_END" if "length D < j" for j
  proof (cases "j - length D < length ?E")
    case True
    then have "j - length D \<in> set [1..<length ?E]" using that by simp
    then have "take 4 (drop (j - length D) ?E) \<noteq> sig_codes CENTRAL_DIRECTORY_END"
      using assms unfolding end_unique_def by blast
    then show ?thesis using that by (simp add: drop_append)
  next
    case False
    then show ?thesis using that by (auto simp: sig_codes_def CENTRAL_DIRECTORY_END_def)
  qed
  have ge: "0 \<le> ?i"
  proof (rule ccontr)
    assume "\<not> 0 \<le> ?i"
    then have "take 4 (drop (length D) (rdata ?r)) \<noteq> sig_codes CENTRAL_DIRECTORY_END"
      by (intro lastIndexOfSignature_none) (simp_all add: sig_codes_consts)
    then show False using at by simp
  qed
  have f: "take 4 (drop (nat ?i) (D @ ?E)) = sig_codes CENTRAL_DIRECTORY_END"
    "\<And>j. ?i < int j \<Longrightarrow> take 4 (drop j (D @ ?E)) \<noteq> sig_codes CENTRAL_DIRECTORY_END"
    using lastIndexOfSignature_found [of ?r CENTRAL_DIRECTORY_END] ge by (simp_all add: sig_codes_consts)
  have "\<not> length D < nat ?i" using no f(1) by blast
  moreover have "\<not> ?i < int (length D)" using f(2) at by blast
  ultimately show ?thesis using ge by linarith
qed

lemma setIndex_zero:
  assumes "pre @ rest = junk @ A @ B"
  shows "setIndex (int (length A)) ((mk k [] pre rest)\<lparr>rzero := int (length junk)\<rparr>) = Inr (mk k junk A B)"
proof -
  have "length (pre @ rest) = length (junk @ A @ B)" using assms by simp
  then show ?thesis using assms by (simp add: setIndex_def checkIndex_def mk_def)
qed

text \<open>What \<open>adjust_zero\<close> leaves: the zero moved past what precedes the archive.\<close>

lemma adjust_zero_junk:
  assumes "pre @ rest = junk @ A @ codes CENTRAL_DIRECTORY_END @ t"
    and "ze_reader z = mk k [] pre rest" "zip64 z = False"
    and "centralDirOffset z + centralDirSize z = int (length A)"
  shows "adjust_zero (int (length (junk @ A))) z =
    Inr (at_reader ((mk k [] pre rest)\<lparr>rzero := int (length junk)\<rparr>) z)"
proof (cases "junk = []")
  case True
  then show ?thesis using assms
    by (simp add: adjust_zero_def expected_end_offset_def at_reader_def Let_def mk_def)
next
  case False
  have 1: "setIndex (int (length (junk @ A))) (mk k [] pre rest) =
      Inr (mk k [] (junk @ A) (codes CENTRAL_DIRECTORY_END @ t))"
    by (rule setIndex_mk) (simp_all add: assms(1))
  have 2: "readString 4 (mk k [] (junk @ A) (codes CENTRAL_DIRECTORY_END @ t)) =
      Inr (map word_of_int (codes CENTRAL_DIRECTORY_END), mk k [] ((junk @ A) @ codes CENTRAL_DIRECTORY_END) t)"
    by (rule readString_mk) (simp add: sig_codes_consts)
  have 3: "setIndex (int (length pre)) (mk k [] ((junk @ A) @ codes CENTRAL_DIRECTORY_END) t) =
      Inr (mk k [] pre rest)"
    by (rule setIndex_mk) (simp_all add: assms(1))
  have 4: "map word_of_int (codes CENTRAL_DIRECTORY_END) \<noteq> CENTRAL_FILE_HEADER"
    by (simp add: CENTRAL_DIRECTORY_END_def CENTRAL_FILE_HEADER_def codes_Cons)
  have 5: "isSignature (int (length (junk @ A))) CENTRAL_FILE_HEADER (mk k [] pre rest) =
      Inr (False, mk k [] pre rest)"
    unfolding isSignature_def Let_def
    by (simp only: 1 2 3 4 rbind_Inr split_conv mk_fields simp_thms)
  have 6: "int (length (junk @ A)) - expected_end_offset z = int (length junk)" "0 < int (length junk)"
    using assms(3,4) False by (simp_all add: expected_end_offset_def)
  show ?thesis
    unfolding adjust_zero_def Let_def 6(1) assms(2) 5 using 6(2) by simp
qed

section \<open>Loading a generated archive\<close>

text \<open>When the archive \<open>zip_layout c comment ss\<close> can be described by the fields of the format.\<close>

definition archive_ok :: "zip_config \<Rightarrow> (byte list \<Rightarrow> jsstr) \<Rightarrow> jsstr \<Rightarrow> source list \<Rightarrow> bool" where
  "archive_ok c dec comment ss \<longleftrightarrow>
     (let ll = int (length (local_area c 0 ss));
          dl = int (length (concat (map str_bytes (dir_records c 0 ss))))
      in length ss < 65535 \<and> fits31 ll \<and> fits31 dl \<and>
         length (encode_name (zc_encoder c) comment) < 65536 \<and>
         dec (encode_name (zc_encoder c) comment) = comment \<and>
         list_all (source_content_ok c dec) ss \<and>
         end_unique (codes (generateCentralDirectoryEnd (int (length ss)) dl ll comment (zc_encoder c))))"

lemma dirs_codes_records:
  "map uint (concat (map str_bytes (dir_records c off ss))) = dirs_codes c (with_offsets c off ss)"
  by (simp add: dir_records_offsets dirs_codes_def map_concat comp_def codes_def case_prod_beta)

lemma offsets_range:
  "os \<in> set (with_offsets c off ss) \<Longrightarrow> off \<le> fst os \<and> fst os \<le> off + int (length (local_area c off ss))"
  using local_area_split [of os c off ss] by auto

definition arch_locals :: "zip_config \<Rightarrow> source list \<Rightarrow> int list" where
  "arch_locals c ss = map uint (local_area c 0 ss)"

definition arch_dirs :: "zip_config \<Rightarrow> source list \<Rightarrow> int list" where
  "arch_dirs c ss = map uint (concat (map str_bytes (dir_records c 0 ss)))"

definition arch_end :: "zip_config \<Rightarrow> jsstr \<Rightarrow> source list \<Rightarrow> int list" where
  "arch_end c comment ss = codes (end_tail c (int (length ss)) (int (length (arch_dirs c ss)))
     (int (length (arch_locals c ss))) comment)"

lemma arch_layout:
  "map uint (zip_layout c comment ss) = arch_locals c ss @ arch_dirs c ss @
     codes CENTRAL_DIRECTORY_END @ arch_end c comment ss"
  unfolding zip_layout_def Let_def end_record arch_locals_def arch_dirs_def arch_end_def
    map_append length_map codes_def str_bytes_append by (rule refl)

lemma archive_ok_parts:
  assumes "archive_ok c dec comment ss"
  shows "length ss < 65535" "fits31 (int (length (arch_locals c ss)))"
    "fits31 (int (length (arch_dirs c ss)))"
    "length (encode_name (zc_encoder c) comment) < 65536"
    "dec (encode_name (zc_encoder c) comment) = comment" "list_all (source_content_ok c dec) ss"
    "end_unique (codes CENTRAL_DIRECTORY_END @ arch_end c comment ss)"
  using assms unfolding archive_ok_def Let_def end_record arch_locals_def arch_dirs_def arch_end_def
    length_map codes_append by simp_all

text \<open>The end of the central directory of a generated archive is accepted.\<close>

lemma end_of_archive:
  assumes ok: "archive_ok c dec comment ss" and junk: "bytes_ok junk"
  defines "D \<equiv> junk @ map uint (zip_layout c comment ss)"
  shows "\<exists>k z. readEndOfCentral dec (newZipEntries u8 type D) = Some (Inr z) \<and>
    ze_reader z = (mk k [] D [])\<lparr>rzero := int (length junk)\<rparr> \<and> ze_files z = [] \<and>
    centralDirOffset z = int (length (arch_locals c ss)) \<and> centralDirRecords z = int (length ss) \<and>
    ze_zipComment z = comment"
proof -
  let ?L = "arch_locals c ss" and ?Ds = "arch_dirs c ss" and ?t = "arch_end c comment ss"
  let ?E = "codes CENTRAL_DIRECTORY_END" and ?P = "junk @ arch_locals c ss @ arch_dirs c ss"
  note h = archive_ok_parts [OF ok]
  have D: "D = ?P @ ?E @ ?t" unfolding D_def arch_layout by simp
  have "bytes_ok D" using junk unfolding D_def by simp
  then obtain k where r0: "readerFor u8 type D = mk k [] [] D"
    using newReader_value by (metis readerFor_def)
  have last: "lastIndexOfSignature CENTRAL_DIRECTORY_END (mk k [] [] D) = int (length ?P)"
    unfolding D by (rule last_end [OF h(7)])
  have s1: "setIndex (int (length ?P)) (mk k [] [] D) = Inr (mk k [] ?P (?E @ ?t @ []))"
    by (rule setIndex_mk) (simp_all add: D)
  have s2: "checkSignature CENTRAL_DIRECTORY_END (mk k [] ?P (?E @ ?t @ [])) = Inr (mk k [] (?P @ ?E) (?t @ []))"
    by (rule checkSignature_mk) (simp_all add: sig_codes_consts)
  define z0 where "z0 = newZipEntries u8 type D"
  have z0: "ze_reader z0 = mk k [] [] D" "zip64 z0 = False" "ze_files z0 = []"
    by (simp_all add: z0_def newZipEntries_def r0)
  define z1 where "z1 = (at_reader (mk k [] (?P @ ?E) (?t @ [])) z0)\<lparr>
      ze_reader := mk k [] ((?P @ ?E) @ ?t) [],
      diskNumber := 0, diskWithCentralDirStart := 0, centralDirRecordsOnThisDisk := int (length ss),
      centralDirRecords := int (length ss), centralDirSize := int (length ?Ds),
      centralDirOffset := int (length ?L),
      zipCommentLength := int (length (encode_name (zc_encoder c) comment)),
      ze_zipComment := comment\<rparr>"
  have s3: "readBlockEndOfCentral dec (at_reader (mk k [] (?P @ ?E) (?t @ [])) z0) = Inr z1"
    unfolding z1_def arch_end_def
    by (rule read_end) (use h in \<open>simp_all add: at_reader_def\<close>)
  have s4: "\<not> needs_zip64 z1"
    using h(1-3) by (simp add: needs_zip64_def z1_def MAX_VALUE_16BITS_def MAX_VALUE_32BITS_def fits31_def)
  let ?z = "(mk k [] ((?P @ ?E) @ ?t) [])\<lparr>rzero := int (length junk)\<rparr>"
  have s5: "adjust_zero (int (length ?P)) z1 = Inr (at_reader ?z z1)"
    by (rule adjust_zero_junk [where A = "?L @ ?Ds" and t = ?t])
      (simp_all add: z1_def at_reader_def z0)
  have "readEndOfCentral dec z0 = Some (Inr (at_reader ?z z1))"
    unfolding readEndOfCentral_def Let_def z0(1) last
    by (simp only: s1 s2 s3 s4 s5 obind_simps if_False of_nat_less_0_iff simp_thms)
  moreover have "ze_reader (at_reader ?z z1) = (mk k [] D [])\<lparr>rzero := int (length junk)\<rparr>"
    by (simp add: at_reader_def D)
  moreover have "ze_files (at_reader ?z z1) = []" "centralDirOffset (at_reader ?z z1) = int (length ?L)"
    "centralDirRecords (at_reader ?z z1) = int (length ss)" "ze_zipComment (at_reader ?z z1) = comment"
    by (simp_all add: z1_def at_reader_def z0)
  ultimately show ?thesis unfolding z0_def [symmetric] by blast
qed

lemma sources_fit:
  assumes "archive_ok c dec comment ss"
  shows "list_all (source_fits c) (with_offsets c 0 ss)"
proof -
  note h = archive_ok_parts [OF assms]
  have "source_fits c os" if "os \<in> set (with_offsets c 0 ss)" for os
  proof -
    have "snd os \<in> set ss" using that by (rule with_offsets_mem)
    then have "source_content_ok c dec (snd os)" using h(6) by (simp add: list_all_iff)
    then show ?thesis using offsets_range [OF that] h(2)
      by (simp add: source_fits_def source_content_ok_def fits31_def arch_locals_def)
  qed
  then show ?thesis by (simp add: list_all_iff)
qed

lemma load_archive:
  assumes ok: "archive_ok c dec comment ss" and junk: "bytes_ok junk"
  shows "\<exists>z. load dec u8 type (junk @ map uint (zip_layout c comment ss)) = Some (Inr z) \<and>
    ze_zipComment z = comment \<and> ze_files z = map (loaded_entry c) (with_offsets c 0 ss)"
proof -
  let ?L = "arch_locals c ss" and ?Ds = "arch_dirs c ss" and ?t = "arch_end c comment ss"
  let ?E = "codes CENTRAL_DIRECTORY_END" and ?os = "with_offsets c 0 ss"
  note h = archive_ok_parts [OF ok]
  obtain k z where r1: "readEndOfCentral dec (newZipEntries u8 type
        (junk @ map uint (zip_layout c comment ss))) = Some (Inr z)"
    and z: "ze_reader z = (mk k [] (junk @ ?L @ ?Ds @ ?E @ ?t) [])\<lparr>rzero := int (length junk)\<rparr>"
      "ze_files z = []" "centralDirOffset z = int (length ?L)" "centralDirRecords z = int (length ss)"
      "ze_zipComment z = comment"
    using end_of_archive [OF ok junk, of u8 type] unfolding arch_layout by blast
  have c1: "setIndex (int (length ?L)) (ze_reader z) = Inr (mk k junk ?L (?Ds @ ?E @ ?t))"
    unfolding z by (rule setIndex_zero) simp
  have dc: "?Ds = dirs_codes c ?os" unfolding arch_dirs_def by (rule dirs_codes_records)
  have c2: "central_dir_loop (mk k junk ?L (?Ds @ ?E @ ?t)) [] =
      Some (Inr (map (source_entry c) ?os, mk k junk (?L @ ?Ds @ ?E) ?t))"
    using central_dir_loop_entries [OF sources_fit [OF ok], of k junk ?L ?t "[]"] by (simp add: dc)
  have len: "length ?os = length ss"
    using arg_cong [OF with_offsets_sources [of c 0 ss], of length] by simp
  let ?z2 = "z\<lparr>ze_reader := mk k junk (?L @ ?Ds @ ?E) ?t, ze_files := map (source_entry c) ?os\<rparr>"
  have r2: "readCentralDir z = Some (Inr ?z2)"
    unfolding readCentralDir_def z(3) c1 by (simp add: z c2 len)
  have "\<exists>r. read_files dec (mk k junk (?L @ ?Ds @ ?E) ?t) (map (source_entry c) ?os) =
      Inr (map (loaded_entry c) ?os, r)"
  proof (rule read_files_entries, intro ballI conjI)
    fix os
    assume os: "os \<in> set ?os"
    then have "snd os \<in> set ss" by (rule with_offsets_mem)
    then show "source_content_ok c dec (snd os)" using h(6) by (simp add: list_all_iff)
    obtain A B where "local_area c 0 ss = A @ entry_local c (fst os) (snd os) @ B" "int (length A) = fst os - 0"
      using local_area_split [OF os] by blast
    then show "\<exists>A B. (?L @ ?Ds @ ?E) @ ?t = A @ map uint (entry_local c (fst os) (snd os)) @ B \<and>
        int (length A) = fst os"
      by (intro exI [of _ "map uint A"] exI [of _ "map uint B @ ?Ds @ ?E @ ?t"]) (simp add: arch_locals_def)
  qed
  then obtain r where r3: "read_files dec (ze_reader ?z2) (ze_files ?z2) = Inr (map (loaded_entry c) ?os, r)"
    by auto
  have "load dec u8 type (junk @ map uint (zip_layout c comment ss)) =
      Some (Inr (?z2\<lparr>ze_reader := r, ze_files := map (loaded_entry c) ?os\<rparr>))"
    unfolding load_def r1 by (simp only: r2 obind_simps readLocalFiles_def r3 rbind_Inr split_conv)
  then show ?thesis using z(5) by (intro exI conjI) (assumption, simp_all)
qed

text \<open>What the rest of the program sees of an entry, and what the writer was given.\<close>

record entry_view =
  ev_name :: jsstr
  ev_comment :: jsstr
  ev_date :: int
  ev_dir :: bool
  ev_unix :: "int option"
  ev_dos :: "int option"
  ev_data :: "compressed_object option"

definition view :: "zip_entry \<Rightarrow> entry_view" where
  "view e = \<lparr>ev_name = fileNameStr e, ev_comment = fileCommentStr e, ev_date = entry_date e,
     ev_dir = entry_dir e, ev_unix = entry_unixPermissions e, ev_dos = entry_dosPermissions e,
     ev_data = decompressed e\<rparr>"

definition unix_mode :: "file_info \<Rightarrow> int" where
  "unix_mode f = (case fi_unixPermissions f of
      Some p \<Rightarrow> if p \<noteq> 0 then p else if fi_dir f then 0x41fd else 0x81b4
    | None \<Rightarrow> if fi_dir f then 0x41fd else 0x81b4)"

definition dos_mode :: "file_info \<Rightarrow> int" where
  "dos_mode f = js_or (if fi_dir f then 0x10 else 0)
     (js_and (case fi_dosPermissions f of Some p \<Rightarrow> p | None \<Rightarrow> 0) 0x3F)"

definition source_view :: "zip_config \<Rightarrow> source \<Rightarrow> entry_view" where
  "source_view c s =
     (let i = src_closed s; f = si_file i; unix = (zc_platform c = js ''UNIX'')
      in \<lparr>ev_name = fi_name f, ev_comment = fi_comment f,
          ev_date = fi_date f - fi_date f mod 2000,
          ev_dir = (if unix then fi_dir f else js_and (dos_mode f) 0x10 \<noteq> 0) \<or>
            (fi_name f \<noteq> [] \<and> last (fi_name f) = 0x2F),
          ev_unix = (if unix then Some (js_and (unix_mode f) 0xFFFF) else None),
          ev_dos = (if unix then None else Some (dos_mode f)),
          ev_data = Some \<lparr>co_compressedSize = si_compressedSize i,
            co_uncompressedSize = si_uncompressedSize i, co_crc32 = si_crc32 i,
            co_compression = si_compression i, co_content = map uint (source_content s)\<rparr>\<rparr>)"

lemma bit_js_or: "n < 32 \<Longrightarrow> bit (js_or a b) n \<longleftrightarrow> bit a n \<or> bit b n"
  by (cases "n = 31") (simp_all add: js_or_def ToInt32_signed_take_bit bit_simps min_def)

lemma bit_js_shl: "n < 31 \<Longrightarrow> k < 32 \<Longrightarrow> bit (js_shl x k) n \<longleftrightarrow> k \<le> n \<and> bit x (n - k)"
  by (auto simp: js_shl_def ToInt32_signed_take_bit push_bit_eq_mult [symmetric] bit_simps min_def)

lemma bit_js_shl_31: "0 < k \<Longrightarrow> k < 32 \<Longrightarrow> bit (js_shl x k) 31 \<longleftrightarrow> bit x (31 - k)"
  by (auto simp: js_shl_def ToInt32_signed_take_bit push_bit_eq_mult [symmetric] bit_simps min_def)

lemma js_and_16_bit: "js_and x 16 \<noteq> 0 \<longleftrightarrow> bit x 4"
proof -
  have "js_and x 16 = ToInt32 x AND 2 ^ 4" by (simp add: js_and_def ToInt32_id)
  then show ?thesis
    by (simp only: and_exp_eq_0_iff_not_bit) (simp add: ToInt32_signed_take_bit bit_simps)
qed

lemma unix_attr:
  "version_and_attr f (js ''UNIX'') = (0x031E, js_or (if fi_dir f then 0x10 else 0)
     (js_shl (js_and (unix_mode f) 0xFFFF) 16))"
  by (simp add: version_and_attr_def generateUnixExternalFileAttr_def unix_mode_def Let_def
      js_or_def ToInt32_def split: option.split)

lemma dos_attr:
  "p \<noteq> js ''UNIX'' \<Longrightarrow> version_and_attr f p = (0x0014, dos_mode f)"
  by (simp add: version_and_attr_def generateDosExternalFileAttr_def dos_mode_def Let_def
      js_or_def ToInt32_def)

lemma unix_dir_bit:
  "bit (js_or (if d then 0x10 else 0) (js_shl x 16)) 4 \<longleftrightarrow> (d :: bool)"
  by (simp add: bit_js_or bit_js_shl bit_numeral_rec)

lemma unix_mode_back:
  "js_and (js_shr (js_or (if d then 0x10 else 0) (js_shl (js_and x 0xFFFF) 16)) 16) 0xFFFF = js_and x 0xFFFF"
proof -
  define a where "a = (if d then 0x10 else (0 :: int))"
  have x: "js_and x 65535 = take_bit 16 x" by (simp add: js_and_masks take_bit_eq_mod)
  have a: "\<not> bit a (16 + n)" for n
  proof -
    have "a = (if d then 2 ^ 4 else 0)" by (simp add: a_def)
    then show ?thesis by (simp only: bit_exp_iff bit_0_eq split: if_split) auto
  qed
  have "js_and (js_shr (js_or a (js_shl (take_bit 16 x) 16)) 16) 65535 =
      take_bit 16 (drop_bit 16 (js_or a (js_shl (take_bit 16 x) 16)))"
    using js_or_range [of a "js_shl (take_bit 16 x) 16"]
    by (simp add: js_and_masks js_shr_div take_bit_eq_mod drop_bit_eq_div)
  also have "\<dots> = take_bit 16 x"
  proof (rule bit_eqI)
    fix n
    have "bit (js_shl (take_bit 16 x) 16) (16 + n) \<longleftrightarrow> bit x n" if "n < 16"
      using that bit_js_shl [of "16 + n" 16 "take_bit 16 x"] bit_js_shl_31 [of 16 "take_bit 16 x"]
      by (cases "n = 15") (simp_all add: bit_simps)
    then show "bit (take_bit 16 (drop_bit 16 (js_or a (js_shl (take_bit 16 x) 16)))) n = bit (take_bit 16 x) n"
      using a by (auto simp: bit_simps bit_js_or)
  qed
  finally show ?thesis unfolding x a_def .
qed

lemma dos_mode_back: "js_and (dos_mode f) 0x3F = dos_mode f"
proof -
  define p where "p = js_and (case fi_dosPermissions f of Some p \<Rightarrow> p | None \<Rightarrow> 0) 0x3F"
  have p: "0 \<le> p" "p < 2 ^ 6" by (simp_all add: p_def js_and_masks)
  have "0 \<le> js_or (if fi_dir f then 0x10 else 0) p" "js_or (if fi_dir f then 0x10 else 0) p < 2 ^ 6"
    using p by (intro js_or_small [where k = 6]; simp)+
  then show ?thesis unfolding dos_mode_def p_def [symmetric]
    by (simp add: js_and_masks mod_pos_pos_trivial)
qed

lemma view_loaded:
  "view (loaded_entry c (off, s)) = source_view c s"
proof -
  let ?i = "src_closed s"
  let ?f = "si_file ?i"
  let ?e = "local_entry c ?i (map uint (source_content s)) (source_entry c (off, s))"
  have e: "versionMadeBy ?e = fst (version_and_attr ?f (zc_platform c))"
    "externalFileAttributes ?e = snd (version_and_attr ?f (zc_platform c))"
    "entry_date ?e = fi_date ?f - fi_date ?f mod 2000"
    "decompressed ?e = Some \<lparr>co_compressedSize = si_compressedSize ?i,
            co_uncompressedSize = si_uncompressedSize ?i, co_crc32 = si_crc32 ?i,
            co_compression = si_compression ?i, co_content = map uint (source_content s)\<rparr>"
    by (simp_all add: local_entry_def source_entry_def read_entry_def central_entry_def)
  have h: "js_shr 0x031E 8 = 3" "js_shr 0x0014 8 = 0" by (simp_all add: js_shr_def ToInt32_def)
  show ?thesis
  proof (cases "zc_platform c = js ''UNIX''")
    case True
    then show ?thesis
      by (simp add: loaded_entry_def final_entry_def processAttributes_def view_def source_view_def
          Let_def e unix_attr h js_and_16_bit unix_dir_bit unix_mode_back)
  next
    case False
    then show ?thesis
      by (simp add: loaded_entry_def final_entry_def processAttributes_def view_def source_view_def
          Let_def e dos_attr [OF False] h dos_mode_back)
  qed
qed

section \<open>An example archive\<close>

definition demo_config :: zip_config where
  "demo_config = \<lparr>zc_stream = True, zc_platform = js ''DOS'', zc_encoder = Utf8Encode\<rparr>"

lemma utf8_demo: "utf8encode [0x61] = [0x61]" "utf8encode [] = []"
  by (simp_all add: utf8encode_def string2buf_cps cps.simps cp_buf_def cp_bytes_def)

lemma demo_fields:
  assumes "si_file i = si_file demo_info"
  shows "enc_name demo_config i = [0x61]" "enc_comment demo_config i = []" "extras demo_config i = []" 
  by (simp_all add: assms enc_name_def enc_comment_def extras_def name_field_def comment_field_def
      needs_utf8_def demo_config_def demo_info_def encode_name_def utf8_demo binstr_def)

lemma demo_year: "getUTCFullYear 1500000000000 = 2017"
  by (simp add: getUTCFullYear_def YearFromDay_def Day_def year_up.simps DayFromYear_def)

lemma demo_source_file:
  "si_file (src_closed demo_source) = si_file demo_info" "si_file (src_opened demo_source) = si_file demo_info"
  "fi_date (si_file demo_info) = 1500000000000" "fi_name (si_file demo_info) = [0x61]"
  "fi_comment (si_file demo_info) = []" "fi_dir (si_file demo_info) = False"
  by (simp_all add: demo_source_def demo_info_def)

lemma demo_content: "source_content_ok demo_config utf8decode demo_source"
proof -
  have "utf8decode [0x61] = [0x61]" "utf8decode [] = []"
    using utf8_back [of "[0x61]"] utf8_back [of "[]"] by (simp_all add: utf8_demo)
  moreover have "source_content demo_source = [1, 2, 3]"
    "si_crc32 (src_closed demo_source) = 1438416925" "si_compressedSize (src_closed demo_source) = 3"
    "si_uncompressedSize (src_closed demo_source) = 3"
    by (simp_all add: demo_source_def source_content_def)
  ultimately show ?thesis
    by (simp add: source_content_ok_def source_ok_def entry_fits_def demo_source_file demo_fields
      dos_year_ok_def fits31_def codec_ok_def needs_utf8_def utf8_demo demo_year)
     (simp add: demo_config_def encode_name_def utf8_demo)
qed

lemma length_magic: "length (magic m) = 2" by (cases m) (simp_all add: magic_def)

lemma demo_lengths:
  "length (local_area demo_config 0 [demo_source]) = 50"
  "length (concat (map str_bytes (dir_records demo_config 0 [demo_source]))) = 47"
proof -
  have f: "length (header_of demo_config st x y z i) = 26" for st x y z i
    by (simp add: header_of_def length_magic)
  show "length (local_area demo_config 0 [demo_source]) = 50"
    by (simp add: entry_local_def entry_parts_def generateZipParts_parts f demo_fields demo_source_file
       generateDataDescriptors_def LOCAL_FILE_HEADER_def DATA_DESCRIPTOR_def)
      (simp add: entry_streamed_def demo_config_def demo_source_file source_content_def demo_source_def)
  show "length (concat (map str_bytes (dir_records demo_config 0 [demo_source]))) = 47"
    by (simp add: entry_local_def entry_parts_def generateZipParts_parts f demo_fields demo_source_file
       CENTRAL_FILE_HEADER_def)
qed

lemma codes_dec_step:
  assumes "0 \<le> x" "x < 4294967296"
  shows "codes (decToHex x (Suc n)) = x mod 256 # codes (decToHex (x div 256) n)"
proof -
  have "uint (word_of_int (x mod 256) :: jschar) mod 256 = x mod 256"
    by (simp add: uint_word_of_int mod_mod_cancel)
  then show ?thesis
    using assms by (simp add: codes_Cons js_and_masks js_ushr_def ToUint32_id)
qed

lemma codes_dec_small:
  assumes "0 \<le> x" "x < 256"
  shows "codes (decToHex x 2) = [x, 0]" "codes (decToHex x 4) = [x, 0, 0, 0]"
proof -
  have "(2 :: nat) = Suc (Suc 0)" "(4 :: nat) = Suc (Suc (Suc (Suc 0)))" by simp_all
  then show "codes (decToHex x 2) = [x, 0]" "codes (decToHex x 4) = [x, 0, 0, 0]"
    using assms by (simp_all only: codes_dec_step order_refl) (simp_all add: codes_dec_step)
qed

lemma demo_end: "end_unique (codes (generateCentralDirectoryEnd 1 47 50 [] Utf8Encode))"
proof -
  have e: "codes (generateCentralDirectoryEnd 1 47 50 [] Utf8Encode) =
    [80, 75, 5, 6, 0, 0, 0, 0, 1, 0, 1, 0, 47, 0, 0, 0, 50, 0, 0, 0, 0, 0]"
    by (simp add: generateCentralDirectoryEnd_def CENTRAL_DIRECTORY_END_def codes_Cons encode_name_def utf8_demo
      codes_dec_small binstr_def)
  have u: "[1..<22] = [1, 2, 3, 4, 5, 6, 7, 8, 9, 10, 11, 12, 13, 14, 15, 16, 17, 18, 19, 20, 21]"
    by (simp add: upt_rec)
  show ?thesis unfolding end_unique_def e
    by (simp add: sig_codes_def CENTRAL_DIRECTORY_END_def u)
qed

lemma demo_archive: "archive_ok demo_config utf8decode [] [demo_source]"
proof -
  have "utf8decode [] = []" using utf8_back [of "[]"] by (simp add: utf8_demo)
  then show ?thesis
    unfolding archive_ok_def Let_def demo_lengths
    using demo_content demo_end
    by (simp add: fits31_def) (simp add: demo_config_def encode_name_def utf8_demo)
qed


section \<open>The round trip\<close>

text \<open>
  Property C8. Reading gives back what was written. For every archive that fits the
  fields of the format, the bytes \<open>ZipFileWorker\<close> emits, even behind arbitrary other
  bytes and in whatever type the data is held, are loaded: \<open>load\<close> ends without an error,
  and the comment and, in order, every entry's name, comment, date (to two seconds),
  directory flag, permissions, sizes, checksum, method and content are those of the
  sources. \<open>archive_ok\<close> asks that the lengths and offsets fit, that the names
  survive the user's encoding, and that the end signature does not occur again
  inside the end record (\<open>load\<close> takes the last one).
\<close>

theorem zip_roundtrip:
  assumes "archive_ok \<lparr>zc_stream = stream, zc_platform = platform, zc_encoder = encoder\<rparr> decodeFileName comment ss"
    and "bytes_ok junk"
  shows "\<exists>z. load decodeFileName uint8array type
       (junk @ map uint (zip_output (zw_run (fold registerSource ss
          (newZipFileWorker stream comment platform encoder))))) = Some (Inr z) \<and>
     ze_zipComment z = comment \<and>
     map view (ze_files z) =
       map (source_view \<lparr>zc_stream = stream, zc_platform = platform, zc_encoder = encoder\<rparr>) ss"
proof -
  let ?c = "\<lparr>zc_stream = stream, zc_platform = platform, zc_encoder = encoder\<rparr>"
  have "list_all source_ok ss"
    using assms(1) by (simp add: archive_ok_def Let_def list_all_iff source_content_ok_def)
  then have o: "zip_output (zw_run (fold registerSource ss (newZipFileWorker stream comment platform encoder))) =
      zip_layout ?c comment ss" by (rule worker_layout)
  have "map view (map (loaded_entry ?c) (with_offsets ?c 0 ss)) = map (source_view ?c) ss"
  proof -
    have "map view (map (loaded_entry ?c) oss) = map (source_view ?c) (map snd oss)" for oss
      by (induction oss) (auto simp: view_loaded)
    then show ?thesis by (simp only: with_offsets_sources)
  qed
  then show ?thesis using load_archive [OF assms] unfolding o by metis
qed

theorem zip_roundtrip_witness:
  "\<exists>z. load utf8decode True TUint8
       ([1, 2] @ map uint (zip_output (zw_run (fold registerSource [demo_source]
          (newZipFileWorker True [] (js ''DOS'') Utf8Encode))))) = Some (Inr z) \<and>
     ze_zipComment z = [] \<and>
     map view (ze_files z) =
       map (source_view \<lparr>zc_stream = True, zc_platform = js ''DOS'', zc_encoder = Utf8Encode\<rparr>) [demo_source]"
  by (rule zip_roundtrip) (use demo_archive in \<open>simp_all add: demo_config_def bytes_ok_def\<close>)

end
