(* ===== verification/Archive.thy ===== *)
theory Archive
  imports Contents ZipRoundtrip
begin

text \<open>
  \<open>lib/generate\<close>, \<open>generateAsync\<close> and \<open>lib/load\<close> of JSZip: from the table of files to an archive
  and back. Every file of the table becomes a source of \<open>ZipFileWorker\<close>, whose chunks are those
  of its stream; loading reads the entries, checks their sums if asked, and adds them to the table.
  \<open>None\<close> is a promise that is never settled, or content that comes from a worker of the caller.
\<close>

section \<open>Sources\<close>

datatype archive_error =
    Stream stream_error
  | Zip zip_error
  | Table store_error
  | InvalidCompression string
  | CrcMismatch
  | StreamGiven

text \<open>\<open>getCompression\<close>: the file's own compression, or else that of the archive.\<close>

definition compressions :: "string \<rightharpoonup> compression" where
  "compressions = [''STORE'' \<mapsto> STORE, ''DEFLATE'' \<mapsto> DEFLATE]"

definition getCompression :: "string option \<Rightarrow> string \<Rightarrow> archive_error + compression" where
  "getCompression fileCompression zipCompression =
     (let compressionName = (case fileCompression of
            Some n \<Rightarrow> if n \<noteq> [] then n else zipCompression | None \<Rightarrow> zipCompression)
      in case compressions compressionName of
           None \<Rightarrow> Inl (InvalidCompression compressionName)
         | Some c \<Rightarrow> Inr c)"

definition entry_file :: "jsstr \<times> zip_object \<Rightarrow> file_info" where
  "entry_file p = \<lparr>fi_name = fst p, fi_dir = zo_dir (snd p), fi_date = zo_date (snd p),
     fi_comment = default (zo_comment (snd p)) [], fi_unixPermissions = zo_unixPermissions (snd p),
     fi_dosPermissions = zo_dosPermissions (snd p)\<rparr>"

text \<open>
  \<open>generateWorker\<close>: the streams that are piped into the \<open>ZipFileWorker\<close>, in the order of
  \<open>forEach\<close>, or the error that stops it.
\<close>

type_synonym entry_stream = "file_info \<times> compressed_stream"

fun entry_streams ::
  "worker_kind \<Rightarrow> worker_kind \<Rightarrow> string \<Rightarrow> (jsstr \<times> zip_object) list \<Rightarrow> (archive_error + entry_stream list) option" where
  "entry_streams inflate deflate zipCompression [] = Some (Inr [])"
| "entry_streams inflate deflate zipCompression (p # ps) =
     (case getCompression (zo_compression (snd p)) zipCompression of
        Inl e \<Rightarrow> Some (Inl e)
      | Inr c \<Rightarrow>
          (case zo_compressWorker inflate deflate (snd p) c of
             None \<Rightarrow> None
           | Some s \<Rightarrow> map_option (\<lambda>r. rbind r (\<lambda>ss. Inr ((entry_file p, s) # ss)))
               (entry_streams inflate deflate zipCompression ps)))"

definition generateWorker ::
  "worker_kind \<Rightarrow> worker_kind \<Rightarrow> string \<Rightarrow> jsstr \<Rightarrow> files \<Rightarrow> (archive_error + entry_stream list) option" where
  "generateWorker inflate deflate zipCompression dir_root fs =
     (case forEach dir_root fs of
        Inl e \<Rightarrow> Some (Inl (Table e))
      | Inr ps \<Rightarrow> entry_streams inflate deflate zipCompression ps)"

text \<open>
  What a stream sends to the listeners that \<open>registerPrevious\<close> of \<open>ZipFileWorker\<close> adds: its
  chunks until its end, or an error. A source of the worker is a stream with what it sends.
\<close>

fun stream_outcome :: "event list \<Rightarrow> (stream_error + wchunk list) option" where
  "stream_outcome [] = None"
| "stream_outcome (DataEvent c # evs) = map_option (\<lambda>r. rbind r (\<lambda>cs. Inr (c # cs))) (stream_outcome evs)"
| "stream_outcome (ErrorEvent e # evs) = Some (Inl e)"
| "stream_outcome (EndEvent # evs) = Some (Inr [])"

fun cdata_of :: "js_data \<Rightarrow> cdata" where
  "cdata_of (JString s) = StrData s"
| "cdata_of d = ByteData (bytes_of d)"

definition zip_chunk :: "wchunk \<Rightarrow> chunk" where
  "zip_chunk c = \<lparr>ch_data = cdata_of (wc_data c), ch_percent = wc_percent c\<rparr>"

definition zip_info :: "file_info \<Rightarrow> compression \<Rightarrow> info \<Rightarrow> stream_info" where
  "zip_info f c info = \<lparr>si_file = f, si_compression = c, si_crc32 = info_or_zero info ''crc32'',
     si_compressedSize = info_or_zero info ''compressedSize'',
     si_uncompressedSize = info_or_zero info ''uncompressedSize''\<rparr>"

definition source_of :: "platform \<Rightarrow> entry_stream \<Rightarrow> (stream_error + source) option" where
  "source_of env es =
     (let (f, s, c) = es
      in map_option (\<lambda>r. rbind r (\<lambda>cs. Inr
           \<lparr>src_opened = zip_info f c (stream_info (fst s)), src_chunks = map zip_chunk cs,
            src_closed = zip_info f c (stream_final_info env s)\<rparr>))
         (stream_outcome (stream_events env s)))"

text \<open>The sources run one after the other: the first that fails stops the worker with its error.\<close>

fun run_entries :: "platform \<Rightarrow> entry_stream list \<Rightarrow> (stream_error + source list) option" where
  "run_entries env [] = Some (Inr [])"
| "run_entries env (es # ess) =
     (case source_of env es of
        None \<Rightarrow> None
      | Some (Inl e) \<Rightarrow> Some (Inl e)
      | Some (Inr s) \<Rightarrow> map_option (\<lambda>r. rbind r (\<lambda>ss. Inr (s # ss))) (run_entries env ess))"

section \<open>Generating\<close>

record generate_options =
  go_streamFiles :: bool
  go_compression :: string
  go_type :: string
  go_platform :: jsstr
  go_comment :: "jsstr option"
  go_mimeType :: string
  go_encodeFileName :: name_encoder

definition default_options :: generate_options where
  "default_options = \<lparr>go_streamFiles = False, go_compression = ''STORE'', go_type = [], go_platform = js ''DOS'',
     go_comment = None, go_mimeType = ''application/zip'', go_encodeFileName = name_encoder.Utf8Encode\<rparr>"

definition zip_platform :: "jsstr \<Rightarrow> jsstr" where
  "zip_platform p =
     (if p \<in> {js ''darwin'', js ''freebsd'', js ''linux'', js ''sunos''} then js ''UNIX''
      else if p = js ''win32'' then js ''DOS'' else p)"

text \<open>The options, which are changed in place before and after the checks of the type.\<close>

definition prepared_options :: "generate_options \<Rightarrow> generate_options" where
  "prepared_options opts =
     (let t = toLowerCase (go_type opts)
      in opts\<lparr>go_type := (if t = ''binarystring'' then ''string'' else t),
              go_compression := toUpperCase (go_compression opts), go_platform := zip_platform (go_platform opts)\<rparr>)"

text \<open>
  \<open>generateInternalStream\<close>: the type of the helper and the \<open>ZipFileWorker\<close>'s streams, with the
  comment, or the worker that only fails.
\<close>

definition zip_comment :: "generate_options \<Rightarrow> jsstr option \<Rightarrow> jsstr" where
  "zip_comment opts own_comment =
     (case go_comment opts of
        Some c \<Rightarrow> if c \<noteq> [] then c else default own_comment []
      | None \<Rightarrow> default own_comment [])"

definition generateInternalStream ::
  "platform \<Rightarrow> worker_kind \<Rightarrow> worker_kind \<Rightarrow> jsstr \<Rightarrow> files \<Rightarrow> generate_options \<Rightarrow>
     string \<times> (archive_error + entry_stream list) option" where
  "generateInternalStream env inflate deflate dir_root fs opts =
     (let opts = prepared_options opts
      in if go_type opts = [] then (''string'', Some (Inl (Stream NoOutputType)))
         else case checkSupport env (go_type opts) of
                Inl e \<Rightarrow> (go_type opts, Some (Inl (Stream (Util e))))
              | Inr u \<Rightarrow> (go_type opts, generateWorker inflate deflate (go_compression opts) dir_root fs))"

text \<open>The chunks of the \<open>ZipFileWorker\<close> go through the converter of the helper.\<close>

fun js_of_cdata :: "cdata \<Rightarrow> js_data" where
  "js_of_cdata (StrData s) = JString s"
| "js_of_cdata (ByteData b) = JUint8 b 0 (length b)"

definition out_wchunk :: "out_chunk \<Rightarrow> wchunk" where
  "out_wchunk c = \<lparr>wc_data = js_of_cdata (oc_data c), wc_percent = Some (oc_percent c)\<rparr>"

definition helper_events :: "platform \<Rightarrow> string \<Rightarrow> wchunk list \<Rightarrow> event list" where
  "helper_events env t cs =
     (let (ws, info, evs, ex) = feed env [set_paused False (newWorker (ConvertWorker t))] Map.empty [] cs
      in if ex = None then fst (snd (snd (end_flow env ws info evs))) else evs)"

definition zip_worker_run :: "generate_options \<Rightarrow> jsstr \<Rightarrow> source list \<Rightarrow> zip_worker" where
  "zip_worker_run opts comment ss =
     zw_run ((fold registerSource ss (newZipFileWorker (go_streamFiles opts) comment (go_platform opts)
       (go_encodeFileName opts)))\<lparr>entriesCount := length ss\<rparr>)"

definition generateAsync ::
  "platform \<Rightarrow> worker_kind \<Rightarrow> worker_kind \<Rightarrow> jsstr \<Rightarrow> files \<Rightarrow> jsstr option \<Rightarrow> generate_options \<Rightarrow>
     (archive_error + output_data) option" where
  "generateAsync env inflate deflate dir_root fs own_comment opts =
     (let (type, worker) = generateInternalStream env inflate deflate dir_root fs opts
      in case checkSupport env (internal_type type) of
           Inl e \<Rightarrow> Some (Inl (Stream (Util e)))
         | Inr u \<Rightarrow>
             (case worker of
                None \<Rightarrow> None
              | Some (Inl e) \<Rightarrow> Some (Inl e)
              | Some (Inr ess) \<Rightarrow>
                  (case run_entries env ess of
                     None \<Rightarrow> None
                   | Some (Inl e) \<Rightarrow> Some (Inl (Stream e))
                   | Some (Inr ss) \<Rightarrow>
                       map_option (map_sum Stream id) (helper_accumulate env type (go_mimeType opts) []
                         (helper_events env (internal_type type)
                           (map out_wchunk (zout (zip_worker_run (prepared_options opts)
                              (zip_comment opts own_comment) ss))))))))"

section \<open>Loading\<close>

record load_options =
  lo_base64 :: bool
  lo_checkCRC32 :: bool
  lo_optimizedBinaryString :: bool
  lo_createFolders :: bool
  lo_decodeFileName :: "byte list \<Rightarrow> jsstr"

text \<open>\<open>checkEntryCRC32\<close>: the sum of what the entry's stream gives, as a probe after it computes it.\<close>

definition checkEntryCRC32 ::
  "platform \<Rightarrow> worker_kind \<Rightarrow> compressed_object \<Rightarrow> (archive_error + unit) option" where
  "checkEntryCRC32 env inflate co =
     (let s = pipe_stream Crc32Probe (getContentWorker inflate co)
      in case stream_outcome (stream_events env s) of
           None \<Rightarrow> None
         | Some (Inl e) \<Rightarrow> Some (Inl (Stream e))
         | Some (Inr cs) \<Rightarrow>
             if stream_final_info env s ''crc32'' \<noteq> Some (co_crc32 co) then Some (Inl CrcMismatch)
             else Some (Inr ()))"

text \<open>
  \<open>Promise.all\<close> of the checks: when some fail, the result is the error of the one whose stream
  stops first, so the model gives all of them.
\<close>

definition check_all :: "(archive_error + unit) option list \<Rightarrow> (archive_error list + unit) option" where
  "check_all rs =
     (let errors = List.map_filter (\<lambda>r. case r of Some (Inl e) \<Rightarrow> Some e | _ \<Rightarrow> None) rs
      in if errors \<noteq> [] then Some (Inl errors) else if None \<in> set rs then None else Some (Inr ()))"

definition input_options :: "load_options \<Rightarrow> zip_entry \<Rightarrow> file_options" where
  "input_options opts input =
     no_options\<lparr>fo_binary := Some True, fo_optimizedBinaryString := Some True, fo_date := Some (entry_date input),
       fo_dir := Some (entry_dir input),
       fo_comment := (if fileCommentStr input \<noteq> [] then Some (fileCommentStr input) else None),
       fo_unixPermissions := map_option PermNumber (entry_unixPermissions input),
       fo_dosPermissions := entry_dosPermissions input, fo_createFolders := Some (lo_createFolders opts)\<rparr>"

definition input_data :: "zip_entry \<Rightarrow> file_data" where
  "input_data input = (case decompressed input of Some co \<Rightarrow> CompressedObj co | None \<Rightarrow> NoData)"

definition addFiles :: "platform \<Rightarrow> int \<Rightarrow> load_options \<Rightarrow> jsstr \<Rightarrow> zip_entry list \<Rightarrow> files \<Rightarrow> files" where
  "addFiles env now opts dir_root =
     fold (\<lambda>input. file_add env now dir_root (fileNameStr input) (input_data input) (Some (input_options opts input)))"

fun js_data_type :: "js_data \<Rightarrow> data_type" where
  "js_data_type (JString s) = TString"
| "js_data_type (JArray a) = TArray"
| "js_data_type (JUint8 b off len) = TUint8"
| "js_data_type (JArrayBuffer b) = TArrayBuffer"
| "js_data_type (JBuffer b) = TNodeBuffer"

definition loaded_content :: "platform \<Rightarrow> file_data \<Rightarrow> load_options \<Rightarrow> archive_error + js_data" where
  "loaded_content env data opts =
     (let prepared = (\<lambda>d. map_sum (\<lambda>e. Stream (Util e)) id
            (prepareContent env (js ''the loaded zip file'') d True (lo_optimizedBinaryString opts) (lo_base64 opts)))
      in case data of
           NodeStream w \<Rightarrow> if sup_nodebuffer env then Inl StreamGiven else prepared GivenOther
         | PlainData d \<Rightarrow> prepared d
         | _ \<Rightarrow> prepared GivenOther)"

text \<open>\<open>loadAsync\<close>: the table and the comment afterwards, or the errors it may be rejected with.\<close>

definition loadAsync ::
  "platform \<Rightarrow> worker_kind \<Rightarrow> int \<Rightarrow> jsstr \<Rightarrow> file_data \<Rightarrow> load_options \<Rightarrow> files \<times> jsstr option \<Rightarrow>
     (archive_error list + files \<times> jsstr option) option" where
  "loadAsync env inflate now dir_root data opts jszip =
     (case loaded_content env data opts of
        Inl e \<Rightarrow> Some (Inl [e])
      | Inr d \<Rightarrow>
          (case load (lo_decodeFileName opts) (sup_uint8array env) (js_data_type d) (elements d) of
             None \<Rightarrow> None
           | Some (Inl e) \<Rightarrow> Some (Inl [Zip e])
           | Some (Inr z) \<Rightarrow>
               map_option (\<lambda>r. rbind r (\<lambda>u. Inr (addFiles env now opts dir_root (ze_files z) (fst jszip),
                   if ze_zipComment z \<noteq> [] then Some (ze_zipComment z) else snd jszip)))
                 (if lo_checkCRC32 opts
                  then check_all (map (\<lambda>e. checkEntryCRC32 env inflate (the (decompressed e))) (ze_files z))
                  else Some (Inr ()))))"

section \<open>Chunks through probes\<close>

text \<open>Workers that neither hold anything back nor object end one after the other.\<close>

definition quiet :: "info \<Rightarrow> worker \<Rightarrow> bool" where
  "quiet info w \<longleftrightarrow> \<not> isFinished w \<and> worker_flush (wkind w) = (wkind w, None) \<and> end_listener (wkind w) info = None"

lemma end_flow_quiet:
  "list_all (quiet info) ws \<Longrightarrow> end_flow env ws info evs = (map finish ws, info, evs @ [EndEvent], None)"
proof (induction ws)
  case (Cons w ws)
  then show ?case using worker_kind_id [of w "wkind w"] by (simp add: quiet_def end_flow.simps(2) [of env w ws])
qed (simp add: end_flow.simps)

text \<open>The counters after a list of chunks, and the workers that keep them.\<close>

definition chunks_length :: "wchunk list \<Rightarrow> int" where
  "chunks_length cs = int (length (concat (map (elements \<circ> wc_data) cs)))"

lemma chunks_length_simps [simp]:
  "chunks_length [] = 0" "chunks_length (c # cs) = int (length (elements (wc_data c))) + chunks_length cs"
  by (simp_all add: chunks_length_def)

definition chunks_crc :: "int \<Rightarrow> wchunk list \<Rightarrow> int" where
  "chunks_crc c cs = foldl crc_probe_chunk c (map (crc_of_data \<circ> wc_data) cs)"

lemma chunks_crc_simps [simp]:
  "chunks_crc x [] = x" "chunks_crc x (c # cs) = chunks_crc (crc32wrapper (crc_of_data (wc_data c)) (Some x)) cs"
  by (simp_all add: chunks_crc_def crc_probe_chunk_def)

definition counting :: "string \<Rightarrow> int option \<Rightarrow> worker \<Rightarrow> bool" where
  "counting p n w \<longleftrightarrow> wkind w = DataLengthProbe p n \<and> \<not> isFinished w"

lemma feed_store:
  assumes "wkind a = Crc32Probe" "\<not> isFinished a" "counting ''uncompressedSize'' None b"
    and "wkind g = Generic" "\<not> isFinished g" "counting ''compressedSize'' None d"
    and "info ''crc32'' = Some x" "info ''uncompressedSize'' = Some n" "info ''compressedSize'' = Some m"
  shows "\<exists>info'. feed env [a, b, g, d] info evs cs = ([a, b, g, d], info', evs @ map DataEvent cs, None) \<and>
    info' ''crc32'' = Some (chunks_crc x cs) \<and> info' ''uncompressedSize'' = Some (n + chunks_length cs) \<and>
    info' ''compressedSize'' = Some (m + chunks_length cs)"
  using assms
proof (induction cs arbitrary: info evs x n m)
  case (Cons c cs)
  let ?l = "int (length (elements (wc_data c)))"
  let ?x = "crc32wrapper (crc_of_data (wc_data c)) (Some x)"
  define i1 where "i1 = info(''crc32'' \<mapsto> ?x, ''uncompressedSize'' \<mapsto> n + ?l, ''compressedSize'' \<mapsto> m + ?l)"
  have d: "deliver env [a, b, g, d] info evs c = ([a, b, g, d], i1, evs @ [DataEvent c], None)"
    using Cons.prems by (simp add: i1_def counting_def crc_processChunk_def length_processChunk_def info_or_zero_def worker_kind_id)
  have i1: "i1 ''crc32'' = Some ?x" "i1 ''uncompressedSize'' = Some (n + ?l)" "i1 ''compressedSize'' = Some (m + ?l)"
    by (simp_all add: i1_def)
  from Cons.IH [OF Cons.prems(1-6) i1, of "evs @ [DataEvent c]"] show ?case
    by (auto simp: d add.assoc simp del: deliver.simps)
qed simp

lemma feed_content:
  assumes "wkind g = Generic" "\<not> isFinished g" "counting ''data_length'' e b"
    and "wkind a = Crc32Probe" "\<not> isFinished a"
    and "info ''crc32'' = Some x" "info ''data_length'' = Some n"
  shows "\<exists>info'. feed env [g, b, a] info evs cs = ([g, b, a], info', evs @ map DataEvent cs, None) \<and>
    info' ''crc32'' = Some (chunks_crc x cs) \<and> info' ''data_length'' = Some (n + chunks_length cs)"
  using assms
proof (induction cs arbitrary: info evs x n)
  case (Cons c cs)
  let ?l = "int (length (elements (wc_data c)))"
  let ?x = "crc32wrapper (crc_of_data (wc_data c)) (Some x)"
  define i1 where "i1 = info(''data_length'' \<mapsto> n + ?l, ''crc32'' \<mapsto> ?x)"
  have d: "deliver env [g, b, a] info evs c = ([g, b, a], i1, evs @ [DataEvent c], None)"
    using Cons.prems by (simp add: i1_def counting_def crc_processChunk_def length_processChunk_def info_or_zero_def worker_kind_id)
  have i1: "i1 ''crc32'' = Some ?x" "i1 ''data_length'' = Some (n + ?l)"
    by (simp_all add: i1_def)
  from Cons.IH [OF Cons.prems(1-5) i1, of "evs @ [DataEvent c]"] show ?case
    by (auto simp: d add.assoc simp del: deliver.simps)
qed simp

section \<open>What a stored file becomes\<close>

text \<open>The bytes of a content: a text is encoded chunk by chunk.\<close>

fun content_bytes :: "bool \<Rightarrow> js_data \<Rightarrow> byte list" where
  "content_bytes binary (JString s) = (if binary then bytes_of (JString s) else encode_worker (blocks s))"
| "content_bytes binary d = bytes_of d"

definition bytes_crc :: "byte list \<Rightarrow> int" where
  "bytes_crc bs = crc32wrapper (CrcArray (map uint bs)) None"

definition chunks_bytes :: "wchunk list \<Rightarrow> byte list" where
  "chunks_bytes cs = concat (map (\<lambda>c. bytes_of (wc_data c)) cs)"

lemma chunks_bytes_simps [simp]:
  "chunks_bytes [] = []" "chunks_bytes (c # cs) = bytes_of (wc_data c) @ chunks_bytes cs"
  by (simp_all add: chunks_bytes_def)

lemma length_bytes_of: "length (bytes_of d) = length (elements d)"
  by (simp add: bytes_of_def byte_array_def)

lemma chunks_length_bytes: "chunks_length cs = int (length (chunks_bytes cs))"
  by (induction cs) (simp_all add: length_bytes_of)

lemma crc_bytes_data: "crc_bytes (Streams.crc_of_data d) = bytes_of d"
  by (cases d) (simp_all add: bytes_of_def byte_array_def)

definition solid :: "wchunk \<Rightarrow> bool" where
  "solid c \<longleftrightarrow> bytes_of (wc_data c) \<noteq> []"

lemma chunks_crc_bytes:
  assumes "list_all solid cs"
  shows "chunks_crc 0 cs = bytes_crc (chunks_bytes cs)"
proof (cases "cs = []")
  case False
  then have ne: "chunks_bytes cs \<noteq> []" using assms by (cases cs) (simp_all add: solid_def)
  let ?is = "map (\<lambda>c. Streams.crc_of_data (wc_data c)) cs"
  have "\<forall>i \<in> set ?is. crc_bytes i \<noteq> []" using assms by (auto simp: list_all_iff crc_bytes_data solid_def)
  from crc_probe_nonempty [OF this, of 0]
  have "foldl crc_probe_chunk 0 ?is = sint (crc_spec 0 (concat (map crc_bytes ?is)))" by simp
  also have "concat (map crc_bytes ?is) = chunks_bytes cs" by (simp add: chunks_bytes_def crc_bytes_data comp_def)
  also have "sint (crc_spec 0 (chunks_bytes cs)) = bytes_crc (chunks_bytes cs)"
    using ne by (simp add: bytes_crc_def crc32wrapper_spec comp_def)
  finally show ?thesis by (simp add: chunks_crc_def comp_def)
qed (simp add: bytes_crc_def crc32wrapper_spec)

lemma blocks_nonempty: "b \<in> set (blocks xs) \<Longrightarrow> b \<noteq> []"
proof (induction xs rule: blocks.induct)
  case (1 xs)
  show ?case
  proof (cases "xs = []")
    case False
    then have "b = take DEFAULT_BLOCK_SIZE xs \<or> b \<in> set (blocks (drop DEFAULT_BLOCK_SIZE xs))"
      using "1.prems" blocks.simps [of xs] by simp
    then show ?thesis using 1 False by (auto simp: DEFAULT_BLOCK_SIZE_def)
  qed (use 1 in simp)
qed

lemma content_chunks_bytes:
  assumes "valid_data d"
  shows "chunks_bytes (content_chunks d 0) = bytes_of d" "list_all solid (content_chunks d 0)"
proof -
  show "chunks_bytes (content_chunks d 0) = bytes_of d"
    using bytes_of_chunks [OF assms] by (simp add: chunks_bytes_def comp_def)
  have "elements (wc_data c) \<in> set (blocks (elements d))" if "c \<in> set (content_chunks d 0)" for c
    using chunk_elements [OF assms, of 0] that by (metis comp_apply drop_0 image_eqI list.set_map)
  then show "list_all solid (content_chunks d 0)"
    using blocks_nonempty by (auto simp: list_all_iff solid_def bytes_of_def byte_array_def)
qed

lemma utf8encode_nonempty: "s \<noteq> [] \<Longrightarrow> utf8encode s \<noteq> []"
  using length_utf8encode [of s] count_binary_size.simps [of s] by (auto simp: cp_len_def split: if_splits)

text \<open>
  A text chunk encoded, as it arrives in the archive: the kind of array that the platform's encoder
  gives makes no difference there.
\<close>

definition utf8_chunk :: "wchunk \<Rightarrow> wchunk" where
  "utf8_chunk c = (case wc_data c of
     JString s \<Rightarrow> c\<lparr>wc_data := JUint8 (encode_worker_chunk s) 0 (length (encode_worker_chunk s))\<rparr> | _ \<Rightarrow> c)"

lemma utf8_chunk_bytes: "wc_data c = JString s \<Longrightarrow> bytes_of (wc_data (utf8_chunk c)) = encode_worker_chunk s"
  by (simp add: utf8_chunk_def bytes_of_def byte_array_def subarray_of_def comp_def)

lemma cdata_utf8_array: "cdata_of (utf8_array env s) = ByteData (encode_worker_chunk s)"
  by (simp add: utf8_array_def Let_def to_array_def bytes_of_def byte_array_def subarray_of_def comp_def)

lemma encoded_utf8:
  assumes "type_of (wc_data c) = ''string''"
  shows "zip_chunk (encoded_chunk env c) = zip_chunk (utf8_chunk c)"
    "bytes_of (wc_data (encoded_chunk env c)) = bytes_of (wc_data (utf8_chunk c))"
proof -
  obtain s where s: "wc_data c = JString s" using assms by (cases "wc_data c") auto
  show "bytes_of (wc_data (encoded_chunk env c)) = bytes_of (wc_data (utf8_chunk c))"
    by (simp add: encoded_bytes [OF s] utf8_chunk_bytes [OF s])
  then show "zip_chunk (encoded_chunk env c) = zip_chunk (utf8_chunk c)"
    using s utf8_chunk_bytes [OF s] by (simp add: zip_chunk_def encoded_chunk_def utf8_chunk_def cdata_utf8_array)
qed

lemma utf8_chunks:
  assumes "map wc_data cs = map JString bs"
  shows "chunks_bytes (map utf8_chunk cs) = encode_worker bs"
    "(\<forall>b \<in> set bs. b \<noteq> []) \<Longrightarrow> list_all solid (map utf8_chunk cs)"
proof -
  have "chunks_bytes (map utf8_chunk cs) = encode_worker bs \<and>
      ((\<forall>b \<in> set bs. b \<noteq> []) \<longrightarrow> list_all solid (map utf8_chunk cs))"
    using assms
  proof (induction cs arbitrary: bs)
    case (Cons c cs)
    then obtain b bs' where b: "bs = b # bs'" "wc_data c = JString b" "map wc_data cs = map JString bs'"
      by (cases bs) auto
    then show ?case using Cons.IH [OF b(3)] utf8_chunk_bytes [OF b(2)] utf8encode_nonempty [of b]
      by (auto simp: encode_worker_def solid_def encode_worker_chunk_def)
  qed (simp add: encode_worker_def)
  then show "chunks_bytes (map utf8_chunk cs) = encode_worker bs"
    "(\<forall>b \<in> set bs. b \<noteq> []) \<Longrightarrow> list_all solid (map utf8_chunk cs)" by blast+
qed

text \<open>The source that a stored file is: its chunks, their sum and their size.\<close>

definition file_chunks :: "bool \<Rightarrow> js_data \<Rightarrow> wchunk list" where
  "file_chunks binary d = (if binary then content_chunks d 0 else map utf8_chunk (content_chunks d 0))"

definition stored_info :: "file_info \<Rightarrow> byte list \<Rightarrow> stream_info" where
  "stored_info f bs = \<lparr>si_file = f, si_compression = STORE, si_crc32 = bytes_crc bs,
     si_compressedSize = int (length bs), si_uncompressedSize = int (length bs)\<rparr>"

definition stored_source :: "file_info \<Rightarrow> bool \<Rightarrow> js_data \<Rightarrow> source" where
  "stored_source f binary d =
     \<lparr>src_opened = stored_info f [], src_chunks = map zip_chunk (file_chunks binary d),
      src_closed = stored_info f (chunks_bytes (file_chunks binary d))\<rparr>"

definition storable_data :: "bool \<Rightarrow> js_data \<Rightarrow> bool" where
  "storable_data binary d \<longleftrightarrow> valid_data d \<and> (binary \<or> type_of d = ''string'')"

lemma file_chunks_bytes:
  assumes "storable_data binary d"
  shows "chunks_bytes (file_chunks binary d) = content_bytes binary d" "list_all solid (file_chunks binary d)"
proof -
  have v: "valid_data d" using assms by (simp add: storable_data_def)
  have "chunks_bytes (file_chunks binary d) = content_bytes binary d \<and> list_all solid (file_chunks binary d)"
  proof (cases binary)
    case True
    then show ?thesis using content_chunks_bytes [OF v] by (cases d) (simp_all add: file_chunks_def)
  next
    case False
    then obtain t where d: "d = JString t" using assms by (cases d) (auto simp: storable_data_def)
    have t: "map wc_data (content_chunks d 0) = map JString (blocks t)" using chunk_texts [of t 0] d by simp
    show ?thesis using utf8_chunks [OF t] blocks_nonempty [of _ t] False d by (simp add: file_chunks_def)
  qed
  then show "chunks_bytes (file_chunks binary d) = content_bytes binary d" "list_all solid (file_chunks binary d)"
    by blast+
qed

lemma bytes_crc_Nil: "bytes_crc [] = 0"
  by (simp add: bytes_crc_def crc32wrapper_spec)

lemma stream_outcome_chunks: "stream_outcome (map DataEvent cs @ [EndEvent]) = Some (Inr cs)"
  by (induction cs) simp_all

definition probes :: "worker list" where
  "probes = map newWorker [Crc32Probe, DataLengthProbe ''uncompressedSize'' None, Generic, DataLengthProbe ''compressedSize'' None]"

definition zero_info :: info where
  "zero_info = [''crc32'' \<mapsto> 0, ''uncompressedSize'' \<mapsto> 0, ''compressedSize'' \<mapsto> 0]"

definition stored_stream :: "bool \<Rightarrow> util_error + js_data \<Rightarrow> stream" where
  "stored_stream binary p = (newDataWorker\<lparr>stream_info := zero_info,
     workers := newWorker DataSource # (if binary then probes else newWorker Utf8Encode # probes)\<rparr>, p)"

lemma zo_compressWorker_stored:
  "zo_data z = DataContent p \<Longrightarrow>
     zo_compressWorker inflate deflate z STORE = Some (stored_stream (zo_dataBinary z) p, STORE)"
  by (simp add: zo_compressWorker_def decompressWorker_def createWorkerFrom_def pipe_stream_def pipe_new_def pipe_def
      newDataWorker_def newWorker_def compressWorker_def stored_stream_def probes_def zero_info_def)

lemma quiet_unpaused:
  "quiet info (set_paused False (newWorker k)) \<longleftrightarrow> worker_flush k = (k, None) \<and> end_listener k info = None"
  by (simp add: quiet_def newWorker_def)

text \<open>What the stream of the file sends on a platform.\<close>

definition sent_chunks :: "platform \<Rightarrow> bool \<Rightarrow> js_data \<Rightarrow> wchunk list" where
  "sent_chunks env binary d = (if binary then content_chunks d 0 else map (encoded_chunk env) (content_chunks d 0))"

lemma sent_same:
  assumes "storable_data binary d"
  shows "map zip_chunk (sent_chunks env binary d) = map zip_chunk (file_chunks binary d)"
    "chunks_bytes (sent_chunks env binary d) = chunks_bytes (file_chunks binary d)"
    "list_all solid (sent_chunks env binary d)"
proof -
  have k: "binary \<or> type_of (wc_data c) = ''string''" if "c \<in> set (content_chunks d 0)" for c
    using assms chunk_type [OF that] by (auto simp: storable_data_def)
  show "map zip_chunk (sent_chunks env binary d) = map zip_chunk (file_chunks binary d)"
    using k encoded_utf8(1) by (auto simp: sent_chunks_def file_chunks_def)
  show "chunks_bytes (sent_chunks env binary d) = chunks_bytes (file_chunks binary d)"
    unfolding chunks_bytes_def using k encoded_utf8(2)
    by (auto simp: sent_chunks_def file_chunks_def comp_def intro!: arg_cong [where f = concat])
  show "list_all solid (sent_chunks env binary d)"
    using file_chunks_bytes(2) [OF assms] k encoded_utf8(2)
    by (auto simp: sent_chunks_def file_chunks_def list_all_iff solid_def)
qed

lemma full_run_stored:
  assumes "storable_data binary d"
  shows "\<exists>ws info. full_run env (fst (stored_stream binary p)) d =
      (ws, info, map DataEvent (sent_chunks env binary d) @ [EndEvent], None) \<and>
    info ''crc32'' = Some (chunks_crc 0 (sent_chunks env binary d)) \<and>
    info ''uncompressedSize'' = Some (chunks_length (sent_chunks env binary d)) \<and>
    info ''compressedSize'' = Some (chunks_length (sent_chunks env binary d))"
proof -
  let ?cs = "sent_chunks env binary d"
  let ?ps = "map (set_paused False) probes"
  have "\<exists>info. feed env ?ps zero_info [] ?cs = (?ps, info, map DataEvent ?cs, None) \<and>
      info ''crc32'' = Some (chunks_crc 0 ?cs) \<and> info ''uncompressedSize'' = Some (chunks_length ?cs) \<and>
      info ''compressedSize'' = Some (chunks_length ?cs)"
    using feed_store [of "set_paused False (newWorker Crc32Probe)"
        "set_paused False (newWorker (DataLengthProbe ''uncompressedSize'' None))" "set_paused False (newWorker Generic)"
        "set_paused False (newWorker (DataLengthProbe ''compressedSize'' None))" zero_info 0 0 0 env "[]" ?cs]
    by (simp add: probes_def counting_def zero_info_def newWorker_def)
  then obtain info where f: "feed env ?ps zero_info [] ?cs = (?ps, info, map DataEvent ?cs, None)"
    and i: "info ''crc32'' = Some (chunks_crc 0 ?cs)" "info ''uncompressedSize'' = Some (chunks_length ?cs)"
      "info ''compressedSize'' = Some (chunks_length ?cs)" by blast
  have q: "list_all (quiet info) ?ps" by (simp add: probes_def quiet_unpaused)
  have h: "quiet info (set_paused False (newWorker DataSource))" "quiet info (set_paused False (newWorker Utf8Encode))"
    by (simp_all add: quiet_unpaused)
  show ?thesis
  proof (cases binary)
    case True
    then show ?thesis using f i end_flow_quiet [of info "set_paused False (newWorker DataSource) # ?ps"] q h
      by (simp add: full_run_def stored_stream_def sent_chunks_def newDataWorker_def)
  next
    case False
    then have "type_of d = ''string''" using assms by (simp add: storable_data_def)
    then have "list_all (\<lambda>c. type_of (wc_data c) = ''string'') (content_chunks d 0)"
      using chunk_type by (auto simp: list_all_iff)
    from feed_encode [OF this, of "set_paused False (newWorker Utf8Encode)"] f False
    have "feed env (set_paused False (newWorker Utf8Encode) # ?ps) zero_info [] (content_chunks d 0) =
        (set_paused False (newWorker Utf8Encode) # ?ps, info, map DataEvent ?cs, None)"
      by (simp add: sent_chunks_def newWorker_def)
    then show ?thesis using False i q h end_flow_quiet [of info
        "set_paused False (newWorker DataSource) # set_paused False (newWorker Utf8Encode) # ?ps"]
      by (simp add: full_run_def stored_stream_def newDataWorker_def)
  qed
qed

lemma source_of_stored:
  assumes "storable_data binary d"
  shows "source_of env (f, stored_stream binary (Inr d), STORE) = Some (Inr (stored_source f binary d))"
proof -
  obtain ws info where r: "full_run env (fst (stored_stream binary (Inr d))) d =
      (ws, info, map DataEvent (sent_chunks env binary d) @ [EndEvent], None)"
    and i: "info ''crc32'' = Some (chunks_crc 0 (sent_chunks env binary d))"
      "info ''uncompressedSize'' = Some (chunks_length (sent_chunks env binary d))"
      "info ''compressedSize'' = Some (chunks_length (sent_chunks env binary d))"
    using full_run_stored [OF assms] by blast
  have s: "snd (stored_stream binary (Inr d)) = Inr d" "stream_info (fst (stored_stream binary (Inr d))) = zero_info"
    by (simp_all add: stored_stream_def)
  have "zip_info f STORE zero_info = stored_info f []"
    by (simp add: zip_info_def zero_info_def info_or_zero_def stored_info_def bytes_crc_Nil)
  moreover have "zip_info f STORE info = stored_info f (chunks_bytes (file_chunks binary d))"
    using i chunks_crc_bytes [OF sent_same(3) [OF assms]] sent_same(2) [OF assms]
    by (simp add: zip_info_def info_or_zero_def stored_info_def chunks_length_bytes)
  ultimately show ?thesis
    by (simp add: source_of_def stream_events_def stream_final_info_def r s stream_outcome_chunks stored_source_def
        sent_same(1) [OF assms])
qed

section \<open>What generateAsync returns\<close>

definition content_of :: "zip_object \<Rightarrow> js_data" where
  "content_of z = (case zo_data z of DataContent (Inr d) \<Rightarrow> d | _ \<Rightarrow> JString [])"

definition storable :: "zip_object \<Rightarrow> bool" where
  "storable z \<longleftrightarrow> zo_data z = DataContent (Inr (content_of z)) \<and> storable_data (zo_dataBinary z) (content_of z) \<and>
     zo_compression z \<in> {None, Some [], Some ''STORE''}"

definition object_source :: "jsstr \<times> zip_object \<Rightarrow> source" where
  "object_source p = stored_source (entry_file p) (zo_dataBinary (snd p)) (content_of (snd p))"

definition object_stream :: "jsstr \<times> zip_object \<Rightarrow> entry_stream" where
  "object_stream p = (entry_file p, stored_stream (zo_dataBinary (snd p)) (Inr (content_of (snd p))), STORE)"

lemma entry_streams_stored:
  "list_all (\<lambda>p. storable (snd p)) ps \<Longrightarrow> entry_streams inflate deflate ''STORE'' ps = Some (Inr (map object_stream ps))"
proof (induction ps)
  case (Cons p ps)
  then have "getCompression (zo_compression (snd p)) ''STORE'' = Inr STORE"
    by (auto simp: storable_def getCompression_def compressions_def)
  then show ?case using Cons zo_compressWorker_stored [of "snd p" "Inr (content_of (snd p))"]
    by (simp add: storable_def object_stream_def)
qed simp

lemma run_entries_stored:
  "list_all (\<lambda>p. storable (snd p)) ps \<Longrightarrow> run_entries env (map object_stream ps) = Some (Inr (map object_source ps))"
  by (induction ps) (simp_all add: object_stream_def source_of_stored storable_def object_source_def)

lemma bytes_of_cdata: "bytes_of (js_of_cdata x) = cdata_bytes x"
  by (cases x) (simp_all add: bytes_of_def byte_array_def subarray_of_def str_bytes_ucast comp_def)

lemma helper_events_convert:
  assumes "t \<in> set chunk_types" "support_of env t" and "\<forall>c \<in> set cs. support_of env (type_of (wc_data c))"
  shows "\<exists>ds. helper_events env t cs = map DataEvent ds @ [EndEvent] \<and> chunks_bytes ds = chunks_bytes cs"
proof -
  let ?w = "set_paused False (newWorker (ConvertWorker t))"
  let ?ds = "map (\<lambda>c. c\<lparr>wc_data := conv env t (wc_data c)\<rparr>) cs"
  have k: "\<exists>d'. transformTo env t (Some (wc_data c)) = Inr d' \<and> converted t (wc_data c) d'" if "c \<in> set cs" for c
    using convert_chunk [OF assms(1,2)] assms(3) that by blast
  then have "list_all (\<lambda>c. \<exists>d'. transformTo env t (Some (wc_data c)) = Inr d') cs"
    unfolding list_all_iff by blast
  from feed_convert [OF this, of ?w Map.empty "[]"]
  have f: "feed env [?w] Map.empty [] cs = ([?w], Map.empty, map DataEvent ?ds, None)"
    by (simp add: newWorker_def comp_def)
  have "chunks_bytes ?ds = chunks_bytes cs"
  proof -
    have "bytes_of (conv env t (wc_data c)) = bytes_of (wc_data c)" if "c \<in> set cs" for c
      using k [OF that] by (auto simp: conv_def converted_def)
    then show ?thesis by (simp add: chunks_bytes_def comp_def cong: map_cong)
  qed
  moreover have "end_flow env [?w] Map.empty (map DataEvent ?ds) = ([finish ?w], Map.empty, map DataEvent ?ds @ [EndEvent], None)"
    using end_flow_quiet [of Map.empty "[?w]"] by (simp add: quiet_unpaused)
  ultimately show ?thesis using f by (intro exI [of _ ?ds]) (simp add: helper_events_def)
qed

lemma accumulated:
  assumes t: "t \<in> set chunk_types" "support_of env t"
  shows "\<exists>d. helper_accumulate env t m [] (map DataEvent ds @ [EndEvent]) = Some (Inr (OutData d)) \<and>
    type_of d = t \<and> bytes_of d = chunks_bytes ds"
proof -
  obtain d1 where d1: "concat_data t (map wc_data ds) = Inr d1" "type_of d1 = t" "whole_view d1"
    "bytes_of d1 = chunks_bytes ds"
    using concat_data_bytes [OF t(1), of "map wc_data ds"] by (auto simp: comp_def chunks_bytes_def)
  have "gives t (bytes_of d1) (transformTo env t (Some d1))"
    by (rule transformTo_gives [OF chunk_types_matrix [OF t(1)] t(2)]) (use d1 t(2) in simp_all)
  then obtain d2 where d2: "transformTo env t (Some d1) = Inr d2" "type_of d2 = t" "bytes_of d2 = bytes_of d1"
    using gives_converted [of t d1 "transformTo env t (Some d1)"] by (auto simp: converted_def)
  have "transformZipOutput env t d1 m = Inr (OutData d2)"
    using in_chunk_types [OF t(1)] d2(1) by (elim disjE) (simp_all add: transformZipOutput_def)
  then show ?thesis using d1 d2 internal_chunk [OF t(1)] by (simp add: accumulate_events)
qed

text \<open>The bytes of a run of the \<open>ZipFileWorker\<close> with its count of entries.\<close>

definition archive_config :: "generate_options \<Rightarrow> zip_config" where
  "archive_config opts = \<lparr>zc_stream = go_streamFiles opts, zc_platform = zip_platform (go_platform opts),
     zc_encoder = go_encodeFileName opts\<rparr>"

lemma zip_worker_run_layout:
  assumes "list_all source_ok ss"
  shows "zip_output (zip_worker_run (prepared_options opts) comment ss) = zip_layout (archive_config opts) comment ss"
proof -
  let ?o = "prepared_options opts"
  let ?w = "(newZipFileWorker (go_streamFiles ?o) comment (go_platform ?o) (go_encodeFileName ?o))
    \<lparr>zsources := ss, entriesCount := length ss\<rparr>"
  have w: "between_sources ?w" "bytesWritten ?w = 0" "dirRecords ?w = []" "zip_output ?w = []"
    "zsources ?w = ss" "zipComment ?w = comment" "config ?w = archive_config opts"
    by (simp_all add: newZipFileWorker_def between_sources_def written_ok_def zip_output_def config_def
        prepared_options_def archive_config_def Let_def)
  have "(fold registerSource ss (newZipFileWorker (go_streamFiles ?o) comment (go_platform ?o)
      (go_encodeFileName ?o)))\<lparr>entriesCount := length ss\<rparr> = ?w"
    by (simp add: fold_registerSource newZipFileWorker_def)
  then show ?thesis
    using run_sources_effect [OF w(1) assms] w
    by (simp add: zip_worker_run_def zw_run_def zip_layout_def Let_def length_dir_records del: length_concat)
qed

lemma out_bytes: "chunks_bytes (map out_wchunk (zout w)) = zip_output w"
  by (simp add: chunks_bytes_def zip_output_def out_wchunk_def bytes_of_cdata comp_def)

lemma stored_sources_ok: "list_all source_ok (map object_source ps)"
  by (auto simp: list_all_iff source_ok_def object_source_def stored_source_def stored_info_def)

lemma generated_archive:
  assumes ps: "forEach dir_root fs = Inr ps" "list_all (\<lambda>p. storable (snd p)) ps"
    and o: "toUpperCase (go_compression opts) = ''STORE''" "go_type opts \<in> set chunk_types"
    and s: "support_of env (go_type opts)" "sup_uint8array env"
  shows "\<exists>d. generateAsync env inflate deflate dir_root fs own_comment opts = Some (Inr (OutData d)) \<and>
    type_of d = go_type opts \<and>
    bytes_of d = zip_layout (archive_config opts) (zip_comment opts own_comment) (map object_source ps)"
proof -
  let ?t = "go_type opts"
  have t: "go_type (prepared_options opts) = ?t" "?t \<noteq> []"
    using lower_chunk [OF o(2)] in_chunk_types [OF o(2)] by (auto simp: prepared_options_def Let_def)
  have c: "go_compression (prepared_options opts) = ''STORE''" using o(1) by (simp add: prepared_options_def Let_def)
  have i: "generateInternalStream env inflate deflate dir_root fs opts = (?t, Some (Inr (map object_stream ps)))"
    using t c support_lower [OF o(2) s(1)] ps entry_streams_stored
    by (simp add: generateInternalStream_def Let_def generateWorker_def)
  define w where "w = zip_worker_run (prepared_options opts) (zip_comment opts own_comment) (map object_source ps)"
  have "support_of env (type_of (js_of_cdata x))" for x using s(2) by (cases x) (simp_all add: support_of_def)
  then have "\<forall>ch \<in> set (map out_wchunk (zout w)). support_of env (type_of (wc_data ch))"
    by (auto simp: out_wchunk_def)
  from helper_events_convert [OF o(2) s(1) this] obtain ds where
    e: "helper_events env ?t (map out_wchunk (zout w)) = map DataEvent ds @ [EndEvent]"
      "chunks_bytes ds = zip_output w" unfolding out_bytes by blast
  obtain d where d: "helper_accumulate env ?t (go_mimeType opts) [] (map DataEvent ds @ [EndEvent]) = Some (Inr (OutData d))"
    "type_of d = ?t" "bytes_of d = chunks_bytes ds" using accumulated [OF o(2) s(1)] by blast
  have "generateAsync env inflate deflate dir_root fs own_comment opts = Some (Inr (OutData d))"
    using support_lower [OF o(2) s(1)] internal_chunk [OF o(2)] d(1) run_entries_stored [OF ps(2), of env]
    by (simp add: generateAsync_def i e(1) w_def [symmetric])
  then show ?thesis using d e(2) zip_worker_run_layout [OF stored_sources_ok] by (simp add: w_def)
qed

section \<open>The check of the sums\<close>

definition checkers :: "int \<Rightarrow> worker list" where
  "checkers n = map newWorker [Generic, DataLengthProbe ''data_length'' (Some n), Crc32Probe]"

definition check_info :: info where
  "check_info = [''data_length'' \<mapsto> 0, ''crc32'' \<mapsto> 0]"

lemma check_stream:
  "co_compression co = STORE \<Longrightarrow> pipe_stream Crc32Probe (getContentWorker inflate co) =
     (newDataWorker\<lparr>stream_info := check_info, workers := newWorker DataSource # checkers (co_uncompressedSize co)\<rparr>,
      Inr (to_uint8 (co_content co)))"
  by (simp add: getContentWorker_def pipe_stream_def pipe_new_def pipe_def newDataWorker_def newWorker_def
      uncompressWorker_def checkers_def check_info_def)

lemma end_mismatch:
  assumes "info ''data_length'' \<noteq> Some n"
  shows "\<exists>ws. end_flow env (map (set_paused False) (newWorker DataSource # checkers n)) info evs =
    (ws, info, evs @ [ErrorEvent SizeMismatch], None)"
  using assms by (simp add: checkers_def newWorker_def set_paused_def end_flow.simps active_def)

lemma stream_outcome_error: "stream_outcome (map DataEvent cs @ [ErrorEvent e]) = Some (Inl e)"
  by (induction cs) simp_all

lemma check_stored:
  fixes co :: compressed_object
  assumes "co_compression co = STORE"
  defines "bs \<equiv> byte_array (co_content co)"
  shows "checkEntryCRC32 env inflate co =
    Some (if co_uncompressedSize co \<noteq> int (length bs) then Inl (Stream SizeMismatch)
          else if co_crc32 co \<noteq> bytes_crc bs then Inl CrcMismatch else Inr ())"
proof -
  let ?n = "co_uncompressedSize co"
  let ?d = "to_uint8 (co_content co)"
  let ?cs = "content_chunks ?d 0"
  let ?ws = "map (set_paused False) (checkers ?n)"
  let ?c = "newDataWorker\<lparr>stream_info := check_info, workers := newWorker DataSource # checkers ?n\<rparr>"
  have v: "valid_data ?d" by (simp add: to_uint8_def byte_array_def)
  have b: "bytes_of ?d = bs" by (simp add: to_uint8_def bytes_of_def byte_array_def subarray_of_def bs_def)
  have "\<exists>info. feed env ?ws check_info [] ?cs = (?ws, info, map DataEvent ?cs, None) \<and>
      info ''crc32'' = Some (chunks_crc 0 ?cs) \<and> info ''data_length'' = Some (chunks_length ?cs)"
    using feed_content [of "set_paused False (newWorker Generic)"
        "Some ?n" "set_paused False (newWorker (DataLengthProbe ''data_length'' (Some ?n)))"
        "set_paused False (newWorker Crc32Probe)" check_info 0 0 env "[]" ?cs]
    by (simp add: checkers_def counting_def check_info_def newWorker_def)
  moreover have "chunks_crc 0 ?cs = bytes_crc bs" "chunks_length ?cs = int (length bs)"
    using content_chunks_bytes [OF v] by (simp_all add: chunks_crc_bytes chunks_length_bytes b)
  ultimately obtain info where f: "feed env ?ws check_info [] ?cs = (?ws, info, map DataEvent ?cs, None)"
    and i: "info ''crc32'' = Some (bytes_crc bs)" "info ''data_length'' = Some (int (length bs))" by auto
  have r: "full_run env ?c ?d = end_flow env (map (set_paused False) (newWorker DataSource # checkers ?n)) info (map DataEvent ?cs)"
    using f by (simp add: full_run_def newDataWorker_def)
  show ?thesis
  proof (cases "?n = int (length bs)")
    case True
    then have "list_all (quiet info) (map (set_paused False) (newWorker DataSource # checkers ?n))"
      using i(2) by (simp add: checkers_def quiet_unpaused)
    from end_flow_quiet [OF this] have "\<exists>ws. full_run env ?c ?d = (ws, info, map DataEvent ?cs @ [EndEvent], None)"
      unfolding r by blast
    then have "checkEntryCRC32 env inflate co =
        Some (if co_crc32 co \<noteq> bytes_crc bs then Inl CrcMismatch else Inr ())"
      using i(1) by (auto simp: checkEntryCRC32_def check_stream [OF assms(1)] stream_events_def stream_final_info_def
          stream_outcome_chunks)
    then show ?thesis using True by simp
  next
    case False
    then have "info ''data_length'' \<noteq> Some ?n" using i(2) by simp
    with end_mismatch [of info ?n env "map DataEvent ?cs"] have "\<exists>ws. full_run env ?c ?d = (ws, info, map DataEvent ?cs @ [ErrorEvent SizeMismatch], None)"
      unfolding r by blast
    then have "checkEntryCRC32 env inflate co = Some (Inl (Stream SizeMismatch))"
      by (auto simp: checkEntryCRC32_def check_stream [OF assms(1)] stream_events_def stream_outcome_error)
    then show ?thesis using False by simp
  qed
qed

section \<open>What loadAsync makes of it\<close>

text \<open>Adding depends on what \<open>view\<close> keeps of an entry.\<close>

definition view_options :: "load_options \<Rightarrow> entry_view \<Rightarrow> file_options" where
  "view_options opts v = no_options\<lparr>fo_binary := Some True, fo_optimizedBinaryString := Some True, fo_date := Some (ev_date v),
       fo_dir := Some (ev_dir v), fo_comment := (if ev_comment v \<noteq> [] then Some (ev_comment v) else None),
       fo_unixPermissions := map_option PermNumber (ev_unix v), fo_dosPermissions := ev_dos v,
       fo_createFolders := Some (lo_createFolders opts)\<rparr>"

definition view_data :: "entry_view \<Rightarrow> file_data" where
  "view_data v = (case ev_data v of Some co \<Rightarrow> CompressedObj co | None \<Rightarrow> NoData)"

definition add_view :: "platform \<Rightarrow> int \<Rightarrow> load_options \<Rightarrow> jsstr \<Rightarrow> entry_view \<Rightarrow> files \<Rightarrow> files" where
  "add_view env now opts dir_root v = file_add env now dir_root (ev_name v) (view_data v) (Some (view_options opts v))"

lemma view_of_input: "view_options opts (view e) = input_options opts e" "view_data (view e) = input_data e"
  by (cases "fileCommentStr e = []"; simp add: view_options_def input_options_def view_def)
    (simp add: view_data_def input_data_def view_def)

lemma addFiles_views: "addFiles env now opts dir_root es = fold (add_view env now opts dir_root) (map view es)"
proof -
  have "add_view env now opts dir_root (view e) =
      file_add env now dir_root (fileNameStr e) (input_data e) (Some (input_options opts e))" for e
    by (simp add: add_view_def view_of_input) (simp add: view_def)
  then show ?thesis by (simp add: addFiles_def fold_map comp_def)
qed

lemma load_views:
  assumes "archive_ok c dec comment ss"
  shows "\<exists>z. load dec u8 type (map uint (zip_layout c comment ss)) = Some (Inr z) \<and>
    ze_zipComment z = comment \<and> map view (ze_files z) = map (source_view c) ss"
proof -
  have "map view (map (loaded_entry c) oss) = map (source_view c) (map snd oss)" for oss
    by (induction oss) (auto simp: view_loaded)
  from this [of "with_offsets c 0 ss"] have "map view (map (loaded_entry c) (with_offsets c 0 ss)) = map (source_view c) ss"
    by (simp only: with_offsets_sources)
  then show ?thesis using load_archive [OF assms, of "[]" u8 type] by (auto simp: bytes_ok_def simp del: map_map)
qed

text \<open>An object as the archive keeps it: permissions of the other platform and half seconds are lost.\<close>

definition stored_ok :: "jsstr \<times> zip_object \<Rightarrow> bool" where
  "stored_ok p \<longleftrightarrow> storable (snd p) \<and> fst p \<noteq> PROTO \<and> zo_dir (snd p) = ends_with_slash (fst p) \<and>
     (zo_dir (snd p) \<longrightarrow> content_bytes (zo_dataBinary (snd p)) (content_of (snd p)) = []) \<and>
     (\<not> zo_dir (snd p) \<longrightarrow> js_and (default (zo_unixPermissions (snd p)) 0) 0x4000 = 0 \<and>
        js_and (default (zo_dosPermissions (snd p)) 0) 0x10 = 0)"

definition object_bytes :: "zip_object \<Rightarrow> byte list" where
  "object_bytes z = (case zo_data z of
      CompressedContent co \<Rightarrow> byte_array (co_content co)
    | _ \<Rightarrow> content_bytes (zo_dataBinary z) (content_of z))"

definition loaded_object :: "platform \<Rightarrow> int \<Rightarrow> load_options \<Rightarrow> entry_view \<Rightarrow> zip_object" where
  "loaded_object env now opts v = file_object env (ev_name v) (view_data v) (Some (view_options opts v))
     (resolve_options now (Some (view_options opts v)))"

lemma add_view_new:
  assumes "\<not> lo_createFolders opts" and "op_dir (resolve_options now (Some (view_options opts v))) \<longrightarrow> ends_with_slash (ev_name v)"
  shows "add_view env now opts [] v fs = files_set (ev_name v) (loaded_object env now opts v) fs"
proof -
  let ?o = "resolve_options now (Some (view_options opts v))"
  have "\<not> op_createFolders ?o" using assms(1)
    by (simp add: resolve_options_def view_options_def no_options_def default_def Let_def)
  moreover have "(if op_dir ?o then forceTrailingSlash (ev_name v) else ev_name v) = ev_name v"
    using assms(2) by (simp add: forceTrailingSlash_def)
  ultimately show ?thesis unfolding add_view_def file_add_def
    by (subst fileAdd.simps) (simp only: loaded_object_def Let_def append_Nil if_False simp_thms)
qed

lemma update_new: "k \<notin> fst ` set ps \<Longrightarrow> AList.update k z ps = ps @ [(k, z)]"
  by (induction ps) auto

lemma add_views:
  assumes "\<not> lo_createFolders opts"
    and "\<forall>v \<in> set vs. (op_dir (resolve_options now (Some (view_options opts v))) \<longrightarrow> ends_with_slash (ev_name v)) \<and> ev_name v \<noteq> PROTO"
    and "distinct (map fst (own fs) @ map ev_name vs)"
  shows "fold (add_view env now opts []) vs fs =
    fs\<lparr>own := own fs @ map (\<lambda>v. (ev_name v, loaded_object env now opts v)) vs\<rparr>"
  using assms(2,3)
proof (induction vs arbitrary: fs)
  case (Cons v vs)
  have "ev_name v \<notin> fst ` set (own fs)" using Cons.prems(2) by auto
  then have "AList.update (ev_name v) z (own fs) = own fs @ [(ev_name v, z)]" for z by (rule update_new)
  then have a: "add_view env now opts [] v fs = fs\<lparr>own := own fs @ [(ev_name v, loaded_object env now opts v)]\<rparr>"
    using add_view_new [OF assms(1)] Cons.prems(1) by (simp add: files_set_def)
  show ?case using Cons.IH [of "fs\<lparr>own := own fs @ [(ev_name v, loaded_object env now opts v)]\<rparr>"] Cons.prems
    by (simp add: a)
qed simp

lemma js_and_bit: "k < 31 \<Longrightarrow> js_and x (2 ^ k) \<noteq> 0 \<longleftrightarrow> bit x k"
proof -
  assume k: "k < 31"
  then have "(2 :: int) ^ k \<le> 2 ^ 30" by (intro power_increasing) auto
  moreover have "(0 :: int) < 2 ^ k" "(2 :: int) ^ 30 = 1073741824" by simp_all
  ultimately have "ToInt32 (2 ^ k) = 2 ^ k" by (intro ToInt32_id) linarith+
  then have "js_and x (2 ^ k) = ToInt32 x AND 2 ^ k" by (simp only: js_and_def)
  then show ?thesis using k
    by (simp only: and_exp_eq_0_iff_not_bit) (simp add: ToInt32_signed_take_bit bit_simps)
qed

lemma js_and_flags: "js_and x 0x4000 \<noteq> 0 \<longleftrightarrow> bit x 14" "js_and x 0x10 \<noteq> 0 \<longleftrightarrow> bit x 4"
  using js_and_bit [of 14 x] js_and_bit [of 4 x] by simp_all

lemma bit_js_and_low: "n < k \<Longrightarrow> k \<le> 31 \<Longrightarrow> bit (js_and x (2 ^ k - 1)) n \<longleftrightarrow> bit x n"
  by (simp add: js_and_mask take_bit_eq_mod [symmetric] bit_simps)

lemma stored_view:
  fixes c :: zip_config
  assumes "stored_ok p"
  defines "v \<equiv> source_view c (object_source p)" and "bs \<equiv> content_bytes (zo_dataBinary (snd p)) (content_of (snd p))"
  shows "ev_name v = fst p" "ev_comment v = default (zo_comment (snd p)) []"
    "ev_date v = zo_date (snd p) - zo_date (snd p) mod 2000"
    "ev_data v = Some \<lparr>co_compressedSize = int (length bs), co_uncompressedSize = int (length bs),
       co_crc32 = bytes_crc bs, co_compression = STORE, co_content = map uint bs\<rparr>"
    "op_dir (resolve_options now (Some (view_options opts v))) = zo_dir (snd p)"
proof -
  have s: "storable_data (zo_dataBinary (snd p)) (content_of (snd p))" using assms(1) by (simp add: stored_ok_def storable_def)
  let ?f = "entry_file p"
  have i: "src_closed (object_source p) = stored_info ?f bs"
    using file_chunks_bytes(1) [OF s] by (simp add: object_source_def stored_source_def bs_def)
  have "cdata_bytes (cdata_of d) = bytes_of d" for d
    by (cases d) (simp_all add: bytes_of_def byte_array_def str_bytes_ucast comp_def)
  then have "source_content (object_source p) = chunks_bytes (file_chunks (zo_dataBinary (snd p)) (content_of (snd p)))"
    by (simp add: source_content_def object_source_def stored_source_def zip_chunk_def chunks_bytes_def comp_def)
  then have b: "source_content (object_source p) = bs" using file_chunks_bytes(1) [OF s] by (simp add: bs_def)
  show "ev_name v = fst p" "ev_comment v = default (zo_comment (snd p)) []"
    "ev_date v = zo_date (snd p) - zo_date (snd p) mod 2000"
    "ev_data v = Some \<lparr>co_compressedSize = int (length bs), co_uncompressedSize = int (length bs),
       co_crc32 = bytes_crc bs, co_compression = STORE, co_content = map uint bs\<rparr>"
    by (simp_all add: v_def source_view_def Let_def i b stored_info_def entry_file_def)
  have d: "zo_dir (snd p) \<longleftrightarrow> fst p \<noteq> [] \<and> last (fst p) = 0x2F"
    using assms(1) by (simp add: stored_ok_def ends_with_slash_def SLASH_def)
  show "op_dir (resolve_options now (Some (view_options opts v))) = zo_dir (snd p)"
  proof (cases "zo_dir (snd p)")
    case True
    then have "ev_dir v" using d by (simp add: v_def source_view_def Let_def i stored_info_def entry_file_def)
    then show ?thesis using True by (simp add: resolve_options_def view_options_def default_def Let_def)
  next
    case False
    then have n: "\<not> bit (default (zo_unixPermissions (snd p)) 0) 14" "\<not> bit (default (zo_dosPermissions (snd p)) 0) 4"
      using assms(1) js_and_flags by (auto simp: stored_ok_def)
    have u: "\<not> bit (js_and (unix_mode ?f) 65535) 14"
    proof -
      have "\<not> bit (unix_mode ?f) 14" using n(1) False
        by (auto simp: unix_mode_def entry_file_def default_def bit_numeral_rec split: option.split)
      then show ?thesis using bit_js_and_low [of 14 16 "unix_mode ?f"] by simp
    qed
    have w: "\<not> bit (dos_mode ?f) 4"
    proof -
      have "\<not> bit (js_and (default (zo_dosPermissions (snd p)) 0) 63) 4"
        using n(2) bit_js_and_low [of 4 6 "default (zo_dosPermissions (snd p)) 0"] by simp
      then show ?thesis using False
        by (auto simp: dos_mode_def entry_file_def default_def bit_js_or split: option.splits)
    qed
    have e: "\<not> ev_dir v" using False d w js_and_flags(2) by (auto simp: v_def source_view_def Let_def i stored_info_def entry_file_def)
    moreover have "ev_unix v = Some m \<Longrightarrow> js_and m 0x4000 = 0" for m
      using u js_and_flags(1) by (auto simp: v_def source_view_def Let_def i stored_info_def split: if_splits)
    moreover have "ev_dos v = Some m \<Longrightarrow> js_and m 0x10 = 0" for m
      using w js_and_flags(2) by (auto simp: v_def source_view_def Let_def i stored_info_def split: if_splits)
    ultimately show ?thesis using False
      by (auto simp: resolve_options_def view_options_def default_def Let_def no_options_def file_permissions_def
          split: option.split)
  qed
qed

text \<open>The loaded object, and the entries of the table before and after.\<close>

lemma loaded_fields:
  "zo_dir (loaded_object env now opts v) = op_dir (resolve_options now (Some (view_options opts v)))"
  "zo_date (loaded_object env now opts v) = ev_date v"
  "default (zo_comment (loaded_object env now opts v)) [] = ev_comment v"
  by (simp_all add: loaded_object_def file_object_def newZipObject_def correct_options_def resolve_options_def
      view_options_def default_def Let_def)

lemma loaded_bytes:
  assumes "ev_data v = Some co" and "co_content co = map uint bs" and "co_uncompressedSize co = int (length bs)"
    and "op_dir (resolve_options now (Some (view_options opts v))) \<Longrightarrow> bs = []"
  shows "object_bytes (loaded_object env now opts v) = bs"
proof -
  let ?o = "resolve_options now (Some (view_options opts v))"
  have d: "view_data v = CompressedObj co" using assms(1) by (simp add: view_data_def)
  have g: "fo_binary (view_options opts v) = Some True" "op_binary ?o" "op_optimizedBinaryString ?o"
    by (simp_all add: view_options_def resolve_options_def default_def Let_def)
  show ?thesis
  proof (cases "bs = []")
    case True
    then have "loaded_object env now opts v = newZipObject (ev_name v) (DataContent (Inr (JString [])))
        (?o\<lparr>op_base64 := False, op_binary := True, op_compression := Some ''STORE''\<rparr>)"
      using assms(3) g by (simp add: loaded_object_def file_object_def correct_options_def d file_content_def
          convert_content_def Let_def)
    then show ?thesis using True
      by (simp add: object_bytes_def newZipObject_def content_of_def bytes_of_def byte_array_def)
  next
    case False
    then have "zo_data (loaded_object env now opts v) = CompressedContent co"
      using assms(3,4) g by (auto simp: loaded_object_def file_object_def correct_options_def d file_content_def
          newZipObject_def Let_def)
    then show ?thesis using assms(2) by (simp add: object_bytes_def byte_array_def comp_def)
  qed
qed

type_synonym saved = "jsstr \<times> bool \<times> int \<times> jsstr \<times> byte list"

definition saved :: "jsstr \<times> zip_object \<Rightarrow> saved" where
  "saved p = (fst p, zo_dir (snd p), zo_date (snd p), default (zo_comment (snd p)) [], object_bytes (snd p))"

fun to_two_seconds :: "saved \<Rightarrow> saved" where
  "to_two_seconds (n, d, t, c, bs) = (n, d, t - t mod 2000, c, bs)"

lemma distinct_for_in: "distinct (map fst ps) \<Longrightarrow> distinct (map fst (for_in ps))"
  by (auto simp: for_in_def distinct_map inj_on_def)

lemma forEach_all:
  assumes "forEach [] fs = Inr ps" "store_wf fs"
  shows "distinct (map fst ps)" "p \<in> set ps \<Longrightarrow> map_of (own fs) (fst p) = Some (snd p)"
proof -
  have r: "relative_entry [] p = (if fst p \<noteq> [] then Some p else None)" for p by (simp add: relative_entry_def)
  have m: "List.map_filter (relative_entry []) qs = filter (\<lambda>p. fst p \<noteq> []) qs" for qs
    by (induction qs) (simp_all add: map_filter_simps r)
  have ps: "ps = filter (\<lambda>p. fst p \<noteq> []) (for_in (own fs))"
    using assms(1) by (simp add: forEach_def m split: if_splits)
  have d: "distinct (map fst (own fs))" using assms(2) by (simp add: store_wf_def)
  show "distinct (map fst ps)" unfolding ps by (rule distinct_map_filter [OF distinct_for_in [OF d]])
  show "map_of (own fs) (fst p) = Some (snd p)" if "p \<in> set ps"
    using that d by (auto simp: ps intro: map_of_is_SomeI)
qed

section \<open>The round trip of a table\<close>

definition archivable :: "jsstr \<times> zip_object \<Rightarrow> bool" where
  "archivable p \<longleftrightarrow> storable (snd p) \<and> zo_dir (snd p) = ends_with_slash (fst p) \<and>
     (\<not> zo_dir (snd p) \<longrightarrow> js_and (default (zo_unixPermissions (snd p)) 0) 0x4000 = 0 \<and>
        js_and (default (zo_dosPermissions (snd p)) 0) 0x10 = 0)"

lemma reachable_wf: "store_reach fs \<Longrightarrow> store_wf fs"
  by (induction rule: store_reach.induct) (auto simp: store_wf_def no_files_def dest: store_wf_step)

lemma archivable_stored:
  assumes "archivable p" and "store_wf fs" and "map_of (own fs) (fst p) = Some (snd p)"
  shows "stored_ok p"
proof -
  have o: "object_ok (fst p) (snd p)" using assms(2,3) by (simp add: store_wf_def)
  have n: "fst p \<noteq> PROTO" using assms(2,3) by (metis option.distinct(1) store_wf_def)
  have "content_bytes (zo_dataBinary (snd p)) (content_of (snd p)) = []" if dir: "zo_dir (snd p)"
  proof -
    obtain d where "zo_data (snd p) = DataContent (Inr d)" "elements d = []" "zo_dataBinary (snd p)"
      using o dir by (auto simp: object_ok_def empty_content_def)
    then show ?thesis by (cases d) (simp_all add: content_of_def bytes_of_def byte_array_def)
  qed
  then show ?thesis using assms(1) n by (simp add: archivable_def stored_ok_def)
qed

lemma check_all_ok: "\<forall>r \<in> set rs. r = Some (Inr ()) \<Longrightarrow> check_all rs = Some (Inr ())"
proof -
  assume a: "\<forall>r \<in> set rs. r = Some (Inr ())"
  then have "List.map_filter (\<lambda>r. case r of Some (Inl e) \<Rightarrow> Some e | _ \<Rightarrow> None) rs = []"
    by (induction rs) (simp_all add: map_filter_simps)
  then show ?thesis using a by (auto simp: check_all_def)
qed

lemma loaded_archive:
  assumes ok: "archive_ok c (lo_decodeFileName lopts) comment (map object_source ps)"
    and ps: "list_all stored_ok ps" "distinct (map fst ps)"
    and o: "\<not> lo_base64 lopts" "\<not> lo_createFolders lopts" "sup_uint8array env"
    and d: "type_of d = ''uint8array''" "bytes_of d = zip_layout c comment (map object_source ps)"
  shows "\<exists>fs' comment'. loadAsync env inflate now [] (PlainData (GivenData d)) lopts (no_files, None) =
      Some (Inr (fs', comment')) \<and>
    map saved (own fs') = map (to_two_seconds \<circ> saved) ps \<and> default comment' [] = comment"
proof -
  obtain buf off len where u: "d = JUint8 buf off len" using d(1) by (cases d) auto
  have el: "elements d = map uint (bytes_of d)" by (simp add: u bytes_of_def byte_array_def comp_def)
  have cont: "loaded_content env (PlainData (GivenData d)) lopts = Inr d"
    by (simp add: loaded_content_def u convert_content_def o(3))
  obtain z where z: "load (lo_decodeFileName lopts) (sup_uint8array env) (js_data_type d) (elements d) = Some (Inr z)"
    "ze_zipComment z = comment" "map view (ze_files z) = map (source_view c) (map object_source ps)"
    using load_views [OF ok] unfolding el d(2) by blast
  let ?vs = "map (\<lambda>p. source_view c (object_source p)) ps"
  let ?check = "if lo_checkCRC32 lopts
    then check_all (map (\<lambda>e. checkEntryCRC32 env inflate (the (decompressed e))) (ze_files z)) else Some (Inr ())"
  have vs: "map view (ze_files z) = ?vs" using z(3) by (simp add: comp_def)
  have s: "stored_ok p" if "p \<in> set ps" for p using ps(1) that by (simp add: list_all_iff)
  have "checkEntryCRC32 env inflate (the (decompressed e)) = Some (Inr ())" if "e \<in> set (ze_files z)" for e
  proof -
    have "view e \<in> set ?vs" using that vs by (metis image_eqI list.set_map)
    then obtain p where p: "p \<in> set ps" "view e = source_view c (object_source p)" by auto
    let ?bs = "content_bytes (zo_dataBinary (snd p)) (content_of (snd p))"
    have "decompressed e = ev_data (view e)" by (simp add: view_def)
    then have "decompressed e = Some \<lparr>co_compressedSize = int (length ?bs), co_uncompressedSize = int (length ?bs),
       co_crc32 = bytes_crc ?bs, co_compression = STORE, co_content = map uint ?bs\<rparr>"
      unfolding p(2) stored_view(4) [OF s [OF p(1)]] .
    then show ?thesis by (simp add: check_stored byte_array_def comp_def)
  qed
  then have check: "?check = Some (Inr ())" by (simp add: check_all_ok)
  let ?new = "\<lambda>v. (ev_name v, loaded_object env now lopts v)"
  have names: "map ev_name ?vs = map fst ps" using s by (simp add: stored_view(1))
  have "addFiles env now lopts [] (ze_files z) no_files = no_files\<lparr>own := own no_files @ map ?new ?vs\<rparr>"
    unfolding addFiles_views vs
  proof (rule add_views [OF o(2)])
    show "distinct (map fst (own no_files) @ map ev_name ?vs)" unfolding names using ps(2) by (simp add: no_files_def)
    show "\<forall>v \<in> set ?vs. (op_dir (resolve_options now (Some (view_options lopts v))) \<longrightarrow> ends_with_slash (ev_name v)) \<and>
        ev_name v \<noteq> PROTO"
      using s by (auto simp: stored_view(1,5)) (auto simp: stored_ok_def)
  qed
  then have own: "own (addFiles env now lopts [] (ze_files z) no_files) = map ?new ?vs" by (simp add: no_files_def)
  have "saved (?new (source_view c (object_source p))) = to_two_seconds (saved p)" if "p \<in> set ps" for p
  proof -
    note v = stored_view [OF s [OF that], where c = c]
    let ?bs = "content_bytes (zo_dataBinary (snd p)) (content_of (snd p))"
    have "object_bytes (loaded_object env now lopts (source_view c (object_source p))) = ?bs"
      by (rule loaded_bytes [OF v(4)]) (use s [OF that] in \<open>simp_all add: v(5) stored_ok_def\<close>)
    moreover have "object_bytes (snd p) = ?bs"
      using s [OF that] by (auto simp: object_bytes_def stored_ok_def storable_def split: zip_content.split)
    ultimately show ?thesis by (simp add: saved_def loaded_fields v(1,2,3,5))
  qed
  then have "map saved (own (addFiles env now lopts [] (ze_files z) no_files)) = map (to_two_seconds \<circ> saved) ps"
    by (simp add: own comp_def)
  moreover have "loadAsync env inflate now [] (PlainData (GivenData d)) lopts (no_files, None) =
      Some (Inr (addFiles env now lopts [] (ze_files z) no_files, if comment \<noteq> [] then Some comment else None))"
    using z(1,2) check by (simp add: loadAsync_def cont)
  ultimately show ?thesis by (simp add: default_def)
qed

text \<open>
  Property C23. \<open>checkEntryCRC32\<close> of a stored entry decides, whatever its declared sizes and sum:
  it resolves when the size and the sum are those of the content, is rejected with the size
  error when the size is not (before the sum is looked at), and with the mismatch otherwise.
\<close>

theorem crc_check_decides:
  assumes "co_compression co = STORE"
  shows "checkEntryCRC32 env inflate co =
    Some (if co_uncompressedSize co \<noteq> int (length (co_content co)) then Inl (Stream SizeMismatch)
          else if co_crc32 co \<noteq> bytes_crc (byte_array (co_content co)) then Inl CrcMismatch else Inr ())"
  using check_stored [OF assms] by (simp add: byte_array_def)

definition demo_compressed :: compressed_object where
  "demo_compressed = \<lparr>co_compressedSize = 1, co_uncompressedSize = 2, co_crc32 = 0, co_compression = STORE,
     co_content = [0x61]\<rparr>"

theorem crc_check_decides_witness:
  "checkEntryCRC32 demo_platform Generic demo_compressed = Some (Inl (Stream SizeMismatch))"
  using crc_check_decides [of demo_compressed demo_platform Generic] by (simp add: demo_compressed_def)

text \<open>
  Property C22. \<open>generateAsync\<close> writes the archive of the table: for stored files whose contents
  are ready, in every type a stream runs in, it resolves with data of the type asked for, whose
  bytes are the layout of the files in the order of the table, each with the length and the sum
  of its own bytes, however the contents were cut into chunks.
\<close>

theorem generate_layout:
  assumes "forEach dir_root fs = Inr ps" and "list_all (\<lambda>p. storable (snd p)) ps"
    and "toUpperCase (go_compression opts) = ''STORE''"
    and "go_type opts \<in> set [''string'', ''array'', ''uint8array'', ''nodebuffer'']"
    and "support_of env (go_type opts)" and "sup_uint8array env"
  shows "\<exists>d. generateAsync env inflate deflate dir_root fs own_comment opts = Some (Inr (OutData d)) \<and>
    type_of d = go_type opts \<and>
    bytes_of d = zip_layout (archive_config opts) (zip_comment opts own_comment) (map object_source ps)"
  using assms by (rule generated_archive)

definition demo_options :: generate_options where
  "demo_options = default_options\<lparr>go_type := ''uint8array'', go_streamFiles := True\<rparr>"

lemma demo_options_upper: "toUpperCase (go_compression demo_options) = ''STORE''"
  by (simp add: demo_options_def default_options_def upper_char_def)

theorem generate_layout_witness:
  "\<exists>d. generateAsync demo_platform Generic Generic [] no_files None demo_options = Some (Inr (OutData d)) \<and>
    type_of d = ''uint8array'' \<and> bytes_of d = zip_layout (archive_config demo_options) [] []"
proof -
  have "forEach [] no_files = Inr []" by (simp add: forEach_def no_files_def for_in_def map_filter_simps)
  from generate_layout [OF this _ demo_options_upper, of demo_platform Generic Generic None] show ?thesis
    by (simp add: demo_options_def default_options_def support_of_def demo_platform_def zip_comment_def default_def)
qed

text \<open>
  Property C3. A table survives being generated and loaded again. For a reachable table of
  stored files that fits the fields of the format, \<open>generateAsync\<close> resolves with an archive
  and \<open>loadAsync\<close> of it, with or without the check of the sums, with a table that has the same
  names in the order of \<open>forEach\<close>, and for each the directory flag, the comment, the date to two
  seconds, and the content, a text as its UTF-8 encoding chunk by chunk; the comment of the archive survives too.
\<close>

theorem archive_roundtrip:
  assumes "store_reach fs" and "forEach [] fs = Inr ps" and "list_all archivable ps"
    and "toUpperCase (go_compression opts) = ''STORE''" and "go_type opts = ''uint8array''" and "sup_uint8array env"
    and "archive_ok (archive_config opts) (lo_decodeFileName lopts) (zip_comment opts own_comment) (map object_source ps)"
    and "\<not> lo_base64 lopts" and "\<not> lo_createFolders lopts"
  shows "\<exists>d fs' comment'. generateAsync env inflate deflate [] fs own_comment opts = Some (Inr (OutData d)) \<and>
    loadAsync env inflate' now [] (PlainData (GivenData d)) lopts (no_files, None) = Some (Inr (fs', comment')) \<and>
    map saved (own fs') = map (to_two_seconds \<circ> saved) ps \<and> default comment' [] = zip_comment opts own_comment"
proof -
  have wf: "store_wf fs" using reachable_wf [OF assms(1)] .
  have s: "list_all stored_ok ps"
    using assms(3) archivable_stored [OF _ wf] forEach_all(2) [OF assms(2) wf] by (auto simp: list_all_iff)
  have st: "list_all (\<lambda>p. storable (snd p)) ps" using s by (auto simp: list_all_iff stored_ok_def)
  have "support_of env (go_type opts)" using assms(5,6) by (simp add: support_of_def)
  from generated_archive [OF assms(2) st assms(4) _ this assms(6)] obtain d where
    d: "generateAsync env inflate deflate [] fs own_comment opts = Some (Inr (OutData d))" "type_of d = ''uint8array''"
      "bytes_of d = zip_layout (archive_config opts) (zip_comment opts own_comment) (map object_source ps)"
    using assms(5) by fastforce
  from loaded_archive [OF assms(7) s forEach_all(1) [OF assms(2) wf] assms(8,9,6) d(2,3), of inflate' now] d(1)
  show ?thesis by blast
qed

text \<open>A table with one file.\<close>

definition demo_content_data :: js_data where "demo_content_data = JUint8 [1, 2, 3] 0 3"

definition demo_table :: files where
  "demo_table = file_add demo_platform 0 [] [0x61] (PlainData (GivenData demo_content_data))
     (Some (no_options\<lparr>fo_date := Some 1500000000000\<rparr>)) no_files"

definition demo_file :: zip_object where
  "demo_file = \<lparr>zo_name = [0x61], zo_dir = False, zo_date = 1500000000000, zo_comment = None, zo_unixPermissions = None,
     zo_dosPermissions = None, zo_data = DataContent (Inr demo_content_data), zo_dataBinary = True, zo_compression = None,
     zo_compressionOptions = None\<rparr>"

lemma demo_table_own: "demo_table = \<lparr>own = [([0x61], demo_file)], proto = None\<rparr>"
proof -
  have "parentFolder [0x61] = []" "[0x61] \<noteq> PROTO"
    by (simp_all add: parentFolder_def ends_with_slash_def SLASH_def lastSlashIndex_def PROTO_def js_def)
  then show ?thesis
    unfolding demo_table_def file_add_def
    by (subst fileAdd.simps) (simp add: resolve_options_def default_def no_options_def file_permissions_def Let_def
      files_set_def no_files_def file_object_def correct_options_def demo_content_data_def file_content_def
      convert_content_def newZipObject_def demo_file_def demo_platform_def)
qed

lemma demo_forEach: "forEach [] demo_table = Inr [([0x61], demo_file)]"
proof -
  have "\<not> is_index [0x61]" by (simp add: is_index_def index_value_def)
  moreover have "js ''hasOwnProperty'' \<noteq> [0x61]" by (simp add: js_def)
  ultimately show ?thesis
    by (simp add: demo_table_own forEach_def for_in_def map_filter_simps relative_entry_def)
qed

lemma demo_archivable: "list_all archivable [([0x61], demo_file)]"
  by (simp add: archivable_def storable_def demo_file_def content_of_def storable_data_def demo_content_data_def
      ends_with_slash_def SLASH_def default_def js_and_def ToInt32_def)

lemma demo_stored: "src_closed (object_source ([0x61], demo_file)) = stored_info (si_file demo_info) [1, 2, 3]"
    "source_content (object_source ([0x61], demo_file)) = [1, 2, 3]"
    "si_file (src_opened (object_source ([0x61], demo_file))) = si_file demo_info"
proof -
  have s: "storable_data True demo_content_data" by (simp add: storable_data_def demo_content_data_def)
  have b: "content_bytes True demo_content_data = [1, 2, 3]"
    by (simp add: demo_content_data_def bytes_of_def byte_array_def subarray_of_def)
  have f: "entry_file ([0x61], demo_file) = si_file demo_info"
    by (simp add: entry_file_def demo_file_def demo_info_def default_def)
  have z: "content_of demo_file = demo_content_data" "zo_dataBinary demo_file" by (simp_all add: content_of_def demo_file_def)
  have src: "object_source ([0x61], demo_file) = stored_source (si_file demo_info) True demo_content_data"
    by (simp add: object_source_def f z)
  show "src_closed (object_source ([0x61], demo_file)) = stored_info (si_file demo_info) [1, 2, 3]"
    "si_file (src_opened (object_source ([0x61], demo_file))) = si_file demo_info"
    using file_chunks_bytes(1) [OF s] by (simp_all add: src stored_source_def b stored_info_def)
  have "cdata_bytes (cdata_of d) = bytes_of d" for d
    by (cases d) (simp_all add: bytes_of_def byte_array_def str_bytes_ucast comp_def)
  then show "source_content (object_source ([0x61], demo_file)) = [1, 2, 3]"
    using file_chunks_bytes(1) [OF s]
    by (simp add: source_content_def src stored_source_def zip_chunk_def chunks_bytes_def comp_def b)
qed

lemma demo_stored_ok: "source_content_ok demo_config utf8decode (object_source ([0x61], demo_file))"
proof -
  have "utf8decode [0x61] = [0x61]" "utf8decode [] = []"
    using utf8_back [of "[0x61]"] utf8_back [of "[]"] by (simp_all add: utf8_demo)
  moreover have "si_file (src_closed (object_source ([0x61], demo_file))) = si_file demo_info"
    "si_crc32 (src_closed (object_source ([0x61], demo_file))) = bytes_crc [1, 2, 3]"
    "si_compressedSize (src_closed (object_source ([0x61], demo_file))) = 3"
    "si_uncompressedSize (src_closed (object_source ([0x61], demo_file))) = 3"
    by (simp_all add: demo_stored stored_info_def)
  moreover have "- 2147483648 \<le> bytes_crc [1, 2, 3]" "bytes_crc [1, 2, 3] < 2147483648"
    by (simp_all only: bytes_crc_def crc_range)
  ultimately show ?thesis
    by (simp add: source_content_ok_def source_ok_def entry_fits_def demo_stored demo_source_file demo_fields
      dos_year_ok_def fits31_def codec_ok_def needs_utf8_def utf8_demo demo_year)
     (simp add: demo_config_def encode_name_def utf8_demo)
qed

lemma demo_stored_lengths:
  "length (local_area demo_config 0 [object_source ([0x61], demo_file)]) = 50"
  "length (concat (map str_bytes (dir_records demo_config 0 [object_source ([0x61], demo_file)]))) = 47"
proof -
  have f: "length (header_of demo_config st x y z i) = 26" for st x y z i
    by (simp add: header_of_def length_magic)
  have i: "si_file (stored_info (si_file demo_info) bs) = si_file demo_info" for bs by (simp add: stored_info_def)
  have st: "entry_streamed demo_config (object_source ([0x61], demo_file))"
    by (simp add: entry_streamed_def demo_config_def demo_stored i demo_source_file)
  show "length (local_area demo_config 0 [object_source ([0x61], demo_file)]) = 50"
    by (simp add: entry_local_def st entry_parts_def generateZipParts_parts f demo_fields demo_stored i
       generateDataDescriptors_def LOCAL_FILE_HEADER_def DATA_DESCRIPTOR_def)
  show "length (concat (map str_bytes (dir_records demo_config 0 [object_source ([0x61], demo_file)]))) = 47"
    by (simp add: entry_parts_def generateZipParts_parts f demo_fields demo_stored i CENTRAL_FILE_HEADER_def)
qed

lemma demo_table_archive: "archive_ok demo_config utf8decode [] [object_source ([0x61], demo_file)]"
proof -
  have "utf8decode [] = []" using utf8_back [of "[]"] by (simp add: utf8_demo)
  then show ?thesis
    unfolding archive_ok_def Let_def demo_stored_lengths
    using demo_stored_ok demo_end
    by (simp add: fits31_def) (simp add: demo_config_def encode_name_def utf8_demo)
qed

theorem archive_roundtrip_witness:
  "\<exists>d fs' comment'. generateAsync demo_platform Generic Generic [] demo_table None demo_options = Some (Inr (OutData d)) \<and>
    loadAsync demo_platform Generic 0 [] (PlainData (GivenData d))
      \<lparr>lo_base64 = False, lo_checkCRC32 = True, lo_optimizedBinaryString = False, lo_createFolders = False,
       lo_decodeFileName = utf8decode\<rparr> (no_files, None) = Some (Inr (fs', comment')) \<and>
    map saved (own fs') = [([0x61], False, 1500000000000, [], [1, 2, 3])] \<and> default comment' [] = []"
proof -
  let ?l = "\<lparr>lo_base64 = False, lo_checkCRC32 = True, lo_optimizedBinaryString = False, lo_createFolders = False,
       lo_decodeFileName = utf8decode\<rparr>"
  have r: "store_reach demo_table" by (auto simp: demo_table_def intro: store_reach.intros store_step.intros)
  have u: "go_type demo_options = ''uint8array''" "sup_uint8array demo_platform"
    by (simp_all add: demo_options_def demo_platform_def)
  have "archive_config demo_options = demo_config" "zip_comment demo_options None = []"
    by (simp_all add: archive_config_def demo_options_def default_options_def demo_config_def zip_platform_def js_def
        zip_comment_def default_def)
  then have a: "archive_ok (archive_config demo_options) (lo_decodeFileName ?l) (zip_comment demo_options None)
      (map object_source [([0x61], demo_file)])" using demo_table_archive by simp
  have "saved ([0x61], demo_file) = ([0x61], False, 1500000000000, [], [1, 2, 3])"
    by (simp add: saved_def demo_file_def default_def object_bytes_def content_of_def demo_content_data_def
        bytes_of_def byte_array_def subarray_of_def)
  then show ?thesis
    using archive_roundtrip [OF r demo_forEach demo_archivable demo_options_upper u a, of Generic Generic Generic 0]
      \<open>zip_comment demo_options None = []\<close> by simp
qed

end
