(* ===== verification/ZipSafety.thy ===== *)
theory ZipSafety
  imports ZipRoundtrip
begin

text \<open>
  What holds of \<open>ZipEntries.load\<close> on any input, valid or corrupt: where it can fail to
  return, that it returns elsewhere, and how the start of the archive is located.
\<close>

lemma obind_eq_Some:
  "obind m f = Some y \<longleftrightarrow>
    (\<exists>e. m = Some (Inl e) \<and> y = Inl e) \<or> (\<exists>x. m = Some (Inr x) \<and> f x = Some y)"
  by (cases m; cases "the m") (auto simp: obind_def)

lemma obind_eq_None: "obind m f = None \<longleftrightarrow> m = None \<or> (\<exists>x. m = Some (Inr x) \<and> f x = None)"
  by (cases m; cases "the m") (auto simp: obind_def)

section \<open>The ZIP64 extensible data\<close>

lemma zip64_data_loop_no_return:
  assumes "zip64_data_loop index extraDataSize fs r = Some y"
  shows "index < extraDataSize \<longrightarrow> (\<exists>e. y = Inl e)"
  by (rule zip64_data_loop.raw_induct [OF _ assms])
    (auto simp: obind_eq_Some split: if_splits prod.splits)

lemma zip64_data_loop_stuck:
  assumes "zip64_data_loop index extraDataSize fs r = Some y"
  shows "index < extraDataSize \<longrightarrow> r \<noteq> newReader Uint8ArrayReader [0, 0, 250, 255, 255, 255]"
proof (rule zip64_data_loop.raw_induct [OF _ assms])
  fix loop index extraDataSize fs r and y :: "zip_error + (int \<rightharpoonup> extra_field) \<times> reader"
  let ?r = "newReader Uint8ArrayReader [0, 0, 250, 255, 255, 255]"
  assume IH: "\<And>index extraDataSize fs r y. loop index extraDataSize fs r = Some y \<Longrightarrow>
      index < extraDataSize \<longrightarrow> r \<noteq> ?r"
    and step: "(if index < extraDataSize
      then obind (Some (readInt 2 r)) (\<lambda>(fieldId, r).
           obind (Some (readInt 4 r)) (\<lambda>(len, r).
           obind (Some (readData len r)) (\<lambda>(val, r).
           loop index extraDataSize
             (fs(fieldId \<mapsto> \<lparr>ef_id = fieldId, ef_length = len, ef_value = val\<rparr>)) r)))
      else Some (Inr (fs, r))) = Some y"
  have i: "readInt 2 ?r = Inr (0, ?r\<lparr>rindex := 2\<rparr>)"
    "readInt 4 (?r\<lparr>rindex := 2\<rparr>) = Inr (- 6, ?r\<lparr>rindex := 6\<rparr>)"
    using readInt_in [of ?r 2] readInt_in [of "?r\<lparr>rindex := 2\<rparr>" 4]
    by (simp_all add: newReader_def reader_ok_def remaining_def bytes_ok_def js_and_masks ToInt32_def
        advance_def)
  have d: "readData (- 6) (?r\<lparr>rindex := 6\<rparr>) = Inr ([], ?r)"
    by (simp add: readData_def newReader_def uint8_readData_def checkOffset_def checkIndex_def
        js_slice_def slice_index_def js_and_masks)
  show "index < extraDataSize \<longrightarrow> r \<noteq> ?r"
  proof (intro impI notI)
    assume l: "index < extraDataSize" and r: "r = ?r"
    obtain f where "loop index extraDataSize f ?r = Some y"
      using step l by (auto simp: r i d)
    from IH [OF this] l show False by simp
  qed
qed

lemma readBlockZip64_return:
  assumes "readBlockZip64EndOfCentral z = Some (Inr z')"
  shows "zip64EndOfCentralSize z' \<le> 44"
proof -
  from assms obtain s fs r fs' r' where
    l: "zip64_data_loop 0 (s - 44) fs r = Some (Inr (fs', r'))" and z: "zip64EndOfCentralSize z' = s"
    by (auto simp: readBlockZip64EndOfCentral_def obind_eq_Some)
  show ?thesis using zip64_data_loop_no_return [OF l] z by auto
qed

text \<open>
  Property C28. \<open>readBlockZip64EndOfCentral\<close> never reads extensible data: a record that
  announces some (a size above 44) is never accepted, because the loop's counter is not
  incremented and it runs on until a read throws; and on a record whose length field is
  -6 it runs forever, the reader coming back to the same place each time.
\<close>

theorem zip64_extensible_data:
  "readBlockZip64EndOfCentral z \<noteq> Some (Inr (z'\<lparr>zip64EndOfCentralSize := 45 + int n\<rparr>)) \<and>
   zip64_data_loop 0 (1 + int n) fs (newReader Uint8ArrayReader [0, 0, 250, 255, 255, 255]) = None"
proof
  show "readBlockZip64EndOfCentral z \<noteq> Some (Inr (z'\<lparr>zip64EndOfCentralSize := 45 + int n\<rparr>))"
    using readBlockZip64_return [of z "z'\<lparr>zip64EndOfCentralSize := 45 + int n\<rparr>"] by auto
  show "zip64_data_loop 0 (1 + int n) fs (newReader Uint8ArrayReader [0, 0, 250, 255, 255, 255]) = None"
    using zip64_data_loop_stuck [of 0 "1 + int n" fs "newReader Uint8ArrayReader [0, 0, 250, 255, 255, 255]"]
    by (cases "zip64_data_loop 0 (1 + int n) fs (newReader Uint8ArrayReader [0, 0, 250, 255, 255, 255])") auto
qed

section \<open>Reading moves forward\<close>

definition good :: "reader \<Rightarrow> bool" where
  "good r \<longleftrightarrow> reader_ok r \<and> bytes_ok (rdata r)"

definition moved :: "reader \<Rightarrow> reader \<Rightarrow> bool" where
  "moved r r' \<longleftrightarrow> good r' \<and> rindex r \<le> rindex r' \<and> r' = r\<lparr>rindex := rindex r'\<rparr>"

lemma moved_refl: "good r \<Longrightarrow> moved r r"
  by (simp add: moved_def)

lemma moved_trans: "moved r r' \<Longrightarrow> moved r' r'' \<Longrightarrow> moved r r''"
  unfolding moved_def by (cases r; cases r'; cases r'') auto

lemma moved_good: "moved r r' \<Longrightarrow> good r'"
  by (simp add: moved_def)

lemma moved_fields: "moved r r' \<Longrightarrow> rlength r' = rlength r \<and> rindex r \<le> rindex r' \<and> rzero r' = rzero r"
  unfolding moved_def by (cases r; cases r') auto

lemma advance_moved:
  "good r \<Longrightarrow> 0 \<le> n \<Longrightarrow> n \<le> int (length (remaining r)) \<Longrightarrow> moved r (advance r n)"
  using advance_ok [of r n] by (simp add: moved_def good_def advance_def)

lemma readInt_moved:
  assumes "good r" "readInt n r = Inr (x, r')"
  shows "moved r r' \<and> rindex r' = rindex r + int n \<and> (n < 4 \<longrightarrow> 0 \<le> x)"
proof -
  have ok: "reader_ok r" "bytes_ok (rdata r)" using assms(1) by (simp_all add: good_def)
  have n: "n \<le> length (remaining r)"
    using readInt_out [OF ok(1), of n] assms(2) by (cases "n \<le> length (remaining r)") auto
  have b: "bytes_ok (take n (remaining r))"
    using ok(2) by (auto simp: bytes_ok_def remaining_def dest!: in_set_takeD in_set_dropD)
  then have e: "x = ToInt32 (le_value (take n (remaining r)))" "r' = advance r (int n)"
    using readInt_in [OF ok(1) n] assms(2) by auto
  have "n < 4 \<longrightarrow> 0 \<le> x"
    using ToInt32_le_value_small [of "take n (remaining r)"] le_value_range [of "take n (remaining r)"] b
    by (auto simp: e bytes_ok_def)
  then show ?thesis using advance_moved [OF assms(1), of "int n"] n by (simp add: e)
qed

lemma readData_moved:
  assumes "good r" "0 \<le> n" "readData n r = Inr (d, r')"
  shows "moved r r'"
proof -
  have ok: "reader_ok r" using assms(1) by (simp add: good_def)
  have "n \<le> int (length (remaining r))"
    using readData_out' [OF ok, of n] assms(3) by (cases "n \<le> int (length (remaining r))") auto
  then show ?thesis using readData_in [OF ok assms(2)] assms(3) advance_moved [OF assms(1,2)] by auto
qed

lemma skip_moved:
  assumes "good r" "0 \<le> n" "skip n r = Inr r'"
  shows "moved r r'"
  using assms by (auto simp: skip_def setIndex_def checkIndex_def moved_def good_def reader_ok_def
      rbind_eq_Inr split: if_splits)

lemma readString_moved: "good r \<Longrightarrow> 0 \<le> n \<Longrightarrow> readString n r = Inr (s, r') \<Longrightarrow> moved r r'"
  using readData_moved by (auto simp: readString_def rbind_eq_Inr)

lemma readDate_moved: "good r \<Longrightarrow> readDate r = Inr (t, r') \<Longrightarrow> moved r r'"
  using readInt_moved by (auto simp: readDate_def rbind_eq_Inr)

lemmas reads_moved = readInt_moved [THEN conjunct1] readData_moved skip_moved readString_moved readDate_moved

definition returns :: "'a zres \<Rightarrow> ('a \<Rightarrow> bool) \<Rightarrow> bool" where
  "returns m P \<longleftrightarrow> m \<noteq> None \<and> (\<forall>x. m = Some (Inr x) \<longrightarrow> P x)"

lemma returns_bind:
  "returns m P \<Longrightarrow> (\<And>x. P x \<Longrightarrow> returns (f x) Q) \<Longrightarrow> returns (obind m f) Q"
  by (cases m; cases "the m") (auto simp: returns_def)

lemma returns_Some: "(\<And>x. m = Inr x \<Longrightarrow> P x) \<Longrightarrow> returns (Some m) P"
  by (simp add: returns_def)

lemma returns_mono: "returns m P \<Longrightarrow> (\<And>x. P x \<Longrightarrow> Q x) \<Longrightarrow> returns m Q"
  by (auto simp: returns_def)

lemma returns_readInt:
  "good r \<Longrightarrow> (\<And>x r'. moved r r' \<Longrightarrow> rindex r' = rindex r + int n \<Longrightarrow> n < 4 \<longrightarrow> 0 \<le> x \<Longrightarrow> returns (f (x, r')) Q)
    \<Longrightarrow> returns (obind (Some (readInt n r)) f) Q"
  using readInt_moved [of r n] by (cases "readInt n r") (auto simp: returns_def)

lemma returns_readData:
  "good r \<Longrightarrow> 0 \<le> n \<Longrightarrow> (\<And>x r'. moved r r' \<Longrightarrow> returns (f (x, r')) Q)
    \<Longrightarrow> returns (obind (Some (readData n r)) f) Q"
  using readData_moved [of r n] by (cases "readData n r") (auto simp: returns_def)

lemma returns_skip:
  "good r \<Longrightarrow> 0 \<le> n \<Longrightarrow> (\<And>r'. moved r r' \<Longrightarrow> returns (f r') Q)
    \<Longrightarrow> returns (obind (Some (skip n r)) f) Q"
  using skip_moved [of r n] by (cases "skip n r") (auto simp: returns_def)

lemma extra_fields_loop_returns:
  "good r \<Longrightarrow> returns (extra_fields_loop stop fs r) (\<lambda>(fs', r'). moved r r')"
proof (induction "nat (rlength r - rindex r)" arbitrary: fs r rule: less_induct)
  case less
  have step: "returns (extra_fields_loop stop fs' r3) (\<lambda>(fs', r'). moved r r')"
    if m: "moved r r3" "rindex r < rindex r3" for fs' r3
  proof -
    have "rzero r3 + rindex r3 \<le> rlength r3" "0 \<le> rzero r3" 
      using moved_good [OF m(1)] by (auto simp: good_def reader_ok_def)
    then have "nat (rlength r3 - rindex r3) < nat (rlength r - rindex r)"
      using moved_fields [OF m(1)] m(2) by simp
    then have "returns (extra_fields_loop stop fs' r3) (\<lambda>(fs', r'). moved r3 r')"
      using moved_good [OF m(1)] by (rule less.hyps)
    then show ?thesis by (rule returns_mono) (use moved_trans [OF m(1)] in auto)
  qed
  show ?case
  proof (cases "rindex r < stop")
    case True
    show ?thesis
      by (subst extra_fields_loop.simps, unfold if_P [OF True], rule returns_readInt [OF less.prems],
          unfold split_conv, rule returns_readInt, erule moved_good, unfold split_conv,
          rule returns_readData, erule moved_good, simp, unfold split_conv, rule step)
        (use moved_trans in blast, use moved_fields in force)
  next
    case False
    then show ?thesis
      using moved_refl [OF less.prems] by (subst extra_fields_loop.simps) (simp add: returns_def)
  qed
qed

text \<open>Once the fixed part is read, the lengths in it are not negative.\<close>

lemma readCentralHeader_moved:
  assumes "good r" "readCentralHeader r e = Inr (n, e', r')"
  shows "moved r r' \<and> 0 \<le> n \<and> 0 \<le> extraFieldsLength e' \<and> 0 \<le> fileCommentLength e'"
proof -
  from assms(2) obtain v r1 r2 fl r3 m r4 d r5 c r6 cs r7 us r8 nl r9 xl r10 cl r11 di r12 i r13 x r14 lo r15 where
    q: "readInt 2 r = Inr (v, r1)" "skip 2 r1 = Inr r2" "readInt 2 r2 = Inr (fl, r3)"
    "readString 2 r3 = Inr (m, r4)" "readDate r4 = Inr (d, r5)" "readInt 4 r5 = Inr (c, r6)"
    "readInt 4 r6 = Inr (cs, r7)" "readInt 4 r7 = Inr (us, r8)" "readInt 2 r8 = Inr (nl, r9)"
    "readInt 2 r9 = Inr (xl, r10)" "readInt 2 r10 = Inr (cl, r11)" "readInt 2 r11 = Inr (di, r12)"
    "readInt 2 r12 = Inr (i, r13)" "readInt 4 r13 = Inr (x, r14)" "readInt 4 r14 = Inr (lo, r15)"
    and f: "n = nl" "r' = r15" "extraFieldsLength e' = xl" "fileCommentLength e' = cl"
    by (auto simp: readCentralHeader_def rbind_eq_Inr Let_def split: if_splits)
  have 1: "moved r r1" using readInt_moved [OF assms(1) q(1)] by blast
  have 2: "moved r r2" using skip_moved [OF moved_good [OF 1] _ q(2)] moved_trans [OF 1] by simp
  have 3: "moved r r3" using readInt_moved [OF moved_good [OF 2] q(3)] moved_trans [OF 2] by blast
  have 4: "moved r r4" using readString_moved [OF moved_good [OF 3] _ q(4)] moved_trans [OF 3] by simp
  have 5: "moved r r5" using readDate_moved [OF moved_good [OF 4] q(5)] moved_trans [OF 4] by blast
  have 6: "moved r r6" using readInt_moved [OF moved_good [OF 5] q(6)] moved_trans [OF 5] by blast
  have 7: "moved r r7" using readInt_moved [OF moved_good [OF 6] q(7)] moved_trans [OF 6] by blast
  have 8: "moved r r8" using readInt_moved [OF moved_good [OF 7] q(8)] moved_trans [OF 7] by blast
  have 9: "moved r r9 \<and> 0 \<le> nl" using readInt_moved [OF moved_good [OF 8] q(9)] moved_trans [OF 8] by simp
  then have 10: "moved r r10 \<and> 0 \<le> xl" using readInt_moved [OF moved_good q(10)] moved_trans by fastforce
  then have 11: "moved r r11 \<and> 0 \<le> cl" using readInt_moved [OF moved_good q(11)] moved_trans by fastforce
  then have 12: "moved r r12" using readInt_moved [OF moved_good q(12)] moved_trans by blast
  have 13: "moved r r13" using readInt_moved [OF moved_good [OF 12] q(13)] moved_trans [OF 12] by blast
  have 14: "moved r r14" using readInt_moved [OF moved_good [OF 13] q(14)] moved_trans [OF 13] by blast
  have "moved r r15" using readInt_moved [OF moved_good [OF 14] q(15)] moved_trans [OF 14] by blast
  then show ?thesis using f 9 10 11 by simp
qed

lemma readCentralPart_returns:
  assumes "good r"
  shows "returns (readCentralPart r e) (\<lambda>(e', r'). moved r r')"
  unfolding readCentralPart_def
proof (rule returns_bind [where P = "\<lambda>(n, e', r'). moved r r' \<and> 0 \<le> n \<and> 0 \<le> extraFieldsLength e' \<and> 0 \<le> fileCommentLength e'"])
  show "returns (Some (readCentralHeader r e))
      (\<lambda>(n, e', r'). moved r r' \<and> 0 \<le> n \<and> 0 \<le> extraFieldsLength e' \<and> 0 \<le> fileCommentLength e')"
    using readCentralHeader_moved [OF assms] by (intro returns_Some) fastforce
next
  fix ner :: "int \<times> zip_entry \<times> reader"
  assume "case ner of (n, e', r') \<Rightarrow> moved r r' \<and> 0 \<le> n \<and> 0 \<le> extraFieldsLength e' \<and> 0 \<le> fileCommentLength e'"
  then obtain n and e1 :: zip_entry and r1 where 1: "ner = (n, e1, r1)" "moved r r1" "0 \<le> n" "0 \<le> fileCommentLength e1"
    by (cases ner) auto
  have x: "returns (readExtraFields r2 e1) (\<lambda>(e', r'). moved r2 r' \<and> fileCommentLength e' = fileCommentLength e1)"
    if "good r2" for r2
    unfolding readExtraFields_def
    by (rule returns_bind [OF extra_fields_loop_returns [OF that]]) (auto simp: returns_def)
  have z: "fileCommentLength e3 = fileCommentLength e2" if "parseZIP64ExtraField k e2 = Inr e3" for k e2 e3
    using that by (auto simp: parseZIP64ExtraField_def rbind_eq_Inr split: option.splits)
  show "returns (case ner of (nameLength, e, r) \<Rightarrow>
     obind (Some (skip nameLength r)) (\<lambda>r.
     obind (readExtraFields r e) (\<lambda>(e, r).
     obind (Some (parseZIP64ExtraField (rkind r) e)) (\<lambda>e.
     obind (Some (readData (fileCommentLength e) r)) (\<lambda>(comment, r).
     Some (Inr (e\<lparr>fileComment := comment\<rparr>, r))))))) (\<lambda>(e', r'). moved r r')"
    unfolding 1(1) split_conv
  proof (rule returns_skip [OF moved_good [OF 1(2)] 1(3)], rule returns_bind [OF x [OF moved_good]], assumption)
    fix r2 and er :: "zip_entry \<times> reader"
    assume m2: "moved r1 r2" and "case er of (e', r') \<Rightarrow> moved r2 r' \<and> fileCommentLength e' = fileCommentLength e1"
    then obtain e2 r3 where 2: "er = (e2, r3)" "moved r2 r3" "fileCommentLength e2 = fileCommentLength e1"
      by (cases er) auto
    have m3: "moved r r3" using 1(2) m2 2(2) moved_trans by blast
    show "returns (case er of (e, r) \<Rightarrow> obind (Some (parseZIP64ExtraField (rkind r) e)) (\<lambda>e.
       obind (Some (readData (fileCommentLength e) r)) (\<lambda>(comment, r).
       Some (Inr (e\<lparr>fileComment := comment\<rparr>, r))))) (\<lambda>(e', r'). moved r r')"
      unfolding 2(1) split_conv
    proof (rule returns_bind [where P = "\<lambda>e. 0 \<le> fileCommentLength e"])
      show "returns (Some (parseZIP64ExtraField (rkind r3) e2)) (\<lambda>e. 0 \<le> fileCommentLength e)"
        using z 2(3) 1(4) by (intro returns_Some) simp
      show "returns (obind (Some (readData (fileCommentLength e3) r3)) (\<lambda>(comment, r).
          Some (Inr (e3\<lparr>fileComment := comment\<rparr>, r)))) (\<lambda>(e', r'). moved r r')"
        if "0 \<le> fileCommentLength e3" for e3
        by (rule returns_readData [OF moved_good [OF m3] that]) (use moved_trans [OF m3] in \<open>auto simp: returns_def\<close>)
    qed
  qed
qed

lemma readAndCheckSignature_moved:
  assumes "good r" "readAndCheckSignature sig r = Inr (b, r')"
  shows "moved r r' \<and> rindex r < rindex r'"
proof -
  have "\<exists>d. readData 4 r = Inr (d, r')"
    using assms(2) by (cases "rkind r") (auto simp: readAndCheckSignature_def readData_def rbind_eq_Inr
        array_readAndCheckSignature_def string_readAndCheckSignature_def)
  then obtain d where d: "readData 4 r = Inr (d, r')" ..
  have ok: "reader_ok r" using assms(1) by (simp add: good_def)
  have l: "4 \<le> int (length (remaining r))"
    using readData_out' [OF ok, of 4] d by (cases "4 \<le> int (length (remaining r))") auto
  then have "r' = advance r 4" using readData_in [OF ok, of 4] d by auto
  then show ?thesis using advance_moved [OF assms(1), of 4] l by simp
qed

lemma central_dir_loop_returns:
  "good r \<Longrightarrow> returns (central_dir_loop r files) (\<lambda>_. True)"
proof (induction "nat (rlength r - rindex r)" arbitrary: r files rule: less_induct)
  case less
  show ?case
  proof (subst central_dir_loop.simps,
      rule returns_bind [where P = "\<lambda>(b, r'). moved r r' \<and> rindex r < rindex r'"])
    show "returns (Some (readAndCheckSignature CENTRAL_FILE_HEADER r))
        (\<lambda>(b, r'). moved r r' \<and> rindex r < rindex r')"
      using readAndCheckSignature_moved [OF less.prems] by (intro returns_Some) fastforce
    fix br :: "bool \<times> reader"
    assume "case br of (b, r') \<Rightarrow> moved r r' \<and> rindex r < rindex r'"
    then obtain b r1 where 1: "br = (b, r1)" "moved r r1" "rindex r < rindex r1" by (cases br) auto
    have loop: "returns (central_dir_loop r2 fs) (\<lambda>_. True)" if "moved r1 r2" for r2 fs
    proof (rule less.hyps)
      have m: "moved r r2" using moved_trans [OF 1(2) that] .
      show "good r2" using that by (rule moved_good)
      then have "rzero r2 + rindex r2 \<le> rlength r2" "0 \<le> rzero r2"
        by (auto simp: good_def reader_ok_def)
      then show "nat (rlength r2 - rindex r2) < nat (rlength r - rindex r)"
        using moved_fields [OF m] moved_fields [OF that] 1(3) by simp
    qed
    show "returns (case br of (found, r) \<Rightarrow>
         if found then obind (readCentralPart r newZipEntry) (\<lambda>(file, r). central_dir_loop r (files @ [file]))
         else Some (Inr (files, r))) (\<lambda>_. True)"
    proof (cases b)
      case True
      show ?thesis unfolding 1(1) split_conv if_P [OF True]
        by (rule returns_bind [OF readCentralPart_returns [OF moved_good [OF 1(2)]]]) (auto intro: loop)
    next
      case False
      then show ?thesis by (simp add: 1(1) returns_def)
    qed
  qed
qed

section \<open>Finding the archive\<close>

text \<open>No operation changes the data of a reader, its kind, or its zero.\<close>

definition same :: "reader \<Rightarrow> reader \<Rightarrow> bool" where
  "same r r' \<longleftrightarrow> rdata r' = rdata r \<and> rlength r' = rlength r \<and> rkind r' = rkind r \<and> rzero r' = rzero r"

lemma same_simps [simp]: "same r r" "same r (r\<lparr>rindex := i\<rparr>)"
  by (simp_all add: same_def)

lemma same_trans: "same r r' \<Longrightarrow> same r' r'' \<Longrightarrow> same r r''"
  by (simp add: same_def)

lemma readInt_same: "readInt n r = Inr (x, r') \<Longrightarrow> same r r'"
  by (auto simp: readInt_def readInt_with_def rbind_eq_Inr)

lemma readData_same: "readData n r = Inr (d, r') \<Longrightarrow> same r r'"
  by (cases "rkind r") (auto simp: readData_def array_readData_def uint8_readData_def
      string_readData_def node_readData_def rbind_eq_Inr split: if_splits)

lemma readString_same: "readString n r = Inr (d, r') \<Longrightarrow> same r r'"
  by (auto simp: readString_def rbind_eq_Inr dest: readData_same)

lemma setIndex_same: "setIndex n r = Inr r' \<Longrightarrow> same r r'"
  by (auto simp: setIndex_def rbind_eq_Inr)

lemma skip_same: "skip n r = Inr r' \<Longrightarrow> same r r'"
  by (auto simp: skip_def dest: setIndex_same)

lemma readAndCheckSignature_same: "readAndCheckSignature sig r = Inr (b, r') \<Longrightarrow> same r r'"
  using readData_same [of 4 r] by (cases "rkind r") (auto simp: readAndCheckSignature_def readData_def
      rbind_eq_Inr array_readAndCheckSignature_def string_readAndCheckSignature_def)

lemma checkSignature_same: "checkSignature sig r = Inr r' \<Longrightarrow> same r r'"
  by (auto simp: checkSignature_def rbind_eq_Inr dest: readAndCheckSignature_same split: if_splits)

lemma isSignature_same:
  assumes "isSignature i sig r = Inr (b, r')"
  shows "same r r'"
proof -
  obtain r1 s r2 where "setIndex i r = Inr r1" "readString 4 r1 = Inr (s, r2)" "setIndex (rindex r) r2 = Inr r'"
    using assms by (auto simp: isSignature_def Let_def rbind_eq_Inr)
  then show ?thesis by (meson setIndex_same readString_same same_trans)
qed

lemma zip64_data_loop_same:
  assumes "zip64_data_loop index extraDataSize fs r = Some y"
  shows "\<forall>fs' r'. y = Inr (fs', r') \<longrightarrow> same r r'"
proof (rule zip64_data_loop.raw_induct [OF _ assms])
  fix loop index extraDataSize fs r and y :: "zip_error + (int \<rightharpoonup> extra_field) \<times> reader"
  assume IH: "\<And>index extraDataSize fs r y. loop index extraDataSize fs r = Some y \<Longrightarrow>
      \<forall>fs' r'. y = Inr (fs', r') \<longrightarrow> same r r'"
    and step: "(if index < extraDataSize
      then obind (Some (readInt 2 r)) (\<lambda>(fieldId, r).
           obind (Some (readInt 4 r)) (\<lambda>(len, r).
           obind (Some (readData len r)) (\<lambda>(val, r).
           loop index extraDataSize
             (fs(fieldId \<mapsto> \<lparr>ef_id = fieldId, ef_length = len, ef_value = val\<rparr>)) r)))
      else Some (Inr (fs, r))) = Some y"
  show "\<forall>fs' r'. y = Inr (fs', r') \<longrightarrow> same r r'"
  proof (intro allI impI)
    fix fs' r'
    assume "y = Inr (fs', r')"
    then show "same r r'"
      using step IH by (auto simp: obind_eq_Some split: if_splits
          dest!: readInt_same readData_same) (blast intro: same_trans)
  qed
qed

lemma readBlockEndOfCentral_same:
  "readBlockEndOfCentral dec z = Inr z' \<Longrightarrow> same (ze_reader z) (ze_reader z') \<and> zip64 z' = zip64 z"
  by (auto simp: readBlockEndOfCentral_def rbind_eq_Inr dest!: readInt_same readData_same)
    (blast intro: same_trans)

lemma readBlockZip64EndOfCentralLocator_same:
  "readBlockZip64EndOfCentralLocator z = Inr z' \<Longrightarrow> same (ze_reader z) (ze_reader z')"
  by (auto simp: readBlockZip64EndOfCentralLocator_def rbind_eq_Inr split: if_splits dest!: readInt_same)
    (blast intro: same_trans)

lemma readBlockZip64EndOfCentral_same:
  assumes "readBlockZip64EndOfCentral z = Some (Inr z')"
  shows "same (ze_reader z) (ze_reader z')"
proof -
  from assms obtain n1 r1 r2 n3 r3 n4 r4 n5 r5 n6 r6 n7 r7 n8 r8 fs where
    q: "readInt 8 (ze_reader z) = Inr (n1, r1)" "skip 4 r1 = Inr r2" "readInt 4 r2 = Inr (n3, r3)"
    "readInt 4 r3 = Inr (n4, r4)" "readInt 8 r4 = Inr (n5, r5)" "readInt 8 r5 = Inr (n6, r6)"
    "readInt 8 r6 = Inr (n7, r7)" "readInt 8 r7 = Inr (n8, r8)"
    "zip64_data_loop 0 (n1 - 44) Map.empty r8 = Some (Inr (fs, ze_reader z'))"
    by (auto simp: readBlockZip64EndOfCentral_def obind_eq_Some)
  have "same (ze_reader z) r8"
    using q(1-8) by (meson readInt_same skip_same same_trans)
  moreover have "same r8 (ze_reader z')" using zip64_data_loop_same [OF q(9)] by blast
  ultimately show ?thesis by (rule same_trans)
qed

lemma readZip64End_same:
  assumes "readZip64End z = Some (Inr z')"
  shows "same (ze_reader z) (ze_reader z')"
proof -
  define z0 where "z0 = z\<lparr>zip64 := True\<rparr>"
  have r0: "ze_reader z0 = ze_reader z" by (simp add: z0_def)
  from assms obtain r1 r2 z2 b r3 n r4 r5 z3 where
    q: "setIndex (lastIndexOfSignature ZIP64_CENTRAL_DIRECTORY_LOCATOR (ze_reader z)) (ze_reader z) = Inr r1"
    "checkSignature ZIP64_CENTRAL_DIRECTORY_LOCATOR r1 = Inr r2"
    "readBlockZip64EndOfCentralLocator (at_reader r2 z0) = Inr z2"
    "isSignature (relativeOffsetEndOfZip64CentralDir z2) ZIP64_CENTRAL_DIRECTORY_END (ze_reader z2) = Inr (b, r3)"
    "setIndex n r3 = Inr r4"
    "checkSignature ZIP64_CENTRAL_DIRECTORY_END r4 = Inr r5"
    "readBlockZip64EndOfCentral (at_reader r5 z3) = Some (Inr z')"
    unfolding readZip64End_def z0_def [symmetric] Let_def r0
    by (auto simp: obind_eq_Some split: if_splits)
  have "same r2 (ze_reader z2)" "same r5 (ze_reader z')"
    using readBlockZip64EndOfCentralLocator_same [OF q(3)] readBlockZip64EndOfCentral_same [OF q(7)]
    by (simp_all add: at_reader_def)
  with q(1,2,4,5,6) show ?thesis
    by (meson setIndex_same checkSignature_same isSignature_same same_trans)
qed

text \<open>
  The end signature was found at the offset, so the test for a central header at the same
  offset fails, and the zero becomes the number of extra bytes.
\<close>

lemma checkSignature_slice:
  assumes "checkSignature sig r = Inr r'" "length sig = 4" "0 \<le> rzero r + rindex r"
  shows "js_slice (rdata r) (rzero r + rindex r) (rzero r + rindex r + 4) = sig_codes sig"
proof -
  let ?s = "js_slice (rdata r) (rzero r + rindex r) (rzero r + rindex r + 4)"
  have "length ?s \<le> 4"
    using assms(3) by (simp add: js_slice_def Let_def slice_index_def min_def) arith
  then have "same_four (sig_codes sig) ?s \<Longrightarrow> ?s = sig_codes sig"
    using assms(2) four_eq [of "sig_codes sig" ?s] by (auto simp: same_four_def sig_codes_def)
  then show ?thesis
    using assms(1) by (cases "rkind r") (auto simp: checkSignature_def rbind_eq_Inr readAndCheckSignature_def
        array_readAndCheckSignature_def string_readAndCheckSignature_def array_readData_def
        uint8_readData_def node_readData_def string_readData_def split: if_splits)
qed

lemma readString_slice:
  assumes "readString 4 r = Inr (s, r')"
  shows "s = map word_of_int (js_slice (rdata r) (rzero r + rindex r) (rzero r + rindex r + 4))"
  using assms by (cases "rkind r") (auto simp: readString_def rbind_eq_Inr readData_def
      array_readData_def uint8_readData_def node_readData_def string_readData_def split: if_splits)

lemma not_central:
  assumes "setIndex off r = Inr r1" "checkSignature CENTRAL_DIRECTORY_END r1 = Inr r2" "same r1 r3" "rzero r = 0"
    and "isSignature off CENTRAL_FILE_HEADER r3 = Inr (b, r4)"
  shows "\<not> b"
proof -
  have i: "rindex r1 = off" "0 \<le> off" "rzero r1 = 0"
    using assms(1,4) by (auto simp: setIndex_def checkIndex_def rbind_eq_Inr split: if_splits)
  obtain r5 s r6 where q: "setIndex off r3 = Inr r5" "readString 4 r5 = Inr (s, r6)" "b \<longleftrightarrow> s = CENTRAL_FILE_HEADER"
    using assms(5) by (auto simp: isSignature_def Let_def rbind_eq_Inr)
  have "rindex r5 = off" "same r3 r5" using q(1) setIndex_same by (auto simp: setIndex_def rbind_eq_Inr)
  then have "js_slice (rdata r5) (rzero r5 + rindex r5) (rzero r5 + rindex r5 + 4) = sig_codes CENTRAL_DIRECTORY_END"
    using checkSignature_slice [OF assms(2)] assms(3) i by (simp add: same_def CENTRAL_DIRECTORY_END_def)
  then have "s = map word_of_int (sig_codes CENTRAL_DIRECTORY_END)" using readString_slice [OF q(2)] by simp
  then show ?thesis using q(3) by (simp add: sig_codes_def CENTRAL_DIRECTORY_END_def CENTRAL_FILE_HEADER_def)
qed

lemma expected_end_reader: "expected_end_offset (z\<lparr>ze_reader := r\<rparr>) = expected_end_offset z"
  by (simp add: expected_end_offset_def Let_def)

lemma readEndOfCentral_zero:
  assumes "readEndOfCentral dec z = Some (Inr z')" "rzero (ze_reader z) = 0"
  shows "rzero (ze_reader z') = lastIndexOfSignature CENTRAL_DIRECTORY_END (ze_reader z) - expected_end_offset z' \<and>
    0 \<le> rzero (ze_reader z') \<and> rdata (ze_reader z') = rdata (ze_reader z) \<and>
    rlength (ze_reader z') = rlength (ze_reader z) \<and> rkind (ze_reader z') = rkind (ze_reader z)"
proof -
  let ?off = "lastIndexOfSignature CENTRAL_DIRECTORY_END (ze_reader z)"
  have "\<not> ?off < 0"
    using assms(1) by (auto simp: readEndOfCentral_def Let_def obind_eq_Some)
  with assms(1) obtain r1 r2 z2 z3 where
    q: "setIndex ?off (ze_reader z) = Inr r1" "checkSignature CENTRAL_DIRECTORY_END r1 = Inr r2"
    "readBlockEndOfCentral dec (at_reader r2 z) = Inr z2"
    "(if needs_zip64 z2 then readZip64End z2 else Some (Inr z2)) = Some (Inr z3)"
    "adjust_zero ?off z3 = Inr z'"
    by (auto simp: readEndOfCentral_def Let_def obind_eq_Some)
  have s12: "same (ze_reader z) r1" "same r1 r2" using q(1,2) setIndex_same checkSignature_same by auto
  have "same r2 (ze_reader z2)" using readBlockEndOfCentral_same [OF q(3)] by (simp add: at_reader_def)
  moreover have "same (ze_reader z2) (ze_reader z3)"
    using q(4) readZip64End_same by (auto split: if_splits)
  ultimately have s3: "same r1 (ze_reader z3)" using s12 same_trans by blast
  then have s: "same (ze_reader z) (ze_reader z3)" using s12 same_trans by blast
  let ?x = "?off - expected_end_offset z3"
  consider "?x > 0" | "?x = 0" | "?x < 0" by linarith
  then show ?thesis
  proof cases
    case 1
    then obtain b r4 where b: "isSignature ?off CENTRAL_FILE_HEADER (ze_reader z3) = Inr (b, r4)"
      "z' = (if b then at_reader r4 z3 else at_reader (r4\<lparr>rzero := ?x\<rparr>) z3)"
      using q(5) by (auto simp: adjust_zero_def Let_def rbind_eq_Inr split: if_splits)
    have "\<not> b" using not_central [OF q(1,2) s3 assms(2) b(1)] .
    moreover have "same (ze_reader z) r4" using isSignature_same [OF b(1)] s same_trans by blast
    ultimately show ?thesis using b(2) 1 by (simp add: at_reader_def same_def expected_end_reader)
  next
    case 2
    then show ?thesis using q(5) s assms(2) by (simp add: adjust_zero_def Let_def same_def)
  next
    case 3
    then show ?thesis using q(5) by (simp add: adjust_zero_def Let_def)
  qed
qed

lemma newZipEntries_reader:
  "ze_reader (newZipEntries u8 type d) = readerFor u8 type d" "rzero (readerFor u8 type d) = 0"
  by (simp_all add: newZipEntries_def readerFor_def newReader_def)

text \<open>
  Property C27. Where the archive starts: whenever the end of the central directory is
  accepted, every later offset is counted from the difference between where the end record
  was found and where its own fields put it. (The branch of \<open>readEndOfCentral\<close> that
  would keep the offsets as they are is never taken: it tests for another signature at the
  very place where the end signature has just been checked.)
\<close>

theorem archive_start:
  assumes "readEndOfCentral decodeFileName (newZipEntries uint8array type d) = Some (Inr z)"
  shows "rzero (ze_reader z) =
    lastIndexOfSignature CENTRAL_DIRECTORY_END (readerFor uint8array type d) - expected_end_offset z \<and>
    0 \<le> rzero (ze_reader z)"
  using readEndOfCentral_zero [OF assms] by (simp add: newZipEntries_reader)

definition demo_archive_bytes :: "int list" where
  "demo_archive_bytes = [1, 2] @ map uint (zip_layout demo_config [] [demo_source])"

lemma demo_junk: "bytes_ok [1, 2]"
  by (simp add: bytes_ok_def)

theorem archive_start_witness:
  "\<exists>z. readEndOfCentral utf8decode (newZipEntries True TUint8 demo_archive_bytes) = Some (Inr z) \<and>
    rzero (ze_reader z) = lastIndexOfSignature CENTRAL_DIRECTORY_END
      (readerFor True TUint8 demo_archive_bytes) - expected_end_offset z \<and> rzero (ze_reader z) = 2"
proof -
  obtain k z where z: "readEndOfCentral utf8decode (newZipEntries True TUint8 demo_archive_bytes) = Some (Inr z)"
    "ze_reader z = (mk k [] demo_archive_bytes [])\<lparr>rzero := int (length [1 :: int, 2])\<rparr>"
    using end_of_archive [OF demo_archive demo_junk, of True TUint8]
    unfolding demo_archive_bytes_def by blast
  show ?thesis using archive_start [OF z(1)] z by auto
qed

section \<open>Every other input is answered\<close>

lemma sig_scan_same: "same r r' \<Longrightarrow> lastIndexOfSignature sig r' = lastIndexOfSignature sig r"
  by (cases "rkind r") (simp_all add: same_def lastIndexOfSignature_def
      array_lastIndexOfSignature_def string_lastIndexOfSignature_def Let_def)

lemma sig_scan_numeral:
  "sig_scan d s (numeral n) =
    (if sig_at d s (pred_numeral n) then int (pred_numeral n) else sig_scan d s (pred_numeral n))"
  by (simp add: numeral_eq_Suc)

lemma readEndOfCentral_returns:
  assumes "lastIndexOfSignature ZIP64_CENTRAL_DIRECTORY_LOCATOR (ze_reader z) < 0"
  shows "readEndOfCentral dec z \<noteq> None"
proof
  let ?off = "lastIndexOfSignature CENTRAL_DIRECTORY_END (ze_reader z)"
  assume n: "readEndOfCentral dec z = None"
  then have "\<not> ?off < 0"
    by (auto simp: readEndOfCentral_def Let_def obind_eq_None)
  with n obtain r1 r2 z2 where
    q: "setIndex ?off (ze_reader z) = Inr r1" "checkSignature CENTRAL_DIRECTORY_END r1 = Inr r2"
    "readBlockEndOfCentral dec (at_reader r2 z) = Inr z2" "readZip64End z2 = None"
    by (auto simp: readEndOfCentral_def Let_def obind_eq_None split: if_splits)
  have "same (ze_reader z) (ze_reader z2)"
    using setIndex_same [OF q(1)] checkSignature_same [OF q(2)] readBlockEndOfCentral_same [OF q(3)]
    by (auto simp: at_reader_def same_def)
  then have "lastIndexOfSignature ZIP64_CENTRAL_DIRECTORY_LOCATOR (ze_reader z2) < 0"
    using assms sig_scan_same by simp
  then show False using q(4) by (simp add: readZip64End_def Let_def)
qed

text \<open>
  Property C11. Every input is answered: any binary data in which no ZIP64 locator occurs,
  however corrupt, makes \<open>load\<close> return its entries or throw; no loop runs forever.
\<close>

theorem load_returns:
  assumes "bytes_ok d"
    and "lastIndexOfSignature ZIP64_CENTRAL_DIRECTORY_LOCATOR (readerFor uint8array type d) < 0"
  shows "load decodeFileName uint8array type d \<noteq> None"
proof
  let ?z0 = "newZipEntries uint8array type d"
  assume "load decodeFileName uint8array type d = None"
  moreover have "readEndOfCentral decodeFileName ?z0 \<noteq> None"
    using readEndOfCentral_returns [of ?z0] assms(2) by (simp add: newZipEntries_reader)
  ultimately obtain z where z: "readEndOfCentral decodeFileName ?z0 = Some (Inr z)" "readCentralDir z = None"
    by (auto simp: load_def obind_eq_None)
  obtain r where r: "setIndex (centralDirOffset z) (ze_reader z) = Inr r" "central_dir_loop r (ze_files z) = None"
    using z(2) by (auto simp: readCentralDir_def obind_eq_None split: if_splits)
  obtain k where k: "readerFor uint8array type d = mk k [] [] d"
    using newReader_value [OF assms(1)] by (metis readerFor_def)
  have f: "0 \<le> rzero (ze_reader z)" "rdata (ze_reader z) = d" "rlength (ze_reader z) = int (length d)"
    using readEndOfCentral_zero [OF z(1)] by (simp_all add: newZipEntries_reader k, simp_all add: mk_def)
  have "good r"
    using r(1) f assms(1)
    by (auto simp: setIndex_def checkIndex_def rbind_eq_Inr good_def reader_ok_def split: if_splits)
  then show False using central_dir_loop_returns [of r "ze_files z"] r(2) by (simp add: returns_def)
qed

theorem load_returns_witness:
  "load utf8decode True TUint8 [80, 75, 1, 2, 255, 255, 255, 255] \<noteq> None"
proof (rule load_returns)
  show "bytes_ok [80, 75, 1, 2, 255, 255, 255, 255]" by (simp add: bytes_ok_def)
  show "lastIndexOfSignature ZIP64_CENTRAL_DIRECTORY_LOCATOR
      (readerFor True TUint8 [80, 75, 1, 2, 255, 255, 255, 255]) < 0"
    by (simp add: readerFor_def newReader_def lastIndexOfSignature_def array_lastIndexOfSignature_def
        Let_def sig_scan_numeral sig_at_def sig_codes_def js_and_masks ZIP64_CENTRAL_DIRECTORY_LOCATOR_def)
qed

end
