(* ===== verification/Search.thy ===== *)
theory Search
  imports JsPrelude
begin

text \<open>
  \<open>search.js\<close> of the documentation: the ranking of the search index for what the reader typed,
  the menu with its category lines, the highlighting and the page an item leads to. The indexes are
  data of the page; the comparison of letters without case is the parameter \<open>canon\<close>, about which
  nothing is assumed. The regular expressions the code builds are modelled by what they match: the
  typed text is escaped, so it stands for itself.
\<close>

section \<open>Items\<close>

datatype category = Modules | Packages | Types | Members | SearchTags

fun category_name :: "category \<Rightarrow> jsstr" where
  "category_name Modules = js ''Modules''"
| "category_name Packages = js ''Packages''"
| "category_name Types = js ''Types''"
| "category_name Members = js ''Members''"
| "category_name SearchTags = js ''SearchTags''"

text \<open>An item of an index; \<open>None\<close> is an undefined property.\<close>

record item =
  it_l :: jsstr
  it_p :: "jsstr option"
  it_c :: "jsstr option"
  it_m :: "jsstr option"
  it_d :: "jsstr option"
  it_h :: "jsstr option"
  it_u :: "jsstr option"
  it_url :: "jsstr option"
  it_category :: "category option"

definition noResult :: item where
  "noResult = \<lparr>it_l = js ''No results found'', it_p = None, it_c = None, it_m = None, it_d = None, it_h = None,
     it_u = None, it_url = None, it_category = None\<rparr>"

text \<open>A property as a condition, and where it is added to a text.\<close>

definition truthy :: "jsstr option \<Rightarrow> bool" where
  "truthy v \<longleftrightarrow> v \<noteq> None \<and> v \<noteq> Some []"

definition as_text :: "jsstr option \<Rightarrow> jsstr" where
  "as_text v = (case v of None \<Rightarrow> js ''undefined'' | Some s \<Rightarrow> s)"

section \<open>Matching\<close>

text \<open>
  \<open>exactMatcher\<close> and \<open>secondaryMatcher\<close> ignore case; where the second matches is wanted for the
  highlighting.
\<close>

definition exact_match :: "(jschar \<Rightarrow> jschar) \<Rightarrow> jsstr \<Rightarrow> jsstr \<Rightarrow> bool" where
  "exact_match canon t s \<longleftrightarrow> map canon s = map canon t"

definition starts_with :: "(jschar \<Rightarrow> jschar) \<Rightarrow> jsstr \<Rightarrow> jsstr \<Rightarrow> bool" where
  "starts_with canon t s \<longleftrightarrow> map canon (take (length t) s) = map canon t"

fun find_text :: "(jschar \<Rightarrow> jschar) \<Rightarrow> jsstr \<Rightarrow> jsstr \<Rightarrow> nat option" where
  "find_text canon t [] = (if t = [] then Some 0 else None)"
| "find_text canon t (c # s) =
     (if starts_with canon t (c # s) then Some 0 else map_option Suc (find_text canon t s))"

definition secondary_match :: "(jschar \<Rightarrow> jschar) \<Rightarrow> jsstr \<Rightarrow> jsstr \<Rightarrow> bool" where
  "secondary_match canon t s \<longleftrightarrow> find_text canon t s \<noteq> None"

text \<open>
  \<open>camelCaseRegexp\<close>: the term is cut before its upper-case letters, and between the pieces there
  may be any characters of \<open>[a-z0-9_$]\<close>, as few as possible. The matcher gives the length of the
  match at the start of a text.
\<close>

definition is_upper :: "jschar \<Rightarrow> bool" where
  "is_upper c \<longleftrightarrow> 0x41 \<le> uint c \<and> uint c \<le> 0x5A"

definition gap_char :: "jschar \<Rightarrow> bool" where
  "gap_char c \<longleftrightarrow> 0x61 \<le> uint c \<and> uint c \<le> 0x7A \<or> 0x30 \<le> uint c \<and> uint c \<le> 0x39 \<or> c = 0x5F \<or> c = 0x24"

fun camel_split :: "jsstr \<Rightarrow> jsstr list" where
  "camel_split [] = [[]]"
| "camel_split [c] = [[c]]"
| "camel_split (c # d # s) =
     (if is_upper d then [c] # camel_split (d # s)
      else case camel_split (d # s) of p # ps \<Rightarrow> (c # p) # ps | [] \<Rightarrow> [[c]])"

function (sequential) camel_at :: "jsstr list \<Rightarrow> jsstr \<Rightarrow> nat option"
and camel_gap :: "jsstr list \<Rightarrow> jsstr \<Rightarrow> nat option" where
  "camel_at [] s = Some 0"
| "camel_at (p # ps) s =
     (if take (length p) s \<noteq> p then None
      else if ps = [] then Some (length p)
      else map_option ((+) (length p)) (camel_gap ps (drop (length p) s)))"
| "camel_gap ps s =
     (case camel_at ps s of
        Some n \<Rightarrow> Some n
      | None \<Rightarrow> (case s of [] \<Rightarrow> None | c # s' \<Rightarrow> if gap_char c then map_option Suc (camel_gap ps s') else None))"
  by pat_completeness auto
termination
  by (relation "measure (\<lambda>x. case x of Inl (ps, s) \<Rightarrow> 2 * (length ps + length s) | Inr (ps, s) \<Rightarrow> 2 * (length ps + length s) + 1)")
    auto

definition camel_match :: "jsstr \<Rightarrow> jsstr \<Rightarrow> bool" where
  "camel_match t s \<longleftrightarrow> camel_at (camel_split t) s \<noteq> None"

declare camel_gap.simps [simp del]

section \<open>Ranking\<close>

datatype rank = Exact | Camel | Secondary | NoMatch

definition rank_of :: "bool \<Rightarrow> bool \<Rightarrow> bool \<Rightarrow> rank" where
  "rank_of exact camel secondary =
     (if exact then Exact else if camel then Camel else if secondary then Secondary else NoMatch)"

text \<open>\<open>nestedName\<close>: what follows the last dot.\<close>

definition nestedName :: "item \<Rightarrow> jsstr" where
  "nestedName e = rev (takeWhile (\<lambda>c. c \<noteq> 0x2E) (rev (it_l e)))"

definition module_rank :: "(jschar \<Rightarrow> jschar) \<Rightarrow> jsstr \<Rightarrow> item \<Rightarrow> rank" where
  "module_rank canon t e = rank_of (exact_match canon t (it_l e)) (camel_match t (it_l e)) (secondary_match canon t (it_l e))"

definition package_rank :: "(jschar \<Rightarrow> jschar) \<Rightarrow> jsstr \<Rightarrow> item \<Rightarrow> rank" where
  "package_rank canon t e =
     (let pkg = (if truthy (it_m e) then as_text (it_m e) @ js ''/'' @ it_l e else it_l e)
      in rank_of (exact_match canon t (it_l e)) (camel_match t pkg) (secondary_match canon t pkg))"

definition type_rank :: "(jschar \<Rightarrow> jschar) \<Rightarrow> jsstr \<Rightarrow> item \<Rightarrow> rank" where
  "type_rank canon t e =
     (let s = nestedName e
      in rank_of (exact_match canon t s) (camel_match t s) (secondary_match canon t (as_text (it_p e) @ js ''.'' @ it_l e)))"

definition member_rank :: "(jschar \<Rightarrow> jschar) \<Rightarrow> jsstr \<Rightarrow> item \<Rightarrow> rank" where
  "member_rank canon t e =
     (let s = nestedName e
      in rank_of (exact_match canon t s) (camel_match t s) (secondary_match canon t (as_text (it_c e) @ js ''.'' @ it_l e)))"

definition tag_rank :: "(jschar \<Rightarrow> jschar) \<Rightarrow> jsstr \<Rightarrow> item \<Rightarrow> rank" where
  "tag_rank canon t e = rank_of (exact_match canon t (it_l e)) False (secondary_match canon t (it_l e))"

text \<open>The loop over one index: the results, the secondary results and the count of exact matches.\<close>

fun collect :: "(item \<Rightarrow> rank) \<Rightarrow> category \<Rightarrow> item list \<Rightarrow> item list \<times> item list \<times> nat \<Rightarrow> item list \<times> item list \<times> nat" where
  "collect f cat [] acc = acc"
| "collect f cat (e # es) (result, secondaryresult, n) =
     (let e' = e\<lparr>it_category := Some cat\<rparr>
      in collect f cat es (case f e of
           Exact \<Rightarrow> (result @ [e'], secondaryresult, n + 1)
         | Camel \<Rightarrow> (result @ [e'], secondaryresult, n)
         | Secondary \<Rightarrow> (result, secondaryresult @ [e'], n)
         | NoMatch \<Rightarrow> (result, secondaryresult, n)))"

text \<open>\<open>concatResults\<close> gives both lists and empties the second; one step per index that is loaded.\<close>

definition concatResults :: "item list \<Rightarrow> item list \<Rightarrow> item list \<times> item list" where
  "concatResults a1 a2 = (a1 @ a2, [])"

definition search_index ::
  "(item \<Rightarrow> rank) \<Rightarrow> category \<Rightarrow> item list option \<Rightarrow> item list \<times> item list \<times> nat \<Rightarrow> item list \<times> item list \<times> nat" where
  "search_index f cat idx st =
     (case idx of
        None \<Rightarrow> st
      | Some es \<Rightarrow>
          let (result, secondaryresult, displayCount) = st;
              (found, secondaryresult, count) = collect f cat es ([], secondaryresult, 0);
              (found, secondaryresult) = concatResults found secondaryresult
          in (result @ found, secondaryresult, if count > displayCount then count else displayCount))"

record indexes =
  moduleSearchIndex :: "item list option"
  packageSearchIndex :: "item list option"
  typeSearchIndex :: "item list option"
  memberSearchIndex :: "item list option"
  tagSearchIndex :: "item list option"

text \<open>\<open>counter\<close>: at most \<open>displayCount\<close> items of each category pass.\<close>

fun counter :: "nat \<Rightarrow> (category \<Rightarrow> nat) \<Rightarrow> item list \<Rightarrow> item list" where
  "counter displayCount count [] = []"
| "counter displayCount count (e # es) =
     (case it_category e of
        None \<Rightarrow> counter displayCount count es
      | Some cat \<Rightarrow>
          let count = count(cat := count cat + 1); rest = counter displayCount count es
          in if count cat \<le> displayCount then e # rest else rest)"

definition search_source :: "(jschar \<Rightarrow> jschar) \<Rightarrow> jsstr \<Rightarrow> indexes \<Rightarrow> item list" where
  "search_source canon term ix =
     (let st = search_index (module_rank canon term) Modules (moduleSearchIndex ix) ([], [], 0);
          st = search_index (package_rank canon term) Packages (packageSearchIndex ix) st;
          st = search_index (type_rank canon term) Types (typeSearchIndex ix) st;
          st = search_index (member_rank canon term) Members (memberSearchIndex ix) st;
          (result, secondaryresult, displayCount) = search_index (tag_rank canon term) SearchTags (tagSearchIndex ix) st;
          displayCount = (if displayCount > 500 then displayCount else 500)
      in counter displayCount (\<lambda>_. 0) result)"

text \<open>\<open>response\<close>: what the menu shows.\<close>

definition search_response :: "item list \<Rightarrow> item list" where
  "search_response content = (if content = [] then [noResult] else content)"

section \<open>The menu\<close>

datatype menu_line = CategoryLine jsstr | ItemLine item jsstr

fun renderMenu :: "category option \<Rightarrow> item list \<Rightarrow> menu_line list" where
  "renderMenu currentCategory [] = []"
| "renderMenu currentCategory (e # es) =
     (let header = (it_l e \<noteq> it_l noResult \<and> it_category e \<noteq> currentCategory);
          line = ItemLine e (case it_category e of
            Some cat \<Rightarrow> category_name cat @ js '' : '' @ it_l e | None \<Rightarrow> it_l e)
      in (if header
          then [CategoryLine (case it_category e of Some cat \<Rightarrow> category_name cat | None \<Rightarrow> js ''undefined'')] else [])
         @ line # renderMenu (if header then it_category e else currentCategory) es)"

text \<open>\<open>getHighlightedText\<close>: the first match, of the camel-case expression or else of the term.\<close>

definition highlight_at :: "nat \<Rightarrow> nat \<Rightarrow> jsstr \<Rightarrow> jsstr" where
  "highlight_at i n s = take i s @ js ''<span class=\"resultHighlight\">'' @ take n (drop i s) @ js ''</span>'' @ drop (i + n) s"

fun camel_find :: "jsstr list \<Rightarrow> jsstr \<Rightarrow> (nat \<times> nat) option" where
  "camel_find ps [] = map_option (\<lambda>n. (0, n)) (camel_at ps [])"
| "camel_find ps (c # s) =
     (case camel_at ps (c # s) of
        Some n \<Rightarrow> Some (0, n)
      | None \<Rightarrow> map_option (\<lambda>(i, n). (Suc i, n)) (camel_find ps s))"

definition getHighlightedText :: "(jschar \<Rightarrow> jschar) \<Rightarrow> jsstr \<Rightarrow> jsstr \<Rightarrow> jsstr" where
  "getHighlightedText canon term item =
     (case camel_find (camel_split term) item of
        Some (i, n) \<Rightarrow> highlight_at i n item
      | None \<Rightarrow> (case find_text canon term item of
          Some i \<Rightarrow> highlight_at i (length term) item
        | None \<Rightarrow> item))"

definition renderItem :: "(jschar \<Rightarrow> jschar) \<Rightarrow> jsstr \<Rightarrow> item \<Rightarrow> jsstr" where
  "renderItem canon term e =
     (let hl = getHighlightedText canon term;
          label = (case it_category e of
             Some Modules \<Rightarrow> hl (it_l e)
           | Some Packages \<Rightarrow> if truthy (it_m e) then hl (as_text (it_m e) @ js ''/'' @ it_l e) else hl (it_l e)
           | Some Types \<Rightarrow> if truthy (it_p e) then hl (as_text (it_p e) @ js ''.'' @ it_l e) else hl (it_l e)
           | Some Members \<Rightarrow> hl (as_text (it_p e) @ js ''.'' @ as_text (it_c e) @ js ''.'' @ it_l e)
           | Some SearchTags \<Rightarrow> hl (it_l e)
           | None \<Rightarrow> it_l e);
          holder = js ''<span class=\"searchTagHolderResult\"> ('' @ as_text (it_h e) @ js '')</span>''
      in if it_category e = Some SearchTags
         then if truthy (it_d e)
              then label @ holder @ js ''<br><span class=\"searchTagDescResult\">'' @ as_text (it_d e) @ js ''</span><br>''
              else label @ holder
         else label)"

section \<open>Where an item leads\<close>

definition dots_to_slashes :: "jsstr \<Rightarrow> jsstr" where
  "dots_to_slashes s = map (\<lambda>c. if c = 0x2E then 0x2F else c) s"

definition getURLPrefix :: "bool \<Rightarrow> item list option \<Rightarrow> item \<Rightarrow> jsstr" where
  "getURLPrefix useModuleDirectories packages e =
     (if useModuleDirectories
      then if it_category e = Some Modules then it_l e @ js ''/''
           else if it_category e = Some Packages \<and> truthy (it_m e) then as_text (it_m e) @ js ''/''
           else if it_category e = Some Types \<and> truthy (it_p e) \<or> it_category e = Some Members
           then fold (\<lambda>q urlPrefix. if it_p e = Some (it_l q) then as_text (it_m q) @ js ''/'' else urlPrefix)
                  (case packages of None \<Rightarrow> [] | Some qs \<Rightarrow> qs) []
           else []
      else [])"

definition unnamed :: jsstr where "unnamed = js ''<Unnamed>''"

text \<open>\<open>select\<close>: the address, relative to the root, that is opened; none for the line without results.\<close>

definition select_url :: "bool \<Rightarrow> item list option \<Rightarrow> item \<Rightarrow> jsstr option" where
  "select_url useModuleDirectories packages e =
     (if it_l e = it_l noResult then None
      else let url = getURLPrefix useModuleDirectories packages e
      in Some (case it_category e of
           Some Modules \<Rightarrow> if useModuleDirectories then url @ js ''module-summary.html'' else it_l e @ js ''-summary.html''
         | Some Packages \<Rightarrow>
             if truthy (it_url e) then as_text (it_url e)
             else url @ dots_to_slashes (it_l e) @ js ''/package-summary.html''
         | Some Types \<Rightarrow>
             if truthy (it_url e) then as_text (it_url e)
             else if it_p e = Some unnamed then url @ it_l e @ js ''.html''
             else url @ dots_to_slashes (as_text (it_p e)) @ js ''/'' @ it_l e @ js ''.html''
         | Some Members \<Rightarrow>
             (if it_p e = Some unnamed then url @ as_text (it_c e) @ js ''.html'' @ js ''#''
              else url @ dots_to_slashes (as_text (it_p e)) @ js ''/'' @ as_text (it_c e) @ js ''.html'' @ js ''#'')
             @ (if truthy (it_url e) then as_text (it_url e) else it_l e)
         | Some SearchTags \<Rightarrow> url @ as_text (it_u e)
         | None \<Rightarrow> url))"

section \<open>What the camel-case expression matches\<close>

lemma camel_split_nonempty: "camel_split t \<noteq> []"
proof (cases t rule: camel_split.cases)
  case (3 c d s)
  then show ?thesis by (cases "is_upper d") (simp_all split: list.split)
qed simp_all

lemma strip_prefix: "take (length p) s = p \<and> Q (drop (length p) s) \<longleftrightarrow> (\<exists>r. s = p @ r \<and> Q r)"
proof
  assume "take (length p) s = p \<and> Q (drop (length p) s)"
  then show "\<exists>r. s = p @ r \<and> Q r" by (intro exI [of _ "drop (length p) s"]) (metis append_take_drop_id)
qed auto

lemma concat_camel_split: "concat (camel_split t) = t"
proof (induction t rule: camel_split.induct)
  case (3 c d s)
  obtain p ps where "camel_split (d # s) = p # ps" using camel_split_nonempty [of "d # s"] by (cases "camel_split (d # s)") auto
  then show ?case using 3 by (cases "is_upper d") simp_all
qed simp_all

lemma camel_gap_spec:
  "camel_gap ps s \<noteq> None \<longleftrightarrow> (\<exists>g s'. list_all gap_char g \<and> s = g @ s' \<and> camel_at ps s' \<noteq> None)"
proof (induction s)
  case Nil
  then show ?case by (subst camel_gap.simps) (auto split: option.split)
next
  case (Cons c s)
  have "camel_gap ps (c # s) \<noteq> None \<longleftrightarrow> camel_at ps (c # s) \<noteq> None \<or> gap_char c \<and> camel_gap ps s \<noteq> None"
    by (subst camel_gap.simps) (auto split: option.split)
  also have "\<dots> \<longleftrightarrow> (\<exists>g s'. list_all gap_char g \<and> c # s = g @ s' \<and> camel_at ps s' \<noteq> None)"
    unfolding Cons.IH
  proof
    assume "camel_at ps (c # s) \<noteq> None \<or> gap_char c \<and> (\<exists>g s'. list_all gap_char g \<and> s = g @ s' \<and> camel_at ps s' \<noteq> None)"
    then show "\<exists>g s'. list_all gap_char g \<and> c # s = g @ s' \<and> camel_at ps s' \<noteq> None"
    proof
      assume "camel_at ps (c # s) \<noteq> None"
      then show ?thesis by (intro exI [of _ "[]"] exI [of _ "c # s"]) simp
    next
      assume "gap_char c \<and> (\<exists>g s'. list_all gap_char g \<and> s = g @ s' \<and> camel_at ps s' \<noteq> None)"
      then obtain g s' where "list_all gap_char (c # g)" "c # s = (c # g) @ s'" "camel_at ps s' \<noteq> None" by auto
      then show ?thesis by blast
    qed
  next
    assume "\<exists>g s'. list_all gap_char g \<and> c # s = g @ s' \<and> camel_at ps s' \<noteq> None"
    then obtain g s' where g: "list_all gap_char g" "c # s = g @ s'" "camel_at ps s' \<noteq> None" by blast
    then show "camel_at ps (c # s) \<noteq> None \<or> gap_char c \<and> (\<exists>g s'. list_all gap_char g \<and> s = g @ s' \<and> camel_at ps s' \<noteq> None)"
      by (cases g) auto
  qed
  finally show ?case .
qed

lemma camel_at_spec:
  "camel_at (p # ps) s \<noteq> None \<longleftrightarrow>
     (\<exists>gaps rest. length gaps = length ps \<and> list_all (list_all gap_char) gaps \<and>
        s = p @ concat (map2 (@) gaps ps) @ rest)"
proof (induction ps arbitrary: p s)
  case Nil
  have "take (length p) s = p \<longleftrightarrow> (\<exists>rest. s = p @ rest)" by (metis append_eq_conv_conj append_take_drop_id)
  then show ?case by simp
next
  case (Cons q qs)
  have "camel_at (p # q # qs) s \<noteq> None \<longleftrightarrow> take (length p) s = p \<and> camel_gap (q # qs) (drop (length p) s) \<noteq> None" by simp
  also have "\<dots> \<longleftrightarrow> (\<exists>s1. s = p @ s1 \<and> camel_gap (q # qs) s1 \<noteq> None)"
    by (rule strip_prefix)
  also have "\<dots> \<longleftrightarrow> (\<exists>g s2. s = p @ g @ s2 \<and> list_all gap_char g \<and> camel_at (q # qs) s2 \<noteq> None)"
    unfolding camel_gap_spec by blast
  also have "\<dots> \<longleftrightarrow> (\<exists>g gaps rest. length gaps = length qs \<and> list_all (list_all gap_char) (g # gaps) \<and>
      s = p @ concat (map2 (@) (g # gaps) (q # qs)) @ rest)"
    unfolding Cons.IH by (simp del: camel_at.simps) blast
  also have "\<dots> \<longleftrightarrow> (\<exists>gaps rest. length gaps = length (q # qs) \<and> list_all (list_all gap_char) gaps \<and>
      s = p @ concat (map2 (@) gaps (q # qs)) @ rest)"
  proof
    assume "\<exists>g gaps rest. length gaps = length qs \<and> list_all (list_all gap_char) (g # gaps) \<and>
      s = p @ concat (map2 (@) (g # gaps) (q # qs)) @ rest"
    then obtain g gaps rest where "length gaps = length qs" "list_all (list_all gap_char) (g # gaps)"
      "s = p @ concat (map2 (@) (g # gaps) (q # qs)) @ rest" by blast
    then show "\<exists>gaps rest. length gaps = length (q # qs) \<and> list_all (list_all gap_char) gaps \<and>
      s = p @ concat (map2 (@) gaps (q # qs)) @ rest" by (intro exI [of _ "g # gaps"] exI [of _ rest]) simp
  next
    assume "\<exists>gaps rest. length gaps = length (q # qs) \<and> list_all (list_all gap_char) gaps \<and>
      s = p @ concat (map2 (@) gaps (q # qs)) @ rest"
    then obtain gs rest where gs: "length gs = length (q # qs)" "list_all (list_all gap_char) gs"
      "s = p @ concat (map2 (@) gs (q # qs)) @ rest" by blast
    then obtain g gaps where "gs = g # gaps" by (cases gs) auto
    with gs have "length gaps = length qs" "list_all (list_all gap_char) (g # gaps)"
      "s = p @ concat (map2 (@) (g # gaps) (q # qs)) @ rest" by simp_all
    then show "\<exists>g gaps rest. length gaps = length qs \<and> list_all (list_all gap_char) (g # gaps) \<and>
      s = p @ concat (map2 (@) (g # gaps) (q # qs)) @ rest" by blast
  qed
  finally show ?case .
qed

text \<open>
  The camel-case expression matches a name exactly when the name begins with the
  pieces of the term, in order, with only characters of \<open>[a-z0-9_$]\<close> between them; the pieces
  put together are the term, so a name that begins with the term matches.
\<close>

lemma camel_match_spec:
  "(camel_match t s \<longleftrightarrow>
     (\<exists>gaps rest. length gaps = length (tl (camel_split t)) \<and> list_all (list_all gap_char) gaps \<and>
        s = hd (camel_split t) @ concat (map2 (@) gaps (tl (camel_split t))) @ rest)) \<and>
   concat (camel_split t) = t \<and> camel_match t (t @ s)"
proof -
  obtain p ps where c: "camel_split t = p # ps" using camel_split_nonempty [of t] by (cases "camel_split t") auto
  have m: "camel_match t s \<longleftrightarrow> (\<exists>gaps rest. length gaps = length ps \<and> list_all (list_all gap_char) gaps \<and>
        s = p @ concat (map2 (@) gaps ps) @ rest)" for s
    unfolding camel_match_def c camel_at_spec ..
  have "concat (map2 (@) (replicate (length ps) []) ps) = concat ps" by (induction ps) simp_all
  then have "t @ s = p @ concat (map2 (@) (replicate (length ps) []) ps) @ s"
    using concat_camel_split [of t] by (simp add: c)
  moreover have "list_all (list_all gap_char) (replicate (length ps) [])" by (simp add: list_all_iff)
  ultimately have "camel_match t (t @ s)" unfolding m by (metis length_replicate)
  then show ?thesis using m [of s] concat_camel_split [of t] by (simp add: c)
qed

section \<open>What a search shows\<close>

definition in_category :: "category \<Rightarrow> item \<Rightarrow> item" where
  "in_category cat e = e\<lparr>it_category := Some cat\<rparr>"

lemma in_category_simps [simp]: "it_category (in_category cat e) = Some cat" "it_l (in_category cat e) = it_l e"
  by (simp_all add: in_category_def)

definition hits :: "(item \<Rightarrow> rank) \<Rightarrow> category \<Rightarrow> item list \<Rightarrow> item list" where
  "hits f cat es = map (in_category cat)
     (filter (\<lambda>e. f e = Exact \<or> f e = Camel) es @ filter (\<lambda>e. f e = Secondary) es)"

definition exact_count :: "(item \<Rightarrow> rank) \<Rightarrow> item list \<Rightarrow> nat" where
  "exact_count f es = length (filter (\<lambda>e. f e = Exact) es)"

lemma collect_hits:
  "collect f cat es (r, s, n) =
     (r @ map (in_category cat) (filter (\<lambda>e. f e = Exact \<or> f e = Camel) es),
      s @ map (in_category cat) (filter (\<lambda>e. f e = Secondary) es), n + exact_count f es)"
proof (induction es arbitrary: r s n)
  case (Cons e es)
  then show ?case by (cases "f e") (simp_all add: in_category_def exact_count_def Let_def)
qed (simp add: exact_count_def)

definition index_items :: "item list option \<Rightarrow> item list" where
  "index_items idx = (case idx of None \<Rightarrow> [] | Some es \<Rightarrow> es)"

lemma search_index_hits:
  "search_index f cat idx (r, [], n) =
     (r @ hits f cat (index_items idx), [], max n (exact_count f (index_items idx)))"
  by (cases idx)
    (auto simp: search_index_def collect_hits concatResults_def hits_def index_items_def exact_count_def max_def Let_def)

text \<open>The five indexes with their rankings, and how many items of each may be shown.\<close>

definition search_plan ::
  "(jschar \<Rightarrow> jschar) \<Rightarrow> jsstr \<Rightarrow> indexes \<Rightarrow> ((item \<Rightarrow> rank) \<times> category \<times> item list) list" where
  "search_plan canon t ix =
     [(module_rank canon t, Modules, index_items (moduleSearchIndex ix)),
      (package_rank canon t, Packages, index_items (packageSearchIndex ix)),
      (type_rank canon t, Types, index_items (typeSearchIndex ix)),
      (member_rank canon t, Members, index_items (memberSearchIndex ix)),
      (tag_rank canon t, SearchTags, index_items (tagSearchIndex ix))]"

definition display_limit :: "(jschar \<Rightarrow> jschar) \<Rightarrow> jsstr \<Rightarrow> indexes \<Rightarrow> nat" where
  "display_limit canon t ix = foldr (\<lambda>(f, cat, es). max (exact_count f es)) (search_plan canon t ix) 500"

lemma counter_group:
  assumes "list_all (\<lambda>e. it_category e = Some cat) es"
  shows "counter D count (es @ rest) =
    take (D - count cat) es @ counter D (count(cat := count cat + length es)) rest"
  using assms
proof (induction es arbitrary: count)
  case (Cons e es)
  define c where "c = count(cat := count cat + 1)"
  have c: "c cat = count cat + 1" "c(cat := n) = count(cat := n)" for n by (simp_all add: c_def)
  have "counter D c (es @ rest) = take (D - c cat) es @ counter D (c(cat := c cat + length es)) rest"
    by (rule Cons.IH) (use Cons.prems in simp)
  then have IH: "counter D c (es @ rest) =
      take (D - (count cat + 1)) es @ counter D (count(cat := count cat + 1 + length es)) rest"
    by (simp only: c)
  have n: "count cat + length (e # es) = count cat + 1 + length es" by simp
  have "counter D count ((e # es) @ rest) = (if count cat + 1 \<le> D then [e] else []) @ counter D c (es @ rest)"
    using Cons.prems by (simp add: c_def Let_def)
  moreover have "take (D - count cat) (e # es) =
      (if count cat + 1 \<le> D then [e] else []) @ take (D - (count cat + 1)) es"
  proof (cases "count cat < D")
    case True
    then have "D - count cat = Suc (D - (count cat + 1))" by simp
    then show ?thesis using True by simp
  qed simp
  ultimately show ?case by (simp only: n IH append_assoc)
qed simp

lemma counter_groups:
  assumes "distinct (map fst gs)" and "list_all (\<lambda>(cat, es). list_all (\<lambda>e. it_category e = Some cat) es) gs"
    and "list_all (\<lambda>(cat, es). count cat = 0) gs"
  shows "counter D count (concat (map snd gs)) = concat (map (\<lambda>(cat, es). take D es) gs)"
  using assms
proof (induction gs arbitrary: count)
  case (Cons g gs)
  obtain cat es where g: "g = (cat, es)" by fastforce
  define c where "c = count(cat := count cat + length es)"
  have z: "count cat = 0" "list_all (\<lambda>(k, es). count k = 0) gs" using Cons.prems(3) by (simp_all add: g)
  have "c k = 0" if "(k, es') \<in> set gs" for k es'
  proof -
    have "k \<noteq> cat" using Cons.prems(1) that by (force simp: g)
    then show ?thesis using z(2) that by (auto simp: c_def list_all_iff)
  qed
  then have "list_all (\<lambda>(k, es). c k = 0) gs" by (auto simp: list_all_iff)
  then have "counter D c (concat (map snd gs)) = concat (map (\<lambda>(cat, es). take D es) gs)"
    using Cons.IH [of c] Cons.prems by simp
  moreover have "counter D count (es @ concat (map snd gs)) = take (D - count cat) es @ counter D c (concat (map snd gs))"
    unfolding c_def by (rule counter_group) (use Cons.prems(2) in \<open>simp add: g\<close>)
  ultimately show ?case by (simp add: g z(1))
qed simp

lemma hits_category: "list_all (\<lambda>e. it_category e = Some cat) (hits f cat es)"
  by (auto simp: hits_def list_all_iff)

lemma search_source_plan:
  "search_source canon t ix =
     concat (map (\<lambda>(f, cat, es). take (display_limit canon t ix) (hits f cat es)) (search_plan canon t ix))"
proof -
  let ?gs = "map (\<lambda>(f, cat, es). (cat, hits f cat es)) (search_plan canon t ix)"
  let ?n = "foldr (\<lambda>(f, cat, es). max (exact_count f es)) (search_plan canon t ix) 0"
  have d: "(if ?n > 500 then ?n else 500) = display_limit canon t ix"
    by (simp add: display_limit_def search_plan_def max_def)
  have "search_source canon t ix = counter (if ?n > 500 then ?n else 500) (\<lambda>_. 0) (concat (map snd ?gs))"
    by (simp add: search_source_def search_index_hits search_plan_def Let_def max.commute max.left_commute)
  also have "\<dots> = concat (map (\<lambda>(cat, es). take (display_limit canon t ix) es) ?gs)"
    unfolding d by (rule counter_groups) (simp_all add: search_plan_def hits_category)
  also have "\<dots> = concat (map (\<lambda>(f, cat, es). take (display_limit canon t ix) (hits f cat es)) (search_plan canon t ix))"
    by (simp add: search_plan_def)
  finally show ?thesis .
qed

text \<open>
  Property C15. The results of a search: for each index in turn, first the items that match
  exactly or in camel case, in the order of the index, then those that contain the term, all of
  them up to a limit per category that is 500 or the largest count of exact matches. In
  particular every item shown matches, none is shown twice, and nothing is left over from one
  category to the next.
\<close>

theorem search_results:
  "search_source canon t ix =
     concat (map (\<lambda>(f, cat, es). take (display_limit canon t ix) (hits f cat es)) (search_plan canon t ix))"
  by (rule search_source_plan)

text \<open>
  The limit can hide an exact match. It is the larger of 500 and the largest count of
  exact matches, but within a category exact and camel-case matches share one list in the order of
  the index: an exact match behind 500 or more camel-case ones is not shown when there are not more
  exact matches than that.
\<close>

lemma exact_match_hidden:
  assumes "list_all (\<lambda>e. type_rank canon t e = Camel) pre" and "type_rank canon t e = Exact"
    and "500 \<le> length pre"
  shows "search_source canon t \<lparr>moduleSearchIndex = None, packageSearchIndex = None,
      typeSearchIndex = Some (pre @ [e]), memberSearchIndex = None, tagSearchIndex = None\<rparr> =
    map (in_category Types) (take 500 pre)"
proof -
  let ?ix = "\<lparr>moduleSearchIndex = None, packageSearchIndex = None,
      typeSearchIndex = Some (pre @ [e]), memberSearchIndex = None, tagSearchIndex = None\<rparr>"
  have f: "filter (\<lambda>e. type_rank canon t e = Exact \<or> type_rank canon t e = Camel) pre = pre"
    "filter (\<lambda>e. type_rank canon t e = Secondary) pre = []" "filter (\<lambda>e. type_rank canon t e = Exact) pre = []"
    using assms(1) by (induction pre) simp_all
  have "display_limit canon t ?ix = 500"
    by (simp add: display_limit_def search_plan_def exact_count_def f assms(2) index_items_def)
  moreover have "hits (type_rank canon t) Types (pre @ [e]) = map (in_category Types) (pre @ [e])"
    by (simp add: hits_def f assms(2))
  ultimately show ?thesis using assms(3)
    unfolding search_source_plan by (simp add: search_plan_def index_items_def hits_def [of _ _ "[]"] take_map)
qed

section \<open>The menu and the pages\<close>

text \<open>Items of one category follow each other, so the menu names each category once.\<close>

fun category_lines :: "menu_line list \<Rightarrow> jsstr list" where
  "category_lines [] = []"
| "category_lines (CategoryLine c # ls) = c # category_lines ls"
| "category_lines (ItemLine e label # ls) = category_lines ls"

lemma render_same:
  assumes "list_all (\<lambda>e. it_category e = Some cat) es"
  shows "category_lines (renderMenu (Some cat) (es @ rest)) = category_lines (renderMenu (Some cat) rest)"
  using assms by (induction es) (auto simp: Let_def)

lemma render_group:
  assumes "list_all (\<lambda>e. it_category e = Some cat \<and> it_l e \<noteq> it_l noResult) es" and "es \<noteq> []" and "cur \<noteq> Some cat"
  shows "category_lines (renderMenu cur (es @ rest)) = category_name cat # category_lines (renderMenu (Some cat) rest)"
proof -
  obtain e es' where "es = e # es'" using assms(2) by (cases es) auto
  then show ?thesis using assms(1,3) render_same [of cat es' rest] by (auto simp: Let_def list_all_iff)
qed

lemma render_groups:
  assumes "distinct (map fst gs)"
    and "list_all (\<lambda>(cat, es). list_all (\<lambda>e. it_category e = Some cat \<and> it_l e \<noteq> it_l noResult) es) gs"
    and "\<forall>cat. cur = Some cat \<longrightarrow> cat \<notin> fst ` set gs"
  shows "category_lines (renderMenu cur (concat (map snd gs))) =
    map (\<lambda>(cat, es). category_name cat) (filter (\<lambda>(cat, es). es \<noteq> []) gs)"
  using assms
proof (induction gs arbitrary: cur)
  case (Cons g gs)
  obtain cat es where g: "g = (cat, es)" by fastforce
  show ?case
  proof (cases "es = []")
    case True
    then show ?thesis using Cons by (simp add: g)
  next
    case False
    have "category_lines (renderMenu (Some cat) (concat (map snd gs))) =
        map (\<lambda>(cat, es). category_name cat) (filter (\<lambda>(cat, es). es \<noteq> []) gs)"
      by (rule Cons.IH) (use Cons.prems in \<open>auto simp: g\<close>)
    then show ?thesis using False Cons.prems render_group [of cat es cur "concat (map snd gs)"] by (auto simp: g)
  qed
qed simp

lemma groups_both:
  "list_all (\<lambda>(cat, es). list_all (\<lambda>e. P cat e) es) gs \<Longrightarrow> list_all Q (concat (map snd gs)) \<Longrightarrow>
     list_all (\<lambda>(cat, es). list_all (\<lambda>e. P cat e \<and> Q e) es) gs"
  by (induction gs) (auto simp: list_all_iff)

lemma group_nonempty:
  assumes "list_all (\<lambda>(cat, es). list_all (\<lambda>e. it_category e = Some cat) es) gs" "distinct (map fst gs)"
    and "(cat, es) \<in> set gs"
  shows "list_ex (\<lambda>e. it_category e = Some cat) (concat (map snd gs)) \<longleftrightarrow> es \<noteq> []"
  using assms
proof (induction gs)
  case (Cons g gs)
  obtain c xs where g: "g = (c, xs)" by fastforce
  show ?case
  proof (cases "c = cat")
    case True
    have "\<not> list_ex (\<lambda>e. it_category e = Some cat) (concat (map snd gs))"
    proof
      assume "list_ex (\<lambda>e. it_category e = Some cat) (concat (map snd gs))"
      then obtain k ys e where "(k, ys) \<in> set gs" "e \<in> set ys" "it_category e = Some cat" by (auto simp: list_ex_iff)
      moreover from this have "k = cat" using Cons.prems(1) by (auto simp: list_all_iff)
      ultimately show False using Cons.prems(2) True by (force simp: g)
    qed
    moreover have "xs = es" using Cons.prems(2,3) True by (force simp: g)
    ultimately show ?thesis using Cons.prems(1) True by (cases xs) (auto simp: g)
  next
    case False
    then have "\<not> list_ex (\<lambda>e. it_category e = Some cat) xs" using Cons.prems(1) by (auto simp: g list_ex_iff list_all_iff)
    then show ?thesis using Cons False by (auto simp: g)
  qed
qed simp

lemma filter_groups:
  assumes "\<And>cat es. (cat, es) \<in> set gs \<Longrightarrow> P cat \<longleftrightarrow> es \<noteq> []"
  shows "map category_name (filter P (map fst gs)) = map (\<lambda>(cat, es). category_name cat) (filter (\<lambda>(cat, es). es \<noteq> []) gs)"
  using assms
proof (induction gs)
  case (Cons g gs)
  obtain c es where g: "g = (c, es)" by fastforce
  have "P c \<longleftrightarrow> es \<noteq> []" by (rule Cons.prems) (simp add: g)
  moreover have "map category_name (filter P (map fst gs)) =
      map (\<lambda>(cat, es). category_name cat) (filter (\<lambda>(cat, es). es \<noteq> []) gs)"
    by (rule Cons.IH) (rule Cons.prems, simp)
  ultimately show ?case by (cases "es = []") (simp_all add: g)
qed simp

text \<open>
  From the reader's text to the menu: the category lines of the menu are those of the
  categories that have results, each once, in the order modules, packages, types, members, tags
  (no item being called like the line for no results).
\<close>

lemma search_menu:
  assumes "list_all (\<lambda>e. it_l e \<noteq> it_l noResult) (search_source canon t ix)"
  shows "category_lines (renderMenu None (search_source canon t ix)) =
    map category_name (filter (\<lambda>cat. list_ex (\<lambda>e. it_category e = Some cat) (search_source canon t ix))
      [Modules, Packages, Types, Members, SearchTags])"
proof -
  let ?g = "\<lambda>(f, cat, es). (cat, take (display_limit canon t ix) (hits f cat es))"
  let ?gs = "map ?g (search_plan canon t ix)"
  have s: "search_source canon t ix = concat (map snd ?gs)"
    by (simp add: search_source_plan search_plan_def)
  have cats: "map fst ?gs = [Modules, Packages, Types, Members, SearchTags]" by (simp add: search_plan_def)
  have dist: "distinct (map fst ?gs)" unfolding cats by simp
  have inc: "list_all (\<lambda>(cat, es). list_all (\<lambda>e. it_category e = Some cat) es) ?gs"
    using hits_category by (auto simp: list_all_iff dest!: in_set_takeD)
  have "list_all (\<lambda>(cat, es). list_all (\<lambda>e. it_category e = Some cat \<and> it_l e \<noteq> it_l noResult) es) ?gs"
    by (rule groups_both [OF inc]) (use assms in \<open>simp only: s\<close>)
  then have r: "category_lines (renderMenu None (search_source canon t ix)) =
      map (\<lambda>(cat, es). category_name cat) (filter (\<lambda>(cat, es). es \<noteq> []) ?gs)"
    unfolding s by (intro render_groups) (simp_all only: cats, simp_all)
  have e: "list_ex (\<lambda>e. it_category e = Some cat) (search_source canon t ix) \<longleftrightarrow> es \<noteq> []"
    if "(cat, es) \<in> set ?gs" for cat es
    unfolding s by (rule group_nonempty [OF inc dist that])
  have "map category_name (filter (\<lambda>cat. list_ex (\<lambda>e. it_category e = Some cat) (search_source canon t ix)) (map fst ?gs)) =
      map (\<lambda>(cat, es). category_name cat) (filter (\<lambda>(cat, es). es \<noteq> []) ?gs)"
    by (rule filter_groups) (rule e)
  then show ?thesis unfolding r cats by (rule sym)
qed

text \<open>A member leads to an anchor of the page of its type.\<close>

lemma member_page:
  assumes "it_category m = Some Members" and "it_category ty = Some Types" and "it_c m = Some (it_l ty)"
    and "it_p m = it_p ty" and "truthy (it_p ty)" and "\<not> truthy (it_url ty)"
    and "it_l m \<noteq> it_l noResult" and "it_l ty \<noteq> it_l noResult"
  shows "select_url useModuleDirectories packages m =
    map_option (\<lambda>page. page @ js ''#'' @ (if truthy (it_url m) then as_text (it_url m) else it_l m))
      (select_url useModuleDirectories packages ty)"
  using assms by (simp add: select_url_def getURLPrefix_def as_text_def Let_def)

text \<open>Highlighting only adds the two tags: the text before, in and after them is the label.\<close>

lemma highlighted_text:
  "getHighlightedText canon t s = s \<or>
     (\<exists>a b c. s = a @ b @ c \<and> getHighlightedText canon t s =
        a @ js ''<span class=\"resultHighlight\">'' @ b @ js ''</span>'' @ c)"
proof -
  have "take n (drop i s) @ drop (i + n) s = drop i s" for i n
    using append_take_drop_id [of n "drop i s"] by (simp add: add.commute)
  then have p: "s = take i s @ take n (drop i s) @ drop (i + n) s" for i n by (metis append_take_drop_id)
  have h: "\<exists>a b c. s = a @ b @ c \<and> highlight_at i n s =
      a @ js ''<span class=\"resultHighlight\">'' @ b @ js ''</span>'' @ c" for i n
    unfolding highlight_at_def using p by blast
  show ?thesis unfolding getHighlightedText_def by (auto split: option.split intro: h)
qed

end
