(* ===== verification/Pages.thy ===== *)
theory Pages
  imports Search ObjectStore
begin

text \<open>
  \<open>script.js\<close> of the documentation and the search box of \<open>search.js\<close>: the scripts a page adds to
  itself, the callbacks that read a zipped index, the rows and tabs of a summary table, and the box
  with its watermark. The constructor of \<open>JSZip\<close> is here because these callbacks call it.
\<close>

section \<open>The constructor of JSZip\<close>

record jszip =
  jz_files :: files
  jz_comment :: "jsstr option"
  jz_root :: jsstr

datatype script_error = ConstructorRemoved | MethodRemoved | NoScriptElement | NoSuchRow | NoSuchTab

definition newJSZip :: "nat \<Rightarrow> script_error + jszip" where
  "newJSZip arguments =
     (if arguments \<noteq> 0 then Inl ConstructorRemoved
      else Inr \<lparr>jz_files = no_files, jz_comment = None, jz_root = []\<rparr>)"

text \<open>\<open>clone\<close> copies the fields that are not functions; the table of files is shared, not copied.\<close>

definition jszip_clone :: "jszip \<Rightarrow> jszip" where
  "jszip_clone z = \<lparr>jz_files = jz_files z, jz_comment = jz_comment z, jz_root = jz_root z\<rparr>"

section \<open>Loading the scripts\<close>

text \<open>
  A page: the script elements in document order, the requests under way, and which of the index
  variables are set.
\<close>

datatype index_name = ModuleIndex | PackageIndex | TypeIndex | MemberIndex | TagIndex

fun index_file :: "index_name \<Rightarrow> string" where
  "index_file ModuleIndex = ''module-search-index''"
| "index_file PackageIndex = ''package-search-index''"
| "index_file TypeIndex = ''type-search-index''"
| "index_file MemberIndex = ''member-search-index''"
| "index_file TagIndex = ''tag-search-index''"

definition all_indexes :: "index_name list" where
  "all_indexes = [ModuleIndex, PackageIndex, TypeIndex, MemberIndex, TagIndex]"

record page =
  pg_scripts :: "string list"
  pg_requests :: "string list"
  pg_indexes :: "index_name set"

text \<open>\<open>createElem\<close> puts the new element before the first one; without one it throws.\<close>

definition createElem :: "string \<Rightarrow> string \<Rightarrow> page \<Rightarrow> script_error + page" where
  "createElem pathtoroot path pg =
     (if pg_scripts pg = [] then Inl NoScriptElement
      else Inr (pg\<lparr>pg_scripts := (pathtoroot @ path) # pg_scripts pg\<rparr>))"

fun create_all :: "string \<Rightarrow> string list \<Rightarrow> page \<Rightarrow> script_error + page" where
  "create_all root_path [] pg = Inr pg"
| "create_all root_path (p # ps) pg = rbind (createElem root_path p pg) (create_all root_path ps)"

text \<open>\<open>indexOf(s) > 0\<close>\<close>

fun index_of :: "string \<Rightarrow> string \<Rightarrow> nat option" where
  "index_of s [] = (if s = [] then Some 0 else None)"
| "index_of s (c # t) = (if take (length s) (c # t) = s then Some 0 else map_option Suc (index_of s t))"

definition found_after_start :: "string \<Rightarrow> string \<Rightarrow> bool" where
  "found_after_start s t \<longleftrightarrow> (case index_of s t of None \<Rightarrow> False | Some i \<Rightarrow> i > 0)"

definition old_browser :: "string \<Rightarrow> bool" where
  "old_browser userAgent \<longleftrightarrow>
     found_after_start ''MSIE '' userAgent \<or> found_after_start ''Trident/'' userAgent \<or> found_after_start ''Edge/'' userAgent"

definition library_scripts :: "string \<Rightarrow> string list" where
  "library_scripts userAgent =
     [''jquery/jszip/dist/jszip.js'', ''jquery/jszip-utils/dist/jszip-utils.js''] @
     (if old_browser userAgent then [''jquery/jszip-utils/dist/jszip-utils-ie.js''] else []) @ [''search.js'']"

definition loadScripts :: "string \<Rightarrow> string \<Rightarrow> page \<Rightarrow> script_error + page" where
  "loadScripts pathtoroot userAgent pg =
     rbind (create_all pathtoroot (library_scripts userAgent) pg) (\<lambda>pg.
       let pg = pg\<lparr>pg_requests := pg_requests pg @ map (\<lambda>i. pathtoroot @ index_file i @ ''.zip'') all_indexes\<rparr>
       in create_all pathtoroot
            (map (\<lambda>i. index_file i @ ''.js'') (filter (\<lambda>i. i \<notin> pg_indexes pg) all_indexes)) pg)"

text \<open>
  The callback of a request for a zipped index: \<open>new JSZip(data)\<close>, \<open>zip.load(data)\<close>,
  \<open>asText\<close>, \<open>JSON.parse\<close>, and the variable is set; and an index script that has run.
\<close>

definition zip_callback :: "index_name \<Rightarrow> page \<Rightarrow> script_error + page" where
  "zip_callback i pg =
     rbind (newJSZip 1) (\<lambda>zip.
     rbind (case removed_method of Inl e \<Rightarrow> Inl MethodRemoved | Inr u \<Rightarrow> Inr u) (\<lambda>u.
     Inr (pg\<lparr>pg_indexes := insert i (pg_indexes pg)\<rparr>)))"

definition index_script_run :: "index_name \<Rightarrow> page \<Rightarrow> page" where
  "index_script_run i pg = pg\<lparr>pg_indexes := insert i (pg_indexes pg)\<rparr>"

lemma create_all_scripts:
  "pg_scripts pg \<noteq> [] \<Longrightarrow>
     create_all r ps pg = Inr (pg\<lparr>pg_scripts := rev (map ((@) r) ps) @ pg_scripts pg\<rparr>)"
  by (induction ps arbitrary: pg) (simp_all add: createElem_def)

lemma loaded_scripts:
  assumes "pg_scripts pg \<noteq> []"
  shows "loadScripts r ua pg = Inr (pg\<lparr>
      pg_scripts := rev (map ((@) r) (library_scripts ua @ map (\<lambda>i. index_file i @ ''.js'')
        (filter (\<lambda>i. i \<notin> pg_indexes pg) all_indexes))) @ pg_scripts pg,
      pg_requests := pg_requests pg @ map (\<lambda>i. r @ index_file i @ ''.zip'') all_indexes\<rparr>)"
  using assms by (simp add: loadScripts_def create_all_scripts Let_def)

text \<open>A zipped index is never read: the constructor throws, whatever the archive.\<close>

lemma zip_index_never_loads: "zip_callback i pg = Inl ConstructorRemoved"
  by (simp add: zip_callback_def newJSZip_def)

section \<open>The summary table\<close>

record row =
  r_display :: string
  r_className :: string

text \<open>\<open>show(type)\<close>: the rows of \<open>data\<close> whose flags meet \<open>type\<close> are shown, in alternating colours.\<close>

fun show_rows ::
  "string \<Rightarrow> string \<Rightarrow> int \<Rightarrow> (string \<times> int) list \<Rightarrow> (string \<rightharpoonup> row) \<Rightarrow> nat \<Rightarrow> script_error + (string \<rightharpoonup> row)" where
  "show_rows rowColor altColor type [] rows count = Inr rows"
| "show_rows rowColor altColor type ((key, flags) # ds) rows count =
     (case rows key of
        None \<Rightarrow> Inl NoSuchRow
      | Some r \<Rightarrow>
          if js_and flags type \<noteq> 0
          then show_rows rowColor altColor type ds
                 (rows(key \<mapsto> \<lparr>r_display = [], r_className = (if count mod 2 \<noteq> 0 then rowColor else altColor)\<rparr>)) (count + 1)
          else show_rows rowColor altColor type ds (rows(key \<mapsto> r\<lparr>r_display := ''none''\<rparr>)) count)"

text \<open>
  \<open>updateTabs\<close>: the tab of the type is active and plain, the others are links. \<open>tabs\<close> is the object of
  that name, its keys with the pairs they have; the elements of the page are found by their ids, and
  one that is missing, or has no child, throws.
\<close>

record tab =
  tab_className :: string
  tab_link :: "int option"
  tab_label :: string

type_synonym tab_entry = "int \<times> string \<times> string"

fun updateTabs :: "string \<Rightarrow> string \<Rightarrow> int \<Rightarrow> tab_entry list \<Rightarrow> (string \<rightharpoonup> tab) \<Rightarrow> script_error + (string \<rightharpoonup> tab)" where
  "updateTabs activeTableTab tableTab type [] nodes = Inr nodes"
| "updateTabs activeTableTab tableTab type ((v, ident, label) # ts) nodes =
     (case nodes ident of
        None \<Rightarrow> Inl NoSuchTab
      | Some t \<Rightarrow>
          if v = type
          then updateTabs activeTableTab tableTab type ts
                 (nodes(ident \<mapsto> \<lparr>tab_className = activeTableTab, tab_link = None, tab_label = label\<rparr>))
          else updateTabs activeTableTab tableTab type ts
                 (nodes(ident \<mapsto> \<lparr>tab_className = tableTab, tab_link = Some v, tab_label = label\<rparr>)))"

definition show_type ::
  "string \<Rightarrow> string \<Rightarrow> string \<Rightarrow> string \<Rightarrow> int \<Rightarrow> (string \<times> int) list \<Rightarrow> tab_entry list \<Rightarrow> (string \<rightharpoonup> row) \<Rightarrow> (string \<rightharpoonup> tab) \<Rightarrow>
     script_error + (string \<rightharpoonup> row) \<times> (string \<rightharpoonup> tab)" where
  "show_type rowColor altColor activeTableTab tableTab type ds tabs rows nodes =
     rbind (show_rows rowColor altColor type ds rows 0) (\<lambda>rows.
     rbind (updateTabs activeTableTab tableTab type tabs nodes) (\<lambda>nodes. Inr (rows, nodes)))"

definition shown :: "int \<Rightarrow> (string \<times> int) list \<Rightarrow> string list" where
  "shown type ds = map fst (filter (\<lambda>(key, flags). js_and flags type \<noteq> 0) ds)"

lemma shown_simps [simp]:
  "shown type [] = []"
  "shown type ((key, flags) # ds) = (if js_and flags type \<noteq> 0 then key # shown type ds else shown type ds)"
  by (simp_all add: shown_def)

definition stripe :: "string \<Rightarrow> string \<Rightarrow> nat \<Rightarrow> row" where
  "stripe rowColor altColor n = \<lparr>r_display = [], r_className = (if n mod 2 \<noteq> 0 then rowColor else altColor)\<rparr>"

lemma show_rows_spec:
  assumes "distinct (map fst ds)" and "set (map fst ds) \<subseteq> dom rows"
  shows "\<exists>rows'. show_rows rowColor altColor type ds rows n = Inr rows' \<and>
    map rows' (shown type ds) = map (\<lambda>i. Some (stripe rowColor altColor (n + i))) [0..<length (shown type ds)] \<and>
    (\<forall>key. key \<notin> set (shown type ds) \<longrightarrow> rows' key =
       (if key \<in> fst ` set ds then map_option (\<lambda>r. r\<lparr>r_display := ''none''\<rparr>) (rows key) else rows key))"
  using assms
proof (induction ds arbitrary: rows n)
  case (Cons d ds)
  obtain key flags where d: "d = (key, flags)" by fastforce
  obtain r where r: "rows key = Some r" using Cons.prems(2) d by auto
  define s where "s \<longleftrightarrow> js_and flags type \<noteq> 0"
  define rows1 where "rows1 = rows(key \<mapsto> if s then stripe rowColor altColor n else r\<lparr>r_display := ''none''\<rparr>)"
  have fresh: "key \<notin> fst ` set ds" and dist: "distinct (map fst ds)" using Cons.prems(1) d by auto
  have dom: "set (map fst ds) \<subseteq> dom rows1" using Cons.prems(2) by (auto simp: rows1_def)
  have other: "rows1 k = rows k" if "k \<noteq> key" for k using that by (simp add: rows1_def)
  obtain rows' where IH: "show_rows rowColor altColor type ds rows1 (if s then n + 1 else n) = Inr rows'"
    "map rows' (shown type ds) =
       map (\<lambda>i. Some (stripe rowColor altColor ((if s then n + 1 else n) + i))) [0..<length (shown type ds)]"
    "\<And>k. k \<notin> set (shown type ds) \<Longrightarrow> rows' k =
       (if k \<in> fst ` set ds then map_option (\<lambda>r. r\<lparr>r_display := ''none''\<rparr>) (rows1 k) else rows1 k)"
    using Cons.IH [OF dist dom, of "if s then n + 1 else n"] by blast
  have new: "key \<notin> set (shown type ds)" using fresh by (auto simp: shown_def)
  have key: "rows' key = rows1 key" using IH(3) [OF new] fresh by simp
  have run: "show_rows rowColor altColor type (d # ds) rows n = Inr rows'"
    using IH(1) r by (auto simp: d rows1_def s_def stripe_def)
  show ?case
  proof (intro exI [of _ rows'] conjI allI impI)
    show "show_rows rowColor altColor type (d # ds) rows n = Inr rows'" by (rule run)
    show "map rows' (shown type (d # ds)) =
        map (\<lambda>i. Some (stripe rowColor altColor (n + i))) [0..<length (shown type (d # ds))]"
    proof (cases s)
      case True
      then have "shown type (d # ds) = key # shown type ds" by (simp add: d s_def)
      moreover have "[0..<Suc (length (shown type ds))] = 0 # map Suc [0..<length (shown type ds)]"
        by (simp add: upt_conv_Cons map_Suc_upt del: upt_Suc)
      ultimately show ?thesis using IH(2) True key
        by (simp add: rows1_def comp_def del: upt_Suc)
    next
      case False
      then show ?thesis using IH(2) by (simp add: d s_def)
    qed
    fix k assume k: "k \<notin> set (shown type (d # ds))"
    show "rows' k = (if k \<in> fst ` set (d # ds) then map_option (\<lambda>r. r\<lparr>r_display := ''none''\<rparr>) (rows k) else rows k)"
    proof (cases "k = key")
      case True
      then have "\<not> s" using k by (auto simp: d s_def split: if_splits)
      then show ?thesis using True key r by (simp add: d rows1_def)
    next
      case False
      have "k \<notin> set (shown type ds)" using k by (auto simp: d split: if_splits)
      from IH(3) [OF this] show ?thesis using False by (simp add: d other)
    qed
  qed
qed simp

text \<open>What the tab of an entry becomes.\<close>

definition marked :: "string \<Rightarrow> string \<Rightarrow> int \<Rightarrow> tab_entry \<Rightarrow> tab" where
  "marked active inactive type = (\<lambda>(v, ident, label).
     \<lparr>tab_className = (if v = type then active else inactive), tab_link = (if v = type then None else Some v), tab_label = label\<rparr>)"

lemma updateTabs_spec:
  assumes "distinct (map (fst \<circ> snd) tabs)" "(fst \<circ> snd) ` set tabs \<subseteq> dom nodes"
  shows "\<exists>nodes'. updateTabs active inactive type tabs nodes = Inr nodes' \<and>
    map (nodes' \<circ> fst \<circ> snd) tabs = map (Some \<circ> marked active inactive type) tabs \<and>
    (\<forall>ident. ident \<notin> (fst \<circ> snd) ` set tabs \<longrightarrow> nodes' ident = nodes ident)"
  using assms
proof (induction tabs arbitrary: nodes)
  case (Cons tb tabs)
  obtain v ident label where tb: "tb = (v, ident, label)" by (cases tb)
  let ?nodes = "nodes(ident \<mapsto> marked active inactive type tb)"
  have d: "distinct (map (fst \<circ> snd) tabs)" "(fst \<circ> snd) ` set tabs \<subseteq> dom ?nodes" and new: "ident \<notin> (fst \<circ> snd) ` set tabs"
    using Cons.prems by (auto simp: tb comp_def)
  obtain t where "nodes ident = Some t" using Cons.prems(2) by (auto simp: tb)
  then have run: "updateTabs active inactive type (tb # tabs) nodes = updateTabs active inactive type tabs ?nodes"
    by (simp add: tb marked_def)
  obtain nodes' where N: "updateTabs active inactive type tabs ?nodes = Inr nodes'"
    "map (nodes' \<circ> fst \<circ> snd) tabs = map (Some \<circ> marked active inactive type) tabs"
    "\<forall>i. i \<notin> (fst \<circ> snd) ` set tabs \<longrightarrow> nodes' i = ?nodes i"
    using Cons.IH [OF d] by blast
  have "nodes' ident = Some (marked active inactive type tb)" using N(3) new by simp
  then show ?case unfolding run using N by (intro exI [of _ nodes']) (auto simp: tb)
qed simp

text \<open>
  Property C39. \<open>show(type)\<close>, for a table all of whose rows and tabs exist: the rows whose flags meet
  the type are shown, the first, third and so on in the one colour and the others in the other, counting
  only the rows shown; every other row of the table is hidden and keeps its class, and what is not in
  the table is left alone. The tab of the type gets the class of the active tab and its plain label, every other
  tab the other class and a link that shows its type, and no other element changes.
\<close>

theorem show_spec:
  assumes "distinct (map fst ds)" and "set (map fst ds) \<subseteq> dom rows"
    and "distinct (map (fst \<circ> snd) tabs)" and "(fst \<circ> snd) ` set tabs \<subseteq> dom nodes"
  shows "\<exists>rows' nodes'. show_type rowColor altColor active inactive type ds tabs rows nodes = Inr (rows', nodes') \<and>
    map rows' (shown type ds) = map (\<lambda>i. Some (stripe rowColor altColor i)) [0..<length (shown type ds)] \<and>
    (\<forall>key. key \<notin> set (shown type ds) \<longrightarrow> rows' key =
       (if key \<in> fst ` set ds then map_option (\<lambda>r. r\<lparr>r_display := ''none''\<rparr>) (rows key) else rows key)) \<and>
    (\<forall>(v, ident, label) \<in> set tabs. nodes' ident =
       Some (if v = type then \<lparr>tab_className = active, tab_link = None, tab_label = label\<rparr>
         else \<lparr>tab_className = inactive, tab_link = Some v, tab_label = label\<rparr>)) \<and>
    (\<forall>ident. ident \<notin> (fst \<circ> snd) ` set tabs \<longrightarrow> nodes' ident = nodes ident)"
proof -
  obtain rows' where r: "show_rows rowColor altColor type ds rows 0 = Inr rows'"
    "map rows' (shown type ds) = map (\<lambda>i. Some (stripe rowColor altColor (0 + i))) [0..<length (shown type ds)]"
    "\<forall>key. key \<notin> set (shown type ds) \<longrightarrow> rows' key =
       (if key \<in> fst ` set ds then map_option (\<lambda>r. r\<lparr>r_display := ''none''\<rparr>) (rows key) else rows key)"
    using show_rows_spec [OF assms(1,2), of rowColor altColor type 0] by blast
  obtain nodes' where t: "updateTabs active inactive type tabs nodes = Inr nodes'"
    "map (nodes' \<circ> fst \<circ> snd) tabs = map (Some \<circ> marked active inactive type) tabs"
    "\<forall>ident. ident \<notin> (fst \<circ> snd) ` set tabs \<longrightarrow> nodes' ident = nodes ident"
    using updateTabs_spec [OF assms(3,4)] by blast
  have "nodes' ident = Some (if v = type then \<lparr>tab_className = active, tab_link = None, tab_label = label\<rparr>
      else \<lparr>tab_className = inactive, tab_link = Some v, tab_label = label\<rparr>)" if "(v, ident, label) \<in> set tabs" for v ident label
    using t(2) that by (auto simp: marked_def map_eq_conv)
  then show ?thesis using r t(1,3) by (intro exI [of _ rows'] exI [of _ nodes']) (auto simp: show_type_def)
qed

definition demo_rows :: "string \<rightharpoonup> row" where
  "demo_rows = [''i0'' \<mapsto> \<lparr>r_display = [], r_className = ''a''\<rparr>, ''i1'' \<mapsto> \<lparr>r_display = [], r_className = ''b''\<rparr>]"

definition demo_tabs :: "string \<rightharpoonup> tab" where
  "demo_tabs = [''t1'' \<mapsto> \<lparr>tab_className = ''active'', tab_link = None, tab_label = ''A''\<rparr>,
     ''t2'' \<mapsto> \<lparr>tab_className = ''tab'', tab_link = Some 2, tab_label = ''B''\<rparr>]"

theorem show_spec_witness:
  "\<exists>rows' nodes'. show_type ''rowColor'' ''altColor'' ''active'' ''tab'' 2 [(''i0'', 1), (''i1'', 2)]
      [(1, ''t1'', ''A''), (2, ''t2'', ''B'')] demo_rows demo_tabs = Inr (rows', nodes') \<and>
    rows' ''i1'' = Some \<lparr>r_display = [], r_className = ''altColor''\<rparr> \<and>
    rows' ''i0'' = Some \<lparr>r_display = ''none'', r_className = ''a''\<rparr> \<and>
    nodes' ''t1'' = Some \<lparr>tab_className = ''tab'', tab_link = Some 1, tab_label = ''A''\<rparr> \<and>
    nodes' ''t2'' = Some \<lparr>tab_className = ''active'', tab_link = None, tab_label = ''B''\<rparr>"
proof -
  have f: "js_and 1 2 = 0" "js_and 2 2 = 2" by (simp_all add: js_and_def ToInt32_def)
  let ?ds = "[(''i0'', 1 :: int), (''i1'', 2)]" and ?ts = "[(1 :: int, ''t1'', ''A''), (2, ''t2'', ''B'')]"
  have h: "distinct (map fst ?ds)" "set (map fst ?ds) \<subseteq> dom demo_rows" "distinct (map (fst \<circ> snd) ?ts)" "(fst \<circ> snd) ` set ?ts \<subseteq> dom demo_tabs"
    by (auto simp: demo_rows_def demo_tabs_def)
  from show_spec [OF h, of "''rowColor''" "''altColor''" "''active''" "''tab''" 2] obtain rows' nodes' where
    r: "show_type ''rowColor'' ''altColor'' ''active'' ''tab'' 2 ?ds ?ts demo_rows demo_tabs = Inr (rows', nodes')"
      "map rows' (shown 2 ?ds) = map (\<lambda>i. Some (stripe ''rowColor'' ''altColor'' i)) [0..<length (shown 2 ?ds)]"
      "\<forall>key. key \<notin> set (shown 2 ?ds) \<longrightarrow> rows' key =
        (if key \<in> fst ` set ?ds then map_option (\<lambda>r. r\<lparr>r_display := ''none''\<rparr>) (demo_rows key) else demo_rows key)"
      "\<forall>(v, ident, label) \<in> set ?ts. nodes' ident =
        Some (if v = 2 then \<lparr>tab_className = ''active'', tab_link = None, tab_label = label\<rparr>
          else \<lparr>tab_className = ''tab'', tab_link = Some v, tab_label = label\<rparr>)"
    by blast
  have "rows' ''i0'' = Some \<lparr>r_display = ''none'', r_className = ''a''\<rparr>" using r(3) by (simp add: f demo_rows_def)
  then show ?thesis using r(1,2,4) by (intro exI [of _ rows'] exI [of _ nodes']) (simp add: f stripe_def)
qed

section \<open>The search box\<close>

record box =
  box_text :: jsstr
  box_watermark :: bool

definition watermark :: jsstr where "watermark = js ''Search''"

definition box_init :: box where
  "box_init = \<lparr>box_text = watermark, box_watermark = True\<rparr>"

definition box_blur :: "box \<Rightarrow> box" where
  "box_blur b = (if box_text b = [] then \<lparr>box_text = watermark, box_watermark = True\<rparr> else b)"

definition box_keydown :: "box \<Rightarrow> box" where
  "box_keydown b = (if box_text b = watermark then \<lparr>box_text = [], box_watermark = False\<rparr> else b)"

definition box_reset :: "box \<Rightarrow> box" where
  "box_reset b = b\<lparr>box_text := []\<rparr>"

text \<open>A key that types a character: the handler, then the browser's own action.\<close>

definition box_type :: "jschar \<Rightarrow> box \<Rightarrow> box" where
  "box_type c b = (let b = box_keydown b in b\<lparr>box_text := box_text b @ [c]\<rparr>)"

text \<open>
  The reset button empties the box but leaves the class of the watermark, which no key removes
  any more: what the reader types is shown as if it were the watermark.
\<close>

lemma reset_keeps_watermark:
  "box_watermark (box_type c (box_reset box_init)) \<and> box_text (box_type c (box_reset box_init)) = [c]"
  by (simp add: box_init_def box_reset_def box_type_def box_keydown_def watermark_def js_def Let_def)

text \<open>The word of the watermark cannot be extended: the next key erases it.\<close>

lemma watermark_erased: "box_text (box_type c \<lparr>box_text = watermark, box_watermark = w\<rparr>) = [c]"
  by (simp add: box_type_def box_keydown_def Let_def)

end
