(* ===== verification/Promises.thy ===== *)
theory Promises
  imports Main "HOL-Library.Multiset"
begin

text \<open>
  The promises of JSZip (the bundled \<open>lie\<close>) and their queue of tasks (\<open>immediate\<close>). Promises are
  numbered in the order of their creation and live in a list; the closures the code makes
  (\<open>onSuccess\<close> and \<open>onError\<close> of a resolver with their flag \<open>called\<close>, those of \<open>all\<close> and \<open>race\<close>)
  are values that refer to records of the state. The functions of the caller are a parameter: what
  they do, as a list of calls of this interface, and what they return or throw. The calls a
  resolver makes at once are calls that follow its creation.
\<close>

section \<open>State\<close>

datatype status = PENDING | FULFILLED | REJECTED

text \<open>\<open>Thenable\<close> is an object of the caller with a \<open>then\<close> of its own.\<close>

datatype pvalue =
    Undefined
  | Data nat
  | PromiseRef nat
  | Thenable nat
  | CannotResolveItself
  | Values "pvalue list"

datatype handler =
    User nat
  | SuccessOf nat
  | ErrorOf nat
  | AllFulfilled nat nat
  | AllRejected nat
  | RaceFulfilled nat
  | RaceRejected nat

record queue_item =
  qi_promise :: nat
  qi_fulfilled :: "handler option"
  qi_rejected :: "handler option"

record promise =
  p_state :: status
  p_queue :: "queue_item list"
  p_outcome :: pvalue

datatype task = Unwrap nat handler pvalue

record resolver =
  rs_promise :: nat
  rs_called :: bool

record all_call =
  al_promise :: nat
  al_values :: "pvalue list"
  al_resolved :: nat
  al_called :: bool

record pstate =
  promises :: "promise list"
  resolvers :: "resolver list"
  alls :: "all_call list"
  races :: "resolver list"
  tasks :: "task list"
  drains :: nat

definition no_promises :: pstate where
  "no_promises = \<lparr>promises = [], resolvers = [], alls = [], races = [], tasks = [], drains = 0\<rparr>"

text \<open>
  \<open>immediate(task)\<close>; \<open>drains\<close> counts the drains that are scheduled. Between the events of this
  model no drain is under way, and inside one the flag \<open>draining\<close> suppresses the scheduling.
\<close>

definition immediate :: "bool \<Rightarrow> task \<Rightarrow> pstate \<Rightarrow> pstate" where
  "immediate draining t st =
     (let st = st\<lparr>tasks := tasks st @ [t]\<rparr>
      in if length (tasks st) = 1 \<and> \<not> draining then st\<lparr>drains := drains st + 1\<rparr> else st)"

definition new_promise :: promise where
  "new_promise = \<lparr>p_state = PENDING, p_queue = [], p_outcome = Undefined\<rparr>"

definition task_promise :: "task \<Rightarrow> nat" where
  "task_promise t = (case t of Unwrap p h v \<Rightarrow> p)"

section \<open>Settling\<close>

text \<open>
  The common part of \<open>handlers.resolve\<close> (for a value without \<open>then\<close>) and \<open>handlers.reject\<close>: the
  state, the outcome, and the queue, where a promise without a handler for this case is settled in
  the same way at once. A queued promise is younger than its parent, so the number of promises is
  fuel enough.
\<close>

definition handler_for :: "bool \<Rightarrow> queue_item \<Rightarrow> handler option" where
  "handler_for ok qi = (if ok then qi_fulfilled qi else qi_rejected qi)"

fun settle :: "nat \<Rightarrow> bool \<Rightarrow> bool \<Rightarrow> nat \<Rightarrow> pvalue \<Rightarrow> pstate \<Rightarrow> pstate" where
  "settle 0 draining ok p v st = st"
| "settle (Suc n) draining ok p v st =
     fold (\<lambda>qi st. case handler_for ok qi of
             Some h \<Rightarrow> immediate draining (Unwrap (qi_promise qi) h v) st
           | None \<Rightarrow> settle n draining ok (qi_promise qi) v st)
       (p_queue (promises st ! p))
       (st\<lparr>promises := (promises st)[p := (promises st ! p)\<lparr>p_state := (if ok then FULFILLED else REJECTED), p_outcome := v\<rparr>]\<rparr>)"

definition reject_promise :: "bool \<Rightarrow> nat \<Rightarrow> pvalue \<Rightarrow> pstate \<Rightarrow> pstate" where
  "reject_promise draining p v st = settle (length (promises st)) draining False p v st"

text \<open>\<open>then\<close>: the promise it returns, and the state.\<close>

definition then_promise :: "bool \<Rightarrow> nat \<Rightarrow> handler option \<Rightarrow> handler option \<Rightarrow> pstate \<Rightarrow> nat \<times> pstate" where
  "then_promise draining p onFulfilled onRejected st =
     (let s = p_state (promises st ! p)
      in if onFulfilled = None \<and> s = FULFILLED \<or> onRejected = None \<and> s = REJECTED then (p, st)
         else let c = length (promises st); item = \<lparr>qi_promise = c, qi_fulfilled = onFulfilled, qi_rejected = onRejected\<rparr>
              in (c, case (if s = PENDING then None else if s = FULFILLED then onFulfilled else onRejected) of
                   Some h \<Rightarrow> immediate draining (Unwrap c h (p_outcome (promises st ! p)))
                     (st\<lparr>promises := promises st @ [new_promise]\<rparr>)
                 | None \<Rightarrow> st\<lparr>promises := (promises st)[p := (promises st ! p)\<lparr>p_queue := p_queue (promises st ! p) @ [item]\<rparr>]
                     @ [new_promise]\<rparr>))"

text \<open>
  \<open>handlers.resolve\<close>: a value with a \<open>then\<close> is asked for its outcome (\<open>safelyResolveThenable\<close>, with
  a fresh flag), any other value fulfils the promise.
\<close>

definition new_resolver :: "nat \<Rightarrow> pstate \<Rightarrow> nat \<times> pstate" where
  "new_resolver p st = (length (resolvers st), st\<lparr>resolvers := resolvers st @ [\<lparr>rs_promise = p, rs_called = False\<rparr>]\<rparr>)"

definition resolve_promise :: "bool \<Rightarrow> nat \<Rightarrow> pvalue \<Rightarrow> pstate \<Rightarrow> pstate" where
  "resolve_promise draining p v st =
     (case v of
        PromiseRef q \<Rightarrow>
          let (k, st) = new_resolver p st in snd (then_promise draining q (Some (SuccessOf k)) (Some (ErrorOf k)) st)
      | Thenable t \<Rightarrow> snd (new_resolver p st)
      | _ \<Rightarrow> settle (length (promises st)) draining True p v st)"

section \<open>The closures\<close>

text \<open>The records of the closures; a number that belongs to none counts as called.\<close>

definition resolver_at :: "nat \<Rightarrow> resolver list \<Rightarrow> resolver" where
  "resolver_at k rs = (if k < length rs then rs ! k else \<lparr>rs_promise = 0, rs_called = True\<rparr>)"

definition all_at :: "nat \<Rightarrow> all_call list \<Rightarrow> all_call" where
  "all_at a cs = (if a < length cs then cs ! a
     else \<lparr>al_promise = 0, al_values = [], al_resolved = 0, al_called = True\<rparr>)"

definition onSuccess :: "bool \<Rightarrow> nat \<Rightarrow> pvalue \<Rightarrow> pstate \<Rightarrow> pstate" where
  "onSuccess draining k v st =
     (let r = resolver_at k (resolvers st)
      in if rs_called r then st
         else resolve_promise draining (rs_promise r) v (st\<lparr>resolvers := (resolvers st)[k := r\<lparr>rs_called := True\<rparr>]\<rparr>))"

definition onError :: "bool \<Rightarrow> nat \<Rightarrow> pvalue \<Rightarrow> pstate \<Rightarrow> pstate" where
  "onError draining k v st =
     (let r = resolver_at k (resolvers st)
      in if rs_called r then st
         else reject_promise draining (rs_promise r) v (st\<lparr>resolvers := (resolvers st)[k := r\<lparr>rs_called := True\<rparr>]\<rparr>))"

definition resolveFromAll :: "bool \<Rightarrow> nat \<Rightarrow> nat \<Rightarrow> pvalue \<Rightarrow> pstate \<Rightarrow> pstate" where
  "resolveFromAll draining a i v st =
     (let c = (all_at a (alls st))\<lparr>al_values := (al_values (all_at a (alls st)))[i := v], al_resolved := al_resolved (all_at a (alls st)) + 1\<rparr>
      in if al_resolved c = length (al_values c) \<and> \<not> al_called c
         then resolve_promise draining (al_promise c) (Values (al_values c))
                (st\<lparr>alls := (alls st)[a := c\<lparr>al_called := True\<rparr>]\<rparr>)
         else st\<lparr>alls := (alls st)[a := c]\<rparr>)"

definition rejectFromAll :: "bool \<Rightarrow> nat \<Rightarrow> pvalue \<Rightarrow> pstate \<Rightarrow> pstate" where
  "rejectFromAll draining a v st =
     (let c = all_at a (alls st)
      in if al_called c then st
         else reject_promise draining (al_promise c) v (st\<lparr>alls := (alls st)[a := c\<lparr>al_called := True\<rparr>]\<rparr>))"

definition settleFromRace :: "bool \<Rightarrow> bool \<Rightarrow> nat \<Rightarrow> pvalue \<Rightarrow> pstate \<Rightarrow> pstate" where
  "settleFromRace draining ok r v st =
     (let c = resolver_at r (races st); st' = st\<lparr>races := (races st)[r := c\<lparr>rs_called := True\<rparr>]\<rparr>
      in if rs_called c then st
         else if ok then resolve_promise draining (rs_promise c) v st'
         else reject_promise draining (rs_promise c) v st')"

section \<open>The interface\<close>

definition promise_resolve :: "bool \<Rightarrow> pvalue \<Rightarrow> pstate \<Rightarrow> nat \<times> pstate" where
  "promise_resolve draining v st =
     (case v of
        PromiseRef q \<Rightarrow> (q, st)
      | _ \<Rightarrow> let p = length (promises st)
             in (p, resolve_promise draining p v (st\<lparr>promises := promises st @ [new_promise]\<rparr>)))"

definition promise_reject :: "bool \<Rightarrow> pvalue \<Rightarrow> pstate \<Rightarrow> nat \<times> pstate" where
  "promise_reject draining v st =
     (let p = length (promises st)
      in (p, reject_promise draining p v (st\<lparr>promises := promises st @ [new_promise]\<rparr>)))"

text \<open>\<open>all\<close> and \<open>race\<close> attach their closures to every element, from the first on.\<close>

fun attach :: "bool \<Rightarrow> (nat \<Rightarrow> handler) \<Rightarrow> handler \<Rightarrow> nat \<Rightarrow> pvalue list \<Rightarrow> pstate \<Rightarrow> pstate" where
  "attach draining f r i [] st = st"
| "attach draining f r i (v # vs) st =
     (let (q, st) = promise_resolve draining v st
      in attach draining f r (i + 1) vs (snd (then_promise draining q (Some (f i)) (Some r) st)))"

definition promise_all :: "bool \<Rightarrow> pvalue list \<Rightarrow> pstate \<Rightarrow> nat \<times> pstate" where
  "promise_all draining vs st =
     (if vs = [] then promise_resolve draining (Values []) st
      else let p = length (promises st); a = length (alls st);
               st = st\<lparr>promises := promises st @ [new_promise],
                 alls := alls st @ [\<lparr>al_promise = p, al_values = replicate (length vs) Undefined, al_resolved = 0, al_called = False\<rparr>]\<rparr>
           in (p, attach draining (AllFulfilled a) (AllRejected a) 0 vs st))"

definition promise_race :: "bool \<Rightarrow> pvalue list \<Rightarrow> pstate \<Rightarrow> nat \<times> pstate" where
  "promise_race draining vs st =
     (if vs = [] then promise_resolve draining (Values []) st
      else let p = length (promises st); r = length (races st);
               st = st\<lparr>promises := promises st @ [new_promise], races := races st @ [\<lparr>rs_promise = p, rs_called = False\<rparr>]\<rparr>
           in (p, attach draining (\<lambda>i. RaceFulfilled r) (RaceRejected r) 0 vs st))"

text \<open>\<open>new Promise(resolver)\<close>: the promise, and the resolver whose functions the caller gets.\<close>

definition promise_new :: "pstate \<Rightarrow> nat \<times> pstate" where
  "promise_new st =
     (let p = length (promises st)
      in (p, snd (new_resolver p (st\<lparr>promises := promises st @ [new_promise]\<rparr>))))"

datatype action =
    New
  | Then nat "handler option" "handler option"
  | Success nat pvalue
  | Error nat pvalue
  | Resolve pvalue
  | Reject pvalue
  | All "pvalue list"
  | Race "pvalue list"

definition do_action :: "bool \<Rightarrow> action \<Rightarrow> pstate \<Rightarrow> pstate" where
  "do_action draining a st =
     (case a of
        New \<Rightarrow> snd (promise_new st)
      | Then p f r \<Rightarrow> snd (then_promise draining p f r st)
      | Success k v \<Rightarrow> onSuccess draining k v st
      | Error k v \<Rightarrow> onError draining k v st
      | Resolve v \<Rightarrow> snd (promise_resolve draining v st)
      | Reject v \<Rightarrow> snd (promise_reject draining v st)
      | All vs \<Rightarrow> snd (promise_all draining vs st)
      | Race vs \<Rightarrow> snd (promise_race draining vs st))"

section \<open>Tasks\<close>

text \<open>What a function of the caller does when it is called, and what it returns (or throws, \<open>Inl\<close>).\<close>

type_synonym user_functions = "nat \<Rightarrow> pvalue \<Rightarrow> pstate \<Rightarrow> action list \<times> (pvalue + pvalue)"

definition call_handler :: "user_functions \<Rightarrow> handler \<Rightarrow> pvalue \<Rightarrow> pstate \<Rightarrow> pstate \<times> (pvalue + pvalue)" where
  "call_handler env h v st =
     (case h of
        User f \<Rightarrow> let (actions, r) = env f v st in (fold (do_action True) actions st, r)
      | SuccessOf k \<Rightarrow> (onSuccess True k v st, Inr Undefined)
      | ErrorOf k \<Rightarrow> (onError True k v st, Inr Undefined)
      | AllFulfilled a i \<Rightarrow> (resolveFromAll True a i v st, Inr Undefined)
      | AllRejected a \<Rightarrow> (rejectFromAll True a v st, Inr Undefined)
      | RaceFulfilled r \<Rightarrow> (settleFromRace True True r v st, Inr Undefined)
      | RaceRejected r \<Rightarrow> (settleFromRace True False r v st, Inr Undefined))"

text \<open>\<open>unwrap\<close>'s task, and \<open>nextTick\<close>, which runs tasks in their order while there are any.\<close>

definition run_task :: "user_functions \<Rightarrow> task \<Rightarrow> pstate \<Rightarrow> pstate" where
  "run_task env t st =
     (case t of Unwrap p h v \<Rightarrow>
        let (st, r) = call_handler env h v st
        in case r of
             Inl e \<Rightarrow> reject_promise True p e st
           | Inr returnValue \<Rightarrow>
               if returnValue = PromiseRef p then reject_promise True p CannotResolveItself st
               else resolve_promise True p returnValue st)"

fun nextTick :: "nat \<Rightarrow> user_functions \<Rightarrow> pstate \<Rightarrow> pstate option" where
  "nextTick 0 env st = None"
| "nextTick (Suc n) env st =
     (case tasks st of
        [] \<Rightarrow> Some (st\<lparr>drains := drains st - 1\<rparr>)
      | t # ts \<Rightarrow> nextTick n env (run_task env t (st\<lparr>tasks := ts\<rparr>)))"

section \<open>Who may settle a promise\<close>

text \<open>
  The sources of a state: the promises that a queued item of a pending promise, a resolver or
  another closure that was not called, or a task will settle, with multiplicity. \<open>owed\<close> allows a
  pending promise one source and every other number none; \<open>E\<close> are sources in the hands of the code
  that is running.
\<close>

definition queue_sources :: "promise list \<Rightarrow> nat list" where
  "queue_sources ps = concat (map (\<lambda>p. if p_state p = PENDING then map qi_promise (p_queue p) else []) ps)"

definition open_resolvers :: "resolver list \<Rightarrow> nat list" where
  "open_resolvers rs = map rs_promise (filter (\<lambda>r. \<not> rs_called r) rs)"

definition open_alls :: "all_call list \<Rightarrow> nat list" where
  "open_alls cs = map al_promise (filter (\<lambda>c. \<not> al_called c) cs)"

definition sources :: "pstate \<Rightarrow> nat multiset" where
  "sources st = mset (queue_sources (promises st)) + mset (open_resolvers (resolvers st)) +
     mset (open_alls (alls st)) + mset (open_resolvers (races st)) + mset (map task_promise (tasks st))"

definition pending :: "pstate \<Rightarrow> nat \<Rightarrow> bool" where
  "pending st p \<longleftrightarrow> p < length (promises st) \<and> p_state (promises st ! p) = PENDING"

definition owed :: "pstate \<Rightarrow> nat \<Rightarrow> nat" where
  "owed st p = (if pending st p then 1 else 0)"

definition single :: "nat multiset \<Rightarrow> pstate \<Rightarrow> bool" where
  "single E st \<longleftrightarrow> (\<forall>p. count (sources st) p + count E p \<le> owed st p)"

definition keeps :: "pstate \<Rightarrow> pstate \<Rightarrow> bool" where
  "keeps st st' \<longleftrightarrow> length (promises st) \<le> length (promises st') \<and>
     (\<forall>p < length (promises st). p_state (promises st ! p) \<noteq> PENDING \<longrightarrow>
        p_state (promises st' ! p) = p_state (promises st ! p) \<and>
        p_outcome (promises st' ! p) = p_outcome (promises st ! p))"

lemma keeps_refl [simp]: "keeps st st"
  by (simp add: keeps_def)

lemma keeps_trans: "keeps st st' \<Longrightarrow> keeps st' st'' \<Longrightarrow> keeps st st''"
  by (force simp: keeps_def)

lemma keeps_same: "promises st' = promises st \<Longrightarrow> keeps st st'"
  by (simp add: keeps_def)

lemma singleD: "single E st \<Longrightarrow> count (sources st) p + count E p \<le> owed st p"
  by (simp add: single_def)

lemma singleI:
  assumes "single E st" and "\<And>p. count (sources st') p + count E' p \<le> count (sources st) p + count E p"
    and "\<And>p. pending st p \<Longrightarrow> pending st' p"
  shows "single E' st'"
  unfolding single_def
proof
  fix p
  have "owed st p \<le> owed st' p" using assms(3) by (simp add: owed_def)
  then show "count (sources st') p + count E' p \<le> owed st' p"
    using assms(2) [of p] singleD [OF assms(1), of p] by linarith
qed

lemma single_less: "single (add_mset p E) st \<Longrightarrow> single E st"
  by (rule singleI) auto

text \<open>Lists of which one place changes.\<close>

lemma concat_update:
  "i < length xs \<Longrightarrow> mset (concat (map f (xs[i := y]))) + mset (f (xs ! i)) = mset (concat (map f xs)) + mset (f y)"
proof (induction xs arbitrary: i)
  case (Cons x xs)
  then show ?case by (cases i) (simp_all add: ac_simps)
qed simp

lemma open_resolvers_call:
  "k < length rs \<Longrightarrow> \<not> rs_called (rs ! k) \<Longrightarrow>
     mset (open_resolvers rs) = add_mset (rs_promise (rs ! k)) (mset (open_resolvers (rs[k := (rs ! k)\<lparr>rs_called := True\<rparr>])))"
proof (induction rs arbitrary: k)
  case (Cons r rs)
  then show ?case by (cases k) (auto simp: open_resolvers_def)
qed simp

lemma open_alls_update:
  "a < length cs \<Longrightarrow> al_promise c = al_promise (cs ! a) \<Longrightarrow> al_called c = al_called (cs ! a) \<Longrightarrow>
     open_alls (cs[a := c]) = open_alls cs"
proof (induction cs arbitrary: a)
  case (Cons x cs)
  then show ?case by (cases a) (auto simp: open_alls_def)
qed simp

lemma open_alls_call:
  "a < length cs \<Longrightarrow> \<not> al_called (cs ! a) \<Longrightarrow> al_called c \<Longrightarrow>
     mset (open_alls cs) = add_mset (al_promise (cs ! a)) (mset (open_alls (cs[a := c])))"
proof (induction cs arbitrary: a)
  case (Cons x cs)
  then show ?case by (cases a) (auto simp: open_alls_def)
qed simp

section \<open>Each step keeps a single source\<close>

lemma single_new:
  assumes "single E st"
  shows "single (add_mset (length (promises st)) E) (st\<lparr>promises := promises st @ [new_promise]\<rparr>) \<and>
    keeps st (st\<lparr>promises := promises st @ [new_promise]\<rparr>)"
proof -
  let ?st = "st\<lparr>promises := promises st @ [new_promise]\<rparr>"
  have s: "sources ?st = sources st" by (simp add: sources_def queue_sources_def new_promise_def)
  have p: "pending ?st p \<longleftrightarrow> pending st p \<or> p = length (promises st)" for p
    by (auto simp: pending_def nth_append new_promise_def)
  have "count (sources ?st) q + count (add_mset (length (promises st)) E) q \<le> owed ?st q" for q
  proof (cases "q = length (promises st)")
    case True
    then have "count (sources st) q + count E q = 0" using singleD [OF assms, of q] by (simp add: owed_def pending_def)
    then show ?thesis using True by (simp add: s owed_def p)
  next
    case False
    then show ?thesis using singleD [OF assms, of q] by (simp add: s owed_def p)
  qed
  then have "single (add_mset (length (promises st)) E) ?st" by (simp add: single_def)
  then show ?thesis by (simp add: keeps_def nth_append)
qed

lemma single_immediate:
  assumes "single (add_mset (task_promise t) E) st"
  shows "single E (immediate draining t st) \<and> keeps st (immediate draining t st)"
proof -
  have "sources (immediate draining t st) = add_mset (task_promise t) (sources st)"
    "promises (immediate draining t st) = promises st"
    by (simp_all add: immediate_def sources_def Let_def)
  then show ?thesis using assms by (auto simp: keeps_same pending_def intro: singleI [OF assms])
qed

lemma single_resolver:
  assumes "single (add_mset p E) st"
  shows "single E (snd (new_resolver p st)) \<and> keeps st (snd (new_resolver p st))"
proof -
  have "sources (snd (new_resolver p st)) = add_mset p (sources st)" "promises (snd (new_resolver p st)) = promises st"
    by (simp_all add: new_resolver_def sources_def open_resolvers_def)
  then show ?thesis using assms by (auto simp: keeps_same pending_def intro: singleI [OF assms])
qed

lemma single_queue:
  fixes st :: pstate and qi :: queue_item and p :: nat
  assumes "single (add_mset (qi_promise qi) E) st"
  defines "st' \<equiv> st\<lparr>promises := (promises st)[p := (promises st ! p)\<lparr>p_queue := p_queue (promises st ! p) @ [qi]\<rparr>]\<rparr>"
  shows "single E st' \<and> keeps st st'"
proof (cases "p < length (promises st)")
  case True
  let ?x = "(promises st ! p)\<lparr>p_queue := p_queue (promises st ! p) @ [qi]\<rparr>"
  have "mset (queue_sources ((promises st)[p := ?x])) \<subseteq># add_mset (qi_promise qi) (mset (queue_sources (promises st)))"
    using concat_update [OF True, of "\<lambda>p. if p_state p = PENDING then map qi_promise (p_queue p) else []" ?x]
    by (auto simp: queue_sources_def split: if_splits)
  then have "sources st' \<subseteq># add_mset (qi_promise qi) (sources st)"
    by (simp add: st'_def sources_def flip: union_mset_add_mset_left)
  then have "count (sources st') q + count E q \<le> count (sources st) q + count (add_mset (qi_promise qi) E) q" for q
    using mset_subset_eq_count [of "sources st'" "add_mset (qi_promise qi) (sources st)" q] by (auto split: if_splits)
  moreover have "pending st' q" if "pending st q" for q
    using that True by (auto simp: pending_def st'_def nth_list_update)
  ultimately have "single E st'" using singleI [OF assms(1)] by blast
  moreover have "keeps st st'" using True by (auto simp: keeps_def st'_def nth_list_update)
  ultimately show ?thesis ..
next
  case False
  then have "st' = st" by (simp add: st'_def list_update_beyond)
  then show ?thesis using single_less [OF assms(1)] by simp
qed

lemma settle_steps:
  assumes "\<And>qi st E. single (add_mset (qi_promise qi) E) st \<Longrightarrow> single E (f qi st) \<and> keeps st (f qi st)"
    and "single (mset (map qi_promise qs) + E) st"
  shows "single E (fold f qs st) \<and> keeps st (fold f qs st)"
  using assms(2)
proof (induction qs arbitrary: st)
  case (Cons qi qs)
  have a: "single (mset (map qi_promise qs) + E) (f qi st) \<and> keeps st (f qi st)"
    by (rule assms(1)) (use Cons.prems in simp)
  then have "single E (fold f qs (f qi st)) \<and> keeps (f qi st) (fold f qs (f qi st))"
    by (intro Cons.IH) simp
  then show ?case using a keeps_trans by (simp, blast)
qed simp

lemma settled_promise:
  fixes st :: pstate and p :: nat and x :: promise
  assumes "single (add_mset p E) st" and "p_state x \<noteq> PENDING"
  defines "st' \<equiv> st\<lparr>promises := (promises st)[p := x]\<rparr>"
  shows "single (mset (map qi_promise (p_queue (promises st ! p))) + E) st' \<and> keeps st st'"
proof -
  have c: "count (sources st) p + count E p + 1 \<le> owed st p" using singleD [OF assms(1), of p] by simp
  then have p: "pending st p" by (simp add: owed_def split: if_splits)
  then have l: "p < length (promises st)" and w: "p_state (promises st ! p) = PENDING" by (simp_all add: pending_def)
  let ?q = "mset (map qi_promise (p_queue (promises st ! p)))"
  have "mset (queue_sources (promises st)) = mset (queue_sources ((promises st)[p := x])) + ?q"
    using concat_update [OF l, of "\<lambda>p. if p_state p = PENDING then map qi_promise (p_queue p) else []" x] w assms(2)
    by (simp add: queue_sources_def)
  then have s: "sources st = sources st' + ?q" by (simp add: sources_def st'_def ac_simps)
  have one: "count (sources st) p + count E p = 0" using c p by (simp add: owed_def)
  have "count (sources st') q + count (?q + E) q \<le> owed st' q" for q
  proof (cases "q = p")
    case True
    then show ?thesis using one unfolding s by simp
  next
    case False
    then have "owed st' q = owed st q" by (simp add: owed_def pending_def st'_def)
    then show ?thesis using singleD [OF assms(1), of q] False unfolding s by simp
  qed
  moreover have "keeps st st'" using w l by (auto simp: keeps_def st'_def nth_list_update)
  ultimately show ?thesis by (simp add: single_def)
qed

lemma single_settle:
  "single (add_mset p E) st \<Longrightarrow> single E (settle n draining ok p v st) \<and> keeps st (settle n draining ok p v st)"
proof (induction n arbitrary: p E st)
  case 0
  then show ?case by (simp add: single_less)
next
  case (Suc n)
  let ?x = "(promises st ! p)\<lparr>p_state := (if ok then FULFILLED else REJECTED), p_outcome := v\<rparr>"
  let ?st = "st\<lparr>promises := (promises st)[p := ?x]\<rparr>"
  let ?f = "\<lambda>qi st. case handler_for ok qi of
             Some h \<Rightarrow> immediate draining (Unwrap (qi_promise qi) h v) st
           | None \<Rightarrow> settle n draining ok (qi_promise qi) v st"
  have s: "single (mset (map qi_promise (p_queue (promises st ! p))) + E) ?st \<and> keeps st ?st"
    by (rule settled_promise [OF Suc.prems]) simp
  have f: "single E' (?f qi st) \<and> keeps st (?f qi st)" if "single (add_mset (qi_promise qi) E') st" for qi st E'
  proof (cases "handler_for ok qi")
    case (Some h)
    then show ?thesis using single_immediate [of "Unwrap (qi_promise qi) h v" E' st draining] that
      by (simp add: task_promise_def)
  qed (use Suc.IH [OF that] in simp)
  have "single E (fold ?f (p_queue (promises st ! p)) ?st) \<and> keeps ?st (fold ?f (p_queue (promises st ! p)) ?st)"
    using settle_steps [of ?f, OF f] s by blast
  then have "single E (fold ?f (p_queue (promises st ! p)) ?st) \<and> keeps st (fold ?f (p_queue (promises st ! p)) ?st)"
    using s keeps_trans by blast
  then show ?case by (simp only: settle.simps)
qed

lemma single_then:
  assumes "single E st"
  shows "single E (snd (then_promise draining p f r st)) \<and> keeps st (snd (then_promise draining p f r st))"
proof (cases "f = None \<and> p_state (promises st ! p) = FULFILLED \<or> r = None \<and> p_state (promises st ! p) = REJECTED")
  case True
  then show ?thesis using assms by (auto simp: then_promise_def)
next
  case False
  let ?c = "length (promises st)"
  let ?st = "st\<lparr>promises := promises st @ [new_promise]\<rparr>"
  have new: "single (add_mset ?c E) ?st" "keeps st ?st" using single_new [OF assms] by blast+
  let ?qi = "\<lparr>qi_promise = ?c, qi_fulfilled = f, qi_rejected = r\<rparr>"
  let ?h = "if p_state (promises st ! p) = PENDING then None else if p_state (promises st ! p) = FULFILLED then f else r"
  have e: "snd (then_promise draining p f r st) = (case ?h of
        Some h \<Rightarrow> immediate draining (Unwrap ?c h (p_outcome (promises st ! p))) ?st
      | None \<Rightarrow> st\<lparr>promises := (promises st)[p := (promises st ! p)\<lparr>p_queue := p_queue (promises st ! p) @ [?qi]\<rparr>]
          @ [new_promise]\<rparr>)"
    using False unfolding then_promise_def Let_def if_not_P [OF False] by (simp only: snd_conv)
  show ?thesis
  proof (cases ?h)
    case (Some h)
    have "single E (immediate draining (Unwrap ?c h v) ?st) \<and> keeps ?st (immediate draining (Unwrap ?c h v) ?st)" for v
      by (rule single_immediate) (use new(1) in \<open>simp add: task_promise_def\<close>)
    then show ?thesis unfolding e Some using keeps_trans [OF new(2)] by simp
  next
    case None
    let ?st' = "?st\<lparr>promises := (promises ?st)[p := (promises ?st ! p)\<lparr>p_queue := p_queue (promises ?st ! p) @ [?qi]\<rparr>]\<rparr>"
    let ?r = "st\<lparr>promises := (promises st)[p := (promises st ! p)\<lparr>p_queue := p_queue (promises st ! p) @ [?qi]\<rparr>] @ [new_promise]\<rparr>"
    have q: "single E ?st' \<and> keeps ?st ?st'" by (rule single_queue) (use new(1) in simp)
    have "single E ?r \<and> keeps ?st ?r"
    proof (cases "p < length (promises st)")
      case True
      then have "?r = ?st'" by (simp add: list_update_append nth_append)
      then show ?thesis using q by simp
    next
      case False
      then have "?r = ?st" by (simp add: list_update_beyond)
      then show ?thesis using single_less [OF new(1)] by simp
    qed
    then show ?thesis unfolding e None using keeps_trans [OF new(2)] by simp
  qed
qed

lemma single_resolve:
  assumes "single (add_mset p E) st"
  shows "single E (resolve_promise draining p v st) \<and> keeps st (resolve_promise draining p v st)"
proof (cases v)
  case (PromiseRef q)
  obtain k st1 where k: "new_resolver p st = (k, st1)" by fastforce
  then have "single E st1 \<and> keeps st st1" using single_resolver [OF assms] by simp
  then show ?thesis using single_then [of E st1 draining q "Some (SuccessOf k)" "Some (ErrorOf k)"] k PromiseRef
    by (auto simp: resolve_promise_def intro: keeps_trans)
next
  case (Thenable t)
  then show ?thesis using single_resolver [OF assms] by (simp add: resolve_promise_def)
qed (use single_settle [OF assms] in \<open>simp_all add: resolve_promise_def\<close>)

lemma single_reject:
  "single (add_mset p E) st \<Longrightarrow> single E (reject_promise draining p v st) \<and> keeps st (reject_promise draining p v st)"
  by (simp add: reject_promise_def single_settle)

text \<open>A closure that is called for the first time holds its source.\<close>

lemma single_call:
  assumes "single E st" and "\<not> rs_called (resolver_at k (resolvers st))"
  defines "st' \<equiv> st\<lparr>resolvers := (resolvers st)[k := (resolver_at k (resolvers st))\<lparr>rs_called := True\<rparr>]\<rparr>"
  shows "single (add_mset (rs_promise (resolver_at k (resolvers st))) E) st' \<and> keeps st st'"
proof -
  have k: "k < length (resolvers st)" "resolver_at k (resolvers st) = resolvers st ! k"
    using assms(2) by (auto simp: resolver_at_def split: if_splits)
  have "sources st = add_mset (rs_promise (resolvers st ! k)) (sources st')"
    using open_resolvers_call [OF k(1)] assms(2) k by (simp add: st'_def sources_def)
  then show ?thesis unfolding k(2) by (auto simp: st'_def keeps_same pending_def intro: singleI [OF assms(1)])
qed

lemma single_race_call:
  assumes "single E st" and "\<not> rs_called (resolver_at k (races st))"
  defines "st' \<equiv> st\<lparr>races := (races st)[k := (resolver_at k (races st))\<lparr>rs_called := True\<rparr>]\<rparr>"
  shows "single (add_mset (rs_promise (resolver_at k (races st))) E) st' \<and> keeps st st'"
proof -
  have k: "k < length (races st)" "resolver_at k (races st) = races st ! k"
    using assms(2) by (auto simp: resolver_at_def split: if_splits)
  have "sources st = add_mset (rs_promise (races st ! k)) (sources st')"
    using open_resolvers_call [OF k(1)] assms(2) k by (simp add: st'_def sources_def)
  then show ?thesis unfolding k(2) by (auto simp: st'_def keeps_same pending_def intro: singleI [OF assms(1)])
qed

lemma single_all_call:
  assumes "single E st" and "\<not> al_called (all_at a (alls st))" and "al_called c"
  defines "st' \<equiv> st\<lparr>alls := (alls st)[a := c]\<rparr>"
  shows "single (add_mset (al_promise (all_at a (alls st))) E) st' \<and> keeps st st'"
proof -
  have k: "a < length (alls st)" "all_at a (alls st) = alls st ! a"
    using assms(2) by (auto simp: all_at_def split: if_splits)
  have "sources st = add_mset (al_promise (alls st ! a)) (sources st')"
    using open_alls_call [OF k(1)] assms(2,3) k by (simp add: st'_def sources_def)
  then show ?thesis unfolding k(2) by (auto simp: st'_def keeps_same pending_def intro: singleI [OF assms(1)])
qed

text \<open>An operation that needs no source of its own keeps the single sources and the outcomes.\<close>

definition safe :: "(pstate \<Rightarrow> pstate) \<Rightarrow> bool" where
  "safe f \<longleftrightarrow> (\<forall>E st. single E st \<longrightarrow> single E (f st) \<and> keeps st (f st))"

lemma safeD: "safe f \<Longrightarrow> single E st \<Longrightarrow> single E (f st) \<and> keeps st (f st)"
  by (simp add: safe_def)

lemma safe_fold: "(\<And>x. safe (f x)) \<Longrightarrow> safe (fold f xs)"
proof (induction xs)
  case (Cons x xs)
  then show ?case unfolding safe_def by (simp, meson keeps_trans)
qed (simp add: safe_def)

lemma safe_then: "safe (\<lambda>st. snd (then_promise draining p f r st))"
  by (simp add: safe_def single_then)

lemma safe_settled_resolver:
  assumes "single E st \<Longrightarrow> single (add_mset p E) st1 \<and> keeps st st1" and "single E st"
  shows "single E (resolve_promise draining p v st1) \<and> keeps st (resolve_promise draining p v st1)"
    "single E (reject_promise draining p v st1) \<and> keeps st (reject_promise draining p v st1)"
  using assms single_resolve [of p E st1 draining v] single_reject [of p E st1 draining v] keeps_trans by blast+

lemma safe_onSuccess: "safe (onSuccess draining k v)"
  unfolding safe_def onSuccess_def Let_def
  by (auto intro: safe_settled_resolver(1) [OF single_call, THEN conjunct1] safe_settled_resolver(1) [OF single_call, THEN conjunct2])

lemma safe_onError: "safe (onError draining k v)"
  unfolding safe_def onError_def Let_def
  by (auto intro: safe_settled_resolver(2) [OF single_call, THEN conjunct1] safe_settled_resolver(2) [OF single_call, THEN conjunct2])

lemma safe_race: "safe (settleFromRace draining ok r v)"
  unfolding safe_def settleFromRace_def Let_def
  by (auto intro: safe_settled_resolver [OF single_race_call, THEN conjunct1] safe_settled_resolver [OF single_race_call, THEN conjunct2])

lemma safe_rejectFromAll: "safe (rejectFromAll draining a v)"
  unfolding safe_def rejectFromAll_def Let_def
  by (auto intro: safe_settled_resolver(2) [OF single_all_call, THEN conjunct1] safe_settled_resolver(2) [OF single_all_call, THEN conjunct2])

lemma safe_resolveFromAll: "safe (resolveFromAll draining a i v)"
  unfolding safe_def
proof (intro allI impI)
  fix E st assume st: "single E st"
  define x where "x = all_at a (alls st)"
  define c where "c = x\<lparr>al_values := (al_values x)[i := v], al_resolved := al_resolved x + 1\<rparr>"
  have c: "al_promise c = al_promise x" "al_called c = al_called x" by (simp_all add: c_def)
  have r: "resolveFromAll draining a i v st =
     (if al_resolved c = length (al_values c) \<and> \<not> al_called c
      then resolve_promise draining (al_promise c) (Values (al_values c)) (st\<lparr>alls := (alls st)[a := c\<lparr>al_called := True\<rparr>]\<rparr>)
      else st\<lparr>alls := (alls st)[a := c]\<rparr>)"
    by (simp only: resolveFromAll_def Let_def c_def x_def)
  show "single E (resolveFromAll draining a i v st) \<and> keeps st (resolveFromAll draining a i v st)"
  proof (cases "al_resolved c = length (al_values c) \<and> \<not> al_called c")
    case True
    then have "\<not> al_called (all_at a (alls st))" by (simp add: c x_def)
    from single_all_call [OF st this, of "c\<lparr>al_called := True\<rparr>"]
    show ?thesis unfolding r if_P [OF True] c(1) x_def by (intro safe_settled_resolver(1) [OF _ st]) simp
  next
    case False
    have "open_alls ((alls st)[a := c]) = open_alls (alls st)"
    proof (cases "a < length (alls st)")
      case True
      then show ?thesis using c by (intro open_alls_update) (simp_all add: x_def all_at_def)
    qed (simp add: list_update_beyond)
    then have "sources (st\<lparr>alls := (alls st)[a := c]\<rparr>) = sources st" by (simp add: sources_def)
    then show ?thesis unfolding r if_not_P [OF False]
      by (auto simp: keeps_same pending_def intro: singleI [OF st])
  qed
qed

text \<open>A new promise that is settled at once, or handed to \<open>all\<close>, \<open>race\<close> or a resolver.\<close>

lemma safe_resolve_static: "safe (\<lambda>st. snd (promise_resolve draining v st))"
proof -
  have "single E (resolve_promise draining (length (promises st)) v (st\<lparr>promises := promises st @ [new_promise]\<rparr>)) \<and>
      keeps st (resolve_promise draining (length (promises st)) v (st\<lparr>promises := promises st @ [new_promise]\<rparr>))"
    if "single E st" for E st
    using safe_settled_resolver(1) [OF single_new that] .
  then show ?thesis by (cases v) (simp_all add: safe_def promise_resolve_def Let_def)
qed

lemma safe_reject_static: "safe (\<lambda>st. snd (promise_reject draining v st))"
  unfolding safe_def promise_reject_def Let_def using safe_settled_resolver(2) [OF single_new] by simp

lemma safe_attach: "safe (attach draining f r i vs)"
proof (induction vs arbitrary: i)
  case (Cons v vs)
  show ?case unfolding safe_def
  proof (intro allI impI)
    fix E st assume st: "single E st"
    obtain q st1 where q: "promise_resolve draining v st = (q, st1)" by fastforce
    define st2 where "st2 = snd (then_promise draining q (Some (f i)) (Some r) st1)"
    have "single E st1 \<and> keeps st st1" using safeD [OF safe_resolve_static st, of draining v] by (simp add: q)
    moreover from this have "single E st2 \<and> keeps st1 st2" using safeD [OF safe_then] st2_def by blast
    moreover from this have "single E (attach draining f r (i + 1) vs st2) \<and> keeps st2 (attach draining f r (i + 1) vs st2)"
      using safeD [OF Cons.IH] by blast
    ultimately show "single E (attach draining f r i (v # vs) st) \<and> keeps st (attach draining f r i (v # vs) st)"
      using keeps_trans by (simp add: q st2_def [symmetric]) blast
  qed
qed (simp add: safe_def)

lemma single_handed:
  assumes "single E st" and "\<And>st1. single (add_mset (length (promises st)) E) st1 \<Longrightarrow> single E (g st1) \<and> keeps st1 (g st1)"
  shows "single E (g (st\<lparr>promises := promises st @ [new_promise]\<rparr>)) \<and> keeps st (g (st\<lparr>promises := promises st @ [new_promise]\<rparr>))"
  using single_new [OF assms(1)] assms(2) keeps_trans by blast

lemma safe_new: "safe (\<lambda>st. snd (promise_new st))"
  unfolding safe_def promise_new_def Let_def snd_conv
proof (intro allI impI)
  fix E st assume "single E st"
  from single_handed [OF this, of "\<lambda>st1. snd (new_resolver (length (promises st)) st1)"] single_resolver
  show "single E (snd (new_resolver (length (promises st)) (st\<lparr>promises := promises st @ [new_promise]\<rparr>))) \<and>
      keeps st (snd (new_resolver (length (promises st)) (st\<lparr>promises := promises st @ [new_promise]\<rparr>)))" by blast
qed

lemma safe_all: "safe (\<lambda>st. snd (promise_all draining vs st))"
proof (cases "vs = []")
  case True
  then show ?thesis using safe_resolve_static by (simp add: promise_all_def)
next
  case False
  have "single E st2 \<and> keeps st st2"
    if st: "single E st" and st2: "st2 = st\<lparr>promises := promises st @ [new_promise],
      alls := alls st @ [\<lparr>al_promise = length (promises st), al_values = xs, al_resolved = 0, al_called = False\<rparr>]\<rparr>"
    for E st st2 xs
  proof -
    have "sources st2 = add_mset (length (promises st)) (sources (st\<lparr>promises := promises st @ [new_promise]\<rparr>))"
      by (simp add: st2 sources_def open_alls_def)
    then show ?thesis using single_new [OF st]
      by (auto simp: st2 pending_def keeps_def intro: singleI [of "add_mset (length (promises st)) E"])
  qed
  note handed = this
  show ?thesis unfolding safe_def
  proof (intro allI impI)
    fix E st assume st: "single E st"
    define st2 where "st2 = st\<lparr>promises := promises st @ [new_promise],
      alls := alls st @ [\<lparr>al_promise = length (promises st), al_values = replicate (length vs) Undefined, al_resolved = 0, al_called = False\<rparr>]\<rparr>"
    have a: "single E st2 \<and> keeps st st2" by (rule handed [OF st st2_def])
    have "snd (promise_all draining vs st) = attach draining (AllFulfilled (length (alls st))) (AllRejected (length (alls st))) 0 vs st2"
      using False by (simp add: promise_all_def st2_def Let_def)
    then show "single E (snd (promise_all draining vs st)) \<and> keeps st (snd (promise_all draining vs st))"
      using a safeD [OF safe_attach, of E st2] by (auto intro: keeps_trans)
  qed
qed

lemma safe_race_call: "safe (\<lambda>st. snd (promise_race draining vs st))"
proof (cases "vs = []")
  case True
  then show ?thesis using safe_resolve_static by (simp add: promise_race_def)
next
  case False
  have "single E st2 \<and> keeps st st2"
    if st: "single E st" and st2: "st2 = st\<lparr>promises := promises st @ [new_promise],
      races := races st @ [\<lparr>rs_promise = length (promises st), rs_called = False\<rparr>]\<rparr>"
    for E st st2
  proof -
    have "sources st2 = add_mset (length (promises st)) (sources (st\<lparr>promises := promises st @ [new_promise]\<rparr>))"
      by (simp add: st2 sources_def open_resolvers_def)
    then show ?thesis using single_new [OF st]
      by (auto simp: st2 pending_def keeps_def intro: singleI [of "add_mset (length (promises st)) E"])
  qed
  note handed = this
  show ?thesis unfolding safe_def
  proof (intro allI impI)
    fix E st assume st: "single E st"
    define st2 where "st2 = st\<lparr>promises := promises st @ [new_promise],
      races := races st @ [\<lparr>rs_promise = length (promises st), rs_called = False\<rparr>]\<rparr>"
    have a: "single E st2 \<and> keeps st st2" by (rule handed [OF st st2_def])
    have "snd (promise_race draining vs st) =
        attach draining (\<lambda>i. RaceFulfilled (length (races st))) (RaceRejected (length (races st))) 0 vs st2"
      using False by (simp add: promise_race_def st2_def Let_def)
    then show "single E (snd (promise_race draining vs st)) \<and> keeps st (snd (promise_race draining vs st))"
      using a safeD [OF safe_attach, of E st2] by (auto intro: keeps_trans)
  qed
qed

lemma safe_action: "safe (do_action draining a)"
  unfolding do_action_def [abs_def]
  by (cases a) (simp_all add: safe_new safe_then safe_onSuccess safe_onError safe_resolve_static
    safe_reject_static safe_all safe_race_call)

lemma safe_actions: "safe (fold (do_action draining) as)"
  by (rule safe_fold) (rule safe_action)

lemma single_call_handler:
  assumes "single E st" and "call_handler env h v st = (st', r)"
  shows "single E st' \<and> keeps st st'"
  using assms safeD [OF safe_actions] safeD [OF safe_onSuccess] safeD [OF safe_onError]
    safeD [OF safe_resolveFromAll] safeD [OF safe_rejectFromAll] safeD [OF safe_race]
  by (cases h) (auto simp: call_handler_def split: prod.splits)

lemma single_run_task:
  assumes "single (add_mset (task_promise t) E) st"
  shows "single E (run_task env t st) \<and> keeps st (run_task env t st)"
proof -
  obtain p h v where t: "t = Unwrap p h v" by (cases t)
  obtain st1 r where c: "call_handler env h v st = (st1, r)" by fastforce
  have "single (add_mset p E) st1 \<and> keeps st st1"
    using single_call_handler [OF assms c] by (simp add: t task_promise_def)
  then show ?thesis using single_resolve [of p E st1 True] single_reject [of p E st1 True] keeps_trans
    by (auto simp: run_task_def t c split: sum.split)
qed

section \<open>Reachable states\<close>

text \<open>
  The program's code calls the interface, or the next task of the queue runs; whatever the
  functions of the caller do.
\<close>

inductive promise_step :: "user_functions \<Rightarrow> pstate \<Rightarrow> pstate \<Rightarrow> bool" for env where
  step_action: "promise_step env st (do_action False a st)"
| step_task: "tasks st = t # ts \<Longrightarrow> promise_step env st (run_task env t (st\<lparr>tasks := ts\<rparr>))"

inductive promise_steps :: "user_functions \<Rightarrow> pstate \<Rightarrow> pstate \<Rightarrow> bool" for env where
  steps_none: "promise_steps env st st"
| steps_more: "promise_steps env st st1 \<Longrightarrow> promise_step env st1 st2 \<Longrightarrow> promise_steps env st st2"

lemma single_step:
  assumes "promise_step env st st'" and "single {#} st"
  shows "single {#} st' \<and> keeps st st'"
  using assms
proof (induction rule: promise_step.induct)
  case (step_action st a)
  then show ?case using safeD [OF safe_action] by blast
next
  case (step_task st t ts)
  let ?st = "st\<lparr>tasks := ts\<rparr>"
  have "sources st = add_mset (task_promise t) (sources ?st)" by (simp add: sources_def step_task)
  then have "single {#task_promise t#} ?st" using step_task by (auto simp: pending_def intro: singleI [OF step_task.prems])
  then show ?case using single_run_task [of t "{#}" ?st env] keeps_trans [of st ?st] keeps_same [of ?st st] by auto
qed

lemma single_steps: "promise_steps env st st' \<Longrightarrow> single {#} st \<Longrightarrow> single {#} st' \<and> keeps st st'"
proof (induction rule: promise_steps.induct)
  case (steps_more st st1 st2)
  then show ?case using single_step keeps_trans by blast
qed simp

lemma single_init: "single {#} no_promises"
  by (simp add: single_def sources_def no_promises_def queue_sources_def open_resolvers_def open_alls_def)

text \<open>
  Property C10. A promise is settled at most once. In every state the program reaches, whatever the
  order of calls and tasks and whatever the functions of the caller do, at most one resolver,
  closure, queued item or task can still settle a pending promise and none a settled one (or one that does
  not exist), although \<open>handlers.resolve\<close> and \<open>handlers.reject\<close> do not look at the state: once a promise is
  fulfilled or rejected, its state and its outcome stay, whatever happens after.
\<close>

theorem settled_once:
  assumes "promise_steps env no_promises st" and "promise_steps env st st'"
  shows "(\<forall>p. count (sources st) p \<le> (if p < length (promises st) \<and> p_state (promises st ! p) = PENDING then 1 else 0)) \<and>
    (\<forall>p < length (promises st). p_state (promises st ! p) \<noteq> PENDING \<longrightarrow>
       p_state (promises st' ! p) = p_state (promises st ! p) \<and> p_outcome (promises st' ! p) = p_outcome (promises st ! p))"
proof -
  have s: "single {#} st" using single_steps [OF assms(1) single_init] by blast
  have "count (sources st) p \<le> (if p < length (promises st) \<and> p_state (promises st ! p) = PENDING then 1 else 0)" for p
    using singleD [OF s, of p] by (simp add: owed_def pending_def split: if_splits)
  moreover have "keeps st st'" using single_steps [OF assms(2) s] by blast
  ultimately show ?thesis by (auto simp: keeps_def)
qed

text \<open>A promise of an outcome, and then another one for the first one's outcome.\<close>

definition demo_state :: pstate where
  "demo_state = do_action False (Resolve (Data 1)) no_promises"

theorem settled_once_witness:
  "0 \<notin># sources demo_state \<and> p_outcome (promises (do_action False (Then 0 (Some (User 0)) None) demo_state) ! 0) = p_outcome (promises demo_state ! 0)"
proof -
  have s: "promise_steps env no_promises demo_state" for env
    unfolding demo_state_def by (rule steps_more [OF steps_none]) (rule step_action)
  have t: "promise_steps env demo_state (do_action False (Then 0 (Some (User 0)) None) demo_state)" for env
    by (rule steps_more [OF steps_none]) (rule step_action)
  have "length (promises demo_state) = 1 \<and> p_state (promises demo_state ! 0) = FULFILLED"
    by (simp add: demo_state_def do_action_def promise_resolve_def resolve_promise_def no_promises_def new_promise_def Let_def)
  then have l: "length (promises demo_state) = 1" and f: "p_state (promises demo_state ! 0) = FULFILLED" by blast+
  note once = settled_once [OF s t [of "\<lambda>f v st. ([], Inr v)"]]
  have "count (sources demo_state) 0 \<le> 0" using spec [OF conjunct1 [OF once], of 0] f by simp
  then show ?thesis using conjunct2 [OF once] l f by (simp add: not_in_iff)
qed

section \<open>The fuel of settle is enough\<close>

text \<open>A queued promise is younger than the promise in whose queue it is.\<close>

definition queues :: "pstate \<Rightarrow> queue_item list list" where
  "queues st = map p_queue (promises st)"

definition ordered :: "queue_item list list \<Rightarrow> bool" where
  "ordered qs \<longleftrightarrow> (\<forall>p < length qs. \<forall>qi \<in> set (qs ! p). p < qi_promise qi \<and> qi_promise qi < length qs)"

lemma queues_simps [simp]:
  "queues (st\<lparr>resolvers := r\<rparr>) = queues st" "queues (st\<lparr>alls := a\<rparr>) = queues st" "queues (st\<lparr>races := r\<rparr>) = queues st"
  "queues (st\<lparr>tasks := ts\<rparr>) = queues st" "queues (st\<lparr>promises := ps\<rparr>) = map p_queue ps"
  "queues (immediate d tk st) = queues st" "queues (snd (new_resolver p st)) = queues st"
  by (simp_all add: queues_def immediate_def new_resolver_def Let_def)

lemma length_queues: "length (promises st) = length (queues st)"
  by (simp add: queues_def)

lemma queues_fold: "(\<And>x st. queues (f x st) = queues st) \<Longrightarrow> queues (fold f xs st) = queues st"
  by (induction xs arbitrary: st) simp_all

lemma map_update_same: "f y = f (xs ! i) \<Longrightarrow> map f (xs[i := y]) = map f xs"
  by (induction xs arbitrary: i) (auto split: nat.split simp: nth_Cons')

lemma queues_settle [simp]: "queues (settle n d ok p v st) = queues st"
proof (induction n arbitrary: p st)
  case (Suc n)
  then show ?case
    by (simp add: queues_fold split: option.split) (simp add: queues_def map_update_same)
qed simp

lemma settle_fuel:
  assumes "ordered (queues st)" and "length (promises st) - p \<le> n" and "length (promises st) - p \<le> m" and "p < length (promises st)"
  shows "settle n d ok p v st = settle m d ok p v st"
  using assms
proof (induction n arbitrary: p m st)
  case (Suc n)
  then obtain m' where m: "m = Suc m'" by (cases m) auto
  let ?f = "\<lambda>n qi st. case handler_for ok qi of
             Some h \<Rightarrow> immediate d (Unwrap (qi_promise qi) h v) st
           | None \<Rightarrow> settle n d ok (qi_promise qi) v st"
  have "fold (?f n) qs st1 = fold (?f m') qs st1"
    if "queues st1 = queues st" "set qs \<subseteq> set (queues st ! p)" for qs st1
    using that
  proof (induction qs arbitrary: st1)
    case (Cons qi qs)
    have q: "p < qi_promise qi" "qi_promise qi < length (promises st1)"
      using Suc.prems(1,4) Cons.prems length_queues [of st] length_queues [of st1] by (auto simp: ordered_def)
    have l: "length (promises st1) = length (promises st)" using Cons.prems(1) by (simp add: length_queues)
    have "settle n d ok (qi_promise qi) v st1 = settle m' d ok (qi_promise qi) v st1"
      by (rule Suc.IH) (use Suc.prems q l Cons.prems(1) m in auto)
    then have "?f n qi st1 = ?f m' qi st1" by (simp split: option.split)
    moreover have "queues (?f m' qi st1) = queues st" using Cons.prems(1) by (simp split: option.split)
    ultimately show ?case using Cons by simp
  qed simp
  moreover have "queues (st\<lparr>promises := (promises st)[p := (promises st ! p)
      \<lparr>p_state := (if ok then FULFILLED else REJECTED), p_outcome := v\<rparr>]\<rparr>) = queues st"
    by (simp add: queues_def map_update_same)
  moreover have "p_queue (promises st ! p) = queues st ! p" using Suc.prems(4) by (simp add: queues_def)
  ultimately show ?case unfolding m settle.simps by (metis (no_types, lifting) subset_refl)
qed simp

text \<open>Every operation keeps the order.\<close>

definition keeps_order :: "(pstate \<Rightarrow> pstate) \<Rightarrow> bool" where
  "keeps_order f \<longleftrightarrow> (\<forall>st. ordered (queues st) \<longrightarrow> ordered (queues (f st)))"

lemma ordered_new: "ordered (queues st) \<Longrightarrow> ordered (map p_queue (promises st @ [new_promise]))"
  by (force simp: ordered_def queues_def nth_append new_promise_def)

lemma ordered_then: "ordered (queues st) \<Longrightarrow> ordered (queues (snd (then_promise d p f r st)))"
proof -
  assume o': "ordered (queues st)"
  have "ordered (map p_queue ((promises st)[p := (promises st ! p)\<lparr>p_queue := p_queue (promises st ! p) @
      [\<lparr>qi_promise = length (promises st), qi_fulfilled = f, qi_rejected = r\<rparr>]\<rparr>] @ [new_promise]))"
    (is "ordered ?qs")
    unfolding ordered_def
  proof (intro allI impI ballI)
    fix q qi assume q: "q < length ?qs" "qi \<in> set (?qs ! q)"
    have "?qs ! q = [] \<or> q < length (promises st) \<and> (set (?qs ! q) \<subseteq> insert \<lparr>qi_promise = length (promises st),
        qi_fulfilled = f, qi_rejected = r\<rparr> (set (queues st ! q)))"
      using q(1) by (cases "q = p") (auto simp: nth_append new_promise_def queues_def)
    then have "q < length (promises st)" "qi = \<lparr>qi_promise = length (promises st), qi_fulfilled = f, qi_rejected = r\<rparr> \<or> qi \<in> set (queues st ! q)"
      using q(2) by auto
    then show "q < qi_promise qi \<and> qi_promise qi < length ?qs"
      using o' by (fastforce simp: ordered_def length_queues [symmetric])
  qed
  then show ?thesis using ordered_new [OF o'] o' by (auto simp: then_promise_def Let_def split: option.split)
qed

lemma ordered_resolve: "ordered (queues st) \<Longrightarrow> ordered (queues (resolve_promise d p v st))"
  using ordered_then [of "snd (new_resolver p st)"]
  by (cases v) (auto simp: resolve_promise_def split: prod.split)

lemma ordered_reject: "ordered (queues st) \<Longrightarrow> ordered (queues (reject_promise d p v st))"
  by (simp add: reject_promise_def)

lemma ordered_closures:
  "keeps_order (onSuccess d k v)" "keeps_order (onError d k v)" "keeps_order (resolveFromAll d a i v)"
  "keeps_order (rejectFromAll d a v)" "keeps_order (settleFromRace d ok r v)"
  by (simp_all add: keeps_order_def onSuccess_def onError_def resolveFromAll_def rejectFromAll_def settleFromRace_def
      ordered_resolve ordered_reject Let_def)

lemma ordered_static:
  "keeps_order (\<lambda>st. snd (promise_resolve d v st))" "keeps_order (\<lambda>st. snd (promise_reject d v st))"
  using ordered_new by (auto simp: keeps_order_def promise_resolve_def promise_reject_def Let_def
      intro!: ordered_resolve ordered_reject split: pvalue.split)

lemma ordered_attach: "ordered (queues st) \<Longrightarrow> ordered (queues (attach d f r i vs st))"
proof (induction vs arbitrary: i st)
  case (Cons v vs)
  obtain q st1 where q: "promise_resolve d v st = (q, st1)" by fastforce
  then have "ordered (queues st1)" using ordered_static(1) [of d v] Cons.prems by (metis keeps_order_def snd_conv)
  then show ?case using Cons.IH [OF ordered_then] by (simp add: q)
qed simp

lemma ordered_action: "keeps_order (do_action d a)"
  using ordered_static ordered_closures ordered_new
  by (cases a) (auto simp: keeps_order_def do_action_def ordered_then promise_new_def promise_all_def promise_race_def Let_def
      intro!: ordered_attach)

lemma ordered_actions: "ordered (queues st) \<Longrightarrow> ordered (queues (fold (do_action d) as st))"
  using ordered_action by (induction as arbitrary: st) (auto simp: keeps_order_def)

lemma ordered_run_task: "ordered (queues st) \<Longrightarrow> ordered (queues (run_task env t st))"
proof -
  assume o': "ordered (queues st)"
  obtain p h v where t: "t = Unwrap p h v" by (cases t)
  obtain st1 r where c: "call_handler env h v st = (st1, r)" by fastforce
  have "ordered (queues st1)" using c o' ordered_actions ordered_closures
    by (cases h) (auto simp: call_handler_def keeps_order_def split: prod.splits)
  then show ?thesis by (auto simp: run_task_def t c ordered_resolve ordered_reject split: sum.split)
qed

lemma ordered_steps: "promise_steps env st0 st \<Longrightarrow> ordered (queues st0) \<Longrightarrow> ordered (queues st)"
proof (induction rule: promise_steps.induct)
  case (steps_more st st1 st2)
  from steps_more.hyps(2) show ?case
  proof cases
    case (step_action a)
    then show ?thesis using ordered_action steps_more unfolding keeps_order_def by blast
  next
    case (step_task t ts)
    then show ?thesis using ordered_run_task [of "st1\<lparr>tasks := ts\<rparr>"] steps_more by simp
  qed
qed simp

text \<open>In every reachable state the fuel that the operations pass to \<open>settle\<close> is as good as any larger one.\<close>

lemma settle_enough:
  assumes "promise_steps env no_promises st" and "p < length (promises st)" and "length (promises st) \<le> n"
  shows "settle n d ok p v st = settle (length (promises st)) d ok p v st"
proof -
  have "ordered (queues no_promises)" by (simp add: ordered_def queues_def no_promises_def)
  then show ?thesis using ordered_steps [OF assms(1)] assms(2,3) by (intro settle_fuel) auto
qed

end
