(* ===== verification/Adler32.thy ===== *)
theory Adler32
  imports JsPrelude
begin

text \<open>
  \<open>zlib/adler32\<close> of the bundled pako: the checksum of the zlib format. The code takes the remainders
  only after every 2000 bytes and keeps its sums signed 32-bit integers; the specification is RFC
  1950's, two sums modulo 65521. The result is that no sum leaves the 31 bits before its remainder is
  taken, so that the code computes the specification, also over the chunks of a stream.
\<close>

section \<open>The code\<close>

text \<open>\<open>%\<close> has the sign of the dividend. An element beyond the end is \<open>undefined\<close>; a sum with it is 0.\<close>

definition js_rem :: "int \<Rightarrow> int \<Rightarrow> int" where
  "js_rem a b = (if a < 0 then - ((- a) mod b) else a mod b)"

definition adler_add :: "int \<Rightarrow> int list \<Rightarrow> nat \<Rightarrow> int" where
  "adler_add s buf pos = (if pos < length buf then js_or (s + buf ! pos) 0 else 0)"

text \<open>The inner \<open>do ... while (--n)\<close>, which is entered with a positive \<open>n\<close> only.\<close>

fun adler_inner :: "nat \<Rightarrow> int list \<Rightarrow> nat \<Rightarrow> int \<Rightarrow> int \<Rightarrow> int \<times> int" where
  "adler_inner 0 buf pos s1 s2 = (s1, s2)"
| "adler_inner (Suc n) buf pos s1 s2 =
     (let s1 = adler_add s1 buf pos; s2 = js_or (s2 + s1) 0
      in adler_inner n buf (pos + 1) s1 s2)"

function adler_loop :: "nat \<Rightarrow> int list \<Rightarrow> nat \<Rightarrow> int \<Rightarrow> int \<Rightarrow> int \<times> int" where
  "adler_loop len buf pos s1 s2 =
     (if len = 0 then (s1, s2)
      else let n = (if len > 2000 then 2000 else len);
               (s1, s2) = adler_inner n buf pos s1 s2
           in adler_loop (len - n) buf (pos + n) (js_rem s1 65521) (js_rem s2 65521))"
  by pat_completeness auto
termination by (relation "measure (\<lambda>(len, _). len)") auto

declare adler_loop.simps [simp del]

definition adler32 :: "int \<Rightarrow> int list \<Rightarrow> nat \<Rightarrow> nat \<Rightarrow> int" where
  "adler32 adler buf len pos =
     (let s1 = js_or (js_and adler 0xffff) 0; s2 = js_or (js_and (js_ushr adler 16) 0xffff) 0;
          (s1, s2) = adler_loop len buf pos s1 s2
      in js_or (js_or s1 (js_shl s2 16)) 0)"

section \<open>The specification\<close>

text \<open>One byte of RFC 1950's checksum, and the two sums packed into a signed 32-bit integer.\<close>

definition adler_byte :: "int \<times> int \<Rightarrow> int \<Rightarrow> int \<times> int" where
  "adler_byte s b = ((fst s + b) mod 65521, (snd s + fst s + b) mod 65521)"

definition adler_spec :: "int list \<Rightarrow> int \<times> int" where
  "adler_spec bs = foldl adler_byte (1, 0) bs"

definition adler_pack :: "int \<times> int \<Rightarrow> int" where
  "adler_pack s = ToInt32 (fst s + 65536 * snd s)"

section \<open>The sums stay small\<close>

text \<open>The sums of a block before the remainder.\<close>

fun plain_sums :: "int list \<Rightarrow> int \<Rightarrow> int \<Rightarrow> int \<times> int" where
  "plain_sums [] s1 s2 = (s1, s2)"
| "plain_sums (b # bs) s1 s2 = plain_sums bs (s1 + b) (s2 + (s1 + b))"

lemma js_or_0: "js_or a 0 = ToInt32 a"
  by (simp add: js_or_def ToInt32_def)

lemma plain_sums_mono:
  "list_all (\<lambda>b. 0 \<le> b \<and> b < 256) bs \<Longrightarrow> 0 \<le> s1 \<Longrightarrow> s1 \<le> fst (plain_sums bs s1 s2) \<and> s2 \<le> snd (plain_sums bs s1 s2)"
proof (induction bs arbitrary: s1 s2)
  case (Cons b bs)
  then have "s1 + b \<le> fst (plain_sums bs (s1 + b) (s2 + (s1 + b))) \<and> s2 + (s1 + b) \<le> snd (plain_sums bs (s1 + b) (s2 + (s1 + b)))"
    by (intro Cons.IH) auto
  then show ?case using Cons.prems by auto
qed simp

lemma adler_inner_plain:
  assumes "list_all (\<lambda>b. 0 \<le> b \<and> b < 256) (take n (drop pos buf))" and "pos + n \<le> length buf"
    and "0 \<le> s1" and "s1 + 255 * int n < 2147483648" and "0 \<le> s2" and "s2 + int n * (s1 + 255 * int n) < 2147483648"
  shows "adler_inner n buf pos s1 s2 = plain_sums (take n (drop pos buf)) s1 s2"
  using assms
proof (induction n arbitrary: pos s1 s2)
  case (Suc n)
  have d: "take (Suc n) (drop pos buf) = buf ! pos # take n (drop (pos + 1) buf)"
    using Suc.prems(2) by (simp add: Cons_nth_drop_Suc [symmetric])
  let ?b = "buf ! pos"
  have b: "0 \<le> ?b" "?b \<le> 255" using Suc.prems(1) d by auto
  have m: "0 \<le> int n * (s1 + 255 + 255 * int n)" using Suc.prems by simp
  have e: "s2 + (s1 + 255 + 255 * int n) + int n * (s1 + 255 + 255 * int n) < 2147483648"
    using Suc.prems(6) by (simp add: algebra_simps)
  have "int n * (s1 + ?b + 255 * int n) \<le> int n * (s1 + 255 + 255 * int n)"
    using b by (intro mult_left_mono) auto
  then have i: "s2 + (s1 + ?b) + int n * (s1 + ?b + 255 * int n) < 2147483648" using e b by linarith
  have s1: "adler_add s1 buf pos = s1 + ?b"
    using Suc.prems(2,3,4) b by (simp add: adler_add_def js_or_0 ToInt32_id)
  have s2: "js_or (s2 + (s1 + ?b)) 0 = s2 + (s1 + ?b)"
    unfolding js_or_0 using Suc.prems(3,5) b e m by (intro ToInt32_id) linarith+
  show ?case unfolding d using s1 s2 i b Suc.prems d by (simp add: Let_def) (intro Suc.IH, auto)
qed simp

lemma mod_add3:
  fixes a b c m :: int
  shows "(a mod m + b mod m + c) mod m = (a + b + c) mod m"
  using mod_add_left_eq [of "a mod m + b mod m" m c] mod_add_left_eq [of "a + b" m c] by (simp add: mod_add_eq)

lemma plain_sums_mod:
  "(fst (plain_sums bs s1 s2) mod 65521, snd (plain_sums bs s1 s2) mod 65521) =
     foldl adler_byte (s1 mod 65521, s2 mod 65521) bs"
proof (induction bs arbitrary: s1 s2)
  case (Cons b bs)
  have "adler_byte (s1 mod 65521, s2 mod 65521) b = ((s1 + b) mod 65521, (s2 + (s1 + b)) mod 65521)"
    by (simp only: adler_byte_def fst_conv snd_conv mod_add3 mod_add_left_eq) (simp add: add.assoc)
  then show ?case by (simp add: Cons.IH)
qed simp

text \<open>The bound behind the 2000 bytes of a block.\<close>

lemma block_bound:
  assumes "n \<le> 2000" and "s1 < 65521" and "0 \<le> s1"
  shows "s1 + 255 * int n \<le> 575520" "int n * (s1 + 255 * int n) \<le> 1151040000"
proof -
  have n: "int n \<le> 2000" using assms(1) by simp
  show m: "s1 + 255 * int n \<le> 575520" using n assms by linarith
  have "int n * (s1 + 255 * int n) \<le> 2000 * 575520"
    by (rule mult_mono [OF n m]) (use assms in simp_all)
  then show "int n * (s1 + 255 * int n) \<le> 1151040000" by simp
qed

lemma take_block: "n \<le> len \<Longrightarrow> take len (drop pos buf) = take n (drop pos buf) @ take (len - n) (drop (pos + n) buf)"
  using take_add [of n "len - n" "drop pos buf"] by (simp add: add.commute)

lemma adler_loop_spec:
  assumes "list_all (\<lambda>b. 0 \<le> b \<and> b < 256) (take len (drop pos buf))" and "pos + len \<le> length buf"
    and "0 \<le> s1" and "s1 < 65521" and "0 \<le> s2" and "s2 < 65521"
  shows "adler_loop len buf pos s1 s2 = foldl adler_byte (s1, s2) (take len (drop pos buf))"
  using assms
proof (induction len buf pos s1 s2 rule: adler_loop.induct)
  case (1 len buf pos s1 s2)
  show ?case
  proof (cases "len = 0")
    case False
    define n where "n = (if len > 2000 then 2000 else len)"
    have n: "n \<le> len" "n \<le> 2000" "0 < n" using False by (auto simp: n_def)
    note t = take_block [OF n(1), of pos buf]
    have la: "list_all (\<lambda>b. 0 \<le> b \<and> b < 256) (take n (drop pos buf))"
        "list_all (\<lambda>b. 0 \<le> b \<and> b < 256) (take (len - n) (drop (pos + n) buf))"
      using "1.prems"(1) by (simp_all only: t list_all_append)
    have "s1 + 255 * int n < 2147483648" "s2 + int n * (s1 + 255 * int n) < 2147483648"
      using block_bound(1) [OF n(2), of s1] block_bound(2) [OF n(2), of s1] "1.prems" by simp_all
    then have p: "adler_inner n buf pos s1 s2 = plain_sums (take n (drop pos buf)) s1 s2"
      using "1.prems"(2,3,5) n(1) by (intro adler_inner_plain la) simp_all
    define r where "r = plain_sums (take n (drop pos buf)) s1 s2"
    have "0 \<le> fst r \<and> 0 \<le> snd r"
      using plain_sums_mono [OF la(1), of s1 s2] "1.prems" by (simp add: r_def)
    then have j: "js_rem (fst r) 65521 = fst r mod 65521" "js_rem (snd r) 65521 = snd r mod 65521"
      by (simp_all add: js_rem_def)
    have f: "(fst r mod 65521, snd r mod 65521) = foldl adler_byte (s1, s2) (take n (drop pos buf))"
      using plain_sums_mod [of "take n (drop pos buf)" s1 s2] "1.prems" by (simp add: r_def)
    have "adler_loop (len - n) buf (pos + n) (fst r mod 65521) (snd r mod 65521) =
        foldl adler_byte (fst r mod 65521, snd r mod 65521) (take (len - n) (drop (pos + n) buf))"
      using "1.IH" [OF False n_def, of "(fst r, snd r)" "fst r" "snd r"] "1.prems" la n j p by (simp add: r_def)
    then show ?thesis
      using False by (subst adler_loop.simps) (simp add: n_def [symmetric] Let_def p r_def [symmetric] case_prod_beta j f t)
  qed (simp add: adler_loop.simps)
qed

lemma adler_byte_range:
  "0 \<le> fst (foldl adler_byte s bs) \<and> fst (foldl adler_byte s bs) < 65521 \<and>
    0 \<le> snd (foldl adler_byte s bs) \<and> snd (foldl adler_byte s bs) < 65521"
  if "0 \<le> fst s" "fst s < 65521" "0 \<le> snd s" "snd s < 65521"
  using that by (induction bs arbitrary: s) (simp_all add: adler_byte_def)

lemma adler_pack_halves:
  assumes "0 \<le> fst s" "fst s < 65521" "0 \<le> snd s" "snd s < 65521"
  shows "js_or (js_and (adler_pack s) 65535) 0 = fst s" "js_or (js_and (js_ushr (adler_pack s) 16) 65535) 0 = snd s"
    "js_or (js_or (fst s) (js_shl (snd s) 16)) 0 = adler_pack s"
proof -
  let ?v = "fst s + 65536 * snd s"
  have v: "0 \<le> ?v" "?v < 4294967296" using assms by linarith+
  have u: "ToUint32 (adler_pack s) = ?v"
    using v by (simp add: adler_pack_def ToInt32_def ToUint32_def Let_def)
  have "js_and (adler_pack s) 65535 = adler_pack s mod 65536" using js_and_mask [of 16 "adler_pack s"] by simp
  also have "\<dots> = ToUint32 (adler_pack s) mod 65536" by (simp add: ToUint32_def mod_mod_cancel)
  also have "\<dots> = fst s" using assms by (simp add: u)
  finally show "js_or (js_and (adler_pack s) 65535) 0 = fst s" using assms by (simp add: js_or_0 ToInt32_id)
  have "js_ushr (adler_pack s) 16 = snd s" using assms by (simp add: js_ushr_def u)
  then show "js_or (js_and (js_ushr (adler_pack s) 16) 65535) 0 = snd s"
    using assms js_and_mask [of 16 "snd s"] by (simp add: js_or_0 ToInt32_id)
  show "js_or (js_or (fst s) (js_shl (snd s) 16)) 0 = adler_pack s"
  proof -
    have "w32 (fst s) OR push_bit 16 (w32 (snd s)) = w32 ?v"
    proof -
      have "w32 (fst s) OR push_bit 16 (w32 (snd s)) = w32 (fst s OR push_bit 16 (snd s))"
        by (simp add: of_int_or_eq of_int_push_bit)
      also have "fst s OR push_bit 16 (snd s) = snd s * 2 ^ 16 + fst s"
        using int_or_disjoint [of "fst s" 16 "snd s"] assms by (simp add: push_bit_eq_mult or.commute)
      finally show ?thesis by (simp add: add.commute mult.commute)
    qed
    then show ?thesis
      by (simp add: js_or_0 js_or_sint adler_pack_def ToInt32_sint w32_js_shl)
  qed
qed

text \<open>
  Property C21. The checksum is RFC 1950's for every sequence of bytes, however it is cut into chunks
  and wherever these lie in their buffers: the two sums modulo 65521, packed into a signed integer.
  In particular no sum overflows between two remainders.
\<close>

theorem adler32_spec:
  assumes "list_all (\<lambda>(buf, len, pos). pos + len \<le> length buf \<and>
    list_all (\<lambda>b. 0 \<le> b \<and> b < 256) (take len (drop pos buf))) chunks"
  shows "foldl (\<lambda>adler (buf, len, pos). adler32 adler buf len pos) 1 chunks =
    adler_pack (adler_spec (concat (map (\<lambda>(buf, len, pos). take len (drop pos buf)) chunks)))"
proof -
  have "foldl (\<lambda>adler (buf, len, pos). adler32 adler buf len pos) (adler_pack s) chunks =
      adler_pack (foldl adler_byte s (concat (map (\<lambda>(buf, len, pos). take len (drop pos buf)) chunks)))"
    if "0 \<le> fst s" "fst s < 65521" "0 \<le> snd s" "snd s < 65521" for s
    using that assms
  proof (induction chunks arbitrary: s)
    case (Cons c chunks)
    obtain buf len pos where c: "c = (buf, len, pos)" by (cases c) auto
    note h = adler_pack_halves [OF Cons.prems(1-4)]
    define t where "t = foldl adler_byte s (take len (drop pos buf))"
    have r: "0 \<le> fst t" "fst t < 65521" "0 \<le> snd t" "snd t < 65521"
      using adler_byte_range [OF Cons.prems(1-4), of "take len (drop pos buf)"] by (simp_all add: t_def)
    have "adler_loop len buf pos (fst s) (snd s) = t"
      using Cons.prems by (simp add: c t_def adler_loop_spec)
    then have "adler32 (adler_pack s) buf len pos = adler_pack t"
      using adler_pack_halves(3) [OF r] by (simp add: adler32_def h case_prod_beta)
    then show ?case using Cons.IH [OF r] Cons.prems(5) by (simp add: c t_def)
  qed simp
  from this [of "(1, 0)"] show ?thesis by (simp add: adler_spec_def adler_pack_def ToInt32_id)
qed

theorem adler32_spec_witness:
  "foldl (\<lambda>adler (buf, len, pos). adler32 adler buf len pos) 1 [([87, 105, 107, 105], 4, 0), ([0, 112, 101, 100, 105, 97], 5, 1)] =
    300286872"
  using adler32_spec [of "[([87, 105, 107, 105], 4, 0), ([0, 112, 101, 100, 105, 97], 5, 1)]"]
  by (simp add: adler_spec_def adler_byte_def adler_pack_def ToInt32_def)

end
