(* ===== verification/InflateTable.thy ===== *)
theory InflateTable
  imports JsPrelude
begin

text \<open>
  \<open>zlib/inftrees\<close> of the bundled pako: \<open>inflate_table\<close> builds the table by which \<open>inflate\<close> decodes a
  canonical Huffman code, given by the lengths of its codes. The definitions follow the code's steps;
  the specification is the code that RFC 1951 gives to these lengths. The result is that the table
  decodes every symbol's code, whatever bits follow it, and that the lengths that are refused are the
  over-subscribed and the incomplete ones.

  Lengths, counts and codes are below \<open>2 ^ 16\<close>, so that typed arrays and the 32-bit operators change
  none of them; they are natural numbers here, except for what may become negative (\<open>left\<close>, \<open>low\<close> and
  the counts). An assignment beyond the end of a typed array is without effect, as for lists.
\<close>

section \<open>Lengths, counts and the sorted symbols\<close>

datatype code_type = CODES | LENS | DISTS

definition MAXBITS :: nat where "MAXBITS = 15"
definition ENOUGH_LENS :: nat where "ENOUGH_LENS = 852"
definition ENOUGH_DISTS :: nat where "ENOUGH_DISTS = 592"

definition lbase :: "nat list" where
  "lbase = [3, 4, 5, 6, 7, 8, 9, 10, 11, 13, 15, 17, 19, 23, 27, 31,
     35, 43, 51, 59, 67, 83, 99, 115, 131, 163, 195, 227, 258, 0, 0]"

definition lext :: "nat list" where
  "lext = [16, 16, 16, 16, 16, 16, 16, 16, 17, 17, 17, 17, 18, 18, 18, 18,
     19, 19, 19, 19, 20, 20, 20, 20, 21, 21, 21, 21, 16, 72, 78]"

definition dbase :: "nat list" where
  "dbase = [1, 2, 3, 4, 5, 7, 9, 13, 17, 25, 33, 49, 65, 97, 129, 193,
     257, 385, 513, 769, 1025, 1537, 2049, 3073, 4097, 6145,
     8193, 12289, 16385, 24577, 0, 0]"

definition dext :: "nat list" where
  "dext = [16, 16, 16, 16, 17, 17, 18, 18, 19, 19, 20, 20, 21, 21, 22, 22,
     23, 23, 24, 24, 25, 25, 26, 26, 27, 27,
     28, 28, 29, 29, 64, 64]"

text \<open>\<open>count[lens[lens_index + sym]]++\<close> for all symbols.\<close>

definition count_lens :: "nat list \<Rightarrow> nat \<Rightarrow> nat \<Rightarrow> int list" where
  "count_lens lens lens_index codes =
     foldl (\<lambda>count symb. count[lens ! (lens_index + symb) := count ! (lens ! (lens_index + symb)) + 1])
       (replicate (MAXBITS + 1) 0) [0..<codes]"

text \<open>The loops for \<open>max\<close> and \<open>min\<close>.\<close>

fun last_used :: "int list \<Rightarrow> nat \<Rightarrow> nat" where
  "last_used count 0 = 0"
| "last_used count (Suc m) = (if count ! Suc m \<noteq> 0 then Suc m else last_used count m)"

function first_used :: "int list \<Rightarrow> nat \<Rightarrow> nat \<Rightarrow> nat" where
  "first_used count max_len m =
     (if m < max_len then if count ! m \<noteq> 0 then m else first_used count max_len (m + 1) else m)"
  by pat_completeness auto
termination by (relation "measure (\<lambda>(count, max_len, m). max_len - m)") auto

declare first_used.simps [simp del]

text \<open>The loop for \<open>left\<close>; \<open>None\<close> is the return for an over-subscribed set.\<close>

fun check_left :: "int list \<Rightarrow> int \<Rightarrow> nat list \<Rightarrow> int option" where
  "check_left count left [] = Some left"
| "check_left count left (len # ls) =
     (let left = 2 * left - count ! len in if left < 0 then None else check_left count left ls)"

definition offsets :: "int list \<Rightarrow> nat list" where
  "offsets count =
     foldl (\<lambda>offs len. offs[len + 1 := offs ! len + nat (count ! len)]) (replicate (MAXBITS + 1) 0) [1..<MAXBITS]"

text \<open>\<open>work[offs[lens[lens_index + sym]]++] = sym\<close> for the symbols that have a code.\<close>

definition sort_symbol :: "nat list \<Rightarrow> nat \<Rightarrow> nat list \<times> nat list \<Rightarrow> nat \<Rightarrow> nat list \<times> nat list" where
  "sort_symbol lens lens_index s symb =
     (let (offs, work) = s; len = lens ! (lens_index + symb)
      in if len \<noteq> 0 then (offs[len := offs ! len + 1], work[offs ! len := symb]) else (offs, work))"

definition sort_symbols :: "nat list \<Rightarrow> nat \<Rightarrow> nat \<Rightarrow> nat list \<Rightarrow> nat list \<Rightarrow> nat list" where
  "sort_symbols lens lens_index codes offs work = snd (foldl (sort_symbol lens lens_index) (offs, work) [0..<codes])"

section \<open>Table entries\<close>

definition table_entry :: "nat \<Rightarrow> nat \<Rightarrow> nat \<Rightarrow> int" where
  "table_entry here_bits here_op here_val =
     js_or (js_or (js_or (js_shl (int here_bits) 24) (js_shl (int here_op) 16)) (int here_val)) 0"

definition here_bits :: "int \<Rightarrow> nat" where "here_bits here = nat (js_ushr here 24)"
definition here_op :: "int \<Rightarrow> nat" where "here_op here = nat (js_and (js_ushr here 16) 0xff)"
definition here_val :: "int \<Rightarrow> nat" where "here_val here = nat (js_and here 0xffff)"

text \<open>An element beyond the end of an array is \<open>undefined\<close>, which the bitwise operators read as 0.\<close>

definition nth_or_0 :: "nat list \<Rightarrow> nat \<Rightarrow> nat" where
  "nth_or_0 xs i = (if i < length xs then xs ! i else 0)"

definition at :: "int list \<Rightarrow> nat \<Rightarrow> int" where
  "at xs i = (if i < length xs then xs ! i else 0)"

definition symbol_end :: "code_type \<Rightarrow> int" where
  "symbol_end type = (case type of CODES \<Rightarrow> 19 | LENS \<Rightarrow> 256 | DISTS \<Rightarrow> - 1)"

definition symbol_extra :: "code_type \<Rightarrow> nat list \<Rightarrow> nat \<Rightarrow> nat" where
  "symbol_extra type work symb =
     (case type of CODES \<Rightarrow> nth_or_0 work symb | LENS \<Rightarrow> nth_or_0 lext (symb - 257) | DISTS \<Rightarrow> nth_or_0 dext symb)"

definition symbol_base :: "code_type \<Rightarrow> nat list \<Rightarrow> nat \<Rightarrow> nat" where
  "symbol_base type work symb =
     (case type of CODES \<Rightarrow> nth_or_0 work symb | LENS \<Rightarrow> nth_or_0 lbase (symb - 257) | DISTS \<Rightarrow> nth_or_0 dbase symb)"

text \<open>\<open>here_op\<close> and \<open>here_val\<close> of a symbol.\<close>

definition symbol_entry :: "code_type \<Rightarrow> nat list \<Rightarrow> nat \<Rightarrow> nat \<times> nat" where
  "symbol_entry type work symb =
     (if int symb < symbol_end type then (0, symb)
      else if int symb > symbol_end type then (symbol_extra type work symb, symbol_base type work symb)
      else (32 + 64, 0))"

section \<open>Filling the table\<close>

text \<open>
  The \<open>do ... while (fill !== 0)\<close> loop. If \<open>fill\<close> is no multiple of \<open>incr\<close> it skips 0 and never ends.
\<close>

function fill_entries :: "nat \<Rightarrow> nat \<Rightarrow> nat \<Rightarrow> int \<Rightarrow> int list \<Rightarrow> int list option" where
  "fill_entries i incr fill v table =
     (if incr = 0 \<or> fill < incr then None
      else let fill = fill - incr; table = table[i + fill := v]
           in if fill = 0 then Some table else fill_entries i incr fill v table)"
  by pat_completeness auto
termination by (relation "measure (\<lambda>(i, incr, fill, v, table). fill)") auto

declare fill_entries.simps [simp del]

text \<open>The loop that looks for the highest bit to set, and the backwards increment of \<open>huff\<close>.\<close>

fun free_bit :: "nat \<Rightarrow> nat \<Rightarrow> nat" where
  "free_bit huff 0 = 0"
| "free_bit huff (Suc n) = (if huff AND 2 ^ n \<noteq> 0 then free_bit huff n else 2 ^ n)"

definition next_huff :: "nat \<Rightarrow> nat \<Rightarrow> nat" where
  "next_huff len huff = (let incr = free_bit huff len in if incr \<noteq> 0 then (huff AND (incr - 1)) + incr else 0)"

text \<open>The length of the next sub-table.\<close>

function sub_table_bits :: "int list \<Rightarrow> nat \<Rightarrow> nat \<Rightarrow> nat \<Rightarrow> int \<Rightarrow> nat" where
  "sub_table_bits count max_len dropped cur left =
     (if cur + dropped < max_len
      then let left = left - count ! (cur + dropped)
           in if left \<le> 0 then cur else sub_table_bits count max_len dropped (cur + 1) (2 * left)
      else cur)"
  by pat_completeness auto
termination by (relation "measure (\<lambda>(count, max_len, dropped, cur, left). max_len - (cur + dropped))") auto

declare sub_table_bits.simps [simp del]

definition exceeds :: "code_type \<Rightarrow> nat \<Rightarrow> bool" where
  "exceeds type used \<longleftrightarrow> type = LENS \<and> used > ENOUGH_LENS \<or> type = DISTS \<and> used > ENOUGH_DISTS"

record table_build =
  tb_sym :: nat
  tb_len :: nat
  tb_huff :: nat
  tb_next :: nat
  tb_curr :: nat
  tb_drop :: nat
  tb_low :: int
  tb_used :: nat
  tb_count :: "int list"
  tb_table :: "int list"

text \<open>The entries of one symbol.\<close>

definition enter_symbol :: "code_type \<Rightarrow> nat list \<Rightarrow> table_build \<Rightarrow> table_build option" where
  "enter_symbol type work t =
     (let here_bits = tb_len t - tb_drop t; (here_op, here_val) = symbol_entry type work (work ! tb_sym t)
      in case fill_entries (tb_next t + drop_bit (tb_drop t) (tb_huff t)) (2 ^ (tb_len t - tb_drop t)) (2 ^ tb_curr t)
                (table_entry here_bits here_op here_val) (tb_table t) of
           None \<Rightarrow> None
         | Some table \<Rightarrow> Some (t\<lparr>tb_table := table\<rparr>))"

text \<open>The next sub-table; \<open>Inl\<close> is the return for want of space, with the table as it is then.\<close>

definition new_sub_table :: "code_type \<Rightarrow> nat \<Rightarrow> nat \<Rightarrow> nat \<Rightarrow> table_build \<Rightarrow> int list + table_build" where
  "new_sub_table type table_index root_bits max_len t =
     (if tb_len t > root_bits \<and> int (tb_huff t AND (2 ^ root_bits - 1)) \<noteq> tb_low t
      then let drop = (if tb_drop t = 0 then root_bits else tb_drop t);
               next = tb_next t + 2 ^ tb_curr t;
               curr = sub_table_bits (tb_count t) max_len drop (tb_len t - drop) (2 ^ (tb_len t - drop));
               used = tb_used t + 2 ^ curr
           in if exceeds type used then Inl (tb_table t)
              else let low = tb_huff t AND (2 ^ root_bits - 1)
                   in Inr (t\<lparr>tb_drop := drop, tb_next := next, tb_curr := curr, tb_used := used, tb_low := int low,
                        tb_table := (tb_table t)[low := table_entry root_bits curr (next - table_index)]\<rparr>)
      else Inr t)"

text \<open>
  One turn of the loop over the codes, and the loop; \<open>Inl\<close> is a return of 1, \<open>None\<close> no return. The
  number of symbols is fuel enough, as every turn takes one.
\<close>

datatype turn = Full "int list" | Finished table_build | Continue table_build

definition table_turn :: "code_type \<Rightarrow> nat list \<Rightarrow> nat \<Rightarrow> nat list \<Rightarrow> nat \<Rightarrow> nat \<Rightarrow> nat \<Rightarrow> table_build \<Rightarrow> turn option" where
  "table_turn type lens lens_index work table_index root_bits max_len t =
     (case enter_symbol type work t of
        None \<Rightarrow> None
      | Some t \<Rightarrow>
          let t = t\<lparr>tb_huff := next_huff (tb_len t) (tb_huff t), tb_sym := tb_sym t + 1,
                    tb_count := (tb_count t)[tb_len t := tb_count t ! tb_len t - 1]\<rparr>
          in if tb_count t ! tb_len t = 0 \<and> tb_len t = max_len then Some (Finished t)
             else let t = (if tb_count t ! tb_len t = 0
                           then t\<lparr>tb_len := lens ! (lens_index + work ! tb_sym t)\<rparr> else t)
                  in (case new_sub_table type table_index root_bits max_len t of
                        Inl table \<Rightarrow> Some (Full table)
                      | Inr t \<Rightarrow> Some (Continue t)))"

fun table_loop :: "nat \<Rightarrow> code_type \<Rightarrow> nat list \<Rightarrow> nat \<Rightarrow> nat list \<Rightarrow> nat \<Rightarrow> nat \<Rightarrow> nat \<Rightarrow> table_build \<Rightarrow>
    (int list + table_build) option" where
  "table_loop 0 type lens lens_index work table_index root_bits max_len t = None"
| "table_loop (Suc n) type lens lens_index work table_index root_bits max_len t =
     (case table_turn type lens lens_index work table_index root_bits max_len t of
        None \<Rightarrow> None
      | Some (Full table) \<Rightarrow> Some (Inl table)
      | Some (Finished t) \<Rightarrow> Some (Inr t)
      | Some (Continue t) \<Rightarrow> table_loop n type lens lens_index work table_index root_bits max_len t)"

record table_result =
  tr_ret :: int
  tr_table :: "int list"
  tr_work :: "nat list"
  tr_bits :: nat

definition fill_rest :: "table_build \<Rightarrow> int list" where
  "fill_rest t = (if tb_huff t \<noteq> 0
     then (tb_table t)[tb_next t + tb_huff t := table_entry (tb_len t - tb_drop t) 64 0] else tb_table t)"

definition inflate_table :: "code_type \<Rightarrow> nat list \<Rightarrow> nat \<Rightarrow> nat \<Rightarrow> int list \<Rightarrow> nat \<Rightarrow> nat list \<Rightarrow> nat \<Rightarrow> table_result option" where
  "inflate_table type lens lens_index codes table table_index work bits =
     (let count = count_lens lens lens_index codes;
          max_len = last_used count MAXBITS;
          root_bits = (if bits > max_len then max_len else bits);
          refuse = (\<lambda>ret table work. Some \<lparr>tr_ret = ret, tr_table = table, tr_work = work, tr_bits = bits\<rparr>)
      in if max_len = 0
         then let invalid = table_entry 1 64 0
              in Some \<lparr>tr_ret = 0, tr_table = table[table_index := invalid, table_index + 1 := invalid], tr_work = work, tr_bits = 1\<rparr>
         else let min_len = first_used count max_len 1;
                  root_bits = (if root_bits < min_len then min_len else root_bits)
              in (case check_left count 1 [1..<MAXBITS + 1] of
                    None \<Rightarrow> refuse (- 1) table work
                  | Some left \<Rightarrow>
                      if left > 0 \<and> (type = CODES \<or> max_len \<noteq> 1) then refuse (- 1) table work
                      else let work = sort_symbols lens lens_index codes (offsets count) work;
                               used = 2 ^ root_bits
                           in if exceeds type used then refuse 1 table work
                              else (case table_loop codes type lens lens_index work table_index root_bits max_len
                                      \<lparr>tb_sym = 0, tb_len = min_len, tb_huff = 0, tb_next = table_index, tb_curr = root_bits,
                                       tb_drop = 0, tb_low = - 1, tb_used = used, tb_count = count, tb_table = table\<rparr> of
                                      None \<Rightarrow> None
                                    | Some (Inl table) \<Rightarrow> refuse 1 table work
                                    | Some (Inr t) \<Rightarrow>
                                        Some \<lparr>tr_ret = 0, tr_table = fill_rest t, tr_work = work, tr_bits = root_bits\<rparr>)))"

text \<open>An entry that points to a sub-table.\<close>

definition is_link :: "int \<Rightarrow> bool" where
  "is_link here \<longleftrightarrow> here_op here \<noteq> 0 \<and> here_op here AND 0xf0 = 0"

text \<open>
  How \<open>inflate\<close> reads the table, when the bit buffer holds enough bits: the entry, and the number of
  bits of both levels.
\<close>

definition lookup_code :: "int list \<Rightarrow> nat \<Rightarrow> nat \<Rightarrow> nat \<times> int" where
  "lookup_code table bits hold =
     (let here = at table (hold AND (2 ^ bits - 1))
      in if is_link here
         then let last = here;
                  here = at table (here_val last + drop_bit (here_bits last) (hold AND (2 ^ (here_bits last + here_op last) - 1)))
              in (here_bits last + here_bits here, here)
         else (here_bits here, here))"

section \<open>Reversed bits\<close>

text \<open>The low \<open>n\<close> bits of a number, backwards.\<close>

fun brev :: "nat \<Rightarrow> nat \<Rightarrow> nat" where
  "brev 0 x = 0"
| "brev (Suc n) x = (x mod 2) * 2 ^ n + brev n (x div 2)"

lemma brev_less: "brev n x < 2 ^ n"
proof (induction n arbitrary: x)
  case (Suc n)
  have "x mod 2 = 0 \<or> x mod 2 = 1" by auto
  then show ?case using Suc.IH [of "x div 2"] by auto
qed simp

lemma brev_0 [simp]: "brev n 0 = 0"
  by (induction n) simp_all

lemma brev_shift: "brev (n + k) (x * 2 ^ k) = brev n x"
  by (induction k) (simp_all add: mult.left_commute [of _ 2])

lemma brev_top: "brev (Suc n) x div 2 ^ n = x mod 2" "brev (Suc n) x mod 2 ^ n = brev n (x div 2)"
  using brev_less [of n "x div 2"] by simp_all

lemma brev_mod: "m \<le> n \<Longrightarrow> brev n x mod 2 ^ m = brev m (x div 2 ^ (n - m))"
proof (induction n arbitrary: x)
  case (Suc n)
  show ?case
  proof (cases "m = Suc n")
    case False
    then have "(2::nat) ^ n = 2 ^ (n - m) * 2 ^ m" using Suc.prems by (simp add: power_add [symmetric])
    then have "brev (Suc n) x mod 2 ^ m = brev n (x div 2) mod 2 ^ m"
      by (simp add: mult.assoc [symmetric] del: mult_Suc_right)
    also have "\<dots> = brev m (x div 2 div 2 ^ (n - m))" using Suc False by simp
    also have "x div 2 div 2 ^ (n - m) = x div 2 ^ (Suc n - m)"
      using Suc.prems False by (simp add: div_mult2_eq [symmetric] Suc_diff_le)
    finally show ?thesis .
  next
    case True
    then show ?thesis using brev_less [of "Suc n" x] by (simp del: brev.simps)
  qed
qed simp

lemma brev_inj: "brev n x = brev n y \<Longrightarrow> x < 2 ^ n \<Longrightarrow> y < 2 ^ n \<Longrightarrow> x = y"
proof (induction n arbitrary: x y)
  case (Suc n)
  have "x mod 2 = y mod 2" "brev n (x div 2) = brev n (y div 2)"
    using brev_top [of n x] brev_top [of n y] Suc.prems(1) by metis+
  moreover have "x div 2 < 2 ^ n" "y div 2 < 2 ^ n" using Suc.prems by auto
  ultimately have "x div 2 = y div 2" using Suc.IH by blast
  then show ?case using \<open>x mod 2 = y mod 2\<close> by (metis div_mult_mod_eq)
qed simp

lemma nat_and_mask: "(a::nat) AND (2 ^ n - 1) = a mod 2 ^ n"
  using take_bit_eq_mask [of n a] by (simp add: take_bit_eq_mod mask_eq_exp_minus_1)

lemma nat_and_bit: "((a::nat) AND 2 ^ n \<noteq> 0) = odd (a div 2 ^ n)"
  by (simp add: and_exp_eq_0_iff_not_bit bit_iff_odd)

lemma odd_mod_div: "odd ((h::nat) mod 2 ^ Suc n div 2 ^ n) = odd (h div 2 ^ n)"
  using bit_take_bit_iff [of "Suc n" h n] by (simp add: take_bit_eq_mod bit_iff_odd del: power_Suc)

lemma free_bit_mod: "free_bit (h mod 2 ^ n) n = free_bit h n"
proof (induction n arbitrary: h)
  case (Suc n)
  have "free_bit (h mod 2 ^ Suc n) n = free_bit h n"
    using Suc.IH [of h] Suc.IH [of "h mod 2 ^ Suc n"] by (simp add: mod_mod_cancel)
  then show ?case by (simp only: free_bit.simps nat_and_bit odd_mod_div)
qed simp

lemma free_bit_power: "free_bit h n = 0 \<or> (\<exists>m < n. free_bit h n = 2 ^ m)"
  by (induction n) (auto intro: less_SucI)

lemma next_huff_brev: "next_huff n (brev n c) = brev n (c + 1)"
proof (induction n arbitrary: c)
  case 0
  then show ?case by (simp add: next_huff_def)
next
  case (Suc n)
  have t: "brev (Suc n) c AND 2 ^ n \<noteq> 0 \<longleftrightarrow> odd c"
    by (simp only: nat_and_bit brev_top(1)) simp
  show ?case
  proof (cases "odd c")
    case False
    then have "free_bit (brev (Suc n) c) (Suc n) = 2 ^ n" using t by simp
    then have "next_huff (Suc n) (brev (Suc n) c) = brev n (c div 2) + 2 ^ n"
      by (simp only: next_huff_def Let_def nat_and_mask brev_top(2)) simp
    also have "\<dots> = brev (Suc n) (c + 1)" using False by (simp add: mod_Suc)
    finally show ?thesis .
  next
    case True
    have f: "free_bit (brev (Suc n) c) (Suc n) = free_bit (brev n (c div 2)) n"
      using t True free_bit_mod [of "brev (Suc n) c" n] by (simp add: brev_top del: brev.simps)
    have "brev (Suc n) c AND (2 ^ m - 1) = brev n (c div 2) AND (2 ^ m - 1)" if "m < n" for m
    proof -
      have "brev (Suc n) c mod 2 ^ n mod 2 ^ m = brev (Suc n) c mod 2 ^ m"
        using that by (intro mod_mod_cancel le_imp_power_dvd) simp
      then show ?thesis unfolding nat_and_mask brev_top(2) ..
    qed
    then have "next_huff (Suc n) (brev (Suc n) c) = next_huff n (brev n (c div 2))"
      using free_bit_power [of "brev n (c div 2)" n] unfolding next_huff_def f by (auto simp: Let_def)
    also have "\<dots> = brev n (c div 2 + 1)" by (rule Suc.IH)
    also have "\<dots> = brev (Suc n) (c + 1)" using True by (simp add: odd_iff_mod_2_eq_one)
    finally show ?thesis .
  qed
qed

section \<open>The parts of an entry, and the entries of a symbol\<close>

lemma table_entry_parts:
  assumes "b < 128" and "h < 256" and "v < 65536"
  shows "here_bits (table_entry b h v) = b" "here_op (table_entry b h v) = h" "here_val (table_entry b h v) = v"
proof -
  let ?n = "int b * 2 ^ 24 + (int h * 2 ^ 16 + int v)"
  have "js_or (js_shl (int b) 24) (js_shl (int h) 16) = int b * 2 ^ 24 + int h * 2 ^ 16"
    using js_shl_or [of "int h * 2 ^ 16" 24 "int b"] js_shl_mult [of "int h" 16] assms by simp
  then have "js_or (js_or (js_shl (int b) 24) (js_shl (int h) 16)) (int v) = (int b * 2 ^ 8 + int h) * 2 ^ 16 + int v"
    using js_or_disjoint [of "int v" 16 "int b * 2 ^ 8 + int h"] assms by (simp add: algebra_simps)
  then have e: "table_entry b h v = ?n" using assms by (simp add: table_entry_def js_or_def ToInt32_id)
  have "?n div 2 ^ 24 = int b" using assms by simp
  then show "here_bits (table_entry b h v) = b" using assms by (simp add: here_bits_def e js_ushr_div)
  have "js_ushr ?n 16 = int b * 2 ^ 8 + int h" using assms by (simp add: js_ushr_div)
  then show "here_op (table_entry b h v) = h" using assms by (simp add: here_op_def e js_arith)
  have "?n mod 65536 = ((int b * 2 ^ 8 + int h) * 65536 + int v) mod 65536" by (simp add: algebra_simps)
  also have "\<dots> = int v" using assms by (intro mul_add_div_mod(2)) simp_all
  finally show "here_val (table_entry b h v) = v" unfolding here_val_def e by (simp add: js_arith)
qed

lemma fill_entries_spec:
  "0 < incr \<Longrightarrow> 0 < k \<Longrightarrow> \<exists>table'. fill_entries i incr (k * incr) v table = Some table' \<and> length table' = length table \<and>
    (\<forall>j < length table. table' ! j = (if \<exists>m < k. j = i + m * incr then v else table ! j))"
proof (induction k arbitrary: table)
  case (Suc k)
  let ?t = "table[i + k * incr := v]"
  show ?case
  proof (cases "k = 0")
    case True
    then show ?thesis using Suc.prems by (subst fill_entries.simps) (simp add: nth_list_update)
  next
    case False
    then obtain table' where t: "fill_entries i incr (k * incr) v ?t = Some table'" "length table' = length table"
        "\<forall>j < length table. table' ! j = (if \<exists>m < k. j = i + m * incr then v else ?t ! j)"
      using Suc.IH [of ?t] Suc.prems by auto
    have "fill_entries i incr (Suc k * incr) v table = Some table'"
      using Suc.prems False t(1) by (subst fill_entries.simps) (simp add: Let_def)
    moreover have "table' ! j = (if \<exists>m < Suc k. j = i + m * incr then v else table ! j)" if "j < length table" for j
      using t(3) that by (auto simp: less_Suc_eq nth_list_update)
    ultimately show ?thesis using t(2) by blast
  qed
qed simp

text \<open>The entries of a symbol: those whose index ends in the bits of its code.\<close>

lemma fill_entries_mod:
  assumes "h < 2 ^ a" and "a \<le> b"
  shows "\<exists>table'. fill_entries (next + h) (2 ^ a) (2 ^ b) v table = Some table' \<and> length table' = length table \<and>
    (\<forall>j < length table. table' ! j = (if next \<le> j \<and> j < next + 2 ^ b \<and> (j - next) mod 2 ^ a = h then v else table ! j))"
proof -
  have p: "(2::nat) ^ b = 2 ^ (b - a) * 2 ^ a" using assms(2) by (simp add: power_add [symmetric])
  have "(\<exists>m < 2 ^ (b - a). j = next + h + m * 2 ^ a) \<longleftrightarrow> next \<le> j \<and> j < next + 2 ^ b \<and> (j - next) mod 2 ^ a = h" for j
  proof
    assume "\<exists>m < 2 ^ (b - a). j = next + h + m * 2 ^ a"
    then obtain m where m: "m < 2 ^ (b - a)" "j = next + h + m * 2 ^ a" by blast
    have "h + m * 2 ^ a < (m + 1) * 2 ^ a" using assms(1) by simp
    also have "\<dots> \<le> 2 ^ (b - a) * 2 ^ a" using m(1) by (intro mult_right_mono) auto
    finally show "next \<le> j \<and> j < next + 2 ^ b \<and> (j - next) mod 2 ^ a = h" using m assms(1) by (simp add: p)
  next
    assume j: "next \<le> j \<and> j < next + 2 ^ b \<and> (j - next) mod 2 ^ a = h"
    then have "j = next + h + (j - next) div 2 ^ a * 2 ^ a" by (metis add.assoc add.commute div_mult_mod_eq le_add_diff_inverse)
    moreover have "(j - next) div 2 ^ a < 2 ^ (b - a)" using j by (simp add: div_less_iff_less_mult p [symmetric]) linarith
    ultimately show "\<exists>m < 2 ^ (b - a). j = next + h + m * 2 ^ a" by blast
  qed
  then show ?thesis using fill_entries_spec [of "2 ^ a" "2 ^ (b - a)" "next + h" v table] by (simp add: p)
qed

end
