(* ===== verification/InflateState.thy ===== *)
theory InflateState
  imports Adler32 InflateTable
begin

text \<open>
  The state of \<open>zlib/inflate\<close> of the bundled pako: the modes, \<open>InflateState\<close>, \<open>ZStream\<close> and
  \<open>GZheader\<close>, the operations that create and reset them, the fixed tables and the sliding window. Field
  names are the code's, with \<open>i_\<close> for \<open>InflateState\<close>, \<open>z_\<close> for \<open>ZStream\<close> and \<open>gz_\<close> for \<open>GZheader\<close>.

  Arrays are typed (\<open>setTyped(true)\<close>): an assignment beyond the end of one is without effect, \<open>set\<close>
  beyond it throws. An array that is \<open>null\<close> is \<open>None\<close>. \<open>lencode\<close> refers to \<open>lendyn\<close>, which
  \<open>inflate_table\<close> fills anew for each dynamic block, or to the fixed table; \<open>distcode\<close> likewise.
\<close>

section \<open>Constants and modes\<close>

definition Z_FINISH :: nat where "Z_FINISH = 4"
definition Z_BLOCK :: nat where "Z_BLOCK = 5"
definition Z_TREES :: nat where "Z_TREES = 6"

definition Z_OK :: int where "Z_OK = 0"
definition Z_STREAM_END :: int where "Z_STREAM_END = 1"
definition Z_NEED_DICT :: int where "Z_NEED_DICT = 2"
definition Z_STREAM_ERROR :: int where "Z_STREAM_ERROR = - 2"
definition Z_DATA_ERROR :: int where "Z_DATA_ERROR = - 3"
definition Z_MEM_ERROR :: int where "Z_MEM_ERROR = - 4"
definition Z_BUF_ERROR :: int where "Z_BUF_ERROR = - 5"
definition Z_DEFLATED :: int where "Z_DEFLATED = 8"

datatype inflate_mode = HEAD | FLAGS | TIME | OS | EXLEN | EXTRA | NAME | COMMENT | HCRC | DICTID | DICT
  | TYPE_mode | TYPEDO | STORED | COPY_first | COPY | TABLE | LENLENS | CODELENS | LEN_first | LEN | LENEXT
  | DIST | DISTEXT | MATCH | LIT | CHECK | LENGTH_mode | DONE | BAD | MEM | SYNC

definition mode_number :: "inflate_mode \<Rightarrow> nat" where
  "mode_number m = (case m of HEAD \<Rightarrow> 1 | FLAGS \<Rightarrow> 2 | TIME \<Rightarrow> 3 | OS \<Rightarrow> 4 | EXLEN \<Rightarrow> 5 | EXTRA \<Rightarrow> 6 | NAME \<Rightarrow> 7
     | COMMENT \<Rightarrow> 8 | HCRC \<Rightarrow> 9 | DICTID \<Rightarrow> 10 | DICT \<Rightarrow> 11 | TYPE_mode \<Rightarrow> 12 | TYPEDO \<Rightarrow> 13 | STORED \<Rightarrow> 14
     | COPY_first \<Rightarrow> 15 | COPY \<Rightarrow> 16 | TABLE \<Rightarrow> 17 | LENLENS \<Rightarrow> 18 | CODELENS \<Rightarrow> 19 | LEN_first \<Rightarrow> 20 | LEN \<Rightarrow> 21
     | LENEXT \<Rightarrow> 22 | DIST \<Rightarrow> 23 | DISTEXT \<Rightarrow> 24 | MATCH \<Rightarrow> 25 | LIT \<Rightarrow> 26 | CHECK \<Rightarrow> 27 | LENGTH_mode \<Rightarrow> 28 | DONE \<Rightarrow> 29
     | BAD \<Rightarrow> 30 | MEM \<Rightarrow> 31 | SYNC \<Rightarrow> 32)"

section \<open>The state\<close>

record gz_header =
  gz_text :: int
  gz_time :: int
  gz_xflags :: int
  gz_os :: int
  gz_extra :: "int list option"
  gz_extra_len :: nat
  gz_name :: "int list option"
  gz_comment :: "int list option"
  gz_hcrc :: int
  gz_done :: bool

definition GZheader :: gz_header where
  "GZheader = \<lparr>gz_text = 0, gz_time = 0, gz_xflags = 0, gz_os = 0, gz_extra = None, gz_extra_len = 0,
     gz_name = Some [], gz_comment = Some [], gz_hcrc = 0, gz_done = False\<rparr>"

text \<open>Which table \<open>lencode\<close> or \<open>distcode\<close> refers to.\<close>

datatype table_ref = Dynamic | Fixed

record inflate_state =
  i_mode :: inflate_mode
  i_last :: int
  i_wrap :: int
  i_havedict :: bool
  i_flags :: int
  i_dmax :: nat
  i_check :: int
  i_total :: int
  i_head :: "gz_header option"
  i_wbits :: nat
  i_wsize :: nat
  i_whave :: nat
  i_wnext :: nat
  i_window :: "int list option"
  i_hold :: int
  i_bits :: nat
  i_length :: nat
  i_offset :: nat
  i_extra :: nat
  i_lencode :: table_ref
  i_distcode :: table_ref
  i_lenbits :: nat
  i_distbits :: nat
  i_ncode :: nat
  i_nlen :: nat
  i_ndist :: nat
  i_have :: nat
  i_lens :: "nat list"
  i_work :: "nat list"
  i_lendyn :: "int list"
  i_distdyn :: "int list"
  i_sane :: bool
  i_back :: int
  i_was :: nat

text \<open>\<open>new InflateState()\<close>; its mode is 0 until it is reset, which no operation looks at.\<close>

definition new_inflate_state :: inflate_state where
  "new_inflate_state = \<lparr>i_mode = HEAD, i_last = 0, i_wrap = 0, i_havedict = False, i_flags = 0, i_dmax = 0, i_check = 0,
     i_total = 0, i_head = None, i_wbits = 0, i_wsize = 0, i_whave = 0, i_wnext = 0, i_window = None, i_hold = 0,
     i_bits = 0, i_length = 0, i_offset = 0, i_extra = 0, i_lencode = Dynamic, i_distcode = Dynamic, i_lenbits = 0,
     i_distbits = 0, i_ncode = 0, i_nlen = 0, i_ndist = 0, i_have = 0, i_lens = replicate 320 0,
     i_work = replicate 288 0, i_lendyn = [], i_distdyn = [], i_sane = False, i_back = 0, i_was = 0\<rparr>"

record zstream =
  z_input :: "int list option"
  z_next_in :: nat
  z_avail_in :: nat
  z_total_in :: int
  z_output :: "int list option"
  z_next_out :: nat
  z_avail_out :: nat
  z_total_out :: int
  z_msg :: string
  z_state :: "inflate_state option"
  z_data_type :: nat
  z_adler :: int

definition new_ZStream :: zstream where
  "new_ZStream = \<lparr>z_input = None, z_next_in = 0, z_avail_in = 0, z_total_in = 0, z_output = None, z_next_out = 0,
     z_avail_out = 0, z_total_out = 0, z_msg = [], z_state = None, z_data_type = 2, z_adler = 0\<rparr>"

section \<open>Initialising and resetting\<close>

text \<open>
  \<open>inflateResetKeep\<close> on a stream whose state is \<open>s\<close>. A \<open>strm\<close> that is \<open>null\<close> is not modelled: every
  caller has one.
\<close>

definition inflateResetKeep :: "zstream \<Rightarrow> int \<times> zstream" where
  "inflateResetKeep strm =
     (case z_state strm of
        None \<Rightarrow> (Z_STREAM_ERROR, strm)
      | Some s \<Rightarrow>
          (Z_OK, strm\<lparr>z_total_in := 0, z_total_out := 0, z_msg := [],
             z_adler := (if i_wrap s \<noteq> 0 then js_and (i_wrap s) 1 else z_adler strm),
             z_state := Some (s\<lparr>i_total := 0, i_mode := HEAD, i_last := 0, i_havedict := False, i_dmax := 32768,
               i_head := None, i_hold := 0, i_bits := 0,
               i_lencode := Dynamic, i_lendyn := replicate ENOUGH_LENS 0,
               i_distcode := Dynamic, i_distdyn := replicate ENOUGH_DISTS 0, i_sane := True, i_back := - 1\<rparr>)\<rparr>))"

definition inflateReset :: "zstream \<Rightarrow> int \<times> zstream" where
  "inflateReset strm =
     (case z_state strm of
        None \<Rightarrow> (Z_STREAM_ERROR, strm)
      | Some s \<Rightarrow> inflateResetKeep (strm\<lparr>z_state := Some (s\<lparr>i_wsize := 0, i_whave := 0, i_wnext := 0\<rparr>)\<rparr>))"

text \<open>The wrap request and the window bits of the parameter \<open>windowBits\<close>.\<close>

definition wrap_request :: "int \<Rightarrow> int \<times> int" where
  "wrap_request windowBits =
     (if windowBits < 0 then (0, - windowBits)
      else (js_shr windowBits 4 + 1, if windowBits < 48 then js_and windowBits 15 else windowBits))"

definition inflateReset2 :: "zstream \<Rightarrow> int \<Rightarrow> int \<times> zstream" where
  "inflateReset2 strm windowBits =
     (case z_state strm of
        None \<Rightarrow> (Z_STREAM_ERROR, strm)
      | Some s \<Rightarrow>
          let (wrap, windowBits) = wrap_request windowBits
          in if windowBits \<noteq> 0 \<and> (windowBits < 8 \<or> windowBits > 15) then (Z_STREAM_ERROR, strm)
             else let window = (if i_window s \<noteq> None \<and> int (i_wbits s) \<noteq> windowBits then None else i_window s)
                  in inflateReset (strm\<lparr>z_state := Some (s\<lparr>i_window := window, i_wrap := wrap, i_wbits := nat windowBits\<rparr>)\<rparr>))"

definition inflateInit2 :: "zstream \<Rightarrow> int \<Rightarrow> int \<times> zstream" where
  "inflateInit2 strm windowBits =
     (let (ret, strm) = inflateReset2 (strm\<lparr>z_state := Some (new_inflate_state\<lparr>i_window := None\<rparr>)\<rparr>) windowBits
      in (ret, if ret \<noteq> Z_OK then strm\<lparr>z_state := None\<rparr> else strm))"

definition DEF_WBITS :: int where "DEF_WBITS = 15"

definition inflateInit :: "zstream \<Rightarrow> int \<times> zstream" where
  "inflateInit strm = inflateInit2 strm DEF_WBITS"

definition inflateEnd :: "zstream \<Rightarrow> int \<times> zstream" where
  "inflateEnd strm = (if z_state strm = None then (Z_STREAM_ERROR, strm) else (Z_OK, strm\<lparr>z_state := None\<rparr>))"

definition inflateGetHeader :: "zstream \<Rightarrow> gz_header \<Rightarrow> int \<times> zstream" where
  "inflateGetHeader strm head =
     (case z_state strm of
        None \<Rightarrow> (Z_STREAM_ERROR, strm)
      | Some s \<Rightarrow>
          if js_and (i_wrap s) 2 = 0 then (Z_STREAM_ERROR, strm)
          else (Z_OK, strm\<lparr>z_state := Some (s\<lparr>i_head := Some (head\<lparr>gz_done := False\<rparr>)\<rparr>)\<rparr>))"

section \<open>The fixed tables\<close>

text \<open>The variables \<open>virgin\<close>, \<open>lenfix\<close> and \<open>distfix\<close> of the module.\<close>

record fixed_tables =
  virgin :: bool
  lenfix :: "int list"
  distfix :: "int list"

definition no_fixed_tables :: fixed_tables where
  "no_fixed_tables = \<lparr>virgin = True, lenfix = [], distfix = []\<rparr>"

text \<open>\<open>state.lens\<close> after the loops for the literal/length table, and after the one for the distances.\<close>

definition fixed_lens :: "nat list \<Rightarrow> nat list" where
  "fixed_lens lens = replicate 144 8 @ replicate 112 9 @ replicate 24 7 @ replicate 8 8 @ drop 288 lens"

definition fixed_dist_lens :: "nat list \<Rightarrow> nat list" where
  "fixed_dist_lens lens = replicate 32 5 @ drop 32 lens"

text \<open>\<open>fixedtables\<close>; \<open>None\<close> if \<open>inflate_table\<close> did not return.\<close>

definition fixedtables :: "fixed_tables \<Rightarrow> inflate_state \<Rightarrow> (fixed_tables \<times> inflate_state) option" where
  "fixedtables g s =
     Option.bind
       (if virgin g
        then Option.bind (inflate_table LENS (fixed_lens (i_lens s)) 0 288 (replicate 512 0) 0 (i_work s) 9) (\<lambda>l.
             Option.bind (inflate_table DISTS (fixed_dist_lens (fixed_lens (i_lens s))) 0 32 (replicate 32 0) 0 (tr_work l) 5) (\<lambda>d.
             Some (\<lparr>virgin = False, lenfix = tr_table l, distfix = tr_table d\<rparr>,
               s\<lparr>i_lens := fixed_dist_lens (fixed_lens (i_lens s)), i_work := tr_work d\<rparr>)))
        else Some (g, s))
       (\<lambda>(g, s). Some (g, s\<lparr>i_lencode := Fixed, i_lenbits := 9, i_distcode := Fixed, i_distbits := 5\<rparr>))"

section \<open>Arrays\<close>

text \<open>An array that may be \<open>null\<close>, where the code reads it only when it has elements.\<close>

definition nullable :: "int list option \<Rightarrow> int list" where
  "nullable xs = (case xs of None \<Rightarrow> [] | Some xs \<Rightarrow> xs)"

text \<open>
  \<open>utils.arraySet\<close> of typed arrays: \<open>subarray\<close> stops at the end of \<open>src\<close>, and \<open>set\<close> throws when it
  does not fit, which is \<open>None\<close>.
\<close>

definition arraySet :: "int list \<Rightarrow> int list \<Rightarrow> nat \<Rightarrow> nat \<Rightarrow> nat \<Rightarrow> int list option" where
  "arraySet dest src src_offs len dest_offs =
     (let xs = take len (drop src_offs src)
      in if dest_offs + length xs \<le> length dest
         then Some (take dest_offs dest @ xs @ drop (dest_offs + length xs) dest) else None)"

section \<open>The sliding window\<close>

text \<open>
  \<open>updatewindow\<close> puts the last \<open>copy\<close> elements of \<open>src\<close> before \<open>end\<close> into the window. It always
  returns 0; \<open>None\<close> is an exception of \<open>arraySet\<close>.
\<close>

definition alloc_window :: "inflate_state \<Rightarrow> inflate_state" where
  "alloc_window s =
     (case i_window s of
        None \<Rightarrow> s\<lparr>i_wsize := 2 ^ i_wbits s, i_wnext := 0, i_whave := 0, i_window := Some (replicate (2 ^ i_wbits s) 0)\<rparr>
      | Some _ \<Rightarrow> s)"

definition updatewindow :: "inflate_state \<Rightarrow> int list \<Rightarrow> nat \<Rightarrow> nat \<Rightarrow> inflate_state option" where
  "updatewindow s src stop copy =
     (let s = alloc_window s; window = the (i_window s)
      in if copy \<ge> i_wsize s
         then map_option (\<lambda>w. s\<lparr>i_window := Some w, i_wnext := 0, i_whave := i_wsize s\<rparr>)
                (arraySet window src (stop - i_wsize s) (i_wsize s) 0)
         else let dist = (if i_wsize s - i_wnext s > copy then copy else i_wsize s - i_wnext s)
              in Option.bind (arraySet window src (stop - copy) dist (i_wnext s)) (\<lambda>window.
                   let copy = copy - dist
                   in if copy \<noteq> 0
                      then map_option (\<lambda>w. s\<lparr>i_window := Some w, i_wnext := copy, i_whave := i_wsize s\<rparr>)
                             (arraySet window src (stop - copy) copy 0)
                      else let wnext = i_wnext s + dist
                           in Some (s\<lparr>i_window := Some window, i_wnext := (if wnext = i_wsize s then 0 else wnext),
                                i_whave := (if i_whave s < i_wsize s then i_whave s + dist else i_whave s)\<rparr>)))"

text \<open>\<open>inflateSetDictionary\<close>; \<open>None\<close> is an exception.\<close>

definition inflateSetDictionary :: "zstream \<Rightarrow> int list \<Rightarrow> (int \<times> zstream) option" where
  "inflateSetDictionary strm dictionary =
     (case z_state strm of
        None \<Rightarrow> Some (Z_STREAM_ERROR, strm)
      | Some s \<Rightarrow>
          if i_wrap s \<noteq> 0 \<and> i_mode s \<noteq> DICT then Some (Z_STREAM_ERROR, strm)
          else if i_mode s = DICT \<and> adler32 1 dictionary (length dictionary) 0 \<noteq> i_check s then Some (Z_DATA_ERROR, strm)
          else map_option (\<lambda>s. (Z_OK, strm\<lparr>z_state := Some (s\<lparr>i_havedict := True\<rparr>)\<rparr>))
                 (updatewindow s dictionary (length dictionary) (length dictionary)))"

end
