(* ===== verification/InflateFast.thy ===== *)
theory InflateFast
  imports InflateState
begin

text \<open>
  \<open>zlib/inffast\<close> of the bundled pako: \<open>inflate_fast\<close>, the loop that decodes literals and matches while
  there are at least six bytes of input and room for 258 of output. Its constants are the record
  \<open>fast_env\<close>, its variables the record \<open>fast\<close>. The loops that follow table links, and the loop over the
  codes, are partial functions: nothing but the tables makes them end.
\<close>

record fast_env =
  e_input :: "int list"
  e_last :: nat
  e_beg :: nat
  e_end :: nat
  e_dmax :: nat
  e_wsize :: nat
  e_whave :: nat
  e_wnext :: nat
  e_window :: "int list"
  e_lcode :: "int list"
  e_dcode :: "int list"
  e_lmask :: int
  e_dmask :: int
  e_sane :: bool

record fast =
  f_in :: nat
  f_out :: nat
  f_output :: "int list"
  f_hold :: int
  f_bits :: int
  f_mode :: inflate_mode
  f_msg :: string

section \<open>The bit buffer\<close>

text \<open>\<open>hold += input[_in++] << bits; bits += 8;\<close>, and \<open>hold >>>= op; bits -= op;\<close>.\<close>

definition fast_pull :: "fast_env \<Rightarrow> fast \<Rightarrow> fast" where
  "fast_pull e f = f\<lparr>f_hold := f_hold f + js_shl (at (e_input e) (f_in f)) (nat (f_bits f mod 32)),
     f_in := f_in f + 1, f_bits := f_bits f + 8\<rparr>"

definition fast_drop :: "nat \<Rightarrow> fast \<Rightarrow> fast" where
  "fast_drop n f = f\<lparr>f_hold := js_ushr (f_hold f) n, f_bits := f_bits f - int n\<rparr>"

text \<open>The low \<open>n\<close> bits of \<open>hold\<close>.\<close>

definition low_bits :: "int \<Rightarrow> nat \<Rightarrow> nat" where
  "low_bits hold n = nat (js_and hold (js_shl 1 n - 1))"

definition fast_bad :: "string \<Rightarrow> fast \<Rightarrow> fast" where
  "fast_bad msg f = f\<lparr>f_msg := msg, f_mode := BAD\<rparr>"

section \<open>Copying a match\<close>

text \<open>
  One \<open>output[_out++] = from_source[from++]\<close> on \<open>from\<close>, \<open>_out\<close> and \<open>output\<close>. The source is the window,
  or the output itself (\<open>None\<close>).
\<close>

definition copy1 :: "int list option \<Rightarrow> nat \<times> nat \<times> int list \<Rightarrow> nat \<times> nat \<times> int list" where
  "copy1 src c = (let (src_pos, out, output) = c
     in (src_pos + 1, out + 1, output[out := at (case src of None \<Rightarrow> output | Some w \<Rightarrow> w) src_pos]))"

text \<open>\<open>do ... while (--op)\<close>, which would not end for 0.\<close>

definition do_copy :: "int list option \<Rightarrow> nat \<Rightarrow> nat \<times> nat \<times> int list \<Rightarrow> (nat \<times> nat \<times> int list) option" where
  "do_copy src n c = (if n = 0 then None else Some ((copy1 src ^^ n) c))"

text \<open>What is left of \<open>len\<close> after the loops that copy three at a time.\<close>

definition copy_rest :: "int list option \<Rightarrow> int \<Rightarrow> nat \<times> nat \<times> int list \<Rightarrow> nat \<times> nat \<times> int list" where
  "copy_rest src len c = (if len \<noteq> 0 then let c = copy1 src c in if len > 1 then copy1 src c else c else c)"

function copy_while :: "int list option \<Rightarrow> int \<Rightarrow> nat \<times> nat \<times> int list \<Rightarrow> nat \<times> nat \<times> int list" where
  "copy_while src len c = (if len > 2 then copy_while src (len - 3) ((copy1 src ^^ 3) c) else copy_rest src len c)"
  by pat_completeness auto
termination by (relation "measure (\<lambda>(src, len, c). nat len)") auto

declare copy_while.simps [simp del]

function copy_direct :: "int \<Rightarrow> nat \<times> nat \<times> int list \<Rightarrow> nat \<times> nat \<times> int list" where
  "copy_direct len c =
     (let c = (copy1 None ^^ 3) c; len = len - 3
      in if len > 2 then copy_direct len c else copy_rest None len c)"
  by pat_completeness auto
termination by (relation "measure (\<lambda>(len, c). nat len)") auto

declare copy_direct.simps [simp del]

text \<open>
  The part of a match of \<open>len\<close> bytes that lies \<open>op\<close> bytes back in the window: \<open>op\<close> bytes from \<open>src_pos\<close> if
  the match is longer, and the rest from the output, \<open>dist\<close> back.
\<close>

definition window_then_output :: "int list \<Rightarrow> nat \<Rightarrow> nat \<Rightarrow> nat \<Rightarrow> nat \<times> nat \<times> int list \<Rightarrow> (nat \<times> nat \<times> int list) option" where
  "window_then_output window op len dist c =
     (if op < len
      then Option.bind (do_copy (Some window) op c) (\<lambda>(_, out, output).
             Some (copy_while None (int (len - op)) (out - dist, out, output)))
      else Some (copy_while (Some window) (int len) c))"

definition copy_window :: "fast_env \<Rightarrow> nat \<Rightarrow> nat \<Rightarrow> nat \<Rightarrow> nat \<times> int list \<Rightarrow> (nat \<times> nat \<times> int list) option" where
  "copy_window e op len dist out_output =
     (let (out, output) = out_output; w = e_window e
      in if e_wnext e = 0 then window_then_output w op len dist (e_wsize e - op, out, output)
         else if e_wnext e < op
         then let src_pos = e_wsize e + e_wnext e - op; op = op - e_wnext e
              in if op < len
                 then Option.bind (do_copy (Some w) op (src_pos, out, output)) (\<lambda>(_, out, output).
                        window_then_output w (e_wnext e) (len - op) dist (0, out, output))
                 else Some (copy_while (Some w) (int len) (src_pos, out, output))
         else window_then_output w op len dist (e_wnext e - op, out, output))"

text \<open>The match of \<open>len\<close> bytes from \<open>dist\<close> back; the flag is \<open>break top\<close>.\<close>

definition fast_match :: "fast_env \<Rightarrow> nat \<Rightarrow> nat \<Rightarrow> fast \<Rightarrow> (bool \<times> fast) option" where
  "fast_match e len dist f =
     (let op = f_out f - e_beg e
      in if dist > op
         then let op = dist - op
              in if op > e_whave e \<and> e_sane e then Some (True, fast_bad ''invalid distance too far back'' f)
                 else map_option (\<lambda>(_, out, output). (False, f\<lparr>f_out := out, f_output := output\<rparr>))
                        (copy_window e op len dist (f_out f, f_output f))
         else let (_, out, output) = copy_direct (int len) (f_out f - dist, f_out f, f_output f)
              in Some (False, f\<lparr>f_out := out, f_output := output\<rparr>))"

section \<open>Decoding\<close>

text \<open>\<open>dist\<close> with its extra bits.\<close>

definition fast_distance :: "fast_env \<Rightarrow> nat \<Rightarrow> nat \<Rightarrow> nat \<Rightarrow> fast \<Rightarrow> (bool \<times> fast) option" where
  "fast_distance e val op len f =
     (let f = (if f_bits f < int op
               then let f = fast_pull e f in if f_bits f < int op then fast_pull e f else f
               else f);
          dist = val + low_bits (f_hold f) op
      in if dist > e_dmax e then Some (True, fast_bad ''invalid distance too far back'' f)
         else fast_match e len dist (fast_drop op f))"

partial_function (option) fast_dodist :: "fast_env \<Rightarrow> int \<Rightarrow> nat \<Rightarrow> fast \<Rightarrow> (bool \<times> fast) option" where
  "fast_dodist e here len f =
     (let f = fast_drop (here_bits here) f; op = here_op here
      in if op AND 16 \<noteq> 0 then fast_distance e (here_val here) (op AND 15) len f
         else if op AND 64 = 0 then fast_dodist e (at (e_dcode e) (here_val here + low_bits (f_hold f) op)) len f
         else Some (True, fast_bad ''invalid distance code'' f))"

declare fast_dodist.simps [code]

text \<open>\<open>len\<close> with its extra bits, and the distance code.\<close>

definition fast_length :: "fast_env \<Rightarrow> nat \<Rightarrow> nat \<Rightarrow> fast \<Rightarrow> (bool \<times> fast) option" where
  "fast_length e val op f =
     (let f = (if op \<noteq> 0 \<and> f_bits f < int op then fast_pull e f else f);
          len = (if op \<noteq> 0 then val + low_bits (f_hold f) op else val);
          f = (if op \<noteq> 0 then fast_drop op f else f);
          f = (if f_bits f < 15 then fast_pull e (fast_pull e f) else f)
      in fast_dodist e (at (e_dcode e) (nat (js_and (f_hold f) (e_dmask e)))) len f)"

partial_function (option) fast_dolen :: "fast_env \<Rightarrow> int \<Rightarrow> fast \<Rightarrow> (bool \<times> fast) option" where
  "fast_dolen e here f =
     (let f = fast_drop (here_bits here) f; op = here_op here
      in if op = 0 then Some (False, f\<lparr>f_output := (f_output f)[f_out f := int (here_val here) mod 256], f_out := f_out f + 1\<rparr>)
         else if op AND 16 \<noteq> 0 then fast_length e (here_val here) (op AND 15) f
         else if op AND 64 = 0 then fast_dolen e (at (e_lcode e) (here_val here + low_bits (f_hold f) op)) f
         else if op AND 32 \<noteq> 0 then Some (True, f\<lparr>f_mode := TYPE_mode\<rparr>)
         else Some (True, fast_bad ''invalid literal/length code'' f))"

declare fast_dolen.simps [code]

text \<open>One turn of the loop \<open>top\<close>.\<close>

definition fast_turn :: "fast_env \<Rightarrow> fast \<Rightarrow> (bool \<times> fast) option" where
  "fast_turn e f =
     (let f = (if f_bits f < 15 then fast_pull e (fast_pull e f) else f)
      in fast_dolen e (at (e_lcode e) (nat (js_and (f_hold f) (e_lmask e)))) f)"

partial_function (option) fast_top :: "fast_env \<Rightarrow> fast \<Rightarrow> fast option" where
  "fast_top e f =
     Option.bind (fast_turn e f) (\<lambda>(break, f).
       if \<not> break \<and> f_in f < e_last e \<and> f_out f < e_end e then fast_top e f else Some f)"

declare fast_top.simps [code]

section \<open>The function\<close>

text \<open>The tables that \<open>lencode\<close> and \<open>distcode\<close> refer to.\<close>

definition len_table :: "fixed_tables \<Rightarrow> inflate_state \<Rightarrow> int list" where
  "len_table g s = (case i_lencode s of Dynamic \<Rightarrow> i_lendyn s | Fixed \<Rightarrow> lenfix g)"

definition dist_table :: "fixed_tables \<Rightarrow> inflate_state \<Rightarrow> int list" where
  "dist_table g s = (case i_distcode s of Dynamic \<Rightarrow> i_distdyn s | Fixed \<Rightarrow> distfix g)"

definition fast_start :: "fixed_tables \<Rightarrow> zstream \<Rightarrow> inflate_state \<Rightarrow> nat \<Rightarrow> fast_env" where
  "fast_start g strm s start =
     \<lparr>e_input = nullable (z_input strm), e_last = z_next_in strm + (z_avail_in strm - 5),
      e_beg = z_next_out strm - (start - z_avail_out strm), e_end = z_next_out strm + (z_avail_out strm - 257),
      e_dmax = i_dmax s, e_wsize = i_wsize s, e_whave = i_whave s, e_wnext = i_wnext s,
      e_window = nullable (i_window s), e_lcode = len_table g s, e_dcode = dist_table g s,
      e_lmask = js_shl 1 (i_lenbits s) - 1, e_dmask = js_shl 1 (i_distbits s) - 1, e_sane = i_sane s\<rparr>"

text \<open>Unused bytes are returned and the state is updated.\<close>

definition fast_return :: "fast_env \<Rightarrow> fast \<Rightarrow> zstream \<Rightarrow> inflate_state \<Rightarrow> zstream \<times> inflate_state" where
  "fast_return e f strm s =
     (let len = nat (f_bits f) div 8; pos = f_in f - len; bits = nat (f_bits f) - 8 * len;
          hold = js_and (f_hold f) (js_shl 1 bits - 1)
      in (strm\<lparr>z_next_in := pos, z_next_out := f_out f, z_output := Some (f_output f), z_msg := f_msg f,
            z_avail_in := (if pos < e_last e then 5 + (e_last e - pos) else 5 - (pos - e_last e)),
            z_avail_out := (if f_out f < e_end e then 257 + (e_end e - f_out f) else 257 - (f_out f - e_end e))\<rparr>,
          s\<lparr>i_hold := hold, i_bits := bits, i_mode := f_mode f\<rparr>))"

definition inflate_fast :: "fixed_tables \<Rightarrow> zstream \<Rightarrow> inflate_state \<Rightarrow> nat \<Rightarrow> (zstream \<times> inflate_state) option" where
  "inflate_fast g strm s start =
     (let e = fast_start g strm s start
      in map_option (\<lambda>f. fast_return e f strm s)
           (fast_top e \<lparr>f_in = z_next_in strm, f_out = z_next_out strm, f_output = nullable (z_output strm),
              f_hold = i_hold s, f_bits = int (i_bits s), f_mode = i_mode s, f_msg = z_msg strm\<rparr>))"

end
