(* ===== verification/PakoCrc32.thy ===== *)
theory PakoCrc32
  imports Crc32 InflateState
begin

text \<open>
  \<open>zlib/crc32\<close> of the bundled pako, which \<open>inflate\<close> uses for gzip streams: the same table and loop as
  JSZip's, over a part of an array and signed. It computes the register of Crc32 over that part.
\<close>

definition pako_makeTable :: "int list" where
  "pako_makeTable =
     map (\<lambda>n. ((\<lambda>c. if js_and c 1 \<noteq> 0 then js_xor 0xEDB88320 (js_ushr c 1) else js_ushr c 1) ^^ 8) (int n)) [0..<256]"

definition pako_crc32 :: "int \<Rightarrow> int list \<Rightarrow> nat \<Rightarrow> nat \<Rightarrow> int" where
  "pako_crc32 crc buf len pos =
     js_xor (foldl (\<lambda>crc i. js_xor (js_ushr crc 8) (pako_makeTable ! nat (js_and (js_xor crc (at buf i)) 255)))
               (js_xor crc (- 1)) [pos..<pos + len]) (- 1)"

lemma table_rounds_funpow:
  "table_rounds k c = ((\<lambda>c. if js_and c 1 \<noteq> 0 then js_xor 0xEDB88320 (js_ushr c 1) else js_ushr c 1) ^^ k) c"
  by (induction k arbitrary: c) (simp_all add: funpow_Suc_right del: funpow.simps(2))

lemma pako_makeTable: "pako_makeTable = makeTable"
  by (simp add: pako_makeTable_def makeTable_def table_rounds_funpow)

lemma pako_crc32_crc32:
  assumes "pos + len \<le> length buf"
  shows "pako_crc32 crc buf len pos = crc32 crc buf len pos"
proof -
  have "foldl (\<lambda>crc i. js_xor (js_ushr crc 8) (pako_makeTable ! nat (js_and (js_xor crc (at buf i)) 255))) c [pos..<pos + len] =
      foldl (\<lambda>c i. crc_step c (buf ! i)) c [pos..<pos + len]" for c
    by (rule foldl_cong) (use assms in \<open>auto simp: crc_step_def pako_makeTable at_def\<close>)
  then show ?thesis by (simp add: pako_crc32_def crc32_def)
qed

end
