(* ===== verification/Inflate.thy ===== *)
theory Inflate
  imports InflateFast PakoCrc32
begin

text \<open>
  \<open>zlib/inflate\<close> of the bundled pako: the state machine of \<open>inflate\<close>, one definition per mode. A mode
  reads from the locals that \<open>LOAD\<close> takes from the stream; the record \<open>run\<close> holds them with the state, the
  stream and the fixed tables. \<open>Continue\<close> is \<open>break\<close>, after which the loop looks at the mode again; falling
  through into the next case is the same, as the mode has been set to it (for TYPE, where it has not,
  the definition calls the next one). \<open>Leave\<close> is \<open>break inf_leave\<close>, \<open>Return\<close> a return out of the loop and
  \<open>None\<close> a loop that does not end.
\<close>

section \<open>The locals and the bit buffer\<close>

record run =
  r_strm :: zstream
  r_state :: inflate_state
  r_fixed :: fixed_tables
  r_input :: "int list"
  r_output :: "int list"
  r_put :: nat
  r_left :: nat
  r_next :: nat
  r_have :: nat
  r_hold :: int
  r_bits :: nat
  r_in :: nat
  r_out :: nat
  r_ret :: int

datatype outcome = Continue run | Leave run | Return int run | Throws

abbreviation upd_state :: "(inflate_state \<Rightarrow> inflate_state) \<Rightarrow> run \<Rightarrow> run" where
  "upd_state \<equiv> r_state_update"

definition set_mode :: "inflate_mode \<Rightarrow> run \<Rightarrow> run" where
  "set_mode m r = upd_state (\<lambda>s. s\<lparr>i_mode := m\<rparr>) r"

definition bad :: "string \<Rightarrow> run \<Rightarrow> run" where
  "bad msg r = (set_mode BAD r)\<lparr>r_strm := (r_strm r)\<lparr>z_msg := msg\<rparr>\<rparr>"

definition upd_head :: "(gz_header \<Rightarrow> gz_header) \<Rightarrow> run \<Rightarrow> run" where
  "upd_head f r = upd_state (\<lambda>s. s\<lparr>i_head := map_option f (i_head s)\<rparr>) r"

definition set_check :: "int \<Rightarrow> run \<Rightarrow> run" where
  "set_check c r = upd_state (\<lambda>s. s\<lparr>i_check := c\<rparr>) r"

text \<open>\<open>strm.adler = state.check = ...\<close>.\<close>

definition set_adler :: "int \<Rightarrow> run \<Rightarrow> run" where
  "set_adler c r = (set_check c r)\<lparr>r_strm := (r_strm r)\<lparr>z_adler := c\<rparr>\<rparr>"

definition pull_byte :: "run \<Rightarrow> run" where
  "pull_byte r = r\<lparr>r_have := r_have r - 1, r_hold := r_hold r + js_shl (at (r_input r) (r_next r)) (r_bits r),
     r_next := r_next r + 1, r_bits := r_bits r + 8\<rparr>"

text \<open>\<open>NEEDBITS(n)\<close>; \<open>Inl\<close> when the input ends before.\<close>

function needbits :: "nat \<Rightarrow> run \<Rightarrow> run + run" where
  "needbits n r = (if r_bits r < n then if r_have r = 0 then Inl r else needbits n (pull_byte r) else Inr r)"
  by pat_completeness auto
termination by (relation "measure (\<lambda>(n, r). n - r_bits r)") (auto simp: pull_byte_def)

declare needbits.simps [simp del]

definition need :: "nat \<Rightarrow> run \<Rightarrow> (run \<Rightarrow> outcome option) \<Rightarrow> outcome option" where
  "need n r k = (case needbits n r of Inl r \<Rightarrow> Some (Leave r) | Inr r \<Rightarrow> k r)"

definition init_bits :: "run \<Rightarrow> run" where
  "init_bits r = r\<lparr>r_hold := 0, r_bits := 0\<rparr>"

definition drop_bits :: "nat \<Rightarrow> run \<Rightarrow> run" where
  "drop_bits n r = r\<lparr>r_hold := js_ushr (r_hold r) n, r_bits := r_bits r - n\<rparr>"

definition byte_bits :: "run \<Rightarrow> run" where
  "byte_bits r = drop_bits (r_bits r mod 8) r"

text \<open>The low \<open>n\<close> bits of \<open>hold\<close>.\<close>

definition bits_of :: "nat \<Rightarrow> run \<Rightarrow> nat" where
  "bits_of n r = nat (js_and (r_hold r) (2 ^ n - 1))"

definition zswap32 :: "int \<Rightarrow> int" where
  "zswap32 q = js_and (js_ushr q 24) 0xff + js_and (js_ushr q 8) 0xff00 + js_shl (js_and q 0xff00) 8 + js_shl (js_and q 0xff) 24"

text \<open>\<open>CRC2\<close> and \<open>CRC4\<close>, and \<open>crc32\<close> of the input.\<close>

definition crc2 :: "int \<Rightarrow> int \<Rightarrow> int" where
  "crc2 check hold = pako_crc32 check [js_and hold 0xff, js_and (js_ushr hold 8) 0xff] 2 0"

definition crc4 :: "int \<Rightarrow> int \<Rightarrow> int" where
  "crc4 check hold = pako_crc32 check [js_and hold 0xff, js_and (js_ushr hold 8) 0xff, js_and (js_ushr hold 16) 0xff,
     js_and (js_ushr hold 24) 0xff] 4 0"

definition header_crc :: "(int \<Rightarrow> int) \<Rightarrow> run \<Rightarrow> run" where
  "header_crc f r = (if js_and (i_flags (r_state r)) 0x0200 \<noteq> 0 then set_check (f (i_check (r_state r))) r else r)"

section \<open>The headers\<close>

definition step_HEAD :: "run \<Rightarrow> outcome option" where
  "step_HEAD r =
     (if i_wrap (r_state r) = 0 then Some (Continue (set_mode TYPEDO r))
      else need 16 r (\<lambda>r.
        let s = r_state r; hold = r_hold r
        in if js_and (i_wrap s) 2 \<noteq> 0 \<and> hold = 0x8b1f
           then Some (Continue (set_mode FLAGS (init_bits (set_check (crc2 0 hold) r))))
           else let r = upd_head (\<lambda>h. h\<lparr>gz_done := False\<rparr>) (upd_state (\<lambda>s. s\<lparr>i_flags := 0\<rparr>) r)
                in if js_and (i_wrap s) 1 = 0 \<or> js_rem (js_shl (js_and hold 0xff) 8 + js_shr hold 8) 31 \<noteq> 0
                   then Some (Continue (bad ''incorrect header check'' r))
                   else if js_and hold 0x0f \<noteq> Z_DEFLATED then Some (Continue (bad ''unknown compression method'' r))
                   else let r = drop_bits 4 r; len = bits_of 4 r + 8
                        in if i_wbits s \<noteq> 0 \<and> len > i_wbits s then Some (Continue (bad ''invalid window size'' r))
                           else let r = upd_state (\<lambda>s. s\<lparr>i_wbits := (if i_wbits s = 0 then len else i_wbits s), i_dmax := 2 ^ len\<rparr>) r;
                                    r = set_adler 1 r
                                in Some (Continue (init_bits (set_mode (if js_and (r_hold r) 0x200 \<noteq> 0 then DICTID else TYPE_mode) r)))))"

definition step_FLAGS :: "run \<Rightarrow> outcome option" where
  "step_FLAGS r = need 16 r (\<lambda>r.
     let hold = r_hold r; r = upd_state (\<lambda>s. s\<lparr>i_flags := hold\<rparr>) r
     in if js_and hold 0xff \<noteq> Z_DEFLATED then Some (Continue (bad ''unknown compression method'' r))
        else if js_and hold 0xe000 \<noteq> 0 then Some (Continue (bad ''unknown header flags set'' r))
        else let r = upd_head (\<lambda>h. h\<lparr>gz_text := js_and (js_shr hold 8) 1\<rparr>) r;
                 r = header_crc (\<lambda>c. crc2 c hold) r
             in Some (Continue (set_mode TIME (init_bits r))))"

definition step_TIME :: "run \<Rightarrow> outcome option" where
  "step_TIME r = need 32 r (\<lambda>r.
     let hold = r_hold r; r = upd_head (\<lambda>h. h\<lparr>gz_time := hold\<rparr>) r; r = header_crc (\<lambda>c. crc4 c hold) r
     in Some (Continue (set_mode OS (init_bits r))))"

definition step_OS :: "run \<Rightarrow> outcome option" where
  "step_OS r = need 16 r (\<lambda>r.
     let hold = r_hold r; r = upd_head (\<lambda>h. h\<lparr>gz_xflags := js_and hold 0xff, gz_os := js_shr hold 8\<rparr>) r;
         r = header_crc (\<lambda>c. crc2 c hold) r
     in Some (Continue (set_mode EXLEN (init_bits r))))"

definition step_EXLEN :: "run \<Rightarrow> outcome option" where
  "step_EXLEN r =
     (if js_and (i_flags (r_state r)) 0x0400 \<noteq> 0
      then need 16 r (\<lambda>r.
        let hold = r_hold r; r = upd_state (\<lambda>s. s\<lparr>i_length := nat hold\<rparr>) r;
            r = upd_head (\<lambda>h. h\<lparr>gz_extra_len := nat hold\<rparr>) r; r = header_crc (\<lambda>c. crc2 c hold) r
        in Some (Continue (set_mode EXTRA (init_bits r))))
      else Some (Continue (set_mode EXTRA (upd_head (\<lambda>h. h\<lparr>gz_extra := None\<rparr>) r))))"

text \<open>
  The extra field goes into an untyped array of \<open>extra_len\<close> elements, which the header's object keeps: an
  element that has not been assigned is written as 0 here.
\<close>

definition extra_set :: "int list \<Rightarrow> nat \<Rightarrow> nat \<Rightarrow> nat \<Rightarrow> gz_header \<Rightarrow> gz_header" where
  "extra_set input next copy len h =
     (let extra = (case gz_extra h of None \<Rightarrow> replicate (gz_extra_len h) 0 | Some xs \<Rightarrow> xs)
      in h\<lparr>gz_extra := Some (foldl (\<lambda>xs i. (xs @ replicate (Suc (len + i) - length xs) 0)[len + i := at input (next + i)])
             extra [0..<copy])\<rparr>)"

definition step_EXTRA :: "run \<Rightarrow> outcome option" where
  "step_EXTRA r =
     (let s = r_state r; copy = (if i_length s > r_have r then r_have r else i_length s);
          r' = upd_head (\<lambda>h. extra_set (r_input r) (r_next r) copy (gz_extra_len h - i_length s) h) r;
          r' = header_crc (\<lambda>c. pako_crc32 c (r_input r) copy (r_next r)) r';
          r' = upd_state (\<lambda>s. s\<lparr>i_length := i_length s - copy\<rparr>)
                 (r'\<lparr>r_have := r_have r - copy, r_next := r_next r + copy\<rparr>);
          r = (if js_and (i_flags s) 0x0400 \<noteq> 0 \<and> copy \<noteq> 0 then r' else r)
      in if js_and (i_flags s) 0x0400 \<noteq> 0 \<and> i_length (r_state r) \<noteq> 0 then Some (Leave r)
         else Some (Continue (set_mode NAME (upd_state (\<lambda>s. s\<lparr>i_length := 0\<rparr>) r))))"

text \<open>
  The loop that reads a name or a comment up to its zero: the last element read, the number of elements,
  and what was appended. A string that is \<open>null\<close> is appended to as \<open>'null'\<close>.
\<close>

function scan_name :: "int list \<Rightarrow> nat \<Rightarrow> nat \<Rightarrow> nat \<Rightarrow> int list \<Rightarrow> int \<times> nat \<times> int list" where
  "scan_name input next have copy acc =
     (let len = at input (next + copy); acc = (if len \<noteq> 0 then acc @ [len] else acc)
      in if len \<noteq> 0 \<and> copy + 1 < have then scan_name input next have (copy + 1) acc else (len, copy + 1, acc))"
  by pat_completeness auto
termination by (relation "measure (\<lambda>(input, next, have, copy, acc). have - copy)") auto

declare scan_name.simps [simp del]

definition js_append :: "int list option \<Rightarrow> int list \<Rightarrow> int list option" where
  "js_append s cs = (if cs = [] then s else Some ((case s of None \<Rightarrow> [110, 117, 108, 108] | Some s \<Rightarrow> s) @ cs))"

definition step_string :: "int \<Rightarrow> (int list \<Rightarrow> gz_header \<Rightarrow> gz_header) \<Rightarrow> (gz_header \<Rightarrow> gz_header) \<Rightarrow> (run \<Rightarrow> run) \<Rightarrow> run \<Rightarrow> outcome option" where
  "step_string flag app none done r =
     (if js_and (i_flags (r_state r)) flag \<noteq> 0
      then if r_have r = 0 then Some (Leave r)
           else let (len, copy, cs) = scan_name (r_input r) (r_next r) (r_have r) 0 [];
                    r' = (if i_length (r_state r) < 65536 then upd_head (app cs) r else r);
                    r' = header_crc (\<lambda>c. pako_crc32 c (r_input r) copy (r_next r)) r';
                    r' = r'\<lparr>r_have := r_have r - copy, r_next := r_next r + copy\<rparr>
                in if len \<noteq> 0 then Some (Leave r') else Some (Continue (done r'))
      else Some (Continue (done (upd_head none r))))"

definition step_NAME :: "run \<Rightarrow> outcome option" where
  "step_NAME = step_string 0x0800 (\<lambda>cs h. h\<lparr>gz_name := js_append (gz_name h) cs\<rparr>) (\<lambda>h. h\<lparr>gz_name := None\<rparr>)
     (\<lambda>r. set_mode COMMENT (upd_state (\<lambda>s. s\<lparr>i_length := 0\<rparr>) r))"

definition step_COMMENT :: "run \<Rightarrow> outcome option" where
  "step_COMMENT = step_string 0x1000 (\<lambda>cs h. h\<lparr>gz_comment := js_append (gz_comment h) cs\<rparr>) (\<lambda>h. h\<lparr>gz_comment := None\<rparr>)
     (set_mode HCRC)"

definition step_HCRC :: "run \<Rightarrow> outcome option" where
  "step_HCRC r =
     (let done = (\<lambda>r. Some (Continue (set_mode TYPE_mode (set_adler 0
            (upd_head (\<lambda>h. h\<lparr>gz_hcrc := js_and (js_shr (i_flags (r_state r)) 9) 1, gz_done := True\<rparr>) r)))))
      in if js_and (i_flags (r_state r)) 0x0200 \<noteq> 0
         then need 16 r (\<lambda>r.
           if r_hold r \<noteq> js_and (i_check (r_state r)) 0xffff then Some (Continue (bad ''header crc mismatch'' r))
           else done (init_bits r))
         else done r)"

definition step_DICTID :: "run \<Rightarrow> outcome option" where
  "step_DICTID r = need 32 r (\<lambda>r. Some (Continue (set_mode DICT (init_bits (set_adler (zswap32 (r_hold r)) r)))))"

text \<open>\<open>RESTORE\<close>.\<close>

definition restore :: "run \<Rightarrow> run" where
  "restore r = upd_state (\<lambda>s. s\<lparr>i_hold := r_hold r, i_bits := r_bits r\<rparr>)
     (r\<lparr>r_strm := (r_strm r)\<lparr>z_next_out := r_put r, z_avail_out := r_left r, z_next_in := r_next r, z_avail_in := r_have r,
        z_output := Some (r_output r)\<rparr>\<rparr>)"

definition step_DICT :: "run \<Rightarrow> outcome option" where
  "step_DICT r =
     (if \<not> i_havedict (r_state r) then Some (Return Z_NEED_DICT (restore r))
      else Some (Continue (set_mode TYPE_mode (set_adler 1 r))))"

section \<open>Blocks\<close>

definition step_TYPEDO :: "nat \<Rightarrow> run \<Rightarrow> outcome option" where
  "step_TYPEDO flush r =
     (if i_last (r_state r) \<noteq> 0 then Some (Continue (set_mode CHECK (byte_bits r)))
      else need 3 r (\<lambda>r.
        let r = drop_bits 1 (upd_state (\<lambda>s. s\<lparr>i_last := int (bits_of 1 r)\<rparr>) r)
        in if bits_of 2 r = 0 then Some (Continue (drop_bits 2 (set_mode STORED r)))
           else if bits_of 2 r = 1
           then Option.bind (fixedtables (r_fixed r) (r_state r)) (\<lambda>(g, s).
                  let r = drop_bits 2 (set_mode LEN_first (r\<lparr>r_fixed := g, r_state := s\<rparr>))
                  in Some (if flush = Z_TREES then Leave r else Continue r))
           else if bits_of 2 r = 2 then Some (Continue (drop_bits 2 (set_mode TABLE r)))
           else Some (Continue (drop_bits 2 (bad ''invalid block type'' r)))))"

definition step_TYPE :: "nat \<Rightarrow> run \<Rightarrow> outcome option" where
  "step_TYPE flush r = (if flush = Z_BLOCK \<or> flush = Z_TREES then Some (Leave r) else step_TYPEDO flush r)"

definition step_STORED :: "nat \<Rightarrow> run \<Rightarrow> outcome option" where
  "step_STORED flush r = need 32 (byte_bits r) (\<lambda>r.
     let hold = r_hold r
     in if js_and hold 0xffff \<noteq> js_xor (js_ushr hold 16) 0xffff then Some (Continue (bad ''invalid stored block lengths'' r))
        else let r = set_mode COPY_first (init_bits (upd_state (\<lambda>s. s\<lparr>i_length := nat (js_and hold 0xffff)\<rparr>) r))
             in Some (if flush = Z_TREES then Leave r else Continue r))"

definition step_COPY :: "run \<Rightarrow> outcome option" where
  "step_COPY r =
     (let len = i_length (r_state r)
      in if len \<noteq> 0
         then let copy = (if len > r_have r then r_have r else len); copy = (if copy > r_left r then r_left r else copy)
              in if copy = 0 then Some (Leave r)
                 else (case arraySet (r_output r) (r_input r) (r_next r) copy (r_put r) of
                         None \<Rightarrow> Some Throws
                       | Some output \<Rightarrow> Some (Continue (upd_state (\<lambda>s. s\<lparr>i_length := len - copy\<rparr>)
                           (r\<lparr>r_output := output, r_have := r_have r - copy, r_next := r_next r + copy,
                              r_left := r_left r - copy, r_put := r_put r + copy\<rparr>))))
         else Some (Continue (set_mode TYPE_mode r)))"

section \<open>The tables of a dynamic block\<close>

definition step_TABLE :: "run \<Rightarrow> outcome option" where
  "step_TABLE r = need 14 r (\<lambda>r.
     let r = drop_bits 5 (upd_state (\<lambda>s. s\<lparr>i_nlen := bits_of 5 r + 257\<rparr>) r);
         r = drop_bits 5 (upd_state (\<lambda>s. s\<lparr>i_ndist := bits_of 5 r + 1\<rparr>) r);
         r = drop_bits 4 (upd_state (\<lambda>s. s\<lparr>i_ncode := bits_of 4 r + 4\<rparr>) r)
     in if i_nlen (r_state r) > 286 \<or> i_ndist (r_state r) > 30
        then Some (Continue (bad ''too many length or distance symbols'' r))
        else Some (Continue (set_mode LENLENS (upd_state (\<lambda>s. s\<lparr>i_have := 0\<rparr>) r))))"

definition lens_order :: "nat list" where
  "lens_order = [16, 17, 18, 0, 8, 7, 9, 6, 10, 5, 11, 4, 12, 3, 13, 2, 14, 1, 15]"

definition order_lens :: "nat \<Rightarrow> run \<Rightarrow> run" where
  "order_lens v r = upd_state (\<lambda>s. s\<lparr>i_lens := (i_lens s)[lens_order ! i_have s := v], i_have := i_have s + 1\<rparr>) r"

text \<open>The loop up to \<open>ncode\<close>, \<open>n\<close> turns of it, and the one up to 19.\<close>

fun read_lenlens :: "nat \<Rightarrow> run \<Rightarrow> run + run" where
  "read_lenlens 0 r = Inr r"
| "read_lenlens (Suc n) r =
     (case needbits 3 r of Inl r \<Rightarrow> Inl r | Inr r \<Rightarrow> read_lenlens n (drop_bits 3 (order_lens (bits_of 3 r) r)))"

definition rest_lenlens :: "run \<Rightarrow> run" where
  "rest_lenlens r = (order_lens 0 ^^ (19 - i_have (r_state r))) r"

definition step_LENLENS :: "run \<Rightarrow> outcome option" where
  "step_LENLENS r =
     (case read_lenlens (i_ncode (r_state r) - i_have (r_state r)) r of
        Inl r \<Rightarrow> Some (Leave r)
      | Inr r \<Rightarrow>
          let r = rest_lenlens r; s = r_state r
          in Option.bind (inflate_table CODES (i_lens s) 0 19 (i_lendyn s) 0 (i_work s) 7) (\<lambda>t.
               let r = r\<lparr>r_state := s\<lparr>i_lencode := Dynamic, i_lendyn := tr_table t, i_work := tr_work t, i_lenbits := tr_bits t\<rparr>,
                         r_ret := tr_ret t\<rparr>
               in if tr_ret t \<noteq> 0 then Some (Continue (bad ''invalid code lengths set'' r))
                  else Some (Continue (set_mode CODELENS (upd_state (\<lambda>s. s\<lparr>i_have := 0\<rparr>) r)))))"

text \<open>
  Reading a code: bytes are pulled until the entry that the bits in \<open>hold\<close> select, as \<open>entry\<close> gives it, takes
  no more bits than there are, \<open>last_bits\<close> of a link included.
\<close>

function pull_code :: "(int \<Rightarrow> int) \<Rightarrow> nat \<Rightarrow> run \<Rightarrow> run + int \<times> run" where
  "pull_code entry last_bits r =
     (let here = entry (r_hold r)
      in if last_bits + here_bits here \<le> r_bits r then Inr (here, r)
         else if r_have r = 0 then Inl r else pull_code entry last_bits (pull_byte r))"
  by pat_completeness auto
termination by (relation "measure (\<lambda>(entry, last_bits, r). r_have r)") (auto simp: pull_byte_def)

declare pull_code.simps [simp del]

definition first_entry :: "int list \<Rightarrow> nat \<Rightarrow> int \<Rightarrow> int" where
  "first_entry table bits hold = at table (low_bits hold bits)"

definition link_entry :: "int list \<Rightarrow> int \<Rightarrow> int \<Rightarrow> int" where
  "link_entry table link hold =
     at table (here_val link + drop_bit (here_bits link) (low_bits hold (here_bits link + here_op link)))"

definition fill_lens :: "nat \<Rightarrow> nat \<Rightarrow> run \<Rightarrow> run" where
  "fill_lens copy len r =
     ((\<lambda>r. upd_state (\<lambda>s. s\<lparr>i_lens := (i_lens s)[i_have s := len], i_have := i_have s + 1\<rparr>) r) ^^ copy) r"

text \<open>One turn of the loop for the code lengths; an error is left as the mode.\<close>

definition repeat_lens :: "nat \<Rightarrow> nat \<Rightarrow> run \<Rightarrow> run" where
  "repeat_lens copy len r =
     (if i_have (r_state r) + copy > i_nlen (r_state r) + i_ndist (r_state r) then bad ''invalid bit length repeat'' r
      else fill_lens copy len r)"

definition read_codelen :: "run \<Rightarrow> run + run" where
  "read_codelen r =
     (case pull_code (first_entry (len_table (r_fixed r) (r_state r)) (i_lenbits (r_state r))) 0 r of
        Inl r \<Rightarrow> Inl r
      | Inr (here, r) \<Rightarrow>
          if here_val here < 16 then Inr (fill_lens 1 (here_val here) (drop_bits (here_bits here) r))
          else if here_val here = 16
          then (case needbits (here_bits here + 2) r of
                  Inl r \<Rightarrow> Inl r
                | Inr r \<Rightarrow>
                    let r = drop_bits (here_bits here) r; s = r_state r
                    in if i_have s = 0 then Inr (bad ''invalid bit length repeat'' r)
                       else Inr (repeat_lens (3 + bits_of 2 r) (i_lens s ! (i_have s - 1)) (drop_bits 2 r)))
          else if here_val here = 17
          then (case needbits (here_bits here + 3) r of
                  Inl r \<Rightarrow> Inl r
                | Inr r \<Rightarrow> let r = drop_bits (here_bits here) r in Inr (repeat_lens (3 + bits_of 3 r) 0 (drop_bits 3 r)))
          else (case needbits (here_bits here + 7) r of
                  Inl r \<Rightarrow> Inl r
                | Inr r \<Rightarrow> let r = drop_bits (here_bits here) r in Inr (repeat_lens (11 + bits_of 7 r) 0 (drop_bits 7 r))))"

partial_function (option) read_codelens :: "run \<Rightarrow> (run + run) option" where
  "read_codelens r =
     (if i_mode (r_state r) \<noteq> BAD \<and> i_have (r_state r) < i_nlen (r_state r) + i_ndist (r_state r)
      then (case read_codelen r of Inl r \<Rightarrow> Some (Inl r) | Inr r \<Rightarrow> read_codelens r)
      else Some (Inr r))"

declare read_codelens.simps [code]

definition step_CODELENS :: "nat \<Rightarrow> run \<Rightarrow> outcome option" where
  "step_CODELENS flush r =
     Option.bind (read_codelens r) (\<lambda>res. case res of
       Inl r \<Rightarrow> Some (Leave r)
     | Inr r \<Rightarrow>
         let s = r_state r
         in if i_mode s = BAD then Some (Continue r)
            else if i_lens s ! 256 = 0 then Some (Continue (bad ''invalid code -- missing end-of-block'' r))
            else Option.bind (inflate_table LENS (i_lens s) 0 (i_nlen s) (len_table (r_fixed r) s) 0 (i_work s) 9) (\<lambda>t.
              let s = s\<lparr>i_lendyn := tr_table t, i_work := tr_work t, i_lenbits := tr_bits t\<rparr>;
                  r = r\<lparr>r_state := s, r_ret := tr_ret t\<rparr>
              in if tr_ret t \<noteq> 0 then Some (Continue (bad ''invalid literal/lengths set'' r))
                 else Option.bind (inflate_table DISTS (i_lens s) (i_nlen s) (i_ndist s) (i_distdyn s) 0 (i_work s) 6) (\<lambda>t.
                   let r = r\<lparr>r_state := s\<lparr>i_distcode := Dynamic, i_distdyn := tr_table t, i_work := tr_work t, i_distbits := tr_bits t\<rparr>,
                             r_ret := tr_ret t\<rparr>
                   in if tr_ret t \<noteq> 0 then Some (Continue (bad ''invalid distances set'' r))
                      else let r = set_mode LEN_first r in Some (if flush = Z_TREES then Leave r else Continue r))))"

section \<open>Literals and matches\<close>

text \<open>A code with its link, if the first entry is one by \<open>linked\<close>; with the number of bits it took.\<close>

definition read_code :: "(nat \<Rightarrow> bool) \<Rightarrow> int list \<Rightarrow> nat \<Rightarrow> run \<Rightarrow> run + int \<times> nat \<times> run" where
  "read_code linked table bits r =
     (case pull_code (first_entry table bits) 0 r of
        Inl r \<Rightarrow> Inl r
      | Inr (here, r) \<Rightarrow>
          if linked (here_op here)
          then (case pull_code (link_entry table here) (here_bits here) r of
                  Inl r \<Rightarrow> Inl r
                | Inr (here', r) \<Rightarrow>
                    Inr (here', here_bits here + here_bits here', drop_bits (here_bits here') (drop_bits (here_bits here) r)))
          else Inr (here, here_bits here, drop_bits (here_bits here) r))"

definition add_back :: "nat \<Rightarrow> run \<Rightarrow> run" where
  "add_back n r = upd_state (\<lambda>s. s\<lparr>i_back := i_back s + int n\<rparr>) r"

definition run_fast :: "run \<Rightarrow> run option" where
  "run_fast r =
     (let r = restore r
      in map_option (\<lambda>(strm, s).
           let r = r\<lparr>r_strm := strm, r_state := s, r_put := z_next_out strm, r_output := nullable (z_output strm),
                     r_left := z_avail_out strm, r_next := z_next_in strm, r_input := nullable (z_input strm),
                     r_have := z_avail_in strm, r_hold := i_hold s, r_bits := i_bits s\<rparr>
           in if i_mode s = TYPE_mode then upd_state (\<lambda>s. s\<lparr>i_back := - 1\<rparr>) r else r)
         (inflate_fast (r_fixed r) (r_strm r) (r_state r) (r_out r)))"

definition step_LEN :: "run \<Rightarrow> outcome option" where
  "step_LEN r =
     (if r_have r \<ge> 6 \<and> r_left r \<ge> 258 then map_option Continue (run_fast r)
      else let r = upd_state (\<lambda>s. s\<lparr>i_back := 0\<rparr>) r
           in case read_code (\<lambda>op. op \<noteq> 0 \<and> op AND 0xf0 = 0) (len_table (r_fixed r) (r_state r)) (i_lenbits (r_state r)) r of
                Inl r \<Rightarrow> Some (Leave r)
              | Inr (here, n, r) \<Rightarrow>
                  let r = upd_state (\<lambda>s. s\<lparr>i_length := here_val here\<rparr>) (add_back n r); op = here_op here
                  in if op = 0 then Some (Continue (set_mode LIT r))
                     else if op AND 32 \<noteq> 0 then Some (Continue (set_mode TYPE_mode (upd_state (\<lambda>s. s\<lparr>i_back := - 1\<rparr>) r)))
                     else if op AND 64 \<noteq> 0 then Some (Continue (bad ''invalid literal/length code'' r))
                     else Some (Continue (set_mode LENEXT (upd_state (\<lambda>s. s\<lparr>i_extra := op AND 15\<rparr>) r))))"

definition step_LENEXT :: "run \<Rightarrow> outcome option" where
  "step_LENEXT r =
     (let done = (\<lambda>r. Some (Continue (set_mode DIST (upd_state (\<lambda>s. s\<lparr>i_was := i_length s\<rparr>) r)))); n = i_extra (r_state r)
      in if n \<noteq> 0
         then need n r (\<lambda>r. done (add_back n (drop_bits n (upd_state (\<lambda>s. s\<lparr>i_length := i_length s + low_bits (r_hold r) n\<rparr>) r))))
         else done r)"

definition step_DIST :: "run \<Rightarrow> outcome option" where
  "step_DIST r =
     (case read_code (\<lambda>op. op AND 0xf0 = 0) (dist_table (r_fixed r) (r_state r)) (i_distbits (r_state r)) r of
        Inl r \<Rightarrow> Some (Leave r)
      | Inr (here, n, r) \<Rightarrow>
          let r = add_back n r; op = here_op here
          in if op AND 64 \<noteq> 0 then Some (Continue (bad ''invalid distance code'' r))
             else Some (Continue (set_mode DISTEXT (upd_state (\<lambda>s. s\<lparr>i_offset := here_val here, i_extra := op AND 15\<rparr>) r))))"

definition step_DISTEXT :: "run \<Rightarrow> outcome option" where
  "step_DISTEXT r =
     (let done = (\<lambda>r. if i_offset (r_state r) > i_dmax (r_state r)
                      then Some (Continue (bad ''invalid distance too far back'' r))
                      else Some (Continue (set_mode MATCH r)));
          n = i_extra (r_state r)
      in if n \<noteq> 0
         then need n r (\<lambda>r. done (add_back n (drop_bits n (upd_state (\<lambda>s. s\<lparr>i_offset := i_offset s + low_bits (r_hold r) n\<rparr>) r))))
         else done r)"

text \<open>Copying \<open>copy\<close> bytes of a match from \<open>src_pos\<close> of the window or of the output.\<close>

definition copy_match :: "int list option \<Rightarrow> nat \<Rightarrow> nat \<Rightarrow> run \<Rightarrow> outcome option" where
  "copy_match src src_pos copy r =
     (let copy = (if copy > r_left r then r_left r else copy); len = i_length (r_state r) - copy
      in Option.bind (do_copy src copy (src_pos, r_put r, r_output r)) (\<lambda>(_, put, output).
           let r = upd_state (\<lambda>s. s\<lparr>i_length := len\<rparr>) (r\<lparr>r_left := r_left r - copy, r_put := put, r_output := output\<rparr>)
           in Some (Continue (if len = 0 then set_mode LEN r else r))))"

definition step_MATCH :: "run \<Rightarrow> outcome option" where
  "step_MATCH r =
     (if r_left r = 0 then Some (Leave r)
      else let s = r_state r; copy = r_out r - r_left r
           in if i_offset s > copy
              then let copy = i_offset s - copy
                   in if copy > i_whave s \<and> i_sane s then Some (Continue (bad ''invalid distance too far back'' r))
                      else let src_pos = (if copy > i_wnext s then i_wsize s - (copy - i_wnext s) else i_wnext s - copy);
                               copy = (if copy > i_wnext s then copy - i_wnext s else copy);
                               copy = (if copy > i_length s then i_length s else copy)
                           in copy_match (Some (nullable (i_window s))) src_pos copy r
              else copy_match None (r_put r - i_offset s) (i_length s) r)"

definition step_LIT :: "run \<Rightarrow> outcome option" where
  "step_LIT r =
     (if r_left r = 0 then Some (Leave r)
      else Some (Continue (set_mode LEN
             (r\<lparr>r_output := (r_output r)[r_put r := int (i_length (r_state r)) mod 256], r_put := r_put r + 1, r_left := r_left r - 1\<rparr>))))"

section \<open>The trailer\<close>

text \<open>The check value over the last \<open>n\<close> bytes of output before \<open>stop\<close>.\<close>

definition output_check :: "inflate_state \<Rightarrow> int list \<Rightarrow> nat \<Rightarrow> nat \<Rightarrow> int" where
  "output_check s output n stop =
     (if i_flags s \<noteq> 0 then pako_crc32 (i_check s) output n (stop - n) else adler32 (i_check s) output n (stop - n))"

text \<open>\<open>NEEDBITS(32)\<close> of \<open>CHECK\<close>, with \<open>|=\<close> for \<open>+=\<close>.\<close>

function needbits_or :: "nat \<Rightarrow> run \<Rightarrow> run + run" where
  "needbits_or n r =
     (if r_bits r < n
      then if r_have r = 0 then Inl r
           else needbits_or n (r\<lparr>r_have := r_have r - 1, r_hold := js_or (r_hold r) (js_shl (at (r_input r) (r_next r)) (r_bits r)),
                  r_next := r_next r + 1, r_bits := r_bits r + 8\<rparr>)
      else Inr r)"
  by pat_completeness auto
termination by (relation "measure (\<lambda>(n, r). n - r_bits r)") auto

declare needbits_or.simps [simp del]

definition step_CHECK :: "run \<Rightarrow> outcome option" where
  "step_CHECK r =
     (if i_wrap (r_state r) \<noteq> 0
      then (case needbits_or 32 r of
              Inl r \<Rightarrow> Some (Leave r)
            | Inr r \<Rightarrow>
                let n = r_out r - r_left r;
                    r = r\<lparr>r_strm := (r_strm r)\<lparr>z_total_out := z_total_out (r_strm r) + int n\<rparr>,
                          r_state := (r_state r)\<lparr>i_total := i_total (r_state r) + int n\<rparr>\<rparr>;
                    r = (if n \<noteq> 0 then set_adler (output_check (r_state r) (r_output r) n (r_put r)) r else r);
                    r = r\<lparr>r_out := r_left r\<rparr>; s = r_state r
                in if (if i_flags s \<noteq> 0 then r_hold r else zswap32 (r_hold r)) \<noteq> i_check s
                   then Some (Continue (bad ''incorrect data check'' r))
                   else Some (Continue (set_mode LENGTH_mode (init_bits r))))
      else Some (Continue (set_mode LENGTH_mode r)))"

definition step_LENGTH :: "run \<Rightarrow> outcome option" where
  "step_LENGTH r =
     (if i_wrap (r_state r) \<noteq> 0 \<and> i_flags (r_state r) \<noteq> 0
      then need 32 r (\<lambda>r.
        if r_hold r \<noteq> js_and (i_total (r_state r)) 0xffffffff then Some (Continue (bad ''incorrect length check'' r))
        else Some (Continue (set_mode DONE (init_bits r))))
      else Some (Continue (set_mode DONE r)))"

section \<open>The loop and the function\<close>

definition inflate_step :: "nat \<Rightarrow> run \<Rightarrow> outcome option" where
  "inflate_step flush r =
     (case i_mode (r_state r) of
        HEAD \<Rightarrow> step_HEAD r | FLAGS \<Rightarrow> step_FLAGS r | TIME \<Rightarrow> step_TIME r | OS \<Rightarrow> step_OS r | EXLEN \<Rightarrow> step_EXLEN r
      | EXTRA \<Rightarrow> step_EXTRA r | NAME \<Rightarrow> step_NAME r | COMMENT \<Rightarrow> step_COMMENT r | HCRC \<Rightarrow> step_HCRC r
      | DICTID \<Rightarrow> step_DICTID r | DICT \<Rightarrow> step_DICT r | TYPE_mode \<Rightarrow> step_TYPE flush r | TYPEDO \<Rightarrow> step_TYPEDO flush r
      | STORED \<Rightarrow> step_STORED flush r | COPY_first \<Rightarrow> Some (Continue (set_mode COPY r)) | COPY \<Rightarrow> step_COPY r
      | TABLE \<Rightarrow> step_TABLE r | LENLENS \<Rightarrow> step_LENLENS r | CODELENS \<Rightarrow> step_CODELENS flush r
      | LEN_first \<Rightarrow> Some (Continue (set_mode LEN r)) | LEN \<Rightarrow> step_LEN r | LENEXT \<Rightarrow> step_LENEXT r | DIST \<Rightarrow> step_DIST r
      | DISTEXT \<Rightarrow> step_DISTEXT r | MATCH \<Rightarrow> step_MATCH r | LIT \<Rightarrow> step_LIT r | CHECK \<Rightarrow> step_CHECK r
      | LENGTH_mode \<Rightarrow> step_LENGTH r | DONE \<Rightarrow> Some (Leave (r\<lparr>r_ret := Z_STREAM_END\<rparr>))
      | BAD \<Rightarrow> Some (Leave (r\<lparr>r_ret := Z_DATA_ERROR\<rparr>)) | MEM \<Rightarrow> Some (Return Z_MEM_ERROR r)
      | SYNC \<Rightarrow> Some (Return Z_STREAM_ERROR r))"

text \<open>The loop gives what is not \<open>Continue\<close>.\<close>

partial_function (option) inflate_loop :: "nat \<Rightarrow> run \<Rightarrow> outcome option" where
  "inflate_loop flush r =
     Option.bind (inflate_step flush r) (\<lambda>res. case res of
       Continue r \<Rightarrow> inflate_loop flush r | Leave r \<Rightarrow> Some (Leave r) | Return ret r \<Rightarrow> Some (Return ret r) | Throws \<Rightarrow> Some Throws)"

declare inflate_loop.simps [code]

text \<open>What the function returns: an exception, or the code with the fixed tables and the stream.\<close>

datatype inflate_error = RangeError

type_synonym inflate_result = "inflate_error + int \<times> fixed_tables \<times> zstream"

definition load_run :: "fixed_tables \<Rightarrow> zstream \<Rightarrow> inflate_state \<Rightarrow> run" where
  "load_run g strm s =
     \<lparr>r_strm = strm, r_state = (if i_mode s = TYPE_mode then s\<lparr>i_mode := TYPEDO\<rparr> else s), r_fixed = g,
      r_input = nullable (z_input strm), r_output = nullable (z_output strm), r_put = z_next_out strm,
      r_left = z_avail_out strm, r_next = z_next_in strm, r_have = z_avail_in strm, r_hold = i_hold s, r_bits = i_bits s,
      r_in = z_avail_in strm, r_out = z_avail_out strm, r_ret = Z_OK\<rparr>"

definition unload_run :: "run \<Rightarrow> zstream" where
  "unload_run r = (r_strm r)\<lparr>z_output := Some (r_output r), z_state := Some (r_state r)\<rparr>"

text \<open>After \<open>inf_leave\<close>: the window, the totals, the check value and the return code.\<close>

definition needs_window :: "nat \<Rightarrow> run \<Rightarrow> bool" where
  "needs_window flush r \<longleftrightarrow> i_wsize (r_state r) \<noteq> 0 \<or>
     (r_out r \<noteq> r_left r \<and> mode_number (i_mode (r_state r)) < mode_number BAD \<and>
      (mode_number (i_mode (r_state r)) < mode_number CHECK \<or> flush \<noteq> Z_FINISH))"

definition stream_data_type :: "inflate_state \<Rightarrow> nat" where
  "stream_data_type s = i_bits s + (if i_last s \<noteq> 0 then 64 else 0) + (if i_mode s = TYPE_mode then 128 else 0) +
     (if i_mode s = LEN_first \<or> i_mode s = COPY_first then 256 else 0)"

definition leave_run :: "nat \<Rightarrow> run \<Rightarrow> inflate_result" where
  "leave_run flush r =
     (let r = restore r
      in case (if needs_window flush r then updatewindow (r_state r) (r_output r) (r_put r) (r_out r - r_left r)
               else Some (r_state r)) of
           None \<Rightarrow> Inl RangeError
         | Some s \<Rightarrow>
             let ins = r_in r - r_have r; outs = r_out r - r_left r;
                 s = s\<lparr>i_total := i_total s + int outs\<rparr>;
                 strm = (r_strm r)\<lparr>z_total_in := z_total_in (r_strm r) + int ins, z_total_out := z_total_out (r_strm r) + int outs\<rparr>;
                 check = output_check s (r_output r) outs (r_put r);
                 (s, strm) = (if i_wrap s \<noteq> 0 \<and> outs \<noteq> 0 then (s\<lparr>i_check := check\<rparr>, strm\<lparr>z_adler := check\<rparr>) else (s, strm))
             in Inr (if (ins = 0 \<and> outs = 0 \<or> flush = Z_FINISH) \<and> r_ret r = Z_OK then Z_BUF_ERROR else r_ret r,
                  r_fixed r, strm\<lparr>z_data_type := stream_data_type s, z_state := Some s\<rparr>))"

definition inflate :: "fixed_tables \<Rightarrow> zstream \<Rightarrow> nat \<Rightarrow> inflate_result option" where
  "inflate g strm flush =
     (case z_state strm of
        None \<Rightarrow> Some (Inr (Z_STREAM_ERROR, g, strm))
      | Some s \<Rightarrow>
          if z_output strm = None \<or> z_input strm = None \<and> z_avail_in strm \<noteq> 0 then Some (Inr (Z_STREAM_ERROR, g, strm))
          else map_option (\<lambda>res. case res of
                   Leave r \<Rightarrow> leave_run flush r
                 | Return ret r \<Rightarrow> Inr (ret, r_fixed r, unload_run r)
                 | _ \<Rightarrow> Inl RangeError) (inflate_loop flush (load_run g strm s)))"

end
