(* ===== verification/HuffmanCode.thy ===== *)
theory HuffmanCode
  imports InflateTable
begin

text \<open>
  The canonical Huffman code of RFC 1951, as the specification of \<open>inflate_table\<close>, and what the first
  half of that function computes from the lengths: the counts, what is left of the code space, and the
  symbols in the order of their codes. The codes in this order are intervals of 15-bit fractions, from
  which follow that they are prefix-free and how each comes from the one before.
\<close>

section \<open>The specification: RFC 1951, 3.2.2\<close>

text \<open>
  \<open>f\<close> gives the length of a symbol's code, 0 meaning that it has none. The codes of one length are
  consecutive, in the order of the symbols; the first of them follows from the numbers of shorter
  codes. A bit buffer holds the first bit of a code lowest.
\<close>

definition number :: "(nat \<Rightarrow> nat) \<Rightarrow> nat \<Rightarrow> nat \<Rightarrow> nat" where
  "number f n l = length (filter (\<lambda>s. f s = l) [0..<n])"

fun next_code :: "(nat \<Rightarrow> nat) \<Rightarrow> nat \<Rightarrow> nat \<Rightarrow> nat" where
  "next_code f n 0 = 0"
| "next_code f n (Suc l) = 2 * (next_code f n l + (if l = 0 then 0 else number f n l))"

definition rfc_code :: "(nat \<Rightarrow> nat) \<Rightarrow> nat \<Rightarrow> nat \<Rightarrow> nat" where
  "rfc_code f n s = next_code f n (f s) + number f s (f s)"

definition begins_with :: "(nat \<Rightarrow> nat) \<Rightarrow> nat \<Rightarrow> nat \<Rightarrow> nat \<Rightarrow> bool" where
  "begins_with f n hold s \<longleftrightarrow> f s \<noteq> 0 \<and> hold mod 2 ^ f s = brev (f s) (rfc_code f n s)"

definition rfc_decode :: "(nat \<Rightarrow> nat) \<Rightarrow> nat \<Rightarrow> nat \<Rightarrow> nat option" where
  "rfc_decode f n hold = List.find (begins_with f n hold) [0..<n]"

text \<open>The share of all 15-bit sequences that the codes take.\<close>

definition share :: "(nat \<Rightarrow> nat) \<Rightarrow> nat \<Rightarrow> nat" where
  "share f n = (\<Sum>l = 1..<16. number f n l * 2 ^ (15 - l))"

section \<open>Counting and sorting\<close>

lemma number_Suc: "number f (Suc n) l = number f n l + (if f n = l then 1 else 0)"
  by (simp add: number_def)

lemma number_mono: "m \<le> n \<Longrightarrow> number f m l \<le> number f n l"
  by (induction n rule: nat_induct_at_least) (simp_all add: number_Suc)

lemma number_less: "m < n \<Longrightarrow> number f m (f m) < number f n (f m)"
  using number_mono [of "Suc m" n f "f m"] by (simp add: number_Suc)

lemma count_lens_number:
  assumes "\<forall>s < codes. lens ! (lens_index + s) \<le> 15"
  shows "length (count_lens lens lens_index codes) = 16 \<and>
    (\<forall>l \<le> 15. count_lens lens lens_index codes ! l = int (number (\<lambda>s. lens ! (lens_index + s)) codes l))"
  using assms
proof (induction codes)
  case 0
  then show ?case by (simp add: count_lens_def MAXBITS_def number_def)
next
  case (Suc n)
  have "count_lens lens lens_index (Suc n) = (count_lens lens lens_index n)
      [lens ! (lens_index + n) := count_lens lens lens_index n ! (lens ! (lens_index + n)) + 1]"
    by (simp add: count_lens_def)
  then show ?case using Suc by (simp add: number_Suc nth_list_update)
qed

lemma last_used_spec:
  "last_used count m \<le> m \<and> (last_used count m \<noteq> 0 \<longrightarrow> count ! last_used count m \<noteq> 0) \<and>
    (\<forall>l. last_used count m < l \<and> l \<le> m \<longrightarrow> count ! l = 0)"
  by (induction m) (auto simp: le_Suc_eq)

lemma first_used_spec:
  "m \<le> max_len \<Longrightarrow> m \<le> first_used count max_len m \<and> first_used count max_len m \<le> max_len \<and>
    (first_used count max_len m < max_len \<longrightarrow> count ! first_used count max_len m \<noteq> 0) \<and>
    (\<forall>l. m \<le> l \<and> l < first_used count max_len m \<longrightarrow> count ! l = 0)"
proof (induction count max_len m rule: first_used.induct)
  case (1 count max_len m)
  show ?case
  proof (cases "m < max_len \<and> count ! m = 0")
    case True
    then have e: "first_used count max_len m = first_used count max_len (m + 1)"
      by (subst first_used.simps) simp
    have "count ! l = 0" if "m \<le> l" "l < first_used count max_len (m + 1)" for l
      using "1.IH" True that by (cases "l = m") auto
    then show ?thesis unfolding e using "1.IH" True by auto
  next
    case False
    then have "first_used count max_len m = m" using "1.prems" by (subst first_used.simps) auto
    then show ?thesis using False "1.prems" by auto
  qed
qed

text \<open>What is left after the lengths from \<open>a\<close> on.\<close>

lemma check_left_spec:
  assumes "a \<le> 16" and "0 \<le> left" and "\<forall>l \<le> 15. 0 \<le> count ! l"
  shows "check_left count left [a..<16] =
    (let rest = left * 2 ^ (16 - a) - (\<Sum>l = a..<16. count ! l * 2 ^ (15 - l)) in if rest < 0 then None else Some rest)"
  using assms
proof (induction "16 - a" arbitrary: a left)
  case (Suc d)
  then have a: "a < 16" by simp
  let ?left = "2 * left - count ! a"
  let ?s = "\<Sum>l = Suc a..<16. count ! l * 2 ^ (15 - l)"
  have p: "(2::int) ^ (16 - a) = 2 * 2 ^ (15 - a)" using a by (simp add: power_Suc [symmetric] Suc_diff_le del: power_Suc)
  have r: "left * 2 ^ (16 - a) - (\<Sum>l = a..<16. count ! l * 2 ^ (15 - l)) = ?left * 2 ^ (15 - a) - ?s"
    using a by (simp add: p sum.atLeast_Suc_lessThan algebra_simps)
  have s: "0 \<le> ?s" using Suc.prems(3) by (intro sum_nonneg) auto
  show ?case
  proof (cases "?left < 0")
    case True
    then have "?left * 2 ^ (15 - a) < 0" by (simp add: mult_neg_pos)
    then show ?thesis unfolding r using True s a by (simp add: upt_conv_Cons)
  next
    case False
    then have "check_left count ?left [Suc a..<16] =
        (let rest = ?left * 2 ^ (16 - Suc a) - ?s in if rest < 0 then None else Some rest)"
      using Suc by (intro Suc.hyps(1)) auto
    then show ?thesis unfolding r using False a by (simp add: upt_conv_Cons)
  qed
qed (simp add: Let_def)

text \<open>The place of a symbol in the sorted table.\<close>

definition before :: "(nat \<Rightarrow> nat) \<Rightarrow> nat \<Rightarrow> nat \<Rightarrow> nat" where
  "before f n l = (\<Sum>j = 1..<l. number f n j)"

definition place :: "(nat \<Rightarrow> nat) \<Rightarrow> nat \<Rightarrow> nat \<Rightarrow> nat" where
  "place f n s = before f n (f s) + number f s (f s)"

lemma before_Suc: "1 \<le> l \<Longrightarrow> before f n (Suc l) = before f n l + number f n l"
  by (simp add: before_def)

lemma before_mono: "l \<le> k \<Longrightarrow> before f n l \<le> before f n k"
  unfolding before_def by (rule sum_mono2) auto

lemma place_less: "s < n \<Longrightarrow> 1 \<le> f s \<Longrightarrow> place f n s < before f n (Suc (f s))"
  using number_less [of s n f] by (simp add: place_def before_Suc)

lemma place_inj:
  assumes "s < n" "t < n" "1 \<le> f s" "1 \<le> f t" "place f n s = place f n t"
  shows "s = t"
proof -
  have *: False if "f s < f t" "s < n" "1 \<le> f s" "place f n s = place f n t" for s t
    using place_less [of s n f] before_mono [of "Suc (f s)" "f t" f n] that by (simp add: place_def)
  then have "f s = f t" using assms by (metis linorder_neqE_nat)
  then show ?thesis using assms(5) number_less [of s t f] number_less [of t s f]
    by (metis add_left_cancel less_irrefl linorder_neqE_nat place_def)
qed

lemma offsets_before:
  assumes "\<forall>l \<le> 15. count ! l = int (number f n l)"
  shows "length (offsets count) = 16 \<and> (\<forall>l. 1 \<le> l \<and> l \<le> 15 \<longrightarrow> offsets count ! l = before f n l)"
proof -
  let ?g = "\<lambda>k. foldl (\<lambda>offs len. offs[len + 1 := offs ! len + nat (count ! len)]) (replicate 16 0) [1..<k]"
  have "1 \<le> k \<Longrightarrow> k \<le> 15 \<Longrightarrow> length (?g k) = 16 \<and> (\<forall>l. 1 \<le> l \<and> l \<le> k \<longrightarrow> ?g k ! l = before f n l)" for k
  proof (induction k rule: nat_induct_at_least)
    case base
    then show ?case by (auto simp: before_def le_Suc_eq)
  next
    case (Suc k)
    have "?g (Suc k) = (?g k)[Suc k := ?g k ! k + nat (count ! k)]" using Suc.hyps by (simp add: upt_Suc)
    then show ?case using Suc assms by (auto simp: le_Suc_eq before_Suc)
  qed
  from this [of 15] show ?thesis by (simp add: offsets_def MAXBITS_def)
qed

lemma sort_symbols_place:
  assumes "\<forall>s < codes. lens ! (lens_index + s) \<le> 15"
  defines "f \<equiv> \<lambda>s. lens ! (lens_index + s)"
  assumes "before f codes 16 \<le> length work" and "length offs = 16" and "\<forall>l. 1 \<le> l \<and> l \<le> 15 \<longrightarrow> offs ! l = before f codes l"
  shows "length (sort_symbols lens lens_index codes offs work) = length work \<and>
    (\<forall>s < codes. f s \<noteq> 0 \<longrightarrow> sort_symbols lens lens_index codes offs work ! place f codes s = s)"
proof -
  let ?st = "\<lambda>m. foldl (sort_symbol lens lens_index) (offs, work) [0..<m]"
  have "m \<le> codes \<Longrightarrow> length (fst (?st m)) = 16 \<and> length (snd (?st m)) = length work \<and>
      (\<forall>l. 1 \<le> l \<and> l \<le> 15 \<longrightarrow> fst (?st m) ! l = before f codes l + number f m l) \<and>
      (\<forall>s < m. f s \<noteq> 0 \<longrightarrow> snd (?st m) ! place f codes s = s)" for m
  proof (induction m)
    case 0
    then show ?case using assms(4,5) by (simp add: number_def)
  next
    case (Suc m)
    obtain os w where o': "?st m = (os, w)" by fastforce
    have ih: "length os = 16" "length w = length work" "\<forall>l. 1 \<le> l \<and> l \<le> 15 \<longrightarrow> os ! l = before f codes l + number f m l"
        "\<forall>s < m. f s \<noteq> 0 \<longrightarrow> w ! place f codes s = s"
      using Suc o' by auto
    have st: "?st (Suc m) = (if f m \<noteq> 0 then (os[f m := os ! f m + 1], w[os ! f m := m]) else (os, w))"
      by (simp add: o' sort_symbol_def f_def Let_def)
    show ?case
    proof (cases "f m = 0")
      case True
      have z: "number f (Suc m) l = number f m l" if "1 \<le> l" for l using that True by (simp add: number_Suc)
      have "w ! place f codes s = s" if "s < Suc m" "f s \<noteq> 0" for s
        using that True ih(4) by (cases "s = m") auto
      then show ?thesis unfolding st using True ih z by simp
    next
      case False
      have fm: "1 \<le> f m" "f m \<le> 15" using False assms(1) Suc.prems by (auto simp: f_def)
      have p: "os ! f m = place f codes m" using fm ih(3) by (simp add: place_def)
      have "before f codes (Suc (f m)) \<le> before f codes 16" using fm by (intro before_mono) simp
      then have pw: "place f codes m < length w"
        using place_less [of m codes f] fm Suc.prems assms(3) ih(2) by simp
      have "w[place f codes m := m] ! place f codes s = s" if s: "s < Suc m" "f s \<noteq> 0" for s
      proof (cases "s = m")
        case False
        then have "place f codes s \<noteq> place f codes m" using place_inj [of s codes m f] s fm Suc.prems by auto
        then show ?thesis using ih(4) s False by simp
      qed (use pw in simp)
      then show ?thesis unfolding st p using False ih fm by (simp add: number_Suc place_def nth_list_update)
    qed
  qed
  from this [of codes] show ?thesis by (simp add: sort_symbols_def)
qed

text \<open>The sorted symbols as a list.\<close>

definition order :: "(nat \<Rightarrow> nat) \<Rightarrow> nat \<Rightarrow> nat list" where
  "order f n = concat (map (\<lambda>l. filter (\<lambda>s. f s = l) [0..<n]) [1..<16])"

lemma in_order: "s \<in> set (order f n) \<longleftrightarrow> s < n \<and> 1 \<le> f s \<and> f s \<le> 15"
  by (auto simp: order_def)

lemma length_blocks: "length (concat (map (\<lambda>l. filter (\<lambda>s. f s = l) [0..<n]) [1..<k])) = before f n k"
proof (induction k)
  case (Suc k)
  then show ?case by (cases "1 \<le> k") (simp_all add: before_def number_def)
qed (simp add: before_def)

lemma length_order: "length (order f n) = before f n 16"
  using length_blocks [of f n 16] by (simp only: order_def)

lemma filter_place: "s < n \<Longrightarrow> P s \<Longrightarrow> filter P [0..<n] ! length (filter P [0..<s]) = s"
proof -
  assume s: "s < n" "P s"
  then have "[0..<n] = [0..<s] @ s # [Suc s..<n]"
    by (metis less_imp_le_nat upt_add_eq_append upt_conv_Cons zero_le le_add_diff_inverse)
  then show ?thesis using s(2) by (simp add: nth_append)
qed

lemma order_split:
  assumes "1 \<le> l" "l \<le> 15"
  shows "order f n = concat (map (\<lambda>l. filter (\<lambda>s. f s = l) [0..<n]) [1..<l]) @ filter (\<lambda>s. f s = l) [0..<n] @
    concat (map (\<lambda>l. filter (\<lambda>s. f s = l) [0..<n]) [Suc l..<16])"
proof -
  have "[1..<16] = [1..<l] @ l # [Suc l..<16]"
    using assms upt_add_eq_append [of 1 l "16 - l"] upt_conv_Cons [of l 16] by simp
  then show ?thesis by (simp add: order_def del: upt_Suc upt_rec_numeral)
qed

lemma order_block:
  assumes "1 \<le> l" "l \<le> 15" "k < number f n l"
  shows "order f n ! (before f n l + k) = filter (\<lambda>s. f s = l) [0..<n] ! k"
proof -
  obtain xs ys where "order f n = xs @ filter (\<lambda>s. f s = l) [0..<n] @ ys" "length xs = before f n l"
    using order_split [OF assms(1,2)] length_blocks by blast
  then show ?thesis using assms(3) by (simp add: nth_append number_def)
qed

lemma order_place:
  assumes "s < n" "1 \<le> f s" "f s \<le> 15"
  shows "place f n s < length (order f n)" "order f n ! place f n s = s"
proof -
  have "filter (\<lambda>t. f t = f s) [0..<n] ! number f s (f s) = s"
    using filter_place [of s n "\<lambda>t. f t = f s"] assms by (simp add: number_def)
  then show "order f n ! place f n s = s"
    unfolding place_def using order_block [of "f s" "number f s (f s)" f n] number_less [OF assms(1), of f] assms by simp
  have "before f n (Suc (f s)) \<le> before f n 16" using assms by (intro before_mono) simp
  then show "place f n s < length (order f n)" using place_less [of s n f] assms by (simp add: length_order)
qed

lemma distinct_order: "distinct (order f n)"
proof -
  have "distinct (concat (map (\<lambda>l. filter (\<lambda>s. f s = l) [0..<n]) [1..<k]))" for k
  proof (induction k)
    case (Suc k)
    then show ?case by (cases "1 \<le> k") auto
  qed simp
  then show ?thesis unfolding order_def .
qed

lemma order_index:
  assumes "i < length (order f n)"
  shows "i = place f n (order f n ! i)"
proof -
  have "order f n ! i \<in> set (order f n)" using assms by simp
  then have s: "order f n ! i < n" "1 \<le> f (order f n ! i)" "f (order f n ! i) \<le> 15" by (auto simp: in_order)
  show ?thesis using order_place [of "order f n ! i" n f] s distinct_order assms nth_eq_iff_index_eq by metis
qed

lemma take_sorted:
  assumes "\<forall>s < n. f s \<noteq> 0 \<longrightarrow> work ! place f n s = s" and "length (order f n) \<le> length work"
  shows "take (length (order f n)) work = order f n"
proof (rule nth_equalityI)
  fix i assume "i < length (take (length (order f n)) work)"
  then have i: "i < length (order f n)" using assms(2) by simp
  have "order f n ! i \<in> set (order f n)" using i by simp
  then have "order f n ! i < n" "f (order f n ! i) \<noteq> 0" by (auto simp: in_order)
  then have "work ! place f n (order f n ! i) = order f n ! i" using assms(1) by blast
  then show "take (length (order f n)) work ! i = order f n ! i" using order_index [OF i] i by simp
qed (use assms(2) in simp)

lemma sorted_order:
  assumes "i \<le> j" "j < length (order f n)"
  shows "f (order f n ! i) \<le> f (order f n ! j)"
proof -
  have "sorted (map f (concat (map (\<lambda>l. filter (\<lambda>s. f s = l) [0..<n]) [1..<k])))" for k
  proof (induction k)
    case (Suc k)
    have "map f (filter (\<lambda>s. f s = k) xs) = replicate (length (filter (\<lambda>s. f s = k) xs)) k" for xs
      by (induction xs) simp_all
    then show ?case using Suc by (cases "1 \<le> k") (auto simp: sorted_append)
  qed simp
  then have "sorted (map f (order f n))" unfolding order_def .
  then show ?thesis using assms sorted_nth_mono [of "map f (order f n)" i j] by simp
qed

section \<open>The sums behind the codes\<close>

text \<open>The codes as intervals of 15-bit fractions: that of the \<open>i\<close>-th symbol begins at \<open>starts i\<close>.\<close>

definition starts :: "(nat \<Rightarrow> nat) \<Rightarrow> nat list \<Rightarrow> nat \<Rightarrow> nat" where
  "starts f ws i = sum_list (map (\<lambda>s. 2 ^ (15 - f s)) (take i ws))"

lemma starts_Suc: "i < length ws \<Longrightarrow> starts f ws (Suc i) = starts f ws i + 2 ^ (15 - f (ws ! i))"
  by (simp add: starts_def take_Suc_conv_app_nth)

lemma starts_mono: "i \<le> j \<Longrightarrow> starts f ws i \<le> starts f ws j"
proof -
  assume "i \<le> j"
  then have "take j ws = take i ws @ take (j - i) (drop i ws)" using take_add [of i "j - i" ws] by simp
  then show ?thesis by (simp add: starts_def)
qed

lemma sum_list_same: "\<forall>x \<in> set xs. g x = c \<Longrightarrow> sum_list (map g xs) = length xs * (c :: nat)"
  by (induction xs) simp_all

lemma starts_blocks:
  "k \<le> 16 \<Longrightarrow> sum_list (map (\<lambda>s. 2 ^ (15 - f s)) (concat (map (\<lambda>l. filter (\<lambda>s. f s = l) [0..<n]) [1..<k]))) =
    (\<Sum>l = 1..<k. number f n l * 2 ^ (15 - l))"
proof (induction k)
  case (Suc k)
  have "sum_list (map (\<lambda>s. 2 ^ (15 - f s)) (filter (\<lambda>s. f s = k) xs)) = length (filter (\<lambda>s. f s = k) xs) * 2 ^ (15 - k)" for xs
    by (rule sum_list_same) simp
  then show ?case using Suc by (cases "1 \<le> k") (simp_all add: number_def)
qed simp

lemma starts_all: "starts f (order f n) (length (order f n)) = share f n"
  using starts_blocks [of 16 f n] by (simp add: starts_def share_def order_def)

lemma next_code_sum: "l \<le> 15 \<Longrightarrow> next_code f n l * 2 ^ (15 - l) = (\<Sum>j = 1..<l. number f n j * 2 ^ (15 - j))"
proof (induction l)
  case (Suc l)
  have p: "(2::nat) ^ (15 - l) = 2 * 2 ^ (15 - Suc l)" using Suc.prems by (simp add: power_Suc [symmetric] Suc_diff_le del: power_Suc)
  have "next_code f n (Suc l) * 2 ^ (15 - Suc l) = (next_code f n l + (if l = 0 then 0 else number f n l)) * 2 ^ (15 - l)"
    by (simp add: p)
  then show ?case using Suc by (cases "l = 0") (simp_all add: distrib_right)
qed simp

lemma starts_place:
  assumes "s < n" "1 \<le> f s" "f s \<le> 15"
  shows "starts f (order f n) (place f n s) = rfc_code f n s * 2 ^ (15 - f s)"
proof -
  let ?b = "\<lambda>k. concat (map (\<lambda>l. filter (\<lambda>s. f s = l) [0..<n]) [1..<k])"
  let ?k = "number f s (f s)"
  have "take (place f n s) (order f n) = ?b (f s) @ take ?k (filter (\<lambda>t. f t = f s) [0..<n])"
    using order_split [OF assms(2,3), of f n] length_blocks [of f n "f s"] number_less [OF assms(1), of f]
    by (simp add: place_def number_def)
  moreover have "sum_list (map (\<lambda>s. 2 ^ (15 - f s)) (take ?k (filter (\<lambda>t. f t = f s) [0..<n]))) = ?k * 2 ^ (15 - f s)"
  proof -
    have "length (take ?k (filter (\<lambda>t. f t = f s) [0..<n])) = ?k"
      using number_less [OF assms(1), of f] by (simp add: number_def)
    moreover have "sum_list (map (\<lambda>s. 2 ^ (15 - f s)) (take ?k (filter (\<lambda>t. f t = f s) [0..<n]))) =
        length (take ?k (filter (\<lambda>t. f t = f s) [0..<n])) * 2 ^ (15 - f s)"
    proof (rule sum_list_same, rule ballI)
      fix t assume "t \<in> set (take ?k (filter (\<lambda>t. f t = f s) [0..<n]))"
      then have "f t = f s" using in_set_takeD by fastforce
      then show "(2::nat) ^ (15 - f t) = 2 ^ (15 - f s)" by simp
    qed
    ultimately show ?thesis by (simp only:)
  qed
  ultimately show ?thesis
    using starts_blocks [of "f s" f n] next_code_sum [of "f s" f n] assms(3)
    by (simp add: starts_def rfc_code_def distrib_right)
qed

section \<open>The codes in the order of the table\<close>

text \<open>
  A prefix code: symbols \<open>ws\<close> with lengths from 1 to 15 that do not decrease, whose intervals fit.
  \<open>hcode i\<close> is the code of the \<open>i\<close>-th symbol, its first bit lowest.
\<close>

definition prefix_code :: "(nat \<Rightarrow> nat) \<Rightarrow> nat list \<Rightarrow> bool" where
  "prefix_code f ws \<longleftrightarrow> (\<forall>i < length ws. 1 \<le> f (ws ! i) \<and> f (ws ! i) \<le> 15) \<and>
     (\<forall>i j. i \<le> j \<and> j < length ws \<longrightarrow> f (ws ! i) \<le> f (ws ! j)) \<and> starts f ws (length ws) \<le> 2 ^ 15"

definition hcode :: "(nat \<Rightarrow> nat) \<Rightarrow> nat list \<Rightarrow> nat \<Rightarrow> nat" where
  "hcode f ws i = brev 15 (starts f ws i)"

lemma prefix_codeD:
  assumes "prefix_code f ws" "i < length ws"
  shows "1 \<le> f (ws ! i)" "f (ws ! i) \<le> 15" "\<And>j. i \<le> j \<Longrightarrow> j < length ws \<Longrightarrow> f (ws ! i) \<le> f (ws ! j)"
  using assms by (auto simp: prefix_code_def)

lemma starts_aligned:
  assumes "prefix_code f ws" "i < length ws"
  shows "j \<le> i \<Longrightarrow> 2 ^ (15 - f (ws ! i)) dvd starts f ws j"
proof (induction j)
  case (Suc j)
  then have "f (ws ! j) \<le> f (ws ! i)" using prefix_codeD [of f ws j] assms by simp
  then have "(2::nat) ^ (15 - f (ws ! i)) dvd 2 ^ (15 - f (ws ! j))" by (intro le_imp_power_dvd) simp
  then show ?case using Suc assms(2) by (simp add: starts_Suc)
qed (simp add: starts_def)

lemma starts_quot:
  assumes "prefix_code f ws" "i < length ws"
  obtains c where "starts f ws i = c * 2 ^ (15 - f (ws ! i))" "starts f ws (Suc i) = (c + 1) * 2 ^ (15 - f (ws ! i))"
    "c + 1 \<le> 2 ^ f (ws ! i)" "hcode f ws i = brev (f (ws ! i)) c"
proof -
  let ?l = "f (ws ! i)"
  obtain c where c: "starts f ws i = c * 2 ^ (15 - ?l)"
    using starts_aligned [OF assms] by (metis dvd_div_mult_self le_refl)
  have s: "starts f ws (Suc i) = (c + 1) * 2 ^ (15 - ?l)" using starts_Suc [OF assms(2)] c by simp
  have "starts f ws (Suc i) \<le> 2 ^ 15"
    using starts_mono [of "Suc i" "length ws" f ws] assms unfolding prefix_code_def by (meson Suc_leI le_trans)
  then have "(c + 1) * 2 ^ (15 - ?l) \<le> 2 ^ 15" unfolding s .
  also have "(2::nat) ^ 15 = 2 ^ ?l * 2 ^ (15 - ?l)" using prefix_codeD(2) [OF assms] by (simp flip: power_add)
  finally have "c + 1 \<le> 2 ^ ?l" by (simp only: mult_le_cancel2) simp
  moreover have "hcode f ws i = brev ?l c"
    using brev_shift [of ?l "15 - ?l" c] prefix_codeD(2) [OF assms] by (simp add: hcode_def c)
  ultimately show thesis using that c s by blast
qed

lemma starts_less: "prefix_code f ws \<Longrightarrow> i < length ws \<Longrightarrow> starts f ws i < 2 ^ 15"
proof -
  assume a: "prefix_code f ws" "i < length ws"
  have "starts f ws i < starts f ws (Suc i)" using starts_Suc [OF a(2)] by simp
  also have "\<dots> \<le> 2 ^ 15" using starts_mono [of "Suc i" "length ws" f ws] a by (auto simp: prefix_code_def)
  finally show ?thesis .
qed

lemma hcode_less: "prefix_code f ws \<Longrightarrow> i < length ws \<Longrightarrow> hcode f ws i < 2 ^ f (ws ! i)"
  using starts_quot brev_less by metis

lemma hcode_next:
  assumes "prefix_code f ws" "i < length ws"
  shows "next_huff (f (ws ! i)) (hcode f ws i) = hcode f ws (Suc i)"
proof -
  obtain c where c: "starts f ws (Suc i) = (c + 1) * 2 ^ (15 - f (ws ! i))" "hcode f ws i = brev (f (ws ! i)) c"
    using starts_quot [OF assms] by metis
  have "hcode f ws (Suc i) = brev (f (ws ! i)) (c + 1)"
    using brev_shift [of "f (ws ! i)" "15 - f (ws ! i)" "c + 1"] prefix_codeD(2) [OF assms] by (simp add: hcode_def c(1))
  then show ?thesis by (simp add: c(2) next_huff_brev)
qed

lemma hcode_mod:
  assumes "m \<le> 15"
  shows "hcode f ws i mod 2 ^ m = brev m (starts f ws i div 2 ^ (15 - m))"
  using brev_mod [OF assms] by (simp add: hcode_def)

lemma hcode_mod_eq:
  assumes "prefix_code f ws" "i < length ws" "j < length ws" "m \<le> 15" "hcode f ws i mod 2 ^ m = hcode f ws j mod 2 ^ m"
  shows "starts f ws i div 2 ^ (15 - m) = starts f ws j div 2 ^ (15 - m)"
proof -
  have p: "(2::nat) ^ 15 = 2 ^ m * 2 ^ (15 - m)" using assms(4) by (simp flip: power_add)
  have "starts f ws k div 2 ^ (15 - m) < 2 ^ m" if "k < length ws" for k
    using starts_less [OF assms(1) that] unfolding p by (simp add: less_mult_imp_div_less)
  then have "starts f ws i div 2 ^ (15 - m) < 2 ^ m" "starts f ws j div 2 ^ (15 - m) < 2 ^ m" using assms by blast+
  moreover have "brev m (starts f ws i div 2 ^ (15 - m)) = brev m (starts f ws j div 2 ^ (15 - m))"
    using assms(5) unfolding hcode_mod [OF assms(4)] .
  ultimately show ?thesis using brev_inj by blast
qed

text \<open>No code begins with an earlier one.\<close>

lemma prefix_free:
  assumes "prefix_code f ws" "j < i" "i < length ws"
  shows "hcode f ws i mod 2 ^ f (ws ! j) \<noteq> hcode f ws j"
proof
  let ?m = "f (ws ! j)"
  assume e: "hcode f ws i mod 2 ^ ?m = hcode f ws j"
  have j: "j < length ws" using assms by simp
  have m: "?m \<le> 15" by (rule prefix_codeD(2) [OF assms(1) j])
  have "hcode f ws i mod 2 ^ ?m = hcode f ws j mod 2 ^ ?m" using e hcode_less [OF assms(1) j] by simp
  then have q: "starts f ws i div 2 ^ (15 - ?m) = starts f ws j div 2 ^ (15 - ?m)"
    using hcode_mod_eq [OF assms(1,3) j m] by blast
  obtain c where c: "starts f ws j = c * 2 ^ (15 - ?m)" "starts f ws (Suc j) = (c + 1) * 2 ^ (15 - ?m)"
    using starts_quot [OF assms(1) j] by metis
  have "(c + 1) * 2 ^ (15 - ?m) \<le> starts f ws i" using starts_mono [of "Suc j" i f ws] assms(2) c by simp
  then have "c + 1 \<le> starts f ws i div 2 ^ (15 - ?m)" by (simp add: less_eq_div_iff_mult_less_eq)
  then show False unfolding q c(1) by simp
qed

end
