(* ===== verification/DeflateFormat.thy ===== *)
theory DeflateFormat
  imports HuffmanCode
begin

text \<open>
  The deflate format of RFC 1951 as a function, the specification of \<open>inflate\<close>: blocks, codes, matches.
  It reads from a bit stream, given by the number of its bits and their value, the first bit lowest,
  and appends to the output so far, to which the distances refer. \<open>None\<close> means that the stream is
  invalid or ends too early. Two bounds of zlib's are parameters or built in: the greatest
  distance \<open>dmax\<close>, and the numbers of symbols a dynamic block may declare.
\<close>

section \<open>Bit streams\<close>

type_synonym bits = "nat \<times> nat"

definition take_bits :: "nat \<Rightarrow> bits \<Rightarrow> (nat \<times> bits) option" where
  "take_bits n b = (case b of (c, v) \<Rightarrow> if n \<le> c then Some (v mod 2 ^ n, c - n, v div 2 ^ n) else None)"

definition align :: "bits \<Rightarrow> bits" where
  "align b = (case b of (c, v) \<Rightarrow> (c - c mod 8, v div 2 ^ (c mod 8)))"

text \<open>Bytes as a bit stream, the lowest bit of the first byte first.\<close>

fun bytes_value :: "int list \<Rightarrow> nat" where
  "bytes_value [] = 0"
| "bytes_value (b # bs) = nat b + 256 * bytes_value bs"

definition byte_stream :: "int list \<Rightarrow> bits" where
  "byte_stream bs = (8 * length bs, bytes_value bs)"

section \<open>Symbols and matches\<close>

text \<open>The next symbol of the code with lengths \<open>ls\<close>, and a number with extra bits.\<close>

definition ref_symbol :: "nat list \<Rightarrow> bits \<Rightarrow> (nat \<times> bits) option" where
  "ref_symbol ls b =
     (case b of (c, v) \<Rightarrow> case rfc_decode (\<lambda>s. ls ! s) (length ls) v of
        None \<Rightarrow> None
      | Some s \<Rightarrow> if ls ! s \<le> c then Some (s, c - ls ! s, v div 2 ^ (ls ! s)) else None)"

definition with_extra :: "nat \<Rightarrow> nat \<Rightarrow> bits \<Rightarrow> (nat \<times> bits) option" where
  "with_extra base n b = map_option (\<lambda>(x, b). (base + x, b)) (take_bits n b)"

text \<open>RFC 1951, 3.2.5: bases and extra bits of the length symbols 257 to 285 and of the distances 0 to 29.\<close>

definition length_extra :: "nat \<Rightarrow> nat" where
  "length_extra s = (if s < 265 \<or> s = 285 then 0 else (s - 261) div 4)"

definition length_base :: "nat \<Rightarrow> nat" where
  "length_base s = (if s < 265 then s - 254 else if s = 285 then 258
     else (4 + (s - 265) mod 4) * 2 ^ length_extra s + 3)"

definition dist_extra :: "nat \<Rightarrow> nat" where
  "dist_extra s = (if s < 4 then 0 else (s - 2) div 2)"

definition dist_base :: "nat \<Rightarrow> nat" where
  "dist_base s = (if s < 4 then s + 1 else (2 + s mod 2) * 2 ^ dist_extra s + 1)"

datatype deflate_item = Literal nat | EndBlock | Match nat nat

definition ref_distance :: "nat list \<Rightarrow> nat \<Rightarrow> bits \<Rightarrow> (deflate_item \<times> bits) option" where
  "ref_distance dl len b =
     Option.bind (ref_symbol dl b) (\<lambda>(s, b).
       if s < 30 then map_option (\<lambda>(d, b). (Match len d, b)) (with_extra (dist_base s) (dist_extra s) b) else None)"

definition ref_item :: "nat list \<Rightarrow> nat list \<Rightarrow> bits \<Rightarrow> (deflate_item \<times> bits) option" where
  "ref_item ll dl b =
     Option.bind (ref_symbol ll b) (\<lambda>(s, b).
       if s < 256 then Some (Literal s, b) else if s = 256 then Some (EndBlock, b)
       else if s < 286 then Option.bind (with_extra (length_base s) (length_extra s) b) (\<lambda>(len, b). ref_distance dl len b)
       else None)"

text \<open>A match copies byte by byte, so that it may read what it writes.\<close>

fun lz_copy :: "nat \<Rightarrow> nat \<Rightarrow> int list \<Rightarrow> int list" where
  "lz_copy 0 d out = out"
| "lz_copy (Suc n) d out = lz_copy n d (out @ [out ! (length out - d)])"

definition ref_output :: "nat \<Rightarrow> deflate_item \<Rightarrow> int list \<Rightarrow> int list option" where
  "ref_output dmax it out =
     (case it of Literal s \<Rightarrow> Some (out @ [int s]) | EndBlock \<Rightarrow> Some out
      | Match len d \<Rightarrow> if d \<le> dmax \<and> d \<le> length out then Some (lz_copy len d out) else None)"

section \<open>Blocks\<close>

lemma take_bits_less: "take_bits n b = Some (x, b') \<Longrightarrow> fst b' = fst b - n"
  by (auto simp: take_bits_def split: prod.splits if_splits)

lemma take_bits_le: "take_bits n b = Some (x, b') \<Longrightarrow> fst b' \<le> fst b"
  by (drule take_bits_less) simp

lemma ref_symbol_less: "ref_symbol ls b = Some (s, b') \<Longrightarrow> fst b' < fst b"
  by (auto simp: ref_symbol_def rfc_decode_def find_Some_iff begins_with_def split: prod.splits option.splits if_splits)

lemma with_extra_le: "with_extra base n b = Some (x, b') \<Longrightarrow> fst b' \<le> fst b"
  by (auto simp: with_extra_def dest: take_bits_less)

lemma ref_distance_less: "ref_distance dl len b = Some (it, b') \<Longrightarrow> fst b' < fst b"
  unfolding ref_distance_def
  by (auto simp: bind_eq_Some_conv split: if_splits dest!: ref_symbol_less with_extra_le)

lemma ref_item_less: "ref_item ll dl b = Some (it, b') \<Longrightarrow> fst b' < fst b"
  unfolding ref_item_def
  by (auto simp: bind_eq_Some_conv split: if_splits dest!: ref_symbol_less with_extra_le ref_distance_less)

function ref_codes :: "nat list \<Rightarrow> nat list \<Rightarrow> nat \<Rightarrow> bits \<Rightarrow> int list \<Rightarrow> (bits \<times> int list) option" where
  "ref_codes ll dl dmax b out =
     (case ref_item ll dl b of
        None \<Rightarrow> None
      | Some (it, b') \<Rightarrow>
          if it = EndBlock then Some (b', out)
          else (case ref_output dmax it out of None \<Rightarrow> None | Some out \<Rightarrow> ref_codes ll dl dmax b' out))"
  by pat_completeness auto
termination by (relation "measure (\<lambda>(ll, dl, dmax, b, out). fst b)") (auto dest: ref_item_less)

declare ref_codes.simps [simp del]

text \<open>A stored block: its length, the complement, and its bytes.\<close>

fun ref_bytes :: "nat \<Rightarrow> bits \<Rightarrow> int list \<Rightarrow> (bits \<times> int list) option" where
  "ref_bytes 0 b out = Some (b, out)"
| "ref_bytes (Suc n) b out = Option.bind (take_bits 8 b) (\<lambda>(x, b). ref_bytes n b (out @ [int x]))"

definition ref_stored :: "bits \<Rightarrow> int list \<Rightarrow> (bits \<times> int list) option" where
  "ref_stored b out =
     Option.bind (take_bits 16 (align b)) (\<lambda>(len, b).
     Option.bind (take_bits 16 b) (\<lambda>(nlen, b).
       if nlen = 65535 - len then ref_bytes len b out else None))"

definition fixed_ll :: "nat list" where
  "fixed_ll = replicate 144 8 @ replicate 112 9 @ replicate 24 7 @ replicate 8 8"

definition fixed_dl :: "nat list" where
  "fixed_dl = replicate 32 5"

text \<open>
  The lengths of a code are acceptable if they fill the code space exactly. Only a code without symbols
  may fall short, or (\<open>single\<close>) one whose symbols have one bit.
\<close>

definition acceptable :: "bool \<Rightarrow> nat list \<Rightarrow> bool" where
  "acceptable single ls \<longleftrightarrow> share (\<lambda>s. ls ! s) (length ls) = 2 ^ 15 \<or>
     share (\<lambda>s. ls ! s) (length ls) < 2 ^ 15 \<and> ((\<forall>l \<in> set ls. l = 0) \<or> single \<and> (\<forall>l \<in> set ls. l \<le> 1))"

definition rfc_order :: "nat list" where
  "rfc_order = [16, 17, 18, 0, 8, 7, 9, 6, 10, 5, 11, 4, 12, 3, 13, 2, 14, 1, 15]"

text \<open>The \<open>n\<close> code lengths of three bits that follow the first \<open>k\<close>; those that are missing are 0.\<close>

fun ref_lenlens :: "nat \<Rightarrow> nat \<Rightarrow> bits \<Rightarrow> nat list \<Rightarrow> (nat list \<times> bits) option" where
  "ref_lenlens k 0 b cl = Some (cl, b)"
| "ref_lenlens k (Suc n) b cl =
     Option.bind (take_bits 3 b) (\<lambda>(l, b). ref_lenlens (Suc k) n b (cl[rfc_order ! k := l]))"

text \<open>The code lengths up to \<open>goal\<close>; a repetition may not go beyond.\<close>

definition ref_repeat :: "nat \<Rightarrow> nat \<Rightarrow> bits \<Rightarrow> nat list \<Rightarrow> (nat list \<times> bits) option" where
  "ref_repeat cs goal b acc =
     (if cs < 16 then Some (acc @ [cs], b)
      else Option.bind (if cs = 16 then if acc = [] then None else map_option (\<lambda>(n, b). (n, last acc, b)) (with_extra 3 2 b)
                        else if cs = 17 then map_option (\<lambda>(n, b). (n, 0, b)) (with_extra 3 3 b)
                        else map_option (\<lambda>(n, b). (n, 0, b)) (with_extra 11 7 b))
        (\<lambda>(n, l, b). if length acc + n \<le> goal then Some (acc @ replicate n l, b) else None))"

lemma ref_repeat_le: "ref_repeat cs goal b acc = Some (acc', b') \<Longrightarrow> fst b' \<le> fst b"
  unfolding ref_repeat_def
  by (auto simp: bind_eq_Some_conv split: if_splits dest!: with_extra_le)

function ref_codelens :: "nat list \<Rightarrow> nat \<Rightarrow> bits \<Rightarrow> nat list \<Rightarrow> (nat list \<times> bits) option" where
  "ref_codelens cl goal b acc =
     (if length acc < goal
      then (case ref_symbol cl b of
              None \<Rightarrow> None
            | Some (cs, b') \<Rightarrow>
                (case ref_repeat cs goal b' acc of None \<Rightarrow> None | Some (acc, b'') \<Rightarrow> ref_codelens cl goal b'' acc))
      else Some (acc, b))"
  by pat_completeness auto
termination by (relation "measure (\<lambda>(cl, goal, b, acc). fst b)") (auto dest!: ref_repeat_le ref_symbol_less)

declare ref_codelens.simps [simp del]

text \<open>From the code lengths of a dynamic block to its end.\<close>

definition ref_tables :: "nat \<Rightarrow> nat \<Rightarrow> nat list \<Rightarrow> bits \<Rightarrow> int list \<Rightarrow> (bits \<times> int list) option" where
  "ref_tables nlen dmax lens b out =
     (if lens ! 256 \<noteq> 0 \<and> acceptable True (take nlen lens) \<and> acceptable True (drop nlen lens)
      then ref_codes (take nlen lens) (drop nlen lens) dmax b out else None)"

definition ref_dynamic :: "nat \<Rightarrow> bits \<Rightarrow> int list \<Rightarrow> (bits \<times> int list) option" where
  "ref_dynamic dmax b out =
     Option.bind (with_extra 257 5 b) (\<lambda>(nlen, b).
     Option.bind (with_extra 1 5 b) (\<lambda>(ndist, b).
     Option.bind (with_extra 4 4 b) (\<lambda>(ncode, b).
       if nlen > 286 \<or> ndist > 30 then None
       else Option.bind (ref_lenlens 0 ncode b (replicate 19 0)) (\<lambda>(cl, b).
         if acceptable False cl
         then Option.bind (ref_codelens cl (nlen + ndist) b []) (\<lambda>(lens, b). ref_tables nlen dmax lens b out)
         else None))))"

definition ref_block :: "nat \<Rightarrow> nat \<Rightarrow> bits \<Rightarrow> int list \<Rightarrow> (bits \<times> int list) option" where
  "ref_block dmax kind b out =
     (if kind = 0 then ref_stored b out
      else if kind = 1 then ref_codes fixed_ll fixed_dl dmax b out
      else if kind = 2 then ref_dynamic dmax b out else None)"

lemma align_le: "fst (align b) \<le> fst b"
  by (auto simp: align_def split: prod.splits)

lemma ref_codes_le: "ref_codes ll dl dmax b out = Some (b', out') \<Longrightarrow> fst b' \<le> fst b"
proof (induction ll dl dmax b out rule: ref_codes.induct)
  case (1 ll dl dmax b out)
  from "1.prems" obtain it b1 where it: "ref_item ll dl b = Some (it, b1)"
    by (subst (asm) ref_codes.simps) (auto split: option.splits)
  with "1.prems" show ?case
    using ref_item_less [OF it] "1.IH" [OF it refl]
    by (subst (asm) ref_codes.simps) (force split: option.splits if_splits)
qed

lemma ref_bytes_le: "ref_bytes n b out = Some (b', out') \<Longrightarrow> fst b' \<le> fst b"
  by (induction n arbitrary: b out) (force simp: bind_eq_Some_conv dest: take_bits_le intro: le_trans)+

lemma ref_stored_le: "ref_stored b out = Some (b', out') \<Longrightarrow> fst b' \<le> fst b"
  using align_le [of b] unfolding ref_stored_def
  by (fastforce simp: bind_eq_Some_conv split: if_splits dest!: take_bits_less ref_bytes_le)

lemma ref_lenlens_le: "ref_lenlens k n b cl = Some (cl', b') \<Longrightarrow> fst b' \<le> fst b"
  by (induction n arbitrary: k b cl) (force simp: bind_eq_Some_conv dest: take_bits_le intro: le_trans)+

lemma ref_codelens_le: "ref_codelens cl goal b acc = Some (ls, b') \<Longrightarrow> fst b' \<le> fst b"
proof (induction cl goal b acc rule: ref_codelens.induct)
  case (1 cl goal b acc)
  show ?case
  proof (cases "length acc < goal")
    case True
    with "1.prems" obtain cs b1 acc1 b2 where r: "ref_symbol cl b = Some (cs, b1)" "ref_repeat cs goal b1 acc = Some (acc1, b2)"
      by (subst (asm) ref_codelens.simps) (auto split: option.splits)
    with "1.prems" True have "ref_codelens cl goal b2 acc1 = Some (ls, b')" by (subst (asm) ref_codelens.simps) simp
    then show ?thesis using "1.IH" [OF True r(1) refl r(2) refl] ref_symbol_less [OF r(1)] ref_repeat_le [OF r(2)] by simp
  next
    case False
    with "1.prems" show ?thesis by (subst (asm) ref_codelens.simps) simp
  qed
qed

lemma ref_tables_le: "ref_tables nlen dmax lens b out = Some (b', out') \<Longrightarrow> fst b' \<le> fst b"
  by (auto simp: ref_tables_def split: if_splits dest: ref_codes_le)

lemma ref_dynamic_le: "ref_dynamic dmax b out = Some (b', out') \<Longrightarrow> fst b' \<le> fst b"
  unfolding ref_dynamic_def
  by (auto simp: bind_eq_Some_conv split: if_splits dest!: with_extra_le ref_lenlens_le ref_codelens_le ref_tables_le)

lemma ref_block_le: "ref_block dmax kind b out = Some (b', out') \<Longrightarrow> fst b' \<le> fst b"
  by (auto simp: ref_block_def split: if_splits dest: ref_stored_le ref_codes_le ref_dynamic_le)

text \<open>The blocks after one that is the last or not.\<close>

function ref_blocks :: "bool \<Rightarrow> nat \<Rightarrow> bits \<Rightarrow> int list \<Rightarrow> (bits \<times> int list) option" where
  "ref_blocks is_last dmax b out =
     (if is_last then Some (align b, out)
      else (case take_bits 1 b of
              None \<Rightarrow> None
            | Some (l, b) \<Rightarrow> (case take_bits 2 b of
                  None \<Rightarrow> None
                | Some (kind, b) \<Rightarrow> (case ref_block dmax kind b out of
                      None \<Rightarrow> None
                    | Some (b, out) \<Rightarrow> ref_blocks (l = 1) dmax b out))))"
  by pat_completeness auto
termination
proof (relation "measure (\<lambda>(is_last, dmax, b, out). fst b)")
  fix is_last :: bool and dmax :: nat and b :: bits and out :: "int list" and x l and b' :: bits and y kind and b'' :: bits
    and z and b''' :: bits and out'
  assume a: "\<not> is_last" "take_bits 1 b = Some x" "(l, b') = x" "take_bits 2 b' = Some y" "(kind, b'') = y"
    "ref_block dmax kind b'' out = Some z" "(b''', out') = z"
  have "fst b' < fst b" using a(2,3) by (auto simp: take_bits_def split: prod.splits if_splits)
  moreover have "fst b'' \<le> fst b'" using a(4,5) take_bits_less by fastforce
  moreover have "fst b''' \<le> fst b''" using a(6,7) ref_block_le by fastforce
  ultimately show "((l = 1, dmax, b''', out'), (is_last, dmax, b, out)) \<in> measure (\<lambda>(is_last, dmax, b, out). fst b)" by simp
qed simp

declare ref_blocks.simps [simp del]

end
