(* ===== verification/InflateBits.thy ===== *)
theory InflateBits
  imports Inflate DeflateFormat
begin

text \<open>
  The bit buffer of \<open>inflate\<close> and the bytes it has not read yet are one bit stream: pulling a byte does
  not change it, and dropping bits takes them from it. The input that later calls will bring is a
  parameter of that bitstream.
\<close>

section \<open>The bitstream\<close>

definition unread :: "run \<Rightarrow> int list" where
  "unread r = take (r_have r) (drop (r_next r) (r_input r))"

definition bitstream :: "run \<Rightarrow> int list \<Rightarrow> bits" where
  "bitstream r F = (r_bits r + 8 * (r_have r + length F), nat (r_hold r) + 2 ^ r_bits r * bytes_value (unread r @ F))"

definition is_bytes :: "int list \<Rightarrow> bool" where
  "is_bytes bs \<longleftrightarrow> (\<forall>b \<in> set bs. 0 \<le> b \<and> b < 256)"

definition buffer_ok :: "run \<Rightarrow> bool" where
  "buffer_ok r \<longleftrightarrow> 0 \<le> r_hold r \<and> r_hold r < 2 ^ r_bits r \<and> r_bits r \<le> 31 \<and>
     r_next r + r_have r \<le> length (r_input r) \<and> is_bytes (r_input r)"

text \<open>What an operation on the buffer leaves alone, and that it only moves forward in the input.\<close>

definition same_but_buffer :: "run \<Rightarrow> run \<Rightarrow> bool" where
  "same_but_buffer r r' \<longleftrightarrow> r_strm r' = r_strm r \<and> r_state r' = r_state r \<and> r_fixed r' = r_fixed r \<and>
     r_input r' = r_input r \<and> r_output r' = r_output r \<and> r_put r' = r_put r \<and> r_left r' = r_left r \<and>
     r_in r' = r_in r \<and> r_out r' = r_out r \<and> r_ret r' = r_ret r \<and>
     r_have r' + r_next r' = r_have r + r_next r \<and> r_have r' \<le> r_have r"

lemma same_but_buffer_refl [simp]: "same_but_buffer r r"
  by (simp add: same_but_buffer_def)

lemma same_but_buffer_trans [trans]:
  "same_but_buffer r r' \<Longrightarrow> same_but_buffer r' r'' \<Longrightarrow> same_but_buffer r r''"
  by (simp add: same_but_buffer_def)

lemma bytes_value_append: "bytes_value (xs @ ys) = bytes_value xs + 2 ^ (8 * length xs) * bytes_value ys"
  by (induction xs) (simp_all add: power_add algebra_simps)

lemma is_bytes_simps [simp]: "is_bytes []" "is_bytes (b # bs) \<longleftrightarrow> 0 \<le> b \<and> b < 256 \<and> is_bytes bs"
  "is_bytes (xs @ ys) \<longleftrightarrow> is_bytes xs \<and> is_bytes ys"
  by (auto simp: is_bytes_def)

lemma is_bytes_nth: "is_bytes xs \<Longrightarrow> i < length xs \<Longrightarrow> 0 \<le> xs ! i \<and> xs ! i < 256"
  by (auto simp: is_bytes_def)

lemma is_bytes_update: "is_bytes xs \<Longrightarrow> 0 \<le> b \<Longrightarrow> b < 256 \<Longrightarrow> is_bytes (xs[i := b])"
  by (auto simp: is_bytes_def dest: set_update_subset_insert [THEN subsetD])

lemma is_bytes_take: "is_bytes xs \<Longrightarrow> is_bytes (take n xs)"
  by (auto simp: is_bytes_def dest: in_set_takeD)

lemma is_bytes_drop: "is_bytes xs \<Longrightarrow> is_bytes (drop n xs)"
  by (auto simp: is_bytes_def dest: in_set_dropD)

lemma at_byte: "is_bytes xs \<Longrightarrow> 0 \<le> at xs i \<and> at xs i < 256"
  using is_bytes_nth [of xs i] by (simp add: at_def)

section \<open>Pulling bytes\<close>

lemma shift_add:
  fixes hold b :: int
  assumes "0 \<le> hold" "hold < 2 ^ n" "0 \<le> b" "b < 256"
  shows "0 \<le> hold + b * 2 ^ n" "hold + b * 2 ^ n < 2 ^ (n + 8)"
proof -
  show "0 \<le> hold + b * 2 ^ n" using assms by simp
  have "b * 2 ^ n \<le> 255 * 2 ^ n" using assms by (intro mult_right_mono) auto
  then have "hold + b * 2 ^ n < 256 * 2 ^ n" using assms(2) by linarith
  then show "hold + b * 2 ^ n < 2 ^ (n + 8)" by (simp add: power_add)
qed

lemma unread_Cons:
  assumes "0 < r_have r" "r_next r + r_have r \<le> length (r_input r)"
  shows "unread r = at (r_input r) (r_next r) # unread (pull_byte r)"
  using assms by (cases "r_have r") (auto simp: unread_def pull_byte_def at_def Cons_nth_drop_Suc [symmetric])

lemma pull_byte_frame: "0 < r_have r \<Longrightarrow> same_but_buffer r (pull_byte r)"
  by (auto simp: same_but_buffer_def pull_byte_def)

lemma pull_byte_sel: "r_bits (pull_byte r) = r_bits r + 8" "r_have (pull_byte r) = r_have r - 1" "r_next (pull_byte r) = r_next r + 1"
  "r_input (pull_byte r) = r_input r"
  by (simp_all add: pull_byte_def)

lemma pull_byte_ok:
  assumes "buffer_ok r" "0 < r_have r" "r_bits r \<le> 23"
  shows "buffer_ok (pull_byte r)" "bitstream (pull_byte r) F = bitstream r F"
proof -
  let ?b = "at (r_input r) (r_next r)"
  have b: "0 \<le> ?b" "?b < 256" using at_byte assms(1) by (auto simp: buffer_ok_def)
  have h: "0 \<le> r_hold r" "r_hold r < 2 ^ r_bits r" using assms(1) by (auto simp: buffer_ok_def)
  note sa = shift_add [OF h b]
  have "?b * 2 ^ r_bits r < 2147483648"
    using sa h(1) power_increasing [of "r_bits r + 8" 31 "2::int"] assms(3) by simp
  then have s: "js_shl ?b (r_bits r) = ?b * 2 ^ r_bits r" using b assms(3) by (intro js_shl_mult) auto
  have hold: "r_hold (pull_byte r) = r_hold r + ?b * 2 ^ r_bits r" by (simp add: pull_byte_def s)
  show "buffer_ok (pull_byte r)" using sa assms by (simp add: buffer_ok_def hold pull_byte_sel)
  have u: "unread r = ?b # unread (pull_byte r)" using assms(1,2) by (intro unread_Cons) (auto simp: buffer_ok_def)
  have n: "nat (r_hold r + ?b * 2 ^ r_bits r) = nat (r_hold r) + nat ?b * 2 ^ r_bits r"
    using h b by (simp add: nat_add_distrib nat_mult_distrib nat_power_eq)
  show "bitstream (pull_byte r) F = bitstream r F"
    using assms(2) by (simp add: bitstream_def hold pull_byte_sel u n power_add algebra_simps)
qed

text \<open>\<open>needbits\<close> up to 24 bits: there are enough bits then, or no input is left.\<close>

lemma needbits_ok:
  assumes "buffer_ok r" "n \<le> 24"
  shows "case needbits n r of
      Inl r' \<Rightarrow> same_but_buffer r r' \<and> buffer_ok r' \<and> r_have r' = 0 \<and> r_bits r \<le> r_bits r' \<and> r_bits r' < n \<and> (\<forall>F. bitstream r' F = bitstream r F)
    | Inr r' \<Rightarrow> same_but_buffer r r' \<and> buffer_ok r' \<and> n \<le> r_bits r' \<and> (\<forall>F. bitstream r' F = bitstream r F) \<and>
        (r_bits r' = r_bits r \<or> r_bits r < n \<and> r_bits r' < n + 8)"
  using assms
proof (induction n r rule: needbits.induct)
  case (1 n r)
  show ?case
  proof (cases "r_bits r < n \<and> r_have r \<noteq> 0")
    case True
    then have p: "buffer_ok (pull_byte r)" "\<And>F. bitstream (pull_byte r) F = bitstream r F" "same_but_buffer r (pull_byte r)"
      using pull_byte_ok [of r] pull_byte_frame [of r] "1.prems" by auto
    have "needbits n r = needbits n (pull_byte r)" using True by (subst needbits.simps) simp
    then show ?thesis
      using "1.IH" [OF _ _ p(1) "1.prems"(2)] True p pull_byte_sel(1) [of r] same_but_buffer_trans [OF p(3)]
      by (auto split: sum.splits)
  next
    case False
    then show ?thesis using "1.prems" by (subst needbits.simps) auto
  qed
qed

lemma needbits_Inl:
  assumes "needbits n r = Inl r'" "buffer_ok r" "n \<le> 24"
  shows "same_but_buffer r r'" "buffer_ok r'" "r_have r' = 0" "r_bits r \<le> r_bits r'" "r_bits r' < n" "bitstream r' F = bitstream r F"
  using needbits_ok [OF assms(2,3)] assms(1) by simp_all

lemma needbits_Inr:
  assumes "needbits n r = Inr r'" "buffer_ok r" "n \<le> 24"
  shows "same_but_buffer r r'" "buffer_ok r'" "n \<le> r_bits r'" "bitstream r' F = bitstream r F"
    "r_bits r' = r_bits r \<or> r_bits r < n \<and> r_bits r' < n + 8"
  using needbits_ok [OF assms(2,3)] assms(1) by simp_all

section \<open>Dropping bits\<close>

lemma mod_add_mult_power: "n \<le> b \<Longrightarrow> (h + 2 ^ b * x) mod 2 ^ n = h mod (2 ^ n :: nat)"
proof -
  assume "n \<le> b"
  then obtain k where "b = n + k" using le_Suc_ex by blast
  then show ?thesis by (simp add: power_add mult.assoc)
qed

lemma div_add_mult_power: "n \<le> b \<Longrightarrow> (h + 2 ^ b * x) div 2 ^ n = h div 2 ^ n + 2 ^ (b - n) * (x :: nat)"
proof -
  assume "n \<le> b"
  then obtain k where "b = n + k" using le_Suc_ex by blast
  then show ?thesis by (simp add: power_add mult.assoc)
qed

lemma bits_of_mod: "n \<le> 31 \<Longrightarrow> bits_of n r = nat (r_hold r mod 2 ^ n)"
  by (simp add: bits_of_def js_and_mask)

lemma bits_of_nat: "0 \<le> r_hold r \<Longrightarrow> n \<le> 31 \<Longrightarrow> bits_of n r = nat (r_hold r) mod 2 ^ n"
  by (simp add: bits_of_mod nat_mod_distrib nat_power_eq)

lemma low_bits_nat: "0 \<le> hold \<Longrightarrow> n \<le> 30 \<Longrightarrow> low_bits hold n = nat hold mod 2 ^ n"
proof -
  assume a: "0 \<le> hold" "n \<le> 30"
  have "(2::int) ^ n \<le> 2 ^ 30" using a by (intro power_increasing) auto
  then have "js_shl 1 n = 2 ^ n" using a by (simp add: js_shl_mult)
  then show ?thesis using a by (simp add: low_bits_def js_and_mask nat_mod_distrib nat_power_eq)
qed

lemma hold_less: "buffer_ok r \<Longrightarrow> r_hold r < 2147483648"
proof -
  assume a: "buffer_ok r"
  then have "r_hold r < 2 ^ r_bits r" "r_bits r \<le> 31" by (auto simp: buffer_ok_def)
  moreover from this(2) have "(2::int) ^ r_bits r \<le> 2 ^ 31" by (rule power_increasing) simp
  ultimately show ?thesis by simp
qed

lemma drop_bits_sel: "r_bits (drop_bits n r) = r_bits r - n" "r_have (drop_bits n r) = r_have r" "r_next (drop_bits n r) = r_next r"
  "r_input (drop_bits n r) = r_input r"
  by (simp_all add: drop_bits_def)

lemma drop_bits_frame: "same_but_buffer r (drop_bits n r)"
  by (simp add: same_but_buffer_def drop_bits_def)

lemma drop_bits_hold: "buffer_ok r \<Longrightarrow> n \<le> 31 \<Longrightarrow> r_hold (drop_bits n r) = r_hold r div 2 ^ n"
  using hold_less [of r] by (simp add: drop_bits_def js_ushr_div buffer_ok_def)

lemma drop_bits_ok:
  assumes "buffer_ok r" "n \<le> r_bits r"
  shows "buffer_ok (drop_bits n r)" "take_bits n (bitstream r F) = Some (bits_of n r, bitstream (drop_bits n r) F)"
proof -
  have n: "n \<le> 31" "0 \<le> r_hold r" "r_hold r < 2 ^ r_bits r" using assms by (auto simp: buffer_ok_def)
  note h = drop_bits_hold [OF assms(1) n(1)]
  have "r_hold r div 2 ^ n < 2 ^ (r_bits r - n)"
    using n assms(2) by (intro div_upto [where m = "2 ^ r_bits r"]) (auto simp flip: power_add)
  then show "buffer_ok (drop_bits n r)"
    using assms n by (auto simp: buffer_ok_def h drop_bits_sel pos_imp_zdiv_nonneg_iff)
  have u: "unread (drop_bits n r) = unread r" by (simp add: unread_def drop_bits_sel)
  show "take_bits n (bitstream r F) = Some (bits_of n r, bitstream (drop_bits n r) F)"
    using assms(2) n
    by (simp add: take_bits_def bitstream_def h drop_bits_sel u bits_of_nat mod_add_mult_power div_add_mult_power nat_div_distrib
        nat_power_eq)
qed

lemma take_bits_short: "fst b < n \<Longrightarrow> take_bits n b = None"
  by (auto simp: take_bits_def split: prod.splits)

lemma fst_bitstream [simp]: "fst (bitstream r F) = r_bits r + 8 * (r_have r + length F)"
  by (simp add: bitstream_def)

text \<open>Alignment drops what is over the last whole byte.\<close>

lemma byte_bits_ok:
  assumes "buffer_ok r"
  shows "buffer_ok (byte_bits r)" "bitstream (byte_bits r) F = align (bitstream r F)"
proof -
  have m: "r_bits r mod 8 \<le> r_bits r" by simp
  show "buffer_ok (byte_bits r)" unfolding byte_bits_def by (rule drop_bits_ok(1) [OF assms m])
  have e: "(r_bits r + 8 * (r_have r + length F)) mod 8 = r_bits r mod 8" by (rule mod_mult_self2)
  have "take_bits (r_bits r mod 8) (bitstream r F) = Some (bits_of (r_bits r mod 8) r, bitstream (byte_bits r) F)"
    unfolding byte_bits_def by (rule drop_bits_ok(2) [OF assms m])
  then show "bitstream (byte_bits r) F = align (bitstream r F)"
    using e by (auto simp: take_bits_def align_def bitstream_def split: if_splits)
qed

lemma byte_bits_frame: "same_but_buffer r (byte_bits r)"
  by (simp add: byte_bits_def drop_bits_frame)

lemma byte_bits_bits: "r_bits (byte_bits r) = r_bits r div 8 * 8"
  by (simp add: byte_bits_def drop_bits_sel minus_mod_eq_div_mult)

text \<open>Operations on the state do not touch the stream.\<close>

lemma bitstream_cong:
  "r_bits r' = r_bits r \<Longrightarrow> r_hold r' = r_hold r \<Longrightarrow> r_have r' = r_have r \<Longrightarrow> r_next r' = r_next r \<Longrightarrow> r_input r' = r_input r \<Longrightarrow>
    bitstream r' F = bitstream r F"
  by (simp add: bitstream_def unread_def)

end
