(* ===== verification/InflateDecode.thy ===== *)
theory InflateDecode
  imports HuffmanCode
begin

text \<open>
  That \<open>inflate_table\<close> decodes the canonical Huffman code: the invariant of the loop that fills the
  root table and its sub-tables, what a lookup finds in a finished table, and the whole function.
\<close>

section \<open>The size of a sub-table\<close>

text \<open>The number of codes of a length among those from the \<open>i\<close>-th on.\<close>

definition rest :: "(nat \<Rightarrow> nat) \<Rightarrow> nat list \<Rightarrow> nat \<Rightarrow> nat \<Rightarrow> nat" where
  "rest f ws i l = length (filter (\<lambda>s. f s = l) (drop i ws))"

lemma rest_Suc: "i < length ws \<Longrightarrow> rest f ws i l = rest f ws (Suc i) l + (if f (ws ! i) = l then 1 else 0)"
  by (simp add: rest_def Cons_nth_drop_Suc [symmetric])

lemma rest_pos: "0 < rest f ws i l \<longleftrightarrow> (\<exists>k. i \<le> k \<and> k < length ws \<and> f (ws ! k) = l)"
proof -
  have "0 < rest f ws i l \<longleftrightarrow> (\<exists>s \<in> set (drop i ws). f s = l)" by (auto simp: rest_def filter_empty_conv)
  also have "\<dots> \<longleftrightarrow> (\<exists>k. i \<le> k \<and> k < length ws \<and> f (ws ! k) = l)"
  proof
    assume "\<exists>s \<in> set (drop i ws). f s = l"
    then obtain k where "k < length ws - i" "f (ws ! (i + k)) = l" by (auto simp: in_set_conv_nth)
    then show "\<exists>k. i \<le> k \<and> k < length ws \<and> f (ws ! k) = l" by (intro exI [of _ "i + k"]) auto
  next
    assume "\<exists>k. i \<le> k \<and> k < length ws \<and> f (ws ! k) = l"
    then obtain k where k: "i \<le> k" "k < length ws" "f (ws ! k) = l" by blast
    then have "ws ! k \<in> set (drop i ws)" by (auto simp: in_set_conv_nth intro!: exI [of _ "k - i"])
    then show "\<exists>s \<in> set (drop i ws). f s = l" using k by blast
  qed
  finally show ?thesis .
qed

lemma rest_share:
  "(\<Sum>l = a..<b. length (filter (\<lambda>s. f s = l) xs) * 2 ^ (15 - l)) =
    sum_list (map (\<lambda>s. 2 ^ (15 - f s)) (filter (\<lambda>s. a \<le> f s \<and> f s < b) xs))"
proof (induction xs)
  case (Cons x xs)
  have "(\<Sum>l = a..<b. length (filter (\<lambda>s. f s = l) (x # xs)) * 2 ^ (15 - l)) =
      (\<Sum>l = a..<b. length (filter (\<lambda>s. f s = l) xs) * 2 ^ (15 - l)) + (\<Sum>l = a..<b. if f x = l then 2 ^ (15 - l) else 0)"
    by (subst sum.distrib [symmetric]) (rule sum.cong, simp_all)
  then show ?case using Cons.IH by (simp add: sum.delta)
qed simp

text \<open>The loop stops at the longest length, or when the remaining codes fill the sub-table.\<close>

lemma sub_table_bits_spec:
  assumes "r + cur \<le> 15" and "max_len \<le> 15" and "a \<le> r + cur"
    and "left * 2 ^ (15 - (r + cur)) + (\<Sum>l = a..<r + cur. count ! l * 2 ^ (15 - l)) = (2::int) ^ (15 - r)"
  shows "cur \<le> sub_table_bits count max_len r cur left \<and> r + sub_table_bits count max_len r cur left \<le> 15 \<and>
    (max_len \<le> r + sub_table_bits count max_len r cur left \<or>
      2 ^ (15 - r) \<le> (\<Sum>l = a..<r + sub_table_bits count max_len r cur left + 1. count ! l * 2 ^ (15 - l)))"
  using assms
proof (induction count max_len r cur left rule: sub_table_bits.induct)
  case (1 count max_len r cur left)
  let ?left = "left - count ! (cur + r)"
  show ?case
  proof (cases "cur + r < max_len")
    case True
    have e: "?left * 2 ^ (15 - (r + cur)) + (\<Sum>l = a..<r + cur + 1. count ! l * 2 ^ (15 - l)) = (2::int) ^ (15 - r)"
      using "1.prems" by (simp add: algebra_simps)
    show ?thesis
    proof (cases "?left \<le> 0")
      case stop: True
      then have "?left * 2 ^ (15 - (r + cur)) \<le> 0" by (simp add: mult_nonpos_nonneg)
      moreover have "sub_table_bits count max_len r cur left = cur"
        using True stop by (subst sub_table_bits.simps) (simp add: Let_def)
      ultimately show ?thesis using e "1.prems"(1) by simp
    next
      case False
      have p: "(2::int) ^ (15 - (r + cur)) = 2 * 2 ^ (15 - (r + (cur + 1)))"
        using True "1.prems"(2) by (simp add: power_Suc [symmetric] Suc_diff_Suc del: power_Suc)
      have s: "sub_table_bits count max_len r cur left = sub_table_bits count max_len r (cur + 1) (2 * ?left)"
        using True False by (subst sub_table_bits.simps) (simp add: Let_def)
      have "2 * ?left * 2 ^ (15 - (r + (cur + 1))) + (\<Sum>l = a..<r + (cur + 1). count ! l * 2 ^ (15 - l)) = (2::int) ^ (15 - r)"
        using e unfolding p by (simp add: algebra_simps)
      note e2 = this
      let ?c = "sub_table_bits count max_len r (cur + 1) (2 * ?left)"
      have "cur + 1 \<le> ?c \<and> r + ?c \<le> 15 \<and>
          (max_len \<le> r + ?c \<or> 2 ^ (15 - r) \<le> (\<Sum>l = a..<r + ?c + 1. count ! l * 2 ^ (15 - l)))"
        by (rule "1.IH" [OF True refl False _ _ _ e2]) (use True "1.prems" in simp_all)
      then show ?thesis unfolding s by (meson add_leD1)
    qed
  next
    case False
    then have "sub_table_bits count max_len r cur left = cur" by (subst sub_table_bits.simps) simp
    then show ?thesis using False "1.prems" by simp
  qed
qed

text \<open>So every code that goes to the sub-table fits.\<close>

lemma sub_table_fits:
  assumes "prefix_code f ws" "i < length ws" "r < f (ws ! i)" and "\<forall>l \<in> {1..15}. count ! l = int (rest f ws i l)"
    and "max_len \<le> 15" "\<forall>k < length ws. f (ws ! k) \<le> max_len"
  defines "c \<equiv> sub_table_bits count max_len r (f (ws ! i) - r) (2 ^ (f (ws ! i) - r))"
  shows "f (ws ! i) \<le> r + c \<and> r + c \<le> 15 \<and>
    (\<forall>k. i \<le> k \<and> k < length ws \<and> starts f ws k div 2 ^ (15 - r) = starts f ws i div 2 ^ (15 - r) \<longrightarrow> f (ws ! k) \<le> r + c)"
proof -
  let ?a = "f (ws ! i)"
  have a: "?a \<le> 15" by (rule prefix_codeD(2) [OF assms(1,2)])
  have s: "?a - r \<le> c \<and> r + c \<le> 15 \<and> (max_len \<le> r + c \<or> 2 ^ (15 - r) \<le> (\<Sum>l = ?a..<r + c + 1. count ! l * 2 ^ (15 - l)))"
    unfolding c_def using assms(3,5) a by (intro sub_table_bits_spec) (simp_all flip: power_add)
  have "f (ws ! k) \<le> r + c"
    if k: "i \<le> k" "k < length ws" "starts f ws k div 2 ^ (15 - r) = starts f ws i div 2 ^ (15 - r)" for k
  proof (rule ccontr)
    assume n: "\<not> f (ws ! k) \<le> r + c"
    then have "\<not> max_len \<le> r + c" using assms(6) k(2) by force
    then have "2 ^ (15 - r) \<le> (\<Sum>l = ?a..<r + c + 1. count ! l * 2 ^ (15 - l))" using s by blast
    also have "\<dots> = (\<Sum>l = ?a..<r + c + 1. int (rest f ws i l * 2 ^ (15 - l)))"
      using assms(4) s prefix_codeD(1) [OF assms(1,2)] by (intro sum.cong) auto
    finally have "int (2 ^ (15 - r)) \<le> int (\<Sum>l = ?a..<r + c + 1. rest f ws i l * 2 ^ (15 - l))"
      by (simp only: of_nat_sum of_nat_power of_nat_numeral)
    then have "2 ^ (15 - r) \<le> (\<Sum>l = ?a..<r + c + 1. rest f ws i l * 2 ^ (15 - l))" by (simp only: of_nat_le_iff)
    also have "\<dots> = sum_list (map (\<lambda>s. 2 ^ (15 - f s)) (filter (\<lambda>s. ?a \<le> f s \<and> f s < r + c + 1) (drop i ws)))"
      unfolding rest_def by (rule rest_share)
    also have "filter (\<lambda>s. ?a \<le> f s \<and> f s < r + c + 1) (drop i ws) =
        filter (\<lambda>s. ?a \<le> f s \<and> f s < r + c + 1) (take (k - i) (drop i ws))"
    proof -
      have d: "drop i ws = take (k - i) (drop i ws) @ drop k ws" using k by (metis append_take_drop_id drop_drop le_add_diff_inverse2)
      have "f s > r + c" if s_in: "s \<in> set (drop k ws)" for s
      proof -
        obtain m where "m < length (drop k ws)" "drop k ws ! m = s" using s_in by (meson in_set_conv_nth)
        then have m: "m < length ws - k" "s = ws ! (k + m)" using k(2) by auto
        then have "f (ws ! k) \<le> f s" using prefix_codeD(3) [OF assms(1) k(2), of "k + m"] by simp
        then show ?thesis using n by simp
      qed
      then have "filter (\<lambda>s. ?a \<le> f s \<and> f s < r + c + 1) (drop k ws) = []" by (auto simp: filter_empty_conv not_less Suc_le_eq)
      then show ?thesis by (subst d) simp
    qed
    also have "sum_list (map (\<lambda>s. 2 ^ (15 - f s)) (filter (\<lambda>s. ?a \<le> f s \<and> f s < r + c + 1) (take (k - i) (drop i ws)))) \<le>
        sum_list (map (\<lambda>s. (2::nat) ^ (15 - f s)) (take (k - i) (drop i ws)))"
      by (rule sum_list_filter_le_nat)
    also have "\<dots> = starts f ws k - starts f ws i"
      using k(1) take_add [of i "k - i" ws] by (simp add: starts_def)
    finally have "starts f ws i + 2 ^ (15 - r) \<le> starts f ws k" using starts_mono [OF k(1), of f ws] by simp
    then have "(starts f ws i + 2 ^ (15 - r)) div 2 ^ (15 - r) \<le> starts f ws k div 2 ^ (15 - r)" by (rule div_le_mono)
    then show False using k(3) div_add_self2 [of "2 ^ (15 - r)" "starts f ws i"] by simp
  qed
  then show ?thesis using s assms(3) by auto
qed

section \<open>The invariant of the loop\<close>

text \<open>The entry of a symbol, \<open>b\<close> of whose bits lead to it.\<close>

definition symbol_word :: "code_type \<Rightarrow> nat list \<Rightarrow> nat \<Rightarrow> nat \<Rightarrow> int" where
  "symbol_word type work s b = table_entry b (fst (symbol_entry type work s)) (snd (symbol_entry type work s))"

text \<open>
  The \<open>j\<close>-th symbol is in the table: in the root table, or in the sub-table that the root entry for
  its first \<open>r\<close> bits points to. A sub-table is the current one or lies before it.
\<close>

definition in_sub_table :: "code_type \<Rightarrow> nat list \<Rightarrow> (nat \<Rightarrow> nat) \<Rightarrow> nat list \<Rightarrow> nat \<Rightarrow> table_build \<Rightarrow> nat \<Rightarrow> nat \<Rightarrow> nat \<Rightarrow> bool" where
  "in_sub_table type work f ws r t j nx cb \<longleftrightarrow>
     (let l = f (ws ! j); h = hcode f ws j
      in tb_table t ! (h mod 2 ^ r) = table_entry r cb nx \<and> 2 ^ r \<le> nx \<and> nx + 2 ^ cb \<le> tb_used t \<and> l \<le> r + cb \<and> cb \<le> 15 \<and>
         (\<forall>x < 2 ^ cb. x mod 2 ^ (l - r) = h div 2 ^ r \<longrightarrow> tb_table t ! (nx + x) = symbol_word type work (ws ! j) (l - r)) \<and>
         (if int (h mod 2 ^ r) = tb_low t then nx = tb_next t \<and> cb = tb_curr t else nx + 2 ^ cb \<le> tb_next t))"

definition entered :: "code_type \<Rightarrow> nat list \<Rightarrow> (nat \<Rightarrow> nat) \<Rightarrow> nat list \<Rightarrow> nat \<Rightarrow> table_build \<Rightarrow> nat \<Rightarrow> bool" where
  "entered type work f ws r t j \<longleftrightarrow>
     (if f (ws ! j) \<le> r
      then \<forall>x < 2 ^ r. x mod 2 ^ f (ws ! j) = hcode f ws j \<longrightarrow> tb_table t ! x = symbol_word type work (ws ! j) (f (ws ! j))
      else \<exists>nx cb. in_sub_table type work f ws r t j nx cb)"

text \<open>The table being filled: the root table, or the sub-table for the next code, where all codes fit that go there.\<close>

definition filling_root :: "nat \<Rightarrow> table_build \<Rightarrow> bool" where
  "filling_root r t \<longleftrightarrow> tb_drop t = 0 \<and> tb_next t = 0 \<and> tb_curr t = r \<and> tb_used t = 2 ^ r \<and> tb_low t = - 1"

definition filling_sub :: "(nat \<Rightarrow> nat) \<Rightarrow> nat list \<Rightarrow> nat \<Rightarrow> nat \<Rightarrow> table_build \<Rightarrow> bool" where
  "filling_sub f ws r i t \<longleftrightarrow> tb_drop t = r \<and> tb_low t = int (hcode f ws i mod 2 ^ r) \<and>
     tb_table t ! (hcode f ws i mod 2 ^ r) = table_entry r (tb_curr t) (tb_next t) \<and>
     2 ^ r \<le> tb_next t \<and> tb_next t + 2 ^ tb_curr t = tb_used t \<and> tb_curr t \<le> 15 \<and>
     (\<forall>k. i \<le> k \<and> k < length ws \<and> starts f ws k div 2 ^ (15 - r) = starts f ws i div 2 ^ (15 - r) \<longrightarrow> f (ws ! k) \<le> r + tb_curr t)"

definition filling :: "(nat \<Rightarrow> nat) \<Rightarrow> nat list \<Rightarrow> nat \<Rightarrow> nat \<Rightarrow> table_build \<Rightarrow> bool" where
  "filling f ws r i t \<longleftrightarrow> (if f (ws ! i) \<le> r then filling_root r t else filling_sub f ws r i t)"

text \<open>Entering a symbol leaves the earlier ones alone.\<close>

lemma entered_root:
  assumes p: "prefix_code f ws" "i < length ws" "f (ws ! i) \<le> r" and fr: "filling_root r t"
    and t: "tb_len t = f (ws ! i)" "tb_huff t = hcode f ws i" "work ! tb_sym t = ws ! i"
    and T: "2 ^ r \<le> length (tb_table t)"
    and e: "\<forall>j < i. entered type work f ws r t j"
  shows "\<exists>table. enter_symbol type work t = Some (t\<lparr>tb_table := table\<rparr>) \<and> length table = length (tb_table t) \<and>
    (\<forall>j \<le> i. entered type work f ws r (t\<lparr>tb_table := table\<rparr>) j)"
proof -
  let ?l = "f (ws ! i)" and ?h = "hcode f ws i"
  let ?w = "symbol_word type work (ws ! i) ?l"
  obtain table where f: "fill_entries (0 + ?h) (2 ^ ?l) (2 ^ r) ?w (tb_table t) = Some table" "length table = length (tb_table t)"
      "\<forall>x < length (tb_table t). table ! x = (if 0 \<le> x \<and> x < 0 + 2 ^ r \<and> (x - 0) mod 2 ^ ?l = ?h then ?w else tb_table t ! x)"
    using fill_entries_mod [OF hcode_less [OF p(1,2)] p(3)] by blast
  have "enter_symbol type work t = Some (t\<lparr>tb_table := table\<rparr>)"
    using f(1) fr t by (simp add: enter_symbol_def filling_root_def symbol_word_def case_prod_beta)
  moreover have "entered type work f ws r (t\<lparr>tb_table := table\<rparr>) j" if j: "j \<le> i" for j
  proof (cases "j = i")
    case True
    then show ?thesis using f(3) p(3) T by (simp add: entered_def Let_def)
  next
    case False
    then have ji: "j < i" using j by simp
    have lj: "f (ws ! j) \<le> ?l" using prefix_codeD(3) [OF p(1), of j i] ji p(2) by simp
    have "table ! x = tb_table t ! x" if x: "x < 2 ^ r" "x mod 2 ^ f (ws ! j) = hcode f ws j" for x
    proof -
      have "x mod 2 ^ ?l \<noteq> ?h"
      proof
        assume "x mod 2 ^ ?l = ?h"
        then have "?h mod 2 ^ f (ws ! j) = x mod 2 ^ f (ws ! j)" using mod_mod_cancel [OF le_imp_power_dvd [OF lj]] by metis
        then show False using prefix_free [OF p(1) ji p(2)] x(2) by simp
      qed
      then show ?thesis using f(3) x(1) T by simp
    qed
    then show ?thesis using e ji lj p(3) by (auto simp: entered_def Let_def)
  qed
  ultimately show ?thesis using f(2) by blast
qed

lemma hcode_split:
  assumes "prefix_code f ws" "i < length ws" "r < f (ws ! i)"
  shows "hcode f ws i div 2 ^ r < 2 ^ (f (ws ! i) - r)" "hcode f ws i mod 2 ^ r + 2 ^ r * (hcode f ws i div 2 ^ r) = hcode f ws i"
proof -
  have "(2::nat) ^ f (ws ! i) = 2 ^ (f (ws ! i) - r) * 2 ^ r" using assms(3) by (simp flip: power_add)
  then show "hcode f ws i div 2 ^ r < 2 ^ (f (ws ! i) - r)"
    using hcode_less [OF assms(1,2)] by (simp add: less_mult_imp_div_less)
  show "hcode f ws i mod 2 ^ r + 2 ^ r * (hcode f ws i div 2 ^ r) = hcode f ws i" by (simp add: mult.commute)
qed

text \<open>Two numbers with the same low \<open>r\<close> bits and the same \<open>m\<close> bits above them.\<close>

lemma mod_split:
  fixes a b :: nat
  assumes "a mod 2 ^ r = b mod 2 ^ r" "a div 2 ^ r mod 2 ^ m = b div 2 ^ r mod 2 ^ m"
  shows "a mod 2 ^ (r + m) = b mod 2 ^ (r + m)"
  using assms by (simp add: power_add mod_mult2_eq)

lemma entered_sub:
  assumes p: "prefix_code f ws" "i < length ws" "r < f (ws ! i)" and fs: "filling_sub f ws r i t"
    and t: "tb_len t = f (ws ! i)" "tb_huff t = hcode f ws i" "work ! tb_sym t = ws ! i"
    and T: "tb_used t \<le> length (tb_table t)" and r: "0 < r"
    and e: "\<forall>j < i. entered type work f ws r t j"
  shows "\<exists>table. enter_symbol type work t = Some (t\<lparr>tb_table := table\<rparr>) \<and> length table = length (tb_table t) \<and>
    filling_sub f ws r i (t\<lparr>tb_table := table\<rparr>) \<and> (\<forall>j \<le> i. entered type work f ws r (t\<lparr>tb_table := table\<rparr>) j)"
proof -
  let ?l = "f (ws ! i)" and ?h = "hcode f ws i" and ?n = "tb_next t" and ?c = "tb_curr t"
  let ?w = "symbol_word type work (ws ! i) (?l - r)"
  have fs': "tb_drop t = r" "tb_low t = int (?h mod 2 ^ r)" "tb_table t ! (?h mod 2 ^ r) = table_entry r ?c ?n"
      "2 ^ r \<le> ?n" "?n + 2 ^ ?c = tb_used t" "?c \<le> 15" "?l \<le> r + ?c"
    using fs p(2) by (auto simp: filling_sub_def)
  have lr: "?l - r \<le> ?c" using fs'(7) by simp
  obtain table where f: "fill_entries (?n + ?h div 2 ^ r) (2 ^ (?l - r)) (2 ^ ?c) ?w (tb_table t) = Some table"
      "length table = length (tb_table t)"
      "\<forall>x < length (tb_table t). table ! x =
        (if ?n \<le> x \<and> x < ?n + 2 ^ ?c \<and> (x - ?n) mod 2 ^ (?l - r) = ?h div 2 ^ r then ?w else tb_table t ! x)"
    using fill_entries_mod [OF hcode_split(1) [OF p] lr] by blast
  have "enter_symbol type work t = Some (t\<lparr>tb_table := table\<rparr>)"
    using f(1) fs'(1) t by (simp add: enter_symbol_def symbol_word_def case_prod_beta drop_bit_eq_div)
  moreover have low: "table ! x = tb_table t ! x" if "x < ?n" for x
    using f(3) that fs' T by simp
  have root_low: "x mod 2 ^ r < ?n" for x using fs'(4) by (rule less_le_trans [rotated]) simp
  have "filling_sub f ws r i (t\<lparr>tb_table := table\<rparr>)"
    using fs low [OF root_low] by (simp add: filling_sub_def)
  moreover have "entered type work f ws r (t\<lparr>tb_table := table\<rparr>) i"
  proof -
    have "table ! (?n + x) = ?w" if "x < 2 ^ ?c" "x mod 2 ^ (?l - r) = ?h div 2 ^ r" for x
      using f(3) that fs'(5) T by simp
    then have "in_sub_table type work f ws r (t\<lparr>tb_table := table\<rparr>) i ?n ?c"
      using fs' low [OF root_low] by (simp add: in_sub_table_def Let_def)
    then show ?thesis using p(3) unfolding entered_def by auto
  qed
  moreover have "entered type work f ws r (t\<lparr>tb_table := table\<rparr>) j" if ji: "j < i" for j
  proof (cases "f (ws ! j) \<le> r")
    case True
    have "table ! x = tb_table t ! x" if "x < 2 ^ r" for x using low that fs'(4) by simp
    then show ?thesis using e ji True by (simp add: entered_def Let_def)
  next
    case False
    let ?k = "f (ws ! j)" and ?g = "hcode f ws j"
    have k: "r < ?k" "j < length ws" using False ji p(2) by auto
    obtain nx cb where n: "tb_table t ! (?g mod 2 ^ r) = table_entry r cb nx" "2 ^ r \<le> nx" "nx + 2 ^ cb \<le> tb_used t"
        "?k \<le> r + cb" "cb \<le> 15"
        "\<forall>x < 2 ^ cb. x mod 2 ^ (?k - r) = ?g div 2 ^ r \<longrightarrow> tb_table t ! (nx + x) = symbol_word type work (ws ! j) (?k - r)"
        "if int (?g mod 2 ^ r) = tb_low t then nx = ?n \<and> cb = ?c else nx + 2 ^ cb \<le> ?n"
      using e [rule_format, OF ji] unfolding entered_def in_sub_table_def Let_def if_not_P [OF False] by blast
    have keep: "table ! (nx + x) = tb_table t ! (nx + x)" if x: "x < 2 ^ cb" "x mod 2 ^ (?k - r) = ?g div 2 ^ r" for x
    proof (cases "int (?g mod 2 ^ r) = tb_low t")
      case True
      then have s: "nx = ?n" "cb = ?c" and m: "?g mod 2 ^ r = ?h mod 2 ^ r" using n(7) fs'(2) by auto
      have "x mod 2 ^ (?l - r) \<noteq> ?h div 2 ^ r"
      proof
        assume "x mod 2 ^ (?l - r) = ?h div 2 ^ r"
        moreover have "?k \<le> ?l" using prefix_codeD(3) [OF p(1) k(2), of i] ji p(2) by simp
        then have "(2::nat) ^ (?k - r) dvd 2 ^ (?l - r)" by (intro le_imp_power_dvd) simp
        ultimately have "?h div 2 ^ r mod 2 ^ (?k - r) = x mod 2 ^ (?k - r)" by (metis mod_mod_cancel)
        then have "?h div 2 ^ r mod 2 ^ (?k - r) = ?g div 2 ^ r mod 2 ^ (?k - r)"
          using x(2) hcode_split(1) [OF p(1) k(2,1)] by simp
        from mod_split [OF m [symmetric] this] have "?h mod 2 ^ ?k = ?g mod 2 ^ ?k" using k(1) by simp
        then show False using prefix_free [OF p(1) ji p(2)] hcode_less [OF p(1) k(2)] by simp
      qed
      then show ?thesis using f(3) s x(1) fs'(5) T by simp
    next
      case False
      then show ?thesis using low n(7) x(1) by simp
    qed
    have "table ! (?g mod 2 ^ r) = tb_table t ! (?g mod 2 ^ r)" by (rule low [OF root_low])
    then have "in_sub_table type work f ws r (t\<lparr>tb_table := table\<rparr>) j nx cb"
      using n keep by (simp add: in_sub_table_def Let_def)
    then show ?thesis using False unfolding entered_def by auto
  qed
  ultimately show ?thesis using f(2) by (metis le_neq_implies_less)
qed

text \<open>The state of the loop before the \<open>i\<close>-th symbol.\<close>

definition counted :: "(nat \<Rightarrow> nat) \<Rightarrow> nat list \<Rightarrow> nat \<Rightarrow> table_build \<Rightarrow> bool" where
  "counted f ws i t \<longleftrightarrow> length (tb_count t) = 16 \<and> (\<forall>l \<in> {1..15}. tb_count t ! l = int (rest f ws i l)) \<and>
     tb_used t \<le> length (tb_table t) \<and> tb_used t \<le> 2 ^ 15 \<and> tb_huff t = hcode f ws i \<and> tb_sym t = i"

definition building :: "code_type \<Rightarrow> nat list \<Rightarrow> (nat \<Rightarrow> nat) \<Rightarrow> nat list \<Rightarrow> nat \<Rightarrow> nat \<Rightarrow> table_build \<Rightarrow> bool" where
  "building type work f ws r i t \<longleftrightarrow> counted f ws i t \<and> tb_len t = f (ws ! i) \<and> filling f ws r i t \<and>
     (\<forall>j < i. entered type work f ws r t j)"

text \<open>There is room: no sub-table is needed, or the check against \<open>ENOUGH\<close> protects the table.\<close>

definition roomy :: "code_type \<Rightarrow> (nat \<Rightarrow> nat) \<Rightarrow> nat list \<Rightarrow> nat \<Rightarrow> nat \<Rightarrow> bool" where
  "roomy type f ws r T \<longleftrightarrow> (\<forall>k < length ws. f (ws ! k) \<le> r) \<or> (\<forall>u. \<not> exceeds type u \<longrightarrow> u \<le> T \<and> u \<le> 2 ^ 15)"

lemma new_sub_table_ok:
  assumes p: "prefix_code f ws" "Suc i < length ws" and r: "0 < r"
    and len: "tb_len t = f (ws ! Suc i)" and c: "counted f ws (Suc i) t"
    and fl: "filling f ws r i t" and e: "\<forall>j \<le> i. entered type work f ws r t j"
    and mx: "max_len \<le> 15" "\<forall>k < length ws. f (ws ! k) \<le> max_len" and room: "roomy type f ws r (length (tb_table t))"
  shows "case new_sub_table type 0 r max_len t of Inl table \<Rightarrow> \<exists>k < length ws. r < f (ws ! k)
    | Inr t' \<Rightarrow> building type work f ws r (Suc i) t' \<and> length (tb_table t') = length (tb_table t)"
proof (cases "f (ws ! Suc i) \<le> r")
  case True
  have "f (ws ! i) \<le> f (ws ! Suc i)" using prefix_codeD(3) [OF p(1), of i "Suc i"] p(2) by simp
  then have "filling f ws r (Suc i) t" using fl True by (simp add: filling_def)
  then show ?thesis using True len c e by (simp add: new_sub_table_def building_def less_Suc_eq_le)
next
  case big: False
  then have big': "r < f (ws ! Suc i)" by simp
  let ?low = "hcode f ws (Suc i) mod 2 ^ r"
  have i: "i < length ws" using p(2) by simp
  have r15: "r \<le> 15" using big' prefix_codeD(2) [OF p] by simp
  have low: "tb_huff t AND (2 ^ r - 1) = ?low" using c by (simp only: counted_def nat_and_mask)
  show ?thesis
  proof (cases "int ?low = tb_low t")
    case same: True
    then have nr: "\<not> filling_root r t" by (auto simp: filling_root_def)
    then have fs: "filling_sub f ws r i t" using fl by (auto simp: filling_def split: if_splits)
    then have m: "hcode f ws i mod 2 ^ r = ?low" using same by (simp add: filling_sub_def)
    then have q: "starts f ws i div 2 ^ (15 - r) = starts f ws (Suc i) div 2 ^ (15 - r)"
      by (rule hcode_mod_eq [OF p(1) i p(2) r15])
    have "filling_sub f ws r (Suc i) t" using fs m q by (simp add: filling_sub_def)
    then have "filling f ws r (Suc i) t" using big by (simp add: filling_def)
    moreover have "new_sub_table type 0 r max_len t = Inr t" using same low by (simp add: new_sub_table_def)
    ultimately show ?thesis using len c e by (simp add: building_def less_Suc_eq_le)
  next
    case new: False
    define cb where "cb = sub_table_bits (tb_count t) max_len r (f (ws ! Suc i) - r) (2 ^ (f (ws ! Suc i) - r))"
    define t' where "t' = t\<lparr>tb_drop := r, tb_next := tb_used t, tb_curr := cb, tb_used := tb_used t + 2 ^ cb, tb_low := int ?low,
        tb_table := (tb_table t)[?low := table_entry r cb (tb_used t)]\<rparr>"
    have shape: "tb_drop t = 0 \<or> tb_drop t = r" "tb_next t + 2 ^ tb_curr t = tb_used t" "2 ^ r \<le> tb_used t"
      using fl by (auto simp: filling_def filling_root_def filling_sub_def split: if_splits)
    have n: "new_sub_table type 0 r max_len t = (if exceeds type (tb_used t + 2 ^ cb) then Inl (tb_table t) else Inr t')"
    proof -
      have d: "(if tb_drop t = 0 then r else tb_drop t) = r" using shape(1) r by auto
      have "r < tb_len t \<and> int (tb_huff t AND (2 ^ r - 1)) \<noteq> tb_low t" using big' len new low by simp
      then show ?thesis
        unfolding new_sub_table_def Let_def d shape(2) by (simp only: if_P simp_thms len low cb_def t'_def diff_zero)
    qed
    have "\<not> (\<forall>k < length ws. f (ws ! k) \<le> r)" using big p(2) by blast
    then have room': "\<not> exceeds type u \<Longrightarrow> u \<le> length (tb_table t) \<and> u \<le> 2 ^ 15" for u using room unfolding roomy_def by blast
    have cr: "\<forall>l \<in> {1..15}. tb_count t ! l = int (rest f ws (Suc i) l)" using c by (simp add: counted_def)
    have fit: "f (ws ! Suc i) \<le> r + cb" "r + cb \<le> 15" "\<forall>k. Suc i \<le> k \<and> k < length ws \<and>
        starts f ws k div 2 ^ (15 - r) = starts f ws (Suc i) div 2 ^ (15 - r) \<longrightarrow> f (ws ! k) \<le> r + cb"
      using sub_table_fits [OF p big' cr mx] by (simp_all add: cb_def)
    have low_less: "?low < 2 ^ r" by simp
    moreover have "2 ^ r \<le> length (tb_table t)" using shape(3) c by (simp add: counted_def)
    ultimately have low_T: "?low < length (tb_table t)" by (rule less_le_trans)
    have "filling_sub f ws r (Suc i) t'"
      using fit shape(3) low_T by (simp add: filling_sub_def t'_def)
    then have fl': "filling f ws r (Suc i) t'" using big by (simp add: filling_def)
    have ent: "entered type work f ws r t' j" if ji: "j \<le> i" for j
    proof (cases "f (ws ! j) \<le> r")
      case True
      have "?low \<noteq> x" if x: "x mod 2 ^ f (ws ! j) = hcode f ws j" for x
      proof
        assume "?low = x"
        then have "hcode f ws (Suc i) mod 2 ^ f (ws ! j) = hcode f ws j"
          using x mod_mod_cancel [OF le_imp_power_dvd [OF True]] by metis
        then show False using prefix_free [OF p(1) _ p(2), of j] ji by simp
      qed
      then show ?thesis using e ji True by (simp add: entered_def t'_def)
    next
      case False
      let ?g = "hcode f ws j"
      have j: "j < length ws" using ji i by simp
      obtain nx cb' where s: "in_sub_table type work f ws r t j nx cb'"
        using e [rule_format, OF ji] False by (auto simp: entered_def)
      have g: "?g mod 2 ^ r \<noteq> ?low"
      proof
        assume g: "?g mod 2 ^ r = ?low"
        then have q: "starts f ws j div 2 ^ (15 - r) = starts f ws (Suc i) div 2 ^ (15 - r)"
          by (rule hcode_mod_eq [OF p(1) j p(2) r15])
        have "starts f ws j div 2 ^ (15 - r) \<le> starts f ws i div 2 ^ (15 - r)"
          "starts f ws i div 2 ^ (15 - r) \<le> starts f ws (Suc i) div 2 ^ (15 - r)"
          using ji by (intro div_le_mono starts_mono; simp)+
        then have "hcode f ws i mod 2 ^ r = ?low" using q by (simp add: hcode_mod [OF r15])
        moreover have "r < f (ws ! i)" using prefix_codeD(3) [OF p(1) j ji i] False by simp
        ultimately show False using fl new by (simp add: filling_def filling_sub_def)
      qed
      have "in_sub_table type work f ws r t' j nx cb'"
      proof -
        have "table_entry r cb' nx = (tb_table t)[?low := v] ! (?g mod 2 ^ r)" for v
          using s g by (simp add: in_sub_table_def Let_def)
        moreover have "2 ^ r \<le> nx" using s by (simp add: in_sub_table_def Let_def)
        then have "?low \<noteq> nx + x" for x using low_less by linarith
        then have "(tb_table t)[?low := v] ! (nx + x) = tb_table t ! (nx + x)" for v x by simp
        moreover have "nx + 2 ^ cb' \<le> tb_used t" using s by (simp add: in_sub_table_def Let_def)
        ultimately show ?thesis using s g by (simp add: in_sub_table_def Let_def t'_def)
      qed
      then show ?thesis using False by (auto simp: entered_def)
    qed
    have "building type work f ws r (Suc i) t'" if "\<not> exceeds type (tb_used t + 2 ^ cb)"
      using room' [OF that] c len fl' ent by (simp add: building_def counted_def t'_def less_Suc_eq_le)
    then show ?thesis unfolding n using big' p(2) by (auto simp: t'_def)
  qed
qed

text \<open>What a finished loop has built.\<close>

definition built :: "code_type \<Rightarrow> nat list \<Rightarrow> (nat \<Rightarrow> nat) \<Rightarrow> nat list \<Rightarrow> nat \<Rightarrow> table_build \<Rightarrow> bool" where
  "built type work f ws r t \<longleftrightarrow> tb_huff t = hcode f ws (length ws) \<and> tb_len t = f (ws ! (length ws - 1)) \<and>
     tb_used t \<le> length (tb_table t) \<and> tb_used t \<le> 2 ^ 15 \<and> filling f ws r (length ws - 1) t \<and>
     (\<forall>j < length ws. entered type work f ws r t j)"

lemma enter_symbol_ok:
  assumes p: "prefix_code f ws" "i < length ws" and r: "0 < r" and w: "work ! i = ws ! i"
    and b: "building type work f ws r i t"
  shows "\<exists>table. enter_symbol type work t = Some (t\<lparr>tb_table := table\<rparr>) \<and> length table = length (tb_table t) \<and>
    filling f ws r i (t\<lparr>tb_table := table\<rparr>) \<and> (\<forall>j \<le> i. entered type work f ws r (t\<lparr>tb_table := table\<rparr>) j)"
proof -
  have b': "tb_len t = f (ws ! i)" "tb_huff t = hcode f ws i" "work ! tb_sym t = ws ! i" "tb_used t \<le> length (tb_table t)"
      "\<forall>j < i. entered type work f ws r t j"
    using b w by (simp_all add: building_def counted_def)
  show ?thesis
  proof (cases "f (ws ! i) \<le> r")
    case True
    then have fr: "filling_root r t" using b by (simp add: building_def filling_def)
    then have "2 ^ r \<le> length (tb_table t)" using b'(4) by (simp add: filling_root_def)
    from entered_root [OF p True fr b'(1-3) this b'(5)] show ?thesis
      using True fr by (auto simp: filling_def filling_root_def)
  next
    case False
    then have fs: "filling_sub f ws r i t" using b by (simp add: building_def filling_def)
    from entered_sub [OF p _ fs b'(1-4) r b'(5)] False show ?thesis by (auto simp: filling_def)
  qed
qed

lemma in_sub_table_fields [simp]:
  "in_sub_table type work f ws r (t\<lparr>tb_huff := h\<rparr>) = in_sub_table type work f ws r t"
  "in_sub_table type work f ws r (t\<lparr>tb_sym := s\<rparr>) = in_sub_table type work f ws r t"
  "in_sub_table type work f ws r (t\<lparr>tb_count := c\<rparr>) = in_sub_table type work f ws r t"
  "in_sub_table type work f ws r (t\<lparr>tb_len := l\<rparr>) = in_sub_table type work f ws r t"
  by (simp_all add: fun_eq_iff in_sub_table_def)

lemma entered_fields [simp]:
  "entered type work f ws r (t\<lparr>tb_huff := h\<rparr>) = entered type work f ws r t"
  "entered type work f ws r (t\<lparr>tb_sym := s\<rparr>) = entered type work f ws r t"
  "entered type work f ws r (t\<lparr>tb_count := c\<rparr>) = entered type work f ws r t"
  "entered type work f ws r (t\<lparr>tb_len := l\<rparr>) = entered type work f ws r t"
  by (simp_all add: fun_eq_iff entered_def)

lemma filling_fields [simp]:
  "filling f ws r i (t\<lparr>tb_huff := h\<rparr>) = filling f ws r i t"
  "filling f ws r i (t\<lparr>tb_sym := s\<rparr>) = filling f ws r i t"
  "filling f ws r i (t\<lparr>tb_count := c\<rparr>) = filling f ws r i t"
  "filling f ws r i (t\<lparr>tb_len := l\<rparr>) = filling f ws r i t"
  by (simp_all add: filling_def filling_root_def filling_sub_def)

text \<open>A turn ends the loop, or it goes on to the next symbol, with a new sub-table if it needs one.\<close>

lemma table_turn_cases:
  assumes p: "prefix_code f ws" "i < length ws" and r: "0 < r" and w: "\<forall>k < length ws. work ! k = ws ! k"
    and f: "f = (\<lambda>s. lens ! (lens_index + s))" and mx: "max_len = f (ws ! (length ws - 1))"
    and b: "building type work f ws r i t"
  shows "(\<exists>t'. table_turn type lens lens_index work 0 r max_len t = Some (Finished t') \<and> built type work f ws r t' \<and>
      length (tb_table t') = length (tb_table t)) \<or>
    Suc i < length ws \<and> (\<exists>t'. tb_len t' = f (ws ! Suc i) \<and> counted f ws (Suc i) t' \<and> filling f ws r i t' \<and>
      (\<forall>j \<le> i. entered type work f ws r t' j) \<and> length (tb_table t') = length (tb_table t) \<and> tb_used t' = tb_used t \<and>
      tb_curr t' = tb_curr t \<and> tb_low t' = tb_low t \<and>
      table_turn type lens lens_index work 0 r max_len t =
        (case new_sub_table type 0 r max_len t' of Inl table \<Rightarrow> Some (Full table) | Inr t \<Rightarrow> Some (Continue t)))"
proof -
  let ?l = "f (ws ! i)"
  obtain table where t1: "enter_symbol type work t = Some (t\<lparr>tb_table := table\<rparr>)" "length table = length (tb_table t)"
      "filling f ws r i (t\<lparr>tb_table := table\<rparr>)" "\<forall>j \<le> i. entered type work f ws r (t\<lparr>tb_table := table\<rparr>) j"
    using enter_symbol_ok [OF p r _ b] w p(2) by auto
  define t2 where "t2 = t\<lparr>tb_table := table, tb_huff := next_huff (tb_len t) (tb_huff t), tb_sym := tb_sym t + 1,
      tb_count := (tb_count t)[tb_len t := tb_count t ! tb_len t - 1]\<rparr>"
  have bt: "tb_len t = ?l" "tb_huff t = hcode f ws i" "tb_sym t = i" "length (tb_count t) = 16"
      "\<forall>l \<in> {1..15}. tb_count t ! l = int (rest f ws i l)" "tb_used t \<le> length (tb_table t)" "tb_used t \<le> 2 ^ 15"
    using b by (simp_all add: building_def counted_def)
  have l15: "?l \<in> {1..15}" using prefix_codeD(1,2) [OF p] by simp
  have c2: "counted f ws (Suc i) t2"
    using bt t1(2) l15 rest_Suc [OF p(2)] hcode_next [OF p] by (auto simp: counted_def t2_def nth_list_update)
  have f2: "filling f ws r i t2" "\<forall>j \<le> i. entered type work f ws r t2 j" using t1(3,4) by (simp_all add: t2_def)
  have T2: "length (tb_table t2) = length (tb_table t)" "tb_len t2 = ?l" using t1(2) bt(1) by (simp_all add: t2_def)
  have c2l: "tb_count t2 ! ?l = int (rest f ws (Suc i) ?l)" using c2 l15 by (simp add: counted_def)
  have "table_turn type lens lens_index work 0 r max_len t =
      (let t = t2 in if tb_count t ! tb_len t = 0 \<and> tb_len t = max_len then Some (Finished t)
       else let t = (if tb_count t ! tb_len t = 0 then t\<lparr>tb_len := lens ! (lens_index + work ! tb_sym t)\<rparr> else t)
            in (case new_sub_table type 0 r max_len t of Inl table \<Rightarrow> Some (Full table) | Inr t \<Rightarrow> Some (Continue t)))"
    unfolding table_turn_def t1(1) option.case t2_def by simp
  then have turn: "table_turn type lens lens_index work 0 r max_len t =
      (if tb_count t2 ! ?l = 0 \<and> ?l = max_len then Some (Finished t2)
       else case new_sub_table type 0 r max_len
              (if tb_count t2 ! ?l = 0 then t2\<lparr>tb_len := lens ! (lens_index + work ! tb_sym t2)\<rparr> else t2) of
            Inl table \<Rightarrow> Some (Full table) | Inr t \<Rightarrow> Some (Continue t))"
    unfolding Let_def T2(2) .
  show ?thesis
  proof (cases "tb_count t2 ! ?l = 0 \<and> ?l = max_len")
    case True
    then have "rest f ws (Suc i) ?l = 0" using c2l by (metis of_nat_eq_0_iff)
    then have none: "\<not> (\<exists>k. Suc i \<le> k \<and> k < length ws \<and> f (ws ! k) = ?l)" unfolding rest_pos [symmetric] by simp
    have "\<not> Suc i < length ws"
    proof
      assume "Suc i < length ws"
      then have "Suc i \<le> length ws - 1" "length ws - 1 < length ws" by auto
      then show False using none True mx by metis
    qed
    then have last: "length ws = Suc i" using p(2) by simp
    then have "built type work f ws r t2" using c2 f2 T2 by (simp add: built_def counted_def less_Suc_eq_le)
    then show ?thesis unfolding turn if_P [OF True] using T2 by simp
  next
    case False
    have i1: "Suc i < length ws"
    proof (rule ccontr)
      assume "\<not> Suc i < length ws"
      then have "length ws = Suc i" using p(2) by simp
      then show False using False c2l mx by (simp add: rest_def)
    qed
    define t3 where "t3 = (if tb_count t2 ! ?l = 0 then t2\<lparr>tb_len := lens ! (lens_index + work ! tb_sym t2)\<rparr> else t2)"
    have len3: "tb_len t3 = f (ws ! Suc i)"
    proof (cases "tb_count t2 ! ?l = 0")
      case True
      then show ?thesis using c2 w i1 by (simp add: t3_def counted_def f)
    next
      case nz: False
      then obtain k where k: "Suc i \<le> k" "k < length ws" "f (ws ! k) = ?l" using c2l rest_pos [of f ws "Suc i" ?l] by auto
      have "?l \<le> f (ws ! Suc i)" "f (ws ! Suc i) \<le> f (ws ! k)"
        using prefix_codeD(3) [OF p, of "Suc i"] prefix_codeD(3) [OF p(1) i1 k(1,2)] i1 by simp_all
      then show ?thesis using nz k(3) T2 by (simp add: t3_def)
    qed
    have c3: "counted f ws (Suc i) t3" "filling f ws r i t3" "\<forall>j \<le> i. entered type work f ws r t3 j"
        "length (tb_table t3) = length (tb_table t)"
      using c2 f2 T2 by (simp_all add: t3_def counted_def)
    have same: "tb_used t3 = tb_used t" "tb_curr t3 = tb_curr t" "tb_low t3 = tb_low t" by (simp_all add: t3_def t2_def)
    show ?thesis unfolding turn if_not_P [OF False] t3_def [symmetric] using i1 len3 c3 same by blast
  qed
qed

lemma table_turn_ok:
  assumes p: "prefix_code f ws" "i < length ws" and r: "0 < r" and w: "\<forall>k < length ws. work ! k = ws ! k"
    and f: "f = (\<lambda>s. lens ! (lens_index + s))" and mx: "max_len = f (ws ! (length ws - 1))"
    and b: "building type work f ws r i t" and room: "roomy type f ws r (length (tb_table t))"
  shows "case table_turn type lens lens_index work 0 r max_len t of
      None \<Rightarrow> False
    | Some (Full table) \<Rightarrow> \<exists>k < length ws. r < f (ws ! k)
    | Some (Finished t') \<Rightarrow> built type work f ws r t' \<and> length (tb_table t') = length (tb_table t)
    | Some (Continue t') \<Rightarrow> Suc i < length ws \<and> building type work f ws r (Suc i) t' \<and> length (tb_table t') = length (tb_table t)"
  using table_turn_cases [OF p r w f mx b]
proof (elim disjE conjE exE)
  have mx15: "max_len \<le> 15" "\<forall>k < length ws. f (ws ! k) \<le> max_len"
    using prefix_codeD [OF p(1)] p(2) by (auto simp: mx)
  fix t' assume i1: "Suc i < length ws" and t': "tb_len t' = f (ws ! Suc i)" "counted f ws (Suc i) t'" "filling f ws r i t'"
    "\<forall>j \<le> i. entered type work f ws r t' j" "length (tb_table t') = length (tb_table t)" and
    turn: "table_turn type lens lens_index work 0 r max_len t =
      (case new_sub_table type 0 r max_len t' of Inl table \<Rightarrow> Some (Full table) | Inr t \<Rightarrow> Some (Continue t))"
  have "roomy type f ws r (length (tb_table t'))" using room t'(5) by simp
  from new_sub_table_ok [OF p(1) i1 r t'(1-4) mx15 this]
  show ?thesis unfolding turn using i1 t'(5) by (cases "new_sub_table type 0 r max_len t'") simp_all
qed simp

lemma table_loop_ok:
  assumes p: "prefix_code f ws" and r: "0 < r" and w: "\<forall>k < length ws. work ! k = ws ! k"
    and f: "f = (\<lambda>s. lens ! (lens_index + s))" and mx: "max_len = f (ws ! (length ws - 1))"
  shows "i < length ws \<Longrightarrow> length ws - i \<le> n \<Longrightarrow> building type work f ws r i t \<Longrightarrow> roomy type f ws r (length (tb_table t)) \<Longrightarrow>
    case table_loop n type lens lens_index work 0 r max_len t of
      None \<Rightarrow> False
    | Some (Inl table) \<Rightarrow> \<exists>k < length ws. r < f (ws ! k)
    | Some (Inr t') \<Rightarrow> built type work f ws r t' \<and> length (tb_table t') = length (tb_table t)"
proof (induction n arbitrary: i t)
  case (Suc n)
  note turn = table_turn_ok [OF p Suc.prems(1) r w f mx Suc.prems(3,4)]
  show ?case
  proof (cases "table_turn type lens lens_index work 0 r max_len t")
    case None
    then show ?thesis using turn by simp
  next
    case (Some u)
    show ?thesis
    proof (cases u)
      case (Continue t')
      then have t': "Suc i < length ws" "building type work f ws r (Suc i) t'" "length (tb_table t') = length (tb_table t)"
        using turn Some by simp_all
      have "length ws - Suc i \<le> n" using Suc.prems(2) by simp
      then show ?thesis using Suc.IH [OF t'(1) _ t'(2)] Suc.prems(4) t'(3) Some Continue
        by (auto split: option.splits sum.splits)
    qed (use turn Some in simp_all)
  qed
qed simp

section \<open>Looking up a code\<close>

definition code_limit :: "code_type \<Rightarrow> nat" where
  "code_limit type = (case type of CODES \<Rightarrow> 19 | LENS \<Rightarrow> 288 | DISTS \<Rightarrow> 32)"

text \<open>The entry of a symbol fits its fields and is no pointer to a sub-table.\<close>

lemma symbol_entry_fits:
  assumes "s < code_limit type"
  shows "fst (symbol_entry type work s) < 256 \<and> snd (symbol_entry type work s) < 65536 \<and>
    (fst (symbol_entry type work s) = 0 \<or> fst (symbol_entry type work s) AND 0xf0 \<noteq> 0)"
proof -
  have l: "list_all (\<lambda>x. x < 256 \<and> x AND 0xf0 \<noteq> 0) lext" "list_all (\<lambda>x. x < 65536) lbase"
    "list_all (\<lambda>x. x < 256 \<and> x AND 0xf0 \<noteq> 0) dext" "list_all (\<lambda>x. x < 65536) dbase"
    by (simp_all add: lext_def dext_def lbase_def dbase_def)
  have n: "length lext = 31" "length lbase = 31" "length dext = 32" "length dbase = 32"
    by (simp_all add: lext_def lbase_def dext_def dbase_def)
  have le: "i < 31 \<Longrightarrow> lext ! i < 256 \<and> lext ! i AND 0xf0 \<noteq> 0" "i < 31 \<Longrightarrow> lbase ! i < 65536"
    "i < 32 \<Longrightarrow> dext ! i < 256 \<and> dext ! i AND 0xf0 \<noteq> 0" "i < 32 \<Longrightarrow> dbase ! i < 65536" for i
    using l n by (simp_all add: list_all_length)
  show ?thesis
  proof (cases type)
    case LENS
    then show ?thesis using assms le(1,2) [of "s - 257"] n
      by (auto simp: symbol_entry_def symbol_end_def symbol_extra_def symbol_base_def nth_or_0_def code_limit_def)
  next
    case DISTS
    then show ?thesis using assms le(3,4) [of s] n
      by (auto simp: symbol_entry_def symbol_end_def symbol_extra_def symbol_base_def nth_or_0_def code_limit_def)
  qed (use assms in \<open>simp add: symbol_entry_def symbol_end_def code_limit_def\<close>)
qed

lemma symbol_word_parts:
  assumes "s < code_limit type" "b \<le> 15"
  shows "here_bits (symbol_word type work s b) = b" "here_op (symbol_word type work s b) = fst (symbol_entry type work s)"
    "here_val (symbol_word type work s b) = snd (symbol_entry type work s)"
    "\<not> is_link (symbol_word type work s b)"
  using table_entry_parts [of b "fst (symbol_entry type work s)" "snd (symbol_entry type work s)"]
    symbol_entry_fits [OF assms(1), of work] assms(2) by (auto simp: symbol_word_def is_link_def)

lemma small_and_f0: "c \<le> 15 \<Longrightarrow> (c :: nat) AND 0xf0 = 0"
proof -
  assume "c \<le> 15"
  then have "c = take_bit 4 c" by (simp add: take_bit_eq_mod)
  then have "c AND 0xf0 = c AND (mask 4 AND 0xf0)" by (metis and.assoc take_bit_eq_mask)
  also have "mask 4 AND (0xf0 :: nat) = 0" by (simp add: mask_eq_exp_minus_1)
  finally show ?thesis by simp
qed

definition first_at :: "int list \<Rightarrow> nat \<Rightarrow> nat \<Rightarrow> int" where
  "first_at table bits hold = at table (hold AND (2 ^ bits - 1))"

lemma first_at_mod: "first_at table bits hold = at table (hold mod 2 ^ bits)"
  unfolding first_at_def nat_and_mask ..

lemma at_nth: "i < length xs \<Longrightarrow> at xs i = xs ! i"
  by (simp add: at_def)

lemma lookup_entered:
  assumes p: "prefix_code f ws" "k < length ws" and r: "r \<le> 15" and s: "ws ! k < code_limit type"
    and e: "entered type work f ws r t k" and u: "tb_used t \<le> 2 ^ 15" and h: "hold mod 2 ^ f (ws ! k) = hcode f ws k"
    and T: "tb_used t \<le> length (tb_table t)" "2 ^ r \<le> tb_used t"
  shows "\<exists>w. lookup_code (tb_table t) r hold = (f (ws ! k), w) \<and> (here_op w, here_val w) = symbol_entry type work (ws ! k) \<and>
    (is_link (first_at (tb_table t) r hold) \<longleftrightarrow> r < f (ws ! k)) \<and>
    (is_link (first_at (tb_table t) r hold) \<longrightarrow> here_bits (first_at (tb_table t) r hold) = r)"
proof (cases "f (ws ! k) \<le> r")
  case True
  have "hold mod 2 ^ r mod 2 ^ f (ws ! k) = hcode f ws k" using h mod_mod_cancel [OF le_imp_power_dvd [OF True]] by metis
  then have "tb_table t ! (hold mod 2 ^ r) = symbol_word type work (ws ! k) (f (ws ! k))" using e True by (simp add: entered_def)
  moreover have "hold mod 2 ^ r < 2 ^ r" by simp
  then have "hold mod 2 ^ r < length (tb_table t)" using T by linarith
  ultimately have a: "at (tb_table t) (hold mod 2 ^ r) = symbol_word type work (ws ! k) (f (ws ! k))" by (simp add: at_nth)
  then have "lookup_code (tb_table t) r hold = (f (ws ! k), symbol_word type work (ws ! k) (f (ws ! k)))"
    using symbol_word_parts(1,4) [OF s prefix_codeD(2) [OF p], of work]
    unfolding lookup_code_def Let_def nat_and_mask by (simp only: if_False)
  then show ?thesis using symbol_word_parts(2-4) [OF s prefix_codeD(2) [OF p], of work] True
    by (simp add: first_at_mod a)
next
  case False
  let ?l = "f (ws ! k)" and ?h = "hcode f ws k"
  obtain nx cb where n: "in_sub_table type work f ws r t k nx cb" using e False by (auto simp: entered_def)
  have lr: "r < ?l" "?l \<le> r + cb" "cb \<le> 15" "nx + 2 ^ cb \<le> 2 ^ 15" using n False u by (auto simp: in_sub_table_def Let_def)
  have "hold mod 2 ^ r = hold mod 2 ^ ?l mod 2 ^ r" using lr(1) by (simp add: mod_mod_cancel le_imp_power_dvd)
  then have "tb_table t ! (hold mod 2 ^ r) = table_entry r cb nx" using n h by (simp add: in_sub_table_def Let_def)
  moreover have "hold mod 2 ^ r < 2 ^ r" by simp
  then have "hold mod 2 ^ r < length (tb_table t)" using T by linarith
  ultimately have first: "at (tb_table t) (hold mod 2 ^ r) = table_entry r cb nx" by (simp add: at_nth)
  have "(2::nat) ^ cb \<ge> 1" by simp
  then have nx: "nx < 65536" using lr(4) by simp
  note link = table_entry_parts [of r cb nx, OF _ _ nx]
  have link': "here_bits (table_entry r cb nx) = r" "here_op (table_entry r cb nx) = cb" "here_val (table_entry r cb nx) = nx"
    using link r lr(3) by simp_all
  let ?x = "hold mod 2 ^ (r + cb) div 2 ^ r"
  have x: "?x < 2 ^ cb" by (simp add: power_add less_mult_imp_div_less mult.commute)
  have "?x mod 2 ^ (?l - r) = hold mod 2 ^ ?l div 2 ^ r"
  proof -
    have "?x = hold div 2 ^ r mod 2 ^ cb" by (simp add: power_add mod_mult2_eq)
    then have "?x mod 2 ^ (?l - r) = hold div 2 ^ r mod 2 ^ (?l - r)"
      using lr by (simp add: mod_mod_cancel le_imp_power_dvd)
    also have "\<dots> = hold mod 2 ^ (r + (?l - r)) div 2 ^ r" by (simp add: power_add mod_mult2_eq)
    finally show ?thesis using lr(1) by simp
  qed
  then have "tb_table t ! (nx + ?x) = symbol_word type work (ws ! k) (?l - r)"
    using n x h by (simp add: in_sub_table_def Let_def)
  moreover have "nx + 2 ^ cb \<le> tb_used t" using n by (simp add: in_sub_table_def Let_def)
  then have "nx + ?x < length (tb_table t)" using x T by linarith
  ultimately have second: "at (tb_table t) (nx + ?x) = symbol_word type work (ws ! k) (?l - r)" by (simp add: at_nth)
  have cb0: "is_link (table_entry r cb nx)" using lr small_and_f0 link'(2) by (auto simp: is_link_def)
  have "lookup_code (tb_table t) r hold = (r + (?l - r), symbol_word type work (ws ! k) (?l - r))"
    using cb0 symbol_word_parts(1) [OF s, of "?l - r" work] prefix_codeD(2) [OF p]
    unfolding lookup_code_def Let_def nat_and_mask first link' drop_bit_eq_div second by simp
  then show ?thesis
    using symbol_word_parts(2,3) [OF s, of "?l - r" work] lr(1) prefix_codeD(2) [OF p] cb0 link'(1)
    by (simp add: first_at_mod first)
qed

text \<open>A complete code decodes every bit buffer.\<close>

lemma brev_Suc_top: "brev (Suc n) x = 2 * brev n x + x div 2 ^ n mod 2"
proof (induction n arbitrary: x)
  case (Suc n)
  have "brev (Suc (Suc n)) x = x mod 2 * 2 ^ Suc n + brev (Suc n) (x div 2)" by simp
  also have "\<dots> = x mod 2 * 2 ^ Suc n + (2 * brev n (x div 2) + x div 2 div 2 ^ n mod 2)" unfolding Suc.IH ..
  finally show ?case by (simp add: div_mult2_eq)
qed simp

lemma brev_brev: "brev n (brev n x) = x mod 2 ^ n"
proof (induction n arbitrary: x)
  case (Suc n)
  have "brev (Suc n) (brev (Suc n) x) = x div 2 ^ n mod 2 * 2 ^ n + brev n (brev n x)"
    unfolding brev_Suc_top [of n x] by simp
  also have "\<dots> = x mod 2 ^ Suc n" unfolding Suc.IH by (simp add: mult.commute [of 2] mod_mult2_eq)
  finally show ?case .
qed simp

lemma complete_code:
  assumes p: "prefix_code f ws" and full: "starts f ws (length ws) = 2 ^ 15"
  shows "\<exists>k < length ws. hold mod 2 ^ f (ws ! k) = hcode f ws k"
proof -
  let ?x = "brev 15 hold"
  have "?x < starts f ws n \<Longrightarrow> \<exists>k < n. starts f ws k \<le> ?x \<and> ?x < starts f ws (Suc k)" for n
  proof (induction n)
    case (Suc n)
    then show ?case by (cases "?x < starts f ws n") (auto simp: not_less intro: less_SucI)
  qed (simp add: starts_def)
  moreover have "?x < starts f ws (length ws)" unfolding full by (rule brev_less)
  ultimately obtain k where k: "k < length ws" "starts f ws k \<le> ?x" "?x < starts f ws (Suc k)" by blast
  let ?l = "f (ws ! k)"
  have l: "?l \<le> 15" by (rule prefix_codeD(2) [OF p k(1)])
  obtain c where c: "starts f ws k = c * 2 ^ (15 - ?l)" "starts f ws (Suc k) = (c + 1) * 2 ^ (15 - ?l)" "hcode f ws k = brev ?l c"
    using starts_quot [OF p k(1)] by metis
  have "?x div 2 ^ (15 - ?l) = c"
  proof (rule antisym)
    show "?x div 2 ^ (15 - ?l) \<le> c" using k(3) unfolding c(2) by (simp add: less_mult_imp_div_less less_Suc_eq_le [symmetric])
    show "c \<le> ?x div 2 ^ (15 - ?l)" using k(2) unfolding c(1) by (simp add: less_eq_div_iff_mult_less_eq)
  qed
  then have "brev 15 ?x mod 2 ^ ?l = brev ?l c" using brev_mod [OF l, of ?x] by simp
  moreover have "hold mod 2 ^ 15 mod 2 ^ ?l = hold mod 2 ^ ?l" by (intro mod_mod_cancel le_imp_power_dvd l)
  ultimately show ?thesis using k(1) c(3) brev_brev [of 15 hold] by auto
qed

section \<open>The whole function\<close>

lemma number_order: "l \<in> {1..15} \<Longrightarrow> length (filter (\<lambda>s. f s = l) (order f n)) = number f n l"
proof -
  assume l: "l \<in> {1..15}"
  have "length (filter (\<lambda>s. f s = l) (order f n)) = card ({s. f s = l} \<inter> set (order f n))"
    by (rule distinct_length_filter [OF distinct_order])
  also have "{s. f s = l} \<inter> set (order f n) = {s. f s = l} \<inter> set [0..<n]" using l by (auto simp: in_order)
  also have "card \<dots> = number f n l" unfolding number_def by (rule distinct_length_filter [symmetric]) simp
  finally show ?thesis .
qed

lemma prefix_code_order: "share f n \<le> 2 ^ 15 \<Longrightarrow> prefix_code f (order f n)"
proof -
  assume s: "share f n \<le> 2 ^ 15"
  have "1 \<le> f (order f n ! i) \<and> f (order f n ! i) \<le> 15" if "i < length (order f n)" for i
    using nth_mem [OF that] unfolding in_order by blast
  then show ?thesis using s sorted_order by (auto simp: prefix_code_def starts_all)
qed

lemma begins_with_hcode:
  assumes "s < n" "1 \<le> f s" "f s \<le> 15"
  shows "begins_with f n hold s \<longleftrightarrow> hold mod 2 ^ f s = hcode f (order f n) (place f n s)"
  using assms starts_place [of s n f] brev_shift [of "f s" "15 - f s"] by (simp add: begins_with_def hcode_def)

text \<open>The longest and the shortest length.\<close>

lemma used_length:
  assumes c: "\<forall>l \<le> 15. count ! l = int (number f n l)" and l: "1 \<le> l" "l \<le> 15" "count ! l \<noteq> 0"
  shows "\<exists>i < length (order f n). f (order f n ! i) = l"
proof -
  have "number f n l \<noteq> 0" using c l(2,3) by simp
  then have "filter (\<lambda>s. f s = l) (order f n) \<noteq> []" using number_order [of l f n] l(1,2) by fastforce
  then obtain t where "t \<in> set (order f n)" "f t = l" by (auto simp: filter_empty_conv)
  then show ?thesis by (metis in_set_conv_nth)
qed

lemma last_used_order:
  assumes c: "\<forall>l \<le> 15. count ! l = int (number f n l)" and f: "\<forall>s < n. f s \<le> 15"
  shows "last_used count 15 = (if order f n = [] then 0 else f (order f n ! (length (order f n) - 1)))"
proof (cases "order f n = []")
  case True
  have "last_used count 15 = 0"
  proof (rule ccontr)
    assume a: "last_used count 15 \<noteq> 0"
    then have "1 \<le> last_used count 15" "last_used count 15 \<le> 15" "count ! last_used count 15 \<noteq> 0"
      using last_used_spec [of count 15] by auto
    then show False using used_length [OF c] True by fastforce
  qed
  then show ?thesis using True by simp
next
  case False
  let ?s = "order f n ! (length (order f n) - 1)"
  have "?s \<in> set (order f n)" using False by simp
  then have s: "?s < n" "1 \<le> f ?s" "f ?s \<le> 15" by (auto simp: in_order)
  have pos: "0 < number f n (f ?s)" using number_less [OF s(1), of f] by simp
  have ge: "f ?s \<le> last_used count 15"
  proof (rule ccontr)
    assume "\<not> f ?s \<le> last_used count 15"
    then have "count ! f ?s = 0" using last_used_spec [of count 15] s(3) by simp
    then show False using c s(3) pos by simp
  qed
  then have l: "1 \<le> last_used count 15" "last_used count 15 \<le> 15" "count ! last_used count 15 \<noteq> 0"
    using last_used_spec [of count 15] s(2) by auto
  obtain i where "i < length (order f n)" "f (order f n ! i) = last_used count 15" using used_length [OF c l] by blast
  then have "last_used count 15 \<le> f ?s" using sorted_order [of i "length (order f n) - 1" f n] by simp
  then show ?thesis using ge False by simp
qed

lemma first_used_order:
  assumes c: "\<forall>l \<le> 15. count ! l = int (number f n l)" and f: "\<forall>s < n. f s \<le> 15" and ne: "order f n \<noteq> []"
  shows "first_used count (last_used count 15) 1 = f (order f n ! 0)"
proof -
  let ?m = "last_used count 15" and ?a = "first_used count (last_used count 15) 1" and ?s = "order f n ! 0"
  have "?s \<in> set (order f n)" using ne by simp
  then have s: "?s < n" "1 \<le> f ?s" "f ?s \<le> 15" by (auto simp: in_order)
  have m: "?m = f (order f n ! (length (order f n) - 1))" using last_used_order [OF c f] ne by simp
  have sm: "f ?s \<le> ?m" unfolding m using ne by (intro sorted_order) auto
  have a: "1 \<le> ?a" "?a \<le> ?m" "?a < ?m \<longrightarrow> count ! ?a \<noteq> 0" "\<forall>l. 1 \<le> l \<and> l < ?a \<longrightarrow> count ! l = 0"
    using first_used_spec [of 1 ?m count] sm s(2) by auto
  have m15: "?m \<le> 15" using last_used_spec [of count 15] by simp
  have "count ! f ?s \<noteq> 0" using c s(3) number_less [OF s(1), of f] by simp
  then have le: "?a \<le> f ?s" using a(4) s(2) by (meson not_less)
  have "count ! ?m \<noteq> 0" using last_used_spec [of count 15] sm s(2) by simp
  then have nz: "count ! ?a \<noteq> 0" using a(2,3) by (metis le_neq_implies_less)
  obtain i where "i < length (order f n)" "f (order f n ! i) = ?a"
    using used_length [OF c a(1) _ nz] a(2) m15 by auto
  then have "f ?s \<le> ?a" using sorted_order [of 0 i f n] by simp
  then show ?thesis using le by simp
qed

lemma length_order_le: "length (order f n) \<le> n"
proof -
  have "length (order f n) = card (set (order f n))" using distinct_card [OF distinct_order] by metis
  also have "\<dots> \<le> card {..<n}" by (intro card_mono) (auto simp: in_order)
  finally show ?thesis by simp
qed

text \<open>What the loop starts with.\<close>

lemma build_start:
  fixes lens :: "nat list" and lens_index codes :: nat and work :: "nat list"
  assumes fd: "f = (\<lambda>s. lens ! (lens_index + s))"
  defines "ws \<equiv> order f codes" and "count \<equiv> count_lens lens lens_index codes"
  assumes f: "\<forall>s < codes. f s \<le> 15" and w: "codes \<le> length work" and s: "share f codes \<le> 2 ^ 15" and ne: "ws \<noteq> []"
    and r: "f (ws ! 0) \<le> r" "r \<le> 15" and T: "2 ^ r \<le> length table"
  defines "work' \<equiv> sort_symbols lens lens_index codes (offsets count) work"
  shows "prefix_code f ws" "0 < length ws" "0 < r" "\<forall>k < length ws. work' ! k = ws ! k" "last_used count 15 = f (ws ! (length ws - 1))"
    "building type work' f ws r 0
      \<lparr>tb_sym = 0, tb_len = first_used count (last_used count 15) 1, tb_huff = 0, tb_next = 0, tb_curr = r,
       tb_drop = 0, tb_low = - 1, tb_used = 2 ^ r, tb_count = count, tb_table = table\<rparr>"
proof -
  have C: "length count = 16" "\<forall>l \<le> 15. count ! l = int (number f codes l)"
    using count_lens_number [of codes lens lens_index] f by (simp_all add: count_def fd)
  show p: "prefix_code f ws" unfolding ws_def by (rule prefix_code_order [OF s])
  have lw: "length ws \<le> length work" using length_order_le [of f codes] w by (simp add: ws_def)
  have o': "length (offsets count) = 16" "\<forall>l. 1 \<le> l \<and> l \<le> 15 \<longrightarrow> offsets count ! l = before f codes l"
    using offsets_before [OF C(2)] by simp_all
  have srt: "length work' = length work" "\<forall>s < codes. f s \<noteq> 0 \<longrightarrow> work' ! place f codes s = s"
    using sort_symbols_place [of codes lens lens_index work "offsets count"] f lw o'
    by (simp_all add: work'_def fd ws_def length_order)
  have "take (length ws) work' = ws"
    unfolding ws_def by (rule take_sorted [OF srt(2)]) (use lw srt(1) in \<open>simp add: ws_def\<close>)
  then show "\<forall>k < length ws. work' ! k = ws ! k" by (metis nth_take)
  show pos: "0 < length ws" using ne by simp
  show "0 < r" using prefix_codeD(1) [OF p pos] r(1) by simp
  have len: "first_used count (last_used count 15) 1 = f (ws ! 0)"
    using first_used_order [OF C(2) f] ne by (simp add: ws_def)
  show "last_used count 15 = f (ws ! (length ws - 1))"
    using last_used_order [OF C(2) f] ne by (simp add: ws_def)
  have "\<forall>l \<in> {1..15}. count ! l = int (rest f ws 0 l)"
    using C(2) number_order by (simp add: rest_def ws_def)
  moreover have "(2::nat) ^ r \<le> 2 ^ 15" using r(2) by (intro power_increasing) auto
  ultimately show "building type work' f ws r 0
      \<lparr>tb_sym = 0, tb_len = first_used count (last_used count 15) 1, tb_huff = 0, tb_next = 0, tb_curr = r,
       tb_drop = 0, tb_low = - 1, tb_used = 2 ^ r, tb_count = count, tb_table = table\<rparr>"
    using C(1) T r(1) by (simp add: building_def counted_def len [simplified] filling_def filling_root_def hcode_def starts_def)
qed

text \<open>From the first symbol on, the loop builds the table.\<close>

lemma build_ok:
  fixes lens :: "nat list" and lens_index codes :: nat and work :: "nat list"
  assumes fd: "f = (\<lambda>s. lens ! (lens_index + s))"
  defines "ws \<equiv> order f codes" and "count \<equiv> count_lens lens lens_index codes"
  assumes f: "\<forall>s < codes. f s \<le> 15" and w: "codes \<le> length work" and s: "share f codes \<le> 2 ^ 15" and ne: "ws \<noteq> []"
    and r: "f (ws ! 0) \<le> r" "r \<le> 15" and T: "2 ^ r \<le> length table" and room: "roomy type f ws r (length table)"
  defines "work' \<equiv> sort_symbols lens lens_index codes (offsets count) work"
  shows "case table_loop codes type lens lens_index work' 0 r (last_used count 15)
      \<lparr>tb_sym = 0, tb_len = first_used count (last_used count 15) 1, tb_huff = 0, tb_next = 0, tb_curr = r,
       tb_drop = 0, tb_low = - 1, tb_used = 2 ^ r, tb_count = count, tb_table = table\<rparr> of
      None \<Rightarrow> False
    | Some (Inl table) \<Rightarrow> \<exists>k < length ws. r < f (ws ! k)
    | Some (Inr t') \<Rightarrow> built type work' f ws r t' \<and> length (tb_table t') = length table"
proof -
  note S = build_start [where lens = lens and lens_index = lens_index and codes = codes and work = work and table = table and r = r,
      OF fd f w s ne [unfolded ws_def] r [unfolded ws_def] T, folded ws_def count_def, folded work'_def]
  have "length ws - 0 \<le> codes" using length_order_le [of f codes] by (simp add: ws_def)
  from table_loop_ok [OF S(1,3,4) fd S(5,2) this S(6) [of type]] room show ?thesis
    by (auto split: option.splits sum.splits)
qed

text \<open>What a built table decodes, the invalid code of an incomplete set included.\<close>

definition decodes :: "code_type \<Rightarrow> nat list \<Rightarrow> (nat \<Rightarrow> nat) \<Rightarrow> nat \<Rightarrow> int list \<Rightarrow> nat \<Rightarrow> nat \<Rightarrow> bool" where
  "decodes type work f n table bits hold \<longleftrightarrow>
     (case rfc_decode f n hold of
        Some s \<Rightarrow> fst (lookup_code table bits hold) = f s \<and>
          (here_op (snd (lookup_code table bits hold)), here_val (snd (lookup_code table bits hold))) = symbol_entry type work s \<and>
          (is_link (first_at table bits hold) \<longleftrightarrow> bits < f s) \<and>
          (is_link (first_at table bits hold) \<longrightarrow> here_bits (first_at table bits hold) = bits)
      | None \<Rightarrow> lookup_code table bits hold = (1, table_entry 1 64 0) \<and> first_at table bits hold = table_entry 1 64 0)"

lemma invalid_entry: "here_bits (table_entry 1 64 0) = 1" "here_op (table_entry 1 64 0) = 64" "here_val (table_entry 1 64 0) = 0"
  "\<not> is_link (table_entry 1 64 0)"
  using table_entry_parts [of 1 64 0] by (simp_all add: is_link_def)

lemma decodes_entered:
  assumes f: "\<forall>s < n. f s \<le> 15" and lim: "n \<le> code_limit type" and p: "prefix_code f (order f n)" and r: "r \<le> 15"
    and e: "\<forall>k < length (order f n). entered type work f (order f n) r t k" and u: "tb_used t \<le> 2 ^ 15"
    and T: "tb_used t \<le> length (tb_table t)" "2 ^ r \<le> tb_used t"
    and none: "rfc_decode f n hold = None \<Longrightarrow>
      lookup_code (tb_table t) r hold = (1, table_entry 1 64 0) \<and> first_at (tb_table t) r hold = table_entry 1 64 0"
  shows "decodes type work f n (tb_table t) r hold"
proof (cases "rfc_decode f n hold")
  case None
  then show ?thesis using none by (simp add: decodes_def)
next
  case (Some s)
  then have s: "s < n" "begins_with f n hold s" by (auto simp: rfc_decode_def find_Some_iff)
  then have fs: "1 \<le> f s" "f s \<le> 15" using f by (auto simp: begins_with_def)
  note pl = order_place [of s n f, OF s(1) fs]
  have "hold mod 2 ^ f (order f n ! place f n s) = hcode f (order f n) (place f n s)"
    using begins_with_hcode [of s n f hold, OF s(1) fs] s(2) pl(2) by simp
  moreover have "order f n ! place f n s < code_limit type" using pl(2) s(1) lim by simp
  ultimately show ?thesis
    using lookup_entered [OF p pl(1) r _ e [rule_format, OF pl(1)] u _ T] pl(2) Some by (force simp: decodes_def)
qed

lemma no_code_complete:
  assumes f: "\<forall>s < n. f s \<le> 15" and full: "share f n = 2 ^ 15"
  shows "rfc_decode f n hold \<noteq> None"
proof
  assume n: "rfc_decode f n hold = None"
  have p: "prefix_code f (order f n)" using prefix_code_order full by simp
  obtain k where k: "k < length (order f n)" "hold mod 2 ^ f (order f n ! k) = hcode f (order f n) k"
    using complete_code [OF p] full starts_all [of f n] by auto
  have "order f n ! k \<in> set (order f n)" using k(1) by simp
  then have s: "order f n ! k < n" "1 \<le> f (order f n ! k)" "f (order f n ! k) \<le> 15" by (auto simp: in_order)
  have "begins_with f n hold (order f n ! k)"
    using begins_with_hcode [of "order f n ! k" n f hold, OF s] k(2) order_index [OF k(1)] by simp
  then show False using n s(1) by (auto simp: rfc_decode_def find_None_iff)
qed

lemma filling_used: "filling f ws r i t \<Longrightarrow> 2 ^ r \<le> tb_used t"
  by (auto simp: filling_def filling_root_def filling_sub_def split: if_splits)

text \<open>The two ways a table is finished: a complete code, or a single code of one bit.\<close>

lemma decodes_complete:
  assumes f: "\<forall>s < n. f s \<le> 15" and lim: "n \<le> code_limit type" and full: "share f n = 2 ^ 15" and r: "r \<le> 15"
    and b: "built type work f (order f n) r t"
  shows "decodes type work f n (fill_rest t) r hold"
proof -
  have "tb_huff t = brev 15 (2 ^ 15)" using b full by (simp add: built_def hcode_def starts_all)
  also have "\<dots> = 0" using brev_shift [of 0 15 1] by simp
  finally have "fill_rest t = tb_table t" by (simp add: fill_rest_def)
  then show ?thesis
    using decodes_entered [OF f lim prefix_code_order r, of work t hold] b no_code_complete [OF f full] full
      filling_used [of f "order f n" r "length (order f n) - 1" t]
    by (simp add: built_def)
qed

lemma decodes_single:
  assumes lim: "n \<le> code_limit type" and one: "\<forall>s < n. f s \<le> 1" and few: "share f n < 2 ^ 15" and ne: "order f n \<noteq> []"
    and b: "built type work f (order f n) 1 t"
  shows "decodes type work f n (fill_rest t) 1 hold"
proof -
  let ?ws = "order f n"
  have f: "\<forall>s < n. f s \<le> 15" using one by fastforce
  have p: "prefix_code f ?ws" using prefix_code_order few by simp
  have f1: "f s = 1" if "s \<in> set ?ws" for s using that one by (fastforce simp: in_order)
  have "starts f ?ws (length ?ws) = length ?ws * 2 ^ 14"
    using sum_list_same [of ?ws "\<lambda>s. 2 ^ (15 - f s)" "2 ^ 14"] f1 by (simp add: starts_def)
  then have "length ?ws * 2 ^ 14 < 2 * 2 ^ 14" using few starts_all [of f n] by simp
  then have "length ?ws < 2" by (simp only: mult_less_cancel2)
  moreover have "0 < length ?ws" using ne by simp
  ultimately have lw: "length ?ws = 1" by linarith
  define s where "s = ?ws ! 0"
  have s_in: "s \<in> set ?ws" using lw by (simp add: s_def)
  have h: "hcode f ?ws 0 = 0" by (simp add: hcode_def starts_def)
  have "starts f ?ws 1 = 2 ^ 14" using starts_Suc [of 0 ?ws f] f1 [OF s_in] lw by (simp add: starts_def s_def)
  then have "hcode f ?ws 1 = 1" using brev_shift [of 1 14 1] by (simp add: hcode_def)
  then have hb: "tb_huff t = 1" "tb_len t = 1" "filling_root 1 t" "tb_used t \<le> length (tb_table t)" "tb_used t \<le> 2 ^ 15"
      "entered type work f ?ws 1 t 0"
    using b lw f1 [OF s_in] by (simp_all add: built_def filling_def s_def)
  let ?t = "t\<lparr>tb_table := (tb_table t)[1 := table_entry 1 64 0]\<rparr>"
  have fr: "fill_rest t = tb_table ?t" using hb(1-3) by (simp add: fill_rest_def filling_root_def)
  have T: "1 < length (tb_table t)" using hb(3,4) by (simp add: filling_root_def)
  have e: "entered type work f ?ws 1 ?t 0"
    using hb(6) f1 [OF s_in] h by (simp add: entered_def s_def)
  have "lookup_code (tb_table ?t) 1 hold = (1, table_entry 1 64 0) \<and> first_at (tb_table ?t) 1 hold = table_entry 1 64 0"
    if none: "rfc_decode f n hold = None"
  proof -
    have sn: "s < n" "1 \<le> f s" "f s \<le> 15" using s_in by (auto simp: in_order)
    then have "\<not> begins_with f n hold s" using none by (auto simp: rfc_decode_def find_None_iff)
    then have "hold mod 2 ^ f s \<noteq> hcode f ?ws (place f n s)" using begins_with_hcode [of s n f hold, OF sn] by simp
    moreover have "place f n s = 0" using order_index [of 0 f n] lw by (simp add: s_def)
    ultimately have "hold mod 2 = 1" using h f1 [OF s_in] by simp
    then show ?thesis using T nat_and_mask [of hold 1] invalid_entry by (simp add: lookup_code_def first_at_def Let_def at_nth)
  qed
  then show ?thesis
    unfolding fr using decodes_entered [OF f lim p, of 1 work ?t hold] e lw hb(3-5) by (simp add: filling_root_def)
qed

text \<open>The check of the lengths.\<close>

lemma check_left_share:
  assumes "\<forall>l \<le> 15. count ! l = int (number f n l)"
  shows "check_left count 1 [1..<16] = (if share f n > 2 ^ 15 then None else Some (2 ^ 15 - int (share f n)))"
proof -
  have "(\<Sum>l = 1..<16. count ! l * 2 ^ (15 - l)) = (\<Sum>l = 1..<16. int (number f n l * 2 ^ (15 - l)))"
    using assms by (intro sum.cong) auto
  then have s: "(\<Sum>l = 1..<16. count ! l * 2 ^ (15 - l)) = int (share f n)" by (simp add: share_def)
  have "\<forall>l \<le> 15. 0 \<le> count ! l" using assms by simp
  from check_left_spec [of 1 1 count, OF _ _ this] s show ?thesis by (auto simp: Let_def)
qed

lemma decodes_nothing:
  assumes f: "\<forall>s < n. f s \<le> 15" and e: "order f n = []" and t: "2 \<le> length table"
  shows "decodes type work f n (table[0 := table_entry 1 64 0, 1 := table_entry 1 64 0]) 1 hold"
proof -
  have "f s = 0" if "s < n" for s
    using e f that in_order [of s f n] by (metis One_nat_def Suc_leI empty_iff list.set(1) neq0_conv)
  then have "rfc_decode f n hold = None" by (auto simp: rfc_decode_def find_None_iff begins_with_def)
  moreover have "at (table[0 := v, 1 := v]) (hold mod 2) = v" for v
  proof -
    have "0 < length table" "1 < length table" using t by linarith+
    then show ?thesis by (cases "hold mod 2 = 0") (auto simp: at_def nth_list_update)
  qed
  ultimately show ?thesis using nat_and_mask [of hold 1] invalid_entry by (simp add: decodes_def lookup_code_def first_at_def Let_def)
qed

text \<open>The root table has at least the shortest and at most the longest length.\<close>

definition root_of :: "nat \<Rightarrow> nat \<Rightarrow> nat \<Rightarrow> nat" where
  "root_of bits min_len max_len = (if (if bits > max_len then max_len else bits) < min_len then min_len
     else if bits > max_len then max_len else bits)"

text \<open>Enough room for every table, as the callers provide it.\<close>

definition table_room :: "code_type \<Rightarrow> (nat \<Rightarrow> nat) \<Rightarrow> nat \<Rightarrow> nat \<Rightarrow> nat \<Rightarrow> bool" where
  "table_room type f n bits T \<longleftrightarrow> (\<forall>s < n. f s \<le> bits) \<and> 2 ^ bits \<le> T \<or>
     type = LENS \<and> ENOUGH_LENS \<le> T \<or> type = DISTS \<and> ENOUGH_DISTS \<le> T"

lemma table_room_roomy:
  assumes r: "table_room type f n bits T" and ne: "order f n \<noteq> []"
  defines "ws \<equiv> order f n"
  assumes rb: "rb = root_of bits (f (ws ! 0)) (f (ws ! (length ws - 1)))" and ex: "\<not> exceeds type (2 ^ rb)"
  shows "2 ^ rb \<le> T" "roomy type f ws rb T"
proof -
  let ?lo = "f (ws ! 0)" and ?hi = "f (ws ! (length ws - 1))"
  have lh: "f (ws ! k) \<le> ?hi" if "k < length ws" for k using that sorted_order [of k "length ws - 1" f n] by (simp add: ws_def)
  have "ws ! (length ws - 1) \<in> set ws" using ne by (simp add: ws_def)
  then have hi_n: "ws ! (length ws - 1) < n" by (simp add: ws_def in_order)
  have lo: "?lo \<le> ?hi" using lh [of 0] ne by (simp add: ws_def)
  have "2 ^ rb \<le> T \<and> roomy type f ws rb T"
  proof (cases "(\<forall>s < n. f s \<le> bits) \<and> 2 ^ bits \<le> T")
    case True
    then have b: "?hi \<le> bits" using hi_n by blast
    then have rh: "rb = ?hi" using lo by (auto simp: rb root_of_def)
    then have "(2::nat) ^ rb \<le> 2 ^ bits" using b by (intro power_increasing) auto
    then have "2 ^ rb \<le> T" using True by (meson le_trans)
    then show ?thesis using lh unfolding roomy_def rh by blast
  next
    case False
    then have "\<not> exceeds type u \<Longrightarrow> u \<le> T \<and> u \<le> 2 ^ 15" for u
      using r by (auto simp: table_room_def exceeds_def ENOUGH_LENS_def ENOUGH_DISTS_def)
    then show ?thesis using ex by (auto simp: roomy_def)
  qed
  then show "2 ^ rb \<le> T" "roomy type f ws rb T" by simp_all
qed

lemma inflate_table_unfold:
  fixes lens :: "nat list" and lens_index codes bits :: nat and work :: "nat list"
  assumes fd: "f = (\<lambda>s. lens ! (lens_index + s))"
  defines "ws \<equiv> order f codes" and "count \<equiv> count_lens lens lens_index codes"
  assumes f: "\<forall>s < codes. f s \<le> 15" and ne: "ws \<noteq> []"
  defines "hi \<equiv> f (ws ! (length ws - 1))"
  defines "rb \<equiv> root_of bits (f (ws ! 0)) hi" and "work' \<equiv> sort_symbols lens lens_index codes (offsets count) work"
  shows "inflate_table type lens lens_index codes table 0 work bits =
    (if share f codes > 2 ^ 15 \<or> share f codes < 2 ^ 15 \<and> (type = CODES \<or> hi \<noteq> 1)
     then Some \<lparr>tr_ret = - 1, tr_table = table, tr_work = work, tr_bits = bits\<rparr>
     else if exceeds type (2 ^ rb) then Some \<lparr>tr_ret = 1, tr_table = table, tr_work = work', tr_bits = bits\<rparr>
     else case table_loop codes type lens lens_index work' 0 rb (last_used count 15)
        \<lparr>tb_sym = 0, tb_len = first_used count (last_used count 15) 1, tb_huff = 0, tb_next = 0, tb_curr = rb,
         tb_drop = 0, tb_low = - 1, tb_used = 2 ^ rb, tb_count = count, tb_table = table\<rparr> of
       None \<Rightarrow> None
     | Some (Inl table) \<Rightarrow> Some \<lparr>tr_ret = 1, tr_table = table, tr_work = work', tr_bits = bits\<rparr>
     | Some (Inr t) \<Rightarrow> Some \<lparr>tr_ret = 0, tr_table = fill_rest t, tr_work = work', tr_bits = rb\<rparr>)"
proof -
  have C: "\<forall>l \<le> 15. count ! l = int (number f codes l)"
    using count_lens_number [of codes lens lens_index] f by (simp add: count_def fd)
  have hi: "last_used count 15 = hi" using last_used_order [OF C f] ne by (simp add: ws_def hi_def)
  have lo: "first_used count hi 1 = f (ws ! 0)" using first_used_order [OF C f] ne unfolding hi by (simp add: ws_def)
  have "ws ! (length ws - 1) \<in> set ws" using ne by simp
  then have hi0: "hi \<noteq> 0" unfolding hi_def ws_def in_order by simp
  have l: "[1..<MAXBITS + 1] = [1..<16]" by (simp add: MAXBITS_def)
  show ?thesis
  proof (cases "share f codes > 2 ^ 15")
    case True
    then show ?thesis
      unfolding inflate_table_def Let_def count_def [symmetric] MAXBITS_def hi using hi0 check_left_share [OF C] l
      by (simp add: MAXBITS_def)
  next
    case False
    then show ?thesis
      unfolding inflate_table_def Let_def count_def [symmetric] l [unfolded MAXBITS_def] MAXBITS_def hi lo
        check_left_share [OF C] root_of_def [symmetric] work'_def [symmetric] rb_def [symmetric]
      using hi0 False by (auto simp: not_less)
  qed
qed

definition longest :: "(nat \<Rightarrow> nat) \<Rightarrow> nat \<Rightarrow> nat" where
  "longest f n = f (order f n ! (length (order f n) - 1))"

lemma longest_props:
  assumes f: "\<forall>s < n. f s \<le> 15" and ne: "order f n \<noteq> []"
  shows "s < n \<Longrightarrow> f s \<le> longest f n" "longest f n \<noteq> 0" "longest f n \<le> 15" "\<exists>s < n. f s = longest f n"
    "1 \<le> f (order f n ! 0)" "f (order f n ! 0) \<le> longest f n"
proof -
  have in_ws: "s \<in> set (order f n) \<longleftrightarrow> s < n \<and> f s \<noteq> 0" for s using f by (auto simp: in_order)
  have hi: "order f n ! (length (order f n) - 1) \<in> set (order f n)" using ne by simp
  then show "longest f n \<noteq> 0" "longest f n \<le> 15" "\<exists>s < n. f s = longest f n" using in_ws f by (auto simp: longest_def)
  have m: "f (order f n ! i) \<le> longest f n" if "i < length (order f n)" for i
    using that sorted_order [of i "length (order f n) - 1" f n] by (simp add: longest_def)
  show "f (order f n ! 0) \<le> longest f n" using m [of 0] ne by simp
  show "1 \<le> f (order f n ! 0)" using in_ws [of "order f n ! 0"] ne by simp
  show "f s \<le> longest f n" if "s < n"
  proof (cases "f s = 0")
    case False
    then have "s \<in> set (order f n)" using in_ws that by blast
    then show ?thesis using m by (metis in_set_conv_nth)
  qed simp
qed

text \<open>Lengths that pass the checks.\<close>

lemma inflate_table_fits:
  fixes lens :: "nat list" and lens_index codes bits :: nat and work :: "nat list"
  assumes fd: "f = (\<lambda>s. lens ! (lens_index + s))"
  assumes f: "\<forall>s < codes. f s \<le> 15" and lim: "codes \<le> code_limit type" and w: "codes \<le> length work"
    and room: "table_room type f codes bits (length table)" and ne: "order f codes \<noteq> []"
    and fits: "\<not> (share f codes > 2 ^ 15 \<or> share f codes < 2 ^ 15 \<and> (type = CODES \<or> longest f codes \<noteq> 1))"
  shows "\<exists>res. inflate_table type lens lens_index codes table 0 work bits = Some res \<and> tr_ret res \<in> {0, 1} \<and>
    ((\<forall>s < codes. f s \<le> bits) \<and> \<not> exceeds type (2 ^ bits) \<longrightarrow> tr_ret res = 0) \<and>
    (tr_ret res = 0 \<longrightarrow> (\<forall>hold. decodes type (tr_work res) f codes (tr_table res) (tr_bits res) hold))"
proof -
  let ?ws = "order f codes" and ?count = "count_lens lens lens_index codes"
  let ?work = "sort_symbols lens lens_index codes (offsets ?count) work"
  define rb where "rb = root_of bits (f (?ws ! 0)) (longest f codes)"
  note unfold = inflate_table_unfold [where lens = lens and lens_index = lens_index and codes = codes and work = work and table = table and type = type and bits = bits, OF fd f ne,
      folded longest_def, folded rb_def]
  note hi = longest_props [OF f ne]
  have short: "rb = longest f codes \<and> rb \<le> bits \<and> (exceeds type (2 ^ rb) \<longrightarrow> exceeds type (2 ^ bits))" if "\<forall>s < codes. f s \<le> bits"
  proof -
    have "longest f codes \<le> bits" using hi(4) that by metis
    then have "rb = longest f codes" "rb \<le> bits" using hi(6) by (auto simp: rb_def root_of_def)
    moreover from this(2) have "(2::nat) ^ rb \<le> 2 ^ bits" by (intro power_increasing) auto
    then have "exceeds type (2 ^ rb) \<longrightarrow> exceeds type (2 ^ bits)" unfolding exceeds_def by (meson less_le_trans)
    ultimately show ?thesis by blast
  qed
  have root: "f (?ws ! k) \<le> longest f codes" if "k < length ?ws" for k
    using that hi(1) [of "?ws ! k"] nth_mem [OF that] by (auto simp: in_order)
  show ?thesis
  proof (cases "exceeds type (2 ^ rb)")
    case True
    then show ?thesis using fits short unfolding unfold by auto
  next
    case False
    have s15: "share f codes \<le> 2 ^ 15" using fits by simp
    note r = table_room_roomy [OF room ne _ False, folded longest_def, OF rb_def]
    have rb: "f (?ws ! 0) \<le> rb" "rb \<le> 15" using hi(3,6) by (auto simp: rb_def root_of_def)
    note build = build_ok [where lens = lens and lens_index = lens_index and codes = codes and work = work and table = table and type = type and r = rb, OF fd f w s15 ne rb r]
    let ?t0 = "\<lparr>tb_sym = 0, tb_len = first_used ?count (last_used ?count 15) 1, tb_huff = 0, tb_next = 0, tb_curr = rb,
       tb_drop = 0, tb_low = - 1, tb_used = 2 ^ rb, tb_count = ?count, tb_table = table\<rparr>"
    have "decodes type ?work f codes (fill_rest t) rb hold" if b: "built type ?work f ?ws rb t" for t hold
    proof (cases "share f codes = 2 ^ 15")
      case True
      then show ?thesis by (rule decodes_complete [OF f lim _ rb(2) b])
    next
      case False
      then have hi1: "longest f codes = 1" "share f codes < 2 ^ 15" using fits by auto
      then have "rb = 1" using hi(5,6) by (auto simp: rb_def root_of_def)
      moreover have "\<forall>s < codes. f s \<le> 1" using hi(1) hi1 by simp
      ultimately show ?thesis using decodes_single [OF lim _ hi1(2) ne] b by simp
    qed
    moreover have "\<not> (\<exists>k < length ?ws. rb < f (?ws ! k))" if "\<forall>s < codes. f s \<le> bits" using short [OF that] root by force
    ultimately show ?thesis
      using build fits False unfolding unfold
      by (cases "table_loop codes type lens lens_index ?work 0 rb (last_used ?count 15) ?t0") (auto split: sum.splits)
  qed
qed

section \<open>The shape of the result\<close>

lemma fill_entries_length: "fill_entries i incr fill v table = Some table' \<Longrightarrow> length table' = length table"
proof (induction i incr fill v table rule: fill_entries.induct)
  case (1 i incr fill v table)
  have g: "\<not> (incr = 0 \<or> fill < incr)" using "1.prems" by (subst (asm) fill_entries.simps) (auto split: if_splits)
  note IH = "1.IH" [OF g refl refl]
  show ?case
  proof (cases "fill - incr = 0")
    case True
    then show ?thesis using g "1.prems" by (subst (asm) fill_entries.simps) (auto simp: Let_def)
  next
    case False
    then show ?thesis using g IH "1.prems" by (subst (asm) fill_entries.simps) (simp add: Let_def)
  qed
qed

lemma table_turn_length:
  assumes "table_turn type lens lens_index work table_index root_bits max_len t = Some turn"
  shows "length (case turn of Full table \<Rightarrow> table | Finished t' \<Rightarrow> tb_table t' | Continue t' \<Rightarrow> tb_table t') = length (tb_table t)"
  using assms
  by (auto simp: table_turn_def enter_symbol_def new_sub_table_def Let_def dest!: fill_entries_length
      split: option.splits sum.splits if_splits prod.splits)

lemma table_loop_length:
  "table_loop n type lens lens_index work table_index root_bits max_len t = Some res \<Longrightarrow>
    length (case res of Inl table \<Rightarrow> table | Inr t' \<Rightarrow> tb_table t') = length (tb_table t)"
proof (induction n arbitrary: t)
  case (Suc n)
  then obtain turn where "table_turn type lens lens_index work table_index root_bits max_len t = Some turn"
    by (auto split: option.splits)
  then show ?case using Suc table_turn_length by (fastforce split: turn.splits)
qed simp

lemma sort_symbols_length [simp]: "length (sort_symbols lens lens_index codes offs work) = length work"
proof -
  have "length (snd (foldl (sort_symbol lens lens_index) s xs)) = length (snd s)" for s xs
    by (induction xs arbitrary: s) (auto simp: sort_symbol_def Let_def split: prod.splits)
  then show ?thesis by (simp add: sort_symbols_def)
qed

lemma inflate_table_shape:
  assumes "inflate_table type lens lens_index codes table table_index work bits = Some res" "bits \<le> 15"
  shows "length (tr_table res) = length table" "length (tr_work res) = length work" "tr_bits res \<le> 15"
proof -
  let ?count = "count_lens lens lens_index codes"
  have m: "last_used ?count 15 \<le> 15" using last_used_spec by blast
  then have f: "last_used ?count 15 \<noteq> 0 \<Longrightarrow> first_used ?count (last_used ?count 15) 1 \<le> 15"
    using first_used_spec [of 1 "last_used ?count 15" ?count] by linarith
  show "length (tr_table res) = length table" "length (tr_work res) = length work" "tr_bits res \<le> 15"
    using assms m f
    by (auto simp: inflate_table_def MAXBITS_def Let_def fill_rest_def dest!: table_loop_length split: option.splits sum.splits if_splits)
qed
lemma inflate_table_spec:
  fixes lens :: "nat list" and lens_index codes bits :: nat and work :: "nat list"
  defines "f \<equiv> \<lambda>s. lens ! (lens_index + s)"
  assumes "\<forall>s < codes. f s \<le> 15" and "codes \<le> code_limit type" and "codes \<le> length work"
    and "2 \<le> length table" and "table_room type f codes bits (length table)"
  shows "\<exists>res. inflate_table type lens lens_index codes table 0 work bits = Some res \<and>
    (tr_ret res = - 1 \<longleftrightarrow> share f codes > 2 ^ 15 \<or>
      share f codes < 2 ^ 15 \<and> (\<exists>s < codes. f s \<noteq> 0) \<and> (type = CODES \<or> (\<exists>s < codes. 1 < f s))) \<and>
    tr_ret res \<in> {- 1, 0, 1} \<and>
    ((\<forall>s < codes. f s \<le> bits) \<and> \<not> exceeds type (2 ^ bits) \<longrightarrow> tr_ret res \<noteq> 1) \<and>
    (tr_ret res = 0 \<longrightarrow> (\<forall>hold. decodes type (tr_work res) f codes (tr_table res) (tr_bits res) hold))"
proof (cases "order f codes = []")
  case True
  let ?count = "count_lens lens lens_index codes"
  note f = assms(2)
  have C: "\<forall>l \<le> 15. ?count ! l = int (number f codes l)"
    using count_lens_number [of codes lens lens_index] f by (simp add: f_def)
  have mx: "last_used ?count 15 = 0" using last_used_order [OF C f] True by simp
  have z: "\<not> (\<exists>s < codes. f s \<noteq> 0)" using True f in_order [of _ f codes] by (metis Suc_leI empty_iff list.set(1) neq0_conv One_nat_def)
  have "share f codes = 0" using starts_all [of f codes] True by (simp add: starts_def)
  then show ?thesis
    using decodes_nothing [OF f True assms(5), of type work] z by (auto simp: inflate_table_def MAXBITS_def mx Let_def)
next
  case ne: False
  have fd: "f = (\<lambda>s. lens ! (lens_index + s))" by (simp add: f_def)
  note f = assms(2) and hi = longest_props [OF assms(2) ne]
  have big: "(\<exists>s < codes. 1 < f s) \<longleftrightarrow> longest f codes \<noteq> 1" "\<exists>s < codes. f s \<noteq> 0"
    using hi(1,2,4) by (metis less_one linorder_neqE_nat not_less, metis)
  show ?thesis
  proof (cases "share f codes > 2 ^ 15 \<or> share f codes < 2 ^ 15 \<and> (type = CODES \<or> longest f codes \<noteq> 1)")
    case True
    then show ?thesis
      using big inflate_table_unfold [where lens = lens and lens_index = lens_index and codes = codes and work = work and table = table and type = type and bits = bits, OF fd f ne, folded longest_def]
      by auto
  next
    case False
    then show ?thesis
      using big inflate_table_fits [where lens = lens and lens_index = lens_index and codes = codes and work = work and table = table and type = type and bits = bits, OF fd f assms(3,4,6) ne False] by auto
  qed
qed

text \<open>
  Property C5. \<open>inflate_table\<close> always returns. It refuses exactly the over-subscribed and the incomplete
  sets of lengths, a single code of one bit for lengths or distances excepted. A table it returns
  decodes every bit buffer as the Huffman code of RFC 1951 does: to the symbol whose code the buffer
  begins with, whatever follows, with the length of that code, and otherwise to the invalid code. It
  runs out of room only where sub-tables are needed or the root table is too large.
\<close>

theorem inflate_table_correct:
  fixes lens :: "nat list" and lens_index codes bits :: nat and work :: "nat list"
  defines "f \<equiv> \<lambda>s. lens ! (lens_index + s)"
  assumes "\<forall>s < codes. f s \<le> 15" and "codes \<le> code_limit type" and "codes \<le> length work"
    and "2 \<le> length table" and "table_room type f codes bits (length table)"
  shows "\<exists>res. inflate_table type lens lens_index codes table 0 work bits = Some res \<and>
    (tr_ret res = - 1 \<longleftrightarrow> share f codes > 2 ^ 15 \<or>
      share f codes < 2 ^ 15 \<and> (\<exists>s < codes. f s \<noteq> 0) \<and> (type = CODES \<or> (\<exists>s < codes. 1 < f s))) \<and>
    tr_ret res \<in> {- 1, 0, 1} \<and>
    ((\<forall>s < codes. f s \<le> bits) \<and> \<not> exceeds type (2 ^ bits) \<longrightarrow> tr_ret res \<noteq> 1) \<and>
    (tr_ret res = 0 \<longrightarrow> (\<forall>hold. decodes type (tr_work res) f codes (tr_table res) (tr_bits res) hold))"
  using assms(2-) unfolding f_def by (rule inflate_table_spec)

text \<open>Distances with codes of one and two bits.\<close>

definition demo_table :: table_result where
  "demo_table = the (inflate_table DISTS [2, 1, 2] 0 3 [0, 0, 0, 0] 0 [0, 0, 0] 2)"

theorem inflate_table_correct_witness:
  "tr_ret demo_table = 0 \<and> decodes DISTS (tr_work demo_table) (\<lambda>s. [2, 1, 2] ! s) 3 (tr_table demo_table) (tr_bits demo_table) 7"
proof -
  have s: "\<forall>s < 3. [2, 1, 2] ! s \<le> (2 :: nat)" by (simp add: less_Suc_eq numeral_3_eq_3)
  then have f: "\<forall>s < 3. [2, 1, 2] ! (0 + s) \<le> (15 :: nat)" by fastforce
  have room: "table_room DISTS (\<lambda>s. [2, 1, 2] ! (0 + s)) 3 2 (length [0 :: int, 0, 0, 0])"
    using s by (simp add: table_room_def)
  have sh: "share (\<lambda>s. [2, 1, 2] ! (0 + s)) 3 = 2 ^ 15"
  proof -
    have "{1..<16 :: nat} = {1, 2, 3, 4, 5, 6, 7, 8, 9, 10, 11, 12, 13, 14, 15}" by (auto simp: numeral_eq_Suc less_Suc_eq)
    moreover have "[0..<3] = [0, 1, 2]" by (simp add: upt_rec)
    ultimately show ?thesis by (simp add: share_def number_def)
  qed
  have ex: "\<not> exceeds DISTS (2 ^ 2)" by (simp add: exceeds_def ENOUGH_DISTS_def)
  show ?thesis
    using inflate_table_correct [of 3 "[2, 1, 2]" 0 DISTS "[0, 0, 0]" "[0, 0, 0, 0]" 2, OF f _ _ _ room] s ex sh
    by (auto simp: demo_table_def code_limit_def)
qed

end
