(* ===== verification/InflateCodes.thy ===== *)
theory InflateCodes
  imports InflateBits InflateDecode
begin

text \<open>
  Reading a symbol: \<open>read_code\<close> of the slow loop and the two levels of \<open>inflate_fast\<close>, over a table that
  decodes a code, give the symbol with which the bit stream begins, although they see only the bits
  that have been pulled so far.
\<close>

section \<open>Bits that are not there yet do not matter\<close>

lemma begins_with_unique:
  assumes f: "\<forall>s < n. f s \<le> 15" and sh: "share f n \<le> 2 ^ 15"
    and s: "s < n" "begins_with f n hold s" and t: "t < n" "begins_with f n hold t"
  shows "s = t"
proof -
  have p: "prefix_code f (order f n)" using prefix_code_order sh by blast
  have s': "1 \<le> f s" "f s \<le> 15" "1 \<le> f t" "f t \<le> 15" using s t f by (auto simp: begins_with_def)
  note ps = order_place [of s n f, OF s(1) s'(1,2)] and pt = order_place [of t n f, OF t(1) s'(3,4)]
  have hs: "hold mod 2 ^ f s = hcode f (order f n) (place f n s)" "hold mod 2 ^ f t = hcode f (order f n) (place f n t)"
    using begins_with_hcode [of s n f hold, OF s(1) s'(1,2)] begins_with_hcode [of t n f hold, OF t(1) s'(3,4)] s t by auto
  have no: False if lt: "place f n a < place f n b" and a: "a \<in> {s, t}" and b: "b \<in> {s, t}" for a b
  proof -
    have o: "order f n ! place f n a = a" "order f n ! place f n b = b" "place f n b < length (order f n)" using a b ps pt by auto
    have "f a \<le> f b" using sorted_order [of "place f n a" "place f n b" f n] lt o by simp
    then have "hold mod 2 ^ f b mod 2 ^ f a = hold mod 2 ^ f a" by (simp add: mod_mod_cancel le_imp_power_dvd)
    moreover have "hold mod 2 ^ f a = hcode f (order f n) (place f n a)" "hold mod 2 ^ f b = hcode f (order f n) (place f n b)"
      using hs a b by auto
    ultimately show False using prefix_free [OF p lt o(3)] o(1) by simp
  qed
  have "place f n s = place f n t" using no [of s t] no [of t s] by (cases "place f n s" "place f n t" rule: linorder_cases) auto
  then show ?thesis using ps pt by metis
qed

lemma rfc_decode_iff:
  assumes "\<forall>s < n. f s \<le> 15" and "share f n \<le> 2 ^ 15"
  shows "rfc_decode f n hold = Some s \<longleftrightarrow> s < n \<and> begins_with f n hold s"
proof
  assume "rfc_decode f n hold = Some s"
  then show "s < n \<and> begins_with f n hold s" by (auto simp: rfc_decode_def find_Some_iff)
next
  assume s: "s < n \<and> begins_with f n hold s"
  then have "rfc_decode f n hold \<noteq> None" by (auto simp: rfc_decode_def find_None_iff)
  then obtain t where t: "rfc_decode f n hold = Some t" by blast
  then have "t < n" "begins_with f n hold t" by (auto simp: rfc_decode_def find_Some_iff)
  then show "rfc_decode f n hold = Some s" using begins_with_unique [OF assms, of s hold t] s t by simp
qed

lemma begins_with_stable:
  assumes "f s \<le> k" "v mod 2 ^ k = hold mod 2 ^ k"
  shows "begins_with f n v s = begins_with f n hold s"
proof -
  have "v mod 2 ^ k mod 2 ^ f s = v mod 2 ^ f s" "hold mod 2 ^ k mod 2 ^ f s = hold mod 2 ^ f s"
    using assms(1) by (simp_all add: mod_mod_cancel le_imp_power_dvd)
  then show ?thesis using assms(2) by (simp add: begins_with_def)
qed

text \<open>A code of acceptable lengths, and a table for it.\<close>

definition code_ok :: "nat list \<Rightarrow> bool" where
  "code_ok ls \<longleftrightarrow> (\<forall>l \<in> set ls. l \<le> 15) \<and> acceptable True ls"

abbreviation decode :: "nat list \<Rightarrow> nat \<Rightarrow> nat option" where
  "decode ls \<equiv> rfc_decode (\<lambda>s. ls ! s) (length ls)"

lemma code_okD:
  assumes "code_ok ls"
  shows "\<forall>s < length ls. ls ! s \<le> 15" "share (\<lambda>s. ls ! s) (length ls) \<le> 2 ^ 15"
  using assms by (auto simp: code_ok_def acceptable_def)

lemma decode_SomeD:
  assumes "decode ls v = Some s"
  shows "s < length ls" "0 < ls ! s"
  using assms by (auto simp: rfc_decode_def find_Some_iff begins_with_def)

lemma decode_stable:
  assumes c: "code_ok ls" and v: "v mod 2 ^ k = hold mod 2 ^ k" and s: "decode ls hold = Some s" "ls ! s \<le> k"
  shows "decode ls v = Some s"
  using s(1) begins_with_stable [of "\<lambda>s. ls ! s" s k v hold "length ls", OF s(2) v]
  unfolding rfc_decode_iff [OF code_okD [OF c]] by simp

lemma decode_None_stable:
  assumes c: "code_ok ls" and v: "v mod 2 ^ k = hold mod 2 ^ k" and n: "decode ls hold = None" and k: "0 < k"
  shows "decode ls v = None"
proof (cases "share (\<lambda>s. ls ! s) (length ls) = 2 ^ 15")
  case True
  then show ?thesis using no_code_complete [OF code_okD(1) [OF c] True] n by blast
next
  case False
  then have "\<forall>l \<in> set ls. l \<le> 1" using c by (auto simp: code_ok_def acceptable_def)
  then have l: "ls ! s \<le> k" if "s < length ls" for s using that k nth_mem by fastforce
  show ?thesis
  proof (rule ccontr)
    assume "decode ls v \<noteq> None"
    then obtain s where s: "decode ls v = Some s" by blast
    then have "decode ls hold = Some s" using decode_stable [OF c v [symmetric] s l [OF decode_SomeD(1) [OF s]]] by simp
    then show False using n by simp
  qed
qed

definition table_for :: "code_type \<Rightarrow> nat list \<Rightarrow> int list \<Rightarrow> nat \<Rightarrow> bool" where
  "table_for type ls table bits \<longleftrightarrow> bits \<le> 15 \<and> code_ok ls \<and> length ls \<le> code_limit type \<and>
     (\<exists>work. \<forall>hold. decodes type work (\<lambda>s. ls ! s) (length ls) table bits hold)"

lemma symbol_entry_work: "s < code_limit type \<Longrightarrow> symbol_entry type work s = symbol_entry type [] s"
  by (cases type) (auto simp: symbol_entry_def symbol_end_def symbol_extra_def symbol_base_def code_limit_def)

text \<open>What \<open>decodes\<close> says, with the symbol's entry freed of the work array.\<close>

lemma table_for_Some:
  assumes t: "table_for type ls table bits" and s: "decode ls hold = Some s"
  shows "fst (lookup_code table bits hold) = ls ! s"
    "(here_op (snd (lookup_code table bits hold)), here_val (snd (lookup_code table bits hold))) = symbol_entry type [] s"
    "is_link (first_at table bits hold) \<longleftrightarrow> bits < ls ! s"
    "is_link (first_at table bits hold) \<Longrightarrow> here_bits (first_at table bits hold) = bits"
    "s < length ls" "s < code_limit type" "0 < ls ! s" "ls ! s \<le> 15"
proof -
  obtain work where d: "decodes type work (\<lambda>s. ls ! s) (length ls) table bits hold" using t by (auto simp: table_for_def)
  show l: "s < length ls" "0 < ls ! s" using decode_SomeD [OF s] .
  then show lim: "s < code_limit type" using t by (auto simp: table_for_def)
  show "ls ! s \<le> 15" using t l code_okD(1) [of ls] by (auto simp: table_for_def)
  show "fst (lookup_code table bits hold) = ls ! s" "is_link (first_at table bits hold) \<longleftrightarrow> bits < ls ! s"
    "is_link (first_at table bits hold) \<Longrightarrow> here_bits (first_at table bits hold) = bits"
    using d s by (auto simp: decodes_def)
  show "(here_op (snd (lookup_code table bits hold)), here_val (snd (lookup_code table bits hold))) = symbol_entry type [] s"
    using d s symbol_entry_work [OF lim, of work] by (simp add: decodes_def)
qed

lemma table_for_None:
  assumes t: "table_for type ls table bits" and s: "decode ls hold = None"
  shows "lookup_code table bits hold = (1, table_entry 1 64 0)" "first_at table bits hold = table_entry 1 64 0"
    "\<not> is_link (first_at table bits hold)"
proof -
  obtain work where d: "decodes type work (\<lambda>s. ls ! s) (length ls) table bits hold" using t by (auto simp: table_for_def)
  then show "lookup_code table bits hold = (1, table_entry 1 64 0)" and f: "first_at table bits hold = table_entry 1 64 0"
    using s by (auto simp: decodes_def)
  show "\<not> is_link (first_at table bits hold)" unfolding f by (rule invalid_entry)
qed

lemma lookup_bounds:
  assumes "table_for type ls table bits"
  shows "0 < fst (lookup_code table bits hold)" "fst (lookup_code table bits hold) \<le> 15"
  using table_for_Some [OF assms, of hold] table_for_None [OF assms, of hold] by (cases "decode ls hold"; force)+

text \<open>Bits beyond those a code takes do not change what the lookup finds.\<close>

lemma lookup_stable:
  assumes t: "table_for type ls table bits" and n: "fst (lookup_code table bits hold) \<le> k" and v: "v mod 2 ^ k = hold mod 2 ^ k"
  shows "decode ls v = decode ls hold" "fst (lookup_code table bits v) = fst (lookup_code table bits hold)"
proof -
  have c: "code_ok ls" using t by (simp add: table_for_def)
  show d: "decode ls v = decode ls hold"
  proof (cases "decode ls hold")
    case None
    then have "0 < k" using n lookup_bounds(1) [OF t, of hold] by linarith
    then show ?thesis using decode_None_stable [OF c v None] None by simp
  next
    case (Some s)
    then show ?thesis using decode_stable [OF c v Some] table_for_Some(1) [OF t Some] n by simp
  qed
  show "fst (lookup_code table bits v) = fst (lookup_code table bits hold)"
    using table_for_Some(1) [OF t] table_for_None(1) [OF t] d by (cases "decode ls hold") simp_all
qed

section \<open>Pulling bytes until there are enough bits\<close>

text \<open>What happened to the buffer; \<open>need\<close> gives the bits that are needed, as far as \<open>hold\<close> tells.\<close>

definition pulled :: "(int \<Rightarrow> nat) \<Rightarrow> run \<Rightarrow> run \<Rightarrow> bool" where
  "pulled bits_needed r r' \<longleftrightarrow> same_but_buffer r r' \<and> buffer_ok r' \<and> (\<forall>F. bitstream r' F = bitstream r F) \<and>
     r_bits r \<le> r_bits r' \<and> r_hold r' mod 2 ^ r_bits r = r_hold r \<and>
     (r_bits r' = r_bits r \<or> r_bits r + 8 \<le> r_bits r' \<and> r_bits r' - 8 < bits_needed (r_hold r' mod 2 ^ (r_bits r' - 8)))"

lemma pulled_refl: "buffer_ok r \<Longrightarrow> pulled n r r"
  by (simp add: pulled_def buffer_ok_def)

lemma pull_byte_hold:
  assumes "buffer_ok r" "0 < r_have r" "r_bits r \<le> 23"
  shows "r_hold (pull_byte r) mod 2 ^ r_bits r = r_hold r"
proof -
  let ?b = "at (r_input r) (r_next r)"
  have b: "0 \<le> ?b" "?b < 256" using at_byte assms(1) by (auto simp: buffer_ok_def)
  have h: "0 \<le> r_hold r" "r_hold r < 2 ^ r_bits r" using assms(1) by (auto simp: buffer_ok_def)
  have "?b * 2 ^ r_bits r < 2147483648"
    using shift_add [OF h b] h(1) power_increasing [of "r_bits r + 8" 31 "2::int"] assms(3) by simp
  then have "js_shl ?b (r_bits r) = ?b * 2 ^ r_bits r" using b assms(3) by (intro js_shl_mult) auto
  then show ?thesis using h by (simp add: pull_byte_def)
qed

lemma int_mod_mod: "k \<le> n \<Longrightarrow> (x :: int) mod 2 ^ n mod 2 ^ k = x mod 2 ^ k"
  by (simp add: mod_mod_cancel le_imp_power_dvd)

lemma pulled_trans:
  assumes p: "pulled n r r1" and q: "pulled n r1 r2"
  shows "pulled n r r2"
proof -
  note P = p [unfolded pulled_def] and Q = q [unfolded pulled_def]
  have "r_hold r2 mod 2 ^ r_bits r = r_hold r2 mod 2 ^ r_bits r1 mod 2 ^ r_bits r" using P by (simp add: int_mod_mod)
  also have "\<dots> = r_hold r" using P Q by simp
  finally have hold: "r_hold r2 mod 2 ^ r_bits r = r_hold r" .
  have r1: "r_hold r1 mod 2 ^ r_bits r1 = r_hold r1" using P by (simp add: buffer_ok_def)
  have e: "r_hold r2 mod 2 ^ (r_bits r1 - 8) = r_hold r1 mod 2 ^ (r_bits r1 - 8)"
  proof -
    have "r_hold r2 mod 2 ^ (r_bits r1 - 8) = r_hold r2 mod 2 ^ r_bits r1 mod 2 ^ (r_bits r1 - 8)" by (simp add: int_mod_mod)
    then show ?thesis using Q by simp
  qed
  have last: "r_bits r2 = r_bits r \<or> r_bits r + 8 \<le> r_bits r2 \<and> r_bits r2 - 8 < n (r_hold r2 mod 2 ^ (r_bits r2 - 8))"
    using P Q e by (cases "r_bits r2 = r_bits r1") auto
  show ?thesis unfolding pulled_def
    using P Q hold last same_but_buffer_trans [of r r1 r2] by simp
qed

lemma pulled_byte:
  assumes r: "buffer_ok r" "0 < r_have r" "r_bits r \<le> 23" and n: "r_bits r < bits_needed (r_hold r)"
    and p: "pulled bits_needed (pull_byte r) r'"
  shows "pulled bits_needed r r'"
proof -
  note P = p [unfolded pulled_def pull_byte_sel] and h = pull_byte_hold [OF r]
  have "r_hold r' mod 2 ^ r_bits r = r_hold r' mod 2 ^ (r_bits r + 8) mod 2 ^ r_bits r" by (simp add: int_mod_mod)
  also have "\<dots> = r_hold r" using P h by simp
  finally have hold: "r_hold r' mod 2 ^ r_bits r = r_hold r" .
  have last: "r_bits r + 8 \<le> r_bits r' \<and> r_bits r' - 8 < bits_needed (r_hold r' mod 2 ^ (r_bits r' - 8))"
  proof (cases "r_bits r' = r_bits r + 8")
    case True
    then show ?thesis using n hold by simp
  next
    case False
    then show ?thesis using P by auto
  qed
  have "same_but_buffer r r'" using P same_but_buffer_trans [OF pull_byte_frame [OF r(2)]] by blast
  moreover have "bitstream r' F = bitstream r F" for F using P pull_byte_ok(2) [OF r] by simp
  ultimately show ?thesis unfolding pulled_def using P hold last by simp
qed

lemma pull_code_ok:
  assumes "buffer_ok r" and "\<And>h. 0 \<le> h \<Longrightarrow> h mod 2 ^ r_bits r = r_hold r \<Longrightarrow> k + here_bits (entry h) \<le> 24"
  shows "case pull_code entry k r of
      Inl r' \<Rightarrow> pulled (\<lambda>h. k + here_bits (entry h)) r r' \<and> r_have r' = 0 \<and> r_bits r' < k + here_bits (entry (r_hold r'))
    | Inr (here, r') \<Rightarrow> pulled (\<lambda>h. k + here_bits (entry h)) r r' \<and> here = entry (r_hold r') \<and>
        k + here_bits (entry (r_hold r')) \<le> r_bits r'"
  using assms
proof (induction entry k r rule: pull_code.induct)
  case (1 entry k r)
  show ?case
  proof (cases "k + here_bits (entry (r_hold r)) \<le> r_bits r \<or> r_have r = 0")
    case True
    then show ?thesis using "1.prems"(1) by (subst pull_code.simps) (auto simp: Let_def pulled_refl)
  next
    case False
    have h: "0 \<le> r_hold r" "r_hold r mod 2 ^ r_bits r = r_hold r" using "1.prems"(1) by (auto simp: buffer_ok_def)
    have b: "r_bits r \<le> 23" using "1.prems"(2) [OF h] False by simp
    have have0: "0 < r_have r" using False by simp
    note pb = pull_byte_ok [OF "1.prems"(1) have0 b] and ph = pull_byte_hold [OF "1.prems"(1) have0 b]
    have bound: "k + here_bits (entry h) \<le> 24" if "0 \<le> h" "h mod 2 ^ r_bits (pull_byte r) = r_hold (pull_byte r)" for h
    proof -
      have "h mod 2 ^ r_bits r = h mod 2 ^ (r_bits r + 8) mod 2 ^ r_bits r" by (simp add: int_mod_mod)
      also have "\<dots> = r_hold r" using that(2) ph by (simp add: pull_byte_sel)
      finally show ?thesis using "1.prems"(2) that(1) by blast
    qed
    have e: "pull_code entry k r = pull_code entry k (pull_byte r)" using False by (subst pull_code.simps) (simp add: Let_def)
    have need: "r_bits r < k + here_bits (entry (r_hold r))" using False by simp
    have "\<not> k + here_bits (entry (r_hold r)) \<le> r_bits r" "r_have r \<noteq> 0" using False by auto
    note IH = "1.IH" [OF refl this pb(1) bound]
    show ?thesis unfolding e
      using IH pulled_byte [of r "\<lambda>h. k + here_bits (entry h)", OF "1.prems"(1) have0 b need] by (auto split: sum.splits)
  qed
qed

lemma pull_code_Inl:
  assumes "pull_code entry k r = Inl r'" "buffer_ok r"
    "\<And>h. 0 \<le> h \<Longrightarrow> h mod 2 ^ r_bits r = r_hold r \<Longrightarrow> k + here_bits (entry h) \<le> 24"
  shows "pulled (\<lambda>h. k + here_bits (entry h)) r r'" "r_have r' = 0" "r_bits r' < k + here_bits (entry (r_hold r'))"
  using pull_code_ok [of r k entry, OF assms(2,3)] assms(1) by auto

lemma pull_code_Inr:
  assumes "pull_code entry k r = Inr (here, r')" "buffer_ok r"
    "\<And>h. 0 \<le> h \<Longrightarrow> h mod 2 ^ r_bits r = r_hold r \<Longrightarrow> k + here_bits (entry h) \<le> 24"
  shows "pulled (\<lambda>h. k + here_bits (entry h)) r r'" "here = entry (r_hold r')" "k + here_bits (entry (r_hold r')) \<le> r_bits r'"
  using pull_code_ok [of r k entry, OF assms(2,3)] assms(1) by auto

section \<open>Both levels of a table\<close>

lemma nat_mod_power: "0 \<le> h \<Longrightarrow> nat (h mod 2 ^ k) = nat h mod 2 ^ k"
  by (simp add: nat_mod_distrib nat_power_eq)

lemma first_entry_at: "0 \<le> hold \<Longrightarrow> bits \<le> 30 \<Longrightarrow> first_entry table bits hold = first_at table bits (nat hold)"
  by (simp add: first_entry_def first_at_mod low_bits_nat)

lemma here_op_less: "here_op here < 256"
  by (simp add: here_op_def js_and_masks nat_less_iff)

lemma link_op_less: "is_link here \<Longrightarrow> here_op here < 16"
proof -
  assume "is_link here"
  then have z: "here_op here AND 0xf0 = 0" by (simp add: is_link_def)
  have "int (here_op here) AND 2 ^ 4 * (2 ^ 4 - 1) = 0" using arg_cong [OF z, of int] by (simp add: of_nat_and_eq)
  then have "int (here_op here) div 2 ^ 4 mod 2 ^ 4 = 0" unfolding and_high_mask by simp
  moreover have "int (here_op here) div 2 ^ 4 < 2 ^ 4" using here_op_less [of here] by (intro div_upto [where m = 256]) auto
  ultimately have "int (here_op here) div 16 = 0" by (simp add: mod_pos_pos_trivial pos_imp_zdiv_nonneg_iff)
  then show ?thesis by simp
qed

lemma link_entry_at:
  "0 \<le> hold \<Longrightarrow> here_bits here \<le> 15 \<Longrightarrow> is_link here \<Longrightarrow>
    link_entry table here hold =
      at table (here_val here + drop_bit (here_bits here) (nat hold AND (2 ^ (here_bits here + here_op here) - 1)))"
  using link_op_less [of here] unfolding link_entry_def nat_and_mask by (simp add: low_bits_nat)

lemma lookup_first: "\<not> is_link (first_at table bits hold) \<Longrightarrow>
    lookup_code table bits hold = (here_bits (first_at table bits hold), first_at table bits hold)"
  by (simp add: lookup_code_def first_at_def Let_def)

lemma lookup_link:
  assumes "first_at table bits hold = here" "is_link here"
  shows "lookup_code table bits hold =
    (let e = at table (here_val here + drop_bit (here_bits here) (hold AND (2 ^ (here_bits here + here_op here) - 1)))
     in (here_bits here + here_bits e, e))"
  using assms by (simp add: lookup_code_def first_at_def Let_def)

lemma first_at_cong: "v mod 2 ^ bits = hold mod 2 ^ bits \<Longrightarrow> first_at table bits v = first_at table bits hold"
  by (simp add: first_at_mod)

text \<open>
  The number of bits that the pending code takes, as far as \<open>hold\<close> tells. A buffer is \<open>short\<close> if it holds
  less than a byte or less than the pending code, as it does wherever a code is read.
\<close>

definition code_bits :: "int list \<Rightarrow> nat \<Rightarrow> int \<Rightarrow> nat" where
  "code_bits table bits hold = fst (lookup_code table bits (nat hold))"

definition short :: "int list \<Rightarrow> nat \<Rightarrow> run \<Rightarrow> bool" where
  "short table bits r \<longleftrightarrow> r_bits r < 8 \<or> r_bits r < code_bits table bits (r_hold r)"

text \<open>The symbol that the stream begins with, or the invalid code.\<close>

definition code_entry :: "code_type \<Rightarrow> nat list \<Rightarrow> bits \<Rightarrow> int \<Rightarrow> bits \<Rightarrow> bool" where
  "code_entry type ls b here b' \<longleftrightarrow>
     (case ref_symbol ls b of
        Some (s, b'') \<Rightarrow> s < length ls \<and> s < code_limit type \<and> (here_op here, here_val here) = symbol_entry type [] s \<and> b'' = b'
      | None \<Rightarrow> here = table_entry 1 64 0)"

lemma code_bits_stable:
  assumes t: "table_for type ls table bits" and v: "0 \<le> v" "0 \<le> h" "v mod 2 ^ k = h mod 2 ^ k" and n: "code_bits table bits h \<le> k"
  shows "code_bits table bits v = code_bits table bits h" "decode ls (nat v) = decode ls (nat h)"
proof -
  have "nat v mod 2 ^ k = nat h mod 2 ^ k" using v by (simp flip: nat_mod_power)
  then show "code_bits table bits v = code_bits table bits h" "decode ls (nat v) = decode ls (nat h)"
    using lookup_stable [OF t, of "nat h" k "nat v"] n by (simp_all add: code_bits_def)
qed

text \<open>Once the code is there, dropping it leaves what follows it.\<close>

lemma dropped_code:
  assumes t: "table_for type ls table bits" and r: "buffer_ok r" and l: "lookup_code table bits (nat (r_hold r)) = (n, here)" and n: "n \<le> r_bits r"
  shows "code_entry type ls (bitstream r F) here (bitstream (drop_bits n r) F)"
proof -
  obtain c v where b: "bitstream r F = (c, v)" by fastforce
  have hold: "0 \<le> r_hold r" using r by (simp add: buffer_ok_def)
  have v: "v = nat (r_hold r) + 2 ^ r_bits r * bytes_value (unread r @ F)" "r_bits r \<le> c"
    using b by (auto simp: bitstream_def)
  have "v mod 2 ^ r_bits r = nat (r_hold r) mod 2 ^ r_bits r" using mod_add_mult_power [OF le_refl] v(1) by simp
  then have d: "decode ls v = decode ls (nat (r_hold r))" using lookup_stable(1) [OF t] l n by simp
  note drop = drop_bits_ok(2) [OF r n, of F, unfolded b]
  show ?thesis
  proof (cases "decode ls (nat (r_hold r))")
    case None
    then show ?thesis using table_for_None [OF t None] l d by (simp add: code_entry_def ref_symbol_def b)
  next
    case (Some s)
    note S = table_for_Some [OF t Some]
    have "n = ls ! s" using S(1) l by simp
    moreover have "take_bits n (c, v) = Some (v mod 2 ^ n, c - n, v div 2 ^ n)" using n v(2) by (simp add: take_bits_def)
    ultimately show ?thesis using S(2,5,6) l d Some drop n v(2) by (simp add: code_entry_def ref_symbol_def b)
  qed
qed

lemma code_pending:
  assumes t: "table_for type ls table bits" and r: "buffer_ok r" "r_have r = 0" and n: "r_bits r < code_bits table bits (r_hold r)"
  shows "ref_symbol ls (bitstream r []) = None"
proof (cases "decode ls (nat (r_hold r))")
  case None
  then show ?thesis using r by (simp add: ref_symbol_def bitstream_def unread_def)
next
  case (Some s)
  then show ?thesis using r n table_for_Some(1) [OF t Some] by (simp add: ref_symbol_def bitstream_def unread_def code_bits_def)
qed

text \<open>What \<open>read_code\<close> needs, after a pull, of the bits before it: the leftover is less than a byte.\<close>

definition link_pred :: "(nat \<Rightarrow> bool) \<Rightarrow> int list \<Rightarrow> nat \<Rightarrow> bool" where
  "link_pred linked table bits \<longleftrightarrow> (\<forall>hold. linked (here_op (first_at table bits hold)) = is_link (first_at table bits hold))"

lemma pulled_code:
  assumes t: "table_for type ls table bits" and p: "pulled n r r'"
    and le: "\<And>h. 0 \<le> h \<Longrightarrow> h mod 2 ^ r_bits r = r_hold r \<Longrightarrow> n h \<le> code_bits table bits h" and r: "buffer_ok r"
  shows "pulled (code_bits table bits) r r'"
proof -
  have "n (r_hold r' mod 2 ^ (r_bits r' - 8)) \<le> code_bits table bits (r_hold r' mod 2 ^ (r_bits r' - 8))"
    if "r_bits r' \<noteq> r_bits r"
  proof (rule le)
    show "0 \<le> r_hold r' mod 2 ^ (r_bits r' - 8)" by simp
    have "r_hold r' mod 2 ^ (r_bits r' - 8) mod 2 ^ r_bits r = r_hold r' mod 2 ^ r_bits r"
      using p that by (intro int_mod_mod) (auto simp: pulled_def)
    then show "r_hold r' mod 2 ^ (r_bits r' - 8) mod 2 ^ r_bits r = r_hold r" using p by (simp add: pulled_def)
  qed
  then show ?thesis using p unfolding pulled_def by auto
qed

lemma drop_bits_drop:
  assumes "buffer_ok r" "a + b \<le> 31" "a \<le> r_bits r"
  shows "drop_bits b (drop_bits a r) = drop_bits (a + b) r"
proof -
  have "r_hold (drop_bits b (drop_bits a r)) = r_hold r div 2 ^ a div 2 ^ b"
    using drop_bits_hold [OF drop_bits_ok(1) [OF assms(1,3)], of b] drop_bits_hold [OF assms(1), of a] assms(2) by simp
  also have "\<dots> = r_hold r div 2 ^ (a + b)" by (simp add: power_add zdiv_zmult2_eq)
  also have "\<dots> = r_hold (drop_bits (a + b) r)" using drop_bits_hold [OF assms(1,2)] by simp
  finally show ?thesis by (simp add: drop_bits_def)
qed

definition code_read :: "code_type \<Rightarrow> nat list \<Rightarrow> int list \<Rightarrow> nat \<Rightarrow> run \<Rightarrow> int \<Rightarrow> nat \<Rightarrow> run \<Rightarrow> bool" where
  "code_read type ls table bits r here n r' \<longleftrightarrow>
     same_but_buffer r r' \<and> buffer_ok r' \<and> (\<forall>F. code_entry type ls (bitstream r F) here (bitstream r' F)) \<and>
     (short table bits r \<longrightarrow> r_bits r' < 8) \<and> r_bits r' + 8 * r_have r' < r_bits r + 8 * r_have r"

lemma pulled_measure: "pulled n r r' \<Longrightarrow> r_bits r' + 8 * r_have r' = r_bits r + 8 * r_have r"
proof -
  assume "pulled n r r'"
  then have "bitstream r' [] = bitstream r []" by (simp add: pulled_def)
  then have "fst (bitstream r' []) = fst (bitstream r [])" by simp
  then show ?thesis by simp
qed

lemma pulled_leftover:
  assumes t: "table_for type ls table bits" and p: "pulled (code_bits table bits) r r'" and r: "buffer_ok r"
    and n: "code_bits table bits (r_hold r') \<le> r_bits r'"
  shows "r_bits r' = r_bits r \<or> r_bits r' - code_bits table bits (r_hold r') < 8"
    "short table bits r \<Longrightarrow> r_bits r' - code_bits table bits (r_hold r') < 8"
proof -
  let ?n = "code_bits table bits (r_hold r')"
  have h: "0 \<le> r_hold r'" "0 \<le> r_hold r" using p r by (auto simp: pulled_def buffer_ok_def)
  have less: "k < ?n" if k: "k < code_bits table bits g" and g: "0 \<le> g" "r_hold r' mod 2 ^ k = g mod 2 ^ k" for k g
  proof (rule ccontr)
    assume "\<not> k < ?n"
    then have "code_bits table bits g = ?n" using code_bits_stable(1) [OF t g(1) h(1) g(2) [symmetric]] by simp
    then show False using k \<open>\<not> k < ?n\<close> by simp
  qed
  show one: "r_bits r' = r_bits r \<or> r_bits r' - ?n < 8"
  proof (cases "r_bits r' = r_bits r")
    case False
    then have "r_bits r' - 8 < code_bits table bits (r_hold r' mod 2 ^ (r_bits r' - 8))" "r_bits r + 8 \<le> r_bits r'"
      using p by (auto simp: pulled_def)
    from less [OF this(1)] this(2) show ?thesis by simp
  qed simp
  show "r_bits r' - ?n < 8" if s: "short table bits r"
  proof (cases "r_bits r' = r_bits r \<and> \<not> r_bits r < 8")
    case True
    then have k: "r_bits r < code_bits table bits (r_hold r)" using s by (simp add: short_def)
    have "r_hold r' mod 2 ^ r_bits r = r_hold r mod 2 ^ r_bits r"
      using p r by (simp add: pulled_def buffer_ok_def)
    from less [OF k h(2) this] n True show ?thesis by simp
  next
    case False
    then show ?thesis using one by auto
  qed
qed

lemma read_dropped:
  assumes t: "table_for type ls table bits" and p: "pulled (code_bits table bits) r r1" and r: "buffer_ok r"
    and l: "lookup_code table bits (nat (r_hold r1)) = (n, here)" and n: "n \<le> r_bits r1"
  shows "code_read type ls table bits r here n (drop_bits n r1)"
proof -
  have P: "same_but_buffer r r1" "buffer_ok r1" "\<And>F. bitstream r1 F = bitstream r F" using p by (auto simp: pulled_def)
  have cb: "code_bits table bits (r_hold r1) = n" using l by (simp add: code_bits_def)
  have n0: "0 < n" using lookup_bounds(1) [OF t, of "nat (r_hold r1)"] l by simp
  show ?thesis
    unfolding code_read_def
    using P drop_bits_ok(1) [OF P(2) n] same_but_buffer_trans [OF P(1) drop_bits_frame] dropped_code [OF t P(2) l n]
      pulled_leftover(2) [OF t p r] pulled_measure [OF p] n n0 cb by (auto simp: drop_bits_sel)
qed

lemma read_code_ok:
  assumes t: "table_for type ls table bits" and lp: "link_pred linked table bits" and r: "buffer_ok r"
  shows "case read_code linked table bits r of
      Inl r' \<Rightarrow> pulled (code_bits table bits) r r' \<and> r_have r' = 0 \<and> r_bits r' < code_bits table bits (r_hold r')
    | Inr (here, n, r') \<Rightarrow> code_read type ls table bits r here n r'"
proof -
  have b15: "bits \<le> 15" using t by (simp add: table_for_def)
  have fe: "first_entry table bits h = first_at table bits (nat h)" if "0 \<le> h" for h using that b15 by (simp add: first_entry_at)
  have first_le: "here_bits (first_at table bits v) \<le> fst (lookup_code table bits v)" for v
    by (cases "is_link (first_at table bits v)") (simp_all add: lookup_link [OF refl] lookup_first Let_def)
  have link_bits: "here_bits (first_at table bits v) = bits" if "is_link (first_at table bits v)" for v
    using that table_for_Some(4) [OF t] table_for_None(3) [OF t] by (cases "decode ls v") auto
  have le24: "0 + here_bits (first_entry table bits h) \<le> 24" if "0 \<le> h" for h
    using first_le [of "nat h"] lookup_bounds(2) [OF t, of "nat h"] fe [OF that] by simp
  have cb: "here_bits (first_entry table bits h) \<le> code_bits table bits h" if "0 \<le> h" for h
    using first_le fe [OF that] by (simp add: code_bits_def)
  show ?thesis
  proof (cases "pull_code (first_entry table bits) 0 r")
    case (Inl r')
    note P = pull_code_Inl [OF Inl r le24]
    have "0 \<le> r_hold r'" using P(1) by (simp add: pulled_def buffer_ok_def)
    then have "r_bits r' < code_bits table bits (r_hold r')" using P(3) cb [of "r_hold r'"] by simp
    moreover have "pulled (code_bits table bits) r r'" using pulled_code [OF t P(1) _ r] cb by simp
    ultimately show ?thesis using Inl P(2) by (simp add: read_code_def)
  next
    case (Inr hr)
    obtain here r1 where hr: "hr = (here, r1)" by fastforce
    note P = pull_code_Inr [OF Inr [unfolded hr] r le24]
    have r1: "buffer_ok r1" "0 \<le> r_hold r1" using P(1) by (auto simp: pulled_def buffer_ok_def)
    have p1: "pulled (code_bits table bits) r r1" using pulled_code [OF t P(1) _ r] cb by simp
    have here: "here = first_at table bits (nat (r_hold r1))" using P(2) fe r1(2) by simp
    have hb: "here_bits here \<le> r_bits r1" using P(2,3) by simp
    show ?thesis
    proof (cases "is_link here")
      case False
      then have l: "lookup_code table bits (nat (r_hold r1)) = (here_bits here, here)" using here lookup_first by simp
      have "\<not> linked (here_op here)" using lp False here by (simp add: link_pred_def)
      then have "read_code linked table bits r = Inr (here, here_bits here, drop_bits (here_bits here) r1)"
        using Inr hr by (simp add: read_code_def)
      then show ?thesis using read_dropped [OF t p1 r l hb] by simp
    next
      case True
      then have link: "linked (here_op here)" "here_bits here = bits" using lp here link_bits by (auto simp: link_pred_def)
      have le: "link_entry table here h = snd (lookup_code table bits (nat h))"
          "here_bits here + here_bits (link_entry table here h) = code_bits table bits h"
        if h: "0 \<le> h" "h mod 2 ^ r_bits r1 = r_hold r1" for h
      proof -
        have "nat h mod 2 ^ r_bits r1 = nat (r_hold r1)" using h by (simp flip: nat_mod_power)
        moreover have "nat h mod 2 ^ r_bits r1 mod 2 ^ bits = nat h mod 2 ^ bits" using hb link(2) by (simp add: mod_mod_cancel le_imp_power_dvd)
        ultimately have "first_at table bits (nat h) = here" using first_at_cong [of "nat h" bits "nat (r_hold r1)" table] here by simp
        note l = lookup_link [OF this True]
        have e: "link_entry table here h =
            at table (here_val here + drop_bit (here_bits here) (nat h AND (2 ^ (here_bits here + here_op here) - 1)))"
          using link_entry_at [OF h(1) _ True] b15 link(2) by simp
        show "link_entry table here h = snd (lookup_code table bits (nat h))" unfolding l Let_def e by (simp only: snd_conv)
        show "here_bits here + here_bits (link_entry table here h) = code_bits table bits h"
          unfolding code_bits_def l Let_def e by (simp only: fst_conv)
      qed
      have le24': "here_bits here + here_bits (link_entry table here h) \<le> 24" if "0 \<le> h" "h mod 2 ^ r_bits r1 = r_hold r1" for h
        using le(2) [OF that] lookup_bounds(2) [OF t, of "nat h"] by (simp add: code_bits_def)
      have trans: "pulled (code_bits table bits) r r2" if q: "pulled (code_bits table bits) r1 r2" for r2
        using pulled_trans [OF p1 q] .
      have q: "pulled (code_bits table bits) r1 r2" if "pulled (\<lambda>h. here_bits here + here_bits (link_entry table here h)) r1 r2" for r2
        using pulled_code [OF t that _ r1(1)] le(2) by simp
      show ?thesis
      proof (cases "pull_code (link_entry table here) (here_bits here) r1")
        case (Inl r')
        note Q = pull_code_Inl [OF Inl r1(1) le24']
        have h: "0 \<le> r_hold r'" "r_hold r' mod 2 ^ r_bits r1 = r_hold r1" using Q(1) by (auto simp: pulled_def buffer_ok_def)
        have "read_code linked table bits r = Inl r'" using \<open>pull_code _ _ r = _\<close> hr link(1) Inl by (simp add: read_code_def)
        then show ?thesis using trans [OF q [OF Q(1)]] Q(2,3) le(2) [OF h] by simp
      next
        case (Inr hr')
        obtain here' r2 where hr': "hr' = (here', r2)" by fastforce
        note Q = pull_code_Inr [OF Inr [unfolded hr'] r1(1) le24']
        have h: "0 \<le> r_hold r2" "r_hold r2 mod 2 ^ r_bits r1 = r_hold r1" and r2: "buffer_ok r2" "r_bits r1 \<le> r_bits r2"
          using Q(1) by (auto simp: pulled_def buffer_ok_def)
        let ?n = "here_bits here + here_bits here'"
        have n: "?n = code_bits table bits (r_hold r2)" using le(2) [OF h] Q(2) by simp
        have l: "lookup_code table bits (nat (r_hold r2)) = (?n, here')"
          using n le(1) [OF h] Q(2) by (simp add: code_bits_def prod_eq_iff)
        have n2: "?n \<le> r_bits r2" using Q(2,3) by simp
        have "drop_bits (here_bits here') (drop_bits (here_bits here) r2) = drop_bits ?n r2"
          using hb r2 n2 lookup_bounds(2) [OF t, of "nat (r_hold r2)"] l by (intro drop_bits_drop) auto
        then have "read_code linked table bits r = Inr (here', ?n, drop_bits ?n r2)"
          using \<open>pull_code _ _ r = _\<close> hr hr' link(1) Inr by (simp add: read_code_def)
        then show ?thesis using read_dropped [OF t trans [OF q [OF Q(1)]] r l n2] by simp
      qed
    qed
  qed
qed

end
