(* ===== verification/InflateTables.thy ===== *)
theory InflateTables
  imports InflateCodes
begin

text \<open>
  The tables that \<open>inflate\<close> builds decode the codes of the specification: those of a dynamic block, if
  the lengths are acceptable, and the fixed ones.
\<close>

lemma number_cong: "(\<And>s. s < n \<Longrightarrow> f s = g s) \<Longrightarrow> number f n l = number g n l"
  unfolding number_def by (intro arg_cong [where f = length] filter_cong) auto

lemma next_code_cong: "(\<And>s. s < n \<Longrightarrow> f s = g s) \<Longrightarrow> next_code f n l = next_code g n l"
  using number_cong [of n f g] by (induction l) simp_all

lemma begins_with_cong: "(\<And>s. s < n \<Longrightarrow> f s = g s) \<Longrightarrow> s < n \<Longrightarrow> begins_with f n hold s = begins_with g n hold s"
  using next_code_cong [of n f g] number_cong [of s f g] by (simp add: begins_with_def rfc_code_def)

lemma rfc_decode_cong: "(\<And>s. s < n \<Longrightarrow> f s = g s) \<Longrightarrow> rfc_decode f n hold = rfc_decode g n hold"
  unfolding rfc_decode_def using begins_with_cong [of n f g] by (intro find_cong) auto

lemma share_cong: "(\<And>s. s < n \<Longrightarrow> f s = g s) \<Longrightarrow> share f n = share g n"
  using number_cong [of n f g] by (simp add: share_def)

lemma rfc_decode_less: "rfc_decode f n hold = Some s \<Longrightarrow> s < n"
  by (auto simp: rfc_decode_def find_Some_iff)

lemma decodes_cong: "(\<And>s. s < n \<Longrightarrow> f s = g s) \<Longrightarrow> decodes type work f n table bits hold = decodes type work g n table bits hold"
  using rfc_decode_cong [of n f g] rfc_decode_less [of g n hold] by (auto simp: decodes_def split: option.split)

text \<open>A table is indexed by as many bits as were asked for, or as its longest code has.\<close>

lemma inflate_table_root:
  fixes lens work :: "nat list" and idx codes bits :: nat
  assumes i: "idx + codes \<le> length lens" and t: "inflate_table type lens idx codes table 0 work bits = Some t"
    and b: "0 < bits" "bits \<le> 15" "\<forall>l \<in> set (take codes (drop idx lens)). l \<le> bits"
  shows "\<forall>l \<in> set (take codes (drop idx lens)). l \<le> tr_bits t" "tr_bits t \<le> bits"
proof -
  let ?c = "count_lens lens idx codes" and ?ls = "take codes (drop idx lens)"
  have nth: "lens ! (idx + s) = ?ls ! s" if "s < codes" for s using that i by simp
  have len: "length ?ls = codes" using i by simp
  have le: "\<forall>s < codes. lens ! (idx + s) \<le> bits" using b(3) nth len by (auto simp: all_set_conv_all_nth)
  then have "\<forall>s < codes. lens ! (idx + s) \<le> 15" using b(2) by (meson le_trans)
  from count_lens_number [OF this] have C: "\<forall>l \<le> 15. ?c ! l = int (number (\<lambda>s. lens ! (idx + s)) codes l)" by (rule conjunct2)
  have up: "l \<le> last_used ?c 15" if m: "l \<in> set ?ls" for l
  proof (cases "l = 0")
    case False
    obtain s where "s < length ?ls" "?ls ! s = l" using m unfolding in_set_conv_nth by blast
    then have s: "s < codes" "lens ! (idx + s) = l" unfolding len using nth by simp_all
    then have "s \<in> set (filter (\<lambda>s. lens ! (idx + s) = l) [0..<codes])" by simp
    then have "0 < number (\<lambda>s. lens ! (idx + s)) codes l" unfolding number_def by (metis length_pos_if_in_set)
    then have "?c ! l \<noteq> 0" "l \<le> 15" using C b m by auto
    then show ?thesis using last_used_spec [of ?c 15] by (meson not_le)
  qed simp
  have lo: "last_used ?c 15 \<le> bits"
  proof (rule ccontr)
    assume n: "\<not> last_used ?c 15 \<le> bits"
    then have "?c ! last_used ?c 15 \<noteq> 0" "last_used ?c 15 \<le> 15" using last_used_spec [of ?c 15] by auto
    then have "number (\<lambda>s. lens ! (idx + s)) codes (last_used ?c 15) \<noteq> 0" using C by simp
    then obtain s where "s < codes" "lens ! (idx + s) = last_used ?c 15" by (auto simp: number_def filter_empty_conv)
    then show False using le n by force
  qed
  have fu: "last_used ?c 15 \<noteq> 0 \<Longrightarrow> first_used ?c (last_used ?c 15) 1 \<le> last_used ?c 15"
    using first_used_spec [of 1 "last_used ?c 15" ?c] by simp
  have "last_used ?c 15 \<le> tr_bits t \<and> tr_bits t \<le> bits"
    using t b(1) lo fu by (auto simp: inflate_table_def MAXBITS_def Let_def split: option.splits sum.splits if_splits)
  then show "\<forall>l \<in> set ?ls. l \<le> tr_bits t" "tr_bits t \<le> bits" using up le_trans by blast+
qed

text \<open>Where \<open>inflate_table\<close> puts the table and how many bits index it, in the three calls.\<close>

definition table_call :: "code_type \<Rightarrow> nat list \<Rightarrow> nat \<Rightarrow> nat \<Rightarrow> bool" where
  "table_call type ls bits room \<longleftrightarrow> length ls \<le> code_limit type \<and> (\<forall>l \<in> set ls. l \<le> 15) \<and> 2 \<le> room \<and>
     ((\<forall>l \<in> set ls. l \<le> bits) \<and> 2 ^ bits \<le> room \<and> \<not> exceeds type (2 ^ bits) \<or>
      type = LENS \<and> ENOUGH_LENS \<le> room \<or> type = DISTS \<and> ENOUGH_DISTS \<le> room)"

lemma table_built:
  fixes lens work :: "nat list" and idx codes bits :: nat
  defines "ls \<equiv> take codes (drop idx lens)"
  assumes i: "idx + codes \<le> length lens" and w: "codes \<le> length work" and b: "0 < bits" "bits \<le> 15"
    and c: "table_call type ls bits (length table)"
  shows "\<exists>t. inflate_table type lens idx codes table 0 work bits = Some t \<and>
    (tr_ret t = - 1 \<longleftrightarrow> \<not> acceptable (type \<noteq> CODES) ls) \<and> tr_ret t \<in> {- 1, 0, 1} \<and>
    ((\<forall>l \<in> set ls. l \<le> bits) \<and> \<not> exceeds type (2 ^ bits) \<longrightarrow> tr_ret t \<noteq> 1) \<and>
    (tr_ret t = 0 \<longrightarrow> table_for type ls (tr_table t) (tr_bits t)) \<and>
    length (tr_table t) = length table \<and> length (tr_work t) = length work \<and>
    ((\<forall>l \<in> set ls. l \<le> bits) \<longrightarrow> (\<forall>l \<in> set ls. l \<le> tr_bits t) \<and> tr_bits t \<le> bits)"
proof -
  let ?f = "\<lambda>s. lens ! (idx + s)"
  have len: "length ls = codes" using i by (simp add: ls_def)
  have nth: "?f s = ls ! s" if "s < codes" for s using that i by (simp add: ls_def)
  have all: "(\<forall>s < codes. P (?f s)) \<longleftrightarrow> (\<forall>l \<in> set ls. P l)" for P using nth len by (auto simp: all_set_conv_all_nth)
  have ex: "(\<exists>s < codes. P (?f s)) \<longleftrightarrow> (\<exists>l \<in> set ls. P l)" for P using all [of "\<lambda>l. \<not> P l"] by blast
  have sh: "share ?f codes = share (\<lambda>s. ls ! s) (length ls)" unfolding len by (rule share_cong) (rule nth)
  have a: "\<forall>s < codes. ?f s \<le> 15" "codes \<le> code_limit type" "2 \<le> length table" using c len all [of "\<lambda>l. l \<le> 15"] by (auto simp: table_call_def)
  have room: "table_room type ?f codes bits (length table)"
    using c all [of "\<lambda>l. l \<le> bits"] by (auto simp: table_call_def table_room_def)
  from inflate_table_spec [of codes lens idx type work table bits, OF a(1,2) w a(3) room] obtain t where
    t: "inflate_table type lens idx codes table 0 work bits = Some t"
      "tr_ret t = - 1 \<longleftrightarrow> share ?f codes > 2 ^ 15 \<or> share ?f codes < 2 ^ 15 \<and> (\<exists>s < codes. ?f s \<noteq> 0) \<and> (type = CODES \<or> (\<exists>s < codes. 1 < ?f s))"
      "tr_ret t \<in> {- 1, 0, 1}" "(\<forall>s < codes. ?f s \<le> bits) \<and> \<not> exceeds type (2 ^ bits) \<longrightarrow> tr_ret t \<noteq> 1"
      "tr_ret t = 0 \<longrightarrow> (\<forall>hold. decodes type (tr_work t) ?f codes (tr_table t) (tr_bits t) hold)" by blast
  note shape = inflate_table_shape [OF t(1) b(2)]
  have ret: "tr_ret t = - 1 \<longleftrightarrow> \<not> acceptable (type \<noteq> CODES) ls"
    unfolding t(2) ex [of "\<lambda>l. l \<noteq> 0"] ex [of "\<lambda>l. 1 < l"] sh by (auto simp: acceptable_def not_less not_le)
  have "table_for type ls (tr_table t) (tr_bits t)" if z: "tr_ret t = 0"
  proof -
    have "acceptable True ls" using ret z by (auto simp: acceptable_def)
    then have "code_ok ls" using c by (simp add: code_ok_def table_call_def)
    moreover have "decodes type (tr_work t) (\<lambda>s. ls ! s) (length ls) (tr_table t) (tr_bits t) hold" for hold
      using t(5) z decodes_cong [of codes "\<lambda>s. ls ! s" ?f, OF nth [symmetric]] len by simp
    ultimately show ?thesis using shape(3) c by (auto simp: table_for_def table_call_def)
  qed
  then show ?thesis using t(1,3,4) ret all [of "\<lambda>l. l \<le> bits"] shape(1,2)
      inflate_table_root [OF i t(1) b, folded ls_def] by blast
qed

text \<open>A code that the first level of the table holds.\<close>

lemma table_built_short:
  fixes lens work :: "nat list" and idx codes bits :: nat
  defines "ls \<equiv> take codes (drop idx lens)"
  assumes "idx + codes \<le> length lens" "codes \<le> length work" "0 < bits" "bits \<le> 15" "table_call type ls bits (length table)"
    and short: "\<forall>l \<in> set ls. l \<le> bits" "\<not> exceeds type (2 ^ bits)" and a: "acceptable (type \<noteq> CODES) ls"
  shows "\<exists>t. inflate_table type lens idx codes table 0 work bits = Some t \<and> tr_ret t = 0 \<and> table_for type ls (tr_table t) (tr_bits t) \<and>
    length (tr_work t) = length work \<and> (bits \<in> set ls \<longrightarrow> tr_bits t = bits)"
proof -
  obtain t where t: "inflate_table type lens idx codes table 0 work bits = Some t"
      "tr_ret t = - 1 \<longleftrightarrow> \<not> acceptable (type \<noteq> CODES) ls" "tr_ret t \<in> {- 1, 0, 1}" "tr_ret t \<noteq> 1"
      "tr_ret t = 0 \<longrightarrow> table_for type ls (tr_table t) (tr_bits t)" "length (tr_work t) = length work"
      "\<forall>l \<in> set ls. l \<le> tr_bits t" "tr_bits t \<le> bits"
    using table_built [of idx codes lens work bits type table, folded ls_def, OF assms(2-6)] short by blast
  then have "tr_ret t = 0" using a by blast
  then show ?thesis using t(1,5,6,7,8) by (auto intro: le_antisym)
qed

section \<open>The fixed codes\<close>

lemma number_filter: "number (\<lambda>s. ls ! s) (length ls) l = length (filter (\<lambda>x. x = l) ls)"
proof -
  have "filter (\<lambda>x. x = l) ls = filter (\<lambda>x. x = l) (map (\<lambda>s. ls ! s) [0..<length ls])" by (simp add: map_nth)
  then show ?thesis by (simp add: number_def filter_map o_def)
qed

lemma sum_lengths: "(\<Sum>l = 1..<16 :: nat. g l) = g 1 + g 2 + g 3 + g 4 + g 5 + g 6 + g 7 + g 8 + g 9 + g 10 + g 11 + g 12 + g 13 + g 14 + (g 15 :: nat)"
  by (simp add: sum.atLeast_Suc_lessThan numeral_eq_Suc)

lemma fixed_acceptable: "acceptable s fixed_ll" "acceptable s fixed_dl"
  unfolding acceptable_def share_def number_filter sum_lengths by (simp_all add: fixed_ll_def fixed_dl_def)

lemma fixed_length: "length fixed_ll = 288" "length fixed_dl = 32"
  by (simp_all add: fixed_ll_def fixed_dl_def)

lemma fixed_short: "\<forall>l \<in> set fixed_ll. l \<le> 9" "\<forall>l \<in> set fixed_dl. l \<le> 5"
  by (auto simp: fixed_ll_def fixed_dl_def)

lemma fixed_longest: "9 \<in> set fixed_ll" "5 \<in> set fixed_dl"
  by (auto simp: fixed_ll_def fixed_dl_def)

text \<open>The module's tables, once they have been built.\<close>

definition fixed_ok :: "fixed_tables \<Rightarrow> bool" where
  "fixed_ok g \<longleftrightarrow> virgin g \<or> table_for LENS fixed_ll (lenfix g) 9 \<and> table_for DISTS fixed_dl (distfix g) 5"

lemma fixedtables_ok:
  assumes g: "fixed_ok g" and l: "length (i_lens s) = 320" "length (i_work s) = 288"
  shows "\<exists>g' lens work. fixedtables g s = Some (g', s\<lparr>i_lens := lens, i_work := work, i_lencode := Fixed, i_lenbits := 9,
      i_distcode := Fixed, i_distbits := 5\<rparr>) \<and>
    fixed_ok g' \<and> \<not> virgin g' \<and> length lens = 320 \<and> length work = 288"
proof (cases "virgin g")
  case False
  then show ?thesis using g l by (intro exI [of _ g] exI [of _ "i_lens s"] exI [of _ "i_work s"]) (simp add: fixedtables_def)
next
  case True
  have ll: "take 288 (drop 0 (fixed_lens (i_lens s))) = fixed_ll" by (simp add: fixed_lens_def fixed_ll_def)
  have dl: "take 32 (drop 0 (fixed_dist_lens (fixed_lens (i_lens s)))) = fixed_dl" by (simp add: fixed_dist_lens_def fixed_dl_def)
  have len: "length (fixed_lens (i_lens s)) = 320" "length (fixed_dist_lens (fixed_lens (i_lens s))) = 320"
    using l by (simp_all add: fixed_lens_def fixed_dist_lens_def)
  have "table_call LENS fixed_ll 9 (length (replicate 512 0 :: int list))"
    unfolding table_call_def using fixed_short(1) by (auto simp: fixed_length code_limit_def exceeds_def ENOUGH_LENS_def)
  then obtain t where
    t: "inflate_table LENS (fixed_lens (i_lens s)) 0 288 (replicate 512 0) 0 (i_work s) 9 = Some t" "tr_ret t = 0"
      "table_for LENS fixed_ll (tr_table t) (tr_bits t)" "length (tr_work t) = 288" "tr_bits t = 9"
    using table_built_short [of 0 288 "fixed_lens (i_lens s)" "i_work s" 9 LENS "replicate 512 0", unfolded ll]
      len l fixed_acceptable(1) fixed_short(1) fixed_longest(1) by (auto simp: exceeds_def ENOUGH_LENS_def)
  have "table_call DISTS fixed_dl 5 (length (replicate 32 0 :: int list))"
    unfolding table_call_def using fixed_short(2) by (auto simp: fixed_length code_limit_def exceeds_def ENOUGH_DISTS_def)
  then obtain d where
    d: "inflate_table DISTS (fixed_dist_lens (fixed_lens (i_lens s))) 0 32 (replicate 32 0) 0 (tr_work t) 5 = Some d" "tr_ret d = 0"
      "table_for DISTS fixed_dl (tr_table d) (tr_bits d)" "length (tr_work d) = 288" "tr_bits d = 5"
    using table_built_short [of 0 32 "fixed_dist_lens (fixed_lens (i_lens s))" "tr_work t" 5 DISTS "replicate 32 0", unfolded dl]
      len t(4) fixed_acceptable(2) fixed_short(2) fixed_longest(2) by (auto simp: exceeds_def ENOUGH_DISTS_def)
  show ?thesis using True t d len
    by (intro exI [of _ "\<lparr>virgin = False, lenfix = tr_table t, distfix = tr_table d\<rparr>"] exI [of _ "fixed_dist_lens (fixed_lens (i_lens s))"]
        exI [of _ "tr_work d"]) (simp add: fixedtables_def fixed_ok_def)
qed

end
