(* ===== verification/InflateWindow.thy ===== *)
theory InflateWindow
  imports Inflate DeflateFormat
begin

text \<open>
  The sliding window is a ring that holds the last bytes of what was put out before the current call, and
  the copying loops, from the window and from the output, are the match of the specification.
\<close>

section \<open>The ring\<close>

text \<open>\<open>H\<close> is all that was put out so far; its last \<open>i_whave\<close> bytes are in the window, the last at \<open>i_wnext - 1\<close>.\<close>

definition ring_at :: "nat \<Rightarrow> nat \<Rightarrow> nat \<Rightarrow> nat" where
  "ring_at wsize next d = (if d \<le> next then next - d else wsize + next - d)"

definition window_ok :: "inflate_state \<Rightarrow> int list \<Rightarrow> bool" where
  "window_ok s H \<longleftrightarrow>
     (case i_window s of
        None \<Rightarrow> i_whave s = 0 \<and> i_wnext s = 0 \<and> i_wsize s = 0 \<and> H = []
      | Some w \<Rightarrow> 0 < i_wsize s \<and> i_wsize s = 2 ^ i_wbits s \<and> length w = i_wsize s \<and> i_wnext s < i_wsize s \<and>
          i_whave s = (if length H < i_wsize s then length H else i_wsize s) \<and>
          (length H < i_wsize s \<longrightarrow> i_wnext s = length H) \<and>
          (\<forall>d. 0 < d \<and> d \<le> i_whave s \<longrightarrow> w ! ring_at (i_wsize s) (i_wnext s) d = H ! (length H - d)))"

lemma window_ok_have:
  assumes "window_ok s H"
  shows "i_whave s \<le> i_wsize s" "i_whave s \<le> length H"
    "length H \<le> i_wsize s \<or> H = [] \<Longrightarrow> i_whave s = length H" "i_window s \<noteq> None \<Longrightarrow> i_wsize s \<le> length H \<Longrightarrow> i_whave s = i_wsize s"
  using assms by (auto simp: window_ok_def split: option.splits if_splits)

lemma window_ok_nth:
  assumes "window_ok s H" "0 < d" "d \<le> i_whave s"
  shows "ring_at (i_wsize s) (i_wnext s) d < i_wsize s"
    "nullable (i_window s) ! ring_at (i_wsize s) (i_wnext s) d = H ! (length H - d)"
    "length (nullable (i_window s)) = i_wsize s"
  using assms by (auto simp: window_ok_def nullable_def ring_at_def split: option.splits if_splits)

lemma window_ok_cong:
  "i_window s' = i_window s \<Longrightarrow> i_wsize s' = i_wsize s \<Longrightarrow> i_whave s' = i_whave s \<Longrightarrow> i_wnext s' = i_wnext s \<Longrightarrow>
    i_wbits s' = i_wbits s \<Longrightarrow> window_ok s' H = window_ok s H"
  by (cases "i_window s") (simp_all add: window_ok_def)

section \<open>Updating the window\<close>

lemma arraySet_Some:
  assumes "src_offs + len \<le> length src" "dest_offs + len \<le> length dest"
  shows "arraySet dest src src_offs len dest_offs =
    Some (take dest_offs dest @ take len (drop src_offs src) @ drop (dest_offs + len) dest)"
  using assms by (simp add: arraySet_def)

lemma nth_splice:
  assumes "k + length xs \<le> length dest" "i < length dest"
  shows "(take k dest @ xs @ drop (k + length xs) dest) ! i = (if k \<le> i \<and> i < k + length xs then xs ! (i - k) else dest ! i)"
  using assms by (auto simp: nth_append min_def)

lemma length_splice: "k + length xs \<le> length dest \<Longrightarrow> length (take k dest @ xs @ drop (k + length xs) dest) = length dest"
  by simp

lemma nth_take_last: "0 < d \<Longrightarrow> d \<le> copy \<Longrightarrow> copy \<le> stop \<Longrightarrow> stop \<le> length src \<Longrightarrow>
    (H @ take copy (drop (stop - copy) src)) ! (length H + copy - d) = src ! (stop - d)"
proof -
  assume a: "0 < d" "d \<le> copy" "copy \<le> stop" "stop \<le> length src"
  then have e: "length H + copy - d = length H + (copy - d)" by simp
  show ?thesis unfolding e nth_append_length_plus using a by simp
qed

definition window_updated :: "inflate_state \<Rightarrow> inflate_state \<Rightarrow> bool" where
  "window_updated s s' \<longleftrightarrow> (\<exists>w n h z. s' = s\<lparr>i_wsize := z, i_whave := h, i_wnext := n, i_window := Some w\<rparr>)"

lemma window_ok_alloc:
  assumes "window_ok s H"
  shows "window_ok (alloc_window s) H" "i_window (alloc_window s) \<noteq> None" "window_updated s (alloc_window s)"
proof -
  show "window_ok (alloc_window s) H" using assms by (auto simp: window_ok_def alloc_window_def split: option.splits)
  show "i_window (alloc_window s) \<noteq> None" by (simp add: alloc_window_def split: option.splits)
  show "window_updated s (alloc_window s)"
    unfolding window_updated_def alloc_window_def
    by (cases "i_window s") (auto intro!: exI inflate_state.equality)
qed

lemma window_updated_trans: "window_updated s s' \<Longrightarrow> window_updated s' s'' \<Longrightarrow> window_updated s s''"
  unfolding window_updated_def by (elim exE) (simp, metis)

text \<open>The three cases of \<open>updatewindow\<close>, for a window that exists.\<close>

lemma window_ok_intro:
  assumes "i_window s = Some w" "0 < i_wsize s" "i_wsize s = 2 ^ i_wbits s" "length w = i_wsize s" "i_wnext s < i_wsize s"
    "i_whave s = (if length H < i_wsize s then length H else i_wsize s)" "length H < i_wsize s \<Longrightarrow> i_wnext s = length H"
    "\<And>d. 0 < d \<Longrightarrow> d \<le> i_whave s \<Longrightarrow> w ! ring_at (i_wsize s) (i_wnext s) d = H ! (length H - d)"
  shows "window_ok s H"
  using assms by (simp add: window_ok_def)

lemma window_okD:
  assumes "window_ok s H" "i_window s = Some w"
  shows "0 < i_wsize s" "i_wsize s = 2 ^ i_wbits s" "length w = i_wsize s" "i_wnext s < i_wsize s"
    "i_whave s = (if length H < i_wsize s then length H else i_wsize s)" "length H < i_wsize s \<Longrightarrow> i_wnext s = length H"
    "\<And>d. 0 < d \<Longrightarrow> d \<le> i_whave s \<Longrightarrow> w ! ring_at (i_wsize s) (i_wnext s) d = H ! (length H - d)"
proof -
  note W = assms(1) [unfolded window_ok_def assms(2) option.case]
  show "0 < i_wsize s" "i_wsize s = 2 ^ i_wbits s" "length w = i_wsize s" "i_wnext s < i_wsize s"
    "i_whave s = (if length H < i_wsize s then length H else i_wsize s)" using W by blast+
  show "length H < i_wsize s \<Longrightarrow> i_wnext s = length H" using W by blast
  show "w ! ring_at (i_wsize s) (i_wnext s) d = H ! (length H - d)" if "0 < d" "d \<le> i_whave s" for d
    using W that by blast
qed

lemma updatewindow_whole:
  assumes w: "window_ok s H" "i_window s = Some w" and c: "i_wsize s \<le> copy" "copy \<le> stop" "stop \<le> length src"
  defines "w' \<equiv> take (i_wsize s) (drop (stop - i_wsize s) src)"
  shows "arraySet w src (stop - i_wsize s) (i_wsize s) 0 = Some w'"
    "window_ok (s\<lparr>i_window := Some w', i_wnext := 0, i_whave := i_wsize s\<rparr>) (H @ take copy (drop (stop - copy) src))"
proof -
  note D = window_okD [OF w]
  show "arraySet w src (stop - i_wsize s) (i_wsize s) 0 = Some w'"
    using c D(3) by (simp add: arraySet_Some w'_def)
  show "window_ok (s\<lparr>i_window := Some w', i_wnext := 0, i_whave := i_wsize s\<rparr>) (H @ take copy (drop (stop - copy) src))"
  proof (rule window_ok_intro)
    fix d assume d: "0 < d" "d \<le> i_whave (s\<lparr>i_window := Some w', i_wnext := 0, i_whave := i_wsize s\<rparr>)"
    then have e: "(H @ take copy (drop (stop - copy) src)) ! (length H + copy - d) = src ! (stop - d)"
      using c by (intro nth_take_last) auto
    have l: "length (H @ take copy (drop (stop - copy) src)) = length H + copy" using c by simp
    have "w' ! (i_wsize s - d) = src ! (stop - d)" using c d by (simp add: w'_def)
    then show "w' ! ring_at (i_wsize (s\<lparr>i_window := Some w', i_wnext := 0, i_whave := i_wsize s\<rparr>))
        (i_wnext (s\<lparr>i_window := Some w', i_wnext := 0, i_whave := i_wsize s\<rparr>)) d =
      (H @ take copy (drop (stop - copy) src)) ! (length (H @ take copy (drop (stop - copy) src)) - d)"
      unfolding l e using d by (simp add: ring_at_def)
  qed (use c D(1-4) in \<open>auto simp: w'_def\<close>)
qed

lemma ring_at_add: "d \<le> wsize \<Longrightarrow> wnext < wsize \<Longrightarrow> copy < d \<Longrightarrow> wnext + copy < wsize \<Longrightarrow>
    ring_at wsize (wnext + copy) d = ring_at wsize wnext (d - copy)"
  by (auto simp: ring_at_def)

lemma updatewindow_part:
  assumes w: "window_ok s H" "i_window s = Some w" and c: "copy \<le> i_wsize s - i_wnext s" "copy < i_wsize s" "copy \<le> stop" "stop \<le> length src"
  defines "w' \<equiv> take (i_wnext s) w @ take copy (drop (stop - copy) src) @ drop (i_wnext s + copy) w"
  defines "s' \<equiv> s\<lparr>i_window := Some w', i_wnext := (if i_wnext s + copy = i_wsize s then 0 else i_wnext s + copy),
      i_whave := (if i_whave s < i_wsize s then i_whave s + copy else i_whave s)\<rparr>"
  shows "arraySet w src (stop - copy) copy (i_wnext s) = Some w'" "window_ok s' (H @ take copy (drop (stop - copy) src))"
proof -
  note D = window_okD [OF w]
  let ?K = "take copy (drop (stop - copy) src)"
  have K: "length ?K = copy" using c by simp
  show "arraySet w src (stop - copy) copy (i_wnext s) = Some w'" using c D(3,4) by (simp add: arraySet_Some w'_def)
  have nth: "w' ! i = (if i_wnext s \<le> i \<and> i < i_wnext s + copy then ?K ! (i - i_wnext s) else w ! i)" if "i < i_wsize s" for i
    using nth_splice [of "i_wnext s" ?K w i] that c(1) D(3,4) unfolding w'_def K by simp
  have new: "?K ! (copy - d) = (H @ ?K) ! (length H + copy - d)" if "0 < d" "d \<le> copy" for d
  proof -
    have e: "length H + copy - d = length H + (copy - d)" using that by simp
    show ?thesis unfolding e nth_append_length_plus ..
  qed
  have old: "w ! ring_at (i_wsize s) (i_wnext s) (d - copy) = (H @ ?K) ! (length H + copy - d)" if "copy < d" "d - copy \<le> i_whave s" for d
  proof -
    have "d - copy \<le> length H" using that window_ok_have(2) [OF w(1)] by linarith
    then have "length H + copy - d < length H" "length H - (d - copy) = length H + copy - d" using that by auto
    then show ?thesis using that D(7) [of "d - copy"] by (simp add: nth_append)
  qed
  show "window_ok s' (H @ ?K)"
  proof (rule window_ok_intro)
    show "i_window s' = Some w'" "0 < i_wsize s'" "i_wsize s' = 2 ^ i_wbits s'" using D by (simp_all add: s'_def)
    show "length w' = i_wsize s'" using c D(3,4) by (simp add: w'_def s'_def)
    show "i_wnext s' < i_wsize s'" using c D by (auto simp: s'_def)
    show "i_whave s' = (if length (H @ ?K) < i_wsize s' then length (H @ ?K) else i_wsize s')"
      using c D K by (auto simp: s'_def)
    show "i_wnext s' = length (H @ ?K)" if "length (H @ ?K) < i_wsize s'" using that c D K by (auto simp: s'_def)
  next
    fix d assume d: "0 < d" "d \<le> i_whave s'"
    have dz: "d \<le> i_wsize s" using d c D by (auto simp: s'_def split: if_splits)
    have le: "d - copy \<le> i_whave s" using d dz by (auto simp: s'_def split: if_splits)
    show "w' ! ring_at (i_wsize s') (i_wnext s') d = (H @ ?K) ! (length (H @ ?K) - d)"
    proof (cases "d \<le> copy")
      case True
      have "ring_at (i_wsize s') (i_wnext s') d = i_wnext s + (copy - d)"
        using True d D(4) c by (auto simp: ring_at_def s'_def)
      moreover have "w' ! (i_wnext s + (copy - d)) = ?K ! (copy - d)"
      proof -
        have "i_wnext s + (copy - d) < i_wsize s" "i_wnext s + (copy - d) < i_wnext s + copy" using True d c D(4) by linarith+
        then show ?thesis using nth by simp
      qed
      ultimately show ?thesis unfolding new [OF d(1) True] by (simp only: length_append K)
    next
      case False
      have r: "ring_at (i_wsize s') (i_wnext s') d = ring_at (i_wsize s) (i_wnext s) (d - copy)"
        using False dz c D(4) by (auto simp: ring_at_def s'_def)
      have "ring_at (i_wsize s) (i_wnext s) (d - copy) < i_wsize s"
        "\<not> (i_wnext s \<le> ring_at (i_wsize s) (i_wnext s) (d - copy) \<and> ring_at (i_wsize s) (i_wnext s) (d - copy) < i_wnext s + copy)"
        using False dz c D(4) by (auto simp: ring_at_def)
      then have "w' ! ring_at (i_wsize s) (i_wnext s) (d - copy) = w ! ring_at (i_wsize s) (i_wnext s) (d - copy)"
        using nth by (simp only: if_False)
      then show ?thesis unfolding r using old [of d] False le by (simp only: length_append K not_le)
    qed
  qed
qed

lemma updatewindow_ring:
  assumes w: "window_ok s H" and c: "copy \<le> stop" "stop \<le> length src"
  shows "\<exists>s'. updatewindow s src stop copy = Some s' \<and> window_updated s s' \<and> i_window s' \<noteq> None \<and>
    window_ok s' (H @ take copy (drop (stop - copy) src))"
proof -
  define t where "t = alloc_window s"
  obtain w where t: "window_ok t H" "i_window t = Some w" "window_updated s t"
    using window_ok_alloc [OF w] by (auto simp: t_def)
  have up: "window_updated s (t\<lparr>i_window := Some w', i_wnext := n, i_whave := h\<rparr>)" for w' n h
    by (rule window_updated_trans [OF t(3)]) (auto simp: window_updated_def intro!: exI inflate_state.equality)
  let ?K = "take copy (drop (stop - copy) src)"
  let ?dist = "if i_wsize t - i_wnext t > copy then copy else i_wsize t - i_wnext t"
  show ?thesis
  proof (cases "i_wsize t \<le> copy")
    case True
    from updatewindow_whole [OF t(1,2) True c] show ?thesis
      using True t(2) up by (simp add: updatewindow_def t_def [symmetric] Let_def)
  next
    case False
    then have c': "copy < i_wsize t" by simp
    note D = window_okD [OF t(1,2)]
    show ?thesis
    proof (cases "copy \<le> i_wsize t - i_wnext t")
      case True
      then have d: "?dist = copy" by simp
      from updatewindow_part [OF t(1,2) True c' c] show ?thesis
        using False t(2) up unfolding updatewindow_def Let_def t_def [symmetric] d
        by (simp add: Let_def)
    next
      case wrap: False
      define dist where "dist = i_wsize t - i_wnext t"
      have d: "?dist = dist" using wrap by (simp add: dist_def)
      have dc: "dist \<le> i_wsize t - i_wnext t" "dist < i_wsize t" "dist \<le> stop - (copy - dist)" "stop - (copy - dist) \<le> length src"
        using wrap c' c by (auto simp: dist_def)
      have st: "stop - (copy - dist) - dist = stop - copy" using wrap by (simp add: dist_def)
      note P = updatewindow_part [OF t(1,2) dc, unfolded st]
      define w1 where "w1 = take (i_wnext t) w @ take dist (drop (stop - copy) src) @ drop (i_wnext t + dist) w"
      define t1 where "t1 = t\<lparr>i_window := Some w1, i_wnext := (if i_wnext t + dist = i_wsize t then 0 else i_wnext t + dist),
        i_whave := (if i_whave t < i_wsize t then i_whave t + dist else i_whave t)\<rparr>"
      have P1: "arraySet w src (stop - copy) dist (i_wnext t) = Some w1" "window_ok t1 (H @ take dist (drop (stop - copy) src))"
        "i_window t1 = Some w1"
        using P by (simp_all add: w1_def t1_def)
      have t1: "i_wnext t1 = 0" "i_wsize t1 = i_wsize t" using D(4) by (simp_all add: t1_def dist_def)
      have "i_wsize t \<le> length (H @ take dist (drop (stop - copy) src))"
        using D(4,6) wrap c by (cases "length H < i_wsize t") (auto simp: dist_def)
      then have h1: "i_whave t1 = i_wsize t" using window_okD(5) [OF P1(2,3)] t1 by simp
      have c2: "copy - dist \<le> i_wsize t1 - i_wnext t1" "copy - dist < i_wsize t1" "copy - dist \<le> stop" using c' c t1 by auto
      note Q = updatewindow_part [OF P1(2,3) c2 c(2)]
      have K: "take dist (drop (stop - copy) src) @ take (copy - dist) (drop (stop - (copy - dist)) src) = ?K"
      proof -
        have "stop - (copy - dist) = dist + (stop - copy)" "dist + (copy - dist) = copy" using wrap c by (simp_all add: dist_def)
        then show ?thesis using take_add [of dist "copy - dist" "drop (stop - copy) src"] by (simp only: drop_drop)
      qed
      define w2 where "w2 = take (i_wnext t1) w1 @ take (copy - dist) (drop (stop - (copy - dist)) src) @ drop (i_wnext t1 + (copy - dist)) w1"
      have Q1: "arraySet w1 src (stop - (copy - dist)) (copy - dist) 0 = Some w2"
        using Q(1) by (simp add: w2_def t1)
      have Q2: "window_ok (t1\<lparr>i_window := Some w2, i_wnext := copy - dist, i_whave := i_wsize t\<rparr>) (H @ ?K)"
        using Q(2) c2 by (simp add: w2_def t1 h1 K [symmetric])
      have "window_ok (t\<lparr>i_window := Some w2, i_wnext := copy - dist, i_whave := i_wsize t\<rparr>) (H @ ?K)"
        using Q2 by (subst window_ok_cong [where s = "t1\<lparr>i_window := Some w2, i_wnext := copy - dist, i_whave := i_wsize t\<rparr>"])
          (simp_all add: t1_def)
      moreover have "copy - dist \<noteq> 0" using wrap by (simp add: dist_def)
      ultimately show ?thesis
        using False t(2) up P1(1) Q1 unfolding updatewindow_def Let_def t_def [symmetric] d
        by (simp add: Let_def)
    qed
  qed
qed

text \<open>
  Property C7. \<open>updatewindow\<close> keeps the window a ring of the last \<open>2 ^ i_wbits\<close> bytes of the output, however
  many bytes are added at once: its element \<open>d\<close> before the write index, around the end if need be, is the
  \<open>d\<close>-th last byte of all that was put out, for all \<open>d\<close> up to \<open>i_whave\<close>, which is the number of bytes put
  out or the size of the window. It never throws, and changes nothing but the window.
\<close>

theorem updatewindow_ok:
  assumes w: "window_ok s H" and c: "copy \<le> stop" "stop \<le> length src"
  shows "\<exists>s'. updatewindow s src stop copy = Some s' \<and> window_updated s s' \<and> i_window s' \<noteq> None \<and>
    window_ok s' (H @ take copy (drop (stop - copy) src))"
  using assms by (rule updatewindow_ring)

text \<open>A window of 256 bytes that is written around its end.\<close>

theorem updatewindow_ok_witness:
  "let s = new_inflate_state\<lparr>i_wbits := 8, i_wsize := 256, i_whave := 200, i_wnext := 200, i_window := Some (replicate 256 7)\<rparr>
   in \<exists>s'. updatewindow s (replicate 100 9) 100 100 = Some s' \<and> window_updated s s' \<and> i_window s' \<noteq> None \<and>
     window_ok s' (replicate 200 7 @ replicate 100 9)"
proof -
  let ?s = "new_inflate_state\<lparr>i_wbits := 8, i_wsize := 256, i_whave := 200, i_wnext := 200, i_window := Some (replicate 256 7)\<rparr>"
  have "window_ok ?s (replicate 200 7)" by (simp add: window_ok_def new_inflate_state_def ring_at_def)
  from updatewindow_ok [OF this, of 100 100 "replicate 100 9"] show ?thesis by (simp add: Let_def)
qed

section \<open>Resetting a stream that has a window\<close>

text \<open>A window that was kept, while its size was reset.\<close>

definition window_lost :: "inflate_state \<Rightarrow> bool" where
  "window_lost s \<longleftrightarrow> i_window s \<noteq> None \<and> i_wsize s = 0 \<and> i_whave s = 0 \<and> i_sane s"

lemma window_lost_update:
  assumes "window_lost s"
  shows "\<exists>s'. updatewindow s src stop copy = Some s' \<and> window_lost s'"
proof -
  obtain w where w: "i_window s = Some w" "i_wsize s = 0" "i_whave s = 0" "i_sane s" using assms by (auto simp: window_lost_def)
  have "alloc_window s = s" by (simp add: alloc_window_def w)
  moreover have "arraySet w src stop 0 0 = Some w" by (simp add: arraySet_def)
  ultimately have "updatewindow s src stop copy = Some (s\<lparr>i_window := Some w, i_wnext := 0, i_whave := 0\<rparr>)"
    unfolding updatewindow_def by (simp add: w)
  then show ?thesis using w by (simp add: window_lost_def)
qed

lemma window_lost_match:
  assumes "window_lost (r_state r)" "0 < r_left r" "r_out r - r_left r < i_offset (r_state r)"
  shows "step_MATCH r = Some (Continue (bad ''invalid distance too far back'' r))"
  using assms by (auto simp: window_lost_def step_MATCH_def Let_def)

text \<open>
  Property C40. \<open>inflateReset\<close> of a stream that has a window resets the size of the window but keeps the
  array, and \<open>updatewindow\<close> sets the size only when it makes an array: from then on no number of updates
  makes the window hold a byte, so that every match that reaches behind the current call is refused
  as too far back.
\<close>

theorem inflateReset_loses_window:
  assumes "z_state strm = Some s" "i_window s \<noteq> None"
  shows "\<exists>strm' s'. inflateReset strm = (Z_OK, strm') \<and> z_state strm' = Some s' \<and>
    (\<forall>outputs. \<exists>s''. foldl (\<lambda>s src. Option.bind s (\<lambda>s. updatewindow s src (length src) (length src))) (Some s') outputs = Some s'' \<and>
      i_whave s'' = 0 \<and>
      (\<forall>r. r_state r = s''\<lparr>i_mode := MATCH, i_offset := i_offset (r_state r), i_length := i_length (r_state r)\<rparr> \<and>
         0 < r_left r \<and> r_out r - r_left r < i_offset (r_state r) \<longrightarrow>
         step_MATCH r = Some (Continue (bad ''invalid distance too far back'' r))))"
proof -
  obtain strm' s' where r: "inflateReset strm = (Z_OK, strm')" "z_state strm' = Some s'" "window_lost s'"
    using assms by (auto simp: inflateReset_def inflateResetKeep_def window_lost_def)
  have "\<exists>s''. foldl (\<lambda>s src. Option.bind s (\<lambda>s. updatewindow s src (length src) (length src))) (Some s') outputs = Some s'' \<and> window_lost s''"
    for outputs
    using r(3)
  proof (induction outputs arbitrary: s')
    case (Cons src outputs)
    then show ?case using window_lost_update [of s' src "length src" "length src"] by auto
  qed simp
  moreover have "step_MATCH r = Some (Continue (bad ''invalid distance too far back'' r))"
    if "window_lost s''" "r_state r = s''\<lparr>i_mode := MATCH, i_offset := i_offset (r_state r), i_length := i_length (r_state r)\<rparr>"
      "0 < r_left r" "r_out r - r_left r < i_offset (r_state r)" for s'' r
  proof (rule window_lost_match [OF _ that(3,4)])
    show "window_lost (r_state r)" using that(1) by (subst that(2)) (simp add: window_lost_def)
  qed
  ultimately show ?thesis using r(1,2) unfolding window_lost_def by (intro exI conjI) (assumption | blast)+
qed

text \<open>A stream that has put out 300 bytes before it is reset.\<close>

definition used_stream :: zstream where
  "used_stream = new_ZStream\<lparr>z_state :=
     updatewindow (the (z_state (snd (inflateInit new_ZStream)))) (replicate 300 65) 300 300\<rparr>"

theorem inflateReset_loses_window_witness:
  "\<exists>strm' s'. inflateReset used_stream = (Z_OK, strm') \<and> z_state strm' = Some s' \<and>
    (\<forall>outputs. \<exists>s''. foldl (\<lambda>s src. Option.bind s (\<lambda>s. updatewindow s src (length src) (length src))) (Some s') outputs = Some s'' \<and>
      i_whave s'' = 0 \<and>
      (\<forall>r. r_state r = s''\<lparr>i_mode := MATCH, i_offset := i_offset (r_state r), i_length := i_length (r_state r)\<rparr> \<and>
         0 < r_left r \<and> r_out r - r_left r < i_offset (r_state r) \<longrightarrow>
         step_MATCH r = Some (Continue (bad ''invalid distance too far back'' r))))"
proof -
  obtain s where i: "z_state (snd (inflateInit new_ZStream)) = Some s" "window_ok s []"
    by (auto simp: inflateInit_def inflateInit2_def inflateReset2_def inflateReset_def inflateResetKeep_def wrap_request_def
        DEF_WBITS_def new_inflate_state_def Z_OK_def js_and_masks js_shr_def ToInt32_id window_ok_def)
  obtain s' where "updatewindow s (replicate 300 65) 300 300 = Some s'" "i_window s' \<noteq> None"
    using updatewindow_ok [OF i(2), of 300 300 "replicate 300 65"] by auto
  then have "z_state used_stream = Some s'" "i_window s' \<noteq> None" using i(1) by (simp_all add: used_stream_def)
  then show ?thesis by (rule inflateReset_loses_window)
qed

end
