(* ===== verification/InflateCopy.thy ===== *)
theory InflateCopy
  imports InflateWindow InflateBits
begin

text \<open>
  The copying loops of \<open>inflate_fast\<close> and of the mode \<open>MATCH\<close>: byte by byte or three at a time, from the
  output or from the window, once around its end or not, they are the match of the specification.
\<close>

section \<open>Three at a time\<close>

lemma copy_rest: "0 \<le> len \<Longrightarrow> len \<le> 2 \<Longrightarrow> copy_rest src len c = (copy1 src ^^ nat len) c"
proof -
  assume "0 \<le> len" "len \<le> 2"
  then have "len = 0 \<or> len = 1 \<or> len = 2" by linarith
  then show ?thesis by (auto simp: copy_rest_def Let_def numeral_2_eq_2)
qed

lemma funpow_add_app: "(f ^^ m) ((f ^^ n) x) = (f ^^ (n + m)) x"
  by (simp add: funpow_add add.commute)

lemma copy_while: "0 \<le> len \<Longrightarrow> copy_while src len c = (copy1 src ^^ nat len) c"
proof (induction src len c rule: copy_while.induct)
  case (1 src len c)
  show ?case
  proof (cases "len > 2")
    case True
    then have "copy_while src len c = (copy1 src ^^ nat (len - 3)) ((copy1 src ^^ 3) c)"
      using 1 by (subst copy_while.simps) simp
    also have "\<dots> = (copy1 src ^^ (3 + nat (len - 3))) c" by (rule funpow_add_app)
    also have "3 + nat (len - 3) = nat len" using True by simp
    finally show ?thesis .
  next
    case False
    then show ?thesis using 1 by (subst copy_while.simps) (simp add: copy_rest)
  qed
qed

lemma copy_direct: "3 \<le> len \<Longrightarrow> copy_direct len c = (copy1 None ^^ nat len) c"
proof (induction len c rule: copy_direct.induct)
  case (1 len c)
  have e: "3 + nat (len - 3) = nat len" using "1.prems" by simp
  have "copy_direct len c = (copy1 None ^^ nat (len - 3)) ((copy1 None ^^ 3) c)"
  proof (cases "len - 3 > 2")
    case True
    then show ?thesis using "1.IH" [OF refl refl] by (subst copy_direct.simps) (simp add: Let_def)
  next
    case False
    then show ?thesis using "1.prems" copy_rest [of "len - 3" None] by (subst copy_direct.simps) (simp add: Let_def)
  qed
  also have "\<dots> = (copy1 None ^^ nat len) c" unfolding funpow_add_app e ..
  finally show ?case .
qed

section \<open>Matches of the specification\<close>

lemma length_lz_copy [simp]: "length (lz_copy n d G) = length G + n"
  by (induction n arbitrary: G) auto

lemma lz_copy_add: "lz_copy (m + n) d G = lz_copy n d (lz_copy m d G)"
  by (induction m arbitrary: G) auto

lemma lz_copy_snoc: "lz_copy (Suc n) d G = lz_copy n d G @ [lz_copy n d G ! (length G + n - d)]"
  using lz_copy_add [of n 1 d G] by simp

section \<open>The output\<close>

text \<open>
  \<open>G\<close> is all that was put out: \<open>H0\<close> before the call, and \<open>output\<close> from \<open>beg\<close> to \<open>p\<close> in it.
\<close>

definition out_ok :: "int list \<Rightarrow> nat \<Rightarrow> nat \<Rightarrow> int list \<Rightarrow> int list \<Rightarrow> bool" where
  "out_ok H0 beg p output G \<longleftrightarrow> beg \<le> p \<and> p \<le> length output \<and> is_bytes output \<and> is_bytes H0 \<and>
     G = H0 @ take (p - beg) (drop beg output)"

lemma out_okD:
  assumes "out_ok H0 beg p output G"
  shows "length G = length H0 + (p - beg)" "is_bytes G" "beg \<le> p" "p \<le> length output"
    "\<And>i. i < length H0 \<Longrightarrow> G ! i = H0 ! i" "\<And>i. beg \<le> i \<Longrightarrow> i < p \<Longrightarrow> output ! i = G ! (length H0 + (i - beg))"
  using assms by (auto simp: out_ok_def nth_append is_bytes_take is_bytes_drop)

lemma out_ok_snoc:
  assumes "out_ok H0 beg p output G" "p < length output" "0 \<le> b" "b < 256"
  shows "out_ok H0 beg (p + 1) (output[p := b]) (G @ [b])"
proof -
  have bp: "beg \<le> p" using assms(1) by (simp add: out_ok_def)
  have "take (p + 1 - beg) (drop beg (output[p := b])) = take (p - beg) (drop beg output) @ [b]"
  proof -
    have "drop beg (output[p := b]) = (drop beg output)[p - beg := b]" using bp by (simp add: drop_update_swap)
    moreover have "p + 1 - beg = Suc (p - beg)" using bp by simp
    ultimately show ?thesis using bp assms(2) by (simp add: take_Suc_conv_app_nth)
  qed
  then show ?thesis using assms by (simp add: out_ok_def is_bytes_update)
qed

lemma copy1_output:
  assumes "out_ok H0 beg p output G" "p < length output" "0 < d" "d \<le> p - beg"
  shows "copy1 None (p - d, p, output) = (p + 1 - d, p + 1, output[p := G ! (length G - d)])"
    "out_ok H0 beg (p + 1) (output[p := G ! (length G - d)]) (lz_copy 1 d G)"
proof -
  note D = out_okD [OF assms(1)]
  have i: "length H0 + (p - d - beg) = length G - d" using D(1) assms(4) by simp
  have "output ! (p - d) = G ! (length H0 + (p - d - beg))" using D(6) [of "p - d"] assms by simp
  moreover have "p - d < length output" using assms(2) by linarith
  ultimately have v: "at output (p - d) = G ! (length G - d)" unfolding i by (simp add: at_def)
  show "copy1 None (p - d, p, output) = (p + 1 - d, p + 1, output[p := G ! (length G - d)])"
    using assms by (auto simp: copy1_def v)
  have "length G - d < length G" using D(1) assms by simp
  then have "0 \<le> G ! (length G - d) \<and> G ! (length G - d) < 256" using D(2) is_bytes_nth by blast
  then show "out_ok H0 beg (p + 1) (output[p := G ! (length G - d)]) (lz_copy 1 d G)"
    using out_ok_snoc [OF assms(1,2)] by simp
qed

lemma copy_output:
  assumes "out_ok H0 beg p output G" "p + n \<le> length output" "0 < d" "d \<le> p - beg"
  shows "\<exists>output'. (copy1 None ^^ n) (p - d, p, output) = (p + n - d, p + n, output') \<and> length output' = length output \<and>
    out_ok H0 beg (p + n) output' (lz_copy n d G)"
  using assms(2)
proof (induction n)
  case 0
  then show ?case using assms by simp
next
  case (Suc n)
  then obtain output' where o: "(copy1 None ^^ n) (p - d, p, output) = (p + n - d, p + n, output')"
    "length output' = length output" "out_ok H0 beg (p + n) output' (lz_copy n d G)" by auto
  have c: "p + n < length output'" "0 < d" "d \<le> p + n - beg" using Suc.prems o(2) assms by auto
  show ?case using copy1_output [OF o(3) c] o lz_copy_add [of n 1 d G] by simp
qed

text \<open>From the window: \<open>n\<close> bytes without a turn around its end.\<close>

definition ring_ok :: "int list \<Rightarrow> nat \<Rightarrow> nat \<Rightarrow> nat \<Rightarrow> int list \<Rightarrow> bool" where
  "ring_ok w wsize wnext whave H0 \<longleftrightarrow> whave \<le> length H0 \<and> wnext < wsize \<and> whave \<le> wsize \<and> length w = wsize \<and>
     (\<forall>d. 0 < d \<and> d \<le> whave \<longrightarrow> w ! ring_at wsize wnext d = H0 ! (length H0 - d))"

lemma copy_window_run:
  assumes "out_ok H0 beg p output G" "p + n \<le> length output" "ring_ok w wsize wnext whave H0"
    and "op + (p - beg) = d" "op \<le> whave" "n \<le> op" "wnext < op \<longrightarrow> n \<le> op - wnext" "q = ring_at wsize wnext op"
  shows "\<exists>output'. (copy1 (Some w) ^^ n) (q, p, output) = (q + n, p + n, output') \<and> length output' = length output \<and>
    out_ok H0 beg (p + n) output' (lz_copy n d G)"
  using assms(2,6,7)
proof (induction n)
  case 0
  then show ?case using assms by simp
next
  case (Suc n)
  then obtain output' where o: "(copy1 (Some w) ^^ n) (q, p, output) = (q + n, p + n, output')"
    "length output' = length output" "out_ok H0 beg (p + n) output' (lz_copy n d G)" by auto
  note R = assms(3) [unfolded ring_ok_def] and D = out_okD [OF o(3)] and bp = out_okD(3) [OF assms(1)]
  have k: "0 < op - n" "op - n \<le> whave" using Suc.prems assms(5) by auto
  have q: "q + n = ring_at wsize wnext (op - n)" "q + n < wsize"
    using Suc.prems R assms(5,8) by (auto simp: ring_at_def split: if_splits)
  have lG: "length G = length H0 + (p - beg)" using out_okD(1) [OF assms(1)] .
  have i: "length H0 - (op - n) = length G + n - d" "length G + n - d < length H0"
    using k R lG assms(4) by auto
  have "at w (q + n) = H0 ! (length H0 - (op - n))" using R k q by (simp add: at_def)
  also have "\<dots> = lz_copy n d G ! (length G + n - d)" using D(5) [OF i(2)] unfolding i(1) by simp
  finally have v: "at w (q + n) = lz_copy n d G ! (length G + n - d)" .
  have "length G + n - d < length (lz_copy n d G)" using i(2) D(1) by simp
  then have b: "0 \<le> at w (q + n)" "at w (q + n) < 256" using D(2) is_bytes_nth unfolding v by blast+
  have lt: "p + n < length output'" using Suc.prems o(2) by simp
  have "out_ok H0 beg (p + Suc n) (output'[p + n := at w (q + n)]) (lz_copy (Suc n) d G)"
    using out_ok_snoc [OF o(3) lt b] unfolding lz_copy_snoc v by (simp only: add_Suc_right Suc_eq_plus1 add.assoc)
  moreover have "(copy1 (Some w) ^^ Suc n) (q, p, output) = (q + Suc n, p + Suc n, output'[p + n := at w (q + n)])"
    using o(1) by (simp add: copy1_def)
  ultimately show ?case using o(2) by (intro exI [of _ "output'[p + n := at w (q + n)]"]) simp
qed

section \<open>A match in \<open>inflate_fast\<close>\<close>

lemma window_then_output:
  assumes o: "out_ok H0 beg p output G" "p + len \<le> length output" and r: "ring_ok w wsize wnext whave H0"
    and d: "op + (p - beg) = d" "0 < op" "op \<le> whave" "op \<le> wnext \<or> wnext = 0" "q = ring_at wsize wnext op"
  shows "\<exists>q' output'. window_then_output w op len d (q, p, output) = Some (q', p + len, output') \<and>
    length output' = length output \<and> out_ok H0 beg (p + len) output' (lz_copy len d G)"
proof (cases "op < len")
  case True
  have "p + op \<le> length output" "wnext < op \<longrightarrow> op \<le> op - wnext" using True o(2) d by auto
  from copy_window_run [OF o(1) this(1) r d(1,3) le_refl this(2) d(5)] obtain output1 where
    1: "(copy1 (Some w) ^^ op) (q, p, output) = (q + op, p + op, output1)" "length output1 = length output"
      "out_ok H0 beg (p + op) output1 (lz_copy op d G)" by auto
  have "p + op + (len - op) \<le> length output1" "0 < d" "d \<le> p + op - beg" using True o(2) 1(2) d out_okD(3) [OF o(1)] by auto
  from copy_output [OF 1(3) this] obtain output2 where
    2: "(copy1 None ^^ (len - op)) (p + op - d, p + op, output1) = (p + op + (len - op) - d, p + op + (len - op), output2)"
      "length output2 = length output1" "out_ok H0 beg (p + op + (len - op)) output2 (lz_copy (len - op) d (lz_copy op d G))" by auto
  have e: "p + op + (len - op) = p + len" using True by simp
  have "lz_copy (len - op) d (lz_copy op d G) = lz_copy len d G" using lz_copy_add [of op "len - op" d G] True by simp
  moreover have "nat (int len - int op) = len - op" by simp
  ultimately show ?thesis using 1 2 True d(2) by (simp add: window_then_output_def do_copy_def copy_while e)
next
  case False
  have "wnext < op \<longrightarrow> len \<le> op - wnext" using False d by auto
  from copy_window_run [OF o r d(1,3) _ this d(5)] False show ?thesis
    by (auto simp: window_then_output_def copy_while)
qed

lemma copy_window_ok:
  assumes o: "out_ok H0 beg p output G" "p + len \<le> length output"
    and r: "ring_ok (e_window e) (e_wsize e) (e_wnext e) (e_whave e) H0"
    and d: "op + (p - beg) = d" "0 < op" "op \<le> e_whave e"
  shows "\<exists>q' output'. copy_window e op len d (p, output) = Some (q', p + len, output') \<and>
    length output' = length output \<and> out_ok H0 beg (p + len) output' (lz_copy len d G)"
proof (cases "e_wnext e \<noteq> 0 \<and> e_wnext e < op")
  case False
  have "op \<le> e_wnext e \<or> e_wnext e = 0" using False by auto
  moreover have "(if e_wnext e = 0 then e_wsize e - op else e_wnext e - op) = ring_at (e_wsize e) (e_wnext e) op"
    using False d by (auto simp: ring_at_def)
  ultimately show ?thesis
    using window_then_output [OF o r d(1-3) _ refl] False unfolding copy_window_def Let_def prod.case
    by (cases "e_wnext e = 0") simp_all
next
  case True
  let ?n = "op - e_wnext e"
  have q: "e_wsize e + e_wnext e - op = ring_at (e_wsize e) (e_wnext e) op" using True by (simp add: ring_at_def)
  show ?thesis
  proof (cases "?n < len")
    case more: True
    have "p + ?n \<le> length output" using more o(2) by simp
    from copy_window_run [OF o(1) this r d(1,3) _ _ refl] obtain output1 where
      1: "(copy1 (Some (e_window e)) ^^ ?n) (ring_at (e_wsize e) (e_wnext e) op, p, output) =
          (ring_at (e_wsize e) (e_wnext e) op + ?n, p + ?n, output1)" "length output1 = length output"
        "out_ok H0 beg (p + ?n) output1 (lz_copy ?n d G)" by auto
    have a: "p + ?n + (len - ?n) \<le> length output1" "e_wnext e + (p + ?n - beg) = d" "0 < e_wnext e" "e_wnext e \<le> e_whave e"
      using 1(2) o(2) more True d out_okD(3) [OF o(1)] by auto
    have z: "0 = ring_at (e_wsize e) (e_wnext e) (e_wnext e)" by (simp add: ring_at_def)
    from window_then_output [OF 1(3) a(1) r a(2-4) _ z] obtain q' output2 where
      2: "window_then_output (e_window e) (e_wnext e) (len - ?n) d (0, p + ?n, output1) = Some (q', p + ?n + (len - ?n), output2)"
        "length output2 = length output1" "out_ok H0 beg (p + ?n + (len - ?n)) output2 (lz_copy (len - ?n) d (lz_copy ?n d G))" by auto
    have e: "p + ?n + (len - ?n) = p + len" using more by simp
    have "lz_copy (len - ?n) d (lz_copy ?n d G) = lz_copy len d G" using lz_copy_add [of ?n "len - ?n" d G] more by simp
    then show ?thesis using 1(1,2) 2 True more unfolding copy_window_def Let_def prod.case q by (simp add: do_copy_def e)
  next
    case False
    then have "len \<le> op" by simp
    from copy_window_run [OF o r d(1,3) this _ refl] False True show ?thesis
      unfolding copy_window_def Let_def prod.case q by (auto simp: copy_while)
  qed
qed

text \<open>A match that the specification accepts, the window holding what \<open>i_whave\<close> says.\<close>

lemma fast_match_ok:
  assumes o: "out_ok H0 (e_beg e) (f_out f) (f_output f) G" "f_out f + len \<le> length (f_output f)" and l: "3 \<le> len" and d: "0 < d"
    and r: "d \<le> f_out f - e_beg e \<or> ring_ok (e_window e) (e_wsize e) (e_wnext e) (e_whave e) H0 \<and> d \<le> f_out f - e_beg e + e_whave e"
  shows "\<exists>output'. fast_match e len d f = Some (False, f\<lparr>f_out := f_out f + len, f_output := output'\<rparr>) \<and>
    length output' = length (f_output f) \<and> out_ok H0 (e_beg e) (f_out f + len) output' (lz_copy len d G)"
proof (cases "d \<le> f_out f - e_beg e")
  case True
  from copy_output [OF o d True] show ?thesis
    using True l by (auto simp: fast_match_def copy_direct)
next
  case False
  then have b: "d - (f_out f - e_beg e) + (f_out f - e_beg e) = d" "0 < d - (f_out f - e_beg e)" "d - (f_out f - e_beg e) \<le> e_whave e"
    "ring_ok (e_window e) (e_wsize e) (e_wnext e) (e_whave e) H0" using r by auto
  from copy_window_ok [OF o b(4) b(1-3)] show ?thesis
    using False b(3) by (auto simp: fast_match_def Let_def)
qed

section \<open>A match in the mode \<open>MATCH\<close>\<close>

text \<open>One turn copies some bytes of it, at least one.\<close>

definition match_turn :: "run \<Rightarrow> nat \<Rightarrow> int list \<Rightarrow> run" where
  "match_turn r n output =
     upd_state (\<lambda>s. s\<lparr>i_length := i_length s - n, i_mode := (if i_length s = n then LEN else i_mode s)\<rparr>)
       (r\<lparr>r_left := r_left r - n, r_put := r_put r + n, r_output := output\<rparr>)"

definition turn_ok :: "int list \<Rightarrow> nat \<Rightarrow> int list \<Rightarrow> run \<Rightarrow> nat \<Rightarrow> int list \<Rightarrow> bool" where
  "turn_ok H0 beg G r n output \<longleftrightarrow> 0 < n \<and> n \<le> i_length (r_state r) \<and> n \<le> r_left r \<and> length output = length (r_output r) \<and>
     out_ok H0 beg (r_put r + n) output (lz_copy n (i_offset (r_state r)) G)"

lemma copy_match_ok:
  assumes room: "0 < r_left r" and c: "0 < c" "c \<le> i_length (r_state r)"
    and run: "\<And>n. n \<le> c \<Longrightarrow> n \<le> r_left r \<Longrightarrow>
      \<exists>q' output'. (copy1 src ^^ n) (q, r_put r, r_output r) = (q', r_put r + n, output') \<and>
        length output' = length (r_output r) \<and> out_ok H0 beg (r_put r + n) output' (lz_copy n (i_offset (r_state r)) G)"
  shows "\<exists>n output. turn_ok H0 beg G r n output \<and> copy_match src q c r = Some (Continue (match_turn r n output))"
proof -
  define n where "n = (if c > r_left r then r_left r else c)"
  have n: "0 < n" "n \<le> c" "n \<le> r_left r" using c room by (auto simp: n_def)
  from run [OF n(2,3)] obtain q' output' where e: "(copy1 src ^^ n) (q, r_put r, r_output r) = (q', r_put r + n, output')"
    "length output' = length (r_output r)" "out_ok H0 beg (r_put r + n) output' (lz_copy n (i_offset (r_state r)) G)" by blast
  have "copy_match src q c r = Some (Continue (match_turn r n output'))"
    using n c e(1) unfolding copy_match_def n_def [symmetric] Let_def
    by (auto simp: do_copy_def set_mode_def match_turn_def intro!: arg_cong2 [where f = "\<lambda>g r. upd_state g r"])
  then show ?thesis using n c e unfolding turn_ok_def by (intro exI conjI) (assumption | linarith)+
qed

lemma step_MATCH_ok:
  assumes o: "out_ok H0 beg (r_put r) (r_output r) G" and beg: "r_out r - r_left r = r_put r - beg"
    and room: "r_put r + r_left r \<le> length (r_output r)" "0 < r_left r"
    and s: "0 < i_length (r_state r)" "0 < i_offset (r_state r)"
    and rng: "i_offset (r_state r) \<le> r_put r - beg \<or>
      ring_ok (nullable (i_window (r_state r))) (i_wsize (r_state r)) (i_wnext (r_state r)) (i_whave (r_state r)) H0 \<and>
      i_offset (r_state r) \<le> r_put r - beg + i_whave (r_state r)"
  shows "\<exists>n output. turn_ok H0 beg G r n output \<and> step_MATCH r = Some (Continue (match_turn r n output))"
proof (cases "i_offset (r_state r) > r_put r - beg")
  case False
  have "\<exists>n output. turn_ok H0 beg G r n output \<and>
    copy_match None (r_put r - i_offset (r_state r)) (i_length (r_state r)) r = Some (Continue (match_turn r n output))"
  proof (rule copy_match_ok [OF room(2) s(1) le_refl])
    fix n assume "n \<le> r_left r"
    then have "r_put r + n \<le> length (r_output r)" "i_offset (r_state r) \<le> r_put r - beg" using room False by auto
    from copy_output [OF o this(1) s(2) this(2)] show "\<exists>q' output'. (copy1 None ^^ n) (r_put r - i_offset (r_state r), r_put r, r_output r) =
        (q', r_put r + n, output') \<and> length output' = length (r_output r) \<and>
        out_ok H0 beg (r_put r + n) output' (lz_copy n (i_offset (r_state r)) G)" by blast
  qed
  then show ?thesis using False room(2) by (simp add: step_MATCH_def beg Let_def)
next
  case True
  let ?s = "r_state r"
  define c where "c = i_offset ?s - (r_put r - beg)"
  define q where "q = (if c > i_wnext ?s then i_wsize ?s - (c - i_wnext ?s) else i_wnext ?s - c)"
  define j where "j = (if c > i_wnext ?s then c - i_wnext ?s else c)"
  define k where "k = (if j > i_length ?s then i_length ?s else j)"
  have c: "0 < c" "c \<le> i_whave ?s" "c + (r_put r - beg) = i_offset ?s" using True rng by (auto simp: c_def)
  have k: "0 < k" "k \<le> i_length ?s" "k \<le> c" "i_wnext ?s < c \<longrightarrow> k \<le> c - i_wnext ?s" using c s by (auto simp: k_def j_def)
  have ring: "ring_ok (nullable (i_window ?s)) (i_wsize ?s) (i_wnext ?s) (i_whave ?s) H0" using True rng by auto
  then have q: "q = ring_at (i_wsize ?s) (i_wnext ?s) c" using c by (auto simp: q_def ring_at_def ring_ok_def)
  have "\<exists>n output. turn_ok H0 beg G r n output \<and>
    copy_match (Some (nullable (i_window ?s))) q k r = Some (Continue (match_turn r n output))"
  proof (rule copy_match_ok [OF room(2) k(1,2)])
    fix n assume "n \<le> k" "n \<le> r_left r"
    then have "r_put r + n \<le> length (r_output r)" "n \<le> c" "i_wnext ?s < c \<longrightarrow> n \<le> c - i_wnext ?s" using k room by auto
    from copy_window_run [OF o this(1) ring c(3,2) this(2,3) q] show "\<exists>q' output'. (copy1 (Some (nullable (i_window ?s))) ^^ n) (q, r_put r, r_output r) =
        (q', r_put r + n, output') \<and> length output' = length (r_output r) \<and>
        out_ok H0 beg (r_put r + n) output' (lz_copy n (i_offset (r_state r)) G)" by blast
  qed
  moreover have "step_MATCH r = copy_match (Some (nullable (i_window ?s))) q k r"
  proof -
    have "\<not> c > i_whave ?s" "r_left r \<noteq> 0" using c(2) room(2) by auto
    then show ?thesis
      using True unfolding step_MATCH_def beg Let_def c_def [symmetric] q_def [symmetric] j_def [symmetric] k_def [symmetric]
      by (simp only: if_True if_False simp_thms)
  qed
  ultimately show ?thesis by simp
qed

end
