(* ===== verification/InflateRest.thy ===== *)
theory InflateRest
  imports InflateTables InflateCopy
begin

text \<open>
  What is still to come at any point of \<open>inflate\<close>, as the specification says it, and the invariant of its
  modes. A step is correct if it keeps both, or leaves the loop for a reason that it states.
\<close>

section \<open>What is left to decode\<close>

text \<open>The code lengths that the tables in use were built from.\<close>

definition ll_of :: "inflate_state \<Rightarrow> nat list" where
  "ll_of s = (case i_lencode s of Fixed \<Rightarrow> fixed_ll | Dynamic \<Rightarrow> take (i_nlen s) (i_lens s))"

definition dl_of :: "inflate_state \<Rightarrow> nat list" where
  "dl_of s = (case i_distcode s of Fixed \<Rightarrow> fixed_dl | Dynamic \<Rightarrow> take (i_ndist s) (drop (i_nlen s) (i_lens s)))"

definition blocks_rest :: "inflate_state \<Rightarrow> bits \<Rightarrow> int list \<Rightarrow> (bits \<times> int list) option" where
  "blocks_rest s b G = ref_blocks (i_last s \<noteq> 0) (i_dmax s) b G"

definition then_blocks :: "inflate_state \<Rightarrow> (bits \<times> int list) option \<Rightarrow> (bits \<times> int list) option" where
  "then_blocks s x = Option.bind x (\<lambda>(b, G). blocks_rest s b G)"

definition codes_rest :: "inflate_state \<Rightarrow> bits \<Rightarrow> int list \<Rightarrow> (bits \<times> int list) option" where
  "codes_rest s b G = then_blocks s (ref_codes (ll_of s) (dl_of s) (i_dmax s) b G)"

definition item_rest :: "inflate_state \<Rightarrow> int list \<Rightarrow> (deflate_item \<times> bits) option \<Rightarrow> (bits \<times> int list) option" where
  "item_rest s G x = Option.bind x (\<lambda>(it, b).
     if it = EndBlock then blocks_rest s b G else Option.bind (ref_output (i_dmax s) it G) (codes_rest s b))"

text \<open>The lengths of the code lengths' code, as far as they have been read.\<close>

definition part_cl :: "inflate_state \<Rightarrow> nat list" where
  "part_cl s = map (\<lambda>j. if j \<in> set (take (i_have s) rfc_order) then i_lens s ! j else 0) [0..<19]"

definition tables_rest :: "inflate_state \<Rightarrow> int list \<Rightarrow> (nat list \<times> bits) option \<Rightarrow> (bits \<times> int list) option" where
  "tables_rest s G x = Option.bind x (\<lambda>(lens, b). then_blocks s (ref_tables (i_nlen s) (i_dmax s) lens b G))"

definition codelens_rest :: "inflate_state \<Rightarrow> int list \<Rightarrow> (nat list \<times> bits) option \<Rightarrow> (bits \<times> int list) option" where
  "codelens_rest s G x = Option.bind x (\<lambda>(cl, b).
     if acceptable False cl then tables_rest s G (ref_codelens cl (i_nlen s + i_ndist s) b []) else None)"

text \<open>\<open>cl\<close> are the lengths that the table of the mode \<open>CODELENS\<close> was built from.\<close>

definition to_come :: "nat list \<Rightarrow> inflate_state \<Rightarrow> bits \<Rightarrow> int list \<Rightarrow> (bits \<times> int list) option" where
  "to_come cl s b G =
     (case i_mode s of
        TYPE_mode \<Rightarrow> blocks_rest s b G
      | TYPEDO \<Rightarrow> blocks_rest s b G
      | STORED \<Rightarrow> then_blocks s (ref_stored b G)
      | COPY_first \<Rightarrow> then_blocks s (ref_bytes (i_length s) b G)
      | COPY \<Rightarrow> then_blocks s (ref_bytes (i_length s) b G)
      | TABLE \<Rightarrow> then_blocks s (ref_dynamic (i_dmax s) b G)
      | LENLENS \<Rightarrow> codelens_rest s G (ref_lenlens (i_have s) (i_ncode s - i_have s) b (part_cl s))
      | CODELENS \<Rightarrow> tables_rest s G (ref_codelens cl (i_nlen s + i_ndist s) b (take (i_have s) (i_lens s)))
      | LEN_first \<Rightarrow> codes_rest s b G
      | LEN \<Rightarrow> codes_rest s b G
      | LENEXT \<Rightarrow> item_rest s G (Option.bind (with_extra (i_length s) (i_extra s) b) (\<lambda>(len, b). ref_distance (dl_of s) len b))
      | DIST \<Rightarrow> item_rest s G (ref_distance (dl_of s) (i_length s) b)
      | DISTEXT \<Rightarrow> item_rest s G (map_option (\<lambda>(d, b). (Match (i_length s) d, b)) (with_extra (i_offset s) (i_extra s) b))
      | MATCH \<Rightarrow> item_rest s G (Some (Match (i_length s) (i_offset s), b))
      | LIT \<Rightarrow> item_rest s G (Some (Literal (i_length s), b))
      | BAD \<Rightarrow> None
      | _ \<Rightarrow> Some (b, G))"

text \<open>These depend on few components of the state.\<close>

lemma rest_cong:
  assumes "i_last s = i_last t" "i_dmax s = i_dmax t"
  shows "then_blocks s x = then_blocks t x"
    "i_nlen s = i_nlen t \<Longrightarrow> tables_rest s G y = tables_rest t G y"
    "i_nlen s = i_nlen t \<Longrightarrow> i_ndist s = i_ndist t \<Longrightarrow> codelens_rest s G y = codelens_rest t G y"
    "ll_of s = ll_of t \<Longrightarrow> dl_of s = dl_of t \<Longrightarrow> codes_rest s b G = codes_rest t b G"
    "ll_of s = ll_of t \<Longrightarrow> dl_of s = dl_of t \<Longrightarrow> item_rest s G z = item_rest t G z"
proof -
  show b: "then_blocks s x = then_blocks t x" for x using assms by (simp add: then_blocks_def blocks_rest_def)
  show tr: "tables_rest s G y = tables_rest t G y" if "i_nlen s = i_nlen t" for y using that b assms by (simp add: tables_rest_def)
  show "i_nlen s = i_nlen t \<Longrightarrow> i_ndist s = i_ndist t \<Longrightarrow> codelens_rest s G y = codelens_rest t G y"
    using tr by (simp add: codelens_rest_def cong: if_cong)
  show c: "codes_rest s b G = codes_rest t b G" if "ll_of s = ll_of t" "dl_of s = dl_of t" for b G using that b assms by (simp add: codes_rest_def)
  have f: "codes_rest s = codes_rest t" if "ll_of s = ll_of t" "dl_of s = dl_of t" by (intro ext c that)
  show "item_rest s G z = item_rest t G z" if "ll_of s = ll_of t" "dl_of s = dl_of t"
    using f [OF that] assms by (simp add: item_rest_def blocks_rest_def cong: if_cong)
qed

lemma to_come_simps:
  "i_mode s = TYPE_mode \<Longrightarrow> to_come cl s b G = blocks_rest s b G"
  "i_mode s = TYPEDO \<Longrightarrow> to_come cl s b G = blocks_rest s b G"
  "i_mode s = STORED \<Longrightarrow> to_come cl s b G = then_blocks s (ref_stored b G)"
  "i_mode s = COPY_first \<Longrightarrow> to_come cl s b G = then_blocks s (ref_bytes (i_length s) b G)"
  "i_mode s = COPY \<Longrightarrow> to_come cl s b G = then_blocks s (ref_bytes (i_length s) b G)"
  "i_mode s = TABLE \<Longrightarrow> to_come cl s b G = then_blocks s (ref_dynamic (i_dmax s) b G)"
  "i_mode s = LENLENS \<Longrightarrow> to_come cl s b G = codelens_rest s G (ref_lenlens (i_have s) (i_ncode s - i_have s) b (part_cl s))"
  "i_mode s = CODELENS \<Longrightarrow>
    to_come cl s b G = tables_rest s G (ref_codelens cl (i_nlen s + i_ndist s) b (take (i_have s) (i_lens s)))"
  "i_mode s = LEN_first \<Longrightarrow> to_come cl s b G = codes_rest s b G"
  "i_mode s = LEN \<Longrightarrow> to_come cl s b G = codes_rest s b G"
  "i_mode s = LENEXT \<Longrightarrow> to_come cl s b G =
    item_rest s G (Option.bind (with_extra (i_length s) (i_extra s) b) (\<lambda>(len, b). ref_distance (dl_of s) len b))"
  "i_mode s = DIST \<Longrightarrow> to_come cl s b G = item_rest s G (ref_distance (dl_of s) (i_length s) b)"
  "i_mode s = DISTEXT \<Longrightarrow> to_come cl s b G =
    item_rest s G (map_option (\<lambda>(d, b). (Match (i_length s) d, b)) (with_extra (i_offset s) (i_extra s) b))"
  "i_mode s = MATCH \<Longrightarrow> to_come cl s b G = item_rest s G (Some (Match (i_length s) (i_offset s), b))"
  "i_mode s = LIT \<Longrightarrow> to_come cl s b G = item_rest s G (Some (Literal (i_length s), b))"
  "i_mode s = CHECK \<Longrightarrow> to_come cl s b G = Some (b, G)"
  "i_mode s = LENGTH_mode \<Longrightarrow> to_come cl s b G = Some (b, G)"
  "i_mode s = DONE \<Longrightarrow> to_come cl s b G = Some (b, G)"
  "i_mode s = BAD \<Longrightarrow> to_come cl s b G = None"
  by (simp_all add: to_come_def)

lemma codes_rest_unfold: "codes_rest s b G = item_rest s G (ref_item (ll_of s) (dl_of s) b)"
  unfolding codes_rest_def item_rest_def then_blocks_def
  by (subst ref_codes.simps) (auto simp: codes_rest_def then_blocks_def split: option.splits prod.splits)

lemma ref_item_unfold: "ref_item ll dl b = (case ref_symbol ll b of None \<Rightarrow> None | Some (s, b) \<Rightarrow>
    if s < 256 then Some (Literal s, b) else if s = 256 then Some (EndBlock, b)
    else if s < 286 then Option.bind (with_extra (length_base s) (length_extra s) b) (\<lambda>(len, b). ref_distance dl len b) else None)"
  by (cases "ref_symbol ll b") (auto simp: ref_item_def)

section \<open>The invariant\<close>

definition state_ok :: "inflate_state \<Rightarrow> int list \<Rightarrow> bool" where
  "state_ok s H \<longleftrightarrow> window_ok s H \<and> i_dmax s \<le> 2 ^ i_wbits s \<and> i_sane s \<and>
     length (i_lens s) = 320 \<and> length (i_work s) = 288 \<and> length (i_lendyn s) = ENOUGH_LENS \<and> length (i_distdyn s) = ENOUGH_DISTS"

definition run_ok :: "int list \<Rightarrow> nat \<Rightarrow> run \<Rightarrow> int list \<Rightarrow> bool" where
  "run_ok H beg r G \<longleftrightarrow> (i_mode (r_state r) = BAD \<or> buffer_ok r) \<and> out_ok H beg (r_put r) (r_output r) G \<and> r_put r + r_left r \<le> length (r_output r) \<and>
     r_left r + (r_put r - beg) = r_out r \<and> state_ok (r_state r) H \<and> fixed_ok (r_fixed r) \<and> r_input r = nullable (z_input (r_strm r))"

definition codes_ok :: "fixed_tables \<Rightarrow> inflate_state \<Rightarrow> bool" where
  "codes_ok g s \<longleftrightarrow> table_for LENS (ll_of s) (len_table g s) (i_lenbits s) \<and> table_for DISTS (dl_of s) (dist_table g s) (i_distbits s)"

definition counts_ok :: "inflate_state \<Rightarrow> bool" where
  "counts_ok s \<longleftrightarrow> 257 \<le> i_nlen s \<and> i_nlen s \<le> 286 \<and> 1 \<le> i_ndist s \<and> i_ndist s \<le> 30"

text \<open>
  The code lengths' code is complete, or it has no symbols: then \<open>inflate_table\<close> gives a table that reads
  every bit as the length 0, and the end of block code is found missing.
\<close>

definition codelens_ok :: "nat list \<Rightarrow> inflate_state \<Rightarrow> bool" where
  "codelens_ok cl s \<longleftrightarrow> counts_ok s \<and> i_lencode s = Dynamic \<and> table_for CODES cl (i_lendyn s) (i_lenbits s) \<and>
     acceptable False cl \<and> (\<forall>l \<in> set cl. l \<le> i_lenbits s) \<and> i_have s \<le> i_nlen s + i_ndist s \<and>
     (\<forall>l \<in> set (take (i_have s) (i_lens s)). l \<le> 15) \<and>
     ((\<forall>l \<in> set cl. l = 0) \<longrightarrow> (\<forall>l \<in> set (take (i_have s) (i_lens s)). l = 0))"

definition mode_ok :: "nat list \<Rightarrow> fixed_tables \<Rightarrow> inflate_state \<Rightarrow> bool" where
  "mode_ok cl g s \<longleftrightarrow>
     (case i_mode s of
        LENLENS \<Rightarrow> counts_ok s \<and> i_ncode s \<le> 19 \<and> i_have s \<le> i_ncode s \<and> (\<forall>l \<in> set (part_cl s). l \<le> 7)
      | CODELENS \<Rightarrow> codelens_ok cl s \<and> i_have s < i_nlen s + i_ndist s
      | LEN_first \<Rightarrow> codes_ok g s
      | LEN \<Rightarrow> codes_ok g s
      | LENEXT \<Rightarrow> codes_ok g s \<and> 3 \<le> i_length s \<and> i_extra s \<le> 5
      | DIST \<Rightarrow> codes_ok g s \<and> 3 \<le> i_length s
      | DISTEXT \<Rightarrow> codes_ok g s \<and> 3 \<le> i_length s \<and> 0 < i_offset s \<and> i_extra s \<le> 13
      | MATCH \<Rightarrow> codes_ok g s \<and> 0 < i_length s \<and> 0 < i_offset s \<and> i_offset s \<le> i_dmax s
      | LIT \<Rightarrow> codes_ok g s \<and> i_length s < 256
      | TYPE_mode \<Rightarrow> True | TYPEDO \<Rightarrow> True | STORED \<Rightarrow> True | COPY_first \<Rightarrow> True | COPY \<Rightarrow> True | TABLE \<Rightarrow> True
      | CHECK \<Rightarrow> True | LENGTH_mode \<Rightarrow> True | DONE \<Rightarrow> True | BAD \<Rightarrow> True
      | _ \<Rightarrow> False)"

text \<open>
  The number of bits that the mode waits for, as far as \<open>hold\<close> tells: the bit buffer never holds
  a whole byte beyond these.
\<close>

definition codelen_bits :: "nat list \<Rightarrow> int list \<Rightarrow> nat \<Rightarrow> int \<Rightarrow> nat" where
  "codelen_bits cl table bits hold = code_bits table bits hold +
     (case decode cl (nat hold) of None \<Rightarrow> 0 | Some s \<Rightarrow> if s < 16 then 0 else if s = 16 then 2 else if s = 17 then 3 else 7)"

definition pending :: "nat list \<Rightarrow> fixed_tables \<Rightarrow> inflate_state \<Rightarrow> int \<Rightarrow> nat" where
  "pending cl g s hold =
     (case i_mode s of
        TYPE_mode \<Rightarrow> 3 | TYPEDO \<Rightarrow> 3 | STORED \<Rightarrow> 32 | TABLE \<Rightarrow> 14 | LENLENS \<Rightarrow> 3
      | CODELENS \<Rightarrow> codelen_bits cl (i_lendyn s) (i_lenbits s) hold
      | LEN \<Rightarrow> code_bits (len_table g s) (i_lenbits s) hold
      | LENEXT \<Rightarrow> i_extra s
      | DIST \<Rightarrow> code_bits (dist_table g s) (i_distbits s) hold
      | DISTEXT \<Rightarrow> i_extra s
      | _ \<Rightarrow> 0)"

lemma mode_ok_simps:
  "i_mode s \<in> {TYPE_mode, TYPEDO, STORED, COPY_first, COPY, TABLE, CHECK, LENGTH_mode, DONE, BAD} \<Longrightarrow> mode_ok cl g s"
  "i_mode s = LENLENS \<Longrightarrow> mode_ok cl g s \<longleftrightarrow> counts_ok s \<and> i_ncode s \<le> 19 \<and> i_have s \<le> i_ncode s \<and>
    (\<forall>l \<in> set (part_cl s). l \<le> 7)"
  "i_mode s = CODELENS \<Longrightarrow> mode_ok cl g s \<longleftrightarrow> codelens_ok cl s \<and> i_have s < i_nlen s + i_ndist s"
  "i_mode s \<in> {LEN_first, LEN} \<Longrightarrow> mode_ok cl g s \<longleftrightarrow> codes_ok g s"
  "i_mode s = LENEXT \<Longrightarrow> mode_ok cl g s \<longleftrightarrow> codes_ok g s \<and> 3 \<le> i_length s \<and> i_extra s \<le> 5"
  "i_mode s = DIST \<Longrightarrow> mode_ok cl g s \<longleftrightarrow> codes_ok g s \<and> 3 \<le> i_length s"
  "i_mode s = DISTEXT \<Longrightarrow> mode_ok cl g s \<longleftrightarrow> codes_ok g s \<and> 3 \<le> i_length s \<and> 0 < i_offset s \<and> i_extra s \<le> 13"
  "i_mode s = MATCH \<Longrightarrow> mode_ok cl g s \<longleftrightarrow> codes_ok g s \<and> 0 < i_length s \<and> 0 < i_offset s \<and> i_offset s \<le> i_dmax s"
  "i_mode s = LIT \<Longrightarrow> mode_ok cl g s \<longleftrightarrow> codes_ok g s \<and> i_length s < 256"
  by (auto simp: mode_ok_def)

lemma pending_simps:
  "i_mode s = TYPE_mode \<Longrightarrow> pending cl g s = (\<lambda>_. 3)" "i_mode s = TYPEDO \<Longrightarrow> pending cl g s = (\<lambda>_. 3)"
  "i_mode s = STORED \<Longrightarrow> pending cl g s = (\<lambda>_. 32)" "i_mode s = TABLE \<Longrightarrow> pending cl g s = (\<lambda>_. 14)"
  "i_mode s = LENLENS \<Longrightarrow> pending cl g s = (\<lambda>_. 3)"
  "i_mode s = CODELENS \<Longrightarrow> pending cl g s = codelen_bits cl (i_lendyn s) (i_lenbits s)"
  "i_mode s = LEN \<Longrightarrow> pending cl g s = code_bits (len_table g s) (i_lenbits s)"
  "i_mode s = LENEXT \<Longrightarrow> pending cl g s = (\<lambda>_. i_extra s)"
  "i_mode s = DIST \<Longrightarrow> pending cl g s = code_bits (dist_table g s) (i_distbits s)"
  "i_mode s = DISTEXT \<Longrightarrow> pending cl g s = (\<lambda>_. i_extra s)"
  "i_mode s \<in> {COPY_first, COPY, LEN_first, MATCH, LIT, CHECK, LENGTH_mode, DONE, BAD} \<Longrightarrow> pending cl g s = (\<lambda>_. 0)"
  by (auto simp: pending_def)

definition lean :: "nat list \<Rightarrow> run \<Rightarrow> bool" where
  "lean cl r \<longleftrightarrow> (if i_mode (r_state r) \<in> {COPY_first, COPY} then r_bits r = 0
     else i_mode (r_state r) = BAD \<or> r_bits r < 8 \<or> r_bits r < pending cl (r_fixed r) (r_state r) (r_hold r))"

definition all_ok :: "int list \<Rightarrow> nat \<Rightarrow> nat list \<Rightarrow> run \<Rightarrow> int list \<Rightarrow> bool" where
  "all_ok H beg cl r G \<longleftrightarrow> run_ok H beg r G \<and> mode_ok cl (r_fixed r) (r_state r) \<and> lean cl r"

section \<open>Correct steps\<close>

text \<open>What stays the same throughout a call.\<close>

definition same_call :: "run \<Rightarrow> run \<Rightarrow> bool" where
  "same_call r r' \<longleftrightarrow> r_input r' = r_input r \<and> length (r_output r') = length (r_output r) \<and> r_in r' = r_in r \<and> r_out r' = r_out r \<and>
     r_have r' + r_next r' = r_have r + r_next r \<and> r_have r' \<le> r_have r \<and> i_wrap (r_state r') = i_wrap (r_state r) \<and>
     i_dmax (r_state r') = i_dmax (r_state r) \<and> i_wbits (r_state r') = i_wbits (r_state r)"

lemma same_call_refl [simp]: "same_call r r"
  by (simp add: same_call_def)

lemma same_call_trans: "same_call r r' \<Longrightarrow> same_call r' r'' \<Longrightarrow> same_call r r''"
  by (simp add: same_call_def)

lemma same_call_buffer: "same_but_buffer r r' \<Longrightarrow> same_call r r'"
  by (simp add: same_call_def same_but_buffer_def)

text \<open>One step comes before another in this order, so that there is an end.\<close>

definition mode_rank :: "inflate_mode \<Rightarrow> nat" where
  "mode_rank m = (case m of HEAD \<Rightarrow> 12 | LENLENS \<Rightarrow> 11 | CODELENS \<Rightarrow> 10 | LEN_first \<Rightarrow> 9 | LENEXT \<Rightarrow> 8 | DIST \<Rightarrow> 7 | DISTEXT \<Rightarrow> 7
     | MATCH \<Rightarrow> 6 | COPY_first \<Rightarrow> 5 | COPY \<Rightarrow> 4 | CHECK \<Rightarrow> 2 | LENGTH_mode \<Rightarrow> 1 | DONE \<Rightarrow> 0 | BAD \<Rightarrow> 0 | _ \<Rightarrow> 3)"

lemma mode_rank_simps:
  "mode_rank HEAD = 12" "mode_rank LENLENS = 11" "mode_rank CODELENS = 10" "mode_rank LEN_first = 9" "mode_rank LENEXT = 8" "mode_rank DIST = 7"
  "mode_rank DISTEXT = 7" "mode_rank MATCH = 6" "mode_rank COPY_first = 5" "mode_rank COPY = 4" "mode_rank CHECK = 2" "mode_rank LENGTH_mode = 1"
  "mode_rank DONE = 0" "mode_rank BAD = 0" "mode_rank LEN = 3" "mode_rank TYPE_mode = 3" "mode_rank TYPEDO = 3"
  by (simp_all add: mode_rank_def)

abbreviation run_bits :: "run \<Rightarrow> nat" where
  "run_bits r \<equiv> r_bits r + 8 * r_have r"

definition step_order :: "(run \<times> run) set" where
  "step_order = inv_image (less_than <*lex*> less_than <*lex*> less_than) (\<lambda>r. (run_bits r, r_left r, mode_rank (i_mode (r_state r))))"

lemma wf_step_order: "wf step_order"
  by (simp add: step_order_def wf_lex_prod)

lemma step_order_bits: "run_bits r' < run_bits r \<Longrightarrow> (r', r) \<in> step_order"
  by (simp add: step_order_def)

lemma step_order_left: "run_bits r' \<le> run_bits r \<Longrightarrow> r_left r' < r_left r \<Longrightarrow> (r', r) \<in> step_order"
  by (auto simp: step_order_def)

lemma step_order_rank: "run_bits r' \<le> run_bits r \<Longrightarrow> r_left r' \<le> r_left r \<Longrightarrow>
    mode_rank (i_mode (r_state r')) < mode_rank (i_mode (r_state r)) \<Longrightarrow> (r', r) \<in> step_order"
  by (auto simp: step_order_def)

text \<open>
  A step from \<open>r\<close> to \<open>r'\<close> that keeps the invariant and what is left to decode. It stops the loop only at
  the end of the stream, at an error, for want of input, which is not complete then, or of room.
\<close>

definition goes :: "(nat list \<Rightarrow> int list \<Rightarrow> run \<Rightarrow> bool) \<Rightarrow> int list \<Rightarrow> nat \<Rightarrow> nat list \<Rightarrow> int list \<Rightarrow> run \<Rightarrow> run \<Rightarrow> bool" where
  "goes P H beg cl G r r' \<longleftrightarrow> (\<exists>cl' G'. all_ok H beg cl' r' G' \<and>
     (\<forall>F. to_come cl' (r_state r') (bitstream r' F) G' = to_come cl (r_state r) (bitstream r F) G) \<and> same_call r r' \<and> P cl' G' r')"

definition ready :: "run \<Rightarrow> nat list \<Rightarrow> int list \<Rightarrow> run \<Rightarrow> bool" where
  "ready r cl' G' r' \<longleftrightarrow> (i_mode (r_state r') \<noteq> BAD \<longrightarrow> r_ret r' = Z_OK) \<and> (r', r) \<in> step_order"

definition full :: "run \<Rightarrow> bool" where
  "full r \<longleftrightarrow> r_left r = 0 \<and> (i_mode (r_state r) = COPY \<and> i_length (r_state r) \<noteq> 0 \<or> i_mode (r_state r) \<in> {MATCH, LIT})"

definition stopped :: "nat list \<Rightarrow> int list \<Rightarrow> run \<Rightarrow> bool" where
  "stopped cl' G' r' \<longleftrightarrow>
     (if i_mode (r_state r') = BAD then r_ret r' = Z_DATA_ERROR
      else if i_mode (r_state r') = DONE then r_ret r' = Z_STREAM_END
      else r_ret r' = Z_OK \<and> (full r' \<or> r_have r' = 0 \<and> to_come cl' (r_state r') (bitstream r' []) G' = None))"

definition step_ok :: "int list \<Rightarrow> nat \<Rightarrow> nat list \<Rightarrow> int list \<Rightarrow> run \<Rightarrow> outcome option \<Rightarrow> bool" where
  "step_ok H beg cl G r res \<longleftrightarrow>
     (case res of Some (Continue r') \<Rightarrow> goes (ready r) H beg cl G r r' | Some (Leave r') \<Rightarrow> goes stopped H beg cl G r r' | _ \<Rightarrow> False)"

lemma step_ok_simps [simp]:
  "step_ok H beg cl G r (Some (Continue r')) = goes (ready r) H beg cl G r r'"
  "step_ok H beg cl G r (Some (Leave r')) = goes stopped H beg cl G r r'"
  by (simp_all add: step_ok_def)

section \<open>Updates of the state\<close>

lemma window_ok_upd [simp]:
  "window_ok (s\<lparr>i_mode := m\<rparr>) H = window_ok s H" "window_ok (s\<lparr>i_last := x\<rparr>) H = window_ok s H"
  "window_ok (s\<lparr>i_length := n\<rparr>) H = window_ok s H" "window_ok (s\<lparr>i_offset := n\<rparr>) H = window_ok s H"
  "window_ok (s\<lparr>i_extra := n\<rparr>) H = window_ok s H" "window_ok (s\<lparr>i_was := n\<rparr>) H = window_ok s H"
  "window_ok (s\<lparr>i_back := x\<rparr>) H = window_ok s H" "window_ok (s\<lparr>i_nlen := n\<rparr>) H = window_ok s H"
  "window_ok (s\<lparr>i_ndist := n\<rparr>) H = window_ok s H" "window_ok (s\<lparr>i_ncode := n\<rparr>) H = window_ok s H"
  "window_ok (s\<lparr>i_have := n\<rparr>) H = window_ok s H" "window_ok (s\<lparr>i_lens := ns\<rparr>) H = window_ok s H"
  "window_ok (s\<lparr>i_work := ns\<rparr>) H = window_ok s H" "window_ok (s\<lparr>i_lendyn := xs\<rparr>) H = window_ok s H"
  "window_ok (s\<lparr>i_distdyn := xs\<rparr>) H = window_ok s H" "window_ok (s\<lparr>i_lencode := l\<rparr>) H = window_ok s H"
  "window_ok (s\<lparr>i_distcode := l\<rparr>) H = window_ok s H" "window_ok (s\<lparr>i_lenbits := n\<rparr>) H = window_ok s H"
  "window_ok (s\<lparr>i_distbits := n\<rparr>) H = window_ok s H" "window_ok (s\<lparr>i_hold := x\<rparr>) H = window_ok s H"
  "window_ok (s\<lparr>i_bits := n\<rparr>) H = window_ok s H"
  by (rule window_ok_cong; simp)+

lemma bitstream_upd [simp]: "bitstream (upd_state f r) F = bitstream r F" "bitstream (r\<lparr>r_strm := z\<rparr>) F = bitstream r F"
  "bitstream (r\<lparr>r_ret := n\<rparr>) F = bitstream r F" "bitstream (r\<lparr>r_fixed := g\<rparr>) F = bitstream r F"
  by (simp_all add: bitstream_def unread_def)

lemma buffer_ok_upd [simp]: "buffer_ok (upd_state f r) = buffer_ok r" "buffer_ok (r\<lparr>r_strm := z\<rparr>) = buffer_ok r"
  "buffer_ok (r\<lparr>r_ret := n\<rparr>) = buffer_ok r" "buffer_ok (r\<lparr>r_fixed := g\<rparr>) = buffer_ok r"
  by (simp_all add: buffer_ok_def)

lemma set_mode_sel [simp]: "r_state (set_mode m r) = (r_state r)\<lparr>i_mode := m\<rparr>" "r_hold (set_mode m r) = r_hold r" "r_bits (set_mode m r) = r_bits r"
  "r_have (set_mode m r) = r_have r" "r_next (set_mode m r) = r_next r" "r_input (set_mode m r) = r_input r" "r_output (set_mode m r) = r_output r"
  "r_put (set_mode m r) = r_put r" "r_left (set_mode m r) = r_left r" "r_in (set_mode m r) = r_in r" "r_out (set_mode m r) = r_out r"
  "r_ret (set_mode m r) = r_ret r" "r_fixed (set_mode m r) = r_fixed r" "r_strm (set_mode m r) = r_strm r"
  "bitstream (set_mode m r) F = bitstream r F" "buffer_ok (set_mode m r) = buffer_ok r"
  by (simp_all add: set_mode_def)

lemma bad_sel [simp]: "r_state (bad msg r) = (r_state r)\<lparr>i_mode := BAD\<rparr>" "r_hold (bad m r) = r_hold r" "r_bits (bad m r) = r_bits r"
  "r_have (bad m r) = r_have r" "r_next (bad m r) = r_next r" "r_input (bad m r) = r_input r" "r_output (bad m r) = r_output r"
  "r_put (bad m r) = r_put r" "r_left (bad m r) = r_left r" "r_in (bad m r) = r_in r" "r_out (bad m r) = r_out r"
  "r_ret (bad m r) = r_ret r" "r_fixed (bad m r) = r_fixed r" "z_input (r_strm (bad m r)) = z_input (r_strm r)" "bitstream (bad m r) F = bitstream r F" "buffer_ok (bad m r) = buffer_ok r"
  by (simp_all add: bad_def)

lemma drop_upd [simp]: "drop_bits n (upd_state f r) = upd_state f (drop_bits n r)" "drop_bits n (set_mode m r) = set_mode m (drop_bits n r)"
  "drop_bits n (bad msg r) = bad msg (drop_bits n r)"
  by (simp_all add: drop_bits_def set_mode_def bad_def)

lemma bits_of_upd [simp]: "bits_of n (upd_state f r) = bits_of n r" "bits_of n (set_mode m r) = bits_of n r"
  by (simp_all add: bits_of_def)

text \<open>A change of the buffer alone.\<close>

lemma buffer_sel:
  assumes "same_but_buffer r r'"
  shows "r_state r' = r_state r" "r_fixed r' = r_fixed r" "r_output r' = r_output r" "r_put r' = r_put r" "r_left r' = r_left r"
    "r_out r' = r_out r" "r_ret r' = r_ret r" "r_strm r' = r_strm r" "r_input r' = r_input r" "r_in r' = r_in r"
  using assms by (simp_all add: same_but_buffer_def)

lemma run_ok_buffer: "run_ok H beg r G \<Longrightarrow> same_but_buffer r r' \<Longrightarrow> buffer_ok r' \<Longrightarrow> run_ok H beg r' G"
  by (simp add: run_ok_def buffer_sel)

lemma drop_run:
  assumes "buffer_ok r" "n \<le> r_bits r"
  shows "same_but_buffer r (drop_bits n r)" "buffer_ok (drop_bits n r)" "run_bits (drop_bits n r) = run_bits r - n"
    "take_bits n (bitstream r F) = Some (bits_of n r, bitstream (drop_bits n r) F)"
  using assms drop_bits_ok [OF assms] by (simp_all add: drop_bits_frame drop_bits_sel)

lemma same_bits: "(\<And>F. bitstream r' F = bitstream r F) \<Longrightarrow> run_bits r' = run_bits r"
  by (metis fst_bitstream add.right_neutral list.size(3))

section \<open>Waiting for bits\<close>

text \<open>
  \<open>NEEDBITS(n)\<close> in a step: if the input ends before, what is left to decode must need the bits, so that
  it fails without more input.
\<close>

lemma need_step:
  assumes ok: "all_ok H beg cl r G" "i_mode (r_state r) \<notin> {BAD, DONE, COPY_first, COPY}" "r_ret r = Z_OK"
    and n: "n \<le> 24" "pending cl (r_fixed r) (r_state r) = (\<lambda>_. n)"
    and starve: "\<And>b. fst b < n \<Longrightarrow> to_come cl (r_state r) b G = None"
    and k: "\<And>r'. same_but_buffer r r' \<Longrightarrow> buffer_ok r' \<Longrightarrow> n \<le> r_bits r' \<Longrightarrow> (\<And>F. bitstream r' F = bitstream r F) \<Longrightarrow>
      r_bits r' < n + 8 \<Longrightarrow> step_ok H beg cl G r (k r')"
  shows "step_ok H beg cl G r (need n r k)"
proof -
  have b: "buffer_ok r" using ok by (simp add: all_ok_def run_ok_def)
  have l: "r_bits r < 8 \<or> r_bits r < n" using ok n(2) by (auto simp: all_ok_def lean_def)
  show ?thesis
  proof (cases "needbits n r")
    case (Inl r')
    note N = needbits_Inl [OF Inl b n(1)]
    have "all_ok H beg cl r' G"
      using ok N run_ok_buffer [OF _ N(1,2)] n(2) by (auto simp: all_ok_def buffer_sel [OF N(1)] lean_def)
    moreover have "fst (bitstream r' []) < n" using N(3,5) by simp
    from starve [OF this] have "to_come cl (r_state r') (bitstream r' []) G = None" by (simp only: buffer_sel [OF N(1)])
    ultimately show ?thesis using Inl N ok(2,3) same_call_buffer [OF N(1)]
      by (auto simp: need_def goes_def stopped_def buffer_sel [OF N(1)])
  next
    case (Inr r')
    note N = needbits_Inr [OF Inr b n(1)]
    have "r_bits r' < n + 8" using N(5) l by auto
    then show ?thesis using k [OF N(1-4)] Inr by (simp add: need_def)
  qed
qed

end
