(* ===== verification/InflateSteps.thy ===== *)
theory InflateSteps
  imports InflateRest
begin

text \<open>
  The modes between the headers and the trailer, one by one, except for \<open>inflate_fast\<close>: each is correct
  in the sense of \<open>step_ok\<close>.
\<close>

definition no_stop :: "nat \<Rightarrow> bool" where
  "no_stop flush \<longleftrightarrow> flush \<noteq> Z_BLOCK \<and> flush \<noteq> Z_TREES"

lemma goesI:
  assumes "run_ok H beg r' G'" "mode_ok cl' (r_fixed r') (r_state r')" "lean cl' r'"
    "\<And>F. to_come cl' (r_state r') (bitstream r' F) G' = to_come cl (r_state r) (bitstream r F) G"
    "same_call r r'" "P cl' G' r'"
  shows "goes P H beg cl G r r'"
  using assms unfolding goes_def all_ok_def by blast

lemma all_okD:
  assumes "all_ok H beg cl r G"
  shows "run_ok H beg r G" "mode_ok cl (r_fixed r) (r_state r)" "lean cl r" "i_mode (r_state r) \<noteq> BAD \<Longrightarrow> buffer_ok r" "state_ok (r_state r) H" "fixed_ok (r_fixed r)"
  using assms by (auto simp: all_ok_def run_ok_def)

lemma run_ok_state: "run_ok H beg r G \<Longrightarrow> same_but_buffer r r1 \<Longrightarrow> buffer_ok r1 \<Longrightarrow> state_ok (f (r_state r)) H \<Longrightarrow>
    run_ok H beg (upd_state f r1) G"
  by (simp add: run_ok_def buffer_sel)

text \<open>An error.\<close>

lemma goes_bad:
  assumes ok: "all_ok H beg cl r G" "i_mode (r_state r) \<notin> {BAD, DONE}" and r': "same_but_buffer r r'"
    and none: "\<And>F. to_come cl (r_state r) (bitstream r F) G = None" and le: "run_bits r' \<le> run_bits r"
    and f: "state_ok (f (r_state r)) H" "i_wrap (f (r_state r)) = i_wrap (r_state r)" "i_dmax (f (r_state r)) = i_dmax (r_state r)"
      "i_wbits (f (r_state r)) = i_wbits (r_state r)"
  shows "goes (ready r) H beg cl G r (bad msg (upd_state f r'))"
proof (rule goesI)
  note B = buffer_sel [OF r']
  show "run_ok H beg (bad msg (upd_state f r')) G" using all_okD(1) [OF ok(1)] r' f by (simp add: run_ok_def B state_ok_def)
  show "ready r cl G (bad msg (upd_state f r'))"
    using ok(2) le by (auto simp: ready_def B mode_rank_def intro!: step_order_rank split: inflate_mode.split)
  show "same_call r (bad msg (upd_state f r'))" using r' f by (simp add: same_call_def same_but_buffer_def)
qed (use r' none in \<open>simp_all add: mode_ok_simps lean_def to_come_simps\<close>)

section \<open>The start of a block\<close>

lemma blocks_rest_read:
  assumes "i_last s = 0" "take_bits 1 b = Some (l, b1)" "take_bits 2 b1 = Some (k, b2)"
  shows "blocks_rest s b G = then_blocks (s\<lparr>i_last := int l\<rparr>) (ref_block (i_dmax s) k b2 G)"
proof -
  have "l < 2" using assms(2) by (auto simp: take_bits_def split: prod.splits if_splits)
  then have "(int l \<noteq> 0) = (l = 1)" by auto
  then show ?thesis unfolding blocks_rest_def then_blocks_def
    by (subst ref_blocks.simps) (simp add: assms del: One_nat_def split: option.split)
qed

lemma blocks_rest_short:
  assumes "i_last s = 0" "fst b < 3"
  shows "blocks_rest s b G = None"
proof (cases "take_bits 1 b")
  case None
  then show ?thesis using assms(1) unfolding blocks_rest_def by (subst ref_blocks.simps) simp
next
  case (Some x)
  then obtain l b1 where x: "take_bits 1 b = Some (l, b1)" by (cases x) (simp del: One_nat_def)
  then have "take_bits 2 b1 = None" using assms(2) by (auto simp: take_bits_def split: prod.splits if_splits)
  then show ?thesis using assms(1) x unfolding blocks_rest_def by (subst ref_blocks.simps) (simp del: One_nat_def)
qed

lemma step_TYPEDO_ok:
  assumes ok: "all_ok H beg cl r G" and m: "i_mode (r_state r) \<in> {TYPE_mode, TYPEDO}" and ret: "r_ret r = Z_OK" and fl: "no_stop flush"
  shows "step_ok H beg cl G r (step_TYPEDO flush r)"
proof (cases "i_last (r_state r) = 0")
  case False
  note A = all_okD [OF ok]
  let ?r' = "set_mode CHECK (byte_bits r)"
  have buf: "buffer_ok r" using A(4) m by auto
  note frame = byte_bits_frame [of r] and bb = byte_bits_ok [OF buf]
  note B = buffer_sel [OF frame]
  have bits: "r_bits (byte_bits r) = r_bits r - r_bits r mod 8" by (simp add: byte_bits_def drop_bits_sel)
  have "r_bits r < 8" using A(3) m by (auto simp: lean_def pending_simps)
  then have b0: "r_bits (byte_bits r) = 0" unfolding bits by simp
  have "goes (ready r) H beg cl G r ?r'"
  proof (rule goesI)
    show "run_ok H beg ?r' G" using A(1) bb(1) by (simp add: run_ok_def state_ok_def B)
    show "to_come cl (r_state ?r') (bitstream ?r' F) G = to_come cl (r_state r) (bitstream r F) G" for F
      using m False bb(2) [of F] by (auto simp: to_come_simps blocks_rest_def ref_blocks.simps)
    show "same_call r ?r'" using frame by (simp add: same_call_def same_but_buffer_def)
    show "ready r cl G ?r'" using m ret b0 frame
      by (auto simp: ready_def B same_but_buffer_def mode_rank_simps intro!: step_order_rank)
  qed (use b0 in \<open>simp_all add: mode_ok_simps lean_def\<close>)
  then show ?thesis using False by (simp add: step_TYPEDO_def)
next
  case True
  note A = all_okD [OF ok]
  have pend: "pending cl (r_fixed r) (r_state r) = (\<lambda>_. 3)" using m by (auto simp: pending_simps)
  have notin: "i_mode (r_state r) \<notin> {BAD, DONE, COPY_first, COPY}" using m by auto
  have tc: "to_come cl (r_state r) b G = blocks_rest (r_state r) b G" for b using m by (auto simp: to_come_simps)
  have "step_ok H beg cl G r (need 3 r (\<lambda>r1.
      let r = drop_bits 1 (upd_state (\<lambda>s. s\<lparr>i_last := int (bits_of 1 r1)\<rparr>) r1)
       in if bits_of 2 r = 0 then Some (Continue (drop_bits 2 (set_mode STORED r)))
          else if bits_of 2 r = 1
          then Option.bind (fixedtables (r_fixed r) (r_state r)) (\<lambda>(g, s).
                 let r = drop_bits 2 (set_mode LEN_first (r\<lparr>r_fixed := g, r_state := s\<rparr>))
                 in Some (if flush = Z_TREES then Leave r else Continue r))
          else if bits_of 2 r = 2 then Some (Continue (drop_bits 2 (set_mode TABLE r)))
          else Some (Continue (drop_bits 2 (bad ''invalid block type'' r)))))"
  proof (rule need_step [OF ok notin ret _ pend])
    show "to_come cl (r_state r) b G = None" if "fst b < 3" for b using blocks_rest_short [OF True that] tc by simp
  next
    fix r1 assume r1: "same_but_buffer r r1" "buffer_ok r1" "3 \<le> r_bits r1" "\<And>F. bitstream r1 F = bitstream r F" "r_bits r1 < 3 + 8"
    have g: "1 \<le> r_bits r1" "2 \<le> r_bits (drop_bits 1 r1)" using r1(3) by (simp_all add: drop_bits_sel)
    note d1 = drop_run [OF r1(2) g(1)] and d2 = drop_run [OF drop_run(2) [OF r1(2) g(1)] g(2)]
    define l where "l = bits_of 1 r1"
    define k where "k = bits_of 2 (drop_bits 1 r1)"
    define r3 where "r3 = drop_bits 2 (drop_bits 1 r1)"
    define s where "s = (r_state r)\<lparr>i_last := int l\<rparr>"
    have fr: "same_but_buffer r r3" unfolding r3_def by (rule same_but_buffer_trans [OF same_but_buffer_trans [OF r1(1) d1(1)] d2(1)])
    note B1 = buffer_sel [OF r1(1)] and B = buffer_sel [OF fr]
    have b3: "buffer_ok r3" "r_bits r3 < 8" "run_bits r3 < run_bits r"
      using d2(2,3) d1(3) r1(3,5) same_bits [OF r1(4)] g by (simp_all add: r3_def drop_bits_sel)
    have tc3: "to_come cl (r_state r) (bitstream r F) G = then_blocks s (ref_block (i_dmax s) k (bitstream r3 F) G)" for F
      using tc blocks_rest_read [OF True, of "bitstream r F" l "bitstream (drop_bits 1 r1) F" k "bitstream r3 F"]
        d1(4) [of F] d2(4) [of F] r1(4) by (simp add: l_def k_def r3_def s_def)
    have go: "goes (ready r) H beg cl G r (set_mode m (r3\<lparr>r_fixed := g, r_state := s'\<rparr>))"
      if "m \<in> {STORED, TABLE, LEN_first}" "state_ok s' H" "fixed_ok g" "mode_ok cl g (s'\<lparr>i_mode := m\<rparr>)"
        "i_wrap s' = i_wrap s" "i_dmax s' = i_dmax s" "i_wbits s' = i_wbits s"
        "\<And>F. to_come cl (s'\<lparr>i_mode := m\<rparr>) (bitstream r3 F) G = to_come cl (r_state r) (bitstream r F) G" for m g s'
    proof (rule goesI)
      let ?r' = "set_mode m (r3\<lparr>r_fixed := g, r_state := s'\<rparr>)"
      show "run_ok H beg ?r' G" using A(1) b3(1) that(2,3) by (simp add: run_ok_def B state_ok_def buffer_ok_def)
      show "to_come cl (r_state ?r') (bitstream ?r' F) G = to_come cl (r_state r) (bitstream r F) G" for F
        using that(8) by (simp add: bitstream_def unread_def)
      show "same_call r ?r'" using fr that by (simp add: same_call_def same_but_buffer_def s_def)
      show "ready r cl G ?r'" using ret b3(3) by (simp add: ready_def B step_order_bits)
    qed (use b3 that in \<open>auto simp: lean_def\<close>)
    have st: "state_ok s H" using A(5) by (simp add: s_def state_ok_def)
    have same: "set_mode m (drop_bits 2 (drop_bits 1 (upd_state (\<lambda>s. s\<lparr>i_last := int l\<rparr>) r1))) = set_mode m (r3\<lparr>r_fixed := r_fixed r, r_state := s\<rparr>)" for m
      using B1 by (simp add: r3_def s_def drop_bits_def set_mode_def)
    show "step_ok H beg cl G r
      (let r = drop_bits 1 (upd_state (\<lambda>s. s\<lparr>i_last := int (bits_of 1 r1)\<rparr>) r1)
       in if bits_of 2 r = 0 then Some (Continue (drop_bits 2 (set_mode STORED r)))
          else if bits_of 2 r = 1
          then Option.bind (fixedtables (r_fixed r) (r_state r)) (\<lambda>(g, s).
                 let r = drop_bits 2 (set_mode LEN_first (r\<lparr>r_fixed := g, r_state := s\<rparr>))
                 in Some (if flush = Z_TREES then Leave r else Continue r))
          else if bits_of 2 r = 2 then Some (Continue (drop_bits 2 (set_mode TABLE r)))
          else Some (Continue (drop_bits 2 (bad ''invalid block type'' r))))"
    proof -
      have kk: "bits_of 2 (drop_bits 1 (upd_state (\<lambda>s. s\<lparr>i_last := int (bits_of 1 r1)\<rparr>) r1)) = k" by (simp add: k_def)
      consider "k = 0" | "k = 1" | "k = 2" | "k \<noteq> 0" "k \<noteq> 1" "k \<noteq> 2" by blast
      then show ?thesis
      proof cases
        case 1
        have "goes (ready r) H beg cl G r (set_mode STORED (r3\<lparr>r_fixed := r_fixed r, r_state := s\<rparr>))"
          using 1 st A(6) by (intro go) (auto simp: mode_ok_simps to_come_simps tc3 ref_block_def then_blocks_def blocks_rest_def)
        then show ?thesis unfolding Let_def kk using 1 same [of STORED] by (simp add: l_def)
      next
        case 2
        have l: "length (i_lens s) = 320" "length (i_work s) = 288" using st by (simp_all add: state_ok_def)
        obtain g' lens work where f: "fixedtables (r_fixed r) s = Some (g', s\<lparr>i_lens := lens, i_work := work, i_lencode := Fixed, i_lenbits := 9,
            i_distcode := Fixed, i_distbits := 5\<rparr>)" "fixed_ok g'" "\<not> virgin g'" "length lens = 320" "length work = 288"
          using fixedtables_ok [OF A(6) l] by blast
        let ?s = "s\<lparr>i_lens := lens, i_work := work, i_lencode := Fixed, i_lenbits := 9, i_distcode := Fixed, i_distbits := 5\<rparr>"
        have "codes_ok g' (?s\<lparr>i_mode := LEN_first\<rparr>)"
          using f(2,3) by (simp add: codes_ok_def ll_of_def dl_of_def len_table_def dist_table_def fixed_ok_def)
        then have "goes (ready r) H beg cl G r (set_mode LEN_first (r3\<lparr>r_fixed := g', r_state := ?s\<rparr>))"
          using 2 st f by (intro go) (auto simp: mode_ok_simps to_come_simps tc3 ref_block_def codes_rest_def then_blocks_def blocks_rest_def
            ll_of_def dl_of_def state_ok_def)
        moreover have "drop_bits 2 (set_mode LEN_first (drop_bits 1 (upd_state (\<lambda>s. s\<lparr>i_last := int l\<rparr>) r1)\<lparr>r_fixed := g', r_state := ?s\<rparr>)) =
            set_mode LEN_first (r3\<lparr>r_fixed := g', r_state := ?s\<rparr>)"
          by (simp add: r3_def drop_bits_def set_mode_def)
        moreover have "r_fixed (drop_bits 1 (upd_state (\<lambda>s. s\<lparr>i_last := int l\<rparr>) r1)) = r_fixed r"
          "r_state (drop_bits 1 (upd_state (\<lambda>s. s\<lparr>i_last := int l\<rparr>) r1)) = s"
          using B1 by (simp_all add: drop_bits_def s_def)
        ultimately show ?thesis unfolding Let_def kk using 2 f(1) fl by (simp add: l_def no_stop_def)
      next
        case 3
        have "goes (ready r) H beg cl G r (set_mode TABLE (r3\<lparr>r_fixed := r_fixed r, r_state := s\<rparr>))"
          using 3 st A(6) by (intro go) (auto simp: mode_ok_simps to_come_simps tc3 ref_block_def then_blocks_def blocks_rest_def)
        then show ?thesis unfolding Let_def kk using 3 same [of TABLE] by (simp add: l_def)
      next
        case 4
        have "goes (ready r) H beg cl G r (bad ''invalid block type'' (upd_state (\<lambda>s. s\<lparr>i_last := int l\<rparr>) r3))"
          using 4 st m b3 fr ok by (intro goes_bad) (auto simp: tc3 ref_block_def then_blocks_def s_def)
        then show ?thesis unfolding Let_def kk using 4 by (simp add: l_def r3_def)
      qed
    qed
  qed simp
  then show ?thesis using True by (simp add: step_TYPEDO_def)
qed

section \<open>Stored blocks\<close>

lemma needbits_split: "m \<le> n \<Longrightarrow> needbits n r = (case needbits m r of Inl r' \<Rightarrow> Inl r' | Inr r' \<Rightarrow> needbits n r')"
proof (induction m r rule: needbits.induct)
  case (1 m r)
  show ?case
  proof (cases "r_bits r < m \<and> r_have r \<noteq> 0")
    case True
    then have "needbits n r = needbits n (pull_byte r)" "needbits m r = needbits m (pull_byte r)"
      using "1.prems" by (subst needbits.simps, simp)+
    then show ?thesis using "1.IH" True "1.prems" by simp
  next
    case False
    then have "needbits m r = (if r_bits r < m then Inl r else Inr r)" by (subst needbits.simps) simp
    moreover have "r_bits r < m \<Longrightarrow> needbits n r = Inl r" using False "1.prems" by (subst needbits.simps) simp
    ultimately show ?thesis by simp
  qed
qed

lemma ToInt32_mod: "ToInt32 x mod 4294967296 = x mod 4294967296"
  by (simp add: ToInt32_def Let_def)

text \<open>The fourth byte may make \<open>hold\<close> negative, which the bitwise operators do not see.\<close>

lemma pull_fourth:
  assumes r: "buffer_ok r" "0 < r_have r" "r_bits r = 24"
  shows "r_hold (pull_byte r) mod 4294967296 = int (snd (bitstream r F) mod 4294967296)" "32 \<le> fst (bitstream r F)"
    "bitstream (init_bits (pull_byte r)) F = (fst (bitstream r F) - 32, snd (bitstream r F) div 4294967296)"
    "buffer_ok (init_bits (pull_byte r))"
proof -
  let ?b = "at (r_input r) (r_next r)"
  have b: "0 \<le> ?b" "?b < 256" using at_byte r by (auto simp: buffer_ok_def)
  have h: "0 \<le> r_hold r" "r_hold r < 2 ^ 24" using r by (auto simp: buffer_ok_def)
  have u: "unread r = ?b # unread (pull_byte r)" using r by (intro unread_Cons) (auto simp: buffer_ok_def)
  define x where "x = r_hold r + ?b * 16777216"
  have x: "0 \<le> x" "x < 4294967296" using shift_add [OF h b] by (simp_all add: x_def)
  have "r_hold (pull_byte r) mod 4294967296 = (r_hold r + ToInt32 (?b * 16777216)) mod 4294967296"
    using b r(3) by (simp add: pull_byte_def js_shl_def ToInt32_id)
  also have "\<dots> = x mod 4294967296" unfolding x_def by (metis ToInt32_mod mod_add_right_eq)
  finally have hold: "r_hold (pull_byte r) mod 4294967296 = x" using x by simp
  let ?v = "bytes_value (unread (pull_byte r) @ F)"
  have v: "snd (bitstream r F) = nat x + 4294967296 * ?v"
    using h b by (simp add: bitstream_def r(3) u x_def nat_add_distrib nat_mult_distrib)
  have "nat x < 4294967296" using x by simp
  then show "r_hold (pull_byte r) mod 4294967296 = int (snd (bitstream r F) mod 4294967296)" using hold x v by simp
  show "32 \<le> fst (bitstream r F)" using r by simp
  have "snd (bitstream r F) div 4294967296 = ?v" using v \<open>nat x < _\<close> by simp
  then show "bitstream (init_bits (pull_byte r)) F = (fst (bitstream r F) - 32, snd (bitstream r F) div 4294967296)"
    using r by (simp add: bitstream_def init_bits_def unread_def pull_byte_sel)
  show "buffer_ok (init_bits (pull_byte r))" using r by (simp add: buffer_ok_def init_bits_def pull_byte_sel)
qed

lemma byte_aligned: "(n :: nat) mod 8 = 0 \<Longrightarrow> 24 \<le> n \<Longrightarrow> n < 32 \<Longrightarrow> n = 24"
  by presburger

lemma needbits_32:
  assumes r: "buffer_ok r" "r_bits r mod 8 = 0" "r_bits r < 32"
  shows "case needbits 32 r of
      Inl r' \<Rightarrow> same_but_buffer r r' \<and> buffer_ok r' \<and> r_have r' = 0 \<and> r_bits r' < 32 \<and> (\<forall>F. bitstream r' F = bitstream r F)
    | Inr r' \<Rightarrow> same_but_buffer r r' \<and> r_bits r' = 32 \<and> buffer_ok (init_bits r') \<and> (\<forall>F. 32 \<le> fst (bitstream r F) \<and>
        r_hold r' mod 4294967296 = int (snd (bitstream r F) mod 4294967296) \<and>
        bitstream (init_bits r') F = (fst (bitstream r F) - 32, snd (bitstream r F) div 4294967296))"
proof (cases "needbits 24 r")
  case (Inl r')
  then show ?thesis using needbits_Inl [OF Inl r(1)] needbits_split [of 24 32 r] by simp
next
  case (Inr r')
  note N = needbits_Inr [OF Inr r(1) order.refl]
  have "r_bits r' < 32" using N(5) r(3) by auto
  moreover have "r_bits r' mod 8 = r_bits r mod 8" using same_bits [of r' r, OF N(4)] by (metis mod_mult_self2)
  ultimately have b: "r_bits r' = 24" using N(3) r(2) by (intro byte_aligned) auto
  have e: "needbits 32 r = (if r_have r' = 0 then Inl r' else Inr (pull_byte r'))"
    using needbits_split [of 24 32 r] Inr b by (simp add: needbits.simps pull_byte_sel)
  show ?thesis
  proof (cases "r_have r' = 0")
    case True
    then show ?thesis using e N b by simp
  next
    case False
    then have "0 < r_have r'" by simp
    note P = pull_fourth [OF N(2) this b]
    have "same_but_buffer r (pull_byte r')" using N(1) pull_byte_frame [OF \<open>0 < _\<close>] same_but_buffer_trans by blast
    then show ?thesis using e False P b unfolding N(4) by (simp add: pull_byte_sel)
  qed
qed

lemma xor_ffff: "0 \<le> x \<Longrightarrow> x < 65536 \<Longrightarrow> js_xor x 65535 = 65535 - x"
proof -
  assume x: "0 \<le> x" "x < 65536"
  then have t: "take_bit 16 x = x" by (simp add: take_bit_eq_mod)
  have "take_bit 16 x XOR mask 16 = take_bit 16 (NOT x)" by (rule bit_eqI) (auto simp: bit_simps)
  also have "\<dots> = mask 16 - take_bit 16 x" by (rule take_bit_not_eq_mask_diff)
  finally show ?thesis using x t by (simp add: js_xor_def ToInt32_id mask_eq_exp_minus_1)
qed

lemma take_both:
  assumes "align b = (c, v)"
  shows "c < 32 \<Longrightarrow> ref_stored b G = None"
    "32 \<le> c \<Longrightarrow> ref_stored b G = (let len = v mod 65536; nlen = v div 65536 mod 65536 in
       if nlen = 65535 - len then ref_bytes len (c - 32, v div 4294967296) G else None)"
proof -
  have d: "v div 65536 div 65536 = v div 4294967296" by (simp add: div_mult2_eq [symmetric])
  show "c < 32 \<Longrightarrow> ref_stored b G = None" using assms by (auto simp: ref_stored_def take_bits_def)
  show "32 \<le> c \<Longrightarrow> ref_stored b G = (let len = v mod 65536; nlen = v div 65536 mod 65536 in
       if nlen = 65535 - len then ref_bytes len (c - 32, v div 4294967296) G else None)"
    using assms d by (auto simp: ref_stored_def take_bits_def Let_def)
qed

lemma mod_div_ffff: "(v :: nat) mod 4294967296 div 65536 = v div 65536 mod 65536"
  using mod_mult2_eq [of v 65536 65536] by simp

lemma align_align: "align (align b) = align b"
proof (cases b)
  case (Pair c v)
  have "(c - c mod 8) mod 8 = 0" by (metis minus_mod_eq_mult_div mod_mult_self1_is_0)
  then show ?thesis by (simp add: Pair align_def)
qed

lemma step_STORED_ok:
  assumes ok: "all_ok H beg cl r G" and m: "i_mode (r_state r) = STORED" and ret: "r_ret r = Z_OK" and fl: "no_stop flush"
  shows "step_ok H beg cl G r (step_STORED flush r)"
proof -
  note A = all_okD [OF ok]
  let ?r = "byte_bits r"
  have buf: "buffer_ok r" using A(4) m by simp
  note frame = byte_bits_frame [of r] and bb = byte_bits_ok [OF buf]
  have le: "r_bits ?r \<le> r_bits r" "run_bits ?r \<le> run_bits r" by (simp_all add: byte_bits_def drop_bits_sel)
  have "r_bits r \<le> 31" using buf by (simp add: buffer_ok_def)
  then have b: "r_bits ?r mod 8 = 0" "r_bits ?r < 32" using le(1) by (simp_all add: byte_bits_bits)
  have tc: "to_come cl (r_state r) (bitstream r F) G = then_blocks (r_state r) (ref_stored (bitstream r F) G)" for F
    using m by (simp add: to_come_simps)
  have al: "align (bitstream ?r F) = bitstream ?r F" for F unfolding bb(2) by (rule align_align)
  show ?thesis
  proof (cases "needbits 32 ?r")
    case (Inl r')
    then have N: "same_but_buffer ?r r'" "buffer_ok r'" "r_have r' = 0" "r_bits r' < 32" "\<And>F. bitstream r' F = bitstream ?r F"
      using needbits_32 [OF bb(1) b] by auto
    have fr: "same_but_buffer r r'" using frame N(1) by (rule same_but_buffer_trans)
    note B = buffer_sel [OF fr]
    have eq: "ref_stored (bitstream r' F) G = ref_stored (bitstream r F) G" for F
      using bb(2) [of F] al [of F] by (simp add: N(5) ref_stored_def)
    have fst32: "fst (bitstream r' []) < 32" using N(3,4) by simp
    have "align (bitstream r' []) = bitstream r' []" using al by (simp add: N(5))
    then have "ref_stored (bitstream r' []) G = None" using take_both(1) [of "bitstream r' []"] fst32 by (metis prod.collapse)
    then have "goes stopped H beg cl G r r'"
      using A m N ret run_ok_buffer [OF A(1) fr N(2)] same_call_buffer [OF fr] eq
      by (intro goesI) (auto simp: B mode_ok_simps lean_def pending_simps to_come_simps stopped_def then_blocks_def)
    then show ?thesis using Inl by (simp add: step_STORED_def need_def)
  next
    case (Inr r')
    then have N: "same_but_buffer ?r r'" "buffer_ok (init_bits r')"
      "\<And>F. 32 \<le> fst (bitstream ?r F)" "\<And>F. r_hold r' mod 4294967296 = int (snd (bitstream ?r F) mod 4294967296)"
      "\<And>F. bitstream (init_bits r') F = (fst (bitstream ?r F) - 32, snd (bitstream ?r F) div 4294967296)"
      and b32: "r_bits r' = 32"
      using needbits_32 [OF bb(1) b] by auto
    have fr: "same_but_buffer r r'" using frame N(1) by (rule same_but_buffer_trans)
    note B = buffer_sel [OF fr]
    define len where "len = nat (js_and (r_hold r') 0xffff)"
    define nlen where "nlen = nat (js_ushr (r_hold r') 16)"
    have parts: "len = snd (bitstream ?r F) mod 65536" "nlen = snd (bitstream ?r F) div 65536 mod 65536" for F
    proof -
      define w where "w = snd (bitstream ?r F) mod 4294967296"
      have h: "r_hold r' mod 4294967296 = int w" unfolding w_def by (rule N(4))
      have "r_hold r' mod 65536 = r_hold r' mod 4294967296 mod 65536" by (simp add: mod_mod_cancel)
      then have "len = w mod 65536" unfolding h len_def by (simp add: js_arith nat_mod_distrib)
      then show "len = snd (bitstream ?r F) mod 65536" by (simp add: w_def mod_mod_cancel)
      have "nlen = w div 65536" unfolding nlen_def js_ushr_def ToUint32_def using h by (simp add: nat_div_distrib)
      then show "nlen = snd (bitstream ?r F) div 65536 mod 65536" unfolding w_def by (simp only: mod_div_ffff)
    qed
    have ranges: "len < 65536" "nlen < 65536" "0 \<le> js_ushr (r_hold r') 16" "js_and (r_hold r') 65535 = int len"
      using parts [of "[]"] by (simp_all add: len_def js_ushr_def ToUint32_def js_arith)
    have xor: "js_and (r_hold r') 0xffff \<noteq> js_xor (js_ushr (r_hold r') 16) 0xffff \<longleftrightarrow> nlen \<noteq> 65535 - len"
    proof -
      have "js_xor (js_ushr (r_hold r') 16) 65535 = 65535 - int nlen"
        using ranges(2,3) by (subst xor_ffff) (auto simp: nlen_def)
      then show ?thesis using ranges by auto
    qed
    have val: "to_come cl (r_state r) (bitstream r F) G =
        (if nlen = 65535 - len then then_blocks (r_state r) (ref_bytes len (bitstream (init_bits r') F) G) else None)" for F
      unfolding tc N(5) using take_both(2) [of "bitstream r F" "fst (bitstream ?r F)" "snd (bitstream ?r F)" G] N(3) [of F] bb(2) [of F]
        parts [of F] by (simp add: then_blocks_def)
    have bits: "run_bits (init_bits r') + 32 = run_bits ?r" using N(5) [of "[]"] N(3) [of "[]"] by (metis fst_bitstream fst_conv add.right_neutral list.size(3) le_add_diff_inverse2)
    have in_bits: "r_bits (init_bits r') = 0" by (simp add: init_bits_def)
    have out: "step_STORED flush r = (if nlen \<noteq> 65535 - len then Some (Continue (bad ''invalid stored block lengths'' r'))
        else Some (Continue (set_mode COPY_first (init_bits (upd_state (\<lambda>s. s\<lparr>i_length := len\<rparr>) r')))))"
      using Inr fl xor by (simp add: step_STORED_def need_def Let_def no_stop_def len_def)
    show ?thesis
    proof (cases "nlen = 65535 - len")
      case True
      let ?r' = "set_mode COPY_first (init_bits (upd_state (\<lambda>s. s\<lparr>i_length := len\<rparr>) r'))"
      have R: "r_state ?r' = (r_state r)\<lparr>i_length := len, i_mode := COPY_first\<rparr>" "r_bits ?r' = 0" "buffer_ok ?r'"
        "bitstream ?r' F = bitstream (init_bits r') F" for F
        using N(2) by (simp_all add: init_bits_def B buffer_ok_def bitstream_def unread_def)
      have "goes (ready r) H beg cl G r ?r'"
      proof (rule goesI)
        show "run_ok H beg ?r' G" using A(1) R(1,3) by (simp add: run_ok_def state_ok_def init_bits_def B)
        show "to_come cl (r_state ?r') (bitstream ?r' F) G = to_come cl (r_state r) (bitstream r F) G" for F
          using val [of F] True R by (simp add: to_come_simps then_blocks_def blocks_rest_def)
        show "same_call r ?r'" using fr by (simp add: same_call_def same_but_buffer_def init_bits_def)
        have "run_bits ?r' < run_bits r" using bits le(2) by (simp add: init_bits_def)
        then show "ready r cl G ?r'" using ret by (simp add: ready_def init_bits_def B step_order_bits)
      qed (use R in \<open>simp_all add: mode_ok_simps lean_def\<close>)
      then show ?thesis using out True by simp
    next
      case False
      have "goes (ready r) H beg cl G r (bad ''invalid stored block lengths'' (upd_state (\<lambda>s. s) r'))"
        using ok m fr val False A(5) bits b32 le(2) by (intro goes_bad) (auto simp: init_bits_def)
      moreover have "upd_state (\<lambda>s. s) r' = r'" by (rule run.equality) simp_all
      ultimately show ?thesis using out False by simp
    qed
  qed
qed

section \<open>The bytes of a stored block\<close>

lemma is_bytes_value: "is_bytes bs \<Longrightarrow> bytes_value (b # bs) mod 256 = nat b mod 256"
  by simp

lemma ref_bytes_copy:
  assumes "is_bytes xs"
  shows "ref_bytes (length xs + n) (8 * (length xs + m), bytes_value (xs @ ys)) G = ref_bytes n (8 * m, bytes_value ys) (G @ xs)"
  using assms
proof (induction xs arbitrary: G)
  case (Cons x xs)
  have "nat x < 256" "int (nat x) = x" using Cons.prems by auto
  then have "take_bits 8 (8 * (length (x # xs) + m), bytes_value ((x # xs) @ ys)) = Some (nat x, 8 * (length xs + m), bytes_value (xs @ ys))"
    by (simp add: take_bits_def)
  then show ?case using Cons \<open>int (nat x) = x\<close> by simp
qed simp

lemma ref_bytes_none: "fst b < 8 \<Longrightarrow> 0 < n \<Longrightarrow> ref_bytes n b G = None"
  by (cases n) (simp_all add: take_bits_short)

lemma out_ok_splice:
  assumes "out_ok H beg p output G" "p + length xs \<le> length output" "is_bytes xs"
  shows "out_ok H beg (p + length xs) (take p output @ xs @ drop (p + length xs) output) (G @ xs)"
proof -
  note O = assms(1) [unfolded out_ok_def]
  have "take (p + length xs - beg) (drop beg (take p output @ xs @ drop (p + length xs) output)) = take (p - beg) (drop beg output) @ xs"
  proof -
    have d: "drop beg (take p output @ xs @ drop (p + length xs) output) = take (p - beg) (drop beg output) @ xs @ drop (p + length xs) output"
      using O by (simp add: drop_take)
    have l: "length (take (p - beg) (drop beg output) @ xs) = p + length xs - beg" using O by (auto simp: min_def)
    have "take (length (A @ xs)) ((A @ xs) @ B) = A @ xs" for A B :: "int list" by simp
    from this [of "take (p - beg) (drop beg output)" "drop (p + length xs) output"] show ?thesis unfolding l append_assoc d .
  qed
  then show ?thesis using O assms by (auto simp: out_ok_def is_bytes_take is_bytes_drop)
qed

lemma step_COPY_ok:
  assumes ok: "all_ok H beg cl r G" and m: "i_mode (r_state r) = COPY" and ret: "r_ret r = Z_OK"
  shows "step_ok H beg cl G r (step_COPY r)"
proof -
  note A = all_okD [OF ok]
  have buf: "buffer_ok r" using A(4) m by simp
  let ?len = "i_length (r_state r)"
  have b0: "r_bits r = 0" using A(3) m by (simp add: lean_def)
  then have h0: "r_hold r = 0" using buf by (simp add: buffer_ok_def)
  have bs: "bitstream r F = (8 * (r_have r + length F), bytes_value (unread r @ F))" for F by (simp add: bitstream_def b0 h0)
  have tc: "to_come cl (r_state r) (bitstream r F) G = then_blocks (r_state r) (ref_bytes ?len (bitstream r F) G)" for F
    using m by (simp add: to_come_simps)
  define c where "c = (if ?len > r_have r then r_have r else ?len)"
  define copy where "copy = (if c > r_left r then r_left r else c)"
  consider "?len = 0" | "?len \<noteq> 0" "copy = 0" | "?len \<noteq> 0" "copy \<noteq> 0" by blast
  then show ?thesis
  proof cases
    case 1
    have "goes (ready r) H beg cl G r (set_mode TYPE_mode r)"
      using A buf m 1 b0 ret by (intro goesI) (auto simp: run_ok_def state_ok_def mode_ok_simps lean_def to_come_simps then_blocks_def
          blocks_rest_def same_call_def ready_def mode_rank_simps intro!: step_order_rank)
    then show ?thesis using 1 by (simp add: step_COPY_def)
  next
    case 2
    then have z: "r_have r = 0 \<or> r_left r = 0" by (auto simp: copy_def c_def split: if_splits)
    have "ref_bytes ?len (bitstream r []) G = None" if "r_have r = 0" using 2 that b0 by (intro ref_bytes_none) auto
    then have "goes stopped H beg cl G r r"
      using A m ret z 2 tc [of "[]"] by (intro goesI) (auto simp: stopped_def full_def then_blocks_def)
    moreover have "step_COPY r = Some (Leave r)" using 2 by (simp add: step_COPY_def Let_def c_def [symmetric] copy_def [symmetric])
    ultimately show ?thesis by simp
  next
    case 3
    have le: "copy \<le> ?len" "copy \<le> r_have r" "copy \<le> r_left r" by (auto simp: copy_def c_def)
    have room: "r_put r + r_left r \<le> length (r_output r)" "out_ok H beg (r_put r) (r_output r) G" using A(1) by (auto simp: run_ok_def)
    have inp: "r_next r + r_have r \<le> length (r_input r)" "is_bytes (r_input r)" using buf by (auto simp: buffer_ok_def)
    define xs where "xs = take copy (drop (r_next r) (r_input r))"
    have xs: "length xs = copy" "is_bytes xs" using le inp by (simp_all add: xs_def is_bytes_take is_bytes_drop)
    define outp where "outp = take (r_put r) (r_output r) @ xs @ drop (r_put r + copy) (r_output r)"
    have set: "arraySet (r_output r) (r_input r) (r_next r) copy (r_put r) = Some outp"
      using le room inp by (simp add: arraySet_Some outp_def xs_def)
    let ?r' = "upd_state (\<lambda>s. s\<lparr>i_length := ?len - copy\<rparr>)
      (r\<lparr>r_output := outp, r_have := r_have r - copy, r_next := r_next r + copy, r_left := r_left r - copy, r_put := r_put r + copy\<rparr>)"
    have out: "step_COPY r = Some (Continue ?r')"
      using 3 set by (simp add: step_COPY_def Let_def c_def [symmetric] copy_def [symmetric])
    have lo: "length outp = length (r_output r)" using le room xs by (simp add: outp_def)
    have o: "out_ok H beg (r_put r + copy) outp (G @ xs)"
      using out_ok_splice [OF room(2) _ xs(2)] le room xs(1) by (simp add: outp_def)
    have un: "unread r = xs @ unread ?r'"
      using le take_add [of copy "r_have r - copy" "drop (r_next r) (r_input r)"] by (simp add: unread_def xs_def add.commute)
    have rb: "ref_bytes ?len (bitstream r F) G = ref_bytes (?len - copy) (bitstream ?r' F) (G @ xs)" for F
    proof -
      have "bitstream ?r' F = (8 * (r_have r - copy + length F), bytes_value (unread ?r' @ F))" by (simp add: bitstream_def b0 h0)
      moreover have "bitstream r F = (8 * (length xs + (r_have r - copy + length F)), bytes_value (xs @ (unread ?r' @ F)))"
        using le xs by (simp add: bs un)
      moreover have "?len = length xs + (?len - copy)" using le xs by simp
      ultimately show ?thesis using ref_bytes_copy [OF xs(2)] by metis
    qed
    have "goes (ready r) H beg cl G r ?r'"
    proof (rule goesI [where G' = "G @ xs"])
      show "run_ok H beg ?r' (G @ xs)" using A(1) buf o lo le room m by (auto simp: run_ok_def state_ok_def buffer_ok_def out_ok_def)
      show "to_come cl (r_state ?r') (bitstream ?r' F) (G @ xs) = to_come cl (r_state r) (bitstream r F) G" for F
        using m rb by (simp add: to_come_simps then_blocks_def blocks_rest_def)
      show "same_call r ?r'" using lo le by (simp add: same_call_def)
      show "ready r cl (G @ xs) ?r'" using ret le 3 b0 by (auto simp: ready_def intro!: step_order_bits)
    qed (use m b0 in \<open>simp_all add: mode_ok_simps lean_def\<close>)
    then show ?thesis using out by simp
  qed
qed

section \<open>The counts of a dynamic block\<close>

lemma with_extra_Some: "take_bits n b = Some (x, b') \<Longrightarrow> with_extra base n b = Some (base + x, b')"
  by (simp add: with_extra_def)

lemma with_extra_short: "fst b < n \<Longrightarrow> with_extra base n b = None"
  by (simp add: with_extra_def take_bits_short)

lemma take_bits_ge: "take_bits n b = Some (x, b') \<Longrightarrow> fst b' + n = fst b"
  by (auto simp: take_bits_def split: prod.splits if_splits)

lemma with_extra_ge: "with_extra base n b = Some (x, b') \<Longrightarrow> fst b' + n = fst b"
  by (auto simp: with_extra_def dest: take_bits_ge)

lemma ref_dynamic_short: "fst b < 14 \<Longrightarrow> ref_dynamic dmax b G = None"
  by (rule ccontr) (auto simp: ref_dynamic_def bind_eq_Some_conv dest!: with_extra_ge)

lemma bits_of_less: "0 \<le> r_hold r \<Longrightarrow> n \<le> 31 \<Longrightarrow> bits_of n r < 2 ^ n"
  by (simp add: bits_of_nat)

lemma then_blocks_None [simp]: "then_blocks s None = None"
  by (simp add: then_blocks_def)

lemma part_cl_0: "i_have s = 0 \<Longrightarrow> part_cl s = replicate 19 0"
  by (simp add: part_cl_def map_replicate_const)

lemma ref_dynamic_read:
  assumes "take_bits 5 b = Some (x, b1)" "take_bits 5 b1 = Some (y, b2)" "take_bits 4 b2 = Some (z, b3)"
    and s: "i_nlen s = x + 257" "i_ndist s = y + 1" "i_ncode s = z + 4" "i_have s = 0"
  shows "then_blocks s (ref_dynamic (i_dmax s) b G) =
    (if i_nlen s > 286 \<or> i_ndist s > 30 then None
     else codelens_rest s G (ref_lenlens (i_have s) (i_ncode s - i_have s) b3 (part_cl s)))"
proof -
  have e: "257 + x = i_nlen s" "1 + y = i_ndist s" "4 + z = i_ncode s" using s by simp_all
  show ?thesis
    unfolding ref_dynamic_def with_extra_Some [OF assms(1)] with_extra_Some [OF assms(2)] with_extra_Some [OF assms(3)] e bind.bind_lunit prod.case
    using part_cl_0 [OF s(4)] s(4)
    by (cases "ref_lenlens 0 (i_ncode s) b3 (replicate 19 0)")
      (auto simp: codelens_rest_def tables_rest_def then_blocks_def split_def bind_assoc)
qed

lemma step_TABLE_ok:
  assumes ok: "all_ok H beg cl r G" and m: "i_mode (r_state r) = TABLE" and ret: "r_ret r = Z_OK"
  shows "step_ok H beg cl G r (step_TABLE r)"
  unfolding step_TABLE_def
proof (rule need_step [OF ok _ ret])
  note A = all_okD [OF ok]
  have tc: "to_come cl (r_state r) b G = then_blocks (r_state r) (ref_dynamic (i_dmax (r_state r)) b G)" for b using m by (simp add: to_come_simps)
  show "pending cl (r_fixed r) (r_state r) = (\<lambda>_. 14)" using m by (simp add: pending_simps)
  show "to_come cl (r_state r) b G = None" if "fst b < 14" for b using ref_dynamic_short [OF that] by (simp add: tc)
  fix r1 assume r1: "same_but_buffer r r1" "buffer_ok r1" "14 \<le> r_bits r1" "\<And>F. bitstream r1 F = bitstream r F" "r_bits r1 < 14 + 8"
  have g: "5 \<le> r_bits r1" "5 \<le> r_bits (drop_bits 5 r1)" "4 \<le> r_bits (drop_bits 5 (drop_bits 5 r1))" using r1(3) by (simp_all add: drop_bits_sel)
  note d1 = drop_run [OF r1(2) g(1)] and d2 = drop_run [OF drop_run(2) [OF r1(2) g(1)] g(2)]
  note d3 = drop_run [OF d2(2) g(3)]
  define r4 where "r4 = drop_bits 4 (drop_bits 5 (drop_bits 5 r1))"
  define x where "x = bits_of 5 r1"
  define y where "y = bits_of 5 (drop_bits 5 r1)"
  define z where "z = bits_of 4 (drop_bits 5 (drop_bits 5 r1))"
  define s where "s = (r_state r)\<lparr>i_nlen := x + 257, i_ndist := y + 1, i_ncode := z + 4\<rparr>"
  have fr: "same_but_buffer r r4" unfolding r4_def
    using r1(1) d1(1) d2(1) d3(1) by (blast intro: same_but_buffer_trans)
  note B1 = buffer_sel [OF r1(1)] and B = buffer_sel [OF fr]
  have b4: "buffer_ok r4" "r_bits r4 < 8" "run_bits r4 < run_bits r"
    using d3(2,3) d2(3) d1(3) r1(3,5) same_bits [OF r1(4)] g by (simp_all add: r4_def drop_bits_sel)
  have z: "z < 16" using bits_of_less [of "drop_bits 5 (drop_bits 5 r1)" 4] d2(2) by (simp add: z_def buffer_ok_def)
  have val: "to_come cl (r_state r) (bitstream r F) G =
      (if i_nlen s > 286 \<or> i_ndist s > 30 then None
       else codelens_rest (s\<lparr>i_have := 0\<rparr>) G (ref_lenlens 0 (i_ncode s) (bitstream r4 F) (part_cl (s\<lparr>i_have := 0\<rparr>))))" for F
    using ref_dynamic_read [of "bitstream r F" x "bitstream (drop_bits 5 r1) F" y "bitstream (drop_bits 5 (drop_bits 5 r1)) F" z "bitstream r4 F"
        "s\<lparr>i_have := 0\<rparr>" G] d1(4) [of F] d2(4) [of F] d3(4) [of F] r1(4) [of F]
    unfolding tc by (simp add: s_def x_def y_def z_def r4_def then_blocks_def blocks_rest_def)
  have e: "drop_bits 4 (upd_state (\<lambda>s. s\<lparr>i_ncode := z + 4\<rparr>) (drop_bits 5 (upd_state (\<lambda>s. s\<lparr>i_ndist := y + 1\<rparr>)
      (drop_bits 5 (upd_state (\<lambda>s. s\<lparr>i_nlen := x + 257\<rparr>) r1))))) = upd_state (\<lambda>_. s) r4"
    by (simp add: r4_def s_def drop_bits_def B1)
  have go: "goes (ready r) H beg cl G r (set_mode LENLENS (upd_state (\<lambda>s. s\<lparr>i_have := 0\<rparr>) (upd_state (\<lambda>_. s) r4)))"
    if c: "\<not> (i_nlen s > 286 \<or> i_ndist s > 30)"
  proof (rule goesI)
    let ?r' = "set_mode LENLENS (upd_state (\<lambda>s. s\<lparr>i_have := 0\<rparr>) (upd_state (\<lambda>_. s) r4))"
    show "run_ok H beg ?r' G" using A(1) b4(1) by (simp add: run_ok_def state_ok_def B s_def)
    show "mode_ok cl (r_fixed ?r') (r_state ?r')" using c z part_cl_0 by (simp add: mode_ok_simps counts_ok_def) (simp add: s_def)
    show "lean cl ?r'" using b4 by (simp add: lean_def)
    show "to_come cl (r_state ?r') (bitstream ?r' F) G = to_come cl (r_state r) (bitstream r F) G" for F
    proof -
      have "codelens_rest (r_state ?r') G y = codelens_rest (s\<lparr>i_have := 0\<rparr>) G y" for y by (rule rest_cong) simp_all
      moreover have "part_cl (r_state ?r') = part_cl (s\<lparr>i_have := 0\<rparr>)" by (simp add: part_cl_def)
      ultimately show ?thesis unfolding val using c by (simp add: to_come_simps)
    qed
    show "same_call r ?r'" using fr by (simp add: same_call_def same_but_buffer_def s_def)
    show "ready r cl G ?r'" using ret b4(3) by (simp add: ready_def B step_order_bits)
  qed
  have go_bad: "goes (ready r) H beg cl G r (bad msg (upd_state (\<lambda>_. s) r4))" if c: "i_nlen s > 286 \<or> i_ndist s > 30" for msg
    using ok m fr val A(5) b4 c by (intro goes_bad) (auto simp: s_def state_ok_def)
  show "step_ok H beg cl G r
     (let r = drop_bits 5 (upd_state (\<lambda>s. s\<lparr>i_nlen := bits_of 5 r1 + 257\<rparr>) r1);
          r = drop_bits 5 (upd_state (\<lambda>s. s\<lparr>i_ndist := bits_of 5 r + 1\<rparr>) r);
          r = drop_bits 4 (upd_state (\<lambda>s. s\<lparr>i_ncode := bits_of 4 r + 4\<rparr>) r)
      in if i_nlen (r_state r) > 286 \<or> i_ndist (r_state r) > 30
         then Some (Continue (bad ''too many length or distance symbols'' r))
         else Some (Continue (set_mode LENLENS (upd_state (\<lambda>s. s\<lparr>i_have := 0\<rparr>) r))))"
  proof -
    have x': "bits_of 5 r1 = x" "bits_of 5 (drop_bits 5 (upd_state f r1)) = y" "bits_of 4 (drop_bits 5 (upd_state f (drop_bits 5 (upd_state g r1)))) = z" for f g
      by (simp_all add: x_def y_def z_def)
    show ?thesis unfolding Let_def x' e using go go_bad by (cases "i_nlen s > 286 \<or> i_ndist s > 30") simp_all
  qed
qed (use m in simp_all)

section \<open>The lengths of the code for code lengths\<close>

text \<open>Such a step changes the array of lengths, their number and the buffer.\<close>

definition lens_step :: "run \<Rightarrow> run \<Rightarrow> bool" where
  "lens_step r r' \<longleftrightarrow> buffer_ok r' \<and> (\<exists>lens have. length lens = length (i_lens (r_state r)) \<and>
     same_but_buffer (upd_state (\<lambda>s. s\<lparr>i_lens := lens, i_have := have\<rparr>) r) r')"

lemma lens_step_state:
  assumes "lens_step r r'"
  shows "r_state r' = (r_state r)\<lparr>i_lens := i_lens (r_state r'), i_have := i_have (r_state r')\<rparr>"
    "length (i_lens (r_state r')) = length (i_lens (r_state r))" "buffer_ok r'"
    "r_fixed r' = r_fixed r" "r_ret r' = r_ret r" "r_left r' = r_left r" "same_call r r'"
    "i_mode (r_state r') = i_mode (r_state r)"
  using assms by (auto simp: lens_step_def same_but_buffer_def same_call_def)

lemma lens_step_run_ok: "lens_step r r' \<Longrightarrow> run_ok H beg r G \<Longrightarrow> run_ok H beg r' G"
  by (auto simp: lens_step_def run_ok_def same_but_buffer_def state_ok_def)

lemma lens_step_refl: "buffer_ok r \<Longrightarrow> lens_step r r"
  unfolding lens_step_def by (intro conjI exI [of _ "i_lens (r_state r)"] exI [of _ "i_have (r_state r)"]) (simp_all add: same_but_buffer_def)

lemma lens_step_trans:
  assumes "lens_step r r'" "lens_step r' r''"
  shows "lens_step r r''"
proof -
  obtain ls h where a: "length ls = length (i_lens (r_state r))" "same_but_buffer (upd_state (\<lambda>s. s\<lparr>i_lens := ls, i_have := h\<rparr>) r) r'"
    using assms(1) by (auto simp: lens_step_def)
  obtain ls' h' where b: "length ls' = length (i_lens (r_state r'))" "same_but_buffer (upd_state (\<lambda>s. s\<lparr>i_lens := ls', i_have := h'\<rparr>) r') r''"
    "buffer_ok r''" using assms(2) by (auto simp: lens_step_def)
  have "same_but_buffer (upd_state (\<lambda>s. s\<lparr>i_lens := ls', i_have := h'\<rparr>) r) r''" using a(2) b(2) by (simp add: same_but_buffer_def)
  moreover have "length ls' = length (i_lens (r_state r))" using a b by (simp add: same_but_buffer_def)
  ultimately show ?thesis using b(3) unfolding lens_step_def by blast
qed

lemma lens_step_buffer: "same_but_buffer r r' \<Longrightarrow> buffer_ok r' \<Longrightarrow> lens_step r r'"
  unfolding lens_step_def
  by (intro conjI exI [of _ "i_lens (r_state r)"] exI [of _ "i_have (r_state r)"]) (simp_all add: same_but_buffer_def)

lemma lens_step_order: "buffer_ok r \<Longrightarrow> lens_step r (order_lens v r)"
  unfolding lens_step_def order_lens_def
  by (intro conjI exI [of _ "(i_lens (r_state r))[lens_order ! i_have (r_state r) := v]"] exI [of _ "i_have (r_state r) + 1"])
    (simp_all add: same_but_buffer_def)

lemma lens_order_rfc: "lens_order = rfc_order"
  by (simp add: lens_order_def rfc_order_def)

lemma rfc_order_props: "distinct rfc_order" "length rfc_order = 19" "set rfc_order = {0..<19}" "k < 19 \<Longrightarrow> rfc_order ! k < 19"
proof -
  show "distinct rfc_order" "length rfc_order = 19" by (simp_all add: rfc_order_def)
  show s: "set rfc_order = {0..<19}" by (simp add: rfc_order_def atLeast0LessThan lessThan_nat_numeral lessThan_Suc insert_commute)
  show "k < 19 \<Longrightarrow> rfc_order ! k < 19" using s nth_mem [of k rfc_order] by (simp add: rfc_order_def)
qed

lemma part_cl_next:
  assumes "i_have s < 19" "19 \<le> length (i_lens s)"
  shows "part_cl (s\<lparr>i_lens := (i_lens s)[rfc_order ! i_have s := v], i_have := i_have s + 1\<rparr>) = (part_cl s)[rfc_order ! i_have s := v]"
proof (rule nth_equalityI)
  fix j assume "j < length (part_cl (s\<lparr>i_lens := (i_lens s)[rfc_order ! i_have s := v], i_have := i_have s + 1\<rparr>))"
  then have j: "j < 19" by (simp add: part_cl_def)
  have "set (take (i_have s + 1) rfc_order) = insert (rfc_order ! i_have s) (set (take (i_have s) rfc_order))"
    using assms(1) rfc_order_props(2) by (simp add: take_Suc_conv_app_nth)
  then show "part_cl (s\<lparr>i_lens := (i_lens s)[rfc_order ! i_have s := v], i_have := i_have s + 1\<rparr>) ! j = (part_cl s)[rfc_order ! i_have s := v] ! j"
    using j assms by (cases "j = rfc_order ! i_have s") (simp_all add: part_cl_def)
qed (simp add: part_cl_def)

lemma order_lens_sel: "bitstream (order_lens v r) F = bitstream r F" "buffer_ok (order_lens v r) = buffer_ok r"
  "r_bits (order_lens v r) = r_bits r" "i_have (r_state (order_lens v r)) = i_have (r_state r) + 1"
  "r_state (order_lens v r) = (r_state r)\<lparr>i_lens := (i_lens (r_state r))[rfc_order ! i_have (r_state r) := v], i_have := i_have (r_state r) + 1\<rparr>"
  "r_have (order_lens v r) = r_have r"
  by (simp_all add: order_lens_def lens_order_rfc)

lemma read_lenlens_ok:
  assumes "buffer_ok r" "r_bits r < 8" "length (i_lens (r_state r)) = 320" "i_have (r_state r) + n \<le> 19"
    "\<forall>l \<in> set (part_cl (r_state r)). l \<le> 7"
  shows "case read_lenlens n r of
      Inl r' \<Rightarrow> lens_step r r' \<and> r_have r' = 0 \<and> r_bits r' < 3 \<and> i_have (r_state r') < i_have (r_state r) + n \<and>
        (\<forall>l \<in> set (part_cl (r_state r')). l \<le> 7) \<and>
        (\<forall>F. ref_lenlens (i_have (r_state r')) (i_have (r_state r) + n - i_have (r_state r')) (bitstream r' F) (part_cl (r_state r')) =
          ref_lenlens (i_have (r_state r)) n (bitstream r F) (part_cl (r_state r)))
    | Inr r' \<Rightarrow> lens_step r r' \<and> r_bits r' < 8 \<and> i_have (r_state r') = i_have (r_state r) + n \<and> (\<forall>l \<in> set (part_cl (r_state r')). l \<le> 7) \<and>
        (\<forall>F. ref_lenlens (i_have (r_state r)) n (bitstream r F) (part_cl (r_state r)) = Some (part_cl (r_state r'), bitstream r' F))"
  using assms
proof (induction n r rule: read_lenlens.induct)
  case (1 r)
  then show ?case by (simp add: lens_step_refl)
next
  case (2 n r)
  show ?case
  proof (cases "needbits 3 r")
    case (Inl r')
    have n3: "(3 :: nat) \<le> 24" by simp
    note N = needbits_Inl [OF Inl "2.prems"(1) n3]
    have s: "r_state r' = r_state r" using N(1) by (simp add: same_but_buffer_def)
    show ?thesis using Inl N "2.prems" by (simp add: lens_step_buffer s)
  next
    case (Inr r1)
    have n3: "(3 :: nat) \<le> 24" by simp
    note N = needbits_Inr [OF Inr "2.prems"(1) n3]
    have s1: "r_state r1 = r_state r" using N(1) by (simp add: same_but_buffer_def)
    define v where "v = bits_of 3 r1"
    define r2 where "r2 = drop_bits 3 (order_lens v r1)"
    have o1: "buffer_ok (order_lens v r1)" "3 \<le> r_bits (order_lens v r1)" using N by (simp_all add: order_lens_sel)
    note D = drop_run [OF o1]
    have v7: "v \<le> 7" using bits_of_less [of r1 3] N(2) by (simp add: v_def buffer_ok_def)
    have st: "lens_step r r2" unfolding r2_def
      using lens_step_trans [OF lens_step_buffer [OF N(1,2)] lens_step_trans [OF lens_step_order [OF N(2)] lens_step_buffer [OF D(1,2)]]] .
    have s2: "r_state r2 = (r_state r)\<lparr>i_lens := (i_lens (r_state r))[rfc_order ! i_have (r_state r) := v], i_have := i_have (r_state r) + 1\<rparr>"
      using buffer_sel(1) [OF D(1)] by (simp add: r2_def order_lens_sel s1)
    have pc: "part_cl (r_state r2) = (part_cl (r_state r))[rfc_order ! i_have (r_state r) := v]"
      unfolding s2 using "2.prems" by (intro part_cl_next) auto
    have all7: "\<forall>l \<in> set (part_cl (r_state r2)). l \<le> 7"
    proof
      fix l assume "l \<in> set (part_cl (r_state r2))"
      then have "l \<in> insert v (set (part_cl (r_state r)))" unfolding pc using set_update_subset_insert by fast
      then show "l \<le> 7" using "2.prems"(5) v7 by auto
    qed
    have b2: "buffer_ok r2" "r_bits r2 < 8" using D N(5) "2.prems"(2) by (auto simp: r2_def drop_bits_sel order_lens_sel)
    have tk: "take_bits 3 (bitstream r F) = Some (v, bitstream r2 F)" for F
      using D(4) [of F] N(4) [of F] by (simp add: order_lens_sel r2_def v_def bits_of_def order_lens_def)
    have h2: "i_have (r_state r2) = i_have (r_state r) + 1" "length (i_lens (r_state r2)) = 320" using s2 "2.prems"(3) by simp_all
    have rl: "ref_lenlens (i_have (r_state r)) (Suc n) (bitstream r F) (part_cl (r_state r)) =
        ref_lenlens (i_have (r_state r2)) n (bitstream r2 F) (part_cl (r_state r2))" for F
      using tk [of F] h2(1) pc by simp
    have e: "read_lenlens (Suc n) r = read_lenlens n r2" using Inr by (simp add: r2_def v_def)
    have "i_have (r_state r2) + n \<le> 19" using "2.prems"(4) h2(1) by simp
    note IH = "2.IH" [OF Inr, folded v_def, folded r2_def, OF b2 h2(2) this all7]
    show ?thesis
    proof (cases "read_lenlens n r2")
      case (Inl r')
      then show ?thesis using IH lens_step_trans [OF st] h2(1) unfolding e rl by simp
    next
      case (Inr r')
      then show ?thesis using IH lens_step_trans [OF st] h2(1) unfolding e rl by simp
    qed
  qed
qed

text \<open>The lengths that were not given become 0.\<close>

lemma rest_lenlens_ok:
  assumes "buffer_ok r" "length (i_lens (r_state r)) = 320" "i_have (r_state r) \<le> 19"
  shows "lens_step r (rest_lenlens r)" "take 19 (i_lens (r_state (rest_lenlens r))) = part_cl (r_state r)"
    "bitstream (rest_lenlens r) F = bitstream r F" "r_bits (rest_lenlens r) = r_bits r" "r_have (rest_lenlens r) = r_have r"
proof -
  have "lens_step r ((order_lens 0 ^^ n) r) \<and> i_have (r_state ((order_lens 0 ^^ n) r)) = i_have (r_state r) + n \<and>
      part_cl (r_state ((order_lens 0 ^^ n) r)) = part_cl (r_state r) \<and>
      bitstream ((order_lens 0 ^^ n) r) F = bitstream r F \<and> r_bits ((order_lens 0 ^^ n) r) = r_bits r \<and> r_have ((order_lens 0 ^^ n) r) = r_have r"
    if "i_have (r_state r) + n \<le> 19" for n
    using that
  proof (induction n)
    case 0
    then show ?case using assms(1) by (simp add: lens_step_refl)
  next
    case (Suc n)
    let ?r = "(order_lens 0 ^^ n) r"
    from Suc have IH: "lens_step r ?r" "i_have (r_state ?r) = i_have (r_state r) + n" "part_cl (r_state ?r) = part_cl (r_state r)"
      "bitstream ?r F = bitstream r F" "r_bits ?r = r_bits r" "r_have ?r = r_have r" by auto
    have b: "buffer_ok ?r" "length (i_lens (r_state ?r)) = 320" using lens_step_state [OF IH(1)] assms(2) by simp_all
    have "part_cl (r_state (order_lens 0 ?r)) = (part_cl (r_state ?r))[rfc_order ! i_have (r_state ?r) := 0]"
      unfolding order_lens_sel(5) using Suc.prems b(2) IH(2) by (intro part_cl_next) auto
    also have "\<dots> = part_cl (r_state ?r)"
    proof -
      have k: "i_have (r_state ?r) < 19" using Suc.prems IH(2) by simp
      have "rfc_order ! i_have (r_state ?r) \<notin> set (take (i_have (r_state ?r)) rfc_order)"
        using k rfc_order_props(1,2) by (auto simp: in_set_conv_nth nth_eq_iff_index_eq)
      then have "part_cl (r_state ?r) ! (rfc_order ! i_have (r_state ?r)) = 0"
        using rfc_order_props(4) [OF k] by (simp add: part_cl_def)
      then show ?thesis by (metis list_update_id)
    qed
    finally have "part_cl (r_state (order_lens 0 ?r)) = part_cl (r_state r)" using IH(3) by simp
    then show ?case using IH lens_step_trans [OF IH(1) lens_step_order [OF b(1)]]
      by (simp add: order_lens_sel)
  qed
  from this [of "19 - i_have (r_state r)"] assms(3)
  have R: "lens_step r (rest_lenlens r)" "i_have (r_state (rest_lenlens r)) = 19" "part_cl (r_state (rest_lenlens r)) = part_cl (r_state r)"
    "bitstream (rest_lenlens r) F = bitstream r F" "r_bits (rest_lenlens r) = r_bits r" "r_have (rest_lenlens r) = r_have r"
    by (auto simp: rest_lenlens_def)
  show "lens_step r (rest_lenlens r)" "bitstream (rest_lenlens r) F = bitstream r F" "r_bits (rest_lenlens r) = r_bits r"
    "r_have (rest_lenlens r) = r_have r" using R by simp_all
  have "length (i_lens (r_state (rest_lenlens r))) = 320" using lens_step_state(2) [OF R(1)] assms(2) by simp
  then have "take 19 (i_lens (r_state (rest_lenlens r))) = map (\<lambda>j. i_lens (r_state (rest_lenlens r)) ! j) [0..<19]"
    by (intro nth_equalityI) simp_all
  also have "\<dots> = part_cl (r_state (rest_lenlens r))"
    using R(2) rfc_order_props(2,3) by (simp add: part_cl_def)
  finally show "take 19 (i_lens (r_state (rest_lenlens r))) = part_cl (r_state r)" using R(3) by simp
qed

lemma same_call_upd:
  assumes "same_call r r'" "i_wrap s = i_wrap (r_state r')" "i_dmax s = i_dmax (r_state r')" "i_wbits s = i_wbits (r_state r')"
  shows "same_call r (r'\<lparr>r_state := s, r_ret := n\<rparr>)"
  using assms by (simp add: same_call_def)

lemma run_ok_upd:
  assumes "run_ok H beg r G" "buffer_ok r" "state_ok s H"
  shows "run_ok H beg (r\<lparr>r_state := s, r_ret := n\<rparr>) G"
  using assms by (simp add: run_ok_def buffer_ok_def)

lemma ref_lenlens_ge: "ref_lenlens k n b cl = Some (cl', b') \<Longrightarrow> fst b' + 3 * n = fst b"
  by (induction n arbitrary: k b cl) (auto simp: bind_eq_Some_conv dest!: take_bits_ge)

lemma step_LENLENS_ok:
  assumes ok: "all_ok H beg cl r G" and m: "i_mode (r_state r) = LENLENS" and ret: "r_ret r = Z_OK"
  shows "step_ok H beg cl G r (step_LENLENS r)"
proof -
  note A = all_okD [OF ok]
  let ?s = "r_state r"
  define n where "n = i_ncode ?s - i_have ?s"
  have buf: "buffer_ok r" using A(4) m by simp
  have mo: "counts_ok ?s" "i_ncode ?s \<le> 19" "i_have ?s \<le> i_ncode ?s" "\<forall>l \<in> set (part_cl ?s). l \<le> 7"
    using A(2) m by (auto simp: mode_ok_simps)
  have so: "length (i_lens ?s) = 320" "length (i_work ?s) = 288" "length (i_lendyn ?s) = ENOUGH_LENS" using A(5) by (auto simp: state_ok_def)
  have b8: "r_bits r < 8" using A(3) m by (auto simp: lean_def pending_simps)
  have n: "i_have ?s + n = i_ncode ?s" "i_have ?s + n \<le> 19" using mo by (auto simp: n_def)
  have tc: "to_come cl ?s (bitstream r F) G = codelens_rest ?s G (ref_lenlens (i_have ?s) n (bitstream r F) (part_cl ?s))" for F
    using m by (simp add: to_come_simps n_def)
  note R = read_lenlens_ok [OF buf b8 so(1) n(2) mo(4)]
  show ?thesis
  proof (cases "read_lenlens n r")
    case (Inl r')
    then have I: "lens_step r r'" "r_have r' = 0" "r_bits r' < 3" "i_have (r_state r') < i_ncode ?s" "\<forall>l \<in> set (part_cl (r_state r')). l \<le> 7"
      "\<And>F. ref_lenlens (i_have (r_state r')) (i_ncode ?s - i_have (r_state r')) (bitstream r' F) (part_cl (r_state r')) =
          ref_lenlens (i_have ?s) n (bitstream r F) (part_cl ?s)" using R n(1) by auto
    note S = lens_step_state [OF I(1)]
    have sel: "i_ncode (r_state r') = i_ncode ?s" "counts_ok (r_state r')" "codelens_rest (r_state r') G y = codelens_rest ?s G y" for y
    proof -
      show "i_ncode (r_state r') = i_ncode ?s" "counts_ok (r_state r')" using mo(1) by (subst S(1), simp add: counts_ok_def)+
      show "codelens_rest (r_state r') G y = codelens_rest ?s G y" by (rule rest_cong; subst S(1); simp)
    qed
    have eq: "to_come cl (r_state r') (bitstream r' F) G = to_come cl ?s (bitstream r F) G" for F
      using I(6) [of F] S(8) m unfolding tc by (simp add: to_come_simps sel)
    have none: "to_come cl (r_state r') (bitstream r' []) G = None"
    proof (cases "i_ncode ?s - i_have (r_state r')")
      case 0
      then show ?thesis using I(4) by simp
    next
      case (Suc k)
      have "take_bits 3 (bitstream r' []) = None" using I(2,3) by (intro take_bits_short) simp
      then show ?thesis using S(8) m Suc by (simp add: to_come_simps sel codelens_rest_def)
    qed
    have "goes stopped H beg cl G r r'"
    proof (rule goesI)
      show "run_ok H beg r' G" using lens_step_run_ok [OF I(1) A(1)] .
      show "mode_ok cl (r_fixed r') (r_state r')" using S(8) m mo(2) I(4,5) sel by (simp add: mode_ok_simps)
      show "stopped cl G r'" using I(2) none ret S(5,8) m by (simp add: stopped_def)
    qed (use I eq S m in \<open>simp_all add: lean_def pending_simps\<close>)
    then show ?thesis using Inl by (simp add: step_LENLENS_def n_def)
  next
    case (Inr r')
    then have I: "lens_step r r'" "r_bits r' < 8" "i_have (r_state r') = i_ncode ?s" "\<forall>l \<in> set (part_cl (r_state r')). l \<le> 7"
      "\<And>F. ref_lenlens (i_have ?s) n (bitstream r F) (part_cl ?s) = Some (part_cl (r_state r'), bitstream r' F)"
      using R n(1) by auto
    define r2 where "r2 = rest_lenlens r'"
    define cl' where "cl' = part_cl (r_state r')"
    note S1 = lens_step_state [OF I(1)]
    have h: "length (i_lens (r_state r')) = 320" "i_have (r_state r') \<le> 19" using S1(2) so(1) I(3) mo(2) by simp_all
    note L = rest_lenlens_ok [OF S1(3) h, folded r2_def cl'_def]
    have st: "lens_step r r2" using lens_step_trans [OF I(1) L(1)] .
    note S = lens_step_state [OF st]
    have sel: "i_ncode (r_state r2) = i_ncode ?s" "i_work (r_state r2) = i_work ?s" "i_lendyn (r_state r2) = i_lendyn ?s" "i_nlen (r_state r2) = i_nlen ?s"
      "i_ndist (r_state r2) = i_ndist ?s" "i_last (r_state r2) = i_last ?s" "i_dmax (r_state r2) = i_dmax ?s"
      by (subst S(1), simp)+
    have le: "run_bits r2 \<le> run_bits r" using ref_lenlens_ge [OF I(5) [of "[]"]] L(4,5) by simp
    have cl7: "\<forall>l \<in> set cl'. l \<le> 7" using I(4) by (simp add: cl'_def)
    have take19: "take 19 (drop 0 (i_lens (r_state r2))) = cl'" using L(2) by simp
    have len19: "length cl' = 19" by (simp add: cl'_def part_cl_def)
    have call: "table_call CODES (take 19 (drop 0 (i_lens (r_state r2)))) 7 (length (i_lendyn (r_state r2)))"
      unfolding take19 table_call_def using cl7 len19 so(3) sel by (auto simp: code_limit_def exceeds_def ENOUGH_LENS_def)
    from table_built [OF _ _ _ _ call, of "i_work (r_state r2)"] obtain t where
      t: "inflate_table CODES (i_lens (r_state r2)) 0 19 (i_lendyn (r_state r2)) 0 (i_work (r_state r2)) 7 = Some t"
        "tr_ret t \<noteq> 0 \<longleftrightarrow> \<not> acceptable False cl'" "tr_ret t = 0 \<longrightarrow> table_for CODES cl' (tr_table t) (tr_bits t)"
        "length (tr_table t) = ENOUGH_LENS" "length (tr_work t) = 288"
        "\<forall>l \<in> set cl'. l \<le> tr_bits t"
      using so sel S(2) cl7 unfolding take19 by (auto simp: exceeds_def)
    define s3 where "s3 = (r_state r2)\<lparr>i_lencode := Dynamic, i_lendyn := tr_table t, i_work := tr_work t, i_lenbits := tr_bits t\<rparr>"
    define r3 where "r3 = r2\<lparr>r_state := s3, r_ret := tr_ret t\<rparr>"
    have step: "step_LENLENS r = Some (Continue (if tr_ret t \<noteq> 0 then bad ''invalid code lengths set'' r3
        else set_mode CODELENS (upd_state (\<lambda>s. s\<lparr>i_have := 0\<rparr>) r3)))"
      using Inr t(1) by (simp add: step_LENLENS_def n_def r2_def [symmetric] s3_def r3_def Let_def)
    have run2: "run_ok H beg r2 G" using lens_step_run_ok [OF st A(1)] .
    then have "state_ok s3 H" using t by (simp add: s3_def run_ok_def state_ok_def)
    then have run3: "run_ok H beg r3 G" unfolding r3_def using run_ok_upd [OF run2 S(3)] by blast
    have val: "to_come cl ?s (bitstream r F) G =
        (if tr_ret t = 0 then tables_rest ?s G (ref_codelens cl' (i_nlen ?s + i_ndist ?s) (bitstream r2 F) []) else None)" for F
      unfolding tc I(5) using t(2) L(3) by (simp add: codelens_rest_def cl'_def)
    have call3: "same_call r r3" unfolding r3_def by (rule same_call_upd [OF S(7)]) (simp_all add: s3_def)
    show ?thesis
    proof (cases "tr_ret t = 0")
      case True
      let ?r' = "set_mode CODELENS (upd_state (\<lambda>s. s\<lparr>i_have := 0\<rparr>) r3)"
      have "goes (ready r) H beg cl G r ?r'"
      proof (rule goesI [where cl' = cl'])
        show "run_ok H beg ?r' G" using run3 S(3) by (simp add: run_ok_def state_ok_def r3_def buffer_ok_def)
        show "mode_ok cl' (r_fixed ?r') (r_state ?r')" using t(2,3,6) True mo(1) sel by (simp add: mode_ok_simps codelens_ok_def r3_def s3_def counts_ok_def)
        show "to_come cl' (r_state ?r') (bitstream ?r' F) G = to_come cl ?s (bitstream r F) G" for F
        proof -
          have "tables_rest (r_state ?r') G y = tables_rest ?s G y" for y by (rule rest_cong) (simp_all add: r3_def s3_def sel)
          moreover have "bitstream ?r' F = bitstream r2 F" by (simp add: r3_def bitstream_def unread_def)
          ultimately show ?thesis unfolding val using True by (simp add: to_come_simps) (simp add: r3_def s3_def sel)
        qed
        show "ready r cl' G ?r'" using True le m S(6) by (auto simp: ready_def r3_def s3_def mode_rank_simps Z_OK_def intro!: step_order_rank)
        show "same_call r ?r'" using call3 by (simp add: same_call_def)
      qed (use I(2) L in \<open>simp add: lean_def r3_def\<close>)
      then show ?thesis using step True by simp
    next
      case False
      have "goes (ready r) H beg cl G r (bad ''invalid code lengths set'' r3)"
      proof (rule goesI [where cl' = cl])
        show "run_ok H beg (bad ''invalid code lengths set'' r3) G" using run3 by (simp add: run_ok_def state_ok_def)
        show "ready r cl G (bad ''invalid code lengths set'' r3)"
          using le m S(6) by (auto simp: ready_def r3_def mode_rank_simps intro!: step_order_rank)
        show "same_call r (bad ''invalid code lengths set'' r3)" using call3 by (simp add: same_call_def)
      qed (use val False in \<open>simp_all add: mode_ok_simps lean_def to_come_simps\<close>)
      then show ?thesis using step False by simp
    qed
  qed
qed

end
