(* ===== verification/InflateLens.thy ===== *)
theory InflateLens
  imports InflateSteps
begin

text \<open>
  The mode \<open>CODELENS\<close>: every turn of its loop reads one code length or one repetition, as the
  specification does, and at its end the tables are built, or their lengths refused.
\<close>

section \<open>The bits of one code length\<close>

lemma hold_stable:
  assumes "buffer_ok r" "buffer_ok r'" "r_bits r \<le> r_bits r'" "bitstream r' F = bitstream r F"
  shows "r_hold r' mod 2 ^ r_bits r = r_hold r"
proof -
  have "nat (r_hold r') mod 2 ^ r_bits r = snd (bitstream r' F) mod 2 ^ r_bits r"
    using mod_add_mult_power [OF assms(3)] by (simp add: bitstream_def)
  also have "\<dots> = nat (r_hold r) mod 2 ^ r_bits r" unfolding assms(4) using mod_add_mult_power [OF order.refl] by (simp add: bitstream_def)
  finally have "int (nat (r_hold r') mod 2 ^ r_bits r) = int (nat (r_hold r) mod 2 ^ r_bits r)" by simp
  then show ?thesis using assms(1,2) by (simp add: buffer_ok_def zmod_int)
qed

text \<open>The first level of a table that holds all of a code.\<close>

lemma first_short:
  assumes t: "table_for type ls table bits" and short: "\<forall>l \<in> set ls. l \<le> bits" and h: "0 \<le> h"
  shows "lookup_code table bits (nat h) = (here_bits (first_entry table bits h), first_entry table bits h)"
    "here_bits (first_entry table bits h) = code_bits table bits h"
proof -
  have b: "bits \<le> 30" using t by (simp add: table_for_def)
  have "\<not> is_link (first_at table bits (nat h))"
  proof (cases "decode ls (nat h)")
    case None
    then show ?thesis using table_for_None(3) [OF t] by simp
  next
    case (Some s)
    then show ?thesis using table_for_Some(3,5) [OF t Some] short by (simp add: not_less)
  qed
  then show "lookup_code table bits (nat h) = (here_bits (first_entry table bits h), first_entry table bits h)"
    using lookup_first first_entry_at [OF h b] by simp
  then show "here_bits (first_entry table bits h) = code_bits table bits h" by (simp add: code_bits_def)
qed

lemma pull_short:
  assumes t: "table_for type ls table bits" and short: "\<forall>l \<in> set ls. l \<le> bits" and r: "buffer_ok r"
  shows "case pull_code (first_entry table bits) 0 r of
      Inl r' \<Rightarrow> pulled (code_bits table bits) r r' \<and> r_have r' = 0 \<and> r_bits r' < code_bits table bits (r_hold r')
    | Inr (here, r') \<Rightarrow> pulled (code_bits table bits) r r' \<and> lookup_code table bits (nat (r_hold r')) = (here_bits here, here) \<and>
        here_bits here = code_bits table bits (r_hold r') \<and> here_bits here \<le> r_bits r'"
proof -
  have fb: "here_bits (first_entry table bits h) = code_bits table bits h" if "0 \<le> h" for h using first_short(2) [OF t short that] .
  have le: "0 + here_bits (first_entry table bits h) \<le> 24" if "0 \<le> h" "h mod 2 ^ r_bits r = r_hold r" for h
    using fb [OF that(1)] lookup_bounds(2) [OF t, of "nat h"] by (simp add: code_bits_def)
  have cb: "pulled (code_bits table bits) r r'" if "pulled (\<lambda>h. 0 + here_bits (first_entry table bits h)) r r'" for r'
    using pulled_code [OF t that _ r] fb by simp
  have h: "0 \<le> r_hold r'" if "pulled n r r'" for n r' using that by (simp add: pulled_def buffer_ok_def)
  show ?thesis
  proof (cases "pull_code (first_entry table bits) 0 r")
    case (Inl r')
    note P = pull_code_Inl [OF Inl r le]
    show ?thesis using Inl cb [OF P(1)] P(2,3) fb [OF h [OF P(1)]] by simp
  next
    case (Inr x)
    obtain here r' where x: "x = (here, r')" by fastforce
    note P = pull_code_Inr [OF Inr [unfolded x] r le]
    show ?thesis using Inr x cb [OF P(1)] P(2,3) first_short [OF t short h [OF P(1)]] by simp
  qed
qed

lemma symbol_entry_CODES: "s < 19 \<Longrightarrow> symbol_entry CODES [] s = (0, s)"
  by (simp add: symbol_entry_def symbol_end_def)

text \<open>What follows a code length's symbol, and what it says.\<close>

definition extra_bits :: "nat \<Rightarrow> nat" where
  "extra_bits v = (if v < 16 then 0 else if v = 16 then 2 else if v = 17 then 3 else 7)"

lemma codelen_bits_Some: "decode cl (nat h) = Some v \<Longrightarrow> codelen_bits cl table bits h = code_bits table bits h + extra_bits v"
  by (simp add: codelen_bits_def extra_bits_def)

lemma codelen_bits_None: "decode cl (nat h) = None \<Longrightarrow> codelen_bits cl table bits h = code_bits table bits h"
  by (simp add: codelen_bits_def)

lemma code_bits_le_codelen: "code_bits table bits h \<le> codelen_bits cl table bits h"
  by (simp add: codelen_bits_def)

text \<open>After the code has been pulled: its symbol, and the bits that are over.\<close>

lemma pulled_value:
  assumes t: "table_for CODES cl table bits" and r: "buffer_ok r" and p: "pulled (code_bits table bits) r r1"
    and l: "lookup_code table bits (nat (r_hold r1)) = (here_bits here, here)" and n: "here_bits here \<le> r_bits r1"
    and d: "decode cl (nat (r_hold r1)) = Some v"
  shows "here_val here = v" "v < 19" "ref_symbol cl (bitstream r F) = Some (v, bitstream (drop_bits (here_bits here) r1) F)"
proof -
  have P: "buffer_ok r1" "bitstream r1 F = bitstream r F" using p by (auto simp: pulled_def)
  note S = table_for_Some [OF t d]
  show "v < 19" using S(6) by (simp add: code_limit_def)
  then show hv: "here_val here = v" using S(2) l by (simp add: symbol_entry_CODES)
  have "table_entry 1 64 0 \<noteq> here"
  proof
    assume "table_entry 1 64 0 = here"
    then have "here_op here = 64" using invalid_entry by metis
    then show False using S(2) l \<open>v < 19\<close> by (simp add: symbol_entry_CODES)
  qed
  then obtain s b' where "ref_symbol cl (bitstream r F) = Some (s, b')" "(here_op here, here_val here) = symbol_entry CODES [] s"
      "s < code_limit CODES" "b' = bitstream (drop_bits (here_bits here) r1) F"
    using dropped_code [OF t P(1) l n, of F] P(2) by (auto simp: code_entry_def split: option.splits)
  then show "ref_symbol cl (bitstream r F) = Some (v, bitstream (drop_bits (here_bits here) r1) F)"
    using hv by (simp add: code_limit_def symbol_entry_CODES)
qed

text \<open>The extra bits, \<open>N\<close> in all with those of the code.\<close>

lemma codelen_bits_stable:
  assumes "table_for CODES cl table bits" "0 \<le> h" "0 \<le> g" "h mod 2 ^ k = g mod 2 ^ k" "code_bits table bits g \<le> k"
  shows "codelen_bits cl table bits h = codelen_bits cl table bits g"
  using code_bits_stable [OF assms] by (simp add: codelen_bits_def)

lemma codelen_bits_le: "table_for CODES cl table bits \<Longrightarrow> codelen_bits cl table bits h \<le> 22"
  using lookup_bounds(2) [of CODES cl table bits "nat h"] by (auto simp: codelen_bits_def code_bits_def split: option.split)

lemma pulled_extra:
  assumes t: "table_for CODES cl table bits" and r: "buffer_ok r" "r_bits r < 8 \<or> r_bits r < codelen_bits cl table bits (r_hold r)"
    and p: "pulled (code_bits table bits) r r1" and n: "code_bits table bits (r_hold r1) \<le> r_bits r1"
  shows "r_bits r1 < codelen_bits cl table bits (r_hold r1) + 8"
proof (cases "r_bits r1 = r_bits r")
  case True
  have h: "0 \<le> r_hold r1" "0 \<le> r_hold r" using p r(1) by (auto simp: pulled_def buffer_ok_def)
  have "r_hold r1 mod 2 ^ r_bits r1 = r_hold r mod 2 ^ r_bits r1" using p True r(1) by (simp add: pulled_def buffer_ok_def)
  then have "codelen_bits cl table bits (r_hold r) = codelen_bits cl table bits (r_hold r1)"
    using codelen_bits_stable [OF t h(2,1) _ n] by simp
  then show ?thesis using r(2) True by auto
next
  case False
  then have "r_bits r1 - code_bits table bits (r_hold r1) < 8" using pulled_leftover(1) [OF t p r(1) n] by simp
  then show ?thesis using code_bits_le_codelen [of table bits "r_hold r1" cl] by simp
qed

lemma needbits_extra:
  assumes t: "table_for CODES cl table bits" and r: "buffer_ok r" "r_bits r < 8 \<or> r_bits r < codelen_bits cl table bits (r_hold r)"
    and p: "pulled (code_bits table bits) r r1" and n: "code_bits table bits (r_hold r1) \<le> r_bits r1"
    and N: "codelen_bits cl table bits (r_hold r1) = N"
  shows "case needbits N r1 of
      Inl r' \<Rightarrow> same_but_buffer r r' \<and> buffer_ok r' \<and> r_have r' = 0 \<and> r_bits r' < codelen_bits cl table bits (r_hold r') \<and>
        r_bits r' < N \<and> (\<forall>F. bitstream r' F = bitstream r F)
    | Inr r' \<Rightarrow> same_but_buffer r r' \<and> buffer_ok r' \<and> N \<le> r_bits r' \<and> r_bits r' < N + 8 \<and> r_bits r1 \<le> r_bits r' \<and>
        (\<forall>F. bitstream r' F = bitstream r F)"
proof -
  have P: "same_but_buffer r r1" "buffer_ok r1" "\<And>F. bitstream r1 F = bitstream r F" using p by (auto simp: pulled_def)
  have N24: "N \<le> 24" using codelen_bits_le [OF t, of "r_hold r1"] N by simp
  show ?thesis
  proof (cases "needbits N r1")
    case (Inl r')
    note M = needbits_Inl [OF Inl P(2) N24]
    have "r_hold r' mod 2 ^ r_bits r1 = r_hold r1" using hold_stable [OF P(2) M(2,4,6)] .
    then have "codelen_bits cl table bits (r_hold r') = N"
      using codelen_bits_stable [OF t, of "r_hold r'" "r_hold r1" "r_bits r1"] M(2) n N P(2) by (simp add: buffer_ok_def)
    then show ?thesis using Inl M P same_but_buffer_trans [OF P(1) M(1)] by simp
  next
    case (Inr r')
    note M = needbits_Inr [OF Inr P(2) N24]
    have "r_bits r1 < N + 8" using pulled_extra [OF t r p n] N by simp
    then show ?thesis using Inr M P same_but_buffer_trans [OF P(1) M(1)] by auto
  qed
qed

section \<open>Filling in lengths\<close>

lemma fill_lens_ok:
  assumes "buffer_ok r" "i_have (r_state r) + n \<le> length (i_lens (r_state r))"
  shows "lens_step r (fill_lens n l r)" "i_have (r_state (fill_lens n l r)) = i_have (r_state r) + n"
    "take (i_have (r_state r) + n) (i_lens (r_state (fill_lens n l r))) = take (i_have (r_state r)) (i_lens (r_state r)) @ replicate n l"
    "bitstream (fill_lens n l r) F = bitstream r F" "r_bits (fill_lens n l r) = r_bits r" "r_have (fill_lens n l r) = r_have r"
proof -
  let ?h = "i_have (r_state r)" and ?f = "\<lambda>r. upd_state (\<lambda>s. s\<lparr>i_lens := (i_lens s)[i_have s := l], i_have := i_have s + 1\<rparr>) r"
  have "lens_step r ((?f ^^ n) r) \<and> i_have (r_state ((?f ^^ n) r)) = ?h + n \<and>
      take (?h + n) (i_lens (r_state ((?f ^^ n) r))) = take ?h (i_lens (r_state r)) @ replicate n l \<and>
      bitstream ((?f ^^ n) r) F = bitstream r F \<and> r_bits ((?f ^^ n) r) = r_bits r \<and> r_have ((?f ^^ n) r) = r_have r"
    using assms(2)
  proof (induction n)
    case 0
    then show ?case using assms(1) by (simp add: lens_step_refl)
  next
    case (Suc n)
    let ?r = "(?f ^^ n) r"
    from Suc have IH: "lens_step r ?r" "i_have (r_state ?r) = ?h + n" "take (?h + n) (i_lens (r_state ?r)) = take ?h (i_lens (r_state r)) @ replicate n l"
      "bitstream ?r F = bitstream r F" "r_bits ?r = r_bits r" "r_have ?r = r_have r" by auto
    note S = lens_step_state [OF IH(1)]
    have "lens_step ?r (?f ?r)" unfolding lens_step_def using S(3)
      by (intro conjI exI [of _ "(i_lens (r_state ?r))[i_have (r_state ?r) := l]"] exI [of _ "i_have (r_state ?r) + 1"]) (simp_all add: same_but_buffer_def)
    then have "lens_step r (?f ?r)" by (rule lens_step_trans [OF IH(1)])
    moreover have "take (?h + Suc n) (i_lens (r_state (?f ?r))) = take ?h (i_lens (r_state r)) @ replicate (Suc n) l"
      using Suc.prems S(2) IH(2,3) by (simp add: take_Suc_conv_app_nth replicate_append_same)
    ultimately show ?case using IH by (simp only: funpow.simps o_apply) simp
  qed
  then show "lens_step r (fill_lens n l r)" "i_have (r_state (fill_lens n l r)) = i_have (r_state r) + n"
    "take (i_have (r_state r) + n) (i_lens (r_state (fill_lens n l r))) = take (i_have (r_state r)) (i_lens (r_state r)) @ replicate n l"
    "bitstream (fill_lens n l r) F = bitstream r F" "r_bits (fill_lens n l r) = r_bits r" "r_have (fill_lens n l r) = r_have r"
    by (simp_all add: fill_lens_def)
qed

definition codelen_goes :: "nat list \<Rightarrow> int list \<Rightarrow> run \<Rightarrow> run \<Rightarrow> bool" where
  "codelen_goes cl G r r' \<longleftrightarrow> run_bits r' < run_bits r \<and>
     ((\<exists>msg r2. r' = bad msg r2 \<and> lens_step r r2 \<and> (\<forall>F. to_come cl (r_state r) (bitstream r F) G = None)) \<or>
      lens_step r r' \<and> codelens_ok cl (r_state r') \<and> r_bits r' < 8 \<and>
        (\<forall>F. to_come cl (r_state r') (bitstream r' F) G = to_come cl (r_state r) (bitstream r F) G))"

lemma codelen_bad:
  assumes "same_but_buffer r r2" "buffer_ok r2" "run_bits r2 < run_bits r" "\<And>F. to_come cl (r_state r) (bitstream r F) G = None"
  shows "codelen_goes cl G r (bad msg r2)"
  unfolding codelen_goes_def using assms lens_step_buffer [OF assms(1,2)] by auto

lemma codelen_fill:
  assumes m: "i_mode (r_state r) = CODELENS" and ok: "codelens_ok cl (r_state r)" and len: "length (i_lens (r_state r)) = 320"
    and r2: "same_but_buffer r r2" "buffer_ok r2" "r_bits r2 < 8" "run_bits r2 < run_bits r"
    and n: "i_have (r_state r) + n \<le> i_nlen (r_state r) + i_ndist (r_state r)" "l \<le> 15" "(\<forall>l \<in> set cl. l = 0) \<longrightarrow> l = 0"
    and eq: "\<And>F. to_come cl (r_state r) (bitstream r F) G = tables_rest (r_state r) G
      (ref_codelens cl (i_nlen (r_state r) + i_ndist (r_state r)) (bitstream r2 F) (take (i_have (r_state r)) (i_lens (r_state r)) @ replicate n l))"
  shows "codelen_goes cl G r (fill_lens n l r2)"
proof -
  let ?s = "r_state r" and ?r' = "fill_lens n l r2"
  have s2: "r_state r2 = ?s" using r2(1) by (simp add: same_but_buffer_def)
  have "i_nlen ?s + i_ndist ?s \<le> 316" using ok by (simp add: codelens_ok_def counts_ok_def)
  then have room: "i_have (r_state r2) + n \<le> length (i_lens (r_state r2))" using n(1) len s2 by simp
  note F = fill_lens_ok [OF r2(2) room]
  have st: "lens_step r ?r'" using lens_step_trans [OF lens_step_buffer [OF r2(1,2)] F(1)] .
  note S = lens_step_state [OF st]
  have sel: "i_nlen (r_state ?r') = i_nlen ?s" "i_ndist (r_state ?r') = i_ndist ?s" "i_lencode (r_state ?r') = i_lencode ?s"
    "i_lendyn (r_state ?r') = i_lendyn ?s" "i_lenbits (r_state ?r') = i_lenbits ?s" "i_last (r_state ?r') = i_last ?s"
    "i_dmax (r_state ?r') = i_dmax ?s" by (subst S(1), simp)+
  have acc: "take (i_have (r_state ?r')) (i_lens (r_state ?r')) = take (i_have ?s) (i_lens ?s) @ replicate n l"
    using F(2,3) s2 by simp
  have "codelens_ok cl (r_state ?r')" using ok n F(2) s2 unfolding codelens_ok_def acc counts_ok_def sel by auto
  moreover have "to_come cl (r_state ?r') (bitstream ?r' F) G = to_come cl ?s (bitstream r F) G" for F
  proof -
    have "tables_rest (r_state ?r') G y = tables_rest ?s G y" for y by (rule rest_cong) (simp_all add: sel)
    then show ?thesis unfolding eq using S(8) m F(4) acc by (simp add: to_come_simps sel)
  qed
  ultimately show ?thesis unfolding codelen_goes_def using st F(5,6) r2(3,4) by auto
qed

text \<open>A code without symbols.\<close>

lemma decode_zero: "\<forall>l \<in> set cl. l = 0 \<Longrightarrow> decode cl v = None"
proof (rule ccontr)
  assume z: "\<forall>l \<in> set cl. l = 0" and "decode cl v \<noteq> None"
  then obtain s where "s < length cl" "0 < cl ! s" using decode_SomeD by blast
  then show False using z nth_mem by fastforce
qed

lemma codelens_zero:
  assumes "\<forall>l \<in> set cl. l = 0" "\<forall>l \<in> set acc. l = 0" "256 < goal" "length acc \<le> goal"
  shows "tables_rest s G (ref_codelens cl goal b acc) = None"
proof (cases "length acc < goal")
  case True
  have "ref_symbol cl b = None" using decode_zero [OF assms(1)] by (simp add: ref_symbol_def split: prod.split)
  then show ?thesis using True by (subst ref_codelens.simps) (simp add: tables_rest_def)
next
  case False
  then have "acc ! 256 = 0" using assms(2-4) by simp
  then show ?thesis using False by (subst ref_codelens.simps) (simp add: tables_rest_def ref_tables_def)
qed

lemma decode_complete:
  assumes t: "table_for CODES cl table bits" and a: "acceptable False cl" and d: "decode cl v = None"
  shows "\<forall>l \<in> set cl. l = 0"
proof (rule ccontr)
  assume n: "\<not> (\<forall>l \<in> set cl. l = 0)"
  then have "share (\<lambda>s. cl ! s) (length cl) = 2 ^ 15" using a by (auto simp: acceptable_def)
  moreover have "code_ok cl" using t by (simp add: table_for_def)
  ultimately show False using no_code_complete [OF code_okD(1)] d by blast
qed

section \<open>One turn\<close>

lemma ref_repeat_read:
  assumes "v < 19" "take_bits (extra_bits v) b = Some (x, b2)"
  shows "ref_repeat v goal b acc = (if v < 16 then Some (acc @ [v], b) else if v = 16 \<and> acc = [] then None
    else let n = (if v = 18 then 11 else 3) + x; l = (if v = 16 then last acc else 0)
         in if length acc + n \<le> goal then Some (acc @ replicate n l, b2) else None)"
proof -
  have "v < 16 \<or> v = 16 \<or> v = 17 \<or> v = 18" using assms(1) by linarith
  then show ?thesis using assms(2) by (auto simp: ref_repeat_def extra_bits_def with_extra_def Let_def)
qed

lemma ref_repeat_short:
  assumes "16 \<le> v" "v < 19" "fst b < extra_bits v"
  shows "ref_repeat v goal b acc = None"
proof -
  have "v = 16 \<or> v = 17 \<or> v = 18" using assms by linarith
  then show ?thesis using assms(3) by (auto simp: ref_repeat_def extra_bits_def with_extra_def take_bits_short)
qed

lemma read_codelen_eq:
  assumes "pull_code (first_entry (len_table (r_fixed r) (r_state r)) (i_lenbits (r_state r))) 0 r = Inr (here, r1)" "here_val here = v" "v < 19"
  shows "read_codelen r =
    (if v < 16 then Inr (fill_lens 1 v (drop_bits (here_bits here) r1))
     else case needbits (here_bits here + extra_bits v) r1 of
            Inl r \<Rightarrow> Inl r
          | Inr r2 \<Rightarrow>
              let r = drop_bits (here_bits here) r2; s = r_state r
              in if v = 16 \<and> i_have s = 0 then Inr (bad ''invalid bit length repeat'' r)
                 else Inr (repeat_lens ((if v = 18 then 11 else 3) + bits_of (extra_bits v) r)
                   (if v = 16 then i_lens s ! (i_have s - 1) else 0) (drop_bits (extra_bits v) r)))"
proof -
  have "v < 16 \<or> v = 16 \<or> v = 17 \<or> v = 18" using assms(3) by linarith
  then show ?thesis using assms(1,2) by (elim disjE) (simp_all add: read_codelen_def extra_bits_def Let_def split: sum.split)
qed

text \<open>A turn either fails for want of input or reads what the specification reads.\<close>

lemma ref_codelens_next:
  assumes "length acc < goal" "ref_symbol cl b = Some (v, b1)"
  shows "ref_codelens cl goal b acc = (case ref_repeat v goal b1 acc of None \<Rightarrow> None | Some (acc, b) \<Rightarrow> ref_codelens cl goal b acc)"
  using assms by (subst ref_codelens.simps) simp

lemma read_codelen_ok:
  assumes buf: "buffer_ok r" and m: "i_mode (r_state r) = CODELENS" and ok: "codelens_ok cl (r_state r)" and len: "length (i_lens (r_state r)) = 320"
    and lean: "r_bits r < 8 \<or> r_bits r < codelen_bits cl (i_lendyn (r_state r)) (i_lenbits (r_state r)) (r_hold r)"
    and more: "i_have (r_state r) < i_nlen (r_state r) + i_ndist (r_state r)"
  shows "case read_codelen r of
      Inl r' \<Rightarrow> same_but_buffer r r' \<and> buffer_ok r' \<and> r_have r' = 0 \<and>
        r_bits r' < codelen_bits cl (i_lendyn (r_state r)) (i_lenbits (r_state r)) (r_hold r') \<and> (\<forall>F. bitstream r' F = bitstream r F) \<and>
        to_come cl (r_state r) (bitstream r []) G = None
    | Inr r' \<Rightarrow> codelen_goes cl G r r'"
proof -
  let ?s = "r_state r"
  let ?table = "i_lendyn ?s" and ?bits = "i_lenbits ?s" and ?goal = "i_nlen ?s + i_ndist ?s" and ?acc = "take (i_have ?s) (i_lens ?s)"
  have C: "counts_ok ?s" "i_lencode ?s = Dynamic" "table_for CODES cl ?table ?bits" "acceptable False cl" "\<forall>l \<in> set cl. l \<le> ?bits"
    using ok by (auto simp: codelens_ok_def)
  have goal: "256 < ?goal" "?goal \<le> 316" using C(1) by (auto simp: counts_ok_def)
  have acc: "length ?acc = i_have ?s" using goal more len by simp
  have tc: "to_come cl ?s b G = tables_rest ?s G (ref_codelens cl ?goal b ?acc)" for b using m by (simp add: to_come_simps)
  have table: "len_table (r_fixed r) ?s = ?table" using C(2) by (simp add: len_table_def)
  note pull = pull_short [OF C(3,5) buf]
  show ?thesis
  proof (cases "pull_code (first_entry ?table ?bits) 0 r")
    case (Inl r')
    then have P: "pulled (code_bits ?table ?bits) r r'" "r_have r' = 0" "r_bits r' < code_bits ?table ?bits (r_hold r')" using pull by auto
    have Q: "same_but_buffer r r'" "buffer_ok r'" "\<And>F. bitstream r' F = bitstream r F" using P(1) by (auto simp: pulled_def)
    have "ref_symbol cl (bitstream r []) = None" using code_pending [OF C(3) Q(2) P(2,3)] Q(3) by simp
    then have "to_come cl ?s (bitstream r []) G = None" using more acc unfolding tc by (subst ref_codelens.simps) (simp add: tables_rest_def)
    moreover have "r_bits r' < codelen_bits cl ?table ?bits (r_hold r')" using P(3) code_bits_le_codelen by (rule less_le_trans)
    ultimately show ?thesis using Inl P Q table by (simp add: read_codelen_def)
  next
    case (Inr x)
    obtain here r1 where x: "x = (here, r1)" by fastforce
    then have P: "pulled (code_bits ?table ?bits) r r1" "lookup_code ?table ?bits (nat (r_hold r1)) = (here_bits here, here)"
      "here_bits here = code_bits ?table ?bits (r_hold r1)" "here_bits here \<le> r_bits r1" using pull Inr by auto
    have pc: "pull_code (first_entry (len_table (r_fixed r) ?s) ?bits) 0 r = Inr (here, r1)" using Inr x table by simp
    have Q: "same_but_buffer r r1" "buffer_ok r1" "\<And>F. bitstream r1 F = bitstream r F" using P(1) by (auto simp: pulled_def)
    have pos: "0 < here_bits here" "here_bits here \<le> 15" using lookup_bounds [OF C(3), of "nat (r_hold r1)"] P(2) by simp_all
    note D = drop_run [OF Q(2) P(4)]
    have b1: "same_but_buffer r (drop_bits (here_bits here) r1)" "run_bits (drop_bits (here_bits here) r1) < run_bits r"
      using same_but_buffer_trans [OF Q(1) D(1)] D(3) same_bits [OF Q(3)] P(4) pos by auto
    have n1: "code_bits ?table ?bits (r_hold r1) \<le> r_bits r1" using P(3,4) by simp
    have bound: "codelen_bits cl ?table ?bits (r_hold r1) \<le> 24" "r_bits r1 < codelen_bits cl ?table ?bits (r_hold r1) + 8"
      using codelen_bits_le [OF C(3), of "r_hold r1"] pulled_extra [OF C(3) buf lean P(1) n1] by simp_all
    show ?thesis
    proof (cases "decode cl (nat (r_hold r1))")
      case None
      note z = decode_complete [OF C(3,4) None]
      have "here = table_entry 1 64 0" using table_for_None(1) [OF C(3) None] P(2) by simp
      then have h: "here_bits here = 1" "here_val here = 0" by (simp_all only: invalid_entry)
      have e: "read_codelen r = Inr (fill_lens 1 0 (drop_bits (here_bits here) r1))" using read_codelen_eq [OF pc h(2)] by simp
      have az: "\<forall>l \<in> set ?acc. l = 0" using ok z by (simp add: codelens_ok_def)
      have "codelen_goes cl G r (fill_lens 1 0 (drop_bits (here_bits here) r1))"
      proof (rule codelen_fill [OF m ok len b1(1) D(2) _ b1(2)])
        show "r_bits (drop_bits (here_bits here) r1) < 8" using bound(2) codelen_bits_None [OF None] P(3) h(1) by (simp add: drop_bits_sel)
        show "to_come cl ?s (bitstream r F) G =
            tables_rest ?s G (ref_codelens cl ?goal (bitstream (drop_bits (here_bits here) r1) F) (?acc @ replicate 1 0))" for F
        proof -
          have "\<forall>l \<in> set (?acc @ replicate 1 0). l = 0" "length (?acc @ replicate 1 0) \<le> ?goal" "length ?acc \<le> ?goal" using az acc more by auto
          then show ?thesis unfolding tc using codelens_zero [OF z _ goal(1)] az by metis
        qed
      qed (use more in simp_all)
      then show ?thesis using e by simp
    next
      case (Some v)
      note V = pulled_value [OF C(3) buf P(1,2,4) Some]
      note e = read_codelen_eq [OF pc V(1,2)]
      have N: "codelen_bits cl ?table ?bits (r_hold r1) = here_bits here + extra_bits v" using codelen_bits_Some [OF Some] P(3) by simp
      have less: "length ?acc < ?goal" using acc more by simp
      note nxt = ref_codelens_next [OF less V(3)]
      show ?thesis
      proof (cases "v < 16")
        case True
        have rr: "ref_repeat v ?goal b ?acc = Some (?acc @ replicate 1 v, b)" for b using True by (simp add: ref_repeat_def)
        have "codelen_goes cl G r (fill_lens 1 v (drop_bits (here_bits here) r1))"
        proof (rule codelen_fill [OF m ok len b1(1) D(2) _ b1(2)])
          show "r_bits (drop_bits (here_bits here) r1) < 8" using bound(2) N True by (simp add: drop_bits_sel extra_bits_def)
          show "(\<forall>l \<in> set cl. l = 0) \<longrightarrow> v = 0" using decode_zero Some by fastforce
          show "to_come cl ?s (bitstream r F) G =
              tables_rest ?s G (ref_codelens cl ?goal (bitstream (drop_bits (here_bits here) r1) F) (?acc @ replicate 1 v))" for F
            unfolding tc nxt rr by simp
        qed (use more True in simp_all)
        then show ?thesis using e True by simp
      next
        case False
        then have v: "16 \<le> v" by simp
        let ?hb = "here_bits here" and ?x = "extra_bits v"
        note extra = needbits_extra [OF C(3) buf lean P(1) n1 N]
        show ?thesis
        proof (cases "needbits (?hb + ?x) r1")
          case (Inl r')
          then have I: "same_but_buffer r r'" "buffer_ok r'" "r_have r' = 0" "r_bits r' < codelen_bits cl ?table ?bits (r_hold r')"
            "r_bits r' < ?hb + ?x" "\<And>F. bitstream r' F = bitstream r F" using extra by auto
          have "fst (bitstream (drop_bits ?hb r1) []) + ?hb = r_bits r'"
            using same_bits [OF I(6)] same_bits [OF Q(3)] D(3) P(4) I(3) by simp
          then have "fst (bitstream (drop_bits ?hb r1) []) < ?x" using I(5) by linarith
          then have "to_come cl ?s (bitstream r []) G = None" unfolding tc nxt using ref_repeat_short [OF v V(2)] by (simp add: tables_rest_def)
          then show ?thesis using e False Inl I by simp
        next
          case (Inr r2)
          then have I: "same_but_buffer r r2" "buffer_ok r2" "?hb + ?x \<le> r_bits r2" "r_bits r2 < ?hb + ?x + 8" "r_bits r1 \<le> r_bits r2"
            "\<And>F. bitstream r2 F = bitstream r F" using extra by auto
          define r3 where "r3 = drop_bits ?hb r2"
          define r4 where "r4 = drop_bits ?x r3"
          define xv where "xv = bits_of ?x r3"
          define n where "n = (if v = 18 then 11 else 3) + xv"
          define l where "l = (if v = 16 then i_lens ?s ! (i_have ?s - 1) else 0)"
          have hb: "?hb \<le> r_bits r2" "?x \<le> r_bits r3" using I(3) by (simp_all add: r3_def drop_bits_sel)
          note D3 = drop_run [OF I(2) hb(1), folded r3_def]
          note D4 = drop_run [OF D3(2) hb(2), folded r4_def xv_def]
          have fr: "same_but_buffer r r3" "same_but_buffer r r4" using I(1) D3(1) D4(1) same_but_buffer_trans by blast+
          have s: "r_state r3 = ?s" "r_state r4 = ?s" using fr by (simp_all add: same_but_buffer_def)
          have b4: "r_bits r4 < 8" "run_bits r4 < run_bits r" "run_bits r3 < run_bits r"
            using D4(3) D3(3) I(3,4) same_bits [OF I(6)] pos hb by (simp_all add: r4_def r3_def drop_bits_sel)
          have b3: "bitstream (drop_bits ?hb r1) F = bitstream r3 F" for F using D(4) [of F] D3(4) [of F] Q(3) [of F] I(6) [of F] by simp
          have lst: "l = last ?acc" if "v = 16" "?acc \<noteq> []"
          proof -
            have "0 < i_have ?s" using that(2) by auto
            then have "?acc ! (i_have ?s - 1) = i_lens ?s ! (i_have ?s - 1)" by (intro nth_take) simp
            then show ?thesis using that(1) last_conv_nth [OF that(2)] unfolding acc by (simp add: l_def)
          qed
          have l15: "l \<le> 15" if "\<not> (v = 16 \<and> ?acc = [])"
          proof (cases "v = 16")
            case True
            then have "l \<in> set ?acc" using lst that last_in_set by metis
            then show ?thesis using ok by (simp add: codelens_ok_def)
          qed (simp add: l_def)
          have val: "to_come cl ?s (bitstream r F) G = (if v = 16 \<and> ?acc = [] then None else
              if i_have ?s + n \<le> ?goal then tables_rest ?s G (ref_codelens cl ?goal (bitstream r4 F) (?acc @ replicate n l)) else None)" for F
          proof -
            define A where "A = ?acc"
            have A: "length A = i_have ?s" "v = 16 \<Longrightarrow> A \<noteq> [] \<Longrightarrow> l = last A" unfolding A_def using acc lst by blast+
            have "v \<noteq> 16 \<Longrightarrow> l = 0" by (simp add: l_def)
            then have "ref_repeat v ?goal (bitstream r3 F) A = (if v = 16 \<and> A = [] then None
                else if i_have ?s + n \<le> ?goal then Some (A @ replicate n l, bitstream r4 F) else None)"
              unfolding ref_repeat_read [OF V(2) D4(4)] using False A by (simp add: n_def Let_def)
            then show ?thesis unfolding tc nxt b3 unfolding A_def [symmetric] by (simp add: tables_rest_def)
          qed
          have a0: "?acc = [] \<longleftrightarrow> i_have ?s = 0" using acc by (metis length_0_conv)
          have e': "read_codelen r = Inr (if v = 16 \<and> i_have ?s = 0 then bad ''invalid bit length repeat'' r3 else repeat_lens n l r4)"
            using e False Inr by (simp add: Let_def r3_def [symmetric] s r4_def [symmetric] xv_def [symmetric] n_def l_def)
          have goes1: "codelen_goes cl G r (bad ''invalid bit length repeat'' r3)" if "v = 16" "i_have ?s = 0"
            using codelen_bad [OF fr(1) D3(2) b4(3)] val that a0 by simp
          have goes2: "codelen_goes cl G r (repeat_lens n l r4)" if c: "\<not> (v = 16 \<and> i_have ?s = 0)"
          proof (cases "i_have ?s + n \<le> ?goal")
            case True
            have "codelen_goes cl G r (fill_lens n l r4)"
            proof (rule codelen_fill [OF m ok len fr(2) D4(2) b4(1,2) True])
              show "l \<le> 15" using l15 c a0 by blast
              show "(\<forall>l \<in> set cl. l = 0) \<longrightarrow> l = 0" using decode_zero Some by fastforce
              show "to_come cl ?s (bitstream r F) G = tables_rest ?s G (ref_codelens cl ?goal (bitstream r4 F) (?acc @ replicate n l))" for F
                unfolding val [unfolded a0] if_not_P [OF c] if_P [OF True] ..
            qed
            then show ?thesis using True by (simp add: repeat_lens_def s)
          next
            case False
            then show ?thesis using codelen_bad [OF fr(2) D4(2) b4(2)] val by (simp add: repeat_lens_def s)
          qed
          show ?thesis unfolding e' using goes1 goes2 by (cases "v = 16 \<and> i_have ?s = 0") simp_all
        qed
      qed
    qed
  qed
qed

end
