(* ===== verification/InflateEnough.thy ===== *)
theory InflateEnough
  imports InflateTables
begin

text \<open>
  The arrays for the tables of a dynamic block have \<open>ENOUGH_LENS\<close> and \<open>ENOUGH_DISTS\<close> elements, numbers
  that zlib takes from a program that tries all codes. Here it is proved that they are enough: for a
  complete code of at most 286 lengths and a root table of 9 bits, or 30 distances and 6 bits, root table
  and sub-tables together never need more.

  A sub-table whose codes have from \<open>a\<close> to \<open>c\<close> bits beyond the root's has at least \<open>2 ^ a + c - a\<close> symbols.
  So what all sub-tables have in excess of one element for each of their symbols is at most
  \<open>2 ^ c - c - 1\<close>, with \<open>c\<close> the length of the last. As few symbols with short codes leave
  no room for long ones, and the sizes are even, this is within the constants.
\<close>

section \<open>The symbols of a sub-table\<close>

lemma leaves_least:
  fixes N :: "nat \<Rightarrow> nat"
  assumes "a \<le> b" "(\<Sum>l = a..b. N l * 2 ^ (b - l)) = 2 ^ (b - r)" "0 < N b" "r \<le> a"
  shows "2 ^ (a - r) + b \<le> (\<Sum>l = a..b. N l) + a"
  using assms
proof (induction b arbitrary: N rule: dec_induct)
  case (step b)
  have s: "(\<Sum>l = a..b. N l * 2 ^ (Suc b - l)) = 2 * (\<Sum>l = a..b. N l * 2 ^ (b - l))"
    by (subst sum_distrib_left) (rule sum.cong, simp_all add: Suc_diff_le)
  have p: "(2 :: nat) ^ (Suc b - r) = 2 * 2 ^ (b - r)" using step.hyps step.prems(3) by (simp add: Suc_diff_le)
  have e: "2 * (\<Sum>l = a..b. N l * 2 ^ (b - l)) + N (Suc b) = 2 * 2 ^ (b - r)"
    using step.prems(1) step.hyps s p by simp
  then have "even (2 * (\<Sum>l = a..b. N l * 2 ^ (b - l)) + N (Suc b))" by simp
  then obtain M where M: "N (Suc b) = 2 * M" by auto
  let ?N = "N(b := N b + M)"
  have upd: "(\<Sum>l = a..b. ?N l * 2 ^ (b - l)) = (\<Sum>l = a..b. N l * 2 ^ (b - l)) + M" "(\<Sum>l = a..b. ?N l) = (\<Sum>l = a..b. N l) + M"
  proof -
    have "{a..b} = insert b {a..<b}" using step.hyps by auto
    then show "(\<Sum>l = a..b. ?N l * 2 ^ (b - l)) = (\<Sum>l = a..b. N l * 2 ^ (b - l)) + M" "(\<Sum>l = a..b. ?N l) = (\<Sum>l = a..b. N l) + M" by simp_all
  qed
  have "2 ^ (a - r) + b \<le> (\<Sum>l = a..b. ?N l) + a"
    by (rule step.IH) (use upd e M step.prems in auto)
  moreover have "0 < M" using M step.prems(2) by simp
  ultimately show ?case using upd(2) M step.hyps by simp
qed simp

lemma sub_table_bits_least:
  assumes "(left :: int) * 2 ^ (15 - (r + cur)) + (\<Sum>l = a..<r + cur. count ! l * 2 ^ (15 - l)) = 2 ^ (15 - r)" "max_len \<le> 15" "a \<le> r + cur"
  shows "sub_table_bits count max_len r cur left = cur \<or>
    (\<Sum>l = a..<r + sub_table_bits count max_len r cur left. count ! l * 2 ^ (15 - l)) < 2 ^ (15 - r)"
  using assms
proof (induction count max_len r cur left rule: sub_table_bits.induct)
  case (1 count max_len r cur left)
  let ?left = "left - count ! (cur + r)"
  show ?case
  proof (cases "cur + r < max_len \<and> \<not> ?left \<le> 0")
    case True
    have e: "?left * 2 ^ (15 - (r + cur)) + (\<Sum>l = a..<r + cur + 1. count ! l * 2 ^ (15 - l)) = (2::int) ^ (15 - r)"
      using "1.prems" by (simp add: algebra_simps)
    have p: "(2::int) ^ (15 - (r + cur)) = 2 * 2 ^ (15 - (r + (cur + 1)))"
    proof -
      have "15 - (r + cur) = Suc (15 - (r + (cur + 1)))" using True "1.prems"(2) by linarith
      then show ?thesis by simp
    qed
    have e2: "2 * ?left * 2 ^ (15 - (r + (cur + 1))) + (\<Sum>l = a..<r + (cur + 1). count ! l * 2 ^ (15 - l)) = (2::int) ^ (15 - r)"
      using e unfolding p by (simp add: algebra_simps)
    have s: "sub_table_bits count max_len r cur left = sub_table_bits count max_len r (cur + 1) (2 * ?left)"
      using True by (subst sub_table_bits.simps) (simp add: Let_def)
    have "0 < ?left * 2 ^ (15 - (r + cur))" using True by simp
    then have lt: "(\<Sum>l = a..<r + (cur + 1). count ! l * 2 ^ (15 - l)) < (2::int) ^ (15 - r)" using e by simp
    have "sub_table_bits count max_len r (cur + 1) (2 * ?left) = cur + 1 \<or>
        (\<Sum>l = a..<r + sub_table_bits count max_len r (cur + 1) (2 * ?left). count ! l * 2 ^ (15 - l)) < 2 ^ (15 - r)"
      by (rule "1.IH" [OF _ refl _ e2]) (use True "1.prems" in auto)
    then show ?thesis unfolding s using lt by auto
  next
    case False
    then have "sub_table_bits count max_len r cur left = cur" by (subst sub_table_bits.simps) (auto simp: Let_def)
    then show ?thesis by simp
  qed
qed

lemma starts_segment: "i \<le> j \<Longrightarrow> starts f ws j = starts f ws i + sum_list (map (\<lambda>s. 2 ^ (15 - f s)) (take (j - i) (drop i ws)))"
  using take_add [of i "j - i" ws] by (simp add: starts_def)

lemma dvd_step: "(d :: nat) dvd x \<Longrightarrow> d dvd B \<Longrightarrow> x < B \<Longrightarrow> x + d \<le> B"
proof -
  assume a: "d dvd x" "d dvd B" "x < B"
  then have "d dvd B - x" "0 < B - x" by (simp_all add: dvd_diff_nat)
  then have "d \<le> B - x" by (rule dvd_imp_le)
  then show ?thesis using a(3) by simp
qed

text \<open>The symbols that go to one sub-table: they fill it, and the last of them has its length.\<close>

lemma sub_table_exact:
  assumes p: "prefix_code f ws" "i < length ws" "r < f (ws ! i)" and count: "\<forall>l \<in> {1..15}. count ! l = int (rest f ws i l)"
    and mx: "max_len \<le> 15" "\<forall>k < length ws. f (ws ! k) \<le> max_len"
    and full: "starts f ws (length ws) = 2 ^ 15" and al: "2 ^ (15 - r) dvd starts f ws i"
  defines "c \<equiv> sub_table_bits count max_len r (f (ws ! i) - r) (2 ^ (f (ws ! i) - r))"
  shows "\<exists>j. i < j \<and> j \<le> length ws \<and> starts f ws j = starts f ws i + 2 ^ (15 - r) \<and> f (ws ! (j - 1)) = r + c \<and>
    2 ^ (f (ws ! i) - r) + r + c \<le> j - i + f (ws ! i)"
proof -
  let ?a = "f (ws ! i)" and ?B = "starts f ws i + 2 ^ (15 - r)"
  have a: "?a \<le> 15" "r \<le> 15" "1 \<le> ?a" using prefix_codeD(1,2) [OF p(1,2)] p(3) by auto
  have B: "2 ^ (15 - r) dvd ?B" using al by simp
  have "(2 :: nat) ^ (15 - r) dvd 2 ^ 15" by (rule le_imp_power_dvd) simp
  then have "?B \<le> 2 ^ 15" using al starts_less [OF p(1,2)] by (intro dvd_step)
  define j where "j = (LEAST k. ?B \<le> starts f ws k)"
  have ex: "?B \<le> starts f ws (length ws)" using \<open>?B \<le> 2 ^ 15\<close> full by simp
  have jB: "?B \<le> starts f ws j" "j \<le> length ws" using LeastI [of "\<lambda>k. ?B \<le> starts f ws k", OF ex] Least_le [of "\<lambda>k. ?B \<le> starts f ws k", OF ex]
    by (simp_all add: j_def)
  have ij: "i < j"
  proof (rule ccontr)
    assume "\<not> i < j"
    then have "starts f ws j \<le> starts f ws i" by (intro starts_mono) simp
    moreover have "starts f ws i < ?B" by simp
    ultimately show False using jB(1) by linarith
  qed
  have k: "j - 1 < length ws" "Suc (j - 1) = j" "i \<le> j - 1" using ij jB(2) by auto
  have lt: "starts f ws (j - 1) < ?B" using not_less_Least [of "j - 1" "\<lambda>k. ?B \<le> starts f ws k"] k by (simp add: j_def [symmetric] not_le)
  let ?l = "f (ws ! (j - 1))"
  have l: "?a \<le> ?l" "?l \<le> 15" using prefix_codeD(3) [OF p(1,2) k(3,1)] prefix_codeD(2) [OF p(1) k(1)] by auto
  have "2 ^ (15 - ?l) dvd ?B" using B l p(3) by (meson dvd_trans le_imp_power_dvd diff_le_mono2 less_imp_le_nat less_le_trans)
  moreover have "2 ^ (15 - ?l) dvd starts f ws (j - 1)" using starts_aligned [OF p(1) k(1)] by blast
  ultimately have "starts f ws j \<le> ?B" using dvd_step lt starts_Suc [OF k(1), of f] k(2) by simp
  then have jeq: "starts f ws j = ?B" using jB(1) by simp
  have fit: "?a \<le> r + c" "r + c \<le> 15" "?l \<le> r + c"
  proof -
    have "starts f ws i \<le> starts f ws (j - 1)" using k(3) by (rule starts_mono)
    then have "starts f ws (j - 1) div 2 ^ (15 - r) = starts f ws i div 2 ^ (15 - r)"
      using lt al by (auto simp: dvd_def intro!: div_nat_eqI)
    then show "?a \<le> r + c" "r + c \<le> 15" "?l \<le> r + c" using sub_table_fits [OF p count mx] k unfolding c_def by auto
  qed
  let ?xs = "take (j - i) (drop i ws)"
  have seg: "sum_list (map (\<lambda>s. 2 ^ (15 - f s)) ?xs) = (2 :: nat) ^ (15 - r)" using starts_segment [of i j f ws] ij jeq by simp
  have len: "?a \<le> f s \<and> f s \<le> ?l" if si: "s \<in> set ?xs" for s
  proof -
    obtain m where m: "m < length ?xs" "s = ?xs ! m" using si unfolding in_set_conv_nth by blast
    then have "s = ws ! (i + m)" "i + m \<le> j - 1" "i + m < length ws" using jB(2) by auto
    then show ?thesis using prefix_codeD(3) [OF p(1,2)] prefix_codeD(3) [OF p(1), of "i + m" "j - 1"] k(1) by simp
  qed
  have lc: "?l = r + c"
  proof (rule ccontr)
    assume "?l \<noteq> r + c"
    then have small: "?l < r + c" using fit by simp
    have "c \<noteq> ?a - r" using small l(1) p(3) by auto
    moreover have "c = ?a - r \<or> (\<Sum>l = ?a..<r + c. count ! l * 2 ^ (15 - l)) < 2 ^ (15 - r)"
      unfolding c_def using p(3) a mx by (intro sub_table_bits_least) (simp_all flip: power_add)
    ultimately have "(\<Sum>l = ?a..<r + c. count ! l * 2 ^ (15 - l)) < 2 ^ (15 - r)" by simp
    moreover have "(\<Sum>l = ?a..<r + c. count ! l * 2 ^ (15 - l)) = (\<Sum>l = ?a..<r + c. int (rest f ws i l * 2 ^ (15 - l)))"
      using count fit a by (intro sum.cong) auto
    ultimately have "int (\<Sum>l = ?a..<r + c. rest f ws i l * 2 ^ (15 - l)) < int (2 ^ (15 - r))" by simp
    then have "(\<Sum>l = ?a..<r + c. rest f ws i l * 2 ^ (15 - l)) < 2 ^ (15 - r)" by (simp only: of_nat_less_iff)
    then have "sum_list (map (\<lambda>s. 2 ^ (15 - f s)) (filter (\<lambda>s. ?a \<le> f s \<and> f s < r + c) (drop i ws))) < (2 :: nat) ^ (15 - r)"
      unfolding rest_def rest_share .
    moreover have "drop i ws = ?xs @ drop j ws" using ij by (metis append_take_drop_id drop_drop le_add_diff_inverse2 less_imp_le_nat)
    moreover have "f s < r + c" if "s \<in> set ?xs" for s using len [OF that] small by linarith
    then have "filter (\<lambda>s. ?a \<le> f s \<and> f s < r + c) ?xs = ?xs" using len by (simp add: filter_id_conv)
    ultimately have "sum_list (map (\<lambda>s. (2 :: nat) ^ (15 - f s)) ?xs) < 2 ^ (15 - r)"
      by (metis (no_types, lifting) add_lessD1 filter_append map_append sum_list_append)
    then show False using seg by simp
  qed
  let ?N = "\<lambda>l. length (filter (\<lambda>s. f s = l) ?xs)"
  have all: "filter (\<lambda>s. ?a \<le> f s \<and> f s < Suc ?l) ?xs = ?xs" using len by (auto simp: filter_id_conv less_Suc_eq_le)
  have "(\<Sum>l = ?a..<Suc ?l. ?N l * 2 ^ (15 - l)) = 2 ^ (15 - r)" unfolding rest_share all seg ..
  then have "(\<Sum>l = ?a..?l. ?N l * 2 ^ (15 - l)) = 2 ^ (15 - r)" by (simp only: atLeastLessThanSuc_atLeastAtMost)
  moreover have "(\<Sum>l = ?a..?l. ?N l * 2 ^ (15 - l)) = (\<Sum>l = ?a..?l. ?N l * 2 ^ (?l - l)) * 2 ^ (15 - ?l)"
    by (subst sum_distrib_right) (rule sum.cong, use l(2) in \<open>simp_all flip: power_add\<close>)
  moreover have "(2 :: nat) ^ (15 - r) = 2 ^ (?l - r) * 2 ^ (15 - ?l)" using l p(3) by (simp flip: power_add)
  ultimately have "(\<Sum>l = ?a..?l. ?N l * 2 ^ (?l - l)) = 2 ^ (?l - r)" by simp
  moreover have "0 < ?N ?l"
  proof -
    have "ws ! (j - 1) = ?xs ! (j - 1 - i)" "j - 1 - i < length ?xs" using k ij jB(2) by auto
    then have "ws ! (j - 1) \<in> set (filter (\<lambda>s. f s = ?l) ?xs)" by (metis (mono_tags, lifting) mem_Collect_eq nth_mem set_filter)
    then show ?thesis by (metis length_pos_if_in_set)
  qed
  ultimately have "2 ^ (?a - r) + ?l \<le> (\<Sum>l = ?a..?l. ?N l) + ?a" using l(1) p(3) by (intro leaves_least) auto
  moreover have "(\<Sum>l = ?a..?l. ?N l) \<le> length ?xs"
  proof -
    have cnt: "(\<Sum>l \<in> A. length (filter (\<lambda>s. f s = l) ys)) \<le> length ys" if "finite A" for A and ys :: "nat list"
    proof (induction ys)
      case (Cons y ys)
      have "(\<Sum>l \<in> A. length (filter (\<lambda>s. f s = l) (y # ys))) = (\<Sum>l \<in> A. length (filter (\<lambda>s. f s = l) ys)) + (\<Sum>l \<in> A. if f y = l then 1 else 0)"
        by (subst sum.distrib [symmetric]) (rule sum.cong, simp_all)
      also have "(\<Sum>l \<in> A. if f y = l then 1 else 0 :: nat) \<le> 1" using that by (simp add: sum.delta)
      finally show ?case using Cons.IH by simp
    qed simp
    show ?thesis by (rule cnt) simp
  qed
  moreover have "length ?xs = j - i" using jB(2) by simp
  ultimately have "2 ^ (?a - r) + r + c \<le> j - i + ?a" using lc by simp
  then show ?thesis using ij jB(2) jeq lc by blast
qed

section \<open>The elements in use\<close>

text \<open>Before the \<open>i\<close>-th symbol; \<open>h\<close> symbols have short codes, and the current sub-table is for those before \<open>j\<close>.\<close>

definition spent_sub :: "(nat \<Rightarrow> nat) \<Rightarrow> nat list \<Rightarrow> nat \<Rightarrow> nat \<Rightarrow> nat \<Rightarrow> nat \<Rightarrow> table_build \<Rightarrow> bool" where
  "spent_sub f ws r h i j t \<longleftrightarrow> h \<le> i \<and> i < j \<and> j \<le> length ws \<and> (\<forall>k < h. f (ws ! k) \<le> r) \<and> r < f (ws ! h) \<and>
     starts f ws j = (starts f ws i div 2 ^ (15 - r) + 1) * 2 ^ (15 - r) \<and> f (ws ! (j - 1)) = r + tb_curr t \<and>
     even (tb_used t) \<and> tb_used t + tb_curr t + 1 \<le> 2 ^ r + (j - h) + 2 ^ tb_curr t"

definition spent :: "(nat \<Rightarrow> nat) \<Rightarrow> nat list \<Rightarrow> nat \<Rightarrow> nat \<Rightarrow> table_build \<Rightarrow> bool" where
  "spent f ws r i t \<longleftrightarrow> (if f (ws ! i) \<le> r then tb_used t = 2 ^ r else \<exists>h j. spent_sub f ws r h i j t)"

text \<open>No number of elements that is possible exceeds the constant.\<close>

definition within :: "code_type \<Rightarrow> (nat \<Rightarrow> nat) \<Rightarrow> nat list \<Rightarrow> nat \<Rightarrow> bool" where
  "within type f ws r \<longleftrightarrow> (\<forall>h c u. h < length ws \<and> (\<forall>k < h. f (ws ! k) \<le> r) \<and> r < f (ws ! h) \<and> r + c \<le> 15 \<and> even u \<and>
     u + c + 1 \<le> 2 ^ r + (length ws - h) + 2 ^ c \<longrightarrow> \<not> exceeds type u)"

lemma power_gap: "a \<le> b \<Longrightarrow> (2 :: nat) ^ a + b \<le> 2 ^ b + a"
proof (induction b rule: dec_induct)
  case (step b)
  have "1 \<le> (2 :: nat) ^ b" by simp
  then show ?case using step.IH unfolding power_Suc by linarith
qed simp

lemma new_sub_table_spent:
  assumes p: "prefix_code f ws" "Suc i < length ws" and r: "0 < r" and len: "tb_len t = f (ws ! Suc i)" and c: "counted f ws (Suc i) t"
    and fl: "filling f ws r i t" and sp: "spent f ws r i t" and mx: "max_len \<le> 15" "\<forall>k < length ws. f (ws ! k) \<le> max_len"
    and full: "starts f ws (length ws) = 2 ^ 15" and ok: "within type f ws r"
  shows "case new_sub_table type 0 r max_len t of Inl table \<Rightarrow> False | Inr t' \<Rightarrow> spent f ws r (Suc i) t'"
proof -
  let ?d = "(2 :: nat) ^ (15 - r)" and ?l = "f (ws ! Suc i)"
  have i: "i < length ws" "f (ws ! i) \<le> ?l" using p(2) prefix_codeD(3) [OF p(1), of i "Suc i"] by auto
  have S: "starts f ws (Suc i) = starts f ws i + 2 ^ (15 - f (ws ! i))" using starts_Suc i(1) by blast
  consider (short) "?l \<le> r" | (same) "r < ?l" "int (tb_huff t AND (2 ^ r - 1)) = tb_low t"
    | (new) "r < ?l" "int (tb_huff t AND (2 ^ r - 1)) \<noteq> tb_low t" by linarith
  then show ?thesis
  proof cases
    case short
    then have "new_sub_table type 0 r max_len t = Inr t" "tb_used t = 2 ^ r" using len sp i by (simp_all add: new_sub_table_def spent_def)
    then show ?thesis using short by (simp add: spent_def)
  next
    case same
    have r15: "r \<le> 15" using same(1) prefix_codeD(2) [OF p] by simp
    have low: "int (hcode f ws (Suc i) mod 2 ^ r) = tb_low t" using same(2) c by (simp only: counted_def nat_and_mask)
    then have "\<not> filling_root r t" by (auto simp: filling_root_def)
    then have fs: "filling_sub f ws r i t" "r < f (ws ! i)" using fl by (auto simp: filling_def split: if_splits)
    then have m: "hcode f ws i mod 2 ^ r = hcode f ws (Suc i) mod 2 ^ r" using low by (simp add: filling_sub_def)
    then have q: "starts f ws i div ?d = starts f ws (Suc i) div ?d" by (rule hcode_mod_eq [OF p(1) i(1) p(2) r15])
    obtain h j where hj: "spent_sub f ws r h i j t" using sp fs(2) by (auto simp: spent_def)
    note H = hj [unfolded spent_sub_def]
    have "Suc i \<noteq> j"
    proof
      assume "Suc i = j"
      then have "starts f ws (Suc i) div ?d = starts f ws i div ?d + 1" using H by simp
      then show False using q by simp
    qed
    then have "spent_sub f ws r h (Suc i) j t"
      unfolding spent_sub_def q [symmetric] by (intro conjI) (use H in \<open>linarith | blast\<close>)+
    then have "spent f ws r (Suc i) t" using same(1) by (auto simp: spent_def)
    moreover have "new_sub_table type 0 r max_len t = Inr t" using same(2) by (simp add: new_sub_table_def)
    ultimately show ?thesis by simp
  next
    case new
    have r15: "r \<le> 15" using new(1) prefix_codeD(2) [OF p] by simp
    define cb where "cb = sub_table_bits (tb_count t) max_len r (?l - r) (2 ^ (?l - r))"
    have shape: "tb_drop t = 0 \<or> tb_drop t = r" using fl by (auto simp: filling_def filling_root_def filling_sub_def split: if_splits)
    have d: "(if tb_drop t = 0 then r else tb_drop t) = r" using shape r by auto
    have cr: "\<forall>l \<in> {1..15}. tb_count t ! l = int (rest f ws (Suc i) l)" using c by (simp add: counted_def)
    have base: "?d dvd starts f ws (Suc i) \<and> (\<exists>h. h \<le> Suc i \<and> (\<forall>k < h. f (ws ! k) \<le> r) \<and> r < f (ws ! h) \<and>
        even (tb_used t) \<and> tb_used t + (?l - r) + 1 \<le> 2 ^ r + (Suc i - h) + 2 ^ (?l - r))"
    proof (cases "f (ws ! i) \<le> r")
      case True
      have "?d dvd 2 ^ (15 - f (ws ! i))" using True by (intro le_imp_power_dvd) simp
      moreover have "2 ^ (15 - f (ws ! i)) dvd starts f ws i" using starts_aligned [OF p(1) i(1)] by blast
      ultimately have "?d dvd starts f ws (Suc i)" unfolding S by (meson dvd_add dvd_trans)
      moreover have "tb_used t = 2 ^ r" using sp True by (simp add: spent_def)
      moreover have "2 ^ 0 + (?l - r) \<le> 2 ^ (?l - r) + (0 :: nat)" by (rule power_gap) simp
      moreover have "f (ws ! k) \<le> r" if "k < Suc i" for k using prefix_codeD(3) [OF p(1), of k i] that i(1) True by simp
      ultimately show ?thesis using new(1) r by (intro conjI exI [of _ "Suc i"]) auto
    next
      case False
      obtain h j where hj: "spent_sub f ws r h i j t" using sp False by (auto simp: spent_def)
      note H = hj [unfolded spent_sub_def]
      have j: "j = Suc i"
      proof (rule ccontr)
        assume "j \<noteq> Suc i"
        then have j: "Suc i < j" using H by linarith
        have "0 < (2 :: nat) ^ (15 - f (ws ! Suc i))" by simp
        moreover have "starts f ws (Suc (Suc i)) \<le> starts f ws j" using j by (intro starts_mono) simp
        ultimately have "starts f ws (Suc i) < starts f ws j" using starts_Suc [OF p(2), of f] by linarith
        also have "\<dots> = ?d * Suc (starts f ws i div ?d)" using H by simp
        finally have "starts f ws (Suc i) < ?d * Suc (starts f ws i div ?d)" .
        moreover have "?d * (starts f ws i div ?d) \<le> starts f ws i" by (rule times_div_less_eq_dividend)
        then have "?d * (starts f ws i div ?d) \<le> starts f ws (Suc i)" using S by linarith
        ultimately have "starts f ws (Suc i) div ?d = starts f ws i div ?d" by (intro div_nat_eqI) simp_all
        then have "hcode f ws (Suc i) mod 2 ^ r = hcode f ws i mod 2 ^ r" by (simp add: hcode_mod [OF r15])
        then have "int (hcode f ws (Suc i) mod 2 ^ r) = tb_low t" using fl False by (simp add: filling_def filling_sub_def)
        then show False using new(2) c by (simp only: counted_def nat_and_mask)
      qed
      have e: "f (ws ! i) = r + tb_curr t" using H j by simp
      have "2 ^ tb_curr t + (?l - r) \<le> 2 ^ (?l - r) + tb_curr t" using i(2) e by (intro power_gap) simp
      then have "tb_used t + (?l - r) + 1 \<le> 2 ^ r + (Suc i - h) + 2 ^ (?l - r)" using H unfolding j by linarith
      moreover have "?d dvd starts f ws (Suc i)" using H unfolding j by simp
      ultimately show ?thesis using H by (intro conjI exI [of _ h]) auto
    qed
    then obtain h where h: "h \<le> Suc i" "\<forall>k < h. f (ws ! k) \<le> r" "r < f (ws ! h)" "even (tb_used t)"
      "tb_used t + (?l - r) + 1 \<le> 2 ^ r + (Suc i - h) + 2 ^ (?l - r)" by blast
    obtain j where j: "Suc i < j" "j \<le> length ws" "starts f ws j = starts f ws (Suc i) + ?d" "f (ws ! (j - 1)) = r + cb"
        "2 ^ (?l - r) + r + cb \<le> j - Suc i + ?l"
      using sub_table_exact [OF p new(1) cr mx full] base unfolding cb_def by blast
    define t' where "t' = t\<lparr>tb_drop := r, tb_next := tb_next t + 2 ^ tb_curr t, tb_curr := cb, tb_used := tb_used t + 2 ^ cb,
        tb_low := int (tb_huff t AND (2 ^ r - 1)), tb_table := (tb_table t)[tb_huff t AND (2 ^ r - 1) := table_entry r cb (tb_next t + 2 ^ tb_curr t)]\<rparr>"
    have n: "new_sub_table type 0 r max_len t = (if exceeds type (tb_used t + 2 ^ cb) then Inl (tb_table t) else Inr t')"
      using new unfolding new_sub_table_def Let_def d by (simp only: if_P simp_thms len cb_def t'_def diff_zero)
    have cb: "1 \<le> cb" "r + cb \<le> 15"
    proof -
      have k: "j - 1 < length ws" "Suc i \<le> j - 1" using j by auto
      show "1 \<le> cb" "r + cb \<le> 15" using prefix_codeD(3) [OF p k(2,1)] prefix_codeD(2) [OF p(1) k(1)] j(4) new(1) by auto
    qed
    have u: "tb_used t + 2 ^ cb + cb + 1 \<le> 2 ^ r + (j - h) + 2 ^ cb" using h(1,5) j(1,5) new(1) by linarith
    have ev: "even (tb_used t + 2 ^ cb)" using h(4) cb(1) by simp
    have "\<not> exceeds type (tb_used t + 2 ^ cb)"
    proof -
      have "tb_used t + 2 ^ cb + cb + 1 \<le> 2 ^ r + (length ws - h) + 2 ^ cb" using u j(2) by linarith
      moreover have "h < length ws" using h(1) p(2) by linarith
      ultimately show ?thesis using ok h(2,3) cb(2) ev unfolding within_def by blast
    qed
    moreover have "spent_sub f ws r h (Suc i) j t'"
      using h j u ev base by (simp add: spent_sub_def t'_def)
    then have "spent f ws r (Suc i) t'" using new(1) by (auto simp: spent_def)
    ultimately show ?thesis unfolding n by simp
  qed
qed

lemma table_loop_spent:
  assumes p: "prefix_code f ws" and r: "0 < r" and w: "\<forall>k < length ws. work ! k = ws ! k"
    and f: "f = (\<lambda>s. lens ! (lens_index + s))" and mx: "max_len = f (ws ! (length ws - 1))"
    and full: "starts f ws (length ws) = 2 ^ 15" and ok: "within type f ws r"
  shows "i < length ws \<Longrightarrow> building type work f ws r i t \<Longrightarrow> roomy type f ws r (length (tb_table t)) \<Longrightarrow> spent f ws r i t \<Longrightarrow>
    table_loop n type lens lens_index work 0 r max_len t \<noteq> Some (Inl table)"
proof (induction n arbitrary: i t)
  case (Suc n)
  have mx15: "max_len \<le> 15" "\<forall>k < length ws. f (ws ! k) \<le> max_len"
    using prefix_codeD [OF p] Suc.prems(1) by (auto simp: mx)
  from table_turn_cases [OF p Suc.prems(1) r w f mx Suc.prems(2)] show ?case
  proof (elim disjE conjE exE)
    fix t' assume "table_turn type lens lens_index work 0 r max_len t = Some (Finished t')"
    then show ?thesis by simp
  next
    fix t' assume i1: "Suc i < length ws" and t': "tb_len t' = f (ws ! Suc i)" "counted f ws (Suc i) t'" "filling f ws r i t'"
      "\<forall>j \<le> i. entered type work f ws r t' j" "length (tb_table t') = length (tb_table t)" "tb_used t' = tb_used t" "tb_curr t' = tb_curr t"
      and turn: "table_turn type lens lens_index work 0 r max_len t =
        (case new_sub_table type 0 r max_len t' of Inl table \<Rightarrow> Some (Full table) | Inr t \<Rightarrow> Some (turn.Continue t))"
    have sp: "spent f ws r i t'" using Suc.prems(4) unfolding spent_def spent_sub_def t'(6,7) .
    have room: "roomy type f ws r (length (tb_table t'))" using Suc.prems(3) t'(5) by simp
    note new = new_sub_table_spent [OF p i1 r t'(1-3) sp mx15 full ok] and build = new_sub_table_ok [OF p i1 r t'(1-4) mx15 room]
    obtain t2 where t2: "new_sub_table type 0 r max_len t' = Inr t2" using new by (cases "new_sub_table type 0 r max_len t'") auto
    then have "spent f ws r (Suc i) t2" "building type work f ws r (Suc i) t2" "length (tb_table t2) = length (tb_table t)"
      using new build t'(5) by simp_all
    then show ?thesis using Suc.IH [OF i1, of t2] Suc.prems(3) turn t2 by simp
  qed
qed simp

section \<open>The two constants\<close>

lemma starts_upper:
  assumes "a \<le> b" "\<And>k. a \<le> k \<Longrightarrow> k < b \<Longrightarrow> 2 ^ (15 - f (ws ! k)) \<le> M" "b \<le> length ws"
  shows "starts f ws b \<le> starts f ws a + (b - a) * M"
  using assms
proof (induction b rule: dec_induct)
  case (step b)
  have "starts f ws b \<le> starts f ws a + (b - a) * M" using step by simp
  moreover have "2 ^ (15 - f (ws ! b)) \<le> M" "b < length ws" using step by simp_all
  ultimately show ?case using step.hyps by (simp add: starts_Suc Suc_diff_le)
qed simp

text \<open>Few symbols with short codes leave too much to the long ones.\<close>

lemma short_share:
  assumes p: "prefix_code f ws" and full: "starts f ws (length ws) = 2 ^ 15" and h: "h < length ws" "r < f (ws ! h)"
  shows "2 ^ 15 \<le> starts f ws h + (length ws - h) * 2 ^ (15 - Suc r)"
proof -
  have "(2 :: nat) ^ (15 - f (ws ! k)) \<le> 2 ^ (15 - Suc r)" if "h \<le> k" "k < length ws" for k
    using prefix_codeD(3) [OF p h(1) that] h(2) by (intro power_increasing) auto
  from starts_upper [of h "length ws" f ws, OF _ this] h(1) full show ?thesis by simp
qed

lemma symbol_share:
  assumes p: "prefix_code f ws" "k < length ws"
  shows "starts f ws (Suc k) \<le> starts f ws k + 2 ^ 14"
proof -
  have "(2 :: nat) ^ (15 - f (ws ! k)) \<le> 2 ^ 14" using prefix_codeD(1) [OF p] by (intro power_increasing) auto
  then show ?thesis using starts_Suc [OF p(2), of f] by simp
qed

lemma first_share: "prefix_code f ws \<Longrightarrow> h \<le> 1 \<Longrightarrow> h < length ws \<Longrightarrow> starts f ws h \<le> 16384"
proof -
  assume a: "prefix_code f ws" "h \<le> 1" "h < length ws"
  then have "0 < length ws" by linarith
  have z: "starts f ws 0 = 0" by (simp add: starts_def)
  then have "starts f ws 1 \<le> 16384" using symbol_share [OF a(1) \<open>0 < length ws\<close>] by simp
  moreover have "h = 0 \<or> h = 1" using a(2) by linarith
  ultimately show ?thesis using z by auto
qed

lemma within_lens:
  assumes p: "prefix_code f ws" and full: "starts f ws (length ws) = 2 ^ 15" and n: "length ws \<le> 286"
  shows "within LENS f ws 9"
  unfolding within_def
proof (intro allI impI, elim conjE)
  fix h c u assume a: "h < length ws" "9 < f (ws ! h)" "9 + c \<le> 15" "even u" "u + c + 1 \<le> 2 ^ 9 + (length ws - h) + 2 ^ c"
  have long: "32768 \<le> starts f ws h + (length ws - h) * 32" using short_share [OF p full a(1,2)] by simp
  have "2 \<le> h"
  proof (rule ccontr)
    assume "\<not> 2 \<le> h"
    then have "starts f ws h \<le> 16384" using first_share [OF p _ a(1)] by linarith
    then show False using long n by linarith
  qed
  moreover have "2 ^ c + 6 \<le> 64 + c" using power_gap [of c 6] a(3) by simp
  ultimately have "u \<le> 853" using a(5) n by simp
  then have "u \<le> 852" using a(4) by presburger
  then show "\<not> exceeds LENS u" by (simp add: exceeds_def ENOUGH_LENS_def)
qed

lemma within_dists:
  assumes p: "prefix_code f ws" and full: "starts f ws (length ws) = 2 ^ 15" and n: "length ws \<le> 30"
  shows "within DISTS f ws 6"
  unfolding within_def
proof (intro allI impI, elim conjE)
  fix h c u assume a: "h < length ws" "6 < f (ws ! h)" "6 + c \<le> 15" "even u" "u + c + 1 \<le> 2 ^ 6 + (length ws - h) + 2 ^ c"
  have long: "32768 \<le> starts f ws h + (length ws - h) * 256" using short_share [OF p full a(1,2)] by simp
  have "3 \<le> h"
  proof (rule ccontr)
    assume "\<not> 3 \<le> h"
    then consider "h \<le> 1" | "h = 2" by linarith
    then show False
    proof cases
      case 1
      then have "starts f ws h \<le> 16384" using first_share [OF p _ a(1)] by simp
      then show False using long n by linarith
    next
      case 2
      have k: "0 < length ws" "Suc 0 < length ws" using a(1) 2 by auto
      have s: "starts f ws 2 = 2 ^ (15 - f (ws ! 0)) + 2 ^ (15 - f (ws ! 1))"
        using starts_Suc [OF k(1), of f] starts_Suc [OF k(2), of f] by (simp add: numeral_2_eq_2) (simp add: starts_def)
      have l: "1 \<le> f (ws ! 0)" "f (ws ! 0) \<le> f (ws ! 1)" using prefix_codeD(1,3) [OF p k(1)] k(2) by auto
      show False
      proof (cases "f (ws ! 1) = 1")
        case True
        then have "starts f ws 2 = 2 ^ 15" using s l by simp
        moreover have "starts f ws 2 < starts f ws (length ws)"
        proof -
          have "starts f ws (Suc 2) \<le> starts f ws (length ws)" using a(1) 2 by (intro starts_mono) simp
          moreover have "starts f ws 2 < starts f ws (Suc 2)" using starts_Suc [of 2 ws f] a(1) 2 by simp
          ultimately show ?thesis by linarith
        qed
        ultimately show False using full by simp
      next
        case False
        then have "(2 :: nat) ^ (15 - f (ws ! 1)) \<le> 2 ^ 13" "(2 :: nat) ^ (15 - f (ws ! 0)) \<le> 2 ^ 14" using l by (intro power_increasing; simp)+
        then have "starts f ws 2 \<le> 24576" unfolding s by simp
        then show False using long n 2 by simp
      qed
    qed
  qed
  moreover have "2 ^ c + 9 \<le> 512 + c" using power_gap [of c 9] a(3) by simp
  ultimately have "u \<le> 593" using a(5) n by simp
  then have "u \<le> 592" using a(4) by presburger
  then show "\<not> exceeds DISTS u" by (simp add: exceeds_def ENOUGH_DISTS_def)
qed

text \<open>In a complete code with so few symbols, not all codes are longer than the root's.\<close>

lemma root_reached:
  assumes p: "prefix_code f ws" and full: "starts f ws (length ws) = 2 ^ 15" and n: "0 < length ws" "length ws * 2 ^ (15 - Suc r) < 2 ^ 15"
  shows "f (ws ! 0) \<le> r"
proof (rule ccontr)
  assume "\<not> f (ws ! 0) \<le> r"
  then have "2 ^ 15 \<le> starts f ws 0 + length ws * 2 ^ (15 - Suc r)" using short_share [OF p full n(1)] by simp
  then show False using n(2) by (simp add: starts_def)
qed

text \<open>So \<open>inflate_table\<close> never returns 1 if the sub-tables stay within the constant.\<close>

lemma never_full:
  fixes lens :: "nat list" and lens_index codes bits :: nat and work :: "nat list"
  assumes fd: "f = (\<lambda>s. lens ! (lens_index + s))" and ls: "\<forall>s < codes. f s \<le> 15" and w: "codes \<le> length work"
    and b: "0 < bits" "bits \<le> 15" "\<not> exceeds type (2 ^ bits)" and room: "table_room type f codes bits (length table)"
    and few: "codes * 2 ^ (15 - Suc bits) < 2 ^ 15"
    and ok: "\<And>ws. prefix_code f ws \<Longrightarrow> starts f ws (length ws) = 2 ^ 15 \<Longrightarrow> length ws \<le> codes \<Longrightarrow> within type f ws bits"
    and long: "\<exists>s < codes. bits < f s" and t: "inflate_table type lens lens_index codes table 0 work bits = Some t"
  shows "tr_ret t \<noteq> 1"
proof -
  let ?ws = "order f codes" and ?count = "count_lens lens lens_index codes"
  let ?work = "sort_symbols lens lens_index codes (offsets ?count) work"
  have ne: "?ws \<noteq> []" using long in_order [of _ f codes] ls by (metis empty_iff gr_implies_not0 list.set(1) neq0_conv Suc_leI One_nat_def)
  note unfold = inflate_table_unfold [where lens = lens and lens_index = lens_index and codes = codes and work = work and table = table and type = type and bits = bits,
      OF fd ls ne, folded longest_def]
  note hi = longest_props [OF ls ne]
  have hib: "bits < longest f codes" using hi(1) long by (meson less_le_trans)
  show ?thesis
  proof (cases "share f codes > 2 ^ 15 \<or> share f codes < 2 ^ 15 \<and> (type = CODES \<or> longest f codes \<noteq> 1)")
    case True
    then show ?thesis using t unfolding unfold by auto
  next
    case False
    then have sh: "share f codes = 2 ^ 15" using hib b(1) by auto
    have full: "starts f ?ws (length ?ws) = 2 ^ 15" unfolding starts_all by (rule sh)
    have p: "prefix_code f ?ws" using sh by (intro prefix_code_order) simp
    have n: "length ?ws \<le> codes" by (rule length_order_le)
    have pos: "0 < length ?ws" using ne by simp
    have "length ?ws * 2 ^ (15 - Suc bits) < 2 ^ 15" using few n by (meson mult_le_mono1 le_less_trans)
    then have lo: "f (?ws ! 0) \<le> bits" by (rule root_reached [OF p full pos])
    have rb: "root_of bits (f (?ws ! 0)) (longest f codes) = bits" using lo hib by (simp add: root_of_def)
    note r = table_room_roomy [OF room ne _ b(3), folded longest_def, OF rb [symmetric]]
    let ?t0 = "\<lparr>tb_sym = 0, tb_len = first_used ?count (last_used ?count 15) 1, tb_huff = 0, tb_next = 0, tb_curr = bits,
       tb_drop = 0, tb_low = - 1, tb_used = 2 ^ bits, tb_count = ?count, tb_table = table\<rparr>"
    note S = build_start [where lens = lens and lens_index = lens_index and codes = codes and work = work and table = table and r = bits,
      OF fd ls w _ ne lo b(2) r(1)]
    have "spent f ?ws bits 0 ?t0" using lo by (simp add: spent_def)
    then have "table_loop codes type lens lens_index ?work 0 bits (last_used ?count 15) ?t0 \<noteq> Some (Inl table')" for table'
      using sh r(2) by (intro table_loop_spent [OF p b(1) S(4) fd S(5) full ok [OF p full n] pos S(6)]) simp_all
    then show ?thesis using t False b(3) unfolding unfold rb
      by (auto split: option.splits sum.splits)
  qed
qed

text \<open>
  The arrays of the tables have room for every code that a dynamic block may give: \<open>inflate_table\<close>
  never returns 1.
\<close>

definition fits :: "code_type \<Rightarrow> nat list \<Rightarrow> nat \<Rightarrow> bool" where
  "fits type ls bits \<longleftrightarrow> (\<forall>lens idx codes table work t.
     idx + codes \<le> length lens \<and> codes \<le> length work \<and> take codes (drop idx lens) = ls \<and> table_call type ls bits (length table) \<and>
     inflate_table type lens idx codes table 0 work bits = Some t \<longrightarrow> tr_ret t \<noteq> 1)"

lemma fits_if:
  assumes ls: "\<forall>l \<in> set ls. l \<le> 15" and b: "0 < bits" "bits \<le> 15" "\<not> exceeds type (2 ^ bits)" and few: "length ls * 2 ^ (15 - Suc bits) < 2 ^ 15"
    and ok: "\<And>f ws. prefix_code f ws \<Longrightarrow> starts f ws (length ws) = 2 ^ 15 \<Longrightarrow> length ws \<le> length ls \<Longrightarrow> within type f ws bits"
  shows "fits type ls bits"
  unfolding fits_def
proof (intro allI impI, elim conjE)
  fix lens :: "nat list" and idx codes table and work :: "nat list" and t
  assume a: "idx + codes \<le> length lens" "codes \<le> length work" "take codes (drop idx lens) = ls" "table_call type ls bits (length table)"
    "inflate_table type lens idx codes table 0 work bits = Some t"
  let ?f = "\<lambda>s. lens ! (idx + s)"
  have len: "length ls = codes" and nth: "\<And>s. s < codes \<Longrightarrow> ?f s = ls ! s" using a(1) by (auto simp: a(3) [symmetric])
  show "tr_ret t \<noteq> 1"
  proof (cases "\<forall>l \<in> set ls. l \<le> bits")
    case True
    then show ?thesis using table_built [OF a(1,2) b(1,2), of type table, unfolded a(3), OF a(4)] a(5) b(3) by auto
  next
    case False
    then obtain l where "l \<in> set ls" "\<not> l \<le> bits" by blast
    then obtain s where "s < codes" "bits < ls ! s" using len by (metis in_set_conv_nth not_le)
    then have long: "\<exists>s < codes. bits < ?f s" using nth by metis
    have f15: "\<forall>s < codes. ?f s \<le> 15" using ls len nth by (metis nth_mem)
    have "table_room type ?f codes bits (length table)" using a(4) False by (auto simp: table_call_def table_room_def)
    then show ?thesis
      by (rule never_full [OF refl f15 a(2) b _ _ _ long a(5)]) (use few ok len in auto)
  qed
qed

lemma fits_lens: "length ls \<le> 286 \<Longrightarrow> \<forall>l \<in> set ls. l \<le> 15 \<Longrightarrow> fits LENS ls 9"
  by (rule fits_if) (auto intro: within_lens simp: exceeds_def ENOUGH_LENS_def)

lemma fits_dists: "length ls \<le> 30 \<Longrightarrow> \<forall>l \<in> set ls. l \<le> 15 \<Longrightarrow> fits DISTS ls 6"
  by (rule fits_if) (auto intro: within_dists simp: exceeds_def ENOUGH_DISTS_def)

text \<open>
  Property C6. The arrays of a dynamic block are large enough: for up to 286 lengths and 9 bits, or 30
  distances and 6 bits, \<open>inflate_table\<close> never runs out of its \<open>ENOUGH_LENS\<close> or \<open>ENOUGH_DISTS\<close> elements.
  It builds the table or refuses the lengths as over-subscribed or incomplete.
\<close>

theorem tables_have_room:
  fixes lens work :: "nat list" and idx codes bits :: nat
  assumes "idx + codes \<le> length lens" "codes \<le> length work" "\<forall>l \<in> set (take codes (drop idx lens)). l \<le> 15"
    and "type = LENS \<and> codes \<le> 286 \<and> bits = 9 \<and> length table = ENOUGH_LENS \<or>
      type = DISTS \<and> codes \<le> 30 \<and> bits = 6 \<and> length table = ENOUGH_DISTS"
  shows "\<exists>t. inflate_table type lens idx codes table 0 work bits = Some t \<and>
    tr_ret t = (if acceptable True (take codes (drop idx lens)) then 0 else - 1)"
proof -
  let ?ls = "take codes (drop idx lens)"
  have len: "length ?ls = codes" using assms(1) by simp
  have call: "table_call type ?ls bits (length table)" "0 < bits" "bits \<le> 15" "type \<noteq> CODES"
    using assms(3,4) len by (auto simp: table_call_def code_limit_def ENOUGH_LENS_def ENOUGH_DISTS_def)
  obtain t where t: "inflate_table type lens idx codes table 0 work bits = Some t" "tr_ret t = - 1 \<longleftrightarrow> \<not> acceptable (type \<noteq> CODES) ?ls" "tr_ret t \<in> {- 1, 0, 1}"
    using table_built [OF assms(1,2) call(2,3,1)] by blast
  have "fits type ?ls bits" using assms(3,4) len by (auto intro: fits_lens fits_dists)
  then have "tr_ret t \<noteq> 1" using assms(1,2) call(1) t(1) unfolding fits_def by blast
  then show ?thesis using t call(4) by auto
qed

text \<open>A code whose longest lengths need sub-tables: one code of each length from 1 to 14, and two of 15.\<close>

theorem tables_have_room_witness:
  "\<exists>t. inflate_table LENS [1, 2, 3, 4, 5, 6, 7, 8, 9, 10, 11, 12, 13, 14, 15, 15] 0 16 (replicate ENOUGH_LENS 0) 0 (replicate 16 0) 9 = Some t \<and> tr_ret t = 0"
proof -
  have "acceptable True [1, 2, 3, 4, 5, 6, 7, 8, 9, 10, 11, 12, 13, 14, 15, 15]"
    unfolding acceptable_def share_def number_filter sum_lengths by simp
  then show ?thesis
    using tables_have_room [of 0 16 "[1, 2, 3, 4, 5, 6, 7, 8, 9, 10, 11, 12, 13, 14, 15, 15]" "replicate 16 0" LENS 9 "replicate ENOUGH_LENS 0"] by simp
qed

end
