(* ===== verification/InflateDynamic.thy ===== *)
theory InflateDynamic
  imports InflateLens InflateEnough
begin

text \<open>
  The rest of the mode \<open>CODELENS\<close>: its loop, and the two tables of a dynamic block.
\<close>

section \<open>The loop\<close>

lemma codelen_goes_trans:
  assumes "lens_step r r1" "run_bits r1 < run_bits r" "\<And>F. to_come cl (r_state r1) (bitstream r1 F) G = to_come cl (r_state r) (bitstream r F) G"
    "lens_step r1 r2 \<and> P" "run_bits r2 \<le> run_bits r1"
  shows "lens_step r r2 \<and> run_bits r2 \<le> run_bits r \<and> P"
  using assms lens_step_trans [OF assms(1)] by auto

definition lens_read :: "nat list \<Rightarrow> int list \<Rightarrow> run \<Rightarrow> run + run \<Rightarrow> bool" where
  "lens_read cl G r res \<longleftrightarrow>
     (case res of
        Inl r' \<Rightarrow> lens_step r r' \<and> run_bits r' \<le> run_bits r \<and> codelens_ok cl (r_state r') \<and> r_have r' = 0 \<and>
          i_have (r_state r') < i_nlen (r_state r') + i_ndist (r_state r') \<and>
          r_bits r' < codelen_bits cl (i_lendyn (r_state r')) (i_lenbits (r_state r')) (r_hold r') \<and>
          (\<forall>F. to_come cl (r_state r') (bitstream r' F) G = to_come cl (r_state r) (bitstream r F) G) \<and>
          to_come cl (r_state r) (bitstream r []) G = None
      | Inr r' \<Rightarrow> run_bits r' \<le> run_bits r \<and>
          ((\<exists>msg r2. r' = bad msg r2 \<and> lens_step r r2 \<and> (\<forall>F. to_come cl (r_state r) (bitstream r F) G = None)) \<or>
           lens_step r r' \<and> codelens_ok cl (r_state r') \<and> r_bits r' < 8 \<and> i_have (r_state r') = i_nlen (r_state r') + i_ndist (r_state r') \<and>
             (\<forall>F. to_come cl (r_state r') (bitstream r' F) G = to_come cl (r_state r) (bitstream r F) G)))"

lemma read_codelens_ok:
  assumes "buffer_ok r" "i_mode (r_state r) = CODELENS" "codelens_ok cl (r_state r)" "length (i_lens (r_state r)) = 320"
    "r_bits r < 8 \<or> i_have (r_state r) < i_nlen (r_state r) + i_ndist (r_state r) \<and>
      r_bits r < codelen_bits cl (i_lendyn (r_state r)) (i_lenbits (r_state r)) (r_hold r)"
  shows "\<exists>res. read_codelens r = Some res \<and> lens_read cl G r res"
  using assms
proof (induction "run_bits r" arbitrary: r rule: less_induct)
  case less
  let ?goal = "i_nlen (r_state r) + i_ndist (r_state r)"
  show ?case
  proof (cases "i_have (r_state r) < ?goal")
    case False
    then have "i_have (r_state r) = ?goal" using less.prems(3) by (simp add: codelens_ok_def)
    moreover have "read_codelens r = Some (Inr r)" using False by (subst read_codelens.simps) simp
    ultimately show ?thesis using less.prems False by (simp add: lens_read_def lens_step_refl)
  next
    case True
    have eq: "read_codelens r = (case read_codelen r of Inl r \<Rightarrow> Some (Inl r) | Inr r \<Rightarrow> read_codelens r)"
      using True less.prems(2) by (subst read_codelens.simps) simp
    have lean: "r_bits r < 8 \<or> r_bits r < codelen_bits cl (i_lendyn (r_state r)) (i_lenbits (r_state r)) (r_hold r)"
      using less.prems(5) by auto
    note turn = read_codelen_ok [OF less.prems(1-4) lean True, of G]
    show ?thesis
    proof (cases "read_codelen r")
      case (Inl r')
      then have I: "same_but_buffer r r'" "buffer_ok r'" "r_have r' = 0" "\<And>F. bitstream r' F = bitstream r F"
        "r_bits r' < codelen_bits cl (i_lendyn (r_state r)) (i_lenbits (r_state r)) (r_hold r')" "to_come cl (r_state r) (bitstream r []) G = None"
        using turn by auto
      have s: "r_state r' = r_state r" using I(1) by (simp add: same_but_buffer_def)
      have "run_bits r' = run_bits r" using same_bits [OF I(4)] .
      then have "lens_read cl G r (Inl r')" using I lens_step_buffer [OF I(1,2)] less.prems(3) True by (simp add: lens_read_def s)
      then show ?thesis using eq Inl by simp
    next
      case (Inr r1)
      then have g: "codelen_goes cl G r r1" using turn by simp
      then have lt: "run_bits r1 < run_bits r" by (simp add: codelen_goes_def)
      show ?thesis
      proof (cases "i_mode (r_state r1) = BAD")
        case True
        have "read_codelens r1 = Some (Inr r1)" using True by (subst read_codelens.simps) simp
        moreover have "\<not> lens_step r r1" using True lens_step_state(8) [of r r1] less.prems(2) by auto
        then have "lens_read cl G r (Inr r1)" using g by (auto simp: codelen_goes_def lens_read_def)
        ultimately show ?thesis using eq Inr by simp
      next
        case False
        then have g1: "lens_step r r1" "codelens_ok cl (r_state r1)" "r_bits r1 < 8"
          "\<And>F. to_come cl (r_state r1) (bitstream r1 F) G = to_come cl (r_state r) (bitstream r F) G"
          using g unfolding codelen_goes_def by auto
        note S = lens_step_state [OF g1(1)]
        have m1: "i_mode (r_state r1) = CODELENS" "length (i_lens (r_state r1)) = 320" using S(2,8) less.prems(2,4) by simp_all
        from less.hyps [OF lt S(3) m1(1) g1(2) m1(2)] g1(3) obtain res where
          res: "read_codelens r1 = Some res" "lens_read cl G r1 res" by blast
        have "lens_read cl G r res"
        proof (cases res)
          case (Inl r')
          then show ?thesis using res(2) lens_step_trans [OF g1(1)] lt g1(4) by (auto simp: lens_read_def)
        next
          case (Inr r')
          then show ?thesis using res(2) lens_step_trans [OF g1(1)] lt g1(4) unfolding lens_read_def by fastforce
        qed
        then show ?thesis using eq Inr res(1) by simp
      qed
    qed
  qed
qed

section \<open>The tables\<close>

lemma dynamic_table:
  fixes lens work :: "nat list" and idx codes bits :: nat
  defines "ls \<equiv> take codes (drop idx lens)"
  assumes f: "fits type ls bits" and a: "idx + codes \<le> length lens" "codes \<le> length work" "0 < bits" "bits \<le> 15"
    "table_call type ls bits (length table)"
  shows "\<exists>t. inflate_table type lens idx codes table 0 work bits = Some t \<and> (tr_ret t = 0 \<longleftrightarrow> acceptable (type \<noteq> CODES) ls) \<and>
    (tr_ret t = 0 \<longrightarrow> table_for type ls (tr_table t) (tr_bits t)) \<and>
    length (tr_table t) = length table \<and> length (tr_work t) = length work"
proof -
  obtain t where t: "inflate_table type lens idx codes table 0 work bits = Some t"
      "tr_ret t = - 1 \<longleftrightarrow> \<not> acceptable (type \<noteq> CODES) ls" "tr_ret t \<in> {- 1, 0, 1}"
      "tr_ret t = 0 \<longrightarrow> table_for type ls (tr_table t) (tr_bits t)" "length (tr_table t) = length table" "length (tr_work t) = length work"
    using table_built [of idx codes lens work bits type table, folded ls_def, OF a] by blast
  have "tr_ret t \<noteq> 1" using f t(1) a unfolding fits_def ls_def by blast
  then show ?thesis using t by auto
qed

definition counts_full :: "inflate_state \<Rightarrow> bool" where
  "counts_full s \<longleftrightarrow> counts_ok s \<and> length (i_lens s) = 320 \<and> length (i_work s) = 288 \<and> length (i_lendyn s) = ENOUGH_LENS \<and>
     length (i_distdyn s) = ENOUGH_DISTS \<and> i_lencode s = Dynamic \<and> (\<forall>l \<in> set (take (i_nlen s + i_ndist s) (i_lens s)). l \<le> 15)"

lemma slices:
  assumes "counts_full s"
  shows "take (i_nlen s) (take (i_nlen s + i_ndist s) (i_lens s)) = take (i_nlen s) (i_lens s)"
    "drop (i_nlen s) (take (i_nlen s + i_ndist s) (i_lens s)) = take (i_ndist s) (drop (i_nlen s) (i_lens s))"
    "\<forall>l \<in> set (take (i_nlen s) (i_lens s)). l \<le> 15" "\<forall>l \<in> set (take (i_ndist s) (drop (i_nlen s) (i_lens s))). l \<le> 15"
    "length (take (i_nlen s) (i_lens s)) = i_nlen s" "length (take (i_ndist s) (drop (i_nlen s) (i_lens s))) = i_ndist s"
proof -
  show e: "take (i_nlen s) (take (i_nlen s + i_ndist s) (i_lens s)) = take (i_nlen s) (i_lens s)"
    "drop (i_nlen s) (take (i_nlen s + i_ndist s) (i_lens s)) = take (i_ndist s) (drop (i_nlen s) (i_lens s))"
    by (simp_all add: drop_take min_def)
  have le: "\<forall>l \<in> set (take (i_nlen s + i_ndist s) (i_lens s)). l \<le> 15" using assms by (simp add: counts_full_def)
  show "\<forall>l \<in> set (take (i_nlen s) (i_lens s)). l \<le> 15" using le set_take_subset [of "i_nlen s" "take (i_nlen s + i_ndist s) (i_lens s)"] unfolding e(1) by blast
  show "\<forall>l \<in> set (take (i_ndist s) (drop (i_nlen s) (i_lens s))). l \<le> 15" using le set_drop_subset [of "i_nlen s" "take (i_nlen s + i_ndist s) (i_lens s)"] unfolding e(2) by blast
  show "length (take (i_nlen s) (i_lens s)) = i_nlen s" "length (take (i_ndist s) (drop (i_nlen s) (i_lens s))) = i_ndist s"
    using assms by (auto simp: counts_full_def counts_ok_def min_def)
qed

text \<open>The two calls and what comes of them, on the state alone.\<close>

lemma build_tables:
  assumes s: "counts_full s"
  shows "\<exists>t. inflate_table LENS (i_lens s) 0 (i_nlen s) (i_lendyn s) 0 (i_work s) 9 = Some t \<and>
    (tr_ret t = 0 \<longleftrightarrow> acceptable True (take (i_nlen s) (i_lens s))) \<and>
    (tr_ret t = 0 \<longrightarrow> table_for LENS (take (i_nlen s) (i_lens s)) (tr_table t) (tr_bits t)) \<and>
    length (tr_table t) = ENOUGH_LENS \<and> length (tr_work t) = 288"
    "length work = 288 \<Longrightarrow> \<exists>t. inflate_table DISTS (i_lens s) (i_nlen s) (i_ndist s) (i_distdyn s) 0 work 6 = Some t \<and>
    (tr_ret t = 0 \<longleftrightarrow> acceptable True (take (i_ndist s) (drop (i_nlen s) (i_lens s)))) \<and>
    (tr_ret t = 0 \<longrightarrow> table_for DISTS (take (i_ndist s) (drop (i_nlen s) (i_lens s))) (tr_table t) (tr_bits t)) \<and>
    length (tr_table t) = ENOUGH_DISTS \<and> length (tr_work t) = 288"
proof -
  note S = slices [OF s] and C = s [unfolded counts_full_def counts_ok_def]
  have "table_call LENS (take (i_nlen s) (drop 0 (i_lens s))) 9 (length (i_lendyn s))"
    using S(3,5) C by (auto simp: table_call_def code_limit_def ENOUGH_LENS_def)
  moreover have "fits LENS (take (i_nlen s) (drop 0 (i_lens s))) 9" by (rule fits_lens) (use S(3,5) C in simp_all)
  ultimately show "\<exists>t. inflate_table LENS (i_lens s) 0 (i_nlen s) (i_lendyn s) 0 (i_work s) 9 = Some t \<and>
    (tr_ret t = 0 \<longleftrightarrow> acceptable True (take (i_nlen s) (i_lens s))) \<and>
    (tr_ret t = 0 \<longrightarrow> table_for LENS (take (i_nlen s) (i_lens s)) (tr_table t) (tr_bits t)) \<and>
    length (tr_table t) = ENOUGH_LENS \<and> length (tr_work t) = 288"
    using dynamic_table [of LENS "i_nlen s" 0 "i_lens s" 9 "i_work s" "i_lendyn s"] C by simp
  assume w: "length work = 288"
  have "table_call DISTS (take (i_ndist s) (drop (i_nlen s) (i_lens s))) 6 (length (i_distdyn s))"
    using S(4,6) C by (auto simp: table_call_def code_limit_def ENOUGH_DISTS_def)
  moreover have "fits DISTS (take (i_ndist s) (drop (i_nlen s) (i_lens s))) 6" by (rule fits_dists) (use S(4,6) C in simp_all)
  ultimately show "\<exists>t. inflate_table DISTS (i_lens s) (i_nlen s) (i_ndist s) (i_distdyn s) 0 work 6 = Some t \<and>
    (tr_ret t = 0 \<longleftrightarrow> acceptable True (take (i_ndist s) (drop (i_nlen s) (i_lens s)))) \<and>
    (tr_ret t = 0 \<longrightarrow> table_for DISTS (take (i_ndist s) (drop (i_nlen s) (i_lens s))) (tr_table t) (tr_bits t)) \<and>
    length (tr_table t) = ENOUGH_DISTS \<and> length (tr_work t) = 288"
    using dynamic_table [of DISTS "i_ndist s" "i_nlen s" "i_lens s" 6 work "i_distdyn s"] C w by simp
qed

section \<open>The mode\<close>

lemma ref_codelens_done: "length acc = goal \<Longrightarrow> ref_codelens cl goal b acc = Some (acc, b)"
  by (subst ref_codelens.simps) simp

lemma step_CODELENS_ok:
  assumes ok: "all_ok H beg cl r G" and m: "i_mode (r_state r) = CODELENS" and ret: "r_ret r = Z_OK" and fl: "no_stop flush"
  shows "step_ok H beg cl G r (step_CODELENS flush r)"
proof -
  note A = all_okD [OF ok]
  have buf: "buffer_ok r" using A(4) m by simp
  have mo: "codelens_ok cl (r_state r)" "i_have (r_state r) < i_nlen (r_state r) + i_ndist (r_state r)" using A(2) m by (auto simp: mode_ok_simps)
  have so: "length (i_lens (r_state r)) = 320" using A(5) by (simp add: state_ok_def)
  have lean: "r_bits r < 8 \<or> i_have (r_state r) < i_nlen (r_state r) + i_ndist (r_state r) \<and>
      r_bits r < codelen_bits cl (i_lendyn (r_state r)) (i_lenbits (r_state r)) (r_hold r)"
    using A(3) m mo(2) by (auto simp: lean_def pending_simps)
  from read_codelens_ok [OF buf m mo(1) so lean, of G] obtain res where res: "read_codelens r = Some res" "lens_read cl G r res" by blast
  show ?thesis
  proof (cases res)
    case (Inl r')
    then have I: "lens_step r r'" "codelens_ok cl (r_state r')" "r_have r' = 0" "i_have (r_state r') < i_nlen (r_state r') + i_ndist (r_state r')"
      "r_bits r' < codelen_bits cl (i_lendyn (r_state r')) (i_lenbits (r_state r')) (r_hold r')"
      "\<And>F. to_come cl (r_state r') (bitstream r' F) G = to_come cl (r_state r) (bitstream r F) G"
      "to_come cl (r_state r) (bitstream r []) G = None" using res(2) by (auto simp: lens_read_def)
    note S = lens_step_state [OF I(1)]
    have m': "i_mode (r_state r') = CODELENS" using S(8) m by simp
    have "goes stopped H beg cl G r r'"
      using lens_step_run_ok [OF I(1) A(1)] I(2-7) S(4,5,7) m' ret
      by (intro goesI [where cl' = cl and G' = G]) (simp_all add: mode_ok_simps lean_def pending_simps stopped_def)
    then show ?thesis using Inl res(1) by (simp add: step_CODELENS_def)
  next
    case (Inr r')
    have le: "run_bits r' \<le> run_bits r" using res(2) Inr by (simp add: lens_read_def)
    show ?thesis
    proof (cases "i_mode (r_state r') = BAD")
      case True
      have "\<not> lens_step r r'" using True lens_step_state(8) [of r r'] m by auto
      then obtain msg r2 where r2: "r' = bad msg r2" "lens_step r r2" "\<And>F. to_come cl (r_state r) (bitstream r F) G = None"
        using res(2) Inr by (auto simp: lens_read_def)
      note S = lens_step_state [OF r2(2)]
      have "run_ok H beg r2 G" using lens_step_run_ok [OF r2(2) A(1)] .
      then have "goes (ready r) H beg cl G r r'"
        using r2(1,3) S(3-7) le m by (intro goesI [where cl' = cl and G' = G]) (auto simp: run_ok_def state_ok_def mode_ok_simps lean_def to_come_simps same_call_def ready_def mode_rank_simps
            intro!: step_order_rank)
      then show ?thesis using Inr res(1) True by (simp add: step_CODELENS_def)
    next
      case False
      then have I: "lens_step r r'" "codelens_ok cl (r_state r')" "r_bits r' < 8" "i_have (r_state r') = i_nlen (r_state r') + i_ndist (r_state r')"
        "\<And>F. to_come cl (r_state r') (bitstream r' F) G = to_come cl (r_state r) (bitstream r F) G"
        using res(2) Inr by (auto simp: lens_read_def)
      note S = lens_step_state [OF I(1)]
      let ?s = "r_state r'"
      have m': "i_mode ?s = CODELENS" using S(8) m by simp
      have run: "run_ok H beg r' G" using lens_step_run_ok [OF I(1) A(1)] .
      then have st: "state_ok ?s H" "fixed_ok (r_fixed r')" by (auto simp: run_ok_def)
      have full: "counts_full ?s" using st(1) I(2,4) by (simp add: counts_full_def codelens_ok_def state_ok_def)
      have cnt: "257 \<le> i_nlen ?s" "i_nlen ?s + i_ndist ?s \<le> 316" using full by (auto simp: counts_full_def counts_ok_def)
      let ?ll = "take (i_nlen ?s) (i_lens ?s)" and ?dl = "take (i_ndist ?s) (drop (i_nlen ?s) (i_lens ?s))"
      have accl: "length (take (i_nlen ?s + i_ndist ?s) (i_lens ?s)) = i_nlen ?s + i_ndist ?s" using full by (simp add: counts_full_def counts_ok_def)
      have val: "to_come cl (r_state r) (bitstream r F) G = (if i_lens ?s ! 256 \<noteq> 0 \<and> acceptable True ?ll \<and> acceptable True ?dl
          then then_blocks ?s (ref_codes ?ll ?dl (i_dmax ?s) (bitstream r' F) G) else None)" for F
      proof -
        have "take (i_nlen ?s + i_ndist ?s) (i_lens ?s) ! 256 = i_lens ?s ! 256" using cnt by simp
        then show ?thesis unfolding I(5) [symmetric]
          using m' I(4) ref_codelens_done [OF accl] slices(1,2) [OF full] by (simp add: to_come_simps tables_rest_def ref_tables_def)
      qed
      have table: "len_table (r_fixed r') ?s = i_lendyn ?s" using I(2) by (simp add: len_table_def codelens_ok_def)
      obtain t where t: "inflate_table LENS (i_lens ?s) 0 (i_nlen ?s) (i_lendyn ?s) 0 (i_work ?s) 9 = Some t"
        "tr_ret t = 0 \<longleftrightarrow> acceptable True ?ll" "tr_ret t = 0 \<longrightarrow> table_for LENS ?ll (tr_table t) (tr_bits t)"
        "length (tr_table t) = ENOUGH_LENS" "length (tr_work t) = 288" using build_tables(1) [OF full] by blast
      obtain d where d: "inflate_table DISTS (i_lens ?s) (i_nlen ?s) (i_ndist ?s) (i_distdyn ?s) 0 (tr_work t) 6 = Some d"
        "tr_ret d = 0 \<longleftrightarrow> acceptable True ?dl" "tr_ret d = 0 \<longrightarrow> table_for DISTS ?dl (tr_table d) (tr_bits d)"
        "length (tr_table d) = ENOUGH_DISTS" "length (tr_work d) = 288" using build_tables(2) [OF full t(5)] by blast
      define s1 where "s1 = ?s\<lparr>i_lendyn := tr_table t, i_work := tr_work t, i_lenbits := tr_bits t\<rparr>"
      define s2 where "s2 = s1\<lparr>i_distcode := Dynamic, i_distdyn := tr_table d, i_work := tr_work d, i_distbits := tr_bits d\<rparr>"
      have s1: "i_lens s1 = i_lens ?s" "i_nlen s1 = i_nlen ?s" "i_ndist s1 = i_ndist ?s" "i_distdyn s1 = i_distdyn ?s" "i_work s1 = tr_work t"
        by (simp_all add: s1_def)
      have step: "step_CODELENS flush r =
          Some (Continue (if i_lens ?s ! 256 = 0 then bad ''invalid code -- missing end-of-block'' r'
            else if tr_ret t \<noteq> 0 then bad ''invalid literal/lengths set'' (r'\<lparr>r_state := s1, r_ret := tr_ret t\<rparr>)
            else if tr_ret d \<noteq> 0 then bad ''invalid distances set'' (r'\<lparr>r_state := s2, r_ret := tr_ret d\<rparr>)
            else set_mode LEN_first (r'\<lparr>r_state := s2, r_ret := tr_ret d\<rparr>)))"
        using res(1) Inr False t(1) d(1) fl s1 table by (simp add: step_CODELENS_def Let_def s1_def [symmetric] s2_def no_stop_def)
      have st1: "state_ok s1 H" and st2: "state_ok s2 H" using st(1) t d by (simp_all add: s1_def s2_def state_ok_def)
      have sc: "i_wrap s1 = i_wrap ?s" "i_dmax s1 = i_dmax ?s" "i_wbits s1 = i_wbits ?s" "i_wrap s2 = i_wrap ?s" "i_dmax s2 = i_dmax ?s" "i_wbits s2 = i_wbits ?s"
        by (simp_all add: s1_def s2_def)
      have go_bad: "goes (ready r) H beg cl G r (bad msg (r'\<lparr>r_state := s, r_ret := n\<rparr>))"
        if "state_ok s H" "i_wrap s = i_wrap ?s" "i_dmax s = i_dmax ?s" "i_wbits s = i_wbits ?s"
          "\<And>F. to_come cl (r_state r) (bitstream r F) G = None" for msg s n
        using that run S(6,7) m le
        by (intro goesI [where cl' = cl and G' = G]) (auto simp: run_ok_def state_ok_def mode_ok_simps lean_def to_come_simps same_call_def ready_def mode_rank_simps
            intro!: step_order_rank)
      have self: "r'\<lparr>r_state := ?s, r_ret := r_ret r'\<rparr> = r'" by simp
      show ?thesis
      proof (cases "i_lens ?s ! 256 = 0 \<or> tr_ret t \<noteq> 0 \<or> tr_ret d \<noteq> 0")
        case True
        then have "to_come cl (r_state r) (bitstream r F) G = None" for F unfolding val using t(2) d(2) by auto
        then show ?thesis unfolding step step_ok_simps
          using True go_bad [OF st(1) refl refl refl, of "''invalid code -- missing end-of-block''" "r_ret r'", unfolded self]
            go_bad [OF st1 sc(1-3)] go_bad [OF st2 sc(4-6)] by auto
      next
        case fine: False
        let ?r = "set_mode LEN_first (r'\<lparr>r_state := s2, r_ret := tr_ret d\<rparr>)"
        have ll: "ll_of (r_state ?r) = ?ll" "dl_of (r_state ?r) = ?dl" using full by (simp_all add: ll_of_def dl_of_def s2_def s1_def counts_full_def)
        have "goes (ready r) H beg cl G r ?r"
        proof (rule goesI)
          show "run_ok H beg ?r G" using run st2 S(3) by (simp add: run_ok_def state_ok_def buffer_ok_def)
          have "codes_ok (r_fixed ?r) (r_state ?r)" using t(3) d(3) fine full
            unfolding codes_ok_def ll by (simp add: len_table_def dist_table_def s2_def s1_def counts_full_def)
          then show "mode_ok cl (r_fixed ?r) (r_state ?r)" by (subst mode_ok_simps(4)) simp_all
          show "to_come cl (r_state ?r) (bitstream ?r F) G = to_come cl (r_state r) (bitstream r F) G" for F
          proof -
            have "then_blocks (r_state ?r) y = then_blocks ?s y" for y by (rule rest_cong) (simp_all add: s2_def s1_def)
            moreover have "i_dmax (r_state ?r) = i_dmax ?s" using sc by simp
            moreover have "bitstream ?r F = bitstream r' F" by (simp add: bitstream_def unread_def)
            moreover have "to_come cl (r_state ?r) b G = codes_rest (r_state ?r) b G" for b by (rule to_come_simps) simp
            ultimately show ?thesis unfolding val codes_rest_def ll using fine t(2) d(2) by simp
          qed
          show "same_call r ?r" using S(7) sc by (simp add: same_call_def)
          show "ready r cl G ?r" using fine le S(6) m by (auto simp: ready_def Z_OK_def mode_rank_simps intro!: step_order_rank)
        qed (use I(3) in \<open>simp add: lean_def\<close>)
        then show ?thesis unfolding step using fine by simp
      qed
    qed
  qed
qed

end
