(* ===== verification/InflateSymbols.thy ===== *)
theory InflateSymbols
  imports InflateDynamic
begin

text \<open>
  Literals and matches in the slow loop: the modes \<open>LEN\<close>, \<open>LENEXT\<close>, \<open>DIST\<close>, \<open>DISTEXT\<close>, \<open>MATCH\<close> and
  \<open>LIT\<close>.
\<close>

section \<open>What the entries of the tables say\<close>

lemma length_symbols:
  assumes "257 \<le> s" "s < 286"
  shows "symbol_entry LENS [] s = (16 + length_extra s, length_base s)" "length_extra s \<le> 5" "3 \<le> length_base s"
    "length_base s + 2 ^ length_extra s \<le> 259"
proof -
  have "\<forall>k \<in> set [0..<29]. lext ! k = 16 + length_extra (257 + k) \<and> lbase ! k = length_base (257 + k) \<and> length_extra (257 + k) \<le> 5 \<and>
      3 \<le> length_base (257 + k) \<and> length_base (257 + k) + 2 ^ length_extra (257 + k) \<le> 259"
    by code_simp
  moreover have "s - 257 \<in> set [0..<29]" "257 + (s - 257) = s" using assms by auto
  ultimately have "lext ! (s - 257) = 16 + length_extra s \<and> lbase ! (s - 257) = length_base s \<and> length_extra s \<le> 5 \<and> 3 \<le> length_base s \<and>
      length_base s + 2 ^ length_extra s \<le> 259"
    by metis
  moreover have "length lext = 31" "length lbase = 31" by (simp_all add: lext_def lbase_def)
  ultimately show "symbol_entry LENS [] s = (16 + length_extra s, length_base s)" "length_extra s \<le> 5" "3 \<le> length_base s"
    "length_base s + 2 ^ length_extra s \<le> 259"
    using assms by (simp_all add: symbol_entry_def symbol_end_def symbol_extra_def symbol_base_def nth_or_0_def)
qed

lemma invalid_lengths: "symbol_entry LENS [] 286 = (72, 0)" "symbol_entry LENS [] 287 = (78, 0)" "symbol_entry LENS [] 256 = (96, 0)"
  by (simp_all add: symbol_entry_def symbol_end_def symbol_extra_def symbol_base_def nth_or_0_def lext_def lbase_def)

lemma distance_symbols:
  assumes "s < 30"
  shows "symbol_entry DISTS [] s = (16 + dist_extra s, dist_base s)" "dist_extra s \<le> 13" "0 < dist_base s"
proof -
  have "\<forall>k \<in> set [0..<30]. dext ! k = 16 + dist_extra k \<and> dbase ! k = dist_base k \<and> dist_extra k \<le> 13 \<and> 0 < dist_base k"
    by (simp add: upt_rec dext_def dbase_def dist_extra_def dist_base_def)
  then have "dext ! s = 16 + dist_extra s \<and> dbase ! s = dist_base s \<and> dist_extra s \<le> 13 \<and> 0 < dist_base s" using assms by simp
  moreover have "length dext = 32" "length dbase = 32" by (simp_all add: dext_def dbase_def)
  ultimately show "symbol_entry DISTS [] s = (16 + dist_extra s, dist_base s)" "dist_extra s \<le> 13" "0 < dist_base s"
    using assms by (simp_all add: symbol_entry_def symbol_end_def symbol_extra_def symbol_base_def nth_or_0_def)
qed

lemma invalid_distances: "s = 30 \<or> s = 31 \<Longrightarrow> symbol_entry DISTS [] s = (64, 0)"
  by (auto simp: symbol_entry_def symbol_end_def symbol_extra_def symbol_base_def nth_or_0_def dext_def dbase_def)

lemma op_bits:
  "(16 + e) AND 15 = e" "(16 + e) AND 16 \<noteq> 0" "(16 + e) AND 32 = 0" "(16 + e) AND 64 = 0" "(16 + e) AND 0xf0 \<noteq> 0" if "e \<le> 13" for e :: nat
proof -
  have "\<forall>e \<in> set [0..<14]. (16 + e) AND 15 = e \<and> (16 + e) AND 16 \<noteq> 0 \<and> (16 + e) AND 32 = 0 \<and> (16 + e) AND 64 = 0 \<and>
      (16 + e) AND 0xf0 \<noteq> (0 :: nat)" by code_simp
  moreover have "e \<in> set [0..<14]" using that by simp
  ultimately show "(16 + e) AND 15 = e" "(16 + e) AND 16 \<noteq> 0" "(16 + e) AND 32 = 0" "(16 + e) AND 64 = 0" "(16 + e) AND 0xf0 \<noteq> 0" by blast+
qed

lemma op_consts: "(96::nat) AND 32 \<noteq> 0" "(96::nat) AND 16 = 0" "(96::nat) AND 64 \<noteq> 0" "(64::nat) AND 32 = 0" "(64::nat) AND 16 = 0" "(64::nat) AND 64 \<noteq> 0"
  "(72::nat) AND 32 = 0" "(72::nat) AND 16 = 0" "(72::nat) AND 64 \<noteq> 0" "(78::nat) AND 32 = 0" "(78::nat) AND 16 = 0" "(78::nat) AND 64 \<noteq> 0"
  "(64::nat) AND 0xf0 \<noteq> 0" "(96::nat) AND 0xf0 \<noteq> 0" "(72::nat) AND 0xf0 \<noteq> 0" "(78::nat) AND 0xf0 \<noteq> 0"
  by simp_all

text \<open>What a length code's entry means to the specification; the first component is what follows it.\<close>

datatype length_code = Lit nat | Stop | Len nat nat | Wrong

definition length_code :: "int \<Rightarrow> length_code" where
  "length_code here =
     (let op = here_op here
      in if op = 0 then Lit (here_val here) else if op AND 32 \<noteq> 0 then Stop else if op AND 64 \<noteq> 0 then Wrong
         else Len (here_val here) (op AND 15))"

definition length_item :: "nat list \<Rightarrow> length_code \<Rightarrow> bits \<Rightarrow> (deflate_item \<times> bits) option" where
  "length_item dl c b =
     (case c of Lit n \<Rightarrow> Some (Literal n, b) | Stop \<Rightarrow> Some (EndBlock, b) | Wrong \<Rightarrow> None
      | Len n e \<Rightarrow> Option.bind (with_extra n e b) (\<lambda>(len, b). ref_distance dl len b))"

definition length_code_ok :: "length_code \<Rightarrow> bool" where
  "length_code_ok c \<longleftrightarrow> (case c of Lit n \<Rightarrow> n < 256 | Len n e \<Rightarrow> 3 \<le> n \<and> e \<le> 5 \<and> n + 2 ^ e \<le> 259 | _ \<Rightarrow> True)"

lemma length_entry:
  assumes c: "code_entry LENS ll b here b'"
  shows "ref_item ll dl b = length_item dl (length_code here) b'" "length_code_ok (length_code here)"
    "here_op here \<noteq> 0 \<Longrightarrow> here_op here AND 0xf0 \<noteq> 0"
    "here_op here AND 16 \<noteq> 0 \<longleftrightarrow> (\<exists>n e. length_code here = Len n e)" "here_op here AND 16 = 0 \<Longrightarrow> here_op here \<noteq> 0 \<Longrightarrow> here_op here AND 64 \<noteq> 0"
proof -
  have "ref_item ll dl b = length_item dl (length_code here) b' \<and> length_code_ok (length_code here) \<and>
    (here_op here \<noteq> 0 \<longrightarrow> here_op here AND 0xf0 \<noteq> 0) \<and>
    (here_op here AND 16 \<noteq> 0 \<longleftrightarrow> (\<exists>n e. length_code here = Len n e)) \<and> (here_op here AND 16 = 0 \<longrightarrow> here_op here \<noteq> 0 \<longrightarrow> here_op here AND 64 \<noteq> 0)"
  proof (cases "ref_symbol ll b")
    case None
    then have "here_op here = 64" using c by (simp add: code_entry_def invalid_entry del: One_nat_def)
    then show ?thesis using None by (simp add: length_code_def length_item_def ref_item_unfold length_code_ok_def)
  next
    case (Some x)
    then obtain s where s: "ref_symbol ll b = Some (s, b')" "s < 288" "(here_op here, here_val here) = symbol_entry LENS [] s"
      using c by (auto simp: code_entry_def code_limit_def)
    consider "s < 256" | "s = 256" | "257 \<le> s" "s < 286" | "s = 286 \<or> s = 287" using s(2) by linarith
    then show ?thesis
    proof cases
      case 1
      then have "here_op here = 0" "here_val here = s" using s(3) by (simp_all add: symbol_entry_def symbol_end_def)
      then show ?thesis using 1 s(1) by (simp add: length_code_def length_item_def ref_item_unfold length_code_ok_def)
    next
      case 2
      then have "here_op here = 96" using s(3) by (simp add: invalid_lengths)
      then show ?thesis using 2 s(1) by (simp add: length_code_def length_item_def ref_item_unfold length_code_ok_def)
    next
      case 3
      note L = length_symbols [OF 3]
      have o: "here_op here = 16 + length_extra s" "here_val here = length_base s" using s(3) L(1) by simp_all
      have e: "length_extra s \<le> 13" using L(2) by simp
      have "length_code here = Len (length_base s) (length_extra s)" using op_bits [OF e] by (simp only: length_code_def Let_def o) simp
      then show ?thesis using 3 s(1) L(2-4) op_bits [OF e] o by (simp add: length_item_def ref_item_unfold length_code_ok_def)
    next
      case 4
      then have "here_op here = 72 \<or> here_op here = 78" using s(3) by (auto simp: invalid_lengths)
      then show ?thesis using 4 s(1) by (auto simp: length_code_def length_item_def ref_item_unfold length_code_ok_def)
    qed
  qed
  then show "ref_item ll dl b = length_item dl (length_code here) b'" "length_code_ok (length_code here)"
    "here_op here \<noteq> 0 \<Longrightarrow> here_op here AND 0xf0 \<noteq> 0"
    "here_op here AND 16 \<noteq> 0 \<longleftrightarrow> (\<exists>n e. length_code here = Len n e)" "here_op here AND 16 = 0 \<Longrightarrow> here_op here \<noteq> 0 \<Longrightarrow> here_op here AND 64 \<noteq> 0"
    by blast+
qed

lemma distance_entry:
  assumes c: "code_entry DISTS dl b here b'"
  shows "ref_distance dl len b = (if here_op here AND 64 \<noteq> 0 then None
      else map_option (\<lambda>(d, b). (Match len d, b)) (with_extra (here_val here) (here_op here AND 15) b'))"
    "here_op here AND 64 = 0 \<Longrightarrow> 0 < here_val here \<and> here_op here AND 15 \<le> 13" "here_op here AND 0xf0 \<noteq> 0"
    "here_op here AND 16 = 0 \<longleftrightarrow> here_op here AND 64 \<noteq> 0"
proof -
  have "ref_distance dl len b = (if here_op here AND 64 \<noteq> 0 then None
      else map_option (\<lambda>(d, b). (Match len d, b)) (with_extra (here_val here) (here_op here AND 15) b')) \<and>
    (here_op here AND 64 = 0 \<longrightarrow> 0 < here_val here \<and> here_op here AND 15 \<le> 13) \<and> here_op here AND 0xf0 \<noteq> 0 \<and>
    (here_op here AND 16 = 0 \<longleftrightarrow> here_op here AND 64 \<noteq> 0)"
  proof (cases "ref_symbol dl b")
    case None
    then have "here_op here = 64" using c by (simp add: code_entry_def invalid_entry del: One_nat_def)
    then show ?thesis using None by (simp add: ref_distance_def)
  next
    case (Some x)
    then obtain s where s: "ref_symbol dl b = Some (s, b')" "s < 32" "(here_op here, here_val here) = symbol_entry DISTS [] s"
      using c by (auto simp: code_entry_def code_limit_def)
    show ?thesis
    proof (cases "s < 30")
      case True
      note L = distance_symbols [OF True]
      have o: "here_op here = 16 + dist_extra s" "here_val here = dist_base s" using s(3) L(1) by simp_all
      show ?thesis using True s(1) L(2,3) op_bits [OF L(2)] by (simp add: o ref_distance_def)
    next
      case False
      then have "s = 30 \<or> s = 31" using s(2) by linarith
      then have "here_op here = 64" using s(3) invalid_distances by simp
      then show ?thesis using False s(1) by (simp add: ref_distance_def)
    qed
  qed
  then show "ref_distance dl len b = (if here_op here AND 64 \<noteq> 0 then None
      else map_option (\<lambda>(d, b). (Match len d, b)) (with_extra (here_val here) (here_op here AND 15) b'))"
    "here_op here AND 64 = 0 \<Longrightarrow> 0 < here_val here \<and> here_op here AND 15 \<le> 13" "here_op here AND 0xf0 \<noteq> 0"
    "here_op here AND 16 = 0 \<longleftrightarrow> here_op here AND 64 \<noteq> 0" by blast+
qed

text \<open>How the two loops know a link.\<close>

lemma length_links: "link_pred (\<lambda>op. op \<noteq> 0 \<and> op AND 0xf0 = 0) table bits"
  by (simp add: link_pred_def is_link_def)

lemma distance_links:
  assumes t: "table_for DISTS dl table bits"
  shows "link_pred (\<lambda>op. op AND 0xf0 = 0) table bits"
  unfolding link_pred_def
proof
  fix hold
  let ?f = "first_at table bits hold"
  show "(here_op ?f AND 0xf0 = 0) = is_link ?f"
  proof (cases "is_link ?f")
    case True
    then show ?thesis by (simp add: is_link_def)
  next
    case False
    have "here_op ?f AND 0xf0 \<noteq> 0"
    proof (cases "decode dl hold")
      case None
      then show ?thesis using table_for_None(2) [OF t None] by (simp add: invalid_entry del: One_nat_def)
    next
      case (Some s)
      have "(here_op ?f, here_val ?f) = symbol_entry DISTS [] s" "s < 32"
        using table_for_Some(2,6) [OF t Some] lookup_first [OF False] by (simp_all add: code_limit_def)
      moreover have "s < 30 \<or> s = 30 \<or> s = 31" using \<open>s < 32\<close> by linarith
      ultimately show ?thesis using distance_symbols [of s] op_bits(5) [of "dist_extra s"] invalid_distances [of s] by auto
    qed
    then show ?thesis using False by simp
  qed
qed

section \<open>Changes of the state within a code\<close>

text \<open>What reading a symbol and its extra bits changes.\<close>

definition symbol_state :: "inflate_mode \<Rightarrow> int \<Rightarrow> nat \<Rightarrow> nat \<Rightarrow> nat \<Rightarrow> nat \<Rightarrow> inflate_state \<Rightarrow> inflate_state" where
  "symbol_state m back len ext off was s = s\<lparr>i_mode := m, i_back := back, i_length := len, i_extra := ext, i_offset := off, i_was := was\<rparr>"

lemma symbol_state_sel: "i_mode (symbol_state m k n e d w s) = m" "i_length (symbol_state m k n e d w s) = n" "i_extra (symbol_state m k n e d w s) = e"
  "i_offset (symbol_state m k n e d w s) = d" "i_dmax (symbol_state m k n e d w s) = i_dmax s" "i_last (symbol_state m k n e d w s) = i_last s"
  "ll_of (symbol_state m k n e d w s) = ll_of s" "dl_of (symbol_state m k n e d w s) = dl_of s"
  "codes_ok g (symbol_state m k n e d w s) = codes_ok g s" "state_ok (symbol_state m k n e d w s) H = state_ok s H"
  "i_wrap (symbol_state m k n e d w s) = i_wrap s" "i_wbits (symbol_state m k n e d w s) = i_wbits s"
  "i_whave (symbol_state m k n e d w s) = i_whave s"
  by (simp_all add: symbol_state_def ll_of_def dl_of_def codes_ok_def len_table_def dist_table_def state_ok_def split: table_ref.split)

lemma symbol_state_rest: "item_rest (symbol_state m k n e d w s) G x = item_rest s G x" "codes_rest (symbol_state m k n e d w s) b G = codes_rest s b G"
  "blocks_rest (symbol_state m k n e d w s) b G = blocks_rest s b G"
  using rest_cong [of "symbol_state m k n e d w s" s] by (simp_all add: symbol_state_sel blocks_rest_def)

lemma goes_symbol:
  assumes ok: "all_ok H beg cl r G" and ret: "r_ret r = Z_OK" and fr: "same_but_buffer r r1" "buffer_ok r1" "r_bits r1 < 8"
    and m: "m \<in> {LIT, LENEXT, DIST, DISTEXT, MATCH, LEN, TYPE_mode}"
    and dec: "run_bits r1 < run_bits r \<or> run_bits r1 \<le> run_bits r \<and> mode_rank m < mode_rank (i_mode (r_state r))"
    and mo: "mode_ok cl (r_fixed r) (symbol_state m k n e d w (r_state r))"
    and eq: "\<And>F. to_come cl (symbol_state m k n e d w (r_state r)) (bitstream r1 F) G = to_come cl (r_state r) (bitstream r F) G"
  shows "goes (ready r) H beg cl G r (r1\<lparr>r_state := symbol_state m k n e d w (r_state r)\<rparr>)"
proof (rule goesI)
  note A = all_okD [OF ok] and B = buffer_sel [OF fr(1)]
  let ?r' = "r1\<lparr>r_state := symbol_state m k n e d w (r_state r)\<rparr>"
  show "run_ok H beg ?r' G" using A(1) fr(2) by (simp add: run_ok_def B symbol_state_sel buffer_ok_def)
  show "mode_ok cl (r_fixed ?r') (r_state ?r')" using mo by (simp add: B)
  show "lean cl ?r'" using fr(3) m by (auto simp: lean_def symbol_state_sel)
  show "to_come cl (r_state ?r') (bitstream ?r' F) G = to_come cl (r_state r) (bitstream r F) G" for F
    using eq [of F] by (simp add: bitstream_def unread_def)
  show "same_call r ?r'" using fr(1) by (simp add: same_call_def same_but_buffer_def symbol_state_sel)
  show "ready r cl G ?r'" using ret dec m by (auto simp: ready_def B symbol_state_sel intro: step_order_bits step_order_rank)
qed

text \<open>The code read by \<open>read_code\<close>, in a step.\<close>

lemma low_bits_of: "0 \<le> r_hold r \<Longrightarrow> n \<le> 30 \<Longrightarrow> low_bits (r_hold r) n = bits_of n r"
  by (simp add: low_bits_nat bits_of_nat)

lemma item_rest_None [simp]: "item_rest s G None = None"
  by (simp add: item_rest_def)

lemma tables_back: "len_table g (s\<lparr>i_back := k\<rparr>) = len_table g s" "dist_table g (s\<lparr>i_back := k\<rparr>) = dist_table g s"
  "ll_of (s\<lparr>i_back := k\<rparr>) = ll_of s" "dl_of (s\<lparr>i_back := k\<rparr>) = dl_of s"
  by (simp_all add: len_table_def dist_table_def ll_of_def dl_of_def split: table_ref.split)

section \<open>A length code\<close>

lemma step_LEN_slow:
  assumes ok: "all_ok H beg cl r G" and m: "i_mode (r_state r) = LEN" and ret: "r_ret r = Z_OK"
    and slow: "\<not> (6 \<le> r_have r \<and> 258 \<le> r_left r)"
  shows "step_ok H beg cl G r (step_LEN r)"
proof -
  note A = all_okD [OF ok]
  let ?s = "r_state r"
  let ?table = "len_table (r_fixed r) ?s" and ?bits = "i_lenbits ?s"
  let ?r0 = "upd_state (\<lambda>s. s\<lparr>i_back := 0\<rparr>) r"
  have buf: "buffer_ok r" "buffer_ok ?r0" using A(4) m by simp_all
  have co: "codes_ok (r_fixed r) ?s" and t: "table_for LENS (ll_of ?s) ?table ?bits" using A(2) m by (auto simp: mode_ok_simps codes_ok_def)
  have sh: "short ?table ?bits r" using A(3) m by (simp add: lean_def pending_simps short_def)
  have tc: "to_come cl ?s b G = item_rest ?s G (ref_item (ll_of ?s) (dl_of ?s) b)" for b
    using m by (simp add: to_come_simps codes_rest_unfold)
  have tb: "len_table (r_fixed ?r0) (r_state ?r0) = ?table" "i_lenbits (r_state ?r0) = ?bits" by (simp_all add: tables_back)
  have eq: "step_LEN r = (case read_code (\<lambda>op. op \<noteq> 0 \<and> op AND 0xf0 = 0) ?table ?bits ?r0 of
      Inl r \<Rightarrow> Some (Leave r)
    | Inr (here, n, r) \<Rightarrow>
        let r = upd_state (\<lambda>s. s\<lparr>i_length := here_val here\<rparr>) (add_back n r); op = here_op here
        in if op = 0 then Some (Continue (set_mode LIT r))
           else if op AND 32 \<noteq> 0 then Some (Continue (set_mode TYPE_mode (upd_state (\<lambda>s. s\<lparr>i_back := - 1\<rparr>) r)))
           else if op AND 64 \<noteq> 0 then Some (Continue (bad ''invalid literal/length code'' r))
           else Some (Continue (set_mode LENEXT (upd_state (\<lambda>s. s\<lparr>i_extra := op AND 15\<rparr>) r))))"
    unfolding step_LEN_def if_not_P [OF slow] Let_def tb ..
  note read = read_code_ok [OF t length_links buf(2)]
  show ?thesis
  proof (cases "read_code (\<lambda>op. op \<noteq> 0 \<and> op AND 0xf0 = 0) ?table ?bits ?r0")
    case (Inl r')
    then have P: "pulled (code_bits ?table ?bits) ?r0 r'" "r_have r' = 0" "r_bits r' < code_bits ?table ?bits (r_hold r')" using read by auto
    have Q: "same_but_buffer ?r0 r'" "buffer_ok r'" "\<And>F. bitstream r' F = bitstream r F" using P(1) by (auto simp: pulled_def)
    note B = buffer_sel [OF Q(1)]
    have s': "r_state r' = ?s\<lparr>i_back := 0\<rparr>" "len_table (r_fixed r') (r_state r') = ?table" by (simp_all add: B tables_back)
    have "ref_symbol (ll_of ?s) (bitstream r' []) = None" using code_pending [OF t Q(2) P(2,3)] .
    then have "ref_item (ll_of ?s) (dl_of ?s) (bitstream r' []) = None" by (simp add: ref_item_def)
    then have none: "to_come cl ?s (bitstream r []) G = None" unfolding tc by (simp only: Q(3) item_rest_None)
    have eq': "to_come cl (r_state r') (bitstream r' F) G = to_come cl ?s (bitstream r F) G" for F
    proof -
      have "codes_rest (?s\<lparr>i_back := 0\<rparr>) b G = codes_rest ?s b G" for b by (rule rest_cong) (simp_all add: tables_back)
      then show ?thesis using m by (simp add: s'(1) Q(3) to_come_simps)
    qed
    have "goes stopped H beg cl G r r'"
    proof (rule goesI [where cl' = cl and G' = G])
      show "run_ok H beg r' G" using A(1) Q(2) by (simp add: run_ok_def B state_ok_def)
      show "mode_ok cl (r_fixed r') (r_state r')" using co m by (simp add: mode_ok_simps s'(1) B codes_ok_def tables_back)
      show "lean cl r'" using P(3) m s'(2) by (simp add: lean_def pending_simps s'(1))
      show "same_call r r'" using Q(1) by (simp add: same_call_def same_but_buffer_def)
      show "stopped cl G r'" using P(2) none m ret eq' [of "[]"] by (simp add: stopped_def s'(1)) (simp add: B)
    qed (rule eq')
    then show ?thesis unfolding eq Inl by simp
  next
    case (Inr x)
    obtain here n r1 where x: "x = (here, n, r1)" by (cases x) auto
    then have R: "code_read LENS (ll_of ?s) ?table ?bits ?r0 here n r1" using read Inr by simp
    have fr0: "same_but_buffer ?r0 r1" and b1: "buffer_ok r1" "r_bits r1 < 8" "run_bits r1 < run_bits r"
      and ce: "\<And>F. code_entry LENS (ll_of ?s) (bitstream r F) here (bitstream r1 F)"
      using R sh by (auto simp: code_read_def short_def)
    note B = buffer_sel [OF fr0]
    define r2 where "r2 = r1\<lparr>r_state := ?s\<rparr>"
    have fr: "same_but_buffer r r2" "buffer_ok r2" "r_bits r2 < 8" "run_bits r2 < run_bits r" "\<And>F. bitstream r2 F = bitstream r1 F"
      using fr0 b1 by (simp_all add: r2_def same_but_buffer_def buffer_ok_def bitstream_def unread_def)
    have up: "r1\<lparr>r_state := s\<rparr> = r2\<lparr>r_state := s\<rparr>" for s by (simp add: r2_def)
    have s1: "r_state r1 = ?s\<lparr>i_back := 0\<rparr>" by (simp add: B)
    note E = length_entry [OF ce]
    have lens: "to_come cl ?s (bitstream r F) G = item_rest ?s G (length_item (dl_of ?s) (length_code here) (bitstream r2 F))" for F
      unfolding tc E(1) fr(5) ..
    have go: "goes (ready r) H beg cl G r (r1\<lparr>r_state := symbol_state m k l e d w ?s\<rparr>)"
      if "m \<in> {LIT, LENEXT, DIST, DISTEXT, MATCH, LEN, TYPE_mode}" "mode_ok cl (r_fixed r) (symbol_state m k l e d w ?s)"
        "\<And>F. to_come cl (symbol_state m k l e d w ?s) (bitstream r2 F) G = to_come cl ?s (bitstream r F) G" for m k l e d w
      unfolding up using that fr(4) by (intro goes_symbol [OF ok ret fr(1-3)]) auto
    show ?thesis
    proof (cases "length_code here")
      case (Lit l)
      then have o: "here_op here = 0" "here_val here = l" by (auto simp: length_code_def Let_def split: if_splits)
      let ?s' = "symbol_state LIT (int n) l (i_extra ?s) (i_offset ?s) (i_was ?s) ?s"
      have "set_mode LIT (upd_state (\<lambda>s. s\<lparr>i_length := here_val here\<rparr>) (add_back n r1)) = r1\<lparr>r_state := ?s'\<rparr>"
        by (rule run.equality) (simp_all add: set_mode_def add_back_def s1 symbol_state_def o)
      moreover have "goes (ready r) H beg cl G r (r1\<lparr>r_state := ?s'\<rparr>)"
        using co E(2) by (intro go) (simp_all add: mode_ok_simps symbol_state_sel to_come_simps symbol_state_rest lens length_item_def length_code_ok_def Lit)
      ultimately show ?thesis unfolding eq Inr x using o by simp
    next
      case Stop
      then have o: "here_op here \<noteq> 0" "here_op here AND 32 \<noteq> 0" by (auto simp: length_code_def Let_def split: if_splits)
      let ?s' = "symbol_state TYPE_mode (- 1) (here_val here) (i_extra ?s) (i_offset ?s) (i_was ?s) ?s"
      have "set_mode TYPE_mode (upd_state (\<lambda>s. s\<lparr>i_back := - 1\<rparr>) (upd_state (\<lambda>s. s\<lparr>i_length := here_val here\<rparr>) (add_back n r1))) =
          r1\<lparr>r_state := ?s'\<rparr>"
        by (rule run.equality) (simp_all add: set_mode_def add_back_def s1 symbol_state_def)
      moreover have "goes (ready r) H beg cl G r (r1\<lparr>r_state := ?s'\<rparr>)"
        by (intro go) (simp_all add: mode_ok_simps symbol_state_sel to_come_simps symbol_state_rest lens length_item_def item_rest_def Stop)
      ultimately show ?thesis unfolding eq Inr x using o by simp
    next
      case (Len l e)
      then have o: "here_op here \<noteq> 0" "here_op here AND 32 = 0" "here_op here AND 64 = 0" "here_val here = l" "here_op here AND 15 = e"
        by (auto simp: length_code_def Let_def split: if_splits)
      let ?s' = "symbol_state LENEXT (int n) l e (i_offset ?s) (i_was ?s) ?s"
      have "set_mode LENEXT (upd_state (\<lambda>s. s\<lparr>i_extra := here_op here AND 15\<rparr>) (upd_state (\<lambda>s. s\<lparr>i_length := here_val here\<rparr>) (add_back n r1))) =
          r1\<lparr>r_state := ?s'\<rparr>"
        by (rule run.equality) (simp_all add: set_mode_def add_back_def s1 symbol_state_def o)
      moreover have "goes (ready r) H beg cl G r (r1\<lparr>r_state := ?s'\<rparr>)"
        using co E(2) by (intro go) (simp_all add: mode_ok_simps symbol_state_sel to_come_simps symbol_state_rest lens length_item_def length_code_ok_def Len)
      ultimately show ?thesis unfolding eq Inr x using o(1-3) by simp
    next
      case Wrong
      then have o: "here_op here \<noteq> 0" "here_op here AND 32 = 0" "here_op here AND 64 \<noteq> 0" by (auto simp: length_code_def Let_def split: if_splits)
      let ?s' = "symbol_state LEN (int n) (here_val here) (i_extra ?s) (i_offset ?s) (i_was ?s) ?s"
      have "goes (ready r) H beg cl G r (bad ''invalid literal/length code'' (upd_state (\<lambda>_. ?s') r2))"
        using ok m fr(1,4) lens Wrong A(5) by (intro goes_bad) (simp_all add: length_item_def symbol_state_sel)
      moreover have "upd_state (\<lambda>_. ?s') r2 = upd_state (\<lambda>s. s\<lparr>i_length := here_val here\<rparr>) (add_back n r1)"
        using m by (intro run.equality) (simp_all add: r2_def add_back_def s1 symbol_state_def)
      ultimately show ?thesis unfolding eq Inr x using o by simp
    qed
  qed
qed

end
