(* ===== verification/InflateMatches.thy ===== *)
theory InflateMatches
  imports InflateSymbols
begin

text \<open>
  The rest of a match in the slow loop: extra bits, the distance, and copying.
\<close>

section \<open>Extra bits\<close>

lemma with_extra_0 [simp]: "with_extra base 0 b = Some (base, b)"
  by (simp add: with_extra_def take_bits_def split: prod.split)

text \<open>The extra bits of a length or a distance: none, or as many as are waited for.\<close>

lemma extra_step:
  assumes ok: "all_ok H beg cl r G" and ret: "r_ret r = Z_OK" and m: "i_mode (r_state r) \<in> {LENEXT, DISTEXT}"
    and tc: "\<And>b. to_come cl (r_state r) b G = item_rest (r_state r) G (Option.bind (with_extra base (i_extra (r_state r)) b) f)"
    and fin: "\<And>x r1. same_but_buffer r r1 \<Longrightarrow> buffer_ok r1 \<Longrightarrow> r_bits r1 < 8 \<Longrightarrow>
      (i_extra (r_state r) \<noteq> 0 \<Longrightarrow> run_bits r1 < run_bits r) \<Longrightarrow> run_bits r1 \<le> run_bits r \<Longrightarrow>
      (\<And>F. with_extra base (i_extra (r_state r)) (bitstream r F) = Some (base + x, bitstream r1 F)) \<Longrightarrow> step_ok H beg cl G r (k x r1)"
  shows "step_ok H beg cl G r
    (if i_extra (r_state r) \<noteq> 0
     then need (i_extra (r_state r)) r (\<lambda>r1. k (low_bits (r_hold r1) (i_extra (r_state r))) (drop_bits (i_extra (r_state r)) r1)) else k 0 r)"
proof (cases "i_extra (r_state r) = 0")
  case True
  have "r_bits r < 8" using all_okD(3) [OF ok] m True by (auto simp: lean_def pending_simps)
  then have "step_ok H beg cl G r (k 0 r)" using True all_okD(4) [OF ok] m by (intro fin) auto
  then show ?thesis using True by simp
next
  case False
  let ?n = "i_extra (r_state r)"
  have n: "?n \<le> 13" using all_okD(2) [OF ok] m by (auto simp: mode_ok_simps)
  have "step_ok H beg cl G r (need ?n r (\<lambda>r1. k (low_bits (r_hold r1) ?n) (drop_bits ?n r1)))"
  proof (rule need_step [OF ok _ ret])
    show "to_come cl (r_state r) b G = None" if "fst b < ?n" for b using that by (simp add: tc with_extra_short)
    fix r1 assume r1: "same_but_buffer r r1" "buffer_ok r1" "?n \<le> r_bits r1" "\<And>F. bitstream r1 F = bitstream r F" "r_bits r1 < ?n + 8"
    note D = drop_run [OF r1(2,3)]
    have low: "low_bits (r_hold r1) ?n = bits_of ?n r1" using r1(2) n by (intro low_bits_of) (auto simp: buffer_ok_def)
    show "step_ok H beg cl G r (k (low_bits (r_hold r1) ?n) (drop_bits ?n r1))"
    proof (rule fin)
      show "same_but_buffer r (drop_bits ?n r1)" using r1(1) D(1) by (rule same_but_buffer_trans)
      show "r_bits (drop_bits ?n r1) < 8" using r1(3,5) by (simp add: drop_bits_sel)
      show "run_bits (drop_bits ?n r1) < run_bits r" "run_bits (drop_bits ?n r1) \<le> run_bits r"
        using D(3) same_bits [OF r1(4)] r1(3) False by auto
      show "with_extra base ?n (bitstream r F) = Some (base + low_bits (r_hold r1) ?n, bitstream (drop_bits ?n r1) F)" for F
        using with_extra_Some [OF D(4) [of F]] low by (simp add: r1(4))
    qed (rule D(2))
  qed (use m n in \<open>auto simp: pending_simps\<close>)
  then show ?thesis using False by simp
qed

lemma step_LENEXT_ok:
  assumes ok: "all_ok H beg cl r G" and m: "i_mode (r_state r) = LENEXT" and ret: "r_ret r = Z_OK"
  shows "step_ok H beg cl G r (step_LENEXT r)"
proof -
  let ?s = "r_state r"
  let ?n = "i_extra ?s"
  define next_state where "next_state x s = symbol_state DIST (i_back s + int ?n) (i_length s + x) (i_extra s) (i_offset s) (i_length s + x) s" for x s
  define k where "k x r1 = Some (Continue (r1\<lparr>r_state := next_state x (r_state r1)\<rparr>))" for x and r1 :: run
  have tc: "to_come cl ?s b G = item_rest ?s G (Option.bind (with_extra (i_length ?s) ?n b) (\<lambda>(len, b). ref_distance (dl_of ?s) len b))" for b
    using m by (simp add: to_come_simps)
  have mo: "codes_ok (r_fixed r) ?s" "3 \<le> i_length ?s" using all_okD(2) [OF ok] m by (auto simp: mode_ok_simps)
  have "step_ok H beg cl G r (if ?n \<noteq> 0 then need ?n r (\<lambda>r1. k (low_bits (r_hold r1) ?n) (drop_bits ?n r1)) else k 0 r)"
  proof (rule extra_step [OF ok ret _ tc])
    fix x r1 assume r1: "same_but_buffer r r1" "buffer_ok r1" "r_bits r1 < 8" "run_bits r1 \<le> run_bits r"
      "\<And>F. with_extra (i_length ?s) ?n (bitstream r F) = Some (i_length ?s + x, bitstream r1 F)"
    show "step_ok H beg cl G r (k x r1)" unfolding k_def step_ok_simps next_state_def buffer_sel(1) [OF r1(1)]
    proof (rule goes_symbol [OF ok ret r1(1-3)])
      show "to_come cl (symbol_state DIST (i_back ?s + int ?n) (i_length ?s + x) ?n (i_offset ?s) (i_length ?s + x) ?s) (bitstream r1 F) G =
          to_come cl ?s (bitstream r F) G" for F
        unfolding tc r1(5) by (simp add: to_come_simps symbol_state_sel symbol_state_rest)
    qed (use mo r1(4) m in \<open>simp_all add: mode_ok_simps symbol_state_sel mode_rank_simps\<close>)
  qed (use m in simp)
  moreover have "set_mode DIST (upd_state (\<lambda>s. s\<lparr>i_was := i_length s\<rparr>)
      (add_back ?n (drop_bits ?n (upd_state (\<lambda>s. s\<lparr>i_length := i_length s + x\<rparr>) r1)))) =
    (drop_bits ?n r1)\<lparr>r_state := next_state x (r_state (drop_bits ?n r1))\<rparr>" for x r1
    by (rule run.equality) (simp_all add: set_mode_def add_back_def drop_bits_def next_state_def symbol_state_def)
  moreover have "set_mode DIST (upd_state (\<lambda>s. s\<lparr>i_was := i_length s\<rparr>) r) = r\<lparr>r_state := next_state 0 ?s\<rparr>" if "?n = 0"
    by (rule run.equality) (simp_all add: set_mode_def next_state_def symbol_state_def that)
  ultimately show ?thesis unfolding step_LENEXT_def Let_def k_def by (cases "?n = 0") simp_all
qed

text \<open>A distance beyond \<open>dmax\<close> is refused.\<close>

lemma step_DISTEXT_ok:
  assumes ok: "all_ok H beg cl r G" and m: "i_mode (r_state r) = DISTEXT" and ret: "r_ret r = Z_OK"
  shows "step_ok H beg cl G r (step_DISTEXT r)"
proof -
  let ?s = "r_state r"
  let ?n = "i_extra ?s"
  define next_state where "next_state x s = symbol_state MATCH (i_back s + int ?n) (i_length s) (i_extra s) (i_offset s + x) (i_was s) s" for x s
  define bad_state where "bad_state x s = symbol_state DISTEXT (i_back s + int ?n) (i_length s) (i_extra s) (i_offset s + x) (i_was s) s" for x s
  define k where "k x r1 = (if i_offset (r_state r1) + x > i_dmax (r_state r1)
      then Some (Continue (bad ''invalid distance too far back'' (upd_state (bad_state x) r1)))
      else Some (Continue (r1\<lparr>r_state := next_state x (r_state r1)\<rparr>)))" for x and r1 :: run
  have tc: "to_come cl ?s b G = item_rest ?s G (Option.bind (with_extra (i_offset ?s) ?n b) (\<lambda>(d, b). Some (Match (i_length ?s) d, b)))" for b
    using m by (cases "with_extra (i_offset ?s) ?n b") (auto simp: to_come_simps)
  have mo: "codes_ok (r_fixed r) ?s" "3 \<le> i_length ?s" "0 < i_offset ?s" using all_okD(2) [OF ok] m by (auto simp: mode_ok_simps)
  have step: "step_ok H beg cl G r (if ?n \<noteq> 0 then need ?n r (\<lambda>r1. k (low_bits (r_hold r1) ?n) (drop_bits ?n r1)) else k 0 r)"
  proof (rule extra_step [OF ok ret _ tc])
    fix x r1 assume r1: "same_but_buffer r r1" "buffer_ok r1" "r_bits r1 < 8" "run_bits r1 \<le> run_bits r"
      "\<And>F. with_extra (i_offset ?s) ?n (bitstream r F) = Some (i_offset ?s + x, bitstream r1 F)"
    have val: "to_come cl ?s (bitstream r F) G = item_rest ?s G (Some (Match (i_length ?s) (i_offset ?s + x), bitstream r1 F))" for F
      unfolding tc r1(5) by simp
    show "step_ok H beg cl G r (k x r1)"
    proof (cases "i_offset ?s + x > i_dmax ?s")
      case True
      then have none: "to_come cl ?s (bitstream r F) G = None" for F unfolding val by (simp add: item_rest_def ref_output_def)
      have "goes (ready r) H beg cl G r (bad ''invalid distance too far back'' (upd_state (bad_state x) r1))"
        using ok m r1(1,4) none all_okD(5) [OF ok] by (intro goes_bad) (simp_all add: bad_state_def symbol_state_sel)
      then show ?thesis using True by (simp add: k_def buffer_sel(1) [OF r1(1)])
    next
      case False
      have "goes (ready r) H beg cl G r (r1\<lparr>r_state := next_state x ?s\<rparr>)"
        unfolding next_state_def
      proof (rule goes_symbol [OF ok ret r1(1-3)])
        show "to_come cl (symbol_state MATCH (i_back ?s + int ?n) (i_length ?s) ?n (i_offset ?s + x) (i_was ?s) ?s) (bitstream r1 F) G =
            to_come cl ?s (bitstream r F) G" for F
          unfolding val by (simp add: to_come_simps symbol_state_sel symbol_state_rest)
      qed (use mo r1(4) m False in \<open>simp_all add: mode_ok_simps symbol_state_sel mode_rank_simps\<close>)
      then show ?thesis using False by (simp add: k_def buffer_sel(1) [OF r1(1)])
    qed
  qed (use m in simp)
  moreover have "add_back ?n (drop_bits ?n (upd_state (\<lambda>s. s\<lparr>i_offset := i_offset s + x\<rparr>) r1)) =
      upd_state (\<lambda>s. s\<lparr>i_back := i_back s + int ?n, i_offset := i_offset s + x\<rparr>) (drop_bits ?n r1)" for x r1
    by (rule run.equality) (simp_all add: add_back_def drop_bits_def)
  moreover have "set_mode MATCH (upd_state (\<lambda>s. s\<lparr>i_back := i_back s + int ?n, i_offset := i_offset s + x\<rparr>) r1) =
      r1\<lparr>r_state := next_state x (r_state r1)\<rparr>" for x r1
    by (rule run.equality) (simp_all add: set_mode_def next_state_def symbol_state_def)
  moreover have "bad msg (upd_state (\<lambda>s. s\<lparr>i_back := i_back s + int ?n, i_offset := i_offset s + x\<rparr>) r1) =
      bad msg (upd_state (bad_state x) r1)" for x r1 msg
    by (rule run.equality) (simp_all add: bad_def set_mode_def bad_state_def symbol_state_def)
  moreover have "set_mode MATCH r = r\<lparr>r_state := next_state 0 ?s\<rparr>" "bad msg r = bad msg (upd_state (bad_state 0) r)" if "?n = 0" for msg
    using m by (intro run.equality; simp add: bad_def set_mode_def next_state_def bad_state_def symbol_state_def that)+
  moreover have "i_offset (r_state (drop_bits ?n r1)) = i_offset (r_state r1)" "i_dmax (r_state (drop_bits ?n r1)) = i_dmax (r_state r1)" for r1
    by (simp_all add: drop_bits_def)
  ultimately have "step_DISTEXT r = (if ?n \<noteq> 0 then need ?n r (\<lambda>r1. k (low_bits (r_hold r1) ?n) (drop_bits ?n r1)) else k 0 r)"
    unfolding step_DISTEXT_def Let_def k_def by (cases "?n = 0") (simp_all cong: if_cong)
  with step show ?thesis by simp
qed

section \<open>A distance code\<close>

lemma step_DIST_ok:
  assumes ok: "all_ok H beg cl r G" and m: "i_mode (r_state r) = DIST" and ret: "r_ret r = Z_OK"
  shows "step_ok H beg cl G r (step_DIST r)"
proof -
  note A = all_okD [OF ok]
  let ?s = "r_state r"
  let ?table = "dist_table (r_fixed r) ?s" and ?bits = "i_distbits ?s"
  have buf: "buffer_ok r" using A(4) m by simp
  have co: "codes_ok (r_fixed r) ?s" "3 \<le> i_length ?s" and t: "table_for DISTS (dl_of ?s) ?table ?bits"
    using A(2) m by (auto simp: mode_ok_simps codes_ok_def)
  have sh: "short ?table ?bits r" using A(3) m by (simp add: lean_def pending_simps short_def)
  have tc: "to_come cl ?s b G = item_rest ?s G (ref_distance (dl_of ?s) (i_length ?s) b)" for b using m by (simp add: to_come_simps)
  note read = read_code_ok [OF t distance_links [OF t] buf]
  show ?thesis
  proof (cases "read_code (\<lambda>op. op AND 0xf0 = 0) ?table ?bits r")
    case (Inl r')
    then have P: "pulled (code_bits ?table ?bits) r r'" "r_have r' = 0" "r_bits r' < code_bits ?table ?bits (r_hold r')" using read by auto
    have Q: "same_but_buffer r r'" "buffer_ok r'" "\<And>F. bitstream r' F = bitstream r F" using P(1) by (auto simp: pulled_def)
    note B = buffer_sel [OF Q(1)]
    have "ref_symbol (dl_of ?s) (bitstream r' []) = None" using code_pending [OF t Q(2) P(2,3)] .
    then have none: "to_come cl ?s (bitstream r []) G = None" unfolding tc by (simp add: Q(3) ref_distance_def)
    have "goes stopped H beg cl G r r'"
    proof (rule goesI [where cl' = cl and G' = G])
      show "run_ok H beg r' G" using A(1) Q run_ok_buffer by blast
      show "mode_ok cl (r_fixed r') (r_state r')" using A(2) by (simp add: B)
      show "lean cl r'" using P(3) m by (simp add: lean_def pending_simps B)
      show "same_call r r'" using Q(1) by (rule same_call_buffer)
      show "stopped cl G r'" using P(2) none m ret by (simp add: stopped_def B Q(3))
    qed (simp add: B Q(3))
    then show ?thesis unfolding step_DIST_def Inl by simp
  next
    case (Inr x)
    obtain here n r1 where x: "x = (here, n, r1)" by (cases x) auto
    then have R: "code_read DISTS (dl_of ?s) ?table ?bits r here n r1" using read Inr by simp
    have fr: "same_but_buffer r r1" and b1: "buffer_ok r1" "r_bits r1 < 8" "run_bits r1 < run_bits r"
      and ce: "\<And>F. code_entry DISTS (dl_of ?s) (bitstream r F) here (bitstream r1 F)"
      using R sh by (auto simp: code_read_def short_def)
    note B = buffer_sel [OF fr]
    note E = distance_entry [OF ce]
    show ?thesis
    proof (cases "here_op here AND 64 = 0")
      case False
      then have none: "to_come cl ?s (bitstream r F) G = None" for F unfolding tc E(1) by simp
      have "goes (ready r) H beg cl G r (bad ''invalid distance code'' (upd_state (\<lambda>s. s\<lparr>i_back := i_back s + int n\<rparr>) r1))"
        using ok m fr b1(3) none A(5) by (intro goes_bad) (simp_all add: state_ok_def window_ok_upd)
      then show ?thesis using False unfolding step_DIST_def Inr x by (simp add: add_back_def)
    next
      case True
      let ?s' = "symbol_state DISTEXT (i_back ?s + int n) (i_length ?s) (here_op here AND 15) (here_val here) (i_was ?s) ?s"
      have "set_mode DISTEXT (upd_state (\<lambda>s. s\<lparr>i_offset := here_val here, i_extra := here_op here AND 15\<rparr>) (add_back n r1)) =
          r1\<lparr>r_state := ?s'\<rparr>"
        by (rule run.equality) (simp_all add: set_mode_def add_back_def B symbol_state_def)
      moreover have "goes (ready r) H beg cl G r (r1\<lparr>r_state := ?s'\<rparr>)"
      proof (rule goes_symbol [OF ok ret fr b1(1,2)])
        show "to_come cl ?s' (bitstream r1 F) G = to_come cl ?s (bitstream r F) G" for F
          unfolding tc E(1) using True by (simp add: to_come_simps symbol_state_sel symbol_state_rest)
      qed (use co b1(3) E(2) True in \<open>simp_all add: mode_ok_simps symbol_state_sel\<close>)
      ultimately show ?thesis using True unfolding step_DIST_def Inr x by simp
    qed
  qed
qed

section \<open>Literals\<close>

lemma goes_full:
  assumes ok: "all_ok H beg cl r G" and m: "i_mode (r_state r) \<in> {MATCH, LIT}" and ret: "r_ret r = Z_OK" and full: "r_left r = 0"
  shows "goes stopped H beg cl G r r"
  unfolding goes_def
proof (intro exI conjI allI)
  show "stopped cl G r" using m ret full by (auto simp: stopped_def full_def)
qed (use ok in simp_all)

lemma codes_mode: "codes_ok g (s\<lparr>i_mode := m\<rparr>) = codes_ok g s" "codes_ok g (s\<lparr>i_length := n\<rparr>) = codes_ok g s"
  "ll_of (s\<lparr>i_mode := m\<rparr>) = ll_of s" "dl_of (s\<lparr>i_mode := m\<rparr>) = dl_of s"
  "ll_of (s\<lparr>i_length := n\<rparr>) = ll_of s" "dl_of (s\<lparr>i_length := n\<rparr>) = dl_of s"
  by (simp_all add: codes_ok_def len_table_def dist_table_def ll_of_def dl_of_def split: table_ref.split)

lemma rest_mode: "codes_rest (s\<lparr>i_mode := m\<rparr>) b G = codes_rest s b G" "item_rest (s\<lparr>i_mode := m\<rparr>) G x = item_rest s G x"
  "codes_rest (s\<lparr>i_length := n\<rparr>) b G = codes_rest s b G" "item_rest (s\<lparr>i_length := n\<rparr>) G x = item_rest s G x"
  by (rule rest_cong; simp add: codes_mode)+

lemma step_LIT_ok:
  assumes ok: "all_ok H beg cl r G" and m: "i_mode (r_state r) = LIT" and ret: "r_ret r = Z_OK"
  shows "step_ok H beg cl G r (step_LIT r)"
proof (cases "r_left r = 0")
  case True
  then show ?thesis using goes_full [OF ok _ ret True] m by (simp add: step_LIT_def)
next
  case False
  note A = all_okD [OF ok]
  let ?v = "int (i_length (r_state r))"
  let ?r' = "set_mode LEN (r\<lparr>r_output := (r_output r)[r_put r := ?v mod 256], r_put := r_put r + 1, r_left := r_left r - 1\<rparr>)"
  have mo: "codes_ok (r_fixed r) (r_state r)" "?v < 256" using A(2) m by (auto simp: mode_ok_simps)
  note R = A(1) [unfolded run_ok_def]
  have lt: "r_put r < length (r_output r)" using R False by simp
  have v: "?v mod 256 = ?v" using mo(2) by simp
  have o: "out_ok H beg (r_put r + 1) ((r_output r)[r_put r := ?v]) (G @ [?v])" using R mo(2) lt by (intro out_ok_snoc) auto
  have "goes (ready r) H beg cl G r ?r'"
  proof (rule goesI [where cl' = cl and G' = "G @ [?v]"])
    show "run_ok H beg ?r' (G @ [?v])" using R False m o out_okD(3) [of H beg "r_put r" "r_output r" G]
      unfolding v by (auto simp: run_ok_def state_ok_def buffer_ok_def)
    show "mode_ok cl (r_fixed ?r') (r_state ?r')" using mo(1) by (simp add: mode_ok_simps codes_mode)
    show "lean cl ?r'" using A(3) m by (simp add: lean_def pending_simps)
    show "to_come cl (r_state ?r') (bitstream ?r' F) (G @ [?v]) = to_come cl (r_state r) (bitstream r F) G" for F
      using m by (simp add: to_come_simps rest_mode item_rest_def ref_output_def bitstream_def unread_def)
    show "same_call r ?r'" by (simp add: same_call_def)
    show "ready r cl (G @ [?v]) ?r'" using False ret by (auto simp: ready_def intro!: step_order_left)
  qed
  then show ?thesis using False by (simp add: step_LIT_def)
qed

section \<open>Copying a match\<close>

text \<open>A distance that is not too far back for the format is in the output or in the window.\<close>

lemma match_range:
  assumes w: "window_ok s H" "i_dmax s \<le> 2 ^ i_wbits s" and d: "0 < d" "d \<le> i_dmax s" and len: "length G = length H + k"
  shows "d \<le> length G \<longleftrightarrow> d \<le> k + i_whave s"
    "d \<le> length G \<Longrightarrow> k < d \<Longrightarrow> ring_ok (nullable (i_window s)) (i_wsize s) (i_wnext s) (i_whave s) H"
proof -
  note W = w(1) [unfolded window_ok_def] and have_w = window_ok_have [OF w(1)]
  show "d \<le> length G \<longleftrightarrow> d \<le> k + i_whave s"
  proof (cases "i_window s")
    case None
    then show ?thesis using W len by simp
  next
    case (Some v)
    then show ?thesis using W len w(2) d by (auto split: if_splits)
  qed
  then show "ring_ok (nullable (i_window s)) (i_wsize s) (i_wnext s) (i_whave s) H" if "d \<le> length G" "k < d"
    using W that by (auto simp: ring_ok_def nullable_def split: option.splits if_splits)
qed

lemma match_bounds:
  assumes ok: "run_ok H beg r G" and d: "0 < d" "d \<le> i_dmax (r_state r)"
  shows "d \<le> length G \<longleftrightarrow> d \<le> r_put r - beg + i_whave (r_state r)"
    "d \<le> length G \<Longrightarrow> d \<le> r_put r - beg \<or>
      ring_ok (nullable (i_window (r_state r))) (i_wsize (r_state r)) (i_wnext (r_state r)) (i_whave (r_state r)) H \<and>
      d \<le> r_put r - beg + i_whave (r_state r)"
proof -
  have w: "window_ok (r_state r) H" "i_dmax (r_state r) \<le> 2 ^ i_wbits (r_state r)" and len: "length G = length H + (r_put r - beg)"
    using ok out_okD(1) by (auto simp: run_ok_def state_ok_def)
  note M = match_range [OF w d len]
  show "d \<le> length G \<longleftrightarrow> d \<le> r_put r - beg + i_whave (r_state r)" by (rule M(1))
  then show "d \<le> length G \<Longrightarrow> d \<le> r_put r - beg \<or>
      ring_ok (nullable (i_window (r_state r))) (i_wsize (r_state r)) (i_wnext (r_state r)) (i_whave (r_state r)) H \<and>
      d \<le> r_put r - beg + i_whave (r_state r)"
    using M(2) by (cases "d \<le> r_put r - beg") auto
qed

lemma step_MATCH_goes:
  assumes ok: "all_ok H beg cl r G" and m: "i_mode (r_state r) = MATCH" and ret: "r_ret r = Z_OK"
  shows "step_ok H beg cl G r (step_MATCH r)"
proof (cases "r_left r = 0")
  case True
  then show ?thesis using goes_full [OF ok _ ret True] m by (simp add: step_MATCH_def)
next
  case False
  note A = all_okD [OF ok]
  let ?s = "r_state r"
  let ?d = "i_offset ?s" and ?len = "i_length ?s"
  have mo: "codes_ok (r_fixed r) ?s" "0 < ?len" "0 < ?d" "?d \<le> i_dmax ?s" using A(2) m by (auto simp: mode_ok_simps)
  note R = A(1) [unfolded run_ok_def] and bounds = match_bounds [OF A(1) mo(3,4)]
  have beg: "r_out r - r_left r = r_put r - beg" using R by linarith
  have tc: "to_come cl ?s b G = (if ?d \<le> length G then codes_rest ?s b (lz_copy ?len ?d G) else None)" for b
    using m mo(4) by (simp add: to_come_simps item_rest_def ref_output_def)
  show ?thesis
  proof (cases "?d \<le> length G")
    case far: False
    have "goes (ready r) H beg cl G r (bad ''invalid distance too far back'' (upd_state (\<lambda>s. s) r))"
      using ok m far A(5) by (intro goes_bad) (simp_all add: tc)
    moreover have "step_MATCH r = Some (Continue (bad ''invalid distance too far back'' r))"
      using far bounds(1) A(5) False unfolding step_MATCH_def beg by (auto simp: Let_def state_ok_def)
    moreover have "upd_state (\<lambda>s. s) r = r" by (rule run.equality) simp_all
    ultimately show ?thesis by simp
  next
    case True
    have o: "out_ok H beg (r_put r) (r_output r) G" "r_put r + r_left r \<le> length (r_output r)" "0 < r_left r" using R False by auto
    from step_MATCH_ok [OF o(1) beg o(2,3) mo(2,3) bounds(2) [OF True]] obtain n op where
      t: "turn_ok H beg G r n op" and e: "step_MATCH r = Some (Continue (match_turn r n op))" by blast
    note T = t [unfolded turn_ok_def]
    let ?r' = "match_turn r n op" and ?G' = "lz_copy n ?d G"
    have s': "r_state ?r' = ?s\<lparr>i_length := ?len - n, i_mode := (if ?len = n then LEN else MATCH)\<rparr>" using m by (simp add: match_turn_def)
    have b: "bitstream ?r' F = bitstream r F" for F by (simp add: match_turn_def bitstream_def unread_def)
    have "goes (ready r) H beg cl G r ?r'"
    proof (rule goesI [where cl' = cl and G' = ?G'])
      have bp: "beg \<le> r_put r" using o(1) by (simp add: out_ok_def)
      show "run_ok H beg ?r' ?G'" using R T m bp by (auto simp: run_ok_def match_turn_def state_ok_def buffer_ok_def)
      show "mode_ok cl (r_fixed ?r') (r_state ?r')" using mo T m by (auto simp: s' match_turn_def mode_ok_simps codes_mode)
      show "lean cl ?r'" using A(3) m by (auto simp: lean_def pending_simps s') (simp_all add: match_turn_def)
      show "to_come cl (r_state ?r') (bitstream ?r' F) ?G' = to_come cl ?s (bitstream r F) G" for F
      proof (cases "?len = n")
        case full: True
        then show ?thesis unfolding tc b s' using True by (simp add: to_come_simps rest_mode)
      next
        case part: False
        have "lz_copy (?len - n) ?d ?G' = lz_copy ?len ?d G" using lz_copy_add [of n "?len - n" ?d G] T by simp
        then show ?thesis unfolding tc b s' using part True mo(4) by (simp add: to_come_simps rest_mode item_rest_def ref_output_def)
      qed
      show "same_call r ?r'" using T by (simp add: same_call_def match_turn_def)
      show "ready r cl ?G' ?r'" using T ret by (auto simp: ready_def match_turn_def intro!: step_order_left)
    qed
    then show ?thesis unfolding e by simp
  qed
qed

end
