(* ===== verification/InflateFastOk.thy ===== *)
theory InflateFastOk
  imports InflateMatches
begin

text \<open>
  \<open>inflate_fast\<close>: each turn of its loop decodes one item of the specification, it ends, and the bytes that
  it returns at the end are those that it pulled without using their bits.
\<close>

section \<open>The loop's variables as a run\<close>

definition as_run :: "run \<Rightarrow> fast \<Rightarrow> run" where
  "as_run r f = r\<lparr>r_next := f_in f, r_have := r_next r + r_have r - f_in f, r_hold := f_hold f, r_bits := nat (f_bits f)\<rparr>"

text \<open>Some bits of the stream were taken, and no others.\<close>

definition advanced :: "run \<Rightarrow> run \<Rightarrow> bool" where
  "advanced r r' \<longleftrightarrow> run_bits r' \<le> run_bits r \<and>
     (\<forall>F. snd (bitstream r' F) = snd (bitstream r F) div 2 ^ (run_bits r - run_bits r'))"

lemma advanced_refl: "advanced r r"
  by (simp add: advanced_def)

lemma advanced_same: "advanced r r1 \<Longrightarrow> (\<And>F. bitstream r2 F = bitstream r1 F) \<Longrightarrow> advanced r r2"
  using same_bits [of r2 r1] by (simp add: advanced_def)

lemma advanced_drop:
  assumes "advanced r r1" "buffer_ok r1" "n \<le> r_bits r1"
  shows "advanced r (drop_bits n r1)"
proof -
  have le: "run_bits (drop_bits n r1) = run_bits r1 - n" by (rule drop_run(3) [OF assms(2,3)])
  have d: "snd (bitstream (drop_bits n r1) F) = snd (bitstream r1 F) div 2 ^ n" for F
  proof -
    obtain c v where b: "bitstream r1 F = (c, v)" by fastforce
    then have "bitstream (drop_bits n r1) F = (c - n, v div 2 ^ n)"
      using drop_run(4) [OF assms(2,3), of F] by (auto simp: take_bits_def split: if_splits)
    then show ?thesis by (simp add: b)
  qed
  have e: "run_bits r - run_bits (drop_bits n r1) = run_bits r - run_bits r1 + n" using assms by (auto simp: le advanced_def)
  have "snd (bitstream (drop_bits n r1) F) = snd (bitstream r F) div 2 ^ (run_bits r - run_bits (drop_bits n r1))" for F
    using assms(1) unfolding d e power_add div_mult2_eq by (simp add: advanced_def)
  moreover have "run_bits (drop_bits n r1) \<le> run_bits r" using assms(1) unfolding le advanced_def by linarith
  ultimately show ?thesis unfolding advanced_def by blast
qed

definition fast_fits :: "run \<Rightarrow> fast \<Rightarrow> bool" where
  "fast_fits r f \<longleftrightarrow> 0 \<le> f_bits f \<and> r_next r \<le> f_in f \<and> f_in f \<le> r_next r + r_have r \<and> buffer_ok (as_run r f) \<and> advanced r (as_run r f)"

abbreviation fast_left :: "run \<Rightarrow> fast \<Rightarrow> nat" where
  "fast_left r f \<equiv> run_bits (as_run r f)"

text \<open>Only the buffer changed; the stream is the same, or the first is ahead of the second.\<close>

definition same_output :: "fast \<Rightarrow> fast \<Rightarrow> bool" where
  "same_output f f' \<longleftrightarrow> f_out f' = f_out f \<and> f_output f' = f_output f \<and> f_mode f' = f_mode f \<and> f_msg f' = f_msg f"

definition filled :: "run \<Rightarrow> nat \<Rightarrow> fast \<Rightarrow> fast \<Rightarrow> bool" where
  "filled r n f f' \<longleftrightarrow> fast_fits r f' \<and> same_output f f' \<and> int n \<le> f_bits f' \<and> f_bits f \<le> f_bits f' \<and>
     (\<forall>F. bitstream (as_run r f') F = bitstream (as_run r f) F) \<and> f_hold f' mod 2 ^ nat (f_bits f) = f_hold f"

lemma same_output_trans: "same_output f f' \<Longrightarrow> same_output f' f'' \<Longrightarrow> same_output f f''"
  by (simp add: same_output_def)

lemma same_output_drop [simp]: "same_output f (fast_drop n f)"
  by (simp add: same_output_def fast_drop_def)

lemma fast_pull_run:
  assumes f: "fast_fits r f" "e_input e = r_input r" and b: "f_bits f \<le> 23" and h: "f_bits f < int (fast_left r f)"
  shows "filled r 8 f (fast_pull e f)" "f_bits (fast_pull e f) = f_bits f + 8"
proof -
  have F: "0 \<le> f_bits f" "r_next r \<le> f_in f" "f_in f \<le> r_next r + r_have r" "buffer_ok (as_run r f)" "advanced r (as_run r f)"
    using f by (auto simp: fast_fits_def)
  let ?R = "as_run r f"
  have have0: "0 < r_have ?R" and b23: "r_bits ?R \<le> 23" using h b F(1) by (auto simp: as_run_def)
  have m: "nat (f_bits f mod 32) = nat (f_bits f)" using b F(1) by simp
  have e: "as_run r (fast_pull e f) = pull_byte ?R" by (rule run.equality) (simp_all add: as_run_def fast_pull_def pull_byte_def f m nat_add_distrib F(1))
  note P = pull_byte_ok [OF F(4) have0 b23] and H = pull_byte_hold [OF F(4) have0 b23]
  have "r_hold (pull_byte ?R) = f_hold (fast_pull e f)" unfolding e [symmetric] by (simp add: as_run_def)
  then have hold: "f_hold (fast_pull e f) mod 2 ^ nat (f_bits f) = f_hold f" using H by (simp add: as_run_def)
  have inn: "f_in f < r_next r + r_have r" using have0 by (simp add: as_run_def)
  show "f_bits (fast_pull e f) = f_bits f + 8" by (simp add: fast_pull_def)
  show "filled r 8 f (fast_pull e f)"
    using F inn P hold advanced_same [OF F(5) P(2)] unfolding filled_def fast_fits_def e
    by (auto simp: same_output_def fast_pull_def)
qed

lemma filled_refl: "fast_fits r f \<Longrightarrow> int n \<le> f_bits f \<Longrightarrow> filled r n f f"
proof -
  assume f: "fast_fits r f" "int n \<le> f_bits f"
  then have "buffer_ok (as_run r f)" by (simp add: fast_fits_def)
  then have "0 \<le> f_hold f" "f_hold f < 2 ^ nat (f_bits f)" by (simp_all add: buffer_ok_def as_run_def)
  then show ?thesis using f by (simp add: filled_def same_output_def)
qed

lemma filled_trans:
  assumes "filled r m f f1" "filled r n f1 f2"
  shows "filled r n f f2"
proof -
  have "f_hold f2 mod 2 ^ nat (f_bits f) = f_hold f2 mod 2 ^ nat (f_bits f1) mod 2 ^ nat (f_bits f)"
    using assms by (intro int_mod_mod [symmetric] nat_mono) (simp add: filled_def)
  also have "\<dots> = f_hold f" using assms by (simp add: filled_def)
  finally show ?thesis using assms same_output_trans [of f f1 f2] by (simp add: filled_def)
qed

lemma filled_weaken: "filled r m f f' \<Longrightarrow> int n \<le> f_bits f' \<Longrightarrow> filled r n f f'"
  by (simp add: filled_def)

lemma filled_left: "filled r n f f' \<Longrightarrow> fast_left r f' = fast_left r f"
  by (rule same_bits) (simp add: filled_def)

text \<open>\<open>if (bits < 15) { two bytes }\<close>, as there are enough, and the bytes for extra bits.\<close>

lemma fill_15:
  assumes f: "fast_fits r f" "e_input e = r_input r" and l: "28 \<le> fast_left r f"
  shows "filled r 15 f (if f_bits f < 15 then fast_pull e (fast_pull e f) else f)"
proof (cases "f_bits f < 15")
  case True
  have "0 \<le> f_bits f" using f by (simp add: fast_fits_def)
  have 1: "filled r 8 f (fast_pull e f)" "f_bits (fast_pull e f) = f_bits f + 8" using True l by (intro fast_pull_run [OF f]; linarith)+
  have "fast_fits r (fast_pull e f)" using 1(1) by (simp add: filled_def)
  from fast_pull_run [OF this f(2)] have 2: "filled r 8 (fast_pull e f) (fast_pull e (fast_pull e f))"
    "f_bits (fast_pull e (fast_pull e f)) = f_bits f + 16" using True l filled_left [OF 1(1)] 1(2) by auto
  have "filled r 15 f (fast_pull e (fast_pull e f))"
    using filled_trans [OF 1(1) 2(1)] 2(2) \<open>0 \<le> f_bits f\<close> by (auto intro: filled_weaken)
  then show ?thesis using True by simp
next
  case False
  then show ?thesis using f filled_refl [of r f 15] by simp
qed

lemma fill_1:
  assumes f: "fast_fits r f" "e_input e = r_input r" and n: "n \<le> 8" and l: "n \<le> fast_left r f"
  shows "filled r n f (if f_bits f < int n then fast_pull e f else f)"
proof (cases "f_bits f < int n")
  case True
  then have "filled r 8 f (fast_pull e f)" "f_bits (fast_pull e f) = f_bits f + 8" using n l by (intro fast_pull_run [OF f]; linarith)+
  then show ?thesis using True n f by (auto simp: fast_fits_def intro: filled_weaken)
next
  case False
  then show ?thesis using f filled_refl [of r f n] by simp
qed

lemma fill_2:
  assumes f: "fast_fits r f" "e_input e = r_input r" and n: "n \<le> 15" and l: "n \<le> fast_left r f"
  shows "filled r n f (if f_bits f < int n then let f = fast_pull e f in if f_bits f < int n then fast_pull e f else f else f)"
proof (cases "f_bits f < int n")
  case True
  have b0: "0 \<le> f_bits f" using f by (simp add: fast_fits_def)
  have 1: "filled r 8 f (fast_pull e f)" "f_bits (fast_pull e f) = f_bits f + 8" using True n l by (intro fast_pull_run [OF f]; linarith)+
  have f1: "fast_fits r (fast_pull e f)" using 1(1) by (simp add: filled_def)
  show ?thesis
  proof (cases "f_bits (fast_pull e f) < int n")
    case more: True
    from fast_pull_run [OF f1 f(2)] have 2: "filled r 8 (fast_pull e f) (fast_pull e (fast_pull e f))"
      "f_bits (fast_pull e (fast_pull e f)) = f_bits f + 16" using more n l filled_left [OF 1(1)] 1(2) by auto
    have "filled r n f (fast_pull e (fast_pull e f))"
      using filled_trans [OF 1(1) 2(1)] 2(2) b0 n by (auto intro: filled_weaken)
    then show ?thesis using True more by simp
  next
    case False
    then show ?thesis using True filled_weaken [OF 1(1), of n] by simp
  qed
next
  case False
  then show ?thesis using f filled_refl [of r f n] by simp
qed

lemma fast_drop_run:
  assumes f: "fast_fits r f" and n: "int n \<le> f_bits f"
  shows "as_run r (fast_drop n f) = drop_bits n (as_run r f)" "fast_fits r (fast_drop n f)"
    "take_bits n (bitstream (as_run r f) F) = Some (nat (f_hold f) mod 2 ^ n, bitstream (as_run r (fast_drop n f)) F)"
    "fast_left r (fast_drop n f) + n = fast_left r f" "f_bits (fast_drop n f) = f_bits f - int n"
proof -
  have F: "0 \<le> f_bits f" "buffer_ok (as_run r f)" "advanced r (as_run r f)" using f by (auto simp: fast_fits_def)
  show e: "as_run r (fast_drop n f) = drop_bits n (as_run r f)"
    using F n by (intro run.equality) (simp_all add: as_run_def fast_drop_def drop_bits_def nat_diff_distrib)
  have le: "n \<le> r_bits (as_run r f)" using n by (simp add: as_run_def)
  note D = drop_run [OF F(2) le]
  show "fast_fits r (fast_drop n f)" unfolding fast_fits_def e
    using D(2) advanced_drop [OF F(3,2) le] f n by (auto simp: fast_fits_def fast_drop_def)
  have "n \<le> 31" "0 \<le> r_hold (as_run r f)" using le F(2) by (auto simp: buffer_ok_def)
  then have "bits_of n (as_run r f) = nat (f_hold f) mod 2 ^ n" using bits_of_nat by (simp add: as_run_def)
  then show "take_bits n (bitstream (as_run r f) F) = Some (nat (f_hold f) mod 2 ^ n, bitstream (as_run r (fast_drop n f)) F)"
    using D(4) e by simp
  show "fast_left r (fast_drop n f) + n = fast_left r f" using D(3) le e by simp
  show "f_bits (fast_drop n f) = f_bits f - int n" by (simp add: fast_drop_def)
qed

lemma fast_hold: "fast_fits r f \<Longrightarrow> 0 \<le> f_hold f \<and> f_hold f < 2147483648"
  using hold_less [of "as_run r f"] by (auto simp: fast_fits_def buffer_ok_def as_run_def)

lemma fast_drop_drop:
  assumes "fast_fits r f" "a + b \<le> 31"
  shows "fast_drop b (fast_drop a f) = fast_drop (a + b) f"
proof -
  have h: "0 \<le> f_hold f" "f_hold f < 2147483648" using fast_hold assms(1) by auto
  have "0 \<le> f_hold f div 2 ^ a" "f_hold f div 2 ^ a \<le> f_hold f" using h zdiv_mono2 [of "f_hold f" 1 "2 ^ a"] by (simp_all add: pos_imp_zdiv_nonneg_iff)
  then have "js_ushr (js_ushr (f_hold f) a) b = js_ushr (f_hold f) (a + b)"
    using h assms(2) by (simp add: js_ushr_div power_add zdiv_zmult2_eq)
  then show ?thesis by (simp add: fast_drop_def)
qed

section \<open>Codes\<close>

text \<open>What \<open>inflate_fast\<close> does with a length code and with a distance code, links followed.\<close>

definition length_op :: "fast_env \<Rightarrow> length_code \<Rightarrow> fast \<Rightarrow> (bool \<times> fast) option" where
  "length_op e c f =
     (case c of Lit l \<Rightarrow> Some (False, f\<lparr>f_output := (f_output f)[f_out f := int l mod 256], f_out := f_out f + 1\<rparr>)
      | Len l x \<Rightarrow> fast_length e l x f
      | Stop \<Rightarrow> Some (True, f\<lparr>f_mode := TYPE_mode\<rparr>)
      | Wrong \<Rightarrow> Some (True, fast_bad ''invalid literal/length code'' f))"

definition distance_op :: "fast_env \<Rightarrow> int \<Rightarrow> nat \<Rightarrow> fast \<Rightarrow> (bool \<times> fast) option" where
  "distance_op e here len f =
     (if here_op here AND 64 \<noteq> 0 then Some (True, fast_bad ''invalid distance code'' f)
      else fast_distance e (here_val here) (here_op here AND 15) len f)"

lemma dolen_entry:
  assumes c: "code_entry LENS ll b here b'"
  shows "fast_dolen e here f = length_op e (length_code here) (fast_drop (here_bits here) f)"
proof -
  note E = length_entry [OF c]
  show ?thesis
  proof (cases "length_code here")
    case (Lit l)
    then have "here_op here = 0" "here_val here = l" by (auto simp: length_code_def Let_def split: if_splits)
    then show ?thesis by (subst fast_dolen.simps) (simp add: length_op_def Lit Let_def)
  next
    case (Len l x)
    then have "here_op here \<noteq> 0" "here_val here = l" "here_op here AND 15 = x" "here_op here AND 16 \<noteq> 0"
      using E(4) by (auto simp: length_code_def Let_def split: if_splits)
    then show ?thesis by (subst fast_dolen.simps) (simp add: length_op_def Len Let_def)
  next
    case Stop
    then have "here_op here \<noteq> 0" "here_op here AND 32 \<noteq> 0" "here_op here AND 16 = 0" "here_op here AND 64 \<noteq> 0"
      using E(4,5) by (auto simp: length_code_def Let_def split: if_splits)
    then show ?thesis by (subst fast_dolen.simps) (simp add: length_op_def Stop Let_def)
  next
    case Wrong
    then have "here_op here \<noteq> 0" "here_op here AND 32 = 0" "here_op here AND 16 = 0" "here_op here AND 64 \<noteq> 0"
      using E(4,5) by (auto simp: length_code_def Let_def split: if_splits)
    then show ?thesis by (subst fast_dolen.simps) (simp add: length_op_def Wrong Let_def)
  qed
qed

lemma dodist_entry:
  assumes c: "code_entry DISTS dl b here b'"
  shows "fast_dodist e here len f = distance_op e here len (fast_drop (here_bits here) f)"
  using distance_entry(4) [OF c] by (subst fast_dodist.simps) (auto simp: distance_op_def Let_def)

lemma link_ops: "is_link here \<Longrightarrow> here_op here \<noteq> 0 \<and> here_op here AND 16 = 0 \<and> here_op here AND 64 = 0"
proof -
  assume "is_link here"
  then have o: "here_op here \<noteq> 0" "here_op here AND 0xf0 = 0" by (auto simp: is_link_def)
  have "here_op here AND 16 = (here_op here AND 0xf0) AND 16" "here_op here AND 64 = (here_op here AND 0xf0) AND 64"
    by (simp_all add: and.assoc)
  then show ?thesis using o by simp
qed

text \<open>The lookup of both levels, on the bits of \<open>hold\<close>.\<close>

lemma fast_lookup:
  assumes t: "table_for type ls table bits" and f: "fast_fits r f" "15 \<le> f_bits f" and mask: "m = 2 ^ bits - 1"
    and l: "lookup_code table bits (nat (f_hold f)) = (n, here)" and first: "first = at table (nat (js_and (f_hold f) m))"
  shows "\<not> is_link first \<Longrightarrow> here = first \<and> n = here_bits first"
    "is_link first \<Longrightarrow> here_bits first \<le> 15 \<and> n = here_bits first + here_bits here \<and>
      here = at table (here_val first + low_bits (f_hold (fast_drop (here_bits first) f)) (here_op first))"
proof -
  have h: "0 \<le> f_hold f" "f_hold f < 2147483648" using fast_hold f(1) by auto
  have b15: "bits \<le> 15" using t by (simp add: table_for_def)
  have "nat (js_and (f_hold f) m) = nat (f_hold f) mod 2 ^ bits"
    using h b15 by (simp add: mask js_and_mask nat_mod_power)
  then have fst_at: "first = first_at table bits (nat (f_hold f))" by (simp add: first first_at_mod)
  show "here = first \<and> n = here_bits first" if "\<not> is_link first"
    using lookup_first [of table bits "nat (f_hold f)"] that l by (simp add: fst_at)
  show "here_bits first \<le> 15 \<and> n = here_bits first + here_bits here \<and>
      here = at table (here_val first + low_bits (f_hold (fast_drop (here_bits first) f)) (here_op first))" if link: "is_link first"
  proof -
    have hb: "here_bits first = bits"
      using link table_for_Some(4) [OF t] table_for_None(3) [OF t] unfolding fst_at by (cases "decode ls (nat (f_hold f))") auto
    have o: "here_op first < 16" using link_op_less [OF link] .
    have "drop_bit bits (nat (f_hold f) AND (2 ^ (bits + here_op first) - 1)) = low_bits (f_hold (fast_drop bits f)) (here_op first)"
    proof -
      have "f_hold (fast_drop bits f) = f_hold f div 2 ^ bits" using h b15 by (simp add: fast_drop_def js_ushr_div)
      then have "low_bits (f_hold (fast_drop bits f)) (here_op first) = nat (f_hold f) div 2 ^ bits mod 2 ^ here_op first"
        using h o by (simp add: low_bits_nat pos_imp_zdiv_nonneg_iff nat_div_distrib nat_power_eq)
      then show ?thesis
        unfolding nat_and_mask by (simp add: drop_bit_eq_div power_add mod_mult2_eq)
    qed
    then show ?thesis using lookup_link [OF fst_at [symmetric] link] l b15 by (auto simp: Let_def hb)
  qed
qed

end
