(* ===== verification/InflateFastTurn.thy ===== *)
theory InflateFastTurn
  imports InflateFastOk
begin

text \<open>
  One turn of the loop \<open>top\<close> of \<open>inflate_fast\<close> is one item of the specification, and the loop runs until
  there is little input or room, or the block ends.
\<close>

lemma fast_code:
  assumes t: "table_for type ls table bits" and f: "fast_fits r f" "15 \<le> f_bits f" and m: "m = 2 ^ bits - 1"
    and first: "first = at table (nat (js_and (f_hold f) m))"
  obtains n here where "0 < n" "n \<le> 15" "n = code_bits table bits (f_hold f)"
    "\<And>F. code_entry type ls (bitstream (as_run r f) F) here (bitstream (as_run r (fast_drop n f)) F)"
    "\<not> is_link first \<Longrightarrow> here = first \<and> n = here_bits first"
    "is_link first \<Longrightarrow> n = here_bits first + here_bits here \<and>
      here = at table (here_val first + low_bits (f_hold (fast_drop (here_bits first) f)) (here_op first)) \<and>
      fast_drop (here_bits here) (fast_drop (here_bits first) f) = fast_drop n f"
proof -
  obtain n here where l: "lookup_code table bits (nat (f_hold f)) = (n, here)" by fastforce
  have n: "0 < n" "n \<le> 15" using lookup_bounds [OF t, of "nat (f_hold f)"] l by simp_all
  note L = fast_lookup [OF t f m l first]
  have b: "buffer_ok (as_run r f)" using f by (simp add: fast_fits_def)
  have le: "n \<le> r_bits (as_run r f)" "int n \<le> f_bits f" using f n by (simp_all add: as_run_def)
  have "lookup_code table bits (nat (r_hold (as_run r f))) = (n, here)" using l by (simp add: as_run_def)
  note D = dropped_code [OF t b this le(1), folded fast_drop_run(1) [OF f(1) le(2)]]
  show ?thesis
  proof (rule that [of n here])
    show "n = code_bits table bits (f_hold f)" using l by (simp add: code_bits_def)
    show "is_link first \<Longrightarrow> n = here_bits first + here_bits here \<and>
      here = at table (here_val first + low_bits (f_hold (fast_drop (here_bits first) f)) (here_op first)) \<and>
      fast_drop (here_bits here) (fast_drop (here_bits first) f) = fast_drop n f"
      using L(2) fast_drop_drop [OF f(1), of "here_bits first" "here_bits here"] n by simp
  qed (use n D L(1) in auto)
qed

lemma fast_length_code:
  assumes t: "table_for LENS ll (e_lcode e) bits" and f: "fast_fits r f" "15 \<le> f_bits f" and m: "e_lmask e = 2 ^ bits - 1"
  obtains n here where "0 < n" "n \<le> 15" "n = code_bits (e_lcode e) bits (f_hold f)"
    "\<And>F. code_entry LENS ll (bitstream (as_run r f) F) here (bitstream (as_run r (fast_drop n f)) F)"
    "fast_dolen e (at (e_lcode e) (nat (js_and (f_hold f) (e_lmask e)))) f = length_op e (length_code here) (fast_drop n f)"
proof -
  let ?first = "at (e_lcode e) (nat (js_and (f_hold f) (e_lmask e)))"
  obtain n here where n: "0 < n" "n \<le> 15" "n = code_bits (e_lcode e) bits (f_hold f)"
    and c: "\<And>F. code_entry LENS ll (bitstream (as_run r f) F) here (bitstream (as_run r (fast_drop n f)) F)"
    and l: "\<not> is_link ?first \<Longrightarrow> here = ?first \<and> n = here_bits ?first"
      "is_link ?first \<Longrightarrow> n = here_bits ?first + here_bits here \<and>
        here = at (e_lcode e) (here_val ?first + low_bits (f_hold (fast_drop (here_bits ?first) f)) (here_op ?first)) \<and>
        fast_drop (here_bits here) (fast_drop (here_bits ?first) f) = fast_drop n f"
    using fast_code [OF t f m refl] by metis
  have "fast_dolen e ?first f = length_op e (length_code here) (fast_drop n f)"
  proof (cases "is_link ?first")
    case False
    then show ?thesis using l(1) dolen_entry [OF c, of e f] by simp
  next
    case True
    then have "fast_dolen e ?first f = fast_dolen e here (fast_drop (here_bits ?first) f)"
      using link_ops [OF True] l(2) by (subst fast_dolen.simps) (simp add: Let_def)
    also have "\<dots> = length_op e (length_code here) (fast_drop (here_bits here) (fast_drop (here_bits ?first) f))" by (rule dolen_entry [OF c])
    also have "\<dots> = length_op e (length_code here) (fast_drop n f)" using l(2) [OF True] by (elim conjE) (simp only:)
    finally show ?thesis .
  qed
  then show ?thesis using that n c by blast
qed

lemma fast_distance_code:
  assumes t: "table_for DISTS dl (e_dcode e) bits" and f: "fast_fits r f" "15 \<le> f_bits f" and m: "e_dmask e = 2 ^ bits - 1"
  obtains n here where "0 < n" "n \<le> 15"
    "\<And>F. code_entry DISTS dl (bitstream (as_run r f) F) here (bitstream (as_run r (fast_drop n f)) F)"
    "fast_dodist e (at (e_dcode e) (nat (js_and (f_hold f) (e_dmask e)))) len f = distance_op e here len (fast_drop n f)"
proof -
  let ?first = "at (e_dcode e) (nat (js_and (f_hold f) (e_dmask e)))"
  obtain n here where n: "0 < n" "n \<le> 15"
    and c: "\<And>F. code_entry DISTS dl (bitstream (as_run r f) F) here (bitstream (as_run r (fast_drop n f)) F)"
    and l: "\<not> is_link ?first \<Longrightarrow> here = ?first \<and> n = here_bits ?first"
      "is_link ?first \<Longrightarrow> n = here_bits ?first + here_bits here \<and>
        here = at (e_dcode e) (here_val ?first + low_bits (f_hold (fast_drop (here_bits ?first) f)) (here_op ?first)) \<and>
        fast_drop (here_bits here) (fast_drop (here_bits ?first) f) = fast_drop n f"
    using fast_code [OF t f m refl] by metis
  have "fast_dodist e ?first len f = distance_op e here len (fast_drop n f)"
  proof (cases "is_link ?first")
    case False
    then show ?thesis using l(1) dodist_entry [OF c, of e len f] by simp
  next
    case True
    then have "fast_dodist e ?first len f = fast_dodist e here len (fast_drop (here_bits ?first) f)"
      using link_ops [OF True] l(2) by (subst fast_dodist.simps) (simp add: Let_def)
    also have "\<dots> = distance_op e here len (fast_drop (here_bits here) (fast_drop (here_bits ?first) f))" by (rule dodist_entry [OF c])
    also have "\<dots> = distance_op e here len (fast_drop n f)" using l(2) [OF True] by (elim conjE) (simp only:)
    finally show ?thesis .
  qed
  then show ?thesis using that n c by blast
qed

section \<open>One turn\<close>

definition env_ok :: "nat \<Rightarrow> run \<Rightarrow> fast_env \<Rightarrow> bool" where
  "env_ok beg r e \<longleftrightarrow> e_input e = r_input r \<and> e_last e + 5 = r_next r + r_have r \<and> e_end e + 257 = r_put r + r_left r \<and>
     e_beg e = beg \<and> e_dmax e = i_dmax (r_state r) \<and> e_wsize e = i_wsize (r_state r) \<and> e_whave e = i_whave (r_state r) \<and>
     e_wnext e = i_wnext (r_state r) \<and> e_window e = nullable (i_window (r_state r)) \<and> e_sane e \<and>
     e_lcode e = len_table (r_fixed r) (r_state r) \<and> e_dcode e = dist_table (r_fixed r) (r_state r) \<and>
     e_lmask e = 2 ^ i_lenbits (r_state r) - 1 \<and> e_dmask e = 2 ^ i_distbits (r_state r) - 1"

definition fast_ok :: "int list \<Rightarrow> nat \<Rightarrow> run \<Rightarrow> fast \<Rightarrow> int list \<Rightarrow> bool" where
  "fast_ok H beg r f G \<longleftrightarrow> fast_fits r f \<and> out_ok H beg (f_out f) (f_output f) G \<and> length (f_output f) = length (r_output r) \<and>
     r_put r \<le> f_out f \<and> f_out f \<le> r_put r + r_left r"

text \<open>What a turn gives: \<open>X\<close> is what was left to decode.\<close>

definition turned :: "int list \<Rightarrow> nat \<Rightarrow> run \<Rightarrow> nat \<Rightarrow> (int list \<Rightarrow> (bits \<times> int list) option) \<Rightarrow> (bool \<times> fast) option \<Rightarrow> bool" where
  "turned H beg r limit X res \<longleftrightarrow> (\<exists>b f' G'. res = Some (b, f') \<and> fast_ok H beg r f' G' \<and> fast_left r f' \<le> limit \<and>
     (if \<not> b then f_mode f' = LEN \<and> (\<forall>F. codes_rest (r_state r) (bitstream (as_run r f') F) G' = X F)
      else f_mode f' = TYPE_mode \<and> (\<forall>F. blocks_rest (r_state r) (bitstream (as_run r f') F) G' = X F) \<or>
        f_mode f' = BAD \<and> (\<forall>F. X F = None)))"

lemma as_run_upd [simp]: "as_run r (f\<lparr>f_out := n\<rparr>) = as_run r f" "as_run r (f\<lparr>f_output := xs\<rparr>) = as_run r f"
  "as_run r (f\<lparr>f_mode := m\<rparr>) = as_run r f"
  by (simp_all add: as_run_def)

lemma turned_bad:
  assumes "fast_ok H beg r f G" "fast_left r f \<le> limit" "\<And>F. X F = None"
  shows "turned H beg r limit X (Some (True, fast_bad msg f))"
proof -
  have "as_run r (fast_bad msg f) = as_run r f" by (simp add: as_run_def fast_bad_def)
  then show ?thesis using assms by (auto simp: turned_def fast_ok_def fast_fits_def fast_bad_def)
qed

lemma turned_more:
  assumes "fast_ok H beg r f G" "fast_left r f \<le> limit" "f_mode f = LEN" "\<And>F. codes_rest (r_state r) (bitstream (as_run r f) F) G = X F"
  shows "turned H beg r limit X (Some (False, f))"
  using assms unfolding turned_def by auto

lemma turned_stop:
  assumes "fast_ok H beg r f G" "fast_left r f \<le> limit" "f_mode f = TYPE_mode" "\<And>F. blocks_rest (r_state r) (bitstream (as_run r f) F) G = X F"
  shows "turned H beg r limit X (Some (True, f))"
  using assms unfolding turned_def by auto

lemma fast_ok_same: "fast_ok H beg r f G \<Longrightarrow> fast_fits r f' \<Longrightarrow> same_output f f' \<Longrightarrow> fast_ok H beg r f' G"
  by (simp add: fast_ok_def same_output_def)

lemma fast_match_turn:
  assumes ok: "fast_ok H beg r f G" and env: "env_ok beg r e" and s: "state_ok (r_state r) H" and m: "f_mode f = LEN"
    and len: "3 \<le> len" "len \<le> 258" and d: "0 < d" "d \<le> i_dmax (r_state r)" and room: "f_out f + 258 \<le> r_put r + r_left r"
    and r: "r_put r + r_left r \<le> length (r_output r)" and limit: "fast_left r f \<le> limit"
    and X: "\<And>F. X F = item_rest (r_state r) G (Some (Match len d, bitstream (as_run r f) F))"
  shows "turned H beg r limit X (fast_match e len d f)"
proof -
  note O = ok [unfolded fast_ok_def] and E = env [unfolded env_ok_def]
  let ?k = "f_out f - beg"
  have w: "window_ok (r_state r) H" "i_dmax (r_state r) \<le> 2 ^ i_wbits (r_state r)" and lG: "length G = length H + ?k"
    using s O out_okD(1) by (auto simp: state_ok_def)
  note M = match_range [OF w d lG]
  show ?thesis
  proof (cases "d \<le> length G")
    case False
    then have none: "X F = None" for F by (simp add: X item_rest_def ref_output_def)
    have "fast_match e len d f = Some (True, fast_bad ''invalid distance too far back'' f)"
      using False M(1) E by (auto simp: fast_match_def Let_def)
    then show ?thesis using turned_bad [OF ok limit none] by simp
  next
    case True
    have o: "out_ok H (e_beg e) (f_out f) (f_output f) G" "f_out f + len \<le> length (f_output f)" using O E room len r by auto
    have "d \<le> f_out f - e_beg e \<or> ring_ok (e_window e) (e_wsize e) (e_wnext e) (e_whave e) H \<and> d \<le> f_out f - e_beg e + e_whave e"
      using True M E by (cases "d \<le> ?k") auto
    from fast_match_ok [OF o len(1) d(1) this] obtain out' where
      e: "fast_match e len d f = Some (False, f\<lparr>f_out := f_out f + len, f_output := out'\<rparr>)" and
      o': "length out' = length (f_output f)" "out_ok H (e_beg e) (f_out f + len) out' (lz_copy len d G)" by blast
    have ok': "fast_ok H beg r (f\<lparr>f_out := f_out f + len, f_output := out'\<rparr>) (lz_copy len d G)"
      using O o' E room len by (auto simp: fast_ok_def fast_fits_def)
    show ?thesis unfolding e using m limit True d(2) by (intro turned_more [OF ok']) (simp_all add: X item_rest_def ref_output_def)
  qed
qed

lemma fast_distance_turn:
  assumes ok: "fast_ok H beg r f G" and env: "env_ok beg r e" and s: "state_ok (r_state r) H" and m: "f_mode f = LEN"
    and len: "3 \<le> len" "len \<le> 258" and val: "0 < val" and n: "n \<le> 13" and room: "f_out f + 258 \<le> r_put r + r_left r"
    and r: "r_put r + r_left r \<le> length (r_output r)" and limit: "fast_left r f \<le> limit" "n \<le> fast_left r f"
    and X: "\<And>F. X F = item_rest (r_state r) G (map_option (\<lambda>(d, b). (Match len d, b)) (with_extra val n (bitstream (as_run r f) F)))"
  shows "turned H beg r limit X (fast_distance e val n len f)"
proof -
  have E: "e_input e = r_input r" "e_dmax e = i_dmax (r_state r)" using env by (auto simp: env_ok_def)
  define f1 where "f1 = (if f_bits f < int n then let f = fast_pull e f in if f_bits f < int n then fast_pull e f else f else f)"
  have fits: "fast_fits r f" using ok by (simp add: fast_ok_def)
  have n15: "n \<le> 15" using n by simp
  have fill: "filled r n f f1" using fill_2 [OF fits E(1) n15 limit(2)] by (simp add: f1_def)
  have f1: "fast_fits r f1" "same_output f f1" "int n \<le> f_bits f1" "\<And>F. bitstream (as_run r f1) F = bitstream (as_run r f) F"
    using fill by (auto simp: filled_def)
  note D = fast_drop_run [OF f1(1,3)]
  have left1: "fast_left r f1 = fast_left r f" using filled_left [OF fill] .
  define d where "d = val + low_bits (f_hold f1) n"
  have low: "low_bits (f_hold f1) n = nat (f_hold f1) mod 2 ^ n" using fast_hold [OF f1(1)] n by (simp add: low_bits_nat)
  have ok1: "fast_ok H beg r f1 G" and ok2: "fast_ok H beg r (fast_drop n f1) G"
    using fast_ok_same [OF ok f1(1,2)] fast_ok_same [OF ok D(2)] same_output_trans [OF f1(2)] by simp_all
  have X': "X F = item_rest (r_state r) G (Some (Match len d, bitstream (as_run r (fast_drop n f1)) F))" for F
    using with_extra_Some [OF D(3) [of F]] by (simp add: X d_def low f1(4))
  have e: "fast_distance e val n len f =
      (if d > e_dmax e then Some (True, fast_bad ''invalid distance too far back'' f1) else fast_match e len d (fast_drop n f1))"
    unfolding fast_distance_def Let_def f1_def d_def ..
  show ?thesis
  proof (cases "d > e_dmax e")
    case True
    then have "X F = None" for F by (simp add: X' E item_rest_def ref_output_def)
    then show ?thesis unfolding e using True turned_bad [OF ok1, of limit X] left1 limit by simp
  next
    case False
    have "turned H beg r limit X (fast_match e len d (fast_drop n f1))"
    proof (rule fast_match_turn [OF ok2 env s _ len _ _ _ r _ X'])
      show "f_mode (fast_drop n f1) = LEN" "f_out (fast_drop n f1) + 258 \<le> r_put r + r_left r"
        using m room f1(2) by (simp_all add: same_output_def fast_drop_def)
      show "fast_left r (fast_drop n f1) \<le> limit" using D(4) left1 limit by simp
    qed (use val False in \<open>simp_all add: d_def E\<close>)
    then show ?thesis unfolding e using False by simp
  qed
qed

lemma fast_length_turn:
  assumes ok: "fast_ok H beg r f G" and env: "env_ok beg r e" and s: "state_ok (r_state r) H" and m: "f_mode f = LEN"
    and t: "table_for DISTS (dl_of (r_state r)) (e_dcode e) (i_distbits (r_state r))"
    and c: "length_code_ok (Len l x)" and room: "f_out f + 258 \<le> r_put r + r_left r"
    and r: "r_put r + r_left r \<le> length (r_output r)" and limit: "fast_left r f \<le> limit" "33 \<le> fast_left r f"
    and X: "\<And>F. X F = item_rest (r_state r) G (Option.bind (with_extra l x (bitstream (as_run r f) F)) (\<lambda>(len, b). ref_distance (dl_of (r_state r)) len b))"
  shows "turned H beg r limit X (fast_length e l x f)"
proof -
  have E: "e_input e = r_input r" using env by (auto simp: env_ok_def)
  have C: "3 \<le> l" "x \<le> 5" "l + 2 ^ x \<le> 259" using c by (auto simp: length_code_ok_def)
  define f1 where "f1 = (if f_bits f < int x then fast_pull e f else f)"
  define f2 where "f2 = fast_drop x f1"
  define len where "len = l + low_bits (f_hold f1) x"
  have fits: "fast_fits r f" using ok by (simp add: fast_ok_def)
  have fill: "filled r x f f1" using fill_1 [OF fits E, of x] C limit(2) by (simp add: f1_def)
  have f1: "fast_fits r f1" "same_output f f1" "int x \<le> f_bits f1" "\<And>F. bitstream (as_run r f1) F = bitstream (as_run r f) F"
    using fill by (auto simp: filled_def)
  note D = fast_drop_run [OF f1(1,3), folded f2_def]
  have left2: "fast_left r f2 + x = fast_left r f" using filled_left [OF fill] D(4) by simp
  have low: "low_bits (f_hold f1) x = nat (f_hold f1) mod 2 ^ x" using fast_hold [OF f1(1)] C by (simp add: low_bits_nat)
  have len: "3 \<le> len" "len \<le> 258"
  proof -
    have "low_bits (f_hold f1) x < 2 ^ x" unfolding low by simp
    then show "3 \<le> len" "len \<le> 258" using C by (auto simp: len_def)
  qed
  have X2: "X F = item_rest (r_state r) G (ref_distance (dl_of (r_state r)) len (bitstream (as_run r f2) F))" for F
    using with_extra_Some [OF D(3) [of F]] by (simp add: X len_def low f1(4))
  define f3 where "f3 = (if f_bits f2 < 15 then fast_pull e (fast_pull e f2) else f2)"
  have fill3: "filled r 15 f2 f3" using fill_15 [OF D(2) E] left2 limit(2) C by (simp add: f3_def)
  have f3: "fast_fits r f3" "same_output f f3" "15 \<le> f_bits f3" "\<And>F. bitstream (as_run r f3) F = bitstream (as_run r f2) F"
    using fill3 same_output_trans [OF f1(2) same_output_trans [OF same_output_drop]] by (auto simp: filled_def f2_def)
  have left3: "fast_left r f3 = fast_left r f2" using filled_left [OF fill3] .
  have e: "fast_length e l x f = fast_dodist e (at (e_dcode e) (nat (js_and (f_hold f3) (e_dmask e)))) len f3"
  proof (cases "x = 0")
    case True
    have "f1 = f" using True fits by (simp add: f1_def fast_fits_def)
    moreover have "f2 = f" using True fast_hold [OF fits] by (intro fast.equality) (simp_all add: f2_def fast_drop_def \<open>f1 = f\<close> js_ushr_div)
    ultimately show ?thesis using True fast_hold [OF fits] by (simp add: fast_length_def Let_def f3_def len_def low_bits_nat)
  next
    case False
    then show ?thesis by (simp add: fast_length_def Let_def f3_def f2_def f1_def len_def)
  qed
  have mask: "e_dmask e = 2 ^ i_distbits (r_state r) - 1" using env by (simp add: env_ok_def)
  obtain n here where n: "0 < n" "n \<le> 15" and ce: "\<And>F. code_entry DISTS (dl_of (r_state r)) (bitstream (as_run r f3) F) here (bitstream (as_run r (fast_drop n f3)) F)"
    and de: "fast_dodist e (at (e_dcode e) (nat (js_and (f_hold f3) (e_dmask e)))) len f3 = distance_op e here len (fast_drop n f3)"
    using fast_distance_code [OF t f3(1,3) mask, of len] by metis
  have n3: "int n \<le> f_bits f3" using n f3(3) by linarith
  note D4 = fast_drop_run [OF f3(1) n3] and DE = distance_entry [OF ce]
  have ok4: "fast_ok H beg r (fast_drop n f3) G" using fast_ok_same [OF ok D4(2)] same_output_trans [OF f3(2)] by simp
  have left4: "fast_left r (fast_drop n f3) \<le> limit" "13 \<le> fast_left r (fast_drop n f3)" using D4(4) left3 left2 limit n C by linarith+
  show ?thesis
  proof (cases "here_op here AND 64 = 0")
    case False
    then have "X F = None" for F by (simp add: X2 f3(4) [symmetric] DE(1))
    then show ?thesis unfolding e de using False turned_bad [OF ok4 left4(1), of X] by (simp add: distance_op_def)
  next
    case True
    have "turned H beg r limit X (fast_distance e (here_val here) (here_op here AND 15) len (fast_drop n f3))"
    proof (rule fast_distance_turn [OF ok4 env s _ len _ _ _ r left4(1)])
      show "f_mode (fast_drop n f3) = LEN" "f_out (fast_drop n f3) + 258 \<le> r_put r + r_left r"
        using m room f3(2) by (simp_all add: same_output_def fast_drop_def)
      show "here_op here AND 15 \<le> fast_left r (fast_drop n f3)" using DE(2) [OF True] left4(2) by linarith
      show "X F = item_rest (r_state r) G (map_option (\<lambda>(d, b). (Match len d, b))
          (with_extra (here_val here) (here_op here AND 15) (bitstream (as_run r (fast_drop n f3)) F)))" for F
        using True by (simp add: X2 f3(4) [symmetric] DE(1))
    qed (use DE(2) [OF True] in auto)
    then show ?thesis unfolding e de using True by (simp add: distance_op_def)
  qed
qed

lemma fast_turn_ok:
  assumes ok: "fast_ok H beg r f G" and env: "env_ok beg r e" and s: "state_ok (r_state r) H" and m: "f_mode f = LEN"
    and t: "codes_ok (r_fixed r) (r_state r)" and room: "f_out f + 258 \<le> r_put r + r_left r"
    and r: "r_put r + r_left r \<le> length (r_output r)" and left: "48 \<le> fast_left r f"
  shows "\<exists>n. 0 < n \<and> n \<le> fast_left r f \<and> (int (code_bits (e_lcode e) (i_lenbits (r_state r)) (f_hold f)) \<le> f_bits f \<or> f_bits f < int n) \<and>
    turned H beg r (fast_left r f - n) (\<lambda>F. codes_rest (r_state r) (bitstream (as_run r f) F) G) (fast_turn e f)"
proof -
  have E: "e_input e = r_input r" "e_lmask e = 2 ^ i_lenbits (r_state r) - 1" using env by (auto simp: env_ok_def)
  have tl: "table_for LENS (ll_of (r_state r)) (e_lcode e) (i_lenbits (r_state r))" and
    td: "table_for DISTS (dl_of (r_state r)) (e_dcode e) (i_distbits (r_state r))" using t env by (simp_all add: env_ok_def codes_ok_def)
  have fits: "fast_fits r f" using ok by (simp add: fast_ok_def)
  define f1 where "f1 = (if f_bits f < 15 then fast_pull e (fast_pull e f) else f)"
  have fill: "filled r 15 f f1" using fill_15 [OF fits E(1)] left by (simp add: f1_def)
  have f1: "fast_fits r f1" "same_output f f1" "15 \<le> f_bits f1" "\<And>F. bitstream (as_run r f1) F = bitstream (as_run r f) F"
      "f_hold f1 mod 2 ^ nat (f_bits f) = f_hold f" using fill by (auto simp: filled_def)
  obtain n here where n: "0 < n" "n \<le> 15" "n = code_bits (e_lcode e) (i_lenbits (r_state r)) (f_hold f1)"
    and ce: "\<And>F. code_entry LENS (ll_of (r_state r)) (bitstream (as_run r f1) F) here (bitstream (as_run r (fast_drop n f1)) F)"
    and de: "fast_dolen e (at (e_lcode e) (nat (js_and (f_hold f1) (e_lmask e)))) f1 = length_op e (length_code here) (fast_drop n f1)"
    using fast_length_code [OF tl f1(1,3) E(2)] by metis
  have n1: "int n \<le> f_bits f1" using n f1(3) by linarith
  define f2 where "f2 = fast_drop n f1"
  note D = fast_drop_run [OF f1(1) n1, folded f2_def] and LE = length_entry [OF ce, folded f2_def]
  have e: "fast_turn e f = length_op e (length_code here) f2" by (simp add: fast_turn_def f1_def [symmetric] de f2_def)
  have X: "codes_rest (r_state r) (bitstream (as_run r f) F) G =
      item_rest (r_state r) G (length_item (dl_of (r_state r)) (length_code here) (bitstream (as_run r f2) F))" for F
    unfolding codes_rest_unfold f1(4) [symmetric] LE(1) ..
  have out2: "same_output f f2" unfolding f2_def using same_output_trans [OF f1(2)] by simp
  have ok2: "fast_ok H beg r f2 G" using fast_ok_same [OF ok D(2) out2] .
  have m2: "f_mode f2 = LEN" and room2: "f_out f2 + 258 \<le> r_put r + r_left r" using m room out2 by (simp_all add: same_output_def)
  have left2: "fast_left r f2 + n = fast_left r f" using D(4) filled_left [OF fill] by simp
  have bits: "int (code_bits (e_lcode e) (i_lenbits (r_state r)) (f_hold f)) \<le> f_bits f \<or> f_bits f < int n"
  proof (cases "f_bits f < int n")
    case False
    have h: "0 \<le> f_hold f" "0 \<le> f_hold f1" using fast_hold fits f1(1) by auto
    have "f_hold f mod 2 ^ nat (f_bits f) = f_hold f" using f1(5) mod_mod_trivial by metis
    then have "code_bits (e_lcode e) (i_lenbits (r_state r)) (f_hold f) = n"
      using code_bits_stable(1) [OF tl h(1,2), of "nat (f_bits f)"] f1(5) False n(3) by auto
    then show ?thesis using False by simp
  qed simp
  have "turned H beg r (fast_left r f - n) (\<lambda>F. codes_rest (r_state r) (bitstream (as_run r f) F) G) (fast_turn e f)"
  proof (cases "length_code here")
    case (Lit l)
    let ?f' = "f2\<lparr>f_output := (f_output f2)[f_out f2 := int l], f_out := f_out f2 + 1\<rparr>"
    have l: "l < 256" using LE(2) Lit by (simp add: length_code_ok_def)
    have eq: "fast_turn e f = Some (False, ?f')" using l by (simp add: e length_op_def Lit)
    have o: "out_ok H beg (f_out f2 + 1) ((f_output f2)[f_out f2 := int l]) (G @ [int l])"
      using ok2 room2 r l by (intro out_ok_snoc) (auto simp: fast_ok_def)
    show ?thesis unfolding eq
    proof (rule turned_more)
      show "fast_ok H beg r ?f' (G @ [int l])" using o ok2 room2 by (simp add: fast_ok_def fast_fits_def)
      show "codes_rest (r_state r) (bitstream (as_run r ?f') F) (G @ [int l]) = codes_rest (r_state r) (bitstream (as_run r f) F) G" for F
        unfolding X Lit length_item_def by (simp add: item_rest_def ref_output_def)
    qed (use m2 left2 in simp_all)
  next
    case Stop
    let ?f' = "f2\<lparr>f_mode := TYPE_mode\<rparr>"
    have eq: "fast_turn e f = Some (True, ?f')" by (simp add: e length_op_def Stop)
    show ?thesis unfolding eq
    proof (rule turned_stop)
      show "fast_ok H beg r ?f' G" using ok2 by (simp add: fast_ok_def fast_fits_def)
      show "blocks_rest (r_state r) (bitstream (as_run r ?f') F) G = codes_rest (r_state r) (bitstream (as_run r f) F) G" for F
        unfolding X Stop length_item_def by (simp add: item_rest_def)
    qed (use left2 in simp_all)
  next
    case Wrong
    have "codes_rest (r_state r) (bitstream (as_run r f) F) G = None" for F unfolding X Wrong length_item_def by simp
    then show ?thesis using turned_bad [OF ok2] left2 by (simp add: e length_op_def Wrong)
  next
    case (Len l x)
    have c: "length_code_ok (Len l x)" using LE(2) Len by simp
    have lim: "fast_left r f2 \<le> fast_left r f - n" "33 \<le> fast_left r f2" using left2 left n by linarith+
    have "turned H beg r (fast_left r f - n) (\<lambda>F. codes_rest (r_state r) (bitstream (as_run r f) F) G) (fast_length e l x f2)"
      by (rule fast_length_turn [OF ok2 env s m2 td c room2 r lim]) (simp add: X Len length_item_def)
    then show ?thesis by (simp add: e length_op_def Len)
  qed
  then show ?thesis using n left2 bits by (intro exI [of _ n]) auto
qed

end
