(* ===== verification/InflateFastLoop.thy ===== *)
theory InflateFastLoop
  imports InflateFastTurn
begin

text \<open>
  The loop of \<open>inflate_fast\<close>, the bytes it returns, and the mode \<open>LEN\<close> with both its ways of decoding.
\<close>

section \<open>The loop\<close>

text \<open>Bits that came in with the call are used by the first code, so that what is left can be returned as bytes.\<close>

definition returnable :: "run \<Rightarrow> fast_env \<Rightarrow> fast \<Rightarrow> bool" where
  "returnable r e f \<longleftrightarrow> fast_left r f \<le> 8 * r_have r + 7 \<or>
     fast_left r f \<le> nat (f_bits f) + 8 * r_have r \<and> nat (f_bits f) < code_bits (e_lcode e) (i_lenbits (r_state r)) (f_hold f)"

definition fast_result :: "int list \<Rightarrow> nat \<Rightarrow> run \<Rightarrow> fast \<Rightarrow> int list \<Rightarrow> fast \<Rightarrow> bool" where
  "fast_result H beg r f G f' \<longleftrightarrow> (\<exists>G'. fast_ok H beg r f' G' \<and> fast_left r f' < fast_left r f \<and> fast_left r f' \<le> 8 * r_have r + 7 \<and>
     (f_mode f' = LEN \<and> (\<forall>F. codes_rest (r_state r) (bitstream (as_run r f') F) G' = codes_rest (r_state r) (bitstream (as_run r f) F) G) \<or>
      f_mode f' = TYPE_mode \<and> (\<forall>F. blocks_rest (r_state r) (bitstream (as_run r f') F) G' = codes_rest (r_state r) (bitstream (as_run r f) F) G) \<or>
      f_mode f' = BAD \<and> (\<forall>F. codes_rest (r_state r) (bitstream (as_run r f) F) G = None)))"

lemma fast_top_ok:
  assumes env: "env_ok beg r e" and s: "state_ok (r_state r) H" and t: "codes_ok (r_fixed r) (r_state r)"
    and r: "r_put r + r_left r \<le> length (r_output r)"
    and f: "fast_ok H beg r f G" "f_mode f = LEN" "f_in f < e_last e" "f_out f < e_end e" "returnable r e f"
  shows "\<exists>f'. fast_top e f = Some f' \<and> fast_result H beg r f G f'"
  using f
proof (induction "fast_left r f" arbitrary: f G rule: less_induct)
  case less
  have E: "e_last e + 5 = r_next r + r_have r" "e_end e + 257 = r_put r + r_left r" using env by (auto simp: env_ok_def)
  have room: "f_out f + 258 \<le> r_put r + r_left r" using less.prems(4) E(2) by linarith
  have left: "48 \<le> fast_left r f"
  proof -
    have "6 \<le> r_have (as_run r f)" using less.prems(3) E(1) by (simp add: as_run_def)
    then show ?thesis by linarith
  qed
  obtain n where n: "0 < n" "n \<le> fast_left r f"
      "int (code_bits (e_lcode e) (i_lenbits (r_state r)) (f_hold f)) \<le> f_bits f \<or> f_bits f < int n"
    and turn: "turned H beg r (fast_left r f - n) (\<lambda>F. codes_rest (r_state r) (bitstream (as_run r f) F) G) (fast_turn e f)"
    using fast_turn_ok [OF less.prems(1) env s less.prems(2) t room r left] by blast
  from turn obtain b f1 G1 where f1: "fast_turn e f = Some (b, f1)" "fast_ok H beg r f1 G1" "fast_left r f1 \<le> fast_left r f - n"
    and cs: "if \<not> b then f_mode f1 = LEN \<and> (\<forall>F. codes_rest (r_state r) (bitstream (as_run r f1) F) G1 = codes_rest (r_state r) (bitstream (as_run r f) F) G)
      else f_mode f1 = TYPE_mode \<and> (\<forall>F. blocks_rest (r_state r) (bitstream (as_run r f1) F) G1 = codes_rest (r_state r) (bitstream (as_run r f) F) G) \<or>
        f_mode f1 = BAD \<and> (\<forall>F. codes_rest (r_state r) (bitstream (as_run r f) F) G = None)"
    unfolding turned_def by blast
  have ret: "fast_left r f1 \<le> 8 * r_have r + 7"
    using less.prems(5) n f1(3) unfolding returnable_def by linarith
  have lt: "fast_left r f1 < fast_left r f" using n f1(3) by linarith
  show ?case
  proof (cases "\<not> b \<and> f_in f1 < e_last e \<and> f_out f1 < e_end e")
    case True
    have "returnable r e f1" using ret by (simp add: returnable_def)
    then obtain f' where f': "fast_top e f1 = Some f'" "fast_result H beg r f1 G1 f'"
      using less.hyps [OF lt f1(2)] cs True by auto
    have "fast_top e f = Some f'" using True f1(1) f'(1) by (subst fast_top.simps) simp
    moreover have "fast_result H beg r f G f'" using f'(2) cs True lt unfolding fast_result_def by auto
    ultimately show ?thesis by blast
  next
    case False
    then have "fast_top e f = Some f1" using f1(1) by (subst fast_top.simps) auto
    moreover have "fast_result H beg r f G f1"
      using f1(2) cs lt ret unfolding fast_result_def by (intro exI [of _ G1]) (auto split: if_splits)
    ultimately show ?thesis by blast
  qed
qed

section \<open>Returning bytes\<close>

lemma bytes_value_less: "is_bytes bs \<Longrightarrow> bytes_value bs < 2 ^ (8 * length bs)"
proof (induction bs)
  case (Cons b bs)
  then have "nat b < 256" "bytes_value bs + 1 \<le> 2 ^ (8 * length bs)" by auto
  moreover from mult_le_mono2 [OF this(2), of 256] have "256 * bytes_value bs + 256 \<le> 256 * 2 ^ (8 * length bs)" by simp
  ultimately have "nat b + 256 * bytes_value bs < 256 * 2 ^ (8 * length bs)" by linarith
  then show ?case by (simp add: power_add)
qed simp

text \<open>Taking off the whole bytes of the buffer and going back as much in the input gives the same stream.\<close>

lemma put_back:
  assumes r: "buffer_ok r" "buffer_ok r1" "advanced r r1" and inp: "r_input r1 = r_input r" and pos: "r_next r1 + r_have r1 = r_next r + r_have r" "r_have r1 \<le> r_have r"
    and k: "8 * k \<le> r_bits r1" "run_bits r1 \<le> 8 * r_have r + (r_bits r1 - 8 * k)"
    and r2: "r_input r2 = r_input r" "r_next r2 = r_next r1 - k" "r_have r2 = r_have r1 + k" "r_bits r2 = r_bits r1 - 8 * k"
      "r_hold r2 = r_hold r1 mod 2 ^ (r_bits r1 - 8 * k)"
  shows "k \<le> r_next r1" "r_next r \<le> r_next r1 - k" "buffer_ok r2" "bitstream r2 F = bitstream r1 F"
proof -
  have le: "r_have r1 + k \<le> r_have r" using k by linarith
  then show kn: "k \<le> r_next r1" "r_next r \<le> r_next r1 - k" using pos by linarith+
  show b2: "buffer_ok r2" using r kn pos(1) by (auto simp: buffer_ok_def r2)
  let ?m = "r_bits r1 - 8 * k" and ?j = "r_have r - (r_have r1 + k)"
  let ?V = "snd (bitstream r F)" and ?V1 = "snd (bitstream r1 F)"
  let ?c = "run_bits r - run_bits r1"
  have run: "run_bits r1 \<le> run_bits r" "?V1 = ?V div 2 ^ ?c" using r(3) by (auto simp: advanced_def)
  have V: "?V = nat (r_hold r) + 2 ^ r_bits r * bytes_value (unread r @ F)" "?V1 = nat (r_hold r1) + 2 ^ r_bits r1 * bytes_value (unread r1 @ F)"
    by (simp_all add: bitstream_def)
  have cm: "?c + ?m = r_bits r + 8 * ?j" using run(1) le k(1) by linarith
  have "nat (r_hold r) < 2 ^ r_bits r" using r(1) by (auto simp: buffer_ok_def nat_less_iff)
  then have "?V div 2 ^ r_bits r = bytes_value (unread r @ F)" by (simp add: V)
  then have "?V1 div 2 ^ ?m = bytes_value (unread r @ F) div 2 ^ (8 * ?j)"
    unfolding run(2) by (metis cm div_mult2_eq power_add)
  also have "\<dots> = bytes_value (unread r2 @ F)"
  proof -
    have "unread r = take ?j (unread r) @ unread r2"
    proof -
      have p: "r_next r1 - k = ?j + r_next r" "r_have r - ?j = r_have r1 + k" using pos le kn by linarith+
      have "drop ?j (unread r) = unread r2" using p by (simp add: unread_def r2 drop_take)
      then show ?thesis using append_take_drop_id [of ?j "unread r"] by simp
    qed
    moreover have l: "length (take ?j (unread r)) = ?j" using r(1) by (auto simp: unread_def buffer_ok_def)
    ultimately have "bytes_value (unread r @ F) = bytes_value (take ?j (unread r)) + 2 ^ (8 * ?j) * bytes_value (unread r2 @ F)"
      by (metis append_assoc bytes_value_append)
    moreover have "is_bytes (take ?j (unread r))" using r(1) by (simp add: buffer_ok_def unread_def is_bytes_take is_bytes_drop)
    from bytes_value_less [OF this, unfolded l] have "bytes_value (take ?j (unread r)) < 2 ^ (8 * ?j)" .
    ultimately show ?thesis by simp
  qed
  finally have hi: "?V1 div 2 ^ ?m = bytes_value (unread r2 @ F)" .
  have "?V1 mod 2 ^ ?m = nat (r_hold r1) mod 2 ^ ?m" unfolding V(2) by (intro mod_add_mult_power) simp
  also have "\<dots> = nat (r_hold r2)" using r(2) by (simp add: r2 nat_mod_power buffer_ok_def)
  finally have lo: "?V1 mod 2 ^ ?m = nat (r_hold r2)" .
  have "?V1 = nat (r_hold r2) + 2 ^ ?m * bytes_value (unread r2 @ F)" unfolding hi [symmetric] lo [symmetric] by simp
  then show "bitstream r2 F = bitstream r1 F" using k(1) by (simp add: bitstream_def r2(3,4) prod_eq_iff)
qed

section \<open>The call of \<open>inflate_fast\<close>\<close>

definition fast_env_of :: "run \<Rightarrow> fast_env" where
  "fast_env_of r = fast_start (r_fixed r) (r_strm (restore r)) (r_state (restore r)) (r_out r)"

definition fast_of :: "run \<Rightarrow> fast" where
  "fast_of r = \<lparr>f_in = r_next r, f_out = r_put r, f_output = r_output r, f_hold = r_hold r, f_bits = int (r_bits r),
     f_mode = i_mode (r_state r), f_msg = z_msg (r_strm r)\<rparr>"

text \<open>The run after \<open>inflate_fast\<close> has ended with \<open>f\<close>.\<close>

definition after_fast :: "run \<Rightarrow> fast \<Rightarrow> run" where
  "after_fast r f =
     (let k = nat (f_bits f) div 8; R = as_run r f; r = restore r
      in r\<lparr>r_strm := (r_strm r)\<lparr>z_next_in := f_in f - k, z_next_out := f_out f, z_output := Some (f_output f), z_msg := f_msg f,
             z_avail_in := r_have R + k, z_avail_out := r_put r + r_left r - f_out f\<rparr>,
           r_state := (r_state r)\<lparr>i_hold := f_hold f mod 2 ^ (nat (f_bits f) mod 8), i_bits := nat (f_bits f) mod 8, i_mode := f_mode f,
             i_back := (if f_mode f = TYPE_mode then - 1 else i_back (r_state r))\<rparr>,
           r_put := f_out f, r_output := f_output f, r_left := r_put r + r_left r - f_out f, r_next := f_in f - k,
           r_have := r_have R + k, r_hold := f_hold f mod 2 ^ (nat (f_bits f) mod 8), r_bits := nat (f_bits f) mod 8\<rparr>)"

lemma env_of:
  assumes ok: "run_ok H beg r G" and c: "codes_ok (r_fixed r) (r_state r)" and room: "6 \<le> r_have r" "258 \<le> r_left r"
  shows "env_ok beg r (fast_env_of r)"
proof -
  note R = ok [unfolded run_ok_def]
  have bits: "i_lenbits (r_state r) \<le> 15" "i_distbits (r_state r) \<le> 15" using c by (auto simp: codes_ok_def table_for_def)
  have shl: "js_shl 1 n = 2 ^ n" if "n \<le> 15" for n
    using that power_increasing [of n 15 "2 :: int"] by (simp add: js_shl_mult)
  have beg: "r_put r - (r_out r - r_left r) = beg" using R room out_okD(3) [of H beg "r_put r" "r_output r" G] by linarith
  have t: "len_table g ((r_state r)\<lparr>i_hold := h, i_bits := n\<rparr>) = len_table g (r_state r)"
    "dist_table g ((r_state r)\<lparr>i_hold := h, i_bits := n\<rparr>) = dist_table g (r_state r)" for g h n
    by (simp_all add: len_table_def dist_table_def split: table_ref.split)
  show ?thesis using R room
    by (simp add: env_ok_def fast_env_of_def fast_start_def restore_def beg t shl [OF bits(1)] shl [OF bits(2)] state_ok_def)
qed

lemma run_fast_eq:
  assumes ok: "run_ok H beg r G" and room: "6 \<le> r_have r" "258 \<le> r_left r"
    and f: "fast_top (fast_env_of r) (fast_of r) = Some f" "fast_fits r f" "f_out f \<le> r_put r + r_left r" "nat (f_bits f) div 8 \<le> f_in f"
  shows "run_fast r = Some (after_fast r f)"
proof -
  note R = ok [unfolded run_ok_def]
  let ?e = "fast_env_of r" and ?k = "nat (f_bits f) div 8" and ?m = "nat (f_bits f) mod 8"
  have e: "e_last ?e + 5 = r_next r + r_have r" "e_end ?e + 257 = r_put r + r_left r"
    using room by (simp_all add: fast_env_of_def fast_start_def restore_def)
  have m: "nat (f_bits f) - 8 * ?k = ?m" by (simp add: minus_mult_div_eq_mod)
  have "js_shl 1 ?m = 2 ^ ?m"
  proof (rule js_shl_mult [of 1, simplified])
    have "?m \<le> 7" by simp
    then have "(2 :: int) ^ ?m \<le> 2 ^ 7" by (rule power_increasing) simp
    then show "(2 :: int) ^ ?m < 2147483648" by simp
  qed simp
  then have h: "js_and (f_hold f) (js_shl 1 ?m - 1) = f_hold f mod 2 ^ ?m" by (simp add: js_and_mask)
  have ai: "(if f_in f - q < e_last ?e then 5 + (e_last ?e - (f_in f - q)) else 5 - (f_in f - q - e_last ?e)) = r_next r + r_have r - f_in f + q"
    if "q \<le> f_in f" for q
    using e(1) f(2) that unfolding fast_fits_def by auto
  have ao: "(if f_out f < e_end ?e then 257 + (e_end ?e - f_out f) else 257 - (f_out f - e_end ?e)) = r_put r + r_left r - f_out f"
    using e(2) f(3) by auto
  have start: "\<lparr>f_in = z_next_in (r_strm (restore r)), f_out = z_next_out (r_strm (restore r)), f_output = nullable (z_output (r_strm (restore r))),
      f_hold = i_hold (r_state (restore r)), f_bits = int (i_bits (r_state (restore r))), f_mode = i_mode (r_state (restore r)),
      f_msg = z_msg (r_strm (restore r))\<rparr> = fast_of r"
    by (simp add: fast_of_def restore_def nullable_def)
  have fast: "inflate_fast (r_fixed (restore r)) (r_strm (restore r)) (r_state (restore r)) (r_out (restore r)) =
      Some (fast_return ?e f (r_strm (restore r)) (r_state (restore r)))"
    using f(1) start by (simp add: inflate_fast_def Let_def fast_env_of_def) (simp add: restore_def)
  show ?thesis
    unfolding run_fast_def Let_def fast fast_return_def m h ai [OF f(4)] ao
    using R by (auto simp: after_fast_def Let_def restore_def as_run_def nullable_def intro!: run.equality)
qed

lemma as_run_of: "as_run r (fast_of r) = r"
  by (rule run.equality) (simp_all add: as_run_def fast_of_def)

lemma after_fast_sel: "r_state (after_fast r f) = (r_state r)\<lparr>i_hold := f_hold f mod 2 ^ (nat (f_bits f) mod 8), i_bits := nat (f_bits f) mod 8,
      i_mode := f_mode f, i_back := (if f_mode f = TYPE_mode then - 1 else i_back (r_state r))\<rparr>"
  "r_fixed (after_fast r f) = r_fixed r" "r_input (after_fast r f) = r_input r" "r_output (after_fast r f) = f_output f" "r_put (after_fast r f) = f_out f"
  "r_left (after_fast r f) = r_put r + r_left r - f_out f" "r_in (after_fast r f) = r_in r" "r_out (after_fast r f) = r_out r"
  "r_ret (after_fast r f) = r_ret r" "z_input (r_strm (after_fast r f)) = z_input (r_strm r)"
  by (simp_all add: after_fast_def Let_def restore_def)

lemma after_fast_buffer:
  assumes r: "buffer_ok r" and f: "fast_fits r f" and left: "fast_left r f \<le> 8 * r_have r + 7"
  shows "nat (f_bits f) div 8 \<le> f_in f" "buffer_ok (after_fast r f)" "bitstream (after_fast r f) F = bitstream (as_run r f) F"
    "r_bits (after_fast r f) < 8" "r_have (after_fast r f) \<le> r_have r" "r_have (after_fast r f) + r_next (after_fast r f) = r_have r + r_next r"
proof -
  let ?k = "nat (f_bits f) div 8" and ?r1 = "as_run r f" and ?r2 = "after_fast r f"
  have F: "buffer_ok ?r1" "advanced r ?r1" "r_next r \<le> f_in f" "f_in f \<le> r_next r + r_have r" using f by (auto simp: fast_fits_def)
  have S: "r_next ?r1 = f_in f" "r_have ?r1 = r_next r + r_have r - f_in f" "r_bits ?r1 = nat (f_bits f)" "r_hold ?r1 = f_hold f" "r_input ?r1 = r_input r"
    by (simp_all add: as_run_def)
  have m: "r_bits ?r1 - 8 * ?k = nat (f_bits f) mod 8" "8 * ?k \<le> r_bits ?r1" unfolding S by (simp_all add: minus_mult_div_eq_mod)
  have pos: "r_next ?r1 + r_have ?r1 = r_next r + r_have r" "r_have ?r1 \<le> r_have r" using F unfolding S by linarith+
  have lim: "fast_left r f \<le> 8 * r_have r + (r_bits ?r1 - 8 * ?k)"
  proof -
    have "r_have ?r1 + ?k \<le> r_have r" using left m by linarith
    then show ?thesis using m by linarith
  qed
  have A: "r_input ?r2 = r_input r" "r_next ?r2 = r_next ?r1 - ?k" "r_have ?r2 = r_have ?r1 + ?k" "r_bits ?r2 = r_bits ?r1 - 8 * ?k"
    "r_hold ?r2 = r_hold ?r1 mod 2 ^ (r_bits ?r1 - 8 * ?k)"
    unfolding m(1) by (simp_all add: after_fast_def Let_def S restore_def)
  note P = put_back [OF r F(1,2) S(5) pos m(2) lim A]
  show "?k \<le> f_in f" using P(1) unfolding S .
  show "buffer_ok ?r2" "bitstream ?r2 F = bitstream ?r1 F" by (rule P)+
  show "r_bits ?r2 < 8" unfolding A m by simp
  have "r_have ?r1 + ?k \<le> r_have r" using left m by linarith
  then show "r_have ?r2 \<le> r_have r" unfolding A .
  show "r_have ?r2 + r_next ?r2 = r_have r + r_next r" using pos P(1) unfolding A by linarith
qed

lemma step_LEN_fast:
  assumes ok: "all_ok H beg cl r G" and m: "i_mode (r_state r) = LEN" and ret: "r_ret r = Z_OK" and room: "6 \<le> r_have r" "258 \<le> r_left r"
  shows "step_ok H beg cl G r (step_LEN r)"
proof -
  note A = all_okD [OF ok]
  let ?s = "r_state r"
  have buf: "buffer_ok r" using A(4) m by simp
  have co: "codes_ok (r_fixed r) ?s" using A(2) m by (simp add: mode_ok_simps)
  note R = A(1) [unfolded run_ok_def] and env = env_of [OF A(1) co room]
  have E: "e_last (fast_env_of r) + 5 = r_next r + r_have r" "e_end (fast_env_of r) + 257 = r_put r + r_left r" "e_lcode (fast_env_of r) = len_table (r_fixed r) ?s"
    using env by (auto simp: env_ok_def)
  have f0: "fast_ok H beg r (fast_of r) G" using R buf by (simp add: fast_ok_def fast_fits_def as_run_of advanced_refl) (simp add: fast_of_def)
  have S: "f_in (fast_of r) = r_next r" "f_out (fast_of r) = r_put r" "f_hold (fast_of r) = r_hold r" "f_bits (fast_of r) = int (r_bits r)" "f_mode (fast_of r) = LEN"
    using m by (simp_all add: fast_of_def)
  have "r_bits r < 8 \<or> r_bits r < code_bits (len_table (r_fixed r) ?s) (i_lenbits ?s) (r_hold r)" using A(3) m by (simp add: lean_def pending_simps)
  then have ret0: "returnable r (fast_env_of r) (fast_of r)" by (auto simp: returnable_def as_run_of S E(3))
  have enter: "f_in (fast_of r) < e_last (fast_env_of r)" "f_out (fast_of r) < e_end (fast_env_of r)" using E room unfolding S by linarith+
  have len: "r_put r + r_left r \<le> length (r_output r)" using R by simp
  obtain f where f: "fast_top (fast_env_of r) (fast_of r) = Some f" "fast_result H beg r (fast_of r) G f"
    using fast_top_ok [OF env A(5) co len f0 S(5) enter ret0] by blast
  then obtain G' where G': "fast_ok H beg r f G'" "fast_left r f < run_bits r" "fast_left r f \<le> 8 * r_have r + 7"
    and cs: "f_mode f = LEN \<and> (\<forall>F. codes_rest ?s (bitstream (as_run r f) F) G' = codes_rest ?s (bitstream r F) G) \<or>
      f_mode f = TYPE_mode \<and> (\<forall>F. blocks_rest ?s (bitstream (as_run r f) F) G' = codes_rest ?s (bitstream r F) G) \<or>
      f_mode f = BAD \<and> (\<forall>F. codes_rest ?s (bitstream r F) G = None)"
    unfolding fast_result_def as_run_of by blast
  note O = G'(1) [unfolded fast_ok_def]
  have fits: "fast_fits r f" using O by simp
  note B = after_fast_buffer [OF buf fits G'(3)]
  have run: "run_fast r = Some (after_fast r f)" using run_fast_eq [OF A(1) room f(1) fits _ B(1)] O by simp
  let ?r' = "after_fast r f"
  have s': "codes_rest (r_state ?r') b X = codes_rest ?s b X" "blocks_rest (r_state ?r') b X = blocks_rest ?s b X"
    "codes_ok g (r_state ?r') = codes_ok g ?s" "state_ok (r_state ?r') H = state_ok ?s H" for b X g
    unfolding after_fast_sel
    by (rule rest_cong; simp add: ll_of_def dl_of_def)
      (simp_all add: blocks_rest_def codes_ok_def ll_of_def dl_of_def len_table_def dist_table_def state_ok_def split: table_ref.split)
  have mode: "i_mode (r_state ?r') = f_mode f" by (simp add: after_fast_sel)
  have "goes (ready r) H beg cl G r ?r'"
  proof (rule goesI [where cl' = cl and G' = G'])
    show "run_ok H beg ?r' G'" using R O B(2) out_okD(3) [of H beg "r_put r" "r_output r" G] out_okD(3) [of H beg "f_out f" "f_output f" G']
      unfolding run_ok_def s' by (auto simp: after_fast_sel)
    show "mode_ok cl (r_fixed ?r') (r_state ?r')" using cs co by (auto simp: mode_ok_simps mode s' after_fast_sel(2))
    show "lean cl ?r'" using B(4) cs by (auto simp: lean_def mode)
    show "to_come cl (r_state ?r') (bitstream ?r' F) G' = to_come cl ?s (bitstream r F) G" for F
      using cs m by (auto simp: to_come_simps mode B(3) s')
    show "same_call r ?r'" using O B(5,6) by (simp add: same_call_def after_fast_sel)
    show "ready r cl G' ?r'" using ret G'(2) same_bits [OF B(3)] by (auto simp: ready_def after_fast_sel(9) intro!: step_order_bits)
  qed
  then show ?thesis using room run by (simp add: step_LEN_def)
qed

lemma step_LEN_ok:
  assumes "all_ok H beg cl r G" "i_mode (r_state r) = LEN" "r_ret r = Z_OK"
  shows "step_ok H beg cl G r (step_LEN r)"
  using step_LEN_slow [OF assms] step_LEN_fast [OF assms] by blast

end
