(* ===== verification/InflateCorrect.thy ===== *)
theory InflateCorrect
  imports InflateFastLoop
begin

text \<open>
  \<open>inflate\<close> on raw deflate data is the specification: each mode is correct, the loop ends, and what a
  call leaves in the state and the window is what the next call needs.
\<close>

section \<open>Every mode\<close>

lemma goes_mode:
  assumes ok: "all_ok H beg cl r G" and m: "i_mode (r_state r) \<noteq> BAD"
    and mo: "mode_ok cl (r_fixed r) ((r_state r)\<lparr>i_mode := m'\<rparr>)" and le: "lean cl (set_mode m' r)"
    and eq: "\<And>b. to_come cl ((r_state r)\<lparr>i_mode := m'\<rparr>) b G = to_come cl (r_state r) b G" and P: "P cl G (set_mode m' r)"
  shows "goes P H beg cl G r (set_mode m' r)"
proof (rule goesI)
  show "run_ok H beg (set_mode m' r) G" using all_okD(1,4) [OF ok] m by (simp add: run_ok_def state_ok_def)
  show "same_call r (set_mode m' r)" by (simp add: same_call_def)
qed (use mo le eq P in simp_all)

lemma inflate_step_ok:
  assumes fl: "no_stop flush" and ok: "all_ok H beg cl r G" and w: "i_wrap (r_state r) = 0"
    and ret: "i_mode (r_state r) \<noteq> BAD \<longrightarrow> r_ret r = Z_OK"
  shows "step_ok H beg cl G r (inflate_step flush r)"
proof -
  note A = all_okD [OF ok]
  have nb: "flush \<noteq> Z_BLOCK" "flush \<noteq> Z_TREES" using fl by (auto simp: no_stop_def)
  show ?thesis
  proof (cases "i_mode (r_state r)")
    case TYPE_mode
    then show ?thesis using step_TYPEDO_ok [OF ok _ _ fl] ret nb by (simp add: inflate_step_def step_TYPE_def)
  next
    case TYPEDO
    then show ?thesis using step_TYPEDO_ok [OF ok _ _ fl] ret by (simp add: inflate_step_def)
  next
    case STORED
    then show ?thesis using step_STORED_ok [OF ok STORED _ fl] ret by (simp add: inflate_step_def)
  next
    case COPY_first
    have "goes (ready r) H beg cl G r (set_mode COPY r)"
    proof (rule goes_mode [OF ok])
      show "lean cl (set_mode COPY r)" using A(3) COPY_first by (simp add: lean_def)
      show "ready r cl G (set_mode COPY r)" using COPY_first ret by (auto simp: ready_def mode_rank_simps intro!: step_order_rank)
    qed (use COPY_first in \<open>simp_all add: mode_ok_simps to_come_simps then_blocks_def blocks_rest_def\<close>)
    then show ?thesis using COPY_first by (simp add: inflate_step_def)
  next
    case COPY
    then show ?thesis using step_COPY_ok [OF ok] ret by (simp add: inflate_step_def)
  next
    case TABLE
    then show ?thesis using step_TABLE_ok [OF ok] ret by (simp add: inflate_step_def)
  next
    case LENLENS
    then show ?thesis using step_LENLENS_ok [OF ok] ret by (simp add: inflate_step_def)
  next
    case CODELENS
    then show ?thesis using step_CODELENS_ok [OF ok CODELENS _ fl] ret by (simp add: inflate_step_def)
  next
    case LEN_first
    have "goes (ready r) H beg cl G r (set_mode LEN r)"
    proof (rule goes_mode [OF ok])
      show "lean cl (set_mode LEN r)" using A(3) LEN_first by (simp add: lean_def pending_simps)
      show "ready r cl G (set_mode LEN r)" using LEN_first ret by (auto simp: ready_def mode_rank_simps intro!: step_order_rank)
      show "mode_ok cl (r_fixed r) ((r_state r)\<lparr>i_mode := LEN\<rparr>)" using A(2) LEN_first by (simp add: mode_ok_simps codes_mode)
    qed (use LEN_first in \<open>simp_all add: to_come_simps rest_mode\<close>)
    then show ?thesis using LEN_first by (simp add: inflate_step_def)
  next
    case LEN
    then show ?thesis using step_LEN_ok [OF ok] ret by (simp add: inflate_step_def)
  next
    case LENEXT
    then show ?thesis using step_LENEXT_ok [OF ok] ret by (simp add: inflate_step_def)
  next
    case DIST
    then show ?thesis using step_DIST_ok [OF ok] ret by (simp add: inflate_step_def)
  next
    case DISTEXT
    then show ?thesis using step_DISTEXT_ok [OF ok] ret by (simp add: inflate_step_def)
  next
    case MATCH
    then show ?thesis using step_MATCH_goes [OF ok] ret by (simp add: inflate_step_def)
  next
    case LIT
    then show ?thesis using step_LIT_ok [OF ok] ret by (simp add: inflate_step_def)
  next
    case CHECK
    have "goes (ready r) H beg cl G r (set_mode LENGTH_mode r)"
    proof (rule goes_mode [OF ok])
      show "lean cl (set_mode LENGTH_mode r)" using A(3) CHECK by (simp add: lean_def pending_simps)
      show "ready r cl G (set_mode LENGTH_mode r)" using CHECK ret by (auto simp: ready_def mode_rank_simps intro!: step_order_rank)
    qed (use CHECK in \<open>simp_all add: mode_ok_simps to_come_simps\<close>)
    then show ?thesis using CHECK w by (simp add: inflate_step_def step_CHECK_def)
  next
    case LENGTH_mode
    have "goes (ready r) H beg cl G r (set_mode DONE r)"
    proof (rule goes_mode [OF ok])
      show "lean cl (set_mode DONE r)" using A(3) LENGTH_mode by (simp add: lean_def pending_simps)
      show "ready r cl G (set_mode DONE r)" using LENGTH_mode ret by (auto simp: ready_def mode_rank_simps intro!: step_order_rank)
    qed (use LENGTH_mode in \<open>simp_all add: mode_ok_simps to_come_simps\<close>)
    then show ?thesis using LENGTH_mode w by (simp add: inflate_step_def step_LENGTH_def)
  next
    case DONE
    have "goes stopped H beg cl G r (r\<lparr>r_ret := Z_STREAM_END\<rparr>)"
      by (rule goesI) (use ok DONE in \<open>simp_all add: all_ok_def run_ok_def lean_def same_call_def stopped_def\<close>)
    then show ?thesis using DONE by (simp add: inflate_step_def)
  next
    case BAD
    have "goes stopped H beg cl G r (r\<lparr>r_ret := Z_DATA_ERROR\<rparr>)"
      by (rule goesI) (use ok BAD in \<open>simp_all add: all_ok_def run_ok_def lean_def same_call_def stopped_def\<close>)
    then show ?thesis using BAD by (simp add: inflate_step_def)
  qed (use A(2) in \<open>simp_all add: mode_ok_def\<close>)
qed

section \<open>The loop\<close>

lemma goes_trans:
  assumes "goes (ready r) H beg cl G r r1"
    and "\<And>cl1 G1. all_ok H beg cl1 r1 G1 \<Longrightarrow> ready r cl1 G1 r1 \<Longrightarrow> same_call r r1 \<Longrightarrow> \<exists>r'. f = Some (Leave r') \<and> goes stopped H beg cl1 G1 r1 r'"
  shows "\<exists>r'. f = Some (Leave r') \<and> goes stopped H beg cl G r r'"
proof -
  obtain cl1 G1 where 1: "all_ok H beg cl1 r1 G1" "ready r cl1 G1 r1" "same_call r r1"
    "\<And>F. to_come cl1 (r_state r1) (bitstream r1 F) G1 = to_come cl (r_state r) (bitstream r F) G"
    using assms(1) unfolding goes_def by blast
  obtain r' where r': "f = Some (Leave r')" "goes stopped H beg cl1 G1 r1 r'" using assms(2) [OF 1(1-3)] by blast
  then obtain cl' G' where 2: "all_ok H beg cl' r' G'" "same_call r1 r'" "stopped cl' G' r'"
    "\<And>F. to_come cl' (r_state r') (bitstream r' F) G' = to_come cl1 (r_state r1) (bitstream r1 F) G1"
    unfolding goes_def by blast
  have "goes stopped H beg cl G r r'"
    using 2(1) same_call_trans [OF 1(3) 2(2)] 2(3) unfolding goes_def by (intro exI [of _ cl'] exI [of _ G']) (simp only: 2(4) 1(4) simp_thms)
  then show ?thesis using r'(1) by blast
qed

lemma inflate_loop_ok:
  assumes fl: "no_stop flush" and ok: "all_ok H beg cl r G" and w: "i_wrap (r_state r) = 0"
    and ret: "i_mode (r_state r) \<noteq> BAD \<longrightarrow> r_ret r = Z_OK"
  shows "\<exists>r'. inflate_loop flush r = Some (Leave r') \<and> goes stopped H beg cl G r r'"
  using ok w ret
proof (induction r arbitrary: cl G rule: wf_induct_rule [OF wf_step_order])
  case (1 r)
  note step = inflate_step_ok [OF fl "1.prems"]
  show ?case
  proof (cases "inflate_step flush r")
    case None
    then show ?thesis using step by (simp add: step_ok_def)
  next
    case (Some res)
    show ?thesis
    proof (cases res)
      case (Continue r1)
      have go: "goes (ready r) H beg cl G r r1" using step Some Continue by simp
      have loop: "inflate_loop flush r = inflate_loop flush r1" using Some Continue by (subst inflate_loop.simps) simp
      show ?thesis unfolding loop
      proof (rule goes_trans [OF go])
        fix cl1 G1 assume a: "all_ok H beg cl1 r1 G1" "ready r cl1 G1 r1" "same_call r r1"
        have "i_wrap (r_state r1) = 0" using a(3) "1.prems"(2) by (simp add: same_call_def)
        moreover have "(r1, r) \<in> step_order" "i_mode (r_state r1) \<noteq> BAD \<longrightarrow> r_ret r1 = Z_OK" using a(2) by (auto simp: ready_def)
        ultimately show "\<exists>r'. inflate_loop flush r1 = Some (Leave r') \<and> goes stopped H beg cl1 G1 r1 r'" using "1.IH" a(1) by blast
      qed
    next
      case (Leave r1)
      then have "inflate_loop flush r = Some (Leave r1)" using Some by (subst inflate_loop.simps) simp
      then show ?thesis using step Some Leave by simp
    next
      case (Return c r1)
      then show ?thesis using step Some by (simp add: step_ok_def)
    next
      case Throws
      then show ?thesis using step Some by (simp add: step_ok_def)
    qed
  qed
qed

section \<open>Between calls\<close>

text \<open>The bits that the state holds, and the bytes to come after them.\<close>

definition state_stream :: "inflate_state \<Rightarrow> int list \<Rightarrow> bits" where
  "state_stream s F = (i_bits s + 8 * length F, nat (i_hold s) + 2 ^ i_bits s * bytes_value F)"

text \<open>A new stream of raw data starts with its first block.\<close>

definition started :: "inflate_state \<Rightarrow> inflate_state" where
  "started s = (if i_mode s = HEAD then s\<lparr>i_mode := TYPEDO\<rparr> else s)"

definition rest_of :: "nat list \<Rightarrow> inflate_state \<Rightarrow> int list \<Rightarrow> int list \<Rightarrow> (bits \<times> int list) option" where
  "rest_of cl s F H = to_come cl (started s) (state_stream s F) H"

definition carried :: "nat list \<Rightarrow> fixed_tables \<Rightarrow> inflate_state \<Rightarrow> int list \<Rightarrow> bool" where
  "carried cl g s H \<longleftrightarrow> i_wrap s = 0 \<and> state_ok s H \<and> is_bytes H \<and> fixed_ok g \<and> mode_ok cl g (started s) \<and> i_mode s \<noteq> BAD \<and>
     0 \<le> i_hold s \<and> i_hold s < 2 ^ i_bits s \<and> i_bits s \<le> 31 \<and>
     (if i_mode s \<in> {COPY_first, COPY} then i_bits s = 0 else i_bits s < 8 \<or> i_bits s < pending cl g (started s) (i_hold s))"

text \<open>The caller's side: its arrays, with room where it says so.\<close>

definition call_args :: "zstream \<Rightarrow> bool" where
  "call_args strm \<longleftrightarrow> (\<exists>out. z_output strm = Some out \<and> is_bytes out \<and> z_next_out strm + z_avail_out strm \<le> length out) \<and>
     is_bytes (nullable (z_input strm)) \<and> z_next_in strm + z_avail_in strm \<le> length (nullable (z_input strm))"

definition call_input :: "zstream \<Rightarrow> int list" where
  "call_input strm = take (z_avail_in strm) (drop (z_next_in strm) (nullable (z_input strm)))"

text \<open>The bytes that a call from \<open>strm\<close> to \<open>strm'\<close> put out.\<close>

definition written :: "zstream \<Rightarrow> zstream \<Rightarrow> int list" where
  "written strm strm' = take (z_next_out strm' - z_next_out strm) (drop (z_next_out strm) (nullable (z_output strm')))"

text \<open>What a call must do: \<open>rest_of\<close> before it decides.\<close>

definition call_ok :: "nat list \<Rightarrow> int list \<Rightarrow> zstream \<Rightarrow> inflate_state \<Rightarrow> int \<times> fixed_tables \<times> zstream \<Rightarrow> bool" where
  "call_ok cl H strm s res \<longleftrightarrow>
     (case res of (ret, g', strm') \<Rightarrow>
        call_args strm' \<and> nullable (z_input strm') = nullable (z_input strm) \<and> z_next_in strm \<le> z_next_in strm' \<and> z_next_out strm \<le> z_next_out strm' \<and>
        z_next_in strm' + z_avail_in strm' = z_next_in strm + z_avail_in strm \<and>
        z_next_out strm' + z_avail_out strm' = z_next_out strm + z_avail_out strm \<and>
        length (nullable (z_output strm')) = length (nullable (z_output strm)) \<and> fixed_ok g' \<and>
        (\<exists>s'. z_state strm' = Some s' \<and>
          (if ret = Z_STREAM_END
           then \<forall>F. rest_of cl s (call_input strm @ F) H = Some (state_stream s' (call_input strm' @ F), H @ written strm strm')
           else if ret = Z_DATA_ERROR then \<forall>F. rest_of cl s (call_input strm @ F) H = None
           else (ret = Z_OK \<or> ret = Z_BUF_ERROR) \<and> (\<exists>cl'. carried cl' g' s' (H @ written strm strm') \<and>
             (\<forall>F. rest_of cl' s' (call_input strm' @ F) (H @ written strm strm') = rest_of cl s (call_input strm @ F) H) \<and>
             (z_avail_out strm' = 0 \<and> i_mode s' \<in> {COPY, MATCH, LIT} \<and> (i_mode s' = COPY \<longrightarrow> i_length s' \<noteq> 0) \<or>
              z_avail_in strm' = 0 \<and> rest_of cl' s' [] (H @ written strm strm') = None)))))"

section \<open>One call\<close>

definition start_run :: "fixed_tables \<Rightarrow> zstream \<Rightarrow> inflate_state \<Rightarrow> run" where
  "start_run g strm s = upd_state started (load_run g strm s)"

lemma loop_start:
  assumes "i_wrap s = 0"
  shows "inflate_loop flush (load_run g strm s) = inflate_loop flush (start_run g strm s)"
proof (cases "i_mode s = HEAD")
  case True
  have "inflate_step flush (load_run g strm s) = Some (Continue (start_run g strm s))"
    using True assms by (simp add: inflate_step_def step_HEAD_def load_run_def start_run_def set_mode_def started_def)
  then show ?thesis by (subst inflate_loop.simps) simp
next
  case False
  then have "start_run g strm s = load_run g strm s" by (intro run.equality) (simp_all add: start_run_def load_run_def started_def)
  then show ?thesis by simp
qed

lemma start_state: "r_state (start_run g strm s) = (if i_mode s \<in> {HEAD, TYPE_mode} then s\<lparr>i_mode := TYPEDO\<rparr> else s)"
  by (simp add: start_run_def load_run_def started_def)

lemma start_run_ok:
  assumes c: "carried cl g s H" and a: "call_args strm"
  shows "all_ok H (z_next_out strm) cl (start_run g strm s) H" "bitstream (start_run g strm s) F = state_stream s (call_input strm @ F)"
    "to_come cl (r_state (start_run g strm s)) b H = to_come cl (started s) b H"
    "i_wrap (r_state (start_run g strm s)) = 0" "i_mode (r_state (start_run g strm s)) \<noteq> BAD" "r_ret (start_run g strm s) = Z_OK"
proof -
  note C = c [unfolded carried_def] and A = a [unfolded call_args_def]
  let ?r = "start_run g strm s"
  have R: "r_input ?r = nullable (z_input strm)" "r_output ?r = nullable (z_output strm)" "r_put ?r = z_next_out strm" "r_left ?r = z_avail_out strm"
    "r_next ?r = z_next_in strm" "r_have ?r = z_avail_in strm" "r_hold ?r = i_hold s" "r_bits ?r = i_bits s" "r_out ?r = z_avail_out strm"
    "r_fixed ?r = g" "r_strm ?r = strm" "r_ret ?r = Z_OK"
    by (simp_all add: start_run_def load_run_def)
  have b: "buffer_ok ?r" using A C by (simp add: buffer_ok_def R)
  have o: "out_ok H (z_next_out strm) (z_next_out strm) (nullable (z_output strm)) H" "z_next_out strm + z_avail_out strm \<le> length (nullable (z_output strm))"
    using A C by (auto simp: out_ok_def nullable_def)
  have "state_ok (r_state ?r) H" using C by (simp add: start_state state_ok_def)
  then have run: "run_ok H (z_next_out strm) ?r H" using b o C by (simp add: run_ok_def R)
  have "mode_ok cl g (r_state ?r)" using C by (auto simp: start_state started_def mode_ok_simps split: if_splits)
  moreover have "lean cl ?r"
    using C by (auto simp: lean_def start_state started_def R pending_simps split: if_splits)
  ultimately show "all_ok H (z_next_out strm) cl ?r H" using run by (simp add: all_ok_def R)
  have "unread ?r = call_input strm" by (simp add: unread_def R call_input_def)
  moreover have "length (call_input strm) = z_avail_in strm" using A by (auto simp: call_input_def)
  ultimately show "bitstream ?r F = state_stream s (call_input strm @ F)" by (simp add: bitstream_def state_stream_def R)
  show "to_come cl (r_state ?r) b H = to_come cl (started s) b H"
    by (auto simp: start_state started_def to_come_simps blocks_rest_def)
  show "i_wrap (r_state ?r) = 0" "i_mode (r_state ?r) \<noteq> BAD" using C by (auto simp: start_state)
  show "r_ret ?r = Z_OK" by (rule R)
qed

text \<open>The state after the call differs in what the modes do not look at.\<close>

definition stored_state :: "run \<Rightarrow> inflate_state \<Rightarrow> bool" where
  "stored_state r s' \<longleftrightarrow> (\<exists>w n h z t. s' = (r_state r)\<lparr>i_hold := r_hold r, i_bits := r_bits r, i_wsize := z, i_whave := h, i_wnext := n, i_window := w, i_total := t\<rparr>)"

lemma stored_state_sel:
  assumes "stored_state r s'"
  shows "i_mode s' = i_mode (r_state r)" "i_hold s' = r_hold r" "i_bits s' = r_bits r" "i_wrap s' = i_wrap (r_state r)"
    "mode_ok cl g s' = mode_ok cl g (r_state r)" "pending cl g s' = pending cl g (r_state r)" "to_come cl s' b G = to_come cl (r_state r) b G"
    "window_ok s' G \<Longrightarrow> state_ok (r_state r) H \<Longrightarrow> state_ok s' G" "i_length s' = i_length (r_state r)"
proof -
  obtain w n h z t where s': "s' = (r_state r)\<lparr>i_hold := r_hold r, i_bits := r_bits r, i_wsize := z, i_whave := h, i_wnext := n, i_window := w, i_total := t\<rparr>"
    using assms by (auto simp: stored_state_def)
  show "i_mode s' = i_mode (r_state r)" "i_hold s' = r_hold r" "i_bits s' = r_bits r" "i_wrap s' = i_wrap (r_state r)" "i_length s' = i_length (r_state r)"
    "window_ok s' G \<Longrightarrow> state_ok (r_state r) H \<Longrightarrow> state_ok s' G"
    by (simp_all add: s' state_ok_def)
  have t: "ll_of s' = ll_of (r_state r)" "dl_of s' = dl_of (r_state r)" "len_table g s' = len_table g (r_state r)" "dist_table g s' = dist_table g (r_state r)" for g
    by (simp_all add: s' ll_of_def dl_of_def len_table_def dist_table_def split: table_ref.split)
  have p: "part_cl s' = part_cl (r_state r)" by (simp add: s' part_cl_def)
  have e: "i_mode s' = i_mode (r_state r)" "i_ncode s' = i_ncode (r_state r)" "i_have s' = i_have (r_state r)" "i_length s' = i_length (r_state r)"
    "i_offset s' = i_offset (r_state r)" "i_extra s' = i_extra (r_state r)" "i_nlen s' = i_nlen (r_state r)" "i_ndist s' = i_ndist (r_state r)"
    "i_lenbits s' = i_lenbits (r_state r)" "i_distbits s' = i_distbits (r_state r)" "i_dmax s' = i_dmax (r_state r)" "i_lens s' = i_lens (r_state r)"
    "i_lendyn s' = i_lendyn (r_state r)" "i_lencode s' = i_lencode (r_state r)"
    by (simp_all add: s')
  show "mode_ok cl g s' = mode_ok cl g (r_state r)"
    by (simp add: mode_ok_def codes_ok_def t p counts_ok_def codelens_ok_def e cong: inflate_mode.case_cong)
  show "pending cl g s' = pending cl g (r_state r)" by (simp add: fun_eq_iff pending_def t e cong: inflate_mode.case_cong)
  have l: "i_last s' = i_last (r_state r)" "i_dmax s' = i_dmax (r_state r)" by (simp_all add: s')
  note c = rest_cong [OF l]
  have R: "then_blocks s' x = then_blocks (r_state r) x" "tables_rest s' G y = tables_rest (r_state r) G y"
    "codelens_rest s' G y = codelens_rest (r_state r) G y" "codes_rest s' b G = codes_rest (r_state r) b G"
    "item_rest s' G it = item_rest (r_state r) G it" "blocks_rest s' b G = blocks_rest (r_state r) b G" for x y b it
    by (simp_all add: c(1) c(2) [OF e(7)] c(3) [OF e(7,8)] c(4,5) [OF t(1,2)] blocks_rest_def l)
  show "to_come cl s' b G = to_come cl (r_state r) b G"
    by (simp add: to_come_def R t p e cong: inflate_mode.case_cong)
qed

lemma stopped_mode:
  assumes "stopped cl G r" "mode_ok cl g (r_state r)" "i_mode (r_state r) \<notin> {DONE, BAD}"
  shows "mode_number (i_mode (r_state r)) < mode_number CHECK"
  using assms by (cases "i_mode (r_state r)") (auto simp: stopped_def full_def mode_ok_def mode_number_def to_come_simps)

lemma window_stored: "window_updated ((r_state r)\<lparr>i_hold := r_hold r, i_bits := r_bits r\<rparr>) s \<Longrightarrow> stored_state r (s\<lparr>i_total := t\<rparr>)"
  by (auto simp: window_updated_def stored_state_def) (rule exI, rule exI, rule exI, rule exI, rule exI, rule inflate_state.equality, simp_all)

lemma leave_window:
  assumes ok: "run_ok H beg r G" and m: "mode_ok cl (r_fixed r) (r_state r)" and st: "stopped cl G r"
  shows "\<exists>s. (if needs_window flush (restore r) then updatewindow (r_state (restore r)) (r_output (restore r)) (r_put (restore r)) (r_out (restore r) - r_left (restore r))
      else Some (r_state (restore r))) = Some s \<and> stored_state r (s\<lparr>i_total := t\<rparr>) \<and> (i_mode (r_state r) \<notin> {DONE, BAD} \<longrightarrow> window_ok s G)"
proof -
  let ?s = "(r_state r)\<lparr>i_hold := r_hold r, i_bits := r_bits r\<rparr>"
  note R = ok [unfolded run_ok_def] and O = out_okD(3) [of H beg "r_put r" "r_output r" G]
  have S: "r_state (restore r) = ?s" "r_output (restore r) = r_output r" "r_put (restore r) = r_put r" "r_out (restore r) = r_out r" "r_left (restore r) = r_left r"
    by (simp_all add: restore_def)
  have w: "window_ok ?s H" using R by (simp add: state_ok_def)
  have G: "G = H @ take (r_put r - beg) (drop beg (r_output r))" "beg \<le> r_put r" "r_put r \<le> length (r_output r)" using R by (auto simp: out_ok_def)
  have copy: "r_out r - r_left r = r_put r - beg" "r_put r - (r_put r - beg) = beg" "r_put r - beg \<le> r_put r" using R G(2) by linarith+
  show ?thesis
  proof (cases "needs_window flush (restore r)")
    case True
    obtain s' where "updatewindow ?s (r_output r) (r_put r) (r_put r - beg) = Some s'" "window_updated ?s s'"
      "window_ok s' (H @ take (r_put r - beg) (drop beg (r_output r)))"
      using updatewindow_ring [OF w copy(3) G(3)] unfolding copy(2) by blast
    then show ?thesis using True window_stored G(1) by (auto simp: S copy(1))
  next
    case False
    have "window_ok ?s G" if "i_mode (r_state r) \<notin> {DONE, BAD}"
    proof -
      have "mode_number (i_mode (r_state r)) < 27" using stopped_mode [OF st m that] by (simp add: mode_number_def)
      then have "i_wsize (r_state r) = 0" "r_out r = r_left r" using False by (auto simp: needs_window_def S mode_number_def)
      then have "r_put r = beg" using copy(1) G(2) R by linarith
      then show ?thesis using w G(1) by simp
    qed
    moreover have "stored_state r (?s\<lparr>i_total := t\<rparr>)"
      by (auto simp: stored_state_def) (rule exI, rule exI, rule exI, rule exI, rule exI, rule inflate_state.equality, simp_all)
    ultimately show ?thesis using False by (simp add: S)
  qed
qed

lemma leave_ok:
  assumes ok: "run_ok H beg r G" and m: "mode_ok cl (r_fixed r) (r_state r)" and st: "stopped cl G r" and wrap: "i_wrap (r_state r) = 0"
  shows "\<exists>ret strm' s'. leave_run flush r = Inr (ret, r_fixed r, strm') \<and> z_state strm' = Some s' \<and> stored_state r s' \<and>
    (i_mode (r_state r) \<notin> {DONE, BAD} \<longrightarrow> window_ok s' G) \<and> (ret = r_ret r \<or> r_ret r = Z_OK \<and> ret = Z_BUF_ERROR) \<and>
    z_input strm' = z_input (r_strm r) \<and> z_output strm' = Some (r_output r) \<and> z_next_in strm' = r_next r \<and> z_avail_in strm' = r_have r \<and>
    z_next_out strm' = r_put r \<and> z_avail_out strm' = r_left r"
proof -
  let ?t = "i_total (r_state r) + int (r_out r - r_left r)"
  obtain s where s: "(if needs_window flush (restore r) then updatewindow (r_state (restore r)) (r_output (restore r)) (r_put (restore r)) (r_out (restore r) - r_left (restore r))
      else Some (r_state (restore r))) = Some s" "\<And>t. stored_state r (s\<lparr>i_total := t\<rparr>)" "i_mode (r_state r) \<notin> {DONE, BAD} \<longrightarrow> window_ok s G"
    using leave_window [OF ok m st, of flush] by (metis option.inject)
  have w: "i_wrap s = 0" using stored_state_sel(4) [OF s(2)] wrap by simp
  have wt: "window_ok (s\<lparr>i_total := t\<rparr>) G = window_ok s G" for t by (rule window_ok_cong) simp_all
  show ?thesis
    unfolding leave_run_def Let_def s(1) using s(2,3) w wt by (auto simp: restore_def)
qed

theorem inflate_call:
  assumes fl: "no_stop flush" and c: "carried cl g s H" and a: "call_args strm" and s: "z_state strm = Some s"
  shows "\<exists>res. inflate g strm flush = Some (Inr res) \<and> call_ok cl H strm s res"
proof -
  let ?r = "start_run g strm s" and ?beg = "z_next_out strm"
  note S = start_run_ok [OF c a]
  obtain r' where r': "inflate_loop flush ?r = Some (Leave r')" "goes stopped H ?beg cl H ?r r'"
    using inflate_loop_ok [OF fl S(1,4)] S(6) by blast
  obtain cl' G where G: "all_ok H ?beg cl' r' G" "same_call ?r r'" "stopped cl' G r'"
    "\<And>F. to_come cl' (r_state r') (bitstream r' F) G = to_come cl (r_state ?r) (bitstream ?r F) H"
    using r'(2) unfolding goes_def by blast
  note A = all_okD [OF G(1)]
  note R = A(1) [unfolded run_ok_def] and C = G(2) [unfolded same_call_def]
  have wrap: "i_wrap (r_state r') = 0" using C S(4) by simp
  obtain ret strm' s' where L: "leave_run flush r' = Inr (ret, r_fixed r', strm')" "z_state strm' = Some s'" "stored_state r' s'"
    "i_mode (r_state r') \<notin> {DONE, BAD} \<longrightarrow> window_ok s' G" "ret = r_ret r' \<or> r_ret r' = Z_OK \<and> ret = Z_BUF_ERROR"
    "z_input strm' = z_input (r_strm r')" "z_output strm' = Some (r_output r')" "z_next_in strm' = r_next r'" "z_avail_in strm' = r_have r'"
    "z_next_out strm' = r_put r'" "z_avail_out strm' = r_left r'"
    using leave_ok [OF A(1,2) G(3) wrap, of flush] by blast
  have "inflate g strm flush = Some (Inr (ret, r_fixed r', strm'))"
  proof -
    have "z_output strm \<noteq> None" "z_input strm = None \<longrightarrow> z_avail_in strm = 0" using a by (auto simp: call_args_def nullable_def)
    moreover have "inflate_loop flush (load_run g strm s) = Some (Leave r')" using loop_start c r'(1) by (simp add: carried_def)
    ultimately show ?thesis using s L(1) by (auto simp: inflate_def)
  qed
  moreover have "call_ok cl H strm s (ret, r_fixed r', strm')"
  proof -
    have I: "r_input ?r = nullable (z_input strm)" "r_have ?r = z_avail_in strm" "r_next ?r = z_next_in strm" "r_out ?r = z_avail_out strm"
      "r_output ?r = nullable (z_output strm)" "r_left ?r = z_avail_out strm"
      by (simp_all add: start_run_def load_run_def)
    note args = a [unfolded call_args_def]
    have o: "out_ok H ?beg (r_put r') (r_output r') G" "r_put r' + r_left r' \<le> length (r_output r')" "r_left r' + (r_put r' - ?beg) = r_out r'" using R by blast+
    have O: "?beg \<le> r_put r'" "r_put r' + r_left r' \<le> length (r_output r')" "is_bytes (r_output r')" "is_bytes G" "r_left r' + (r_put r' - ?beg) = z_avail_out strm"
      "G = H @ take (r_put r' - ?beg) (drop ?beg (r_output r'))"
    proof -
      show "is_bytes (r_output r')" "G = H @ take (r_put r' - ?beg) (drop ?beg (r_output r'))" using o(1) by (simp_all add: out_ok_def)
      show "r_left r' + (r_put r' - ?beg) = z_avail_out strm" using o(3) C I(4) by simp
    qed (use o(2) out_okD(2,3) [OF o(1)] in simp_all)
    have inp: "nullable (z_input strm') = nullable (z_input strm)" "r_have r' + r_next r' = z_avail_in strm + z_next_in strm" "r_have r' \<le> z_avail_in strm"
      using R C by (simp_all add: L I)
    have args': "call_args strm'" using O inp args by (simp add: call_args_def L)
    have G': "G = H @ written strm strm'" using O(6) by (simp add: written_def L nullable_def)
    have inp_len: "length (call_input strm') = r_have r'" using args' by (auto simp: call_input_def call_args_def L)
    have "unread r' = call_input strm'" using R by (simp add: unread_def call_input_def L)
    then have bits: "bitstream r' F = state_stream s' (call_input strm' @ F)" for F
      using stored_state_sel(2,3) [OF L(3)] inp_len by (simp add: bitstream_def state_stream_def)
    have tc: "to_come cl' (r_state r') (state_stream s' (call_input strm' @ F)) G = rest_of cl s (call_input strm @ F) H" for F
      using G(4) [of F] by (simp add: bits S(2,3) rest_of_def)
    have frame: "call_args strm' \<and> nullable (z_input strm') = nullable (z_input strm) \<and> z_next_in strm \<le> z_next_in strm' \<and> z_next_out strm \<le> z_next_out strm' \<and>
        z_next_in strm' + z_avail_in strm' = z_next_in strm + z_avail_in strm \<and> z_next_out strm' + z_avail_out strm' = z_next_out strm + z_avail_out strm \<and>
        length (nullable (z_output strm')) = length (nullable (z_output strm)) \<and> fixed_ok (r_fixed r')"
      using args' inp O C A(6) by (simp add: L nullable_def I)
    consider (bad) "i_mode (r_state r') = BAD" | (fin) "i_mode (r_state r') = DONE" | (more) "i_mode (r_state r') \<notin> {DONE, BAD}" by blast
    then show ?thesis
    proof cases
      case bad
      then have "ret = Z_DATA_ERROR" using G(3) L(5) by (auto simp: stopped_def Z_OK_def Z_DATA_ERROR_def)
      moreover have "rest_of cl s (call_input strm @ F) H = None" for F using tc [of F] bad by (simp add: to_come_simps)
      ultimately show ?thesis using frame L(2) by (simp add: call_ok_def Z_DATA_ERROR_def Z_STREAM_END_def)
    next
      case fin
      then have "ret = Z_STREAM_END" using G(3) L(5) by (auto simp: stopped_def Z_OK_def Z_STREAM_END_def)
      moreover have "rest_of cl s (call_input strm @ F) H = Some (state_stream s' (call_input strm' @ F), H @ written strm strm')" for F
        using tc [of F] fin G' by (simp add: to_come_simps)
      ultimately show ?thesis using frame L(2) by (simp add: call_ok_def)
    next
      case more
      note SS = stored_state_sel [OF L(3)]
      have st: "r_ret r' = Z_OK" "full r' \<or> r_have r' = 0 \<and> to_come cl' (r_state r') (bitstream r' []) G = None"
        using G(3) more by (auto simp: stopped_def)
      have ret: "ret = Z_OK \<or> ret = Z_BUF_ERROR" using L(5) st(1) by auto
      have head: "started s' = s'" using A(2) more by (auto simp: started_def SS(1) mode_ok_def)
      have rest: "rest_of cl' s' F G = to_come cl' (r_state r') (state_stream s' F) G" for F by (simp add: rest_of_def head SS(7))
      have "state_ok s' G" using SS(8) L(4) more A(5) by blast
      moreover have "buffer_ok r'" using A(4) more by simp
      ultimately have car: "carried cl' (r_fixed r') s' G"
        using wrap A(2,3,6) O(4) more unfolding carried_def head by (auto simp: SS buffer_ok_def lean_def)
      have none: "rest_of cl' s' [] G = None" if "r_have r' = 0" "to_come cl' (r_state r') (bitstream r' []) G = None"
      proof -
        have "call_input strm' = []" using inp_len that(1) by simp
        then show ?thesis using that(2) by (simp add: rest bits)
      qed
      have "z_avail_out strm' = 0 \<and> i_mode s' \<in> {COPY, MATCH, LIT} \<and> (i_mode s' = COPY \<longrightarrow> i_length s' \<noteq> 0) \<or>
          z_avail_in strm' = 0 \<and> rest_of cl' s' [] (H @ written strm strm') = None"
        using st(2) none by (auto simp: full_def L SS G' [symmetric])
      then show ?thesis using frame L(2) ret car tc unfolding call_ok_def
        by (auto simp: G' [symmetric] rest Z_OK_def Z_BUF_ERROR_def Z_STREAM_END_def Z_DATA_ERROR_def)
    qed
  qed
  ultimately show ?thesis by blast
qed

end
