(* ===== verification/InflateStream.thy ===== *)
theory InflateStream
  imports InflateCorrect "HOL-Library.Sublist"
begin

text \<open>
  Whole streams of raw data, fed to \<open>inflate\<close> in pieces of any size and with output buffers of any size,
  as the class \<open>Inflate\<close> does. A session is a sequence of calls; what it puts out is the output of the
  specification of RFC 1951 for what it was fed, however input and output were cut.
\<close>

section \<open>The output only grows\<close>

lemma lz_copy_append: "\<exists>ys. lz_copy n d out = out @ ys \<and> length ys = n"
proof (induction n arbitrary: out)
  case (Suc n)
  obtain ys where "lz_copy n d (out @ [out ! (length out - d)]) = (out @ [out ! (length out - d)]) @ ys" "length ys = n"
    using Suc.IH by blast
  then show ?case by (intro exI [of _ "out ! (length out - d) # ys"]) simp
qed simp

lemma ref_output_prefix: "ref_output dmax it out = Some out' \<Longrightarrow> prefix out out'"
  using lz_copy_append by (auto simp: ref_output_def prefix_def split: deflate_item.splits if_splits) blast

lemma ref_codes_prefix: "ref_codes ll dl dmax b out = Some (b', out') \<Longrightarrow> prefix out out'"
proof (induction ll dl dmax b out rule: ref_codes.induct)
  case (1 ll dl dmax b out)
  obtain it b1 where it: "ref_item ll dl b = Some (it, b1)"
    using "1.prems" by (subst (asm) ref_codes.simps) (auto split: option.splits)
  show ?case
  proof (cases "it = EndBlock")
    case True
    then show ?thesis using "1.prems" it by (subst (asm) ref_codes.simps) simp
  next
    case False
    then obtain out1 where o: "ref_output dmax it out = Some out1" "ref_codes ll dl dmax b1 out1 = Some (b', out')"
      using "1.prems" it by (subst (asm) ref_codes.simps) (auto split: option.splits)
    show ?thesis using "1.IH" [OF it refl False o] ref_output_prefix [OF o(1)] by (rule prefix_order.trans [rotated])
  qed
qed

lemma ref_bytes_append: "ref_bytes n b out = Some (b', out') \<Longrightarrow> \<exists>ys. out' = out @ ys \<and> length ys = n"
proof (induction n arbitrary: b out)
  case (Suc n)
  then obtain x b1 where "ref_bytes n b1 (out @ [int x]) = Some (b', out')" by (auto simp: bind_eq_Some_conv)
  from Suc.IH [OF this] show ?case by force
qed simp

lemma ref_block_prefix: "ref_block dmax kind b out = Some (b', out') \<Longrightarrow> prefix out out'"
  by (auto simp: ref_block_def ref_stored_def ref_dynamic_def ref_tables_def bind_eq_Some_conv prefix_def split: if_splits
      dest!: ref_bytes_append ref_codes_prefix)

lemma ref_blocks_prefix: "ref_blocks l dmax b out = Some (b', out') \<Longrightarrow> prefix out out'"
proof (induction l dmax b out rule: ref_blocks.induct)
  case (1 l dmax b out)
  show ?case
  proof (cases l)
    case True
    then show ?thesis using "1.prems" by (subst (asm) ref_blocks.simps) simp
  next
    case False
    then obtain x b1 kind b2 b3 out1 where s: "take_bits 1 b = Some (x, b1)" "take_bits 2 b1 = Some (kind, b2)"
      "ref_block dmax kind b2 out = Some (b3, out1)" "ref_blocks (x = 1) dmax b3 out1 = Some (b', out')"
      using "1.prems" by (subst (asm) ref_blocks.simps) (auto split: option.splits)
    show ?thesis using "1.IH" [OF False s(1) refl s(2) refl s(3) refl s(4)] ref_block_prefix [OF s(3)] by (rule prefix_order.trans [rotated])
  qed
qed

lemma then_blocks_Some: "then_blocks s x = Some y \<longleftrightarrow> (\<exists>b G. x = Some (b, G) \<and> blocks_rest s b G = Some y)"
  by (cases x) (auto simp: then_blocks_def)

lemma item_rest_Some: "item_rest s G x = Some y \<Longrightarrow> \<exists>it b. x = Some (it, b)"
  by (cases x) (auto simp: item_rest_def)

lemma rest_prefix:
  "then_blocks s (Some (b, G)) = Some (b', out') \<Longrightarrow> prefix G out'" "codes_rest s b G = Some (b', out') \<Longrightarrow> prefix G out'"
  "item_rest s G (Some (it, b)) = Some (b', out') \<Longrightarrow> prefix G out'" "blocks_rest s b G = Some (b', out') \<Longrightarrow> prefix G out'"
proof -
  show b: "blocks_rest s b G = Some (b', out') \<Longrightarrow> prefix G out'" for b G by (auto simp: blocks_rest_def dest: ref_blocks_prefix)
  then show "then_blocks s (Some (b, G)) = Some (b', out') \<Longrightarrow> prefix G out'" by (simp add: then_blocks_def)
  have c: "prefix G out'" if r: "codes_rest s b G = Some (b', out')" for b G
  proof -
    obtain b1 G1 where "ref_codes (ll_of s) (dl_of s) (i_dmax s) b G = Some (b1, G1)" "blocks_rest s b1 G1 = Some (b', out')"
      using r unfolding codes_rest_def then_blocks_Some by blast
    then show ?thesis using b ref_codes_prefix by (meson prefix_order.trans)
  qed
  then show "codes_rest s b G = Some (b', out') \<Longrightarrow> prefix G out'" .
  assume i: "item_rest s G (Some (it, b)) = Some (b', out')"
  show "prefix G out'"
  proof (cases "it = EndBlock")
    case True
    then show ?thesis using i b by (simp add: item_rest_def)
  next
    case False
    then obtain G1 where "ref_output (i_dmax s) it G = Some G1" "codes_rest s b G1 = Some (b', out')"
      using i by (auto simp: item_rest_def bind_eq_Some_conv)
    then show ?thesis using c ref_output_prefix by (meson prefix_order.trans)
  qed
qed

text \<open>At whatever point, what has been put out is the beginning of the whole.\<close>

lemma to_come_prefix: "to_come cl s b G = Some (b', out') \<Longrightarrow> prefix G out'"
proof -
  assume a: "to_come cl s b G = Some (b', out')"
  have th: "prefix G out'" if "then_blocks s x = Some (b', out')" "\<And>b1 G1. x = Some (b1, G1) \<Longrightarrow> prefix G G1" for x
    using that by (cases x) (auto simp: then_blocks_def dest!: rest_prefix(4) intro: prefix_order.trans)
  have it: "prefix G out'" if "item_rest s G x = Some (b', out')" for x
    using that item_rest_Some [OF that] rest_prefix(3) by blast
  have tr: "prefix G out'" if "tables_rest s G x = Some (b', out')" for x
    using that by (cases x) (auto simp: tables_rest_def ref_tables_def split: if_splits intro!: th dest: ref_codes_prefix)
  have cr: "prefix G out'" if "codelens_rest s G x = Some (b', out')" for x
    using that by (cases x) (auto simp: codelens_rest_def split: if_splits intro!: tr)
  have rb: "prefix G G1" if "ref_bytes n b2 G = Some (b1, G1)" for n b2 b1 G1 using ref_bytes_append [OF that] by (auto simp: prefix_def)
  have rs: "prefix G G1" if "ref_stored b2 G = Some (b1, G1)" for b2 b1 G1
    using that by (auto simp: ref_stored_def bind_eq_Some_conv split: if_splits dest: rb)
  have rd: "prefix G G1" if "ref_dynamic d b2 G = Some (b1, G1)" for d b2 b1 G1
    using ref_block_prefix [of d 2 b2 G b1 G1] that by (simp add: ref_block_def)
  show ?thesis
    using a by (auto simp: to_come_def split: inflate_mode.splits dest: rest_prefix it tr cr intro: th [OF _ rb] th [OF _ rs] th [OF _ rd])
qed

text \<open>When \<open>inflate\<close> stops for want of room, there is more to put out.\<close>

lemma to_come_more:
  assumes "to_come cl s b G = Some (b', out')" "mode_ok cl g s" "i_mode s \<in> {COPY, MATCH, LIT}" "i_mode s = COPY \<longrightarrow> i_length s \<noteq> 0"
  shows "length G < length out'"
proof -
  have g: "length G < length out'" if "codes_rest s b1 (G @ ys) = Some (b', out')" "ys \<noteq> []" for b1 ys
    using prefix_length_le [OF rest_prefix(2) [OF that(1)]] that(2) by (cases ys) simp_all
  have t: "length G < length out'" if "blocks_rest s b1 (G @ ys) = Some (b', out')" "length ys = i_length s" "i_length s \<noteq> 0" for b1 ys
    using prefix_length_le [OF rest_prefix(4) [OF that(1)]] that(2,3) by simp
  from assms(3) consider "i_mode s = COPY" | "i_mode s = MATCH" | "i_mode s = LIT" by blast
  then show ?thesis
  proof cases
    case 1
    then show ?thesis using assms(1,4) t by (fastforce simp: to_come_simps then_blocks_def bind_eq_Some_conv dest: ref_bytes_append)
  next
    case 2
    obtain ys where ys: "lz_copy (i_length s) (i_offset s) G = G @ ys" "length ys = i_length s" using lz_copy_append by blast
    moreover have "ys \<noteq> []" using ys(2) assms(2) 2 by (auto simp: mode_ok_simps)
    ultimately show ?thesis using assms(1) 2 g [of b ys] by (simp add: to_come_simps item_rest_def ref_output_def split: if_splits)
  next
    case 3
    then show ?thesis using assms(1) g by (auto simp: to_come_simps item_rest_def ref_output_def)
  qed
qed

section \<open>Sessions\<close>

text \<open>What the specification says of the bytes \<open>bs\<close>: the bits after the last block, and the output.\<close>

definition ref_inflate :: "int list \<Rightarrow> (bits \<times> int list) option" where
  "ref_inflate bs = ref_blocks False 32768 (byte_stream bs) []"

text \<open>A new stream for raw data with an output buffer, and the buffers that the caller gives later.\<close>

definition raw_stream :: "int list \<Rightarrow> zstream" where
  "raw_stream buf = (snd (inflateInit2 new_ZStream (- 15)))\<lparr>z_output := Some buf, z_next_out := 0, z_avail_out := length buf\<rparr>"

definition give_input :: "int list \<Rightarrow> zstream \<Rightarrow> zstream" where
  "give_input bs strm = strm\<lparr>z_input := Some bs, z_next_in := 0, z_avail_in := length bs\<rparr>"

definition give_output :: "int list \<Rightarrow> zstream \<Rightarrow> zstream" where
  "give_output buf strm = strm\<lparr>z_output := Some buf, z_next_out := 0, z_avail_out := length buf\<rparr>"

text \<open>
  What was fed, what was put out, and the last return code. The first stream of the module builds the fixed
  tables, and later ones find them. New input is given when the old is used up, and a new output buffer at
  any time. After the end and after an error there are no more calls.
\<close>

inductive session :: "fixed_tables \<Rightarrow> zstream \<Rightarrow> int list \<Rightarrow> int list \<Rightarrow> int \<Rightarrow> bool" where
  first: "is_bytes buf \<Longrightarrow> session no_fixed_tables (raw_stream buf) [] [] Z_OK"
| another: "session g strm fed out ret \<Longrightarrow> is_bytes buf \<Longrightarrow> session g (raw_stream buf) [] [] Z_OK"
| feed: "session g strm fed out ret \<Longrightarrow> z_avail_in strm = 0 \<Longrightarrow> is_bytes bs \<Longrightarrow> session g (give_input bs strm) (fed @ bs) out ret"
| flush: "session g strm fed out ret \<Longrightarrow> is_bytes buf \<Longrightarrow> session g (give_output buf strm) fed out ret"
| call: "session g strm fed out ret \<Longrightarrow> ret = Z_OK \<or> ret = Z_BUF_ERROR \<Longrightarrow> no_stop fl \<Longrightarrow>
    inflate g strm fl = Some (Inr (ret', g', strm')) \<Longrightarrow> session g' strm' fed (out @ written strm strm') ret'"

definition session_ok :: "fixed_tables \<Rightarrow> zstream \<Rightarrow> int list \<Rightarrow> int list \<Rightarrow> int \<Rightarrow> bool" where
  "session_ok g strm fed out ret \<longleftrightarrow> call_args strm \<and> fixed_ok g \<and>
     (\<exists>s. z_state strm = Some s \<and>
       (if ret = Z_STREAM_END then \<forall>F. ref_inflate (fed @ F) = Some (state_stream s (call_input strm @ F), out)
        else if ret = Z_DATA_ERROR then \<forall>F. ref_inflate (fed @ F) = None
        else (ret = Z_OK \<or> ret = Z_BUF_ERROR) \<and>
          (\<exists>cl. carried cl g s out \<and> (\<forall>F. rest_of cl s (call_input strm @ F) out = ref_inflate (fed @ F)))))"

lemma session_okD:
  assumes "session_ok g strm fed out ret"
  shows "ret = Z_STREAM_END \<Longrightarrow> \<exists>b. ref_inflate (fed @ F) = Some (b, out)"
    "ret = Z_DATA_ERROR \<Longrightarrow> ref_inflate (fed @ F) = None"
    "ret = Z_OK \<or> ret = Z_BUF_ERROR \<Longrightarrow> \<exists>cl s. z_state strm = Some s \<and> carried cl g s out \<and>
      (\<forall>F. rest_of cl s (call_input strm @ F) out = ref_inflate (fed @ F))"
    "call_args strm" "fixed_ok g"
  using assms by (auto simp: session_ok_def Z_OK_def Z_BUF_ERROR_def Z_STREAM_END_def Z_DATA_ERROR_def split: if_splits)

lemma raw_state:
  assumes "is_bytes buf" "fixed_ok g"
  shows "session_ok g (raw_stream buf) [] [] Z_OK"
proof -
  obtain s where s: "z_state (raw_stream buf) = Some s" and S: "i_mode s = HEAD" "i_last s = 0" "i_wrap s = 0" "i_dmax s = 32768" "i_hold s = 0" "i_bits s = 0"
    "i_sane s" "i_wbits s = 15" "i_window s = None" "i_whave s = 0" "i_wsize s = 0" "i_wnext s = 0" "length (i_lens s) = 320" "length (i_work s) = 288"
    "length (i_lendyn s) = ENOUGH_LENS" "length (i_distdyn s) = ENOUGH_DISTS"
    by (simp add: raw_stream_def inflateInit2_def inflateReset2_def wrap_request_def inflateReset_def inflateResetKeep_def new_inflate_state_def Z_OK_def)
  have "state_ok s []" using S by (simp add: state_ok_def window_ok_def)
  then have "carried [] g s []" using S assms(2) by (simp add: carried_def started_def mode_ok_simps)
  moreover have "rest_of [] s (call_input (raw_stream buf) @ F) [] = ref_inflate F" for F
    using S by (simp add: rest_of_def started_def to_come_simps blocks_rest_def state_stream_def byte_stream_def ref_inflate_def call_input_def raw_stream_def
        inflateInit2_def inflateReset2_def wrap_request_def inflateReset_def inflateResetKeep_def new_inflate_state_def new_ZStream_def nullable_def Z_OK_def)
  moreover have "call_args (raw_stream buf)" using assms(1)
    by (simp add: call_args_def raw_stream_def inflateInit2_def inflateReset2_def wrap_request_def inflateReset_def inflateResetKeep_def
        new_inflate_state_def new_ZStream_def nullable_def Z_OK_def)
  ultimately show ?thesis using s assms(2) by (auto simp: session_ok_def Z_OK_def Z_STREAM_END_def Z_DATA_ERROR_def)
qed

lemma give_input_ok: "call_args strm \<Longrightarrow> is_bytes bs \<Longrightarrow> call_args (give_input bs strm)" "call_input (give_input bs strm) = bs"
  "z_state (give_input bs strm) = z_state strm" "z_avail_in strm = 0 \<Longrightarrow> call_input strm = []"
  by (simp_all add: call_args_def give_input_def call_input_def nullable_def)

lemma give_output_ok: "call_args strm \<Longrightarrow> is_bytes buf \<Longrightarrow> call_args (give_output buf strm)" "call_input (give_output buf strm) = call_input strm"
  "z_state (give_output buf strm) = z_state strm"
  by (simp_all add: call_args_def give_output_def call_input_def)

text \<open>A call, as it looks to the session.\<close>

lemma session_call:
  assumes ok: "session_ok g strm fed out ret" and ret: "ret = Z_OK \<or> ret = Z_BUF_ERROR" and fl: "no_stop fl"
  shows "\<exists>ret' g' strm'. inflate g strm fl = Some (Inr (ret', g', strm')) \<and> session_ok g' strm' fed (out @ written strm strm') ret' \<and>
    z_next_out strm' + z_avail_out strm' = z_next_out strm + z_avail_out strm \<and> z_next_out strm \<le> z_next_out strm' \<and>
    ret' \<in> {Z_OK, Z_BUF_ERROR, Z_STREAM_END, Z_DATA_ERROR} \<and>
    (ret' = Z_OK \<or> ret' = Z_BUF_ERROR \<longrightarrow>
      z_avail_out strm' = 0 \<and> (\<forall>F b whole. ref_inflate (fed @ F) = Some (b, whole) \<longrightarrow> length (out @ written strm strm') < length whole) \<or>
      z_avail_in strm' = 0 \<and> ref_inflate fed = None)"
proof -
  obtain s cl where s: "z_state strm = Some s" "carried cl g s out" "\<And>F. rest_of cl s (call_input strm @ F) out = ref_inflate (fed @ F)" "call_args strm"
    using session_okD(3,4) [OF ok] ret by blast
  obtain ret' g' strm' where c: "inflate g strm fl = Some (Inr (ret', g', strm'))" "call_ok cl out strm s (ret', g', strm')"
    using inflate_call [OF fl s(2,4,1)] by (metis prod_cases3)
  let ?out = "out @ written strm strm'"
  have C: "call_args strm'" "fixed_ok g'" "z_next_out strm' + z_avail_out strm' = z_next_out strm + z_avail_out strm" "z_next_out strm \<le> z_next_out strm'"
    using c(2) by (auto simp: call_ok_def)
  obtain s' where s': "z_state strm' = Some s'" and R:
      "if ret' = Z_STREAM_END then \<forall>F. rest_of cl s (call_input strm @ F) out = Some (state_stream s' (call_input strm' @ F), ?out)
       else if ret' = Z_DATA_ERROR then \<forall>F. rest_of cl s (call_input strm @ F) out = None
       else (ret' = Z_OK \<or> ret' = Z_BUF_ERROR) \<and> (\<exists>cl'. carried cl' g' s' ?out \<and>
         (\<forall>F. rest_of cl' s' (call_input strm' @ F) ?out = rest_of cl s (call_input strm @ F) out) \<and>
         (z_avail_out strm' = 0 \<and> i_mode s' \<in> {COPY, MATCH, LIT} \<and> (i_mode s' = COPY \<longrightarrow> i_length s' \<noteq> 0) \<or>
          z_avail_in strm' = 0 \<and> rest_of cl' s' [] ?out = None))"
    using c(2) unfolding call_ok_def by blast
  have "session_ok g' strm' fed ?out ret'"
    using C(1,2) s' R unfolding session_ok_def s(3) by (auto split: if_splits)
  moreover have "ret' \<in> {Z_OK, Z_BUF_ERROR, Z_STREAM_END, Z_DATA_ERROR}" using R by (auto split: if_splits)
  moreover have "z_avail_out strm' = 0 \<and> (\<forall>F b whole. ref_inflate (fed @ F) = Some (b, whole) \<longrightarrow> length ?out < length whole) \<or>
      z_avail_in strm' = 0 \<and> ref_inflate fed = None" if r': "ret' = Z_OK \<or> ret' = Z_BUF_ERROR"
  proof -
    have "ret' \<noteq> Z_STREAM_END" "ret' \<noteq> Z_DATA_ERROR" using r' by (auto simp: Z_OK_def Z_BUF_ERROR_def Z_STREAM_END_def Z_DATA_ERROR_def)
    then obtain cl' where c': "carried cl' g' s' ?out" "\<And>F. rest_of cl' s' (call_input strm' @ F) ?out = ref_inflate (fed @ F)"
      "z_avail_out strm' = 0 \<and> i_mode s' \<in> {COPY, MATCH, LIT} \<and> (i_mode s' = COPY \<longrightarrow> i_length s' \<noteq> 0) \<or>
          z_avail_in strm' = 0 \<and> rest_of cl' s' [] ?out = None"
      using R unfolding s(3) by auto
    from c'(3) show ?thesis
    proof (elim disjE conjE)
      assume a: "z_avail_out strm' = 0" "i_mode s' \<in> {COPY, MATCH, LIT}" "i_mode s' = COPY \<longrightarrow> i_length s' \<noteq> 0"
      have m: "mode_ok cl' g' s'" "started s' = s'" using c'(1) a(2) by (auto simp: carried_def started_def)
      have "length ?out < length whole" if "ref_inflate (fed @ F) = Some (b, whole)" for F b whole
        using to_come_more [of cl' s' "state_stream s' (call_input strm' @ F)" ?out b whole, OF _ m(1) a(2,3)] that c'(2) [of F] by (simp add: rest_of_def m(2))
      then show ?thesis using a(1) by blast
    next
      assume a: "z_avail_in strm' = 0" "rest_of cl' s' [] ?out = None"
      then have "ref_inflate fed = None" using c'(2) [of "[]"] by (simp add: call_input_def)
      then show ?thesis using a(1) by blast
    qed
  qed
  ultimately show ?thesis using c(1) C(3,4) by blast
qed

lemma session_invariant: "session g strm fed out ret \<Longrightarrow> session_ok g strm fed out ret"
proof (induction rule: session.induct)
  case (first buf)
  then show ?case by (rule raw_state) (simp add: fixed_ok_def no_fixed_tables_def)
next
  case (another g strm fed out ret buf)
  then show ?case by (intro raw_state) (simp_all add: session_ok_def)
next
  case (feed g strm fed out ret bs)
  then show ?case by (auto simp: session_ok_def give_input_ok split: if_splits)
next
  case (flush g strm fed out ret buf)
  then show ?case by (auto simp: session_ok_def give_output_ok split: if_splits)
next
  case (call g strm fed out ret fl ret' g' strm')
  then show ?case using session_call [OF call.IH call.hyps(2,3)] by auto
qed

lemma session_prefix:
  assumes s: "session g strm fed out ret" and r: "ref_inflate (fed @ rest_bytes) = Some (b, whole)"
  shows "prefix out whole"
proof -
  note ok = session_invariant [OF s]
  show ?thesis
  proof (cases "ret = Z_OK \<or> ret = Z_BUF_ERROR")
    case True
    from session_okD(3) [OF ok True] obtain cl st where "rest_of cl st (call_input strm @ rest_bytes) out = Some (b, whole)" unfolding r [symmetric] by blast
    then show ?thesis unfolding rest_of_def by (rule to_come_prefix)
  next
    case False
    then have "ret = Z_STREAM_END" using ok r by (auto simp: session_ok_def split: if_splits)
    then show ?thesis using session_okD(1) [OF ok, of rest_bytes] r by auto
  qed
qed

lemma written_length: "call_args strm' \<Longrightarrow> z_next_out strm \<le> z_next_out strm' \<Longrightarrow> length (written strm strm') = z_next_out strm' - z_next_out strm"
  by (auto simp: written_def call_args_def nullable_def)

lemma session_end:
  assumes s: "session g strm fed out ret" and ret: "ret = Z_OK \<or> ret = Z_BUF_ERROR" and fl: "no_stop fl"
    and c: "inflate g strm fl = Some (Inr (ret', g', strm'))" and r: "ref_inflate fed = Some (b, whole)"
  shows "if length whole \<le> length out + z_avail_out strm then ret' = Z_STREAM_END \<and> out @ written strm strm' = whole
    else (ret' = Z_OK \<or> ret' = Z_BUF_ERROR) \<and> z_avail_out strm' = 0 \<and> out @ written strm strm' = take (length out + z_avail_out strm) whole"
proof -
  let ?out = "out @ written strm strm'"
  have call: "session_ok g' strm' fed ?out ret'" "z_next_out strm' + z_avail_out strm' = z_next_out strm + z_avail_out strm" "z_next_out strm \<le> z_next_out strm'"
    "ret' \<in> {Z_OK, Z_BUF_ERROR, Z_STREAM_END, Z_DATA_ERROR}"
    "ret' = Z_OK \<or> ret' = Z_BUF_ERROR \<longrightarrow> z_avail_out strm' = 0 \<and> length ?out < length whole"
    using session_call [OF session_invariant [OF s] ret fl] c r by (auto dest: spec [of _ "[]"])
  have "call_args strm'" using call(1) by (simp add: session_ok_def)
  then have len: "length ?out + z_avail_out strm' = length out + z_avail_out strm" using call(2,3) written_length by simp
  have pre: "prefix ?out whole" using session_prefix [OF session.call [OF s ret fl c], of "[]"] r by simp
  have "ret' \<noteq> Z_DATA_ERROR" using session_okD(2) [OF call(1), of "[]"] r by auto
  then consider "ret' = Z_STREAM_END" | "ret' = Z_OK \<or> ret' = Z_BUF_ERROR" using call(4) by blast
  then show ?thesis
  proof cases
    case 1
    then have "?out = whole" using session_okD(1) [OF call(1), of "[]"] r by simp
    then show ?thesis using 1 len by (metis le_add1)
  next
    case 2
    then have "z_avail_out strm' = 0" "length ?out < length whole" using call(5) by blast+
    moreover from this have "?out = take (length out + z_avail_out strm) whole" using pre len by (auto simp: prefix_def)
    moreover have "length ?out = length out + z_avail_out strm" using len \<open>z_avail_out strm' = 0\<close> by simp
    ultimately show ?thesis using 2 by (metis not_le)
  qed
qed

lemma whole_call:
  assumes bs: "is_bytes bs" "is_bytes buf" and fl: "no_stop fl"
  shows "\<exists>ret g' strm'. inflate no_fixed_tables (give_input bs (raw_stream buf)) fl = Some (Inr (ret, g', strm')) \<and>
    session g' strm' bs (take (z_next_out strm') (nullable (z_output strm'))) ret \<and>
    (ret = Z_STREAM_END \<longleftrightarrow> (\<exists>b whole. ref_inflate bs = Some (b, whole) \<and> length whole \<le> length buf)) \<and>
    (\<forall>b whole. ref_inflate bs = Some (b, whole) \<longrightarrow> take (z_next_out strm') (nullable (z_output strm')) = take (length buf) whole)"
proof -
  let ?strm = "give_input bs (raw_stream buf)"
  have av: "z_avail_in (raw_stream buf) = 0"
    by (simp add: raw_stream_def inflateInit2_def inflateReset2_def wrap_request_def inflateReset_def inflateResetKeep_def new_inflate_state_def new_ZStream_def Z_OK_def)
  have s: "session no_fixed_tables ?strm bs [] Z_OK" using session.feed [OF session.first [OF bs(2)] av bs(1)] by simp
  have room: "z_avail_out ?strm = length buf" "z_next_out ?strm = 0" by (simp_all add: give_input_def raw_stream_def)
  obtain ret' g' strm' where c: "inflate no_fixed_tables ?strm fl = Some (Inr (ret', g', strm'))"
    using session_call [OF session_invariant [OF s] _ fl] by blast
  have s': "session g' strm' bs (written ?strm strm') ret'" using session.call [OF s _ fl c] by simp
  have w: "written ?strm strm' = take (z_next_out strm') (nullable (z_output strm'))" by (simp add: written_def room)
  have e: "if length whole \<le> length buf then ret' = Z_STREAM_END \<and> written ?strm strm' = whole
      else (ret' = Z_OK \<or> ret' = Z_BUF_ERROR) \<and> written ?strm strm' = take (length buf) whole" if "ref_inflate bs = Some (b, whole)" for b whole
    using session_end [OF s _ fl c that] by (simp add: room split: if_splits)
  have "ret' = Z_STREAM_END \<longleftrightarrow> (\<exists>b whole. ref_inflate bs = Some (b, whole) \<and> length whole \<le> length buf)"
  proof
    assume r: "ret' = Z_STREAM_END"
    then obtain b where b: "ref_inflate bs = Some (b, written ?strm strm')"
      using session_okD(1) [OF session_invariant [OF s'], of "[]"] by auto
    then show "\<exists>b whole. ref_inflate bs = Some (b, whole) \<and> length whole \<le> length buf"
      using e [OF b] r by (auto simp: Z_OK_def Z_BUF_ERROR_def Z_STREAM_END_def split: if_splits)
  qed (use e in force)
  moreover have "written ?strm strm' = take (length buf) whole" if "ref_inflate bs = Some (b, whole)" for b whole
    using e [OF that] by (simp split: if_splits)
  ultimately show ?thesis using c s' unfolding w by blast
qed

section \<open>The properties\<close>

text \<open>
  Property C1. Raw data fed to \<open>inflate\<close> in any pieces, and read in buffers of any sizes: when it says that
  the stream has ended, what it put out is the output of RFC 1951 for what it was fed; it reports an
  error only if no continuation is a valid stream; and at any time its output is the beginning of what the
  specification gives for any continuation.
\<close>

theorem inflate_session:
  assumes "session g strm fed out ret"
  shows "ret \<in> {Z_OK, Z_BUF_ERROR, Z_STREAM_END, Z_DATA_ERROR} \<and>
    (ret = Z_STREAM_END \<longrightarrow> (\<exists>b. ref_inflate fed = Some (b, out))) \<and>
    (ret = Z_DATA_ERROR \<longrightarrow> (\<forall>rest_bytes. ref_inflate (fed @ rest_bytes) = None)) \<and>
    (\<forall>rest_bytes b whole. ref_inflate (fed @ rest_bytes) = Some (b, whole) \<longrightarrow> prefix out whole)"
  using session_okD(1) [OF session_invariant [OF assms], of "[]"] session_okD(2) [OF session_invariant [OF assms]]
    session_prefix [OF assms] session_invariant [OF assms]
  by (auto simp: session_ok_def split: if_splits)

text \<open>
  Property C4. In a session of raw data every call returns, and none throws. It stops for more only if the
  input is used up and not a whole stream, or the output buffer is full and there is more to put out. Calls
  with a header of zlib or gzip, or with the flush values \<open>Z_BLOCK\<close> and \<open>Z_TREES\<close>, are not covered.
\<close>

theorem inflate_returns:
  assumes "session g strm fed out ret" "ret = Z_OK \<or> ret = Z_BUF_ERROR" "no_stop fl"
  shows "\<exists>ret' g' strm'. inflate g strm fl = Some (Inr (ret', g', strm')) \<and>
    (ret' = Z_OK \<or> ret' = Z_BUF_ERROR \<longrightarrow>
      z_avail_in strm' = 0 \<and> ref_inflate fed = None \<or>
      z_avail_out strm' = 0 \<and> (\<forall>rest_bytes b whole. ref_inflate (fed @ rest_bytes) = Some (b, whole) \<longrightarrow>
        length (out @ written strm strm') < length whole))"
  using session_call [OF session_invariant [OF assms(1)] assms(2,3)] by blast

text \<open>
  Property C2. One call with a whole input: \<open>inflate\<close> ends the stream exactly if the input is valid and its
  output fits into the buffer, and then the buffer begins with this output; if it does not fit, the
  buffer is filled with its beginning.
\<close>

theorem inflate_whole:
  assumes "is_bytes bs" "is_bytes buf" "no_stop fl"
  shows "\<exists>ret g' strm'. inflate no_fixed_tables (give_input bs (raw_stream buf)) fl = Some (Inr (ret, g', strm')) \<and>
    (ret = Z_STREAM_END \<longleftrightarrow> (\<exists>b whole. ref_inflate bs = Some (b, whole) \<and> length whole \<le> length buf)) \<and>
    (\<forall>b whole. ref_inflate bs = Some (b, whole) \<longrightarrow> take (z_next_out strm') (nullable (z_output strm')) = take (length buf) whole)"
  using whole_call [OF assms] by blast

text \<open>A stream with two stored blocks.\<close>

definition demo_raw :: "int list" where
  "demo_raw = [0, 2, 0, 253, 255, 104, 105, 1, 1, 0, 254, 255, 33]"

lemma demo_raw_bytes: "is_bytes demo_raw" "is_bytes (replicate n 0)" "no_stop 4"
  by (auto simp: demo_raw_def is_bytes_def no_stop_def Z_BLOCK_def Z_TREES_def)

lemma ref_bytes_numeral:
  "ref_bytes (numeral k) b out = Option.bind (take_bits 8 b) (\<lambda>(x, b). ref_bytes (pred_numeral k) b (out @ [int x]))"
  by (simp add: numeral_eq_Suc)

lemma demo_raw_ref: "ref_inflate demo_raw = Some ((0, 0), [104, 105, 33])"
  by (simp add: ref_inflate_def byte_stream_def demo_raw_def ref_blocks.simps take_bits_def ref_block_def ref_stored_def align_def ref_bytes_numeral)

text \<open>The session of one call with all of it, which ends.\<close>

lemma demo_session: "\<exists>g strm. session g strm demo_raw [104, 105, 33] Z_STREAM_END"
proof -
  let ?buf = "replicate 3 0 :: int list"
  obtain ret g' strm' where c: "session g' strm' demo_raw (take (z_next_out strm') (nullable (z_output strm'))) ret"
    "ret = Z_STREAM_END \<longleftrightarrow> (\<exists>b whole. ref_inflate demo_raw = Some (b, whole) \<and> length whole \<le> length ?buf)"
    "\<forall>b whole. ref_inflate demo_raw = Some (b, whole) \<longrightarrow> take (z_next_out strm') (nullable (z_output strm')) = take (length ?buf) whole"
    using whole_call [OF demo_raw_bytes(1) demo_raw_bytes(2) [of 3] demo_raw_bytes(3)] by blast
  then have "ret = Z_STREAM_END" "take (z_next_out strm') (nullable (z_output strm')) = [104, 105, 33]" using demo_raw_ref by simp_all
  then show ?thesis using c(1) by auto
qed

theorem inflate_session_witness: "\<exists>g strm b. session g strm demo_raw [104, 105, 33] Z_STREAM_END \<and> ref_inflate demo_raw = Some (b, [104, 105, 33])"
proof -
  obtain g strm where "session g strm demo_raw [104, 105, 33] Z_STREAM_END" using demo_session by blast
  then show ?thesis using inflate_session [of g strm demo_raw "[104, 105, 33]" Z_STREAM_END] by blast
qed

theorem inflate_returns_witness: "\<exists>ret' g' strm'. inflate no_fixed_tables (raw_stream [0]) 4 = Some (Inr (ret', g', strm'))"
  using inflate_returns [OF session.first [of "[0]"] _ demo_raw_bytes(3)] by (fastforce simp: is_bytes_def)

theorem inflate_whole_witness: "\<exists>g' strm'. inflate no_fixed_tables (give_input demo_raw (raw_stream [0, 0, 0])) 4 = Some (Inr (Z_STREAM_END, g', strm')) \<and>
    take (z_next_out strm') (nullable (z_output strm')) = [104, 105, 33]"
proof -
  have b: "is_bytes [0, 0, 0]" by simp
  show ?thesis using inflate_whole [OF demo_raw_bytes(1) b demo_raw_bytes(3)] demo_raw_ref by fastforce
qed

end
