(* ===== verification/Spec2Isabelle.thy ===== *)
theory Spec2Isabelle
  imports Base64 Archive ZipSafety Pages Promises Adler32 InflateStream
begin

text \<open>
  This development models the JavaScript of the repository: the front end of the documentation
  pages under \<open>src/documentation/javadoc/apidocs\<close>, that is \<open>script.js\<close>, \<open>search.js\<close> and the bundled
  library \<open>jquery/jszip/dist/jszip.js\<close> (JSZip 3.1.5 with its own copies of \<open>lie\<close>, \<open>immediate\<close> and
  \<open>pako\<close>). A page runs \<open>loadScripts\<close> of \<open>script.js\<close>, which adds the libraries and the search index;
  \<open>search.js\<close> ranks the index for what the reader types; JSZip reads and writes the ZIP archives the
  index may be packed in.

  \<^bold>\<open>How JavaScript is modelled.\<close> A Number that holds an integer is an \<open>int\<close> (a \<open>nat\<close> where it is an
  index or a count); the bitwise operators are \<open>js_and\<close>, \<open>js_shl\<close> and the others of JsPrelude, with the
  conversions to 32 bits written out. A string is a list of 16-bit code units, a typed array a list. A
  \<open>throw\<close> is \<open>Inl\<close> of an error. An object that is shared and changed is a record that is passed on;
  promises, whose sharing matters, live in an explicit store. A loop that may run forever is a partial
  function, or an option whose \<open>None\<close> stands for not returning.

  \<^bold>\<open>Parts of the program and their theories.\<close>
  \<^item> Crc32 (\<open>lib/crc32\<close>, \<open>Crc32Probe\<close>), Utf8 (\<open>lib/utf8\<close>), Base64 (\<open>lib/base64\<close>), JsDate (the DOS dates
    of \<open>lib/generate/ZipFileWorker\<close> and \<open>lib/reader/DataReader\<close>), Utils (\<open>lib/utils\<close>, \<open>lib/support\<close>):
    the conversions. Their lemmas are equivalences with short specifications (a shift register, the
    UTF-8 of Unicode scalar values, six-bit groups) and round trips.
  \<^item> DataReader (\<open>lib/reader/*\<close>): the four readers of binary data. The locale \<open>data_reader\<close> is their
    common interface; it is interpreted for each of them, and \<open>readInt\<close> is proved once.
  \<^item> ZipWriter (\<open>lib/generate/ZipFileWorker\<close>) with the layout of an archive as its specification,
    ZipReader (\<open>lib/zipEntries\<close>, \<open>lib/zipEntry\<close>), ZipRoundtrip (what was written is read back) and
    ZipSafety (what holds of the reader on any input: when it returns, which errors it reports).
  \<^item> ObjectStore (\<open>lib/object\<close>): the table of files, with the invariants of its folders. The table is a
    plain JavaScript object, and the model keeps what it inherits.
  \<^item> Streams (\<open>lib/stream/*\<close>): the workers of a chain with their ticks, pauses and errors, as a step
    relation. Contents (\<open>lib/compressedObject\<close>, \<open>lib/zipObject\<close>, \<open>lib/stream/StreamHelper\<close>) and Archive
    (\<open>lib/generate\<close>, \<open>lib/load\<close>) put the parts together: from a table of files to an archive and back.
  \<^item> Promises (\<open>lie\<close>, \<open>immediate\<close>): the promises that carry the results, as a store with a queue of
    tasks, and the invariant that a promise settles once.
  \<^item> Adler32, PakoCrc32, InflateTable, InflateState, InflateFast, Inflate (\<open>pako/lib/zlib\<close>): the checksums,
    \<open>inflate_table\<close>, the state and the window, \<open>inflate_fast\<close> and the state machine \<open>inflate\<close>, one definition
    for each mode. HuffmanCode and DeflateFormat are the specification, the Huffman codes and the blocks of
    RFC 1951 over a stream of bits.
  \<^item> InflateDecode and InflateEnough: the tables decode the codes of RFC 1951, and fit into their arrays.
    InflateBits, InflateWindow, InflateCopy, InflateCodes, InflateTables: the bit buffer, the window as a
    ring, the copying of matches, the reading of a code. InflateRest states the invariant of the state
    machine, and for each mode what is left to decode; InflateSteps, InflateLens, InflateDynamic,
    InflateSymbols and InflateMatches show that each mode keeps both; InflateFastOk, InflateFastTurn and
    InflateFastLoop show it of \<open>inflate_fast\<close>. InflateCorrect puts them together for one call, and
    InflateStream for sequences of calls on raw data, which is how JSZip uses \<open>inflate\<close>.
  \<^item> Search (\<open>search.js\<close>) and Pages (\<open>script.js\<close>): matching, ranking and limits of the search, the menu,
    the scripts a page loads, the summary tables.

  \<^bold>\<open>Bounds and fuel.\<close> \<open>table_loop\<close> of InflateTable has the number of symbols as its fuel: every turn
  takes a symbol, and \<open>inflate_table_correct\<close> shows that it is enough. The loops of \<open>inflate\<close> and
  \<open>inflate_fast\<close> are partial functions, and InflateFastLoop, InflateDynamic and InflateCorrect prove that they
  end: each turn uses bits of the input, or fills output, or moves to a mode that is nearer the end. The other counters are the
  code's own bounds, or are proved enough beside their definitions. Nothing is bounded that the code
  does not bound, except by hypotheses of the theorems, which are stated there.

  \<^bold>\<open>Not modelled.\<close> jQuery, jQuery UI and jQuery Migrate are third-party libraries that work on the
  browser's document; what \<open>search.js\<close> and \<open>script.js\<close> need of them is an argument of the definitions.
  \<open>jszip-utils\<close> and the adapters for node are input and output. The compressor of pako is not modelled;
  the flate workers of \<open>lib/flate\<close> are a parameter of Contents. Of pako's wrappers, the classes
  \<open>Inflate\<close> and \<open>Deflate\<close> with their string and buffer helpers, which loop over the calls of \<open>inflate\<close> and
  \<open>deflate\<close>, are not modelled either. The encoder and decoder of node are not the program's:
  Contents leaves UTF-8 on node out of what \<open>async\<close> gives, and elsewhere the text of a file is taken to be encoded
  as in a browser, which differs from node only for surrogates that are alone. The minified copies and the data of the
  index are generated. The correctness of \<open>inflate\<close> is for raw data and for flush values other than
  \<open>Z_BLOCK\<close> and \<open>Z_TREES\<close>; the headers and trailers of zlib and gzip are modelled, but not proved. The query engine itself is Java.
\<close>

end
